(* ===== verification/Prelude.thy ===== *)
theory Prelude
  imports Main "HOL-Library.Word" "HOL-Library.Monad_Syntax"
begin

text \<open>
  What every component of the development shares: the types of C values, the checked
  operations on signed integers, the lemma collections and the generic lemmas on
  lists, options and bit masks.

  A computation of the C code that may run into undefined behaviour (a NULL or dangling
  dereference, an access outside a buffer, a signed overflow) or that may not return is a
  value of an option type: None says that C promises nothing, or that control never comes
  back.  Error codes the code returns on purpose are ordinary results.
\<close>

unbundle bit_operations_syntax

type_synonym byte = "8 word"
type_synonym addr = nat
type_synonym u32 = "32 word"

named_theorems ub_simps "when a checked operation is defined, and its value"
named_theorems inv_intros "introduction rules that establish the components' invariants"

subsection \<open>Signed and unsigned C integers\<close>

text \<open>The range of the 32-bit int type; a signed result outside it is undefined.\<close>

definition INT_MAX :: int where "INT_MAX = 2147483647"
definition INT_MIN :: int where "INT_MIN = - 2147483648"

definition is_int :: "int \<Rightarrow> bool" where
  "is_int n \<longleftrightarrow> INT_MIN \<le> n \<and> n \<le> INT_MAX"

definition c_int :: "int \<Rightarrow> int option" where
  "c_int n = (if is_int n then Some n else None)"

lemma c_int_Some [ub_simps]: "c_int n = Some m \<longleftrightarrow> m = n \<and> is_int n"
  by (auto simp: c_int_def)

lemma c_int_None [ub_simps]: "c_int n = None \<longleftrightarrow> \<not> is_int n"
  by (simp add: c_int_def)

lemma is_int_bounds: "\<bar>n\<bar> \<le> 2147483647 \<Longrightarrow> is_int n"
  by (auto simp: is_int_def INT_MAX_def INT_MIN_def abs_le_iff)

text \<open>Converting a wider value to int keeps the low 32 bits, as every implementation here does.\<close>

definition wrap_int :: "int \<Rightarrow> int" where
  "wrap_int n = (n + 2 ^ 31) mod 2 ^ 32 - 2 ^ 31"

lemma wrap_int_id: "is_int n \<Longrightarrow> wrap_int n = n"
  by (simp add: wrap_int_def is_int_def INT_MAX_def INT_MIN_def)

lemma wrap_int_add: "wrap_int (wrap_int a + b) = wrap_int (a + b)"
  unfolding wrap_int_def by (simp add: algebra_simps mod_simps)

text \<open>The conversions an int goes through when it meets an unsigned operand.\<close>

definition to_unsigned :: "int \<Rightarrow> int" where
  "to_unsigned n = n mod 2 ^ 32"

definition to_size_t :: "int \<Rightarrow> int" where
  "to_size_t n = n mod 2 ^ 64"

lemma to_size_t_neg: "- (2 ^ 63) \<le> n \<Longrightarrow> n < 0 \<Longrightarrow> to_size_t n = 2 ^ 64 + n"
  using mod_pos_pos_trivial [of "n + 2 ^ 64" "2 ^ 64"] by (simp add: to_size_t_def)

lemma to_size_t_nonneg: "0 \<le> n \<Longrightarrow> n < 2 ^ 63 \<Longrightarrow> to_size_t n = n"
  by (simp add: to_size_t_def)

subsection \<open>Bit masks\<close>

lemma int_and_mask_mod: "(a :: int) AND (2 ^ n - 1) = a mod 2 ^ n"
  by (metis mask_eq_exp_minus_1 take_bit_eq_mask take_bit_eq_mod)

subsection \<open>Little-endian words\<close>

definition le_bytes :: "u32 \<Rightarrow> byte list" where
  "le_bytes w = [ucast w, ucast (drop_bit 8 w), ucast (drop_bit 16 w), ucast (drop_bit 24 w)]"

fun le_word :: "byte list \<Rightarrow> u32" where
  "le_word [] = 0"
| "le_word (b # bs) = ucast b OR push_bit 8 (le_word bs)"

lemma length_le_bytes [simp]: "length (le_bytes w) = 4"
  by (simp add: le_bytes_def)

lemma le_word_bytes [simp]: "le_word (le_bytes w) = w"
proof (rule bit_word_eqI)
  fix n
  assume "n < LENGTH(32)"
  then consider "n < 8" | "8 \<le> n" "n < 16" | "16 \<le> n" "n < 24" | "24 \<le> n" "n < 32" by force
  then show "bit (le_word (le_bytes w)) n \<longleftrightarrow> bit w n"
    by cases (auto simp: le_bytes_def bit_simps)
qed

subsection \<open>Options and lists\<close>

lemma bind_Some_iff: "Option.bind m f = Some y \<longleftrightarrow> (\<exists>x. m = Some x \<and> f x = Some y)"
  by (cases m) auto

subsection \<open>Runs that may exit\<close>

text \<open>
  A step of code that may call exit is a sum: the status it exits with, or the state to go on
  with.
\<close>

definition and_then :: "(int + 'a) option \<Rightarrow> ('a \<Rightarrow> (int + 'b) option) \<Rightarrow> (int + 'b) option" where
  "and_then m f = (case m of None \<Rightarrow> None | Some (Inl c) \<Rightarrow> Some (Inl c) | Some (Inr x) \<Rightarrow> f x)"

lemma and_then_simps [simp]:
  "and_then None f = None" "and_then (Some (Inl c)) f = Some (Inl c)" "and_then (Some (Inr x)) f = f x"
  by (simp_all add: and_then_def)

subsection \<open>Arrays\<close>

text \<open>An array access with a C int index: outside the array it is undefined.\<close>

definition arr_get :: "'a list \<Rightarrow> int \<Rightarrow> 'a option" where
  "arr_get xs i = (if 0 \<le> i \<and> i < int (length xs) then Some (xs ! nat i) else None)"

definition arr_set :: "'a list \<Rightarrow> int \<Rightarrow> 'a \<Rightarrow> 'a list option" where
  "arr_set xs i x = (if 0 \<le> i \<and> i < int (length xs) then Some (xs[nat i := x]) else None)"

lemma arr_get_in [ub_simps]: "0 \<le> i \<Longrightarrow> i < int (length xs) \<Longrightarrow> arr_get xs i = Some (xs ! nat i)"
  by (simp add: arr_get_def)

lemma arr_set_in [ub_simps]: "0 \<le> i \<Longrightarrow> i < int (length xs) \<Longrightarrow> arr_set xs i x = Some (xs[nat i := x])"
  by (simp add: arr_set_def)

lemma arr_get_SomeD: "arr_get xs i = Some x \<Longrightarrow> 0 \<le> i \<and> i < int (length xs) \<and> x = xs ! nat i"
  by (simp add: arr_get_def split: if_splits)

end
