(* ===== verification/CHeap.thy ===== *)
theory CHeap
  imports Prelude
begin

text \<open>
  The C heap as the components use it: blocks of bytes with malloc, free, memcpy into a
  block and reads from a block.  Every access is checked, so a double free, a use after
  free or an access outside a block is None.  The interface the clients rely on is the
  locale block_store, interpreted below on the operations of this theory; its clients own a
  table of optional block addresses (owns).
\<close>

record heap =
  blocks :: "addr \<Rightarrow> byte list option"
  brk :: addr
  room :: nat

definition malloc :: "nat \<Rightarrow> heap \<Rightarrow> addr option \<times> heap" where
  "malloc n h =
     (if n \<le> room h
      then (Some (brk h), h\<lparr>blocks := (blocks h)(brk h \<mapsto> replicate n 0),
                            brk := Suc (brk h), room := room h - n\<rparr>)
      else (None, h))"

definition c_free :: "addr \<Rightarrow> heap \<Rightarrow> heap option" where
  "c_free p h = (case blocks h p of
       None \<Rightarrow> None
     | Some bs \<Rightarrow> Some (h\<lparr>blocks := (blocks h)(p := None), room := room h + length bs\<rparr>))"

definition store_bytes :: "addr \<Rightarrow> nat \<Rightarrow> byte list \<Rightarrow> heap \<Rightarrow> heap option" where
  "store_bytes p off src h = do {
     bs \<leftarrow> blocks h p;
     if off + length src \<le> length bs
     then Some (h\<lparr>blocks := (blocks h)(p \<mapsto> take off bs @ src @ drop (off + length src) bs)\<rparr>)
     else None }"

definition load_bytes :: "addr \<Rightarrow> nat \<Rightarrow> nat \<Rightarrow> heap \<Rightarrow> byte list option" where
  "load_bytes p off n h = do {
     bs \<leftarrow> blocks h p;
     if off + n \<le> length bs then Some (take n (drop off bs)) else None }"

definition heap_ok :: "heap \<Rightarrow> bool" where
  "heap_ok h \<longleftrightarrow> (\<forall>p. blocks h p \<noteq> None \<longrightarrow> p < brk h)"

text \<open>
  A table of optional block addresses without repetitions (slots_inj), and one that owns
  exactly a set of blocks.
\<close>

definition slots_inj :: "'p option list \<Rightarrow> bool" where
  "slots_inj ps \<longleftrightarrow> (\<forall>i < length ps. \<forall>j < length ps. ps ! i \<noteq> None \<longrightarrow> ps ! i = ps ! j \<longrightarrow> i = j)"

lemma slots_inj_Cons:
  assumes "slots_inj (x # xs)"
  shows "slots_inj xs" and "x \<noteq> None \<Longrightarrow> x \<notin> set xs"
proof -
  show "slots_inj xs"
    using assms unfolding slots_inj_def by (metis Suc_less_eq length_Cons nth_Cons_Suc nat.inject)
  show "x \<notin> set xs" if "x \<noteq> None"
  proof
    assume "x \<in> set xs"
    then obtain j where "j < length xs" "xs ! j = x" by (auto simp: in_set_conv_nth)
    with assms that show False
      unfolding slots_inj_def
      by (metis Suc_less_eq length_Cons nat.distinct(1) nth_Cons_0 nth_Cons_Suc zero_less_Suc)
  qed
qed

definition owns :: "'p option list \<Rightarrow> 'p set \<Rightarrow> bool" where
  "owns ps S \<longleftrightarrow> slots_inj ps \<and> (\<forall>p. p \<in> S \<longleftrightarrow> Some p \<in> set ps)"

lemma owns_mem: "owns ps S \<Longrightarrow> i < length ps \<Longrightarrow> ps ! i = Some p \<Longrightarrow> p \<in> S"
  by (metis nth_mem owns_def)

lemma owns_clear:
  assumes "owns ps S" "i < length ps" "ps ! i = Some p"
  shows "owns (ps[i := None]) (S - {p})"
proof -
  have inj: "j = i" if "j < length ps" "ps ! j = Some p" for j
    using assms that unfolding owns_def slots_inj_def by (metis option.distinct(1))
  have "q \<in> S - {p} \<longleftrightarrow> Some q \<in> set (ps[i := None])" for q
  proof
    assume q: "q \<in> S - {p}"
    then obtain j where "j < length ps" "ps ! j = Some q"
      using assms(1) unfolding owns_def slots_inj_def by (metis DiffD1 in_set_conv_nth)
    moreover from this q assms(3) have "j \<noteq> i" by auto
    ultimately show "Some q \<in> set (ps[i := None])"
      by (metis length_list_update nth_list_update_neq nth_mem)
  next
    assume "Some q \<in> set (ps[i := None])"
    then obtain j where j: "j < length ps" "ps[i := None] ! j = Some q"
      by (auto simp: in_set_conv_nth)
    with assms(2) have "j \<noteq> i" and "ps ! j = Some q"
      by (auto simp: nth_list_update split: if_splits)
    with inj j assms(1) show "q \<in> S - {p}"
      by (metis DiffI owns_mem singletonD)
  qed
  with assms show ?thesis
    unfolding owns_def slots_inj_def by (auto simp: nth_list_update)
qed

lemma owns_fill:
  assumes "owns ps S" "i < length ps" "ps ! i = None" "q \<notin> S"
  shows "owns (ps[i := Some q]) (insert q S)"
proof -
  have new: "ps ! j \<noteq> Some q" if "j < length ps" for j
    using assms(1,4) that owns_mem by metis
  have "p \<in> insert q S \<longleftrightarrow> Some p \<in> set (ps[i := Some q])" for p
  proof (cases "p = q")
    case True
    with assms(2) show ?thesis by (simp add: set_update_memI)
  next
    case False
    have "Some p \<in> set (ps[i := Some q]) \<longleftrightarrow> Some p \<in> set ps"
      using False assms(2,3)
      by (auto simp: in_set_conv_nth nth_list_update intro: exI split: if_splits)
        (metis option.distinct(1))
    with False assms(1) show ?thesis by (simp add: owns_def)
  qed
  with assms new show ?thesis
    unfolding owns_def slots_inj_def by (auto simp: nth_list_update)
qed

subsection \<open>The interface\<close>

locale block_store =
  fixes alloc :: "nat \<Rightarrow> 'h \<Rightarrow> 'p option \<times> 'h"
    and release :: "'p \<Rightarrow> 'h \<Rightarrow> 'h option"
    and val :: "'h \<Rightarrow> 'p \<Rightarrow> 'v option"
    and fresh_val :: "nat \<Rightarrow> 'v"
    and ok :: "'h \<Rightarrow> bool"
  assumes alloc_Some: "ok h \<Longrightarrow> alloc n h = (Some p, h') \<Longrightarrow>
      val h p = None \<and> val h' = (val h)(p \<mapsto> fresh_val n) \<and> ok h'"
    and release_Some: "ok h \<Longrightarrow> val h p = Some v \<Longrightarrow>
      \<exists>h'. release p h = Some h' \<and> val h' = (val h)(p := None) \<and> ok h'"
    and release_None: "val h p = None \<Longrightarrow> release p h = None"
begin

lemma release_owned:
  assumes "ok h" "owns ps (dom (val h))" "i < length ps" "ps ! i = Some p"
  shows "\<exists>h'. release p h = Some h' \<and> val h' = (val h)(p := None) \<and> ok h' \<and>
    owns (ps[i := None]) (dom (val h'))"
proof -
  have "p \<in> dom (val h)" using owns_mem [OF assms(2-4)] .
  then obtain v where "val h p = Some v" by auto
  from release_Some [OF assms(1) this] obtain h' where
    h': "release p h = Some h'" "val h' = (val h)(p := None)" "ok h'" by blast
  from h'(2) have "dom (val h') = dom (val h) - {p}" by auto
  with owns_clear [OF assms(2-4)] h' show ?thesis by auto
qed

lemma alloc_owned:
  assumes "ok h" "owns ps (dom (val h))" "i < length ps" "ps ! i = None"
    and "alloc n h = (Some q, h')"
  shows "owns (ps[i := Some q]) (dom (val h')) \<and> val h' = (val h)(q \<mapsto> fresh_val n) \<and> ok h' \<and>
    Some q \<notin> set ps"
proof -
  from alloc_Some [OF assms(1,5)] have q: "val h q = None" "val h' = (val h)(q \<mapsto> fresh_val n)" "ok h'"
    by blast+
  from q(1) have "q \<notin> dom (val h)" by auto
  moreover from this assms(2) have "Some q \<notin> set ps" by (simp add: owns_def)
  ultimately show ?thesis using owns_fill [OF assms(2-4)] q by simp
qed

text \<open>Releasing what a slot holds, if anything, and storing a new block in it.\<close>

lemma replace_owned:
  assumes "ok h" "owns ps (dom (val h))" "i < length ps"
  shows "\<exists>h1. (case ps ! i of None \<Rightarrow> Some h | Some p \<Rightarrow> release p h) = Some h1 \<and> ok h1 \<and>
    val h1 = (case ps ! i of None \<Rightarrow> val h | Some p \<Rightarrow> (val h)(p := None)) \<and>
    owns (ps[i := None]) (dom (val h1))"
proof (cases "ps ! i")
  case None
  then have "ps[i := None] = ps" by (metis list_update_id)
  with None assms show ?thesis by simp
next
  case (Some p)
  from release_owned [OF assms Some] Some show ?thesis by auto
qed

end

interpretation heap_store: block_store malloc c_free blocks "\<lambda>n. replicate n 0" heap_ok
proof unfold_locales
  fix h h' :: heap and n p
  assume ok: "heap_ok h" and m: "malloc n h = (Some p, h')"
  from m have "p = brk h" by (auto simp: malloc_def split: if_splits)
  with ok have none: "blocks h p = None"
    unfolding heap_ok_def by (metis less_irrefl)
  with ok m show "blocks h p = None \<and> blocks h' = (blocks h)(p \<mapsto> replicate n 0) \<and> heap_ok h'"
    by (auto simp: malloc_def heap_ok_def less_Suc_eq split: if_splits)
next
  fix h :: heap and p v
  assume "heap_ok h" and "blocks h p = Some v"
  then show "\<exists>h'. c_free p h = Some h' \<and> blocks h' = (blocks h)(p := None) \<and> heap_ok h'"
    by (auto simp: c_free_def heap_ok_def)
next
  fix h :: heap and p
  assume "blocks h p = None"
  then show "c_free p h = None" by (simp add: c_free_def)
qed

lemma malloc_room: "n \<le> room h \<Longrightarrow> \<exists>p h'. malloc n h = (Some p, h') \<and> room h' = room h - n"
  by (simp add: malloc_def)

lemma malloc_None: "fst (malloc n h) = None \<longleftrightarrow> room h < n"
  by (auto simp: malloc_def)

lemma store_bytes_exact:
  "blocks h p = Some bs \<Longrightarrow> length bs = off + length src \<Longrightarrow>
   store_bytes p off src h = Some (h\<lparr>blocks := (blocks h)(p \<mapsto> take off bs @ src)\<rparr>)"
  by (simp add: store_bytes_def)

lemma load_bytes_exact:
  "blocks h p = Some bs \<Longrightarrow> length bs = off + n \<Longrightarrow> load_bytes p off n h = Some (drop off bs)"
  by (simp add: load_bytes_def)

end
