(* ===== verification/LwsApi.thy ===== *)
theory LwsApi
  imports Prelude
begin

text \<open>
  The vocabulary of the libwebsockets API that the callbacks of the test server and client
  use: the reasons a callback is entered for, the kinds of lws_write, and the calls a
  callback makes back into the library.  The library itself is not part of the
  repository (only its headers are), so what its functions return is an oracle: a
  function of the calls the callback has made so far, which every handler takes as its
  first argument.  A handler returns the trace of its calls with its result.
\<close>

subsection \<open>Callback reasons\<close>

text \<open>
  The reasons of the enum in inc/libwebsockets.h that some callback of the repository names,
  with the numbers the header fixes for them.  A reason is a number, as in C: the default
  branches of the handlers see any other one.
\<close>

type_synonym lws_reason = nat

abbreviation (input) LWS_CALLBACK_ESTABLISHED :: lws_reason where "LWS_CALLBACK_ESTABLISHED \<equiv> 0"
abbreviation (input) LWS_CALLBACK_CLIENT_CONNECTION_ERROR :: lws_reason where "LWS_CALLBACK_CLIENT_CONNECTION_ERROR \<equiv> 1"
abbreviation (input) LWS_CALLBACK_CLIENT_ESTABLISHED :: lws_reason where "LWS_CALLBACK_CLIENT_ESTABLISHED \<equiv> 3"
abbreviation (input) LWS_CALLBACK_CLOSED :: lws_reason where "LWS_CALLBACK_CLOSED \<equiv> 4"
abbreviation (input) LWS_CALLBACK_RECEIVE :: lws_reason where "LWS_CALLBACK_RECEIVE \<equiv> 6"
abbreviation (input) LWS_CALLBACK_CLIENT_RECEIVE :: lws_reason where "LWS_CALLBACK_CLIENT_RECEIVE \<equiv> 8"
abbreviation (input) LWS_CALLBACK_CLIENT_WRITEABLE :: lws_reason where "LWS_CALLBACK_CLIENT_WRITEABLE \<equiv> 10"
abbreviation (input) LWS_CALLBACK_SERVER_WRITEABLE :: lws_reason where "LWS_CALLBACK_SERVER_WRITEABLE \<equiv> 11"
abbreviation (input) LWS_CALLBACK_HTTP :: lws_reason where "LWS_CALLBACK_HTTP \<equiv> 12"
abbreviation (input) LWS_CALLBACK_HTTP_BODY :: lws_reason where "LWS_CALLBACK_HTTP_BODY \<equiv> 13"
abbreviation (input) LWS_CALLBACK_HTTP_BODY_COMPLETION :: lws_reason where "LWS_CALLBACK_HTTP_BODY_COMPLETION \<equiv> 14"
abbreviation (input) LWS_CALLBACK_HTTP_FILE_COMPLETION :: lws_reason where "LWS_CALLBACK_HTTP_FILE_COMPLETION \<equiv> 15"
abbreviation (input) LWS_CALLBACK_HTTP_WRITEABLE :: lws_reason where "LWS_CALLBACK_HTTP_WRITEABLE \<equiv> 16"
abbreviation (input) LWS_CALLBACK_FILTER_NETWORK_CONNECTION :: lws_reason where "LWS_CALLBACK_FILTER_NETWORK_CONNECTION \<equiv> 17"
abbreviation (input) LWS_CALLBACK_FILTER_PROTOCOL_CONNECTION :: lws_reason where "LWS_CALLBACK_FILTER_PROTOCOL_CONNECTION \<equiv> 20"
abbreviation (input) LWS_CALLBACK_OPENSSL_LOAD_EXTRA_CLIENT_VERIFY_CERTS :: lws_reason where "LWS_CALLBACK_OPENSSL_LOAD_EXTRA_CLIENT_VERIFY_CERTS \<equiv> 21"
abbreviation (input) LWS_CALLBACK_OPENSSL_LOAD_EXTRA_SERVER_VERIFY_CERTS :: lws_reason where "LWS_CALLBACK_OPENSSL_LOAD_EXTRA_SERVER_VERIFY_CERTS \<equiv> 22"
abbreviation (input) LWS_CALLBACK_OPENSSL_PERFORM_CLIENT_CERT_VERIFICATION :: lws_reason where "LWS_CALLBACK_OPENSSL_PERFORM_CLIENT_CERT_VERIFICATION \<equiv> 23"
abbreviation (input) LWS_CALLBACK_CLIENT_APPEND_HANDSHAKE_HEADER :: lws_reason where "LWS_CALLBACK_CLIENT_APPEND_HANDSHAKE_HEADER \<equiv> 24"
abbreviation (input) LWS_CALLBACK_CLIENT_CONFIRM_EXTENSION_SUPPORTED :: lws_reason where "LWS_CALLBACK_CLIENT_CONFIRM_EXTENSION_SUPPORTED \<equiv> 26"
abbreviation (input) LWS_CALLBACK_PROTOCOL_INIT :: lws_reason where "LWS_CALLBACK_PROTOCOL_INIT \<equiv> 27"
abbreviation (input) LWS_CALLBACK_PROTOCOL_DESTROY :: lws_reason where "LWS_CALLBACK_PROTOCOL_DESTROY \<equiv> 28"
abbreviation (input) LWS_CALLBACK_GET_THREAD_ID :: lws_reason where "LWS_CALLBACK_GET_THREAD_ID \<equiv> 31"
abbreviation (input) LWS_CALLBACK_ADD_POLL_FD :: lws_reason where "LWS_CALLBACK_ADD_POLL_FD \<equiv> 32"
abbreviation (input) LWS_CALLBACK_DEL_POLL_FD :: lws_reason where "LWS_CALLBACK_DEL_POLL_FD \<equiv> 33"
abbreviation (input) LWS_CALLBACK_CHANGE_MODE_POLL_FD :: lws_reason where "LWS_CALLBACK_CHANGE_MODE_POLL_FD \<equiv> 34"
abbreviation (input) LWS_CALLBACK_LOCK_POLL :: lws_reason where "LWS_CALLBACK_LOCK_POLL \<equiv> 35"
abbreviation (input) LWS_CALLBACK_UNLOCK_POLL :: lws_reason where "LWS_CALLBACK_UNLOCK_POLL \<equiv> 36"
abbreviation (input) LWS_CALLBACK_WS_PEER_INITIATED_CLOSE :: lws_reason where "LWS_CALLBACK_WS_PEER_INITIATED_CLOSE \<equiv> 38"
abbreviation (input) LWS_CALLBACK_ESTABLISHED_CLIENT_HTTP :: lws_reason where "LWS_CALLBACK_ESTABLISHED_CLIENT_HTTP \<equiv> 44"
abbreviation (input) LWS_CALLBACK_CLOSED_CLIENT_HTTP :: lws_reason where "LWS_CALLBACK_CLOSED_CLIENT_HTTP \<equiv> 45"
abbreviation (input) LWS_CALLBACK_RECEIVE_CLIENT_HTTP :: lws_reason where "LWS_CALLBACK_RECEIVE_CLIENT_HTTP \<equiv> 46"
abbreviation (input) LWS_CALLBACK_COMPLETED_CLIENT_HTTP :: lws_reason where "LWS_CALLBACK_COMPLETED_CLIENT_HTTP \<equiv> 47"
abbreviation (input) LWS_CALLBACK_RECEIVE_CLIENT_HTTP_READ :: lws_reason where "LWS_CALLBACK_RECEIVE_CLIENT_HTTP_READ \<equiv> 48"
abbreviation (input) LWS_CALLBACK_HTTP_DROP_PROTOCOL :: lws_reason where "LWS_CALLBACK_HTTP_DROP_PROTOCOL \<equiv> 50"
abbreviation (input) LWS_CALLBACK_CLIENT_HTTP_WRITEABLE :: lws_reason where "LWS_CALLBACK_CLIENT_HTTP_WRITEABLE \<equiv> 57"
abbreviation (input) LWS_CALLBACK_RAW_RX :: lws_reason where "LWS_CALLBACK_RAW_RX \<equiv> 59"
abbreviation (input) LWS_CALLBACK_RAW_CLOSE :: lws_reason where "LWS_CALLBACK_RAW_CLOSE \<equiv> 60"
abbreviation (input) LWS_CALLBACK_RAW_WRITEABLE :: lws_reason where "LWS_CALLBACK_RAW_WRITEABLE \<equiv> 61"
abbreviation (input) LWS_CALLBACK_RAW_ADOPT :: lws_reason where "LWS_CALLBACK_RAW_ADOPT \<equiv> 62"

subsection \<open>Writing\<close>

text \<open>The padding before every websocket payload, LWS_PRE, is 4 + 10 rounded up.\<close>

definition lws_pad :: "nat \<Rightarrow> nat \<Rightarrow> nat" where
  "lws_pad sz n = (if n mod sz \<noteq> 0 then n + (sz - n mod sz) else n)"

definition LWS_PRE :: nat where
  "LWS_PRE = lws_pad 16 (4 + 10)"

lemma LWS_PRE_16 [simp]: "LWS_PRE = 16"
  by (simp add: LWS_PRE_def lws_pad_def)

text \<open>Rounding up to pointer-sized words instead gives the same padding.\<close>

lemma LWS_PRE_portable: "sz \<in> {4, 8, 16} \<Longrightarrow> lws_pad sz (4 + 10) = LWS_PRE"
  by (auto simp: lws_pad_def)

definition LWS_WRITE_TEXT :: nat where "LWS_WRITE_TEXT = 0"
definition LWS_WRITE_BINARY :: nat where "LWS_WRITE_BINARY = 1"
definition LWS_WRITE_CONTINUATION :: nat where "LWS_WRITE_CONTINUATION = 2"
definition LWS_WRITE_HTTP :: nat where "LWS_WRITE_HTTP = 3"
definition LWS_WRITE_HTTP_HEADERS :: nat where "LWS_WRITE_HTTP_HEADERS = 8"
definition LWS_WRITE_NO_FIN :: nat where "LWS_WRITE_NO_FIN = 64"

subsection \<open>Calls into the library\<close>

type_synonym wsi = nat

text \<open>The calls of the http callback; a file operation names what it works on.\<close>

datatype http_call =
    Return_http_status nat
  | Http_transaction_completed
  | Client_connect_via_info string
  | Client_read
  | Vfs_file_open string
  | Vfs_file_read nat
  | Vfs_file_close
  | Get_peer_write_allowance
  | Set_timeout nat
  | Add_http_header_status nat
  | Add_http_header string string
  | Add_http_header_content_length int
  | Finalize_http_header
  | Serve_http_file string string
  | Spa_create
  | Spa_process "byte list"
  | Spa_finalize
  | Spa_destroy

text \<open>
  The calls of the client callbacks, and those of the main programs.  A connection is made
  for a variable of the program (client-slot), with a protocol name or none.
\<close>

datatype client_call =
    Get_random nat
  | Http_response
  | Http_client_read nat
  | Http_header_by_token string string
  | Http_body_pending nat
  | X509_load_cert_crl_file string

datatype client_slot = Slot_dumb | Slot_fsc | Slot_multi nat

datatype main_call =
    Gettimeofday
  | Connect client_slot "string option"
  | Service nat
  | Daemonize string
  | Writable_all nat
  | Create_context
  | Create_vhost
  | Init_client_ssl
  | Poll nat
  | Service_fd "nat option"
  | Service_adjust_timeout
  | Service_tsi
  | Get_count_threads
  | Pthread_create "nat option"
  | Pthread_join "nat option"
  | Context_destroy

datatype lws_call =
    Lws_write wsi "byte list" nat
  | Lws_callback_on_writable wsi
  | Lws_callback_on_writable_all_protocol
  | Lws_send_pipe_choked wsi
  | Lws_rx_flow_control wsi int
  | Lws_rx_flow_allow_all_protocol
  | Lws_protocol_vh_priv_zalloc nat
  | Lws_close_reason wsi nat string
  | Lws_http wsi http_call
  | Lws_client wsi client_call
  | Lws_main main_call

type_synonym lws_trace = "lws_call list"
type_synonym lws_oracle = "lws_trace \<Rightarrow> int"

text \<open>The payloads a trace sends, in order.\<close>

fun written :: "lws_trace \<Rightarrow> byte list list" where
  "written [] = []"
| "written (Lws_write w buf p # tr) = buf # written tr"
| "written (_ # tr) = written tr"

lemma written_append [simp]: "written (tr @ tr') = written tr @ written tr'"
  by (induction tr rule: written.induct) auto

text \<open>The modes of these writes.\<close>

fun write_modes :: "lws_trace \<Rightarrow> nat list" where
  "write_modes [] = []"
| "write_modes (Lws_write w buf p # tr) = p # write_modes tr"
| "write_modes (_ # tr) = write_modes tr"

lemma write_modes_append [simp]: "write_modes (tr @ tr') = write_modes tr @ write_modes tr'"
  by (induction tr rule: write_modes.induct) auto

text \<open>
  A row of calls each of which must return 0 before the next is made: the header builders are
  called like this.  The result says whether all did.
\<close>

fun lws_all :: "lws_oracle \<Rightarrow> lws_call list \<Rightarrow> lws_trace \<Rightarrow> bool \<times> lws_trace" where
  "lws_all orc [] tr = (True, tr)"
| "lws_all orc (c # cs) tr = (if orc (tr @ [c]) \<noteq> 0 then (False, tr @ [c]) else lws_all orc cs (tr @ [c]))"

lemma lws_all_trace: "\<exists>d. snd (lws_all orc cs tr) = tr @ d \<and> set d \<subseteq> set cs"
proof (induction cs arbitrary: tr)
  case Nil
  then show ?case by simp
next
  case (Cons c cs)
  from Cons.IH [of "tr @ [c]"] obtain d where d: "snd (lws_all orc cs (tr @ [c])) = (tr @ [c]) @ d" "set d \<subseteq> set cs"
    by blast
  show ?case
  proof (cases "orc (tr @ [c]) = 0")
    case True
    with d show ?thesis by (intro exI [of _ "c # d"]) auto
  next
    case False
    then show ?thesis by (intro exI [of _ "[c]"]) simp
  qed
qed

subsection \<open>Plugins\<close>

text \<open>What a plugin tells the library about itself, and the API version both must agree on.\<close>

record lws_protocols =
  protocol_name :: string
  rx_buffer_size :: nat

record lws_plugin_capability =
  api_magic :: nat
  protocols :: "lws_protocols list"
  count_protocols :: nat
  count_extensions :: nat

definition LWS_PLUGIN_API_MAGIC :: nat where "LWS_PLUGIN_API_MAGIC = 180"

end
