(* ===== verification/Mirror.thy ===== *)
theory Mirror
  imports CHeap LwsApi
begin

text \<open>
  The mirror protocol, plugins/protocol_lws_mirror.c: every message a session receives is put
  in a ring of MAX_MESSAGE_QUEUE slots that all sessions of the vhost share, and each session
  sends the slots between its own tail and the common head.  The model keeps the ring, the
  heap blocks its payload pointers own and the int indices of the code.  The abstract view of
  a session is the list of messages it still has to send (pending).
\<close>

subsection \<open>State\<close>

definition MAX_MESSAGE_QUEUE :: int where "MAX_MESSAGE_QUEUE = 512"

record per_session_data__lws_mirror =
  mirror_wsi :: wsi
  ringbuffer_tail :: int

record a_message =
  payload :: "addr option"
  msg_len :: nat

record per_vhost_data__lws_mirror =
  ringbuffer :: "a_message list"
  ringbuffer_head :: int

text \<open>The vhost's private data (NULL before PROTOCOL_INIT) and the heap of its payloads.\<close>

record mirror_state =
  mirror_vhd :: "per_vhost_data__lws_mirror option"
  mirror_heap :: heap

definition zeroed_mirror_vhd :: per_vhost_data__lws_mirror where
  "zeroed_mirror_vhd =
     \<lparr>ringbuffer = replicate (nat MAX_MESSAGE_QUEUE) \<lparr>payload = None, msg_len = 0\<rparr>,
      ringbuffer_head = 0\<rparr>"

subsection \<open>The callback\<close>

text \<open>
  The step both indices take, and the number of slots between them, which the code computes
  with a mask.
\<close>

definition ring_next :: "int \<Rightarrow> int" where
  "ring_next i = (if i = MAX_MESSAGE_QUEUE - 1 then 0 else i + 1)"

definition ring_used :: "int \<Rightarrow> int \<Rightarrow> int" where
  "ring_used head tail = (head - tail) AND (MAX_MESSAGE_QUEUE - 1)"

text \<open>
  PROTOCOL_DESTROY: free every payload and clear its pointer.  The loop runs over the slots
  from index n on.
\<close>

fun mirror_free_all :: "a_message list \<Rightarrow> heap \<Rightarrow> (a_message list \<times> heap) option" where
  "mirror_free_all [] h = Some ([], h)"
| "mirror_free_all (m # ms) h = (case payload m of
       None \<Rightarrow> map_option (\<lambda>(ms', h'). (m # ms', h')) (mirror_free_all ms h)
     | Some p \<Rightarrow> do {
         h1 \<leftarrow> c_free p h;
         (ms', h') \<leftarrow> mirror_free_all ms h1;
         Some (m\<lparr>payload := None\<rparr> # ms', h') })"

text \<open>
  SERVER_WRITEABLE: send from the tail until it meets the head, a write fails or the socket
  is choked.  The length goes through an int, which changes nothing: the library hands over at most the 128
  bytes of the protocol's receive buffer at a time.
\<close>

partial_function (option) mirror_drain ::
  "lws_oracle \<Rightarrow> wsi \<Rightarrow> per_vhost_data__lws_mirror \<Rightarrow> heap \<Rightarrow> int \<Rightarrow> lws_trace \<Rightarrow>
   (int \<times> int \<times> lws_trace) option" where
  "mirror_drain orc w v h tail tr =
     (if tail = ringbuffer_head v then Some (0, tail, tr)
      else do {
        m \<leftarrow> arr_get (ringbuffer v) tail;
        p \<leftarrow> payload m;
        buf \<leftarrow> load_bytes p LWS_PRE (msg_len m) h;
        let tr1 = tr @ [Lws_write w buf LWS_WRITE_TEXT];
        if orc tr1 < 0 then Some (- 1, tail, tr1)
        else do {
          let tail' = ring_next tail;
          let tr2 = tr1 @ (if ring_used (ringbuffer_head v) tail' = MAX_MESSAGE_QUEUE - 15
                           then [Lws_rx_flow_allow_all_protocol] else []);
          let tr3 = tr2 @ [Lws_send_pipe_choked w];
          if orc tr3 \<noteq> 0 then Some (0, tail', tr3 @ [Lws_callback_on_writable w])
          else mirror_drain orc w v h tail' tr3 } })"

text \<open>RECEIVE, when the sender's own backlog leaves room: store the message at the head.\<close>

definition mirror_enqueue ::
  "byte list \<Rightarrow> per_vhost_data__lws_mirror \<Rightarrow> heap \<Rightarrow> (per_vhost_data__lws_mirror \<times> heap) option" where
  "mirror_enqueue inp v h = do {
     m \<leftarrow> arr_get (ringbuffer v) (ringbuffer_head v);
     h1 \<leftarrow> (case payload m of None \<Rightarrow> Some h | Some p \<Rightarrow> c_free p h);
     let (q, h2) = malloc (LWS_PRE + length inp) h1;
     q \<leftarrow> q;
     h3 \<leftarrow> store_bytes q LWS_PRE inp h2;
     rb \<leftarrow> arr_set (ringbuffer v) (ringbuffer_head v) \<lparr>payload = Some q, msg_len = length inp\<rparr>;
     Some (v\<lparr>ringbuffer := rb, ringbuffer_head := ring_next (ringbuffer_head v)\<rparr>, h3) }"

definition callback_lws_mirror ::
  "lws_oracle \<Rightarrow> wsi \<Rightarrow> lws_reason \<Rightarrow> per_session_data__lws_mirror \<Rightarrow> byte list \<Rightarrow> mirror_state \<Rightarrow>
   (int \<times> per_session_data__lws_mirror \<times> mirror_state \<times> lws_trace) option" where
  "callback_lws_mirror orc w reason pss inp s =
     (if reason = LWS_CALLBACK_ESTABLISHED then do {
        v \<leftarrow> mirror_vhd s;
        Some (0, pss\<lparr>ringbuffer_tail := ringbuffer_head v, mirror_wsi := w\<rparr>, s, []) }
      else if reason = LWS_CALLBACK_PROTOCOL_INIT then do {
        let tr = [Lws_protocol_vh_priv_zalloc 0];
        Some (0, pss, s\<lparr>mirror_vhd := (if orc tr \<noteq> 0 then Some zeroed_mirror_vhd else None)\<rparr>, tr) }
      else if reason = LWS_CALLBACK_PROTOCOL_DESTROY then
        (case mirror_vhd s of
           None \<Rightarrow> Some (0, pss, s, [])
         | Some v \<Rightarrow> do {
             (rb, h) \<leftarrow> mirror_free_all (ringbuffer v) (mirror_heap s);
             Some (0, pss, s\<lparr>mirror_vhd := Some (v\<lparr>ringbuffer := rb\<rparr>), mirror_heap := h\<rparr>, []) })
      else if reason = LWS_CALLBACK_SERVER_WRITEABLE then do {
        v \<leftarrow> mirror_vhd s;
        (r, tail, tr) \<leftarrow> mirror_drain orc w v (mirror_heap s) (ringbuffer_tail pss) [];
        Some (r, pss\<lparr>ringbuffer_tail := tail\<rparr>, s, tr) }
      else if reason = LWS_CALLBACK_RECEIVE then do {
        v \<leftarrow> mirror_vhd s;
        if ring_used (ringbuffer_head v) (ringbuffer_tail pss) = MAX_MESSAGE_QUEUE - 1
        then Some (0, pss, s, [Lws_rx_flow_control w 0, Lws_callback_on_writable_all_protocol])
        else do {
          (v', h') \<leftarrow> mirror_enqueue inp v (mirror_heap s);
          let s' = s\<lparr>mirror_vhd := Some v', mirror_heap := h'\<rparr>;
          let throttle = ring_used (ringbuffer_head v') (ringbuffer_tail pss) = MAX_MESSAGE_QUEUE - 2;
          Some (0, pss, s', (if throttle then [Lws_rx_flow_control w 0] else []) @
                            [Lws_callback_on_writable_all_protocol]) } }
      else Some (0, pss, s, []))"


subsection \<open>Registration\<close>

text \<open>Loading the plugin fails when it was built for another version of the API.\<close>

definition init_protocol_lws_mirror :: "lws_plugin_capability \<Rightarrow> int \<times> lws_plugin_capability" where
  "init_protocol_lws_mirror c =
     (if api_magic c \<noteq> LWS_PLUGIN_API_MAGIC then (1, c)
      else (0, c\<lparr>protocols := [\<lparr>protocol_name = ''lws-mirror-protocol'', rx_buffer_size = 128\<rparr>],
                 count_protocols := 1, count_extensions := 0\<rparr>))"

subsection \<open>Ring arithmetic\<close>

text \<open>The slots a session with the given tail still has to send, oldest first.\<close>

definition ring_indices :: "int \<Rightarrow> int \<Rightarrow> int list" where
  "ring_indices head tail =
     map (\<lambda>k. (tail + int k) mod MAX_MESSAGE_QUEUE) [0..<nat (ring_used head tail)]"

definition ring_index :: "int \<Rightarrow> bool" where
  "ring_index i \<longleftrightarrow> 0 \<le> i \<and> i < MAX_MESSAGE_QUEUE"

lemma ring_used_mod: "ring_used head tail = (head - tail) mod 512"
  using int_and_mask_mod [of "head - tail" 9] by (simp add: ring_used_def MAX_MESSAGE_QUEUE_def)

lemma ring_used_range: "0 \<le> ring_used head tail \<and> ring_used head tail < 512"
  by (simp add: ring_used_mod)

lemma ring_next_index [intro]: "ring_index i \<Longrightarrow> ring_index (ring_next i)"
  by (auto simp: ring_index_def ring_next_def MAX_MESSAGE_QUEUE_def)

lemma ring_next_mod: "ring_index i \<Longrightarrow> ring_next i = (i + 1) mod 512"
  by (auto simp: ring_index_def ring_next_def MAX_MESSAGE_QUEUE_def)

lemma ring_used_cases:
  assumes "ring_index h" "ring_index t"
  shows "ring_used h t = (if t \<le> h then h - t else h - t + 512)"
proof (cases "t \<le> h")
  case True
  with assms show ?thesis
    by (simp add: ring_used_mod ring_index_def MAX_MESSAGE_QUEUE_def)
next
  case False
  have "(h - t) mod 512 = (h - t + 512) mod 512" by simp
  also have "\<dots> = h - t + 512"
    using False assms by (intro mod_pos_pos_trivial) (auto simp: ring_index_def MAX_MESSAGE_QUEUE_def)
  finally show ?thesis using False by (simp add: ring_used_mod)
qed

lemma ring_used_0: "ring_index h \<Longrightarrow> ring_index t \<Longrightarrow> ring_used h t = 0 \<longleftrightarrow> h = t"
  by (auto simp: ring_used_cases) (auto simp: ring_index_def MAX_MESSAGE_QUEUE_def)

lemma ring_used_next_tail:
  "ring_index h \<Longrightarrow> ring_index t \<Longrightarrow> h \<noteq> t \<Longrightarrow> ring_used h (ring_next t) = ring_used h t - 1"
  by (auto simp: ring_used_cases ring_next_index)
    (auto simp: ring_index_def MAX_MESSAGE_QUEUE_def ring_next_def split: if_splits)

lemma ring_used_next_head:
  "ring_index h \<Longrightarrow> ring_index t \<Longrightarrow> ring_used h t < 511 \<Longrightarrow>
   ring_used (ring_next h) t = ring_used h t + 1"
  by (auto simp: ring_used_cases ring_next_index)
    (auto simp: ring_index_def MAX_MESSAGE_QUEUE_def ring_next_def split: if_splits)

lemma ring_used_lap:
  "ring_index h \<Longrightarrow> ring_index t \<Longrightarrow> ring_used h t = 511 \<Longrightarrow> ring_used (ring_next h) t = 0"
  by (auto simp: ring_used_cases ring_next_index)
    (auto simp: ring_index_def MAX_MESSAGE_QUEUE_def ring_next_def split: if_splits)

lemma ring_indices_empty: "ring_index t \<Longrightarrow> ring_indices t t = []"
  by (simp add: ring_indices_def ring_used_mod)

lemma ring_indices_Cons:
  assumes "ring_index h" "ring_index t" "h \<noteq> t"
  shows "ring_indices h t = t # ring_indices h (ring_next t)"
proof -
  let ?n = "ring_used h t"
  have "?n \<noteq> 0" using ring_used_0 [OF assms(1,2)] assms(3) by simp
  with ring_used_range [of h t] have n: "nat ?n = Suc (nat (?n - 1))" by linarith
  have "(t + int (Suc k)) mod 512 = (ring_next t + int k) mod 512" for k
    using assms(2) by (simp add: ring_next_mod mod_simps ac_simps)
  moreover have "t mod 512 = t"
    using assms(2) by (simp add: ring_index_def MAX_MESSAGE_QUEUE_def)
  ultimately show ?thesis
    unfolding ring_indices_def ring_used_next_tail [OF assms] n upt_rec [of 0 "Suc _"]
    by (simp add: MAX_MESSAGE_QUEUE_def map_Suc_upt [symmetric] comp_def del: upt_Suc)
qed

lemma ring_indices_snoc:
  assumes "ring_index h" "ring_index t" "ring_used h t < 511"
  shows "ring_indices (ring_next h) t = ring_indices h t @ [h]"
proof -
  let ?n = "ring_used h t"
  have n: "nat (?n + 1) = Suc (nat ?n)"
    using ring_used_range [of h t] by linarith
  have "(t + (h - t) mod 512) mod 512 = h"
    using assms(1) by (simp add: mod_simps ring_index_def MAX_MESSAGE_QUEUE_def)
  then show ?thesis
    unfolding ring_indices_def ring_used_next_head [OF assms] n
    using ring_used_range [of h t] by (simp add: MAX_MESSAGE_QUEUE_def ring_used_mod)
qed

lemma ring_indices_index: "i \<in> set (ring_indices h t) \<Longrightarrow> ring_index i"
  by (auto simp: ring_indices_def ring_index_def MAX_MESSAGE_QUEUE_def)

lemma ring_indices_head:
  assumes "ring_index h" "ring_index t"
  shows "h \<notin> set (ring_indices h t)"
proof
  assume "h \<in> set (ring_indices h t)"
  then have "h \<in> (\<lambda>k. (t + int k) mod 512) ` {0..<nat ((h - t) mod 512)}"
    by (simp add: ring_indices_def MAX_MESSAGE_QUEUE_def ring_used_mod)
  then obtain k where "h = (t + int k) mod 512" "k \<in> {0..<nat ((h - t) mod 512)}" by (rule imageE)
  then have k: "int k < (h - t) mod 512" "h = (t + int k) mod 512" by auto
  then have "(h - t) mod 512 = int k mod 512"
    by (metis add_diff_cancel_left' mod_diff_left_eq)
  with k show False by simp
qed

lemma length_ring_indices: "length (ring_indices h t) = nat (ring_used h t)"
  by (simp add: ring_indices_def)

subsection \<open>Abstraction and invariants\<close>

definition slot_bytes :: "per_vhost_data__lws_mirror \<Rightarrow> heap \<Rightarrow> int \<Rightarrow> byte list option" where
  "slot_bytes v h i = do {
     m \<leftarrow> arr_get (ringbuffer v) i;
     p \<leftarrow> payload m;
     load_bytes p LWS_PRE (msg_len m) h }"

text \<open>The messages a session with this tail still has to send.\<close>

definition pending :: "per_vhost_data__lws_mirror \<Rightarrow> heap \<Rightarrow> int \<Rightarrow> byte list option list" where
  "pending v h tail = map (slot_bytes v h) (ring_indices (ringbuffer_head v) tail)"

text \<open>
  The ring has its full length, its head is an index, and its payload pointers own the blocks
  of the heap, each as long as its message and the padding.
\<close>

definition slot_fits :: "heap \<Rightarrow> a_message \<Rightarrow> bool" where
  "slot_fits h m \<longleftrightarrow> (\<forall>p. payload m = Some p \<longrightarrow>
     (\<exists>bs. blocks h p = Some bs \<and> length bs = LWS_PRE + msg_len m))"

definition mirror_ok :: "per_vhost_data__lws_mirror \<Rightarrow> heap \<Rightarrow> bool" where
  "mirror_ok v h \<longleftrightarrow> int (length (ringbuffer v)) = MAX_MESSAGE_QUEUE \<and> ring_index (ringbuffer_head v) \<and>
     heap_ok h \<and> owns (map payload (ringbuffer v)) (dom (blocks h)) \<and>
     (\<forall>m \<in> set (ringbuffer v). slot_fits h m)"

definition session_ok :: "per_vhost_data__lws_mirror \<Rightarrow> int \<Rightarrow> bool" where
  "session_ok v tail \<longleftrightarrow> ring_index tail \<and>
     (\<forall>i \<in> set (ring_indices (ringbuffer_head v) tail). payload (ringbuffer v ! nat i) \<noteq> None)"

lemma slot_bytes_Some:
  assumes "mirror_ok v h" "ring_index i" "payload (ringbuffer v ! nat i) \<noteq> None"
  shows "\<exists>m p bs. arr_get (ringbuffer v) i = Some m \<and> payload m = Some p \<and>
    load_bytes p LWS_PRE (msg_len m) h = Some bs \<and> slot_bytes v h i = Some bs"
proof -
  let ?m = "ringbuffer v ! nat i"
  from assms(1,2) have get: "arr_get (ringbuffer v) i = Some ?m" and mem: "?m \<in> set (ringbuffer v)"
    by (auto simp: mirror_ok_def ring_index_def arr_get_def)
  from assms(3) obtain p where p: "payload ?m = Some p" by auto
  with assms(1) mem obtain bs where "blocks h p = Some bs" "length bs = LWS_PRE + msg_len ?m"
    unfolding mirror_ok_def slot_fits_def by blast
  then have "load_bytes p LWS_PRE (msg_len ?m) h = Some (drop LWS_PRE bs)"
    by (rule load_bytes_exact)
  with get p show ?thesis by (simp add: slot_bytes_def)
qed

lemma pending_defined:
  assumes "mirror_ok v h" "session_ok v t"
  shows "None \<notin> set (pending v h t)"
proof -
  have "slot_bytes v h i \<noteq> None" if "i \<in> set (ring_indices (ringbuffer_head v) t)" for i
    using slot_bytes_Some [OF assms(1) ring_indices_index [OF that]] assms(2) that
    by (auto simp: session_ok_def)
  then show ?thesis by (force simp: pending_def)
qed

lemma pending_Cons:
  assumes "mirror_ok v h" "session_ok v t" "t \<noteq> ringbuffer_head v"
  shows "pending v h t = slot_bytes v h t # pending v h (ring_next t)"
    and "session_ok v (ring_next t)" and "payload (ringbuffer v ! nat t) \<noteq> None"
proof -
  have "ring_indices (ringbuffer_head v) t = t # ring_indices (ringbuffer_head v) (ring_next t)"
    using assms by (intro ring_indices_Cons) (auto simp: mirror_ok_def session_ok_def)
  with assms(2) show "pending v h t = slot_bytes v h t # pending v h (ring_next t)"
    "session_ok v (ring_next t)" "payload (ringbuffer v ! nat t) \<noteq> None"
    by (auto simp: pending_def session_ok_def)
qed

lemma length_pending: "length (pending v h t) = nat (ring_used (ringbuffer_head v) t)"
  by (simp add: pending_def length_ring_indices)

subsection \<open>Storing a message\<close>

text \<open>The slot at the head is freed without fault, and then owns nothing.\<close>

lemma mirror_enqueue_slot:
  assumes ok: "mirror_ok v h"
  obtains h1 where "nat (ringbuffer_head v) < length (ringbuffer v)"
    and "arr_get (ringbuffer v) (ringbuffer_head v) = Some (ringbuffer v ! nat (ringbuffer_head v))"
    and "(case payload (ringbuffer v ! nat (ringbuffer_head v)) of None \<Rightarrow> Some h | Some p \<Rightarrow> c_free p h) = Some h1"
    and "heap_ok h1" and "room h \<le> room h1"
    and "blocks h1 = (case payload (ringbuffer v ! nat (ringbuffer_head v)) of
           None \<Rightarrow> blocks h | Some p \<Rightarrow> (blocks h)(p := None))"
    and "owns ((map payload (ringbuffer v))[nat (ringbuffer_head v) := None]) (dom (blocks h1))"
proof -
  define i where "i = nat (ringbuffer_head v)"
  have i: "i < length (ringbuffer v)"
    and get: "arr_get (ringbuffer v) (ringbuffer_head v) = Some (ringbuffer v ! i)"
    using ok by (auto simp: mirror_ok_def ring_index_def arr_get_def i_def)
  obtain h1 where
    h1: "(case payload (ringbuffer v ! i) of None \<Rightarrow> Some h | Some p \<Rightarrow> c_free p h) = Some h1" "heap_ok h1"
      "blocks h1 = (case payload (ringbuffer v ! i) of None \<Rightarrow> blocks h | Some p \<Rightarrow> (blocks h)(p := None))"
      "owns ((map payload (ringbuffer v))[i := None]) (dom (blocks h1))"
    using heap_store.replace_owned [of h "map payload (ringbuffer v)" i] i ok
    by (auto simp: mirror_ok_def)
  moreover have "room h \<le> room h1"
    using h1(1) by (auto simp: c_free_def split: option.splits)
  ultimately show ?thesis using i get that by (simp add: i_def)
qed

lemma mirror_enqueue_total:
  assumes ok: "mirror_ok v h" and room: "LWS_PRE + length inp \<le> room h"
  shows "\<exists>r. mirror_enqueue inp v h = Some r"
proof -
  obtain h1 where i: "nat (ringbuffer_head v) < length (ringbuffer v)"
    and h1: "arr_get (ringbuffer v) (ringbuffer_head v) = Some (ringbuffer v ! nat (ringbuffer_head v))"
      "(case payload (ringbuffer v ! nat (ringbuffer_head v)) of None \<Rightarrow> Some h | Some p \<Rightarrow> c_free p h) = Some h1"
      "room h \<le> room h1" by (rule mirror_enqueue_slot [OF ok])
  have "arr_set (ringbuffer v) (ringbuffer_head v) x = Some ((ringbuffer v)[nat (ringbuffer_head v) := x])" for x
    using i ok by (intro arr_set_in) (auto simp: mirror_ok_def ring_index_def)
  with h1 room show ?thesis
    by (auto simp: mirror_enqueue_def malloc_def store_bytes_def)
qed

text \<open>What malloc has to serve a message from: the room left, and the block in the slot at the head, which is freed first.\<close>

definition mirror_room :: "per_vhost_data__lws_mirror \<Rightarrow> heap \<Rightarrow> nat" where
  "mirror_room v h = room h + (let m = ringbuffer v ! nat (ringbuffer_head v) in
     case payload m of None \<Rightarrow> 0 | Some p \<Rightarrow> LWS_PRE + msg_len m)"

lemma mirror_enqueue_none:
  assumes ok: "mirror_ok v h"
  shows "mirror_enqueue inp v h = None \<longleftrightarrow> mirror_room v h < LWS_PRE + length inp"
proof -
  let ?m = "ringbuffer v ! nat (ringbuffer_head v)"
  obtain h1 where i: "nat (ringbuffer_head v) < length (ringbuffer v)"
    and h1: "arr_get (ringbuffer v) (ringbuffer_head v) = Some ?m"
      "(case payload ?m of None \<Rightarrow> Some h | Some p \<Rightarrow> c_free p h) = Some h1" by (rule mirror_enqueue_slot [OF ok])
  have "slot_fits h ?m" using ok i nth_mem [OF i] by (simp add: mirror_ok_def)
  then have "room h1 = mirror_room v h"
    using h1(2) by (auto simp: mirror_room_def slot_fits_def c_free_def Let_def split: option.splits)
  moreover have "arr_set (ringbuffer v) (ringbuffer_head v) x = Some ((ringbuffer v)[nat (ringbuffer_head v) := x])" for x
    using i ok by (intro arr_set_in) (auto simp: mirror_ok_def ring_index_def)
  ultimately show ?thesis using h1 by (auto simp: mirror_enqueue_def malloc_def store_bytes_def)
qed

lemma mirror_enqueue_ok:
  assumes ok: "mirror_ok v h" and enq: "mirror_enqueue inp v h = Some (v', h')"
  shows "mirror_ok v' h'" and "ringbuffer_head v' = ring_next (ringbuffer_head v)"
    and "\<exists>q. ringbuffer v' = (ringbuffer v)[nat (ringbuffer_head v) := \<lparr>payload = Some q, msg_len = length inp\<rparr>]"
    and "slot_bytes v' h' (ringbuffer_head v) = Some inp"
    and "ring_index i \<Longrightarrow> i \<noteq> ringbuffer_head v \<Longrightarrow> slot_bytes v' h' i = slot_bytes v h i"
proof -
  define hd where "hd = ringbuffer_head v"
  define rb where "rb = ringbuffer v"
  have len: "int (length rb) = MAX_MESSAGE_QUEUE" and hd: "ring_index hd"
    and own: "owns (map payload rb) (dom (blocks h))" and fits: "\<And>m. m \<in> set rb \<Longrightarrow> slot_fits h m"
    using ok by (auto simp: mirror_ok_def hd_def rb_def)
  obtain h1 where i: "nat hd < length rb" and get: "arr_get rb hd = Some (rb ! nat hd)"
    and h1: "(case payload (rb ! nat hd) of None \<Rightarrow> Some h | Some p \<Rightarrow> c_free p h) = Some h1" "heap_ok h1"
      "blocks h1 = (case payload (rb ! nat hd) of None \<Rightarrow> blocks h | Some p \<Rightarrow> (blocks h)(p := None))"
      "owns ((map payload rb)[nat hd := None]) (dom (blocks h1))"
    unfolding hd_def rb_def by (rule mirror_enqueue_slot [OF ok])
  obtain q h2 where q: "malloc (LWS_PRE + length inp) h1 = (Some q, h2)"
    using enq get h1(1) unfolding hd_def rb_def
    by (cases "malloc (LWS_PRE + length inp) h1")
      (auto simp: mirror_enqueue_def bind_Some_iff simp del: LWS_PRE_16)
  have "owns ((map payload rb)[nat hd := None, nat hd := Some q]) (dom (blocks h2)) \<and>
      blocks h2 = (blocks h1)(q \<mapsto> replicate (LWS_PRE + length inp) 0) \<and> heap_ok h2 \<and>
      Some q \<notin> set ((map payload rb)[nat hd := None])"
    using i by (intro heap_store.alloc_owned [OF h1(2,4) _ _ q]) auto
  then have own2: "owns ((map payload rb)[nat hd := Some q]) (dom (blocks h2))"
    and b2: "blocks h2 = (blocks h1)(q \<mapsto> replicate (LWS_PRE + length inp) 0)"
    and ok2: "heap_ok h2" and fresh: "Some q \<notin> set ((map payload rb)[nat hd := None])"
    unfolding list_update_overwrite by blast+
  have st: "store_bytes q LWS_PRE inp h2 = Some (h2\<lparr>blocks := (blocks h2)(q \<mapsto> replicate LWS_PRE 0 @ inp)\<rparr>)"
    using store_bytes_exact [of h2 q "replicate (LWS_PRE + length inp) 0" LWS_PRE inp] by (simp add: b2)
  have "arr_set rb hd x = Some (rb[nat hd := x])" for x
    using i hd by (intro arr_set_in) (auto simp: ring_index_def)
  with enq get h1(1) q st
  have h': "h' = h2\<lparr>blocks := (blocks h2)(q \<mapsto> replicate LWS_PRE 0 @ inp)\<rparr>"
    and rb': "ringbuffer v' = rb[nat hd := \<lparr>payload = Some q, msg_len = length inp\<rparr>]"
    and hd': "ringbuffer_head v' = ring_next hd"
    by (auto simp: mirror_enqueue_def hd_def [symmetric] rb_def [symmetric])
  have frame: "blocks h' p = blocks h p" if "j < length rb" "j \<noteq> nat hd" "payload (rb ! j) = Some p" for j p
  proof -
    have "p \<noteq> q" using fresh that i by (metis length_list_update length_map nth_list_update_neq nth_map nth_mem)
    moreover have "payload (rb ! nat hd) \<noteq> Some p"
      using own that i unfolding owns_def slots_inj_def by (metis length_map nth_map option.distinct(1))
    ultimately show ?thesis by (auto simp: h' b2 h1(3) split: option.splits)
  qed
  have "slot_fits h' (rb[nat hd := \<lparr>payload = Some q, msg_len = length inp\<rparr>] ! j)" if "j < length rb" for j
    using that fits [OF nth_mem [OF that]] frame [OF that]
    by (cases "j = nat hd") (auto simp: slot_fits_def, simp add: h')
  moreover have "heap_ok h'" "dom (blocks h') = dom (blocks h2)"
    using ok2 by (auto simp: heap_ok_def h' b2)
  ultimately show "mirror_ok v' h'"
    using own2 hd len ring_next_index [OF hd]
    by (auto simp: mirror_ok_def rb' hd' map_update in_set_conv_nth)
  show "ringbuffer_head v' = ring_next (ringbuffer_head v)"
    "\<exists>q. ringbuffer v' = (ringbuffer v)[nat (ringbuffer_head v) := \<lparr>payload = Some q, msg_len = length inp\<rparr>]"
    using hd' rb' by (auto simp: hd_def rb_def)
  show "slot_bytes v' h' (ringbuffer_head v) = Some inp"
    using hd i len
    by (simp add: slot_bytes_def hd_def [symmetric] rb' ring_index_def arr_get_def load_bytes_def h')
  show "slot_bytes v' h' i = slot_bytes v h i" if j: "ring_index i" "i \<noteq> ringbuffer_head v"
  proof -
    have "nat i \<noteq> nat hd" "nat i < length rb" using j hd len by (auto simp: ring_index_def hd_def)
    with frame [of "nat i"] j len show ?thesis
      by (auto simp: slot_bytes_def rb' rb_def [symmetric] arr_get_def ring_index_def load_bytes_def
          split: option.splits bind_splits)
  qed
qed

text \<open>What one stored message does to the backlog of any session of the vhost.\<close>

lemma mirror_enqueue_session:
  assumes ok: "mirror_ok v h" and s: "session_ok v t"
    and enq: "mirror_enqueue inp v h = Some (v', h')"
  shows "session_ok v' t"
    and "length (pending v h t) < 511 \<Longrightarrow> pending v' h' t = pending v h t @ [Some inp]"
    and "length (pending v h t) = 511 \<Longrightarrow> pending v' h' t = []"
proof -
  let ?hd = "ringbuffer_head v"
  note hd' = mirror_enqueue_ok(2) [OF ok enq] and self = mirror_enqueue_ok(4) [OF ok enq]
    and others = mirror_enqueue_ok(5) [OF ok enq]
  obtain q where
    rb': "ringbuffer v' = (ringbuffer v)[nat ?hd := \<lparr>payload = Some q, msg_len = length inp\<rparr>]"
    using mirror_enqueue_ok(3) [OF ok enq] by blast
  have hd: "ring_index ?hd" and t: "ring_index t" and len: "int (length (ringbuffer v)) = 512"
    using ok s by (auto simp: mirror_ok_def session_ok_def MAX_MESSAGE_QUEUE_def)
  have used: "length (pending v h t) = nat (ring_used ?hd t)"
    by (rule length_pending)
  have keep: "map (slot_bytes v' h') (ring_indices ?hd t) = pending v h t"
    unfolding pending_def
    by (rule map_cong [OF refl]) (metis others ring_indices_index ring_indices_head [OF hd t])
  have lap: "ring_indices (ring_next ?hd) t = []" if "ring_used ?hd t = 511"
    using ring_used_lap [OF hd t that] by (simp add: ring_indices_def)
  show "pending v' h' t = pending v h t @ [Some inp]" if "length (pending v h t) < 511"
    using that used ring_indices_snoc [OF hd t] keep self by (simp add: pending_def hd')
  show "pending v' h' t = []" if "length (pending v h t) = 511"
    using that used lap ring_used_range [of ?hd t] by (simp add: pending_def hd')
  have "ring_used ?hd t < 511 \<or> ring_used ?hd t = 511"
    using ring_used_range [of ?hd t] by linarith
  then show "session_ok v' t"
  proof
    assume "ring_used ?hd t = 511"
    then show ?thesis using t lap by (simp add: session_ok_def hd')
  next
    assume "ring_used ?hd t < 511"
    from ring_indices_snoc [OF hd t this]
    have ix: "set (ring_indices (ringbuffer_head v') t) = insert ?hd (set (ring_indices ?hd t))"
      by (simp add: hd')
    have "payload (ringbuffer v' ! nat i) \<noteq> None" if "i \<in> set (ring_indices (ringbuffer_head v') t)" for i
      using that ix s hd len unfolding rb' session_ok_def ring_index_def MAX_MESSAGE_QUEUE_def
      by (cases "nat i = nat ?hd") (auto simp: nth_list_update)
    with t show ?thesis by (simp add: session_ok_def)
  qed
qed

subsection \<open>Draining the backlog\<close>

text \<open>One round of the loop, under the invariants.\<close>

lemma mirror_drain_step:
  assumes ok: "mirror_ok v h" and s: "session_ok v t" and ne: "t \<noteq> ringbuffer_head v"
  obtains buf where "slot_bytes v h t = Some buf"
    and "mirror_drain orc w v h t tr =
      (let tr1 = tr @ [Lws_write w buf LWS_WRITE_TEXT];
           tr3 = tr1 @ (if length (pending v h t) = 498 then [Lws_rx_flow_allow_all_protocol] else []) @
                 [Lws_send_pipe_choked w]
       in if orc tr1 < 0 then Some (- 1, t, tr1)
          else if orc tr3 \<noteq> 0 then Some (0, ring_next t, tr3 @ [Lws_callback_on_writable w])
          else mirror_drain orc w v h (ring_next t) tr3)"
proof -
  from ok s have hd: "ring_index (ringbuffer_head v)" and t: "ring_index t"
    by (auto simp: mirror_ok_def session_ok_def)
  obtain m p buf where m: "arr_get (ringbuffer v) t = Some m" "payload m = Some p"
      "load_bytes p LWS_PRE (msg_len m) h = Some buf" "slot_bytes v h t = Some buf"
    using slot_bytes_Some [OF ok t pending_Cons(3) [OF ok s ne]] by blast
  have "ring_used (ringbuffer_head v) (ring_next t) = MAX_MESSAGE_QUEUE - 15 \<longleftrightarrow>
      length (pending v h t) = 498"
    using ring_used_next_tail [OF hd t] ne ring_used_range [of "ringbuffer_head v" t]
    by (auto simp: length_pending MAX_MESSAGE_QUEUE_def nat_eq_iff)
  with m ne show ?thesis
    by (intro that [OF m(4)]) (subst mirror_drain.simps, simp add: Let_def)
qed

lemma mirror_drain_correct:
  assumes ok: "mirror_ok v h" and s: "session_ok v t"
  shows "\<exists>r t' tr'. mirror_drain orc w v h t tr = Some (r, t', tr @ tr') \<and> session_ok v t' \<and>
    (r = 0 \<or> r = - 1) \<and>
    pending v h t = map Some (if r = 0 then written tr' else butlast (written tr')) @ pending v h t' \<and>
    (r = 0 \<longrightarrow> t' = ringbuffer_head v \<or> (\<exists>pre. tr' = pre @ [Lws_callback_on_writable w])) \<and>
    (r = - 1 \<longrightarrow> written tr' \<noteq> []) \<and>
    count_list tr' Lws_rx_flow_allow_all_protocol =
      (if length (pending v h t') < 498 \<and> 498 \<le> length (pending v h t) then 1 else 0)"
  using s
proof (induction "length (pending v h t)" arbitrary: t tr)
  case 0
  then have "t = ringbuffer_head v"
    using pending_Cons(1) [OF ok "0.prems"] by fastforce
  with 0 show ?case by (subst mirror_drain.simps) (auto intro!: exI [of _ "[]"])
next
  case (Suc n)
  then have ne: "t \<noteq> ringbuffer_head v"
    using ok by (auto simp: pending_def ring_indices_empty mirror_ok_def)
  note pc = pending_Cons [OF ok Suc.prems ne]
  from pc(1) Suc.hyps(2) have n: "n = length (pending v h (ring_next t))" by simp
  let ?allow = "if length (pending v h t) = 498 then [Lws_rx_flow_allow_all_protocol] else []"
  obtain buf where buf: "slot_bytes v h t = Some buf"
    and step: "mirror_drain orc w v h t tr =
      (let tr1 = tr @ [Lws_write w buf LWS_WRITE_TEXT];
           tr3 = tr1 @ ?allow @ [Lws_send_pipe_choked w]
       in if orc tr1 < 0 then Some (- 1, t, tr1)
          else if orc tr3 \<noteq> 0 then Some (0, ring_next t, tr3 @ [Lws_callback_on_writable w])
          else mirror_drain orc w v h (ring_next t) tr3)"
    by (rule mirror_drain_step [OF ok Suc.prems ne])
  let ?tr3 = "[Lws_write w buf LWS_WRITE_TEXT] @ ?allow @ [Lws_send_pipe_choked w]"
  consider (fail) "orc (tr @ [Lws_write w buf LWS_WRITE_TEXT]) < 0"
    | (choked) "\<not> orc (tr @ [Lws_write w buf LWS_WRITE_TEXT]) < 0" "orc (tr @ ?tr3) \<noteq> 0"
    | (go) "\<not> orc (tr @ [Lws_write w buf LWS_WRITE_TEXT]) < 0" "orc (tr @ ?tr3) = 0"
    by blast
  then show ?case
  proof cases
    case fail
    with step Suc.prems show ?thesis
      by (intro exI [of _ "- 1"] exI [of _ t] exI [of _ "[Lws_write w buf LWS_WRITE_TEXT]"]) simp
  next
    case choked
    with step pc buf show ?thesis
      by (intro exI [of _ 0] exI [of _ "ring_next t"] exI [of _ "?tr3 @ [Lws_callback_on_writable w]"])
        (auto simp: Let_def)
  next
    case go
    obtain r t' tr' where
      ih: "mirror_drain orc w v h (ring_next t) (tr @ ?tr3) = Some (r, t', (tr @ ?tr3) @ tr')"
        "session_ok v t'" "r = 0 \<or> r = - 1"
        "pending v h (ring_next t) =
           map Some (if r = 0 then written tr' else butlast (written tr')) @ pending v h t'"
        "r = 0 \<longrightarrow> t' = ringbuffer_head v \<or> (\<exists>pre. tr' = pre @ [Lws_callback_on_writable w])"
        "r = - 1 \<longrightarrow> written tr' \<noteq> []"
        "count_list tr' Lws_rx_flow_allow_all_protocol =
           (if length (pending v h t') < 498 \<and> 498 \<le> length (pending v h (ring_next t)) then 1 else 0)"
      using Suc.hyps(1) [OF n pc(2)] by blast
    have run: "mirror_drain orc w v h t tr = Some (r, t', tr @ ?tr3 @ tr')"
      using step go ih(1) by (simp add: Let_def)
    have sent: "pending v h t =
        map Some (if r = 0 then written (?tr3 @ tr') else butlast (written (?tr3 @ tr'))) @ pending v h t'"
      using pc(1) buf ih(3,4,6) by auto
    have "length (pending v h t') \<le> length (pending v h (ring_next t))"
      by (subst ih(4)) simp
    then have allow: "count_list (?tr3 @ tr') Lws_rx_flow_allow_all_protocol =
        (if length (pending v h t') < 498 \<and> 498 \<le> length (pending v h t) then 1 else 0)"
      using ih(7) n Suc.hyps(2) by auto
    have again: "r = 0 \<longrightarrow> t' = ringbuffer_head v \<or> (\<exists>pre. ?tr3 @ tr' = pre @ [Lws_callback_on_writable w])"
      using ih(5) by (metis append_assoc)
    have "r = - 1 \<longrightarrow> written (?tr3 @ tr') \<noteq> []" by simp
    with run ih(2,3) sent again allow show ?thesis
      by (intro exI [of _ r] exI [of _ t'] exI [of _ "?tr3 @ tr'"] conjI)
  qed
qed

text \<open>With a socket that takes everything the backlog is sent in full.\<close>

lemma mirror_drain_all:
  assumes ok: "mirror_ok v h" and s: "session_ok v t"
    and wr: "\<And>tr b p. 0 \<le> orc (tr @ [Lws_write w b p])"
    and ch: "\<And>tr. orc (tr @ [Lws_send_pipe_choked w]) = 0"
  shows "\<exists>tr'. mirror_drain orc w v h t tr = Some (0, ringbuffer_head v, tr @ tr') \<and>
    pending v h t = map Some (written tr')"
  using s
proof (induction "length (pending v h t)" arbitrary: t tr)
  case 0
  then have "t = ringbuffer_head v"
    using pending_Cons(1) [OF ok "0.prems"] by fastforce
  with 0 show ?case by (subst mirror_drain.simps) (auto intro!: exI [of _ "[]"])
next
  case (Suc n)
  then have ne: "t \<noteq> ringbuffer_head v"
    using ok by (auto simp: pending_def ring_indices_empty mirror_ok_def)
  note pc = pending_Cons [OF ok Suc.prems ne]
  from pc(1) Suc.hyps(2) have n: "n = length (pending v h (ring_next t))" by simp
  let ?allow = "if length (pending v h t) = 498 then [Lws_rx_flow_allow_all_protocol] else []"
  obtain buf where buf: "slot_bytes v h t = Some buf"
    and step: "mirror_drain orc w v h t tr =
      (let tr1 = tr @ [Lws_write w buf LWS_WRITE_TEXT];
           tr3 = tr1 @ ?allow @ [Lws_send_pipe_choked w]
       in if orc tr1 < 0 then Some (- 1, t, tr1)
          else if orc tr3 \<noteq> 0 then Some (0, ring_next t, tr3 @ [Lws_callback_on_writable w])
          else mirror_drain orc w v h (ring_next t) tr3)"
    by (rule mirror_drain_step [OF ok Suc.prems ne])
  let ?tr3 = "[Lws_write w buf LWS_WRITE_TEXT] @ ?allow @ [Lws_send_pipe_choked w]"
  from Suc.hyps(1) [OF n pc(2)] obtain tr' where
    "mirror_drain orc w v h (ring_next t) (tr @ ?tr3) = Some (0, ringbuffer_head v, (tr @ ?tr3) @ tr')"
    "pending v h (ring_next t) = map Some (written tr')" by blast
  moreover have "orc (tr @ ?tr3) = 0"
    using ch [of "tr @ [Lws_write w buf LWS_WRITE_TEXT] @ ?allow"] by simp
  ultimately show ?case
    using step pc(1) buf wr [of tr buf LWS_WRITE_TEXT]
    by (intro exI [of _ "?tr3 @ tr'"]) (simp add: Let_def)
qed

subsection \<open>Tearing the ring down\<close>

lemma mirror_free_all_ok:
  assumes "heap_ok h" "slots_inj (map payload ms)"
    and "\<And>m p. m \<in> set ms \<Longrightarrow> payload m = Some p \<Longrightarrow> p \<in> dom (blocks h)"
  shows "\<exists>h'. mirror_free_all ms h = Some (map (\<lambda>m. m\<lparr>payload := None\<rparr>) ms, h') \<and> heap_ok h' \<and>
    (\<forall>p. blocks h' p = (if Some p \<in> payload ` set ms then None else blocks h p))"
  using assms
proof (induction ms arbitrary: h)
  case Nil
  then show ?case by simp
next
  case (Cons m ms)
  from Cons.prems(2) have inj: "slots_inj (map payload ms)"
    and fresh: "payload m \<noteq> None \<Longrightarrow> payload m \<notin> set (map payload ms)"
    using slots_inj_Cons [of "payload m" "map payload ms"] by auto
  show ?case
  proof (cases "payload m")
    case None
    then have "m\<lparr>payload := None\<rparr> = m" by (cases m) simp
    moreover obtain h' where "mirror_free_all ms h = Some (map (\<lambda>m. m\<lparr>payload := None\<rparr>) ms, h')"
      "heap_ok h'" "\<forall>p. blocks h' p = (if Some p \<in> payload ` set ms then None else blocks h p)"
      using Cons.IH [OF Cons.prems(1) inj] Cons.prems(3) by (metis list.set_intros(2))
    ultimately show ?thesis using None by auto
  next
    case (Some p)
    with Cons.prems(3) obtain bs where "blocks h p = Some bs" by fastforce
    from heap_store.release_Some [OF Cons.prems(1) this] obtain h1 where
      h1: "c_free p h = Some h1" "blocks h1 = (blocks h)(p := None)" "heap_ok h1" by blast
    have mem1: "\<forall>m' q. m' \<in> set ms \<longrightarrow> payload m' = Some q \<longrightarrow> q \<in> dom (blocks h1)"
    proof (intro allI impI)
      fix m' q assume m': "m' \<in> set ms" "payload m' = Some q"
      with fresh Some have "q \<noteq> p" by force
      moreover have "q \<in> dom (blocks h)" by (rule Cons.prems(3) [of m']) (simp_all add: m')
      ultimately show "q \<in> dom (blocks h1)" by (simp add: h1(2))
    qed
    from Cons.IH [OF h1(3) inj] mem1 obtain h' where
      h': "mirror_free_all ms h1 = Some (map (\<lambda>m. m\<lparr>payload := None\<rparr>) ms, h')" "heap_ok h'"
        "\<forall>q. blocks h' q = (if Some q \<in> payload ` set ms then None else blocks h1 q)"
      by blast
    then have "\<forall>q. blocks h' q = (if Some q \<in> payload ` set (m # ms) then None else blocks h q)"
      using Some by (auto simp: h1(2))
    with h' h1(1) Some show ?thesis by simp
  qed
qed

lemma mirror_free_all_empty:
  assumes "mirror_ok v h"
  shows "\<exists>h'. mirror_free_all (ringbuffer v) h = Some (map (\<lambda>m. m\<lparr>payload := None\<rparr>) (ringbuffer v), h') \<and>
    blocks h' = Map.empty"
proof -
  from assms have own: "owns (map payload (ringbuffer v)) (dom (blocks h))" and ok: "heap_ok h"
    by (auto simp: mirror_ok_def)
  from own have inj: "slots_inj (map payload (ringbuffer v))"
    by (simp add: owns_def)
  have mem: "p \<in> dom (blocks h) \<longleftrightarrow> Some p \<in> payload ` set (ringbuffer v)" for p
    using own by (auto simp: owns_def)
  from mirror_free_all_ok [OF ok inj] mem obtain h' where
    h': "mirror_free_all (ringbuffer v) h = Some (map (\<lambda>m. m\<lparr>payload := None\<rparr>) (ringbuffer v), h')"
      "\<forall>p. blocks h' p = (if Some p \<in> payload ` set (ringbuffer v) then None else blocks h p)"
    by (metis image_eqI)
  have "blocks h' p = None" for p
    using h'(2) mem [of p] by (auto simp: domIff)
  with h'(1) show ?thesis by auto
qed

subsection \<open>The vhost and its sessions\<close>

text \<open>
  The library's side: sessions come and go, and each callback runs to its end before the next
  one starts.  The library destroys the protocol once its sessions are gone, and what it
  answers (the oracle) differs from callback to callback.
\<close>

record mirror_sys =
  mirror_shared :: mirror_state
  mirror_sessions :: "wsi \<Rightarrow> per_session_data__lws_mirror option"

definition mirror_start :: "heap \<Rightarrow> mirror_sys" where
  "mirror_start h =
     \<lparr>mirror_shared = \<lparr>mirror_vhd = Some zeroed_mirror_vhd, mirror_heap = h\<rparr>, mirror_sessions = Map.empty\<rparr>"

inductive mirror_step :: "mirror_sys \<Rightarrow> mirror_sys \<Rightarrow> bool" where
  connect: "mirror_sessions S w = None \<Longrightarrow>
     callback_lws_mirror orc w LWS_CALLBACK_ESTABLISHED \<lparr>mirror_wsi = 0, ringbuffer_tail = 0\<rparr> []
       (mirror_shared S) = Some (r, pss', s', tr) \<Longrightarrow>
     mirror_step S (S\<lparr>mirror_shared := s', mirror_sessions := (mirror_sessions S)(w \<mapsto> pss')\<rparr>)"
| callback: "mirror_sessions S w = Some pss \<Longrightarrow>
     reason \<notin> {LWS_CALLBACK_ESTABLISHED, LWS_CALLBACK_PROTOCOL_INIT, LWS_CALLBACK_PROTOCOL_DESTROY} \<Longrightarrow>
     callback_lws_mirror orc w reason pss inp (mirror_shared S) = Some (r, pss', s', tr) \<Longrightarrow>
     mirror_step S (S\<lparr>mirror_shared := s', mirror_sessions := (mirror_sessions S)(w \<mapsto> pss')\<rparr>)"
| disconnect: "mirror_step S (S\<lparr>mirror_sessions := (mirror_sessions S)(w := None)\<rparr>)"

inductive mirror_reachable :: "mirror_sys \<Rightarrow> bool" where
  start: "heap_ok h \<Longrightarrow> blocks h = Map.empty \<Longrightarrow> mirror_reachable (mirror_start h)"
| step: "mirror_reachable S \<Longrightarrow> mirror_step S T \<Longrightarrow> mirror_reachable T"

definition mirror_sys_ok :: "mirror_sys \<Rightarrow> bool" where
  "mirror_sys_ok S \<longleftrightarrow> (\<exists>v. mirror_vhd (mirror_shared S) = Some v \<and>
     mirror_ok v (mirror_heap (mirror_shared S)) \<and>
     (\<forall>w pss. mirror_sessions S w = Some pss \<longrightarrow> session_ok v (ringbuffer_tail pss)))"

lemma mirror_start_ok: "heap_ok h \<Longrightarrow> blocks h = Map.empty \<Longrightarrow> mirror_sys_ok (mirror_start h)"
  by (auto simp: mirror_sys_ok_def mirror_start_def mirror_ok_def zeroed_mirror_vhd_def slot_fits_def
      ring_index_def owns_def slots_inj_def MAX_MESSAGE_QUEUE_def)

lemmas mirror_callback_simps = callback_lws_mirror_def bind_Some_iff Let_def

lemma mirror_connect_session: "mirror_ok v h \<Longrightarrow> session_ok v (ringbuffer_head v)"
  by (auto simp: session_ok_def mirror_ok_def ring_indices_empty)

text \<open>What RECEIVE does: drop and throttle, or store.\<close>

lemma mirror_receive_drop:
  assumes "mirror_vhd s = Some v" "ring_used (ringbuffer_head v) (ringbuffer_tail pss) = 511"
  shows "callback_lws_mirror orc w LWS_CALLBACK_RECEIVE pss inp s =
    Some (0, pss, s, [Lws_rx_flow_control w 0, Lws_callback_on_writable_all_protocol])"
  using assms by (simp add: callback_lws_mirror_def MAX_MESSAGE_QUEUE_def)

lemma mirror_receive_store:
  assumes "mirror_vhd s = Some v" "ring_used (ringbuffer_head v) (ringbuffer_tail pss) \<noteq> 511"
    and "mirror_enqueue inp v (mirror_heap s) = Some (v', h')"
  shows "callback_lws_mirror orc w LWS_CALLBACK_RECEIVE pss inp s =
    Some (0, pss, s\<lparr>mirror_vhd := Some v', mirror_heap := h'\<rparr>,
      (if ring_used (ringbuffer_head v') (ringbuffer_tail pss) = 510 then [Lws_rx_flow_control w 0] else []) @
      [Lws_callback_on_writable_all_protocol])"
  using assms by (simp add: callback_lws_mirror_def MAX_MESSAGE_QUEUE_def)

lemma mirror_receive_ok:
  assumes vhd: "mirror_vhd s = Some v" and ok: "mirror_ok v (mirror_heap s)"
    and some: "callback_lws_mirror orc w LWS_CALLBACK_RECEIVE pss inp s = Some (r, pss', s', tr)"
  shows "pss' = pss \<and> (\<exists>v'. mirror_vhd s' = Some v' \<and> mirror_ok v' (mirror_heap s') \<and>
    (\<forall>t. session_ok v t \<longrightarrow> session_ok v' t))"
proof (cases "ring_used (ringbuffer_head v) (ringbuffer_tail pss) = 511")
  case True
  from mirror_receive_drop [OF vhd True] some vhd ok show ?thesis by auto
next
  case False
  with vhd some obtain v' h' where enq: "mirror_enqueue inp v (mirror_heap s) = Some (v', h')"
    by (auto simp: callback_lws_mirror_def bind_Some_iff MAX_MESSAGE_QUEUE_def)
  from mirror_receive_store [OF vhd False enq] some
  have "pss' = pss" "s' = s\<lparr>mirror_vhd := Some v', mirror_heap := h'\<rparr>" by auto
  with mirror_enqueue_ok(1) [OF ok enq] mirror_enqueue_session(1) [OF ok _ enq] show ?thesis by auto
qed


lemma mirror_callback_ok:
  assumes vhd: "mirror_vhd s = Some v" and ok: "mirror_ok v (mirror_heap s)"
    and ses: "session_ok v (ringbuffer_tail pss)"
    and reason: "reason \<notin> {LWS_CALLBACK_ESTABLISHED, LWS_CALLBACK_PROTOCOL_INIT, LWS_CALLBACK_PROTOCOL_DESTROY}"
    and some: "callback_lws_mirror orc w reason pss inp s = Some (r, pss', s', tr)"
  shows "\<exists>v'. mirror_vhd s' = Some v' \<and> mirror_ok v' (mirror_heap s') \<and>
    session_ok v' (ringbuffer_tail pss') \<and> (\<forall>t. session_ok v t \<longrightarrow> session_ok v' t)"
proof -
  consider "reason = LWS_CALLBACK_RECEIVE" | "reason = LWS_CALLBACK_SERVER_WRITEABLE"
    | "reason \<noteq> LWS_CALLBACK_RECEIVE" "reason \<noteq> LWS_CALLBACK_SERVER_WRITEABLE" by blast
  then show ?thesis
  proof cases
    case 1
    with mirror_receive_ok [OF vhd ok some [unfolded 1]] ses show ?thesis by auto
  next
    case 2
    from mirror_drain_correct [OF ok ses, of orc w "[]"] obtain r1 t1 tr1 where
      "mirror_drain orc w v (mirror_heap s) (ringbuffer_tail pss) [] = Some (r1, t1, tr1)" "session_ok v t1"
      by auto
    with 2 some vhd have "s' = s" "pss' = pss\<lparr>ringbuffer_tail := t1\<rparr>"
      by (simp_all add: callback_lws_mirror_def)
    with vhd ok \<open>session_ok v t1\<close> show ?thesis by auto
  next
    case 3
    with reason some have "s' = s" "pss' = pss" by (auto simp: callback_lws_mirror_def)
    with vhd ok ses show ?thesis by auto
  qed
qed

inductive_cases mirror_step_cases: "mirror_step S T"

lemma mirror_step_ok:
  assumes "mirror_sys_ok S" "mirror_step S T"
  shows "mirror_sys_ok T"
proof -
  from assms(1) obtain v where vhd: "mirror_vhd (mirror_shared S) = Some v"
    and ok: "mirror_ok v (mirror_heap (mirror_shared S))"
    and ses: "\<And>w pss. mirror_sessions S w = Some pss \<Longrightarrow> session_ok v (ringbuffer_tail pss)"
    by (auto simp: mirror_sys_ok_def)
  from assms(2) show ?thesis
  proof (rule mirror_step_cases, goal_cases)
    case (1 w orc r pss' s' tr)
    with vhd have "s' = mirror_shared S" "ringbuffer_tail pss' = ringbuffer_head v"
      by (auto simp: callback_lws_mirror_def)
    with 1 vhd ok ses mirror_connect_session [OF ok] show ?thesis
      by (auto simp: mirror_sys_ok_def)
  next
    case (2 w pss reason orc inp r pss' s' tr)
    from mirror_callback_ok [OF vhd ok ses [OF 2(2)] _ 2(3)] 2 ses show ?thesis
      by (fastforce simp: mirror_sys_ok_def)
  next
    case (3 w)
    with vhd ok ses show ?thesis by (auto simp: mirror_sys_ok_def)
  qed
qed

lemma mirror_reachable_ok: "mirror_reachable S \<Longrightarrow> mirror_sys_ok S"
  by (induction rule: mirror_reachable.induct) (auto intro: mirror_start_ok mirror_step_ok)

subsection \<open>Properties\<close>

text \<open>
  C1: In every reachable state each callback the library makes for a connected session (the
  teardown of the vhost aside) comes back and keeps the invariant of the ring, whatever the library's
  functions return, with one exception: a message that is not dropped and that malloc cannot serve, even with the
  block the slot held before, is copied through a NULL pointer.
\<close>

theorem mirror_callbacks_safe:
  assumes "mirror_reachable S" and "mirror_sessions S w = Some pss" and "mirror_vhd (mirror_shared S) = Some v"
    and "reason \<notin> {LWS_CALLBACK_ESTABLISHED, LWS_CALLBACK_PROTOCOL_INIT, LWS_CALLBACK_PROTOCOL_DESTROY}"
  shows "case callback_lws_mirror orc w reason pss inp (mirror_shared S) of
      None \<Rightarrow> reason = LWS_CALLBACK_RECEIVE \<and>
        length (pending v (mirror_heap (mirror_shared S)) (ringbuffer_tail pss)) < 511 \<and>
        mirror_room v (mirror_heap (mirror_shared S)) < LWS_PRE + length inp
    | Some (r, pss', s', tr) \<Rightarrow>
        \<not> (reason = LWS_CALLBACK_RECEIVE \<and>
           length (pending v (mirror_heap (mirror_shared S)) (ringbuffer_tail pss)) < 511 \<and>
           mirror_room v (mirror_heap (mirror_shared S)) < LWS_PRE + length inp) \<and>
        mirror_sys_ok (S\<lparr>mirror_shared := s', mirror_sessions := (mirror_sessions S)(w \<mapsto> pss')\<rparr>)"
proof -
  let ?h = "mirror_heap (mirror_shared S)"
  have sys: "mirror_sys_ok S" using assms(1) by (rule mirror_reachable_ok)
  then have ok: "mirror_ok v ?h" and ses: "session_ok v (ringbuffer_tail pss)"
    using assms(2,3) by (auto simp: mirror_sys_ok_def)
  have full: "length (pending v ?h (ringbuffer_tail pss)) < 511 \<longleftrightarrow>
      ring_used (ringbuffer_head v) (ringbuffer_tail pss) \<noteq> MAX_MESSAGE_QUEUE - 1"
    using ring_used_range [of "ringbuffer_head v" "ringbuffer_tail pss"] by (auto simp: length_pending MAX_MESSAGE_QUEUE_def)
  have none: "callback_lws_mirror orc w reason pss inp (mirror_shared S) = None \<longleftrightarrow> reason = LWS_CALLBACK_RECEIVE \<and>
      length (pending v ?h (ringbuffer_tail pss)) < 511 \<and> mirror_room v ?h < LWS_PRE + length inp"
  proof (cases "reason = LWS_CALLBACK_RECEIVE")
    case True
    with assms(3) full mirror_enqueue_none [OF ok, of inp] show ?thesis
      by (cases "mirror_enqueue inp v ?h") (auto simp: callback_lws_mirror_def Let_def)
  next
    case False
    with mirror_drain_correct [OF ok ses, of orc w "[]"] assms(3,4) show ?thesis
      by (auto simp: callback_lws_mirror_def)
  qed
  show ?thesis
  proof (cases "callback_lws_mirror orc w reason pss inp (mirror_shared S)")
    case None
    then show ?thesis using none by simp
  next
    case (Some x)
    obtain r pss' s' tr where x: "x = (r, pss', s', tr)" by (cases x)
    have "mirror_sys_ok (S\<lparr>mirror_shared := s', mirror_sessions := (mirror_sessions S)(w \<mapsto> pss')\<rparr>)"
      by (rule mirror_step_ok [OF sys mirror_step.callback [OF assms(2,4) Some [unfolded x]]])
    then show ?thesis using Some none by (simp add: x)
  qed
qed

text \<open>One connected session, used by the witnesses.\<close>

definition mirror_heap0 :: heap where
  "mirror_heap0 = \<lparr>blocks = Map.empty, brk = 0, room = 100000\<rparr>"

definition mirror_pss0 :: "wsi \<Rightarrow> per_session_data__lws_mirror" where
  "mirror_pss0 w = \<lparr>mirror_wsi = w, ringbuffer_tail = 0\<rparr>"

definition mirror_one :: mirror_sys where
  "mirror_one = (mirror_start mirror_heap0)\<lparr>mirror_sessions := [1 \<mapsto> mirror_pss0 1]\<rparr>"

lemma mirror_connect_step:
  assumes "mirror_sessions S w = None" "mirror_vhd (mirror_shared S) = Some v"
  shows "mirror_step S (S\<lparr>mirror_sessions := (mirror_sessions S)
    (w \<mapsto> \<lparr>mirror_wsi = w, ringbuffer_tail = ringbuffer_head v\<rparr>)\<rparr>)"
  using mirror_step.connect [OF assms(1), of "\<lambda>_. 0" 0 "\<lparr>mirror_wsi = w, ringbuffer_tail = ringbuffer_head v\<rparr>"
    "mirror_shared S" "[]"] assms(2) by (simp add: callback_lws_mirror_def)

lemma mirror_one_reachable: "mirror_reachable mirror_one"
proof -
  have "mirror_reachable (mirror_start mirror_heap0)"
    by (rule mirror_reachable.start) (simp_all add: mirror_heap0_def heap_ok_def)
  moreover have "mirror_step (mirror_start mirror_heap0) mirror_one"
    using mirror_connect_step [of "mirror_start mirror_heap0" 1 zeroed_mirror_vhd]
    by (simp add: mirror_start_def mirror_one_def mirror_pss0_def zeroed_mirror_vhd_def)
  ultimately show ?thesis by (rule mirror_reachable.step)
qed

lemma pending_zeroed: "pending zeroed_mirror_vhd h 0 = []"
proof -
  have "ringbuffer_head zeroed_mirror_vhd = 0" by (simp add: zeroed_mirror_vhd_def)
  then show ?thesis
    by (simp add: pending_def ring_indices_empty ring_index_def MAX_MESSAGE_QUEUE_def)
qed

theorem mirror_callbacks_safe_witness:
  "(\<exists>r pss' s' tr. callback_lws_mirror (\<lambda>_. 0) 1 LWS_CALLBACK_RECEIVE (mirror_pss0 1) [65]
     (mirror_shared mirror_one) = Some (r, pss', s', tr) \<and>
     mirror_sys_ok (mirror_one\<lparr>mirror_shared := s', mirror_sessions := (mirror_sessions mirror_one)(1 \<mapsto> pss')\<rparr>)) \<and>
   callback_lws_mirror (\<lambda>_. 0) 1 LWS_CALLBACK_RECEIVE (mirror_pss0 1) (replicate 100000 65) (mirror_shared mirror_one) = None"
proof -
  have one: "mirror_sessions mirror_one 1 = Some (mirror_pss0 1)" "mirror_vhd (mirror_shared mirror_one) = Some zeroed_mirror_vhd"
    by (simp_all add: mirror_one_def mirror_start_def)
  have room: "mirror_room zeroed_mirror_vhd (mirror_heap (mirror_shared mirror_one)) = 100000"
    by (simp add: mirror_room_def zeroed_mirror_vhd_def mirror_one_def mirror_start_def mirror_heap0_def MAX_MESSAGE_QUEUE_def)
  have p: "pending zeroed_mirror_vhd (mirror_heap (mirror_shared mirror_one)) (ringbuffer_tail (mirror_pss0 1)) = []"
    by (simp add: mirror_pss0_def pending_zeroed)
  note safe = mirror_callbacks_safe [OF mirror_one_reachable one, where reason = LWS_CALLBACK_RECEIVE and orc = "\<lambda>_. 0", unfolded room p]
  show ?thesis using safe [where inp = "[65]"] safe [where inp = "replicate 100000 65"] by (auto split: option.splits)
qed

text \<open>
  C2: What becomes of a message received from a session.  When that session is itself 511 messages
  behind, the message is dropped for everyone and the sender is throttled.  Otherwise it is appended,
  whole and last, to what every connected session with fewer than 511 pending messages has still to send, the sender
  included, and a session with 511 loses its whole backlog and the message; the sender is
  throttled exactly when its backlog has reached 510.  Either way a writeable callback is asked for every session.
\<close>

theorem mirror_fanout:
  assumes "mirror_reachable S" and "mirror_sessions S w = Some pss"
    and "mirror_vhd (mirror_shared S) = Some v" and "h = mirror_heap (mirror_shared S)"
    and "callback_lws_mirror orc w LWS_CALLBACK_RECEIVE pss inp (mirror_shared S) = Some (r, pss', s', tr)"
  shows "r = 0 \<and> pss' = pss \<and>
    (if length (pending v h (ringbuffer_tail pss)) < 511
     then (\<exists>v'. mirror_vhd s' = Some v' \<and>
         (\<forall>u q. mirror_sessions S u = Some q \<longrightarrow> pending v' (mirror_heap s') (ringbuffer_tail q) =
            (if length (pending v h (ringbuffer_tail q)) < 511 then pending v h (ringbuffer_tail q) @ [Some inp] else []))) \<and>
       tr = (if length (pending v h (ringbuffer_tail pss)) = 509 then [Lws_rx_flow_control w 0] else []) @
            [Lws_callback_on_writable_all_protocol]
     else s' = mirror_shared S \<and> tr = [Lws_rx_flow_control w 0, Lws_callback_on_writable_all_protocol])"
proof -
  have sys: "mirror_sys_ok S" using assms(1) by (rule mirror_reachable_ok)
  then have ok: "mirror_ok v h" and ses: "\<And>u q. mirror_sessions S u = Some q \<Longrightarrow> session_ok v (ringbuffer_tail q)"
    using assms(3,4) by (auto simp: mirror_sys_ok_def)
  have le: "length (pending v h t) \<le> 511" for t
    using ring_used_range [of "ringbuffer_head v" t] by (auto simp: length_pending nat_le_iff)
  show ?thesis
  proof (cases "length (pending v h (ringbuffer_tail pss)) < 511")
    case False
    then have "ring_used (ringbuffer_head v) (ringbuffer_tail pss) = 511"
      using ring_used_range [of "ringbuffer_head v" "ringbuffer_tail pss"] by (auto simp: length_pending)
    from mirror_receive_drop [OF assms(3) this, of orc w inp] assms(5) False show ?thesis by simp
  next
    case True
    then have used: "ring_used (ringbuffer_head v) (ringbuffer_tail pss) < 511" by (simp add: length_pending)
    then obtain v' h' where enq: "mirror_enqueue inp v h = Some (v', h')"
      using assms(3-5) by (auto simp: callback_lws_mirror_def bind_Some_iff MAX_MESSAGE_QUEUE_def)
    have "ring_used (ringbuffer_head v') (ringbuffer_tail pss) =
        ring_used (ringbuffer_head v) (ringbuffer_tail pss) + 1"
      using ring_used_next_head [OF _ _ used] ok ses [OF assms(2)] mirror_enqueue_ok(2) [OF ok enq]
      by (simp add: mirror_ok_def session_ok_def)
    moreover have "ring_used (ringbuffer_head v) (ringbuffer_tail pss) = 509 \<longleftrightarrow>
        length (pending v h (ringbuffer_tail pss)) = 509"
      using ring_used_range [of "ringbuffer_head v" "ringbuffer_tail pss"] by (auto simp: length_pending)
    moreover have "callback_lws_mirror orc w LWS_CALLBACK_RECEIVE pss inp (mirror_shared S) =
      Some (0, pss, (mirror_shared S)\<lparr>mirror_vhd := Some v', mirror_heap := h'\<rparr>,
        (if ring_used (ringbuffer_head v') (ringbuffer_tail pss) = 510 then [Lws_rx_flow_control w 0] else []) @
        [Lws_callback_on_writable_all_protocol])"
      by (rule mirror_receive_store [OF assms(3)]) (use used enq assms(4) in simp_all)
    moreover have "pending v' h' (ringbuffer_tail q) =
        (if length (pending v h (ringbuffer_tail q)) < 511 then pending v h (ringbuffer_tail q) @ [Some inp] else [])"
      if "mirror_sessions S u = Some q" for u q
      using mirror_enqueue_session(2,3) [OF ok ses [OF that] enq] le [of "ringbuffer_tail q"] by (simp add: less_le)
    ultimately show ?thesis using assms(5) True by auto
  qed
qed

lemma mirror_one_run:
  "\<exists>r pss' s' tr. callback_lws_mirror (\<lambda>_. 0) 1 LWS_CALLBACK_RECEIVE (mirror_pss0 1) [65]
     (mirror_shared mirror_one) = Some (r, pss', s', tr)"
proof -
  have vhd: "mirror_vhd (mirror_shared mirror_one) = Some zeroed_mirror_vhd"
    and heap: "mirror_heap (mirror_shared mirror_one) = mirror_heap0"
    by (simp_all add: mirror_one_def mirror_start_def)
  have "mirror_ok zeroed_mirror_vhd mirror_heap0"
    using mirror_reachable_ok [OF mirror_one_reachable] vhd heap by (simp add: mirror_sys_ok_def)
  then obtain v' h' where "mirror_enqueue [65] zeroed_mirror_vhd mirror_heap0 = Some (v', h')"
    using mirror_enqueue_total [of zeroed_mirror_vhd mirror_heap0 "[65]"]
    by (auto simp: mirror_heap0_def)
  with vhd heap show ?thesis
    by (simp add: callback_lws_mirror_def Let_def)
qed

theorem mirror_fanout_witness:
  "\<exists>r pss' s' tr v'. callback_lws_mirror (\<lambda>_. 0) 1 LWS_CALLBACK_RECEIVE (mirror_pss0 1) [65]
     (mirror_shared mirror_one) = Some (r, pss', s', tr) \<and> mirror_vhd s' = Some v' \<and>
     pending v' (mirror_heap s') 0 = [Some [65]] \<and> tr = [Lws_callback_on_writable_all_protocol]"
proof -
  obtain r pss' s' tr where run: "callback_lws_mirror (\<lambda>_. 0) 1 LWS_CALLBACK_RECEIVE (mirror_pss0 1) [65]
     (mirror_shared mirror_one) = Some (r, pss', s', tr)"
    using mirror_one_run by blast
  note one = mirror_fanout [OF mirror_one_reachable _ _ refl run, of zeroed_mirror_vhd]
  have "mirror_sessions mirror_one 1 = Some (mirror_pss0 1)"
    "mirror_vhd (mirror_shared mirror_one) = Some zeroed_mirror_vhd" "ringbuffer_tail (mirror_pss0 1) = 0"
    by (simp_all add: mirror_one_def mirror_start_def mirror_pss0_def)
  with one obtain v' where "mirror_vhd s' = Some v'" "pending v' (mirror_heap s') 0 = [Some [65]]"
    "tr = [Lws_callback_on_writable_all_protocol]"
    by (force simp: pending_zeroed)
  with run show ?thesis by blast
qed

text \<open>
  C3: A SERVER_WRITEABLE callback of a reachable session sends the oldest messages of its
  backlog, in order and each exactly once, and leaves the rest: it stops at the end of the
  backlog, at a choked socket (then a new writeable callback has been asked for) or at a
  failed write, which closes the connection; reception is allowed again for all sessions
  exactly when the backlog falls from 498 or more to below 498.
\<close>

theorem mirror_writeable_fifo:
  assumes "mirror_reachable S" and "mirror_sessions S w = Some pss"
    and "mirror_vhd (mirror_shared S) = Some v" and "h = mirror_heap (mirror_shared S)"
  shows "\<exists>r t tr. callback_lws_mirror orc w LWS_CALLBACK_SERVER_WRITEABLE pss inp (mirror_shared S) =
      Some (r, pss\<lparr>ringbuffer_tail := t\<rparr>, mirror_shared S, tr) \<and> r \<in> {0, - 1} \<and>
    pending v h (ringbuffer_tail pss) =
      map Some (if r = 0 then written tr else butlast (written tr)) @ pending v h t \<and>
    (r = 0 \<longrightarrow> pending v h t = [] \<or> last tr = Lws_callback_on_writable w) \<and>
    count_list tr Lws_rx_flow_allow_all_protocol =
      (if length (pending v h t) < 498 \<and> 498 \<le> length (pending v h (ringbuffer_tail pss)) then 1 else 0)"
proof -
  have sys: "mirror_sys_ok S" using assms(1) by (rule mirror_reachable_ok)
  with assms have ok: "mirror_ok v h" and ses: "session_ok v (ringbuffer_tail pss)"
    by (auto simp: mirror_sys_ok_def)
  then have none: "pending v h (ringbuffer_head v) = []"
    by (simp add: pending_def ring_indices_empty mirror_ok_def)
  from mirror_drain_correct [OF ok ses, of orc w "[]"] obtain r t tr where
    run: "mirror_drain orc w v h (ringbuffer_tail pss) [] = Some (r, t, tr)" and r: "r = 0 \<or> r = - 1"
    and sent: "pending v h (ringbuffer_tail pss) =
      map Some (if r = 0 then written tr else butlast (written tr)) @ pending v h t"
    and stop: "r = 0 \<longrightarrow> t = ringbuffer_head v \<or> (\<exists>pre. tr = pre @ [Lws_callback_on_writable w])"
    and allow: "count_list tr Lws_rx_flow_allow_all_protocol =
      (if length (pending v h t) < 498 \<and> 498 \<le> length (pending v h (ringbuffer_tail pss)) then 1 else 0)"
    by auto
  from run assms(3,4) have "callback_lws_mirror orc w LWS_CALLBACK_SERVER_WRITEABLE pss inp (mirror_shared S) =
      Some (r, pss\<lparr>ringbuffer_tail := t\<rparr>, mirror_shared S, tr)"
    by (simp add: callback_lws_mirror_def)
  moreover have "r = 0 \<longrightarrow> pending v h t = [] \<or> last tr = Lws_callback_on_writable w"
    using stop none by auto
  ultimately show ?thesis using r sent allow by blast
qed

subsection \<open>A session that falls behind\<close>

text \<open>
  Two sessions, 1 reading at once and 2 not at all: after n messages from 1 the backlog of 2
  is n, for every n up to the capacity of the ring.
\<close>

definition mirror_lag :: "nat \<Rightarrow> mirror_sys \<Rightarrow> bool" where
  "mirror_lag n S \<longleftrightarrow> mirror_reachable S \<and> (\<exists>v p q. mirror_vhd (mirror_shared S) = Some v \<and>
     mirror_sessions S 1 = Some p \<and> mirror_sessions S 2 = Some q \<and>
     pending v (mirror_heap (mirror_shared S)) (ringbuffer_tail p) = [] \<and>
     length (pending v (mirror_heap (mirror_shared S)) (ringbuffer_tail q)) = n)"

lemma mirror_lag_start: "\<exists>S. mirror_lag 0 S \<and> room (mirror_heap (mirror_shared S)) = 100000"
proof (intro exI conjI)
  let ?S = "mirror_one\<lparr>mirror_sessions := [1 \<mapsto> mirror_pss0 1, 2 \<mapsto> mirror_pss0 2]\<rparr>"
  have "mirror_step mirror_one ?S"
    using mirror_connect_step [of mirror_one 2 zeroed_mirror_vhd]
    by (simp add: mirror_one_def mirror_start_def mirror_pss0_def zeroed_mirror_vhd_def)
  with mirror_one_reachable have "mirror_reachable ?S" by (rule mirror_reachable.step)
  then show "mirror_lag 0 ?S"
    by (simp add: mirror_lag_def mirror_one_def mirror_start_def mirror_pss0_def pending_zeroed)
  show "room (mirror_heap (mirror_shared ?S)) = 100000"
    by (simp add: mirror_one_def mirror_start_def mirror_heap0_def)
qed

lemma mirror_enqueue_room:
  assumes "mirror_ok v h" "mirror_enqueue inp v h = Some (v', h')"
  shows "room h \<le> room h' + (LWS_PRE + length inp)"
proof -
  obtain h1 where
    "arr_get (ringbuffer v) (ringbuffer_head v) = Some (ringbuffer v ! nat (ringbuffer_head v))"
    "(case payload (ringbuffer v ! nat (ringbuffer_head v)) of None \<Rightarrow> Some h | Some p \<Rightarrow> c_free p h) = Some h1"
    "room h \<le> room h1" by (rule mirror_enqueue_slot [OF assms(1)])
  with assms(2) show ?thesis
    by (auto simp: mirror_enqueue_def bind_Some_iff malloc_def store_bytes_def split: if_splits)
qed

text \<open>One round: 1 receives a message, and sends it to itself at once.\<close>

lemma mirror_lag_receive:
  assumes S: "mirror_lag n S" and n: "n \<le> 511" and room: "LWS_PRE + 1 \<le> room (mirror_heap (mirror_shared S))"
  obtains v p q v' h' where "mirror_reachable S" "mirror_vhd (mirror_shared S) = Some v"
    "mirror_sessions S 1 = Some p" "mirror_sessions S 2 = Some q"
    "length (pending v (mirror_heap (mirror_shared S)) (ringbuffer_tail q)) = n"
    "mirror_step S (S\<lparr>mirror_shared := mirror_shared S\<lparr>mirror_vhd := Some v', mirror_heap := h'\<rparr>\<rparr>)"
    "pending v' h' (ringbuffer_tail p) = [Some [65]]"
    "n < 511 \<Longrightarrow> length (pending v' h' (ringbuffer_tail q)) = Suc n"
    "n = 511 \<Longrightarrow> pending v' h' (ringbuffer_tail q) = []"
    "room (mirror_heap (mirror_shared S)) \<le> room h' + (LWS_PRE + 1)"
proof -
  let ?h = "mirror_heap (mirror_shared S)"
  obtain v p q where r: "mirror_reachable S" and vhd: "mirror_vhd (mirror_shared S) = Some v"
    and p: "mirror_sessions S 1 = Some p" and q: "mirror_sessions S 2 = Some q"
    and pp: "pending v ?h (ringbuffer_tail p) = []"
    and pq: "length (pending v ?h (ringbuffer_tail q)) = n"
    using S unfolding mirror_lag_def by blast
  have ok: "mirror_ok v ?h" and sp: "session_ok v (ringbuffer_tail p)" and sq: "session_ok v (ringbuffer_tail q)"
    using mirror_reachable_ok [OF r] vhd p q by (auto simp: mirror_sys_ok_def)
  obtain v' h' where enq: "mirror_enqueue [65] v ?h = Some (v', h')"
    using mirror_enqueue_total [OF ok, of "[65]"] room by auto
  have "ring_used (ringbuffer_head v) (ringbuffer_tail p) \<noteq> 511"
    using pp length_pending [of v ?h "ringbuffer_tail p"] by auto
  note run = mirror_receive_store [OF vhd this enq, of "\<lambda>_. 0" 1]
  have "(mirror_sessions S)(1 \<mapsto> p) = mirror_sessions S" using p by auto
  with mirror_step.callback [OF p _ run]
  have "mirror_step S (S\<lparr>mirror_shared := mirror_shared S\<lparr>mirror_vhd := Some v', mirror_heap := h'\<rparr>\<rparr>)"
    by simp
  moreover have "pending v' h' (ringbuffer_tail p) = [Some [65]]"
    using mirror_enqueue_session(2) [OF ok sp enq] pp by simp
  moreover have "n < 511 \<Longrightarrow> length (pending v' h' (ringbuffer_tail q)) = Suc n"
    using mirror_enqueue_session(2) [OF ok sq enq] pq by simp
  moreover have "n = 511 \<Longrightarrow> pending v' h' (ringbuffer_tail q) = []"
    using mirror_enqueue_session(3) [OF ok sq enq] pq by simp
  ultimately show ?thesis
    using that [OF r vhd p q pq] mirror_enqueue_room [OF ok enq] by simp
qed

lemma mirror_lag_step:
  assumes S: "mirror_lag n S" and n: "n < 511" and room: "LWS_PRE + 1 \<le> room (mirror_heap (mirror_shared S))"
  shows "\<exists>T. mirror_lag (Suc n) T \<and>
    room (mirror_heap (mirror_shared S)) \<le> room (mirror_heap (mirror_shared T)) + (LWS_PRE + 1)"
proof -
  from mirror_lag_receive [OF S less_imp_le [OF n] room] n obtain v p q v' h' where
    r: "mirror_reachable S" and p: "mirror_sessions S 1 = Some p" and q: "mirror_sessions S 2 = Some q"
    and step: "mirror_step S (S\<lparr>mirror_shared := mirror_shared S\<lparr>mirror_vhd := Some v', mirror_heap := h'\<rparr>\<rparr>)"
    and pp: "pending v' h' (ringbuffer_tail p) = [Some [65]]"
    and pq: "length (pending v' h' (ringbuffer_tail q)) = Suc n"
    and rm: "room (mirror_heap (mirror_shared S)) \<le> room h' + (LWS_PRE + 1)" by metis
  define U where "U = S\<lparr>mirror_shared := mirror_shared S\<lparr>mirror_vhd := Some v', mirror_heap := h'\<rparr>\<rparr>"
  have rU: "mirror_reachable U" using mirror_reachable.step [OF r step] by (simp add: U_def)
  from mirror_reachable_ok [OF rU] p have ok: "mirror_ok v' h'" and sp: "session_ok v' (ringbuffer_tail p)"
    by (auto simp: mirror_sys_ok_def U_def)
  obtain tr where run: "mirror_drain (\<lambda>_. 0) 1 v' h' (ringbuffer_tail p) [] = Some (0, ringbuffer_head v', tr)"
    using mirror_drain_all [OF ok sp, of "\<lambda>_. 0" 1 "[]"] by auto
  let ?p = "p\<lparr>ringbuffer_tail := ringbuffer_head v'\<rparr>"
  let ?T = "U\<lparr>mirror_sessions := (mirror_sessions U)(1 \<mapsto> ?p)\<rparr>"
  have "callback_lws_mirror (\<lambda>_. 0) 1 LWS_CALLBACK_SERVER_WRITEABLE p [] (mirror_shared U) =
      Some (0, ?p, mirror_shared U, tr)"
    using run by (simp add: callback_lws_mirror_def U_def)
  with mirror_step.callback [of U 1 p LWS_CALLBACK_SERVER_WRITEABLE "\<lambda>_. 0" "[]"] p
  have "mirror_step U ?T" by (simp add: U_def)
  with rU have "mirror_reachable ?T" by (rule mirror_reachable.step)
  moreover have "pending v' h' (ringbuffer_head v') = []"
    using ok by (simp add: pending_def ring_indices_empty mirror_ok_def)
  ultimately have "mirror_lag (Suc n) ?T"
    using q pq by (simp add: mirror_lag_def U_def)
  with rm show ?thesis by (intro exI [of _ ?T]) (simp add: U_def)
qed

lemma mirror_lag_reachable:
  "n \<le> 511 \<Longrightarrow> \<exists>S. mirror_lag n S \<and> 100000 \<le> room (mirror_heap (mirror_shared S)) + 17 * n"
proof (induction n)
  case 0
  with mirror_lag_start show ?case by force
next
  case (Suc n)
  then obtain S where S: "mirror_lag n S" "100000 \<le> room (mirror_heap (mirror_shared S)) + 17 * n" by auto
  with mirror_lag_step [of n S] Suc.prems show ?case by force
qed

theorem mirror_writeable_fifo_witness:
  "\<exists>S q v r t tr. mirror_reachable S \<and> mirror_sessions S 2 = Some q \<and>
     length (pending v (mirror_heap (mirror_shared S)) (ringbuffer_tail q)) = 500 \<and>
     callback_lws_mirror (\<lambda>_. 0) 2 LWS_CALLBACK_SERVER_WRITEABLE q [] (mirror_shared S) =
       Some (r, q\<lparr>ringbuffer_tail := t\<rparr>, mirror_shared S, tr) \<and>
     pending v (mirror_heap (mirror_shared S)) (ringbuffer_tail q) =
       map Some (if r = 0 then written tr else butlast (written tr)) @
       pending v (mirror_heap (mirror_shared S)) t"
proof -
  obtain S v q where "mirror_reachable S" "mirror_sessions S 2 = Some q"
    "mirror_vhd (mirror_shared S) = Some v"
    "length (pending v (mirror_heap (mirror_shared S)) (ringbuffer_tail q)) = 500"
    using mirror_lag_reachable [of 500] by (auto simp: mirror_lag_def)
  with mirror_writeable_fifo [OF this(1-3) refl, of "\<lambda>_. 0" "[]"] show ?thesis by blast
qed

text \<open>
  C4: Tearing the vhost down frees every payload of a reachable state exactly once (no block
  is left, no pointer is freed twice) and clears the pointers, so that a second teardown is
  harmless too.
\<close>

theorem mirror_destroy_frees:
  assumes "mirror_reachable S"
  shows "\<exists>s'. callback_lws_mirror orc w LWS_CALLBACK_PROTOCOL_DESTROY pss inp (mirror_shared S) =
      Some (0, pss, s', []) \<and> blocks (mirror_heap s') = Map.empty \<and>
    callback_lws_mirror orc w LWS_CALLBACK_PROTOCOL_DESTROY pss inp s' = Some (0, pss, s', [])"
proof -
  obtain v where vhd: "mirror_vhd (mirror_shared S) = Some v"
    and ok: "mirror_ok v (mirror_heap (mirror_shared S))"
    using mirror_reachable_ok [OF assms] by (auto simp: mirror_sys_ok_def)
  have again: "mirror_free_all (map (\<lambda>m. m\<lparr>payload := None\<rparr>) ms) h =
      Some (map (\<lambda>m. m\<lparr>payload := None\<rparr>) ms, h)" for ms :: "a_message list" and h
    by (induction ms) auto
  from mirror_free_all_empty [OF ok] vhd again show ?thesis
    by (auto simp: callback_lws_mirror_def)
qed

theorem mirror_destroy_frees_witness:
  "\<exists>s'. callback_lws_mirror (\<lambda>_. 0) 1 LWS_CALLBACK_PROTOCOL_DESTROY (mirror_pss0 1) []
     (mirror_shared mirror_one) = Some (0, mirror_pss0 1, s', []) \<and> blocks (mirror_heap s') = Map.empty"
  using mirror_destroy_frees [OF mirror_one_reachable] by blast

text \<open>
  The ring does not protect a session that falls behind.  A state is reachable where a
  session has 511 messages to send and the next callback, one for another session, leaves it
  with none: all 511 are lost and it is not told.  The flow control of the code looks at the
  sender's own backlog only.
\<close>

theorem mirror_overrun:
  "\<exists>S T q v v'. mirror_reachable S \<and> mirror_step S T \<and>
     mirror_sessions S 2 = Some q \<and> mirror_sessions T 2 = Some q \<and>
     mirror_vhd (mirror_shared S) = Some v \<and> mirror_vhd (mirror_shared T) = Some v' \<and>
     length (pending v (mirror_heap (mirror_shared S)) (ringbuffer_tail q)) = 511 \<and>
     pending v' (mirror_heap (mirror_shared T)) (ringbuffer_tail q) = []"
proof -
  obtain S where S: "mirror_lag 511 S" "100000 \<le> room (mirror_heap (mirror_shared S)) + 17 * 511"
    using mirror_lag_reachable [of 511] by auto
  then have "LWS_PRE + 1 \<le> room (mirror_heap (mirror_shared S))" by simp
  from mirror_lag_receive [OF S(1) _ this] obtain v q v' h' where
    "mirror_reachable S" "mirror_vhd (mirror_shared S) = Some v" "mirror_sessions S 2 = Some q"
    "length (pending v (mirror_heap (mirror_shared S)) (ringbuffer_tail q)) = 511"
    "mirror_step S (S\<lparr>mirror_shared := mirror_shared S\<lparr>mirror_vhd := Some v', mirror_heap := h'\<rparr>\<rparr>)"
    "pending v' h' (ringbuffer_tail q) = []" by (metis order_refl)
  then show ?thesis
    by (intro exI [of _ S] exI [of _ "S\<lparr>mirror_shared := mirror_shared S\<lparr>mirror_vhd := Some v', mirror_heap := h'\<rparr>\<rparr>"]
        exI [of _ q] exI [of _ v] exI [of _ v']) simp
qed

end
