(* ===== verification/CList.thy ===== *)
theory CList
  imports Prelude
begin

text \<open>
  Singly linked lists in memory: chain nxt p xs says that following the next pointers from p
  visits exactly the addresses xs and ends at NULL.  The pointers are read through a
  function from addresses: None is an address that holds no node.  Shared by the sessions
  of the status protocol, the list macros and the hash table.
\<close>

primrec chain :: "('a \<Rightarrow> 'a option option) \<Rightarrow> 'a option \<Rightarrow> 'a list \<Rightarrow> bool" where
  "chain nxt p [] \<longleftrightarrow> p = None"
| "chain nxt p (x # xs) \<longleftrightarrow> p = Some x \<and> (\<exists>q. nxt x = Some q \<and> chain nxt q xs)"

lemma chain_None [simp]: "chain nxt None xs \<longleftrightarrow> xs = []"
  by (cases xs) auto

lemma chain_Some: "chain nxt (Some x) xs \<longleftrightarrow> (\<exists>ys q. xs = x # ys \<and> nxt x = Some q \<and> chain nxt q ys)"
  by (cases xs) auto

lemma chain_unique: "chain nxt p xs \<Longrightarrow> chain nxt p ys \<Longrightarrow> xs = ys"
proof (induction xs arbitrary: p ys)
  case Nil
  then show ?case by simp
next
  case (Cons x xs)
  then show ?case by (auto simp: chain_Some)
qed

lemma chain_split: "chain nxt p (xs @ x # ys) \<Longrightarrow> chain nxt (Some x) (x # ys)"
  by (induction xs arbitrary: p) auto

text \<open>A chain that ends visits no node twice.\<close>

lemma chain_distinct: "chain nxt p xs \<Longrightarrow> distinct xs"
proof (rule ccontr)
  assume c: "chain nxt p xs" and "\<not> distinct xs"
  then obtain x as bs cs where xs: "xs = as @ x # bs @ x # cs"
    using not_distinct_decomp [of xs] by auto
  from chain_split [of nxt p as x "bs @ x # cs"] chain_split [of nxt p "as @ x # bs" x cs] c
  have "chain nxt (Some x) (x # bs @ x # cs)" "chain nxt (Some x) (x # cs)"
    by (simp_all add: xs)
  then have "x # bs @ x # cs = x # cs" by (rule chain_unique)
  then show False by simp
qed

lemma chain_cong: "(\<And>x. x \<in> set xs \<Longrightarrow> nxt x = nxt' x) \<Longrightarrow> chain nxt p xs \<longleftrightarrow> chain nxt' p xs"
proof (induction xs arbitrary: p)
  case (Cons x xs)
  then show ?case by (metis chain.simps(2) list.set_intros)
qed simp

lemma chain_frame: "chain nxt p xs \<Longrightarrow> x \<notin> set xs \<Longrightarrow> chain (nxt(x := q)) p xs"
  by (subst chain_cong [where nxt' = nxt]) auto

lemma chain_in: "chain nxt p xs \<Longrightarrow> x \<in> set xs \<Longrightarrow> nxt x \<noteq> None"
  by (induction xs arbitrary: p) auto

text \<open>Pushing a node in front.\<close>

lemma chain_push: "chain nxt p xs \<Longrightarrow> x \<notin> set xs \<Longrightarrow> chain (nxt(x \<mapsto> p)) (Some x) (x # xs)"
  by (simp add: chain_frame)

text \<open>Unlinking a node behind its predecessor.\<close>

lemma chain_unlink:
  assumes "chain nxt p (xs @ y # x # ys)" "nxt x = Some q"
  shows "chain (nxt(y \<mapsto> q)) p (xs @ y # ys)"
  using assms
proof (induction xs arbitrary: p)
  case Nil
  then have "y \<notin> set ys" "chain nxt q ys" "p = Some y"
    using chain_distinct [of nxt p "y # x # ys"] by auto
  then show ?case using chain_frame [of nxt q ys y "Some q"] by (simp add: fun_upd_def)
next
  case (Cons z xs)
  from chain_distinct [OF Cons.prems(1)] have "z \<noteq> y" by auto
  with Cons show ?case by auto
qed

subsection \<open>Segments\<close>

text \<open>A segment follows the next pointers through xs and arrives at q.\<close>

primrec seg :: "('a \<Rightarrow> 'a option option) \<Rightarrow> 'a option \<Rightarrow> 'a list \<Rightarrow> 'a option \<Rightarrow> bool" where
  "seg nxt p [] q \<longleftrightarrow> p = q"
| "seg nxt p (x # xs) q \<longleftrightarrow> p = Some x \<and> (\<exists>r. nxt x = Some r \<and> seg nxt r xs q)"

lemma seg_None: "seg nxt p xs None \<longleftrightarrow> chain nxt p xs"
  by (induction xs arbitrary: p) auto

lemma seg_append: "seg nxt p (xs @ ys) q \<longleftrightarrow> (\<exists>r. seg nxt p xs r \<and> seg nxt r ys q)"
  by (induction xs arbitrary: p) auto

lemma chain_append: "chain nxt p (xs @ ys) \<longleftrightarrow> (\<exists>r. seg nxt p xs r \<and> chain nxt r ys)"
  by (induction xs arbitrary: p) auto

lemma seg_cong: "(\<And>x. x \<in> set xs \<Longrightarrow> nxt x = nxt' x) \<Longrightarrow> seg nxt p xs q \<longleftrightarrow> seg nxt' p xs q"
proof (induction xs arbitrary: p)
  case (Cons x xs)
  then show ?case by (metis seg.simps(2) list.set_intros)
qed simp

lemma seg_frame: "seg nxt p xs q \<Longrightarrow> x \<notin> set xs \<Longrightarrow> seg (nxt(x := r)) p xs q"
  by (subst seg_cong [where nxt' = nxt]) auto

text \<open>Redirecting the last node of a segment.\<close>

lemma seg_relink:
  "seg nxt p (xs @ [x]) q \<Longrightarrow> x \<notin> set xs \<Longrightarrow> seg (nxt(x \<mapsto> r)) p (xs @ [x]) r"
  by (auto simp: seg_append seg_frame)

end
