(* ===== verification/CString.thy ===== *)
theory CString
  imports Prelude "HOL-Library.Char_ord"
begin

text \<open>
  C strings as lists of characters without their terminator, what the components use of the
  C library on them, and the decimal conversions of printf and atoi.  A fixed buffer is a
  bound on the length of the string it holds.
\<close>

definition bytes_of :: "string \<Rightarrow> byte list" where
  "bytes_of s = map of_char s"

lemma length_bytes_of [simp]: "length (bytes_of s) = length s"
  by (simp add: bytes_of_def)

lemma bytes_of_append: "bytes_of (s @ t) = bytes_of s @ bytes_of t"
  by (simp add: bytes_of_def)

lemma unat_of_char: "unat (of_char c :: byte) = of_char c"
proof -
  have "(of_char c :: byte) = of_nat (of_char c)" by (metis of_nat_of_char)
  moreover have "(of_char c :: nat) < 256" by (rule nat_of_char_less_256)
  ultimately show ?thesis by (simp add: unsigned_of_nat take_bit_eq_mod)
qed

lemma of_char_byte_eq: "(of_char c :: byte) = of_char d \<longleftrightarrow> c = d"
  by (metis unat_of_char of_char_eq_iff)

lemma bytes_of_inject: "bytes_of s = bytes_of t \<longleftrightarrow> s = t"
  unfolding bytes_of_def by (rule inj_map_eq_map) (auto intro!: injI simp: of_char_byte_eq)

subsection \<open>Decimal numbers\<close>

definition digit :: "nat \<Rightarrow> char" where
  "digit n = char_of (48 + n)"

fun dec_nat :: "nat \<Rightarrow> string" where
  "dec_nat n = (if n < 10 then [digit n] else dec_nat (n div 10) @ [digit (n mod 10)])"

declare dec_nat.simps [simp del]

text \<open>%d and %ld\<close>

definition dec_int :: "int \<Rightarrow> string" where
  "dec_int n = (if n < 0 then CHR ''-'' # dec_nat (nat (- n)) else dec_nat (nat n))"

definition is_digit :: "char \<Rightarrow> bool" where
  "is_digit c \<longleftrightarrow> 48 \<le> (of_char c :: nat) \<and> (of_char c :: nat) \<le> 57"

definition is_space :: "char \<Rightarrow> bool" where
  "is_space c \<longleftrightarrow> (of_char c :: nat) = 32 \<or> 9 \<le> (of_char c :: nat) \<and> (of_char c :: nat) \<le> 13"

text \<open>
  atoi: white space, a sign, then digits up to the first other character.  A value outside
  int is undefined in C.
\<close>

fun digits_val :: "int \<Rightarrow> string \<Rightarrow> int" where
  "digits_val acc [] = acc"
| "digits_val acc (c # cs) = (if is_digit c then digits_val (acc * 10 + (of_char c - 48)) cs else acc)"

definition atoi_val :: "string \<Rightarrow> int" where
  "atoi_val s = (case dropWhile is_space s of
       [] \<Rightarrow> 0
     | c # cs \<Rightarrow> if c = CHR ''-'' then - digits_val 0 cs
                 else if c = CHR ''+'' then digits_val 0 cs else digits_val 0 (c # cs))"

definition atoi :: "string \<Rightarrow> int option" where
  "atoi s = c_int (atoi_val s)"

lemma of_char_digit [simp]: "n < 10 \<Longrightarrow> (of_char (digit n) :: nat) = 48 + n"
  by (simp add: digit_def)

lemma of_char_digit_int: "n < 10 \<Longrightarrow> (of_char (digit n) :: int) = 48 + int n"
  using of_nat_of_char [of "digit n", where ?'a = int] by simp

lemma is_digit_digit [simp]: "n < 10 \<Longrightarrow> is_digit (digit n)"
  by (simp add: is_digit_def)

lemma dec_nat_digits: "c \<in> set (dec_nat n) \<Longrightarrow> is_digit c"
proof (induction n rule: dec_nat.induct)
  case (1 n)
  then show ?case by (subst (asm) (2) dec_nat.simps) (auto split: if_splits)
qed

lemma dec_nat_nonempty: "dec_nat n \<noteq> []"
  by (subst dec_nat.simps) simp

lemma digits_val_append:
  "(\<And>c. c \<in> set s \<Longrightarrow> is_digit c) \<Longrightarrow> digits_val acc (s @ t) = digits_val (digits_val acc s) t"
  by (induction acc s rule: digits_val.induct) auto

lemma digits_val_dec_nat: "digits_val 0 (dec_nat n) = int n"
proof (induction n rule: dec_nat.induct)
  case (1 n)
  show ?case
  proof (cases "n < 10")
    case True
    then show ?thesis by (subst dec_nat.simps) (simp add: of_char_digit_int)
  next
    case False
    then have "digits_val 0 (dec_nat n) = int (n div 10) * 10 + int (n mod 10)"
      using 1 by (subst dec_nat.simps) (simp add: digits_val_append [OF dec_nat_digits] of_char_digit_int)
    also have "\<dots> = int n" by (metis div_mult_mod_eq of_nat_add of_nat_mult of_nat_numeral)
    finally show ?thesis .
  qed
qed

lemma dec_nat_split: "\<exists>c cs. dec_nat n = c # cs \<and> is_digit c"
  using dec_nat_nonempty [of n] dec_nat_digits [of _ n] by (cases "dec_nat n") auto

text \<open>Reading back what printf wrote.\<close>

lemma atoi_dec_int: "is_int n \<Longrightarrow> atoi (dec_int n) = Some n"
proof -
  obtain c cs where d: "dec_nat (nat n) = c # cs" "is_digit c" using dec_nat_split by blast
  then have "\<not> is_space c" "c \<noteq> CHR ''-''" "c \<noteq> CHR ''+''"
    by (auto simp: is_digit_def is_space_def)
  with d digits_val_dec_nat [of "nat n"] have "0 \<le> n \<Longrightarrow> atoi_val (dec_int n) = n"
    by (simp add: atoi_val_def dec_int_def)
  moreover have "n < 0 \<Longrightarrow> atoi_val (dec_int n) = n"
    by (simp add: atoi_val_def dec_int_def is_space_def digits_val_dec_nat)
  ultimately show "is_int n \<Longrightarrow> atoi (dec_int n) = Some n"
    by (cases "n < 0") (auto simp: atoi_def c_int_def)
qed

lemma length_dec_nat: "n < 10 ^ k \<Longrightarrow> 0 < k \<Longrightarrow> length (dec_nat n) \<le> k"
proof (induction k arbitrary: n)
  case (Suc k)
  show ?case
  proof (cases "n < 10")
    case True
    then show ?thesis by (subst dec_nat.simps) simp
  next
    case False
    with Suc.prems have "n div 10 < 10 ^ k" "0 < k" by (auto simp: less_mult_imp_div_less intro: gr0I)
    with Suc.IH False show ?thesis by (subst dec_nat.simps) simp
  qed
qed simp

subsection \<open>Strings in memory\<close>

text \<open>
  The memory behind a char pointer, from the pointed-to byte to the end of the object.  A
  string function that finds no terminator there is undefined.
\<close>

text \<open>strcmp against a literal, as used in tests for equality.\<close>

fun c_streq :: "byte list \<Rightarrow> string \<Rightarrow> bool option" where
  "c_streq [] s = None"
| "c_streq (b # bs) [] = Some (b = 0)"
| "c_streq (b # bs) (c # cs) = (if b = of_char c then c_streq bs cs else Some False)"

text \<open>strncmp(p, s, n) == 0 for a literal of length n or more.\<close>

fun c_strneq :: "nat \<Rightarrow> byte list \<Rightarrow> string \<Rightarrow> bool option" where
  "c_strneq 0 bs s = Some True"
| "c_strneq (Suc n) [] s = None"
| "c_strneq (Suc n) (b # bs) [] = Some (b = 0)"
| "c_strneq (Suc n) (b # bs) (c # cs) = (if b = of_char c then c_strneq n bs cs else Some False)"

text \<open>The bytes up to the terminator, for strlen and strcpy.\<close>

fun c_str :: "byte list \<Rightarrow> byte list option" where
  "c_str [] = None"
| "c_str (b # bs) = (if b = 0 then Some [] else map_option (Cons b) (c_str bs))"

text \<open>strcpy into an array of the given size, which must also hold the terminator.\<close>

definition c_strcpy :: "nat \<Rightarrow> byte list \<Rightarrow> byte list option" where
  "c_strcpy n src = do { s \<leftarrow> c_str src; if length s < n then Some s else None }"

lemma c_str_terminated: "0 \<notin> set s \<Longrightarrow> c_str (s @ 0 # rest) = Some s"
  by (induction s) auto

lemma c_str_None: "c_str bs = None \<longleftrightarrow> 0 \<notin> set bs"
  by (induction bs) auto

lemma c_str_Some: "c_str bs = Some s \<longleftrightarrow> 0 \<notin> set s \<and> (\<exists>rest. bs = s @ 0 # rest)"
proof (induction bs arbitrary: s)
  case Nil
  then show ?case by simp
next
  case (Cons b bs)
  show ?case by (cases s) (auto simp: Cons)
qed

lemma of_char_byte_0: "(of_char c :: byte) = 0 \<longleftrightarrow> c = CHR 0x00"
proof -
  have "(of_char (CHR 0x00) :: byte) = 0" by simp
  then show ?thesis by (metis of_char_byte_eq)
qed

lemma c_streq_terminated:
  "CHR 0x00 \<notin> set s \<Longrightarrow> CHR 0x00 \<notin> set t \<Longrightarrow> c_streq (bytes_of s @ 0 # rest) t = Some (s = t)"
proof (induction s arbitrary: t)
  case Nil
  then show ?case
    by (cases t) (auto simp: bytes_of_def of_char_byte_0 [unfolded eq_commute [of _ "0 :: byte"]])
next
  case (Cons c s)
  then show ?case
    by (cases t) (auto simp: bytes_of_def of_char_byte_0 of_char_byte_eq)
qed

end
