(* ===== verification/Status.thy ===== *)
theory Status
  imports CList CString LwsApi
begin

text \<open>
  The status protocol, plugins/protocol_lws_status.c: every connected session is sent a JSON
  description of all sessions, in fragments, one per writeable callback, and the description
  is started again when a session comes or goes.  The sessions live in a linked list through
  their own per-session memory; the model keeps that memory as a map from addresses, so a
  pointer to a session that has gone dangles and reading through it is None.
\<close>

subsection \<open>State\<close>

datatype e_walk = WALK_NONE | WALK_INITIAL | WALK_LIST | WALK_FINAL

record per_session_data__lws_status =
  st_next :: "addr option"
  st_wsi :: wsi
  time_est :: int
  user_agent :: string
  walk :: e_walk
  walk_next :: "addr option"
  subsequent :: bool
  changed_partway :: bool

record per_vhost_data__lws_status =
  live_pss_list :: "addr option"
  count_live_pss :: int

type_synonym status_mem = "addr \<Rightarrow> per_session_data__lws_status option"

record status_state =
  status_vhd :: per_vhost_data__lws_status
  status_pss :: status_mem

text \<open>
  What the handler asks of the library and the system.  lws_snprintf gives the characters by
  which the write position advances; ua is what lws_hdr_copy leaves in the buffer, if it
  finds the header.
\<close>

record status_env =
  env_time :: int
  env_ua :: "string option"
  env_version :: string
  env_hostname :: string
  env_peer :: "wsi \<Rightarrow> string"
  env_snprintf :: "nat \<Rightarrow> string \<Rightarrow> string"

text \<open>The documented contract: lws_snprintf cuts off only what does not fit, lws_hdr_copy and
  lws_get_peer_simple stay in the buffer they are given.\<close>

definition status_env_ok :: "status_env \<Rightarrow> bool" where
  "status_env_ok e \<longleftrightarrow>
     (\<forall>n s. length (env_snprintf e n s) \<le> n \<and> (length s < n \<longrightarrow> env_snprintf e n s = s)) \<and>
     (\<forall>u. env_ua e = Some u \<longrightarrow> length u < 128) \<and> (\<forall>w. length (env_peer e w) < 24) \<and>
     \<bar>env_time e\<bar> < 2 ^ 63"

subsection \<open>The handler\<close>

text \<open>
  Restart the description of every session in the list, or, when one is under way, remember
  that it must be restarted.
\<close>

definition resend_mark :: "addr option \<Rightarrow> per_session_data__lws_status \<Rightarrow> per_session_data__lws_status" where
  "resend_mark live s =
     (if walk s = WALK_NONE
      then s\<lparr>subsequent := False, walk_next := live, walk := WALK_INITIAL\<rparr>
      else s\<lparr>changed_partway := True\<rparr>)"

partial_function (option) resend_loop ::
  "addr option \<Rightarrow> addr option \<Rightarrow> status_mem \<Rightarrow> status_mem option" where
  "resend_loop live p mem = (case p of
       None \<Rightarrow> Some mem
     | Some a \<Rightarrow> do {
         s \<leftarrow> mem a;
         resend_loop live (st_next s) (mem(a \<mapsto> resend_mark live s)) })"

definition trigger_resend :: "status_state \<Rightarrow> (status_state \<times> lws_trace) option" where
  "trigger_resend S = do {
     mem \<leftarrow> resend_loop (live_pss_list (status_vhd S)) (live_pss_list (status_vhd S)) (status_pss S);
     Some (S\<lparr>status_pss := mem\<rparr>, [Lws_callback_on_writable_all_protocol]) }"

text \<open>ESTABLISHED: put the session, at address me, in front of the list.\<close>

definition status_established ::
  "status_env \<Rightarrow> wsi \<Rightarrow> addr \<Rightarrow> status_state \<Rightarrow> (int \<times> status_state \<times> lws_trace) option" where
  "status_established e w me S = do {
     n \<leftarrow> c_int (count_live_pss (status_vhd S) + 1);
     s \<leftarrow> status_pss S me;
     let s' = s\<lparr>st_next := live_pss_list (status_vhd S), time_est := env_time e, st_wsi := w,
                user_agent := (case env_ua e of None \<Rightarrow> ''unknown'' | Some u \<Rightarrow> u)\<rparr>;
     (S', tr) \<leftarrow> trigger_resend
        (S\<lparr>status_vhd := (status_vhd S)\<lparr>count_live_pss := n, live_pss_list := Some me\<rparr>,
           status_pss := (status_pss S)(me \<mapsto> s')\<rparr>);
     Some (0, S', tr) }"

text \<open>Is the next session to describe still in the list?\<close>

partial_function (option) status_in_list :: "addr \<Rightarrow> addr option \<Rightarrow> status_mem \<Rightarrow> bool option" where
  "status_in_list a p mem = (case p of
       None \<Rightarrow> Some False
     | Some b \<Rightarrow> if b = a then Some True
                 else do { s \<leftarrow> mem b; status_in_list a (st_next s) mem })"

definition status_header :: "status_env \<Rightarrow> int \<Rightarrow> string" where
  "status_header e n = ''{ \"version\":\"'' @ env_version e @ ''\", \"hostname\":\"'' @ env_hostname e @
     ''\", \"wsi\":\"'' @ dec_int n @ ''\", \"conns\":[''"

definition status_entry :: "status_env \<Rightarrow> per_session_data__lws_status \<Rightarrow> string" where
  "status_entry e s = ''{\"peer\":\"'' @ env_peer e (st_wsi s) @ ''\",\"time\":\"'' @ dec_int (time_est s) @
     ''\",\"ua\":\"'' @ user_agent s @ ''\"}''"

text \<open>
  The buffer has LWS_PRE + 384 bytes, the text starts at LWS_PRE - 1 and end is its last
  byte, so end - p is 384 at the start.
\<close>

definition status_buf_room :: nat where
  "status_buf_room = (LWS_PRE + 384 - 1) - (LWS_PRE - 1)"

definition status_final ::
  "addr option \<Rightarrow> per_session_data__lws_status \<Rightarrow> nat \<times> string \<times> per_session_data__lws_status" where
  "status_final live s =
     (LWS_WRITE_CONTINUATION, '']}'',
      if changed_partway s then s\<lparr>subsequent := False, walk_next := live, walk := WALK_INITIAL\<rparr>
      else s\<lparr>walk := WALK_NONE\<rparr>)"

text \<open>
  The switch of SERVER_WRITEABLE: the write mode, the text and the session's new state.
\<close>

definition status_fragment ::
  "status_env \<Rightarrow> status_state \<Rightarrow> per_session_data__lws_status \<Rightarrow>
   (nat \<times> string \<times> per_session_data__lws_status) option" where
  "status_fragment e S s = (let live = live_pss_list (status_vhd S) in case walk s of
       WALK_INITIAL \<Rightarrow>
         Some (LWS_WRITE_TEXT OR LWS_WRITE_NO_FIN,
               env_snprintf e status_buf_room (status_header e (count_live_pss (status_vhd S))),
               s\<lparr>walk := WALK_LIST, walk_next := live\<rparr>)
     | WALK_LIST \<Rightarrow> (case walk_next s of
         None \<Rightarrow> Some (status_final live s)
       | Some a \<Rightarrow> do {
           let mode = LWS_WRITE_CONTINUATION OR LWS_WRITE_NO_FIN;
           let comma = (if subsequent s then '','' else []);
           let s1 = s\<lparr>subsequent := True\<rparr>;
           m \<leftarrow> status_in_list a live (status_pss S);
           if \<not> m then Some (mode, comma, s1\<lparr>walk := WALK_FINAL, changed_partway := True\<rparr>)
           else do {
             t \<leftarrow> status_pss S a;
             let txt = comma @ env_snprintf e (status_buf_room - length comma) (status_entry e t);
             Some (mode, txt, s1\<lparr>walk_next := st_next t,
                                 walk := (if st_next t = None then WALK_FINAL else WALK_LIST)\<rparr>) } })
     | WALK_FINAL \<Rightarrow> Some (status_final live s)
     | WALK_NONE \<Rightarrow> None)"

definition status_writeable ::
  "lws_oracle \<Rightarrow> status_env \<Rightarrow> wsi \<Rightarrow> addr \<Rightarrow> status_state \<Rightarrow> (int \<times> status_state \<times> lws_trace) option" where
  "status_writeable orc e w me S = do {
     s \<leftarrow> status_pss S me;
     if walk s = WALK_NONE then Some (0, S, [])
     else do {
       (mode, txt, s') \<leftarrow> status_fragment e S s;
       let S' = S\<lparr>status_pss := (status_pss S)(me \<mapsto> s')\<rparr>;
       let tr = [Lws_write w (bytes_of txt) mode];
       if orc tr < 0 then Some (- 1, S', tr)
       else Some (0, S', tr @ (if walk s' \<noteq> WALK_NONE then [Lws_callback_on_writable w] else [])) } }"

text \<open>
  CLOSED: find the session in the list, with its predecessor, and take it out.
\<close>

partial_function (option) status_unlink ::
  "addr \<Rightarrow> addr option \<Rightarrow> addr option \<Rightarrow> status_state \<Rightarrow> status_state option" where
  "status_unlink me prev p S = (case p of
       None \<Rightarrow> Some S
     | Some a \<Rightarrow> do {
         s \<leftarrow> status_pss S a;
         if a = me
         then (case prev of
             None \<Rightarrow> Some (S\<lparr>status_vhd := (status_vhd S)\<lparr>live_pss_list := st_next s\<rparr>\<rparr>)
           | Some b \<Rightarrow> do {
               t \<leftarrow> status_pss S b;
               Some (S\<lparr>status_pss := (status_pss S)(b \<mapsto> t\<lparr>st_next := st_next s\<rparr>)\<rparr>) })
         else status_unlink me (Some a) (st_next s) S })"

definition status_closed :: "addr \<Rightarrow> status_state \<Rightarrow> (int \<times> status_state \<times> lws_trace) option" where
  "status_closed me S = do {
     S1 \<leftarrow> status_unlink me None (live_pss_list (status_vhd S)) S;
     (S2, tr) \<leftarrow> trigger_resend S1;
     Some (0, S2, tr) }"

definition callback_lws_status ::
  "lws_oracle \<Rightarrow> status_env \<Rightarrow> wsi \<Rightarrow> lws_reason \<Rightarrow> addr \<Rightarrow> status_state \<Rightarrow>
   (int \<times> status_state \<times> lws_trace) option" where
  "callback_lws_status orc e w reason me S =
     (if reason = LWS_CALLBACK_PROTOCOL_INIT then do {
        let tr = [Lws_protocol_vh_priv_zalloc 1];
        if orc tr = 0 then None
        else Some (0, S\<lparr>status_vhd := \<lparr>live_pss_list = None, count_live_pss = 0\<rparr>\<rparr>, tr) }
      else if reason = LWS_CALLBACK_ESTABLISHED then status_established e w me S
      else if reason = LWS_CALLBACK_SERVER_WRITEABLE then status_writeable orc e w me S
      else if reason = LWS_CALLBACK_CLOSED then status_closed me S
      else Some (0, S, []))"


subsection \<open>Registration\<close>

text \<open>Loading the plugin fails when it was built for another version of the API.\<close>

definition init_protocol_lws_status :: "lws_plugin_capability \<Rightarrow> int \<times> lws_plugin_capability" where
  "init_protocol_lws_status c =
     (if api_magic c \<noteq> LWS_PLUGIN_API_MAGIC then (1, c)
      else (0, c\<lparr>protocols := [\<lparr>protocol_name = ''lws-status'', rx_buffer_size = 512\<rparr>],
                 count_protocols := 1, count_extensions := 0\<rparr>))"

subsection \<open>The list of sessions\<close>

definition status_links :: "status_mem \<Rightarrow> addr \<Rightarrow> addr option option" where
  "status_links mem a = map_option st_next (mem a)"

lemma status_links_upd [simp]: "status_links (mem(a \<mapsto> s)) = (status_links mem)(a \<mapsto> st_next s)"
  by (auto simp: status_links_def)

lemma status_links_same: "status_links mem a = Some (st_next s) \<Longrightarrow> (status_links mem)(a \<mapsto> st_next s) = status_links mem"
  by auto

lemma status_chain_Cons:
  assumes "chain (status_links mem) p (x # xs)"
  obtains s where "p = Some x" "mem x = Some s" "chain (status_links mem) (st_next s) xs"
proof -
  from assms obtain q where q: "p = Some x" "status_links mem x = Some q" "chain (status_links mem) q xs"
    by auto
  then obtain s where "mem x = Some s" "q = st_next s" by (auto simp: status_links_def)
  with q that show ?thesis by blast
qed

lemma st_next_resend [simp]: "st_next (resend_mark live s) = st_next s"
  by (simp add: resend_mark_def)

lemma resend_loop_chain:
  "chain (status_links mem) p xs \<Longrightarrow>
   resend_loop live p mem = Some (\<lambda>a. if a \<in> set xs then map_option (resend_mark live) (mem a) else mem a)"
proof (induction xs arbitrary: p mem)
  case Nil
  then show ?case by (simp add: resend_loop.simps)
next
  case (Cons x xs)
  from status_chain_Cons [OF Cons.prems] obtain s where
    s: "p = Some x" "mem x = Some s" "chain (status_links mem) (st_next s) xs" .
  have x: "x \<notin> set xs" using chain_distinct [OF Cons.prems] by simp
  have "chain (status_links (mem(x \<mapsto> resend_mark live s))) (st_next s) xs"
    using chain_frame [OF s(3) x] by simp
  note ih = Cons.IH [OF this]
  from x s(2) have "(\<lambda>a. if a \<in> set xs then map_option (resend_mark live) ((mem(x \<mapsto> resend_mark live s)) a)
      else (mem(x \<mapsto> resend_mark live s)) a) =
    (\<lambda>a. if a \<in> set (x # xs) then map_option (resend_mark live) (mem a) else mem a)"
    by (simp add: fun_eq_iff)
  moreover have "resend_loop live p mem = resend_loop live (st_next s) (mem(x \<mapsto> resend_mark live s))"
    using s(1,2) by (subst resend_loop.simps) simp
  ultimately show ?case using ih by (simp only:)
qed

lemma status_in_list_chain:
  "chain (status_links mem) p xs \<Longrightarrow> status_in_list a p mem = Some (a \<in> set xs)"
proof (induction xs arbitrary: p)
  case Nil
  then show ?case by (simp add: status_in_list.simps)
next
  case (Cons x xs)
  from status_chain_Cons [OF Cons.prems] obtain s where
    "p = Some x" "mem x = Some s" "chain (status_links mem) (st_next s) xs" .
  with Cons.IH show ?case by (subst status_in_list.simps) auto
qed

text \<open>The sessions as a list of addresses, newest first.\<close>

definition status_list :: "status_state \<Rightarrow> addr list \<Rightarrow> bool" where
  "status_list S xs \<longleftrightarrow>
     chain (status_links (status_pss S)) (live_pss_list (status_vhd S)) xs"

definition forget_next :: "per_session_data__lws_status \<Rightarrow> per_session_data__lws_status" where
  "forget_next s = s\<lparr>st_next := None\<rparr>"

lemma status_unlink_chain:
  assumes "status_list S (pre @ xs)" "me \<notin> set pre"
    and "p = (case xs of [] \<Rightarrow> None | x # _ \<Rightarrow> Some x)" "prev = (if pre = [] then None else Some (last pre))"
  shows "\<exists>S'. status_unlink me prev p S = Some S' \<and> status_list S' (remove1 me (pre @ xs)) \<and>
    (\<forall>a. map_option forget_next (status_pss S' a) = map_option forget_next (status_pss S a)) \<and>
    count_live_pss (status_vhd S') = count_live_pss (status_vhd S)"
  using assms
proof (induction xs arbitrary: pre p prev)
  case Nil
  then show ?case by (subst status_unlink.simps) (auto simp: remove1_idem)
next
  case (Cons x xs)
  from Cons.prems(1) have "chain (status_links (status_pss S)) (Some x) (x # xs)"
    unfolding status_list_def by (rule chain_split)
  then obtain s where s: "status_pss S x = Some s" "chain (status_links (status_pss S)) (st_next s) xs"
    by (rule status_chain_Cons)
  show ?case
  proof (cases "x = me")
    case False
    have p': "st_next s = (case xs of [] \<Rightarrow> None | x # _ \<Rightarrow> Some x)"
      using s(2) by (cases xs) auto
    from Cons.IH [of "pre @ [x]" "st_next s" "Some x"] Cons.prems False p' s show ?thesis
      by (subst status_unlink.simps) simp
  next
    case True
    show ?thesis
    proof (cases pre rule: rev_cases)
      case Nil
      with Cons.prems True s show ?thesis
        by (subst status_unlink.simps) (simp add: status_list_def)
    next
      case (snoc ys y)
      with Cons.prems(1) have ch: "chain (status_links (status_pss S)) (live_pss_list (status_vhd S)) (ys @ y # x # xs)"
        by (simp add: status_list_def)
      from chain_split [OF this] obtain t where t: "status_pss S y = Some t"
        by (rule status_chain_Cons)
      have "chain ((status_links (status_pss S))(y \<mapsto> st_next s)) (live_pss_list (status_vhd S)) (ys @ y # xs)"
        by (rule chain_unlink [OF ch]) (simp add: status_links_def s)
      with True snoc Cons.prems s t show ?thesis
        by (subst status_unlink.simps) (auto simp: status_list_def remove1_append forget_next_def)
    qed
  qed
qed

subsection \<open>Invariant\<close>

text \<open>What is kept of a session's own data.\<close>

definition status_pss_ok :: "per_session_data__lws_status \<Rightarrow> bool" where
  "status_pss_ok s \<longleftrightarrow> length (user_agent s) < 128 \<and> \<bar>time_est s\<bar> < 2 ^ 63 \<and>
     (walk s = WALK_INITIAL \<longrightarrow> \<not> subsequent s)"

text \<open>The list holds exactly the sessions whose memory is still there.\<close>

definition status_ok :: "status_state \<Rightarrow> addr list \<Rightarrow> bool" where
  "status_ok S xs \<longleftrightarrow> status_list S xs \<and> (\<forall>a. a \<in> set xs \<longleftrightarrow> status_pss S a \<noteq> None) \<and>
     (\<forall>a s. status_pss S a = Some s \<longrightarrow> status_pss_ok s)"

lemma status_pss_ok_resend [simp]: "status_pss_ok s \<Longrightarrow> status_pss_ok (resend_mark live s)"
  by (auto simp: status_pss_ok_def resend_mark_def)

lemma trigger_resend_ok:
  assumes "status_list S xs"
  shows "\<exists>S'. trigger_resend S = Some (S', [Lws_callback_on_writable_all_protocol]) \<and> status_list S' xs \<and>
    status_vhd S' = status_vhd S \<and>
    status_pss S' = (\<lambda>a. if a \<in> set xs then map_option (resend_mark (live_pss_list (status_vhd S))) (status_pss S a)
                         else status_pss S a)"
proof -
  from resend_loop_chain [OF assms [unfolded status_list_def]]
  have run: "trigger_resend S = Some (S\<lparr>status_pss := (\<lambda>a. if a \<in> set xs
      then map_option (resend_mark (live_pss_list (status_vhd S))) (status_pss S a) else status_pss S a)\<rparr>,
      [Lws_callback_on_writable_all_protocol])"
    by (simp add: trigger_resend_def)
  have "status_links (\<lambda>a. if a \<in> set xs then map_option (resend_mark (live_pss_list (status_vhd S))) (status_pss S a)
      else status_pss S a) = status_links (status_pss S)"
    by (auto simp: status_links_def fun_eq_iff map_option.compositionality comp_def)
  with run assms show ?thesis by (simp add: status_list_def)
qed

lemma status_established_ok:
  assumes ok: "status_env_ok e" and S: "status_list S xs" "me \<notin> set xs"
    "\<forall>a. a \<in> set (me # xs) \<longleftrightarrow> status_pss S a \<noteq> None" "\<forall>a s. status_pss S a = Some s \<longrightarrow> status_pss_ok s"
    and cnt: "is_int (count_live_pss (status_vhd S) + 1)"
  shows "\<exists>S' tr. status_established e w me S = Some (0, S', tr) \<and> status_ok S' (me # xs) \<and>
    count_live_pss (status_vhd S') = count_live_pss (status_vhd S) + 1"
proof -
  obtain s where s: "status_pss S me = Some s" using S(3) by auto
  define s1 where "s1 = s\<lparr>st_next := live_pss_list (status_vhd S), time_est := env_time e, st_wsi := w,
    user_agent := (case env_ua e of None \<Rightarrow> ''unknown'' | Some u \<Rightarrow> u)\<rparr>"
  define S1 where "S1 = S\<lparr>status_vhd := (status_vhd S)\<lparr>count_live_pss := count_live_pss (status_vhd S) + 1,
    live_pss_list := Some me\<rparr>, status_pss := (status_pss S)(me \<mapsto> s1)\<rparr>"
  have "status_list S1 (me # xs)"
    using chain_push [OF S(1) [unfolded status_list_def] S(2)] by (simp add: status_list_def S1_def s1_def)
  from trigger_resend_ok [OF this] obtain S' where
    S': "trigger_resend S1 = Some (S', [Lws_callback_on_writable_all_protocol])" "status_list S' (me # xs)"
      "status_vhd S' = status_vhd S1"
      "status_pss S' = (\<lambda>a. if a \<in> set (me # xs) then map_option (resend_mark (live_pss_list (status_vhd S1))) (status_pss S1 a)
         else status_pss S1 a)" by auto
  have "status_pss_ok s1"
    using S(4) s ok by (auto simp: status_pss_ok_def s1_def status_env_ok_def split: option.splits)
  then have "\<forall>a s. status_pss S1 a = Some s \<longrightarrow> status_pss_ok s"
    using S(4) by (auto simp: S1_def)
  then have "status_ok S' (me # xs)"
    unfolding status_ok_def using S(3) S'(2)
    by (auto simp: S'(4) S1_def split: if_splits)
  moreover have "status_established e w me S = Some (0, S', [Lws_callback_on_writable_all_protocol])"
    using cnt s S'(1) by (simp add: status_established_def c_int_def s1_def S1_def)
  ultimately show ?thesis using S'(3) by (simp add: S1_def)
qed

lemma status_closed_ok:
  assumes ok: "status_ok S xs" and me: "me \<in> set xs"
  shows "\<exists>S' tr. status_closed me S = Some (0, S', tr) \<and> status_list S' (remove1 me xs) \<and>
    (\<forall>a. status_pss S' a \<noteq> None \<longleftrightarrow> a \<in> set xs) \<and> (\<forall>a s. status_pss S' a = Some s \<longrightarrow> status_pss_ok s) \<and>
    count_live_pss (status_vhd S') = count_live_pss (status_vhd S)"
proof -
  have p: "live_pss_list (status_vhd S) = (case xs of [] \<Rightarrow> None | x # _ \<Rightarrow> Some x)"
    using ok by (cases xs) (auto simp: status_ok_def status_list_def)
  obtain S1 where S1: "status_unlink me None (live_pss_list (status_vhd S)) S = Some S1"
      "status_list S1 (remove1 me xs)"
      "\<And>a. map_option forget_next (status_pss S1 a) = map_option forget_next (status_pss S a)"
      "count_live_pss (status_vhd S1) = count_live_pss (status_vhd S)"
    using status_unlink_chain [of S "[]" xs me "live_pss_list (status_vhd S)" None] ok p
    by (auto simp: status_ok_def)
  from trigger_resend_ok [OF S1(2)] obtain S2 where
    S2: "trigger_resend S1 = Some (S2, [Lws_callback_on_writable_all_protocol])" "status_list S2 (remove1 me xs)"
      "status_vhd S2 = status_vhd S1"
      "status_pss S2 = (\<lambda>a. if a \<in> set (remove1 me xs)
         then map_option (resend_mark (live_pss_list (status_vhd S1))) (status_pss S1 a) else status_pss S1 a)"
    by auto
  have keep: "status_pss_ok s" if "status_pss S1 a = Some s" for a s
  proof -
    from that S1(3) [of a] obtain t where t: "status_pss S a = Some t" "forget_next t = forget_next s"
      by (cases "status_pss S a") auto
    then have "status_pss_ok t" using ok by (simp add: status_ok_def)
    moreover from t(2) have "user_agent t = user_agent s" "time_est t = time_est s" "walk t = walk s"
      "subsequent t = subsequent s"
      by (cases s; cases t; simp add: forget_next_def)+
    ultimately show ?thesis by (simp add: status_pss_ok_def)
  qed
  have "status_pss S1 a \<noteq> None \<longleftrightarrow> a \<in> set xs" for a
    using S1(3) [of a] ok by (cases "status_pss S1 a"; cases "status_pss S a") (auto simp: status_ok_def)
  with keep have "\<forall>a. status_pss S2 a \<noteq> None \<longleftrightarrow> a \<in> set xs" "\<forall>a s. status_pss S2 a = Some s \<longrightarrow> status_pss_ok s"
    by (auto simp: S2(4) split: if_splits)
  with S1 S2 show ?thesis by (simp add: status_closed_def)
qed

lemma status_fragment_ok:
  assumes ok: "status_ok S xs" and s: "status_pss S me = Some s" and w: "walk s \<noteq> WALK_NONE"
  shows "\<exists>mode t s'. status_fragment e S s = Some (mode, t, s') \<and> st_next s' = st_next s \<and>
    status_pss_ok s' \<and> (changed_partway s \<longrightarrow> changed_partway s' \<and> walk s' \<noteq> WALK_NONE)"
proof -
  have ps: "status_pss_ok s" using ok s by (simp add: status_ok_def)
  have list: "status_in_list a (live_pss_list (status_vhd S)) (status_pss S) = Some (a \<in> set xs)" for a
    using status_in_list_chain ok unfolding status_ok_def status_list_def by blast
  have final: "st_next (snd (snd (status_final live s))) = st_next s \<and>
      status_pss_ok (snd (snd (status_final live s))) \<and>
      (changed_partway s \<longrightarrow> changed_partway (snd (snd (status_final live s))) \<and>
         walk (snd (snd (status_final live s))) \<noteq> WALK_NONE)" for live
    using ps by (auto simp: status_final_def status_pss_ok_def)
  show ?thesis
  proof (cases "walk s = WALK_LIST \<and> walk_next s \<noteq> None")
    case False
    have "\<exists>mode t s'. status_final live s = (mode, t, s') \<and> st_next s' = st_next s \<and>
      status_pss_ok s' \<and> (changed_partway s \<longrightarrow> changed_partway s' \<and> walk s' \<noteq> WALK_NONE)" for live
      using final [of live] by (cases "status_final live s") auto
    with False w ps show ?thesis
      by (cases "walk s") (auto simp: status_fragment_def status_pss_ok_def)
  next
    case True
    then obtain a where a: "walk s = WALK_LIST" "walk_next s = Some a" by auto
    show ?thesis
    proof (cases "a \<in> set xs")
      case False
      with a ps show ?thesis by (simp add: status_fragment_def list status_pss_ok_def)
    next
      case True
      then obtain t where "status_pss S a = Some t" using ok by (auto simp: status_ok_def)
      with True a ps show ?thesis by (simp add: status_fragment_def list status_pss_ok_def)
    qed
  qed
qed

lemma status_ok_update:
  assumes "status_ok S xs" "status_pss S me = Some s" "st_next s' = st_next s" "status_pss_ok s'"
  shows "status_ok (S\<lparr>status_pss := (status_pss S)(me \<mapsto> s')\<rparr>) xs"
proof -
  have "status_links (status_pss S) me = Some (st_next s')"
    using assms by (simp add: status_links_def)
  then have "(status_links (status_pss S))(me \<mapsto> st_next s') = status_links (status_pss S)"
    by (rule status_links_same)
  with assms show ?thesis by (auto simp: status_ok_def status_list_def)
qed

lemma status_writeable_ok:
  assumes ok: "status_ok S xs" and me: "me \<in> set xs"
  shows "\<exists>r S' tr. status_writeable orc e w me S = Some (r, S', tr) \<and> status_ok S' xs \<and>
    status_vhd S' = status_vhd S"
proof -
  obtain s where s: "status_pss S me = Some s" using ok me by (auto simp: status_ok_def)
  show ?thesis
  proof (cases "walk s = WALK_NONE")
    case True
    with s ok show ?thesis by (simp add: status_writeable_def)
  next
    case False
    from status_fragment_ok [OF ok s False, of e] obtain mode t s' where
      f: "status_fragment e S s = Some (mode, t, s')" "st_next s' = st_next s" "status_pss_ok s'" by blast
    show ?thesis
      using s False f(1) status_ok_update [OF ok s f(2,3)]
      by (simp add: status_writeable_def Let_def)
  qed
qed

subsection \<open>Sessions coming and going\<close>

text \<open>
  The library's side.  A new session gets zeroed memory at an address in no use, and the
  memory is freed after CLOSED has run.
\<close>

definition zeroed_status_pss :: per_session_data__lws_status where
  "zeroed_status_pss = \<lparr>st_next = None, st_wsi = 0, time_est = 0, user_agent = [], walk = WALK_NONE,
     walk_next = None, subsequent = False, changed_partway = False\<rparr>"

definition status_start :: status_state where
  "status_start = \<lparr>status_vhd = \<lparr>live_pss_list = None, count_live_pss = 0\<rparr>, status_pss = Map.empty\<rparr>"

inductive status_step :: "status_state \<Rightarrow> status_state \<Rightarrow> bool" where
  connect: "status_pss S me = None \<Longrightarrow> status_env_ok e \<Longrightarrow>
     callback_lws_status orc e w LWS_CALLBACK_ESTABLISHED me
       (S\<lparr>status_pss := (status_pss S)(me \<mapsto> zeroed_status_pss)\<rparr>) = Some (r, S', tr) \<Longrightarrow>
     status_step S S'"
| writeable: "status_pss S me \<noteq> None \<Longrightarrow> status_env_ok e \<Longrightarrow>
     callback_lws_status orc e w LWS_CALLBACK_SERVER_WRITEABLE me S = Some (r, S', tr) \<Longrightarrow>
     status_step S S'"
| close: "status_pss S me \<noteq> None \<Longrightarrow>
     callback_lws_status orc e w LWS_CALLBACK_CLOSED me S = Some (r, S', tr) \<Longrightarrow>
     status_step S (S'\<lparr>status_pss := (status_pss S')(me := None)\<rparr>)"

inductive status_reachable :: "status_state \<Rightarrow> bool" where
  start: "status_reachable status_start"
| step: "status_reachable S \<Longrightarrow> status_step S T \<Longrightarrow> status_reachable T"

lemma status_start_ok: "status_ok status_start []"
  by (simp add: status_ok_def status_start_def status_list_def)

lemma status_connect_ok:
  assumes ok: "status_ok S xs" and me: "status_pss S me = None" and e: "status_env_ok e"
    and cnt: "is_int (count_live_pss (status_vhd S) + 1)"
  shows "\<exists>S' tr. callback_lws_status orc e w LWS_CALLBACK_ESTABLISHED me
      (S\<lparr>status_pss := (status_pss S)(me \<mapsto> zeroed_status_pss)\<rparr>) = Some (0, S', tr) \<and>
    status_ok S' (me # xs) \<and> count_live_pss (status_vhd S') = count_live_pss (status_vhd S) + 1"
proof -
  let ?S = "S\<lparr>status_pss := (status_pss S)(me \<mapsto> zeroed_status_pss)\<rparr>"
  have new: "me \<notin> set xs" using ok me by (simp add: status_ok_def)
  with ok have "status_list ?S xs"
    by (simp add: status_ok_def status_list_def chain_frame)
  moreover have "\<forall>a. a \<in> set (me # xs) \<longleftrightarrow> status_pss ?S a \<noteq> None"
    using ok by (auto simp: status_ok_def)
  moreover have "\<forall>a s. status_pss ?S a = Some s \<longrightarrow> status_pss_ok s"
    using ok by (auto simp: status_ok_def status_pss_ok_def zeroed_status_pss_def)
  ultimately show ?thesis
    using status_established_ok [OF e _ new, of ?S w] cnt
    by (simp add: callback_lws_status_def)
qed

lemma status_close_ok:
  assumes ok: "status_ok S xs" and me: "status_pss S me \<noteq> None"
  shows "\<exists>S' tr. callback_lws_status orc e w LWS_CALLBACK_CLOSED me S = Some (0, S', tr) \<and>
    status_ok (S'\<lparr>status_pss := (status_pss S')(me := None)\<rparr>) (remove1 me xs) \<and>
    count_live_pss (status_vhd S') = count_live_pss (status_vhd S)"
proof -
  have "me \<in> set xs" using ok me by (simp add: status_ok_def)
  from status_closed_ok [OF ok this] obtain S' tr where
    S': "status_closed me S = Some (0, S', tr)" "status_list S' (remove1 me xs)"
      "\<forall>a. status_pss S' a \<noteq> None \<longleftrightarrow> a \<in> set xs" "\<forall>a s. status_pss S' a = Some s \<longrightarrow> status_pss_ok s"
      "count_live_pss (status_vhd S') = count_live_pss (status_vhd S)" by blast
  have d: "distinct xs" using ok chain_distinct by (auto simp: status_ok_def status_list_def)
  have "status_links ((status_pss S')(me := None)) = (status_links (status_pss S'))(me := None)"
    by (auto simp: status_links_def)
  with S'(2) d have "status_list (S'\<lparr>status_pss := (status_pss S')(me := None)\<rparr>) (remove1 me xs)"
    by (simp add: status_list_def chain_frame)
  with S' d show ?thesis
    by (auto simp: callback_lws_status_def status_ok_def)
qed

inductive_cases status_step_cases: "status_step S T"

lemma status_step_ok:
  assumes "status_step S T" "status_ok S xs"
  shows "\<exists>ys. status_ok T ys"
  using assms(1)
proof (cases rule: status_step.cases)
  case (connect me e orc w r tr)
  then have "is_int (count_live_pss (status_vhd S) + 1)"
    by (auto simp: callback_lws_status_def status_established_def bind_Some_iff ub_simps)
  from status_connect_ok [OF assms(2) connect(1,2) this, of orc w] connect(3) show ?thesis by auto
next
  case (writeable me e orc w r tr)
  with assms(2) have "me \<in> set xs" by (simp add: status_ok_def)
  from status_writeable_ok [OF assms(2) this, of orc e w] writeable(3) show ?thesis
    by (auto simp: callback_lws_status_def)
next
  case (close me orc e w r S' tr)
  from status_close_ok [OF assms(2) close(2), of orc e w] close show ?thesis by auto
qed

lemma status_reachable_ok: "status_reachable S \<Longrightarrow> \<exists>xs. status_ok S xs"
  by (induction rule: status_reachable.induct) (auto intro: status_start_ok status_step_ok)

subsection \<open>A whole description\<close>

text \<open>The library calling the session back n times.\<close>

fun status_run ::
  "nat \<Rightarrow> lws_oracle \<Rightarrow> status_env \<Rightarrow> wsi \<Rightarrow> addr \<Rightarrow> status_state \<Rightarrow> (status_state \<times> lws_trace) option" where
  "status_run 0 orc e w me S = Some (S, [])"
| "status_run (Suc n) orc e w me S = do {
     (r, S1, tr1) \<leftarrow> status_writeable orc e w me S;
     (S2, tr2) \<leftarrow> status_run n orc e w me S1;
     Some (S2, tr1 @ tr2) }"

text \<open>The text a reader is meant to see.\<close>

fun sep_by :: "'a list \<Rightarrow> 'a list list \<Rightarrow> 'a list" where
  "sep_by sep [] = []"
| "sep_by sep [x] = x"
| "sep_by sep (x # xs) = x @ sep @ sep_by sep xs"

definition status_text :: "status_env \<Rightarrow> status_state \<Rightarrow> addr list \<Rightarrow> string" where
  "status_text e S xs = status_header e (count_live_pss (status_vhd S)) @
     sep_by '','' (map (\<lambda>a. status_entry e (the (status_pss S a))) xs) @ '']}''"

lemma length_dec_int: "\<bar>n\<bar> < 10 ^ k \<Longrightarrow> 0 < k \<Longrightarrow> length (dec_int n) \<le> Suc k"
proof -
  assume n: "\<bar>n\<bar> < 10 ^ k" "0 < k"
  then have "nat \<bar>n\<bar> < 10 ^ k" by (simp add: nat_less_iff)
  from length_dec_nat [OF this n(2)] show "length (dec_int n) \<le> Suc k"
    by (auto simp: dec_int_def split: if_splits)
qed

lemma status_ok_mem: "status_ok S xs \<Longrightarrow> a \<in> set xs \<Longrightarrow> \<exists>t. status_pss S a = Some t"
  by (auto simp: status_ok_def)

lemma status_ok_next:
  assumes "status_ok S (pre @ y # ys)" "status_pss S y = Some t"
  shows "st_next t = (case ys of [] \<Rightarrow> None | z # _ \<Rightarrow> Some z)"
proof -
  from assms(1) have "chain (status_links (status_pss S)) (Some y) (y # ys)"
    unfolding status_ok_def status_list_def by (blast intro: chain_split)
  then have "chain (status_links (status_pss S)) (st_next t) ys"
    using assms(2) by (auto simp: status_links_def)
  then show ?thesis by (cases ys) auto
qed

lemma status_ok_found:
  "status_ok S xs \<Longrightarrow> status_in_list a (live_pss_list (status_vhd S)) (status_pss S) = Some (a \<in> set xs)"
  unfolding status_ok_def status_list_def by (blast intro: status_in_list_chain)

text \<open>An entry always fits the buffer, so lws_snprintf never cuts one.\<close>

lemma status_entry_fits:
  assumes "status_env_ok e" "status_pss_ok s" "k \<le> 1"
  shows "env_snprintf e (status_buf_room - k) (status_entry e s) = status_entry e s"
proof -
  have "length (dec_int (time_est s)) \<le> 20"
    using length_dec_int [of "time_est s" 19] assms(2) by (simp add: status_pss_ok_def)
  moreover have "length (env_peer e (st_wsi s)) < 24" "length (user_agent s) < 128"
    using assms by (auto simp: status_env_ok_def status_pss_ok_def)
  ultimately have "length (status_entry e s) \<le> 200"
    by (simp add: status_entry_def)
  then show ?thesis
    using assms(1,3) by (simp add: status_env_ok_def status_buf_room_def)
qed

lemma status_list_step:
  assumes ok: "status_ok S xs" and e: "status_env_ok e" and orc: "\<And>tr. 0 \<le> orc tr"
    and s: "status_pss S me = Some s" "walk s = WALK_LIST" "walk_next s = Some a" "a \<in> set xs"
    and t: "status_pss S a = Some t"
    and s': "s' = s\<lparr>subsequent := True, walk_next := st_next t,
                    walk := (if st_next t = None then WALK_FINAL else WALK_LIST)\<rparr>"
  shows "status_writeable orc e w me S = Some (0, S\<lparr>status_pss := (status_pss S)(me \<mapsto> s')\<rparr>,
    [Lws_write w (bytes_of ((if subsequent s then '','' else []) @ status_entry e t))
       (LWS_WRITE_CONTINUATION OR LWS_WRITE_NO_FIN), Lws_callback_on_writable w])"
proof -
  have "status_in_list a (live_pss_list (status_vhd S)) (status_pss S) = Some True"
    using status_ok_found [OF ok] s(4) by simp
  moreover have "status_pss_ok t" using ok t by (simp add: status_ok_def)
  note status_entry_fits [OF e this]
  ultimately have "status_fragment e S s = Some (LWS_WRITE_CONTINUATION OR LWS_WRITE_NO_FIN,
      (if subsequent s then '','' else []) @ status_entry e t, s')"
    using s t s' by (simp add: status_fragment_def)
  moreover have "\<not> orc [Lws_write w b m] < 0" for b m using orc by (simp add: not_less)
  ultimately show ?thesis using s s' by (simp add: status_writeable_def Let_def)
qed

lemma status_run_step:
  "status_writeable orc e w me S = Some (r, S1, tr1) \<Longrightarrow> status_run n orc e w me S1 = Some (S2, tr2) \<Longrightarrow>
   status_run (Suc n) orc e w me S = Some (S2, tr1 @ tr2)"
  by simp

lemma status_list_run:
  assumes "status_env_ok e" "\<And>tr. 0 \<le> orc tr"
  shows "status_ok S xs \<Longrightarrow> xs = pre @ y # ys \<Longrightarrow> status_pss S me = Some s \<Longrightarrow> walk s = WALK_LIST \<Longrightarrow>
    walk_next s = Some y \<Longrightarrow> subsequent s = (pre \<noteq> []) \<Longrightarrow> \<not> changed_partway s \<Longrightarrow>
    \<exists>s' tr. status_run (Suc (length ys)) orc e w me S =
        Some (S\<lparr>status_pss := (status_pss S)(me \<mapsto> s')\<rparr>, tr) \<and>
      walk s' = WALK_FINAL \<and> \<not> changed_partway s' \<and>
      concat (written tr) = bytes_of ((if pre \<noteq> [] then '','' else []) @
        sep_by '','' (map (\<lambda>a. status_entry e (the (status_pss S a))) (y # ys))) \<and>
      write_modes tr = replicate (Suc (length ys)) (LWS_WRITE_CONTINUATION OR LWS_WRITE_NO_FIN)"
proof (induction ys arbitrary: S s pre y)
  case (Nil S s pre y)
  then obtain t where t: "status_pss S y = Some t" using status_ok_mem [of S xs y] by auto
  have "st_next t = None" using status_ok_next [of S pre y "[]"] Nil.prems(1,2) t by simp
  let ?s = "s\<lparr>subsequent := True, walk_next := None, walk := WALK_FINAL\<rparr>"
  have step: "status_writeable orc e w me S = Some (0, S\<lparr>status_pss := (status_pss S)(me \<mapsto> ?s)\<rparr>,
    [Lws_write w (bytes_of ((if pre \<noteq> [] then '','' else []) @ status_entry e t))
       (LWS_WRITE_CONTINUATION OR LWS_WRITE_NO_FIN), Lws_callback_on_writable w])"
    using status_list_step [where orc = orc, OF Nil.prems(1) assms Nil.prems(3-5) _ t refl, of w]
      Nil.prems(2,6) \<open>st_next t = None\<close> by simp
  then have run: "status_run (Suc (length [])) orc e w me S = Some (S\<lparr>status_pss := (status_pss S)(me \<mapsto> ?s)\<rparr>,
    [Lws_write w (bytes_of ((if pre \<noteq> [] then '','' else []) @ status_entry e t))
       (LWS_WRITE_CONTINUATION OR LWS_WRITE_NO_FIN), Lws_callback_on_writable w])"
    by simp
  show ?case
    by (intro exI conjI, rule run) (use Nil.prems t in simp_all)
next
  case (Cons z ys S s pre y)
  then obtain t where t: "status_pss S y = Some t" using status_ok_mem [of S xs y] by auto
  have tz: "st_next t = Some z" using status_ok_next [of S pre y "z # ys"] Cons.prems(1,2) t by simp
  define s1 where "s1 = s\<lparr>subsequent := True, walk_next := Some z, walk := WALK_LIST\<rparr>"
  define S1 where "S1 = S\<lparr>status_pss := (status_pss S)(me \<mapsto> s1)\<rparr>"
  have step: "status_writeable orc e w me S = Some (0, S1,
    [Lws_write w (bytes_of ((if pre \<noteq> [] then '','' else []) @ status_entry e t))
       (LWS_WRITE_CONTINUATION OR LWS_WRITE_NO_FIN), Lws_callback_on_writable w])"
    using status_list_step [where orc = orc, OF Cons.prems(1) assms Cons.prems(3-5) _ t refl, of w]
      Cons.prems(2,6) tz by (simp add: S1_def s1_def)
  have ok1: "status_ok S1 xs"
    unfolding S1_def by (rule status_ok_update [OF Cons.prems(1,3)])
      (use Cons.prems(1,3,4) in \<open>auto simp: s1_def status_ok_def status_pss_ok_def\<close>)
  have same: "status_entry e (the (status_pss S1 a)) = status_entry e (the (status_pss S a))" for a
    using Cons.prems(3) by (simp add: S1_def s1_def status_entry_def)
  have hyps: "xs = (pre @ [y]) @ z # ys" "status_pss S1 me = Some s1" "walk s1 = WALK_LIST"
    "walk_next s1 = Some z" "subsequent s1 = (pre @ [y] \<noteq> [])" "\<not> changed_partway s1"
    using Cons.prems by (simp_all add: S1_def s1_def)
  obtain s' tr where ih: "status_run (Suc (length ys)) orc e w me S1 =
        Some (S1\<lparr>status_pss := (status_pss S1)(me \<mapsto> s')\<rparr>, tr)"
      "walk s' = WALK_FINAL" "\<not> changed_partway s'"
      "concat (written tr) = bytes_of ((if pre @ [y] \<noteq> [] then '','' else []) @
        sep_by '','' (map (\<lambda>a. status_entry e (the (status_pss S1 a))) (z # ys)))"
      "write_modes tr = replicate (Suc (length ys)) (LWS_WRITE_CONTINUATION OR LWS_WRITE_NO_FIN)"
    using Cons.IH [OF ok1 hyps] by blast
  have upd2: "S1\<lparr>status_pss := (status_pss S1)(me \<mapsto> s')\<rparr> = S\<lparr>status_pss := (status_pss S)(me \<mapsto> s')\<rparr>"
    by (simp add: S1_def)
  have run: "status_run (Suc (length (z # ys))) orc e w me S =
      Some (S\<lparr>status_pss := (status_pss S)(me \<mapsto> s')\<rparr>,
        [Lws_write w (bytes_of ((if pre \<noteq> [] then '','' else []) @ status_entry e t))
           (LWS_WRITE_CONTINUATION OR LWS_WRITE_NO_FIN), Lws_callback_on_writable w] @ tr)"
    using status_run_step [OF step ih(1)] unfolding upd2 by simp
  show ?case
    by (intro exI conjI, rule run, rule ih(2), rule ih(3))
      (use ih(4,5) t in \<open>simp_all add: same bytes_of_append\<close>)
qed

lemma status_run_append:
  "status_run m orc e w me S = Some (S1, tr1) \<Longrightarrow> status_run n orc e w me S1 = Some (S2, tr2) \<Longrightarrow>
   status_run (m + n) orc e w me S = Some (S2, tr1 @ tr2)"
proof (induction m arbitrary: S tr1)
  case 0
  then show ?case by simp
next
  case (Suc m)
  from Suc.prems(1) obtain r Sa ta tb where
    "status_writeable orc e w me S = Some (r, Sa, ta)" "status_run m orc e w me Sa = Some (S1, tb)" "tr1 = ta @ tb"
    by (auto simp: bind_Some_iff)
  with Suc.IH [of Sa tb] Suc.prems(2) show ?case by simp
qed

lemma status_initial_run:
  assumes ok: "status_ok S xs" and me: "status_pss S me = Some s" and w0: "walk s = WALK_INITIAL"
    and e: "status_env_ok e" and orc: "\<And>tr. 0 \<le> orc tr"
    and fits: "length (status_header e (count_live_pss (status_vhd S))) < 384"
    and s1: "s1 = s\<lparr>walk := WALK_LIST, walk_next := live_pss_list (status_vhd S)\<rparr>"
  shows "status_run 1 orc e w me S = Some (S\<lparr>status_pss := (status_pss S)(me \<mapsto> s1)\<rparr>,
    [Lws_write w (bytes_of (status_header e (count_live_pss (status_vhd S)))) (LWS_WRITE_TEXT OR LWS_WRITE_NO_FIN),
     Lws_callback_on_writable w])"
proof -
  have "env_snprintf e status_buf_room (status_header e (count_live_pss (status_vhd S))) =
      status_header e (count_live_pss (status_vhd S))"
    using e fits by (simp add: status_env_ok_def status_buf_room_def)
  moreover have "\<not> orc [Lws_write w b m] < 0" for b m using orc by (simp add: not_less)
  ultimately show ?thesis
    using me w0 s1 by (simp add: status_writeable_def status_fragment_def Let_def)
qed

lemma status_final_run:
  assumes "status_pss S me = Some s" "walk s = WALK_FINAL" "\<not> changed_partway s" and orc: "\<And>tr. 0 \<le> orc tr"
  shows "status_run 1 orc e w me S = Some (S\<lparr>status_pss := (status_pss S)(me \<mapsto> s\<lparr>walk := WALK_NONE\<rparr>)\<rparr>,
    [Lws_write w (bytes_of '']}'') LWS_WRITE_CONTINUATION])"
proof -
  have "\<not> orc [Lws_write w b m] < 0" for b m using orc by (simp add: not_less)
  then show ?thesis
    using assms by (simp add: status_writeable_def status_fragment_def status_final_def Let_def)
qed

subsection \<open>Properties\<close>

text \<open>
  C5: In every reachable state each callback for a live session returns without undefined
  behaviour, whatever the library answers: the pointers a session keeps to the others may
  dangle, but none is followed.  Connecting is safe as long as the connection counter does
  not overflow, and closing frees nothing that is still linked: the list of the sessions is
  again exact afterwards.
\<close>

theorem status_callbacks_safe:
  assumes "status_reachable S" and "status_env_ok e"
  shows "\<exists>xs. status_ok S xs \<and>
    (\<forall>me \<in> set xs. \<exists>r S' tr. callback_lws_status orc e w LWS_CALLBACK_SERVER_WRITEABLE me S = Some (r, S', tr) \<and>
       status_ok S' xs) \<and>
    (\<forall>me \<in> set xs. \<exists>S' tr. callback_lws_status orc e w LWS_CALLBACK_CLOSED me S = Some (0, S', tr) \<and>
       status_ok (S'\<lparr>status_pss := (status_pss S')(me := None)\<rparr>) (remove1 me xs)) \<and>
    (\<forall>me. me \<notin> set xs \<longrightarrow> count_live_pss (status_vhd S) \<in> {0..<INT_MAX} \<longrightarrow>
       (\<exists>S' tr. callback_lws_status orc e w LWS_CALLBACK_ESTABLISHED me
          (S\<lparr>status_pss := (status_pss S)(me \<mapsto> zeroed_status_pss)\<rparr>) = Some (0, S', tr) \<and>
        status_ok S' (me # xs)))"
proof -
  from status_reachable_ok [OF assms(1)] obtain xs where xs: "status_ok S xs" by blast
  have "\<exists>r S' tr. callback_lws_status orc e w LWS_CALLBACK_SERVER_WRITEABLE me S = Some (r, S', tr) \<and>
      status_ok S' xs" if "me \<in> set xs" for me
    using status_writeable_ok [OF xs that, of orc e w] by (auto simp: callback_lws_status_def)
  moreover have "\<exists>S' tr. callback_lws_status orc e w LWS_CALLBACK_CLOSED me S = Some (0, S', tr) \<and>
       status_ok (S'\<lparr>status_pss := (status_pss S')(me := None)\<rparr>) (remove1 me xs)" if "me \<in> set xs" for me
  proof -
    have "status_pss S me \<noteq> None" using that xs by (simp add: status_ok_def)
    from status_close_ok [OF xs this] show ?thesis by blast
  qed
  moreover have "\<exists>S' tr. callback_lws_status orc e w LWS_CALLBACK_ESTABLISHED me
          (S\<lparr>status_pss := (status_pss S)(me \<mapsto> zeroed_status_pss)\<rparr>) = Some (0, S', tr) \<and>
        status_ok S' (me # xs)"
    if "me \<notin> set xs" "count_live_pss (status_vhd S) \<in> {0..<INT_MAX}" for me
  proof -
    have "status_pss S me = None" using that xs by (simp add: status_ok_def)
    moreover have "is_int (count_live_pss (status_vhd S) + 1)"
      using that by (simp add: is_int_def INT_MAX_def INT_MIN_def)
    ultimately show ?thesis using status_connect_ok [OF xs _ assms(2), of me orc w] by blast
  qed
  ultimately show ?thesis using xs by blast
qed

text \<open>The environment and the one-session state of the witnesses.\<close>

definition status_env0 :: status_env where
  "status_env0 = \<lparr>env_time = 7, env_ua = None, env_version = ''2'', env_hostname = ''h'',
     env_peer = (\<lambda>_. ''::1''), env_snprintf = take\<rparr>"

lemma status_env0_ok: "status_env_ok status_env0"
  by (simp add: status_env_ok_def status_env0_def)

definition status_pss1 :: per_session_data__lws_status where
  "status_pss1 = \<lparr>st_next = None, st_wsi = 1, time_est = 7, user_agent = ''unknown'', walk = WALK_INITIAL,
     walk_next = Some 9, subsequent = False, changed_partway = False\<rparr>"

definition status_one :: status_state where
  "status_one = \<lparr>status_vhd = \<lparr>live_pss_list = Some 9, count_live_pss = 1\<rparr>, status_pss = [9 \<mapsto> status_pss1]\<rparr>"

lemma status_one_run:
  "callback_lws_status (\<lambda>_. 0) status_env0 1 LWS_CALLBACK_ESTABLISHED 9
     (status_start\<lparr>status_pss := (status_pss status_start)(9 \<mapsto> zeroed_status_pss)\<rparr>) =
   Some (0, status_one, [Lws_callback_on_writable_all_protocol])"
  by (simp add: callback_lws_status_def status_established_def status_start_def c_int_def is_int_def
      INT_MIN_def INT_MAX_def zeroed_status_pss_def status_env0_def trigger_resend_def
      resend_loop.simps resend_mark_def status_one_def status_pss1_def)

lemma status_one_reachable: "status_reachable status_one"
proof -
  have "status_step status_start status_one"
    by (rule status_step.connect [OF _ status_env0_ok status_one_run]) (simp add: status_start_def)
  with status_reachable.start show ?thesis by (rule status_reachable.step)
qed

theorem status_callbacks_safe_witness:
  "\<exists>xs. status_ok status_one xs \<and> 9 \<in> set xs \<and>
     (\<exists>r S' tr. callback_lws_status (\<lambda>_. 0) status_env0 1 LWS_CALLBACK_SERVER_WRITEABLE 9 status_one =
        Some (r, S', tr))"
proof -
  from status_callbacks_safe [OF status_one_reachable status_env0_ok, of "\<lambda>_. 0" 1]
  obtain xs where xs: "status_ok status_one xs" and
    run: "\<forall>me \<in> set xs. \<exists>r S' tr. callback_lws_status (\<lambda>_. 0) status_env0 1 LWS_CALLBACK_SERVER_WRITEABLE me
      status_one = Some (r, S', tr) \<and> status_ok S' xs" by blast
  moreover have "9 \<in> set xs" using xs by (simp add: status_ok_def status_one_def)
  ultimately show ?thesis by blast
qed

text \<open>
  C6: A description nobody disturbs is complete: after as many callbacks as there are
  sessions and two more, the fragments written spell out the header, the entry of every
  session once, newest first and separated by commas, and the closing brackets; they are one
  message (a text fragment, continuations, and a last continuation that is final), and the
  session rests.
\<close>

theorem status_full_walk:
  assumes "status_reachable S" and "status_pss S me = Some s" and "walk s = WALK_INITIAL"
    and "\<not> changed_partway s" and "status_env_ok e" and "\<And>tr. 0 \<le> orc tr"
    and "length (status_header e (count_live_pss (status_vhd S))) < 384"
  shows "\<exists>xs S' tr s'. status_list S xs \<and> distinct xs \<and> (\<forall>a. a \<in> set xs \<longleftrightarrow> status_pss S a \<noteq> None) \<and>
    status_run (length xs + 2) orc e w me S = Some (S', tr) \<and>
    concat (written tr) = bytes_of (status_text e S xs) \<and>
    write_modes tr = (LWS_WRITE_TEXT OR LWS_WRITE_NO_FIN) #
      replicate (length xs) (LWS_WRITE_CONTINUATION OR LWS_WRITE_NO_FIN) @ [LWS_WRITE_CONTINUATION] \<and>
    status_pss S' me = Some s' \<and> walk s' = WALK_NONE"
proof -
  from status_reachable_ok [OF assms(1)] obtain xs where ok: "status_ok S xs" by blast
  then have ch: "status_list S xs" and dom: "\<forall>a. a \<in> set xs \<longleftrightarrow> status_pss S a \<noteq> None"
    by (auto simp: status_ok_def)
  with assms(2) obtain y ys where xs: "xs = y # ys" by (cases xs) auto
  have live: "live_pss_list (status_vhd S) = Some y"
    using ch xs by (simp add: status_list_def)
  have dist: "distinct xs" using ch chain_distinct unfolding status_list_def by blast
  define s1 where "s1 = s\<lparr>walk := WALK_LIST, walk_next := live_pss_list (status_vhd S)\<rparr>"
  define S1 where "S1 = S\<lparr>status_pss := (status_pss S)(me \<mapsto> s1)\<rparr>"
  note run1 = status_initial_run [where orc = orc and w = w, OF ok assms(2,3,5,6,7) s1_def, folded S1_def]
  have ps: "status_pss_ok s" using ok assms(2) by (simp add: status_ok_def)
  have ok1: "status_ok S1 xs"
    unfolding S1_def by (rule status_ok_update [OF ok assms(2)])
      (use ps in \<open>auto simp: s1_def status_pss_ok_def\<close>)
  have hyps: "xs = [] @ y # ys" "status_pss S1 me = Some s1" "walk s1 = WALK_LIST" "walk_next s1 = Some y"
    "subsequent s1 = ([] \<noteq> [])" "\<not> changed_partway s1"
    using ps assms(3,4) by (simp_all add: xs S1_def s1_def live status_pss_ok_def)
  have len: "Suc (length ys) = length xs" by (simp add: xs)
  from status_list_run [where orc = orc and w = w, OF assms(5,6) ok1 hyps, unfolded len] obtain s2 tr2 where
    run2: "status_run (length xs) orc e w me S1 = Some (S1\<lparr>status_pss := (status_pss S1)(me \<mapsto> s2)\<rparr>, tr2)"
      "walk s2 = WALK_FINAL" "\<not> changed_partway s2"
      "concat (written tr2) = bytes_of ((if ([] :: addr list) \<noteq> [] then '','' else []) @
         sep_by '','' (map (\<lambda>a. status_entry e (the (status_pss S1 a))) (y # ys)))"
      "write_modes tr2 = replicate (length xs) (LWS_WRITE_CONTINUATION OR LWS_WRITE_NO_FIN)"
    by blast
  define S2 where "S2 = S1\<lparr>status_pss := (status_pss S1)(me \<mapsto> s2)\<rparr>"
  have me2: "status_pss S2 me = Some s2" by (simp add: S2_def)
  note run3 = status_final_run [where orc = orc and e = e and w = w, OF me2 run2(2,3) assms(6)]
  note run = status_run_append [OF run1 status_run_append [OF run2(1) [folded S2_def] run3]]
  have same: "map (\<lambda>a. status_entry e (the (status_pss S1 a))) xs = map (\<lambda>a. status_entry e (the (status_pss S a))) xs"
    using assms(2) by (simp add: S1_def s1_def status_entry_def)
  have "1 + (length xs + 1) = length xs + 2" by simp
  note run = run [unfolded this]
  have spelled: "concat (written tr2) = bytes_of (sep_by '','' (map (\<lambda>a. status_entry e (the (status_pss S a))) xs))"
    using run2(4) by (simp only: same [unfolded xs] xs) simp
  show ?thesis
    by (intro exI conjI, rule ch, rule dist, rule dom, rule run)
      (simp_all add: spelled run2(5) status_text_def bytes_of_append, simp)
qed

theorem status_full_walk_witness:
  "\<exists>S' tr s'. status_run 3 (\<lambda>_. 0) status_env0 1 9 status_one = Some (S', tr) \<and>
     concat (written tr) = bytes_of
       (''{ \"version\":\"2\", \"hostname\":\"h\", \"wsi\":\"1\", \"conns\":['' @
        ''{\"peer\":\"::1\",\"time\":\"7\",\"ua\":\"unknown\"}]}'')"
proof -
  have one: "dec_int 1 = ''1''" "dec_int 7 = ''7''"
    by code_simp+
  have h: "length (status_header status_env0 (count_live_pss (status_vhd status_one))) < 384"
    by (simp add: status_header_def status_env0_def status_one_def one)
  from status_full_walk [OF status_one_reachable _ _ _ status_env0_ok _ h, of 9 status_pss1 "\<lambda>_. 0" 1]
  obtain xs S' tr where xs: "status_list status_one xs"
    and run: "status_run (length xs + 2) (\<lambda>_. 0) status_env0 1 9 status_one = Some (S', tr)"
      "concat (written tr) = bytes_of (status_text status_env0 status_one xs)"
    by (auto simp: status_one_def status_pss1_def)
  have "status_list status_one [9]"
    by (simp add: status_list_def status_one_def status_links_def status_pss1_def)
  with xs have "xs = [9]" unfolding status_list_def by (rule chain_unique)
  with run show ?thesis
    by (simp add: status_text_def status_header_def status_entry_def status_env0_def status_one_def
        status_pss1_def one numeral_3_eq_3 del: status_run.simps)
qed

text \<open>
  The code never clears changed_partway.  Once it is set on a session whose description
  is under way it stays set, and the session never rests again: every writeable callback asks
  for the next one, so the description is sent over and over for as long as the session
  lives, although nothing changes.
\<close>

theorem status_resend_forever:
  assumes "status_reachable S" and "status_pss S me = Some s" and "changed_partway s"
    and "walk s \<noteq> WALK_NONE" and "\<And>tr. 0 \<le> orc tr"
  shows "\<exists>S' tr s'. status_run n orc e w me S = Some (S', tr) \<and> status_pss S' me = Some s' \<and>
    changed_partway s' \<and> walk s' \<noteq> WALK_NONE \<and> length (written tr) = n \<and>
    count_list tr (Lws_callback_on_writable w) = n"
proof -
  from status_reachable_ok [OF assms(1)] obtain xs where "status_ok S xs" by blast
  then show ?thesis
    using assms(2-4)
  proof (induction n arbitrary: S s)
    case 0
    then show ?case by simp
  next
    case (Suc n)
    from status_fragment_ok [OF Suc.prems(1,2,4), of e] Suc.prems(3) obtain mode t s' where
      f: "status_fragment e S s = Some (mode, t, s')" "st_next s' = st_next s" "status_pss_ok s'"
        "changed_partway s'" "walk s' \<noteq> WALK_NONE" by blast
    let ?S = "S\<lparr>status_pss := (status_pss S)(me \<mapsto> s')\<rparr>"
    have "\<not> orc [Lws_write w b m] < 0" for b m using assms(5) by (simp add: not_less)
    then have step: "status_writeable orc e w me S =
        Some (0, ?S, [Lws_write w (bytes_of t) mode, Lws_callback_on_writable w])"
      using Suc.prems(2,4) f by (simp add: status_writeable_def Let_def)
    from Suc.IH [OF status_ok_update [OF Suc.prems(1,2) f(2,3)] _ f(4,5)] obtain S' tr s2 where
      ih: "status_run n orc e w me ?S = Some (S', tr)" "status_pss S' me = Some s2" "changed_partway s2"
        "walk s2 \<noteq> WALK_NONE" "length (written tr) = n" "count_list tr (Lws_callback_on_writable w) = n"
      by auto
    show ?case
      by (intro exI conjI, rule status_run_step [OF step ih(1)], rule ih(2)) (simp_all add: ih)
  qed
qed

text \<open>Two sessions: 9, and 8 which came later and is described first.\<close>

definition status_pss_walk :: "e_walk \<Rightarrow> addr option \<Rightarrow> addr option \<Rightarrow> bool \<Rightarrow> bool \<Rightarrow> per_session_data__lws_status" where
  "status_pss_walk wk nx wn sub ch = \<lparr>st_next = nx, st_wsi = 1, time_est = 7, user_agent = ''unknown'',
     walk = wk, walk_next = wn, subsequent = sub, changed_partway = ch\<rparr>"

definition status_two :: status_state where
  "status_two = \<lparr>status_vhd = \<lparr>live_pss_list = Some 8, count_live_pss = 2\<rparr>,
     status_pss = [8 \<mapsto> status_pss_walk WALK_INITIAL (Some 9) (Some 8) False False,
                   9 \<mapsto> status_pss_walk WALK_INITIAL None (Some 9) False True]\<rparr>"

lemma status_two_reachable: "status_reachable status_two"
proof (rule status_reachable.step [OF status_one_reachable])
  have "callback_lws_status (\<lambda>_. 0) status_env0 1 LWS_CALLBACK_ESTABLISHED 8
     (status_one\<lparr>status_pss := (status_pss status_one)(8 \<mapsto> zeroed_status_pss)\<rparr>) =
   Some (0, status_two, [Lws_callback_on_writable_all_protocol])"
    by (simp add: callback_lws_status_def status_established_def status_one_def status_pss1_def c_int_def is_int_def
      INT_MIN_def INT_MAX_def zeroed_status_pss_def status_env0_def trigger_resend_def
      resend_loop.simps resend_mark_def status_two_def status_pss_walk_def fun_eq_iff)
  from status_step.connect [OF _ status_env0_ok this] show "status_step status_one status_two"
    by (simp add: status_one_def)
qed

theorem status_resend_forever_witness:
  "\<exists>S' tr s'. status_run 1000 (\<lambda>_. 0) status_env0 1 9 status_two = Some (S', tr) \<and>
     status_pss S' 9 = Some s' \<and> walk s' \<noteq> WALK_NONE \<and> length (written tr) = 1000"
proof -
  have s: "status_pss status_two 9 = Some (status_pss_walk WALK_INITIAL None (Some 9) False True)"
    by (simp add: status_two_def)
  from status_resend_forever [OF status_two_reachable s, of "\<lambda>_. 0" 1000 status_env0 1] show ?thesis
    by (auto simp: status_pss_walk_def simp del: status_run.simps)
qed

lemma status_count_step:
  assumes "status_reachable S" "status_ok S []" "count_live_pss (status_vhd S) = int n" "int n < INT_MAX"
  shows "\<exists>T. status_reachable T \<and> status_ok T [] \<and> count_live_pss (status_vhd T) = int (Suc n)"
proof -
  have none: "status_pss S 9 = None" using assms(2) by (auto simp: status_ok_def)
  have "is_int (count_live_pss (status_vhd S) + 1)"
    using assms(3,4) by (simp add: is_int_def INT_MAX_def INT_MIN_def)
  from status_connect_ok [OF assms(2) none status_env0_ok this, of "\<lambda>_. 0" 1] obtain S1 tr where
    S1: "callback_lws_status (\<lambda>_. 0) status_env0 1 LWS_CALLBACK_ESTABLISHED 9
      (S\<lparr>status_pss := (status_pss S)(9 \<mapsto> zeroed_status_pss)\<rparr>) = Some (0, S1, tr)"
      "status_ok S1 [9]" "count_live_pss (status_vhd S1) = int n + 1" using assms(3) by auto
  from assms(1) status_step.connect [OF none status_env0_ok S1(1)] have r1: "status_reachable S1"
    by (rule status_reachable.step)
  have some: "status_pss S1 9 \<noteq> None" using S1(2) status_ok_mem [of S1 "[9]" 9] by simp
  from status_close_ok [OF S1(2) this, of "\<lambda>_. 0" status_env0 1] obtain S2 tr2 where
    S2: "callback_lws_status (\<lambda>_. 0) status_env0 1 LWS_CALLBACK_CLOSED 9 S1 = Some (0, S2, tr2)"
      "status_ok (S2\<lparr>status_pss := (status_pss S2)(9 := None)\<rparr>) []"
      "count_live_pss (status_vhd S2) = count_live_pss (status_vhd S1)" by auto
  from r1 status_step.close [OF some S2(1)]
  have "status_reachable (S2\<lparr>status_pss := (status_pss S2)(9 := None)\<rparr>)" by (rule status_reachable.step)
  with S2(2,3) S1(3) show ?thesis
    by (intro exI [of _ "S2\<lparr>status_pss := (status_pss S2)(9 := None)\<rparr>"]) simp
qed

lemma status_count_reachable:
  "int n \<le> INT_MAX \<Longrightarrow> \<exists>S. status_reachable S \<and> status_ok S [] \<and> count_live_pss (status_vhd S) = int n"
proof (induction n)
  case 0
  have "count_live_pss (status_vhd status_start) = int 0" by (simp add: status_start_def)
  with status_reachable.start status_start_ok show ?case by blast
next
  case (Suc n)
  then show ?case using status_count_step by force
qed

text \<open>
  The connection count a description reports is not the number of live sessions: nothing
  decrements it.  For every n a state is reachable where n connections have been counted and
  no session is left.
\<close>

theorem status_count_drifts:
  "\<exists>S. status_reachable S \<and> live_pss_list (status_vhd S) = None \<and>
     count_live_pss (status_vhd S) = int (min n (nat INT_MAX))"
proof -
  have "int (min n (nat INT_MAX)) \<le> INT_MAX" by (simp add: INT_MAX_def)
  from status_count_reachable [OF this] show ?thesis
    by (auto simp: status_ok_def status_list_def dest: chain_unique)
qed

text \<open>
  A writeable callback whose next session has gone away in the meantime sends the
  separator and nothing behind it, so the text a client puts together then reads
  an entry, a comma and the closing bracket, which is not JSON.
\<close>

theorem status_gone_comma:
  assumes "status_reachable S" and "status_pss S me = Some s" and "walk s = WALK_LIST"
    and "walk_next s = Some a" and "status_pss S a = None" and "subsequent s" and "\<And>tr. 0 \<le> orc tr"
  shows "\<exists>S' tr. status_run 2 orc e w me S = Some (S', tr) \<and>
    concat (written tr) = bytes_of '',]}''"
proof -
  from status_reachable_ok [OF assms(1)] obtain xs where ok: "status_ok S xs" by blast
  then have "a \<notin> set xs" using assms(5) by (simp add: status_ok_def)
  then have gone: "status_in_list a (live_pss_list (status_vhd S)) (status_pss S) = Some False"
    using status_ok_found [OF ok] by simp
  have "\<not> orc [Lws_write w b m] < 0" for b m using assms(7) by (simp add: not_less)
  with assms(2-6) gone show ?thesis
    by (simp add: numeral_2_eq_2 status_writeable_def status_fragment_def status_final_def Let_def bytes_of_def)
qed

definition status_two_at :: "e_walk \<Rightarrow> addr \<Rightarrow> bool \<Rightarrow> status_state" where
  "status_two_at wk wn sub = \<lparr>status_vhd = \<lparr>live_pss_list = Some 8, count_live_pss = 2\<rparr>,
     status_pss = [8 \<mapsto> status_pss_walk wk (Some 9) (Some wn) sub False,
                   9 \<mapsto> status_pss_walk WALK_INITIAL None (Some 9) False True]\<rparr>"

definition status_gone :: status_state where
  "status_gone = \<lparr>status_vhd = \<lparr>live_pss_list = Some 8, count_live_pss = 2\<rparr>,
     status_pss = [8 \<mapsto> status_pss_walk WALK_LIST None (Some 9) True True]\<rparr>"

lemmas status_eval = status_two_at_def status_pss_walk_def callback_lws_status_def status_writeable_def
  status_fragment_def status_in_list.simps Let_def

lemma status_two_first:
  "\<exists>tr. callback_lws_status (\<lambda>_. 0) status_env0 1 LWS_CALLBACK_SERVER_WRITEABLE 8 (status_two_at WALK_INITIAL 8 False) =
     Some (0, status_two_at WALK_LIST 8 False, tr)"
  by (simp add: status_eval fun_eq_iff)

lemma status_two_second:
  "\<exists>tr. callback_lws_status (\<lambda>_. 0) status_env0 1 LWS_CALLBACK_SERVER_WRITEABLE 8 (status_two_at WALK_LIST 8 False) =
     Some (0, status_two_at WALK_LIST 9 True, tr)"
  by (simp add: status_eval fun_eq_iff)

lemma status_two_close:
  "\<exists>S' tr. callback_lws_status (\<lambda>_. 0) status_env0 1 LWS_CALLBACK_CLOSED 9 (status_two_at WALK_LIST 9 True) =
     Some (0, S', tr) \<and> S'\<lparr>status_pss := (status_pss S')(9 := None)\<rparr> = status_gone"
  by (simp add: status_eval status_closed_def status_unlink.simps trigger_resend_def resend_loop.simps
      resend_mark_def status_gone_def fun_eq_iff)

lemma status_two_step:
  assumes "\<exists>tr. callback_lws_status (\<lambda>_. 0) status_env0 1 LWS_CALLBACK_SERVER_WRITEABLE 8 (status_two_at wk wn sub) =
    Some (0, T, tr)"
  shows "status_step (status_two_at wk wn sub) T"
proof -
  have "status_pss (status_two_at wk wn sub) 8 \<noteq> None" by (simp add: status_two_at_def)
  with assms show ?thesis by (blast intro: status_step.writeable [OF _ status_env0_ok])
qed

lemma status_gone_reachable: "status_reachable status_gone"
proof -
  have "status_reachable (status_two_at WALK_INITIAL 8 False)"
    using status_two_reachable by (simp add: status_two_at_def status_two_def)
  moreover have "status_step (status_two_at WALK_INITIAL 8 False) (status_two_at WALK_LIST 8 False)"
    by (rule status_two_step [OF status_two_first])
  moreover have "status_step (status_two_at WALK_LIST 8 False) (status_two_at WALK_LIST 9 True)"
    by (rule status_two_step [OF status_two_second])
  moreover have "status_step (status_two_at WALK_LIST 9 True) status_gone"
  proof -
    from status_two_close obtain S' tr where
      c: "callback_lws_status (\<lambda>_. 0) status_env0 1 LWS_CALLBACK_CLOSED 9 (status_two_at WALK_LIST 9 True) =
        Some (0, S', tr)" "S'\<lparr>status_pss := (status_pss S')(9 := None)\<rparr> = status_gone" by blast
    from status_step.close [OF _ c(1)] c(2) show ?thesis by (simp add: status_two_at_def)
  qed
  ultimately show ?thesis by (blast intro: status_reachable.step)
qed

theorem status_gone_comma_witness:
  "\<exists>S' tr. status_run 2 (\<lambda>_. 0) status_env0 1 8 status_gone = Some (S', tr) \<and>
     concat (written tr) = bytes_of '',]}''"
  by (rule status_gone_comma [OF status_gone_reachable, where a = 9 and
      s = "status_pss_walk WALK_LIST None (Some 9) True True"])
    (simp_all add: status_gone_def status_pss_walk_def)

end
