(* ===== verification/PollTable.thy ===== *)
theory PollTable
  imports Prelude
begin

text \<open>
  The table of polled descriptors that callback_http of test-server-http.c keeps for an
  external poll loop: a dense array of pollfd entries, the number in use, and an array that
  leads from a descriptor to its slot.  A deletion moves the last entry into the hole.  The
  abstract view is a map from descriptors to the events polled for.  An event mask, an int in the library's
  arguments and a short in the table, is a set of poll flags, which both hold.
\<close>

record lws_pollfd =
  fd :: int
  events :: int
  revents :: int

record poll_state =
  pollfds :: "lws_pollfd list"
  fd_lookup :: "int list"
  count_pollfds :: int
  max_poll_elements :: int

definition poll_add :: "int \<Rightarrow> int \<Rightarrow> poll_state \<Rightarrow> (int \<times> poll_state) option" where
  "poll_add f ev S =
     (if max_poll_elements S \<le> count_pollfds S then Some (1, S)
      else do {
        lk \<leftarrow> arr_set (fd_lookup S) f (count_pollfds S);
        pf \<leftarrow> arr_set (pollfds S) (count_pollfds S) \<lparr>fd = f, events = ev, revents = 0\<rparr>;
        n \<leftarrow> c_int (count_pollfds S + 1);
        Some (0, S\<lparr>fd_lookup := lk, pollfds := pf, count_pollfds := n\<rparr>) })"

definition poll_del :: "int \<Rightarrow> poll_state \<Rightarrow> (int \<times> poll_state) option" where
  "poll_del f S = do {
     n \<leftarrow> c_int (count_pollfds S - 1);
     let S1 = S\<lparr>count_pollfds := n\<rparr>;
     if n = 0 then Some (0, S1)
     else do {
       m \<leftarrow> arr_get (fd_lookup S) f;
       last \<leftarrow> arr_get (pollfds S) n;
       pf \<leftarrow> arr_set (pollfds S) m last;
       last' \<leftarrow> arr_get pf n;
       lk \<leftarrow> arr_set (fd_lookup S) (fd last') m;
       Some (0, S1\<lparr>pollfds := pf, fd_lookup := lk\<rparr>) } }"

definition poll_change :: "int \<Rightarrow> int \<Rightarrow> poll_state \<Rightarrow> (int \<times> poll_state) option" where
  "poll_change f ev S = do {
     m \<leftarrow> arr_get (fd_lookup S) f;
     p \<leftarrow> arr_get (pollfds S) m;
     pf \<leftarrow> arr_set (pollfds S) m (p\<lparr>events := ev\<rparr>);
     Some (0, S\<lparr>pollfds := pf\<rparr>) }"

subsection \<open>Abstraction and invariant\<close>

definition poll_used :: "poll_state \<Rightarrow> lws_pollfd list" where
  "poll_used S = take (nat (count_pollfds S)) (pollfds S)"

definition poll_map :: "poll_state \<Rightarrow> int \<Rightarrow> int option" where
  "poll_map S = map_of (map (\<lambda>p. (fd p, events p)) (poll_used S))"

text \<open>Every used entry is found through the lookup array, so no descriptor is there twice.\<close>

definition poll_ok :: "poll_state \<Rightarrow> bool" where
  "poll_ok S \<longleftrightarrow> int (length (pollfds S)) = max_poll_elements S \<and>
     length (fd_lookup S) = length (pollfds S) \<and> max_poll_elements S \<le> INT_MAX \<and>
     0 \<le> count_pollfds S \<and> count_pollfds S \<le> max_poll_elements S \<and>
     (\<forall>i < nat (count_pollfds S). 0 \<le> fd (pollfds S ! i) \<and> fd (pollfds S ! i) < max_poll_elements S \<and>
        fd_lookup S ! nat (fd (pollfds S ! i)) = int i)"

lemma poll_okD:
  assumes "poll_ok S" "i < nat (count_pollfds S)"
  shows "0 \<le> fd (pollfds S ! i)" "nat (fd (pollfds S ! i)) < length (fd_lookup S)"
    "fd_lookup S ! nat (fd (pollfds S ! i)) = int i" "i < length (pollfds S)"
  using assms by (auto simp: poll_ok_def)

lemma poll_inj:
  assumes "poll_ok S" "i < nat (count_pollfds S)" "j < nat (count_pollfds S)" "fd (pollfds S ! i) = fd (pollfds S ! j)"
  shows "i = j"
  using poll_okD(3) [OF assms(1,2)] poll_okD(3) [OF assms(1,3)] unfolding assms(4) by (metis of_nat_eq_iff)

lemma poll_map_Some:
  assumes "poll_ok S"
  shows "poll_map S f = Some ev \<longleftrightarrow>
    (\<exists>i < nat (count_pollfds S). fd (pollfds S ! i) = f \<and> events (pollfds S ! i) = ev)"
proof -
  have len: "length (poll_used S) = nat (count_pollfds S)"
    using assms by (auto simp: poll_used_def poll_ok_def)
  have nth: "poll_used S ! i = pollfds S ! i" if "i < nat (count_pollfds S)" for i
    using that by (simp add: poll_used_def)
  have dist: "distinct (map fst (map (\<lambda>p. (fd p, events p)) (poll_used S)))"
    unfolding distinct_conv_nth using poll_inj [OF assms] nth len by simp metis
  have "(f, ev) \<in> set (map (\<lambda>p. (fd p, events p)) (poll_used S)) \<longleftrightarrow>
      (\<exists>i < length (poll_used S). (fd (poll_used S ! i), events (poll_used S ! i)) = (f, ev))"
    unfolding in_set_conv_nth by auto
  then show ?thesis
    unfolding poll_map_def map_of_eq_Some_iff [OF dist] using len nth by auto
qed

lemma poll_map_None:
  "poll_ok S \<Longrightarrow> poll_map S f = None \<longleftrightarrow> (\<forall>i < nat (count_pollfds S). fd (pollfds S ! i) \<noteq> f)"
  using poll_map_Some [of S f] by (metis not_None_eq)

text \<open>Two states are related to maps entry by entry.\<close>

lemma poll_map_eqI:
  assumes "poll_ok S"
    and "\<And>f ev. g f = Some ev \<longleftrightarrow> (\<exists>i < nat (count_pollfds S). fd (pollfds S ! i) = f \<and> events (pollfds S ! i) = ev)"
  shows "poll_map S = g"
  using poll_map_Some [OF assms(1)] assms(2) by (metis not_None_eq ext)

lemma poll_add_ok:
  assumes ok: "poll_ok S" and new: "poll_map S f = None" and f: "0 \<le> f" "f < max_poll_elements S"
    and room: "count_pollfds S < max_poll_elements S"
  shows "\<exists>S'. poll_add f ev S = Some (0, S') \<and> poll_ok S' \<and> poll_map S' = (poll_map S)(f \<mapsto> ev) \<and>
    count_pollfds S' = count_pollfds S + 1 \<and> max_poll_elements S' = max_poll_elements S"
proof -
  define S' where "S' = S\<lparr>fd_lookup := (fd_lookup S)[nat f := count_pollfds S],
    pollfds := (pollfds S)[nat (count_pollfds S) := \<lparr>fd = f, events = ev, revents = 0\<rparr>],
    count_pollfds := count_pollfds S + 1\<rparr>"
  have run: "poll_add f ev S = Some (0, S')"
    using ok f room by (simp add: poll_add_def S'_def arr_set_in poll_ok_def c_int_def is_int_def INT_MAX_def INT_MIN_def)
  have old: "\<forall>i < nat (count_pollfds S). fd (pollfds S ! i) \<noteq> f"
    using new poll_map_None [OF ok] by simp
  have "0 \<le> count_pollfds S" using ok by (simp add: poll_ok_def)
  then have n: "nat (count_pollfds S + 1) = Suc (nat (count_pollfds S))" by linarith
  have old': "\<forall>i < nat (count_pollfds S). nat f \<noteq> nat (fd (pollfds S ! i))"
    using old f(1) poll_okD(1) [OF ok] by (metis int_nat_eq)
  have ok': "poll_ok S'"
    using ok f room old' unfolding poll_ok_def S'_def
    by (auto simp: n less_Suc_eq nth_list_update)
  have "poll_map S' = (poll_map S)(f \<mapsto> ev)"
  proof (rule poll_map_eqI [OF ok'])
    fix k e
    have lt: "nat (count_pollfds S) < length (pollfds S)" using ok room by (auto simp: poll_ok_def)
    have at: "pollfds S' ! nat (count_pollfds S) = \<lparr>fd = f, events = ev, revents = 0\<rparr>"
      "i < nat (count_pollfds S) \<Longrightarrow> pollfds S' ! i = pollfds S ! i" for i
      using lt by (simp_all add: S'_def)
    have cnt: "nat (count_pollfds S') = Suc (nat (count_pollfds S))" by (simp add: S'_def n)
    have "(\<exists>i < nat (count_pollfds S'). fd (pollfds S' ! i) = k \<and> events (pollfds S' ! i) = e) \<longleftrightarrow>
        (f = k \<and> ev = e) \<or> poll_map S k = Some e"
      unfolding cnt Ex_less_Suc at(1) poll_map_Some [OF ok] using at(2) by auto
    then show "((poll_map S)(f \<mapsto> ev)) k = Some e \<longleftrightarrow>
        (\<exists>i < nat (count_pollfds S'). fd (pollfds S' ! i) = k \<and> events (pollfds S' ! i) = e)"
      using new by auto
  qed
  with run ok' show ?thesis by (simp add: S'_def)
qed

lemma poll_add_full: "max_poll_elements S \<le> count_pollfds S \<Longrightarrow> poll_add f ev S = Some (1, S)"
  by (simp add: poll_add_def)

text \<open>The entry behind a descriptor that is polled.\<close>

lemma poll_slot:
  assumes "poll_ok S" "poll_map S f = Some ev"
  obtains i where "i < nat (count_pollfds S)" "fd (pollfds S ! i) = f" "events (pollfds S ! i) = ev"
    "arr_get (fd_lookup S) f = Some (int i)" "i < length (pollfds S)"
proof -
  from assms poll_map_Some obtain i where i: "i < nat (count_pollfds S)" "fd (pollfds S ! i) = f" "events (pollfds S ! i) = ev"
    by blast
  with poll_okD [OF assms(1) i(1)] have "arr_get (fd_lookup S) f = Some (int i)" "i < length (pollfds S)"
    by (auto simp: arr_get_def)
  with i that show ?thesis by blast
qed

lemma poll_change_ok:
  assumes ok: "poll_ok S" and f: "poll_map S f = Some old"
  shows "\<exists>S'. poll_change f ev S = Some (0, S') \<and> poll_ok S' \<and> poll_map S' = (poll_map S)(f \<mapsto> ev) \<and>
    count_pollfds S' = count_pollfds S \<and> max_poll_elements S' = max_poll_elements S"
proof -
  obtain i where i: "i < nat (count_pollfds S)" "fd (pollfds S ! i) = f" "events (pollfds S ! i) = old"
    "arr_get (fd_lookup S) f = Some (int i)" "i < length (pollfds S)" by (rule poll_slot [OF ok f])
  define S' where "S' = S\<lparr>pollfds := (pollfds S)[i := (pollfds S ! i)\<lparr>events := ev\<rparr>]\<rparr>"
  have run: "poll_change f ev S = Some (0, S')"
    using i by (simp add: poll_change_def S'_def arr_get_def arr_set_def)
  have fds: "fd (pollfds S' ! j) = fd (pollfds S ! j)"
    and evs: "events (pollfds S' ! j) = (if j = i then ev else events (pollfds S ! j))" for j
    using i(5) by (cases "j = i"; simp add: S'_def)+
  have fields: "length (pollfds S') = length (pollfds S)" "fd_lookup S' = fd_lookup S"
    "count_pollfds S' = count_pollfds S" "max_poll_elements S' = max_poll_elements S"
    by (simp_all add: S'_def)
  have ok': "poll_ok S'"
    using ok unfolding poll_ok_def fds fields by blast
  have only: "j = i" if "j < nat (count_pollfds S)" "fd (pollfds S ! j) = f" for j
    using poll_inj [OF ok that(1) i(1)] that i(2) by simp
  have "poll_map S' = (poll_map S)(f \<mapsto> ev)"
  proof (rule poll_map_eqI [OF ok'])
    fix k e
    show "((poll_map S)(f \<mapsto> ev)) k = Some e \<longleftrightarrow>
        (\<exists>j < nat (count_pollfds S'). fd (pollfds S' ! j) = k \<and> events (pollfds S' ! j) = e)"
    proof (cases "k = f")
      case True
      have "(\<exists>j < nat (count_pollfds S). fd (pollfds S ! j) = f \<and> (if j = i then ev else events (pollfds S ! j)) = e)
          \<longleftrightarrow> ev = e" using i(1,2) only by metis
      with True show ?thesis unfolding fields fds evs by simp
    next
      case False
      then have "fd (pollfds S ! j) = k \<Longrightarrow> j \<noteq> i" for j using i(2) by blast
      then have "(\<exists>j < nat (count_pollfds S). fd (pollfds S ! j) = k \<and> (if j = i then ev else events (pollfds S ! j)) = e)
          \<longleftrightarrow> (\<exists>j < nat (count_pollfds S). fd (pollfds S ! j) = k \<and> events (pollfds S ! j) = e)" by metis
      with False show ?thesis unfolding fields fds evs poll_map_Some [OF ok, symmetric] by simp
    qed
  qed
  with run ok' show ?thesis by (intro exI [of _ S'] conjI fields(3,4))
qed

text \<open>Moving the last of the used slots into a hole keeps what the others hold.\<close>

lemma swap_last_holds:
  assumes i: "i \<le> l" "l < length xs"
  shows "(\<exists>j < l. P (xs[i := xs ! l] ! j)) \<longleftrightarrow> (\<exists>j < Suc l. j \<noteq> i \<and> P (xs ! j))"
proof
  assume "\<exists>j < l. P (xs[i := xs ! l] ! j)"
  then obtain j where j: "j < l" "P (xs[i := xs ! l] ! j)" by blast
  then show "\<exists>j < Suc l. j \<noteq> i \<and> P (xs ! j)"
    using i by (cases "j = i") (auto intro: exI [of _ l] exI [of _ j])
next
  assume "\<exists>j < Suc l. j \<noteq> i \<and> P (xs ! j)"
  then obtain j where j: "j < Suc l" "j \<noteq> i" "P (xs ! j)" by blast
  show "\<exists>j < l. P (xs[i := xs ! l] ! j)"
  proof (cases "j = l")
    case True
    then show ?thesis using i j by (intro exI [of _ i]) auto
  next
    case False
    then show ?thesis using j by (intro exI [of _ j]) auto
  qed
qed

lemma poll_del_ok:
  assumes ok: "poll_ok S" and f: "poll_map S f = Some old"
  shows "\<exists>S'. poll_del f S = Some (0, S') \<and> poll_ok S' \<and> poll_map S' = (poll_map S)(f := None) \<and>
    count_pollfds S' = count_pollfds S - 1 \<and> max_poll_elements S' = max_poll_elements S"
proof -
  obtain i where i: "i < nat (count_pollfds S)" "fd (pollfds S ! i) = f"
    "arr_get (fd_lookup S) f = Some (int i)" "i < length (pollfds S)" by (rule poll_slot [OF ok f])
  define l where "l = nat (count_pollfds S) - 1"
  have l: "l < nat (count_pollfds S)" "int l = count_pollfds S - 1" "l < length (pollfds S)"
    using i poll_okD(4) [OF ok, of l] by (auto simp: l_def)
  have cnt: "c_int (count_pollfds S - 1) = Some (int l)"
    using ok l(2) by (auto simp: c_int_def is_int_def poll_ok_def INT_MAX_def INT_MIN_def)
  have only: "j = i" if "j < nat (count_pollfds S)" "fd (pollfds S ! j) = f" for j
    using poll_inj [OF ok that(1) i(1)] that i by simp
  show ?thesis
  proof (cases "l = 0")
    case True
    define S' where "S' = S\<lparr>count_pollfds := 0\<rparr>"
    have run: "poll_del f S = Some (0, S')" using True cnt by (simp add: poll_del_def S'_def)
    have ok': "poll_ok S'" using ok by (auto simp: poll_ok_def S'_def)
    have "i = 0" "nat (count_pollfds S) = 1" using True i(1) l by auto
    then have "poll_map S' = (poll_map S)(f := None)"
      using i by (intro poll_map_eqI [OF ok']) (auto simp: S'_def poll_map_Some [OF ok])
    with run ok' l True show ?thesis by (simp add: S'_def)
  next
    case False
    define pf where "pf = (pollfds S)[i := pollfds S ! l]"
    define lk where "lk = (fd_lookup S)[nat (fd (pollfds S ! l)) := int i]"
    define S' where "S' = S\<lparr>count_pollfds := int l, pollfds := pf, fd_lookup := lk\<rparr>"
    have "pf ! l = pollfds S ! l" using l by (cases "i = l") (auto simp: pf_def)
    moreover note fl = poll_okD(1,2) [OF ok l(1)]
    ultimately have run: "poll_del f S = Some (0, S')"
      using cnt False i(3,4) l(3) by (simp add: poll_del_def S'_def arr_get_def arr_set_def pf_def [symmetric] lk_def)
        (simp add: pf_def arr_set_def)
    have at: "j < l \<Longrightarrow> pf ! j = (if j = i then pollfds S ! l else pollfds S ! j)" for j
      using l i(4) by (simp add: pf_def nth_list_update)
    have lkat: "lk ! nat (fd (pf ! j)) = int j \<and> 0 \<le> fd (pf ! j) \<and> fd (pf ! j) < max_poll_elements S" if "j < l" for j
    proof (cases "j = i")
      case True
      with that at fl ok l show ?thesis by (auto simp: lk_def poll_ok_def)
    next
      case False
      from that l have "j < nat (count_pollfds S)" by simp
      note fj = poll_okD [OF ok this] and ne = poll_inj [OF ok this l(1)]
      from that ne have "fd (pollfds S ! j) \<noteq> fd (pollfds S ! l)" by auto
      with fj fl have "nat (fd (pollfds S ! j)) \<noteq> nat (fd (pollfds S ! l))" by auto
      with False that at fj ok \<open>j < nat (count_pollfds S)\<close> show ?thesis by (auto simp: lk_def poll_ok_def)
    qed
    have ok': "poll_ok S'"
      using ok l lkat unfolding poll_ok_def S'_def by (auto simp: pf_def lk_def)
    have "poll_map S' = (poll_map S)(f := None)"
    proof (rule poll_map_eqI [OF ok'])
      fix k e
      let ?P = "\<lambda>p. fd p = k \<and> events p = e"
      have "i \<le> l" "nat (count_pollfds S) = Suc l" using i(1) l(1) by (simp_all add: l_def)
      then have "(\<exists>j < l. ?P (pf ! j)) \<longleftrightarrow> (\<exists>j < nat (count_pollfds S). j \<noteq> i \<and> ?P (pollfds S ! j))"
        using swap_last_holds [of i l "pollfds S" ?P] l(3) by (simp add: pf_def)
      moreover have "(\<exists>j < nat (count_pollfds S). j \<noteq> i \<and> ?P (pollfds S ! j)) \<longleftrightarrow>
          ((poll_map S)(f := None)) k = Some e"
        using only i(2) by (auto simp: poll_map_Some [OF ok])
      ultimately show "((poll_map S)(f := None)) k = Some e \<longleftrightarrow>
          (\<exists>i < nat (count_pollfds S'). fd (pollfds S' ! i) = k \<and> events (pollfds S' ! i) = e)"
        by (simp add: S'_def)
    qed
    with run ok' l show ?thesis by (simp add: S'_def)
  qed
qed

text \<open>
  Descriptors below the size of the table are distinct slots, so a descriptor that is not
  polled yet always finds room.
\<close>

lemma poll_room:
  assumes ok: "poll_ok S" and new: "poll_map S f = None" and f: "0 \<le> f" "f < max_poll_elements S"
  shows "count_pollfds S < max_poll_elements S"
proof -
  let ?n = "nat (count_pollfds S)"
  let ?g = "\<lambda>i. fd (pollfds S ! i)"
  have "inj_on ?g {..<?n}" using poll_inj [OF ok] by (auto simp: inj_on_def)
  then have "card (?g ` {..<?n}) = ?n" by (simp add: card_image)
  moreover have "?g ` {..<?n} \<subseteq> {0..<max_poll_elements S} - {f}"
    using ok new poll_map_None [OF ok] by (auto simp: poll_ok_def)
  then have "card (?g ` {..<?n}) \<le> card ({0..<max_poll_elements S} - {f})"
    by (intro card_mono) auto
  moreover have "card ({0..<max_poll_elements S} - {f}) = nat (max_poll_elements S) - 1"
    using f by (simp add: card_Diff_singleton)
  ultimately show ?thesis using f by linarith
qed

subsection \<open>The interface\<close>

text \<open>What the library does to the table, and what it may do: never add a descriptor twice, and
  delete or change only one that is there.\<close>

datatype poll_op = Add_poll_fd int int | Del_poll_fd int | Change_mode_poll_fd int int

fun poll_legal :: "int \<Rightarrow> (int \<Rightarrow> int option) \<Rightarrow> poll_op list \<Rightarrow> bool" where
  "poll_legal cap m [] \<longleftrightarrow> True"
| "poll_legal cap m (Add_poll_fd f ev # ops) \<longleftrightarrow>
     m f = None \<and> 0 \<le> f \<and> f < cap \<and> poll_legal cap (m(f \<mapsto> ev)) ops"
| "poll_legal cap m (Del_poll_fd f # ops) \<longleftrightarrow> m f \<noteq> None \<and> poll_legal cap (m(f := None)) ops"
| "poll_legal cap m (Change_mode_poll_fd f ev # ops) \<longleftrightarrow> m f \<noteq> None \<and> poll_legal cap (m(f \<mapsto> ev)) ops"

fun poll_spec :: "(int \<Rightarrow> int option) \<Rightarrow> poll_op list \<Rightarrow> int \<Rightarrow> int option" where
  "poll_spec m [] = m"
| "poll_spec m (Add_poll_fd f ev # ops) = poll_spec (m(f \<mapsto> ev)) ops"
| "poll_spec m (Del_poll_fd f # ops) = poll_spec (m(f := None)) ops"
| "poll_spec m (Change_mode_poll_fd f ev # ops) = poll_spec (m(f \<mapsto> ev)) ops"

fun table_run :: "(poll_op \<Rightarrow> 's \<Rightarrow> (int \<times> 's) option) \<Rightarrow> poll_op list \<Rightarrow> 's \<Rightarrow> (int list \<times> 's) option" where
  "table_run step [] S = Some ([], S)"
| "table_run step (x # ops) S = do {
     (r, S1) \<leftarrow> step x S;
     (rs, S2) \<leftarrow> table_run step ops S1;
     Some (r # rs, S2) }"

fun poll_callback :: "poll_op \<Rightarrow> poll_state \<Rightarrow> (int \<times> poll_state) option" where
  "poll_callback (Add_poll_fd f ev) S = poll_add f ev S"
| "poll_callback (Del_poll_fd f) S = poll_del f S"
| "poll_callback (Change_mode_poll_fd f ev) S = poll_change f ev S"

locale fd_table =
  fixes step :: "poll_op \<Rightarrow> 's \<Rightarrow> (int \<times> 's) option"
    and ok :: "'s \<Rightarrow> bool"
    and view :: "'s \<Rightarrow> int \<Rightarrow> int option"
    and cap :: "'s \<Rightarrow> int"
  assumes step_legal: "ok S \<Longrightarrow> poll_legal (cap S) (view S) [x] \<Longrightarrow>
      \<exists>S'. step x S = Some (0, S') \<and> ok S' \<and> view S' = poll_spec (view S) [x] \<and> cap S' = cap S"
begin

lemma legal_Cons: "poll_legal n m (x # ops) \<longleftrightarrow> poll_legal n m [x] \<and> poll_legal n (poll_spec m [x]) ops"
  by (cases x) auto

lemma spec_Cons: "poll_spec m (x # ops) = poll_spec (poll_spec m [x]) ops"
  by (cases x) auto

lemma run_legal:
  "ok S \<Longrightarrow> poll_legal (cap S) (view S) ops \<Longrightarrow>
   \<exists>S'. table_run step ops S = Some (replicate (length ops) 0, S') \<and> ok S' \<and>
     view S' = poll_spec (view S) ops \<and> cap S' = cap S"
proof (induction ops arbitrary: S)
  case Nil
  then show ?case by simp
next
  case (Cons x ops)
  from Cons.prems(2) have x: "poll_legal (cap S) (view S) [x]"
    and ops: "poll_legal (cap S) (poll_spec (view S) [x]) ops"
    unfolding legal_Cons [of _ _ x ops] by blast+
  obtain S1 where S1: "step x S = Some (0, S1)" "ok S1" "view S1 = poll_spec (view S) [x]" "cap S1 = cap S"
    using step_legal [OF Cons.prems(1) x] by blast
  obtain S2 where S2: "table_run step ops S1 = Some (replicate (length ops) 0, S2)" "ok S2"
    "view S2 = poll_spec (view S1) ops" "cap S2 = cap S1"
    using Cons.IH [of S1] S1 ops by auto
  show ?case
    unfolding spec_Cons [of _ x ops] using S1 S2 by simp
qed

end

interpretation poll_table: fd_table poll_callback poll_ok poll_map max_poll_elements
proof unfold_locales
  fix S x
  assume ok: "poll_ok S" and x: "poll_legal (max_poll_elements S) (poll_map S) [x]"
  show "\<exists>S'. poll_callback x S = Some (0, S') \<and> poll_ok S' \<and> poll_map S' = poll_spec (poll_map S) [x] \<and>
    max_poll_elements S' = max_poll_elements S"
  proof (cases x)
    case (Add_poll_fd f ev)
    with x have f: "poll_map S f = None" "0 \<le> f" "f < max_poll_elements S" by auto
    from poll_add_ok [OF ok f poll_room [OF ok f], of ev] Add_poll_fd show ?thesis by auto
  next
    case (Del_poll_fd f)
    with x obtain old where "poll_map S f = Some old" by auto
    from poll_del_ok [OF ok this] Del_poll_fd show ?thesis by auto
  next
    case (Change_mode_poll_fd f ev)
    with x obtain old where "poll_map S f = Some old" by auto
    from poll_change_ok [OF ok this, of ev] Change_mode_poll_fd show ?thesis by auto
  qed
qed

subsection \<open>Properties\<close>

text \<open>What main sets up: arrays of the size of the descriptor table, none of it in use.\<close>

definition poll_init :: "nat \<Rightarrow> poll_state" where
  "poll_init n = \<lparr>pollfds = replicate n \<lparr>fd = 0, events = 0, revents = 0\<rparr>, fd_lookup = replicate n 0,
     count_pollfds = 0, max_poll_elements = int n\<rparr>"

lemma poll_init_ok: "int n \<le> INT_MAX \<Longrightarrow> poll_ok (poll_init n)"
  by (simp add: poll_ok_def poll_init_def)

lemma poll_init_map: "poll_map (poll_init n) = Map.empty"
  by (simp add: poll_map_def poll_used_def poll_init_def)

text \<open>
  C7: The poll table refines a map from descriptors to events.  Whatever legal sequence of
  additions, deletions and mode changes the library asks for, each of them succeeds, no array
  access leaves its array, and the used entries are those of the map, each descriptor once
  and found through the lookup array.
\<close>

theorem poll_table_refines_map:
  assumes "int n \<le> INT_MAX" and "poll_legal (int n) Map.empty ops"
  shows "\<exists>S'. table_run poll_callback ops (poll_init n) = Some (replicate (length ops) 0, S') \<and>
    poll_map S' = poll_spec Map.empty ops \<and> poll_ok S'"
proof -
  have "max_poll_elements (poll_init n) = int n" by (simp add: poll_init_def)
  with poll_table.run_legal [OF poll_init_ok [OF assms(1)], of ops] assms(2) show ?thesis
    by (auto simp: poll_init_map)
qed

definition poll_ops0 :: "poll_op list" where
  "poll_ops0 = [Add_poll_fd 3 1, Add_poll_fd 5 1, Add_poll_fd 0 4, Del_poll_fd 3, Change_mode_poll_fd 0 5]"

theorem poll_table_refines_map_witness:
  "\<exists>S'. table_run poll_callback poll_ops0 (poll_init 8) = Some ([0, 0, 0, 0, 0], S') \<and>
     poll_map S' = [5 \<mapsto> 1, 0 \<mapsto> 5]"
proof -
  have "poll_legal (int 8) Map.empty poll_ops0" by (simp add: poll_ops0_def)
  from poll_table_refines_map [OF _ this] obtain S' where
    "table_run poll_callback poll_ops0 (poll_init 8) = Some (replicate (length poll_ops0) 0, S')"
    "poll_map S' = poll_spec Map.empty poll_ops0"
    by (auto simp: INT_MAX_def)
  moreover have "replicate (length poll_ops0) (0 :: int) = [0, 0, 0, 0, 0]"
    by (simp add: poll_ops0_def)
  moreover have "poll_spec Map.empty poll_ops0 = [5 \<mapsto> 1, 0 \<mapsto> 5]"
    by (auto simp: poll_ops0_def fun_eq_iff)
  ultimately show ?thesis by simp
qed

end
