(* ===== verification/DumbIncrement.thy ===== *)
theory DumbIncrement
  imports CString LwsApi
begin

text \<open>
  The dumb increment protocol of the server, test-server-dumb-increment.c: a counter per
  session, sent as decimal text on every writeable callback, reset or closed on request.
  A received message is the memory at in and its length; strcmp reads that memory.
\<close>

definition LWS_CLOSE_STATUS_GOINGAWAY :: nat where "LWS_CLOSE_STATUS_GOINGAWAY = 1001"

definition di_writeable :: "lws_oracle \<Rightarrow> int \<Rightarrow> wsi \<Rightarrow> int \<Rightarrow> (int \<times> int \<times> lws_trace) option" where
  "di_writeable orc close_testing w number = do {
     number' \<leftarrow> c_int (number + 1);
     let p = dec_int number;
     let tr = [Lws_write w (bytes_of p) LWS_WRITE_TEXT];
     if orc tr < int (length p) then Some (- 1, number', tr)
     else if close_testing \<noteq> 0 \<and> number' = 50 then Some (- 1, number', tr)
     else Some (0, number', tr) }"

definition di_receive :: "wsi \<Rightarrow> byte list \<Rightarrow> nat \<Rightarrow> int \<Rightarrow> (int \<times> int \<times> lws_trace) option" where
  "di_receive w inp len number =
     (if len < 6 then Some (0, number, [])
      else do {
        reset \<leftarrow> c_streq inp ''reset\<newline>'';
        let number' = (if reset then 0 else number);
        close \<leftarrow> c_streq inp ''closeme\<newline>'';
        if close then Some (- 1, number', [Lws_close_reason w LWS_CLOSE_STATUS_GOINGAWAY ''seeya''])
        else Some (0, number', []) })"

definition callback_dumb_increment ::
  "lws_oracle \<Rightarrow> int \<Rightarrow> wsi \<Rightarrow> lws_reason \<Rightarrow> byte list \<Rightarrow> nat \<Rightarrow> int \<Rightarrow> (int \<times> int \<times> lws_trace) option" where
  "callback_dumb_increment orc close_testing w reason inp len number =
     (if reason = LWS_CALLBACK_ESTABLISHED then Some (0, 0, [])
      else if reason = LWS_CALLBACK_SERVER_WRITEABLE then di_writeable orc close_testing w number
      else if reason = LWS_CALLBACK_RECEIVE then di_receive w inp len number
      else Some (0, number, []))"

text \<open>Up to n writeable callbacks; the library stops calling once one returns an error.\<close>

fun di_run :: "nat \<Rightarrow> lws_oracle \<Rightarrow> int \<Rightarrow> wsi \<Rightarrow> int \<Rightarrow> (int \<times> int \<times> lws_trace) option" where
  "di_run 0 orc ct w number = Some (0, number, [])"
| "di_run (Suc n) orc ct w number = do {
     (r, number', tr) \<leftarrow> callback_dumb_increment orc ct w LWS_CALLBACK_SERVER_WRITEABLE [] 0 number;
     if r \<noteq> 0 then Some (r, number', tr)
     else do {
       (r2, number2, tr2) \<leftarrow> di_run n orc ct w number';
       Some (r2, number2, tr @ tr2) } }"

lemma di_writeable_step:
  assumes "\<And>tr. 11 \<le> orc tr" and "0 \<le> number" "number < INT_MAX"
  shows "callback_dumb_increment orc ct w LWS_CALLBACK_SERVER_WRITEABLE inp len number =
    Some (if ct \<noteq> 0 \<and> number = 49 then - 1 else 0, number + 1, [Lws_write w (bytes_of (dec_int number)) LWS_WRITE_TEXT])"
proof -
  have "length (dec_nat (nat number)) \<le> 10"
    using assms(2,3) by (intro length_dec_nat) (auto simp: INT_MAX_def nat_less_iff)
  then have "int (length (dec_int number)) \<le> 11" using assms(2) by (simp add: dec_int_def)
  then have "\<not> orc [Lws_write w (bytes_of (dec_int number)) LWS_WRITE_TEXT] < int (length (dec_int number))"
    using assms(1) by (meson not_less order_trans)
  with assms(2,3) show ?thesis
    by (auto simp: callback_dumb_increment_def di_writeable_def Let_def c_int_def is_int_def INT_MAX_def INT_MIN_def)
qed

lemma di_run_from:
  assumes orc: "\<And>tr. 11 \<le> orc tr" and lim: "ct = 0 \<or> m + n \<le> 50" and big: "int (m + n) \<le> INT_MAX"
  shows "\<exists>tr. di_run n orc ct w (int m) =
      Some (if ct \<noteq> 0 \<and> n \<noteq> 0 \<and> m + n = 50 then - 1 else 0, int (m + n), tr) \<and>
    written tr = map (\<lambda>i. bytes_of (dec_int (int i))) [m..<m + n]"
  using lim big
proof (induction n arbitrary: m)
  case 0
  then show ?case by simp
next
  case (Suc n)
  have step: "callback_dumb_increment orc ct w LWS_CALLBACK_SERVER_WRITEABLE [] 0 (int m) =
    Some (if ct \<noteq> 0 \<and> int m = 49 then - 1 else 0, int m + 1,
      [Lws_write w (bytes_of (dec_int (int m))) LWS_WRITE_TEXT])"
    using Suc.prems(2) by (intro di_writeable_step [OF orc]) auto
  show ?case
  proof (cases "ct \<noteq> 0 \<and> m = 49")
    case True
    with Suc.prems(1) have "n = 0" by simp
    with True step show ?thesis by simp
  next
    case False
    from Suc.IH [of "Suc m"] Suc.prems obtain tr where
      ih: "di_run n orc ct w (int (Suc m)) =
         Some (if ct \<noteq> 0 \<and> n \<noteq> 0 \<and> Suc m + n = 50 then - 1 else 0, int (Suc m + n), tr)"
        "written tr = map (\<lambda>i. bytes_of (dec_int (int i))) [Suc m..<Suc m + n]" by auto
    have "ct \<noteq> 0 \<and> n \<noteq> 0 \<and> Suc m + n = 50 \<longleftrightarrow> ct \<noteq> 0 \<and> Suc n \<noteq> 0 \<and> m + Suc n = 50"
      using False by auto
    moreover have "callback_dumb_increment orc ct w LWS_CALLBACK_SERVER_WRITEABLE [] 0 (int m) =
        Some (0, int (Suc m), [Lws_write w (bytes_of (dec_int (int m))) LWS_WRITE_TEXT])"
      using step False by auto
    moreover have "[m..<m + Suc n] = m # [Suc m..<Suc m + n]" by (simp add: upt_conv_Cons)
    ultimately show ?thesis using ih by simp
  qed
qed

subsection \<open>Properties\<close>

text \<open>
  A session counts: with writes that go through, n writeable callbacks after
  ESTABLISHED send the decimal numbers from 0 to n - 1, one per message and in order, and a
  reader gets each number back with atoi.  In close testing mode the 50th callback, and no
  earlier one, closes the connection.
\<close>

theorem dumb_increment_counts:
  assumes "\<And>tr. 11 \<le> orc tr" and "ct = 0 \<or> n \<le> 50" and "int n \<le> INT_MAX"
  shows "\<exists>tr. callback_dumb_increment orc ct w LWS_CALLBACK_ESTABLISHED inp len number = Some (0, 0, []) \<and>
    di_run n orc ct w 0 = Some (if ct \<noteq> 0 \<and> n = 50 then - 1 else 0, int n, tr) \<and>
    written tr = map (\<lambda>i. bytes_of (dec_int (int i))) [0..<n] \<and>
    (\<forall>i \<in> set [0..<n]. atoi (dec_int (int i)) = Some (int i))"
proof -
  from di_run_from [where orc = orc and ct = ct and m = 0 and n = n and w = w, OF assms(1)] assms(2,3)
  obtain tr where
    "di_run n orc ct w 0 = Some (if ct \<noteq> 0 \<and> n = 50 then - 1 else 0, int n, tr)"
    "written tr = map (\<lambda>i. bytes_of (dec_int (int i))) [0..<n]"
    by (auto split: if_splits)
  moreover have "\<forall>i \<in> set [0..<n]. atoi (dec_int (int i)) = Some (int i)"
    using assms(3) by (auto intro!: atoi_dec_int simp: is_int_def INT_MIN_def)
  moreover have "callback_dumb_increment orc ct w LWS_CALLBACK_ESTABLISHED inp len number = Some (0, 0, [])"
    by (simp add: callback_dumb_increment_def)
  ultimately show ?thesis by blast
qed

theorem dumb_increment_counts_witness:
  "\<exists>tr. di_run 50 (\<lambda>_. 11) 1 7 0 = Some (- 1, 50, tr) \<and>
     written tr = map (\<lambda>i. bytes_of (dec_int (int i))) [0..<50]"
proof -
  have "(11 :: int) \<le> 11" "(1 :: int) = 0 \<or> 50 \<le> (50 :: nat)" "int 50 \<le> INT_MAX" by (simp_all add: INT_MAX_def)
  from dumb_increment_counts [where orc = "\<lambda>_. 11", OF this, of 7 "[]" 0 0] show ?thesis by auto
qed

text \<open>
  What a received message does, when its bytes are a string that a terminator follows in
  memory: exactly the text reset and a line feed sets the counter to 0, exactly closeme and a
  line feed closes the connection with the reason 1001, and any other message, and any
  message shorter than six bytes, leaves the session as it is.
\<close>

theorem dumb_increment_receive:
  assumes "CHR 0x00 \<notin> set s"
  shows "callback_dumb_increment orc ct w LWS_CALLBACK_RECEIVE (bytes_of s @ 0 # rest) (length s) number =
    Some (if s = ''closeme\<newline>'' then - 1 else 0, if s = ''reset\<newline>'' then 0 else number,
      if s = ''closeme\<newline>'' then [Lws_close_reason w 1001 ''seeya''] else [])"
proof -
  have "c_streq (bytes_of s @ 0 # rest) t = Some (s = t)" if "CHR 0x00 \<notin> set t" for t
    by (rule c_streq_terminated [OF assms that])
  then show ?thesis
    by (auto simp: callback_dumb_increment_def di_receive_def LWS_CLOSE_STATUS_GOINGAWAY_def)
qed

theorem dumb_increment_receive_witness:
  "callback_dumb_increment (\<lambda>_. 0) 0 7 LWS_CALLBACK_RECEIVE (bytes_of ''reset\<newline>'' @ [0]) 6 41 = Some (0, 0, [])"
proof -
  have "length ''reset\<newline>'' = 6" by simp
  with dumb_increment_receive [of "''reset\<newline>''" "\<lambda>_. 0" 0 7 "[]" 41] show ?thesis by (simp del: length_Cons list.size)
qed

end
