(* ===== verification/FileProto.thy ===== *)
theory FileProto
  imports CString LwsApi
begin

text \<open>
  The file protocol, test-server-file.c and test-server-file.h: a client asks for a file with
  a header, the server confirms, the client starts the transfer, and the server sends the
  file in chunks of 10000 bytes.  Both callbacks are state machines; the headers are C
  structures sent as they lie in memory.  The memory behind the pointer in is a list of bytes,
  of which the handlers read what the code reads, whatever the length of the message.
\<close>

subsection \<open>Constants and structures\<close>

definition FSS_MAX_FILENAME_LEN :: nat where "FSS_MAX_FILENAME_LEN = 256"
definition FSS_FILE_CHECKSUM_LEN :: nat where "FSS_FILE_CHECKSUM_LEN = 32"
definition FSS_MAX_FILE_SIZE :: int where "FSS_MAX_FILE_SIZE = 256 * 1024 * 1024"
definition FSS_HSK_HDR_SIZE :: nat where "FSS_HSK_HDR_SIZE = 8"
definition FSS_MAGIC :: u32 where "FSS_MAGIC = 0x98AC0000"
definition FSS_FILE_REQ :: u32 where "FSS_FILE_REQ = FSS_MAGIC OR 1"
definition FSS_FILE_RESP_OK :: u32 where "FSS_FILE_RESP_OK = FSS_MAGIC OR 2"
definition FSS_FILE_RESP_ERROR :: u32 where "FSS_FILE_RESP_ERROR = FSS_MAGIC OR 3"
definition FSS_FILE_START :: u32 where "FSS_FILE_START = FSS_MAGIC OR 4"
definition FSS_DUMMY :: u32 where "FSS_DUMMY = FSS_MAGIC OR 0xF"

definition FSS_GET_MAGIC :: "u32 \<Rightarrow> u32" where
  "FSS_GET_MAGIC x = x AND 0xffff0000"

datatype file_server_state_e =
  FSS_NONE | FSS_CONNECTED | FSS_HEADER_READY | FSS_WAIT_START | FSS_TRANSFER | FSS_DONE | FSS_ERROR

text \<open>An open FILE is what is left to read of it, or what has been written to it.\<close>

record per_session_file_info =
  fss_state :: file_server_state_e
  fss_filename :: "byte list"
  fss_filesize :: int
  fss_checksum :: "byte list"
  fss_fp :: "byte list option"

datatype file_client_state_e =
  FSC_NONE | FSC_CONNECTED | FSC_WAIT_CONFIRM | FSC_CONFIRMED | FSC_TRANSFER | FSC_DONE | FSC_ERROR

record per_session_file_client_info =
  fsc_state :: file_client_state_e
  fsc_filename :: "byte list"
  fsc_filesize :: int
  fsc_bytes :: int
  fsc_checksum :: "byte list"
  fsc_outfp :: "byte list option"

text \<open>The header in memory, and the fields the code reads through a pointer to it.\<close>

record fss_header_hsk =
  hsk_type :: u32
  hsk_filesize :: u32
  hsk_checksum :: "byte list"
  hsk_filename :: "byte list"

definition sizeof_hsk :: nat where
  "sizeof_hsk = 4 + 4 + FSS_FILE_CHECKSUM_LEN + FSS_MAX_FILENAME_LEN"

definition hsk_bytes :: "fss_header_hsk \<Rightarrow> byte list" where
  "hsk_bytes h = le_bytes (hsk_type h) @ le_bytes (hsk_filesize h) @ hsk_checksum h @ hsk_filename h"

definition hsk_wf :: "fss_header_hsk \<Rightarrow> bool" where
  "hsk_wf h \<longleftrightarrow> length (hsk_checksum h) = FSS_FILE_CHECKSUM_LEN \<and> length (hsk_filename h) = FSS_MAX_FILENAME_LEN"

definition rd_type :: "byte list \<Rightarrow> u32 option" where
  "rd_type mem = (if 4 \<le> length mem then Some (le_word (take 4 mem)) else None)"

definition rd_filesize :: "byte list \<Rightarrow> int option" where
  "rd_filesize mem = (if 8 \<le> length mem then Some (sint (le_word (take 4 (drop 4 mem)))) else None)"

subsection \<open>The room before a payload\<close>

text \<open>
  lws-write puts its protocol header in the bytes before the payload: for data on a websocket the
  documentation asks for LWS-PRE valid bytes there.  How many of them the library uses is the parameter pre;
  bytes is what lies between the beginning of the array and the payload.  A header that does not fit is
  written outside the array.
\<close>

definition with_room :: "nat \<Rightarrow> nat \<Rightarrow> 'r \<Rightarrow> 'r option" where
  "with_room pre bytes r = (if pre \<le> bytes then Some r else None)"

lemma with_room_simps [simp]:
  "with_room 0 bytes r = Some r"
  "with_room pre 0 r = (if pre = 0 then Some r else None)"
  by (simp_all add: with_room_def)

subsection \<open>The client\<close>

text \<open>
  What the client needs of its surroundings: the clock, whether fopen succeeds, and what the
  stack buffer holds when it is not initialised.  A callback returns, or ends the process.
\<close>

record fsc_env =
  fsc_time :: int
  fsc_fopen :: "string \<Rightarrow> bool"
  fsc_stack :: "byte list"

datatype fsc_result = Ret int | Exit int

definition fsc_writeable ::
  "nat \<Rightarrow> lws_oracle \<Rightarrow> fsc_env \<Rightarrow> wsi \<Rightarrow> per_session_file_client_info \<Rightarrow>
   (fsc_result \<times> per_session_file_client_info \<times> lws_trace) option" where
  "fsc_writeable pre orc e w psc =
     (if fsc_state psc = FSC_CONNECTED then
        let h = \<lparr>hsk_type = FSS_FILE_REQ, hsk_filesize = 1,
                 hsk_checksum = replicate FSS_FILE_CHECKSUM_LEN 0, hsk_filename = replicate FSS_MAX_FILENAME_LEN 0\<rparr>;
            tr = [Lws_write w (hsk_bytes h) LWS_WRITE_BINARY]
        in with_room pre 0
          (if to_size_t (orc tr) < int sizeof_hsk then (Ret (- 1), psc, tr)
           else (Ret 0, psc\<lparr>fsc_state := FSC_WAIT_CONFIRM\<rparr>, tr))
      else if fsc_state psc = FSC_CONFIRMED then
        let filename = ''testout'' @ dec_int (wrap_int (fsc_time e)) @ ''.bin''
        in if \<not> fsc_fopen e filename then Some (Ret (- 1), psc\<lparr>fsc_outfp := None\<rparr>, [])
           else
             let psc1 = psc\<lparr>fsc_outfp := Some []\<rparr>;
                 tr = [Lws_write w (le_bytes FSS_FILE_START @ le_bytes 1 @ drop 8 (fsc_stack e)) LWS_WRITE_BINARY]
             in with_room pre 0
               (if to_size_t (orc tr) < int sizeof_hsk then (Ret (- 1), psc1, tr)
                else (Ret 0, psc1\<lparr>fsc_state := FSC_TRANSFER\<rparr>, tr))
      else Some (Ret 0, psc, []))"

definition fsc_receive ::
  "wsi \<Rightarrow> byte list \<Rightarrow> nat \<Rightarrow> per_session_file_client_info \<Rightarrow>
   (fsc_result \<times> per_session_file_client_info \<times> lws_trace) option" where
  "fsc_receive w mem len psc =
     (if fsc_state psc = FSC_WAIT_CONFIRM then do {
        t \<leftarrow> rd_type mem;
        if t = FSS_FILE_RESP_OK
        then Some (Ret 0, psc\<lparr>fsc_state := FSC_CONFIRMED\<rparr>, [Lws_callback_on_writable w])
        else Some (Ret (- 1), psc, []) }
      else if fsc_state psc = FSC_TRANSFER then do {
        let bytes = wrap_int (fsc_bytes psc + int len);
        out \<leftarrow> fsc_outfp psc;
        chunk \<leftarrow> (if len \<le> length mem then Some (take len mem) else None);
        let psc1 = psc\<lparr>fsc_bytes := bytes, fsc_outfp := Some (out @ chunk)\<rparr>;
        if bytes = 83762340 then Some (Exit 0, psc1, [])
        else Some (Ret 0, psc1, [Lws_callback_on_writable w]) }
      else Some (Ret 0, psc, [Lws_callback_on_writable w]))"

definition callback_file_client ::
  "nat \<Rightarrow> lws_oracle \<Rightarrow> fsc_env \<Rightarrow> wsi \<Rightarrow> lws_reason \<Rightarrow> byte list \<Rightarrow> nat \<Rightarrow> per_session_file_client_info \<Rightarrow>
   (fsc_result \<times> per_session_file_client_info \<times> lws_trace) option" where
  "callback_file_client pre orc e w reason mem len psc =
     (if reason = LWS_CALLBACK_CLIENT_ESTABLISHED
      then Some (Ret 0, psc\<lparr>fsc_state := FSC_CONNECTED\<rparr>, [Lws_callback_on_writable w])
      else if reason = LWS_CALLBACK_CLIENT_WRITEABLE then fsc_writeable pre orc e w psc
      else if reason = LWS_CALLBACK_CLIENT_RECEIVE then fsc_receive w mem len psc
      else Some (Ret 0, psc, []))"

subsection \<open>The server\<close>

text \<open>The stack buffer gives the bytes of the answer that are not initialised.\<close>

definition fss_writeable ::
  "nat \<Rightarrow> lws_oracle \<Rightarrow> byte list \<Rightarrow> wsi \<Rightarrow> per_session_file_info \<Rightarrow>
   (int \<times> per_session_file_info \<times> lws_trace) option" where
  "fss_writeable pre orc stack w pss =
     (if fss_state pss = FSS_HEADER_READY then
        let tr = [Lws_write w (take FSS_HSK_HDR_SIZE (le_bytes FSS_FILE_RESP_OK @ drop 4 stack)) LWS_WRITE_BINARY]
        in with_room pre LWS_PRE
          (if orc tr < int FSS_HSK_HDR_SIZE then (- 1, pss, tr)
           else (0, pss\<lparr>fss_state := FSS_WAIT_START\<rparr>, tr))
      else if fss_state pss = FSS_TRANSFER then do {
        rest \<leftarrow> fss_fp pss;
        let chunk = take 10000 rest;
        let pss1 = pss\<lparr>fss_fp := Some (drop 10000 rest)\<rparr>;
        let tr = [Lws_write w chunk LWS_WRITE_BINARY];
        with_room pre 0
          (if orc tr < int (length chunk) then (- 1, pss1, tr)
           else (0, if length chunk < 10000 then pss1\<lparr>fss_state := FSS_DONE\<rparr> else pss1,
                 tr @ [Lws_callback_on_writable w])) }
      else Some (0, pss, []))"

text \<open>What fopen of testfile.bin gives is the parameter file.\<close>

definition fss_receive ::
  "byte list option \<Rightarrow> byte list \<Rightarrow> per_session_file_info \<Rightarrow> (int \<times> per_session_file_info \<times> lws_trace) option" where
  "fss_receive file mem pss =
     (if fss_state pss = FSS_CONNECTED then do {
        t \<leftarrow> rd_type mem;
        if FSS_GET_MAGIC t \<noteq> FSS_MAGIC then Some (0, pss\<lparr>fss_state := FSS_ERROR\<rparr>, [])
        else do {
          fs \<leftarrow> rd_filesize mem;
          if fs > FSS_MAX_FILE_SIZE then Some (0, pss\<lparr>fss_state := FSS_ERROR\<rparr>, [])
          else do {
            fn \<leftarrow> c_strcpy FSS_MAX_FILENAME_LEN (drop (8 + FSS_FILE_CHECKSUM_LEN) mem);
            cs \<leftarrow> c_strcpy FSS_FILE_CHECKSUM_LEN (drop 8 mem);
            Some (0, pss\<lparr>fss_filename := fn, fss_checksum := cs, fss_filesize := fs,
                         fss_state := FSS_HEADER_READY\<rparr>, []) } } }
      else if fss_state pss = FSS_WAIT_START then
        (case file of
           Some bs \<Rightarrow> Some (0, pss\<lparr>fss_fp := Some bs, fss_state := FSS_TRANSFER\<rparr>, [])
         | None \<Rightarrow> Some (0, pss\<lparr>fss_fp := None, fss_state := FSS_ERROR\<rparr>, []))
      else do { t \<leftarrow> rd_type mem; Some (0, pss, []) })"

definition callback_file_server ::
  "nat \<Rightarrow> lws_oracle \<Rightarrow> byte list \<Rightarrow> byte list option \<Rightarrow> wsi \<Rightarrow> lws_reason \<Rightarrow> byte list \<Rightarrow> per_session_file_info \<Rightarrow>
   (int \<times> per_session_file_info \<times> lws_trace) option" where
  "callback_file_server pre orc stack file w reason mem pss =
     (if reason = LWS_CALLBACK_ESTABLISHED then Some (0, pss\<lparr>fss_state := FSS_CONNECTED\<rparr>, [])
      else if reason = LWS_CALLBACK_SERVER_WRITEABLE then fss_writeable pre orc stack w pss
      else if reason = LWS_CALLBACK_RECEIVE then fss_receive file mem pss
      else Some (0, pss, []))"

subsection \<open>Headers\<close>

lemma hsk_length: "hsk_wf h \<Longrightarrow> length (hsk_bytes h) = sizeof_hsk"
  by (simp add: hsk_wf_def hsk_bytes_def sizeof_hsk_def)

lemma sizeof_hsk_296 [simp]: "sizeof_hsk = 296"
  by (simp add: sizeof_hsk_def FSS_FILE_CHECKSUM_LEN_def FSS_MAX_FILENAME_LEN_def)

lemma rd_type_bytes: "rd_type (le_bytes t @ rest) = Some t"
  by (simp add: rd_type_def)

lemma rd_filesize_bytes: "rd_filesize (le_bytes t @ le_bytes n @ rest) = Some (sint n)"
  by (simp add: rd_filesize_def)

lemma hsk_drop:
  assumes "hsk_wf h"
  shows "drop 8 (hsk_bytes h @ rest) = hsk_checksum h @ hsk_filename h @ rest"
    and "drop (8 + FSS_FILE_CHECKSUM_LEN) (hsk_bytes h @ rest) = hsk_filename h @ rest"
  using assms by (simp_all add: hsk_bytes_def hsk_wf_def)

text \<open>A header whose two strings are terminated inside their fields.\<close>

definition hsk_terminated :: "fss_header_hsk \<Rightarrow> bool" where
  "hsk_terminated h \<longleftrightarrow> hsk_wf h \<and> 0 \<in> set (hsk_checksum h) \<and> 0 \<in> set (hsk_filename h)"

definition field_str :: "byte list \<Rightarrow> byte list" where
  "field_str bs = takeWhile (\<lambda>b. b \<noteq> 0) bs"

lemma c_strcpy_field:
  assumes "0 \<in> set bs" "length bs = n"
  shows "c_strcpy n (bs @ rest) = Some (field_str bs)"
proof -
  have d: "dropWhile (\<lambda>b. b \<noteq> 0) bs \<noteq> []" using assms(1) by (auto simp: dropWhile_eq_Nil_conv)
  then obtain y ys where y: "dropWhile (\<lambda>b. b \<noteq> 0) bs = y # ys" by (cases "dropWhile (\<lambda>b. b \<noteq> 0) bs") auto
  then have "y = 0" using hd_dropWhile [OF d] by simp
  with y have bs: "bs = field_str bs @ 0 # ys"
    unfolding field_str_def by (metis takeWhile_dropWhile_id)
  have nz: "0 \<notin> set (field_str bs)" unfolding field_str_def by (auto dest: set_takeWhileD)
  have "c_str (bs @ rest) = Some (field_str bs)"
    by (subst bs) (simp add: c_str_terminated [OF nz])
  moreover have "length (field_str bs) < n" using arg_cong [OF bs, of length] assms(2) by simp
  ultimately show ?thesis by (simp add: c_strcpy_def)
qed

lemma fss_receive_header:
  assumes h: "hsk_terminated h" and st: "fss_state pss = FSS_CONNECTED"
  shows "fss_receive file (hsk_bytes h @ rest) pss =
    (if FSS_GET_MAGIC (hsk_type h) = FSS_MAGIC \<and> sint (hsk_filesize h) \<le> FSS_MAX_FILE_SIZE
     then Some (0, pss\<lparr>fss_filename := field_str (hsk_filename h), fss_checksum := field_str (hsk_checksum h),
                       fss_filesize := sint (hsk_filesize h), fss_state := FSS_HEADER_READY\<rparr>, [])
     else Some (0, pss\<lparr>fss_state := FSS_ERROR\<rparr>, []))"
proof -
  have wf: "hsk_wf h" using h by (simp add: hsk_terminated_def)
  have "rd_type (hsk_bytes h @ rest) = Some (hsk_type h)"
    "rd_filesize (hsk_bytes h @ rest) = Some (sint (hsk_filesize h))"
    by (simp_all add: hsk_bytes_def rd_type_bytes rd_filesize_bytes)
  moreover have "c_strcpy FSS_MAX_FILENAME_LEN (hsk_filename h @ rest) = Some (field_str (hsk_filename h))"
    "c_strcpy FSS_FILE_CHECKSUM_LEN (hsk_checksum h @ hsk_filename h @ rest) = Some (field_str (hsk_checksum h))"
    using h by (simp_all add: c_strcpy_field hsk_terminated_def hsk_wf_def)
  ultimately show ?thesis
    using st hsk_drop [OF wf] by (auto simp: fss_receive_def)
qed

subsection \<open>Client, server and the connection between them\<close>

text \<open>
  Frames in flight are lists of bytes.  The library may hand the client a frame in pieces
  (cut by the receive buffer or by the network); the answer to the request arrives whole.
  Writes succeed in this system; what a failed write does is a property of its own below.
\<close>

record file_sys =
  sys_srv :: per_session_file_info
  sys_cli :: per_session_file_client_info
  sys_c2s :: "byte list list"
  sys_s2c :: "byte list list"
  sys_exited :: bool

definition file_start :: file_sys where
  "file_start = \<lparr>
     sys_srv = \<lparr>fss_state = FSS_CONNECTED, fss_filename = [], fss_filesize = 0, fss_checksum = [], fss_fp = None\<rparr>,
     sys_cli = \<lparr>fsc_state = FSC_CONNECTED, fsc_filename = [], fsc_filesize = 0, fsc_bytes = 0, fsc_checksum = [],
                fsc_outfp = None\<rparr>,
     sys_c2s = [], sys_s2c = [], sys_exited = False\<rparr>"

definition good_writes :: lws_oracle where
  "good_writes tr = 10240"

definition env_ok :: "fsc_env \<Rightarrow> bool" where
  "env_ok e \<longleftrightarrow> length (fsc_stack e) = sizeof_hsk"

inductive file_step :: "nat \<Rightarrow> byte list \<Rightarrow> file_sys \<Rightarrow> file_sys \<Rightarrow> bool" for pre disk where
  client_writeable: "\<not> sys_exited S \<Longrightarrow> env_ok e \<Longrightarrow>
     callback_file_client pre good_writes e w LWS_CALLBACK_CLIENT_WRITEABLE [] 0 (sys_cli S) = Some (Ret 0, c, tr) \<Longrightarrow>
     file_step pre disk S (S\<lparr>sys_cli := c, sys_c2s := sys_c2s S @ written tr\<rparr>)"
| server_writeable: "length stack = 10240 \<Longrightarrow>
     callback_file_server pre good_writes stack (Some disk) w LWS_CALLBACK_SERVER_WRITEABLE [] (sys_srv S) = Some (0, s, tr) \<Longrightarrow>
     file_step pre disk S (S\<lparr>sys_srv := s, sys_s2c := sys_s2c S @ written tr\<rparr>)"
| server_receive: "sys_c2s S = f # fs \<Longrightarrow>
     callback_file_server pre good_writes stack (Some disk) w LWS_CALLBACK_RECEIVE (f @ rest) (sys_srv S) = Some (0, s, tr) \<Longrightarrow>
     file_step pre disk S (S\<lparr>sys_srv := s, sys_c2s := fs @ written tr\<rparr>)"
| client_receive: "\<not> sys_exited S \<Longrightarrow> sys_s2c S = (a @ b) # fs \<Longrightarrow>
     fsc_state (sys_cli S) = FSC_WAIT_CONFIRM \<longrightarrow> b = [] \<Longrightarrow>
     callback_file_client pre good_writes e w LWS_CALLBACK_CLIENT_RECEIVE (a @ rest) (length a) (sys_cli S) = Some (Ret 0, c, tr) \<Longrightarrow>
     file_step pre disk S (S\<lparr>sys_cli := c, sys_s2c := (if b = [] then fs else b # fs)\<rparr>)"
| client_exit: "\<not> sys_exited S \<Longrightarrow> sys_s2c S = (a @ b) # fs \<Longrightarrow>
     callback_file_client pre good_writes e w LWS_CALLBACK_CLIENT_RECEIVE (a @ rest) (length a) (sys_cli S) = Some (Exit 0, c, tr) \<Longrightarrow>
     file_step pre disk S (S\<lparr>sys_cli := c, sys_exited := True\<rparr>)"

inductive file_reachable :: "nat \<Rightarrow> byte list \<Rightarrow> file_sys \<Rightarrow> bool" for pre disk where
  start: "file_reachable pre disk file_start"
| step: "file_reachable pre disk S \<Longrightarrow> file_step pre disk S T \<Longrightarrow> file_reachable pre disk T"

text \<open>The stages a run goes through.\<close>

definition is_request :: "byte list \<Rightarrow> bool" where
  "is_request f \<longleftrightarrow> f = hsk_bytes \<lparr>hsk_type = FSS_FILE_REQ, hsk_filesize = 1,
     hsk_checksum = replicate FSS_FILE_CHECKSUM_LEN 0, hsk_filename = replicate FSS_MAX_FILENAME_LEN 0\<rparr>"

definition is_answer :: "byte list \<Rightarrow> bool" where
  "is_answer f \<longleftrightarrow> (\<exists>junk. length junk = 4 \<and> f = le_bytes FSS_FILE_RESP_OK @ junk)"

datatype file_stage = Asking | Asked | Granting | Granted | Confirmed | Starting | Sending | Sent | Gone

fun at_stage :: "byte list \<Rightarrow> file_sys \<Rightarrow> file_stage \<Rightarrow> bool" where
  "at_stage disk S Asking \<longleftrightarrow> fsc_state (sys_cli S) = FSC_CONNECTED \<and> fsc_bytes (sys_cli S) = 0 \<and>
     fss_state (sys_srv S) = FSS_CONNECTED \<and> sys_c2s S = [] \<and> sys_s2c S = [] \<and> \<not> sys_exited S"
| "at_stage disk S Asked \<longleftrightarrow> fsc_state (sys_cli S) = FSC_WAIT_CONFIRM \<and> fsc_bytes (sys_cli S) = 0 \<and>
     fss_state (sys_srv S) = FSS_CONNECTED \<and> (\<exists>f. is_request f \<and> sys_c2s S = [f]) \<and> sys_s2c S = [] \<and> \<not> sys_exited S"
| "at_stage disk S Granting \<longleftrightarrow> fsc_state (sys_cli S) = FSC_WAIT_CONFIRM \<and> fsc_bytes (sys_cli S) = 0 \<and>
     fss_state (sys_srv S) = FSS_HEADER_READY \<and> sys_c2s S = [] \<and> sys_s2c S = [] \<and> \<not> sys_exited S"
| "at_stage disk S Granted \<longleftrightarrow> fsc_state (sys_cli S) = FSC_WAIT_CONFIRM \<and> fsc_bytes (sys_cli S) = 0 \<and>
     fss_state (sys_srv S) = FSS_WAIT_START \<and> sys_c2s S = [] \<and> (\<exists>f. is_answer f \<and> sys_s2c S = [f]) \<and> \<not> sys_exited S"
| "at_stage disk S Confirmed \<longleftrightarrow> fsc_state (sys_cli S) = FSC_CONFIRMED \<and> fsc_bytes (sys_cli S) = 0 \<and>
     fss_state (sys_srv S) = FSS_WAIT_START \<and> sys_c2s S = [] \<and> sys_s2c S = [] \<and> \<not> sys_exited S"
| "at_stage disk S Starting \<longleftrightarrow> fsc_state (sys_cli S) = FSC_TRANSFER \<and> fsc_bytes (sys_cli S) = 0 \<and>
     fsc_outfp (sys_cli S) = Some [] \<and> fss_state (sys_srv S) = FSS_WAIT_START \<and>
     (\<exists>f. sys_c2s S = [f]) \<and> sys_s2c S = [] \<and> \<not> sys_exited S"
| "at_stage disk S Sending \<longleftrightarrow> fsc_state (sys_cli S) = FSC_TRANSFER \<and> sys_c2s S = [] \<and> \<not> sys_exited S \<and>
     fss_state (sys_srv S) = FSS_TRANSFER \<and>
     (\<exists>out rest. fsc_outfp (sys_cli S) = Some out \<and> fss_fp (sys_srv S) = Some rest \<and>
        fsc_bytes (sys_cli S) = wrap_int (int (length out)) \<and> out @ concat (sys_s2c S) @ rest = disk)"
| "at_stage disk S Sent \<longleftrightarrow> fsc_state (sys_cli S) = FSC_TRANSFER \<and> sys_c2s S = [] \<and> \<not> sys_exited S \<and>
     fss_state (sys_srv S) = FSS_DONE \<and>
     (\<exists>out. fsc_outfp (sys_cli S) = Some out \<and>
        fsc_bytes (sys_cli S) = wrap_int (int (length out)) \<and> out @ concat (sys_s2c S) = disk)"
| "at_stage disk S Gone \<longleftrightarrow> sys_exited S \<and> sys_c2s S = [] \<and>
     fss_state (sys_srv S) \<in> {FSS_TRANSFER, FSS_DONE} \<and> (fss_state (sys_srv S) = FSS_TRANSFER \<longrightarrow> fss_fp (sys_srv S) \<noteq> None) \<and>
     (\<exists>out more. fsc_outfp (sys_cli S) = Some out \<and> out @ more = disk \<and> wrap_int (int (length out)) = 83762340)"

lemma file_start_stage: "at_stage disk file_start Asking"
  by (simp add: file_start_def)

lemma good_writes_size [simp]: "to_size_t 10240 = 10240" "good_writes tr = 10240"
  by (simp_all add: good_writes_def to_size_t_def)

lemma request_fits: "hsk_terminated \<lparr>hsk_type = t, hsk_filesize = n,
    hsk_checksum = replicate FSS_FILE_CHECKSUM_LEN 0, hsk_filename = replicate FSS_MAX_FILENAME_LEN 0\<rparr>"
  by (simp add: hsk_terminated_def hsk_wf_def FSS_FILE_CHECKSUM_LEN_def FSS_MAX_FILENAME_LEN_def)

lemma magic_request [simp]: "FSS_GET_MAGIC FSS_FILE_REQ = FSS_MAGIC"
  by (simp add: FSS_GET_MAGIC_def FSS_FILE_REQ_def FSS_MAGIC_def)

lemma step_client_writeable:
  assumes at: "at_stage disk S st" and ex: "\<not> sys_exited S"
    and run: "callback_file_client 0 good_writes e w LWS_CALLBACK_CLIENT_WRITEABLE [] 0 (sys_cli S) = Some (Ret 0, c, tr)"
  shows "\<exists>st'. at_stage disk (S\<lparr>sys_cli := c, sys_c2s := sys_c2s S @ written tr\<rparr>) st'"
proof -
  have c: "fsc_writeable 0 good_writes e w (sys_cli S) = Some (Ret 0, c, tr)"
    using run by (simp add: callback_file_client_def)
  consider "st = Asking" | "st = Confirmed" | "fsc_state (sys_cli S) \<noteq> FSC_CONNECTED" "fsc_state (sys_cli S) \<noteq> FSC_CONFIRMED"
    using at ex by (cases st) auto
  then show ?thesis
  proof cases
    case 1
    with at c show ?thesis
      by (intro exI [of _ Asked]) (auto simp: fsc_writeable_def is_request_def Let_def)
  next
    case 2
    with at c show ?thesis
      by (intro exI [of _ Starting]) (auto simp: fsc_writeable_def Let_def split: if_splits)
  next
    case 3
    with c have "c = sys_cli S" "tr = []" by (auto simp: fsc_writeable_def)
    with at show ?thesis by auto
  qed
qed

lemma step_server_writeable:
  assumes at: "at_stage disk S st" and len: "length stack = 10240"
    and run: "callback_file_server 0 good_writes stack (Some disk) w LWS_CALLBACK_SERVER_WRITEABLE [] (sys_srv S) = Some (0, s, tr)"
  shows "\<exists>st'. at_stage disk (S\<lparr>sys_srv := s, sys_s2c := sys_s2c S @ written tr\<rparr>) st'"
proof -
  have c: "fss_writeable 0 good_writes stack w (sys_srv S) = Some (0, s, tr)"
    using run by (simp add: callback_file_server_def)
  consider "st = Granting" | "st = Sending" | "st = Gone" "fss_state (sys_srv S) = FSS_TRANSFER"
    | "fss_state (sys_srv S) \<noteq> FSS_HEADER_READY" "fss_state (sys_srv S) \<noteq> FSS_TRANSFER"
    using at by (cases st) auto
  then show ?thesis
  proof cases
    case 1
    have "is_answer (take FSS_HSK_HDR_SIZE (le_bytes FSS_FILE_RESP_OK @ drop 4 stack))"
      using len by (auto simp: is_answer_def FSS_HSK_HDR_SIZE_def)
    with 1 at c show ?thesis
      by (intro exI [of _ Granted]) (auto simp: fss_writeable_def Let_def FSS_HSK_HDR_SIZE_def)
  next
    case 2
    then obtain out rest where st: "fsc_state (sys_cli S) = FSC_TRANSFER" "sys_c2s S = []" "\<not> sys_exited S"
        "fss_state (sys_srv S) = FSS_TRANSFER" "fsc_outfp (sys_cli S) = Some out" "fss_fp (sys_srv S) = Some rest"
        "fsc_bytes (sys_cli S) = wrap_int (int (length out))" and disk: "out @ concat (sys_s2c S) @ rest = disk"
      using at by auto
    have s: "s = (if length (take 10000 rest) < 10000
        then (sys_srv S)\<lparr>fss_fp := Some (drop 10000 rest), fss_state := FSS_DONE\<rparr>
        else (sys_srv S)\<lparr>fss_fp := Some (drop 10000 rest)\<rparr>)" "written tr = [take 10000 rest]"
      using c st by (auto simp: fss_writeable_def Let_def split: if_splits)
    show ?thesis
    proof (cases "length (take 10000 rest) < 10000")
      case True
      then have "take 10000 rest = rest" by simp
      with True s st disk show ?thesis by (intro exI [of _ Sent]) auto
    next
      case False
      have "take 10000 rest @ drop 10000 rest = rest" by simp
      with disk have "out @ concat (sys_s2c S @ [take 10000 rest]) @ drop 10000 rest = disk" by simp
      with False s st show ?thesis by (intro exI [of _ Sending]) simp
    qed
  next
    case 3
    with at obtain rest where "fss_fp (sys_srv S) = Some rest" by auto
    with 3 c have "fss_state s \<in> {FSS_TRANSFER, FSS_DONE}" "fss_fp s \<noteq> None"
      by (auto simp: fss_writeable_def Let_def split: if_splits)
    with 3 at show ?thesis by (intro exI [of _ Gone]) auto
  next
    case 4
    with c have "s = sys_srv S" "tr = []" by (auto simp: fss_writeable_def)
    with at show ?thesis by auto
  qed
qed

lemma step_server_receive:
  assumes at: "at_stage disk S st" and f: "sys_c2s S = f # fs"
    and run: "callback_file_server 0 good_writes stack (Some disk) w LWS_CALLBACK_RECEIVE (f @ rest) (sys_srv S) = Some (0, s, tr)"
  shows "\<exists>st'. at_stage disk (S\<lparr>sys_srv := s, sys_c2s := fs @ written tr\<rparr>) st'"
proof -
  have c: "fss_receive (Some disk) (f @ rest) (sys_srv S) = Some (0, s, tr)"
    using run by (simp add: callback_file_server_def)
  consider "st = Asked" | "st = Starting" using at f by (cases st) auto
  then show ?thesis
  proof cases
    case 1
    then have st: "fss_state (sys_srv S) = FSS_CONNECTED" "is_request f" "fs = []" using at f by auto
    with c fss_receive_header [OF request_fits st(1), of "Some disk" FSS_FILE_REQ 1 rest]
    have "fss_state s = FSS_HEADER_READY" "tr = []"
      by (auto simp: is_request_def FSS_MAX_FILE_SIZE_def)
    with 1 at st show ?thesis by (intro exI [of _ Granting]) auto
  next
    case 2
    with at f c have "fss_state s = FSS_TRANSFER" "fss_fp s = Some disk" "tr = []" "fs = []"
      by (auto simp: fss_receive_def)
    with 2 at show ?thesis by (intro exI [of _ Sending]) (auto simp: wrap_int_def)
  qed
qed

text \<open>A piece of the file arrives: it is appended to what the client has.\<close>

lemma client_chunk:
  assumes "fsc_state c = FSC_TRANSFER" "fsc_outfp c = Some out" "fsc_bytes c = wrap_int (int (length out))"
  shows "fsc_receive w (a @ rest) (length a) c =
    Some (if wrap_int (int (length (out @ a))) = 83762340
          then (Exit 0, c\<lparr>fsc_bytes := wrap_int (int (length (out @ a))), fsc_outfp := Some (out @ a)\<rparr>, [])
          else (Ret 0, c\<lparr>fsc_bytes := wrap_int (int (length (out @ a))), fsc_outfp := Some (out @ a)\<rparr>,
                [Lws_callback_on_writable w]))"
  using assms by (simp add: fsc_receive_def wrap_int_add Let_def)

lemma step_client_receive:
  assumes at: "at_stage disk S st" and ex: "\<not> sys_exited S" and f: "sys_s2c S = (a @ b) # fs"
    and whole: "fsc_state (sys_cli S) = FSC_WAIT_CONFIRM \<longrightarrow> b = []"
    and run: "callback_file_client 0 good_writes e w LWS_CALLBACK_CLIENT_RECEIVE (a @ rest) (length a) (sys_cli S) = Some (Ret 0, c, tr)"
  shows "\<exists>st'. at_stage disk (S\<lparr>sys_cli := c, sys_s2c := (if b = [] then fs else b # fs)\<rparr>) st'"
proof -
  have c: "fsc_receive w (a @ rest) (length a) (sys_cli S) = Some (Ret 0, c, tr)"
    using run by (simp add: callback_file_client_def)
  have fs: "concat (sys_s2c S) = a @ concat (if b = [] then fs else b # fs)" using f by simp
  consider "st = Granted" | "st = Sending" | "st = Sent" using at f ex by (cases st) auto
  then show ?thesis
  proof cases
    case 1
    then have "b = []" "fs = []" using at f whole by auto
    moreover from 1 at c have "c = (sys_cli S)\<lparr>fsc_state := FSC_CONFIRMED\<rparr>"
      by (auto simp: fsc_receive_def bind_Some_iff split: if_splits)
    ultimately show ?thesis using 1 at by (intro exI [of _ Confirmed]) auto
  next
    case 2
    then obtain out left where st: "fsc_state (sys_cli S) = FSC_TRANSFER" "sys_c2s S = []"
        "fss_state (sys_srv S) = FSS_TRANSFER" "fsc_outfp (sys_cli S) = Some out" "fss_fp (sys_srv S) = Some left"
        "fsc_bytes (sys_cli S) = wrap_int (int (length out))" and disk: "out @ concat (sys_s2c S) @ left = disk"
      using at by auto
    have "c = (sys_cli S)\<lparr>fsc_bytes := wrap_int (int (length (out @ a))), fsc_outfp := Some (out @ a)\<rparr>"
      using c client_chunk [OF st(1,4,6), of w a rest] by (auto split: if_splits)
    with st ex disk fs show ?thesis by (intro exI [of _ Sending]) (auto split: if_splits)
  next
    case 3
    then obtain out where st: "fsc_state (sys_cli S) = FSC_TRANSFER" "sys_c2s S = []"
        "fss_state (sys_srv S) = FSS_DONE" "fsc_outfp (sys_cli S) = Some out"
        "fsc_bytes (sys_cli S) = wrap_int (int (length out))" and disk: "out @ concat (sys_s2c S) = disk"
      using at by auto
    have "c = (sys_cli S)\<lparr>fsc_bytes := wrap_int (int (length (out @ a))), fsc_outfp := Some (out @ a)\<rparr>"
      using c client_chunk [OF st(1,4,5), of w a rest] by (auto split: if_splits)
    with st ex disk fs show ?thesis by (intro exI [of _ Sent]) (auto split: if_splits)
  qed
qed

lemma step_client_exit:
  assumes at: "at_stage disk S st" and ex: "\<not> sys_exited S" and f: "sys_s2c S = (a @ b) # fs"
    and run: "callback_file_client 0 good_writes e w LWS_CALLBACK_CLIENT_RECEIVE (a @ rest) (length a) (sys_cli S) = Some (Exit 0, c, tr)"
  shows "at_stage disk (S\<lparr>sys_cli := c, sys_exited := True\<rparr>) Gone"
proof -
  have c: "fsc_receive w (a @ rest) (length a) (sys_cli S) = Some (Exit 0, c, tr)"
    using run by (simp add: callback_file_client_def)
  consider "st = Granted" | "st = Sending" | "st = Sent" using at f ex by (cases st) auto
  then show ?thesis
  proof cases
    case 1
    with at c show ?thesis by (auto simp: fsc_receive_def bind_Some_iff split: if_splits)
  next
    case 2
    then obtain out left where st: "fsc_state (sys_cli S) = FSC_TRANSFER" "sys_c2s S = []"
        "fss_state (sys_srv S) = FSS_TRANSFER" "fsc_outfp (sys_cli S) = Some out" "fss_fp (sys_srv S) = Some left"
        "fsc_bytes (sys_cli S) = wrap_int (int (length out))" and disk: "out @ concat (sys_s2c S) @ left = disk"
      using at by auto
    have "wrap_int (int (length (out @ a))) = 83762340 \<and> fsc_outfp c = Some (out @ a)"
      using c client_chunk [OF st(1,4,6), of w a rest] by (auto split: if_splits)
    with st f disk show ?thesis by (auto intro!: exI [of _ "b @ concat fs @ left"])
  next
    case 3
    then obtain out where st: "fsc_state (sys_cli S) = FSC_TRANSFER" "sys_c2s S = []"
        "fss_state (sys_srv S) = FSS_DONE" "fsc_outfp (sys_cli S) = Some out"
        "fsc_bytes (sys_cli S) = wrap_int (int (length out))" and disk: "out @ concat (sys_s2c S) = disk"
      using at by auto
    have "wrap_int (int (length (out @ a))) = 83762340 \<and> fsc_outfp c = Some (out @ a)"
      using c client_chunk [OF st(1,4,5), of w a rest] by (auto split: if_splits)
    with st f disk show ?thesis by (auto intro!: exI [of _ "b @ concat fs"])
  qed
qed

lemma file_reachable_stage: "file_reachable 0 disk S \<Longrightarrow> \<exists>st. at_stage disk S st"
proof (induction rule: file_reachable.induct)
  case start
  then show ?case using file_start_stage by blast
next
  case (step S T)
  then obtain st where at: "at_stage disk S st" by blast
  from step.hyps(2) show ?case
  proof (cases rule: file_step.cases)
    case (client_writeable e w c tr)
    then show ?thesis using step_client_writeable [OF at] by blast
  next
    case (server_writeable stack w s tr)
    then show ?thesis using step_server_writeable [OF at] by blast
  next
    case (server_receive f fs stack w rest s tr)
    then show ?thesis using step_server_receive [OF at] by blast
  next
    case (client_receive a b fs e w rest c tr)
    from step_client_receive [OF at client_receive(2-5)] client_receive(1) show ?thesis by blast
  next
    case (client_exit a b fs e w rest c tr)
    from step_client_exit [OF at client_exit(2-4)] client_exit(1) show ?thesis by blast
  qed
qed

subsection \<open>Reaching the end\<close>

text \<open>An environment in which every stage is left: a run that completes.\<close>

definition fsc_env0 :: fsc_env where
  "fsc_env0 = \<lparr>fsc_time = 0, fsc_fopen = (\<lambda>_. True), fsc_stack = replicate sizeof_hsk 0\<rparr>"

lemma fsc_env0_ok: "env_ok fsc_env0"
  by (simp add: env_ok_def fsc_env0_def)

lemma stage_client_writeable:
  assumes "file_reachable 0 disk S" "\<not> sys_exited S" "fsc_writeable 0 good_writes fsc_env0 2 (sys_cli S) = Some (Ret 0, c, tr)"
  shows "file_reachable 0 disk (S\<lparr>sys_cli := c, sys_c2s := sys_c2s S @ written tr\<rparr>)"
  by (rule file_reachable.step [OF assms(1)], rule file_step.client_writeable [OF assms(2) fsc_env0_ok, where w = 2])
    (simp add: callback_file_client_def assms(3))

lemma stage_server_writeable:
  assumes "file_reachable 0 disk S" "fss_writeable 0 good_writes (replicate 10240 0) 2 (sys_srv S) = Some (0, s, tr)"
  shows "file_reachable 0 disk (S\<lparr>sys_srv := s, sys_s2c := sys_s2c S @ written tr\<rparr>)"
  by (rule file_reachable.step [OF assms(1)], rule file_step.server_writeable [where stack = "replicate 10240 0" and w = 2])
    (simp_all add: callback_file_server_def assms(2))

lemma stage_server_receive:
  assumes "file_reachable 0 disk S" "sys_c2s S = f # fs" "fss_receive (Some disk) f (sys_srv S) = Some (0, s, [])"
  shows "file_reachable 0 disk (S\<lparr>sys_srv := s, sys_c2s := fs\<rparr>)"
proof -
  have "callback_file_server 0 good_writes [] (Some disk) 2 LWS_CALLBACK_RECEIVE (f @ []) (sys_srv S) = Some (0, s, [])"
    using assms(3) by (simp add: callback_file_server_def)
  from file_reachable.step [OF assms(1) file_step.server_receive [OF assms(2) this]] show ?thesis by simp
qed

lemma stage_client_receive:
  assumes "file_reachable 0 disk S" "\<not> sys_exited S" "sys_s2c S = f # fs"
    and "fsc_receive 2 f (length f) (sys_cli S) = Some (Ret 0, c, tr)"
  shows "file_reachable 0 disk (S\<lparr>sys_cli := c, sys_s2c := fs\<rparr>)"
proof -
  have "callback_file_client 0 good_writes fsc_env0 2 LWS_CALLBACK_CLIENT_RECEIVE (f @ []) (length f) (sys_cli S) =
      Some (Ret 0, c, tr)"
    using assms(4) by (simp add: callback_file_client_def)
  from file_reachable.step [OF assms(1) file_step.client_receive [OF assms(2) _ _ this, of "[]" fs]] assms(3)
  show ?thesis by simp
qed

lemma file_reach_sending:
  "\<exists>S. file_reachable 0 disk S \<and> at_stage disk S Sending \<and> sys_s2c S = [] \<and> fsc_outfp (sys_cli S) = Some []"
proof -
  obtain S1 where 1: "file_reachable 0 disk S1" "at_stage disk S1 Asked"
    using stage_client_writeable [OF file_reachable.start [of 0 disk]]
    by (fastforce simp: file_start_def fsc_writeable_def is_request_def Let_def)
  then obtain f where f: "sys_c2s S1 = [f]" "is_request f" "fss_state (sys_srv S1) = FSS_CONNECTED" by auto
  have "\<exists>s. fss_receive (Some disk) f (sys_srv S1) = Some (0, s, []) \<and> fss_state s = FSS_HEADER_READY"
    using fss_receive_header [OF request_fits f(3), of "Some disk" FSS_FILE_REQ 1 "[]"] f(2)
    by (simp add: is_request_def FSS_MAX_FILE_SIZE_def)
  with stage_server_receive [OF 1(1) f(1)] 1(2) obtain S2 where 2: "file_reachable 0 disk S2" "at_stage disk S2 Granting"
    by fastforce
  have "is_answer (take FSS_HSK_HDR_SIZE (le_bytes FSS_FILE_RESP_OK @ drop 4 (replicate 10240 0)))"
    by (auto simp: is_answer_def FSS_HSK_HDR_SIZE_def)
  with stage_server_writeable [OF 2(1)] 2(2) obtain S3 where 3: "file_reachable 0 disk S3" "at_stage disk S3 Granted"
    by (fastforce simp: fss_writeable_def Let_def FSS_HSK_HDR_SIZE_def)
  then obtain g where g: "sys_s2c S3 = [g]" "is_answer g" "\<not> sys_exited S3" by auto
  then have "fsc_receive 2 g (length g) (sys_cli S3) =
      Some (Ret 0, (sys_cli S3)\<lparr>fsc_state := FSC_CONFIRMED\<rparr>, [Lws_callback_on_writable 2])"
    using 3(2) by (auto simp: fsc_receive_def is_answer_def rd_type_bytes)
  from stage_client_receive [OF 3(1) g(3,1) this] 3(2) obtain S4 where
    4: "file_reachable 0 disk S4" "at_stage disk S4 Confirmed" by fastforce
  with stage_client_writeable [OF 4(1)] obtain S5 where 5: "file_reachable 0 disk S5" "at_stage disk S5 Starting"
    by (fastforce simp: fsc_writeable_def fsc_env0_def Let_def)
  then obtain k where k: "sys_c2s S5 = [k]" by auto
  have "fss_receive (Some disk) k (sys_srv S5) =
      Some (0, (sys_srv S5)\<lparr>fss_fp := Some disk, fss_state := FSS_TRANSFER\<rparr>, [])"
    using 5(2) by (simp add: fss_receive_def)
  from stage_server_receive [OF 5(1) k this] 5(2) show ?thesis
    by (intro exI [of _ "S5\<lparr>sys_srv := (sys_srv S5)\<lparr>fss_fp := Some disk, fss_state := FSS_TRANSFER\<rparr>, sys_c2s := []\<rparr>"])
      (auto simp: wrap_int_def)
qed

lemma file_reach_sent:
  assumes "length disk < 83762340"
  shows "file_reachable 0 disk S \<Longrightarrow> at_stage disk S Sending \<Longrightarrow> sys_s2c S = [] \<Longrightarrow>
    \<exists>T. file_reachable 0 disk T \<and> at_stage disk T Sent \<and> sys_s2c T = []"
proof (induction "length (the (fss_fp (sys_srv S)))" arbitrary: S rule: less_induct)
  case less
  then obtain out rest where st: "fsc_state (sys_cli S) = FSC_TRANSFER" "sys_c2s S = []" "\<not> sys_exited S"
      "fss_state (sys_srv S) = FSS_TRANSFER" "fsc_outfp (sys_cli S) = Some out" "fss_fp (sys_srv S) = Some rest"
      "fsc_bytes (sys_cli S) = wrap_int (int (length out))" and disk: "out @ rest = disk"
    by auto
  define s where "s = (if length (take 10000 rest) < 10000
      then (sys_srv S)\<lparr>fss_fp := Some (drop 10000 rest), fss_state := FSS_DONE\<rparr>
      else (sys_srv S)\<lparr>fss_fp := Some (drop 10000 rest)\<rparr>)"
  define S1 where "S1 = S\<lparr>sys_srv := s, sys_s2c := [take 10000 rest]\<rparr>"
  have "fss_writeable 0 good_writes (replicate 10240 0) 2 (sys_srv S) =
      Some (0, s, [Lws_write 2 (take 10000 rest) LWS_WRITE_BINARY, Lws_callback_on_writable 2])"
    using st by (simp add: fss_writeable_def s_def Let_def)
  from stage_server_writeable [OF less.prems(1) this] less.prems(3) have 1: "file_reachable 0 disk S1"
    by (simp add: S1_def)
  have cli: "fsc_state (sys_cli S1) = FSC_TRANSFER" "fsc_outfp (sys_cli S1) = Some out"
    "fsc_bytes (sys_cli S1) = wrap_int (int (length out))" "\<not> sys_exited S1" "sys_s2c S1 = take 10000 rest # []"
    using st by (simp_all add: S1_def)
  define c where "c = (sys_cli S1)\<lparr>fsc_bytes := wrap_int (int (length (out @ take 10000 rest))),
    fsc_outfp := Some (out @ take 10000 rest)\<rparr>"
  have short: "length (out @ take 10000 rest) < 83762340" using disk assms by auto
  then have "wrap_int (int (length (out @ take 10000 rest))) = int (length (out @ take 10000 rest))"
    by (intro wrap_int_id) (simp add: is_int_def INT_MAX_def INT_MIN_def)
  with short have "wrap_int (int (length (out @ take 10000 rest))) \<noteq> 83762340" by linarith
  then have "fsc_receive 2 (take 10000 rest) (length (take 10000 rest)) (sys_cli S1) =
      Some (Ret 0, c, [Lws_callback_on_writable 2])"
    using client_chunk [OF cli(1-3), of 2 "take 10000 rest" "[]"] by (simp add: c_def)
  from stage_client_receive [OF 1 cli(4,5) this] have 2: "file_reachable 0 disk (S1\<lparr>sys_cli := c, sys_s2c := []\<rparr>)" .
  show ?case
  proof (cases "length rest < 10000")
    case True
    with 2 st disk show ?thesis
      by (intro exI [of _ "S1\<lparr>sys_cli := c, sys_s2c := []\<rparr>"]) (simp add: S1_def c_def s_def)
  next
    case False
    let ?S = "S1\<lparr>sys_cli := c, sys_s2c := []\<rparr>"
    have "length (the (fss_fp (sys_srv ?S))) < length (the (fss_fp (sys_srv S)))"
      using False st by (simp add: S1_def s_def)
    moreover have "at_stage disk ?S Sending"
      using False st disk by (simp add: S1_def s_def c_def)
    ultimately show ?thesis using less.hyps [OF _ 2] by simp
  qed
qed

subsection \<open>Properties\<close>

text \<open>What goes on when lws-write needs room: the client's request, and the chunks of the server, are sent from the
  very beginning of their arrays.\<close>

lemma no_room_client:
  assumes "0 < pre" "fsc_state psc = FSC_CONNECTED \<or> fsc_state psc = FSC_CONFIRMED \<and> (\<forall>n. fsc_fopen e n)"
  shows "callback_file_client pre orc e w LWS_CALLBACK_CLIENT_WRITEABLE mem len psc = None"
  using assms by (auto simp: callback_file_client_def fsc_writeable_def Let_def)

lemma no_room_server:
  assumes "0 < pre" "fss_state pss = FSS_TRANSFER"
  shows "callback_file_server pre orc stack file w LWS_CALLBACK_SERVER_WRITEABLE mem pss = None"
  using assms by (cases "fss_fp pss") (simp_all add: callback_file_server_def fss_writeable_def Let_def)

lemma no_room_reachable:
  assumes "file_reachable pre disk S" "0 < pre"
  shows "S = file_start"
  using assms(1)
proof (induction rule: file_reachable.induct)
  case (step S T)
  from step.hyps(2) show ?case
  proof (cases rule: file_step.cases)
    case (client_writeable e w c tr)
    have "fsc_state (sys_cli S) = FSC_CONNECTED" by (simp add: step.IH file_start_def)
    then show ?thesis using client_writeable no_room_client [OF assms(2)] by simp
  next
    case (server_writeable stack w s tr)
    then show ?thesis using step.IH by (auto simp: callback_file_server_def fss_writeable_def file_start_def)
  qed (use step.IH in \<open>simp_all add: file_start_def\<close>)
qed simp

lemma file_kept:
  assumes "file_reachable 0 disk S" and "fsc_outfp (sys_cli S) = Some out" and "fsc_state (sys_cli S) = FSC_TRANSFER \<or> sys_exited S"
  shows "(\<exists>more. out @ more = disk) \<and>
    (fss_state (sys_srv S) = FSS_DONE \<and> concat (sys_s2c S) = [] \<and> \<not> sys_exited S \<longrightarrow> out = disk) \<and>
    (sys_exited S \<longrightarrow> int (length out) mod 2 ^ 32 = 83762340)"
proof -
  from file_reachable_stage [OF assms(1)] obtain st where "at_stage disk S st" by blast
  moreover have "int (length out) mod 2 ^ 32 = 83762340" if "wrap_int (int (length out)) = 83762340"
  proof -
    have "(int (length out) + 2147483648) mod 4294967296 = 83762340 + 2147483648"
      using that by (simp add: wrap_int_def)
    then have "(int (length out) + 2147483648 - 2147483648) mod 4294967296 =
        (83762340 + 2147483648 - 2147483648) mod 4294967296"
      by (metis mod_diff_left_eq)
    then show ?thesis by simp
  qed
  ultimately show ?thesis using assms(2,3) by (cases st) auto
qed

lemma file_not_exited:
  assumes "file_reachable pre disk S" and "length disk < 83762340"
  shows "\<not> sys_exited S"
proof
  assume ex: "sys_exited S"
  then have "pre = 0" using no_room_reachable [OF assms(1)] by (cases pre) (auto simp: file_start_def)
  with file_reachable_stage assms(1) obtain st where "at_stage disk S st" by blast
  with ex obtain out more where o: "out @ more = disk" "wrap_int (int (length out)) = 83762340"
    by (cases st) auto
  then have "length out < 83762340" using assms(2) by auto
  then have "wrap_int (int (length out)) = int (length out)"
    by (intro wrap_int_id) (simp add: is_int_def INT_MAX_def INT_MIN_def)
  with o \<open>length out < 83762340\<close> show False by simp
qed

lemma file_reach_all:
  assumes "length disk < 83762340"
  shows "\<exists>S. file_reachable 0 disk S \<and> fss_state (sys_srv S) = FSS_DONE \<and> sys_s2c S = [] \<and>
    fsc_state (sys_cli S) = FSC_TRANSFER \<and> fsc_outfp (sys_cli S) = Some disk"
proof -
  from file_reach_sending obtain S where "file_reachable 0 disk S" "at_stage disk S Sending" "sys_s2c S = []" by blast
  from file_reach_sent [OF assms this] show ?thesis by auto
qed

text \<open>
  C8: What becomes of a transfer, whatever the file, the chunking of the frames and the interleaving
  of the callbacks.  When lws-write uses any byte before the payload, as its documentation allows for the
  LWS-PRE it asks for, the system never leaves its first state: the client's first writeable callback is
  undefined, as is sending any chunk of the file.  When it uses none, what the client has
  written to its file is at every moment a prefix of the server's testfile.bin, it is the whole file once the
  server is done and everything in flight has arrived, and the client ends the process only at a
  moment when the bytes it has are 83762340, counted modulo 2^32.
\<close>

theorem file_transfer_correct:
  assumes "file_reachable pre disk S"
  shows "(0 < pre \<longrightarrow> S = file_start \<and>
      callback_file_client pre orc e w LWS_CALLBACK_CLIENT_WRITEABLE mem len (sys_cli S) = None \<and>
      (\<forall>pss. fss_state pss = FSS_TRANSFER \<longrightarrow>
         callback_file_server pre orc stack file w LWS_CALLBACK_SERVER_WRITEABLE mem pss = None)) \<and>
    (pre = 0 \<longrightarrow> (\<forall>out. fsc_outfp (sys_cli S) = Some out \<and> (fsc_state (sys_cli S) = FSC_TRANSFER \<or> sys_exited S) \<longrightarrow>
      (\<exists>more. out @ more = disk) \<and>
      (fss_state (sys_srv S) = FSS_DONE \<and> concat (sys_s2c S) = [] \<and> \<not> sys_exited S \<longrightarrow> out = disk) \<and>
      (sys_exited S \<longrightarrow> int (length out) mod 2 ^ 32 = 83762340)))"
proof (intro conjI impI allI)
  assume pre: "0 < pre"
  show S: "S = file_start" by (rule no_room_reachable [OF assms pre])
  have "fsc_state (sys_cli S) = FSC_CONNECTED" by (simp add: S file_start_def)
  then show "callback_file_client pre orc e w LWS_CALLBACK_CLIENT_WRITEABLE mem len (sys_cli S) = None"
    using no_room_client [OF pre] by blast
  show "callback_file_server pre orc stack file w LWS_CALLBACK_SERVER_WRITEABLE mem pss = None"
    if "fss_state pss = FSS_TRANSFER" for pss by (rule no_room_server [OF pre that])
next
  fix out
  assume "pre = 0" and out: "fsc_outfp (sys_cli S) = Some out \<and> (fsc_state (sys_cli S) = FSC_TRANSFER \<or> sys_exited S)"
  then have "file_reachable 0 disk S" using assms by simp
  note P = file_kept [OF this conjunct1 [OF out] conjunct2 [OF out]]
  show "\<exists>more. out @ more = disk" using P by blast
  show "out = disk" if "fss_state (sys_srv S) = FSS_DONE \<and> concat (sys_s2c S) = [] \<and> \<not> sys_exited S" using P that by blast
  show "int (length out) mod 2 ^ 32 = 83762340" if "sys_exited S" using P that by blast
qed

theorem file_transfer_correct_witness:
  "(\<exists>S more. file_reachable 0 [1, 2, 3] S \<and> fsc_outfp (sys_cli S) = Some [1, 2, 3] \<and> [1, 2, 3] @ more = [1, 2, 3 :: byte]) \<and>
   callback_file_client LWS_PRE good_writes fsc_env0 1 LWS_CALLBACK_CLIENT_WRITEABLE [] 0 (sys_cli file_start) = None"
proof
  have "length [1, 2, 3 :: byte] < 83762340" by simp
  from file_reach_all [OF this] obtain S where
    "file_reachable 0 [1, 2, 3] S" "fsc_outfp (sys_cli S) = Some [1, 2, 3]" "fsc_state (sys_cli S) = FSC_TRANSFER" by blast
  with file_transfer_correct [of 0 "[1, 2, 3]" S]
  show "\<exists>S more. file_reachable 0 [1, 2, 3] S \<and> fsc_outfp (sys_cli S) = Some [1, 2, 3] \<and> [1, 2, 3] @ more = [1, 2, 3 :: byte]"
    by blast
  show "callback_file_client LWS_PRE good_writes fsc_env0 1 LWS_CALLBACK_CLIENT_WRITEABLE [] 0 (sys_cli file_start) = None"
    using file_transfer_correct [OF file_reachable.start, of LWS_PRE] by auto
qed

text \<open>
  C9: The client does not know how long the file is.  With any file shorter than 83762340 bytes it
  ends in no reachable state, whatever room lws-write needs; and a state in which the server is done and the
  client has the whole file is reachable exactly when lws-write needs no room before the payload, so not when it
  uses the LWS-PRE bytes it is documented to.
\<close>

theorem file_client_never_ends:
  assumes "length disk < 83762340"
  shows "(\<nexists>S. file_reachable pre disk S \<and> sys_exited S) \<and>
    ((\<exists>S. file_reachable pre disk S \<and> fss_state (sys_srv S) = FSS_DONE \<and> sys_s2c S = [] \<and>
      fsc_outfp (sys_cli S) = Some disk) = (pre = 0))"
proof (intro conjI iffI)
  show "\<nexists>S. file_reachable pre disk S \<and> sys_exited S" using file_not_exited [OF _ assms] by blast
  show "\<exists>S. file_reachable pre disk S \<and> fss_state (sys_srv S) = FSS_DONE \<and> sys_s2c S = [] \<and> fsc_outfp (sys_cli S) = Some disk"
    if "pre = 0" using file_reach_all [OF assms] that by blast
  assume "\<exists>S. file_reachable pre disk S \<and> fss_state (sys_srv S) = FSS_DONE \<and> sys_s2c S = [] \<and> fsc_outfp (sys_cli S) = Some disk"
  then obtain S where S: "file_reachable pre disk S" "fss_state (sys_srv S) = FSS_DONE" by blast
  show "pre = 0"
  proof (rule ccontr)
    assume "pre \<noteq> 0"
    then have "S = file_start" using no_room_reachable [OF S(1)] by simp
    with S(2) show False by (simp add: file_start_def)
  qed
qed

theorem file_client_never_ends_witness:
  "(\<exists>S. file_reachable 0 [1, 2, 3] S \<and> fsc_outfp (sys_cli S) = Some [1, 2, 3]) \<and>
   (\<nexists>S. file_reachable LWS_PRE [1, 2, 3] S \<and> sys_exited S)"
  using file_client_never_ends [of "[1, 2, 3]" 0] file_client_never_ends [of "[1, 2, 3]" LWS_PRE] by auto

text \<open>
  The server's check of a request, for a header whose two strings are terminated inside
  their fields: it is granted exactly when the upper half of the type is the magic number and
  the size, read as a signed int, is at most 256 MB; the file name and checksum kept are the
  strings of the header.  So any of the six message types passes as a request, and a negative
  size does.
\<close>

theorem file_server_request:
  assumes "hsk_terminated h" and "fss_state pss = FSS_CONNECTED"
  shows "\<exists>pss'. callback_file_server pre orc stack file w LWS_CALLBACK_RECEIVE (hsk_bytes h @ rest) pss = Some (0, pss', []) \<and>
    fss_state pss' = (if FSS_GET_MAGIC (hsk_type h) = FSS_MAGIC \<and> sint (hsk_filesize h) \<le> FSS_MAX_FILE_SIZE
                      then FSS_HEADER_READY else FSS_ERROR) \<and>
    (fss_state pss' = FSS_HEADER_READY \<longrightarrow>
       fss_filename pss' = field_str (hsk_filename h) \<and> fss_checksum pss' = field_str (hsk_checksum h) \<and>
       fss_filesize pss' = sint (hsk_filesize h))"
  using fss_receive_header [OF assms] by (simp add: callback_file_server_def)

theorem file_server_request_witness:
  "\<exists>pss'. callback_file_server pre good_writes [] None 1 LWS_CALLBACK_RECEIVE
      (hsk_bytes \<lparr>hsk_type = FSS_FILE_RESP_ERROR, hsk_filesize = - 1,
         hsk_checksum = replicate FSS_FILE_CHECKSUM_LEN 0, hsk_filename = replicate FSS_MAX_FILENAME_LEN 0\<rparr> @ [])
      (sys_srv file_start) = Some (0, pss', []) \<and> fss_state pss' = FSS_HEADER_READY"
proof -
  have "fss_state (sys_srv file_start) = FSS_CONNECTED" by (simp add: file_start_def)
  from file_server_request [OF request_fits this, of pre good_writes "[]" None 1 FSS_FILE_RESP_ERROR "- 1" "[]"]
  show ?thesis
    by (auto simp: FSS_GET_MAGIC_def FSS_FILE_RESP_ERROR_def FSS_MAGIC_def FSS_MAX_FILE_SIZE_def)
qed

text \<open>
  The server trusts the terminators of a request.  When the 256 bytes of the file name
  hold none, strcpy runs past the field, whatever follows it in memory: it writes past the
  256 bytes of the session or reads past the message.
\<close>

theorem file_server_unterminated:
  assumes "hsk_wf h" and "0 \<notin> set (hsk_filename h)" and "fss_state pss = FSS_CONNECTED"
    and "FSS_GET_MAGIC (hsk_type h) = FSS_MAGIC" and "sint (hsk_filesize h) \<le> FSS_MAX_FILE_SIZE"
  shows "callback_file_server pre orc stack file w LWS_CALLBACK_RECEIVE (hsk_bytes h @ rest) pss = None"
proof -
  have "rd_type (hsk_bytes h @ rest) = Some (hsk_type h)"
    "rd_filesize (hsk_bytes h @ rest) = Some (sint (hsk_filesize h))"
    by (simp_all add: hsk_bytes_def rd_type_bytes rd_filesize_bytes)
  moreover have "c_strcpy FSS_MAX_FILENAME_LEN (hsk_filename h @ rest) = None"
  proof (cases "c_str (hsk_filename h @ rest)")
    case None
    then show ?thesis by (simp add: c_strcpy_def)
  next
    case (Some s)
    then obtain r where r: "0 \<notin> set s" "hsk_filename h @ rest = s @ 0 # r" by (auto simp: c_str_Some)
    have "length (hsk_filename h) \<le> length s"
    proof (rule ccontr)
      assume "\<not> ?thesis"
      then have "length s < length (hsk_filename h)" by simp
      then have "(hsk_filename h @ rest) ! length s \<in> set (hsk_filename h)" by (simp add: nth_append)
      with r(2) assms(2) show False by simp
    qed
    with Some assms(1) show ?thesis by (simp add: c_strcpy_def hsk_wf_def)
  qed
  ultimately show ?thesis
    using assms(3-5) hsk_drop(2) [OF assms(1), of rest]
    by (simp add: callback_file_server_def fss_receive_def)
qed

theorem file_server_unterminated_witness:
  "callback_file_server pre good_writes [] None 1 LWS_CALLBACK_RECEIVE
      (hsk_bytes \<lparr>hsk_type = FSS_FILE_REQ, hsk_filesize = 1,
         hsk_checksum = replicate FSS_FILE_CHECKSUM_LEN 0, hsk_filename = replicate FSS_MAX_FILENAME_LEN 65\<rparr> @ [0, 0])
      (sys_srv file_start) = None"
  by (rule file_server_unterminated)
    (simp_all add: hsk_wf_def file_start_def FSS_MAX_FILE_SIZE_def)

text \<open>
  The client takes a failed write for a success.  lws_write reports an error as -1, the
  comparison with sizeof turns that into a huge unsigned number, and the client goes on to
  wait for an answer to a request that was never sent.
\<close>

theorem file_client_write_error:
  assumes "- (2 ^ 31) \<le> orc [Lws_write w (hsk_bytes h) LWS_WRITE_BINARY]" and "orc [Lws_write w (hsk_bytes h) LWS_WRITE_BINARY] < 0"
    and "h = \<lparr>hsk_type = FSS_FILE_REQ, hsk_filesize = 1, hsk_checksum = replicate FSS_FILE_CHECKSUM_LEN 0,
              hsk_filename = replicate FSS_MAX_FILENAME_LEN 0\<rparr>"
    and "fsc_state psc = FSC_CONNECTED"
  shows "callback_file_client 0 orc e w LWS_CALLBACK_CLIENT_WRITEABLE mem len psc =
    Some (Ret 0, psc\<lparr>fsc_state := FSC_WAIT_CONFIRM\<rparr>, [Lws_write w (hsk_bytes h) LWS_WRITE_BINARY])"
proof -
  let ?n = "orc [Lws_write w (hsk_bytes h) LWS_WRITE_BINARY]"
  have "to_size_t ?n = 2 ^ 64 + ?n" using assms(1,2) by (intro to_size_t_neg) simp_all
  then have "\<not> to_size_t ?n < int sizeof_hsk" using assms(1) by simp
  then show ?thesis
    using assms(4) unfolding assms(3) by (simp add: callback_file_client_def fsc_writeable_def Let_def del: sizeof_hsk_296)
qed

theorem file_client_write_error_witness:
  "\<exists>tr. callback_file_client 0 (\<lambda>_. - 1) \<lparr>fsc_time = 0, fsc_fopen = (\<lambda>_. True), fsc_stack = []\<rparr> 1
     LWS_CALLBACK_CLIENT_WRITEABLE [] 0 (sys_cli file_start) =
     Some (Ret 0, (sys_cli file_start)\<lparr>fsc_state := FSC_WAIT_CONFIRM\<rparr>, tr)"
proof -
  have "fsc_state (sys_cli file_start) = FSC_CONNECTED" by (simp add: file_start_def)
  from file_client_write_error [OF _ _ refl this, of "\<lambda>_. - 1"] show ?thesis by auto
qed

end
