(* ===== verification/Http.thy ===== *)
theory Http
  imports CString LwsApi PollTable
begin

text \<open>
  The http protocol of the server, callback_http of test-server-http.c: serving the files of
  the resource directory, sending a file by hand, the form upload, the proxied client
  connection, and the external poll table (theory PollTable).  A buffer is its size: a string
  function that would leave it is None.  The build modelled has client, SSL and poll support.
\<close>

subsection \<open>State\<close>

record per_session_data__http =
  fop_fd :: "byte list option"
  reason_bf :: int
  client_finished :: bool
  spa :: bool
  result_text :: string
  result_len :: int
  upload_filename :: string
  file_length :: int
  post_fd :: "byte list option"

text \<open>
  The surroundings of one callback: the connections tied to this one, request headers, the
  clock, the file system, the form parser, and what the header builders have put in their
  buffer after the calls of a trace.
\<close>

record http_env =
  he_child :: "wsi option"
  he_parent :: "wsi option"
  he_post :: bool
  he_cookie :: bool
  he_ssl :: bool
  he_time :: "u32 \<times> u32"
  he_resource_path :: string
  he_file :: "string \<Rightarrow> byte list option"
  he_read :: "nat \<Rightarrow> byte list \<Rightarrow> byte list"
  he_read_completes :: bool
  he_headers :: "lws_trace \<Rightarrow> byte list"
  he_ctype :: "string option"
  he_spa_length :: "nat \<Rightarrow> int"
  he_spa_string :: "nat \<Rightarrow> string"
  he_snprintf :: "nat \<Rightarrow> string \<Rightarrow> string"
  he_cert_ok :: bool
  he_crl_path :: string
  he_crl_loaded :: int

text \<open>
  Documented behaviour: a file read gives the next bytes, at most as many as asked for and
  none only at the end; lws_snprintf stays in its bound and cuts only what does not fit; the
  microseconds of the clock are below a million.
\<close>

definition http_env_ok :: "http_env \<Rightarrow> bool" where
  "http_env_ok e \<longleftrightarrow>
     (\<forall>n rest. \<exists>k. he_read e n rest = take k rest \<and> k \<le> n \<and> (0 < n \<longrightarrow> 0 < k)) \<and>
     (\<forall>n s. length (he_snprintf e n s) \<le> n \<and> (length s < n \<longrightarrow> he_snprintf e n s = s)) \<and>
     snd (he_time e) < 1000000"

type_synonym http_result = "(int \<times> per_session_data__http \<times> lws_trace) option"

subsection \<open>File names and types\<close>

definition ends_with :: "string \<Rightarrow> string \<Rightarrow> bool" where
  "ends_with file suf \<longleftrightarrow> drop (length file - length suf) file = suf"

definition get_mimetype :: "string \<Rightarrow> string option" where
  "get_mimetype file =
     (if length file < 5 then None
      else if ends_with file ''.ico'' then Some ''image/x-icon''
      else if ends_with file ''.png'' then Some ''image/png''
      else if ends_with file ''.html'' then Some ''text/html''
      else if ends_with file ''.css'' then Some ''text/css''
      else if ends_with file ''.js'' then Some ''text/javascript''
      else None)"

text \<open>strcpy and strcat into a char array, and the bounded strncat.\<close>

definition str_fits :: "nat \<Rightarrow> string \<Rightarrow> string option" where
  "str_fits n s = (if length s < n then Some s else None)"

definition strncat_buf :: "nat \<Rightarrow> string \<Rightarrow> string \<Rightarrow> string" where
  "strncat_buf n dst src = dst @ take (n - length dst - 1) src"

text \<open>The file a request names: the two strings are in, moved past a prefix, and buf.\<close>

definition http_file_path :: "http_env \<Rightarrow> string \<Rightarrow> (string \<times> string) option" where
  "http_file_path e inp = do {
     (inp, buf) \<leftarrow> (if take 11 inp = ''/cgit-data/''
                     then Some (drop 11 inp, ''/usr/share/cgit'')
                     else do { b \<leftarrow> str_fits 256 (he_resource_path e); Some (inp, b) });
     if inp \<noteq> ''/'' then do {
       buf1 \<leftarrow> (if take 1 inp \<noteq> ''/'' then str_fits 256 (buf @ ''/'') else Some buf);
       Some (inp, strncat_buf 256 buf1 inp) }
     else do {
       buf1 \<leftarrow> str_fits 256 (buf @ ''/test.html'');
       Some (inp, buf1) } }"

subsection \<open>LWS-CALLBACK-HTTP\<close>

definition try_to_reuse :: "lws_oracle \<Rightarrow> wsi \<Rightarrow> lws_trace \<Rightarrow> int \<times> lws_trace" where
  "try_to_reuse orc w tr =
     (let tr' = tr @ [Lws_http w Http_transaction_completed] in (if orc tr' \<noteq> 0 then - 1 else 0, tr'))"

text \<open>Sending a file by hand: open it, send the headers and ask to be called when writeable.\<close>

definition http_leaf :: "lws_oracle \<Rightarrow> http_env \<Rightarrow> wsi \<Rightarrow> per_session_data__http \<Rightarrow> http_result" where
  "http_leaf orc e w pss =
     (if length (he_resource_path e) > 1024 - 10 then Some (- 1, pss, [])
      else do {
        leaf_path \<leftarrow> str_fits 1024 (he_resource_path e @ ''/leaf.jpg'');
        let tr = [Lws_http w (Vfs_file_open leaf_path)];
        let pss1 = pss\<lparr>fop_fd := he_file e leaf_path\<rparr>;
        (case he_file e leaf_path of
           None \<Rightarrow> Some (- 1, pss1, tr)
         | Some content \<Rightarrow> do {
             let (good, tr1) = lws_all orc
               [Lws_http w (Add_http_header_status 200),
                Lws_http w (Add_http_header ''server'' ''libwebsockets''),
                Lws_http w (Add_http_header ''content-type'' ''image/jpeg''),
                Lws_http w (Add_http_header_content_length (int (length content))),
                Lws_http w Finalize_http_header] tr;
             if \<not> good then Some (1, pss1, tr1)
             else do {
               let tr2 = tr1 @ [Lws_write w (he_headers e tr1) LWS_WRITE_HTTP_HEADERS];
               if orc tr2 < 0 then Some (- 1, pss1\<lparr>fop_fd := None\<rparr>, tr2 @ [Lws_http w Vfs_file_close])
               else Some (0, pss1, tr2 @ [Lws_callback_on_writable w]) } }) })"

text \<open>The cookie set on the root page.\<close>

definition http_cookie :: "http_env \<Rightarrow> string" where
  "http_cookie e = ''test=LWS_'' @ dec_nat (unat (fst (he_time e))) @ ''_'' @
     dec_nat (unat (snd (he_time e))) @ ''_COOKIE;Max-Age=360000''"

definition http_serve :: "lws_oracle \<Rightarrow> http_env \<Rightarrow> wsi \<Rightarrow> string \<Rightarrow> per_session_data__http \<Rightarrow> http_result" where
  "http_serve orc e w inp pss = do {
     (inp, buf) \<leftarrow> http_file_path e inp;
     case get_mimetype buf of
       None \<Rightarrow> Some (- 1, pss, [Lws_http w (Return_http_status 415)])
     | Some mime \<Rightarrow> do {
         cookie \<leftarrow> (if inp = ''/'' \<and> \<not> he_cookie e
                      then do { b64 \<leftarrow> str_fits 64 (http_cookie e);
                                Some [Lws_http w (Add_http_header ''set-cookie:'' b64)] }
                      else Some []);
         let sts = (if he_ssl e then [Lws_http w (Add_http_header ''Strict-Transport-Security:''
                                        ''max-age=15768000 ; includeSubDomains'')] else []);
         let (good, tr) = lws_all orc (cookie @ sts) [];
         if \<not> good then Some (1, pss, tr)
         else do {
           let tr1 = tr @ [Lws_http w (Serve_http_file buf mime)];
           Some (if orc tr1 < 0 then - 1 else 0, pss, tr1) } } }"

definition http_request ::
  "lws_oracle \<Rightarrow> http_env \<Rightarrow> wsi \<Rightarrow> string \<Rightarrow> nat \<Rightarrow> per_session_data__http \<Rightarrow> http_result" where
  "http_request orc e w inp len pss =
     (if len < 1 then
        let (r, tr) = try_to_reuse orc w [Lws_http w (Return_http_status 400)] in Some (r, pss, tr)
      else if take 10 inp = ''/proxytest'' then
        (if he_child e \<noteq> None then Some (0, pss, [])
         else Some (0, pss\<lparr>client_finished := False\<rparr>,
                    [Lws_http w (Client_connect_via_info (if drop 10 inp \<noteq> [] then drop 10 inp else ''/git/''))]))
      else if CHR ''/'' \<in> set (drop 1 inp) then
        let (r, tr) = try_to_reuse orc w [Lws_http w (Return_http_status 406)] in Some (r, pss, tr)
      else if he_post e then Some (0, pss, [])
      else if inp = ''/leaf.jpg'' then http_leaf orc e w pss
      else http_serve orc e w inp pss)"

subsection \<open>Form uploads\<close>

datatype lws_spa_fileupload_states = LWS_UFS_CONTENT | LWS_UFS_FINAL_CONTENT | LWS_UFS_OPEN

definition param_names :: "string list" where
  "param_names = [''text'', ''send'', ''file'', ''upload'']"




definition http_body :: "lws_oracle \<Rightarrow> wsi \<Rightarrow> byte list \<Rightarrow> per_session_data__http \<Rightarrow> http_result" where
  "http_body orc w inp pss =
     (let tr = (if spa pss then [] else [Lws_http w Spa_create]);
          created = spa pss \<or> orc tr \<noteq> 0;
          pss1 = (if spa pss then pss
                  else if created then pss\<lparr>spa := True, upload_filename := [], file_length := 0\<rparr> else pss);
          tr1 = tr @ [Lws_http w (Spa_process inp)]
      in if \<not> created then Some (- 1, pss1, tr)
         else Some (if orc tr1 \<noteq> 0 then - 1 else 0, pss1, tr1))"

text \<open>One lws_snprintf at the write position: the room shrinks by what was written.\<close>

definition spa_row :: "http_env \<Rightarrow> nat \<Rightarrow> string" where
  "spa_row e n = ''<tr><td><b>'' @ param_names ! n @ ''</b></td><td>'' @ dec_int (he_spa_length e n) @
     ''</td><td>'' @ he_spa_string e n @ ''</td></tr>''"

fun http_append :: "http_env \<Rightarrow> nat \<Rightarrow> string \<Rightarrow> string list \<Rightarrow> string" where
  "http_append e cap acc [] = acc"
| "http_append e cap acc (s # ss) = http_append e cap (acc @ he_snprintf e (cap - length acc) s) ss"

text \<open>The result array has 500 + LWS-PRE bytes, and end is one less than its end.\<close>

definition http_form_result :: "http_env \<Rightarrow> per_session_data__http \<Rightarrow> string option" where
  "http_form_result e pss = do {
     let cap = 500 - 1;
     p \<leftarrow> str_fits (cap + 1) (''<html><body><h1>Form results (after urldecoding)</h1>'' @
            ''<table><tr><td>Name</td><td>Length</td><td>Value</td></tr>'');
     Some (http_append e cap p
       (map (spa_row e) [0..<length param_names] @
        [''</table><br><b>filename:</b> '' @ upload_filename pss @ '', <b>length</b> '' @ dec_int (file_length pss),
         ''</body></html>''])) }"

definition http_body_completion :: "lws_oracle \<Rightarrow> http_env \<Rightarrow> wsi \<Rightarrow> per_session_data__http \<Rightarrow> http_result" where
  "http_body_completion orc e w pss = do {
     _ \<leftarrow> (if spa pss then Some () else None);
     txt \<leftarrow> http_form_result e pss;
     let pss1 = pss\<lparr>result_text := txt, result_len := int (length txt)\<rparr>;
     let (good, tr) = lws_all orc
       [Lws_http w (Add_http_header_status 200),
        Lws_http w (Add_http_header ''content-type'' ''text/html''),
        Lws_http w (Add_http_header_content_length (result_len pss1)),
        Lws_http w Finalize_http_header] [Lws_http w Spa_finalize];
     if \<not> good then Some (1, pss1, tr)
     else do {
       let tr1 = tr @ [Lws_write w (he_headers e tr) LWS_WRITE_HTTP_HEADERS];
       if orc tr1 < 0 then Some (1, pss1, tr1)
       else do {
         let tr2 = tr1 @ [Lws_write w (bytes_of txt) LWS_WRITE_HTTP];
         if orc tr2 < 0 then Some (1, pss1, tr2)
         else do { let (r, tr3) = try_to_reuse orc w tr2; Some (r, pss1, tr3) } } } }"

subsection \<open>Sending more of a file\<close>

text \<open>
  The loop of HTTP-WRITEABLE, from the file's remaining bytes and the number of bytes sent so
  far.  How it ends decides what happens to the file.
\<close>

datatype http_end = Later | Penultimate | Bail

definition http_chunk_size :: "int \<Rightarrow> int" where
  "http_chunk_size m = (if m \<noteq> - 1 \<and> m < 4096 then m else 4096)"

partial_function (option) http_send ::
  "lws_oracle \<Rightarrow> http_env \<Rightarrow> wsi \<Rightarrow> byte list \<Rightarrow> int \<Rightarrow> lws_trace \<Rightarrow> (http_end \<times> byte list \<times> lws_trace) option" where
  "http_send orc e w rest sent tr =
     (let tr1 = tr @ [Lws_http w Get_peer_write_allowance]; m = orc tr1; n = http_chunk_size m in
      if m = 0 then Some (Later, rest, tr1)
      else if n < 0 then None
      else
        (let tr2 = tr1 @ [Lws_http w (Vfs_file_read (nat n))]; chunk = he_read e (nat n) rest in
         if orc tr2 < 0 then Some (Bail, rest, tr2)
         else if chunk = [] then Some (Penultimate, rest, tr2)
         else
           (let tr3 = tr2 @ [Lws_write w chunk LWS_WRITE_HTTP]; m2 = orc tr3;
                tr4 = tr3 @ (if m2 \<noteq> 0 then [Lws_http w (Set_timeout 5)] else []) @ [Lws_send_pipe_choked w];
                rest' = drop (length chunk) rest in
            if m2 < 0 then Some (Bail, rest', tr3)
            else if orc tr4 = 0 \<and> sent + m2 < 1024 * 1024 then http_send orc e w rest' (sent + m2) tr4
            else Some (Later, rest', tr4))))"

definition http_send_file :: "lws_oracle \<Rightarrow> http_env \<Rightarrow> wsi \<Rightarrow> per_session_data__http \<Rightarrow> http_result" where
  "http_send_file orc e w pss = do {
     rest \<leftarrow> fop_fd pss;
     (how, rest', tr) \<leftarrow> http_send orc e w rest 0 [];
     case how of
       Later \<Rightarrow> Some (0, pss\<lparr>fop_fd := Some rest'\<rparr>, tr @ [Lws_callback_on_writable w])
     | Penultimate \<Rightarrow>
         let (r, tr2) = try_to_reuse orc w (tr @ [Lws_http w Vfs_file_close]) in Some (r, pss\<lparr>fop_fd := None\<rparr>, tr2)
     | Bail \<Rightarrow> Some (- 1, pss\<lparr>fop_fd := None\<rparr>, tr @ [Lws_http w Vfs_file_close]) }"

definition http_writeable :: "lws_oracle \<Rightarrow> http_env \<Rightarrow> wsi \<Rightarrow> per_session_data__http \<Rightarrow> http_result" where
  "http_writeable orc e w pss =
     (if client_finished pss then Some (- 1, pss, [])
      else if he_child e = None \<and> fop_fd pss = None then
        let (r, tr) = try_to_reuse orc w [] in Some (r, pss, tr)
      else if reason_bf pss AND 2 \<noteq> 0 then
        let pss1 = pss\<lparr>reason_bf := reason_bf pss AND NOT 2\<rparr> in
        (case he_child e of
           None \<Rightarrow> Some (0, pss1, [])
         | Some c \<Rightarrow>
             let tr = [Lws_http c Client_read];
                 pss2 = (if he_read_completes e then pss1\<lparr>client_finished := True\<rparr> else pss1)
             in if orc tr < 0 then Some (- 1, pss2, tr)
                else if client_finished pss2 then Some (- 1, pss2, tr)
                else Some (0, pss2, tr))
      else if he_child e \<noteq> None then Some (0, pss, [])
      else http_send_file orc e w pss)"

subsection \<open>The proxied client connection\<close>

text \<open>The client side works for its parent connection, and changes the parent's session data.\<close>

type_synonym http_sessions = "wsi \<Rightarrow> per_session_data__http option"

definition http_client_established ::
  "lws_oracle \<Rightarrow> http_env \<Rightarrow> http_sessions \<Rightarrow> (int \<times> http_sessions \<times> lws_trace) option" where
  "http_client_established orc e ses = do {
     p \<leftarrow> he_parent e;
     let (good, tr) = lws_all orc
       ([Lws_http p (Add_http_header_status 200), Lws_http p (Add_http_header ''server'' ''libwebsockets'')] @
        (case he_ctype e of
           Some ct \<Rightarrow> if ct \<noteq> [] then [Lws_http p (Add_http_header ''content-type'' ct)] else []
         | None \<Rightarrow> []) @
        [Lws_http p Finalize_http_header]) [];
     if \<not> good then Some (1, ses, tr)
     else do {
       let tr1 = tr @ [Lws_write p (he_headers e tr) LWS_WRITE_HTTP_HEADERS];
       Some (if orc tr1 < 0 then - 1 else 0, ses, tr1) } }"

definition http_client_receive :: "http_env \<Rightarrow> http_sessions \<Rightarrow> (int \<times> http_sessions \<times> lws_trace) option" where
  "http_client_receive e ses = do {
     p \<leftarrow> he_parent e;
     pss1 \<leftarrow> ses p;
     Some (0, ses(p \<mapsto> pss1\<lparr>reason_bf := reason_bf pss1 OR 2\<rparr>), [Lws_callback_on_writable p]) }"

definition http_client_receive_read ::
  "lws_oracle \<Rightarrow> http_env \<Rightarrow> byte list \<Rightarrow> http_sessions \<Rightarrow> (int \<times> http_sessions \<times> lws_trace) option" where
  "http_client_receive_read orc e inp ses = do {
     p \<leftarrow> he_parent e;
     let tr = [Lws_write p inp LWS_WRITE_HTTP];
     Some (if orc tr < 0 then - 1 else 0, ses, tr) }"

definition http_client_completed :: "http_env \<Rightarrow> http_sessions \<Rightarrow> (int \<times> http_sessions \<times> lws_trace) option" where
  "http_client_completed e ses = do {
     p \<leftarrow> he_parent e;
     pss1 \<leftarrow> ses p;
     Some (0, ses(p \<mapsto> pss1\<lparr>client_finished := True\<rparr>), []) }"

subsection \<open>The callback\<close>

definition own_session ::
  "wsi \<Rightarrow> http_sessions \<Rightarrow> (per_session_data__http \<Rightarrow> http_result) \<Rightarrow> (int \<times> http_sessions \<times> lws_trace) option" where
  "own_session w ses f = do { pss \<leftarrow> ses w; (r, pss', tr) \<leftarrow> f pss; Some (r, ses(w \<mapsto> pss'), tr) }"

definition with_polls ::
  "http_sessions \<Rightarrow> poll_state \<Rightarrow> (int \<times> poll_state) option \<Rightarrow>
   (int \<times> http_sessions \<times> poll_state \<times> lws_trace) option" where
  "with_polls ses ps res = map_option (\<lambda>(r, ps'). (r, ses, ps', [])) res"

text \<open>
  The whole switch.  The argument in is a request line, a list of bytes, or the descriptor and
  events of a poll callback, according to the reason.
\<close>

definition callback_http ::
  "lws_oracle \<Rightarrow> http_env \<Rightarrow> wsi \<Rightarrow> lws_reason \<Rightarrow> string \<Rightarrow> byte list \<Rightarrow> int \<times> int \<Rightarrow> nat \<Rightarrow>
   http_sessions \<Rightarrow> poll_state \<Rightarrow> (int \<times> http_sessions \<times> poll_state \<times> lws_trace) option" where
  "callback_http orc e w reason line inp pa len ses ps =
     (let keep = map_option (\<lambda>(r, ses', tr). (r, ses', ps, tr)) in
      if reason = LWS_CALLBACK_HTTP then keep (own_session w ses (http_request orc e w line len))
      else if reason = LWS_CALLBACK_HTTP_BODY then keep (own_session w ses (http_body orc w inp))
      else if reason = LWS_CALLBACK_HTTP_BODY_COMPLETION then keep (own_session w ses (http_body_completion orc e w))
      else if reason = LWS_CALLBACK_HTTP_DROP_PROTOCOL then
        keep (own_session w ses (\<lambda>pss. if spa pss then Some (0, pss\<lparr>spa := False\<rparr>, [Lws_http w Spa_destroy])
                                      else Some (0, pss, [])))
      else if reason = LWS_CALLBACK_HTTP_FILE_COMPLETION then
        (let (r, tr) = try_to_reuse orc w [] in Some (r, ses, ps, tr))
      else if reason = LWS_CALLBACK_HTTP_WRITEABLE then keep (own_session w ses (http_writeable orc e w))
      else if reason = LWS_CALLBACK_ESTABLISHED_CLIENT_HTTP then keep (http_client_established orc e ses)
      else if reason = LWS_CALLBACK_CLOSED_CLIENT_HTTP then Some (- 1, ses, ps, [])
      else if reason = LWS_CALLBACK_RECEIVE_CLIENT_HTTP then keep (http_client_receive e ses)
      else if reason = LWS_CALLBACK_RECEIVE_CLIENT_HTTP_READ then keep (http_client_receive_read orc e inp ses)
      else if reason = LWS_CALLBACK_COMPLETED_CLIENT_HTTP then keep (http_client_completed e ses)
      else if reason = LWS_CALLBACK_ADD_POLL_FD then with_polls ses ps (poll_add (fst pa) (snd pa) ps)
      else if reason = LWS_CALLBACK_DEL_POLL_FD then with_polls ses ps (poll_del (fst pa) ps)
      else if reason = LWS_CALLBACK_CHANGE_MODE_POLL_FD then with_polls ses ps (poll_change (fst pa) (snd pa) ps)
      else if reason = LWS_CALLBACK_OPENSSL_PERFORM_CLIENT_CERT_VERIFICATION then
        Some (if len = 0 \<or> \<not> he_cert_ok e then 1 else 0, ses, ps, [])
      else if reason = LWS_CALLBACK_OPENSSL_LOAD_EXTRA_SERVER_VERIFY_CERTS then
        Some (if he_crl_path e \<noteq> [] \<and> he_crl_loaded e \<noteq> 1 then 1 else 0, ses, ps, [])
      else Some (0, ses, ps, []))"

subsection \<open>Lemmas on names and buffers\<close>

lemma ends_with_last: "ends_with f suf \<Longrightarrow> suf \<noteq> [] \<Longrightarrow> f \<noteq> [] \<and> last f = last suf"
  unfolding ends_with_def by (metis drop_Nil last_drop drop_all not_less)

lemma mimetype_last:
  assumes "get_mimetype f = Some m"
  shows "f \<noteq> []" "last f \<noteq> CHR ''/''" "last f \<noteq> CHR ''.''"
proof -
  from assms consider "ends_with f ''.ico''" | "ends_with f ''.png''" | "ends_with f ''.html''"
    | "ends_with f ''.css''" | "ends_with f ''.js''"
    by (auto simp: get_mimetype_def split: if_splits)
  then show "f \<noteq> []" "last f \<noteq> CHR ''/''" "last f \<noteq> CHR ''.''"
    by (cases; use ends_with_last in fastforce)+
qed

lemma length_dec_u32: "length (dec_nat (unat (x :: u32))) \<le> 10"
proof (rule length_dec_nat)
  have "unat x < 2 ^ 32" using unsigned_less [of x] by simp
  then show "unat x < 10 ^ 10" by simp
qed simp

lemma http_cookie_fits: "str_fits 64 (http_cookie e) = Some (http_cookie e)"
  using length_dec_u32 [of "fst (he_time e)"] length_dec_u32 [of "snd (he_time e)"]
  by (simp add: str_fits_def http_cookie_def)

lemma strncat_fits: "length dst < n \<Longrightarrow> length (strncat_buf n dst src) < n"
  by (simp add: strncat_buf_def)

text \<open>The path of a request without a second slash: one component below the directory.\<close>

lemma http_file_path_leaf:
  assumes p: "http_file_path e inp = Some (inp', path)" and sl: "CHR ''/'' \<notin> set (drop 1 inp)"
  shows "inp' = inp" and "length path < 256"
    and "length (he_resource_path e) < 255 \<Longrightarrow>
      \<exists>leaf. path = he_resource_path e @ ''/'' @ leaf \<and> CHR ''/'' \<notin> set leaf"
proof -
  have nc: "take 11 inp \<noteq> ''/cgit-data/''"
  proof
    assume "take 11 inp = ''/cgit-data/''"
    then have "drop 1 (take 11 inp) = ''cgit-data/''" by simp
    then have "CHR ''/'' \<in> set (drop 1 (take 11 inp))" by simp
    then show False using sl by (metis drop_take in_set_takeD)
  qed
  obtain b where b: "b = he_resource_path e" "length b < 256"
    using p nc by (auto simp: http_file_path_def str_fits_def bind_Some_iff split: if_splits)
  have base: "str_fits 256 (he_resource_path e) = Some b" using b by (simp add: str_fits_def)
  show "inp' = inp"
    using p nc base by (auto simp: http_file_path_def bind_Some_iff split: if_splits)
  show "length path < 256"
    using p nc base b by (auto simp: http_file_path_def bind_Some_iff str_fits_def strncat_buf_def split: if_splits)
  show "\<exists>leaf. path = he_resource_path e @ ''/'' @ leaf \<and> CHR ''/'' \<notin> set leaf"
    if short: "length (he_resource_path e) < 255"
  proof (cases "inp = ''/''")
    case True
    then have "path = he_resource_path e @ ''/'' @ ''test.html''"
      using p nc base b by (auto simp: http_file_path_def str_fits_def bind_Some_iff split: if_splits)
    then show ?thesis by (intro exI [of _ "''test.html''"]) simp
  next
    case inp: False
    show ?thesis
    proof (cases "take 1 inp = ''/''")
      case True
      then obtain rest where rest: "inp = CHR ''/'' # rest" by (cases inp) auto
      have "path = b @ take (255 - length b) inp"
        using p nc base inp True by (auto simp: http_file_path_def strncat_buf_def bind_Some_iff)
      moreover obtain k where "255 - length b = Suc k"
        using short b by (cases "255 - length b") auto
      ultimately show ?thesis using rest b sl
        by (intro exI [of _ "take k rest"]) (auto dest: in_set_takeD)
    next
      case False
      then have "CHR ''/'' \<notin> set inp" using sl by (cases inp) auto
      moreover have "path = (b @ ''/'') @ take (255 - length b - 1) inp"
        using False p nc base inp b by (auto simp: http_file_path_def strncat_buf_def str_fits_def bind_Some_iff split: if_splits)
      ultimately show ?thesis using b
        by (intro exI [of _ "take (255 - length b - 1) inp"]) (auto dest: in_set_takeD)
    qed
  qed
qed

subsection \<open>The send loop\<close>

lemma read_progress:
  assumes "http_env_ok e" "0 < n" "rest \<noteq> []"
  shows "he_read e n rest \<noteq> []" "he_read e n rest @ drop (length (he_read e n rest)) rest = rest"
    "length (he_read e n rest) \<le> n"
proof -
  from assms(1,2) obtain k where "he_read e n rest = take k rest" "k \<le> n" "0 < k"
    unfolding http_env_ok_def by blast
  with assms(3) show "he_read e n rest \<noteq> []" "he_read e n rest @ drop (length (he_read e n rest)) rest = rest"
    "length (he_read e n rest) \<le> n" by (auto simp: min_def)
qed

lemma read_eof: "http_env_ok e \<Longrightarrow> he_read e n [] = []"
  unfolding http_env_ok_def by (metis take_Nil)

text \<open>The allowance is a size_t of which -1 means that there is none.\<close>

definition allowance_ok :: "lws_oracle \<Rightarrow> wsi \<Rightarrow> bool" where
  "allowance_ok orc w \<longleftrightarrow> (\<forall>tr. - 1 \<le> orc (tr @ [Lws_http w Get_peer_write_allowance]))"

lemma http_send_correct:
  assumes e: "http_env_ok e" and al: "allowance_ok orc w"
  shows "\<exists>how rest' tr'. http_send orc e w rest sent tr = Some (how, rest', tr @ tr') \<and>
    concat (written tr') @ rest' = rest \<and> (\<forall>c \<in> set (written tr'). c \<noteq> [] \<and> length c \<le> 4096) \<and>
    (how = Penultimate \<longrightarrow> rest' = []) \<and> Lws_http w Http_transaction_completed \<notin> set tr'"
proof (induction "length rest" arbitrary: rest sent tr rule: less_induct)
  case less
  define tr1 where "tr1 = tr @ [Lws_http w Get_peer_write_allowance]"
  define n where "n = http_chunk_size (orc tr1)"
  define tr2 where "tr2 = tr1 @ [Lws_http w (Vfs_file_read (nat n))]"
  define chunk where "chunk = he_read e (nat n) rest"
  define rest1 where "rest1 = drop (length chunk) rest"
  define tr3 where "tr3 = tr2 @ [Lws_write w chunk LWS_WRITE_HTTP]"
  define tr4 where "tr4 = tr3 @ (if orc tr3 \<noteq> 0 then [Lws_http w (Set_timeout 5)] else []) @ [Lws_send_pipe_choked w]"
  note defs = tr1_def n_def tr2_def chunk_def rest1_def tr3_def tr4_def
  let ?new = "[Lws_http w Get_peer_write_allowance, Lws_http w (Vfs_file_read (nat n)),
    Lws_write w chunk LWS_WRITE_HTTP] @ (if orc tr3 \<noteq> 0 then [Lws_http w (Set_timeout 5)] else []) @
    [Lws_send_pipe_choked w]"
  have tr4: "tr4 = tr @ ?new" by (simp add: tr4_def tr3_def tr2_def tr1_def)
  have run: "http_send orc e w rest sent tr =
      (if orc tr1 = 0 then Some (Later, rest, tr1)
       else if n < 0 then None
       else if orc tr2 < 0 then Some (Bail, rest, tr2)
       else if chunk = [] then Some (Penultimate, rest, tr2)
       else if orc tr3 < 0 then Some (Bail, rest1, tr3)
       else if orc tr4 = 0 \<and> sent + orc tr3 < 1024 * 1024 then http_send orc e w rest1 (sent + orc tr3) tr4
       else Some (Later, rest1, tr4))"
    by (subst http_send.simps) (simp only: Let_def defs)
  have m: "- 1 \<le> orc tr1" using al by (simp add: allowance_ok_def tr1_def)
  show ?case
  proof (cases "orc tr1 = 0 \<or> orc tr2 < 0")
    case True
    have n: "\<not> n < 0" using m by (auto simp: http_chunk_size_def n_def)
    show ?thesis
    proof (cases "orc tr1 = 0")
      case True
      with run show ?thesis by (simp add: tr1_def)
    next
      case False
      with True n run show ?thesis by (simp add: tr2_def tr1_def)
    qed
  next
    case False
    have n: "0 < n" "n \<le> 4096" using m False by (auto simp: http_chunk_size_def n_def)
    show ?thesis
    proof (cases "rest = []")
      case True
      with run False n read_eof [OF e] show ?thesis by (simp add: chunk_def tr2_def tr1_def)
    next
      case ne: False
      from n have "0 < nat n" by simp
      note ch = read_progress [OF e this ne, folded chunk_def, folded rest1_def]
      have len: "length chunk \<le> 4096" using ch(3) n(2) by linarith
      show ?thesis
      proof (cases "\<not> orc tr3 < 0 \<and> orc tr4 = 0 \<and> sent + orc tr3 < 1024 * 1024")
        case True
        have "length rest1 < length rest" using ch(1) ne by (simp add: rest1_def)
        from less.hyps [OF this, of "sent + orc tr3" tr4] obtain how rest' tr' where
          ih: "http_send orc e w rest1 (sent + orc tr3) tr4 = Some (how, rest', tr4 @ tr')"
            "concat (written tr') @ rest' = rest1" "\<forall>c \<in> set (written tr'). c \<noteq> [] \<and> length c \<le> 4096"
            "how = Penultimate \<longrightarrow> rest' = []" "Lws_http w Http_transaction_completed \<notin> set tr'" by blast
        have r: "http_send orc e w rest sent tr = Some (how, rest', tr @ (?new @ tr'))"
          unfolding run using True False n ch(1) ih(1) by (simp add: tr4)
        have wr: "written (?new @ tr') = chunk # written tr'" by simp
        from ih(2) ch(2) have cat: "concat (written (?new @ tr')) @ rest' = rest" unfolding wr by simp
        show ?thesis
          by (intro exI conjI, rule r, rule cat) (use ih(3-5) ch(1) len in \<open>auto simp: wr\<close>)
      next
        case stop: False
        show ?thesis
        proof (cases "orc tr3 < 0")
          case True
          with run False n ch len show ?thesis by (simp add: tr3_def tr2_def tr1_def)
        next
          case go: False
          with stop have r: "http_send orc e w rest sent tr = Some (Later, rest1, tr4)"
            using run False n ch(1) by auto
            have r: "http_send orc e w rest sent tr = Some (Later, rest1, tr @ ?new)" using r tr4 by simp
          have wr: "written ?new = [chunk]" by simp
          show ?thesis
            by (intro exI conjI, rule r) (use ch len in \<open>auto simp: wr\<close>)
        qed
      qed
    qed
  qed
qed

subsection \<open>Forms\<close>

lemma http_append_bound:
  "http_env_ok e \<Longrightarrow> length acc \<le> cap \<Longrightarrow> length (http_append e cap acc ss) \<le> cap"
proof (induction ss arbitrary: acc)
  case Nil
  then show ?case by simp
next
  case (Cons s ss)
  from Cons.prems(1) have "length (he_snprintf e (cap - length acc) s) \<le> cap - length acc"
    unfolding http_env_ok_def by blast
  with Cons show ?case by simp
qed

lemma http_form_result_fits:
  assumes "http_env_ok e"
  shows "\<exists>s. http_form_result e pss = Some s \<and> length s \<le> 499"
  using http_append_bound [OF assms, where cap = 499]
  by (simp add: http_form_result_def str_fits_def)










subsection \<open>Properties\<close>

text \<open>The surroundings the witnesses use.\<close>

definition http_env0 :: http_env where
  "http_env0 = \<lparr>he_child = None, he_parent = Some 5, he_post = False, he_cookie = False, he_ssl = True,
     he_time = (1000, 2000), he_resource_path = ''/srv'', he_file = (\<lambda>_. Some [1, 2, 3]),
     he_read = take, he_read_completes = False, he_headers = (\<lambda>_. []), he_ctype = None,
     he_spa_length = (\<lambda>_. 0), he_spa_string = (\<lambda>_. []), he_snprintf = take, he_cert_ok = True,
     he_crl_path = [], he_crl_loaded = 1\<rparr>"

lemma http_env0_ok: "http_env_ok http_env0"
proof -
  have "\<exists>k. take n rest = take k rest \<and> k \<le> n \<and> (0 < n \<longrightarrow> 0 < k)" for n and rest :: "byte list"
    by (intro exI [of _ n]) simp
  then show ?thesis by (simp add: http_env_ok_def http_env0_def)
qed

definition http_pss0 :: per_session_data__http where
  "http_pss0 = \<lparr>fop_fd = None, reason_bf = 0, client_finished = False, spa = False, result_text = [],
     result_len = 0, upload_filename = [], file_length = 0, post_fd = None\<rparr>"

lemma lws_all_no: "c \<notin> set cs \<Longrightarrow> c \<notin> set tr \<Longrightarrow> c \<notin> set (snd (lws_all orc cs tr))"
  using lws_all_trace [of orc cs tr] by auto

lemma http_leaf_serves_nothing:
  assumes "http_leaf orc e w pss = Some (r, pss', tr)"
  shows "Lws_http w (Serve_http_file path mime) \<notin> set tr"
proof -
  have no: "Lws_http w (Serve_http_file path mime) \<notin> set (snd (lws_all orc
      [Lws_http w (Add_http_header_status 200),
       Lws_http w (Add_http_header ''server'' ''libwebsockets''),
       Lws_http w (Add_http_header ''content-type'' ''image/jpeg''),
       Lws_http w (Add_http_header_content_length k),
       Lws_http w Finalize_http_header] [Lws_http w (Vfs_file_open f)]))" for k f
    by (rule lws_all_no) auto
  show ?thesis
  proof (cases "he_file e (he_resource_path e @ ''/leaf.jpg'')")
    case None
    with assms show ?thesis by (auto simp: http_leaf_def bind_Some_iff str_fits_def split: if_splits)
  next
    case (Some content)
    define res where "res = lws_all orc
      [Lws_http w (Add_http_header_status 200),
       Lws_http w (Add_http_header ''server'' ''libwebsockets''),
       Lws_http w (Add_http_header ''content-type'' ''image/jpeg''),
       Lws_http w (Add_http_header_content_length (int (length content))),
       Lws_http w Finalize_http_header] [Lws_http w (Vfs_file_open (he_resource_path e @ ''/leaf.jpg''))]"
    obtain good tr1 where gt: "res = (good, tr1)" by (cases res)
    have "Lws_http w (Serve_http_file path mime) \<notin> set tr1"
      using no [of "int (length content)" "he_resource_path e @ ''/leaf.jpg''"] unfolding res_def [symmetric] gt by simp
    with assms Some show ?thesis
      by (auto simp: http_leaf_def str_fits_def bind_Some_iff res_def [symmetric] gt Let_def split: if_splits)
  qed
qed

lemma http_serve_serves:
  assumes "http_serve orc e w inp pss = Some (r, pss', tr)" and "Lws_http w (Serve_http_file path mime) \<in> set tr"
  shows "\<exists>inp'. http_file_path e inp = Some (inp', path) \<and> get_mimetype path = Some mime"
proof -
  from assms(1) obtain inp' buf where fp: "http_file_path e inp = Some (inp', buf)"
    by (auto simp: http_serve_def bind_Some_iff)
  with assms obtain m where m: "get_mimetype buf = Some m"
    by (auto simp: http_serve_def split: option.splits)
  define cs where "cs = (if inp' = ''/'' \<and> \<not> he_cookie e
      then [Lws_http w (Add_http_header ''set-cookie:'' (http_cookie e))] else []) @
    (if he_ssl e then [Lws_http w (Add_http_header ''Strict-Transport-Security:''
                                        ''max-age=15768000 ; includeSubDomains'')] else [])"
  obtain good tr1 where gt: "lws_all orc cs [] = (good, tr1)" by (cases "lws_all orc cs []")
  have "Lws_http w (Serve_http_file path mime) \<notin> set (snd (lws_all orc cs []))"
    by (rule lws_all_no) (auto simp: cs_def)
  then have no: "Lws_http w (Serve_http_file path mime) \<notin> set tr1" by (simp add: gt)
  have "http_serve orc e w inp pss = (if \<not> good then Some (1, pss, tr1)
      else Some (if orc (tr1 @ [Lws_http w (Serve_http_file buf m)]) < 0 then - 1 else 0, pss,
                 tr1 @ [Lws_http w (Serve_http_file buf m)]))"
    using gt unfolding cs_def
    by (cases "inp' = ''/''"; cases "he_cookie e"; cases "he_ssl e")
      (simp_all add: http_serve_def fp m http_cookie_fits Let_def del: lws_all.simps)
  with assms no have "path = buf" "mime = m" by (auto split: if_splits)
  with fp m show ?thesis by blast
qed

text \<open>
  C10: Whatever a request names, the file served is a single component below the resource
  directory: its path is the directory, a slash, and a name that has no slash and is not
  empty, a dot or two dots; it fits its buffer, and its type is one of the five known ones.
\<close>

theorem http_path_confined:
  assumes "http_request orc e w inp len pss = Some (r, pss', tr)"
    and "Lws_http w (Serve_http_file path mime) \<in> set tr" and "length (he_resource_path e) < 255"
  shows "\<exists>leaf. path = he_resource_path e @ ''/'' @ leaf \<and> CHR ''/'' \<notin> set leaf \<and>
    leaf \<notin> {[], ''.'', ''..''} \<and> length path < 256 \<and> get_mimetype path = Some mime"
proof -
  have serve: "http_serve orc e w inp pss = Some (r, pss', tr)" and sl: "CHR ''/'' \<notin> set (drop 1 inp)"
    using assms(1,2) http_leaf_serves_nothing [of orc e w pss r pss' tr path mime]
    by (auto simp: http_request_def try_to_reuse_def Let_def split: if_splits)
  from http_serve_serves [OF serve assms(2)] obtain inp' where
    fp: "http_file_path e inp = Some (inp', path)" and mime: "get_mimetype path = Some mime" by blast
  from http_file_path_leaf [OF fp sl] assms(3) obtain leaf where
    l: "path = he_resource_path e @ ''/'' @ leaf" "CHR ''/'' \<notin> set leaf" "length path < 256" by blast
  have "leaf \<notin> {[], ''.'', ''..''}"
    using mimetype_last [OF mime] l(1) by auto
  with l mime show ?thesis by blast
qed

theorem http_path_confined_witness:
  "\<exists>leaf. ''/srv/a.png'' = he_resource_path http_env0 @ ''/'' @ leaf \<and> CHR ''/'' \<notin> set leaf"
proof -
  have eq: "take 11 ''/a.png'' \<noteq> ''/cgit-data/''" "take 10 ''/a.png'' \<noteq> ''/proxytest''" by simp_all
  have "http_file_path http_env0 ''/a.png'' = Some (''/a.png'', ''/srv/a.png'')"
    by (simp add: http_file_path_def str_fits_def strncat_buf_def http_env0_def)
  moreover have "get_mimetype ''/srv/a.png'' = Some ''image/png''"
    by (simp add: get_mimetype_def ends_with_def)
  ultimately have "\<exists>tr. http_request (\<lambda>_. 0) http_env0 1 ''/a.png'' 6 http_pss0 = Some (0, http_pss0, tr) \<and>
      Lws_http 1 (Serve_http_file ''/srv/a.png'' ''image/png'') \<in> set tr"
    by (simp add: http_request_def http_serve_def Let_def) (simp add: http_env0_def)
  then obtain tr where "http_request (\<lambda>_. 0) http_env0 1 ''/a.png'' 6 http_pss0 = Some (0, http_pss0, tr)"
    "Lws_http 1 (Serve_http_file ''/srv/a.png'' ''image/png'') \<in> set tr" by blast
  from http_path_confined [OF this] show ?thesis by (auto simp: http_env0_def)
qed

lemma http_leaf_total: "\<exists>x. http_leaf orc e w pss = Some x"
proof (cases "length (he_resource_path e) > 1024 - 10")
  case True
  then show ?thesis by (simp add: http_leaf_def)
next
  case False
  then show ?thesis
    by (auto simp: http_leaf_def str_fits_def Let_def split: option.splits prod.splits)
qed

lemma http_file_path_total:
  assumes "length (he_resource_path e) \<le> 245"
  shows "\<exists>x. http_file_path e inp = Some x"
  using assms by (auto simp: http_file_path_def str_fits_def)

lemma http_serve_total:
  assumes "http_file_path e inp = Some x"
  shows "\<exists>y. http_serve orc e w inp pss = Some y"
  using assms http_cookie_fits [of e]
  by (cases x) (auto simp: http_serve_def Let_def split: option.splits prod.splits)

text \<open>
  C12: The fixed buffers of a request bound the resource path.  With a path of at most 245
  characters every request, whatever it names, is handled without leaving a buffer; from 246
  characters on the request for the root page overflows the 256 bytes of buf, for the path
  comes from the command line and is not checked.  The hand-sent file is checked, and its
  path just fits.
\<close>

theorem http_request_buffers:
  "(length (he_resource_path e) \<le> 245 \<longrightarrow> (\<exists>x. http_request orc e w inp len pss = Some x)) \<and>
   (246 \<le> length (he_resource_path e) \<longrightarrow> \<not> he_post e \<longrightarrow> 1 \<le> len \<longrightarrow> http_request orc e w ''/'' len pss = None)"
proof (intro conjI impI)
  assume "length (he_resource_path e) \<le> 245"
  then obtain y where "http_serve orc e w inp pss = Some y"
    using http_file_path_total http_serve_total by blast
  then show "\<exists>x. http_request orc e w inp len pss = Some x"
    using http_leaf_total [of orc e w pss] by (cases y) (simp add: http_request_def try_to_reuse_def Let_def)
next
  assume "246 \<le> length (he_resource_path e)" "\<not> he_post e" "1 \<le> len"
  then show "http_request orc e w ''/'' len pss = None"
    by (simp add: http_request_def http_serve_def http_file_path_def str_fits_def)
qed

theorem http_request_buffers_witness:
  "(\<exists>x. http_request (\<lambda>_. 0) http_env0 1 ''/'' 1 http_pss0 = Some x) \<and>
   http_request (\<lambda>_. 0) (http_env0\<lparr>he_resource_path := replicate 250 CHR ''a''\<rparr>) 1 ''/'' 1 http_pss0 = None"
proof
  show "\<exists>x. http_request (\<lambda>_. 0) http_env0 1 ''/'' 1 http_pss0 = Some x"
    using http_request_buffers [of http_env0 "\<lambda>_. 0" 1 "''/''" 1 http_pss0] by (auto simp: http_env0_def)
  show "http_request (\<lambda>_. 0) (http_env0\<lparr>he_resource_path := replicate 250 CHR ''a''\<rparr>) 1 ''/'' 1 http_pss0 = None"
    using http_request_buffers [of "http_env0\<lparr>he_resource_path := replicate 250 CHR ''a''\<rparr>" "\<lambda>_. 0" 1 "''/''" 1 http_pss0]
    by (auto simp: http_env0_def)
qed

text \<open>
  The branch for cgit data can never be taken: the slashes of its prefix fail the test
  for directories that comes first, so every such request is refused with status 406.
\<close>

theorem http_cgit_refused:
  assumes "1 \<le> len"
  shows "\<exists>r. http_request orc e w (''/cgit-data/'' @ rest) len pss =
    Some (r, pss, [Lws_http w (Return_http_status 406), Lws_http w Http_transaction_completed])"
  using assms by (simp add: http_request_def try_to_reuse_def Let_def)

theorem http_cgit_refused_witness:
  "\<exists>r. http_request (\<lambda>_. 0) http_env0 1 (''/cgit-data/'' @ ''cgit.css'') 19 http_pss0 =
    Some (r, http_pss0, [Lws_http 1 (Return_http_status 406), Lws_http 1 Http_transaction_completed])"
  by (rule http_cgit_refused) simp

text \<open>
  C11: Sending by hand is faithful: each writeable callback of a connection with an open file
  returns, sends the next bytes of the file in order in chunks of at most 4096 bytes, and
  either keeps the file open, having asked for the next callback, with exactly the rest still
  to send, or closes it; it goes on to the next transaction only when the whole file has been
  sent, and otherwise the connection is dropped.
\<close>

theorem http_writeable_file:
  assumes "http_env_ok e" and "allowance_ok orc w" and "fop_fd pss = Some rest" and "he_child e = None"
    and "\<not> client_finished pss" and "reason_bf pss AND 2 = 0"
  shows "\<exists>r pss' tr rest'. http_writeable orc e w pss = Some (r, pss', tr) \<and>
    concat (written tr) @ rest' = rest \<and> (\<forall>c \<in> set (written tr). length c \<le> 4096) \<and>
    (case fop_fd pss' of
       Some left \<Rightarrow> r = 0 \<and> left = rest' \<and> last tr = Lws_callback_on_writable w
     | None \<Rightarrow> Lws_http w Vfs_file_close \<in> set tr \<and>
               (Lws_http w Http_transaction_completed \<in> set tr \<and> rest' = [] \<or> r = - 1))"
proof -
  obtain how rest' tr' where s: "http_send orc e w rest 0 [] = Some (how, rest', tr')"
    "concat (written tr') @ rest' = rest" "\<forall>c \<in> set (written tr'). c \<noteq> [] \<and> length c \<le> 4096"
    "how = Penultimate \<longrightarrow> rest' = []"
    using http_send_correct [OF assms(1,2), of rest 0 "[]"] by auto
  have run: "http_writeable orc e w pss = http_send_file orc e w pss"
    using assms(3-6) by (simp add: http_writeable_def)
  show ?thesis
    using s assms(3) by (cases how) (auto simp: run http_send_file_def try_to_reuse_def Let_def)
qed

theorem http_writeable_file_witness:
  "\<exists>r pss' tr rest'. http_writeable (\<lambda>_. 2) http_env0 1 (http_pss0\<lparr>fop_fd := Some [1, 2, 3]\<rparr>) = Some (r, pss', tr) \<and>
    concat (written tr) @ rest' = [1, 2, 3]"
proof -
  have "allowance_ok (\<lambda>_. 2) 1" by (simp add: allowance_ok_def)
  from http_writeable_file [OF http_env0_ok this, of "http_pss0\<lparr>fop_fd := Some [1, 2, 3]\<rparr>" "[1, 2, 3]"]
  show ?thesis by (auto simp: http_env0_def http_pss0_def)
qed

text \<open>
  The answer to a form fits its array however long the fields are, and its
  Content-Length is the number of bytes sent as its body; but a form whose body never
  arrived has no parser, and completing it hands a null pointer to the library.
\<close>

theorem http_form_answer:
  assumes "http_env_ok e"
  shows "\<exists>answer r pss' tr. length answer \<le> 499 \<and>
    http_body_completion orc e w (pss\<lparr>spa := True\<rparr>) = Some (r, pss', tr) \<and>
    result_text pss' = answer \<and> result_len pss' = int (length answer) \<and>
    (r = 0 \<longrightarrow> Lws_http w (Add_http_header_content_length (int (length answer))) \<in> set tr \<and>
       Lws_write w (bytes_of answer) LWS_WRITE_HTTP \<in> set tr) \<and>
    http_body_completion orc e w (pss\<lparr>spa := False\<rparr>) = None"
proof -
  obtain answer where answer: "http_form_result e (pss\<lparr>spa := True\<rparr>) = Some answer" "length answer \<le> 499"
    using http_form_result_fits [OF assms] by blast
  define cs where "cs = [Lws_http w (Add_http_header_status 200),
        Lws_http w (Add_http_header ''content-type'' ''text/html''),
        Lws_http w (Add_http_header_content_length (int (length answer))), Lws_http w Finalize_http_header]"
  obtain good tr where gt: "lws_all orc cs [Lws_http w Spa_finalize] = (good, tr)"
    by (cases "lws_all orc cs [Lws_http w Spa_finalize]")
  have sent: "Lws_http w (Add_http_header_content_length (int (length answer))) \<in> set tr" if good
    using gt that by (auto simp: cs_def split: if_splits)
  have "http_body_completion orc e w (pss\<lparr>spa := False\<rparr>) = None"
    by (simp add: http_body_completion_def)
  with answer gt sent show ?thesis
    by (cases good) (auto simp: http_body_completion_def try_to_reuse_def Let_def cs_def)
qed

theorem http_form_answer_witness:
  "\<exists>txt r pss' tr. length txt \<le> 499 \<and>
    http_body_completion (\<lambda>_. 0) http_env0 1 (http_pss0\<lparr>spa := True\<rparr>) = Some (r, pss', tr) \<and> result_text pss' = txt"
  using http_form_answer [OF http_env0_ok, of "\<lambda>_. 0" 1 http_pss0] by blast



end
