(* ===== verification/MergeSort.thy ===== *)
theory MergeSort
  imports CList "HOL-Library.Multiset"
begin

text \<open>
  The bottom-up merge sort that the sort macros of utlist.h and uthash.h share, which merges runs
  of doubled length until one merge is enough.  First the algorithm on plain lists with its
  correctness; then the interface between it and the linked structure it works on: what reading
  a link, emitting a node and ending a pass must do, and the recursion of the loops.  Each macro
  interprets it with its own definitions.
\<close>

subsection \<open>The merge sort on lists\<close>

text \<open>The algorithm on plain lists: mrg merges two runs, bpass merges each run of
  length n with the next one, bsort repeats that with doubled n.\<close>

fun mrg :: "('a \<Rightarrow> 'a \<Rightarrow> bool) \<Rightarrow> 'a list \<Rightarrow> 'a list \<Rightarrow> 'a list" where
  "mrg le [] qs = qs"
| "mrg le ps [] = ps"
| "mrg le (p # ps) (q # qs) = (if le p q then p # mrg le ps (q # qs) else q # mrg le (p # ps) qs)"

lemma mrg_Nil2 [simp]: "mrg le ps [] = ps"
  by (cases ps) auto

lemma mset_mrg [simp]: "mset (mrg le ps qs) = mset ps + mset qs"
  by (induction le ps qs rule: mrg.induct) auto

lemma set_mrg [simp]: "set (mrg le ps qs) = set ps \<union> set qs"
  by (metis mset_mrg set_mset_mset set_mset_union)

lemma length_mrg [simp]: "length (mrg le ps qs) = length ps + length qs"
  by (metis mset_mrg size_mset size_union)

function bpass :: "('a \<Rightarrow> 'a \<Rightarrow> bool) \<Rightarrow> nat \<Rightarrow> 'a list \<Rightarrow> 'a list" where
  "bpass le n xs = (if xs = [] \<or> n = 0 then xs
     else mrg le (take n xs) (take n (drop n xs)) @ bpass le n (drop n (drop n xs)))"
  by auto
termination by (relation "measure (\<lambda>(le, n, xs). length xs)") auto

declare bpass.simps [simp del]

function bsort :: "('a \<Rightarrow> 'a \<Rightarrow> bool) \<Rightarrow> nat \<Rightarrow> 'a list \<Rightarrow> 'a list" where
  "bsort le n xs = (if length xs \<le> 2 * n \<or> n = 0 then bpass le n xs else bsort le (2 * n) (bpass le n xs))"
  by auto

lemma mset_bpass [simp]: "mset (bpass le n xs) = mset xs"
proof (induction le n xs rule: bpass.induct)
  case (1 le n xs)
  show ?case
  proof (cases "xs = [] \<or> n = 0")
    case True
    then show ?thesis by (simp add: bpass.simps [of le n xs])
  next
    case False
    then have "mset (bpass le n xs) = mset (take n xs @ take n (drop n xs) @ drop n (drop n xs))"
      using 1 by (subst bpass.simps) simp
    then show ?thesis by (simp only: append_take_drop_id)
  qed
qed

lemma length_bpass [simp]: "length (bpass le n xs) = length xs"
  by (metis mset_bpass size_mset)

lemma set_bpass [simp]: "set (bpass le n xs) = set xs"
  by (metis mset_bpass set_mset_mset)

termination bsort
  by (relation "measure (\<lambda>(le, n, xs). length xs - n)") auto

declare bsort.simps [simp del]

lemma mset_bsort [simp]: "mset (bsort le n xs) = mset xs"
proof (induction le n xs rule: bsort.induct)
  case (1 le n xs)
  then show ?case by (cases "length xs \<le> 2 * n \<or> n = 0") (simp_all add: bsort.simps [of le n xs])
qed

lemma set_bsort [simp]: "set (bsort le n xs) = set xs"
  by (metis mset_bsort set_mset_mset)

lemma length_bsort [simp]: "length (bsort le n xs) = length xs"
  by (metis mset_bsort size_mset)

text \<open>The order on the elements of a list: total, transitive and defined on a set S only.\<close>

definition preorder_on_set :: "('a \<Rightarrow> 'a \<Rightarrow> bool) \<Rightarrow> 'a set \<Rightarrow> bool" where
  "preorder_on_set le S \<longleftrightarrow>
     (\<forall>x \<in> S. \<forall>y \<in> S. le x y \<or> le y x) \<and> (\<forall>x \<in> S. \<forall>y \<in> S. \<forall>z \<in> S. le x y \<longrightarrow> le y z \<longrightarrow> le x z)"

lemma preorder_total: "preorder_on_set le S \<Longrightarrow> x \<in> S \<Longrightarrow> y \<in> S \<Longrightarrow> \<not> le x y \<Longrightarrow> le y x"
  unfolding preorder_on_set_def by blast

lemma preorder_trans: "preorder_on_set le S \<Longrightarrow> x \<in> S \<Longrightarrow> y \<in> S \<Longrightarrow> z \<in> S \<Longrightarrow> le x y \<Longrightarrow> le y z \<Longrightarrow> le x z"
  unfolding preorder_on_set_def by blast

lemma preorder_sub: "preorder_on_set le S \<Longrightarrow> T \<subseteq> S \<Longrightarrow> preorder_on_set le T"
  unfolding preorder_on_set_def by (meson subsetD)

lemma sorted_mrg:
  assumes "preorder_on_set le (set ps \<union> set qs)" "sorted_wrt le ps" "sorted_wrt le qs"
  shows "sorted_wrt le (mrg le ps qs)"
  using assms
proof (induction le ps qs rule: mrg.induct)
  case (3 le p ps q qs)
  note po = 3(3)
  show ?case
  proof (cases "le p q")
    case True
    have "le p x" if "x \<in> set qs" for x
      using 3(5) that preorder_trans [OF po, of p q x] True by auto
    then show ?thesis
      using 3(1)[OF True preorder_sub [OF po]] 3(4,5) True by auto
  next
    case False
    then have qp: "le q p" using preorder_total [OF po, of p q] by auto
    have "le q x" if "x \<in> set ps" for x
      using 3(4) that preorder_trans [OF po, of q p x] qp by auto
    then show ?thesis
      using 3(2)[OF False preorder_sub [OF po]] 3(4,5) False qp by auto
  qed
qed auto

text \<open>Elements that compare equal keep their order.\<close>

lemma filter_mrg:
  assumes "preorder_on_set le (set ps \<union> set qs)" "sorted_wrt le ps"
    and "\<And>x y. P x \<Longrightarrow> P y \<Longrightarrow> x \<in> set ps \<union> set qs \<Longrightarrow> y \<in> set ps \<union> set qs \<Longrightarrow> le x y"
  shows "filter P (mrg le ps qs) = filter P ps @ filter P qs"
  using assms
proof (induction le ps qs rule: mrg.induct)
  case (3 le p ps q qs)
  note po = 3(3)
  show ?case
  proof (cases "le p q")
    case True
    have "filter P (mrg le ps (q # qs)) = filter P ps @ filter P (q # qs)"
      using 3(4,5) by (intro 3(1) [OF True preorder_sub [OF po]]) auto
    with True show ?thesis by simp
  next
    case False
    have IH: "filter P (mrg le (p # ps) qs) = filter P (p # ps) @ filter P qs"
      using 3(4,5) by (intro 3(2) [OF False preorder_sub [OF po]]) auto
    have "\<not> P x" if "P q" "x \<in> set (p # ps)" for x
    proof
      assume "P x"
      have "le x q" using 3(5)[of x q] that \<open>P x\<close> by auto
      moreover have "x = p \<or> le p x" using 3(4) that by auto
      ultimately show False using False that preorder_trans [OF po, of p x q] by auto
    qed
    then have "P q \<Longrightarrow> filter P (p # ps) = []" by (simp add: filter_empty_conv)
    with IH False show ?thesis by auto
  qed
qed auto

text \<open>A list whose blocks of length n are sorted.\<close>

function runs :: "('a \<Rightarrow> 'a \<Rightarrow> bool) \<Rightarrow> nat \<Rightarrow> 'a list \<Rightarrow> bool" where
  "runs le n xs = (if xs = [] \<or> n = 0 then True else sorted_wrt le (take n xs) \<and> runs le n (drop n xs))"
  by auto
termination by (relation "measure (\<lambda>(le, n, xs). length xs)") auto

declare runs.simps [simp del]

lemma runs_one [simp]: "runs le 1 xs"
proof (induction xs)
  case Nil
  then show ?case by (simp add: runs.simps)
next
  case (Cons x xs)
  then show ?case by (subst runs.simps) simp
qed

lemma runs_step: "xs \<noteq> [] \<Longrightarrow> 0 < n \<Longrightarrow> runs le n xs \<longleftrightarrow> sorted_wrt le (take n xs) \<and> runs le n (drop n xs)"
  by (subst runs.simps) simp

lemma runs_trivial [simp]: "runs le n []" "runs le 0 xs"
  by (simp_all add: runs.simps)

lemma runs_take: "runs le n xs \<Longrightarrow> 0 < n \<Longrightarrow> sorted_wrt le (take n xs)"
  by (cases "xs = []") (auto simp: runs_step)

lemma runs_all: "runs le n xs \<Longrightarrow> length xs \<le> n \<Longrightarrow> sorted_wrt le xs"
  using runs_take [of le n xs] by (cases "n = 0") auto

lemma runs_drop: "runs le n xs \<Longrightarrow> runs le n (drop n xs)"
  by (cases "xs = [] \<or> n = 0") (auto simp: runs_step)

lemma runs_bpass:
  assumes "preorder_on_set le (set xs)" "runs le n xs"
  shows "runs le (2 * n) (bpass le n xs)"
  using assms
proof (induction le n xs rule: bpass.induct)
  case (1 le n xs)
  show ?case
  proof (cases "xs = [] \<or> n = 0")
    case True
    then show ?thesis by (auto simp: bpass.simps [of le n xs] runs.simps)
  next
    case False
    let ?m = "mrg le (take n xs) (take n (drop n xs))" and ?d = "drop n (drop n xs)"
    have sub: "set ?d \<subseteq> set xs" "set (take n xs) \<union> set (take n (drop n xs)) \<subseteq> set xs"
      by (meson order_trans set_drop_subset, meson Un_least order_trans set_drop_subset set_take_subset)
    have eq: "bpass le n xs = ?m @ bpass le n ?d" using False by (subst bpass.simps) simp
    have sm: "sorted_wrt le ?m"
      using runs_take [OF 1(3)] runs_take [OF runs_drop [OF 1(3)]] False
      by (intro sorted_mrg preorder_sub [OF 1(2) sub(2)]) auto
    have IH: "runs le (2 * n) (bpass le n ?d)"
      by (intro 1(1) [OF False] preorder_sub [OF 1(2) sub(1)] runs_drop 1(3))
    show ?thesis
    proof (cases "length xs < 2 * n")
      case True
      then have "bpass le n ?d = []" by (metis diff_is_0_eq' drop_drop length_bpass length_drop
            length_0_conv less_imp_le mult_2)
      moreover have "length ?m \<le> 2 * n" by simp
      ultimately show ?thesis using eq sm by (subst runs.simps) (simp add: runs.simps)
    next
      case False
      then have "length ?m = 2 * n" by simp
      then show ?thesis using eq sm IH by (subst runs.simps) simp
    qed
  qed
qed

lemma filter_bpass:
  assumes "preorder_on_set le (set xs)" "runs le n xs"
    and "\<And>x y. P x \<Longrightarrow> P y \<Longrightarrow> x \<in> set xs \<Longrightarrow> y \<in> set xs \<Longrightarrow> le x y"
  shows "filter P (bpass le n xs) = filter P xs"
  using assms
proof (induction le n xs rule: bpass.induct)
  case (1 le n xs)
  show ?case
  proof (cases "xs = [] \<or> n = 0")
    case True
    then show ?thesis by (simp add: bpass.simps [of le n xs])
  next
    case False
    let ?d = "drop n (drop n xs)"
    have sub: "set ?d \<subseteq> set xs" "set (take n xs) \<union> set (take n (drop n xs)) \<subseteq> set xs"
      by (meson order_trans set_drop_subset, meson Un_least order_trans set_drop_subset set_take_subset)
    have "filter P (mrg le (take n xs) (take n (drop n xs))) =
        filter P (take n xs) @ filter P (take n (drop n xs))"
      by (rule filter_mrg [OF preorder_sub [OF 1(2) sub(2)]])
        (use sub(2) 1(4) False runs_take [OF 1(3)] in blast)+
    moreover have "filter P (bpass le n ?d) = filter P ?d"
      by (rule 1(1) [OF False preorder_sub [OF 1(2) sub(1)]])
        (use sub(1) 1(3,4) in \<open>blast intro: runs_drop\<close>)+
    ultimately have "filter P (bpass le n xs) = filter P (take n xs @ take n (drop n xs) @ ?d)"
      using False by (subst bpass.simps) simp
    then show ?thesis by (simp only: append_take_drop_id)
  qed
qed

lemma sorted_bsort:
  assumes "preorder_on_set le (set xs)" "runs le n xs" "0 < n"
  shows "sorted_wrt le (bsort le n xs)"
  using assms
proof (induction le n xs rule: bsort.induct)
  case (1 le n xs)
  then show ?case
    by (subst bsort.simps) (auto intro: runs_all [OF runs_bpass] runs_bpass)
qed

lemma filter_bsort:
  assumes "preorder_on_set le (set xs)" "runs le n xs" "0 < n"
    and "\<And>x y. P x \<Longrightarrow> P y \<Longrightarrow> x \<in> set xs \<Longrightarrow> y \<in> set xs \<Longrightarrow> le x y"
  shows "filter P (bsort le n xs) = filter P xs"
  using assms
proof (induction le n xs rule: bsort.induct)
  case (1 le n xs)
  have f: "filter P (bpass le n xs) = filter P xs" by (rule filter_bpass [OF 1(2,3,5)])
  show ?case
  proof (cases "length xs \<le> 2 * n")
    case True
    with f show ?thesis by (subst bsort.simps) simp
  next
    case False
    have "filter P (bsort le (2 * n) (bpass le n xs)) = filter P (bpass le n xs)"
      using False 1(2-5) by (intro 1(1)) (auto intro: runs_bpass)
    with f False 1(4) show ?thesis by (subst bsort.simps) simp
  qed
qed

subsection \<open>The interface to a linked structure\<close>

text \<open>
  The parameter oh of the reading functions is the head at the beginning of a pass (circular
  lists end there).  The merged list so far is out (built); only S m m' says that m' differs from
  m in the links of nodes in S at most; a pass ends with close, which makes out a list again
  (closed).  Counters are C integers that are exact up to lim.
\<close>

locale merge_sort =
  fixes nx :: "addr option \<Rightarrow> 'm \<Rightarrow> addr \<Rightarrow> addr option option"
    and cmpr :: "'m \<Rightarrow> addr \<Rightarrow> addr \<Rightarrow> int option"
    and only :: "addr set \<Rightarrow> 'm \<Rightarrow> 'm \<Rightarrow> bool"
    and built :: "'m \<Rightarrow> addr option \<Rightarrow> addr option \<Rightarrow> addr list \<Rightarrow> bool"
    and closed :: "'m \<Rightarrow> addr option \<Rightarrow> addr list \<Rightarrow> bool"
    and emit :: "addr \<Rightarrow> addr option \<Rightarrow> addr option \<Rightarrow> 'm \<Rightarrow> (addr option \<times> 'm) option"
    and close :: "addr option \<Rightarrow> addr option \<Rightarrow> 'm \<Rightarrow> 'm option"
    and step :: "addr option \<Rightarrow> int \<Rightarrow> int \<Rightarrow> addr option \<Rightarrow> int \<Rightarrow> 'm \<Rightarrow> (addr option \<times> int) option"
    and merge :: "addr option \<Rightarrow> addr option \<Rightarrow> addr option \<Rightarrow> int \<Rightarrow> int \<Rightarrow> addr option \<Rightarrow> addr option \<Rightarrow> 'm \<Rightarrow>
        (addr option \<times> addr option \<times> addr option \<times> 'm) option"
    and pass :: "addr option \<Rightarrow> int \<Rightarrow> addr option \<Rightarrow> addr option \<Rightarrow> addr option \<Rightarrow> int \<Rightarrow> 'm \<Rightarrow>
        (addr option \<times> addr option \<times> int \<times> 'm) option"
    and loop :: "int \<Rightarrow> addr option \<Rightarrow> 'm \<Rightarrow> 'r option"
    and fin :: "addr option \<Rightarrow> addr option \<Rightarrow> 'm \<Rightarrow> 'r"
    and lim :: int
  assumes only_refl: "only S m m"
    and only_trans: "only S m1 m2 \<Longrightarrow> only T m2 m3 \<Longrightarrow> S \<subseteq> U \<Longrightarrow> T \<subseteq> U \<Longrightarrow> only U m1 m3"
    and only_nx: "only S m m' \<Longrightarrow> a \<notin> S \<Longrightarrow> nx oh m' a = nx oh m a"
    and only_cmpr: "only S m m' \<Longrightarrow> cmpr m' a b = cmpr m a b"
    and built_Nil: "built m None None []"
    and emit_law: "built m l t out \<Longrightarrow> nx oh m e \<noteq> None \<Longrightarrow> distinct (out @ [e]) \<Longrightarrow>
      \<exists>l' m'. emit e l t m = Some (l', m') \<and> built m' l' (Some e) (out @ [e]) \<and> only (insert e (set out)) m m'"
    and close_law: "built m l t out \<Longrightarrow> out \<noteq> [] \<Longrightarrow> distinct out \<Longrightarrow>
      \<exists>m'. close l t m = Some m' \<and> closed m' l out \<and> only (set out) m m'"
    and built_tail: "built m l t out \<Longrightarrow> out \<noteq> [] \<Longrightarrow> t = Some (last out)"
    and closed_chain: "closed m l xs \<Longrightarrow> xs \<noteq> [] \<Longrightarrow> chain (nx l m) l xs"
    and step_stop: "n \<le> i \<Longrightarrow> step oh i n q ps m = Some (q, ps)"
    and step_end: "i < n \<Longrightarrow> 0 \<le> ps \<Longrightarrow> ps < lim \<Longrightarrow> nx oh m a = Some None \<Longrightarrow>
      step oh i n (Some a) ps m = Some (None, ps + 1)"
    and step_next: "i < n \<Longrightarrow> 0 \<le> i \<Longrightarrow> i < lim \<Longrightarrow> 0 \<le> ps \<Longrightarrow> ps < lim \<Longrightarrow> nx oh m a = Some (Some b) \<Longrightarrow>
      step oh i n (Some a) ps m = step oh (i + 1) n (Some b) (ps + 1) m"
    and merge_stop: "ps = 0 \<Longrightarrow> qs = 0 \<or> q = None \<Longrightarrow> merge oh p q ps qs l t m = Some (q, l, t, m)"
    and merge_p: "nx oh m e = Some p' \<Longrightarrow> emit e l t m = Some (l', m') \<Longrightarrow> 0 < ps \<Longrightarrow> ps \<le> lim \<Longrightarrow>
      qs = 0 \<or> q = None \<or> (\<exists>b c. q = Some b \<and> cmpr m e b = Some c \<and> c \<le> 0) \<Longrightarrow>
      merge oh (Some e) q ps qs l t m = merge oh p' q (ps - 1) qs l' (Some e) m'"
    and merge_q: "nx oh m e = Some q' \<Longrightarrow> emit e l t m = Some (l', m') \<Longrightarrow> 0 < qs \<Longrightarrow> qs \<le> lim \<Longrightarrow> 0 \<le> ps \<Longrightarrow>
      ps = 0 \<or> (\<exists>a c. p = Some a \<and> cmpr m a e = Some c \<and> \<not> c \<le> 0) \<Longrightarrow>
      merge oh p (Some e) ps qs l t m = merge oh p q' ps (qs - 1) l' (Some e) m'"
    and pass_stop: "pass oh n None l t k m = Some (l, t, k, m)"
    and pass_step: "step oh 0 n (Some a) 0 m = Some (q, ps) \<Longrightarrow> merge oh (Some a) q ps n l t m = Some (p', l', t', m') \<Longrightarrow>
      0 \<le> k \<Longrightarrow> k < lim \<Longrightarrow> pass oh n (Some a) l t k m = pass oh n p' l' t' (k + 1) m'"
    and loop_step: "pass l n l None None 0 m = Some (l', t', k, m1) \<Longrightarrow> close l' t' m1 = Some m2 \<Longrightarrow>
      0 < n \<Longrightarrow> n = 1 \<or> n < lim \<Longrightarrow> 0 \<le> k \<Longrightarrow> loop n l m = (if k \<le> 1 then Some (fin l' t' m2) else loop (n * 2) l' m2)"
begin

text \<open>The comparison as an order on the nodes of S.\<close>

definition ordered :: "'m \<Rightarrow> (addr \<Rightarrow> addr \<Rightarrow> bool) \<Rightarrow> addr set \<Rightarrow> bool" where
  "ordered m le S \<longleftrightarrow> (\<forall>a \<in> S. \<forall>b \<in> S. \<exists>c. cmpr m a b = Some c \<and> (le a b \<longleftrightarrow> c \<le> 0))"

lemma ordered_only: "only S m m' \<Longrightarrow> ordered m' le T \<longleftrightarrow> ordered m le T"
  by (simp add: ordered_def only_cmpr)

lemma ordered_sub: "ordered m le S \<Longrightarrow> T \<subseteq> S \<Longrightarrow> ordered m le T"
  unfolding ordered_def by (meson subsetD)

lemma only_chain: "only S m m' \<Longrightarrow> S \<inter> set xs = {} \<Longrightarrow> chain (nx oh m) p xs \<Longrightarrow> chain (nx oh m') p xs"
  by (subst chain_cong [where nxt' = "nx oh m"]) (auto dest: only_nx)

lemma only_seg: "only S m m' \<Longrightarrow> S \<inter> set xs = {} \<Longrightarrow> seg (nx oh m) p xs q \<Longrightarrow> seg (nx oh m') p xs q"
  by (subst seg_cong [where nxt' = "nx oh m"]) (auto dest: only_nx)

lemma step_list:
  assumes "chain (nx oh m) q R" "R \<noteq> []" "0 \<le> i" "i \<le> n" "0 \<le> ps" "ps + int (length R) \<le> lim" "i \<le> ps"
  shows "\<exists>q'. step oh i n q ps m = Some (q', ps + int (length (take (nat (n - i)) R))) \<and>
    seg (nx oh m) q (take (nat (n - i)) R) q' \<and> chain (nx oh m) q' (drop (nat (n - i)) R)"
  using assms
proof (induction R arbitrary: q i ps)
  case (Cons x xs)
  show ?case
  proof (cases "i < n")
    case False
    with Cons.prems show ?thesis by (auto simp: step_stop)
  next
    case True
    from Cons.prems(1) obtain r where r: "q = Some x" "nx oh m x = Some r" "chain (nx oh m) r xs"
      by auto
    have n: "nat (n - i) = Suc (nat (n - (i + 1)))" using True by simp
    show ?thesis
    proof (cases xs)
      case Nil
      then have "r = None" using r(3) by simp
      with True r Nil n Cons.prems(5,6) show ?thesis by (auto simp: step_end)
    next
      case (Cons y ys)
      then have y: "r = Some y" and "xs \<noteq> []" using r(3) by auto
      with Cons.IH [OF r(3), of "i + 1" "ps + 1"] Cons.prems True obtain q' where
        "step oh (i + 1) n r (ps + 1) m = Some (q', ps + 1 + int (length (take (nat (n - (i + 1))) xs)))"
        "seg (nx oh m) r (take (nat (n - (i + 1))) xs) q'"
        "chain (nx oh m) q' (drop (nat (n - (i + 1))) xs)" by auto
      moreover have "step oh i n q ps m = step oh (i + 1) n r (ps + 1) m"
        using step_next [of i n ps oh m x y] True Cons.prems r y by auto
      ultimately show ?thesis using r(1,2) unfolding n by auto
    qed
  qed
qed simp

lemma merge_list:
  assumes "built m l t out" "seg (nx oh m) p ps X" "chain (nx oh m) q R"
    and "distinct (out @ ps @ R)" "ordered m le (set ps \<union> set (take k R))" "int (length ps) \<le> lim" "int k \<le> lim"
  shows "\<exists>q' l' t' m'. merge oh p q (int (length ps)) (int k) l t m = Some (q', l', t', m') \<and>
    built m' l' t' (out @ mrg le ps (take k R)) \<and>
    chain (nx oh m') q' (drop k R) \<and> only (set (out @ ps @ R)) m m'"
  using assms
proof (induction "length ps + length (take k R)" arbitrary: m l t out p ps q R k)
  case 0
  then have "ps = []" "k = 0 \<or> R = []" by (cases k; cases R; auto)+
  with 0 show ?case by (auto simp: merge_stop only_refl)
next
  case (Suc j)
  note mem = Suc.prems(1) and sp = Suc.prems(2) and cq = Suc.prems(3) and dist = Suc.prems(4)
    and cl = Suc.prems(5)
  consider (p) e ps' where "ps = e # ps'" "take k R = [] \<or> le e (hd R)"
    | (q) e R' k' where "R = e # R'" "k = Suc k'" "ps = [] \<or> \<not> le (hd ps) e"
    using Suc.hyps(2) by (cases ps; cases R; cases k) auto
  then show ?case
  proof cases
    case p
    then obtain p' where p': "p = Some e" "nx oh m e = Some p'" "seg (nx oh m) p' ps' X"
      using sp by auto
    have "distinct (out @ [e])" using dist p(1) by auto
    with emit_law [OF mem, of oh e] p'(2) obtain l1 m1 where
      em: "emit e l t m = Some (l1, m1)" "built m1 l1 (Some e) (out @ [e])" "only (insert e (set out)) m m1"
      by auto
    have "int k = 0 \<or> q = None \<or> (\<exists>b c. q = Some b \<and> cmpr m e b = Some c \<and> c \<le> 0)"
    proof (cases "take k R")
      case Nil
      then show ?thesis using cq by auto
    next
      case (Cons b bs)
      then have b: "q = Some b" "hd R = b" using cq by (cases R; cases k; auto)+
      obtain c where "cmpr m e b = Some c" "le e b \<longleftrightarrow> c \<le> 0"
        using cl p(1) Cons unfolding ordered_def by auto
      with b p(2) Cons show ?thesis by auto
    qed
    from merge_p [OF p'(2) em(1) _ _ this, of "int (length ps)"] Suc.prems(6) have step:
      "merge oh p q (int (length ps)) (int k) l t m = merge oh p' q (int (length ps')) (int k) l1 (Some e) m1"
      using p p' by simp
    have "seg (nx oh m1) p' ps' X" "chain (nx oh m1) q R"
      using dist p(1) p'(3) cq by (auto intro!: only_seg [OF em(3)] only_chain [OF em(3)])
    moreover have "ordered m1 le (set ps' \<union> set (take k R))"
      unfolding ordered_only [OF em(3)] by (rule ordered_sub [OF cl]) (use p(1) in auto)
    moreover have "mrg le ps (take k R) = e # mrg le ps' (take k R)"
      using p by (cases R; cases k) auto
    ultimately obtain q' l' t' m' where r: "merge oh p' q (int (length ps')) (int k) l1 (Some e) m1 =
        Some (q', l', t', m')" "built m' l' t' (out @ mrg le ps (take k R))"
      "chain (nx oh m') q' (drop k R)" "only (set ((out @ [e]) @ ps' @ R)) m1 m'"
      using Suc.hyps(1) [of ps' k R m1 l1 "Some e" "out @ [e]" p' q] Suc.hyps(2) Suc.prems(6,7) em(2) dist p(1) by auto
    have "only (set (out @ ps @ R)) m m'"
      by (rule only_trans [OF em(3) r(4)]) (use p(1) in auto)
    with step r show ?thesis by auto
  next
    case q
    then obtain q' where q': "q = Some e" "nx oh m e = Some q'" "chain (nx oh m) q' R'"
      using cq by auto
    have "distinct (out @ [e])" using dist q(1) by auto
    with emit_law [OF mem, of oh e] q'(2) obtain l1 m1 where
      em: "emit e l t m = Some (l1, m1)" "built m1 l1 (Some e) (out @ [e])" "only (insert e (set out)) m m1"
      by auto
    have "int (length ps) = 0 \<or> (\<exists>a c. p = Some a \<and> cmpr m a e = Some c \<and> \<not> c \<le> 0)"
    proof (cases ps)
      case (Cons a as)
      then obtain c where "cmpr m a e = Some c" "le a e \<longleftrightarrow> c \<le> 0"
        using cl q unfolding ordered_def by auto
      with Cons q(3) sp show ?thesis by auto
    qed simp
    from merge_q [OF q'(2) em(1) _ _ _ this, of "int k"] Suc.prems(7) have step:
      "merge oh p q (int (length ps)) (int k) l t m = merge oh p q' (int (length ps)) (int k') l1 (Some e) m1"
      using q q' by simp
    have "seg (nx oh m1) p ps X" "chain (nx oh m1) q' R'"
      using dist q(1) q'(3) sp by (auto intro!: only_seg [OF em(3)] only_chain [OF em(3)])
    moreover have "ordered m1 le (set ps \<union> set (take k' R'))"
      unfolding ordered_only [OF em(3)] by (rule ordered_sub [OF cl]) (use q(1,2) in auto)
    moreover have "mrg le ps (take k R) = e # mrg le ps (take k' R')"
      using q by (cases ps) auto
    ultimately obtain q2 l' t' m' where r: "merge oh p q' (int (length ps)) (int k') l1 (Some e) m1 =
        Some (q2, l', t', m')" "built m' l' t' (out @ mrg le ps (take k R))"
      "chain (nx oh m') q2 (drop k R)" "only (set ((out @ [e]) @ ps @ R')) m1 m'"
      using Suc.hyps(1) [of ps k' R' m1 l1 "Some e" "out @ [e]" p q'] Suc.hyps(2) Suc.prems(6,7) em(2) dist q(1,2) by auto
    have "only (set (out @ ps @ R)) m m'"
      by (rule only_trans [OF em(3) r(4)]) (use q(1) in auto)
    with step r show ?thesis by auto
  qed
qed

text \<open>A pass merges pairs of runs; it counts one merge for every 2 n nodes begun.\<close>

lemma merges_step:
  assumes "0 < n" "0 < k"
  shows "(k + 2 * n - 1) div (2 * n) = Suc ((k - n - n + 2 * n - 1) div (2 * (n::nat)))"
proof (cases "k < 2 * n")
  case True
  then have k: "k + 2 * n - 1 = (k - 1) + 2 * n" "k - n - n + 2 * n - 1 = 2 * n - 1" "k - 1 < 2 * n"
    using assms by auto
  from assms show ?thesis unfolding k(1,2) using k(3) by (subst div_add_self2) auto
next
  case False
  then have "k + 2 * n - 1 = (k - n - n + 2 * n - 1) + 2 * n" by auto
  with assms show ?thesis by (simp only: div_add_self2)
qed

lemma merges_le_one: "0 < n \<Longrightarrow> (k + 2 * n - 1) div (2 * n) \<le> 1 \<longleftrightarrow> k \<le> 2 * (n::nat)"
proof -
  assume n: "0 < n"
  have "(k + 2 * n - 1) div (2 * n) < 2 \<longleftrightarrow> k + 2 * n - 1 < 2 * (2 * n)"
    using n by (simp only: div_less_iff_less_mult)
  with n show ?thesis by linarith
qed

lemma pass_list:
  assumes "chain (nx oh m) p xs" "built m l t out" "distinct (out @ xs)"
    and "ordered m le (set xs)" "0 < n" "0 \<le> nm" "nm + int (length xs) \<le> lim" "int n \<le> lim"
  shows "\<exists>l' t' m'. pass oh (int n) p l t nm m = Some (l', t', nm + int ((length xs + 2 * n - 1) div (2 * n)), m') \<and>
    built m' l' t' (out @ bpass le n xs) \<and> only (set (out @ xs)) m m'"
  using assms
proof (induction le n xs arbitrary: m p l t out nm rule: bpass.induct)
  case (1 le n xs)
  note cp = 1(2) and mg = 1(3) and dist = 1(4) and cl = 1(5)
  show ?case
  proof (cases "xs = []")
    case True
    with 1(2-7) show ?thesis by (auto simp: pass_stop bpass.simps only_refl)
  next
    case False
    let ?A = "take n xs" and ?B = "take n (drop n xs)" and ?C = "drop n (drop n xs)"
    have xs: "xs = ?A @ ?B @ ?C" by (metis append_take_drop_id)
    have len: "0 + int (length xs) \<le> lim" using 1(7,8) by simp
    from step_list [OF cp False, of 0 "int n" 0] 1(6) len obtain q where
      st: "step oh 0 (int n) p 0 m = Some (q, int (length ?A))"
      "seg (nx oh m) p ?A q" "chain (nx oh m) q (drop n xs)" by auto
    have oA: "ordered m le (set ?A \<union> set ?B)"
      by (rule ordered_sub [OF cl]) (metis Un_least order_trans set_drop_subset set_take_subset)
    have lA: "int (length ?A) \<le> lim" using len by auto
    have dA: "distinct (out @ ?A @ drop n xs)" using dist by (simp only: append_take_drop_id)
    from merge_list [OF mg st(2,3) dA oA lA 1(9)] obtain q' l1 t1 m1 where
      me: "merge oh p q (int (length ?A)) (int n) l t m = Some (q', l1, t1, m1)"
      "built m1 l1 t1 (out @ mrg le ?A ?B)" "chain (nx oh m1) q' ?C"
      "only (set (out @ xs)) m m1" by auto
    have ms: "mset ((out @ mrg le ?A ?B) @ ?C) = mset (out @ xs)"
      by (subst (3) xs) (simp only: mset_append mset_mrg ac_simps)
    then have d1: "distinct ((out @ mrg le ?A ?B) @ ?C)"
      using dist mset_eq_imp_distinct_iff by blast
    have c1: "ordered m1 le (set ?C)"
      unfolding ordered_only [OF me(4)] by (rule ordered_sub [OF cl]) (meson order_trans set_drop_subset)
    have c2: "nm + 1 + int (length ?C) \<le> lim" using False 1(6,8) by (cases xs) auto
    have c3: "\<not> (xs = [] \<or> n = 0)" "0 \<le> nm + 1" using False 1(6,7) by auto
    obtain l' t' m' where pa: "pass oh (int n) q' l1 t1 (nm + 1) m1 =
        Some (l', t', nm + 1 + int ((length ?C + 2 * n - 1) div (2 * n)), m')"
      "built m' l' t' ((out @ mrg le ?A ?B) @ bpass le n ?C)"
      "only (set ((out @ mrg le ?A ?B) @ ?C)) m1 m'"
      using 1(1) [OF c3(1) me(3,2) d1 c1 1(6) c3(2) c2 1(9)] by blast
    have up: "only (set (out @ xs)) m m'"
      using mset_eq_setD [OF ms] by (intro only_trans [OF me(4) pa(3)]) auto
    obtain a where a: "p = Some a" using cp False by (cases p) auto
    have "nm < lim" using 1(8) False by (cases xs) auto
    then have "pass oh (int n) p l t nm m = pass oh (int n) q' l1 t1 (nm + 1) m1"
      using pass_step [of oh "int n" a m q "int (length ?A)" l t q' l1 t1 m1 nm] st(1) me(1) a 1(7) by simp
    then have "pass oh (int n) p l t nm m =
        Some (l', t', nm + int ((length xs + 2 * n - 1) div (2 * n)), m')"
      using pa(1) merges_step [of n "length xs"] 1(6) False by simp
    moreover have "bpass le n xs = mrg le ?A ?B @ bpass le n ?C"
      using False 1(6) by (subst bpass.simps) simp
    ultimately show ?thesis using pa(2) up by auto
  qed
qed

lemma loop_list:
  assumes "closed m l xs" "xs \<noteq> []" "distinct xs" "ordered m le (set xs)"
    and "0 < n" "n = 1 \<or> n < length xs" "int (length xs) \<le> lim"
  shows "\<exists>l' m'. loop (int n) l m = Some (fin l' (Some (last (bsort le n xs))) m') \<and>
    closed m' l' (bsort le n xs) \<and> only (set xs) m m'"
  using assms
proof (induction le n xs arbitrary: m l rule: bsort.induct)
  case (1 le n xs)
  have nl: "int n \<le> lim" using 1(3,7,8) by (cases xs) auto
  obtain l1 t1 m1 where pa: "pass l (int n) l None None 0 m =
      Some (l1, t1, int ((length xs + 2 * n - 1) div (2 * n)), m1)"
    "built m1 l1 t1 (bpass le n xs)" "only (set xs) m m1"
    using pass_list [OF closed_chain [OF 1(2,3)] built_Nil _ _ 1(6), of le 0] 1(4,5,8) nl by auto
  have ne: "bpass le n xs \<noteq> []" by (metis 1(3) length_0_conv length_bpass)
  have di: "distinct (bpass le n xs)"
    using 1(4) mset_bpass mset_eq_imp_distinct_iff by metis
  obtain m2 where cl: "close l1 t1 m1 = Some m2"
    "closed m2 l1 (bpass le n xs)" "only (set xs) m1 m2"
    using close_law [OF pa(2) ne di] by auto
  have t1: "t1 = Some (last (bpass le n xs))" using built_tail [OF pa(2) ne] .
  have up: "only (set xs) m m2" by (rule only_trans [OF pa(3) cl(3)]) auto
  have nm: "int ((length xs + 2 * n - 1) div (2 * n)) \<le> 1 \<longleftrightarrow> length xs \<le> 2 * n"
    using merges_le_one [OF 1(6), of "length xs"] by linarith
  have step: "loop (int n) l m = (if length xs \<le> 2 * n then Some (fin l1 t1 m2) else loop (int (2 * n)) l1 m2)"
    using loop_step [OF pa(1) cl(1)] 1(6-8) nm by (auto simp: mult.commute)
  show ?case
  proof (cases "length xs \<le> 2 * n")
    case True
    with step cl(2) up t1 show ?thesis by (auto simp: bsort.simps [of le n xs])
  next
    case False
    have "\<exists>l' m'. loop (int (2 * n)) l1 m2 = Some (fin l' (Some (last (bsort le (2 * n) (bpass le n xs)))) m') \<and>
        closed m' l' (bsort le (2 * n) (bpass le n xs)) \<and> only (set (bpass le n xs)) m2 m'"
      using False 1(5,6,8) cl(2) ne di
      by (intro 1(1)) (auto simp: ordered_only [OF up])
    with step False 1(6) show ?thesis
      by (auto simp: bsort.simps [of le n xs] intro: only_trans [OF up])
  qed
qed

lemma sort_list:
  assumes "closed m l xs" "xs \<noteq> []" "distinct xs" "ordered m le (set xs)" "int (length xs) \<le> lim"
  shows "\<exists>l' m'. loop 1 l m = Some (fin l' (Some (last (bsort le 1 xs))) m') \<and>
    closed m' l' (bsort le 1 xs) \<and> only (set xs) m m'"
  using loop_list [of m l xs le 1] assms by simp

end

lemma bsort_Nil: "bsort le n [] = []"
  by (metis length_0_conv length_bsort)

end
