(* ===== verification/UtList.thy ===== *)
theory UtList
  imports MergeSort CString
begin

text \<open>
  The singly linked list macros of inc/uthash/utlist.h and the program utlist_test.c that uses
  them.  The memory maps addresses to nodes, each a next pointer and the rest of the
  structure; a macro that follows a NULL or dangling pointer is None.  A comparison function
  of the program may itself be undefined, on a signed overflow.  Every macro is shown to do
  to the list of nodes (chain) what its counterpart on lists does, and to leave all other
  memory alone.
\<close>

subsection \<open>Memory\<close>

record 'a ll_node =
  ll_next :: "addr option"
  ll_val :: 'a

type_synonym 'a ll_mem = "addr \<Rightarrow> 'a ll_node option"

definition ll_links :: "'a ll_mem \<Rightarrow> addr \<Rightarrow> addr option option" where
  "ll_links mem a = map_option ll_next (mem a)"

text \<open>(p)->next and its assignment, where p may be NULL.\<close>

definition get_next :: "addr option \<Rightarrow> 'a ll_mem \<Rightarrow> addr option option" where
  "get_next p mem = do { a \<leftarrow> p; ll_links mem a }"

definition set_next :: "addr option \<Rightarrow> addr option \<Rightarrow> 'a ll_mem \<Rightarrow> 'a ll_mem option" where
  "set_next p q mem = do { a \<leftarrow> p; n \<leftarrow> mem a; Some (mem(a \<mapsto> n\<lparr>ll_next := q\<rparr>)) }"

type_synonym 'a ll_cmp = "'a \<Rightarrow> 'a \<Rightarrow> int option"

definition cmp_at :: "('a \<Rightarrow> 'b \<Rightarrow> int option) \<Rightarrow> addr option \<Rightarrow> 'b \<Rightarrow> 'a ll_mem \<Rightarrow> int option" where
  "cmp_at cmp p like mem = do { a \<leftarrow> p; n \<leftarrow> mem a; cmp (ll_val n) like }"

subsection \<open>Adding and removing\<close>

definition LL_PREPEND :: "addr option \<Rightarrow> addr \<Rightarrow> 'a ll_mem \<Rightarrow> (addr option \<times> 'a ll_mem) option" where
  "LL_PREPEND head add mem = do { mem1 \<leftarrow> set_next (Some add) head mem; Some (Some add, mem1) }"

partial_function (option) ll_tail :: "addr option \<Rightarrow> 'a ll_mem \<Rightarrow> addr option option" where
  "ll_tail tmp mem = do {
     q \<leftarrow> get_next tmp mem;
     if q \<noteq> None then ll_tail q mem else Some tmp }"

definition LL_CONCAT :: "addr option \<Rightarrow> addr option \<Rightarrow> 'a ll_mem \<Rightarrow> (addr option \<times> 'a ll_mem) option" where
  "LL_CONCAT head1 head2 mem =
     (if head1 \<noteq> None then do {
        tmp \<leftarrow> ll_tail head1 mem;
        mem1 \<leftarrow> set_next tmp head2 mem;
        Some (head1, mem1) }
      else Some (head2, mem))"

definition LL_APPEND :: "addr option \<Rightarrow> addr \<Rightarrow> 'a ll_mem \<Rightarrow> (addr option \<times> 'a ll_mem) option" where
  "LL_APPEND head add mem = do {
     mem1 \<leftarrow> set_next (Some add) None mem;
     if head \<noteq> None then do {
       tmp \<leftarrow> ll_tail head mem1;
       mem2 \<leftarrow> set_next tmp (Some add) mem1;
       Some (head, mem2) }
     else Some (Some add, mem1) }"

text \<open>The walk to the node before a given one, shared by LL-DELETE and the replacing macros.\<close>

partial_function (option) ll_before :: "addr option \<Rightarrow> addr option \<Rightarrow> 'a ll_mem \<Rightarrow> addr option option" where
  "ll_before tmp el mem = do {
     q \<leftarrow> get_next tmp mem;
     if q \<noteq> None \<and> q \<noteq> el then ll_before q el mem else Some tmp }"

definition LL_DELETE :: "addr option \<Rightarrow> addr option \<Rightarrow> 'a ll_mem \<Rightarrow> (addr option \<times> 'a ll_mem) option" where
  "LL_DELETE head del mem =
     (if head = del then do { q \<leftarrow> get_next head mem; Some (q, mem) }
      else do {
        tmp \<leftarrow> ll_before head del mem;
        q \<leftarrow> get_next tmp mem;
        if q \<noteq> None then do {
          r \<leftarrow> get_next del mem;
          mem1 \<leftarrow> set_next tmp r mem;
          Some (head, mem1) }
        else Some (head, mem) })"

definition LL_REPLACE_ELEM :: "addr option \<Rightarrow> addr option \<Rightarrow> addr option \<Rightarrow> 'a ll_mem \<Rightarrow> (addr option \<times> 'a ll_mem) option" where
  "LL_REPLACE_ELEM head el add mem =
     (if head = None \<or> el = None \<or> add = None then None
      else do {
        r \<leftarrow> get_next el mem;
        mem1 \<leftarrow> set_next add r mem;
        if head = el then Some (add, mem1)
        else do {
          tmp \<leftarrow> ll_before head el mem1;
          q \<leftarrow> get_next tmp mem1;
          if q \<noteq> None then do { mem2 \<leftarrow> set_next tmp add mem1; Some (head, mem2) }
          else Some (head, mem1) } })"

definition LL_PREPEND_ELEM :: "addr option \<Rightarrow> addr option \<Rightarrow> addr \<Rightarrow> 'a ll_mem \<Rightarrow> (addr option \<times> 'a ll_mem) option" where
  "LL_PREPEND_ELEM head el add mem =
     (if el \<noteq> None then
        (if head = None then None
         else do {
           mem1 \<leftarrow> set_next (Some add) el mem;
           if head = el then Some (Some add, mem1)
           else do {
             tmp \<leftarrow> ll_before head el mem1;
             q \<leftarrow> get_next tmp mem1;
             if q \<noteq> None then do { mem2 \<leftarrow> set_next tmp (Some add) mem1; Some (head, mem2) }
             else Some (head, mem1) } })
      else LL_APPEND head add mem)"

definition LL_APPEND_ELEM :: "addr option \<Rightarrow> addr option \<Rightarrow> addr \<Rightarrow> 'a ll_mem \<Rightarrow> (addr option \<times> 'a ll_mem) option" where
  "LL_APPEND_ELEM head el add mem =
     (if el \<noteq> None then
        (if head = None then None
         else do {
           r \<leftarrow> get_next el mem;
           mem1 \<leftarrow> set_next (Some add) r mem;
           mem2 \<leftarrow> set_next el (Some add) mem1;
           Some (head, mem2) })
      else LL_PREPEND head add mem)"

subsection \<open>Walking\<close>

partial_function (option) ll_count :: "addr option \<Rightarrow> 'a ll_mem \<Rightarrow> int \<Rightarrow> int option" where
  "ll_count el mem counter =
     (if el \<noteq> None then do { c \<leftarrow> c_int (counter + 1); q \<leftarrow> get_next el mem; ll_count q mem c }
      else Some counter)"

definition LL_COUNT :: "addr option \<Rightarrow> 'a ll_mem \<Rightarrow> int option" where
  "LL_COUNT head mem = ll_count head mem 0"

text \<open>LL-FOREACH around a body that only looks: the nodes it visits, in order.\<close>

partial_function (option) LL_FOREACH :: "addr option \<Rightarrow> 'a ll_mem \<Rightarrow> addr list option" where
  "LL_FOREACH el mem = (case el of
       None \<Rightarrow> Some []
     | Some a \<Rightarrow> do { q \<leftarrow> get_next el mem; rest \<leftarrow> LL_FOREACH q mem; Some (a # rest) })"

partial_function (option) LL_SEARCH ::
  "addr option \<Rightarrow> 'b \<Rightarrow> ('a \<Rightarrow> 'b \<Rightarrow> int option) \<Rightarrow> 'a ll_mem \<Rightarrow> addr option option" where
  "LL_SEARCH out elt cmp mem =
     (if out \<noteq> None then do {
        c \<leftarrow> cmp_at cmp out elt mem;
        if c = 0 then Some out
        else do { q \<leftarrow> get_next out mem; LL_SEARCH q elt cmp mem } }
      else Some None)"

partial_function (option) ll_bound ::
  "addr option \<Rightarrow> 'a \<Rightarrow> 'a ll_cmp \<Rightarrow> 'a ll_mem \<Rightarrow> addr option option" where
  "ll_bound elt like cmp mem = do {
     q \<leftarrow> get_next elt mem;
     if q = None then Some elt
     else do {
       c \<leftarrow> cmp_at cmp q like mem;
       if c \<ge> 0 then Some elt else ll_bound q like cmp mem } }"

definition LL_LOWER_BOUND :: "addr option \<Rightarrow> 'a \<Rightarrow> 'a ll_cmp \<Rightarrow> 'a ll_mem \<Rightarrow> addr option option" where
  "LL_LOWER_BOUND head like cmp mem =
     (if head = None then Some None
      else do {
        c \<leftarrow> cmp_at cmp head like mem;
        if c \<ge> 0 then Some None else ll_bound head like cmp mem })"

definition LL_INSERT_INORDER :: "addr option \<Rightarrow> addr \<Rightarrow> 'a ll_cmp \<Rightarrow> 'a ll_mem \<Rightarrow> (addr option \<times> 'a ll_mem) option" where
  "LL_INSERT_INORDER head add cmp mem =
     (if head \<noteq> None then do {
        n \<leftarrow> mem add;
        tmp \<leftarrow> LL_LOWER_BOUND head (ll_val n) cmp mem;
        LL_APPEND_ELEM head tmp add mem }
      else do { mem1 \<leftarrow> set_next (Some add) None mem; Some (Some add, mem1) })"

subsection \<open>Sorting\<close>

text \<open>The steps of the merge sort: the for loop that finds the second run, ...\<close>

partial_function (option) ls_step ::
  "int \<Rightarrow> int \<Rightarrow> addr option \<Rightarrow> int \<Rightarrow> 'a ll_mem \<Rightarrow> (addr option \<times> int) option" where
  "ls_step i insize q psize mem =
     (if i < insize then do {
        q' \<leftarrow> get_next q mem;
        if q' = None then Some (None, psize + 1)
        else ls_step (i + 1) insize q' (psize + 1) mem }
      else Some (q, psize))"

text \<open>... appending a node to the merged list, ...\<close>

definition ls_emit ::
  "addr option \<Rightarrow> addr option \<Rightarrow> addr option \<Rightarrow> 'a ll_mem \<Rightarrow> (addr option \<times> 'a ll_mem) option" where
  "ls_emit e list tail mem =
     (if tail \<noteq> None then do { mem1 \<leftarrow> set_next tail e mem; Some (list, mem1) } else Some (e, mem))"

text \<open>... merging two runs, ...\<close>

partial_function (option) ls_merge ::
  "'a ll_cmp \<Rightarrow> addr option \<Rightarrow> addr option \<Rightarrow> int \<Rightarrow> int \<Rightarrow> addr option \<Rightarrow> addr option \<Rightarrow> 'a ll_mem \<Rightarrow>
   (addr option \<times> addr option \<times> addr option \<times> 'a ll_mem) option" where
  "ls_merge cmp p q psize qsize list tail mem =
     (if psize > 0 \<or> (qsize > 0 \<and> q \<noteq> None) then do {
        from_p \<leftarrow> (if psize = 0 then Some False
                    else if qsize = 0 \<or> q = None then Some True
                    else do { b \<leftarrow> q; n \<leftarrow> mem b; c \<leftarrow> cmp_at cmp p (ll_val n) mem; Some (c \<le> 0) });
        if from_p then do {
          p' \<leftarrow> get_next p mem;
          (list', mem') \<leftarrow> ls_emit p list tail mem;
          ls_merge cmp p' q (psize - 1) qsize list' p mem' }
        else do {
          q' \<leftarrow> get_next q mem;
          (list', mem') \<leftarrow> ls_emit q list tail mem;
          ls_merge cmp p q' psize (qsize - 1) list' q mem' } }
      else Some (q, list, tail, mem))"

text \<open>... one pass over the list, and the passes with doubled run lengths.\<close>

partial_function (option) ls_pass ::
  "'a ll_cmp \<Rightarrow> int \<Rightarrow> addr option \<Rightarrow> addr option \<Rightarrow> addr option \<Rightarrow> int \<Rightarrow> 'a ll_mem \<Rightarrow>
   (addr option \<times> addr option \<times> int \<times> 'a ll_mem) option" where
  "ls_pass cmp insize p list tail nmerges mem =
     (if p \<noteq> None then do {
        (q, psize) \<leftarrow> ls_step 0 insize p 0 mem;
        (p', list', tail', mem') \<leftarrow> ls_merge cmp p q psize insize list tail mem;
        nmerges' \<leftarrow> c_int (nmerges + 1);
        ls_pass cmp insize p' list' tail' nmerges' mem' }
      else Some (list, tail, nmerges, mem))"

partial_function (option) ls_loop ::
  "'a ll_cmp \<Rightarrow> int \<Rightarrow> addr option \<Rightarrow> 'a ll_mem \<Rightarrow> (addr option \<times> 'a ll_mem) option" where
  "ls_loop cmp insize list mem = do {
     (list', tail, nmerges, mem1) \<leftarrow> ls_pass cmp insize list None None 0 mem;
     mem2 \<leftarrow> (if tail \<noteq> None then set_next tail None mem1 else Some mem1);
     insize' \<leftarrow> c_int (insize * 2);
     if nmerges \<le> 1 then Some (list', mem2) else ls_loop cmp insize' list' mem2 }"

definition LL_SORT :: "addr option \<Rightarrow> 'a ll_cmp \<Rightarrow> 'a ll_mem \<Rightarrow> (addr option \<times> 'a ll_mem) option" where
  "LL_SORT list cmp mem = (if list \<noteq> None then ls_loop cmp 1 list mem else Some (None, mem))"

subsection \<open>Lists in memory\<close>

text \<open>
  The structure behind a pointer, apart from the links.  A macro may only change links
  (same_data), and only those of the nodes it is given (ll_upd).
\<close>

definition ll_data :: "'a ll_mem \<Rightarrow> addr \<Rightarrow> 'a option" where
  "ll_data mem a = map_option ll_val (mem a)"

definition ll_upd :: "addr set \<Rightarrow> 'a ll_mem \<Rightarrow> 'a ll_mem \<Rightarrow> bool" where
  "ll_upd S mem mem' \<longleftrightarrow> ll_data mem' = ll_data mem \<and> (\<forall>a. a \<notin> S \<longrightarrow> mem' a = mem a)"

definition put_next :: "addr \<Rightarrow> addr option \<Rightarrow> 'a ll_mem \<Rightarrow> 'a ll_mem" where
  "put_next a q mem = mem(a := map_option (ll_next_update (\<lambda>_. q)) (mem a))"

definition is_ll :: "'a ll_mem \<Rightarrow> addr option \<Rightarrow> addr list \<Rightarrow> bool" where
  "is_ll mem head xs \<longleftrightarrow> chain (ll_links mem) head xs"

lemma ll_upd_refl [simp]: "ll_upd S mem mem"
  by (simp add: ll_upd_def)

lemma ll_upd_trans: "ll_upd S m1 m2 \<Longrightarrow> ll_upd T m2 m3 \<Longrightarrow> S \<subseteq> U \<Longrightarrow> T \<subseteq> U \<Longrightarrow> ll_upd U m1 m3"
  unfolding ll_upd_def by (metis subsetD)

lemma ll_upd_mono: "ll_upd S m1 m2 \<Longrightarrow> S \<subseteq> T \<Longrightarrow> ll_upd T m1 m2"
  unfolding ll_upd_def by blast

lemma ll_upd_put [simp]: "a \<in> S \<Longrightarrow> ll_upd S mem (put_next a q mem)"
  by (auto simp: ll_upd_def put_next_def ll_data_def option.map_comp o_def)

lemma ll_data_put [simp]: "ll_data (put_next a q mem) = ll_data mem"
  by (auto simp: put_next_def ll_data_def option.map_comp o_def)

lemma ll_data_None: "ll_data mem a = None \<longleftrightarrow> mem a = None"
  by (simp add: ll_data_def)

lemma ll_upd_mapped: "ll_upd S mem mem' \<Longrightarrow> mem' a = None \<longleftrightarrow> mem a = None"
  by (metis ll_upd_def ll_data_None)

lemma ll_links_None [simp]: "ll_links mem a = None \<longleftrightarrow> mem a = None"
  by (simp add: ll_links_def)

lemma ll_links_put: "mem a \<noteq> None \<Longrightarrow> ll_links (put_next a q mem) = (ll_links mem)(a \<mapsto> q)"
  by (auto simp: ll_links_def put_next_def)

lemma put_next_None [simp]: "put_next a q mem b = None \<longleftrightarrow> mem b = None"
  by (simp add: put_next_def)

lemma put_next_other [simp]: "b \<noteq> a \<Longrightarrow> put_next a q mem b = mem b"
  by (simp add: put_next_def)

lemma set_next_Some [simp]:
  "set_next (Some a) q mem = (if mem a = None then None else Some (put_next a q mem))"
  by (auto simp: set_next_def put_next_def)

lemma get_next_Some [simp]: "get_next (Some a) mem = ll_links mem a"
  by (simp add: get_next_def)

lemma get_next_None [simp]: "get_next None mem = None" and set_next_None [simp]: "set_next None q mem = None"
  by (simp_all add: get_next_def set_next_def)

lemma ll_upd_seg:
  "ll_upd S mem mem' \<Longrightarrow> S \<inter> set xs = {} \<Longrightarrow> seg (ll_links mem) p xs q \<Longrightarrow> seg (ll_links mem') p xs q"
  by (subst seg_cong [where nxt' = "ll_links mem"]) (auto simp: ll_links_def ll_upd_def)

lemma ll_upd_chain:
  "ll_upd S mem mem' \<Longrightarrow> S \<inter> set xs = {} \<Longrightarrow> chain (ll_links mem) p xs \<Longrightarrow> chain (ll_links mem') p xs"
  by (metis ll_upd_seg seg_None)

lemma is_ll_mapped: "is_ll mem head xs \<Longrightarrow> a \<in> set xs \<Longrightarrow> mem a \<noteq> None"
  unfolding is_ll_def by (metis chain_in ll_links_None)

lemma is_ll_distinct: "is_ll mem head xs \<Longrightarrow> distinct xs"
  unfolding is_ll_def by (rule chain_distinct)

lemma is_ll_None [simp]: "is_ll mem None xs \<longleftrightarrow> xs = []"
  by (simp add: is_ll_def)

lemma is_ll_Nil: "is_ll mem head [] \<longleftrightarrow> head = None"
  by (simp add: is_ll_def)

lemma is_ll_frame: "ll_upd S mem mem' \<Longrightarrow> S \<inter> set xs = {} \<Longrightarrow> is_ll mem p xs \<Longrightarrow> is_ll mem' p xs"
  unfolding is_ll_def by (rule ll_upd_chain)

subsection \<open>What the macros do to the list\<close>

lemma LL_PREPEND_list:
  assumes "is_ll mem head xs" "mem a \<noteq> None" "a \<notin> set xs"
  shows "\<exists>mem'. LL_PREPEND head a mem = Some (Some a, mem') \<and> is_ll mem' (Some a) (a # xs) \<and>
    ll_upd {a} mem mem'"
  using assms chain_frame [of "ll_links mem" head xs a]
  by (auto simp: LL_PREPEND_def is_ll_def ll_links_put)

lemma ll_tail_seg:
  "seg (ll_links mem) p (xs @ [x]) None \<Longrightarrow> ll_tail p mem = Some (Some x)"
proof (induction xs arbitrary: p)
  case Nil
  then show ?case by (auto simp: ll_tail.simps)
next
  case (Cons y ys)
  from Cons.prems obtain r where r: "p = Some y" "ll_links mem y = Some r"
    "seg (ll_links mem) r (ys @ [x]) None" by auto
  from r(3) have "r \<noteq> None" by (cases ys) auto
  with Cons.IH [OF r(3)] r show ?case by (subst ll_tail.simps) auto
qed

lemma LL_CONCAT_list:
  assumes "is_ll mem h1 xs" "is_ll mem h2 ys" "set xs \<inter> set ys = {}"
  shows "\<exists>h mem'. LL_CONCAT h1 h2 mem = Some (h, mem') \<and> is_ll mem' h (xs @ ys) \<and>
    ll_upd (set xs) mem mem'"
proof (cases xs rule: rev_cases)
  case Nil
  with assms show ?thesis by (simp add: LL_CONCAT_def is_ll_Nil)
next
  case (snoc zs z)
  have s: "seg (ll_links mem) h1 (zs @ [z]) None" and d: "z \<notin> set zs"
    using assms(1) snoc chain_distinct [of _ h1 xs] by (auto simp: is_ll_def seg_None)
  have m: "mem z \<noteq> None" using is_ll_mapped [OF assms(1)] snoc by auto
  have "h1 \<noteq> None" using s by (cases zs) auto
  moreover have "seg (ll_links (put_next z h2 mem)) h1 xs h2"
    using seg_relink [OF s d] m by (simp add: ll_links_put snoc)
  moreover have "chain (ll_links (put_next z h2 mem)) h2 ys"
    using assms snoc by (intro ll_upd_chain [OF ll_upd_put [of z "{z}"]]) (auto simp: is_ll_def)
  ultimately have "h1 \<noteq> None" "is_ll (put_next z h2 mem) h1 (xs @ ys)"
    by (auto simp: is_ll_def chain_append)
  with m snoc show ?thesis by (auto simp: LL_CONCAT_def ll_tail_seg [OF s])
qed

lemma LL_APPEND_list:
  assumes "is_ll mem head xs" "mem a \<noteq> None" "a \<notin> set xs"
  shows "\<exists>h mem'. LL_APPEND head a mem = Some (h, mem') \<and> is_ll mem' h (xs @ [a]) \<and>
    ll_upd (insert a (set xs)) mem mem'"
proof -
  let ?m = "put_next a None mem"
  have "is_ll ?m head xs"
    using assms(1,3) by (auto intro: is_ll_frame [OF ll_upd_put [of a "{a}"]])
  moreover have "is_ll ?m (Some a) [a]" using assms(2) by (simp add: is_ll_def ll_links_put)
  ultimately obtain h mem' where *: "LL_CONCAT head (Some a) ?m = Some (h, mem')"
    "is_ll mem' h (xs @ [a])" "ll_upd (set xs) ?m mem'"
    using LL_CONCAT_list [of ?m head xs "Some a" "[a]"] assms(3) by auto
  have "ll_upd (insert a (set xs)) mem mem'"
    by (rule ll_upd_trans [OF ll_upd_put [of a "{a}"] *(3)]) auto
  with * assms(2) show ?thesis by (auto simp: LL_APPEND_def LL_CONCAT_def)
qed

text \<open>The walk to the node before d stops there, or at the end when d is not on the list.\<close>

lemma ll_before_seg:
  "seg (ll_links mem) p (ys @ [y]) r \<Longrightarrow> d \<notin> set (ys @ [y]) \<Longrightarrow> r = None \<or> r = Some d \<Longrightarrow>
   ll_before p (Some d) mem = Some (Some y)"
proof (induction ys arbitrary: p)
  case Nil
  then show ?case by (auto simp: ll_before.simps)
next
  case (Cons z zs)
  from Cons.prems(1) obtain q where q: "p = Some z" "ll_links mem z = Some q"
    "seg (ll_links mem) q (zs @ [y]) r" by auto
  have "q \<noteq> None \<and> q \<noteq> Some d" using q(3) Cons.prems(2) by (cases zs) auto
  with Cons.IH [OF q(3)] Cons.prems q show ?case by (subst ll_before.simps) auto
qed

text \<open>
  Where d is not the first node, the three macros that look for its predecessor y make
  y point elsewhere: to the rest zs of the list, or to a new start of it.
\<close>

lemma is_ll_at:
  assumes "is_ll mem head (ys @ y # d # zs)"
  shows "head \<noteq> Some d" "ll_before head (Some d) mem = Some (Some y)" "mem y \<noteq> None"
    "ll_links mem y = Some (Some d)" "mem d \<noteq> None"
    "\<exists>r. ll_links mem d = Some r \<and> chain (ll_links mem) r zs"
proof -
  have dist: "distinct (ys @ y # d # zs)" by (rule is_ll_distinct [OF assms])
  from assms have s: "seg (ll_links mem) head (ys @ [y]) (Some d)" and y: "ll_links mem y = Some (Some d)"
    and d: "\<exists>r. ll_links mem d = Some r \<and> chain (ll_links mem) r zs"
    by (auto simp: is_ll_def chain_append seg_append)
  show "ll_before head (Some d) mem = Some (Some y)"
    using dist by (intro ll_before_seg [OF s]) auto
  show "head \<noteq> Some d" using s dist by (cases ys) auto
  show "ll_links mem y = Some (Some d)" by (rule y)
  show "mem y \<noteq> None" using y by (metis ll_links_None option.distinct(1))
  show "\<exists>r. ll_links mem d = Some r \<and> chain (ll_links mem) r zs" by (rule d)
  then show "mem d \<noteq> None" by (metis ll_links_None option.distinct(1))
qed

lemma is_ll_splice:
  assumes "is_ll mem head (ys @ y # xs)" "chain (ll_links mem) r zs" "y \<notin> set zs"
  shows "is_ll (put_next y r mem) head (ys @ y # zs)"
proof -
  from is_ll_distinct [OF assms(1)] have y: "y \<notin> set ys" by auto
  have m: "mem y \<noteq> None" using is_ll_mapped [OF assms(1)] by auto
  from assms(1) have "seg (ll_links mem) head ys (Some y)" by (auto simp: is_ll_def chain_append)
  then have "seg (ll_links (put_next y r mem)) head ys (Some y)"
    using m y by (simp add: ll_links_put seg_frame)
  moreover have "chain (ll_links (put_next y r mem)) r zs"
    using m assms by (simp add: ll_links_put chain_frame)
  ultimately show ?thesis using m by (auto simp: is_ll_def chain_append ll_links_put)
qed

lemma LL_DELETE_list:
  assumes l: "is_ll mem head xs" and d: "d \<in> set xs"
  shows "\<exists>h mem'. LL_DELETE head (Some d) mem = Some (h, mem') \<and> is_ll mem' h (remove1 d xs) \<and>
    ll_upd (set xs - {d}) mem mem'"
proof -
  from d obtain ys zs where xs: "xs = ys @ d # zs" and nd: "d \<notin> set ys"
    by (meson split_list_first)
  from nd have rm: "remove1 d xs = ys @ zs" by (simp add: xs remove1_append)
  show ?thesis
  proof (cases ys rule: rev_cases)
    case Nil
    with l rm xs show ?thesis by (auto simp: LL_DELETE_def is_ll_def)
  next
    case (snoc us y)
    with l xs have l': "is_ll mem head (us @ y # d # zs)" by simp
    note at = is_ll_at [OF l']
    then obtain r where r: "ll_links mem d = Some r" "chain (ll_links mem) r zs" by blast
    have dist: "distinct (us @ y # d # zs)" by (rule is_ll_distinct [OF l'])
    have "is_ll (put_next y r mem) head (us @ y # zs)"
      by (rule is_ll_splice [OF l' r(2)]) (use dist in auto)
    moreover have "LL_DELETE head (Some d) mem = Some (head, put_next y r mem)"
      using at r by (auto simp: LL_DELETE_def)
    ultimately show ?thesis using rm xs snoc dist by auto
  qed
qed

text \<open>Deleting a node that is not on a nonempty list changes nothing.\<close>

lemma LL_DELETE_absent:
  assumes "is_ll mem head xs" "d \<notin> set xs" "xs \<noteq> []"
  shows "LL_DELETE head (Some d) mem = Some (head, mem)"
proof -
  from assms(3) obtain ys y where xs: "xs = ys @ [y]" by (meson rev_exhaust)
  have s: "seg (ll_links mem) head (ys @ [y]) None" using assms(1) xs by (simp add: is_ll_def seg_None)
  have "ll_links mem y = Some None" using s by (auto simp: seg_append)
  moreover have "head \<noteq> Some d" using s assms(2) xs by (cases ys) auto
  ultimately show ?thesis
    using ll_before_seg [OF s, of d] assms(2) xs by (simp add: LL_DELETE_def)
qed

lemma LL_REPLACE_ELEM_list:
  assumes l: "is_ll mem head (ys @ e # zs)" and a: "mem a \<noteq> None" "a \<notin> set (ys @ e # zs)"
  shows "\<exists>h mem'. LL_REPLACE_ELEM head (Some e) (Some a) mem = Some (h, mem') \<and>
    is_ll mem' h (ys @ a # zs) \<and> ll_upd (insert a (set ys)) mem mem'"
proof -
  from l obtain r where r: "ll_links mem e = Some r" "chain (ll_links mem) r zs"
    by (auto simp: is_ll_def chain_append)
  let ?m = "put_next a r mem"
  have l1: "is_ll ?m head (ys @ e # zs)"
    using a(2) by (intro is_ll_frame [OF ll_upd_put [of a "{a}"] _ l]) auto
  have c1: "chain (ll_links ?m) (Some a) (a # zs)"
    using a r by (simp add: ll_links_put chain_frame)
  have h: "head \<noteq> None" using l by (cases head) auto
  show ?thesis
  proof (cases ys rule: rev_cases)
    case Nil
    with l r a c1 h show ?thesis
      by (auto simp: LL_REPLACE_ELEM_def is_ll_def)
  next
    case (snoc us y)
    with l1 have l': "is_ll ?m head (us @ y # e # zs)" by simp
    note at = is_ll_at [OF l']
    have "is_ll (put_next y (Some a) ?m) head (us @ y # a # zs)"
      using a(2) is_ll_distinct [OF l'] snoc by (intro is_ll_splice [OF l' c1]) auto
    moreover have "ll_upd (insert a (set ys)) mem (put_next y (Some a) ?m)"
      using snoc by (intro ll_upd_trans [OF ll_upd_put [of a "{a}"] ll_upd_put [of y "{y}"]]) auto
    ultimately show ?thesis using at r a h snoc by (auto simp: LL_REPLACE_ELEM_def)
  qed
qed

lemma LL_PREPEND_ELEM_list:
  assumes l: "is_ll mem head (ys @ e # zs)" and a: "mem a \<noteq> None" "a \<notin> set (ys @ e # zs)"
  shows "\<exists>h mem'. LL_PREPEND_ELEM head (Some e) a mem = Some (h, mem') \<and>
    is_ll mem' h (ys @ a # e # zs) \<and> ll_upd (insert a (set ys)) mem mem'"
proof -
  let ?m = "put_next a (Some e) mem"
  have l1: "is_ll ?m head (ys @ e # zs)"
    using a(2) by (intro is_ll_frame [OF ll_upd_put [of a "{a}"] _ l]) auto
  have c1: "chain (ll_links ?m) (Some a) (a # e # zs)"
    using a l1 by (auto simp: ll_links_put is_ll_def chain_append)
  have h: "head \<noteq> None" using l by (cases head) auto
  show ?thesis
  proof (cases ys rule: rev_cases)
    case Nil
    with l a c1 h show ?thesis by (auto simp: LL_PREPEND_ELEM_def is_ll_def)
  next
    case (snoc us y)
    with l1 have l': "is_ll ?m head (us @ y # e # zs)" by simp
    note at = is_ll_at [OF l']
    have "is_ll (put_next y (Some a) ?m) head (us @ y # a # e # zs)"
      using a(2) is_ll_distinct [OF l'] snoc by (intro is_ll_splice [OF l' c1]) auto
    moreover have "ll_upd (insert a (set ys)) mem (put_next y (Some a) ?m)"
      using snoc by (intro ll_upd_trans [OF ll_upd_put [of a "{a}"] ll_upd_put [of y "{y}"]]) auto
    ultimately show ?thesis using at a h snoc by (auto simp: LL_PREPEND_ELEM_def)
  qed
qed

lemma LL_APPEND_ELEM_list:
  assumes l: "is_ll mem head (ys @ e # zs)" and a: "mem a \<noteq> None" "a \<notin> set (ys @ e # zs)"
  shows "\<exists>mem'. LL_APPEND_ELEM head (Some e) a mem = Some (head, mem') \<and>
    is_ll mem' head (ys @ e # a # zs) \<and> ll_upd {e, a} mem mem'"
proof -
  from l obtain r where r: "ll_links mem e = Some r" "chain (ll_links mem) r zs"
    by (auto simp: is_ll_def chain_append)
  have m: "mem e \<noteq> None" using is_ll_mapped [OF l] by auto
  let ?m = "put_next a r mem"
  have l1: "is_ll ?m head (ys @ e # zs)"
    using a(2) by (intro is_ll_frame [OF ll_upd_put [of a "{a}"] _ l]) auto
  have c1: "chain (ll_links ?m) (Some a) (a # zs)"
    using a r by (simp add: ll_links_put chain_frame)
  have "is_ll (put_next e (Some a) ?m) head (ys @ e # a # zs)"
    using a(2) is_ll_distinct [OF l] by (intro is_ll_splice [OF l1 c1]) auto
  moreover have "ll_upd {e, a} mem (put_next e (Some a) ?m)"
    by (rule ll_upd_trans [OF ll_upd_put [of a "{a}"] ll_upd_put [of e "{e}"]]) auto
  moreover have "head \<noteq> None" using l by (cases head) auto
  ultimately show ?thesis using r a m by (auto simp: LL_APPEND_ELEM_def)
qed

subsection \<open>What the walking macros find\<close>

lemma LL_FOREACH_list: "is_ll mem head xs \<Longrightarrow> LL_FOREACH head mem = Some xs"
  unfolding is_ll_def
proof (induction xs arbitrary: head)
  case Nil
  then show ?case by (simp add: LL_FOREACH.simps)
next
  case (Cons x xs)
  then show ?case by (auto simp: LL_FOREACH.simps [of "Some x"])
qed

lemma ll_count_list:
  "is_ll mem p xs \<Longrightarrow> is_int (c + int (length xs)) \<Longrightarrow> is_int c \<Longrightarrow> ll_count p mem c = Some (c + int (length xs))"
  unfolding is_ll_def
proof (induction xs arbitrary: p c)
  case Nil
  then show ?case by (simp add: ll_count.simps)
next
  case (Cons x xs)
  from Cons.prems have "is_int (c + 1)" by (auto simp: is_int_def)
  with Cons show ?case by (auto simp: ll_count.simps [of "Some x"] c_int_def algebra_simps)
qed

lemma LL_COUNT_list:
  "is_ll mem head xs \<Longrightarrow> int (length xs) \<le> INT_MAX \<Longrightarrow> LL_COUNT head mem = Some (int (length xs))"
  using ll_count_list [of mem head xs 0] by (simp add: LL_COUNT_def is_int_def INT_MIN_def INT_MAX_def)

text \<open>A comparison that is defined on the nodes of a list, with its value as a function of the address.\<close>

definition cmp_is :: "('a \<Rightarrow> 'b \<Rightarrow> int option) \<Rightarrow> 'b \<Rightarrow> (addr \<Rightarrow> int) \<Rightarrow> 'a ll_mem \<Rightarrow> addr set \<Rightarrow> bool" where
  "cmp_is cmp e c mem S \<longleftrightarrow> (\<forall>a \<in> S. \<exists>v. ll_data mem a = Some v \<and> cmp v e = Some (c a))"

lemma cmp_at_is: "cmp_is cmp e c mem S \<Longrightarrow> a \<in> S \<Longrightarrow> cmp_at cmp (Some a) e mem = Some (c a)"
  by (auto simp: cmp_is_def cmp_at_def ll_data_def)

lemma LL_SEARCH_list:
  "is_ll mem head xs \<Longrightarrow> cmp_is cmp e c mem (set xs) \<Longrightarrow>
   LL_SEARCH head e cmp mem = Some (find (\<lambda>a. c a = 0) xs)"
  unfolding is_ll_def
proof (induction xs arbitrary: head)
  case Nil
  then show ?case by (simp add: LL_SEARCH.simps)
next
  case (Cons x xs)
  then have "cmp_is cmp e c mem (set xs)" by (simp add: cmp_is_def)
  with Cons show ?case
    by (auto simp: LL_SEARCH.simps [of "Some x"] cmp_at_is [OF Cons.prems(2)])
qed

lemma ll_bound_list:
  assumes "chain (ll_links mem) p (x # xs)" "cmp_is cmp e c mem (set xs)"
  shows "ll_bound p e cmp mem = Some (Some (last (x # takeWhile (\<lambda>a. c a < 0) xs)))"
  using assms
proof (induction xs arbitrary: p x)
  case Nil
  then show ?case by (auto simp: ll_bound.simps)
next
  case (Cons y ys)
  from Cons.prems(1) have p: "p = Some x" "ll_links mem x = Some (Some y)"
    "chain (ll_links mem) (Some y) (y # ys)" by auto
  from Cons.prems(2) have "cmp_is cmp e c mem (set ys)" by (simp add: cmp_is_def)
  note IH = Cons.IH [OF p(3) this]
  have "cmp_at cmp (Some y) e mem = Some (c y)" by (rule cmp_at_is [OF Cons.prems(2)]) simp
  with IH p show ?case by (subst ll_bound.simps) (simp add: not_le not_less)
qed

lemma LL_INSERT_INORDER_list:
  assumes l: "is_ll mem head xs" and a: "ll_data mem a = Some v" "a \<notin> set xs"
    and c: "cmp_is cmp v c mem (set xs)"
  shows "\<exists>h mem'. LL_INSERT_INORDER head a cmp mem = Some (h, mem') \<and>
    is_ll mem' h (takeWhile (\<lambda>x. c x < 0) xs @ a # dropWhile (\<lambda>x. c x < 0) xs) \<and>
    ll_upd (insert a (set xs)) mem mem'"
proof (cases xs)
  case Nil
  with l a show ?thesis
    by (auto simp: LL_INSERT_INORDER_def is_ll_def ll_links_put ll_data_def)
next
  case (Cons x zs)
  from a(1) obtain n where n: "mem a = Some n" "ll_val n = v" by (auto simp: ll_data_def)
  from l Cons have h: "head = Some x" "chain (ll_links mem) head (x # zs)" by (auto simp: is_ll_def)
  have cx: "cmp_at cmp (Some x) v mem = Some (c x)" by (rule cmp_at_is [OF c]) (simp add: Cons)
  show ?thesis
  proof (cases "c x < 0")
    case False
    have "LL_LOWER_BOUND head v cmp mem = Some None" using False cx h by (simp add: LL_LOWER_BOUND_def)
    then have "LL_INSERT_INORDER head a cmp mem = LL_PREPEND head a mem"
      using n h by (simp add: LL_INSERT_INORDER_def LL_APPEND_ELEM_def)
    with LL_PREPEND_list [OF l _ a(2)] n False Cons show ?thesis
      by (auto intro: ll_upd_mono)
  next
    case True
    let ?P = "\<lambda>x. c x < 0"
    let ?w = "takeWhile ?P xs" and ?t = "last (takeWhile ?P xs)"
    have w: "?w = x # takeWhile ?P zs" using True Cons by simp
    have "cmp_is cmp v c mem (set zs)" using c Cons by (simp add: cmp_is_def)
    from ll_bound_list [OF h(2) this] have "ll_bound head v cmp mem = Some (Some ?t)"
      by (simp add: w)
    then have "LL_LOWER_BOUND head v cmp mem = Some (Some ?t)"
      using True cx h(1) by (simp add: LL_LOWER_BOUND_def)
    then have eq: "LL_INSERT_INORDER head a cmp mem = LL_APPEND_ELEM head (Some ?t) a mem"
      using n h by (simp add: LL_INSERT_INORDER_def)
    have xs: "xs = butlast ?w @ ?t # dropWhile ?P xs"
      by (metis append_Cons append_Nil append_assoc append_butlast_last_id list.distinct(1)
          takeWhile_dropWhile_id w)
    have "?t \<in> set xs" by (metis in_set_conv_decomp xs)
    moreover from xs l a(2) obtain mem' where "LL_APPEND_ELEM head (Some ?t) a mem = Some (head, mem')"
      "is_ll mem' head (butlast ?w @ ?t # a # dropWhile ?P xs)" "ll_upd {?t, a} mem mem'"
      using LL_APPEND_ELEM_list [of mem head "butlast ?w" ?t "dropWhile ?P xs" a] n by auto
    moreover have "butlast ?w @ ?t # a # dropWhile ?P xs = ?w @ a # dropWhile ?P xs"
      by (metis append_Cons append_Nil append_assoc append_butlast_last_id list.distinct(1) w)
    ultimately show ?thesis using eq by (auto intro: ll_upd_mono)
  qed
qed

subsection \<open>The merge sort\<close>

text \<open>
  LL-SORT interprets the shared merge sort: the merged list so far is out, its last node still
  pointing anywhere.
\<close>

definition merged :: "'a ll_mem \<Rightarrow> addr option \<Rightarrow> addr option \<Rightarrow> addr list \<Rightarrow> bool" where
  "merged mem list tail out \<longleftrightarrow>
     (if out = [] then list = None \<and> tail = None
      else tail = Some (last out) \<and> (\<exists>r. seg (ll_links mem) list out r))"

definition cmp_nodes :: "'a ll_cmp \<Rightarrow> 'a ll_mem \<Rightarrow> addr \<Rightarrow> addr \<Rightarrow> int option" where
  "cmp_nodes cmp mem a b = do { u \<leftarrow> ll_data mem a; v \<leftarrow> ll_data mem b; cmp u v }"

definition ls_close :: "addr option \<Rightarrow> 'a ll_mem \<Rightarrow> 'a ll_mem option" where
  "ls_close tail mem = (if tail \<noteq> None then set_next tail None mem else Some mem)"

lemma cmp_nodes_at: "cmp_nodes cmp mem a b = Some c \<longleftrightarrow> (\<exists>n. mem b = Some n \<and> cmp_at cmp (Some a) (ll_val n) mem = Some c)"
  by (auto simp: cmp_nodes_def cmp_at_def ll_data_def bind_Some_iff)

lemma ls_emit_list:
  assumes m: "merged mem list tail out" and e: "mem e \<noteq> None" "e \<notin> set out" and d: "distinct out"
  shows "\<exists>list' mem'. ls_emit (Some e) list tail mem = Some (list', mem') \<and>
    merged mem' list' (Some e) (out @ [e]) \<and> ll_upd (set out) mem mem'"
proof (cases out rule: rev_cases)
  case Nil
  obtain r where "ll_links mem e = Some r" using e(1) by (metis ll_links_None option.exhaust)
  with Nil m show ?thesis by (auto simp: merged_def ls_emit_def)
next
  case (snoc us t)
  let ?m = "put_next t (Some e) mem"
  from m snoc obtain r where t: "tail = Some t" and s: "seg (ll_links mem) list (us @ [t]) r"
    by (auto simp: merged_def)
  have tm: "mem t \<noteq> None" using s by (auto simp: seg_append simp flip: ll_links_None)
  have "seg (ll_links ?m) list (us @ [t]) (Some e)"
    using seg_relink [OF s, of "Some e"] d snoc tm by (simp add: ll_links_put)
  moreover obtain r' where "ll_links ?m e = Some r'"
    using e(1) by (metis ll_links_None option.exhaust put_next_None)
  ultimately have "seg (ll_links ?m) list ((us @ [t]) @ [e]) r'"
    unfolding seg_append [of _ _ "us @ [t]"] by auto
  then have "merged ?m list (Some e) (out @ [e])" using snoc by (auto simp: merged_def)
  with t tm snoc show ?thesis by (auto simp: ls_emit_def)
qed

lemma merged_close:
  assumes "merged mem list tail out" "out \<noteq> []" "distinct out"
  obtains mem' where "tail \<noteq> None" "set_next tail None mem = Some mem'" "is_ll mem' list out"
    "ll_upd (set out) mem mem'"
proof -
  from assms obtain us t r where o: "out = us @ [t]" and t: "tail = Some t"
    and s: "seg (ll_links mem) list (us @ [t]) r"
    by (auto simp: merged_def split: if_splits) (metis append_butlast_last_id)
  have tm: "mem t \<noteq> None" using s by (auto simp: seg_append simp flip: ll_links_None)
  have "is_ll (put_next t None mem) list out"
    using seg_relink [OF s, of None] assms(3) o tm by (simp add: is_ll_def seg_None ll_links_put)
  with that [of "put_next t None mem"] t tm o show ?thesis by auto
qed

interpretation ls: merge_sort "\<lambda>_. ll_links" "cmp_nodes cmp" ll_upd merged is_ll "\<lambda>e. ls_emit (Some e)"
  "\<lambda>_. ls_close" "\<lambda>_. ls_step" "\<lambda>_. ls_merge cmp" "\<lambda>_. ls_pass cmp" "ls_loop cmp" "\<lambda>l t m. (l, m)" "2 ^ 30"
  for cmp :: "'a ll_cmp"
proof (unfold_locales, goal_cases)
  case 1 then show ?case by simp
next
  case 2 then show ?case by (rule ll_upd_trans)
next
  case 3 then show ?case by (auto simp: ll_upd_def ll_links_def)
next
  case 4 then show ?case by (simp add: cmp_nodes_def ll_upd_def)
next
  case 5 then show ?case by (simp add: merged_def)
next
  case (6 m l t out oh e)
  then show ?case using ls_emit_list [of m l t out e] by (auto simp flip: ll_links_None intro: ll_upd_mono)
next
  case (7 m l t out)
  with merged_close [of m l t out] show ?case by (auto simp: ls_close_def)
next
  case 8 then show ?case by (simp add: merged_def)
next
  case 9 then show ?case by (simp add: is_ll_def)
next
  case 10 then show ?case by (subst ls_step.simps) simp
next
  case 11 then show ?case by (subst ls_step.simps) simp
next
  case 12 then show ?case by (subst ls_step.simps) simp
next
  case 13 then show ?case by (subst ls_merge.simps) auto
next
  case 14
  then show ?case by (subst ls_merge.simps) (auto simp: cmp_nodes_at)
next
  case 15
  then show ?case by (subst ls_merge.simps) (auto simp: cmp_nodes_at)
next
  case 16 then show ?case by (subst ls_pass.simps) simp
next
  case 17
  then show ?case by (subst ls_pass.simps) (simp add: c_int_def is_int_def INT_MAX_def INT_MIN_def)
next
  case 18
  then show ?case
    by (subst ls_loop.simps) (auto simp: ls_close_def c_int_def is_int_def INT_MAX_def INT_MIN_def)
qed

text \<open>
  The comparison of the program as an order on the nodes: le a b holds when cmp of their
  structures is at most 0.
\<close>

definition cmp_le :: "'a ll_cmp \<Rightarrow> (addr \<Rightarrow> addr \<Rightarrow> bool) \<Rightarrow> 'a ll_mem \<Rightarrow> addr set \<Rightarrow> bool" where
  "cmp_le cmp le mem S \<longleftrightarrow> (\<forall>a \<in> S. \<forall>b \<in> S. \<exists>u v c. ll_data mem a = Some u \<and> ll_data mem b = Some v \<and>
     cmp u v = Some c \<and> (le a b \<longleftrightarrow> c \<le> 0))"

lemma cmp_le_ordered: "cmp_le cmp le mem S \<Longrightarrow> ls.ordered cmp mem le S"
  unfolding cmp_le_def ls.ordered_def by (fastforce simp: cmp_nodes_def)

lemma LL_SORT_list:
  assumes "is_ll mem head xs" "cmp_le cmp le mem (set xs)" "length xs \<le> 2 ^ 30"
  shows "\<exists>head' mem'. LL_SORT head cmp mem = Some (head', mem') \<and>
    is_ll mem' head' (bsort le 1 xs) \<and> ll_upd (set xs) mem mem'"
proof (cases "xs = []")
  case True
  with assms show ?thesis by (auto simp: LL_SORT_def is_ll_Nil bsort_Nil)
next
  case False
  then have "head \<noteq> None" using assms(1) by (cases head) auto
  with ls.sort_list [OF assms(1) False is_ll_distinct [OF assms(1)] cmp_le_ordered [OF assms(2)]] assms(3) show ?thesis
    by (simp add: LL_SORT_def)
qed

subsection \<open>The interface\<close>

lemma map_remove1_distinct: "distinct (map f xs) \<Longrightarrow> a \<in> set xs \<Longrightarrow> map f (remove1 a xs) = remove1 (f a) (map f xs)"
  by (induction xs) (auto simp: rev_image_eqI)

text \<open>
  What a program that keeps its structures on a list relies on, whatever the links look like:
  is-list relates a head to the nodes behind it, holds reads the structure of a node.
\<close>

locale node_list =
  fixes is_list :: "'m \<Rightarrow> 'h \<Rightarrow> 'n list \<Rightarrow> bool"
    and holds :: "'m \<Rightarrow> 'n \<Rightarrow> 'v option"
    and prepend :: "'h \<Rightarrow> 'n \<Rightarrow> 'm \<Rightarrow> ('h \<times> 'm) option"
    and append :: "'h \<Rightarrow> 'n \<Rightarrow> 'm \<Rightarrow> ('h \<times> 'm) option"
    and delete :: "'h \<Rightarrow> 'n \<Rightarrow> 'm \<Rightarrow> ('h \<times> 'm) option"
  assumes prepend_law: "is_list m h xs \<Longrightarrow> holds m a \<noteq> None \<Longrightarrow> a \<notin> set xs \<Longrightarrow>
      \<exists>h' m'. prepend h a m = Some (h', m') \<and> is_list m' h' (a # xs) \<and> holds m' = holds m"
    and append_law: "is_list m h xs \<Longrightarrow> holds m a \<noteq> None \<Longrightarrow> a \<notin> set xs \<Longrightarrow>
      \<exists>h' m'. append h a m = Some (h', m') \<and> is_list m' h' (xs @ [a]) \<and> holds m' = holds m"
    and delete_law: "is_list m h xs \<Longrightarrow> a \<in> set xs \<Longrightarrow>
      \<exists>h' m'. delete h a m = Some (h', m') \<and> is_list m' h' (remove1 a xs) \<and> holds m' = holds m"
    and nodes_distinct: "is_list m h xs \<Longrightarrow> distinct xs"
    and nodes_hold: "is_list m h xs \<Longrightarrow> a \<in> set xs \<Longrightarrow> holds m a \<noteq> None"
begin

lemma prepend_values:
  assumes "is_list m h xs" "map (holds m) xs = map Some vs" "holds m a = Some v" "a \<notin> set xs"
  obtains h' m' where "prepend h a m = Some (h', m')" "is_list m' h' (a # xs)"
    "map (holds m') (a # xs) = map Some (v # vs)" "holds m' = holds m"
  using prepend_law [OF assms(1) _ assms(4)] assms(2,3) by auto

lemma append_values:
  assumes "is_list m h xs" "map (holds m) xs = map Some vs" "holds m a = Some v" "a \<notin> set xs"
  obtains h' m' where "append h a m = Some (h', m')" "is_list m' h' (xs @ [a])"
    "map (holds m') (xs @ [a]) = map Some (vs @ [v])" "holds m' = holds m"
  using append_law [OF assms(1) _ assms(4)] assms(2,3) by auto

text \<open>When no two structures are equal, deleting a node removes its structure.\<close>

lemma delete_values:
  assumes l: "is_list m h xs" and v: "map (holds m) xs = map Some vs" "distinct vs"
    and a: "a \<in> set xs" "holds m a = Some v"
  obtains h' m' where "delete h a m = Some (h', m')" "is_list m' h' (remove1 a xs)"
    "map (holds m') (remove1 a xs) = map Some (remove1 v vs)" "holds m' = holds m"
proof -
  from delete_law [OF l a(1)] obtain h' m' where *: "delete h a m = Some (h', m')"
    "is_list m' h' (remove1 a xs)" "holds m' = holds m" by blast
  have "distinct (map (holds m) xs)" using v by (simp add: distinct_map)
  then have "map (holds m) (remove1 a xs) = remove1 (holds m a) (map (holds m) xs)"
    using a(1) by (rule map_remove1_distinct)
  also have "\<dots> = remove1 (Some v) (map Some vs)" using v a by simp
  also have "\<dots> = map Some (remove1 v vs)" by (induction vs) auto
  finally show ?thesis using that * by simp
qed

text \<open>Taking a node off again that was just put on gives the list as it was.\<close>

lemma prepend_delete:
  assumes "is_list m h xs" "holds m a \<noteq> None" "a \<notin> set xs" "prepend h a m = Some (h1, m1)"
  shows "\<exists>h2 m2. delete h1 a m1 = Some (h2, m2) \<and> is_list m2 h2 xs \<and> holds m2 = holds m"
  using prepend_law [OF assms(1-3)] delete_law [of m1 h1 "a # xs" a] assms(4) by auto

lemma append_delete:
  assumes "is_list m h xs" "holds m a \<noteq> None" "a \<notin> set xs" "append h a m = Some (h1, m1)"
  shows "\<exists>h2 m2. delete h1 a m1 = Some (h2, m2) \<and> is_list m2 h2 xs \<and> holds m2 = holds m"
  using append_law [OF assms(1-3)] delete_law [of m1 h1 "xs @ [a]" a] assms(3,4)
  by (auto simp: remove1_append)

end

lemma ll_upd_data: "ll_upd S mem mem' \<Longrightarrow> ll_data mem' = ll_data mem"
  by (simp add: ll_upd_def)

lemma ll_data_mapped: "ll_data mem a \<noteq> None \<Longrightarrow> mem a \<noteq> None"
  by (simp add: ll_data_None)

interpretation ll: node_list is_ll ll_data LL_PREPEND LL_APPEND "\<lambda>h a. LL_DELETE h (Some a)"
proof
  fix m :: "'a ll_mem" and h a xs
  assume l: "is_ll m h xs"
  show "distinct xs" by (rule is_ll_distinct [OF l])
  show "a \<in> set xs \<Longrightarrow> ll_data m a \<noteq> None" using is_ll_mapped [OF l] by (simp add: ll_data_None)
  show "a \<in> set xs \<Longrightarrow> \<exists>h' m'. LL_DELETE h (Some a) m = Some (h', m') \<and> is_ll m' h' (remove1 a xs) \<and>
      ll_data m' = ll_data m"
    using LL_DELETE_list [OF l] ll_upd_data by fast
  assume a: "ll_data m a \<noteq> None" "a \<notin> set xs"
  show "\<exists>h' m'. LL_PREPEND h a m = Some (h', m') \<and> is_ll m' h' (a # xs) \<and> ll_data m' = ll_data m"
    using LL_PREPEND_list [OF l ll_data_mapped [OF a(1)] a(2)] ll_upd_data by fast
  show "\<exists>h' m'. LL_APPEND h a m = Some (h', m') \<and> is_ll m' h' (xs @ [a]) \<and> ll_data m' = ll_data m"
    using LL_APPEND_list [OF l ll_data_mapped [OF a(1)] a(2)] ll_upd_data by fast
qed

subsection \<open>Correctness\<close>

text \<open>Three nodes 0, 1, 2 holding 3, 1, 2, for the examples below; node 7 is on no list.\<close>

definition three_nodes :: "int ll_mem" where
  "three_nodes = (\<lambda>_. None)(0 \<mapsto> \<lparr>ll_next = Some 1, ll_val = 3\<rparr>, 1 \<mapsto> \<lparr>ll_next = Some 2, ll_val = 1\<rparr>,
     2 \<mapsto> \<lparr>ll_next = None, ll_val = 2\<rparr>, 7 \<mapsto> \<lparr>ll_next = Some 9, ll_val = 2\<rparr>)"

lemma three_nodes_list: "is_ll three_nodes (Some 0) [0, 1, 2]"
  by (simp add: is_ll_def ll_links_def three_nodes_def)

definition val_le :: "int ll_mem \<Rightarrow> addr \<Rightarrow> addr \<Rightarrow> bool" where
  "val_le mem a b \<longleftrightarrow> the (ll_data mem a) \<le> the (ll_data mem b)"

lemma val_le_preorder: "preorder_on_set (val_le mem) S"
  by (auto simp: preorder_on_set_def val_le_def)

text \<open>
  C14: LL-SORT on a list of at most 2^30 nodes whose comparison is a total preorder returns: the
  result has the same nodes in ascending order, equal ones in their old order, and only the
  next pointers of the list's nodes changed.
\<close>

theorem LL_SORT_correct:
  assumes "is_ll mem head xs" "length xs \<le> 2 ^ 30"
    and "cmp_le cmp le mem (set xs)" "preorder_on_set le (set xs)"
  shows "\<exists>head' mem' ys. LL_SORT head cmp mem = Some (head', mem') \<and> is_ll mem' head' ys \<and>
    mset ys = mset xs \<and> sorted_wrt le ys \<and>
    (\<forall>a \<in> set xs. filter (\<lambda>b. le a b \<and> le b a) ys = filter (\<lambda>b. le a b \<and> le b a) xs) \<and>
    ll_upd (set xs) mem mem'"
proof -
  obtain head' mem' where *: "LL_SORT head cmp mem = Some (head', mem')"
    "is_ll mem' head' (bsort le 1 xs)" "ll_upd (set xs) mem mem'"
    using LL_SORT_list [OF assms(1,3,2)] by blast
  have "sorted_wrt le (bsort le 1 xs)" by (rule sorted_bsort [OF assms(4) runs_one]) simp
  moreover have "filter (\<lambda>b. le a b \<and> le b a) (bsort le 1 xs) = filter (\<lambda>b. le a b \<and> le b a) xs"
    if "a \<in> set xs" for a
    by (rule filter_bsort [OF assms(4) runs_one])
      (use that preorder_trans [OF assms(4)] in \<open>simp, blast\<close>)
  ultimately show ?thesis using * mset_bsort by blast
qed

theorem LL_SORT_correct_witness:
  "\<exists>head' mem' ys. LL_SORT (Some 0) (\<lambda>u v. c_int (u - v)) three_nodes = Some (head', mem') \<and>
    is_ll mem' head' ys \<and> sorted_wrt (val_le three_nodes) ys"
proof -
  have "cmp_le (\<lambda>u v. c_int (u - v)) (val_le three_nodes) three_nodes (set [0, 1, 2])"
    by (simp add: cmp_le_def val_le_def ll_data_def three_nodes_def c_int_def is_int_def INT_MIN_def INT_MAX_def)
  from LL_SORT_correct [OF three_nodes_list _ this val_le_preorder] show ?thesis by auto
qed

text \<open>
  LL-DELETE on a nonempty list takes exactly the given node out, wherever it stands, and
  does nothing when the node is not on the list.  The node's own memory is not touched.
\<close>

theorem LL_DELETE_correct:
  assumes "is_ll mem head xs" "xs \<noteq> []"
  shows "\<exists>head' mem'. LL_DELETE head (Some d) mem = Some (head', mem') \<and>
    is_ll mem' head' (remove1 d xs) \<and> ll_upd (set xs - {d}) mem mem'"
  using LL_DELETE_list [OF assms(1), of d] LL_DELETE_absent [OF assms(1) _ assms(2), of d] assms
  by (cases "d \<in> set xs") (auto simp: remove1_idem)

theorem LL_DELETE_correct_witness:
  "\<exists>head' mem'. LL_DELETE (Some 0) (Some 1) three_nodes = Some (head', mem') \<and> is_ll mem' head' [0, 2]"
  using LL_DELETE_correct [OF three_nodes_list, of 1] by auto

text \<open>
  The macros that work next to a given node e of the list put the new node in its place,
  right before it and right after it, and change no node past e.
\<close>

theorem LL_ELEM_macros:
  assumes "is_ll mem head (ys @ e # zs)" "mem a \<noteq> None" "a \<notin> set (ys @ e # zs)"
  shows "(\<exists>h m. LL_REPLACE_ELEM head (Some e) (Some a) mem = Some (h, m) \<and> is_ll m h (ys @ a # zs) \<and>
      ll_upd (insert a (set ys)) mem m) \<and>
    (\<exists>h m. LL_PREPEND_ELEM head (Some e) a mem = Some (h, m) \<and> is_ll m h (ys @ a # e # zs) \<and>
      ll_upd (insert a (set ys)) mem m) \<and>
    (\<exists>m. LL_APPEND_ELEM head (Some e) a mem = Some (head, m) \<and> is_ll m head (ys @ e # a # zs) \<and>
      ll_upd {e, a} mem m)"
  using LL_REPLACE_ELEM_list [OF assms] LL_PREPEND_ELEM_list [OF assms] LL_APPEND_ELEM_list [OF assms]
  by blast

theorem LL_ELEM_macros_witness:
  "(\<exists>h m. LL_REPLACE_ELEM (Some 0) (Some 1) (Some 7) three_nodes = Some (h, m) \<and> is_ll m h [0, 7, 2]) \<and>
   (\<exists>h m. LL_PREPEND_ELEM (Some 0) (Some 1) 7 three_nodes = Some (h, m) \<and> is_ll m h [0, 7, 1, 2]) \<and>
   (\<exists>m. LL_APPEND_ELEM (Some 0) (Some 1) 7 three_nodes = Some (Some 0, m) \<and> is_ll m (Some 0) [0, 1, 7, 2])"
proof -
  have "is_ll three_nodes (Some 0) ([0] @ 1 # [2])" using three_nodes_list by simp
  moreover have "three_nodes 7 \<noteq> None" by (simp add: three_nodes_def)
  ultimately have "(\<exists>h m. LL_REPLACE_ELEM (Some 0) (Some 1) (Some 7) three_nodes = Some (h, m) \<and> is_ll m h ([0] @ 7 # [2]) \<and>
      ll_upd (insert 7 (set [0])) three_nodes m) \<and>
    (\<exists>h m. LL_PREPEND_ELEM (Some 0) (Some 1) 7 three_nodes = Some (h, m) \<and> is_ll m h ([0] @ 7 # 1 # [2]) \<and>
      ll_upd (insert 7 (set [0])) three_nodes m) \<and>
    (\<exists>m. LL_APPEND_ELEM (Some 0) (Some 1) 7 three_nodes = Some (Some 0, m) \<and> is_ll m (Some 0) ([0] @ 1 # 7 # [2]) \<and>
      ll_upd {1, 7} three_nodes m)"
    by (rule LL_ELEM_macros) simp
  then show ?thesis by auto
qed

text \<open>A comparison that also tells equal elements apart from greater ones.\<close>

definition cmp_orders :: "'a ll_cmp \<Rightarrow> (addr \<Rightarrow> addr \<Rightarrow> bool) \<Rightarrow> 'a ll_mem \<Rightarrow> addr set \<Rightarrow> bool" where
  "cmp_orders cmp le mem S \<longleftrightarrow> (\<forall>a \<in> S. \<forall>b \<in> S. \<exists>u v c. ll_data mem a = Some u \<and> ll_data mem b = Some v \<and>
     cmp u v = Some c \<and> (le a b \<longleftrightarrow> c \<le> 0) \<and> (le b a \<longleftrightarrow> 0 \<le> c))"

lemma cmp_orders_is:
  assumes "cmp_orders cmp le mem (insert a S)" "ll_data mem a = Some v"
  obtains c where "cmp_is cmp v c mem S" "\<And>b. b \<in> S \<Longrightarrow> le b a \<longleftrightarrow> c b \<le> 0" "\<And>b. b \<in> S \<Longrightarrow> le a b \<longleftrightarrow> 0 \<le> c b"
proof -
  have "\<forall>b \<in> S. \<exists>c u. ll_data mem b = Some u \<and> cmp u v = Some c \<and> (le b a \<longleftrightarrow> c \<le> 0) \<and> (le a b \<longleftrightarrow> 0 \<le> c)"
    using assms unfolding cmp_orders_def by fastforce
  then obtain c where "\<forall>b \<in> S. \<exists>u. ll_data mem b = Some u \<and> cmp u v = Some (c b) \<and>
      (le b a \<longleftrightarrow> c b \<le> 0) \<and> (le a b \<longleftrightarrow> 0 \<le> c b)" by metis
  with that [of c] show ?thesis by (auto simp: cmp_is_def)
qed

text \<open>
  LL-INSERT-INORDER puts a node into an ascending list so that it stays ascending, in
  front of the nodes equal to it.
\<close>

theorem LL_INSERT_INORDER_sorted:
  assumes "is_ll mem head xs" "sorted_wrt le xs" "mem a \<noteq> None" "a \<notin> set xs"
    and "cmp_orders cmp le mem (insert a (set xs))" "preorder_on_set le (insert a (set xs))"
  shows "\<exists>head' mem' us vs. LL_INSERT_INORDER head a cmp mem = Some (head', mem') \<and>
    is_ll mem' head' (us @ a # vs) \<and> xs = us @ vs \<and> sorted_wrt le (us @ a # vs) \<and>
    (\<forall>u \<in> set us. \<not> le a u) \<and> ll_upd (insert a (set xs)) mem mem'"
proof -
  obtain v where v: "ll_data mem a = Some v" using assms(3) by (auto simp: ll_data_def)
  obtain c where c: "cmp_is cmp v c mem (set xs)" "\<And>b. b \<in> set xs \<Longrightarrow> le b a \<longleftrightarrow> c b \<le> 0"
    "\<And>b. b \<in> set xs \<Longrightarrow> le a b \<longleftrightarrow> 0 \<le> c b"
    using cmp_orders_is [OF assms(5) v] by blast
  let ?us = "takeWhile (\<lambda>x. c x < 0) xs" and ?vs = "dropWhile (\<lambda>x. c x < 0) xs"
  have us: "u \<in> set xs \<and> c u < 0" if "u \<in> set ?us" for u using that by (auto dest: set_takeWhileD)
  have srt: "sorted_wrt le (?us @ ?vs)" using assms(2) by simp
  have vs: "le a b" if "b \<in> set ?vs" for b
  proof (cases ?vs)
    case (Cons w ws)
    have w: "\<not> c w < 0" "w \<in> set xs"
      using hd_dropWhile [of "\<lambda>x. c x < 0" xs] set_dropWhileD [of w "\<lambda>x. c x < 0" xs] Cons by auto
    have "b = w \<or> le w b" using srt Cons that by (auto simp: sorted_wrt_append)
    moreover have "b \<in> set xs" using that by (rule set_dropWhileD)
    ultimately show ?thesis
      using c(3) [OF w(2)] w preorder_trans [OF assms(6), of a w b] by auto
  next
    case Nil
    from that show ?thesis unfolding Nil by simp
  qed
  have "sorted_wrt le (?us @ a # ?vs)"
  proof -
    have "le u a" if "u \<in> set ?us" for u using us [OF that] c(2) [of u] by auto
    with srt vs show ?thesis unfolding sorted_wrt_append by simp
  qed
  moreover have "\<forall>u \<in> set ?us. \<not> le a u" using us c(3) by force
  ultimately show ?thesis
    using LL_INSERT_INORDER_list [OF assms(1) v assms(4) c(1)] takeWhile_dropWhile_id by metis
qed

theorem LL_INSERT_INORDER_sorted_witness:
  "\<exists>head' mem' us vs. LL_INSERT_INORDER (Some 1) 7 (\<lambda>u v. c_int (u - v)) three_nodes = Some (head', mem') \<and>
    is_ll mem' head' (us @ 7 # vs) \<and> [1, 2] = us @ vs \<and> sorted_wrt (val_le three_nodes) (us @ 7 # vs)"
proof -
  have l: "is_ll three_nodes (Some 1) [1, 2]" by (simp add: is_ll_def ll_links_def three_nodes_def)
  have c: "cmp_orders (\<lambda>u v. c_int (u - v)) (val_le three_nodes) three_nodes (insert 7 (set [1, 2]))"
    by (simp add: cmp_orders_def val_le_def ll_data_def three_nodes_def c_int_def is_int_def INT_MIN_def INT_MAX_def)
  have s: "sorted_wrt (val_le three_nodes) [1, 2]" "three_nodes 7 \<noteq> None" "7 \<notin> set [1, 2 :: addr]"
    by (simp_all add: val_le_def ll_data_def three_nodes_def)
  from LL_INSERT_INORDER_sorted [OF l s c val_le_preorder] show ?thesis by blast
qed

end
