(* ===== verification/UtListTest.thy ===== *)
theory UtListTest
  imports UtList
begin

text \<open>
  utlist_test.c: a list of items built with LL-APPEND and LL-PREPEND, searched, shortened,
  counted and sorted.  The items come from malloc, which does not clear them: what a block
  holds when it is handed out is the argument junk.  The list of numbers the program means to
  keep is compared with what its list holds through the interface node-list.
\<close>

subsection \<open>Items\<close>

record session_item =
  it_id :: int
  it_name :: "byte list"

record heap_state =
  items :: "session_item ll_mem"
  next_free :: addr
  mallocs_left :: nat

type_synonym junk = "addr \<Rightarrow> session_item ll_node"

definition new_item :: "junk \<Rightarrow> int \<Rightarrow> string \<Rightarrow> heap_state \<Rightarrow> (addr \<times> heap_state) option" where
  "new_item junk ident name s =
     (if mallocs_left s = 0 then None
      else do {
        nm \<leftarrow> c_strcpy 32 (bytes_of name @ [0]);
        let a = next_free s;
        Some (a, s\<lparr>items := (items s)(a \<mapsto> (junk a)\<lparr>ll_val := \<lparr>it_id = ident, it_name = nm\<rparr>\<rparr>),
                   next_free := Suc a, mallocs_left := mallocs_left s - 1\<rparr>) })"

definition session_item_cmp :: "session_item \<Rightarrow> session_item \<Rightarrow> int option" where
  "session_item_cmp ptmp1 ptmp2 = c_int (it_id ptmp1 - it_id ptmp2)"

definition session_item_cmp_id :: "session_item \<Rightarrow> int \<Rightarrow> int option" where
  "session_item_cmp_id ptmp1 ident = Some (if it_id ptmp1 = ident then 0 else 1)"

subsection \<open>The program\<close>

text \<open>sprintf into the 32 bytes of temp.\<close>

definition item_name :: "int \<Rightarrow> string option" where
  "item_name i = (let s = ''item'' @ dec_int i in if length s < 32 then Some s else None)"

text \<open>The two loops that add items i, ..., max - 1.\<close>

function add_items ::
  "(addr option \<Rightarrow> addr \<Rightarrow> session_item ll_mem \<Rightarrow> (addr option \<times> session_item ll_mem) option) \<Rightarrow>
   junk \<Rightarrow> int \<Rightarrow> int \<Rightarrow> addr option \<Rightarrow> heap_state \<Rightarrow> (addr option \<times> heap_state) option" where
  "add_items add junk i lim head s =
     (if i < lim then do {
        temp \<leftarrow> item_name i;
        (item, s1) \<leftarrow> new_item junk i temp s;
        (head1, mem1) \<leftarrow> add head item (items s1);
        add_items add junk (i + 1) lim head1 (s1\<lparr>items := mem1\<rparr>) }
      else Some (head, s))"
  by auto
termination by (relation "measure (\<lambda>(add, junk, i, lim, head, s). nat (lim - i))") auto

declare add_items.simps [simp del]

text \<open>The loop that prints the items, with its counter afterwards.\<close>

partial_function (option) print_items ::
  "int \<Rightarrow> addr option \<Rightarrow> session_item ll_mem \<Rightarrow> (string list \<times> int) option" where
  "print_items i item mem = (case item of
       None \<Rightarrow> Some ([], i)
     | Some a \<Rightarrow> do {
         n \<leftarrow> mem a;
         i' \<leftarrow> c_int (i + 1);
         (out, j) \<leftarrow> print_items i' (ll_next n) mem;
         Some ((dec_int i @ '' -> '' @ dec_int (it_id (ll_val n)) @ ''\<newline>'') # out, j) })"

text \<open>Deleting an item that a search found.\<close>

definition delete_found ::
  "string \<Rightarrow> int \<Rightarrow> addr option \<Rightarrow> addr option \<Rightarrow> session_item ll_mem \<Rightarrow>
   (string list \<times> addr option \<times> session_item ll_mem) option" where
  "delete_found label i item head mem = (case item of
       None \<Rightarrow> Some ([], head, mem)
     | Some a \<Rightarrow> do {
         n \<leftarrow> mem a;
         (head', mem') \<leftarrow> LL_DELETE head item mem;
         Some ([label @ '' item:'' @ dec_int i @ '' -> '' @ dec_int (it_id (ll_val n)) @ ''('' @
            map (\<lambda>b. char_of (unat b)) (it_name (ll_val n)) @ '')\<newline>''], head', mem') })"

text \<open>The whole program, with the contents of the automatic variable local as an argument.\<close>

definition utlist_test_main ::
  "junk \<Rightarrow> session_item \<Rightarrow> heap_state \<Rightarrow> (string list \<times> addr option \<times> heap_state) option" where
  "utlist_test_main junk local s0 = do {
     let lim = 100;
     (head, s) \<leftarrow> new_item junk 0 ''HEAD'' s0;
     (head, s) \<leftarrow> add_items LL_APPEND junk 1 lim (Some head) s;
     (head, s) \<leftarrow> add_items LL_PREPEND junk lim (2 * lim) head s;
     (out1, i) \<leftarrow> print_items 0 head (items s);
     item \<leftarrow> LL_SEARCH head (local\<lparr>it_id := 23\<rparr>) session_item_cmp (items s);
     (out2, head, mem) \<leftarrow> delete_found ''delete'' i item head (items s);
     item \<leftarrow> LL_SEARCH head 78 session_item_cmp_id mem;
     (out3, head, mem) \<leftarrow> delete_found ''delte'' i item head mem;
     i \<leftarrow> LL_COUNT head mem;
     (head, mem) \<leftarrow> LL_SORT head session_item_cmp mem;
     (out4, _) \<leftarrow> print_items 0 head mem;
     Some (out1 @ out2 @ out3 @ [''list count = '' @ dec_int i @ ''\<newline>''] @ out4, head, s\<lparr>items := mem\<rparr>) }"

subsection \<open>What the list holds\<close>

text \<open>The item the program makes for a number, and the lines it prints for a list of numbers.\<close>

definition item_of :: "int \<Rightarrow> session_item" where
  "item_of k = \<lparr>it_id = k, it_name = bytes_of (if k = 0 then ''HEAD'' else ''item'' @ dec_int k)\<rparr>"

fun item_lines :: "int \<Rightarrow> int list \<Rightarrow> string list" where
  "item_lines i [] = []"
| "item_lines i (k # ks) = (dec_int i @ '' -> '' @ dec_int k @ ''\<newline>'') # item_lines (i + 1) ks"

text \<open>The list behind head holds the items of the numbers ks, at the addresses xs.\<close>

definition items_are :: "session_item ll_mem \<Rightarrow> addr option \<Rightarrow> addr list \<Rightarrow> int list \<Rightarrow> bool" where
  "items_are mem head xs ks \<longleftrightarrow> is_ll mem head xs \<and> map (ll_data mem) xs = map Some (map item_of ks)"

lemma it_id_item_of [simp]: "it_id (item_of k) = k"
  by (simp add: item_of_def)

lemma items_are_node: "items_are mem head xs ks \<Longrightarrow> a \<in> set xs \<Longrightarrow> \<exists>k \<in> set ks. ll_data mem a = Some (item_of k)"
proof -
  assume i: "items_are mem head xs ks" and a: "a \<in> set xs"
  then have "ll_data mem a \<in> set (map Some (map item_of ks))"
    unfolding items_are_def by (metis image_eqI list.set_map)
  then show ?thesis by auto
qed

lemma items_are_length: "items_are mem head xs ks \<Longrightarrow> length xs = length ks"
  unfolding items_are_def by (metis length_map)

lemma inj_item_of: "distinct ks \<Longrightarrow> distinct (map item_of ks)"
  by (metis (no_types) distinct_map inj_onI it_id_item_of)

lemma dec_int_short: "0 \<le> k \<Longrightarrow> k < 1000 \<Longrightarrow> length (dec_int k) \<le> 3"
  using length_dec_nat [of "nat k" 3] by (simp add: dec_int_def)

lemma dec_int_no_nul: "CHR 0x00 \<notin> set (dec_int k)"
proof -
  have "\<not> is_digit (CHR 0x00)" by (simp add: is_digit_def)
  then show ?thesis using dec_nat_digits by (auto simp: dec_int_def)
qed

lemma item_name_short: "0 \<le> k \<Longrightarrow> k < 1000 \<Longrightarrow> item_name k = Some (''item'' @ dec_int k)"
  using dec_int_short [of k] by (simp add: item_name_def)

lemma c_strcpy_bytes:
  "CHR 0x00 \<notin> set s \<Longrightarrow> length s < n \<Longrightarrow> c_strcpy n (bytes_of s @ [0]) = Some (bytes_of s)"
proof -
  assume "CHR 0x00 \<notin> set s" "length s < n"
  moreover from this have "0 \<notin> set (bytes_of s)"
    by (auto simp: bytes_of_def) (metis of_char_byte_0)
  ultimately show ?thesis by (simp add: c_strcpy_def c_str_terminated)
qed

lemma new_item_item:
  assumes "0 < mallocs_left s" "k = 0 \<and> name = ''HEAD'' \<or> 0 < k \<and> k < 1000 \<and> name = ''item'' @ dec_int k"
  shows "new_item junk k name s = Some (next_free s,
    s\<lparr>items := (items s)(next_free s \<mapsto> (junk (next_free s))\<lparr>ll_val := item_of k\<rparr>),
      next_free := Suc (next_free s), mallocs_left := mallocs_left s - 1\<rparr>)"
proof -
  have "length name < 32" "CHR 0x00 \<notin> set name"
    using assms(2) dec_int_short [of k] dec_int_no_nul [of k] by auto
  then have "c_strcpy 32 (bytes_of name @ [0]) = Some (bytes_of name)" by (intro c_strcpy_bytes)
  with assms show ?thesis by (auto simp: new_item_def item_of_def Let_def)
qed

lemma items_are_frame:
  assumes "items_are mem head xs ks" "a \<notin> set xs"
  shows "items_are (mem(a \<mapsto> n)) head xs ks"
proof -
  have "ll_links (mem(a \<mapsto> n)) x = ll_links mem x \<and> ll_data (mem(a \<mapsto> n)) x = ll_data mem x"
    if "x \<in> set xs" for x using that assms(2) by (auto simp: ll_links_def ll_data_def)
  then show ?thesis
    using assms(1) chain_cong [of xs "ll_links (mem(a \<mapsto> n))" "ll_links mem" head]
    by (simp add: items_are_def is_ll_def cong: map_cong)
qed

text \<open>One item more.\<close>

lemma LL_APPEND_items:
  assumes "items_are mem head xs ks" "ll_data mem a = Some (item_of k)" "a \<notin> set xs"
  shows "\<exists>h m. LL_APPEND head a mem = Some (h, m) \<and> items_are m h (xs @ [a]) (ks @ [k])"
proof -
  obtain h m where "LL_APPEND head a mem = Some (h, m)" "is_ll m h (xs @ [a])" "ll_data m = ll_data mem"
    using assms by (auto simp: items_are_def elim: ll.append_values [of mem head xs "map item_of ks" a "item_of k"])
  with assms show ?thesis by (auto simp: items_are_def)
qed

lemma LL_PREPEND_items:
  assumes "items_are mem head xs ks" "ll_data mem a = Some (item_of k)" "a \<notin> set xs"
  shows "\<exists>h m. LL_PREPEND head a mem = Some (h, m) \<and> items_are m h (a # xs) (k # ks)"
proof -
  obtain h m where "LL_PREPEND head a mem = Some (h, m)" "is_ll m h (a # xs)" "ll_data m = ll_data mem"
    using assms by (auto simp: items_are_def elim: ll.prepend_values [of mem head xs "map item_of ks" a "item_of k"])
  with assms show ?thesis by (auto simp: items_are_def)
qed

text \<open>The loop that adds the items i, ..., lim - 1, for either way of adding one.\<close>

lemma add_items_list:
  assumes add: "\<And>mem head xs ks a k. items_are mem head xs ks \<Longrightarrow> ll_data mem a = Some (item_of k) \<Longrightarrow> a \<notin> set xs \<Longrightarrow>
      \<exists>h m ys. add head a mem = Some (h, m) \<and> items_are m h ys (put k ks) \<and> set ys = insert a (set xs)"
    and "items_are (items s) head xs ks" "\<forall>a \<in> set xs. a < next_free s"
    and "0 < i" "i \<le> lim" "lim \<le> 1000" "nat (lim - i) \<le> mallocs_left s"
  shows "\<exists>head' s' ys. add_items add junk i lim head s = Some (head', s') \<and>
    items_are (items s') head' ys (fold put [i..lim - 1] ks) \<and> (\<forall>a \<in> set ys. a < next_free s') \<and>
    mallocs_left s' = mallocs_left s - nat (lim - i)"
  using assms(2-)
proof (induction "nat (lim - i)" arbitrary: i head s xs ks)
  case 0
  then show ?case by (auto simp: add_items.simps)
next
  case (Suc n)
  let ?a = "next_free s"
  let ?s1 = "s\<lparr>items := (items s)(?a \<mapsto> (junk ?a)\<lparr>ll_val := item_of i\<rparr>),
      next_free := Suc ?a, mallocs_left := mallocs_left s - 1\<rparr>"
  have i: "i < lim" using Suc.hyps(2) by simp
  have ni: "new_item junk i (''item'' @ dec_int i) s = Some (?a, ?s1)"
    using Suc.prems i by (intro new_item_item) auto
  have fr: "?a \<notin> set xs" using Suc.prems(2) by auto
  have "items_are (items ?s1) head xs ks" using items_are_frame [OF Suc.prems(1) fr] by simp
  moreover have "ll_data (items ?s1) ?a = Some (item_of i)" by (simp add: ll_data_def)
  ultimately obtain h m ys where ad: "add head ?a (items ?s1) = Some (h, m)"
    "items_are m h ys (put i ks)" "set ys = insert ?a (set xs)"
    using add fr by blast
  let ?s2 = "?s1\<lparr>items := m\<rparr>"
  have "items_are (items ?s2) h ys (put i ks)" "\<forall>a \<in> set ys. a < next_free ?s2"
    "n = nat (lim - (i + 1))" "nat (lim - (i + 1)) \<le> mallocs_left ?s2"
    using ad Suc.prems Suc.hyps(2) by auto
  with Suc.hyps(1) [of "i + 1" ?s2 h ys "put i ks"] Suc.prems(3-5) i obtain head' s' zs where
    "add_items add junk (i + 1) lim h ?s2 = Some (head', s')"
    "items_are (items s') head' zs (fold put [i + 1..lim - 1] (put i ks))"
    "\<forall>a \<in> set zs. a < next_free s'" "mallocs_left s' = mallocs_left ?s2 - nat (lim - (i + 1))" by auto
  moreover have "[i..lim - 1] = i # [i + 1..lim - 1]" using i by (simp add: upto_rec1)
  moreover have "add_items add junk i lim head s = add_items add junk (i + 1) lim h ?s2"
    using i ni ad(1) item_name_short [of i] Suc.prems(3,5) by (subst add_items.simps) simp
  ultimately show ?case using i by auto
qed

lemma fold_append: "fold (\<lambda>k ks. ks @ [k]) xs ks = ks @ xs"
  by (induction xs arbitrary: ks) auto

lemma fold_prepend: "fold (#) xs ks = rev xs @ ks"
  by (induction xs arbitrary: ks) auto

text \<open>What the program reads off the list.\<close>

lemma print_items_list:
  "items_are mem head xs ks \<Longrightarrow> 0 \<le> i \<Longrightarrow> i + int (length ks) \<le> INT_MAX \<Longrightarrow>
   print_items i head mem = Some (item_lines i ks, i + int (length ks))"
  unfolding items_are_def is_ll_def
proof (induction xs arbitrary: head ks i)
  case Nil
  then show ?case by (simp add: print_items.simps)
next
  case (Cons x xs)
  then obtain k ks' where ks: "ks = k # ks'" by (cases ks) auto
  from Cons.prems(1) ks obtain n where n: "mem x = Some n" "ll_val n = item_of k" "head = Some x"
    "chain (ll_links mem) (ll_next n) xs" "map (ll_data mem) xs = map Some (map item_of ks')"
    by (auto simp: ll_data_def [of mem x] ll_links_def [of mem x])
  moreover have "c_int (i + 1) = Some (i + 1)"
    using Cons.prems(2,3) ks by (simp add: c_int_def is_int_def INT_MIN_def)
  ultimately show ?case
    using Cons.IH [of "ll_next n" ks' "i + 1"] Cons.prems(2,3) ks
    by (subst print_items.simps) (auto simp: algebra_simps)
qed

lemma search_found:
  assumes l: "items_are mem head xs ks" and k: "k \<in> set ks"
    and c: "\<And>j. j \<in> set ks \<Longrightarrow> \<exists>d. cmp (item_of j) e = Some d \<and> (d = 0 \<longleftrightarrow> j = k)"
  obtains a where "a \<in> set xs" "LL_SEARCH head e cmp mem = Some (Some a)" "ll_data mem a = Some (item_of k)"
proof -
  define d where "d a = the (cmp (the (ll_data mem a)) e)" for a
  have d: "\<exists>j \<in> set ks. ll_data mem a = Some (item_of j) \<and> cmp (item_of j) e = Some (d a) \<and> (d a = 0 \<longleftrightarrow> j = k)"
    if "a \<in> set xs" for a
    using items_are_node [OF l that] c unfolding d_def by force
  then have "cmp_is cmp e d mem (set xs)" unfolding cmp_is_def by metis
  then have s: "LL_SEARCH head e cmp mem = Some (find (\<lambda>a. d a = 0) xs)"
    using l by (intro LL_SEARCH_list) (simp_all add: items_are_def)
  have "Some (item_of k) \<in> set (map (ll_data mem) xs)"
    using k l by (simp only: items_are_def list.set_map image_eqI)
  then obtain b where "b \<in> set xs" "ll_data mem b = Some (item_of k)" by auto
  with d have "b \<in> set xs" "d b = 0" by (metis it_id_item_of option.inject)+
  then obtain a where a: "find (\<lambda>a. d a = 0) xs = Some a"
    by (metis (mono_tags, lifting) find_None_iff option.exhaust)
  then have "a \<in> set xs" "d a = 0" by (auto simp: find_Some_iff)
  with d s a that show ?thesis by metis
qed

lemma name_chars: "map (\<lambda>b. char_of (unat b)) (bytes_of s) = s"
  by (induction s) (simp_all add: bytes_of_def unat_of_char)

lemma delete_found_list:
  assumes l: "items_are mem head xs ks" "distinct ks" and a: "a \<in> set xs" "ll_data mem a = Some (item_of k)"
    and k: "k \<noteq> 0"
  obtains head' mem' ys where "delete_found label i (Some a) head mem = Some
      ([label @ '' item:'' @ dec_int i @ '' -> '' @ dec_int k @ ''('' @ ''item'' @ dec_int k @ '')\<newline>''], head', mem')"
    "items_are mem' head' ys (remove1 k ks)"
proof -
  have "k \<in> set ks" using items_are_node [OF l(1) a(1)] a(2) by (metis it_id_item_of option.inject)
  with l(2) have rm: "remove1 (item_of k) (map item_of ks) = map item_of (remove1 k ks)"
    using map_remove1_distinct [OF inj_item_of] by simp
  obtain h m where d: "LL_DELETE head (Some a) mem = Some (h, m)" "items_are m h (remove1 a xs) (remove1 k ks)"
    using ll.delete_values [of mem head xs "map item_of ks" a "item_of k"] l a rm inj_item_of
    unfolding items_are_def by metis
  from a(2) obtain n where n: "mem a = Some n" "ll_val n = item_of k" by (auto simp: ll_data_def)
  show ?thesis
    by (rule that [OF _ d(2)]) (use n d(1) k name_chars in \<open>simp add: delete_found_def item_of_def\<close>)
qed

text \<open>Sorting orders the numbers.\<close>

lemma sort_items:
  assumes l: "items_are mem head xs ks" and b: "\<And>k. k \<in> set ks \<Longrightarrow> 0 \<le> k \<and> k < 1000" and len: "length ks \<le> 2 ^ 30"
  obtains head' mem' ys where "LL_SORT head session_item_cmp mem = Some (head', mem')"
    "items_are mem' head' ys (sort ks)"
proof -
  define le where "le a b \<longleftrightarrow> it_id (the (ll_data mem a)) \<le> it_id (the (ll_data mem b))" for a b
  have "cmp_le session_item_cmp le mem (set xs)"
    unfolding cmp_le_def
  proof (intro ballI)
    fix a b'
    assume "a \<in> set xs" "b' \<in> set xs"
    then obtain j k where *: "j \<in> set ks" "k \<in> set ks" "ll_data mem a = Some (item_of j)"
      "ll_data mem b' = Some (item_of k)" using items_are_node [OF l] by metis
    with b [of j] b [of k] have "c_int (j - k) = Some (j - k)"
      by (simp add: c_int_def is_int_def INT_MIN_def INT_MAX_def)
    with * show "\<exists>u v c. ll_data mem a = Some u \<and> ll_data mem b' = Some v \<and>
        session_item_cmp u v = Some c \<and> (le a b' \<longleftrightarrow> c \<le> 0)"
      by (simp add: session_item_cmp_def le_def)
  qed
  with LL_SORT_list l len items_are_length [OF l] obtain head' mem' where
    s: "LL_SORT head session_item_cmp mem = Some (head', mem')" "is_ll mem' head' (bsort le 1 xs)"
    "ll_upd (set xs) mem mem'" unfolding items_are_def by metis
  let ?num = "\<lambda>a. it_id (the (ll_data mem a))"
  have po: "preorder_on_set le (set xs)" by (auto simp: preorder_on_set_def le_def)
  have "sorted_wrt le (bsort le 1 xs)" by (rule sorted_bsort [OF po runs_one]) simp
  moreover have "le = (\<lambda>a b. ?num a \<le> ?num b)" by (intro ext) (simp add: le_def)
  ultimately have srt: "sorted (map ?num (bsort le 1 xs))" unfolding sorted_map by simp
  have "map ?num xs = map (it_id \<circ> the) (map (ll_data mem) xs)" by simp
  also have "\<dots> = ks" using l by (simp add: items_are_def o_def)
  finally have "mset (map ?num (bsort le 1 xs)) = mset ks" by (metis mset_bsort mset_map)
  with srt have eq: "map ?num (bsort le 1 xs) = sort ks" by (metis properties_for_sort)
  have "ll_data mem' a = Some (item_of (?num a))" if "a \<in> set (bsort le 1 xs)" for a
    using that items_are_node [OF l, of a] ll_upd_data [OF s(3)] by auto
  then have "map (ll_data mem') (bsort le 1 xs) = map Some (map item_of (sort ks))"
    unfolding eq [symmetric] by simp
  with s show ?thesis using that by (simp add: items_are_def)
qed

subsection \<open>The run\<close>

definition built :: "int list" where
  "built = rev [100..199] @ [0..99]"

definition kept :: "int list" where
  "kept = filter (\<lambda>k. k \<noteq> 23 \<and> k \<noteq> 78) [0..199]"

text \<open>Lists of numbers with general bounds: with numerals the simplifier would write them out.\<close>

lemma upto_two:
  "d < a \<Longrightarrow> distinct (rev [a..b] @ [c..d :: int])" "set (rev [a..b] @ [c..d :: int]) = {a..b} \<union> {c..d}"
  "length (rev [a..b] @ [c..d :: int]) = nat (b - a + 1) + nat (d - c + 1)"
  by auto

lemma upto_filter: "sorted (filter P [a..b :: int])" "distinct (filter P [a..b])"
  "set (filter P [a..b]) = {k. a \<le> k \<and> k \<le> b \<and> P k}"
  by (auto simp: sorted_wrt_filter)

lemma built_props: "distinct built" "set built = {0..<200}" "length built = 200"
proof -
  show "distinct built" unfolding built_def by (rule upto_two) simp
  show "set built = {0..<200}" unfolding built_def upto_two(2) by auto
  show "length built = 200" unfolding built_def upto_two(3) by simp
qed

lemma kept_sorted: "sort (remove1 78 (remove1 23 built)) = kept"
proof (rule properties_for_sort)
  have "distinct kept" "distinct (remove1 78 (remove1 23 built))"
    using built_props(1) unfolding kept_def by (simp_all only: upto_filter distinct_remove1)
  moreover have "set kept = set (remove1 78 (remove1 23 built))"
    using built_props(1) unfolding kept_def by (simp only: upto_filter set_remove1_eq distinct_remove1 built_props(2)) auto
  ultimately show "mset kept = mset (remove1 78 (remove1 23 built))"
    using set_eq_iff_mset_eq_distinct by metis
  show "sorted kept" unfolding kept_def by (rule upto_filter)
qed

lemma kept_length: "length (remove1 78 (remove1 23 built)) = 198"
  using built_props by (simp add: length_remove1)

text \<open>Both ways of adding an item, in the form the loop asks for.\<close>

lemma LL_APPEND_step:
  assumes "items_are mem head xs ks" "ll_data mem a = Some (item_of k)" "a \<notin> set xs"
  shows "\<exists>h m ys. LL_APPEND head a mem = Some (h, m) \<and> items_are m h ys (ks @ [k]) \<and> set ys = insert a (set xs)"
  using LL_APPEND_items [OF assms] by fastforce

lemma LL_PREPEND_step:
  assumes "items_are mem head xs ks" "ll_data mem a = Some (item_of k)" "a \<notin> set xs"
  shows "\<exists>h m ys. LL_PREPEND head a mem = Some (h, m) \<and> items_are m h ys (k # ks) \<and> set ys = insert a (set xs)"
  using LL_PREPEND_items [OF assms] by fastforce

text \<open>The list the program builds, when the first block happens to hold a NULL link.\<close>

lemma build_list:
  assumes "200 \<le> mallocs_left s0" "ll_next (junk (next_free s0)) = None"
  obtains s1 h2 s2 h3 s3 xs where
    "new_item junk 0 ''HEAD'' s0 = Some (next_free s0, s1)"
    "add_items LL_APPEND junk 1 100 (Some (next_free s0)) s1 = Some (h2, s2)"
    "add_items LL_PREPEND junk 100 200 h2 s2 = Some (h3, s3)"
    "items_are (items s3) h3 xs built"
proof -
  let ?a = "next_free s0"
  let ?s1 = "s0\<lparr>items := (items s0)(?a \<mapsto> (junk ?a)\<lparr>ll_val := item_of 0\<rparr>),
      next_free := Suc ?a, mallocs_left := mallocs_left s0 - 1\<rparr>"
  have n: "new_item junk 0 ''HEAD'' s0 = Some (?a, ?s1)" using assms(1) by (intro new_item_item) auto
  have i1: "items_are (items ?s1) (Some ?a) [?a] [0]"
    using assms(2) by (simp add: items_are_def is_ll_def ll_links_def ll_data_def)
  have f: "fold (\<lambda>k ks. ks @ [k]) [1..100 - 1] [0] = [0..99 :: int]"
    unfolding fold_append using upto_rec1 [of 0 "99 :: int"] by (simp only:) simp
  have "\<exists>head' s' ys. add_items LL_APPEND junk 1 100 (Some ?a) ?s1 = Some (head', s') \<and>
      items_are (items s') head' ys (fold (\<lambda>k ks. ks @ [k]) [1..100 - 1] [0]) \<and>
      (\<forall>a \<in> set ys. a < next_free s') \<and> mallocs_left s' = mallocs_left ?s1 - nat (100 - 1)"
    by (rule add_items_list [OF LL_APPEND_step i1]) (use assms(1) in simp_all)
  then obtain h2 s2 ys where a: "add_items LL_APPEND junk 1 100 (Some ?a) ?s1 = Some (h2, s2)"
    "items_are (items s2) h2 ys [0..99]" "\<forall>a \<in> set ys. a < next_free s2"
    "mallocs_left s2 = mallocs_left ?s1 - nat (100 - 1)" unfolding f by blast
  from a(4) have a4: "100 \<le> mallocs_left s2" using assms(1) by simp
  have g: "fold (#) [100..200 - 1] [0..99] = built"
    unfolding fold_prepend built_def by simp
  have "\<exists>head' s' ys. add_items LL_PREPEND junk 100 200 h2 s2 = Some (head', s') \<and>
      items_are (items s') head' ys (fold (#) [100..200 - 1] [0..99]) \<and>
      (\<forall>a \<in> set ys. a < next_free s') \<and> mallocs_left s' = mallocs_left s2 - nat (200 - 100)"
    by (rule add_items_list [OF LL_PREPEND_step a(2,3)]) (use a4 in simp_all)
  then obtain h3 s3 zs where b: "add_items LL_PREPEND junk 100 200 h2 s2 = Some (h3, s3)"
    "items_are (items s3) h3 zs built" unfolding g by blast
  show ?thesis by (rule that [OF n a(1) b])
qed

lemma in_built: "0 \<le> k \<Longrightarrow> k < 200 \<Longrightarrow> k \<in> set built"
  unfolding built_props(2) by simp

lemma cmp_local:
  "j \<in> set built \<Longrightarrow> 0 \<le> k \<Longrightarrow> k < 200 \<Longrightarrow> \<exists>d. session_item_cmp (item_of j) (local\<lparr>it_id := k\<rparr>) = Some d \<and> (d = 0 \<longleftrightarrow> j = k)"
  unfolding built_props(2) by (simp add: session_item_cmp_def c_int_def is_int_def INT_MIN_def INT_MAX_def)

lemma kept_bounds: "k \<in> set (remove1 78 (remove1 23 built)) \<Longrightarrow> 0 \<le> k \<and> k < 1000"
proof -
  assume "k \<in> set (remove1 78 (remove1 23 built))"
  then have "k \<in> set built" by (meson notin_set_remove1)
  then show ?thesis unfolding built_props(2) by simp
qed

text \<open>
  With memory for 200 items and a NULL link in the first block, the program finishes; it
  prints 200 items, deletes numbers 23 and 78, counts 198 and prints them in ascending order.
\<close>

theorem utlist_test_main_correct:
  assumes "200 \<le> mallocs_left s0" "ll_next (junk (next_free s0)) = None"
  shows "\<exists>head s xs. utlist_test_main junk local s0 = Some (item_lines 0 built @
      [''delete item:200 -> 23(item23)\<newline>'', ''delte item:200 -> 78(item78)\<newline>'', ''list count = 198\<newline>''] @
      item_lines 0 kept, head, s) \<and> items_are (items s) head xs kept"
proof -
  obtain s1 h2 s2 h3 s3 xs where b: "new_item junk 0 ''HEAD'' s0 = Some (next_free s0, s1)"
    "add_items LL_APPEND junk 1 100 (Some (next_free s0)) s1 = Some (h2, s2)"
    "add_items LL_PREPEND junk 100 200 h2 s2 = Some (h3, s3)" "items_are (items s3) h3 xs built"
    using build_list [where junk = junk, OF assms] .
  have p: "print_items 0 h3 (items s3) = Some (item_lines 0 built, 200)"
    using print_items_list [OF b(4), of 0] built_props(3) by (simp add: INT_MAX_def)
  obtain a where a: "a \<in> set xs" "ll_data (items s3) a = Some (item_of 23)"
    "LL_SEARCH h3 (local\<lparr>it_id := 23\<rparr>) session_item_cmp (items s3) = Some (Some a)"
    by (rule search_found [OF b(4), of 23 session_item_cmp "local\<lparr>it_id := 23\<rparr>"]) (auto intro!: in_built cmp_local)
  obtain h4 m4 ys where d: "delete_found ''delete'' 200 (Some a) h3 (items s3) = Some
      ([''delete'' @ '' item:'' @ dec_int 200 @ '' -> '' @ dec_int 23 @ ''('' @ ''item'' @ dec_int 23 @ '')\<newline>''], h4, m4)"
    "items_are m4 h4 ys (remove1 23 built)"
    using delete_found_list [OF b(4) built_props(1) a(1,2)] by (metis numeral_neq_zero)
  have in_rest: "78 \<in> set (remove1 23 built)" by (rule in_set_remove1 [THEN iffD2, OF _ in_built]) simp_all
  obtain c where c: "c \<in> set ys" "ll_data m4 c = Some (item_of 78)"
    "LL_SEARCH h4 78 session_item_cmp_id m4 = Some (Some c)"
    by (rule search_found [OF d(2) in_rest, of session_item_cmp_id 78]) (simp_all add: session_item_cmp_id_def)
  have "distinct (remove1 23 built)" using built_props(1) by simp
  then obtain h5 m5 zs where e: "delete_found ''delte'' 200 (Some c) h4 m4 = Some
      ([''delte'' @ '' item:'' @ dec_int 200 @ '' -> '' @ dec_int 78 @ ''('' @ ''item'' @ dec_int 78 @ '')\<newline>''], h5, m5)"
    "items_are m5 h5 zs (remove1 78 (remove1 23 built))"
    using delete_found_list [OF d(2) _ c(1,2)] by (metis numeral_neq_zero)
  have cnt: "LL_COUNT h5 m5 = Some 198"
    using LL_COUNT_list [of m5 h5 zs] e(2) items_are_length [OF e(2)] kept_length
    by (simp add: items_are_def INT_MAX_def)
  have "length (remove1 78 (remove1 23 built)) \<le> 2 ^ 30" unfolding kept_length by simp
  then obtain h6 m6 us where s: "LL_SORT h5 session_item_cmp m5 = Some (h6, m6)" "items_are m6 h6 us kept"
    using sort_items [OF e(2) kept_bounds] unfolding kept_sorted by blast
  have "length kept = 198" using kept_length kept_sorted by (metis length_sort)
  with print_items_list [OF s(2), of 0] have q: "print_items 0 h6 m6 = Some (item_lines 0 kept, 198)"
    by (simp add: INT_MAX_def)
  have two: "(2 :: int) * 100 = 200" by simp
  have num: "dec_int 200 = ''200''" "dec_int 23 = ''23''" "dec_int 78 = ''78''" "dec_int 198 = ''198''"
    by code_simp+
  have "utlist_test_main junk local s0 = Some (item_lines 0 built @
      [''delete'' @ '' item:'' @ dec_int 200 @ '' -> '' @ dec_int 23 @ ''('' @ ''item'' @ dec_int 23 @ '')\<newline>''] @
      [''delte'' @ '' item:'' @ dec_int 200 @ '' -> '' @ dec_int 78 @ ''('' @ ''item'' @ dec_int 78 @ '')\<newline>''] @
      [''list count = '' @ dec_int 198 @ ''\<newline>''] @ item_lines 0 kept, h6, s3\<lparr>items := m6\<rparr>)"
    unfolding utlist_test_main_def Let_def
    by (simp only: b p a(3) d(1) c(3) e(1) cnt s(1) q bind.bind_lunit prod.case two)
  then show ?thesis using s(2) unfolding num by auto
qed

definition junk_null :: junk where
  "junk_null = (\<lambda>_. \<lparr>ll_next = None, ll_val = \<lparr>it_id = 0, it_name = []\<rparr>\<rparr>)"

definition empty_heap :: heap_state where
  "empty_heap = \<lparr>items = \<lambda>_. None, next_free = 1000, mallocs_left = 300\<rparr>"

theorem utlist_test_main_correct_witness:
  "\<exists>head s xs. utlist_test_main junk_null \<lparr>it_id = 5, it_name = []\<rparr> empty_heap = Some (item_lines 0 built @
      [''delete item:200 -> 23(item23)\<newline>'', ''delte item:200 -> 78(item78)\<newline>'', ''list count = 198\<newline>''] @
      item_lines 0 kept, head, s) \<and> items_are (items s) head xs kept"
  by (rule utlist_test_main_correct) (simp_all add: junk_null_def empty_heap_def)

text \<open>
  New-item leaves the next pointer of the first item as malloc delivers it, and the first
  LL-APPEND follows it: whenever it is neither NULL nor the address of a node the run is undefined.
\<close>

theorem utlist_test_main_junk:
  assumes "2 \<le> mallocs_left s0" "ll_next (junk (next_free s0)) = Some p"
    and "items s0 p = None" "p \<noteq> next_free s0" "p \<noteq> Suc (next_free s0)"
  shows "utlist_test_main junk local s0 = None"
proof -
  let ?a = "next_free s0"
  have n: "new_item junk 0 ''HEAD'' s0 = Some (?a, s0\<lparr>items := (items s0)(?a \<mapsto> (junk ?a)\<lparr>ll_val := item_of 0\<rparr>),
      next_free := Suc ?a, mallocs_left := mallocs_left s0 - 1\<rparr>)" (is "_ = Some (_, ?s1)")
    using assms(1) by (intro new_item_item) auto
  have n1: "new_item junk 1 (''item'' @ dec_int 1) ?s1 = Some (Suc ?a,
      ?s1\<lparr>items := (items ?s1)(Suc ?a \<mapsto> (junk (Suc ?a))\<lparr>ll_val := item_of 1\<rparr>),
        next_free := Suc (Suc ?a), mallocs_left := mallocs_left ?s1 - 1\<rparr>)" (is "_ = Some (_, ?s2)")
    using assms(1) new_item_item [of ?s1 1] by simp
  let ?m = "put_next (Suc ?a) None (items ?s2)"
  have "ll_tail (Some p) ?m = None"
    using assms(3-5) by (subst ll_tail.simps) (simp add: ll_links_def)
  then have "ll_tail (Some ?a) ?m = None"
    using assms(2) by (subst ll_tail.simps) (simp add: ll_links_def)
  then have "LL_APPEND (Some ?a) (Suc ?a) (items ?s2) = None"
    by (simp add: LL_APPEND_def)
  then have "add_items LL_APPEND junk 1 100 (Some ?a) ?s1 = None"
    using n1 item_name_short [of 1] by (subst add_items.simps) simp
  with n show ?thesis by (simp add: utlist_test_main_def)
qed

theorem utlist_test_main_junk_witness:
  "utlist_test_main (\<lambda>_. \<lparr>ll_next = Some 5, ll_val = \<lparr>it_id = 0, it_name = []\<rparr>\<rparr>) \<lparr>it_id = 5, it_name = []\<rparr>
    empty_heap = None"
  by (rule utlist_test_main_junk [where p = 5]) (simp_all add: empty_heap_def)

end
