(* ===== verification/Client.thy ===== *)
theory Client
  imports LwsApi CString
begin

text \<open>
  The test client, test-client.c: the callbacks of its protocols, the rate limit on
  connecting, its options and its main loop.  The static variables of the file are the record
  client.  What the library returns is the oracle orc, what it writes through a pointer is a
  function of the calls made so far too: the random words (rnd), the connection behind pwsi
  (conn), the clock (clk) and the effect of the callbacks run by lws_service (svc).
\<close>

subsection \<open>The static variables\<close>

record client =
  deny_deflate :: bool
  longlived :: bool
  mirror_lifetime :: int
  test_post :: bool
  wsi_dumb :: "wsi option"
  wsi_mirror :: "wsi option"
  wsi_multi :: "wsi option list"
  force_exit :: bool
  opts :: nat
  rl_multi :: "u32 list"
  flag_no_mirror_traffic :: bool
  crl_path :: "string option"
  info_visible :: bool
  printed :: "byte list"
  err_log :: "string list"

text \<open>The size of wsi-multi and rl-multi.\<close>

definition MULTI :: nat where "MULTI = 512"

definition put_bytes :: "byte list \<Rightarrow> client \<Rightarrow> client" where
  "put_bytes bs g = g\<lparr>printed := printed g @ bs\<rparr>"

subsection \<open>http content\<close>

text \<open>
  The loop of show-http-content.  A char is signed here, as on the platforms the program is
  built for; the pointer only advances over the bytes that are shown.
\<close>

fun http_content :: "nat \<Rightarrow> byte list \<Rightarrow> byte list option" where
  "http_content 0 p = Some []"
| "http_content (Suc l) [] = None"
| "http_content (Suc l) (c # p) =
     (if sint c < 0x7f then map_option (\<lambda>out. c # out) (http_content l p)
      else map_option (\<lambda>out. of_char (CHR ''.'') # out) (http_content l (c # p)))"

definition show_http_content :: "byte list \<Rightarrow> nat \<Rightarrow> client \<Rightarrow> client option" where
  "show_http_content p l g =
     (if info_visible g then do { out \<leftarrow> http_content l p; Some (put_bytes out g) } else Some g)"

subsection \<open>The dumb increment protocol\<close>

text \<open>CLIENT-RECEIVE puts a terminator behind the payload in the library's buffer.\<close>

definition dc_receive :: "byte list \<Rightarrow> nat \<Rightarrow> client \<Rightarrow> client option" where
  "dc_receive inb len g =
     (if len < length inb then do {
        s \<leftarrow> c_str (inb[len := 0]);
        Some (put_bytes (s @ bytes_of ''\<newline>'') g) }
      else None)"

text \<open>CLIENT-CONNECTION-ERROR: the slots that hold the connection are emptied.\<close>

fun clear_multi :: "nat \<Rightarrow> wsi \<Rightarrow> wsi option list \<Rightarrow> string \<Rightarrow> (wsi option list \<times> string) option" where
  "clear_multi n w [] which = Some ([], which)"
| "clear_multi n w (x # xs) which =
     (if x = Some w then do {
        let s = ''multi '' @ dec_nat n;
        _ \<leftarrow> (if length s < 10 then Some () else None);
        (ys, which') \<leftarrow> clear_multi (Suc n) w xs s;
        Some (None # ys, which') }
      else do {
        (ys, which') \<leftarrow> clear_multi (Suc n) w xs which;
        Some (x # ys, which') })"

definition dc_connection_error :: "wsi \<Rightarrow> byte list option \<Rightarrow> client \<Rightarrow> client option" where
  "dc_connection_error w inb g = do {
     let (which, g1) = (if wsi_dumb g = Some w then (''dumb'', g\<lparr>wsi_dumb := None\<rparr>) else (''http'', g));
     let (which, g2) = (if wsi_mirror g1 = Some w then (''mirror'', g1\<lparr>wsi_mirror := None\<rparr>) else (which, g1));
     (ms, which) \<leftarrow> clear_multi 0 w (wsi_multi g2) which;
     why \<leftarrow> (case inb of None \<Rightarrow> Some ''(null)'' | Some bs \<Rightarrow> map_option (map (\<lambda>b. char_of (unat b))) (c_str bs));
     Some (g2\<lparr>wsi_multi := ms, err_log := err_log g @ [''CLIENT_CONNECTION_ERROR: '' @ which @ '': '' @ why @ ''\<newline>'']\<rparr>) }"

definition dc_confirm_extension :: "byte list \<Rightarrow> client \<Rightarrow> int option" where
  "dc_confirm_extension inb g = do {
     a \<leftarrow> c_streq inb ''deflate-stream'';
     if a \<and> deny_deflate g then Some 1
     else do {
       b \<leftarrow> c_streq inb ''x-webkit-deflate-frame'';
       if b then Some 1
       else do {
         c \<leftarrow> c_streq inb ''deflate-frame'';
         Some (if c then 1 else 0) } } }"

text \<open>The form a client started with --post sends, and the headers that announce it.\<close>

definition post_form :: string where
  "post_form = ''text=hello&send=Send+the+form''"

definition dc_append_header :: "lws_oracle \<Rightarrow> wsi \<Rightarrow> client \<Rightarrow> lws_trace \<Rightarrow> int \<times> lws_trace" where
  "dc_append_header orc w g tr =
     (if test_post g then
        (case lws_all orc [Lws_client w (Http_header_by_token ''content-length:'' (take 2 ''29'')),
             Lws_client w (Http_header_by_token ''content-type:'' (take 33 ''application/x-www-form-urlencoded''))] tr of
           (False, tr') \<Rightarrow> (- 1, tr')
         | (True, tr') \<Rightarrow> (0, tr' @ [Lws_client w (Http_body_pending 1), Lws_callback_on_writable w]))
      else (0, tr))"

text \<open>The form is copied into the 50 bytes of buf behind the padding.\<close>

definition dc_http_writeable :: "lws_oracle \<Rightarrow> wsi \<Rightarrow> lws_trace \<Rightarrow> (int \<times> lws_trace) option" where
  "dc_http_writeable orc w tr = do {
     s \<leftarrow> c_strcpy 50 (bytes_of post_form @ [0]);
     let tr1 = tr @ [Lws_write w s LWS_WRITE_HTTP];
     if orc tr1 < 0 then Some (- 1, tr1)
     else Some (0, tr1 @ [Lws_client w (Http_body_pending 0)]) }"

definition callback_dumb_increment ::
  "lws_oracle \<Rightarrow> wsi \<Rightarrow> lws_reason \<Rightarrow> byte list option \<Rightarrow> nat \<Rightarrow> client \<Rightarrow> lws_trace \<Rightarrow>
   (int \<times> client \<times> lws_trace) option" where
  "callback_dumb_increment orc w reason inb len g tr =
     (if reason = LWS_CALLBACK_CLIENT_ESTABLISHED then Some (0, g, tr)
      else if reason = LWS_CALLBACK_CLOSED then Some (0, g\<lparr>wsi_dumb := None\<rparr>, tr)
      else if reason = LWS_CALLBACK_CLIENT_RECEIVE then
        do { bs \<leftarrow> inb; g' \<leftarrow> dc_receive bs len g; Some (0, g', tr) }
      else if reason = LWS_CALLBACK_CLIENT_CONNECTION_ERROR then
        do { g' \<leftarrow> dc_connection_error w inb g; Some (0, g', tr) }
      else if reason = LWS_CALLBACK_CLIENT_CONFIRM_EXTENSION_SUPPORTED then
        do { bs \<leftarrow> inb; r \<leftarrow> dc_confirm_extension bs g; Some (r, g, tr) }
      else if reason = LWS_CALLBACK_ESTABLISHED_CLIENT_HTTP then
        Some (0, g, tr @ [Lws_client w Http_response])
      else if reason = LWS_CALLBACK_RECEIVE_CLIENT_HTTP_READ then
        do { bs \<leftarrow> inb; g' \<leftarrow> show_http_content bs len g; Some (0, g', tr) }
      else if reason = LWS_CALLBACK_RECEIVE_CLIENT_HTTP then
        (let tr1 = tr @ [Lws_client w (Http_client_read 1024)] in
         Some (if orc tr1 < 0 then - 1 else 0, g, tr1))
      else if reason = LWS_CALLBACK_CLIENT_WRITEABLE then Some (0, g, tr)
      else if reason = LWS_CALLBACK_CLIENT_APPEND_HANDSHAKE_HEADER then
        (case dc_append_header orc w g tr of (r, tr1) \<Rightarrow> Some (r, g, tr1))
      else if reason = LWS_CALLBACK_CLIENT_HTTP_WRITEABLE then
        do { (r, tr1) \<leftarrow> dc_http_writeable orc w tr; Some (r, g, tr1) }
      else if reason = LWS_CALLBACK_COMPLETED_CLIENT_HTTP then
        Some (0, g\<lparr>wsi_dumb := None, force_exit := True\<rparr>, tr)
      else if reason = LWS_CALLBACK_OPENSSL_LOAD_EXTRA_CLIENT_VERIFY_CERTS then
        (case crl_path g of
           None \<Rightarrow> Some (0, g, tr)
         | Some path \<Rightarrow>
             if path = [] then Some (0, g, tr)
             else let tr1 = tr @ [Lws_client w (X509_load_cert_crl_file path)] in
               Some (if orc tr1 \<noteq> 1 then 1 else 0, g, tr1))
      else Some (0, g, tr))"

subsection \<open>The mirror protocol\<close>

text \<open>printf with %06X for a value of at most 24 bits.\<close>

definition hex_digit :: "nat \<Rightarrow> char" where
  "hex_digit n = (if n < 10 then char_of (48 + n) else char_of (55 + n))"

definition hex6 :: "nat \<Rightarrow> string" where
  "hex6 n = map (\<lambda>i. hex_digit (n div 16 ^ i mod 16)) [5, 4, 3, 2, 1, 0]"

definition circle :: "u32 list \<Rightarrow> string option" where
  "circle rands = (case rands of
       [a, b, c, d] \<Rightarrow> Some (''c #'' @ hex6 (unat (a AND 0xffffff)) @ '' '' @ dec_nat (unat (b AND 511)) @ '' '' @
         dec_nat (unat (c AND 255)) @ '' '' @ dec_nat (unat ((d AND 31) + 1)) @ '';'')
     | _ \<Rightarrow> None)"

definition mc_established :: "(lws_trace \<Rightarrow> u32 list) \<Rightarrow> wsi \<Rightarrow> client \<Rightarrow> lws_trace \<Rightarrow> (int \<times> client \<times> lws_trace) option" where
  "mc_established rnd w g tr = (
     let tr1 = tr @ [Lws_client w (Get_random 4)] in
     case rnd tr1 of
       [] \<Rightarrow> None
     | r # _ \<Rightarrow> do {
         l \<leftarrow> c_int (16384 + uint (r AND 65535));
         l' \<leftarrow> (if longlived g then c_int (l + 500000) else Some l);
         Some (0, g\<lparr>mirror_lifetime := l'\<rparr>,
           if \<not> flag_no_mirror_traffic g then tr1 @ [Lws_callback_on_writable w] else tr1) })"

definition mc_writeable ::
  "lws_oracle \<Rightarrow> (lws_trace \<Rightarrow> u32 list) \<Rightarrow> wsi \<Rightarrow> client \<Rightarrow> lws_trace \<Rightarrow> (int \<times> client \<times> lws_trace) option" where
  "mc_writeable orc rnd w g tr =
     (if flag_no_mirror_traffic g then Some (0, g, tr)
      else do {
        let tr1 = tr @ [Lws_client w (Get_random 16)];
        s \<leftarrow> circle (rnd tr1);
        _ \<leftarrow> (if length s < 4096 then Some () else None);
        let tr2 = tr1 @ [Lws_write w (bytes_of s) (opts g OR LWS_WRITE_TEXT)];
        let n = orc tr2;
        if n < 0 then Some (- 1, g, tr2)
        else if n < int (length s) then Some (- 1, g, tr2)
        else do {
          l \<leftarrow> c_int (mirror_lifetime g - 1);
          let g1 = g\<lparr>mirror_lifetime := l\<rparr>;
          if l = 0 then Some (- 1, g1, tr2)
          else Some (0, g1, tr2 @ [Lws_callback_on_writable w]) } })"

definition callback_lws_mirror ::
  "lws_oracle \<Rightarrow> (lws_trace \<Rightarrow> u32 list) \<Rightarrow> wsi \<Rightarrow> lws_reason \<Rightarrow> client \<Rightarrow> lws_trace \<Rightarrow>
   (int \<times> client \<times> lws_trace) option" where
  "callback_lws_mirror orc rnd w reason g tr =
     (if reason = LWS_CALLBACK_CLIENT_ESTABLISHED then mc_established rnd w g tr
      else if reason = LWS_CALLBACK_CLOSED then Some (0, g\<lparr>wsi_mirror := None\<rparr>, tr)
      else if reason = LWS_CALLBACK_CLIENT_WRITEABLE then mc_writeable orc rnd w g tr
      else Some (0, g, tr))"

subsection \<open>The raw protocol\<close>

definition callback_test_raw_client :: "lws_reason \<Rightarrow> byte list \<Rightarrow> client \<Rightarrow> (int \<times> client) option" where
  "callback_test_raw_client reason inb g =
     (if reason = LWS_CALLBACK_RAW_RX then do {
        s \<leftarrow> c_str inb;
        Some (0, put_bytes (s @ bytes_of ''\<newline>'') g) }
      else Some (0, g))"

subsection \<open>Connecting\<close>

text \<open>
  tv-sec is a 64-bit signed time, *last (old) and secs are unsigned and are converted to it.
\<close>

definition ratelimit_connects :: "(lws_trace \<Rightarrow> int) \<Rightarrow> u32 \<Rightarrow> u32 \<Rightarrow> lws_trace \<Rightarrow> bool \<times> u32 \<times> lws_trace" where
  "ratelimit_connects clk old secs tr = (
     let tr1 = tr @ [Lws_main Gettimeofday]; sec = clk tr1 in
     if sec - uint old < uint secs then (False, old, tr1)
     else (True, word_of_int sec, tr1))"

definition sighandler :: "client \<Rightarrow> client" where
  "sighandler g = g\<lparr>force_exit := True\<rparr>"

subsection \<open>Options\<close>

text \<open>
  The local variables of main that the options set.  getopt hands over each option as its
  character and its argument; h, like a missing address, ends in the usage text (None of the
  inner option), an argument whose number has no int is undefined.
\<close>

record client_args =
  port :: int
  use_ssl :: nat
  ietf_version :: int
  pp_secs :: u32
  do_multi :: bool
  cert_path :: string
  key_path :: string
  ca_path :: string

definition LCCSCF_USE_SSL :: nat where "LCCSCF_USE_SSL = 1"
definition LCCSCF_ALLOW_SELFSIGNED :: nat where "LCCSCF_ALLOW_SELFSIGNED = 2"
definition LCCSCF_SKIP_SERVER_CERT_HOSTNAME_CHECK :: nat where "LCCSCF_SKIP_SERVER_CERT_HOSTNAME_CHECK = 4"

definition initial_args :: client_args where
  "initial_args = \<lparr>port = 7681, use_ssl = 0, ietf_version = - 1, pp_secs = 0, do_multi = False,
     cert_path = [], key_path = [], ca_path = []\<rparr>"

text \<open>strncpy of sz - 1 characters into an array of size sz, then a terminator in its last element.\<close>

definition strncpy_z :: "nat \<Rightarrow> string \<Rightarrow> string" where
  "strncpy_z sz s = take (sz - 1) s"

definition client_option ::
  "char \<times> string \<Rightarrow> client_args \<times> client \<Rightarrow> (client_args \<times> client) option option" where
  "client_option opt st = (case (opt, st) of ((c, optarg), (a, g)) \<Rightarrow>
     if c = CHR ''d'' then do { n \<leftarrow> atoi optarg; Some (Some (a, g\<lparr>info_visible := bit n 3\<rparr>)) }
     else if c = CHR ''s'' then
       Some (Some (a\<lparr>use_ssl := LCCSCF_USE_SSL OR LCCSCF_ALLOW_SELFSIGNED OR LCCSCF_SKIP_SERVER_CERT_HOSTNAME_CHECK\<rparr>, g))
     else if c = CHR ''S'' then Some (Some (a\<lparr>use_ssl := LCCSCF_USE_SSL\<rparr>, g))
     else if c = CHR ''p'' then do { n \<leftarrow> atoi optarg; Some (Some (a\<lparr>port := n\<rparr>, g)) }
     else if c = CHR ''P'' then do { n \<leftarrow> atoi optarg; Some (Some (a\<lparr>pp_secs := word_of_int n\<rparr>, g)) }
     else if c = CHR ''l'' then Some (Some (a, g\<lparr>longlived := True\<rparr>))
     else if c = CHR ''v'' then do { n \<leftarrow> atoi optarg; Some (Some (a\<lparr>ietf_version := n\<rparr>, g)) }
     else if c = CHR ''u'' then Some (Some (a, g\<lparr>deny_deflate := True\<rparr>))
     else if c = CHR ''m'' then Some (Some (a\<lparr>do_multi := True\<rparr>, g))
     else if c = CHR ''o'' then Some (Some (a, g\<lparr>test_post := True\<rparr>))
     else if c = CHR ''n'' then Some (Some (a, g\<lparr>flag_no_mirror_traffic := True\<rparr>))
     else if c = CHR ''C'' then Some (Some (a\<lparr>cert_path := strncpy_z 1024 optarg\<rparr>, g))
     else if c = CHR ''K'' then Some (Some (a\<lparr>key_path := strncpy_z 1024 optarg\<rparr>, g))
     else if c = CHR ''A'' then Some (Some (a\<lparr>ca_path := strncpy_z 1024 optarg\<rparr>, g))
     else if c = CHR ''R'' \<and> crl_path g \<noteq> None then Some (Some (a, g\<lparr>crl_path := Some (strncpy_z 1024 optarg)\<rparr>))
     else if c = CHR ''h'' then Some None
     else Some (Some (a, g)))"

fun client_options ::
  "(char \<times> string) list \<Rightarrow> client_args \<times> client \<Rightarrow> (client_args \<times> client) option option" where
  "client_options [] st = Some (Some st)"
| "client_options (opt # os) st = (case client_option opt st of
       None \<Rightarrow> None
     | Some None \<Rightarrow> Some None
     | Some (Some st') \<Rightarrow> client_options os st')"

subsection \<open>Setting up\<close>

text \<open>What main puts into the creation and connection structures; an unset pointer is None.\<close>

record context_info =
  ws_ping_pong_interval :: "16 word"
  ssl_cert_filepath :: "string option"
  ssl_private_key_filepath :: "string option"
  ssl_ca_filepath :: "string option"

record connect_info =
  ci_port :: int
  ci_address :: string
  ci_path :: string
  ci_ssl :: nat
  ci_version :: int
  ci_method :: "string option"
  ci_protocol :: "string option"

definition final_ssl :: "string \<Rightarrow> nat \<Rightarrow> nat" where
  "final_ssl prot ssl = (
     let ssl1 = (if prot = ''http'' \<or> prot = ''ws'' then 0 else ssl) in
     if (prot = ''https'' \<or> prot = ''wss'') \<and> ssl1 = 0 then LCCSCF_USE_SSL else ssl1)"

definition client_setup ::
  "client_args \<Rightarrow> client \<Rightarrow> string \<Rightarrow> string \<Rightarrow> int \<Rightarrow> string \<Rightarrow> context_info \<times> connect_info \<times> bool" where
  "client_setup a g prot address uri_port p = (
     let ssl = final_ssl prot (use_ssl a);
         file = (\<lambda>f. if ssl \<noteq> 0 \<and> f \<noteq> [] then Some f else None);
         info = \<lparr>ws_ping_pong_interval = ucast (pp_secs a), ssl_cert_filepath = file (cert_path a),
           ssl_private_key_filepath = file (key_path a), ssl_ca_filepath = file (ca_path a)\<rparr>;
         http = (prot = ''http'' \<or> prot = ''https''); raw = (prot = ''raw'') in
     (info,
      \<lparr>ci_port = uri_port, ci_address = address, ci_path = CHR ''/'' # strncpy_z 299 p, ci_ssl = ssl,
        ci_version = ietf_version a,
        ci_method = (if http then Some (if test_post g then ''POST'' else ''GET'')
                     else if raw then Some ''RAW'' else None),
        ci_protocol = (if raw then Some ''lws-test-raw-client'' else None)\<rparr>,
      \<not> http \<and> \<not> raw))"

subsection \<open>The main loop\<close>

text \<open>
  env says what the library does to the static variables during the last call of a trace:
  a connect stores the new connection behind pwsi and may run callbacks, a service runs
  callbacks.  A slot is only connected while it is empty.
\<close>

definition dumb_protocol :: string where "dumb_protocol = ''dumb-increment-protocol''"

definition connect_multi ::
  "(lws_trace \<Rightarrow> int) \<Rightarrow> (lws_trace \<Rightarrow> client \<Rightarrow> client) \<Rightarrow> nat \<Rightarrow> client \<times> lws_trace \<Rightarrow> client \<times> lws_trace" where
  "connect_multi clk env n st = (case st of (g, tr) \<Rightarrow>
     if wsi_multi g ! n = None then
       (case ratelimit_connects clk (rl_multi g ! n) 2 tr of (ok, old, tr1) \<Rightarrow>
          let g1 = g\<lparr>rl_multi := (rl_multi g)[n := old]\<rparr> in
          if ok then (let tr2 = tr1 @ [Lws_main (Connect (Slot_multi n) (Some dumb_protocol))] in (env tr2 g1, tr2))
          else (g1, tr1))
     else (g, tr))"

definition connect_dumb ::
  "(lws_trace \<Rightarrow> int) \<Rightarrow> (lws_trace \<Rightarrow> client \<Rightarrow> client) \<Rightarrow> string option \<Rightarrow> client \<times> u32 \<times> lws_trace \<Rightarrow>
   client \<times> u32 \<times> lws_trace" where
  "connect_dumb clk env prot st = (case st of (g, rl_dumb, tr) \<Rightarrow>
     if wsi_dumb g = None then
       (case ratelimit_connects clk rl_dumb 2 tr of (ok, old, tr1) \<Rightarrow>
          if ok then (let tr2 = tr1 @ [Lws_main (Connect Slot_dumb prot)] in (env tr2 g, old, tr2))
          else (g, old, tr1))
     else (g, rl_dumb, tr))"

text \<open>One round of the loop: connecting, servicing, and every tenth time with --multi-test a
  writeable callback for everybody.\<close>

definition client_round ::
  "(lws_trace \<Rightarrow> int) \<Rightarrow> (lws_trace \<Rightarrow> client \<Rightarrow> client) \<Rightarrow> bool \<Rightarrow> bool \<Rightarrow> connect_info \<Rightarrow>
   client \<times> u32 \<times> int \<times> lws_trace \<Rightarrow> client \<times> u32 \<times> int \<times> lws_trace" where
  "client_round clk env multi do_ws i st = (case st of (g, rl_dumb, m, tr) \<Rightarrow>
     let (g1, rl1, tr1) =
           (if multi then (case fold (connect_multi clk env) [0..<MULTI] (g, tr) of (g', tr') \<Rightarrow> (g', rl_dumb, tr'))
            else connect_dumb clk env (if do_ws then Some dumb_protocol else ci_protocol i) (g, rl_dumb, tr));
         tr2 = tr1 @ [Lws_main (Service 500)];
         g2 = env tr2 g1 in
     if multi then
       (if m + 1 = 10 then (g2, rl1, 0, tr2 @ [Lws_callback_on_writable_all_protocol])
        else (g2, rl1, m + 1, tr2))
     else (g2, rl1, m, tr2))"

partial_function (option) client_loop ::
  "(lws_trace \<Rightarrow> int) \<Rightarrow> (lws_trace \<Rightarrow> client \<Rightarrow> client) \<Rightarrow> bool \<Rightarrow> bool \<Rightarrow> connect_info \<Rightarrow>
   client \<times> u32 \<times> int \<times> lws_trace \<Rightarrow> (client \<times> lws_trace) option" where
  "client_loop clk env multi do_ws i st = (case st of (g, rl_dumb, m, tr) \<Rightarrow>
     if force_exit g then Some (g, tr @ [Lws_main Context_destroy])
     else client_loop clk env multi do_ws i (client_round clk env multi do_ws i st))"

text \<open>
  main, from the arguments: how many there are (argc), what getopt finds, and the first
  argument that is no option.  parse-uri stands for lws-parse-uri with the default port.
\<close>

definition client_main ::
  "lws_oracle \<Rightarrow> (lws_trace \<Rightarrow> int) \<Rightarrow> (lws_trace \<Rightarrow> client \<Rightarrow> client) \<Rightarrow>
   (string \<Rightarrow> int \<Rightarrow> (string \<times> string \<times> int \<times> string) option) \<Rightarrow>
   nat \<Rightarrow> (char \<times> string) list \<Rightarrow> string option \<Rightarrow> client \<Rightarrow> (int \<times> client \<times> lws_trace) option" where
  "client_main orc clk env parse_uri argc options arg g0 =
     (if argc < 2 then Some (1, g0, [])
      else (case client_options options (initial_args, g0) of
          None \<Rightarrow> None
        | Some None \<Rightarrow> Some (1, g0, [])
        | Some (Some (a, g)) \<Rightarrow> (case arg of
            None \<Rightarrow> Some (1, g, [])
          | Some uri \<Rightarrow> (case parse_uri uri (port a) of
              None \<Rightarrow> Some (1, g, [])
            | Some (prot, address, uri_port, p) \<Rightarrow> (
                case client_setup a g prot address uri_port p of (info, i, do_ws) \<Rightarrow>
                let tr = [Lws_main Create_context] in
                if orc tr = 0 then Some (1, g, tr)
                else do {
                  (g', tr') \<leftarrow> client_loop clk env (do_multi a) do_ws i (g, 0, 0, tr);
                  Some (0, g', tr') })))))"

subsection \<open>What is shown of http content\<close>

lemma sint_byte_7f: "sint (c :: byte) < 0x7f \<longleftrightarrow> c \<noteq> 0x7f"
proof -
  have "sint c \<le> 127" using sint_lt [of c] by simp
  moreover have "sint c = 127 \<longleftrightarrow> c = 127"
  proof
    assume "sint c = 127"
    then have "sint c = sint (127 :: byte)" by simp
    then show "c = 127" by (rule signed_word_eqI)
  qed simp
  ultimately show ?thesis by auto
qed

lemma http_content_output:
  assumes "l \<le> length p"
  shows "http_content l p = Some (let good = takeWhile (\<lambda>c. c \<noteq> 0x7f) (take l p) in
    good @ replicate (l - length good) (of_char (CHR ''.'')))"
  using assms
proof (induction l p rule: http_content.induct)
  case (3 l c p)
  show ?case
  proof (cases "c = 0x7f")
    case True
    with 3 show ?thesis by (cases l) (simp_all add: sint_byte_7f Let_def)
  next
    case False
    with 3 show ?thesis by (simp add: sint_byte_7f Let_def)
  qed
qed simp_all

text \<open>
  What show-http-content prints of l readable bytes: all of them up to the first byte 0x7f,
  and from there on nothing but dots, one for every byte left; without the info log level it
  prints nothing.
\<close>

theorem show_http_content_output:
  assumes "l \<le> length p"
  shows "show_http_content p l g = Some (if info_visible g then
    put_bytes (let good = takeWhile (\<lambda>c. c \<noteq> 0x7f) (take l p) in
      good @ replicate (l - length good) (of_char (CHR ''.''))) g else g)"
  using http_content_output [OF assms] by (simp add: show_http_content_def)

definition client0 :: client where
  "client0 = \<lparr>deny_deflate = False, longlived = False, mirror_lifetime = 0, test_post = True, wsi_dumb = Some 7,
     wsi_mirror = None, wsi_multi = [None, Some 7, Some 8], force_exit = False, opts = 0, rl_multi = [0, 0, 0],
     flag_no_mirror_traffic = False, crl_path = None, info_visible = True, printed = [], err_log = []\<rparr>"

theorem show_http_content_output_witness:
  "show_http_content [104, 200, 0x7f, 105] 4 client0 = Some (put_bytes [104, 200, 46, 46] client0)"
proof -
  have "(let good = takeWhile (\<lambda>c. c \<noteq> 0x7f) (take 4 [104, 200, 0x7f, 105 :: byte]) in
      good @ replicate (4 - length good) (of_char (CHR ''.''))) = [104, 200, 46, 46]" by code_simp
  moreover have "4 \<le> length [104, 200, 0x7f, 105 :: byte]" "info_visible client0" by (simp_all add: client0_def)
  ultimately show ?thesis using show_http_content_output [of 4 "[104, 200, 0x7f, 105]" client0] by (simp only: if_True)
qed

subsection \<open>Failed and closed connections\<close>

lemma clear_multi_slots:
  assumes "n + length xs \<le> 1000"
  shows "\<exists>which'. clear_multi n w xs which = Some (map (\<lambda>x. if x = Some w then None else x) xs, which')"
  using assms
proof (induction xs arbitrary: n which)
  case (Cons x xs)
  have "length (dec_nat n) \<le> 3" using Cons.prems by (intro length_dec_nat) auto
  moreover obtain v where "clear_multi (Suc n) w xs (''multi '' @ dec_nat n) = Some (map (\<lambda>x. if x = Some w then None else x) xs, v)"
    using Cons.IH [of "Suc n" "''multi '' @ dec_nat n"] Cons.prems by auto
  moreover obtain v' where "clear_multi (Suc n) w xs which = Some (map (\<lambda>x. if x = Some w then None else x) xs, v')"
    using Cons.IH [of "Suc n" which] Cons.prems by auto
  ultimately show ?case by (auto simp: Let_def)
qed simp

text \<open>
  C39: After a connection error every variable and every slot that held the connection is
  empty, the others are as before, one message is logged, and the label of a slot fits its ten bytes.
\<close>

theorem connection_error_clears:
  assumes "length (wsi_multi g) = MULTI" and "case inb of None \<Rightarrow> True | Some bs \<Rightarrow> 0 \<in> set bs"
  shows "\<exists>g' msg. callback_dumb_increment orc w LWS_CALLBACK_CLIENT_CONNECTION_ERROR inb len g tr = Some (0, g', tr) \<and>
    wsi_dumb g' = (if wsi_dumb g = Some w then None else wsi_dumb g) \<and>
    wsi_mirror g' = (if wsi_mirror g = Some w then None else wsi_mirror g) \<and>
    wsi_multi g' = map (\<lambda>x. if x = Some w then None else x) (wsi_multi g) \<and>
    err_log g' = err_log g @ [msg] \<and> rl_multi g' = rl_multi g \<and> force_exit g' = force_exit g"
proof -
  have why: "\<exists>s. (case inb of None \<Rightarrow> Some ''(null)'' | Some bs \<Rightarrow> map_option (map (\<lambda>b. char_of (unat b))) (c_str bs)) = Some s"
    using assms(2) c_str_None by (cases inb) fastforce+
  have multi: "\<exists>v. clear_multi 0 w (wsi_multi g) which = Some (map (\<lambda>x. if x = Some w then None else x) (wsi_multi g), v)"
    for which using assms(1) by (intro clear_multi_slots) (simp add: MULTI_def)
  from why multi [of "''mirror''"] multi [of "''dumb''"] multi [of "''http''"] show ?thesis
    by (cases "wsi_dumb g = Some w"; cases "wsi_mirror g = Some w")
      (auto simp: callback_dumb_increment_def dc_connection_error_def)
qed

definition client_multi :: client where
  "client_multi = client0\<lparr>wsi_multi := replicate MULTI (Some 7)\<rparr>"

theorem connection_error_clears_witness:
  "\<exists>g'. callback_dumb_increment (\<lambda>_. 0) 7 LWS_CALLBACK_CLIENT_CONNECTION_ERROR None 0 client_multi [] = Some (0, g', []) \<and>
    wsi_dumb g' = None \<and> wsi_multi g' = replicate MULTI None"
proof -
  have "length (wsi_multi client_multi) = MULTI" "wsi_dumb client_multi = Some 7"
    "wsi_multi client_multi = replicate MULTI (Some 7)"
    by (simp_all add: client_multi_def client0_def)
  with connection_error_clears [of client_multi None "\<lambda>_. 0" 7 0 "[]"] show ?thesis by auto
qed

text \<open>
  A connection of the multi test that closes stays in its slot: the CLOSED callback clears
  the dumb variable only, and as long as the slot holds it the loop never connects it again.
\<close>

theorem closed_multi_not_reconnected:
  assumes "wsi_multi g ! n = Some w"
  shows "\<exists>g'. callback_dumb_increment orc w LWS_CALLBACK_CLOSED inb len g tr = Some (0, g', tr) \<and>
    wsi_dumb g' = None \<and> connect_multi clk env n (g', tr') = (g', tr')"
  using assms by (simp add: callback_dumb_increment_def connect_multi_def)

theorem closed_multi_not_reconnected_witness:
  "\<exists>g'. callback_dumb_increment (\<lambda>_. 0) 8 LWS_CALLBACK_CLOSED None 0 client0 [] = Some (0, g', []) \<and>
    wsi_dumb g' = None \<and> connect_multi (\<lambda>_. 100) (\<lambda>_ g. g) 2 (g', []) = (g', [])"
  by (rule closed_multi_not_reconnected) (simp add: client0_def)

subsection \<open>The rate limit\<close>

text \<open>The times at which n calls in a row say yes.\<close>

fun allowed_times :: "(lws_trace \<Rightarrow> int) \<Rightarrow> u32 \<Rightarrow> u32 \<Rightarrow> nat \<Rightarrow> lws_trace \<Rightarrow> int list" where
  "allowed_times clk old secs 0 tr = []"
| "allowed_times clk old secs (Suc n) tr = (case ratelimit_connects clk old secs tr of (ok, old', tr') \<Rightarrow>
     (if ok then [clk tr'] else []) @ allowed_times clk old' secs n tr')"

lemma allowed_times_after:
  assumes "\<And>tr. 0 \<le> clk tr \<and> clk tr < 2 ^ 32"
  shows "sorted_wrt (\<lambda>s t. s + uint secs \<le> t) (allowed_times clk old secs n tr) \<and>
    (\<forall>t \<in> set (allowed_times clk old secs n tr). uint old + uint secs \<le> t)"
proof (induction n arbitrary: old tr)
  case (Suc n)
  define tr' where "tr' = tr @ [Lws_main Gettimeofday]"
  have u: "uint (word_of_int (clk tr') :: u32) = clk tr'"
    using assms [of tr'] by (simp add: uint_word_of_int)
  show ?case
  proof (cases "clk tr' - uint old < uint secs")
    case True
    with Suc.IH [of old tr'] show ?thesis by (simp add: ratelimit_connects_def tr'_def Let_def)
  next
    case False
    have "allowed_times clk old secs (Suc n) tr = clk tr' # allowed_times clk (word_of_int (clk tr')) secs n tr'"
      using False by (simp add: ratelimit_connects_def tr'_def Let_def)
    moreover have "uint old + uint secs \<le> t" if "clk tr' + uint secs \<le> t" for t
      using that False uint_ge_0 [of secs] by linarith
    ultimately show ?thesis using Suc.IH [of "word_of_int (clk tr')" tr'] False u by auto
  qed
qed simp

text \<open>
  C15: whatever a clock before 2106 shows, forwards or backwards, two connects that the
  rate limit of one slot lets through are at least secs seconds apart.
\<close>

theorem ratelimit_apart:
  assumes "\<And>tr. 0 \<le> clk tr \<and> clk tr < 2 ^ 32"
  shows "sorted_wrt (\<lambda>s t. s + uint secs \<le> t) (allowed_times clk old secs n tr)"
  using allowed_times_after [where clk = clk, OF assms] by blast

theorem ratelimit_apart_witness:
  "allowed_times (\<lambda>tr. 100 + int (length tr)) 0 2 6 [] = [101, 103, 105] \<and>
   sorted_wrt (\<lambda>s t. s + uint (2 :: u32) \<le> t) (allowed_times (\<lambda>tr. 100 + min 50 (int (length tr))) 0 2 6 [])"
proof
  show "allowed_times (\<lambda>tr. 100 + int (length tr)) 0 2 6 [] = [101, 103, 105]" by code_simp
  show "sorted_wrt (\<lambda>s t. s + uint (2 :: u32) \<le> t) (allowed_times (\<lambda>tr. 100 + min 50 (int (length tr))) 0 2 6 [])"
    by (rule ratelimit_apart) auto
qed

subsection \<open>The life of a mirror session\<close>

definition is_circle :: "byte list \<Rightarrow> bool" where
  "is_circle m \<longleftrightarrow> (\<exists>c x y r. c < 2 ^ 24 \<and> x < 512 \<and> y < 256 \<and> 1 \<le> r \<and> r \<le> 32 \<and>
     m = bytes_of (''c #'' @ hex6 c @ '' '' @ dec_nat x @ '' '' @ dec_nat y @ '' '' @ dec_nat r @ '';''))"

lemma unat_and_le: "unat (a AND b :: u32) \<le> unat b"
  by (metis word_and_le1 word_le_nat_alt)

lemma circle_circle:
  assumes "length rands = 4"
  shows "\<exists>s. circle rands = Some s \<and> is_circle (bytes_of s) \<and> length s \<le> 21"
proof -
  from assms obtain a b c d where r: "rands = [a, b, c, d]"
    by (auto simp: length_Suc_conv numeral_eq_Suc)
  let ?c = "unat (a AND 0xffffff)" and ?x = "unat (b AND 511)" and ?y = "unat (c AND 255)"
    and ?r = "unat ((d AND 31) + 1)"
  have b: "?c < 2 ^ 24" "?x < 512" "?y < 256" "unat (d AND 31) \<le> 31"
    using unat_and_le [of a "0xffffff"] unat_and_le [of b 511] unat_and_le [of c 255] unat_and_le [of d 31] by auto
  then have rr: "1 \<le> ?r" "?r \<le> 32" by (simp_all add: unat_word_ariths)
  have "length (dec_nat ?x) \<le> 3" "length (dec_nat ?y) \<le> 3" "length (dec_nat ?r) \<le> 2"
    using b rr by (auto intro!: length_dec_nat)
  moreover have "length (hex6 n) = 6" for n by (simp add: hex6_def)
  ultimately show ?thesis
    using b rr unfolding r circle_def is_circle_def by fastforce
qed

text \<open>n writeable callbacks in a row, up to the first that closes the connection.\<close>

fun mirror_run ::
  "lws_oracle \<Rightarrow> (lws_trace \<Rightarrow> u32 list) \<Rightarrow> wsi \<Rightarrow> nat \<Rightarrow> client \<Rightarrow> lws_trace \<Rightarrow> (int \<times> client \<times> lws_trace) option" where
  "mirror_run orc rnd w 0 g tr = Some (0, g, tr)"
| "mirror_run orc rnd w (Suc n) g tr = do {
     (r, g', tr') \<leftarrow> callback_lws_mirror orc rnd w LWS_CALLBACK_CLIENT_WRITEABLE g tr;
     if r < 0 then Some (r, g', tr') else mirror_run orc rnd w n g' tr' }"

lemma mc_writeable_step:
  assumes "\<And>tr. length (rnd tr) = 4" "\<And>tr. 21 \<le> orc tr" "\<not> flag_no_mirror_traffic g"
    and "mirror_lifetime g = int (Suc k)" "int (Suc k) \<le> INT_MAX"
  obtains m d where "callback_lws_mirror orc rnd w LWS_CALLBACK_CLIENT_WRITEABLE g tr =
      Some (if k = 0 then - 1 else 0, g\<lparr>mirror_lifetime := int k\<rparr>, tr @ d)"
    "written d = [m]" "is_circle m"
proof -
  let ?tr1 = "tr @ [Lws_client w (Get_random 16)]"
  obtain s where s: "circle (rnd ?tr1) = Some s" "is_circle (bytes_of s)" "length s \<le> 21"
    using circle_circle [OF assms(1)] by blast
  let ?tr2 = "?tr1 @ [Lws_write w (bytes_of s) (opts g OR LWS_WRITE_TEXT)]"
  have "c_int (mirror_lifetime g - 1) = Some (int k)"
    using assms(4,5) by (simp add: c_int_def is_int_def INT_MIN_def)
  moreover have "\<not> orc ?tr2 < int (length s)" "\<not> orc ?tr2 < 0" using assms(2) [of ?tr2] s(3) by auto
  ultimately have "callback_lws_mirror orc rnd w LWS_CALLBACK_CLIENT_WRITEABLE g tr =
      Some (if k = 0 then - 1 else 0, g\<lparr>mirror_lifetime := int k\<rparr>,
        if k = 0 then ?tr2 else ?tr2 @ [Lws_callback_on_writable w])"
    using assms(3) s(1,3) by (simp add: callback_lws_mirror_def mc_writeable_def Let_def)
  then show ?thesis
    using s(2) that [of "drop (length tr) (if k = 0 then ?tr2 else ?tr2 @ [Lws_callback_on_writable w])" "bytes_of s"]
    by (cases "k = 0") auto
qed

lemma mirror_run_from:
  assumes "\<And>tr. length (rnd tr) = 4" "\<And>tr. 21 \<le> orc tr" "\<not> flag_no_mirror_traffic g"
    and "mirror_lifetime g = int k" "n \<le> k" "int k \<le> INT_MAX"
  shows "\<exists>d. mirror_run orc rnd w n g tr =
      Some (if n = k \<and> n \<noteq> 0 then - 1 else 0, g\<lparr>mirror_lifetime := int (k - n)\<rparr>, tr @ d) \<and>
    length (written d) = n \<and> (\<forall>m \<in> set (written d). is_circle m)"
  using assms(3-)
proof (induction n arbitrary: g k tr)
  case (Suc n)
  then obtain k' where k: "k = Suc k'" by (cases k) auto
  obtain m d where st: "callback_lws_mirror orc rnd w LWS_CALLBACK_CLIENT_WRITEABLE g tr =
      Some (if k' = 0 then - 1 else 0, g\<lparr>mirror_lifetime := int k'\<rparr>, tr @ d)" "written d = [m]" "is_circle m"
    using mc_writeable_step [where rnd = rnd and orc = orc and g = g and k = k' and w = w and tr = tr, OF assms(1,2)]
      Suc.prems k by blast
  show ?case
  proof (cases "k' = 0")
    case True
    with Suc.prems k have "n = 0" by simp
    with st k True show ?thesis by (intro exI [of _ d]) simp
  next
    case False
    obtain d' where "mirror_run orc rnd w n (g\<lparr>mirror_lifetime := int k'\<rparr>) (tr @ d) =
        Some (if n = k' \<and> n \<noteq> 0 then - 1 else 0, g\<lparr>mirror_lifetime := int (k' - n)\<rparr>, (tr @ d) @ d')"
      "length (written d') = n" "\<forall>m \<in> set (written d'). is_circle m"
      using Suc.IH [of "g\<lparr>mirror_lifetime := int k'\<rparr>" k' "tr @ d"] Suc.prems k by auto
    with st k False show ?thesis by (intro exI [of _ "d @ d'"]) auto
  qed
qed simp

text \<open>
  C16: a mirror session that the random word r opens lives for exactly 16384 + r mod 65536 sends
  (500000 more with --longlived): with writes that go through, that send closes it and none
  before does, and every message is a circle with its coordinates, radius and colour in range.
\<close>

theorem mirror_session_lifetime:
  assumes "\<And>tr. length (rnd tr) = 4" "\<And>tr. 21 \<le> orc tr" "\<not> flag_no_mirror_traffic g"
    and "L = 16384 + unat (hd (rnd (tr @ [Lws_client w (Get_random 4)])) AND 65535) + (if longlived g then 500000 else 0)"
    and "n \<le> L"
  shows "\<exists>g1 tr1 d. callback_lws_mirror orc rnd w LWS_CALLBACK_CLIENT_ESTABLISHED g tr = Some (0, g1, tr1) \<and>
    mirror_run orc rnd w n g1 tr1 = Some (if n = L then - 1 else 0, g\<lparr>mirror_lifetime := int (L - n)\<rparr>, tr1 @ d) \<and>
    length (written d) = n \<and> (\<forall>m \<in> set (written d). is_circle m)"
proof -
  let ?tr1 = "tr @ [Lws_client w (Get_random 4)]"
  obtain r rs where r: "rnd ?tr1 = r # rs" using assms(1) [of ?tr1] by (cases "rnd ?tr1") auto
  have le: "unat (r AND 65535) \<le> 65535" using unat_and_le [of r 65535] by simp
  have u: "uint (r AND 65535) = int (unat (r AND 65535))" by simp
  have L: "L = 16384 + unat (r AND 65535) + (if longlived g then 500000 else 0)" using assms(4) r by simp
  have "callback_lws_mirror orc rnd w LWS_CALLBACK_CLIENT_ESTABLISHED g tr =
      Some (0, g\<lparr>mirror_lifetime := int L\<rparr>, ?tr1 @ [Lws_callback_on_writable w])"
    using assms(3) r le
    by (simp add: callback_lws_mirror_def mc_established_def c_int_def is_int_def INT_MIN_def INT_MAX_def u L Let_def
        del: of_nat_unat)
  moreover have "int L \<le> INT_MAX" "L \<noteq> 0" using L le by (auto simp: INT_MAX_def simp del: of_nat_unat)
  ultimately show ?thesis
    using mirror_run_from [where rnd = rnd and orc = orc and g = "g\<lparr>mirror_lifetime := int L\<rparr>" and k = L and n = n and w = w and
        tr = "?tr1 @ [Lws_callback_on_writable w]", OF assms(1,2)] assms(3,5) by auto
qed

theorem mirror_session_lifetime_witness:
  "\<exists>g1 tr1 d. callback_lws_mirror (\<lambda>_. 50) (\<lambda>_. [0, 1, 2, 3]) 4 LWS_CALLBACK_CLIENT_ESTABLISHED client0 [] = Some (0, g1, tr1) \<and>
    mirror_run (\<lambda>_. 50) (\<lambda>_. [0, 1, 2, 3]) 4 16384 g1 tr1 = Some (- 1, client0\<lparr>mirror_lifetime := 0\<rparr>, tr1 @ d) \<and>
    length (written d) = 16384"
proof -
  have "\<exists>g1 tr1 d. callback_lws_mirror (\<lambda>_. 50) (\<lambda>_. [0, 1, 2, 3]) 4 LWS_CALLBACK_CLIENT_ESTABLISHED client0 [] = Some (0, g1, tr1) \<and>
    mirror_run (\<lambda>_. 50) (\<lambda>_. [0, 1, 2, 3]) 4 16384 g1 tr1 =
      Some (if 16384 = (16384 :: nat) then - 1 else 0, client0\<lparr>mirror_lifetime := int (16384 - 16384)\<rparr>, tr1 @ d) \<and>
    length (written d) = 16384 \<and> (\<forall>m \<in> set (written d). is_circle m)"
    by (rule mirror_session_lifetime) (simp_all add: client0_def)
  then show ?thesis by auto
qed

subsection \<open>Leaving the loop\<close>

text \<open>
  When some round, be it by the signal handler or by a completed http transaction, leaves
  force-exit set, the loop ends: it destroys the context as its last call and stops at a state
  with force-exit set.
\<close>

theorem client_loop_stops:
  assumes "force_exit (fst ((client_round clk env multi do_ws i ^^ k) st))"
  shows "\<exists>g tr. client_loop clk env multi do_ws i st = Some (g, tr @ [Lws_main Context_destroy]) \<and> force_exit g"
  using assms
proof (induction k arbitrary: st)
  case 0
  then show ?case by (cases st) (auto simp: client_loop.simps)
next
  case (Suc k)
  show ?case
  proof (cases "force_exit (fst st)")
    case True
    then show ?thesis by (cases st) (auto simp: client_loop.simps)
  next
    case False
    have "force_exit (fst ((client_round clk env multi do_ws i ^^ k) (client_round clk env multi do_ws i st)))"
      using Suc.prems by (simp add: funpow_swap1)
    from Suc.IH [OF this] False show ?thesis
      by (cases st) (auto simp: client_loop.simps [of _ _ _ _ _ "(_, _, _, _)"])
  qed
qed

theorem client_loop_stops_witness:
  "\<exists>g tr. client_loop (\<lambda>_. 100) (\<lambda>tr g. if length tr = 4 then sighandler g else g) False False
     \<lparr>ci_port = 80, ci_address = ''a'', ci_path = ''/'', ci_ssl = 0, ci_version = - 1, ci_method = None, ci_protocol = None\<rparr>
     (client0, 0, 0, []) = Some (g, tr @ [Lws_main Context_destroy]) \<and> force_exit g"
  by (rule client_loop_stops [where k = 4]) code_simp

text \<open>
  The scheme of the address decides about encryption: http and ws never use it, https and wss
  always do, and keep the exceptions that -s asked for.
\<close>

lemma final_ssl_scheme:
  "final_ssl ''http'' ssl = 0" "final_ssl ''ws'' ssl = 0"
  "final_ssl ''https'' ssl = (if ssl = 0 then LCCSCF_USE_SSL else ssl)"
  "final_ssl ''wss'' ssl = (if ssl = 0 then LCCSCF_USE_SSL else ssl)"
  by (simp_all add: final_ssl_def)

text \<open>The form is announced with its length, and fits the buffer it is copied into.\<close>

lemma post_form_announced: "dec_nat (length post_form) = ''29''" and
  form_type_length: "length ''application/x-www-form-urlencoded'' = 33"
  by code_simp+

subsection \<open>The protocol table\<close>

definition client_protocols :: "lws_protocols list" where
  "client_protocols = [
     \<lparr>protocol_name = ''dumb-increment-protocol'', rx_buffer_size = 20\<rparr>,
     \<lparr>protocol_name = ''lws-mirror-protocol'', rx_buffer_size = 128\<rparr>,
     \<lparr>protocol_name = ''lws-test-raw-client'', rx_buffer_size = 128\<rparr>]"

end
