(* ===== verification/FileClient.thy ===== *)
theory FileClient
  imports Client
begin

text \<open>
  The file client, test-file-client.c: a copy of the test client with another protocol table,
  a dumb protocol that sends counted lines, and a main loop that connects twice and then asks
  once a second to write.  What the two programs share word for word is shared here too.
\<close>

subsection \<open>State\<close>

record file_client =
  base :: client
  wsi_fsc :: "wsi option"
  fc_count :: int

definition fc_protocols :: "lws_protocols list" where
  "fc_protocols = [
     \<lparr>protocol_name = ''acp-ctrl-protocol'', rx_buffer_size = 20\<rparr>,
     \<lparr>protocol_name = ''lws-mirror-protocol'', rx_buffer_size = 128\<rparr>,
     \<lparr>protocol_name = ''acp-xxx-protocol'', rx_buffer_size = 128\<rparr>,
     \<lparr>protocol_name = ''acp-file-protocol'', rx_buffer_size = 4096\<rparr>]"

subsection \<open>The callbacks\<close>

text \<open>The line a writeable callback sends, in the 50 bytes of buf behind the padding.\<close>

definition haha :: "int \<Rightarrow> string" where
  "haha n = ''HAHA:['' @ dec_int n @ '']\<newline>''"

definition fc_writeable ::
  "lws_oracle \<Rightarrow> wsi \<Rightarrow> file_client \<Rightarrow> lws_trace \<Rightarrow> (int \<times> file_client \<times> lws_trace) option" where
  "fc_writeable orc w f tr = do {
     c \<leftarrow> c_int (fc_count f + 1);
     s \<leftarrow> c_strcpy 50 (bytes_of (haha (fc_count f)) @ [0]);
     let tr1 = tr @ [Lws_write w s LWS_WRITE_TEXT];
     Some (0, f\<lparr>fc_count := c, base := put_bytes (bytes_of (''sent:'' @ dec_int (orc tr1) @ '' \<newline>'')) (base f)\<rparr>, tr1) }"

definition fc_callback_dumb_increment ::
  "lws_oracle \<Rightarrow> wsi \<Rightarrow> lws_reason \<Rightarrow> byte list option \<Rightarrow> nat \<Rightarrow> file_client \<Rightarrow> lws_trace \<Rightarrow>
   (int \<times> file_client \<times> lws_trace) option" where
  "fc_callback_dumb_increment orc w reason inb len f tr =
     (if reason = LWS_CALLBACK_CLIENT_ESTABLISHED then
        Some (0, f\<lparr>base := put_bytes (bytes_of ''dumb: LWS_CALLBACK_CLIENT_ESTABLISHED\<newline>'') (base f)\<rparr>, tr)
      else if reason = LWS_CALLBACK_CLIENT_WRITEABLE then fc_writeable orc w f tr
      else do {
        (r, g, tr1) \<leftarrow> callback_dumb_increment orc w reason inb len (base f) tr;
        Some (r, f\<lparr>base := g\<rparr>, tr1) })"

definition fc_callback_lws_mirror ::
  "lws_oracle \<Rightarrow> (lws_trace \<Rightarrow> u32 list) \<Rightarrow> wsi \<Rightarrow> lws_reason \<Rightarrow> file_client \<Rightarrow> lws_trace \<Rightarrow>
   (int \<times> file_client \<times> lws_trace) option" where
  "fc_callback_lws_mirror orc rnd w reason f tr = do {
     (r, g, tr1) \<leftarrow> callback_lws_mirror orc rnd w reason (base f) tr;
     Some (r, f\<lparr>base := g\<rparr>, tr1) }"

subsection \<open>The main loop\<close>

text \<open>
  The first round connects the control and the file connection, the latter with zeroed user
  data from malloc (alloc says whether it succeeds).
\<close>

definition fc_connect ::
  "(lws_trace \<Rightarrow> file_client \<Rightarrow> file_client) \<Rightarrow> bool \<Rightarrow> file_client \<times> lws_trace \<Rightarrow> (file_client \<times> lws_trace) option" where
  "fc_connect env alloc st = (case st of (f, tr) \<Rightarrow>
     let tr1 = tr @ [Lws_main (Connect Slot_dumb (Some (protocol_name (fc_protocols ! 0))))];
         f1 = (env tr1 f)\<lparr>wsi_fsc := None\<rparr> in
     if \<not> alloc then None
     else let tr2 = tr1 @ [Lws_main (Connect Slot_fsc (Some (protocol_name (fc_protocols ! 3))))] in
       Some (env tr2 f1, tr2))"

text \<open>A round: initial says whether the connections are already made.\<close>

definition fc_round ::
  "(lws_trace \<Rightarrow> int) \<Rightarrow> (lws_trace \<Rightarrow> file_client \<Rightarrow> file_client) \<Rightarrow> bool \<Rightarrow>
   file_client \<times> bool \<times> u32 \<times> lws_trace \<Rightarrow> (file_client \<times> bool \<times> u32 \<times> lws_trace) option" where
  "fc_round clk env alloc st = (case st of (f, initial, rl_dumb, tr) \<Rightarrow> do {
     (f1, tr1) \<leftarrow> (if initial then Some (f, tr) else fc_connect env alloc (f, tr));
     let tr2 = tr1 @ [Lws_main (Service 5)];
     let f2 = env tr2 f1;
     case wsi_dumb (base f2) of
       None \<Rightarrow> Some (f2, True, rl_dumb, tr2)
     | Some w \<Rightarrow> (case ratelimit_connects clk rl_dumb 1 tr2 of (ok, old, tr3) \<Rightarrow>
         Some (f2, True, old, if ok then tr3 @ [Lws_callback_on_writable w] else tr3)) })"

partial_function (option) fc_loop ::
  "(lws_trace \<Rightarrow> int) \<Rightarrow> (lws_trace \<Rightarrow> file_client \<Rightarrow> file_client) \<Rightarrow> bool \<Rightarrow>
   file_client \<times> bool \<times> u32 \<times> lws_trace \<Rightarrow> (file_client \<times> lws_trace) option" where
  "fc_loop clk env alloc st = (case st of (f, initial, rl_dumb, tr) \<Rightarrow>
     if force_exit (base f) then Some (f, tr @ [Lws_main Context_destroy])
     else do { st' \<leftarrow> fc_round clk env alloc st; fc_loop clk env alloc st' })"

text \<open>main parses and sets up exactly as the test client does, the connection's protocol apart.\<close>

definition fc_main ::
  "lws_oracle \<Rightarrow> (lws_trace \<Rightarrow> int) \<Rightarrow> (lws_trace \<Rightarrow> file_client \<Rightarrow> file_client) \<Rightarrow> bool \<Rightarrow>
   (string \<Rightarrow> int \<Rightarrow> (string \<times> string \<times> int \<times> string) option) \<Rightarrow>
   nat \<Rightarrow> (char \<times> string) list \<Rightarrow> string option \<Rightarrow> file_client \<Rightarrow> (int \<times> file_client \<times> lws_trace) option" where
  "fc_main orc clk env alloc parse_uri argc options arg f0 =
     (if argc < 2 then Some (1, f0, [])
      else (case client_options options (initial_args, base f0) of
          None \<Rightarrow> None
        | Some None \<Rightarrow> Some (1, f0, [])
        | Some (Some (a, g)) \<Rightarrow> (case arg of
            None \<Rightarrow> Some (1, f0\<lparr>base := g\<rparr>, [])
          | Some uri \<Rightarrow> (case parse_uri uri (port a) of
              None \<Rightarrow> Some (1, f0\<lparr>base := g\<rparr>, [])
            | Some (prot, address, uri_port, p) \<Rightarrow> (
                case client_setup a g prot address uri_port p of (info, i, do_ws) \<Rightarrow>
                let tr = [Lws_main Create_context] in
                if orc tr = 0 then Some (1, f0\<lparr>base := g\<rparr>, tr)
                else do {
                  (f, tr') \<leftarrow> fc_loop clk env alloc (f0\<lparr>base := g\<rparr>, False, 0, tr);
                  Some (0, f, tr') })))))"

subsection \<open>Connections and writes\<close>

text \<open>The connections of a trace, and k rounds in a row.\<close>

fun connects :: "lws_trace \<Rightarrow> (client_slot \<times> string option) list" where
  "connects [] = []"
| "connects (Lws_main (Connect s p) # tr) = (s, p) # connects tr"
| "connects (_ # tr) = connects tr"

lemma connects_append [simp]: "connects (tr @ tr') = connects tr @ connects tr'"
  by (induction tr rule: connects.induct) auto

fun fc_rounds ::
  "(lws_trace \<Rightarrow> int) \<Rightarrow> (lws_trace \<Rightarrow> file_client \<Rightarrow> file_client) \<Rightarrow> nat \<Rightarrow>
   file_client \<times> bool \<times> u32 \<times> lws_trace \<Rightarrow> (file_client \<times> bool \<times> u32 \<times> lws_trace) option" where
  "fc_rounds clk env 0 st = Some st"
| "fc_rounds clk env (Suc k) st = do { st' \<leftarrow> fc_round clk env True st; fc_rounds clk env k st' }"

lemma fc_round_connected:
  "\<exists>f' old tr'. fc_round clk env alloc (f, True, rl, tr) = Some (f', True, old, tr') \<and> connects tr' = connects tr"
  by (auto simp: fc_round_def ratelimit_connects_def Let_def split: option.splits)

lemma fc_rounds_connected:
  "\<exists>f' old tr'. fc_rounds clk env k (f, True, rl, tr) = Some (f', True, old, tr') \<and> connects tr' = connects tr"
proof (induction k arbitrary: f rl tr)
  case (Suc k)
  obtain f' old tr' where "fc_round clk env True (f, True, rl, tr) = Some (f', True, old, tr')" "connects tr' = connects tr"
    using fc_round_connected by blast
  with Suc.IH [of f' old tr'] show ?case by auto
qed simp

text \<open>
  However many rounds the loop makes and whatever the library does in them, the program makes
  exactly two connections, in the first round: the control protocol, then the file protocol.
  A connection that fails is never tried again.
\<close>

theorem file_client_connects_once:
  "\<exists>f' old tr. fc_rounds clk env (Suc k) (f, False, rl, []) = Some (f', True, old, tr) \<and>
    connects tr = [(Slot_dumb, Some ''acp-ctrl-protocol''), (Slot_fsc, Some ''acp-file-protocol'')]"
proof -
  have "\<exists>f1 old tr1. fc_round clk env True (f, False, rl, []) = Some (f1, True, old, tr1) \<and>
      connects tr1 = [(Slot_dumb, Some ''acp-ctrl-protocol''), (Slot_fsc, Some ''acp-file-protocol'')]"
    by (auto simp: fc_round_def fc_connect_def ratelimit_connects_def fc_protocols_def Let_def numeral_eq_Suc
        split: option.splits)
  then obtain f1 old tr1 where 1: "fc_round clk env True (f, False, rl, []) = Some (f1, True, old, tr1)"
    "connects tr1 = [(Slot_dumb, Some ''acp-ctrl-protocol''), (Slot_fsc, Some ''acp-file-protocol'')]" by blast
  with fc_rounds_connected [of clk env k f1 old tr1] show ?thesis by auto
qed

text \<open>The line fits its buffer for every value of the counter, and the counter counts until it overflows.\<close>

lemma haha_fits:
  assumes "is_int n"
  shows "length (haha n) < 50"
proof -
  have "nat \<bar>n\<bar> < 10 ^ 10" using assms by (auto simp: is_int_def INT_MAX_def INT_MIN_def)
  then have "length (dec_nat (nat \<bar>n\<bar>)) \<le> 10" by (intro length_dec_nat) auto
  then have "length (dec_int n) \<le> 11" by (cases "n < 0") (auto simp: dec_int_def)
  then show ?thesis by (simp add: haha_def)
qed

end
