(* ===== verification/ServerMain.thy ===== *)
theory ServerMain
  imports LwsApi CString
begin

text \<open>
  The main program of the test server, test-server.c: its options, the certificate paths it
  makes from the resource path, the context and virtual host it creates, and its service loop,
  both the plain one and that of an EXTERNAL_POLL build.  The model is of a build with OpenSSL and
  its CRL option, where a daemon can be made.  The library is an oracle as in the callbacks; clk
  is the clock, stop says whether the signal handler has run, revents what poll reported.
\<close>

subsection \<open>Options\<close>

definition LWS_SERVER_OPTION_REQUIRE_VALID_OPENSSL_CLIENT_CERT :: nat where
  "LWS_SERVER_OPTION_REQUIRE_VALID_OPENSSL_CLIENT_CERT = 2 ^ 1 OR 2 ^ 12"
definition LWS_SERVER_OPTION_ALLOW_NON_SSL_ON_SSL_PORT :: nat where
  "LWS_SERVER_OPTION_ALLOW_NON_SSL_ON_SSL_PORT = 2 ^ 3 OR 2 ^ 12"
definition LWS_SERVER_OPTION_LIBEV :: nat where "LWS_SERVER_OPTION_LIBEV = 2 ^ 4"
definition LWS_SERVER_OPTION_VALIDATE_UTF8 :: nat where "LWS_SERVER_OPTION_VALIDATE_UTF8 = 2 ^ 8"
definition LWS_SERVER_OPTION_REDIRECT_HTTP_TO_HTTPS :: nat where
  "LWS_SERVER_OPTION_REDIRECT_HTTP_TO_HTTPS = 2 ^ 11 OR 2 ^ 12"
definition LWS_SERVER_OPTION_DO_SSL_GLOBAL_INIT :: nat where "LWS_SERVER_OPTION_DO_SSL_GLOBAL_INIT = 2 ^ 12"
definition LWS_SERVER_OPTION_EXPLICIT_VHOSTS :: nat where "LWS_SERVER_OPTION_EXPLICIT_VHOSTS = 2 ^ 13"

record server_args =
  s_opts :: nat
  s_daemonize :: bool
  s_uid :: int
  s_gid :: int
  s_debug_level :: int
  s_use_ssl :: bool
  s_port :: int
  s_iface :: "string option"
  s_bind_iface :: bool
  s_close_testing :: bool
  s_resource_path :: string
  s_cert_path :: string
  s_key_path :: string
  s_ca_path :: string
  s_pp_secs :: int
  s_crl_path :: string

definition server_defaults :: server_args where
  "server_defaults = \<lparr>s_opts = 0, s_daemonize = False, s_uid = - 1, s_gid = - 1, s_debug_level = 7, s_use_ssl = False,
     s_port = 7681, s_iface = None, s_bind_iface = False, s_close_testing = False,
     s_resource_path = ''/usr/local/share/libwebsockets-test-server'', s_cert_path = [], s_key_path = [],
     s_ca_path = [], s_pp_secs = 0, s_crl_path = []\<rparr>"

text \<open>One option of getopt; the inner None is the usage text and exit(1).\<close>

definition server_option :: "char \<times> string \<Rightarrow> server_args \<Rightarrow> server_args option option" where
  "server_option opt a = (case opt of (c, optarg) \<Rightarrow>
     if c = CHR ''e'' then Some (Some (a\<lparr>s_opts := s_opts a OR LWS_SERVER_OPTION_LIBEV\<rparr>))
     else if c = CHR ''D'' then Some (Some (a\<lparr>s_daemonize := True\<rparr>))
     else if c = CHR ''u'' then do { n \<leftarrow> atoi optarg; Some (Some (a\<lparr>s_uid := n\<rparr>)) }
     else if c = CHR ''g'' then do { n \<leftarrow> atoi optarg; Some (Some (a\<lparr>s_gid := n\<rparr>)) }
     else if c = CHR ''d'' then do { n \<leftarrow> atoi optarg; Some (Some (a\<lparr>s_debug_level := n\<rparr>)) }
     else if c = CHR ''s'' then Some (Some (a\<lparr>s_use_ssl := True\<rparr>))
     else if c = CHR ''a'' then Some (Some (a\<lparr>s_opts := s_opts a OR LWS_SERVER_OPTION_ALLOW_NON_SSL_ON_SSL_PORT\<rparr>))
     else if c = CHR ''p'' then do { n \<leftarrow> atoi optarg; Some (Some (a\<lparr>s_port := n\<rparr>)) }
     else if c = CHR ''i'' then Some (Some (a\<lparr>s_iface := Some (take 127 optarg)\<rparr>))
     else if c = CHR ''k'' then Some (Some (a\<lparr>s_bind_iface := True\<rparr>))
     else if c = CHR ''c'' then Some (Some (a\<lparr>s_close_testing := True\<rparr>))
     else if c = CHR ''r'' then Some (Some (a\<lparr>s_resource_path := optarg\<rparr>))
     else if c = CHR ''C'' then Some (Some (a\<lparr>s_cert_path := take 1023 optarg\<rparr>))
     else if c = CHR ''K'' then Some (Some (a\<lparr>s_key_path := take 1023 optarg\<rparr>))
     else if c = CHR ''A'' then Some (Some (a\<lparr>s_ca_path := take 1023 optarg\<rparr>))
     else if c = CHR ''P'' then do { n \<leftarrow> atoi optarg; Some (Some (a\<lparr>s_pp_secs := n\<rparr>)) }
     else if c = CHR ''v'' then
       Some (Some (a\<lparr>s_use_ssl := True, s_opts := s_opts a OR LWS_SERVER_OPTION_REQUIRE_VALID_OPENSSL_CLIENT_CERT\<rparr>))
     else if c = CHR ''R'' then Some (Some (a\<lparr>s_crl_path := take 1023 optarg\<rparr>))
     else if c = CHR ''h'' then Some None
     else Some (Some a))"

fun server_options :: "(char \<times> string) list \<Rightarrow> server_args \<Rightarrow> server_args option option" where
  "server_options [] a = Some (Some a)"
| "server_options (opt # os) a = (case server_option opt a of
       None \<Rightarrow> None
     | Some None \<Rightarrow> Some None
     | Some (Some a') \<Rightarrow> server_options os a')"

subsection \<open>The protocol tables\<close>

definition server_protocols :: "lws_protocols list" where
  "server_protocols = [
     \<lparr>protocol_name = ''dumb-increment-protocol'', rx_buffer_size = 10\<rparr>,
     \<lparr>protocol_name = ''lws-mirror-protocol'', rx_buffer_size = 128\<rparr>,
     \<lparr>protocol_name = ''lws-status'', rx_buffer_size = 512\<rparr>,
     \<lparr>protocol_name = ''esk-file-protocol'', rx_buffer_size = 20480\<rparr>]"

definition PROTOCOL_DUMB_INCREMENT :: nat where "PROTOCOL_DUMB_INCREMENT = 0"
definition PROTOCOL_FILE_SERVER_SEND :: nat where "PROTOCOL_FILE_SERVER_SEND = 3"

subsection \<open>The certificate paths\<close>

text \<open>sprintf of the resource path and a file name into an array of 1024 characters.\<close>

definition sprintf_path :: "string \<Rightarrow> string \<Rightarrow> string option" where
  "sprintf_path resource leaf = (if length (resource @ leaf) < 1024 then Some (resource @ leaf) else None)"

text \<open>
  The paths of certificate and key: those given by options, or the standard names below the
  resource path.  The inner None is the error that it is too long.
\<close>

definition server_ssl_paths :: "server_args \<Rightarrow> (string \<times> string) option option" where
  "server_ssl_paths a =
     (if length (s_resource_path a) > 1024 - 32 then Some None
      else do {
        cert \<leftarrow> (if s_cert_path a = [] then sprintf_path (s_resource_path a) ''/libwebsockets-test-server.pem''
                 else Some (s_cert_path a));
        if length (s_resource_path a) > 1024 - 32 then Some None
        else do {
          key \<leftarrow> (if s_key_path a = [] then sprintf_path (s_resource_path a) ''/libwebsockets-test-server.key.pem''
                  else Some (s_key_path a));
          Some (Some (cert, key)) } })"

text \<open>The rest of the creation structure that depends on the options.\<close>

record server_info =
  si_iface :: "string option"
  si_port :: int
  si_cert :: "string option"
  si_key :: "string option"
  si_ca :: "string option"
  si_ping :: "16 word"
  si_uid :: int
  si_gid :: int
  si_options :: nat

definition server_info_of :: "server_args \<Rightarrow> (string \<times> string) option \<Rightarrow> server_info" where
  "server_info_of a paths = \<lparr>si_iface = s_iface a, si_port = s_port a,
     si_cert = map_option fst paths, si_key = map_option snd paths,
     si_ca = (if paths \<noteq> None \<and> s_ca_path a \<noteq> [] then Some (s_ca_path a) else None),
     si_ping = word_of_int (s_pp_secs a), si_uid = s_uid a, si_gid = s_gid a,
     si_options = (let opts = s_opts a OR LWS_SERVER_OPTION_VALIDATE_UTF8 OR LWS_SERVER_OPTION_EXPLICIT_VHOSTS OR
         LWS_SERVER_OPTION_DO_SSL_GLOBAL_INIT in
       if s_use_ssl a then opts OR LWS_SERVER_OPTION_REDIRECT_HTTP_TO_HTTPS else opts)\<rparr>"

subsection \<open>The service loop\<close>

text \<open>The clock in milliseconds, cut to an unsigned int.\<close>

definition ms_of :: "int \<times> int \<Rightarrow> u32" where
  "ms_of tv = word_of_int (fst tv * 1000 + snd tv div 1000)"

definition server_provoke :: "(lws_trace \<Rightarrow> int \<times> int) \<Rightarrow> u32 \<Rightarrow> lws_trace \<Rightarrow> u32 \<times> u32 \<times> lws_trace" where
  "server_provoke clk oldms tr = (
     let tr1 = tr @ [Lws_main Gettimeofday]; ms = ms_of (clk tr1);
         (oldms', tr2) = (if ms - oldms > 1 then (ms, tr1 @ [Lws_main (Writable_all PROTOCOL_DUMB_INCREMENT)])
                          else (oldms, tr1)) in
     (ms, oldms', tr2 @ [Lws_main (Writable_all PROTOCOL_FILE_SERVER_SEND)]))"

text \<open>The plain service call, and the poll action of an EXTERNAL_POLL build in its parts.\<close>

fun service_fds :: "lws_oracle \<Rightarrow> nat \<Rightarrow> bool list \<Rightarrow> lws_trace \<Rightarrow> bool \<times> lws_trace" where
  "service_fds orc i [] tr = (True, tr)"
| "service_fds orc i (r # rs) tr =
     (if r then (let tr1 = tr @ [Lws_main (Service_fd (Some i))] in
        if orc tr1 < 0 then (False, tr1) else service_fds orc (Suc i) rs tr1)
      else service_fds orc (Suc i) rs tr)"

partial_function (option) forced_service :: "lws_oracle \<Rightarrow> lws_trace \<Rightarrow> lws_trace option" where
  "forced_service orc tr = (
     let tr1 = tr @ [Lws_main Service_adjust_timeout] in
     if orc tr1 = 0 then forced_service orc (tr1 @ [Lws_main Service_tsi]) else Some tr1)"

text \<open>What a poll action leaves: n for the loop condition (None: goto done), and ms-1sec.\<close>

definition external_poll ::
  "lws_oracle \<Rightarrow> (lws_trace \<Rightarrow> bool list) \<Rightarrow> u32 \<Rightarrow> u32 \<Rightarrow> lws_trace \<Rightarrow> (int option \<times> u32 \<times> lws_trace) option" where
  "external_poll orc revents ms ms_1sec tr = (
     let tr1 = tr @ [Lws_main (Poll 50)]; n = orc tr1 in
     if n < 0 then Some (Some n, ms_1sec, tr1)
     else if n \<noteq> 0 then (case service_fds orc 0 (revents tr1) tr1 of
         (False, tr2) \<Rightarrow> Some (None, ms_1sec, tr2)
       | (True, tr2) \<Rightarrow> do {
           tr3 \<leftarrow> forced_service orc tr2;
           Some (Some (int (length (revents tr1))), ms_1sec, tr3) })
     else if ms - ms_1sec > 1000 then Some (Some 0, ms, tr1 @ [Lws_main (Service_fd None)])
     else Some (Some 0, ms_1sec, tr1))"

partial_function (option) server_loop ::
  "lws_oracle \<Rightarrow> (lws_trace \<Rightarrow> int \<times> int) \<Rightarrow> (lws_trace \<Rightarrow> bool) \<Rightarrow> (lws_trace \<Rightarrow> bool list) \<Rightarrow> bool \<Rightarrow>
   int \<Rightarrow> u32 \<Rightarrow> u32 \<Rightarrow> lws_trace \<Rightarrow> lws_trace option" where
  "server_loop orc clk stop revents ext n oldms ms_1sec tr =
     (if n \<ge> 0 \<and> \<not> stop tr then
        (case server_provoke clk oldms tr of (ms, oldms', tr1) \<Rightarrow>
           if ext then do {
             (n', ms_1sec', tr2) \<leftarrow> external_poll orc revents ms ms_1sec tr1;
             (case n' of
                None \<Rightarrow> Some tr2
              | Some k \<Rightarrow> server_loop orc clk stop revents ext k oldms' ms_1sec' tr2) }
           else (let tr2 = tr1 @ [Lws_main (Service 5)] in
             server_loop orc clk stop revents ext (orc tr2) oldms' ms_1sec tr2))
      else Some tr)"

definition lock_path :: string where "lock_path = ''/tmp/.lwsts-lock''"

text \<open>main; alloc says whether the tables of an EXTERNAL_POLL build could be allocated.\<close>

definition server_main ::
  "lws_oracle \<Rightarrow> (lws_trace \<Rightarrow> int \<times> int) \<Rightarrow> (lws_trace \<Rightarrow> bool) \<Rightarrow> (lws_trace \<Rightarrow> bool list) \<Rightarrow> bool \<Rightarrow> bool \<Rightarrow>
   (char \<times> string) list \<Rightarrow> (int \<times> server_info option \<times> lws_trace) option" where
  "server_main orc clk stop revents ext alloc options = (case server_options options server_defaults of
       None \<Rightarrow> None
     | Some None \<Rightarrow> Some (1, None, [])
     | Some (Some a) \<Rightarrow> (
         let tr0 = (if s_daemonize a then [Lws_main (Daemonize lock_path)] else []) in
         if s_daemonize a \<and> orc tr0 \<noteq> 0 then Some (10, None, tr0)
         else if ext \<and> \<not> alloc then Some (- 1, None, tr0)
         else (case (if s_use_ssl a then map_option (map_option Some) (server_ssl_paths a) else Some (Some None)) of
             None \<Rightarrow> None
           | Some None \<Rightarrow> Some (- 1, None, tr0)
           | Some (Some paths) \<Rightarrow> (
               let info = server_info_of a paths; tr1 = tr0 @ [Lws_main Create_context] in
               if orc tr1 = 0 then Some (- 1, Some info, tr1)
               else let tr2 = tr1 @ [Lws_main Create_vhost] in
                 if orc tr2 = 0 then Some (- 1, Some info, tr2)
                 else do {
                   tr3 \<leftarrow> server_loop orc clk stop revents ext 0 0 0 (tr2 @ [Lws_main Init_client_ssl]);
                   Some (0, Some info, tr3 @ [Lws_main Context_destroy]) }))))"

subsection \<open>The paths fit, up to a length\<close>

text \<open>
  With SSL and no paths given, the check of the resource path is too weak for the key:
  up to 989 characters both standard paths are made, above 992 the server refuses to start,
  and in between the path of the key runs over the end of its array.
\<close>

theorem server_ssl_paths_fit:
  assumes "s_cert_path a = []" "s_key_path a = []"
  shows "server_ssl_paths a =
    (if length (s_resource_path a) \<le> 989
     then Some (Some (s_resource_path a @ ''/libwebsockets-test-server.pem'',
                      s_resource_path a @ ''/libwebsockets-test-server.key.pem''))
     else if length (s_resource_path a) \<le> 992 then None else Some None)"
proof -
  have "length ''/libwebsockets-test-server.pem'' = 30" "length ''/libwebsockets-test-server.key.pem'' = 34"
    by simp_all
  with assms show ?thesis unfolding server_ssl_paths_def sprintf_path_def length_append by simp
qed

theorem server_ssl_paths_fit_witness:
  "server_ssl_paths server_defaults = Some (Some (''/usr/local/share/libwebsockets-test-server/libwebsockets-test-server.pem'',
     ''/usr/local/share/libwebsockets-test-server/libwebsockets-test-server.key.pem'')) \<and>
   server_ssl_paths (server_defaults\<lparr>s_resource_path := replicate 990 (CHR ''r'')\<rparr>) = None"
proof
  show "server_ssl_paths server_defaults = Some (Some (''/usr/local/share/libwebsockets-test-server/libwebsockets-test-server.pem'',
     ''/usr/local/share/libwebsockets-test-server/libwebsockets-test-server.key.pem''))"
    using server_ssl_paths_fit [of server_defaults] by (simp add: server_defaults_def)
  show "server_ssl_paths (server_defaults\<lparr>s_resource_path := replicate 990 (CHR ''r'')\<rparr>) = None"
    by (subst server_ssl_paths_fit) (simp_all add: server_defaults_def)
qed

subsection \<open>The context\<close>

text \<open>The loop adds calls of its own, none of which destroys the context.\<close>

definition destroys :: "lws_trace \<Rightarrow> nat" where
  "destroys tr = length (filter (\<lambda>c. c = Lws_main Context_destroy) tr)"

lemma destroys_append [simp]: "destroys (tr @ tr') = destroys tr + destroys tr'"
  and destroys_Nil [simp]: "destroys [] = 0"
  and destroys_Cons [simp]: "destroys (c # tr) = (if c = Lws_main Context_destroy then Suc (destroys tr) else destroys tr)"
  by (simp_all add: destroys_def)

lemma provoke_destroys: "server_provoke clk oldms tr = (ms, old', tr') \<Longrightarrow> destroys tr' = destroys tr"
  by (auto simp: server_provoke_def Let_def split: if_splits)

lemma service_fds_destroys: "destroys (snd (service_fds orc i rs tr)) = destroys tr"
  by (induction orc i rs tr rule: service_fds.induct) (auto simp: Let_def)

lemma forced_service_destroys:
  assumes "forced_service orc tr = Some tr'"
  shows "destroys tr' = destroys tr"
  by (rule forced_service.raw_induct [where P = "\<lambda>orc tr tr'. destroys tr' = destroys tr", OF _ assms])
    (auto simp: Let_def split: if_splits)

lemma external_poll_destroys:
  "external_poll orc revents ms s tr = Some (n, s', tr') \<Longrightarrow> destroys tr' = destroys tr"
  using service_fds_destroys [of orc 0 "revents (tr @ [Lws_main (Poll 50)])" "tr @ [Lws_main (Poll 50)]"]
  by (auto simp: external_poll_def Let_def bind_Some_iff split: if_splits prod.splits bool.splits dest!: forced_service_destroys)

lemma server_loop_destroys:
  assumes "server_loop orc clk stop revents ext n oldms s tr = Some tr'"
  shows "destroys tr' = destroys tr"
  by (rule server_loop.raw_induct [where
        P = "\<lambda>orc clk stop revents ext n oldms s tr tr'. destroys tr' = destroys tr", OF _ assms])
    (auto simp: Let_def bind_Some_iff split: if_splits prod.splits option.splits
      dest!: provoke_destroys external_poll_destroys)

text \<open>
  A run of the server that returns 0 has destroyed its context exactly once, and a run that
  returns anything else never does: the error exits after the context was created leak it.
\<close>

theorem server_main_context:
  assumes "server_main orc clk stop revents ext alloc options = Some (r, info, tr)"
  shows "destroys tr = (if r = 0 then 1 else 0)"
  using assms
  by (auto simp: server_main_def Let_def bind_Some_iff dest!: server_loop_destroys
      split: option.splits if_splits)

theorem server_main_context_witness:
  "\<exists>info tr. server_main (\<lambda>tr. if tr = [Lws_main Create_context] then 1 else 0) (\<lambda>_. (0, 0)) (\<lambda>_. False) (\<lambda>_. []) False True [] =
     Some (- 1, info, tr) \<and> Lws_main Create_context \<in> set tr \<and> destroys tr = 0"
proof -
  have r: "server_main (\<lambda>tr. if tr = [Lws_main Create_context] then 1 else 0) (\<lambda>_. (0, 0)) (\<lambda>_. False) (\<lambda>_. []) False True [] =
     Some (- 1, Some (server_info_of server_defaults None), [Lws_main Create_context, Lws_main Create_vhost])"
    by (simp add: server_main_def server_defaults_def Let_def)
  from server_main_context [OF r] r show ?thesis by simp
qed

end
