(* ===== verification/Pthreads.thy ===== *)
theory Pthreads
  imports ServerMain
begin

text \<open>
  The threaded test server, test-server-pthreads.c: its options and start-up, the threads it
  creates and joins, and the interleaving of its threads around the lock that protects the
  library's list of connections.  The threads are a step relation; a service thread takes the
  lock through the callback LOCK-POLL around every insertion and deletion (there len, the
  argument care, is 1), as inc/libwebsockets.h documents.
\<close>

subsection \<open>Options\<close>

record pt_args =
  p_threads :: int
  p_opts :: nat
  p_daemonize :: bool
  p_debug_level :: int
  p_use_ssl :: bool
  p_port :: int
  p_iface :: "string option"
  p_close_testing :: bool
  p_resource_path :: string

definition pt_defaults :: pt_args where
  "pt_defaults = \<lparr>p_threads = 1, p_opts = 0, p_daemonize = False, p_debug_level = 7, p_use_ssl = False, p_port = 7681,
     p_iface = None, p_close_testing = False, p_resource_path = ''/usr/local/share/libwebsockets-test-server''\<rparr>"

text \<open>The size of pthread-service.  The comparison with it is one of unsigned numbers.\<close>

definition MAX_THREADS :: nat where "MAX_THREADS = 32"

definition pt_option :: "char \<times> string \<Rightarrow> pt_args \<Rightarrow> pt_args option option" where
  "pt_option opt a = (case opt of (c, optarg) \<Rightarrow>
     if c = CHR ''j'' then do {
       n \<leftarrow> atoi optarg;
       Some (if to_size_t n > int MAX_THREADS then None else Some (a\<lparr>p_threads := n\<rparr>)) }
     else if c = CHR ''e'' then Some (Some (a\<lparr>p_opts := p_opts a OR LWS_SERVER_OPTION_LIBEV\<rparr>))
     else if c = CHR ''D'' then Some (Some (a\<lparr>p_daemonize := True\<rparr>))
     else if c = CHR ''d'' then do { n \<leftarrow> atoi optarg; Some (Some (a\<lparr>p_debug_level := n\<rparr>)) }
     else if c = CHR ''s'' then Some (Some (a\<lparr>p_use_ssl := True\<rparr>))
     else if c = CHR ''a'' then Some (Some (a\<lparr>p_opts := p_opts a OR LWS_SERVER_OPTION_ALLOW_NON_SSL_ON_SSL_PORT\<rparr>))
     else if c = CHR ''p'' then do { n \<leftarrow> atoi optarg; Some (Some (a\<lparr>p_port := n\<rparr>)) }
     else if c = CHR ''i'' then Some (Some (a\<lparr>p_iface := Some (take 127 optarg)\<rparr>))
     else if c = CHR ''c'' then Some (Some (a\<lparr>p_close_testing := True\<rparr>))
     else if c = CHR ''r'' then Some (Some (a\<lparr>p_resource_path := optarg\<rparr>))
     else if c = CHR ''h'' then Some None
     else Some (Some a))"

fun pt_options :: "(char \<times> string) list \<Rightarrow> pt_args \<Rightarrow> pt_args option option" where
  "pt_options [] a = Some (Some a)"
| "pt_options (opt # os) a = (case pt_option opt a of
       None \<Rightarrow> None
     | Some None \<Rightarrow> Some None
     | Some (Some a') \<Rightarrow> pt_options os a')"

definition pt_ssl_paths :: "string \<Rightarrow> (string \<times> string) option option" where
  "pt_ssl_paths r =
     (if length r > 1024 - 32 then Some None
      else do {
        cert \<leftarrow> sprintf_path r ''/libwebsockets-test-server.pem'';
        key \<leftarrow> sprintf_path r ''/libwebsockets-test-server.key.pem'';
        Some (Some (cert, key)) })"

definition pt_protocols :: "lws_protocols list" where
  "pt_protocols = [
     \<lparr>protocol_name = ''http-only'', rx_buffer_size = 0\<rparr>,
     \<lparr>protocol_name = ''dumb-increment-protocol'', rx_buffer_size = 10\<rparr>,
     \<lparr>protocol_name = ''lws-mirror-protocol'', rx_buffer_size = 128\<rparr>,
     \<lparr>protocol_name = ''lws-status'', rx_buffer_size = 512\<rparr>]"

subsection \<open>Starting and joining\<close>

text \<open>
  pthread-service is an array of 32 elements, set by pthread-create only: an element whose thread
  could not be created has no value, and joining it is undefined.
\<close>

fun create_threads :: "lws_oracle \<Rightarrow> nat list \<Rightarrow> lws_trace \<Rightarrow> bool list \<times> lws_trace" where
  "create_threads orc [] tr = ([], tr)"
| "create_threads orc (n # ns) tr = (
     let tr1 = tr @ [Lws_main (Pthread_create (Some n))];
         rest = create_threads orc ns tr1 in
     ((orc tr1 = 0) # fst rest, snd rest))"

definition join_threads :: "bool list \<Rightarrow> lws_trace \<Rightarrow> lws_trace option" where
  "join_threads oks tr =
     (if \<forall>ok \<in> set oks. ok
      then Some (tr @ map (\<lambda>n. Lws_main (Pthread_join (Some n))) (rev [0..<length oks]))
      else None)"

definition pt_run :: "lws_oracle \<Rightarrow> lws_trace \<Rightarrow> lws_trace option" where
  "pt_run orc tr = (
     let tr1 = tr @ [Lws_main (Pthread_create None)] in
     if orc tr1 \<noteq> 0 then Some (tr1 @ [Lws_main Context_destroy])
     else let tr2 = tr1 @ [Lws_main Get_count_threads]; count = orc tr2 in
       if count > int MAX_THREADS then None
       else (case create_threads orc [0..<nat count] tr2 of (oks, tr3) \<Rightarrow> do {
         tr4 \<leftarrow> join_threads oks tr3;
         Some (tr4 @ [Lws_main (Pthread_join None), Lws_main Context_destroy]) }))"

definition pt_main :: "lws_oracle \<Rightarrow> (char \<times> string) list \<Rightarrow> (int \<times> lws_trace) option" where
  "pt_main orc options = (case pt_options options pt_defaults of
       None \<Rightarrow> None
     | Some None \<Rightarrow> Some (1, [])
     | Some (Some a) \<Rightarrow> (
         let tr0 = (if p_daemonize a then [Lws_main (Daemonize lock_path)] else []) in
         if p_daemonize a \<and> orc tr0 \<noteq> 0 then Some (1, tr0)
         else (case (if p_use_ssl a then map_option (map_option Some) (pt_ssl_paths (p_resource_path a)) else Some (Some None)) of
             None \<Rightarrow> None
           | Some None \<Rightarrow> Some (- 1, tr0)
           | Some (Some paths) \<Rightarrow> (
               let tr1 = tr0 @ [Lws_main Create_context] in
               if orc tr1 = 0 then Some (- 1, tr1)
               else let tr2 = tr1 @ [Lws_main Create_vhost] in
                 if orc tr2 = 0 then Some (- 1, tr2)
                 else do { tr3 \<leftarrow> pt_run orc tr2; Some (0, tr3) }))))"

subsection \<open>The threads\<close>

datatype tid = Dumb | Service_thread nat

text \<open>The mutex as the two functions of the file use it: None means that the caller waits.\<close>

definition test_server_lock :: "bool \<Rightarrow> tid \<Rightarrow> tid option \<Rightarrow> tid option option" where
  "test_server_lock care t m = (if care then (if m = None then Some (Some t) else None) else Some m)"

definition test_server_unlock :: "bool \<Rightarrow> tid option \<Rightarrow> tid option" where
  "test_server_unlock care m = (if care then None else m)"

text \<open>Where thread-dumb-increment stands, and what a service thread does to the list.\<close>

datatype dumb_pc = At_check | At_lock | At_call | At_unlock | At_sleep | Exited

record pt_state =
  mutex :: "tid option"
  dumb :: dumb_pc
  changing :: "nat \<Rightarrow> bool"
  exited :: "nat \<Rightarrow> bool"
  exit_flag :: bool
  asked :: nat

definition pt_init :: pt_state where
  "pt_init = \<lparr>mutex = None, dumb = At_check, changing = (\<lambda>_. False), exited = (\<lambda>_. False), exit_flag = False, asked = 0\<rparr>"

text \<open>
  The steps: those of thread-dumb-increment in program order, a service thread inside
  lws-service-tsi that changes the list between LOCK-POLL and UNLOCK-POLL or returns and ends,
  for a failure or for the flag, and the signal.
\<close>

inductive pt_step :: "pt_state \<Rightarrow> pt_state \<Rightarrow> bool" where
  check: "dumb s = At_check \<Longrightarrow> pt_step s (s\<lparr>dumb := if exit_flag s then Exited else At_lock\<rparr>)"
| lock: "dumb s = At_lock \<Longrightarrow> test_server_lock True Dumb (mutex s) = Some m \<Longrightarrow> pt_step s (s\<lparr>mutex := m, dumb := At_call\<rparr>)"
| call: "dumb s = At_call \<Longrightarrow> pt_step s (s\<lparr>asked := Suc (asked s), dumb := At_unlock\<rparr>)"
| unlock: "dumb s = At_unlock \<Longrightarrow> pt_step s (s\<lparr>mutex := test_server_unlock True (mutex s), dumb := At_sleep\<rparr>)"
| sleep: "dumb s = At_sleep \<Longrightarrow> pt_step s (s\<lparr>dumb := At_check\<rparr>)"
| enter: "\<not> exited s n \<Longrightarrow> \<not> changing s n \<Longrightarrow> test_server_lock True (Service_thread n) (mutex s) = Some m \<Longrightarrow>
    pt_step s (s\<lparr>mutex := m, changing := (changing s)(n := True)\<rparr>)"
| leave: "changing s n \<Longrightarrow>
    pt_step s (s\<lparr>mutex := test_server_unlock True (mutex s), changing := (changing s)(n := False)\<rparr>)"
| stop: "exit_flag s \<or> service_failed \<Longrightarrow> \<not> exited s n \<Longrightarrow> \<not> changing s n \<Longrightarrow> pt_step s (s\<lparr>exited := (exited s)(n := True)\<rparr>)"
| signal: "pt_step s (s\<lparr>exit_flag := True\<rparr>)"

inductive pt_reach :: "pt_state \<Rightarrow> bool" where
  start: "pt_reach pt_init"
| step: "pt_reach s \<Longrightarrow> pt_step s s' \<Longrightarrow> pt_reach s'"

inductive_cases pt_stepE: "pt_step s s'"

definition lock_inv :: "pt_state \<Rightarrow> bool" where
  "lock_inv s \<longleftrightarrow> (dumb s \<in> {At_call, At_unlock} \<longleftrightarrow> mutex s = Some Dumb) \<and>
     (\<forall>n. changing s n \<longleftrightarrow> mutex s = Some (Service_thread n))"

lemma lock_inv_step: "lock_inv s \<Longrightarrow> pt_step s s' \<Longrightarrow> lock_inv s'"
  by (erule pt_stepE) (auto simp: lock_inv_def test_server_lock_def test_server_unlock_def split: if_splits)

lemma lock_inv_init: "lock_inv pt_init"
  by (simp add: pt_init_def lock_inv_def)

lemma lock_inv_reach: "pt_reach s \<Longrightarrow> lock_inv s"
  by (induction rule: pt_reach.induct) (rule lock_inv_init, rule lock_inv_step)

text \<open>
  C17: in every interleaving, while the dumb thread asks for writeable callbacks no service
  thread changes the list, and no two service threads change it at once; and whoever waits
  for the lock waits for a thread that can take its next step.
\<close>

theorem wsi_list_exclusive:
  assumes "pt_reach s"
  shows "(dumb s = At_call \<longrightarrow> (\<forall>n. \<not> changing s n)) \<and> (\<forall>m n. changing s m \<longrightarrow> changing s n \<longrightarrow> m = n) \<and>
    (mutex s \<noteq> None \<longrightarrow> (\<exists>s'. pt_step s s' \<and> (mutex s' = None \<or> dumb s = At_call \<and> dumb s' = At_unlock)))"
proof -
  have inv: "lock_inv s" by (rule lock_inv_reach [OF assms])
  have "\<exists>s'. pt_step s s' \<and> (mutex s' = None \<or> dumb s = At_call \<and> dumb s' = At_unlock)" if m: "mutex s = Some t" for t
  proof (cases t)
    case Dumb
    with inv m consider "dumb s = At_call" | "dumb s = At_unlock" by (auto simp: lock_inv_def)
    then show ?thesis
      by cases (fastforce intro: pt_step.call, fastforce intro!: exI pt_step.unlock simp: test_server_unlock_def)
  next
    case (Service_thread n)
    with inv m have "changing s n" by (simp add: lock_inv_def)
    then have "pt_step s (s\<lparr>mutex := test_server_unlock True (mutex s), changing := (changing s)(n := False)\<rparr>)"
      by (rule pt_step.leave)
    then show ?thesis by (intro exI conjI disjI1) (assumption, simp add: test_server_unlock_def)
  qed
  with inv show ?thesis by (auto simp: lock_inv_def)
qed

theorem wsi_list_exclusive_witness:
  "\<exists>s. pt_reach s \<and> dumb s = At_call \<and> (\<forall>n. \<not> changing s n)"
proof -
  have "pt_reach (pt_init\<lparr>dumb := At_lock\<rparr>)"
    using pt_reach.step [OF pt_reach.start pt_step.check [of pt_init]] by (simp add: pt_init_def)
  from pt_reach.step [OF this pt_step.lock [of _ "Some Dumb"]]
  have r: "pt_reach (pt_init\<lparr>dumb := At_call, mutex := Some Dumb\<rparr>)"
    by (simp add: pt_init_def test_server_lock_def)
  moreover have "dumb (pt_init\<lparr>dumb := At_call, mutex := Some Dumb\<rparr>) = At_call" by simp
  ultimately show ?thesis using wsi_list_exclusive [OF r] by blast
qed

subsection \<open>Joining a thread that was never created\<close>

lemma create_threads_oks:
  "fst (create_threads orc ns tr) = [] \<longleftrightarrow> ns = []" "length (fst (create_threads orc ns tr)) = length ns"
  by (induction ns arbitrary: tr) (auto simp: Let_def split: prod.splits)

text \<open>
  A service thread that cannot be created is only logged, and joined all the same: with the
  dumb thread running, the run is defined exactly when every service thread was created.
\<close>

theorem pt_run_joins:
  assumes "tr1 = tr @ [Lws_main (Pthread_create None)]" "orc tr1 = 0"
    and "orc (tr1 @ [Lws_main Get_count_threads]) = int count" "count \<le> MAX_THREADS"
  shows "pt_run orc tr \<noteq> None \<longleftrightarrow>
    (\<forall>ok \<in> set (fst (create_threads orc [0..<count] (tr1 @ [Lws_main Get_count_threads]))). ok)"
  using assms
  by (auto simp: pt_run_def join_threads_def Let_def split: prod.splits)

theorem pt_run_joins_witness:
  "pt_run (\<lambda>tr. if last tr = Lws_main Get_count_threads then 2 else if last tr = Lws_main (Pthread_create (Some 1)) then 11 else 0) [] = None"
proof -
  let ?orc = "\<lambda>tr. if last tr = Lws_main Get_count_threads then 2 else if last tr = Lws_main (Pthread_create (Some 1)) then 11 else 0 :: int"
  have "pt_run ?orc [] \<noteq> None \<longleftrightarrow>
    (\<forall>ok \<in> set (fst (create_threads ?orc [0..<2] ([Lws_main (Pthread_create None)] @ [Lws_main Get_count_threads]))). ok)"
    by (rule pt_run_joins) (simp_all add: MAX_THREADS_def)
  then show ?thesis by (simp add: numeral_eq_Suc)
qed

end
