(* ===== verification/Kmp.thy ===== *)
theory Kmp
  imports Prelude "HOL-Library.Sublist"
begin

text \<open>
  The substring search of inc/uthash/utstring.h, which builds a Knuth-Morris-Pratt table of the
  needle and then walks the haystack without going back in it.  Tables are arrays of long, the
  walks are loops that might not end; they are shown to end and to find the first
  occurrence, against a specification by positions (occurs-at).
\<close>

subsection \<open>The functions\<close>

text \<open>The inner loop of both functions: fall back in the table until the next character fits.\<close>

partial_function (option) kmp_fall :: "byte list \<Rightarrow> int list \<Rightarrow> byte \<Rightarrow> int \<Rightarrow> int option" where
  "kmp_fall N T c k =
     (if k > - 1 then do {
        x \<leftarrow> arr_get N k;
        if x \<noteq> c then do { k' \<leftarrow> arr_get T k; kmp_fall N T c k' } else Some k }
      else Some k)"

partial_function (option) build_loop :: "byte list \<Rightarrow> int \<Rightarrow> int \<Rightarrow> int list \<Rightarrow> int list option" where
  "build_loop N i j T =
     (if i < int (length N) then do {
        c \<leftarrow> arr_get N i;
        j1 \<leftarrow> kmp_fall N T c j;
        let i' = i + 1;
        let j' = j1 + 1;
        t \<leftarrow> (if i' < int (length N) then do {
              x \<leftarrow> arr_get N i';
              y \<leftarrow> arr_get N j';
              if x = y then arr_get T j' else Some j' }
            else Some j');
        T' \<leftarrow> arr_set T i' t;
        build_loop N i' j' T' }
      else Some T)"

definition BuildTable :: "byte list \<Rightarrow> int list \<Rightarrow> int list option" where
  "BuildTable N T = do { T' \<leftarrow> arr_set T 0 (- 1); build_loop N 0 (- 1) T' }"

text \<open>
  The search.  Both lengths are cut to int for the comparisons with j and i; the sum in the second
  condition is one of unsigned longs.
\<close>

partial_function (option) find_loop :: "byte list \<Rightarrow> byte list \<Rightarrow> int list \<Rightarrow> int \<Rightarrow> int \<Rightarrow> int option" where
  "find_loop H N T i j =
     (if j < wrap_int (int (length H)) \<and> to_size_t (int (length H) - j + i) \<ge> int (length N) then do {
        c \<leftarrow> arr_get H j;
        i1 \<leftarrow> kmp_fall N T c i;
        let i' = i1 + 1;
        let j' = j + 1;
        if i' \<ge> wrap_int (int (length N)) then Some (j' - i') else find_loop H N T i' j' }
      else Some (- 1))"

definition kmp_find :: "byte list \<Rightarrow> byte list \<Rightarrow> int list \<Rightarrow> int option" where
  "kmp_find H N T = find_loop H N T 0 0"

subsection \<open>Prefixes that are suffixes\<close>

lemma suffix_take_snoc:
  assumes "m < length N" "n < length X"
  shows "suffix (take (Suc m) N) (take (Suc n) X) \<longleftrightarrow> suffix (take m N) (take n X) \<and> N ! m = X ! n"
  using assms by (auto simp: take_Suc_conv_app_nth)

text \<open>
  T k = t is right: t is the longest border of the first k characters that is followed by
  another character than they are, and -1 when there is none.
\<close>

definition strong :: "byte list \<Rightarrow> nat \<Rightarrow> int \<Rightarrow> bool" where
  "strong N k t \<longleftrightarrow> - 1 \<le> t \<and> t < int k \<and>
     (0 \<le> t \<longrightarrow> suffix (take (nat t) N) (take k N) \<and> N ! nat t \<noteq> N ! k) \<and>
     (\<forall>m. t < int m \<longrightarrow> m < k \<longrightarrow> suffix (take m N) (take k N) \<longrightarrow> N ! m = N ! k)"

text \<open>j is the longest proper border of the first i characters.\<close>

definition weak :: "byte list \<Rightarrow> nat \<Rightarrow> int \<Rightarrow> bool" where
  "weak N i j \<longleftrightarrow> - 1 \<le> j \<and> j < int i \<and> (0 \<le> j \<longrightarrow> suffix (take (nat j) N) (take i N)) \<and>
     (\<forall>m. j < int m \<longrightarrow> m < i \<longrightarrow> \<not> suffix (take m N) (take i N))"

definition table_ok :: "byte list \<Rightarrow> int list \<Rightarrow> nat \<Rightarrow> bool" where
  "table_ok N T n \<longleftrightarrow> length T = Suc (length N) \<and> (\<forall>k \<le> n. k < length N \<longrightarrow> strong N k (T ! k))"

text \<open>What the inner loop finds, for a text X that the first k characters of N end.\<close>

lemma kmp_fall_correct:
  assumes "- 1 \<le> k" "k < int (length N)" "0 \<le> k \<longrightarrow> suffix (take (nat k) N) X" "table_ok N T (nat k)"
  shows "\<exists>r. kmp_fall N T c k = Some r \<and> - 1 \<le> r \<and> r \<le> k \<and>
    (0 \<le> r \<longrightarrow> suffix (take (nat r) N) X \<and> N ! nat r = c) \<and>
    (\<forall>m. r < int m \<longrightarrow> int m \<le> k \<longrightarrow> suffix (take m N) X \<longrightarrow> N ! m \<noteq> c)"
  using assms
proof (induction "nat (k + 1)" arbitrary: k rule: less_induct)
  case less
  show ?case
  proof (cases "k = - 1 \<or> N ! nat k = c")
    case True
    with less.prems show ?thesis by (subst kmp_fall.simps) (auto simp: arr_get_def)
  next
    case False
    define n where "n = nat k"
    have k: "k = int n" "n < length N" using less.prems(1,2) False by (auto simp: n_def)
    let ?t = "T ! n"
    have st: "strong N n ?t" and lT: "length T = Suc (length N)"
      using less.prems(4) k by (auto simp: table_ok_def)
    have fall: "kmp_fall N T c k = kmp_fall N T c ?t"
      using False k lT by (subst kmp_fall.simps) (simp add: arr_get_def)
    have sX: "suffix (take n N) X" using less.prems(3) k by simp
    have tb: "- 1 \<le> ?t" "?t < int n" using st by (auto simp: strong_def)
    have "0 \<le> ?t \<longrightarrow> suffix (take (nat ?t) N) X"
      using st sX suffix_order.trans by (auto simp: strong_def)
    moreover have "table_ok N T (nat ?t)" using less.prems(4) k tb by (auto simp: table_ok_def)
    ultimately obtain r where r: "kmp_fall N T c ?t = Some r" "- 1 \<le> r" "r \<le> ?t"
      "0 \<le> r \<longrightarrow> suffix (take (nat r) N) X \<and> N ! nat r = c"
      "\<forall>m. r < int m \<longrightarrow> int m \<le> ?t \<longrightarrow> suffix (take m N) X \<longrightarrow> N ! m \<noteq> c"
      using less.hyps [of ?t] tb k by auto
    have "N ! m \<noteq> c" if "r < int m" "int m \<le> k" "suffix (take m N) X" for m
    proof (cases "int m \<le> ?t")
      case True
      with r(5) that show ?thesis by blast
    next
      case gt: False
      show ?thesis
      proof (cases "m = n")
        case True
        with False k show ?thesis by simp
      next
        case ne: False
        then have "m < n" using that(2) k by simp
        then have "suffix (take m N) (take n N)"
          using suffix_length_suffix [OF that(3) sX] k by simp
        with st gt \<open>m < n\<close> have "N ! m = N ! n" by (auto simp: strong_def)
        with False k show ?thesis by simp
      qed
    qed
    with r fall tb k show ?thesis by auto
  qed
qed

subsection \<open>Building the table\<close>

lemma weak_max: "weak N i j \<Longrightarrow> m < i \<Longrightarrow> suffix (take m N) (take i N) \<Longrightarrow> int m \<le> j"
  by (metis not_le weak_def)

lemma weak_Suc:
  assumes "weak N i j" "i < length N"
    and r: "- 1 \<le> r" "r \<le> j" "0 \<le> r \<longrightarrow> suffix (take (nat r) N) (take i N) \<and> N ! nat r = N ! i"
      "\<forall>m. r < int m \<longrightarrow> int m \<le> j \<longrightarrow> suffix (take m N) (take i N) \<longrightarrow> N ! m \<noteq> N ! i"
  shows "weak N (Suc i) (r + 1)"
proof -
  have j: "j < int i" using assms(1) by (simp add: weak_def)
  have "suffix (take (nat (r + 1)) N) (take (Suc i) N)"
  proof (cases "r = - 1")
    case False
    then have "nat (r + 1) = Suc (nat r)" using r(1) by auto
    with False r j assms(2) show ?thesis by (simp add: suffix_take_snoc)
  qed simp
  moreover have "\<not> suffix (take m N) (take (Suc i) N)" if "r + 1 < int m" "m < Suc i" for m
  proof
    assume s: "suffix (take m N) (take (Suc i) N)"
    from that(1) r(1) obtain m' where m: "m = Suc m'" by (cases m) auto
    with s that assms(2) have "suffix (take m' N) (take i N)" "N ! m' = N ! i"
      by (simp_all add: suffix_take_snoc)
    moreover have "int m' \<le> j" using weak_max [OF assms(1)] \<open>suffix (take m' N) (take i N)\<close> that m by simp
    ultimately show False using r(4) that(1) m by auto
  qed
  ultimately show ?thesis using r(1,2) j by (auto simp: weak_def)
qed

lemma strong_Suc:
  assumes w: "weak N i (int j)" and i: "i < length N"
  shows "N ! i \<noteq> N ! j \<Longrightarrow> strong N i (int j)"
    and "N ! i = N ! j \<Longrightarrow> strong N j t \<Longrightarrow> strong N i t"
proof -
  have j: "j < i" "suffix (take j N) (take i N)" using w by (auto simp: weak_def)
  have none: "int m \<le> int j" if "m < i" "suffix (take m N) (take i N)" for m
    using weak_max [OF w that] .
  show "N ! i \<noteq> N ! j \<Longrightarrow> strong N i (int j)" using j by (auto simp: strong_def dest!: none)
  assume eq: "N ! i = N ! j" and st: "strong N j t"
  have "N ! m = N ! i" if "t < int m" "m < i" "suffix (take m N) (take i N)" for m
  proof (cases "m = j")
    case False
    with none [OF that(2,3)] have "m < j" by simp
    then have "suffix (take m N) (take j N)"
      using suffix_length_suffix [OF that(3) j(2)] i j(1) by simp
    with st that(1) \<open>m < j\<close> eq show ?thesis by (auto simp: strong_def)
  qed (simp add: eq)
  moreover have "suffix (take (nat t) N) (take i N) \<and> N ! nat t \<noteq> N ! i" if "0 \<le> t"
    using st that eq suffix_order.trans [OF _ j(2)] by (simp add: strong_def)
  ultimately show "strong N i t" using st j(1) unfolding strong_def by simp
qed

lemma build_loop_correct:
  assumes "i \<le> length N" "weak N i j" "table_ok N T i"
  shows "\<exists>T'. build_loop N (int i) j T = Some T' \<and> table_ok N T' (length N)"
  using assms
proof (induction "length N - i" arbitrary: i j T)
  case 0
  then show ?case by (subst build_loop.simps) (auto simp: table_ok_def)
next
  case (Suc n)
  then have i: "i < length N" by simp
  have j: "- 1 \<le> j" "j < int i" "0 \<le> j \<longrightarrow> suffix (take (nat j) N) (take i N)" and lT: "length T = Suc (length N)"
    using Suc.prems by (auto simp: weak_def table_ok_def)
  have "table_ok N T (nat j)" using Suc.prems(3) j(2) by (auto simp: table_ok_def)
  then obtain r where r: "kmp_fall N T (N ! i) j = Some r" "- 1 \<le> r" "r \<le> j"
    "0 \<le> r \<longrightarrow> suffix (take (nat r) N) (take i N) \<and> N ! nat r = N ! i"
    "\<forall>m. r < int m \<longrightarrow> int m \<le> j \<longrightarrow> suffix (take m N) (take i N) \<longrightarrow> N ! m \<noteq> N ! i"
    using kmp_fall_correct [of j N "take i N" T "N ! i"] j i by auto
  define j' where "j' = nat (r + 1)"
  have j': "r + 1 = int j'" "j' \<le> i" using r(2,3) j by (auto simp: j'_def)
  have w: "weak N (Suc i) (int j')" using weak_Suc [OF Suc.prems(2) i r(2-5)] j'(1) by simp
  define t where "t = (if Suc i < length N \<and> N ! Suc i = N ! j' then T ! j' else int j')"
  let ?T = "T[Suc i := t]"
  have "build_loop N (int i) j T = build_loop N (int (Suc i)) (int j') ?T"
    using i r(1) j' lT
    by (subst build_loop.simps) (auto simp: arr_get_def arr_set_def t_def nat_add_distrib add.commute Let_def)
  moreover have "strong N (Suc i) t" if s: "Suc i < length N"
  proof (cases "N ! Suc i = N ! j'")
    case True
    have "strong N j' (T ! j')" using Suc.prems(3) j'(2) i by (auto simp: table_ok_def)
    with strong_Suc(2) [OF w s True] True s show ?thesis by (simp add: t_def)
  next
    case False
    with strong_Suc(1) [OF w s] show ?thesis by (simp add: t_def)
  qed
  then have "table_ok N ?T (Suc i)"
    using Suc.prems(3) by (auto simp: table_ok_def nth_list_update le_Suc_eq)
  ultimately show ?case using Suc.hyps(1) [of "Suc i" "int j'" ?T] Suc.hyps(2) w i by auto
qed

lemma BuildTable_correct:
  assumes "length T = Suc (length N)"
  shows "\<exists>T'. BuildTable N T = Some T' \<and> table_ok N T' (length N)"
proof -
  have "table_ok N (T[0 := - 1]) 0" "weak N 0 (- 1)"
    using assms by (auto simp: table_ok_def strong_def weak_def)
  with build_loop_correct [of 0 N "- 1" "T[0 := - 1]"] assms show ?thesis
    by (simp add: BuildTable_def arr_set_def)
qed

subsection \<open>Searching\<close>

definition occurs_at :: "byte list \<Rightarrow> byte list \<Rightarrow> nat \<Rightarrow> bool" where
  "occurs_at H N p \<longleftrightarrow> p + length N \<le> length H \<and> take (length N) (drop p H) = N"

text \<open>The first position of an occurrence, by trying them in order.\<close>

fun first_from :: "byte list \<Rightarrow> byte list \<Rightarrow> nat list \<Rightarrow> int" where
  "first_from H N [] = - 1"
| "first_from H N (p # ps) = (if occurs_at H N p then int p else first_from H N ps)"

definition naive_find :: "byte list \<Rightarrow> byte list \<Rightarrow> int" where
  "naive_find H N = first_from H N [0..<Suc (length H)]"

lemma first_from_none: "(\<And>p. p \<in> set ps \<Longrightarrow> \<not> occurs_at H N p) \<Longrightarrow> first_from H N ps = - 1"
  by (induction ps) auto

lemma first_from_append:
  "(\<And>p. p \<in> set ps \<Longrightarrow> \<not> occurs_at H N p) \<Longrightarrow> first_from H N (ps @ qs) = first_from H N qs"
  by (induction ps) auto

lemma naive_find_none: "(\<And>p. \<not> occurs_at H N p) \<Longrightarrow> naive_find H N = - 1"
  by (simp add: naive_find_def first_from_none)

lemma naive_find_at:
  assumes "occurs_at H N p" "\<And>q. q < p \<Longrightarrow> \<not> occurs_at H N q"
  shows "naive_find H N = int p"
proof -
  have "p < Suc (length H)" using assms(1) by (simp add: occurs_at_def)
  then have "[0..<Suc (length H)] = [0..<p] @ p # [Suc p..<Suc (length H)]"
    by (metis less_imp_add_positive upt_add_eq_append upt_conv_Cons le0 less_add_same_cancel1 zero_less_Suc add_0)
  moreover have "first_from H N ([0..<p] @ p # [Suc p..<Suc (length H)]) = int p"
    using assms by (subst first_from_append) auto
  ultimately show ?thesis unfolding naive_find_def by simp
qed

lemma occurs_suffix:
  assumes "occurs_at H N p" "m < length N" "j = p + m"
  shows "suffix (take m N) (take j H)" "N ! m = H ! j" "j < length H"
proof -
  have N: "N = take (length N) (drop p H)" and l: "p + length N \<le> length H"
    using assms(1) by (simp_all add: occurs_at_def)
  have "take m N = take m (drop p H)" using assms(2) by (subst N) simp
  moreover have "take j H = take p H @ take m (drop p H)" using assms(3) by (simp add: take_add)
  ultimately show "suffix (take m N) (take j H)" by (simp add: suffix_def)
  have "N ! m = take (length N) (drop p H) ! m" using N by simp
  then show "N ! m = H ! j" using assms(2,3) l by simp
  show "j < length H" using assms l by simp
qed

lemma suffix_occurs:
  assumes "suffix N (take j H)" "j \<le> length H"
  shows "length N \<le> j" "occurs_at H N (j - length N)"
proof -
  from assms obtain X where X: "take j H = X @ N" by (auto simp: suffix_def)
  then have l: "j = length X + length N" using assms(2) by (metis length_append length_take min.absorb2)
  then show "length N \<le> j" by simp
  have "take (length N) (drop (length X) H) = drop (length X) (take j H)"
    using l by (simp add: take_drop add.commute)
  then show "occurs_at H N (j - length N)" using X l assms(2) by (simp add: occurs_at_def)
qed

lemma find_loop_correct:
  assumes ok: "table_ok N T (length N)" and H: "int (length H) \<le> INT_MAX" and N: "int (length N) \<le> INT_MAX"
  assumes "i < length N" "i \<le> j" "j \<le> length H" "suffix (take i N) (take j H)"
    and "\<And>p. p + i < j \<Longrightarrow> \<not> occurs_at H N p"
  shows "find_loop H N T (int i) (int j) = Some (naive_find H N)"
  using assms(4-)
proof (induction "length H - j" arbitrary: i j rule: less_induct)
  case less
  have wH: "wrap_int (int (length H)) = int (length H)" and wP: "wrap_int (int (length N)) = int (length N)"
    using H N by (auto intro!: wrap_int_id simp: is_int_def INT_MIN_def)
  have sz: "to_size_t (int (length H) - int j + int i) = int (length H) - int j + int i"
    using less.prems(1,3) H N by (auto intro!: to_size_t_nonneg simp: INT_MAX_def)
  show ?case
  proof (cases "j < length H \<and> length N \<le> length H - j + i")
    case False
    have "\<not> occurs_at H N p" for p
    proof (cases "p + i < j")
      case False
      with \<open>\<not> (j < length H \<and> length N \<le> length H - j + i)\<close> less.prems(1,3) show ?thesis
        by (auto simp: occurs_at_def)
    qed (rule less.prems(5))
    then show ?thesis using False less.prems(3) wH sz
      by (subst find_loop.simps) (auto simp: naive_find_none)
  next
    case True
    have "table_ok N T (nat (int i))" using ok by (auto simp: table_ok_def)
    then obtain r where r: "kmp_fall N T (H ! j) (int i) = Some r" "- 1 \<le> r" "r \<le> int i"
      "0 \<le> r \<longrightarrow> suffix (take (nat r) N) (take j H) \<and> N ! nat r = H ! j"
      "\<forall>m. r < int m \<longrightarrow> int m \<le> int i \<longrightarrow> suffix (take m N) (take j H) \<longrightarrow> N ! m \<noteq> H ! j"
      using kmp_fall_correct [of "int i" N "take j H" T "H ! j"] less.prems(1,4) by auto
    define i' where "i' = nat (r + 1)"
    have i': "r + 1 = int i'" "i' \<le> Suc i" using r(2,3) by (auto simp: i'_def)
    have suf: "suffix (take i' N) (take (Suc j) H)"
    proof (cases "r = - 1")
      case False
      then have "i' = Suc (nat r)" "nat r < length N" using r(2,3) less.prems(1) by (auto simp: i'_def)
      with False r(2,4) True show ?thesis by (simp add: suffix_take_snoc)
    qed (simp add: i'_def)
    have none: "\<not> occurs_at H N p" if "p + i' < Suc j" for p
    proof (cases "p + i < j")
      case False
      show ?thesis
      proof
        assume o: "occurs_at H N p"
        define m where "m = j - p"
        have m: "j = p + m" "m \<le> i" "r < int m" using that False i'(1) by (auto simp: m_def)
        then show False using occurs_suffix [OF o, of m j] r(5) less.prems(1) by auto
      qed
    qed (rule less.prems(5))
    have step: "find_loop H N T (int i) (int j) =
        (if length N \<le> i' then Some (int (Suc j) - int i') else find_loop H N T (int i') (int (Suc j)))"
      using True r(1) i'(1) wH wP sz by (subst find_loop.simps) (auto simp: arr_get_def Let_def add.commute)
    show ?thesis
    proof (cases "length N \<le> i'")
      case True
      then have e: "i' = length N" using i'(2) less.prems(1) by simp
      with suf have "suffix N (take (Suc j) H)" by simp
      moreover have "Suc j \<le> length H" using \<open>j < length H \<and> _\<close> by simp
      ultimately have "length N \<le> Suc j" "occurs_at H N (Suc j - length N)" using suffix_occurs by blast+
      moreover from this have "naive_find H N = int (Suc j - length N)"
        using none e by (intro naive_find_at) auto
      ultimately show ?thesis using step e by (simp add: of_nat_diff)
    next
      case F: False
      have "find_loop H N T (int i') (int (Suc j)) = Some (naive_find H N)"
        using True F i'(2) less.prems(2) suf none by (intro less.hyps) auto
      with step F show ?thesis by simp
    qed
  qed
qed

text \<open>
  For a needle and a haystack of less than 2^31 bytes the table is built and the search ends,
  and it finds what trying every position finds: the first occurrence, or -1.
\<close>

theorem kmp_find_correct:
  assumes "N \<noteq> []" "int (length N) \<le> INT_MAX" "int (length H) \<le> INT_MAX" "length T = Suc (length N)"
  shows "\<exists>T'. BuildTable N T = Some T' \<and> kmp_find H N T' = Some (naive_find H N)"
proof -
  obtain T' where T': "BuildTable N T = Some T'" "table_ok N T' (length N)"
    using BuildTable_correct [OF assms(4)] by blast
  with find_loop_correct [OF T'(2) assms(3,2), of 0 0] assms(1) show ?thesis
    by (simp add: kmp_find_def)
qed

theorem kmp_find_correct_witness:
  "\<exists>T'. BuildTable [97, 98, 97] [0, 0, 0, 0] = Some T' \<and> kmp_find [97, 98, 98, 97, 98, 97] [97, 98, 97] T' = Some 3"
proof -
  have "naive_find [97, 98, 98, 97, 98, 97] [97, 98, 97] = 3" by code_simp
  with kmp_find_correct [of "[97, 98, 97]" "[97, 98, 98, 97, 98, 97]" "[0, 0, 0, 0]"] show ?thesis
    by (simp add: INT_MAX_def)
qed

subsection \<open>From right to left\<close>

text \<open>The same from the other end: entry i + 1 of the table is about the characters behind i.\<close>

partial_function (option) kmp_fallR :: "int \<Rightarrow> byte list \<Rightarrow> int list \<Rightarrow> byte \<Rightarrow> int \<Rightarrow> int option" where
  "kmp_fallR n N T c k =
     (if k < n then do {
        x \<leftarrow> arr_get N k;
        if x \<noteq> c then do { k' \<leftarrow> arr_get T (k + 1); kmp_fallR n N T c k' } else Some k }
      else Some k)"

partial_function (option) build_loopR :: "byte list \<Rightarrow> int \<Rightarrow> int \<Rightarrow> int list \<Rightarrow> int list option" where
  "build_loopR N i j T =
     (if i \<ge> 0 then do {
        c \<leftarrow> arr_get N i;
        j1 \<leftarrow> kmp_fallR (int (length N)) N T c j;
        let i' = i - 1;
        let j' = j1 - 1;
        t \<leftarrow> (if i' \<ge> 0 then do {
              x \<leftarrow> arr_get N i';
              y \<leftarrow> arr_get N j';
              if x = y then arr_get T (j' + 1) else Some j' }
            else Some j');
        T' \<leftarrow> arr_set T (i' + 1) t;
        build_loopR N i' j' T' }
      else Some T)"

definition BuildTableR :: "byte list \<Rightarrow> int list \<Rightarrow> int list option" where
  "BuildTableR N T = (
     let i = int (length N) - 1; j = i + 1 in do {
       T' \<leftarrow> arr_set T (i + 1) j;
       build_loopR N i j T' })"

partial_function (option) find_loopR :: "byte list \<Rightarrow> byte list \<Rightarrow> int list \<Rightarrow> int \<Rightarrow> int \<Rightarrow> int option" where
  "find_loopR H N T i j =
     (if j \<ge> 0 \<and> j \<ge> i then do {
        c \<leftarrow> arr_get H j;
        i1 \<leftarrow> kmp_fallR (wrap_int (int (length N))) N T c i;
        let i' = i1 - 1;
        let j' = j - 1;
        if i' < 0 then Some (j' + 1) else find_loopR H N T i' j' }
      else Some (- 1))"

definition kmp_findR :: "byte list \<Rightarrow> byte list \<Rightarrow> int list \<Rightarrow> int option" where
  "kmp_findR H N T = find_loopR H N T (int (length N) - 1) (int (length H) - 1)"

text \<open>Both directions do the same on mirrored arrays.\<close>

definition flip :: "nat \<Rightarrow> int \<Rightarrow> int" where
  "flip n k = int n - 1 - k"

definition mirror :: "nat \<Rightarrow> int list \<Rightarrow> int list" where
  "mirror n T = map (flip n) (rev T)"

lemma flip_simps [simp]: "flip n (flip n k) = k" "length (mirror n T) = length T" "mirror n (mirror n T) = T"
  by (simp_all add: flip_def mirror_def rev_map o_def)

lemma arr_get_rev: "arr_get (rev xs) k = arr_get xs (int (length xs) - 1 - k)"
proof (cases "0 \<le> k \<and> k < int (length xs)")
  case True
  then have "length xs - Suc (nat k) = nat (int (length xs) - 1 - k)" by auto
  with True show ?thesis by (auto simp: arr_get_def rev_nth)
qed (auto simp: arr_get_def)

lemma arr_get_map: "arr_get (map f xs) k = map_option f (arr_get xs k)"
  by (auto simp: arr_get_def)

lemma arr_get_mirror:
  "length T = Suc n \<Longrightarrow> arr_get T k = Some t \<Longrightarrow> arr_get (mirror n T) (flip n k + 1) = Some (flip n t)"
  by (simp add: mirror_def arr_get_map arr_get_rev flip_def rev_map [symmetric])

lemma arr_set_mirror:
  assumes "length T = Suc n" "arr_set T k t = Some T'"
  shows "arr_set (mirror n T) (flip n k + 1) (flip n t) = Some (mirror n T')"
proof -
  from assms have k: "0 \<le> k" "k \<le> int n" and T': "T' = T[nat k := t]"
    by (auto simp: arr_set_def split: if_splits)
  have "rev (T[nat k := t]) = (rev T)[n - nat k := t]"
    using rev_update [of "nat k" T t] assms(1) k by auto
  moreover have "nat (flip n k + 1) = n - nat k" using k by (auto simp: flip_def)
  ultimately show ?thesis
    using k assms(1) by (auto simp: arr_set_def mirror_def T' map_update flip_def)
qed

lemma arr_get_flip: "arr_get (rev N) k = Some x \<Longrightarrow> arr_get N (flip (length N) k) = Some x"
  by (simp add: arr_get_rev flip_def)

lemma kmp_fall_mirror:
  assumes "kmp_fall N T c k = Some r" "length T = Suc (length N)"
  shows "kmp_fallR (int (length N)) (rev N) (mirror (length N) T) c (flip (length N) k) = Some (flip (length N) r)"
proof -
  have "length T = Suc (length N) \<longrightarrow>
      kmp_fallR (int (length N)) (rev N) (mirror (length N) T) c (flip (length N) k) = Some (flip (length N) r)"
  proof (rule kmp_fall.raw_induct [where P = "\<lambda>N T c k r. length T = Suc (length N) \<longrightarrow>
      kmp_fallR (int (length N)) (rev N) (mirror (length N) T) c (flip (length N) k) = Some (flip (length N) r)", OF _ assms(1)], intro impI)
    fix f N T c k r
    assume IH: "\<And>N T c k r. f N T c k = Some r \<Longrightarrow> length T = Suc (length N) \<longrightarrow>
        kmp_fallR (int (length N)) (rev N) (mirror (length N) T) c (flip (length N) k) = Some (flip (length N) r)"
      and body: "(if - 1 < k then arr_get N k \<bind> (\<lambda>x. if x \<noteq> c then arr_get T k \<bind> f N T c else Some k) else Some k) = Some r"
      and l: "length T = Suc (length N)"
    show "kmp_fallR (int (length N)) (rev N) (mirror (length N) T) c (flip (length N) k) = Some (flip (length N) r)"
    proof (cases "- 1 < k")
      case False
      with body show ?thesis by (subst kmp_fallR.simps) (simp add: flip_def)
    next
      case True
      with body obtain x where x: "arr_get N k = Some x"
        "(if x \<noteq> c then arr_get T k \<bind> f N T c else Some k) = Some r" by (auto simp: bind_Some_iff)
      have gx: "arr_get (rev N) (flip (length N) k) = Some x" using arr_get_flip [of "rev N" k x] x(1) by simp
      have k: "flip (length N) k < int (length N)" using True by (simp add: flip_def)
      show ?thesis
      proof (cases "x = c")
        case True
        with x(2) gx k show ?thesis by (subst kmp_fallR.simps) simp
      next
        case False
        with x(2) obtain k' where k': "arr_get T k = Some k'" "f N T c k' = Some r" by (auto simp: bind_Some_iff)
        with IH l False gx k arr_get_mirror [OF l k'(1)] show ?thesis
          by (subst kmp_fallR.simps) simp
      qed
    qed
  qed
  with assms(2) show ?thesis by blast
qed

lemma build_loop_mirror:
  assumes "build_loop N i j T = Some T'" "length T = Suc (length N)"
  shows "build_loopR (rev N) (flip (length N) i) (flip (length N) j) (mirror (length N) T) = Some (mirror (length N) T')"
proof -
  let ?P = "\<lambda>N i j T T'. length T = Suc (length N) \<longrightarrow>
    build_loopR (rev N) (flip (length N) i) (flip (length N) j) (mirror (length N) T) = Some (mirror (length N) T')"
  have "?P N i j T T'"
  proof (rule build_loop.raw_induct [where P = ?P, OF _ assms(1)], intro impI)
    fix f N i j T T'
    assume IH: "\<And>N i j T T'. f N i j T = Some T' \<Longrightarrow> ?P N i j T T'"
      and body: "(if i < int (length N) then arr_get N i \<bind> (\<lambda>c. kmp_fall N T c j \<bind> (\<lambda>j1.
          let i' = i + 1; j' = j1 + 1 in (if i' < int (length N) then arr_get N i' \<bind> (\<lambda>x.
            arr_get N j' \<bind> (\<lambda>y. if x = y then arr_get T j' else Some j')) else Some j') \<bind> (\<lambda>t.
          arr_set T i' t \<bind> f N i' j'))) else Some T) = Some T'"
      and l: "length T = Suc (length N)"
    let ?n = "length N"
    show "build_loopR (rev N) (flip ?n i) (flip ?n j) (mirror ?n T) = Some (mirror ?n T')"
    proof (cases "i < int ?n")
      case False
      with body show ?thesis by (subst build_loopR.simps) (simp add: flip_def)
    next
      case True
      with body obtain c j1 t T1 where c: "arr_get N i = Some c" and j1: "kmp_fall N T c j = Some j1"
        and t: "(if i + 1 < int ?n then arr_get N (i + 1) \<bind> (\<lambda>x.
            arr_get N (j1 + 1) \<bind> (\<lambda>y. if x = y then arr_get T (j1 + 1) else Some (j1 + 1))) else Some (j1 + 1)) = Some t"
        and T1: "arr_set T (i + 1) t = Some T1" and rec: "f N (i + 1) (j1 + 1) T1 = Some T'"
        by (auto simp: bind_Some_iff Let_def)
      have c': "arr_get (rev N) (flip ?n i) = Some c" using arr_get_flip [of "rev N" i c] c by simp
      have fl: "flip ?n (k + 1) = flip ?n k - 1" for k by (simp add: flip_def)
      have t': "(if flip ?n i - 1 \<ge> 0 then arr_get (rev N) (flip ?n i - 1) \<bind> (\<lambda>x.
            arr_get (rev N) (flip ?n j1 - 1) \<bind> (\<lambda>y. if x = y then arr_get (mirror ?n T) (flip ?n j1 - 1 + 1)
              else Some (flip ?n j1 - 1))) else Some (flip ?n j1 - 1)) = Some (flip ?n t)"
      proof (cases "i + 1 < int ?n")
        case True
        then obtain x y where x: "arr_get N (i + 1) = Some x" and y: "arr_get N (j1 + 1) = Some y"
          and xy: "(if x = y then arr_get T (j1 + 1) else Some (j1 + 1)) = Some t"
          using t by (auto simp: bind_Some_iff)
        have "arr_get (rev N) (flip ?n i - 1) = Some x" "arr_get (rev N) (flip ?n j1 - 1) = Some y"
          using arr_get_flip [of "rev N" "i + 1" x] arr_get_flip [of "rev N" "j1 + 1" y] x y by (simp_all add: fl)
        moreover have "0 \<le> flip ?n i - 1" using True by (simp add: flip_def)
        moreover have "x = y \<longrightarrow> arr_get (mirror ?n T) (flip ?n j1 - 1 + 1) = Some (flip ?n t)"
          using xy arr_get_mirror [OF l, of "j1 + 1" t] fl [of j1] by (auto split: if_splits)
        ultimately show ?thesis using xy fl [of j1] by (auto split: if_splits)
      next
        case False
        with t show ?thesis by (auto simp: flip_def)
      qed
      have T1': "arr_set (mirror ?n T) (flip ?n i - 1 + 1) (flip ?n t) = Some (mirror ?n T1)"
        using arr_set_mirror [OF l T1] by (simp add: fl)
      have "length T1 = Suc ?n" using T1 l by (auto simp: arr_set_def split: if_splits)
      with IH [OF rec] have "build_loopR (rev N) (flip ?n i - 1) (flip ?n j1 - 1) (mirror ?n T1) = Some (mirror ?n T')"
        by (simp add: fl)
      moreover have "0 \<le> flip ?n i" using True by (simp add: flip_def)
      ultimately show ?thesis using c' kmp_fall_mirror [OF j1 l] t' T1'
        by (subst build_loopR.simps) (simp add: Let_def)
    qed
  qed
  with assms(2) show ?thesis by blast
qed

lemma BuildTableR_mirror:
  assumes "BuildTable N T = Some T'" "length T = Suc (length N)"
  shows "BuildTableR (rev N) (mirror (length N) T) = Some (mirror (length N) T')"
proof -
  let ?n = "length N"
  from assms(1) obtain T1 where T1: "arr_set T 0 (- 1) = Some T1" "build_loop N 0 (- 1) T1 = Some T'"
    by (auto simp: BuildTable_def bind_Some_iff)
  then have "length T1 = Suc ?n" using assms(2) by (auto simp: arr_set_def)
  then show ?thesis using build_loop_mirror [OF T1(2)] arr_set_mirror [OF assms(2) T1(1)]
    by (simp add: BuildTableR_def flip_def Let_def)
qed

lemma kmp_fall_some:
  assumes "table_ok N T (length N)" "- 1 \<le> k" "k < int (length N)"
  obtains r where "kmp_fall N T c k = Some r" "- 1 \<le> r" "r \<le> k"
proof -
  have "table_ok N T (nat k)" using assms by (auto simp: table_ok_def)
  with kmp_fall_correct [of k N "take (nat k) N" T c] assms that show ?thesis by auto
qed

text \<open>Where an occurrence at p is after reversing both.\<close>

definition from_end :: "byte list \<Rightarrow> byte list \<Rightarrow> int \<Rightarrow> int" where
  "from_end H N p = (if p < 0 then - 1 else int (length H) - int (length N) - p)"

lemma find_loop_mirror:
  assumes ok: "table_ok N T (length N)" and H: "int (length H) \<le> INT_MAX" and N: "int (length N) \<le> INT_MAX"
  assumes "i < length N" "i \<le> j" "j \<le> length H"
  shows "find_loopR (rev H) (rev N) (mirror (length N) T) (flip (length N) (int i)) (flip (length H) (int j)) =
    map_option (from_end H N) (find_loop H N T (int i) (int j))"
  using assms(4-)
proof (induction "length H - j" arbitrary: i j rule: less_induct)
  case less
  have wH: "wrap_int (int (length H)) = int (length H)" and wN: "wrap_int (int (length N)) = int (length N)"
    using H N by (auto intro!: wrap_int_id simp: is_int_def INT_MIN_def)
  have sz: "to_size_t (int (length H) - int j + int i) = int (length H) - int j + int i"
    using less.prems H N by (auto intro!: to_size_t_nonneg simp: INT_MAX_def)
  let ?T = "mirror (length N) T" and ?i = "flip (length N) (int i)" and ?j = "flip (length H) (int j)"
  have cond: "?j \<ge> 0 \<and> ?j \<ge> ?i \<longleftrightarrow> j < length H \<and> length N \<le> length H - j + i"
    using less.prems by (auto simp: flip_def)
  have cond2: "int j < wrap_int (int (length H)) \<and> to_size_t (int (length H) - int j + int i) \<ge> int (length N)
      \<longleftrightarrow> j < length H \<and> length N \<le> length H - j + i"
    using less.prems(3) by (auto simp: wH sz)
  show ?case
  proof (cases "j < length H \<and> length N \<le> length H - j + i")
    case False
    then show ?thesis using cond cond2
      by (subst find_loop.simps, subst find_loopR.simps) (auto simp: from_end_def)
  next
    case True
    obtain r where r: "kmp_fall N T (H ! j) (int i) = Some r" "- 1 \<le> r" "r \<le> int i"
      using kmp_fall_some [OF ok, of "int i"] less.prems(1) by auto
    have lT: "length T = Suc (length N)" using ok by (simp add: table_ok_def)
    define i' where "i' = nat (r + 1)"
    have i': "r + 1 = int i'" "i' \<le> Suc i" using r(2,3) by (auto simp: i'_def)
    have L: "find_loop H N T (int i) (int j) =
        (if length N \<le> i' then Some (int (Suc j) - int i') else find_loop H N T (int i') (int (Suc j)))"
      using True r(1) i'(1) wH wN sz by (subst find_loop.simps) (auto simp: arr_get_def Let_def add.commute)
    have g: "arr_get (rev H) ?j = Some (H ! j)" using arr_get_flip [of "rev H" "int j"] True by (simp add: arr_get_def)
    have fi: "flip (length N) r - 1 = flip (length N) (int i')" and fj: "?j - 1 = flip (length H) (int (Suc j))"
      using i'(1) by (auto simp: flip_def)
    have neg: "flip (length N) r < 1 \<longleftrightarrow> length N \<le> i'" using i'(1) by (auto simp: flip_def)
    have ge: "0 \<le> ?j" "?i \<le> ?j" using cond True by blast+
    have R: "find_loopR (rev H) (rev N) ?T ?i ?j =
        (if length N \<le> i' then Some (flip (length H) (int (Suc j)) + 1)
         else find_loopR (rev H) (rev N) ?T (flip (length N) (int i')) (flip (length H) (int (Suc j))))"
      using ge g kmp_fall_mirror [OF r(1) lT] neg fi fj wN
      by (subst find_loopR.simps) (simp add: Let_def)
    show ?thesis
    proof (cases "length N \<le> i'")
      case found: True
      then have e: "i' = length N" "length N = Suc i" using i'(2) less.prems(1) by simp_all
      then show ?thesis using L R less.prems(2) by (simp add: from_end_def flip_def)
    next
      case F: False
      have "length H - Suc j < length H - j" using True by auto
      with F show ?thesis using L R less.hyps [of "Suc j" i'] True i'(2) less.prems(2) by simp
    qed
  qed
qed

text \<open>The last position of an occurrence, by trying them from the end.\<close>

definition naive_findR :: "byte list \<Rightarrow> byte list \<Rightarrow> int" where
  "naive_findR H N = first_from H N (rev [0..<Suc (length H)])"

lemma naive_findR_at:
  assumes "occurs_at H N p" "\<And>q. p < q \<Longrightarrow> \<not> occurs_at H N q"
  shows "naive_findR H N = int p"
proof -
  have "p < Suc (length H)" using assms(1) by (simp add: occurs_at_def)
  then have "[0..<Suc (length H)] = [0..<p] @ p # [Suc p..<Suc (length H)]"
    by (metis less_imp_add_positive upt_add_eq_append upt_conv_Cons le0 less_add_same_cancel1 zero_less_Suc add_0)
  then have "rev [0..<Suc (length H)] = rev [Suc p..<Suc (length H)] @ p # rev [0..<p]" by simp
  moreover have "first_from H N (rev [Suc p..<Suc (length H)] @ p # rev [0..<p]) = int p"
    using assms by (subst first_from_append) auto
  ultimately show ?thesis unfolding naive_findR_def by simp
qed

lemma occurs_at_rev:
  assumes "p + length N \<le> length H"
  shows "occurs_at (rev H) (rev N) p \<longleftrightarrow> occurs_at H N (length H - length N - p)"
proof -
  let ?q = "length H - length N - p"
  have "take (length N) (drop p (rev H)) = rev (take (length N) (drop ?q H))"
    using assms by (simp add: drop_rev take_rev drop_take add.commute)
  then show ?thesis using assms by (auto simp: occurs_at_def)
qed

lemma naive_find_rev: "from_end H N (naive_find (rev H) (rev N)) = naive_findR H N"
proof (cases "\<exists>p. occurs_at (rev H) (rev N) p")
  case True
  define p where "p = (LEAST p. occurs_at (rev H) (rev N) p)"
  have p: "occurs_at (rev H) (rev N) p" "\<And>q. q < p \<Longrightarrow> \<not> occurs_at (rev H) (rev N) q"
    using True not_less_Least by (auto simp: p_def intro: LeastI_ex)
  have le: "p + length N \<le> length H" using p(1) by (simp add: occurs_at_def)
  let ?q = "length H - length N - p"
  have "occurs_at H N ?q" using p(1) occurs_at_rev [OF le] by simp
  moreover have "\<not> occurs_at H N q" if "?q < q" for q
  proof
    assume o: "occurs_at H N q"
    then have q: "q + length N \<le> length H" by (simp add: occurs_at_def)
    then have "length H - length N - q < p" "length H - length N - (length H - length N - q) = q"
      using that le by auto
    with p(2) occurs_at_rev [of "length H - length N - q" N H] q o show False by auto
  qed
  ultimately have "naive_findR H N = int ?q" by (rule naive_findR_at)
  then show ?thesis using naive_find_at [OF p] le by (simp add: from_end_def of_nat_diff)
next
  case False
  have "\<not> occurs_at H N q" for q
  proof
    assume o: "occurs_at H N q"
    then have q: "q + length N \<le> length H" by (simp add: occurs_at_def)
    then have "length H - length N - (length H - length N - q) = q" by auto
    with occurs_at_rev [of "length H - length N - q" N H] q o False show False by auto
  qed
  then show ?thesis using False by (simp add: naive_findR_def naive_find_none first_from_none from_end_def)
qed

lemma kmp_findR_correct:
  assumes "N \<noteq> []" "int (length N) \<le> INT_MAX" "int (length H) \<le> INT_MAX" "length T = Suc (length N)"
  shows "\<exists>T'. BuildTableR N T = Some T' \<and> kmp_findR H N T' = Some (naive_findR H N)"
proof -
  let ?n = "length N"
  obtain T' where T': "BuildTable (rev N) (mirror ?n T) = Some T'" "table_ok (rev N) T' ?n"
    using BuildTable_correct [of "mirror ?n T" "rev N"] assms(4) by auto
  have "kmp_findR H N (mirror ?n T') = map_option (from_end (rev H) (rev N)) (find_loop (rev H) (rev N) T' 0 0)"
    using find_loop_mirror [of "rev N" T' "rev H" 0 0] T'(2) assms(1-3) by (simp add: kmp_findR_def flip_def)
  moreover have "find_loop (rev H) (rev N) T' 0 0 = Some (naive_find (rev H) (rev N))"
    using find_loop_correct [of "rev N" T' "rev H" 0 0] T'(2) assms(1-3) by simp
  moreover have "from_end (rev H) (rev N) x = from_end H N x" for x by (simp add: from_end_def)
  ultimately have "kmp_findR H N (mirror ?n T') = Some (naive_findR H N)"
    using naive_find_rev [of H N] by simp
  moreover have "BuildTableR N T = Some (mirror ?n T')"
    using BuildTableR_mirror [OF T'(1)] assms(4) by simp
  ultimately show ?thesis by blast
qed

end
