(* ===== verification/UtString.thy ===== *)
theory UtString
  imports Kmp
begin

text \<open>
  The strings of inc/uthash/utstring.h: a growing buffer, the operations that append to it and
  the two searches in it.  The results of the allocation functions and of vsnprintf are
  parameters; a run may end in exit, which is the left side of a sum.
\<close>

subsection \<open>Memory\<close>

text \<open>What a char pointer is: NULL, a block that was given back, or a block.\<close>

datatype cblock = Null | Freed | Block "byte list"

text \<open>
  The allocator is asked for a number of bytes and refuses (None) or grants them, with whatever
  they contain.  No allocator grants more than PTRDIFF_MAX bytes.
\<close>

type_synonym allocator = "int \<Rightarrow> (nat \<Rightarrow> byte) option"

definition ptrdiff_limit :: "allocator \<Rightarrow> bool" where
  "ptrdiff_limit A \<longleftrightarrow> (\<forall>m. 2 ^ 63 \<le> m \<longrightarrow> A m = None)"

definition c_realloc :: "allocator \<Rightarrow> byte list \<Rightarrow> int \<Rightarrow> byte list option" where
  "c_realloc A d m = (case A m of
       None \<Rightarrow> None
     | Some f \<Rightarrow> Some (take (nat m) d @ map f [length d..<nat m]))"

text \<open>memcpy of bytes into a block, from position i on.\<close>

definition blit :: "byte list \<Rightarrow> int \<Rightarrow> byte list \<Rightarrow> byte list option" where
  "blit d i bs = (if 0 \<le> i \<and> i + int (length bs) \<le> int (length d)
     then Some (take (nat i) d @ bs @ drop (nat i + length bs) d) else None)"

definition with_block :: "cblock \<Rightarrow> (byte list \<Rightarrow> 'a option) \<Rightarrow> 'a option" where
  "with_block b f = (case b of Block d \<Rightarrow> f d | _ \<Rightarrow> None)"

subsection \<open>The buffer\<close>

record utstring =
  us_d :: cblock
  us_n :: int
  us_i :: int

definition utstring_reserve :: "allocator \<Rightarrow> int \<Rightarrow> utstring \<Rightarrow> (int + utstring) option" where
  "utstring_reserve A amt s =
     (if to_size_t (us_n s - us_i s) < to_size_t amt then
        let m = to_size_t (us_n s + amt);
            grow = (\<lambda>d. case c_realloc A d m of
                None \<Rightarrow> Some (Inl (- 1))
              | Some d' \<Rightarrow> Some (Inr (s\<lparr>us_d := Block d', us_n := m\<rparr>)))
        in (case us_d s of Null \<Rightarrow> grow [] | Freed \<Rightarrow> None | Block d \<Rightarrow> grow d)
      else Some (Inr s))"

text \<open>Storing one character, and copying some, at an index of the buffer.\<close>

definition us_store :: "int \<Rightarrow> byte \<Rightarrow> utstring \<Rightarrow> (int + utstring) option" where
  "us_store k c s = with_block (us_d s) (\<lambda>d. do { d' \<leftarrow> arr_set d k c; Some (Inr (s\<lparr>us_d := Block d'\<rparr>)) })"

definition us_memcpy :: "byte list \<Rightarrow> utstring \<Rightarrow> (int + utstring) option" where
  "us_memcpy bs s = with_block (us_d s) (\<lambda>d. do { d' \<leftarrow> blit d (us_i s) bs; Some (Inr (s\<lparr>us_d := Block d'\<rparr>)) })"

definition utstring_init :: "allocator \<Rightarrow> utstring \<Rightarrow> (int + utstring) option" where
  "utstring_init A s =
     and_then (utstring_reserve A 100 (s\<lparr>us_n := 0, us_i := 0, us_d := Null\<rparr>)) (us_store 0 0)"

definition utstring_done :: "utstring \<Rightarrow> utstring option" where
  "utstring_done s = (case us_d s of
       Null \<Rightarrow> Some (s\<lparr>us_n := 0\<rparr>)
     | Freed \<Rightarrow> None
     | Block d \<Rightarrow> Some (s\<lparr>us_d := Freed, us_n := 0\<rparr>))"

text \<open>
  utstring-new asks calloc for the 24 bytes of the structure; a pointer to one is None for NULL.
  utstring-free leaves no structure behind.
\<close>

definition utstring_new :: "allocator \<Rightarrow> (int + utstring) option" where
  "utstring_new A = (case A 24 of
       None \<Rightarrow> Some (Inl (- 1))
     | Some _ \<Rightarrow> utstring_init A \<lparr>us_d = Null, us_n = 0, us_i = 0\<rparr>)"

definition utstring_free :: "utstring \<Rightarrow> unit option" where
  "utstring_free s = map_option (\<lambda>_. ()) (utstring_done s)"

definition utstring_clear :: "utstring \<Rightarrow> (int + utstring) option" where
  "utstring_clear s = us_store 0 0 (s\<lparr>us_i := 0\<rparr>)"

definition utstring_renew :: "allocator \<Rightarrow> utstring option \<Rightarrow> (int + utstring) option" where
  "utstring_renew A p = (case p of Some s \<Rightarrow> utstring_clear s | None \<Rightarrow> utstring_new A)"

text \<open>The l bytes at b are bs.\<close>

definition utstring_bincpy :: "allocator \<Rightarrow> byte list \<Rightarrow> utstring \<Rightarrow> (int + utstring) option" where
  "utstring_bincpy A bs s = (let l = int (length bs) in
     and_then (utstring_reserve A (to_size_t (l + 1)) s) (\<lambda>s.
     and_then (if l \<noteq> 0 then us_memcpy bs s else Some (Inr s)) (\<lambda>s.
     let s' = s\<lparr>us_i := to_size_t (us_i s + l)\<rparr> in us_store (us_i s') 0 s')))"

text \<open>
  The source of utstring-concat is an expression that is read again at each of its uses; it may
  be the destination itself, so it is a function of the destination's current state.
\<close>

definition us_bytes :: "utstring \<Rightarrow> byte list option" where
  "us_bytes s = with_block (us_d s) (\<lambda>d. if us_i s \<le> int (length d) then Some (take (nat (us_i s)) d) else None)"

definition utstring_concat :: "allocator \<Rightarrow> (utstring \<Rightarrow> utstring) \<Rightarrow> utstring \<Rightarrow> (int + utstring) option" where
  "utstring_concat A src dst =
     and_then (utstring_reserve A (to_size_t (us_i (src dst) + 1)) dst) (\<lambda>dst.
     and_then (if us_i (src dst) \<noteq> 0 then do { bs \<leftarrow> us_bytes (src dst); us_memcpy bs dst } else Some (Inr dst)) (\<lambda>dst.
     let dst' = dst\<lparr>us_i := to_size_t (us_i dst + us_i (src dst))\<rparr> in us_store (us_i dst') 0 dst'))"

text \<open>
  vsnprintf formats the arguments to V, or fails when V is None or too long for an int; it writes
  what fits into the space it is given, and a terminator.
\<close>

definition us_vsnprintf :: "byte list option \<Rightarrow> utstring \<Rightarrow> (int \<times> utstring) option" where
  "us_vsnprintf V s = with_block (us_d s) (\<lambda>d.
     let room = to_size_t (us_n s - us_i s) in
     case V of
       None \<Rightarrow> Some (- 1, s)
     | Some v \<Rightarrow>
         if int (length v) > INT_MAX then Some (- 1, s)
         else if room = 0 then Some (int (length v), s)
         else do {
           d' \<leftarrow> blit d (us_i s) (take (nat room - 1) v @ [0]);
           Some (int (length v), s\<lparr>us_d := Block d'\<rparr>) })"

partial_function (option) utstring_printf_va ::
    "allocator \<Rightarrow> byte list option \<Rightarrow> utstring \<Rightarrow> (int + utstring) option" where
  "utstring_printf_va A V s = do {
     r \<leftarrow> us_vsnprintf V s;
     if fst r > - 1 \<and> fst r < to_size_t (us_n (snd r) - us_i (snd r))
     then Some (Inr ((snd r)\<lparr>us_i := to_size_t (us_i (snd r) + fst r)\<rparr>))
     else do {
       q \<leftarrow> (if fst r > - 1 then do { m \<leftarrow> c_int (fst r + 1); utstring_reserve A m (snd r) }
             else utstring_reserve A (to_size_t (us_n (snd r) * 2)) (snd r));
       case q of Inl c \<Rightarrow> Some (Inl c) | Inr s' \<Rightarrow> utstring_printf_va A V s' } }"

subsection \<open>One search\<close>

definition to_long :: "int \<Rightarrow> int" where
  "to_long n = (n + 2 ^ 63) mod 2 ^ 64 - 2 ^ 63"

text \<open>The table comes from malloc: a block of longs, or none.  Without one nothing is found.\<close>

definition us_start :: "utstring \<Rightarrow> int \<Rightarrow> int" where
  "us_start s start = (if start < 0 then to_long (us_i s + start) else start)"

definition utstring_find :: "int list option \<Rightarrow> utstring \<Rightarrow> int \<Rightarrow> byte list \<Rightarrow> int option" where
  "utstring_find tab s start N = (
     let st = us_start s start;
         hl = to_long (us_i s - st) in
     if hl \<ge> int (length N) \<and> length N > 0 then
       (case tab of
          None \<Rightarrow> Some (- 1)
        | Some T \<Rightarrow> with_block (us_d s) (\<lambda>d.
            if 0 \<le> st \<and> st + hl \<le> int (length d) then do {
              T' \<leftarrow> BuildTable N T;
              p \<leftarrow> kmp_find (take (nat hl) (drop (nat st) d)) N T';
              Some (if p \<ge> 0 then p + st else p) }
            else None))
     else Some (- 1))"

definition utstring_findR :: "int list option \<Rightarrow> utstring \<Rightarrow> int \<Rightarrow> byte list \<Rightarrow> int option" where
  "utstring_findR tab s start N = (
     let st = us_start s start;
         hl = to_long (st + 1) in
     if hl \<ge> int (length N) \<and> length N > 0 then
       (case tab of
          None \<Rightarrow> Some (- 1)
        | Some T \<Rightarrow> with_block (us_d s) (\<lambda>d.
            if hl \<le> int (length d) then do {
              T' \<leftarrow> BuildTableR N T;
              kmp_findR (take (nat hl) d) N T' }
            else None))
     else Some (- 1))"

subsection \<open>What a buffer holds\<close>

text \<open>The block has the size that is written down and room behind the contents.\<close>

definition us_wf :: "utstring \<Rightarrow> bool" where
  "us_wf s \<longleftrightarrow> (case us_d s of Block d \<Rightarrow> us_n s = int (length d) | _ \<Rightarrow> False) \<and>
     0 \<le> us_i s \<and> us_i s < us_n s \<and> us_n s < 2 ^ 63"

definition us_body :: "utstring \<Rightarrow> byte list" where
  "us_body s = (case us_d s of Block d \<Rightarrow> take (nat (us_i s)) d | _ \<Rightarrow> [])"

text \<open>And the contents are followed by a terminator.\<close>

definition us_ok :: "utstring \<Rightarrow> bool" where
  "us_ok s \<longleftrightarrow> us_wf s \<and> (case us_d s of Block d \<Rightarrow> d ! nat (us_i s) = 0 | _ \<Rightarrow> False)"

lemma us_wfE:
  assumes "us_wf s"
  obtains d where "us_d s = Block d" "us_n s = int (length d)" "0 \<le> us_i s" "us_i s < int (length d)"
    "int (length d) < 2 ^ 63" "us_body s = take (nat (us_i s)) d"
  using assms by (auto simp: us_wf_def us_body_def split: cblock.splits)

lemma us_ok_wf: "us_ok s \<Longrightarrow> us_wf s"
  by (simp add: us_ok_def)

lemma us_wf_length: "us_wf s \<Longrightarrow> int (length (us_body s)) = us_i s"
  by (auto simp: us_wf_def us_body_def split: cblock.splits)

lemma us_bytes_body: "us_wf s \<Longrightarrow> us_bytes s = Some (us_body s)"
  by (auto elim!: us_wfE simp: us_bytes_def with_block_def)

text \<open>
  A reservation leaves the contents alone; it exits when the allocator refuses, and asks it for
  less than the contents and twice the room that is wanted.
\<close>

lemma utstring_reserve_spec:
  assumes "us_wf s" "ptrdiff_limit A" "0 \<le> amt" "amt < 2 ^ 63"
  shows "(\<exists>m. 0 \<le> m \<and> m < us_i s + 2 * amt \<and> A m = None \<and> utstring_reserve A amt s = Some (Inl (- 1))) \<or>
    (\<exists>s'. utstring_reserve A amt s = Some (Inr s') \<and> us_wf s' \<and> us_body s' = us_body s \<and>
      us_i s' = us_i s \<and> amt \<le> us_n s' - us_i s')"
proof -
  from assms(1) obtain d where d: "us_d s = Block d" "us_n s = int (length d)" "0 \<le> us_i s" "us_i s < int (length d)"
    "int (length d) < 2 ^ 63" "us_body s = take (nat (us_i s)) d" by (rule us_wfE)
  have sz: "to_size_t (us_n s - us_i s) = us_n s - us_i s" "to_size_t amt = amt"
    using d assms(3,4) by (simp_all add: to_size_t_nonneg)
  have szm: "to_size_t (us_n s + amt) = us_n s + amt" using d assms(3,4) by (simp add: to_size_t_def)
  show ?thesis
  proof (cases "us_n s - us_i s < amt")
    case False
    with assms(1) sz show ?thesis by (simp add: utstring_reserve_def)
  next
    case True
    show ?thesis
    proof (cases "A (us_n s + amt)")
      case None
      with True d sz szm assms(3) show ?thesis
        by (intro disjI1 exI [of _ "us_n s + amt"]) (simp add: utstring_reserve_def c_realloc_def)
    next
      case (Some f)
      then have lim: "us_n s + amt < 2 ^ 63" using assms(2) unfolding ptrdiff_limit_def by (metis not_le option.distinct(1))
      define d' where "d' = take (nat (us_n s + amt)) d @ map f [length d..<nat (us_n s + amt)]"
      have ge: "length d \<le> nat (us_n s + amt)" using d(2) assms(3) by simp
      then have d': "d' = d @ map f [length d..<nat (us_n s + amt)]" "int (length d') = us_n s + amt"
        using d(2) assms(3) by (simp_all add: d'_def)
      have res: "utstring_reserve A amt s = Some (Inr (s\<lparr>us_d := Block d', us_n := us_n s + amt\<rparr>))"
        using True sz szm Some d by (simp add: utstring_reserve_def c_realloc_def d'_def Let_def)
      have "us_wf (s\<lparr>us_d := Block d', us_n := us_n s + amt\<rparr>)"
        using d'(2) d lim assms(3) by (simp add: us_wf_def)
      moreover have "us_body (s\<lparr>us_d := Block d', us_n := us_n s + amt\<rparr>) = us_body s"
        using d d'(1) by (simp add: us_body_def)
      ultimately show ?thesis using res d by simp
    qed
  qed
qed

lemma blit_split:
  assumes "0 \<le> i" "i + int (length bs) < int (length d)"
  obtains d' where "blit d i bs = Some d'" "length d' = length d" "take (nat i + length bs) d' = take (nat i) d @ bs"
proof -
  have "nat i + length bs < length d" using assms by auto
  with that assms show thesis by (simp add: blit_def)
qed

text \<open>The common tail of the appending macros.\<close>

lemma us_append:
  assumes "us_wf s" "int (length bs) < us_n s - us_i s"
  shows "\<exists>s'. and_then (if int (length bs) \<noteq> 0 then us_memcpy bs s else Some (Inr s)) (\<lambda>s.
      let s' = s\<lparr>us_i := to_size_t (us_i s + int (length bs))\<rparr> in us_store (us_i s') 0 s') = Some (Inr s') \<and>
    us_ok s' \<and> us_body s' = us_body s @ bs"
proof -
  from assms(1) obtain d where d: "us_d s = Block d" "us_n s = int (length d)" "0 \<le> us_i s" "us_i s < int (length d)"
    "int (length d) < 2 ^ 63" "us_body s = take (nat (us_i s)) d" by (rule us_wfE)
  have lt: "us_i s + int (length bs) < int (length d)" using assms(2) d(2) by simp
  obtain d' where d': "blit d (us_i s) bs = Some d'" "length d' = length d"
    "take (nat (us_i s) + length bs) d' = take (nat (us_i s)) d @ bs"
    using blit_split [OF d(3) lt] by blast
  have same: "d' = d" if "bs = []" using d'(1) that d by (simp add: blit_def)
  have i: "to_size_t (us_i s + int (length bs)) = us_i s + int (length bs)"
    using d(3,5) lt by (simp add: to_size_t_nonneg)
  have ni: "nat (us_i s + int (length bs)) = nat (us_i s) + length bs" using d(3) by (simp add: nat_add_distrib)
  have st: "arr_set d' (us_i s + int (length bs)) 0 = Some (d'[nat (us_i s) + length bs := 0])"
    using d(3) lt d'(2) ni by (simp add: arr_set_def)
  have "nat (us_i s) + length bs < length d'" using lt d(3) d'(2) by simp
  then show ?thesis using d d' st i ni same lt
    by (auto simp: and_then_def us_memcpy_def us_store_def with_block_def us_ok_def us_wf_def us_body_def Let_def)
qed

subsection \<open>The appending operations\<close>

text \<open>What an append of bs may end in: exit, after a refusal of less than a bound, or the longer string.\<close>

definition us_outcome :: "allocator \<Rightarrow> int \<Rightarrow> byte list \<Rightarrow> (int + utstring) option \<Rightarrow> bool" where
  "us_outcome A b bs r \<longleftrightarrow> (case r of
       None \<Rightarrow> False
     | Some (Inl c) \<Rightarrow> c = - 1 \<and> (\<exists>m. 0 \<le> m \<and> m < b \<and> A m = None)
     | Some (Inr s) \<Rightarrow> us_ok s \<and> us_body s = bs)"

lemma us_outcome_mono: "us_outcome A b bs r \<Longrightarrow> b \<le> b' \<Longrightarrow> us_outcome A b' bs r"
  unfolding us_outcome_def by (auto split: option.splits sum.splits intro: less_le_trans)

lemma utstring_bincpy_outcome:
  assumes "us_wf s" "ptrdiff_limit A" "int (length bs) < 2 ^ 63 - 1"
  shows "us_outcome A (2 * int (length (us_body s @ bs)) + 2) (us_body s @ bs) (utstring_bincpy A bs s)"
proof -
  have l: "to_size_t (int (length bs) + 1) = int (length bs) + 1" using assms(3) by (simp add: to_size_t_nonneg)
  have i: "int (length (us_body s)) = us_i s" "0 \<le> us_i s"
    using us_wf_length [OF assms(1)] assms(1) by (simp_all add: us_wf_def)
  from utstring_reserve_spec [OF assms(1,2), of "int (length bs) + 1"] assms(3)
  consider (out) m where "0 \<le> m" "m < us_i s + 2 * (int (length bs) + 1)" "A m = None"
      "utstring_reserve A (int (length bs) + 1) s = Some (Inl (- 1))"
    | (room) s' where "utstring_reserve A (int (length bs) + 1) s = Some (Inr s')" "us_wf s'" "us_body s' = us_body s"
      "int (length bs) < us_n s' - us_i s'" by auto
  then show ?thesis
  proof cases
    case out
    then show ?thesis using i l
      by (auto simp: us_outcome_def utstring_bincpy_def and_then_def intro!: exI [of _ m])
  next
    case room
    from us_append [OF room(2,4)] room(3) show ?thesis
      by (auto simp: us_outcome_def utstring_bincpy_def and_then_def room(1) l)
  qed
qed

lemma utstring_concat_is_bincpy:
  assumes "us_wf t"
  shows "utstring_concat A (\<lambda>_. t) s = utstring_bincpy A (us_body t) s"
  using us_wf_length [OF assms] us_bytes_body [OF assms]
  by (simp add: utstring_concat_def utstring_bincpy_def Let_def cong: if_cong)

text \<open>A string can be appended to itself.\<close>

lemma us_memcpy_i: "us_memcpy bs s = Some (Inr s') \<Longrightarrow> us_i s' = us_i s"
  by (auto simp: us_memcpy_def with_block_def bind_Some_iff split: cblock.splits)

lemma utstring_concat_self_tail:
  assumes "us_wf s"
  shows "and_then (if us_i s \<noteq> 0 then do { bs \<leftarrow> us_bytes s; us_memcpy bs s } else Some (Inr s)) (\<lambda>d.
      let d' = d\<lparr>us_i := to_size_t (us_i d + us_i d)\<rparr> in us_store (us_i d') 0 d') =
    and_then (if int (length (us_body s)) \<noteq> 0 then us_memcpy (us_body s) s else Some (Inr s)) (\<lambda>d.
      let d' = d\<lparr>us_i := to_size_t (us_i d + int (length (us_body s)))\<rparr> in us_store (us_i d') 0 d')"
  using us_wf_length [OF assms] us_bytes_body [OF assms]
  by (auto simp: and_then_def dest: us_memcpy_i split: option.splits sum.splits cong: if_cong)

lemma utstring_concat_self:
  assumes "us_wf s" "ptrdiff_limit A"
  shows "us_outcome A (2 * int (length (us_body s @ us_body s)) + 2) (us_body s @ us_body s) (utstring_concat A (\<lambda>s. s) s)"
proof -
  have i: "int (length (us_body s)) = us_i s" "0 \<le> us_i s" "us_i s + 1 < 2 ^ 63"
    using us_wf_length [OF assms(1)] assms(1) by (simp_all add: us_wf_def)
  then have l: "to_size_t (us_i s + 1) = us_i s + 1" by (simp add: to_size_t_nonneg)
  from utstring_reserve_spec [OF assms, of "us_i s + 1"] i(2,3)
  consider (out) m where "0 \<le> m" "m < us_i s + 2 * (us_i s + 1)" "A m = None"
      "utstring_reserve A (us_i s + 1) s = Some (Inl (- 1))"
    | (room) s' where "utstring_reserve A (us_i s + 1) s = Some (Inr s')" "us_wf s'" "us_body s' = us_body s"
      "us_i s' = us_i s" "us_i s < us_n s' - us_i s'" by auto
  then show ?thesis
  proof cases
    case out
    then show ?thesis using i l by (auto simp: us_outcome_def utstring_concat_def and_then_def intro!: exI [of _ m])
  next
    case room
    have "utstring_concat A (\<lambda>s. s) s = and_then (Some (Inr s')) (\<lambda>s.
        and_then (if us_i s \<noteq> 0 then do { bs \<leftarrow> us_bytes s; us_memcpy bs s } else Some (Inr s)) (\<lambda>d.
          let d' = d\<lparr>us_i := to_size_t (us_i d + us_i d)\<rparr> in us_store (us_i d') 0 d'))"
      by (simp only: utstring_concat_def l room(1))
    with us_append [OF room(2), of "us_body s'"] utstring_concat_self_tail [OF room(2)] room(3-5) i show ?thesis
      by (auto simp: us_outcome_def and_then_def)
  qed
qed

text \<open>vsnprintf writes the whole text when it fits, and leaves the contents alone when not.\<close>

lemma us_vsnprintf_spec:
  assumes "us_wf s" "int (length v) \<le> INT_MAX"
  obtains s' where "us_vsnprintf (Some v) s = Some (int (length v), s')" "us_wf s'" "us_body s' = us_body s"
    "us_i s' = us_i s" "us_n s' = us_n s"
    "int (length v) < us_n s - us_i s \<Longrightarrow> us_ok (s'\<lparr>us_i := us_i s + int (length v)\<rparr>) \<and>
      us_body (s'\<lparr>us_i := us_i s + int (length v)\<rparr>) = us_body s @ v"
proof -
  from assms(1) obtain d where d: "us_d s = Block d" "us_n s = int (length d)" "0 \<le> us_i s" "us_i s < int (length d)"
    "int (length d) < 2 ^ 63" "us_body s = take (nat (us_i s)) d" by (rule us_wfE)
  define room where "room = us_n s - us_i s"
  define w where "w = take (nat room - 1) v @ [0]"
  have room: "to_size_t (us_n s - us_i s) = room" "0 < room" using d by (simp_all add: room_def to_size_t_nonneg)
  have le: "nat (us_i s) + length w \<le> length d"
    using d room(2) by (auto simp: w_def room_def min_def)
  define d' where "d' = take (nat (us_i s)) d @ w @ drop (nat (us_i s) + length w) d"
  have b: "blit d (us_i s) w = Some d'" and l': "length d' = length d" using le d(3) by (auto simp: blit_def d'_def)
  let ?s = "s\<lparr>us_d := Block d'\<rparr>"
  have "us_vsnprintf (Some v) s = Some (int (length v), ?s)"
    using assms(2) d(1) room b by (simp add: us_vsnprintf_def with_block_def Let_def w_def)
  moreover have "us_wf ?s" "us_body ?s = us_body s" using d l' le by (simp_all add: us_wf_def us_body_def d'_def)
  moreover have "us_ok (?s\<lparr>us_i := us_i s + int (length v)\<rparr>) \<and> us_body (?s\<lparr>us_i := us_i s + int (length v)\<rparr>) = us_body s @ v"
    if lt: "int (length v) < us_n s - us_i s"
  proof -
    have w: "w = v @ [0]" using lt by (simp add: w_def room_def)
    have ni: "nat (us_i s + int (length v)) = nat (us_i s) + length v" using d(3) by (simp add: nat_add_distrib)
    have "d' ! (nat (us_i s) + length v) = 0" "take (nat (us_i s) + length v) d' = take (nat (us_i s)) d @ v"
      using d(3,4) le by (simp_all add: d'_def w nth_append)
    then show ?thesis using d l' lt ni by (simp add: us_ok_def us_wf_def us_body_def)
  qed
  ultimately show thesis using that by simp
qed

lemma utstring_printf_outcome:
  assumes "us_wf s" "ptrdiff_limit A" "int (length v) < INT_MAX"
  shows "us_outcome A (2 * int (length (us_body s @ v)) + 2) (us_body s @ v) (utstring_printf_va A (Some v) s)"
proof -
  have fits: "us_outcome A (2 * int (length (us_body s @ v)) + 2) (us_body s @ v) (utstring_printf_va A (Some v) t)"
    if t: "us_wf t" "us_body t = us_body s" "int (length v) < us_n t - us_i t" for t
  proof -
    from assms(3) have "int (length v) \<le> INT_MAX" by simp
    from us_vsnprintf_spec [OF t(1) this] obtain t' where t': "us_vsnprintf (Some v) t = Some (int (length v), t')"
      "us_wf t'" "us_i t' = us_i t" "us_n t' = us_n t"
      "us_ok (t'\<lparr>us_i := us_i t + int (length v)\<rparr>)" "us_body (t'\<lparr>us_i := us_i t + int (length v)\<rparr>) = us_body s @ v"
      using t(2,3) by metis
    have "0 \<le> us_i t" "us_n t < 2 ^ 63" using t(1) by (simp_all add: us_wf_def)
    then have "to_size_t (us_n t - us_i t) = us_n t - us_i t" "to_size_t (us_i t + int (length v)) = us_i t + int (length v)"
      using t(3) by (simp_all add: to_size_t_nonneg)
    then show ?thesis using t' t(3)
      by (subst utstring_printf_va.simps) (simp add: us_outcome_def)
  qed
  show ?thesis
  proof (cases "int (length v) < us_n s - us_i s")
    case True
    with fits [OF assms(1)] show ?thesis by simp
  next
    case False
    from assms(3) have "int (length v) \<le> INT_MAX" by simp
    from us_vsnprintf_spec [OF assms(1) this] obtain t where t: "us_vsnprintf (Some v) s = Some (int (length v), t)"
      "us_wf t" "us_body t = us_body s" "us_i t = us_i s" "us_n t = us_n s" by metis
    have "us_i s < us_n s" "0 \<le> us_i s" "us_n s < 2 ^ 63" using assms(1) by (simp_all add: us_wf_def)
    then have sz: "to_size_t (us_n s - us_i s) = us_n s - us_i s" by (simp add: to_size_t_nonneg)
    have ci: "c_int (int (length v) + 1) = Some (int (length v) + 1)"
      using assms(3) by (simp add: c_int_def is_int_def INT_MIN_def)
    have step: "utstring_printf_va A (Some v) s = (case utstring_reserve A (int (length v) + 1) t of None \<Rightarrow> None
        | Some (Inl c) \<Rightarrow> Some (Inl c) | Some (Inr s') \<Rightarrow> utstring_printf_va A (Some v) s')"
      using t sz ci False by (subst utstring_printf_va.simps) (simp add: bind_def split: option.split)
    have i: "int (length (us_body s)) = us_i s" using us_wf_length [OF assms(1)] .
    have "int (length v) + 1 < 2 ^ 63" using assms(3) by (simp add: INT_MAX_def)
    then consider (out) m where "0 \<le> m" "m < us_i t + 2 * (int (length v) + 1)" "A m = None"
        "utstring_reserve A (int (length v) + 1) t = Some (Inl (- 1))"
      | (room) s' where "utstring_reserve A (int (length v) + 1) t = Some (Inr s')" "us_wf s'" "us_body s' = us_body t"
        "int (length v) < us_n s' - us_i s'"
      using utstring_reserve_spec [OF t(2) assms(2), of "int (length v) + 1"] by force
    then show ?thesis
    proof cases
      case out
      then show ?thesis using step t(4) i by (auto simp: us_outcome_def intro!: exI [of _ m])
    next
      case room
      with step fits [OF room(2)] t(3) show ?thesis by simp
    qed
  qed
qed

subsection \<open>Runs of operations\<close>

datatype us_op =
    Us_bincpy "byte list"
  | Us_printf "byte list"
  | Us_concat utstring
  | Us_concat_self
  | Us_clear

fun us_exec :: "allocator \<Rightarrow> us_op \<Rightarrow> utstring \<Rightarrow> (int + utstring) option" where
  "us_exec A (Us_bincpy bs) s = utstring_bincpy A bs s"
| "us_exec A (Us_printf v) s = utstring_printf_va A (Some v) s"
| "us_exec A (Us_concat t) s = utstring_concat A (\<lambda>_. t) s"
| "us_exec A Us_concat_self s = utstring_concat A (\<lambda>s. s) s"
| "us_exec A Us_clear s = utstring_renew A (Some s)"

fun us_abs :: "us_op \<Rightarrow> byte list \<Rightarrow> byte list" where
  "us_abs (Us_bincpy bs) x = x @ bs"
| "us_abs (Us_printf v) x = x @ v"
| "us_abs (Us_concat t) x = x @ us_body t"
| "us_abs Us_concat_self x = x @ x"
| "us_abs Us_clear x = []"

text \<open>The pieces fit their length types; another string that is appended is a proper one.\<close>

fun us_fits :: "us_op \<Rightarrow> bool" where
  "us_fits (Us_bincpy bs) \<longleftrightarrow> int (length bs) < 2 ^ 63 - 1"
| "us_fits (Us_printf v) \<longleftrightarrow> int (length v) < INT_MAX"
| "us_fits (Us_concat t) \<longleftrightarrow> us_wf t"
| "us_fits _ \<longleftrightarrow> True"

fun us_run :: "allocator \<Rightarrow> us_op list \<Rightarrow> utstring \<Rightarrow> (int + utstring) option" where
  "us_run A [] s = Some (Inr s)"
| "us_run A (op # ops) s = and_then (us_exec A op s) (us_run A ops)"

lemma utstring_clear_ok:
  assumes "us_wf s"
  obtains s' where "utstring_clear s = Some (Inr s')" "us_ok s'" "us_body s' = []"
proof -
  from assms obtain d where "us_d s = Block d" "us_n s = int (length d)" "0 \<le> us_i s" "us_i s < int (length d)"
    "int (length d) < 2 ^ 63" by (rule us_wfE)
  moreover from this have "d \<noteq> []" by auto
  ultimately show thesis using that
    by (simp add: utstring_clear_def us_store_def with_block_def arr_set_def us_ok_def us_wf_def us_body_def)
qed

lemma us_exec_outcome:
  assumes "us_wf s" "ptrdiff_limit A" "us_fits op"
  shows "us_outcome A (2 * int (length (us_abs op (us_body s))) + 2) (us_abs op (us_body s)) (us_exec A op s)"
proof (cases op)
  case (Us_concat t)
  then have t: "us_wf t" using assms(3) by simp
  then have "int (length (us_body t)) < 2 ^ 63 - 1" using us_wf_length [OF t] by (simp add: us_wf_def)
  with utstring_bincpy_outcome [OF assms(1,2)] show ?thesis
    by (simp add: Us_concat utstring_concat_is_bincpy [OF t])
next
  case Us_clear
  obtain s' where "utstring_clear s = Some (Inr s')" "us_ok s'" "us_body s' = []"
    using utstring_clear_ok [OF assms(1)] .
  then show ?thesis by (simp add: Us_clear utstring_renew_def us_outcome_def)
qed (use utstring_bincpy_outcome [OF assms(1,2)] utstring_printf_outcome [OF assms(1,2)]
  utstring_concat_self [OF assms(1,2)] assms(3) in simp_all)

lemma utstring_init_outcome:
  assumes "ptrdiff_limit A"
  shows "us_outcome A 101 [] (utstring_init A s)"
proof (cases "A 100")
  case None
  then show ?thesis
    by (auto simp: us_outcome_def utstring_init_def and_then_def utstring_reserve_def to_size_t_def c_realloc_def
        Let_def intro!: exI [of _ 100])
next
  case (Some f)
  then show ?thesis
    by (simp add: us_outcome_def utstring_init_def and_then_def utstring_reserve_def to_size_t_def c_realloc_def
        us_store_def with_block_def arr_set_def us_ok_def us_wf_def us_body_def Let_def)
qed

lemma us_run_outcome:
  assumes "ptrdiff_limit A" "\<forall>op \<in> set ops. us_fits op" "us_ok s"
    and "\<forall>k \<le> length ops. int (length (fold us_abs (take k ops) (us_body s))) \<le> L"
  shows "us_outcome A (2 * L + 2) (fold us_abs ops (us_body s)) (us_run A ops s)"
  using assms(2-)
proof (induction ops arbitrary: s)
  case Nil
  then show ?case by (simp add: us_outcome_def)
next
  case (Cons op ops)
  let ?x = "us_abs op (us_body s)"
  have out: "us_outcome A (2 * int (length ?x) + 2) ?x (us_exec A op s)"
    using us_exec_outcome [OF us_ok_wf assms(1)] Cons.prems(1,2) by simp
  have L: "int (length ?x) \<le> L" using Cons.prems(3) by (auto dest!: spec [of _ 1])
  show ?case
  proof (cases "\<exists>s'. us_exec A op s = Some (Inr s')")
    case True
    then obtain s' where s': "us_exec A op s = Some (Inr s')" by blast
    with out have ok: "us_ok s'" "us_body s' = ?x" by (simp_all add: us_outcome_def)
    have "\<forall>k \<le> length ops. int (length (fold us_abs (take k ops) (us_body s'))) \<le> L"
    proof (intro allI impI)
      fix k assume "k \<le> length ops"
      with Cons.prems(3) have "int (length (fold us_abs (take (Suc k) (op # ops)) (us_body s))) \<le> L"
        by (metis Suc_le_mono length_Cons)
      then show "int (length (fold us_abs (take k ops) (us_body s'))) \<le> L" by (simp add: ok(2))
    qed
    with Cons.IH [OF _ ok(1)] Cons.prems(1) s' ok(2) show ?thesis by (simp add: and_then_def)
  next
    case False
    with us_outcome_mono [OF out, of "2 * L + 2"] L show ?thesis
      by (auto simp: us_outcome_def and_then_def split: option.splits sum.splits)
  qed
qed

text \<open>
  C18: a new string on which any operations are run holds what the operations append, behind the
  last clearing, followed by a terminator inside its block; the run never leaves the block and
  always ends.  It exits only when the allocator refuses a request of at most 100 bytes or twice
  what the string ever holds.
\<close>

theorem utstring_run:
  assumes "ptrdiff_limit A" "\<forall>op \<in> set ops. us_fits op"
    and "\<forall>k \<le> length ops. int (length (fold us_abs (take k ops) [])) \<le> L"
  shows "case and_then (utstring_new A) (us_run A ops) of
      None \<Rightarrow> False
    | Some (Inl c) \<Rightarrow> c = - 1 \<and> (\<exists>m. 0 \<le> m \<and> m \<le> 2 * L + 101 \<and> A m = None)
    | Some (Inr s) \<Rightarrow> us_ok s \<and> us_body s = fold us_abs ops []"
proof -
  have L: "0 \<le> L" using assms(3) by (auto dest!: spec [of _ 0])
  show ?thesis
  proof (cases "A 24")
    case None
    with L show ?thesis by (auto simp: utstring_new_def and_then_def intro!: exI [of _ 24])
  next
    case (Some f)
    let ?s = "\<lparr>us_d = Null, us_n = 0, us_i = 0\<rparr>"
    have new: "utstring_new A = utstring_init A ?s" using Some by (simp add: utstring_new_def)
    have out: "us_outcome A 101 [] (utstring_init A ?s)" by (rule utstring_init_outcome [OF assms(1)])
    show ?thesis
    proof (cases "\<exists>s. utstring_init A ?s = Some (Inr s)")
      case True
      then obtain s where s: "utstring_init A ?s = Some (Inr s)" "us_ok s" "us_body s = []"
        using out by (auto simp: us_outcome_def)
      with us_run_outcome [OF assms(1,2) s(2), of L] assms(3)
      have "us_outcome A (2 * L + 2) (fold us_abs ops []) (us_run A ops s)" by simp
      then show ?thesis using L unfolding us_outcome_def new s(1) and_then_def
        by (auto split: option.splits sum.splits)
    next
      case False
      with out L show ?thesis
        by (auto simp: us_outcome_def new and_then_def split: option.splits sum.splits)
    qed
  qed
qed

theorem utstring_run_witness:
  "\<exists>s. and_then (utstring_new (\<lambda>m. if m < 2 ^ 63 then Some (\<lambda>_. 7) else None))
      (us_run (\<lambda>m. if m < 2 ^ 63 then Some (\<lambda>_. 7) else None)
        [Us_bincpy [104, 105], Us_clear, Us_printf [97, 98], Us_concat_self]) = Some (Inr s) \<and>
    us_ok s \<and> us_body s = [97, 98, 97, 98]"
proof -
  let ?A = "\<lambda>m :: int. if m < 2 ^ 63 then Some (\<lambda>_ :: nat. 7 :: byte) else None"
  let ?ops = "[Us_bincpy [104, 105], Us_clear, Us_printf [97, 98], Us_concat_self]"
  have "\<forall>k \<le> length ?ops. int (length (fold us_abs (take k ?ops) [])) \<le> 4"
    by (auto simp: take_Cons split: nat.splits)
  from utstring_run [OF _ _ this, of ?A]
  have "case and_then (utstring_new ?A) (us_run ?A ?ops) of None \<Rightarrow> False
    | Some (Inl c) \<Rightarrow> c = - 1 \<and> (\<exists>m. 0 \<le> m \<and> m \<le> 2 * 4 + 101 \<and> ?A m = None)
    | Some (Inr s) \<Rightarrow> us_ok s \<and> us_body s = fold us_abs ?ops []"
    by (simp add: ptrdiff_limit_def INT_MAX_def)
  then show ?thesis by (auto split: option.splits sum.splits if_splits)
qed

subsection \<open>Searching\<close>

lemma to_long_id: "- (2 ^ 63) \<le> n \<Longrightarrow> n < 2 ^ 63 \<Longrightarrow> to_long n = n"
  by (simp add: to_long_def)

lemma first_from_ge: "- 1 \<le> first_from H N ps"
  by (induction ps) auto

lemma naive_find_neg: "naive_find H N < 0 \<Longrightarrow> naive_find H N = - 1"
  using first_from_ge [of H N "[0..<Suc (length H)]"] by (simp add: naive_find_def)

lemma naive_find_short: "length H < length N \<Longrightarrow> naive_find H N = - 1"
  by (rule naive_find_none) (simp add: occurs_at_def)

lemma naive_findR_short: "length H < length N \<Longrightarrow> naive_findR H N = - 1"
  unfolding naive_findR_def by (rule first_from_none) (simp add: occurs_at_def)

text \<open>The start position counts from the end when it is negative.\<close>

definition us_from :: "utstring \<Rightarrow> int \<Rightarrow> int" where
  "us_from s start = (if start < 0 then us_i s + start else start)"

definition us_find_spec :: "utstring \<Rightarrow> int \<Rightarrow> byte list \<Rightarrow> int" where
  "us_find_spec s start N = (
     let st = us_from s start; p = naive_find (drop (nat st) (us_body s)) N in
     if N = [] \<or> p < 0 then - 1 else p + st)"

definition us_findR_spec :: "utstring \<Rightarrow> int \<Rightarrow> byte list \<Rightarrow> int" where
  "us_findR_spec s start N = (
     if N = [] then - 1 else naive_findR (take (nat (us_from s start + 1)) (us_body s)) N)"

text \<open>
  C19: from a start position in the string, or behind it, utstring-find gives the first
  occurrence of the needle at or after it, as trying every position does, and -1 for none or an
  empty needle.
\<close>

theorem utstring_find_first:
  assumes "us_ok s" "us_i s \<le> INT_MAX" "- us_i s \<le> start" "start < 2 ^ 63" "length T = Suc (length N)"
  shows "utstring_find (Some T) s start N = Some (us_find_spec s start N)"
proof -
  from us_ok_wf [OF assms(1)] obtain d where d: "us_d s = Block d" "us_n s = int (length d)" "0 \<le> us_i s"
    "us_i s < int (length d)" "int (length d) < 2 ^ 63" "us_body s = take (nat (us_i s)) d" by (rule us_wfE)
  define st where "st = us_from s start"
  have st: "us_start s start = st" "0 \<le> st" "to_long (us_i s - st) = us_i s - st"
    using assms(3,4) d by (auto simp: us_start_def us_from_def st_def to_long_id)
  let ?H = "drop (nat st) (us_body s)"
  have lH: "int (length ?H) = max 0 (us_i s - st)" using d st(2) by auto
  show ?thesis
  proof (cases "N \<noteq> [] \<and> int (length N) \<le> us_i s - st")
    case False
    have "naive_find ?H N = - 1" if "N \<noteq> []"
    proof (rule naive_find_short)
      show "length ?H < length N" using that False lH by (cases N) auto
    qed
    then show ?thesis using False st unfolding utstring_find_def us_find_spec_def by (auto simp: st_def [symmetric] Let_def)
  next
    case True
    have "int (length N) \<le> INT_MAX" "int (length ?H) \<le> INT_MAX"
      using True assms(2) d(3) st(2) lH by (auto simp: INT_MAX_def)
    then obtain T' where T': "BuildTable N T = Some T'" "kmp_find ?H N T' = Some (naive_find ?H N)"
      using kmp_find_correct [of N ?H T] True assms(5) by auto
    have H: "take (nat (us_i s - st)) (drop (nat st) d) = ?H"
      using d st(2) True by (simp add: drop_take nat_diff_distrib)
    show ?thesis using True st d T' H
      by (simp add: utstring_find_def us_find_spec_def with_block_def st_def [symmetric] Let_def naive_find_neg)
  qed
qed

theorem utstring_find_first_witness:
  "utstring_find (Some [5, 5, 5]) \<lparr>us_d = Block [97, 98, 97, 98, 0, 9], us_n = 6, us_i = 4\<rparr> (- 3) [97, 98] = Some 2"
proof -
  let ?s = "\<lparr>us_d = Block [97, 98, 97, 98, 0, 9], us_n = 6, us_i = 4\<rparr>"
  have "us_find_spec ?s (- 3) [97, 98] = 2" by code_simp
  with utstring_find_first [of ?s "- 3" "[5, 5, 5]" "[97, 98]"] show ?thesis
    by (simp add: us_ok_def us_wf_def INT_MAX_def)
qed

text \<open>
  From a start position inside the string utstring-findR gives the last occurrence of the
  needle that ends at or before it; from one before the string it finds nothing.
\<close>

theorem utstring_findR_last:
  assumes "us_ok s" "us_i s \<le> INT_MAX" "- (2 ^ 62) \<le> start" "start < us_i s" "length T = Suc (length N)"
  shows "utstring_findR (Some T) s start N = Some (us_findR_spec s start N)"
proof -
  from us_ok_wf [OF assms(1)] obtain d where d: "us_d s = Block d" "us_n s = int (length d)" "0 \<le> us_i s"
    "us_i s < int (length d)" "int (length d) < 2 ^ 63" "us_body s = take (nat (us_i s)) d" by (rule us_wfE)
  define st where "st = us_from s start"
  have lt: "st < us_i s" "- (2 ^ 62) \<le> st" using assms(3,4) d(3) by (auto simp: us_from_def st_def)
  have st: "us_start s start = st" "to_long (st + 1) = st + 1"
    using assms(2-4) lt d(3) by (auto simp: us_start_def us_from_def st_def to_long_id INT_MAX_def)
  let ?H = "take (nat (st + 1)) (us_body s)"
  have lH: "int (length ?H) = max 0 (st + 1)" using d lt(1) by auto
  show ?thesis
  proof (cases "N \<noteq> [] \<and> int (length N) \<le> st + 1")
    case False
    have "naive_findR ?H N = - 1" if "N \<noteq> []"
    proof (rule naive_findR_short)
      show "length ?H < length N" using that False lH by (cases N) auto
    qed
    then show ?thesis using False st unfolding utstring_findR_def us_findR_spec_def by (auto simp: st_def [symmetric] Let_def)
  next
    case True
    have "int (length N) \<le> INT_MAX" "int (length ?H) \<le> INT_MAX"
      using True assms(2) lt(1) lH by (auto simp: INT_MAX_def)
    then obtain T' where T': "BuildTableR N T = Some T'" "kmp_findR ?H N T' = Some (naive_findR ?H N)"
      using kmp_findR_correct [of N ?H T] True assms(5) by auto
    have H: "take (nat (st + 1)) d = ?H" using d(6) lt(1) by (simp add: min_def)
    show ?thesis using True st d(1-5) T' H lt
      by (simp add: utstring_findR_def us_findR_spec_def with_block_def st_def [symmetric] Let_def)
  qed
qed

theorem utstring_findR_last_witness:
  "utstring_findR (Some [5, 5, 5]) \<lparr>us_d = Block [97, 98, 97, 98, 0, 9], us_n = 6, us_i = 4\<rparr> 2 [97, 98] = Some 0"
proof -
  let ?s = "\<lparr>us_d = Block [97, 98, 97, 98, 0, 9], us_n = 6, us_i = 4\<rparr>"
  have "us_findR_spec ?s 2 [97, 98] = 0" by code_simp
  with utstring_findR_last [of ?s 2 "[5, 5, 5]" "[97, 98]"] show ?thesis
    by (simp add: us_ok_def us_wf_def INT_MAX_def)
qed

text \<open>Start positions the two do not check: before the string, and behind its block.\<close>

theorem utstring_find_outside:
  assumes "us_ok s" "us_i s \<le> INT_MAX" "N \<noteq> []" "int (length N) \<le> 2 ^ 32"
  shows "start < - us_i s \<Longrightarrow> - (2 ^ 62) \<le> start \<Longrightarrow> us_i s + int (length N) \<le> - start \<Longrightarrow>
      utstring_find (Some T) s start N = None"
    and "us_n s \<le> start \<Longrightarrow> start < 2 ^ 62 \<Longrightarrow> int (length N) \<le> start \<Longrightarrow>
      utstring_findR (Some T) s start N = None"
proof -
  from us_ok_wf [OF assms(1)] obtain d where d: "us_d s = Block d" "us_n s = int (length d)" "0 \<le> us_i s"
    "us_i s < int (length d)" by (rule us_wfE)
  show "utstring_find (Some T) s start N = None"
    if "start < - us_i s" "- (2 ^ 62) \<le> start" "us_i s + int (length N) \<le> - start"
    using that assms(2,3) d by (simp add: utstring_find_def us_start_def to_long_id INT_MAX_def with_block_def)
  show "utstring_findR (Some T) s start N = None"
    if "us_n s \<le> start" "start < 2 ^ 62" "int (length N) \<le> start"
    using that assms(3) d by (simp add: utstring_findR_def us_start_def to_long_id with_block_def)
qed

subsection \<open>Endings\<close>

text \<open>utstring-done leaves the pointer to the block it frees, so it must not be used on it again.\<close>

theorem utstring_done_twice:
  assumes "us_ok s"
  shows "\<exists>s'. utstring_done s = Some s' \<and> utstring_done s' = None \<and> utstring_clear s' = None \<and>
    (0 < amt \<and> amt < 2 ^ 63 \<and> us_i s = 0 \<longrightarrow> utstring_reserve A amt s' = None)"
proof -
  from us_ok_wf [OF assms] obtain d where "us_d s = Block d" by (rule us_wfE)
  then show ?thesis
    by (simp add: utstring_done_def utstring_clear_def us_store_def with_block_def utstring_reserve_def to_size_t_nonneg)
qed

text \<open>
  When the text cannot be formatted at all utstring-printf asks for three times the space again
  and again until the allocator refuses, and exits.
\<close>

theorem utstring_printf_error_exits:
  assumes "us_wf s" "us_n s < 2 ^ 62" "\<forall>m. 2 ^ 61 \<le> m \<longrightarrow> A m = None"
  shows "utstring_printf_va A None s = Some (Inl (- 1))"
  using assms(1,2)
proof (induction "nat (2 ^ 62 - us_n s)" arbitrary: s rule: less_induct)
  case less
  from less.prems(1) obtain d where d: "us_d s = Block d" "us_n s = int (length d)" "0 \<le> us_i s" "us_i s < int (length d)"
    "int (length d) < 2 ^ 63" "us_body s = take (nat (us_i s)) d" by (rule us_wfE)
  have v: "us_vsnprintf None s = Some (- 1, s)" using d(1) by (simp add: us_vsnprintf_def with_block_def Let_def)
  have n: "0 < us_n s" "us_n s < 2 ^ 62" using d less.prems(2) by auto
  have sz: "to_size_t (us_n s * 2) = us_n s * 2" "to_size_t (us_n s - us_i s) = us_n s - us_i s"
    "to_size_t (3 * us_n s) = us_n s * 3" using d n by (simp_all add: to_size_t_def)
  have lt: "us_n s - us_i s < us_n s * 2" using d(3) n(1) by simp
  have res: "utstring_reserve A (us_n s * 2) s = (case c_realloc A d (us_n s * 3) of None \<Rightarrow> Some (Inl (- 1))
      | Some d' \<Rightarrow> Some (Inr (s\<lparr>us_d := Block d', us_n := us_n s * 3\<rparr>)))"
    using sz lt d(1) by (simp add: utstring_reserve_def Let_def cong: option.case_cong)
  define m where "m = us_n s * 3"
  have step: "utstring_printf_va A None s = (case c_realloc A d m of None \<Rightarrow> Some (Inl (- 1))
      | Some d' \<Rightarrow> utstring_printf_va A None (s\<lparr>us_d := Block d', us_n := m\<rparr>))"
    by (subst utstring_printf_va.simps) (simp add: v sz(1) res m_def split: option.split)
  show ?case
  proof (cases "A m")
    case None
    then show ?thesis using step by (simp add: c_realloc_def)
  next
    case (Some f)
    then have m: "m < 2 ^ 61" using assms(3) by (metis not_le option.distinct(1))
    obtain d' where d': "c_realloc A d m = Some d'" "int (length d') = m"
      using Some d(2) n(1) by (auto simp: c_realloc_def m_def)
    let ?s = "s\<lparr>us_d := Block d', us_n := m\<rparr>"
    have "us_wf ?s" using d'(2) d m by (simp add: us_wf_def m_def)
    then have "utstring_printf_va A None ?s = Some (Inl (- 1))"
      using less.hyps [of ?s] m n(1) by (simp add: m_def)
    with step d'(1) show ?thesis by simp
  qed
qed

theorem utstring_printf_error_exits_witness:
  "utstring_printf_va (\<lambda>m. if m < 2 ^ 61 then Some (\<lambda>_. 7) else None) None \<lparr>us_d = Block [97, 0], us_n = 2, us_i = 1\<rparr> =
    Some (Inl (- 1))"
  using utstring_printf_error_exits [of "\<lparr>us_d = Block [97, 0], us_n = 2, us_i = 1\<rparr>" "\<lambda>m. if m < 2 ^ 61 then Some (\<lambda>_. 7) else None"]
  by (simp add: us_wf_def)

end
