(* ===== verification/DList.thy ===== *)
theory DList
  imports CList
begin

text \<open>
  Doubly linked lists in memory.  dseg nxt prv b p xs e t: from p the next pointers lead
  through xs to e, the previous pointers lead back from each node to the one before it and
  from the first to b, and t is the last node (b when there is none).  A NULL-terminated list
  has b = e = None; the lists of utlist.h whose head points back to the tail have b = t, and
  the circular ones e = p as well.  Shared by the hash table and those lists.
\<close>

primrec dseg :: "('a \<Rightarrow> 'a option option) \<Rightarrow> ('a \<Rightarrow> 'a option option) \<Rightarrow>
    'a option \<Rightarrow> 'a option \<Rightarrow> 'a list \<Rightarrow> 'a option \<Rightarrow> 'a option \<Rightarrow> bool" where
  "dseg nxt prv b p [] e t \<longleftrightarrow> p = e \<and> b = t"
| "dseg nxt prv b p (x # xs) e t \<longleftrightarrow>
     p = Some x \<and> prv x = Some b \<and> (\<exists>q. nxt x = Some q \<and> dseg nxt prv (Some x) q xs e t)"

lemma dseg_append: "dseg nxt prv b p (xs @ ys) e t \<longleftrightarrow> (\<exists>q u. dseg nxt prv b p xs q u \<and> dseg nxt prv u q ys e t)"
  by (induction xs arbitrary: b p) auto

lemma dseg_cong:
  "(\<And>x. x \<in> set xs \<Longrightarrow> nxt x = nxt' x \<and> prv x = prv' x) \<Longrightarrow> dseg nxt prv b p xs e t \<longleftrightarrow> dseg nxt' prv' b p xs e t"
proof (induction xs arbitrary: b p)
  case (Cons x xs)
  then have "\<And>b p. dseg nxt prv b p xs e t \<longleftrightarrow> dseg nxt' prv' b p xs e t" by simp
  moreover have "nxt x = nxt' x" "prv x = prv' x" using Cons.prems by auto
  ultimately show ?case by simp
qed simp

lemma dseg_frame_nxt [simp]: "a \<notin> set xs \<Longrightarrow> dseg (nxt(a := r)) prv b p xs e t \<longleftrightarrow> dseg nxt prv b p xs e t"
  by (rule dseg_cong) auto

lemma dseg_frame_prv [simp]: "a \<notin> set xs \<Longrightarrow> dseg nxt (prv(a := r)) b p xs e t \<longleftrightarrow> dseg nxt prv b p xs e t"
  by (rule dseg_cong) auto

lemma dseg_seg: "dseg nxt prv b p xs e t \<Longrightarrow> seg nxt p xs e"
  by (induction xs arbitrary: b p) auto

lemma dseg_chain: "dseg nxt prv b p xs None t \<Longrightarrow> chain nxt p xs"
  using dseg_seg [of nxt prv b p xs None t] by (simp add: seg_None)

lemma dseg_distinct: "dseg nxt prv b p xs None t \<Longrightarrow> distinct xs"
  by (rule chain_distinct [OF dseg_chain])

lemma dseg_None: "dseg nxt prv b None xs None t \<longleftrightarrow> xs = [] \<and> b = t"
  by (cases xs) auto

lemma dseg_hd: "dseg nxt prv b p xs e t \<Longrightarrow> xs \<noteq> [] \<Longrightarrow> p = Some (hd xs)"
  by (cases xs) auto

lemma dseg_last: "dseg nxt prv b p xs e t \<Longrightarrow> t = (if xs = [] then b else Some (last xs))"
  by (induction xs arbitrary: b p) auto

lemma dseg_mapped: "dseg nxt prv b p xs e t \<Longrightarrow> x \<in> set xs \<Longrightarrow> nxt x \<noteq> None \<and> prv x \<noteq> None"
  by (induction xs arbitrary: b p) auto

text \<open>Redirecting the ends of a segment.\<close>

lemma dseg_set_end:
  "dseg nxt prv b p (xs @ [x]) e t \<Longrightarrow> x \<notin> set xs \<Longrightarrow> dseg (nxt(x \<mapsto> e')) prv b p (xs @ [x]) e' t"
  by (auto simp: dseg_append)

lemma dseg_set_start:
  "dseg nxt prv b p (x # xs) e t \<Longrightarrow> x \<notin> set xs \<Longrightarrow> dseg nxt (prv(x \<mapsto> b')) b' p (x # xs) e t"
  by auto

text \<open>The nodes before and after one.\<close>

definition prev_of :: "'a option \<Rightarrow> 'a list \<Rightarrow> 'a option" where
  "prev_of b xs = (if xs = [] then b else Some (last xs))"

definition next_of :: "'a list \<Rightarrow> 'a option \<Rightarrow> 'a option" where
  "next_of xs e = (if xs = [] then e else Some (hd xs))"

lemma dseg_at:
  assumes "dseg nxt prv b p (xs @ x # ys) e t"
  shows "prv x = Some (prev_of b xs)" "nxt x = Some (next_of ys e)"
    "dseg nxt prv b p xs (Some x) (prev_of b xs)" "dseg nxt prv (Some x) (next_of ys e) ys e t"
proof -
  from assms obtain u q where u: "dseg nxt prv b p xs (Some x) u" and p: "prv x = Some u"
    and q: "nxt x = Some q" "dseg nxt prv (Some x) q ys e t"
    by (auto simp: dseg_append)
  have "u = prev_of b xs" using dseg_last [OF u] by (simp add: prev_of_def)
  moreover have "q = next_of ys e" using q(2) by (cases ys) (auto simp: next_of_def)
  ultimately show "prv x = Some (prev_of b xs)" "nxt x = Some (next_of ys e)"
    "dseg nxt prv b p xs (Some x) (prev_of b xs)" "dseg nxt prv (Some x) (next_of ys e) ys e t"
    using u p q by simp_all
qed

text \<open>Redirecting the last next pointer, or the first previous pointer, of a segment that may be empty.\<close>

definition set_last :: "'a list \<Rightarrow> 'a option \<Rightarrow> ('a \<Rightarrow> 'a option option) \<Rightarrow> 'a \<Rightarrow> 'a option option" where
  "set_last xs q nxt = (if xs = [] then nxt else nxt(last xs \<mapsto> q))"

definition set_first :: "'a list \<Rightarrow> 'a option \<Rightarrow> ('a \<Rightarrow> 'a option option) \<Rightarrow> 'a \<Rightarrow> 'a option option" where
  "set_first xs q prv = (if xs = [] then prv else prv(hd xs \<mapsto> q))"

lemma dseg_set_last:
  assumes "dseg nxt prv b p xs e t" "distinct xs"
  shows "dseg (set_last xs e' nxt) prv b (if xs = [] then e' else p) xs e' t"
proof (cases xs rule: rev_cases)
  case (snoc ys y)
  with assms dseg_set_end [of nxt prv b p ys y e t e'] show ?thesis by (simp add: set_last_def)
qed (use assms in \<open>simp add: set_last_def\<close>)

lemma dseg_set_first:
  assumes "dseg nxt prv b p xs e t" "distinct xs"
  shows "dseg nxt (set_first xs b' prv) b' p xs e (if xs = [] then b' else t)"
  using assms by (cases xs) (auto simp: set_first_def)

lemma dseg_frame_first: "ys \<noteq> [] \<longrightarrow> hd ys \<notin> set xs \<Longrightarrow>
    dseg nxt (set_first ys q prv) b p xs e t \<longleftrightarrow> dseg nxt prv b p xs e t"
  by (cases "ys = []") (simp_all add: set_first_def)

lemma dseg_frame_last: "ys \<noteq> [] \<longrightarrow> last ys \<notin> set xs \<Longrightarrow>
    dseg (set_last ys q nxt) prv b p xs e t \<longleftrightarrow> dseg nxt prv b p xs e t"
  by (cases "ys = []") (simp_all add: set_last_def)

text \<open>Taking a node out.\<close>

lemma dseg_remove:
  assumes d: "dseg nxt prv b p (xs @ x # ys) e t" and "distinct (xs @ x # ys)"
  shows "dseg (set_last xs (next_of ys e) nxt) (set_first ys (prev_of b xs) prv) b
    (if xs = [] then next_of ys e else p) (xs @ ys) e (if ys = [] then prev_of b xs else t)"
proof -
  have l: "dseg (set_last xs (next_of ys e) nxt) prv b (if xs = [] then next_of ys e else p) xs (next_of ys e) (prev_of b xs)"
    using dseg_set_last [OF dseg_at(3) [OF d]] assms(2) by simp
  have r: "dseg nxt (set_first ys (prev_of b xs) prv) (prev_of b xs) (next_of ys e) ys e (if ys = [] then prev_of b xs else t)"
    using dseg_set_first [OF dseg_at(4) [OF d]] assms(2) by simp
  have n1: "ys \<noteq> [] \<longrightarrow> hd ys \<notin> set xs" using assms(2) by (cases ys) auto
  have n2: "xs \<noteq> [] \<longrightarrow> last xs \<notin> set ys" using assms(2) by (cases xs rule: rev_cases) auto
  have "dseg (set_last xs (next_of ys e) nxt) (set_first ys (prev_of b xs) prv) b
      (if xs = [] then next_of ys e else p) xs (next_of ys e) (prev_of b xs)"
    using l by (simp only: dseg_frame_first [OF n1])
  moreover have "dseg (set_last xs (next_of ys e) nxt) (set_first ys (prev_of b xs) prv) (prev_of b xs)
      (next_of ys e) ys e (if ys = [] then prev_of b xs else t)"
    using r by (simp only: dseg_frame_last [OF n2])
  ultimately show ?thesis unfolding dseg_append by blast
qed

text \<open>Putting a node in.\<close>

lemma dseg_insert:
  assumes "dseg nxt prv b p (xs @ ys) e t" and "distinct (xs @ ys)" "x \<notin> set xs" "x \<notin> set ys"
  shows "dseg ((set_last xs (Some x) nxt)(x \<mapsto> next_of ys e)) ((set_first ys (Some x) prv)(x \<mapsto> prev_of b xs)) b
    (if xs = [] then Some x else p) (xs @ x # ys) e (if ys = [] then Some x else t)"
proof -
  from assms(1) obtain q u where d: "dseg nxt prv b p xs q u" "dseg nxt prv u q ys e t" by (auto simp: dseg_append)
  have u: "u = prev_of b xs" using dseg_last [OF d(1)] by (simp add: prev_of_def)
  have q: "q = next_of ys e" using d(2) by (cases ys) (auto simp: next_of_def)
  have n1: "ys \<noteq> [] \<longrightarrow> hd ys \<notin> set xs" using assms(2) by (cases ys) auto
  have n2: "xs \<noteq> [] \<longrightarrow> last xs \<notin> set ys" using assms(2) by (cases xs rule: rev_cases) auto
  have "dseg (set_last xs (Some x) nxt) prv b (if xs = [] then Some x else p) xs (Some x) (prev_of b xs)"
    using dseg_set_last [OF d(1)] assms(2) u by simp
  then have l: "dseg ((set_last xs (Some x) nxt)(x \<mapsto> next_of ys e)) ((set_first ys (Some x) prv)(x \<mapsto> prev_of b xs)) b
      (if xs = [] then Some x else p) xs (Some x) (prev_of b xs)"
    by (simp only: dseg_frame_nxt [OF assms(3)] dseg_frame_prv [OF assms(3)] dseg_frame_first [OF n1])
  have "dseg nxt (set_first ys (Some x) prv) (Some x) (next_of ys e) ys e (if ys = [] then Some x else t)"
    using dseg_set_first [OF d(2)] assms(2) q by simp
  then have r: "dseg ((set_last xs (Some x) nxt)(x \<mapsto> next_of ys e)) ((set_first ys (Some x) prv)(x \<mapsto> prev_of b xs)) (Some x)
      (next_of ys e) ys e (if ys = [] then Some x else t)"
    by (simp only: dseg_frame_nxt [OF assms(4)] dseg_frame_prv [OF assms(4)] dseg_frame_last [OF n2])
  from l r show ?thesis by (auto simp: dseg_append)
qed

text \<open>Putting a node in the place of another.\<close>

lemma dseg_replace:
  assumes "dseg nxt prv b p (xs @ y # ys) e t" and "distinct (xs @ ys)" "x \<notin> set xs" "x \<notin> set ys"
  shows "dseg ((set_last xs (Some x) nxt)(x \<mapsto> next_of ys e)) ((set_first ys (Some x) prv)(x \<mapsto> prev_of b xs)) b
    (if xs = [] then Some x else p) (xs @ x # ys) e (if ys = [] then Some x else t)"
proof -
  note d = dseg_at(3,4) [OF assms(1)]
  have n1: "ys \<noteq> [] \<longrightarrow> hd ys \<notin> set xs" using assms(2) by (cases ys) auto
  have n2: "xs \<noteq> [] \<longrightarrow> last xs \<notin> set ys" using assms(2) by (cases xs rule: rev_cases) auto
  have "dseg (set_last xs (Some x) nxt) prv b (if xs = [] then Some x else p) xs (Some x) (prev_of b xs)"
    using dseg_set_last [OF d(1)] assms(2) by simp
  then have l: "dseg ((set_last xs (Some x) nxt)(x \<mapsto> next_of ys e)) ((set_first ys (Some x) prv)(x \<mapsto> prev_of b xs)) b
      (if xs = [] then Some x else p) xs (Some x) (prev_of b xs)"
    by (simp only: dseg_frame_nxt [OF assms(3)] dseg_frame_prv [OF assms(3)] dseg_frame_first [OF n1])
  have "dseg nxt (set_first ys (Some x) prv) (Some x) (next_of ys e) ys e (if ys = [] then Some x else t)"
    using dseg_set_first [OF d(2)] assms(2) by simp
  then have r: "dseg ((set_last xs (Some x) nxt)(x \<mapsto> next_of ys e)) ((set_first ys (Some x) prv)(x \<mapsto> prev_of b xs)) (Some x)
      (next_of ys e) ys e (if ys = [] then Some x else t)"
    by (simp only: dseg_frame_nxt [OF assms(4)] dseg_frame_prv [OF assms(4)] dseg_frame_last [OF n2])
  from l r show ?thesis by (auto simp: dseg_append)
qed

text \<open>Redirecting the first previous pointer, and the last next pointer, of a list.\<close>

lemma dseg_rebase: "dseg nxt prv b p xs e t \<Longrightarrow> distinct xs \<Longrightarrow> xs \<noteq> [] \<Longrightarrow> dseg nxt (prv(hd xs \<mapsto> b')) b' p xs e t"
  using dseg_set_first [of nxt prv b p xs e t b'] by (simp add: set_first_def)

lemma dseg_reend: "dseg nxt prv b p xs e t \<Longrightarrow> distinct xs \<Longrightarrow> xs \<noteq> [] \<Longrightarrow> dseg (nxt(last xs \<mapsto> e')) prv b p xs e' t"
  using dseg_set_last [of nxt prv b p xs e t e'] by (simp add: set_last_def)

subsection \<open>Rings\<close>

text \<open>A circular list, from its first node; it can be read from any other node of it as well.\<close>

definition ring :: "('a \<Rightarrow> 'a option option) \<Rightarrow> ('a \<Rightarrow> 'a option option) \<Rightarrow> 'a list \<Rightarrow> bool" where
  "ring nxt prv xs \<longleftrightarrow> distinct xs \<and> xs \<noteq> [] \<and>
     dseg nxt prv (Some (last xs)) (Some (hd xs)) xs (Some (hd xs)) (Some (last xs))"

lemma ringI: "distinct xs \<Longrightarrow> xs \<noteq> [] \<Longrightarrow> dseg nxt prv t p xs p t \<Longrightarrow> ring nxt prv xs"
  using dseg_hd [of nxt prv t p xs p t] dseg_last [of nxt prv t p xs p t] by (simp add: ring_def)

lemma ring_rotate: "ring nxt prv (xs @ ys) \<longleftrightarrow> ring nxt prv (ys @ xs)"
proof -
  have "ring nxt prv (ys @ xs)" if r: "ring nxt prv (xs @ ys)" for xs ys
  proof -
    from r obtain b p q u where "dseg nxt prv b p xs q u" "dseg nxt prv u q ys p b"
      unfolding ring_def dseg_append by blast
    then have "dseg nxt prv u q (ys @ xs) q u" unfolding dseg_append by blast
    moreover have "distinct (ys @ xs)" "ys @ xs \<noteq> []" using r by (auto simp: ring_def)
    ultimately show ?thesis by (intro ringI)
  qed
  then show ?thesis by blast
qed

lemma ring_turn: "ring nxt prv (xs @ x # ys) \<longleftrightarrow> ring nxt prv ((ys @ xs) @ [x])"
  using ring_rotate [of nxt prv "xs @ [x]" ys] by simp

lemma ring_distinct: "ring nxt prv xs \<Longrightarrow> distinct xs"
  by (simp add: ring_def)

lemma ring_mapped: "ring nxt prv xs \<Longrightarrow> x \<in> set xs \<Longrightarrow> nxt x \<noteq> None \<and> prv x \<noteq> None"
  unfolding ring_def using dseg_mapped by metis

text \<open>The links of the last node.\<close>

lemma ring_last:
  assumes "ring nxt prv (xs @ [x])"
  shows "nxt x = Some (Some (hd (xs @ [x])))" "prv x = Some (Some (last (x # xs)))"
proof -
  have d: "dseg nxt prv (Some x) (Some (hd (xs @ [x]))) (xs @ [x]) (Some (hd (xs @ [x]))) (Some x)"
    using assms by (simp add: ring_def)
  note at = dseg_at(1,2) [OF d]
  from at show "nxt x = Some (Some (hd (xs @ [x])))" "prv x = Some (Some (last (x # xs)))"
    by (simp_all add: next_of_def prev_of_def)
qed

lemma ring_head:
  assumes "ring nxt prv xs"
  shows "prv (hd xs) = Some (Some (last xs))" "nxt (last xs) = Some (Some (hd xs))"
proof -
  show "prv (hd xs) = Some (Some (last xs))" using assms unfolding ring_def by (cases xs) auto
  show "nxt (last xs) = Some (Some (hd xs))"
    using assms ring_last(1) [of nxt prv "butlast xs" "last xs"] unfolding ring_def by simp
qed

lemma ring_single: "nxt x = Some (Some x) \<Longrightarrow> prv x = Some (Some x) \<Longrightarrow> ring nxt prv [x]"
  by (simp add: ring_def)

lemma ring_add:
  assumes "ring nxt prv xs" "a \<notin> set xs"
  shows "ring (nxt(last xs \<mapsto> Some a, a \<mapsto> Some (hd xs))) (prv(hd xs \<mapsto> Some a, a \<mapsto> Some (last xs))) (xs @ [a])"
proof (rule ringI)
  have d: "dseg nxt prv (Some (last xs)) (Some (hd xs)) (xs @ []) (Some (hd xs)) (Some (last xs))"
    and x: "distinct (xs @ [])" "xs \<noteq> []" "hd xs \<noteq> a"
    using assms by (auto simp: ring_def)
  from x assms(2) show "distinct (xs @ [a])" "xs @ [a] \<noteq> []" by simp_all
  have "dseg (nxt(last xs \<mapsto> Some a, a \<mapsto> Some (hd xs))) ((prv(a \<mapsto> Some (last xs)))(hd (xs @ [a]) \<mapsto> Some a)) (Some a)
      (Some (hd xs)) (xs @ [a]) (Some (hd xs)) (Some a)"
    using dseg_rebase [OF dseg_insert [OF d x(1) assms(2)], of "Some a"] x assms(2)
    by (simp add: set_last_def set_first_def next_of_def prev_of_def)
  moreover have "(prv(a \<mapsto> Some (last xs)))(hd (xs @ [a]) \<mapsto> Some a) = prv(hd xs \<mapsto> Some a, a \<mapsto> Some (last xs))"
    using x(2,3) by (simp add: fun_upd_twist)
  ultimately show "dseg (nxt(last xs \<mapsto> Some a, a \<mapsto> Some (hd xs))) (prv(hd xs \<mapsto> Some a, a \<mapsto> Some (last xs))) (Some a)
      (Some (hd xs)) (xs @ [a]) (Some (hd xs)) (Some a)" by simp
qed

lemma ring_remove:
  assumes "ring nxt prv (xs @ [x])" "xs \<noteq> []"
  shows "ring (nxt(last xs \<mapsto> Some (hd xs))) (prv(hd xs \<mapsto> Some (last xs))) xs"
proof (rule ringI)
  have d: "dseg nxt prv (Some x) (Some (hd xs)) (xs @ [x]) (Some (hd xs)) (Some x)" and x: "distinct (xs @ [x])"
    using assms by (simp_all add: ring_def)
  from x assms(2) show "distinct xs" "xs \<noteq> []" by simp_all
  show "dseg (nxt(last xs \<mapsto> Some (hd xs))) (prv(hd xs \<mapsto> Some (last xs))) (Some (last xs)) (Some (hd xs)) xs
      (Some (hd xs)) (Some (last xs))"
    using dseg_rebase [OF dseg_remove [OF d x], of "Some (last xs)"] x assms(2)
    by (simp add: set_last_def set_first_def next_of_def prev_of_def)
qed

lemma ring_replace:
  assumes "ring nxt prv (xs @ [x])" "xs \<noteq> []" "a \<notin> set xs"
  shows "ring (nxt(last xs \<mapsto> Some a, a \<mapsto> Some (hd xs))) (prv(hd xs \<mapsto> Some a, a \<mapsto> Some (last xs))) (xs @ [a])"
  using ring_add [OF ring_remove [OF assms(1,2)] assms(3)] by simp

end
