(* ===== verification/UtDList.thy ===== *)
theory UtDList
  imports UtList DList
begin

text \<open>
  The doubly linked list macros of inc/uthash/utlist.h: the DL macros, whose lists end at NULL and
  whose head points back to the last node, and the CDL macros for circular lists.  As for the
  singly linked ones, each macro is shown to do to the list of nodes what its counterpart on
  lists does, the two sorts interpret the shared merge sort, and both kinds provide the
  interface node-list.  An assertion that fails is None.
\<close>

subsection \<open>Memory\<close>

record 'a dl_node =
  dl_prev :: "addr option"
  dl_next :: "addr option"
  dl_val :: 'a

type_synonym 'a dl_mem = "addr \<Rightarrow> 'a dl_node option"

definition dl_nx :: "'a dl_mem \<Rightarrow> addr \<Rightarrow> addr option option" where
  "dl_nx mem a = map_option dl_next (mem a)"

definition dl_pv :: "'a dl_mem \<Rightarrow> addr \<Rightarrow> addr option option" where
  "dl_pv mem a = map_option dl_prev (mem a)"

text \<open>(p)->next, (p)->prev and their assignments, where p may be NULL.\<close>

definition get_nx :: "addr option \<Rightarrow> 'a dl_mem \<Rightarrow> addr option option" where
  "get_nx p mem = do { a \<leftarrow> p; dl_nx mem a }"

definition get_pv :: "addr option \<Rightarrow> 'a dl_mem \<Rightarrow> addr option option" where
  "get_pv p mem = do { a \<leftarrow> p; dl_pv mem a }"

definition set_nx :: "addr option \<Rightarrow> addr option \<Rightarrow> 'a dl_mem \<Rightarrow> 'a dl_mem option" where
  "set_nx p q mem = do { a \<leftarrow> p; n \<leftarrow> mem a; Some (mem(a \<mapsto> n\<lparr>dl_next := q\<rparr>)) }"

definition set_pv :: "addr option \<Rightarrow> addr option \<Rightarrow> 'a dl_mem \<Rightarrow> 'a dl_mem option" where
  "set_pv p q mem = do { a \<leftarrow> p; n \<leftarrow> mem a; Some (mem(a \<mapsto> n\<lparr>dl_prev := q\<rparr>)) }"

definition dl_cmp :: "('a \<Rightarrow> 'b \<Rightarrow> int option) \<Rightarrow> addr option \<Rightarrow> 'b \<Rightarrow> 'a dl_mem \<Rightarrow> int option" where
  "dl_cmp cmp p like mem = do { a \<leftarrow> p; n \<leftarrow> mem a; cmp (dl_val n) like }"

subsection \<open>Lists that end at NULL\<close>

definition DL_PREPEND :: "addr option \<Rightarrow> addr \<Rightarrow> 'a dl_mem \<Rightarrow> (addr option \<times> 'a dl_mem) option" where
  "DL_PREPEND head add mem = do {
     mem1 \<leftarrow> set_nx (Some add) head mem;
     mem2 \<leftarrow> (if head \<noteq> None then do {
           p \<leftarrow> get_pv head mem1;
           m \<leftarrow> set_pv (Some add) p mem1;
           set_pv head (Some add) m }
         else set_pv (Some add) (Some add) mem1);
     Some (Some add, mem2) }"

definition DL_APPEND :: "addr option \<Rightarrow> addr \<Rightarrow> 'a dl_mem \<Rightarrow> (addr option \<times> 'a dl_mem) option" where
  "DL_APPEND head add mem =
     (if head \<noteq> None then do {
        p \<leftarrow> get_pv head mem;
        mem1 \<leftarrow> set_pv (Some add) p mem;
        q \<leftarrow> get_pv head mem1;
        mem2 \<leftarrow> set_nx q (Some add) mem1;
        mem3 \<leftarrow> set_pv head (Some add) mem2;
        mem4 \<leftarrow> set_nx (Some add) None mem3;
        Some (head, mem4) }
      else do {
        mem1 \<leftarrow> set_pv (Some add) (Some add) mem;
        mem2 \<leftarrow> set_nx (Some add) None mem1;
        Some (Some add, mem2) })"

definition DL_CONCAT :: "addr option \<Rightarrow> addr option \<Rightarrow> 'a dl_mem \<Rightarrow> (addr option \<times> 'a dl_mem) option" where
  "DL_CONCAT head1 head2 mem =
     (if head2 \<noteq> None then
        (if head1 \<noteq> None then do {
           tmp \<leftarrow> get_pv head2 mem;
           p \<leftarrow> get_pv head1 mem;
           mem1 \<leftarrow> set_pv head2 p mem;
           q \<leftarrow> get_pv head1 mem1;
           mem2 \<leftarrow> set_nx q head2 mem1;
           mem3 \<leftarrow> set_pv head1 tmp mem2;
           Some (head1, mem3) }
         else Some (head2, mem))
      else Some (head1, mem))"

definition DL_DELETE :: "addr option \<Rightarrow> addr \<Rightarrow> 'a dl_mem \<Rightarrow> (addr option \<times> 'a dl_mem) option" where
  "DL_DELETE head del mem =
     (if head = None then None
      else do {
        p \<leftarrow> get_pv (Some del) mem;
        if p = None then None
        else if p = Some del then Some (None, mem)
        else if Some del = head then do {
          q \<leftarrow> get_nx (Some del) mem;
          mem1 \<leftarrow> set_pv q p mem;
          h \<leftarrow> get_nx (Some del) mem1;
          Some (h, mem1) }
        else do {
          q \<leftarrow> get_nx (Some del) mem;
          mem1 \<leftarrow> set_nx p q mem;
          q' \<leftarrow> get_nx (Some del) mem1;
          p' \<leftarrow> get_pv (Some del) mem1;
          mem2 \<leftarrow> (if q' \<noteq> None then set_pv q' p' mem1 else set_pv head p' mem1);
          Some (head, mem2) } })"

definition DL_REPLACE_ELEM ::
    "addr option \<Rightarrow> addr option \<Rightarrow> addr option \<Rightarrow> 'a dl_mem \<Rightarrow> (addr option \<times> 'a dl_mem) option" where
  "DL_REPLACE_ELEM head el add mem =
     (if head = None \<or> el = None \<or> add = None then None
      else if head = el then do {
        q \<leftarrow> get_nx el mem;
        mem1 \<leftarrow> set_nx add q mem;
        q' \<leftarrow> get_nx el mem1;
        mem2 \<leftarrow> (if q' = None then set_pv add add mem1
            else do {
              p \<leftarrow> get_pv el mem1;
              m \<leftarrow> set_pv add p mem1;
              r \<leftarrow> get_nx add m;
              set_pv r add m });
        Some (add, mem2) }
      else do {
        q \<leftarrow> get_nx el mem;
        mem1 \<leftarrow> set_nx add q mem;
        p \<leftarrow> get_pv el mem1;
        mem2 \<leftarrow> set_pv add p mem1;
        p' \<leftarrow> get_pv add mem2;
        mem3 \<leftarrow> set_nx p' add mem2;
        q' \<leftarrow> get_nx el mem3;
        mem4 \<leftarrow> (if q' = None then set_pv head add mem3
            else do { r \<leftarrow> get_nx add mem3; set_pv r add mem3 });
        Some (head, mem4) })"

definition DL_PREPEND_ELEM :: "addr option \<Rightarrow> addr option \<Rightarrow> addr \<Rightarrow> 'a dl_mem \<Rightarrow> (addr option \<times> 'a dl_mem) option" where
  "DL_PREPEND_ELEM head el add mem =
     (if el \<noteq> None then
        (if head = None then None
         else do {
           mem1 \<leftarrow> set_nx (Some add) el mem;
           p \<leftarrow> get_pv el mem1;
           mem2 \<leftarrow> set_pv (Some add) p mem1;
           mem3 \<leftarrow> set_pv el (Some add) mem2;
           if head = el then Some (Some add, mem3)
           else do {
             p' \<leftarrow> get_pv (Some add) mem3;
             mem4 \<leftarrow> set_nx p' (Some add) mem3;
             Some (head, mem4) } })
      else DL_APPEND head add mem)"

definition DL_APPEND_ELEM :: "addr option \<Rightarrow> addr option \<Rightarrow> addr \<Rightarrow> 'a dl_mem \<Rightarrow> (addr option \<times> 'a dl_mem) option" where
  "DL_APPEND_ELEM head el add mem =
     (if el \<noteq> None then
        (if head = None then None
         else do {
           q \<leftarrow> get_nx el mem;
           mem1 \<leftarrow> set_nx (Some add) q mem;
           mem2 \<leftarrow> set_pv (Some add) el mem1;
           mem3 \<leftarrow> set_nx el (Some add) mem2;
           r \<leftarrow> get_nx (Some add) mem3;
           mem4 \<leftarrow> (if r \<noteq> None then set_pv r (Some add) mem3 else set_pv head (Some add) mem3);
           Some (head, mem4) })
      else DL_PREPEND head add mem)"

partial_function (option) DL_FOREACH :: "addr option \<Rightarrow> 'a dl_mem \<Rightarrow> addr list option" where
  "DL_FOREACH el mem = (case el of None \<Rightarrow> Some []
     | Some a \<Rightarrow> do { q \<leftarrow> get_nx el mem; as \<leftarrow> DL_FOREACH q mem; Some (a # as) })"

partial_function (option) dl_count :: "addr option \<Rightarrow> 'a dl_mem \<Rightarrow> int \<Rightarrow> int option" where
  "dl_count el mem counter =
     (if el \<noteq> None then do { c \<leftarrow> c_int (counter + 1); q \<leftarrow> get_nx el mem; dl_count q mem c }
      else Some counter)"

definition DL_COUNT :: "addr option \<Rightarrow> 'a dl_mem \<Rightarrow> int option" where
  "DL_COUNT head mem = dl_count head mem 0"

partial_function (option) DL_SEARCH ::
    "addr option \<Rightarrow> 'b \<Rightarrow> ('a \<Rightarrow> 'b \<Rightarrow> int option) \<Rightarrow> 'a dl_mem \<Rightarrow> addr option option" where
  "DL_SEARCH out elt cmp mem =
     (if out = None then Some None
      else do {
        c \<leftarrow> dl_cmp cmp out elt mem;
        if c = 0 then Some out else do { q \<leftarrow> get_nx out mem; DL_SEARCH q elt cmp mem } })"

text \<open>The for loop of the lower bound.\<close>

partial_function (option) dl_bound ::
    "addr option \<Rightarrow> 'a \<Rightarrow> 'a ll_cmp \<Rightarrow> 'a dl_mem \<Rightarrow> addr option option" where
  "dl_bound elt like cmp mem = do {
     q \<leftarrow> get_nx elt mem;
     if q \<noteq> None then do {
       c \<leftarrow> dl_cmp cmp q like mem;
       if c \<ge> 0 then Some elt else dl_bound q like cmp mem }
     else Some elt }"

definition DL_LOWER_BOUND :: "addr option \<Rightarrow> 'a \<Rightarrow> 'a ll_cmp \<Rightarrow> 'a dl_mem \<Rightarrow> addr option option" where
  "DL_LOWER_BOUND head like cmp mem =
     (if head = None then Some None
      else do {
        c \<leftarrow> dl_cmp cmp head like mem;
        if c \<ge> 0 then Some None else dl_bound head like cmp mem })"

definition DL_INSERT_INORDER :: "addr option \<Rightarrow> addr \<Rightarrow> 'a ll_cmp \<Rightarrow> 'a dl_mem \<Rightarrow> (addr option \<times> 'a dl_mem) option" where
  "DL_INSERT_INORDER head add cmp mem =
     (if head \<noteq> None then do {
        n \<leftarrow> mem add;
        tmp \<leftarrow> DL_LOWER_BOUND head (dl_val n) cmp mem;
        DL_APPEND_ELEM head tmp add mem }
      else do {
        mem1 \<leftarrow> set_pv (Some add) (Some add) mem;
        mem2 \<leftarrow> set_nx (Some add) None mem1;
        Some (Some add, mem2) })"

text \<open>
  The variant for compilers without decltype walks with the head itself, whose old value it
  keeps in tmp.  Its loop condition compares the next pointer with tmp.
\<close>

partial_function (option) dl_walk_nd ::
    "addr option \<Rightarrow> addr option \<Rightarrow> 'a \<Rightarrow> 'a ll_cmp \<Rightarrow> 'a dl_mem \<Rightarrow> addr option option" where
  "dl_walk_nd tmp head like cmp mem = do {
     q \<leftarrow> get_nx head mem;
     if q \<noteq> tmp then do {
       c \<leftarrow> dl_cmp cmp q like mem;
       if c < 0 then dl_walk_nd tmp q like cmp mem else Some head }
     else Some head }"

definition DL_INSERT_INORDER_nd :: "addr option \<Rightarrow> addr \<Rightarrow> 'a ll_cmp \<Rightarrow> 'a dl_mem \<Rightarrow> (addr option \<times> 'a dl_mem) option" where
  "DL_INSERT_INORDER_nd head add cmp mem =
     (if head = None then do {
        mem1 \<leftarrow> set_pv (Some add) (Some add) mem;
        mem2 \<leftarrow> set_nx (Some add) None mem1;
        Some (Some add, mem2) }
      else do {
        n \<leftarrow> mem add;
        c \<leftarrow> dl_cmp cmp head (dl_val n) mem;
        if c \<ge> 0 then do {
          p \<leftarrow> get_pv head mem;
          mem1 \<leftarrow> set_pv (Some add) p mem;
          mem2 \<leftarrow> set_nx (Some add) head mem1;
          mem3 \<leftarrow> set_pv head (Some add) mem2;
          Some (Some add, mem3) }
        else do {
          h \<leftarrow> dl_walk_nd head head (dl_val n) cmp mem;
          mem1 \<leftarrow> set_pv (Some add) h mem;
          q \<leftarrow> get_nx h mem1;
          mem2 \<leftarrow> set_nx (Some add) q mem1;
          mem3 \<leftarrow> set_nx h (Some add) mem2;
          r \<leftarrow> get_nx (Some add) mem3;
          mem4 \<leftarrow> (if r \<noteq> None then set_pv r (Some add) mem3 else set_pv head (Some add) mem3);
          Some (head, mem4) } })"

subsection \<open>Circular lists\<close>

definition CDL_APPEND :: "addr option \<Rightarrow> addr \<Rightarrow> 'a dl_mem \<Rightarrow> (addr option \<times> 'a dl_mem) option" where
  "CDL_APPEND head add mem =
     (if head \<noteq> None then do {
        p \<leftarrow> get_pv head mem;
        mem1 \<leftarrow> set_pv (Some add) p mem;
        mem2 \<leftarrow> set_nx (Some add) head mem1;
        mem3 \<leftarrow> set_pv head (Some add) mem2;
        q \<leftarrow> get_pv (Some add) mem3;
        mem4 \<leftarrow> set_nx q (Some add) mem3;
        Some (head, mem4) }
      else do {
        mem1 \<leftarrow> set_pv (Some add) (Some add) mem;
        mem2 \<leftarrow> set_nx (Some add) (Some add) mem1;
        Some (Some add, mem2) })"

definition CDL_PREPEND :: "addr option \<Rightarrow> addr \<Rightarrow> 'a dl_mem \<Rightarrow> (addr option \<times> 'a dl_mem) option" where
  "CDL_PREPEND head add mem = do {
     mem' \<leftarrow> (if head \<noteq> None then do {
           p \<leftarrow> get_pv head mem;
           mem1 \<leftarrow> set_pv (Some add) p mem;
           mem2 \<leftarrow> set_nx (Some add) head mem1;
           mem3 \<leftarrow> set_pv head (Some add) mem2;
           q \<leftarrow> get_pv (Some add) mem3;
           set_nx q (Some add) mem3 }
         else do {
           mem1 \<leftarrow> set_pv (Some add) (Some add) mem;
           set_nx (Some add) (Some add) mem1 });
     Some (Some add, mem') }"

definition CDL_DELETE :: "addr option \<Rightarrow> addr \<Rightarrow> 'a dl_mem \<Rightarrow> (addr option \<times> 'a dl_mem) option" where
  "CDL_DELETE head del mem = do {
     single \<leftarrow> (if head = Some del then do { q \<leftarrow> get_nx head mem; Some (q = head) } else Some False);
     if single then Some (None, mem)
     else do {
       q \<leftarrow> get_nx (Some del) mem;
       p \<leftarrow> get_pv (Some del) mem;
       mem1 \<leftarrow> set_pv q p mem;
       p' \<leftarrow> get_pv (Some del) mem1;
       q' \<leftarrow> get_nx (Some del) mem1;
       mem2 \<leftarrow> set_nx p' q' mem1;
       h \<leftarrow> (if Some del = head then get_nx (Some del) mem2 else Some head);
       Some (h, mem2) } }"

definition CDL_REPLACE_ELEM ::
    "addr option \<Rightarrow> addr option \<Rightarrow> addr option \<Rightarrow> 'a dl_mem \<Rightarrow> (addr option \<times> 'a dl_mem) option" where
  "CDL_REPLACE_ELEM head el add mem =
     (if head = None \<or> el = None \<or> add = None then None
      else do {
        q \<leftarrow> get_nx el mem;
        if q = el then do {
          mem1 \<leftarrow> set_nx add add mem;
          mem2 \<leftarrow> set_pv add add mem1;
          Some (add, mem2) }
        else do {
          mem1 \<leftarrow> set_nx add q mem;
          p \<leftarrow> get_pv el mem1;
          mem2 \<leftarrow> set_pv add p mem1;
          q' \<leftarrow> get_nx add mem2;
          mem3 \<leftarrow> set_pv q' add mem2;
          p' \<leftarrow> get_pv add mem3;
          mem4 \<leftarrow> set_nx p' add mem3;
          Some (if head = el then add else head, mem4) } })"

definition CDL_PREPEND_ELEM :: "addr option \<Rightarrow> addr option \<Rightarrow> addr \<Rightarrow> 'a dl_mem \<Rightarrow> (addr option \<times> 'a dl_mem) option" where
  "CDL_PREPEND_ELEM head el add mem =
     (if el \<noteq> None then
        (if head = None then None
         else do {
           mem1 \<leftarrow> set_nx (Some add) el mem;
           p \<leftarrow> get_pv el mem1;
           mem2 \<leftarrow> set_pv (Some add) p mem1;
           mem3 \<leftarrow> set_pv el (Some add) mem2;
           p' \<leftarrow> get_pv (Some add) mem3;
           mem4 \<leftarrow> set_nx p' (Some add) mem3;
           Some (if head = el then Some add else head, mem4) })
      else CDL_APPEND head add mem)"

definition CDL_APPEND_ELEM :: "addr option \<Rightarrow> addr option \<Rightarrow> addr \<Rightarrow> 'a dl_mem \<Rightarrow> (addr option \<times> 'a dl_mem) option" where
  "CDL_APPEND_ELEM head el add mem =
     (if el \<noteq> None then
        (if head = None then None
         else do {
           q \<leftarrow> get_nx el mem;
           mem1 \<leftarrow> set_nx (Some add) q mem;
           mem2 \<leftarrow> set_pv (Some add) el mem1;
           mem3 \<leftarrow> set_nx el (Some add) mem2;
           r \<leftarrow> get_nx (Some add) mem3;
           mem4 \<leftarrow> set_pv r (Some add) mem3;
           Some (head, mem4) })
      else CDL_PREPEND head add mem)"

partial_function (option) cdl_foreach :: "addr option \<Rightarrow> addr option \<Rightarrow> 'a dl_mem \<Rightarrow> addr list option" where
  "cdl_foreach head el mem = (case el of None \<Rightarrow> Some []
     | Some a \<Rightarrow> do {
         q \<leftarrow> get_nx el mem;
         as \<leftarrow> cdl_foreach head (if q = head then None else q) mem;
         Some (a # as) })"

definition CDL_FOREACH :: "addr option \<Rightarrow> 'a dl_mem \<Rightarrow> addr list option" where
  "CDL_FOREACH head mem = cdl_foreach head head mem"

partial_function (option) cdl_count :: "addr option \<Rightarrow> addr option \<Rightarrow> 'a dl_mem \<Rightarrow> int \<Rightarrow> int option" where
  "cdl_count head el mem counter =
     (if el \<noteq> None then do {
        c \<leftarrow> c_int (counter + 1);
        q \<leftarrow> get_nx el mem;
        cdl_count head (if q = head then None else q) mem c }
      else Some counter)"

definition CDL_COUNT :: "addr option \<Rightarrow> 'a dl_mem \<Rightarrow> int option" where
  "CDL_COUNT head mem = cdl_count head head mem 0"

partial_function (option) cdl_search ::
    "addr option \<Rightarrow> addr option \<Rightarrow> 'b \<Rightarrow> ('a \<Rightarrow> 'b \<Rightarrow> int option) \<Rightarrow> 'a dl_mem \<Rightarrow> addr option option" where
  "cdl_search head out elt cmp mem =
     (if out = None then Some None
      else do {
        c \<leftarrow> dl_cmp cmp out elt mem;
        if c = 0 then Some out
        else do { q \<leftarrow> get_nx out mem; cdl_search head (if q = head then None else q) elt cmp mem } })"

definition CDL_SEARCH :: "addr option \<Rightarrow> 'b \<Rightarrow> ('a \<Rightarrow> 'b \<Rightarrow> int option) \<Rightarrow> 'a dl_mem \<Rightarrow> addr option option" where
  "CDL_SEARCH head elt cmp mem = cdl_search head head elt cmp mem"

partial_function (option) cdl_bound ::
    "addr option \<Rightarrow> addr option \<Rightarrow> 'a \<Rightarrow> 'a ll_cmp \<Rightarrow> 'a dl_mem \<Rightarrow> addr option option" where
  "cdl_bound head elt like cmp mem = do {
     q \<leftarrow> get_nx elt mem;
     if q \<noteq> head then do {
       c \<leftarrow> dl_cmp cmp q like mem;
       if c \<ge> 0 then Some elt else cdl_bound head q like cmp mem }
     else Some elt }"

definition CDL_LOWER_BOUND :: "addr option \<Rightarrow> 'a \<Rightarrow> 'a ll_cmp \<Rightarrow> 'a dl_mem \<Rightarrow> addr option option" where
  "CDL_LOWER_BOUND head like cmp mem =
     (if head = None then Some None
      else do {
        c \<leftarrow> dl_cmp cmp head like mem;
        if c \<ge> 0 then Some None else cdl_bound head head like cmp mem })"

definition CDL_INSERT_INORDER :: "addr option \<Rightarrow> addr \<Rightarrow> 'a ll_cmp \<Rightarrow> 'a dl_mem \<Rightarrow> (addr option \<times> 'a dl_mem) option" where
  "CDL_INSERT_INORDER head add cmp mem =
     (if head \<noteq> None then do {
        n \<leftarrow> mem add;
        tmp \<leftarrow> CDL_LOWER_BOUND head (dl_val n) cmp mem;
        CDL_APPEND_ELEM head tmp add mem }
      else do {
        mem1 \<leftarrow> set_nx (Some add) (Some add) mem;
        mem2 \<leftarrow> set_pv (Some add) (Some add) mem1;
        Some (Some add, mem2) })"

subsection \<open>Sorting\<close>

text \<open>
  The two sorts differ in how a link is followed: the circular one takes the old head for the
  end.  Its other steps are written once, with the reading as their first argument.
\<close>

definition cs_next :: "addr option \<Rightarrow> addr option \<Rightarrow> 'a dl_mem \<Rightarrow> addr option option" where
  "cs_next oldhead p mem = do { q \<leftarrow> get_nx p mem; Some (if q = oldhead then None else q) }"

type_synonym 'a dl_reader = "addr option \<Rightarrow> 'a dl_mem \<Rightarrow> addr option option"

partial_function (option) ds_step ::
    "'a dl_reader \<Rightarrow> int \<Rightarrow> int \<Rightarrow> addr option \<Rightarrow> int \<Rightarrow> 'a dl_mem \<Rightarrow> (addr option \<times> int) option" where
  "ds_step nx i insize q psize mem =
     (if i < insize then do {
        q' \<leftarrow> nx q mem;
        if q' = None then Some (None, psize + 1)
        else ds_step nx (i + 1) insize q' (psize + 1) mem }
      else Some (q, psize))"

definition ds_emit ::
    "addr option \<Rightarrow> addr option \<Rightarrow> addr option \<Rightarrow> 'a dl_mem \<Rightarrow> (addr option \<times> 'a dl_mem) option" where
  "ds_emit e list tail mem = do {
     (list', mem1) \<leftarrow> (if tail \<noteq> None then do { m \<leftarrow> set_nx tail e mem; Some (list, m) } else Some (e, mem));
     mem2 \<leftarrow> set_pv e tail mem1;
     Some (list', mem2) }"

partial_function (option) ds_merge ::
    "'a dl_reader \<Rightarrow> 'a ll_cmp \<Rightarrow> addr option \<Rightarrow> addr option \<Rightarrow> int \<Rightarrow> int \<Rightarrow> addr option \<Rightarrow> addr option \<Rightarrow> 'a dl_mem \<Rightarrow>
     (addr option \<times> addr option \<times> addr option \<times> 'a dl_mem) option" where
  "ds_merge nx cmp p q psize qsize list tail mem =
     (if psize > 0 \<or> (qsize > 0 \<and> q \<noteq> None) then do {
        from_p \<leftarrow> (if psize = 0 then Some False
                    else if qsize = 0 \<or> q = None then Some True
                    else do { b \<leftarrow> q; n \<leftarrow> mem b; c \<leftarrow> dl_cmp cmp p (dl_val n) mem; Some (c \<le> 0) });
        if from_p then do {
          p' \<leftarrow> nx p mem;
          (list', mem') \<leftarrow> ds_emit p list tail mem;
          ds_merge nx cmp p' q (psize - 1) qsize list' p mem' }
        else do {
          q' \<leftarrow> nx q mem;
          (list', mem') \<leftarrow> ds_emit q list tail mem;
          ds_merge nx cmp p q' psize (qsize - 1) list' q mem' } }
      else Some (q, list, tail, mem))"

partial_function (option) ds_pass ::
    "'a dl_reader \<Rightarrow> 'a ll_cmp \<Rightarrow> int \<Rightarrow> addr option \<Rightarrow> addr option \<Rightarrow> addr option \<Rightarrow> int \<Rightarrow> 'a dl_mem \<Rightarrow>
     (addr option \<times> addr option \<times> int \<times> 'a dl_mem) option" where
  "ds_pass nx cmp insize p list tail nmerges mem =
     (if p \<noteq> None then do {
        (q, psize) \<leftarrow> ds_step nx 0 insize p 0 mem;
        (p', list', tail', mem') \<leftarrow> ds_merge nx cmp p q psize insize list tail mem;
        nmerges' \<leftarrow> c_int (nmerges + 1);
        ds_pass nx cmp insize p' list' tail' nmerges' mem' }
      else Some (list, tail, nmerges, mem))"

text \<open>The end of a pass: the head points back to the tail, and the tail ends the list.\<close>

definition ds_close :: "addr option \<Rightarrow> addr option \<Rightarrow> addr option \<Rightarrow> 'a dl_mem \<Rightarrow> 'a dl_mem option" where
  "ds_close e list tail mem = do { mem1 \<leftarrow> set_pv list tail mem; set_nx tail e mem1 }"

partial_function (option) ds_loop ::
    "'a ll_cmp \<Rightarrow> int \<Rightarrow> addr option \<Rightarrow> 'a dl_mem \<Rightarrow> (addr option \<times> 'a dl_mem) option" where
  "ds_loop cmp insize list mem = do {
     (list', tail, nmerges, mem1) \<leftarrow> ds_pass get_nx cmp insize list None None 0 mem;
     mem2 \<leftarrow> ds_close None list' tail mem1;
     insize' \<leftarrow> c_int (insize * 2);
     if nmerges \<le> 1 then Some (list', mem2) else ds_loop cmp insize' list' mem2 }"

definition DL_SORT :: "addr option \<Rightarrow> 'a ll_cmp \<Rightarrow> 'a dl_mem \<Rightarrow> (addr option \<times> 'a dl_mem) option" where
  "DL_SORT list cmp mem = (if list \<noteq> None then ds_loop cmp 1 list mem else Some (None, mem))"

partial_function (option) cs_loop ::
    "'a ll_cmp \<Rightarrow> int \<Rightarrow> addr option \<Rightarrow> 'a dl_mem \<Rightarrow> (addr option \<times> 'a dl_mem) option" where
  "cs_loop cmp insize list mem = do {
     (list', tail, nmerges, mem1) \<leftarrow> ds_pass (cs_next list) cmp insize list None None 0 mem;
     mem2 \<leftarrow> ds_close list' list' tail mem1;
     insize' \<leftarrow> c_int (insize * 2);
     if nmerges \<le> 1 then Some (list', mem2) else cs_loop cmp insize' list' mem2 }"

definition CDL_SORT :: "addr option \<Rightarrow> 'a ll_cmp \<Rightarrow> 'a dl_mem \<Rightarrow> (addr option \<times> 'a dl_mem) option" where
  "CDL_SORT list cmp mem = (if list \<noteq> None then cs_loop cmp 1 list mem else Some (None, mem))"

subsection \<open>Links and frames\<close>

definition dl_data :: "'a dl_mem \<Rightarrow> addr \<Rightarrow> 'a option" where
  "dl_data mem a = map_option dl_val (mem a)"

definition dl_upd :: "addr set \<Rightarrow> 'a dl_mem \<Rightarrow> 'a dl_mem \<Rightarrow> bool" where
  "dl_upd S mem mem' \<longleftrightarrow> dl_data mem' = dl_data mem \<and> (\<forall>a. a \<notin> S \<longrightarrow> mem' a = mem a)"

definition put_nx :: "addr \<Rightarrow> addr option \<Rightarrow> 'a dl_mem \<Rightarrow> 'a dl_mem" where
  "put_nx a q mem = mem(a := map_option (dl_next_update (\<lambda>_. q)) (mem a))"

definition put_pv :: "addr \<Rightarrow> addr option \<Rightarrow> 'a dl_mem \<Rightarrow> 'a dl_mem" where
  "put_pv a q mem = mem(a := map_option (dl_prev_update (\<lambda>_. q)) (mem a))"

lemma dl_upd_refl [simp]: "dl_upd S mem mem"
  by (simp add: dl_upd_def)

lemma dl_upd_trans: "dl_upd S m1 m2 \<Longrightarrow> dl_upd T m2 m3 \<Longrightarrow> S \<subseteq> U \<Longrightarrow> T \<subseteq> U \<Longrightarrow> dl_upd U m1 m3"
  unfolding dl_upd_def by (metis subsetD)

lemma dl_upd_mono: "dl_upd S m1 m2 \<Longrightarrow> S \<subseteq> T \<Longrightarrow> dl_upd T m1 m2"
  unfolding dl_upd_def by blast

lemma dl_data_put [simp]: "dl_data (put_nx a q mem) = dl_data mem" "dl_data (put_pv a q mem) = dl_data mem"
  by (auto simp: dl_data_def put_nx_def put_pv_def fun_eq_iff option.map_comp o_def)

lemma put_None [simp]: "put_nx a q mem b = None \<longleftrightarrow> mem b = None" "put_pv a q mem b = None \<longleftrightarrow> mem b = None"
  by (simp_all add: put_nx_def put_pv_def)

lemma put_other [simp]: "b \<noteq> a \<Longrightarrow> put_nx a q mem b = mem b" "b \<noteq> a \<Longrightarrow> put_pv a q mem b = mem b"
  by (simp_all add: put_nx_def put_pv_def)

lemma dl_upd_put [simp]: "a \<in> S \<Longrightarrow> dl_upd S mem (put_nx a q m) \<longleftrightarrow> dl_upd S mem m"
    "a \<in> S \<Longrightarrow> dl_upd S mem (put_pv a q m) \<longleftrightarrow> dl_upd S mem m"
  by (auto simp: dl_upd_def) (metis put_other)+

lemma dl_links_None [simp]: "dl_nx mem a = None \<longleftrightarrow> mem a = None" "dl_pv mem a = None \<longleftrightarrow> mem a = None"
  by (simp_all add: dl_nx_def dl_pv_def)

lemma dl_nx_put: "mem a \<noteq> None \<Longrightarrow> dl_nx (put_nx a q mem) = (dl_nx mem)(a \<mapsto> q)"
  and dl_pv_put: "mem a \<noteq> None \<Longrightarrow> dl_pv (put_pv a q mem) = (dl_pv mem)(a \<mapsto> q)"
  and dl_nx_put_pv [simp]: "dl_nx (put_pv a q mem) = dl_nx mem"
  and dl_pv_put_nx [simp]: "dl_pv (put_nx a q mem) = dl_pv mem"
  by (auto simp: dl_nx_def dl_pv_def put_nx_def put_pv_def fun_eq_iff option.map_comp o_def)

lemma set_Some:
  "set_nx (Some a) q mem = (if mem a = None then None else Some (put_nx a q mem))"
  "set_pv (Some a) q mem = (if mem a = None then None else Some (put_pv a q mem))"
  by (auto simp: set_nx_def set_pv_def put_nx_def put_pv_def bind_def split: option.split)

lemma get_Some [simp]: "get_nx (Some a) mem = dl_nx mem a" "get_pv (Some a) mem = dl_pv mem a"
  by (simp_all add: get_nx_def get_pv_def)

lemma get_set_None [simp]: "get_nx None mem = None" "get_pv None mem = None"
    "set_nx None q mem = None" "set_pv None q mem = None"
  by (simp_all add: get_nx_def get_pv_def set_nx_def set_pv_def)

lemma dl_upd_links: "dl_upd S mem mem' \<Longrightarrow> a \<notin> S \<Longrightarrow> dl_nx mem' a = dl_nx mem a \<and> dl_pv mem' a = dl_pv mem a"
  by (simp add: dl_upd_def dl_nx_def dl_pv_def)

lemma dl_upd_dseg:
  "dl_upd S mem mem' \<Longrightarrow> S \<inter> set xs = {} \<Longrightarrow> dseg (dl_nx mem') (dl_pv mem') b p xs e t \<longleftrightarrow> dseg (dl_nx mem) (dl_pv mem) b p xs e t"
  by (rule dseg_cong) (auto dest: dl_upd_links)

lemma dl_data_None: "dl_data mem a = None \<longleftrightarrow> mem a = None"
  by (simp add: dl_data_def)

lemmas dl_simps = set_Some dl_nx_put dl_pv_put

subsection \<open>What the DL macros do to the list\<close>

definition is_dl :: "'a dl_mem \<Rightarrow> addr option \<Rightarrow> addr list \<Rightarrow> bool" where
  "is_dl mem head xs \<longleftrightarrow> (\<exists>t. dseg (dl_nx mem) (dl_pv mem) t head xs None t)"

lemma is_dl_None [simp]: "is_dl mem None xs \<longleftrightarrow> xs = []"
  by (cases xs) (auto simp: is_dl_def)

lemma is_dl_Nil [simp]: "is_dl mem head [] \<longleftrightarrow> head = None"
  by (auto simp: is_dl_def)

lemma is_dl_ne: "xs \<noteq> [] \<Longrightarrow> is_dl mem head xs \<longleftrightarrow> dseg (dl_nx mem) (dl_pv mem) (Some (last xs)) head xs None (Some (last xs))"
  unfolding is_dl_def using dseg_last by fastforce

lemma is_dl_distinct: "is_dl mem head xs \<Longrightarrow> distinct xs"
  unfolding is_dl_def using dseg_distinct by blast

lemma is_dl_mapped: "is_dl mem head xs \<Longrightarrow> a \<in> set xs \<Longrightarrow> mem a \<noteq> None"
  unfolding is_dl_def using dseg_mapped [of "dl_nx mem" "dl_pv mem"] by force

lemma is_dl_chain: "is_dl mem head xs \<Longrightarrow> chain (dl_nx mem) head xs"
  unfolding is_dl_def using dseg_chain by blast

lemma is_dl_head: "is_dl mem head xs \<Longrightarrow> xs \<noteq> [] \<Longrightarrow> head = Some (hd xs)"
  unfolding is_dl_def using dseg_hd by blast

lemma DL_PREPEND_list:
  assumes l: "is_dl mem head xs" and a: "mem a \<noteq> None" "a \<notin> set xs"
  shows "\<exists>mem'. DL_PREPEND head a mem = Some (Some a, mem') \<and> is_dl mem' (Some a) (a # xs) \<and>
    dl_upd (insert a (set xs)) mem mem'"
proof (cases xs)
  case Nil
  then show ?thesis using l a
    by (auto simp: DL_PREPEND_def dl_simps is_dl_def)
next
  case (Cons x ys)
  let ?t = "Some (last xs)"
  have d: "dseg (dl_nx mem) (dl_pv mem) ?t head xs None ?t" using l Cons by (simp add: is_dl_ne)
  have x: "head = Some x" "mem x \<noteq> None" "dl_pv mem x = Some ?t" using d Cons by (auto simp flip: dl_links_None)
  let ?m = "put_pv x (Some a) (put_pv a ?t (put_nx a head mem))"
  have "DL_PREPEND head a mem = Some (Some a, ?m)"
    using x a by (simp add: DL_PREPEND_def dl_simps)
  moreover have "dseg (dl_nx ?m) (dl_pv ?m) ?t (Some a) (a # xs) None ?t"
    using dseg_insert [where xs = "[]" and ys = xs and x = a, simplified, OF d] is_dl_distinct [OF l] a x Cons
    by (simp add: dl_simps set_last_def set_first_def prev_of_def next_of_def fun_upd_twist)
  ultimately show ?thesis using Cons by (auto simp: is_dl_def)
qed

lemma DL_APPEND_list:
  assumes l: "is_dl mem head xs" and a: "mem a \<noteq> None" "a \<notin> set xs"
  shows "\<exists>head' mem'. DL_APPEND head a mem = Some (head', mem') \<and> is_dl mem' head' (xs @ [a]) \<and>
    (xs \<noteq> [] \<longrightarrow> head' = head) \<and> dl_upd (insert a (set xs)) mem mem'"
proof (cases "xs = []")
  case True
  then show ?thesis using l a
    by (auto simp: DL_APPEND_def dl_simps is_dl_def)
next
  case False
  let ?t = "Some (last xs)"
  have d: "dseg (dl_nx mem) (dl_pv mem) ?t head xs None ?t" using l False by (simp add: is_dl_ne)
  have x: "head = Some (hd xs)" "mem (hd xs) \<noteq> None" "dl_pv mem (hd xs) = Some ?t" "hd xs \<noteq> a"
    using d False a by (cases xs; auto simp flip: dl_links_None)+
  have y: "mem (last xs) \<noteq> None" "last xs \<noteq> a" using is_dl_mapped [OF l] False a(2) by auto
  let ?m = "put_nx a None (put_pv (hd xs) (Some a) (put_nx (last xs) (Some a) (put_pv a ?t mem)))"
  have "DL_APPEND head a mem = Some (head, ?m)"
    using x y a by (simp add: DL_APPEND_def dl_simps)
  moreover have "dseg (dl_nx ?m) (dl_pv ?m) (Some a) head (xs @ [a]) None (Some a)"
    using dseg_rebase [OF dseg_insert [of _ _ _ _ xs "[]" _ _ a, simplified, OF d], of "Some a"]
      is_dl_distinct [OF l] a x y False
    by (simp add: dl_simps set_last_def set_first_def prev_of_def next_of_def)
  ultimately show ?thesis using False by (auto simp: is_dl_def)
qed

lemma DL_DELETE_list:
  assumes l: "is_dl mem head (xs @ a # ys)"
  shows "\<exists>head' mem'. DL_DELETE head a mem = Some (head', mem') \<and> is_dl mem' head' (xs @ ys) \<and>
    dl_upd (set (xs @ a # ys)) mem mem'"
proof -
  let ?t = "Some (last (xs @ a # ys))"
  have d: "dseg (dl_nx mem) (dl_pv mem) ?t head (xs @ a # ys) None ?t" using l by (simp add: is_dl_ne)
  note at = dseg_at [OF d] and dist = is_dl_distinct [OF l] and rm = dseg_remove [OF d]
  have mp: "mem b \<noteq> None" if "b \<in> set (xs @ a # ys)" for b using is_dl_mapped [OF l that] .
  have head: "head = Some (hd (xs @ a # ys))" using is_dl_head [OF l] by simp
  show ?thesis
  proof (cases xs)
    case Nil
    show ?thesis
    proof (cases ys)
      case Nil2: Nil
      with Nil l at show ?thesis by (auto simp: DL_DELETE_def dl_simps prev_of_def)
    next
      case (Cons y zs)
      have ne: "last (a # ys) \<noteq> a" using dist Nil Cons by auto
      let ?m = "put_pv y ?t mem"
      have "DL_DELETE head a mem = Some (Some y, ?m)"
        using head at(1,2) Nil Cons ne mp [of y] by (simp add: DL_DELETE_def dl_simps prev_of_def next_of_def)
      moreover have "dseg (dl_nx ?m) (dl_pv ?m) ?t (Some y) ys None ?t"
        using rm dist Nil Cons mp [of y] by (simp add: dl_simps set_last_def set_first_def prev_of_def next_of_def)
      ultimately show ?thesis using Nil Cons by (auto simp: is_dl_def)
    qed
  next
    case (Cons x xs')
    have ha: "head \<noteq> Some a" "last xs \<noteq> a" "head = Some (hd xs)" using head dist Cons by auto
    show ?thesis
    proof (cases ys)
      case Nil
      let ?m = "put_pv (hd xs) (Some (last xs)) (put_nx (last xs) None mem)"
      have ml: "mem (last xs) \<noteq> None" "mem (hd xs) \<noteq> None" using mp Cons by auto
      have "DL_DELETE head a mem = Some (head, ?m)"
        using ha at(1,2) Nil Cons ml by (simp add: DL_DELETE_def dl_simps prev_of_def next_of_def)
      moreover have "dseg (dl_nx ?m) (dl_pv ?m) (Some (last xs)) head xs None (Some (last xs))"
        using dseg_rebase [OF rm, of "Some (last xs)"] dist Nil Cons ml
        by (simp add: dl_simps set_last_def set_first_def prev_of_def next_of_def)
      ultimately show ?thesis using Nil Cons ml by (auto simp: is_dl_def)
    next
      case ys: (Cons y zs)
      let ?m = "put_pv y (Some (last xs)) (put_nx (last xs) (Some y) mem)"
      have ml: "mem (last xs) \<noteq> None" "mem y \<noteq> None" using mp Cons ys by auto
      have "DL_DELETE head a mem = Some (head, ?m)"
        using ha at(1,2) ys Cons ml by (simp add: DL_DELETE_def dl_simps prev_of_def next_of_def)
      moreover have "dseg (dl_nx ?m) (dl_pv ?m) ?t head (xs @ ys) None ?t"
        using rm dist Cons ys ml by (simp add: dl_simps set_last_def set_first_def prev_of_def next_of_def)
      ultimately show ?thesis using Cons ys ml by (auto simp: is_dl_def)
    qed
  qed
qed

lemma DL_CONCAT_list:
  assumes x: "is_dl mem head1 xs" and y: "is_dl mem head2 ys" and dist: "set xs \<inter> set ys = {}"
  shows "\<exists>mem'. DL_CONCAT head1 head2 mem = Some (if xs = [] then head2 else head1, mem') \<and>
    is_dl mem' (if xs = [] then head2 else head1) (xs @ ys) \<and> dl_upd (set xs \<union> set ys) mem mem'"
proof (cases "xs = [] \<or> ys = []")
  case True
  then show ?thesis
  proof
    assume "xs = []"
    then show ?thesis using x y by (cases head2) (auto simp: DL_CONCAT_def)
  next
    assume "ys = []"
    then show ?thesis using x y by (cases "xs = []") (auto simp: DL_CONCAT_def)
  qed
next
  case False
  let ?u = "Some (last xs)" and ?t = "Some (last ys)"
  have dx: "dseg (dl_nx mem) (dl_pv mem) ?u head1 xs None ?u" and dy: "dseg (dl_nx mem) (dl_pv mem) ?t head2 ys None ?t"
    using x y False by (simp_all add: is_dl_ne)
  have hx: "head1 = Some (hd xs)" "mem (hd xs) \<noteq> None" "dl_pv mem (hd xs) = Some ?u" "mem (last xs) \<noteq> None"
    using dx False is_dl_mapped [OF x, of "last xs"] by (cases xs; auto simp flip: dl_links_None)+
  have hy: "head2 = Some (hd ys)" "mem (hd ys) \<noteq> None" "dl_pv mem (hd ys) = Some ?t"
    using dy False by (cases ys; auto simp flip: dl_links_None)+
  have m: "hd xs \<in> set xs" "last xs \<in> set xs" "hd ys \<in> set ys" using False by simp_all
  have dj: "v \<notin> set ys" if "v \<in> set xs" for v using that dist by blast
  have ne: "hd xs \<noteq> hd ys" "hd ys \<notin> set xs" "hd xs \<notin> set ys" "last xs \<notin> set ys"
    using dj [OF m(1)] dj [OF m(2)] m(3) dj by metis+
  let ?m = "put_pv (hd xs) ?t (put_nx (last xs) head2 (put_pv (hd ys) ?u mem))"
  have "DL_CONCAT head1 head2 mem = Some (head1, ?m)"
    using hx hy ne by (simp add: DL_CONCAT_def dl_simps)
  moreover have nx: "dl_nx ?m = (dl_nx mem)(last xs \<mapsto> head2)"
    and pv: "dl_pv ?m = (dl_pv mem)(hd xs \<mapsto> ?t, hd ys \<mapsto> ?u)"
    using hx hy ne by (simp_all add: dl_simps fun_upd_twist)
  have "dseg (dl_nx ?m) (dl_pv ?m) ?t head1 xs head2 ?u"
    using dseg_reend [OF dseg_rebase [OF dx, of ?t], of head2] is_dl_distinct [OF x] False ne(2)
    unfolding nx pv by (simp del: dseg.simps)
  moreover have "dseg (dl_nx ?m) (dl_pv ?m) ?u head2 ys None ?t"
  proof -
    have "dl_pv ?m = (dl_pv mem)(hd ys \<mapsto> ?u, hd xs \<mapsto> ?t)" unfolding pv using ne(1) by (simp add: fun_upd_twist)
    then show ?thesis
      using dseg_rebase [OF dy, of ?u] is_dl_distinct [OF y] False ne(3,4) unfolding nx by (simp del: dseg.simps)
  qed
  ultimately show ?thesis using False hx hy by (auto simp: is_dl_def dseg_append)
qed

lemma DL_APPEND_ELEM_list:
  assumes l: "is_dl mem head (xs @ x # ys)" and a: "mem a \<noteq> None" "a \<notin> set (xs @ x # ys)"
  shows "\<exists>mem'. DL_APPEND_ELEM head (Some x) a mem = Some (head, mem') \<and> is_dl mem' head (xs @ x # a # ys) \<and>
    dl_upd (insert a (set (xs @ x # ys))) mem mem'"
proof -
  let ?t = "Some (last (xs @ x # ys))"
  have d: "dseg (dl_nx mem) (dl_pv mem) ?t head ((xs @ [x]) @ ys) None ?t" using l by (simp add: is_dl_ne)
  have dist: "distinct ((xs @ [x]) @ ys)" using is_dl_distinct [OF l] by simp
  have nx: "dl_nx mem x = Some (next_of ys None)" using dseg_at(2) [of "dl_nx mem" "dl_pv mem" ?t head xs x ys] d by simp
  have head: "head = Some (hd (xs @ [x]))" "mem x \<noteq> None" "a \<noteq> x" "mem (hd (xs @ [x])) \<noteq> None" "hd (xs @ [x]) \<noteq> a"
    using is_dl_head [OF l] is_dl_mapped [OF l] a(2) by (cases xs; auto)+
  let ?m = "put_nx x (Some a) (put_pv a (Some x) (put_nx a (next_of ys None) mem))"
  note ins = dseg_insert [OF d dist, of a]
  show ?thesis
  proof (cases ys)
    case Nil
    let ?m' = "put_pv (hd (xs @ [x])) (Some a) ?m"
    have "DL_APPEND_ELEM head (Some x) a mem = Some (head, ?m')"
      using nx head a Nil by (simp add: DL_APPEND_ELEM_def dl_simps next_of_def)
    moreover have "dseg (dl_nx ?m') (dl_pv ?m') (Some a) head ((xs @ [x]) @ [a]) None (Some a)"
      using dseg_rebase [OF ins, of "Some a"] dist head a Nil
      by (simp add: dl_simps set_last_def set_first_def prev_of_def next_of_def fun_upd_twist hd_append split: if_splits)
    ultimately show ?thesis using Nil head by (auto simp: is_dl_def hd_append)
  next
    case (Cons y zs)
    let ?m' = "put_pv y (Some a) ?m"
    have y: "mem y \<noteq> None" "y \<noteq> a" using is_dl_mapped [OF l] a(2) Cons by auto
    have "DL_APPEND_ELEM head (Some x) a mem = Some (head, ?m')"
      using nx head a Cons y by (simp add: DL_APPEND_ELEM_def dl_simps next_of_def)
    moreover have "dseg (dl_nx ?m') (dl_pv ?m') ?t head ((xs @ [x]) @ a # ys) None ?t"
      using ins head a Cons y
      by (simp add: dl_simps set_last_def set_first_def prev_of_def next_of_def fun_upd_twist)
    ultimately show ?thesis using Cons y head by (auto simp: is_dl_def)
  qed
qed

lemma DL_PREPEND_ELEM_list:
  assumes l: "is_dl mem head (xs @ x # ys)" and a: "mem a \<noteq> None" "a \<notin> set (xs @ x # ys)"
  shows "\<exists>mem'. DL_PREPEND_ELEM head (Some x) a mem = Some (if xs = [] then Some a else head, mem') \<and>
    is_dl mem' (if xs = [] then Some a else head) (xs @ a # x # ys) \<and> dl_upd (insert a (set (xs @ x # ys))) mem mem'"
proof -
  let ?t = "Some (last (xs @ x # ys))"
  have d: "dseg (dl_nx mem) (dl_pv mem) ?t head (xs @ x # ys) None ?t" using l by (simp add: is_dl_ne)
  note dist = is_dl_distinct [OF l] and at = dseg_at [OF d]
  have head: "head = Some (hd (xs @ [x]))" "mem x \<noteq> None" "a \<noteq> x"
    using is_dl_head [OF l] is_dl_mapped [OF l] a(2) by (cases xs; auto)+
  have a': "a \<notin> set xs" "a \<notin> set (x # ys)" using a(2) by auto
  note ins = dseg_insert [OF d dist a']
  let ?m = "put_pv x (Some a) (put_pv a (prev_of ?t xs) (put_nx a (Some x) mem))"
  show ?thesis
  proof (cases xs)
    case Nil
    have "DL_PREPEND_ELEM head (Some x) a mem = Some (Some a, ?m)"
      using at(1) head a Nil by (simp add: DL_PREPEND_ELEM_def dl_simps)
    moreover have "dseg (dl_nx ?m) (dl_pv ?m) ?t (Some a) (a # x # ys) None ?t"
      using ins head a Nil
      by (simp add: dl_simps set_last_def set_first_def prev_of_def next_of_def fun_upd_twist)
    ultimately show ?thesis using Nil head by (auto simp: is_dl_def)
  next
    case (Cons z zs)
    then have ne: "xs \<noteq> []" by simp
    let ?m' = "put_nx (last xs) (Some a) ?m"
    have z: "mem (last xs) \<noteq> None" "last xs \<noteq> a" "head \<noteq> Some x" "last xs \<noteq> x" "head \<noteq> None"
      using is_dl_mapped [OF l] a(2) Cons head(1) dist by (auto split: if_splits)
    have "DL_PREPEND_ELEM head (Some x) a mem = Some (head, ?m')"
      using at(1) head(2,3) a ne z by (auto simp: DL_PREPEND_ELEM_def dl_simps prev_of_def)
    moreover have "dl_nx ?m' = (set_last xs (Some a) (dl_nx mem))(a \<mapsto> next_of (x # ys) None)"
      and "dl_pv ?m' = (set_first (x # ys) (Some a) (dl_pv mem))(a \<mapsto> prev_of ?t xs)"
      using z head(2,3) a ne by (auto simp: dl_simps set_last_def set_first_def next_of_def fun_upd_twist)
    with ins ne have "dseg (dl_nx ?m') (dl_pv ?m') ?t head (xs @ a # x # ys) None ?t" by simp
    ultimately show ?thesis using ne z head by (auto simp: is_dl_def)
  qed
qed

lemma DL_REPLACE_ELEM_list:
  assumes l: "is_dl mem head (xs @ x # ys)" and a: "mem a \<noteq> None" "a \<notin> set (xs @ x # ys)"
  shows "\<exists>mem'. DL_REPLACE_ELEM head (Some x) (Some a) mem = Some (if xs = [] then Some a else head, mem') \<and>
    is_dl mem' (if xs = [] then Some a else head) (xs @ a # ys) \<and> dl_upd (insert a (set (xs @ x # ys))) mem mem'"
proof -
  let ?t = "Some (last (xs @ x # ys))"
  have d: "dseg (dl_nx mem) (dl_pv mem) ?t head (xs @ x # ys) None ?t" using l by (simp add: is_dl_ne)
  note dist = is_dl_distinct [OF l] and at = dseg_at [OF d]
  have head: "head = Some (hd (xs @ [x]))" "mem x \<noteq> None" "a \<noteq> x" "mem (hd (xs @ [x])) \<noteq> None" "hd (xs @ [x]) \<noteq> a"
    using is_dl_head [OF l] is_dl_mapped [OF l] a(2) by (cases xs; auto)+
  have a': "a \<notin> set xs" "a \<notin> set ys" "distinct (xs @ ys)" using a(2) dist by auto
  note rp = dseg_replace [OF d a'(3,1,2)]
  have my: "mem (hd ys) \<noteq> None" "hd ys \<noteq> a" if "ys \<noteq> []" using that is_dl_mapped [OF l] a(2) by (cases ys; auto)+
  show ?thesis
  proof (cases xs)
    case Nil
    show ?thesis
    proof (cases ys)
      case Nil2: Nil
      with Nil at head a show ?thesis
        by (auto simp: DL_REPLACE_ELEM_def dl_simps next_of_def is_dl_def)
    next
      case (Cons y zs)
      let ?m = "put_pv y (Some a) (put_pv a ?t (put_nx a (Some y) mem))"
      have "DL_REPLACE_ELEM head (Some x) (Some a) mem = Some (Some a, ?m)"
        using at head a Nil Cons my by (simp add: DL_REPLACE_ELEM_def dl_simps next_of_def prev_of_def)
      moreover have "dseg (dl_nx ?m) (dl_pv ?m) ?t (Some a) (a # ys) None ?t"
        using rp head a Nil Cons my
        by (simp add: dl_simps set_last_def set_first_def prev_of_def next_of_def fun_upd_twist)
      ultimately show ?thesis using Nil Cons by (auto simp: is_dl_def)
    qed
  next
    case (Cons z zs)
    have z: "mem (last xs) \<noteq> None" "last xs \<noteq> a" "head \<noteq> Some x" "head \<noteq> None" "xs \<noteq> []" "last xs \<noteq> x"
      using is_dl_mapped [OF l] a(2) Cons head(1) dist by (auto split: if_splits)
    let ?m = "put_nx (last xs) (Some a) (put_pv a (Some (last xs)) (put_nx a (next_of ys None) mem))"
    show ?thesis
    proof (cases ys)
      case Nil
      let ?m' = "put_pv (hd xs) (Some a) ?m"
      have hx: "head = Some (hd xs)" "mem (hd xs) \<noteq> None" "hd xs \<noteq> a" using head Cons by auto
      have "Some (hd xs) \<noteq> Some x" using z(3) hx(1) by simp
      then have "DL_REPLACE_ELEM head (Some x) (Some a) mem = Some (head, ?m')"
        using at head(2,3) a Nil z(1,2,5,6) hx by (simp add: DL_REPLACE_ELEM_def dl_simps next_of_def prev_of_def)
      moreover have "dl_nx ?m' = (set_last xs (Some a) (dl_nx mem))(a \<mapsto> next_of ys None)"
        and "dl_pv ?m' = ((set_first ys (Some a) (dl_pv mem))(a \<mapsto> prev_of ?t xs))(hd (xs @ a # ys) \<mapsto> Some a)"
        using z hx a Nil by (auto simp: dl_simps set_last_def set_first_def next_of_def prev_of_def fun_upd_twist)
      with dseg_rebase [OF rp, of "Some a"] a' Nil z(5)
      have "dseg (dl_nx ?m') (dl_pv ?m') (Some a) head (xs @ [a]) None (Some a)" by simp
      ultimately show ?thesis using z hx Nil by (auto simp: is_dl_def)
    next
      case ys: (Cons y ws)
      let ?m' = "put_pv y (Some a) ?m"
      have "DL_REPLACE_ELEM head (Some x) (Some a) mem = Some (head, ?m')"
        using at head(2,3) a ys z my by (auto simp: DL_REPLACE_ELEM_def dl_simps next_of_def prev_of_def)
      moreover have "dl_nx ?m' = (set_last xs (Some a) (dl_nx mem))(a \<mapsto> next_of ys None)"
        and "dl_pv ?m' = (set_first ys (Some a) (dl_pv mem))(a \<mapsto> prev_of ?t xs)"
        using z my a ys by (auto simp: dl_simps set_last_def set_first_def next_of_def prev_of_def fun_upd_twist)
      with rp z(5) ys have "dseg (dl_nx ?m') (dl_pv ?m') ?t head (xs @ a # ys) None ?t" by simp
      ultimately show ?thesis using z ys my by (auto simp: is_dl_def)
    qed
  qed
qed

subsection \<open>What the walking macros find\<close>

definition dl_cmp_is :: "('a \<Rightarrow> 'b \<Rightarrow> int option) \<Rightarrow> 'b \<Rightarrow> (addr \<Rightarrow> int) \<Rightarrow> 'a dl_mem \<Rightarrow> addr set \<Rightarrow> bool" where
  "dl_cmp_is cmp e c mem S \<longleftrightarrow> (\<forall>a \<in> S. \<exists>v. dl_data mem a = Some v \<and> cmp v e = Some (c a))"

lemma dl_cmp_at: "dl_cmp_is cmp e c mem S \<Longrightarrow> a \<in> S \<Longrightarrow> dl_cmp cmp (Some a) e mem = Some (c a)"
  by (auto simp: dl_cmp_is_def dl_cmp_def dl_data_def)

lemma dl_cmp_is_sub: "dl_cmp_is cmp e c mem S \<Longrightarrow> T \<subseteq> S \<Longrightarrow> dl_cmp_is cmp e c mem T"
  by (auto simp: dl_cmp_is_def)

lemma DL_FOREACH_list: "is_dl mem head xs \<Longrightarrow> DL_FOREACH head mem = Some xs"
proof (drule is_dl_chain, induction xs arbitrary: head)
  case Nil
  then show ?case by (simp add: DL_FOREACH.simps)
next
  case (Cons x xs)
  then show ?case by (auto simp: DL_FOREACH.simps [of "Some x"])
qed

lemma dl_count_list:
  "chain (dl_nx mem) p xs \<Longrightarrow> is_int (c + int (length xs)) \<Longrightarrow> is_int c \<Longrightarrow> dl_count p mem c = Some (c + int (length xs))"
proof (induction xs arbitrary: p c)
  case Nil
  then show ?case by (simp add: dl_count.simps)
next
  case (Cons x xs)
  from Cons.prems have "is_int (c + 1)" by (auto simp: is_int_def)
  with Cons show ?case by (auto simp: dl_count.simps [of "Some x"] c_int_def algebra_simps)
qed

lemma DL_COUNT_list:
  "is_dl mem head xs \<Longrightarrow> int (length xs) \<le> INT_MAX \<Longrightarrow> DL_COUNT head mem = Some (int (length xs))"
  using dl_count_list [OF is_dl_chain, of mem head xs 0] by (simp add: DL_COUNT_def is_int_def INT_MIN_def INT_MAX_def)

lemma DL_SEARCH_list:
  "is_dl mem head xs \<Longrightarrow> dl_cmp_is cmp e c mem (set xs) \<Longrightarrow>
   DL_SEARCH head e cmp mem = Some (find (\<lambda>a. c a = 0) xs)"
proof (drule is_dl_chain, induction xs arbitrary: head)
  case Nil
  then show ?case by (simp add: DL_SEARCH.simps)
next
  case (Cons x xs)
  then have "dl_cmp_is cmp e c mem (set xs)" by (simp add: dl_cmp_is_def)
  with Cons show ?case
    by (auto simp: DL_SEARCH.simps [of "Some x"] dl_cmp_at [OF Cons.prems(1)])
qed

lemma dl_bound_list:
  assumes "chain (dl_nx mem) p (x # xs)" "dl_cmp_is cmp e c mem (set xs)"
  shows "dl_bound p e cmp mem = Some (Some (last (x # takeWhile (\<lambda>a. c a < 0) xs)))"
  using assms
proof (induction xs arbitrary: p x)
  case Nil
  then show ?case by (auto simp: dl_bound.simps)
next
  case (Cons y ys)
  from Cons.prems(1) have p: "p = Some x" "dl_nx mem x = Some (Some y)"
    "chain (dl_nx mem) (Some y) (y # ys)" by auto
  have "dl_cmp_is cmp e c mem (set ys)" using Cons.prems(2) by (simp add: dl_cmp_is_def)
  note IH = Cons.IH [OF p(3) this]
  have "dl_cmp cmp (Some y) e mem = Some (c y)" by (rule dl_cmp_at [OF Cons.prems(2)]) simp
  with IH p show ?case by (subst dl_bound.simps) (auto simp: not_le not_less)
qed

text \<open>The bound is the last of the nodes that come before the new one, if there is any.\<close>

lemma DL_LOWER_BOUND_list:
  assumes "is_dl mem head xs" "xs \<noteq> []" "dl_cmp_is cmp e c mem (set xs)"
  shows "DL_LOWER_BOUND head e cmp mem = Some (prev_of None (takeWhile (\<lambda>a. c a < 0) xs))"
proof (cases xs)
  case (Cons x zs)
  have h: "head = Some x" "chain (dl_nx mem) head (x # zs)" using is_dl_chain [OF assms(1)] Cons by auto
  have cx: "dl_cmp cmp (Some x) e mem = Some (c x)" by (rule dl_cmp_at [OF assms(3)]) (simp add: Cons)
  have "dl_cmp_is cmp e c mem (set zs)" using assms(3) Cons by (simp add: dl_cmp_is_def)
  with h cx dl_bound_list [OF h(2) this] Cons show ?thesis
    by (auto simp: DL_LOWER_BOUND_def prev_of_def)
qed (use assms in simp)

lemma split_takeWhile:
  assumes "takeWhile P xs \<noteq> []"
  shows "xs = butlast (takeWhile P xs) @ last (takeWhile P xs) # dropWhile P xs"
  using assms by (metis append_Cons append_Nil append_assoc append_butlast_last_id takeWhile_dropWhile_id)

lemma DL_INSERT_INORDER_list:
  assumes l: "is_dl mem head xs" and a: "dl_data mem a = Some v" "a \<notin> set xs"
    and c: "dl_cmp_is cmp v c mem (set xs)"
  shows "\<exists>h mem'. DL_INSERT_INORDER head a cmp mem = Some (h, mem') \<and>
    is_dl mem' h (takeWhile (\<lambda>x. c x < 0) xs @ a # dropWhile (\<lambda>x. c x < 0) xs) \<and>
    dl_upd (insert a (set xs)) mem mem'"
proof -
  from a(1) obtain n where n: "mem a = Some n" "dl_val n = v" by (auto simp: dl_data_def)
  let ?w = "takeWhile (\<lambda>x. c x < 0) xs" and ?d = "dropWhile (\<lambda>x. c x < 0) xs"
  consider "xs = []" | "xs \<noteq> []" "?w = []" | "xs \<noteq> []" "?w \<noteq> []" by blast
  then show ?thesis
  proof cases
    case 1
    with l n show ?thesis by (auto simp: DL_INSERT_INORDER_def dl_simps is_dl_def)
  next
    case 2
    then have "?d = xs" by (metis append_Nil takeWhile_dropWhile_id)
    moreover have "DL_INSERT_INORDER head a cmp mem = DL_PREPEND head a mem"
      using DL_LOWER_BOUND_list [OF l 2(1) c] 2 is_dl_head [OF l 2(1)] n
      by (simp add: DL_INSERT_INORDER_def DL_APPEND_ELEM_def prev_of_def)
    ultimately show ?thesis using DL_PREPEND_list [OF l _ a(2)] n 2(2) by auto
  next
    case 3
    note sp = split_takeWhile [OF 3(2)]
    have "DL_INSERT_INORDER head a cmp mem = DL_APPEND_ELEM head (Some (last ?w)) a mem"
      using DL_LOWER_BOUND_list [OF l 3(1) c] 3(2) is_dl_head [OF l 3(1)] n
      by (simp add: DL_INSERT_INORDER_def prev_of_def)
    moreover obtain mem' where "DL_APPEND_ELEM head (Some (last ?w)) a mem = Some (head, mem')"
      "is_dl mem' head (butlast ?w @ last ?w # a # ?d)" "dl_upd (insert a (set xs)) mem mem'"
      using DL_APPEND_ELEM_list [of mem head "butlast ?w" "last ?w" ?d a] l a n unfolding sp [symmetric] by auto
    moreover have "butlast ?w @ last ?w # a # ?d = ?w @ a # ?d"
      using 3(2) by (metis append_Cons append_Nil append_assoc append_butlast_last_id)
    ultimately show ?thesis by auto
  qed
qed

text \<open>
  The variant without decltype has no end: when every node comes before the new one its
  loop compares NULL.
\<close>

lemma dl_walk_nd_runs_off:
  assumes "chain (dl_nx mem) p (x # xs)" "dl_cmp_is cmp e c mem (set xs)" "\<forall>a \<in> set xs. c a < 0" "tmp = Some t" "t \<notin> set xs"
  shows "dl_walk_nd tmp p e cmp mem = None"
  using assms
proof (induction xs arbitrary: p x)
  case Nil
  then show ?case by (auto simp: dl_walk_nd.simps dl_cmp_def)
next
  case (Cons y ys)
  from Cons.prems(1) have p: "p = Some x" "dl_nx mem x = Some (Some y)"
    "chain (dl_nx mem) (Some y) (y # ys)" by auto
  have "dl_cmp_is cmp e c mem (set ys)" using Cons.prems(2) by (simp add: dl_cmp_is_def)
  note IH = Cons.IH [OF p(3) this]
  have "dl_cmp cmp (Some y) e mem = Some (c y)" by (rule dl_cmp_at [OF Cons.prems(2)]) simp
  with IH p Cons.prems show ?case by (subst dl_walk_nd.simps) auto
qed

lemma DL_INSERT_INORDER_nd_undefined:
  assumes l: "is_dl mem head xs" "xs \<noteq> []" and a: "dl_data mem a = Some v"
    and c: "dl_cmp_is cmp v c mem (set xs)" "\<forall>x \<in> set xs. c x < 0"
  shows "DL_INSERT_INORDER_nd head a cmp mem = None"
proof (cases xs)
  case (Cons x zs)
  from a obtain n where n: "mem a = Some n" "dl_val n = v" by (auto simp: dl_data_def)
  have h: "head = Some x" "chain (dl_nx mem) head (x # zs)" using is_dl_chain [OF l(1)] Cons by auto
  have "dl_cmp cmp (Some x) v mem = Some (c x)" by (rule dl_cmp_at [OF c(1)]) (simp add: Cons)
  moreover have "dl_walk_nd head head v cmp mem = None"
    using dl_walk_nd_runs_off [OF h(2), of cmp v c head x] c Cons is_dl_distinct [OF l(1)] h(1)
    by (auto simp: dl_cmp_is_def)
  ultimately show ?thesis using n c(2) Cons h(1) by (auto simp: DL_INSERT_INORDER_nd_def)
qed (use l in simp)

subsection \<open>Sorting\<close>

definition dl_merged :: "'a dl_mem \<Rightarrow> addr option \<Rightarrow> addr option \<Rightarrow> addr list \<Rightarrow> bool" where
  "dl_merged mem list tail out \<longleftrightarrow>
     (if out = [] then list = None \<and> tail = None
      else tail = Some (last out) \<and> (\<exists>r. dseg (dl_nx mem) (dl_pv mem) None list out r (Some (last out))))"

definition dl_cmp_nodes :: "'a ll_cmp \<Rightarrow> 'a dl_mem \<Rightarrow> addr \<Rightarrow> addr \<Rightarrow> int option" where
  "dl_cmp_nodes cmp mem a b = do { u \<leftarrow> dl_data mem a; v \<leftarrow> dl_data mem b; cmp u v }"

lemma dl_cmp_nodes_at:
  "dl_cmp_nodes cmp mem a b = Some c \<longleftrightarrow> (\<exists>n. mem b = Some n \<and> dl_cmp cmp (Some a) (dl_val n) mem = Some c)"
  by (auto simp: dl_cmp_nodes_def dl_cmp_def dl_data_def bind_Some_iff)

lemma ds_emit_list:
  assumes m: "dl_merged mem list tail out" and e: "mem e \<noteq> None" "distinct (out @ [e])"
  shows "\<exists>list' mem'. ds_emit (Some e) list tail mem = Some (list', mem') \<and>
    dl_merged mem' list' (Some e) (out @ [e]) \<and> dl_upd (insert e (set out)) mem mem'"
proof (cases "out = []")
  case True
  obtain r where "dl_nx mem e = Some r" using e(1) by (metis dl_links_None(1) option.exhaust)
  with True m e show ?thesis by (auto simp: dl_merged_def ds_emit_def dl_simps)
next
  case False
  let ?t = "last out"
  let ?m = "put_pv e (Some ?t) (put_nx ?t (Some e) mem)"
  from m False obtain r where t: "tail = Some ?t" and d: "dseg (dl_nx mem) (dl_pv mem) None list out r (Some ?t)"
    by (auto simp: dl_merged_def)
  have tm: "mem ?t \<noteq> None" "?t \<noteq> e" "e \<notin> set out"
    using dseg_mapped [OF d, of ?t] False e(2) by auto
  have "dseg (dl_nx ?m) (dl_pv ?m) None list out (Some e) (Some ?t)"
    using dseg_reend [OF d _ False, of "Some e"] e tm by (simp add: dl_simps del: dseg.simps)
  moreover obtain r' where "dl_nx mem e = Some r'" using e(1) by (metis dl_links_None(1) option.exhaust)
  ultimately have "dseg (dl_nx ?m) (dl_pv ?m) None list (out @ [e]) r' (Some e)"
    using tm e(1) unfolding dseg_append by (auto simp: dl_simps)
  then have "dl_merged ?m list (Some e) (out @ [e])" by (auto simp: dl_merged_def)
  with t tm e False show ?thesis by (auto simp: ds_emit_def dl_simps)
qed

lemma ds_close_list:
  assumes m: "dl_merged mem list tail out" and ne: "out \<noteq> []" "distinct out"
  obtains mem' where "ds_close e list tail mem = Some mem'" "list = Some (hd out)" "tail = Some (last out)"
    "dseg (dl_nx mem') (dl_pv mem') tail list out e tail" "dl_upd (set out) mem mem'"
proof -
  from m ne obtain r where t: "tail = Some (last out)" and d: "dseg (dl_nx mem) (dl_pv mem) None list out r tail"
    by (auto simp: dl_merged_def)
  have h: "list = Some (hd out)" "mem (hd out) \<noteq> None" "mem (last out) \<noteq> None"
    using dseg_hd [OF d] dseg_mapped [OF d] ne by auto
  let ?m = "put_nx (last out) e (put_pv (hd out) tail mem)"
  have "dseg (dl_nx ?m) (dl_pv ?m) tail list out e tail"
    using dseg_reend [OF dseg_rebase [OF d ne(2,1), of tail] ne(2,1), of e] h by (simp add: dl_simps del: dseg.simps)
  with that [of ?m] h t ne show thesis by (simp add: ds_close_def dl_simps)
qed

text \<open>The recursion of the loops, for any way rd to follow a link.\<close>

lemma ds_step_rec:
  "n \<le> i \<Longrightarrow> ds_step rd i n q ps m = Some (q, ps)"
  "i < n \<Longrightarrow> rd (Some a) m = Some None \<Longrightarrow> ds_step rd i n (Some a) ps m = Some (None, ps + 1)"
  "i < n \<Longrightarrow> rd (Some a) m = Some (Some b) \<Longrightarrow> ds_step rd i n (Some a) ps m = ds_step rd (i + 1) n (Some b) (ps + 1) m"
  by (subst ds_step.simps; simp)+

lemma ds_merge_rec:
  "ps = 0 \<Longrightarrow> qs = 0 \<or> q = None \<Longrightarrow> ds_merge rd cmp p q ps qs l t m = Some (q, l, t, m)"
  "rd (Some e) m = Some p' \<Longrightarrow> ds_emit (Some e) l t m = Some (l', m') \<Longrightarrow> 0 < ps \<Longrightarrow>
    qs = 0 \<or> q = None \<or> (\<exists>b c. q = Some b \<and> dl_cmp_nodes cmp m e b = Some c \<and> c \<le> 0) \<Longrightarrow>
    ds_merge rd cmp (Some e) q ps qs l t m = ds_merge rd cmp p' q (ps - 1) qs l' (Some e) m'"
  "rd (Some e) m = Some q' \<Longrightarrow> ds_emit (Some e) l t m = Some (l', m') \<Longrightarrow> 0 < qs \<Longrightarrow> 0 \<le> ps \<Longrightarrow>
    ps = 0 \<or> (\<exists>a c. p = Some a \<and> dl_cmp_nodes cmp m a e = Some c \<and> \<not> c \<le> 0) \<Longrightarrow>
    ds_merge rd cmp p (Some e) ps qs l t m = ds_merge rd cmp p q' ps (qs - 1) l' (Some e) m'"
  by (subst ds_merge.simps; auto simp: dl_cmp_nodes_at)+

lemma ds_pass_rec:
  "ds_pass rd cmp n None l t k m = Some (l, t, k, m)"
  "ds_step rd 0 n (Some a) 0 m = Some (q, ps) \<Longrightarrow> ds_merge rd cmp (Some a) q ps n l t m = Some (p', l', t', m') \<Longrightarrow>
    0 \<le> k \<Longrightarrow> k < 2 ^ 30 \<Longrightarrow> ds_pass rd cmp n (Some a) l t k m = ds_pass rd cmp n p' l' t' (k + 1) m'"
  by (subst ds_pass.simps; simp add: c_int_def is_int_def INT_MAX_def INT_MIN_def)+

lemma c_int_double: "0 < n \<Longrightarrow> n = 1 \<or> n < 2 ^ 30 \<Longrightarrow> c_int (n * 2) = Some (n * 2)"
  by (auto simp: c_int_def is_int_def INT_MAX_def INT_MIN_def)

lemma dl_upd_cmp: "dl_upd S m m' \<Longrightarrow> dl_cmp_nodes cmp m' a b = dl_cmp_nodes cmp m a b"
  by (simp add: dl_cmp_nodes_def dl_upd_def)

interpretation ds: merge_sort "\<lambda>_. dl_nx" "dl_cmp_nodes cmp" dl_upd dl_merged is_dl "\<lambda>e. ds_emit (Some e)"
  "ds_close None" "\<lambda>_. ds_step get_nx" "\<lambda>_. ds_merge get_nx cmp" "\<lambda>_. ds_pass get_nx cmp" "ds_loop cmp"
  "\<lambda>l t m. (l, m)" "2 ^ 30"
  for cmp :: "'a ll_cmp"
proof (unfold_locales, goal_cases)
  case 1 show ?case by simp
next
  case 2 then show ?case by (rule dl_upd_trans)
next
  case 3 then show ?case by (simp add: dl_upd_links)
next
  case 4 then show ?case by (rule dl_upd_cmp)
next
  case 5 show ?case by (simp add: dl_merged_def)
next
  case 6 then show ?case by (intro ds_emit_list) auto
next
  case (7 m l t out)
  then obtain m' where "ds_close None l t m = Some m'" "dseg (dl_nx m') (dl_pv m') t l out None t" "dl_upd (set out) m m'"
    by (rule ds_close_list)
  then show ?case by (auto simp: is_dl_def)
next
  case 8 then show ?case by (simp add: dl_merged_def)
next
  case 9 then show ?case by (simp add: is_dl_chain)
next
  case 18 then show ?case by (subst ds_loop.simps) (simp add: c_int_double)
qed (simp_all add: ds_step_rec ds_merge_rec ds_pass_rec)

text \<open>The comparison of the program as an order on the nodes.\<close>

definition dl_cmp_le :: "'a ll_cmp \<Rightarrow> (addr \<Rightarrow> addr \<Rightarrow> bool) \<Rightarrow> 'a dl_mem \<Rightarrow> addr set \<Rightarrow> bool" where
  "dl_cmp_le cmp le mem S \<longleftrightarrow> (\<forall>a \<in> S. \<forall>b \<in> S. \<exists>u v c. dl_data mem a = Some u \<and> dl_data mem b = Some v \<and>
     cmp u v = Some c \<and> (le a b \<longleftrightarrow> c \<le> 0))"

lemma dl_cmp_le_ordered: "dl_cmp_le cmp le mem S \<Longrightarrow> ds.ordered cmp mem le S"
  unfolding dl_cmp_le_def ds.ordered_def by (fastforce simp: dl_cmp_nodes_def)

lemma DL_SORT_list:
  assumes "is_dl mem head xs" "dl_cmp_le cmp le mem (set xs)" "length xs \<le> 2 ^ 30"
  shows "\<exists>head' mem'. DL_SORT head cmp mem = Some (head', mem') \<and>
    is_dl mem' head' (bsort le 1 xs) \<and> dl_upd (set xs) mem mem'"
proof (cases "xs = []")
  case True
  with assms show ?thesis by (auto simp: DL_SORT_def bsort_Nil)
next
  case False
  then have "head \<noteq> None" using assms(1) by (cases head) auto
  with ds.sort_list [OF assms(1) False is_dl_distinct [OF assms(1)] dl_cmp_le_ordered [OF assms(2)]] assms(3) show ?thesis
    by (simp add: DL_SORT_def)
qed

subsection \<open>What the CDL macros do to the list\<close>

definition is_cdl :: "'a dl_mem \<Rightarrow> addr option \<Rightarrow> addr list \<Rightarrow> bool" where
  "is_cdl mem head xs \<longleftrightarrow>
     (if xs = [] then head = None else head = Some (hd xs) \<and> ring (dl_nx mem) (dl_pv mem) xs)"

lemma is_cdl_None [simp]: "is_cdl mem None xs \<longleftrightarrow> xs = []"
  and is_cdl_Nil [simp]: "is_cdl mem head [] \<longleftrightarrow> head = None"
  by (simp_all add: is_cdl_def)

lemma is_cdl_ne: "xs \<noteq> [] \<Longrightarrow> is_cdl mem head xs \<longleftrightarrow> head = Some (hd xs) \<and> ring (dl_nx mem) (dl_pv mem) xs"
  by (simp add: is_cdl_def)

lemma is_cdl_distinct: "is_cdl mem head xs \<Longrightarrow> distinct xs"
  by (auto simp: is_cdl_def ring_distinct split: if_splits)

lemma is_cdl_mapped: "is_cdl mem head xs \<Longrightarrow> a \<in> set xs \<Longrightarrow> mem a \<noteq> None"
  using ring_mapped [of "dl_nx mem" "dl_pv mem" xs a] by (auto simp: is_cdl_def split: if_splits)

lemma CDL_APPEND_list:
  assumes l: "is_cdl mem head xs" and a: "mem a \<noteq> None" "a \<notin> set xs"
  shows "\<exists>head' mem'. CDL_APPEND head a mem = Some (head', mem') \<and> is_cdl mem' head' (xs @ [a]) \<and>
    (xs \<noteq> [] \<longrightarrow> head' = head) \<and> dl_upd (insert a (set xs)) mem mem' \<and>
    CDL_PREPEND head a mem = Some (Some a, mem')"
proof (cases "xs = []")
  case True
  let ?m = "put_nx a (Some a) (put_pv a (Some a) mem)"
  have "ring (dl_nx ?m) (dl_pv ?m) [a]" using a by (intro ring_single) (simp_all add: dl_simps)
  with True l a show ?thesis by (auto simp: CDL_APPEND_def CDL_PREPEND_def dl_simps is_cdl_def)
next
  case False
  have r: "ring (dl_nx mem) (dl_pv mem) xs" and h: "head = Some (hd xs)" using l False by (simp_all add: is_cdl_ne)
  have m: "mem (hd xs) \<noteq> None" "mem (last xs) \<noteq> None" "hd xs \<noteq> a" "last xs \<noteq> a"
    using is_cdl_mapped [OF l] a(2) False by auto
  let ?m = "put_nx (last xs) (Some a) (put_pv (hd xs) (Some a) (put_nx a head (put_pv a (Some (last xs)) mem)))"
  have "CDL_APPEND head a mem = Some (head, ?m)" "CDL_PREPEND head a mem = Some (Some a, ?m)"
    using ring_head [OF r] h m a by (simp_all add: CDL_APPEND_def CDL_PREPEND_def dl_simps)
  moreover have "ring (dl_nx ?m) (dl_pv ?m) (xs @ [a])"
    using ring_add [OF r a(2)] m a h by (simp add: dl_simps fun_upd_twist)
  ultimately show ?thesis using False h m by (auto simp: is_cdl_ne)
qed

lemma CDL_PREPEND_list:
  assumes "is_cdl mem head xs" "mem a \<noteq> None" "a \<notin> set xs"
  shows "\<exists>mem'. CDL_PREPEND head a mem = Some (Some a, mem') \<and> is_cdl mem' (Some a) (a # xs) \<and>
    dl_upd (insert a (set xs)) mem mem'"
proof -
  obtain h m' where *: "is_cdl m' h (xs @ [a])" "CDL_PREPEND head a mem = Some (Some a, m')"
    "dl_upd (insert a (set xs)) mem m'"
    using CDL_APPEND_list [OF assms] by blast
  then have "ring (dl_nx m') (dl_pv m') (a # xs)" using ring_turn [of _ _ "[]" a xs] by (simp add: is_cdl_ne)
  with * show ?thesis by (auto simp: is_cdl_ne)
qed

text \<open>A ring around a node x: z are the others, from the one after x on.\<close>

lemma is_cdl_around:
  assumes l: "is_cdl mem head (xs @ x # ys)"
  obtains z where "z = ys @ xs" "ring (dl_nx mem) (dl_pv mem) (z @ [x])" "head = Some (hd (xs @ [x]))" "head = Some x \<longleftrightarrow> xs = []"
    "x \<notin> set z" "set z = set xs \<union> set ys" "distinct z" "mem x \<noteq> None" "\<And>b. b \<in> set z \<Longrightarrow> mem b \<noteq> None"
    "\<And>nx pv. ring nx pv (xs @ ys) \<longleftrightarrow> ring nx pv z" "\<And>nx pv a. ring nx pv (xs @ a # ys) \<longleftrightarrow> ring nx pv (z @ [a])"
    "\<And>nx pv a b. ring nx pv (xs @ b # a # ys) \<longleftrightarrow> ring nx pv (z @ [b, a])"
proof (rule that)
  show "ys @ xs = ys @ xs" ..
  show "ring (dl_nx mem) (dl_pv mem) ((ys @ xs) @ [x])" and h: "head = Some (hd (xs @ [x]))"
    using l ring_turn [of _ _ xs x ys] by (simp_all add: is_cdl_ne hd_append)
  show "head = Some x \<longleftrightarrow> xs = []" using h is_cdl_distinct [OF l] by (cases xs) auto
  show "x \<notin> set (ys @ xs)" "set (ys @ xs) = set xs \<union> set ys" "distinct (ys @ xs)"
    using is_cdl_distinct [OF l] by auto
  show "mem x \<noteq> None" "\<And>b. b \<in> set (ys @ xs) \<Longrightarrow> mem b \<noteq> None" using is_cdl_mapped [OF l] by auto
  show "\<And>nx pv. ring nx pv (xs @ ys) \<longleftrightarrow> ring nx pv (ys @ xs)" by (rule ring_rotate)
  show "\<And>nx pv a. ring nx pv (xs @ a # ys) \<longleftrightarrow> ring nx pv ((ys @ xs) @ [a])" by (rule ring_turn)
  show "\<And>nx pv a b. ring nx pv (xs @ b # a # ys) \<longleftrightarrow> ring nx pv ((ys @ xs) @ [b, a])"
    using ring_rotate [of _ _ "xs @ [b, a]" ys for a b] by simp
qed

lemma CDL_DELETE_list:
  assumes l: "is_cdl mem head (xs @ x # ys)"
  shows "\<exists>head' mem'. CDL_DELETE head x mem = Some (head', mem') \<and> is_cdl mem' head' (xs @ ys) \<and>
    dl_upd (set (xs @ x # ys)) mem mem'"
proof -
  from l obtain z where z: "z = ys @ xs" "ring (dl_nx mem) (dl_pv mem) (z @ [x])" "head = Some (hd (xs @ [x]))"
    "head = Some x \<longleftrightarrow> xs = []" "x \<notin> set z" "set z = set xs \<union> set ys" "mem x \<noteq> None" "\<And>b. b \<in> set z \<Longrightarrow> mem b \<noteq> None"
    "\<And>nx pv. ring nx pv (xs @ ys) \<longleftrightarrow> ring nx pv z"
    by (rule is_cdl_around) blast
  show ?thesis
  proof (cases "z = []")
    case True
    then have "xs = []" "ys = []" using z(1) by auto
    moreover have "dl_nx mem x = Some (Some x)" using ring_last(1) [OF z(2)] True by simp
    ultimately show ?thesis using z(3) by (auto simp: CDL_DELETE_def)
  next
    case False
    define h t where ht: "h = hd z" "t = last z"
    have links: "dl_nx mem x = Some (Some h)" "dl_pv mem x = Some (Some t)"
      using ring_last [OF z(2)] False by (simp_all add: ht)
    have mem: "h \<in> set z" "t \<in> set z" using False by (simp_all add: ht)
    then have ne: "h \<noteq> x" "t \<noteq> x" "mem h \<noteq> None" "mem t \<noteq> None" using z(5,8) by auto
    let ?m = "put_nx t (Some h) (put_pv h (Some t) mem)"
    have "ring (dl_nx ?m) (dl_pv ?m) z" using ring_remove [OF z(2) False] ne by (simp add: dl_simps ht)
    then have r: "ring (dl_nx ?m) (dl_pv ?m) (xs @ ys)" by (simp only: z(9))
    have "xs = [] \<Longrightarrow> h = hd (xs @ ys)" "xs \<noteq> [] \<Longrightarrow> head = Some (hd (xs @ ys))" using z(1,3) ht by auto
    then have "(if xs = [] then Some h else head) = Some (hd (xs @ ys))" by (cases "xs = []") simp_all
    moreover have "xs @ ys \<noteq> []" using False z(1) by auto
    ultimately have "is_cdl ?m (if xs = [] then Some h else head) (xs @ ys)" using r by (subst is_cdl_ne) (assumption, rule conjI)
    moreover have "CDL_DELETE head x mem = Some (if xs = [] then Some h else head, ?m)"
      using links ne z(4) by (cases "xs = []") (simp_all add: CDL_DELETE_def dl_simps)
    moreover have "dl_upd (set (xs @ x # ys)) mem ?m" using mem z(6) by auto
    ultimately show ?thesis by blast
  qed
qed

lemma CDL_APPEND_ELEM_list:
  assumes l: "is_cdl mem head (xs @ x # ys)" and a: "mem a \<noteq> None" "a \<notin> set (xs @ x # ys)"
  shows "\<exists>mem'. CDL_APPEND_ELEM head (Some x) a mem = Some (head, mem') \<and> is_cdl mem' head (xs @ x # a # ys) \<and>
    dl_upd (insert a (set (xs @ x # ys))) mem mem'"
proof -
  from l obtain z where z: "ring (dl_nx mem) (dl_pv mem) (z @ [x])" "head = Some (hd (xs @ [x]))"
    "set z = set xs \<union> set ys" "mem x \<noteq> None" "\<And>b. b \<in> set z \<Longrightarrow> mem b \<noteq> None"
    "\<And>nx pv a. ring nx pv (xs @ x # a # ys) \<longleftrightarrow> ring nx pv (z @ [x, a])"
    by (rule is_cdl_around) blast
  define h where h: "h = hd (z @ [x])"
  have nx: "dl_nx mem x = Some (Some h)" using ring_last(1) [OF z(1)] by (simp only: h)
  have hz: "h \<in> set (z @ [x])" unfolding h by (rule hd_in_set) simp
  then have m: "mem h \<noteq> None" "h \<noteq> a" "x \<noteq> a" "a \<notin> set (z @ [x])" using z(3-5) a(2) by auto
  let ?m = "put_pv h (Some a) (put_nx x (Some a) (put_pv a (Some x) (put_nx a (Some h) mem)))"
  have "ring (dl_nx ?m) (dl_pv ?m) ((z @ [x]) @ [a])"
    using ring_add [OF z(1) m(4)] a m z(4) by (simp add: dl_simps fun_upd_twist h del: append_assoc)
  then have "ring (dl_nx ?m) (dl_pv ?m) (xs @ x # a # ys)" using z(6) by simp
  then have "is_cdl ?m head (xs @ x # a # ys)" using z(2) by (simp add: is_cdl_ne hd_append)
  moreover have "CDL_APPEND_ELEM head (Some x) a mem = Some (head, ?m)"
    using nx z(2,4) m a by (simp add: CDL_APPEND_ELEM_def dl_simps)
  moreover have "dl_upd (insert a (set (xs @ x # ys))) mem ?m" using hz z(3) by auto
  ultimately show ?thesis by blast
qed

lemma CDL_PREPEND_ELEM_list:
  assumes l: "is_cdl mem head (xs @ x # ys)" and a: "mem a \<noteq> None" "a \<notin> set (xs @ x # ys)"
  shows "\<exists>mem'. CDL_PREPEND_ELEM head (Some x) a mem = Some (if xs = [] then Some a else head, mem') \<and>
    is_cdl mem' (if xs = [] then Some a else head) (xs @ a # x # ys) \<and> dl_upd (insert a (set (xs @ x # ys))) mem mem'"
proof -
  from l obtain z where z: "z = ys @ xs" "ring (dl_nx mem) (dl_pv mem) (z @ [x])" "head = Some (hd (xs @ [x]))"
    "head = Some x \<longleftrightarrow> xs = []" "set z = set xs \<union> set ys" "mem x \<noteq> None" "\<And>b. b \<in> set z \<Longrightarrow> mem b \<noteq> None"
    by (rule is_cdl_around) blast
  have r: "ring (dl_nx mem) (dl_pv mem) (x # z)" using z(2) ring_rotate [of _ _ z "[x]"] by simp
  define t where t: "t = last (x # z)"
  have pv: "dl_pv mem x = Some (Some t)" using ring_head(1) [OF r] by (simp only: t list.sel)
  have tz: "t \<in> set (x # z)" unfolding t by (rule last_in_set) simp
  then have m: "mem t \<noteq> None" "t \<noteq> a" "x \<noteq> a" "a \<notin> set (x # z)" using z(5-7) a(2) by auto
  let ?m = "put_nx t (Some a) (put_pv x (Some a) (put_pv a (Some t) (put_nx a (Some x) mem)))"
  have "ring (dl_nx ?m) (dl_pv ?m) ((x # z) @ [a])"
    using ring_add [OF r m(4)] a m z(6) by (simp add: dl_simps fun_upd_twist t del: last.simps)
  then have "ring (dl_nx ?m) (dl_pv ?m) (xs @ a # x # ys)"
    using ring_rotate [of _ _ "x # ys" "xs @ [a]"] z(1) by simp
  then have "is_cdl ?m (if xs = [] then Some a else head) (xs @ a # x # ys)"
    using z(3) by (cases xs) (simp_all add: is_cdl_ne)
  moreover have "CDL_PREPEND_ELEM head (Some x) a mem = Some (if xs = [] then Some a else head, ?m)"
    using pv z(3,4,6) m a by (cases "xs = []") (simp_all add: CDL_PREPEND_ELEM_def dl_simps)
  moreover have "dl_upd (insert a (set (xs @ x # ys))) mem ?m" using tz z(5) by auto
  ultimately show ?thesis by blast
qed

lemma CDL_REPLACE_ELEM_list:
  assumes l: "is_cdl mem head (xs @ x # ys)" and a: "mem a \<noteq> None" "a \<notin> set (xs @ x # ys)"
  shows "\<exists>mem'. CDL_REPLACE_ELEM head (Some x) (Some a) mem = Some (if xs = [] then Some a else head, mem') \<and>
    is_cdl mem' (if xs = [] then Some a else head) (xs @ a # ys) \<and> dl_upd (insert a (set (xs @ x # ys))) mem mem'"
proof -
  from l obtain z where z: "z = ys @ xs" "ring (dl_nx mem) (dl_pv mem) (z @ [x])" "head = Some (hd (xs @ [x]))"
    "head = Some x \<longleftrightarrow> xs = []" "x \<notin> set z" "set z = set xs \<union> set ys" "mem x \<noteq> None" "\<And>b. b \<in> set z \<Longrightarrow> mem b \<noteq> None"
    "\<And>nx pv a. ring nx pv (xs @ a # ys) \<longleftrightarrow> ring nx pv (z @ [a])"
    by (rule is_cdl_around) blast
  show ?thesis
  proof (cases "z = []")
    case True
    let ?m = "put_pv a (Some a) (put_nx a (Some a) mem)"
    have e: "xs = []" "ys = []" using True z(1) by auto
    have "ring (dl_nx ?m) (dl_pv ?m) [a]" using a by (intro ring_single) (simp_all add: dl_simps)
    moreover have "dl_nx mem x = Some (Some x)" using ring_last(1) [OF z(2)] True by simp
    ultimately show ?thesis using e z(3) a by (auto simp: CDL_REPLACE_ELEM_def dl_simps is_cdl_def)
  next
    case False
    define h t where ht: "h = hd z" "t = last z"
    have links: "dl_nx mem x = Some (Some h)" "dl_pv mem x = Some (Some t)"
      using ring_last [OF z(2)] False by (simp_all add: ht)
    have mem: "h \<in> set z" "t \<in> set z" using False by (simp_all add: ht)
    then have ne: "h \<noteq> x" "t \<noteq> x" "mem h \<noteq> None" "mem t \<noteq> None" "h \<noteq> a" "t \<noteq> a" "a \<notin> set z" "x \<noteq> a"
      using z(5,6,8) a(2) by auto
    let ?m = "put_nx t (Some a) (put_pv h (Some a) (put_pv a (Some t) (put_nx a (Some h) mem)))"
    have "ring (dl_nx ?m) (dl_pv ?m) (z @ [a])"
      using ring_replace [OF z(2) False ne(7)] ne a by (simp add: dl_simps fun_upd_twist ht)
    then have "ring (dl_nx ?m) (dl_pv ?m) (xs @ a # ys)" by (simp only: z(9))
    then have "is_cdl ?m (if xs = [] then Some a else head) (xs @ a # ys)"
      using z(3) by (cases xs) (simp_all add: is_cdl_ne)
    moreover have "CDL_REPLACE_ELEM head (Some x) (Some a) mem = Some (if xs = [] then Some a else head, ?m)"
      using links ne z(3,4,7) a by (cases "xs = []") (simp_all add: CDL_REPLACE_ELEM_def dl_simps)
    moreover have "dl_upd (insert a (set (xs @ x # ys))) mem ?m" using mem z(6) by auto
    ultimately show ?thesis by blast
  qed
qed

subsection \<open>Walking and sorting circular lists\<close>

text \<open>The links as the circular macros follow them.\<close>

definition cs_links :: "addr option \<Rightarrow> 'a dl_mem \<Rightarrow> addr \<Rightarrow> addr option option" where
  "cs_links oh mem a = cs_next oh (Some a) mem"

lemma cs_links_def2: "cs_links oh mem a = do { q \<leftarrow> dl_nx mem a; Some (if q = oh then None else q) }"
  by (simp add: cs_links_def cs_next_def)

lemma dseg_cs_chain:
  "dseg (dl_nx mem) (dl_pv mem) b p xs (Some h) t \<Longrightarrow> h \<notin> set (tl xs) \<Longrightarrow> xs \<noteq> [] \<Longrightarrow> chain (cs_links (Some h) mem) p xs"
proof (induction xs arbitrary: b p)
  case (Cons x xs)
  show ?case
  proof (cases xs)
    case Nil
    with Cons.prems show ?thesis by (simp add: cs_links_def2)
  next
    case (Cons y ys)
    with Cons.prems Cons.IH [of "Some x" "Some y"] show ?thesis by (auto simp: cs_links_def2)
  qed
qed simp

lemma is_cdl_chain: "is_cdl mem head xs \<Longrightarrow> chain (cs_links head mem) head xs"
proof (cases "xs = []")
  case False
  assume l: "is_cdl mem head xs"
  then have r: "ring (dl_nx mem) (dl_pv mem) xs" and h: "head = Some (hd xs)" using False by (simp_all add: is_cdl_ne)
  have "hd xs \<notin> set (tl xs)" using ring_distinct [OF r] False by (cases xs) auto
  with r show ?thesis unfolding h ring_def using dseg_cs_chain False by metis
qed simp

lemma CDL_FOREACH_list: "is_cdl mem head xs \<Longrightarrow> CDL_FOREACH head mem = Some xs"
proof -
  have "cdl_foreach head p mem = Some xs" if "chain (cs_links head mem) p xs" for p
    using that
  proof (induction xs arbitrary: p)
    case (Cons x xs)
    then show ?case
      by (subst cdl_foreach.simps) (auto simp: cs_links_def2 bind_Some_iff)
  qed (simp add: cdl_foreach.simps)
  then show "is_cdl mem head xs \<Longrightarrow> CDL_FOREACH head mem = Some xs" using is_cdl_chain by (auto simp: CDL_FOREACH_def)
qed

lemma CDL_COUNT_list:
  assumes "is_cdl mem head xs" "int (length xs) \<le> INT_MAX"
  shows "CDL_COUNT head mem = Some (int (length xs))"
proof -
  have "cdl_count head p mem c = Some (c + int (length xs))"
    if "chain (cs_links head mem) p xs" "0 \<le> c" "c + int (length xs) \<le> INT_MAX" for p c
    using that
  proof (induction xs arbitrary: p c)
    case (Cons x xs)
    have "c_int (c + 1) = Some (c + 1)" using Cons.prems by (simp add: c_int_def is_int_def INT_MIN_def)
    with Cons show ?case
      by (subst cdl_count.simps) (auto simp: cs_links_def2 bind_Some_iff algebra_simps)
  qed (simp add: cdl_count.simps)
  from this [of head 0] is_cdl_chain [OF assms(1)] assms(2) show ?thesis by (simp add: CDL_COUNT_def)
qed

lemma CDL_SEARCH_list:
  assumes "is_cdl mem head xs" "dl_cmp_is cmp e c mem (set xs)"
  shows "CDL_SEARCH head e cmp mem = Some (find (\<lambda>a. c a = 0) xs)"
proof -
  have "cdl_search head p e cmp mem = Some (find (\<lambda>a. c a = 0) xs)"
    if "chain (cs_links head mem) p xs" "dl_cmp_is cmp e c mem (set xs)" for p
    using that
  proof (induction xs arbitrary: p)
    case (Cons x xs)
    have "dl_cmp cmp (Some x) e mem = Some (c x)" by (rule dl_cmp_at [OF Cons.prems(2)]) simp
    moreover have "dl_cmp_is cmp e c mem (set xs)" using Cons.prems(2) by (simp add: dl_cmp_is_def)
    ultimately show ?case using Cons
      by (subst cdl_search.simps) (auto simp: cs_links_def2 bind_Some_iff)
  qed (simp add: cdl_search.simps)
  then show ?thesis using is_cdl_chain [OF assms(1)] assms(2) by (simp add: CDL_SEARCH_def)
qed

lemma cdl_bound_list:
  assumes "seg (dl_nx mem) p (x # xs) head" "dl_cmp_is cmp e c mem (set xs)" "head \<notin> Some ` set xs"
  shows "cdl_bound head p e cmp mem = Some (Some (last (x # takeWhile (\<lambda>a. c a < 0) xs)))"
  using assms
proof (induction xs arbitrary: p x)
  case Nil
  then show ?case by (subst cdl_bound.simps) auto
next
  case (Cons y ys)
  from Cons.prems(1,3) have p: "p = Some x" "dl_nx mem x = Some (Some y)" "Some y \<noteq> head"
    "seg (dl_nx mem) (Some y) (y # ys) head" by auto
  have "dl_cmp_is cmp e c mem (set ys)" "head \<notin> Some ` set ys" using Cons.prems(2,3) by (auto simp: dl_cmp_is_def)
  note IH = Cons.IH [OF p(4) this]
  have "dl_cmp cmp (Some y) e mem = Some (c y)" by (rule dl_cmp_at [OF Cons.prems(2)]) simp
  with IH p show ?case by (subst cdl_bound.simps) (auto simp: not_le not_less)
qed

lemma CDL_LOWER_BOUND_list:
  assumes "is_cdl mem head xs" "xs \<noteq> []" "dl_cmp_is cmp e c mem (set xs)"
  shows "CDL_LOWER_BOUND head e cmp mem = Some (prev_of None (takeWhile (\<lambda>a. c a < 0) xs))"
proof (cases xs)
  case (Cons x zs)
  then have h: "head = Some x" and r: "ring (dl_nx mem) (dl_pv mem) (x # zs)" using assms(1) by (simp_all add: is_cdl_ne)
  have "seg (dl_nx mem) (Some x) (x # zs) (Some x)" using r unfolding ring_def by (metis dseg_seg list.sel(1))
  moreover have "x \<notin> set zs" using ring_distinct [OF r] by simp
  moreover have "dl_cmp_is cmp e c mem (set zs)" using assms(3) Cons by (simp add: dl_cmp_is_def)
  ultimately have "cdl_bound head head e cmp mem = Some (Some (last (x # takeWhile (\<lambda>a. c a < 0) zs)))"
    unfolding h by (intro cdl_bound_list) auto
  moreover have "dl_cmp cmp (Some x) e mem = Some (c x)" by (rule dl_cmp_at [OF assms(3)]) (simp add: Cons)
  ultimately show ?thesis using h Cons by (auto simp: CDL_LOWER_BOUND_def prev_of_def)
qed (use assms in simp)

lemma CDL_INSERT_INORDER_list:
  assumes l: "is_cdl mem head xs" and a: "dl_data mem a = Some v" "a \<notin> set xs"
    and c: "dl_cmp_is cmp v c mem (set xs)"
  shows "\<exists>h mem'. CDL_INSERT_INORDER head a cmp mem = Some (h, mem') \<and>
    is_cdl mem' h (takeWhile (\<lambda>x. c x < 0) xs @ a # dropWhile (\<lambda>x. c x < 0) xs) \<and>
    dl_upd (insert a (set xs)) mem mem'"
proof -
  from a(1) obtain n where n: "mem a = Some n" "dl_val n = v" by (auto simp: dl_data_def)
  let ?w = "takeWhile (\<lambda>x. c x < 0) xs" and ?d = "dropWhile (\<lambda>x. c x < 0) xs"
  consider "xs = []" | "xs \<noteq> []" "?w = []" | "xs \<noteq> []" "?w \<noteq> []" by blast
  then show ?thesis
  proof cases
    case 1
    let ?m = "put_pv a (Some a) (put_nx a (Some a) mem)"
    have "ring (dl_nx ?m) (dl_pv ?m) [a]" using n by (intro ring_single) (simp_all add: dl_simps)
    with 1 l n show ?thesis by (auto simp: CDL_INSERT_INORDER_def dl_simps is_cdl_def)
  next
    case 2
    have h: "head \<noteq> None" using l 2(1) by (simp add: is_cdl_ne)
    have "?d = xs" using 2(2) by (metis append_Nil takeWhile_dropWhile_id)
    moreover have "CDL_INSERT_INORDER head a cmp mem = CDL_PREPEND head a mem"
      using CDL_LOWER_BOUND_list [OF l 2(1) c] 2 n h
      by (simp add: CDL_INSERT_INORDER_def CDL_APPEND_ELEM_def prev_of_def)
    ultimately show ?thesis using CDL_PREPEND_list [OF l _ a(2)] n 2(2) by auto
  next
    case 3
    note sp = split_takeWhile [OF 3(2)]
    have h: "head \<noteq> None" using l 3(1) by (simp add: is_cdl_ne)
    then have "CDL_INSERT_INORDER head a cmp mem = CDL_APPEND_ELEM head (Some (last ?w)) a mem"
      using CDL_LOWER_BOUND_list [OF l 3(1) c] 3(2) n
      by (auto simp: CDL_INSERT_INORDER_def prev_of_def)
    moreover obtain mem' where "CDL_APPEND_ELEM head (Some (last ?w)) a mem = Some (head, mem')"
      "is_cdl mem' head (butlast ?w @ last ?w # a # ?d)" "dl_upd (insert a (set xs)) mem mem'"
      using CDL_APPEND_ELEM_list [of mem head "butlast ?w" "last ?w" ?d a] l a n unfolding sp [symmetric] by auto
    moreover have "butlast ?w @ last ?w # a # ?d = ?w @ a # ?d"
      using 3(2) by (metis append_Cons append_Nil append_assoc append_butlast_last_id)
    ultimately show ?thesis by auto
  qed
qed

interpretation cs: merge_sort cs_links "dl_cmp_nodes cmp" dl_upd dl_merged is_cdl "\<lambda>e. ds_emit (Some e)"
  "\<lambda>l. ds_close l l" "\<lambda>oh. ds_step (cs_next oh)" "\<lambda>oh. ds_merge (cs_next oh) cmp" "\<lambda>oh. ds_pass (cs_next oh) cmp"
  "cs_loop cmp" "\<lambda>l t m. (l, m)" "2 ^ 30"
  for cmp :: "'a ll_cmp"
proof (unfold_locales, goal_cases)
  case 1 show ?case by simp
next
  case 2 then show ?case by (rule dl_upd_trans)
next
  case 3 then show ?case by (simp add: cs_links_def2 dl_upd_links)
next
  case 4 then show ?case by (rule dl_upd_cmp)
next
  case 5 show ?case by (simp add: dl_merged_def)
next
  case 6 then show ?case by (intro ds_emit_list) (auto simp: cs_links_def2 bind_Some_iff dl_nx_def)
next
  case (7 m l t out)
  then obtain m' where m': "ds_close l l t m = Some m'" "l = Some (hd out)" "t = Some (last out)"
    "dseg (dl_nx m') (dl_pv m') t l out l t" "dl_upd (set out) m m'"
    by (rule ds_close_list)
  then have "is_cdl m' l out" using 7 by (auto simp: is_cdl_ne ring_def)
  with m' show ?case by blast
next
  case 8 then show ?case by (simp add: dl_merged_def)
next
  case 9 then show ?case by (simp add: is_cdl_chain)
next
  case 18 then show ?case by (subst cs_loop.simps) (simp add: c_int_double)
qed (simp_all add: ds_step_rec ds_merge_rec ds_pass_rec cs_links_def)

lemma dl_cmp_le_ordered_cs: "dl_cmp_le cmp le mem S \<Longrightarrow> cs.ordered cmp mem le S"
  unfolding dl_cmp_le_def cs.ordered_def by (fastforce simp: dl_cmp_nodes_def)

lemma CDL_SORT_list:
  assumes "is_cdl mem head xs" "dl_cmp_le cmp le mem (set xs)" "length xs \<le> 2 ^ 30"
  shows "\<exists>head' mem'. CDL_SORT head cmp mem = Some (head', mem') \<and>
    is_cdl mem' head' (bsort le 1 xs) \<and> dl_upd (set xs) mem mem'"
proof (cases "xs = []")
  case True
  with assms show ?thesis by (auto simp: CDL_SORT_def bsort_Nil)
next
  case False
  then have "head \<noteq> None" using assms(1) by (cases head) auto
  with cs.sort_list [OF assms(1) False is_cdl_distinct [OF assms(1)] dl_cmp_le_ordered_cs [OF assms(2)]] assms(3) show ?thesis
    by (simp add: CDL_SORT_def)
qed

subsection \<open>One interface for all kinds of lists\<close>

interpretation dl: node_list is_dl dl_data DL_PREPEND DL_APPEND DL_DELETE
proof
  fix m :: "'a dl_mem" and h a xs
  assume l: "is_dl m h xs"
  show "distinct xs" by (rule is_dl_distinct [OF l])
  show "a \<in> set xs \<Longrightarrow> dl_data m a \<noteq> None" using is_dl_mapped [OF l] by (simp add: dl_data_None)
  show "\<exists>h' m'. DL_DELETE h a m = Some (h', m') \<and> is_dl m' h' (remove1 a xs) \<and> dl_data m' = dl_data m"
    if "a \<in> set xs"
  proof -
    from split_list [OF that] obtain us vs where xs: "xs = us @ a # vs" by blast
    with is_dl_distinct [OF l] have "remove1 a xs = us @ vs" by (simp add: remove1_append)
    with DL_DELETE_list [of m h us a vs] l xs show ?thesis by (auto simp: dl_upd_def)
  qed
  assume a: "dl_data m a \<noteq> None" "a \<notin> set xs"
  show "\<exists>h' m'. DL_PREPEND h a m = Some (h', m') \<and> is_dl m' h' (a # xs) \<and> dl_data m' = dl_data m"
    using DL_PREPEND_list [OF l _ a(2)] a(1) by (auto simp: dl_upd_def dl_data_None)
  show "\<exists>h' m'. DL_APPEND h a m = Some (h', m') \<and> is_dl m' h' (xs @ [a]) \<and> dl_data m' = dl_data m"
    using DL_APPEND_list [OF l _ a(2)] a(1) by (auto simp: dl_upd_def dl_data_None)
qed

interpretation cdl: node_list is_cdl dl_data CDL_PREPEND CDL_APPEND CDL_DELETE
proof
  fix m :: "'a dl_mem" and h a xs
  assume l: "is_cdl m h xs"
  show "distinct xs" by (rule is_cdl_distinct [OF l])
  show "a \<in> set xs \<Longrightarrow> dl_data m a \<noteq> None" using is_cdl_mapped [OF l] by (simp add: dl_data_None)
  show "\<exists>h' m'. CDL_DELETE h a m = Some (h', m') \<and> is_cdl m' h' (remove1 a xs) \<and> dl_data m' = dl_data m"
    if "a \<in> set xs"
  proof -
    from split_list [OF that] obtain us vs where xs: "xs = us @ a # vs" by blast
    with is_cdl_distinct [OF l] have "remove1 a xs = us @ vs" by (simp add: remove1_append)
    with CDL_DELETE_list [of m h us a vs] l xs show ?thesis by (auto simp: dl_upd_def)
  qed
  assume a: "dl_data m a \<noteq> None" "a \<notin> set xs"
  show "\<exists>h' m'. CDL_PREPEND h a m = Some (h', m') \<and> is_cdl m' h' (a # xs) \<and> dl_data m' = dl_data m"
    using CDL_PREPEND_list [OF l _ a(2)] a(1) by (auto simp: dl_upd_def dl_data_None)
  show "\<exists>h' m'. CDL_APPEND h a m = Some (h', m') \<and> is_cdl m' h' (xs @ [a]) \<and> dl_data m' = dl_data m"
    using CDL_APPEND_list [OF l _ a(2)] a(1) by (auto simp: dl_upd_def dl_data_None)
qed

text \<open>A program on a list: nodes are put on at either end and taken off.\<close>

datatype 'n list_op = L_prepend (op_node: 'n) | L_append (op_node: 'n) | L_delete (op_node: 'n)

fun list_run :: "('h \<Rightarrow> 'n \<Rightarrow> 'm \<Rightarrow> ('h \<times> 'm) option) \<Rightarrow> ('h \<Rightarrow> 'n \<Rightarrow> 'm \<Rightarrow> ('h \<times> 'm) option) \<Rightarrow>
    ('h \<Rightarrow> 'n \<Rightarrow> 'm \<Rightarrow> ('h \<times> 'm) option) \<Rightarrow> 'n list_op list \<Rightarrow> 'h \<Rightarrow> 'm \<Rightarrow> ('h \<times> 'm) option" where
  "list_run pre app del [] h m = Some (h, m)"
| "list_run pre app del (op # ops) h m = do {
     (h', m') \<leftarrow> (case op of L_prepend a \<Rightarrow> pre h a m | L_append a \<Rightarrow> app h a m | L_delete a \<Rightarrow> del h a m);
     list_run pre app del ops h' m' }"

text \<open>What it does to the list of nodes; None when it puts a node on twice or takes off one that is not there.\<close>

fun list_ops :: "'n list_op list \<Rightarrow> 'n list \<Rightarrow> 'n list option" where
  "list_ops [] xs = Some xs"
| "list_ops (L_prepend a # ops) xs = (if a \<in> set xs then None else list_ops ops (a # xs))"
| "list_ops (L_append a # ops) xs = (if a \<in> set xs then None else list_ops ops (xs @ [a]))"
| "list_ops (L_delete a # ops) xs = (if a \<in> set xs then list_ops ops (remove1 a xs) else None)"

context node_list
begin

lemma run_law:
  assumes "is_list m h xs" "\<forall>op \<in> set ops. holds m (op_node op) \<noteq> None" "list_ops ops xs = Some ys"
  obtains h' m' where "list_run prepend append delete ops h m = Some (h', m')" "is_list m' h' ys" "holds m' = holds m"
  using assms
proof (induction ops arbitrary: m h xs thesis)
  case Nil
  then show ?case by simp
next
  case (Cons op ops)
  have "\<exists>h1 m1 zs. (case op of L_prepend a \<Rightarrow> prepend h a m | L_append a \<Rightarrow> append h a m | L_delete a \<Rightarrow> delete h a m) = Some (h1, m1) \<and>
      is_list m1 h1 zs \<and> holds m1 = holds m \<and> list_ops ops zs = Some ys"
  proof (cases op)
    case (L_prepend a)
    with Cons.prems prepend_law [OF Cons.prems(2), of a] show ?thesis by (auto split: if_splits)
  next
    case (L_append a)
    with Cons.prems append_law [OF Cons.prems(2), of a] show ?thesis by (auto split: if_splits)
  next
    case (L_delete a)
    with Cons.prems delete_law [OF Cons.prems(2), of a] show ?thesis by (auto split: if_splits)
  qed
  then obtain h1 m1 zs where s: "(case op of L_prepend a \<Rightarrow> prepend h a m | L_append a \<Rightarrow> append h a m | L_delete a \<Rightarrow> delete h a m) = Some (h1, m1)"
    "is_list m1 h1 zs" "holds m1 = holds m" "list_ops ops zs = Some ys" by blast
  then obtain h' m' where "list_run prepend append delete ops h1 m1 = Some (h', m')" "is_list m' h' ys" "holds m' = holds m1"
    using Cons.IH [OF _ s(2) _ s(4)] Cons.prems(3) by auto
  with s Cons.prems(1) show ?case by auto
qed

end

text \<open>
  C20: whatever is put on and taken off, singly linked, doubly linked and circular lists hold
  the same nodes in the same order, and walking over them visits those.
\<close>

theorem list_kinds_agree:
  assumes "\<forall>op \<in> set ops. m1 (op_node op) \<noteq> None \<and> m2 (op_node op) \<noteq> None" "list_ops ops [] = Some ys"
  shows "\<exists>h1 h2 h3 m1' m2' m3'.
    list_run LL_PREPEND LL_APPEND (\<lambda>h a. LL_DELETE h (Some a)) ops None m1 = Some (h1, m1') \<and> LL_FOREACH h1 m1' = Some ys \<and>
    list_run DL_PREPEND DL_APPEND DL_DELETE ops None m2 = Some (h2, m2') \<and> DL_FOREACH h2 m2' = Some ys \<and>
    list_run CDL_PREPEND CDL_APPEND CDL_DELETE ops None m2 = Some (h3, m3') \<and> CDL_FOREACH h3 m3' = Some ys"
proof -
  have d: "\<forall>op \<in> set ops. ll_data m1 (op_node op) \<noteq> None" "\<forall>op \<in> set ops. dl_data m2 (op_node op) \<noteq> None"
    using assms(1) by (auto simp: ll_data_None dl_data_None)
  obtain h1 m1' where "list_run LL_PREPEND LL_APPEND (\<lambda>h a. LL_DELETE h (Some a)) ops None m1 = Some (h1, m1')" "is_ll m1' h1 ys"
    by (rule ll.run_law [of m1 None "[]" ops ys]) (use d(1) assms(2) in \<open>simp_all add: is_ll_Nil\<close>)
  moreover obtain h2 m2' where "list_run DL_PREPEND DL_APPEND DL_DELETE ops None m2 = Some (h2, m2')" "is_dl m2' h2 ys"
    by (rule dl.run_law [of m2 None "[]" ops ys]) (use d(2) assms(2) in simp_all)
  moreover obtain h3 m3' where "list_run CDL_PREPEND CDL_APPEND CDL_DELETE ops None m2 = Some (h3, m3')" "is_cdl m3' h3 ys"
    by (rule cdl.run_law [of m2 None "[]" ops ys]) (use d(2) assms(2) in simp_all)
  ultimately show ?thesis using LL_FOREACH_list DL_FOREACH_list CDL_FOREACH_list by metis
qed

theorem list_kinds_agree_witness:
  "\<exists>h1 h2 h3 m1' m2' m3'.
    list_run LL_PREPEND LL_APPEND (\<lambda>h a. LL_DELETE h (Some a)) [L_append 1, L_prepend 0, L_append 2, L_delete 1] None three_nodes =
      Some (h1, m1') \<and> LL_FOREACH h1 m1' = Some [0, 2] \<and>
    list_run DL_PREPEND DL_APPEND DL_DELETE [L_append 1, L_prepend 0, L_append 2, L_delete 1] None
      (\<lambda>_. Some \<lparr>dl_prev = Some 5, dl_next = Some 6, dl_val = ()\<rparr>) = Some (h2, m2') \<and> DL_FOREACH h2 m2' = Some [0, 2] \<and>
    list_run CDL_PREPEND CDL_APPEND CDL_DELETE [L_append 1, L_prepend 0, L_append 2, L_delete 1] None
      (\<lambda>_. Some \<lparr>dl_prev = Some 5, dl_next = Some 6, dl_val = ()\<rparr>) = Some (h3, m3') \<and> CDL_FOREACH h3 m3' = Some [0, 2]"
proof -
  have "\<forall>op \<in> set [L_append 1, L_prepend 0, L_append 2, L_delete 1]. three_nodes (op_node op) \<noteq> None \<and>
      (\<lambda>_ :: addr. Some \<lparr>dl_prev = Some (5 :: addr), dl_next = Some (6 :: addr), dl_val = ()\<rparr>) (op_node op) \<noteq> None"
    by (simp add: three_nodes_def)
  from list_kinds_agree [OF this] show ?thesis by simp
qed

text \<open>
  C21: the three sorts put the same nodes into the same order when the comparison orders them
  alike.
\<close>

theorem sorts_agree:
  assumes "is_ll m1 h1 xs" "is_dl m2 h2 xs" "is_cdl m3 h3 xs" "length xs \<le> 2 ^ 30"
    and "cmp_le cmp1 le m1 (set xs)" "dl_cmp_le cmp2 le m2 (set xs)" "dl_cmp_le cmp3 le m3 (set xs)"
  shows "\<exists>ys h1' h2' h3' m1' m2' m3'. LL_SORT h1 cmp1 m1 = Some (h1', m1') \<and> LL_FOREACH h1' m1' = Some ys \<and>
    DL_SORT h2 cmp2 m2 = Some (h2', m2') \<and> DL_FOREACH h2' m2' = Some ys \<and> is_dl m2' h2' ys \<and>
    CDL_SORT h3 cmp3 m3 = Some (h3', m3') \<and> CDL_FOREACH h3' m3' = Some ys \<and> is_cdl m3' h3' ys \<and> mset ys = mset xs"
proof -
  obtain h1' m1' where "LL_SORT h1 cmp1 m1 = Some (h1', m1')" "is_ll m1' h1' (bsort le 1 xs)"
    using LL_SORT_list [OF assms(1,5,4)] by blast
  moreover obtain h2' m2' where "DL_SORT h2 cmp2 m2 = Some (h2', m2')" "is_dl m2' h2' (bsort le 1 xs)"
    using DL_SORT_list [OF assms(2,6,4)] by blast
  moreover obtain h3' m3' where "CDL_SORT h3 cmp3 m3 = Some (h3', m3')" "is_cdl m3' h3' (bsort le 1 xs)"
    using CDL_SORT_list [OF assms(3,7,4)] by blast
  ultimately show ?thesis using LL_FOREACH_list DL_FOREACH_list CDL_FOREACH_list mset_bsort by metis
qed

text \<open>The three nodes of the examples, doubly linked and in a ring.\<close>

definition three_dl :: "int dl_mem" where
  "three_dl = (\<lambda>_. None)(0 \<mapsto> \<lparr>dl_prev = Some 2, dl_next = Some 1, dl_val = 3\<rparr>, 1 \<mapsto> \<lparr>dl_prev = Some 0, dl_next = Some 2, dl_val = 1\<rparr>,
     2 \<mapsto> \<lparr>dl_prev = Some 1, dl_next = None, dl_val = 2\<rparr>)"

definition three_ring :: "int dl_mem" where
  "three_ring = three_dl(2 \<mapsto> \<lparr>dl_prev = Some 1, dl_next = Some 0, dl_val = 2\<rparr>)"

theorem sorts_agree_witness:
  "\<exists>ys h1' h2' h3' m1' m2' m3'. LL_SORT (Some 0) (\<lambda>u v. c_int (u - v)) three_nodes = Some (h1', m1') \<and> LL_FOREACH h1' m1' = Some ys \<and>
    DL_SORT (Some 0) (\<lambda>u v. c_int (u - v)) three_dl = Some (h2', m2') \<and> DL_FOREACH h2' m2' = Some ys \<and> is_dl m2' h2' ys \<and>
    CDL_SORT (Some 0) (\<lambda>u v. c_int (u - v)) three_ring = Some (h3', m3') \<and> CDL_FOREACH h3' m3' = Some ys \<and> is_cdl m3' h3' ys \<and>
    mset ys = mset [0, 1, 2]"
proof -
  have c1: "cmp_le (\<lambda>u v. c_int (u - v)) (val_le three_nodes) three_nodes (set [0, 1, 2])"
    by (simp add: cmp_le_def val_le_def ll_data_def three_nodes_def c_int_def is_int_def INT_MIN_def INT_MAX_def)
  have c2: "dl_cmp_le (\<lambda>u v. c_int (u - v)) (val_le three_nodes) three_dl (set [0, 1, 2])"
    by (simp add: dl_cmp_le_def dl_data_def val_le_def ll_data_def three_dl_def three_nodes_def c_int_def is_int_def INT_MIN_def INT_MAX_def)
  have c3: "dl_cmp_le (\<lambda>u v. c_int (u - v)) (val_le three_nodes) three_ring (set [0, 1, 2])"
    by (simp add: dl_cmp_le_def dl_data_def val_le_def ll_data_def three_ring_def three_dl_def three_nodes_def c_int_def is_int_def
        INT_MIN_def INT_MAX_def)
  have "is_dl three_dl (Some 0) [0, 1, 2]" by (simp add: is_dl_ne dl_nx_def dl_pv_def three_dl_def)
  moreover have "is_cdl three_ring (Some 0) [0, 1, 2]"
    by (simp add: is_cdl_ne ring_def dl_nx_def dl_pv_def three_ring_def three_dl_def)
  ultimately show ?thesis using sorts_agree [OF three_nodes_list _ _ _ c1 c2 c3] by simp
qed

end
