(* ===== verification/UtHash.thy ===== *)
theory UtHash
  imports UtList DList
begin

text \<open>
  The hash table of inc/uthash/uthash.h with its default settings (no Bloom filter, Jenkins'
  hash, memory exhaustion exits).  An element and the handle inside it are named by one address,
  so the conversions between the two (ELMT-FROM-HH, HH-FROM-ELMT) disappear; a handle's key is the
  bytes that its key pointer leads to.  A head has one table; every handle in it points to that
  one.  The allocator says whether it grants a number of bytes; a run may exit.  Numbers are
  32-bit words as in the code.
\<close>

subsection \<open>Data\<close>

record ut_handle =
  h_prev :: "addr option"
  h_next :: "addr option"
  hh_prev :: "addr option"
  hh_next :: "addr option"
  h_key :: "byte list"
  h_keylen :: u32
  h_hashv :: u32

record ut_bucket =
  hh_head :: "addr option"
  b_count :: u32
  expand_mult :: u32

record ut_table =
  buckets :: "ut_bucket list"
  num_buckets :: u32
  log2_num_buckets :: u32
  num_items :: u32
  t_tail :: addr
  ideal_chain_maxlen :: u32
  nonideal_items :: u32
  ineff_expands :: u32
  noexpand :: u32

type_synonym ut_mem = "addr \<Rightarrow> ut_handle option"

record uthash =
  u_head :: "addr option"
  u_tbl :: "ut_table option"
  u_mem :: ut_mem

type_synonym grants = "int \<Rightarrow> bool"

definition HASH_INITIAL_NUM_BUCKETS :: u32 where "HASH_INITIAL_NUM_BUCKETS = 32"
definition HASH_INITIAL_NUM_BUCKETS_LOG2 :: u32 where "HASH_INITIAL_NUM_BUCKETS_LOG2 = 5"
definition HASH_BKT_CAPACITY_THRESH :: u32 where "HASH_BKT_CAPACITY_THRESH = 10"

definition empty_bucket :: ut_bucket where
  "empty_bucket = \<lparr>hh_head = None, b_count = 0, expand_mult = 0\<rparr>"

text \<open>Assignment to fields of the handle at an address, and at one that may be NULL.\<close>

definition h_upd :: "addr \<Rightarrow> (ut_handle \<Rightarrow> ut_handle) \<Rightarrow> ut_mem \<Rightarrow> ut_mem option" where
  "h_upd a f m = do { h \<leftarrow> m a; Some (m(a \<mapsto> f h)) }"

definition h_upd_if :: "addr option \<Rightarrow> (ut_handle \<Rightarrow> ut_handle) \<Rightarrow> ut_mem \<Rightarrow> ut_mem option" where
  "h_upd_if p f m = (case p of None \<Rightarrow> Some m | Some a \<Rightarrow> h_upd a f m)"

subsection \<open>Finding\<close>

definition HASH_TO_BKT :: "u32 \<Rightarrow> u32 \<Rightarrow> u32" where
  "HASH_TO_BKT hashv num_bkts = hashv AND (num_bkts - 1)"

partial_function (option) HASH_FIND_IN_BKT :: "ut_mem \<Rightarrow> addr option \<Rightarrow> byte list \<Rightarrow> u32 \<Rightarrow> addr option option" where
  "HASH_FIND_IN_BKT m out keyptr hashval = (case out of None \<Rightarrow> Some None
     | Some a \<Rightarrow> do {
         h \<leftarrow> m a;
         if h_hashv h = hashval \<and> h_keylen h = of_nat (length keyptr) \<and> h_key h = keyptr then Some (Some a)
         else HASH_FIND_IN_BKT m (hh_next h) keyptr hashval })"

definition HASH_FIND_BYHASHVALUE :: "byte list \<Rightarrow> u32 \<Rightarrow> uthash \<Rightarrow> addr option option" where
  "HASH_FIND_BYHASHVALUE keyptr hashval u =
     (if u_head u \<noteq> None then do {
        t \<leftarrow> u_tbl u;
        b \<leftarrow> arr_get (buckets t) (uint (HASH_TO_BKT hashval (num_buckets t)));
        HASH_FIND_IN_BKT (u_mem u) (hh_head b) keyptr hashval }
      else Some None)"

subsection \<open>Growing\<close>

text \<open>
  One item is moved into the new buckets nb; n counts the items beyond the ideal chain length.  The
  division by that length is undefined when it is 0.
\<close>

definition he_move :: "ut_table \<Rightarrow> addr \<Rightarrow> ut_mem \<times> ut_bucket list \<times> u32 \<Rightarrow> (ut_mem \<times> ut_bucket list \<times> u32) option" where
  "he_move t a = (\<lambda>(m, nb, n). do {
     h \<leftarrow> m a;
     let i = uint (HASH_TO_BKT (h_hashv h) (num_buckets t * 2));
     b \<leftarrow> arr_get nb i;
     let c = b_count b + 1;
     (b1, n1) \<leftarrow> (if c > ideal_chain_maxlen t then
           (if ideal_chain_maxlen t = 0 then None
            else Some (b\<lparr>b_count := c, expand_mult := c div ideal_chain_maxlen t\<rparr>, n + 1))
         else Some (b\<lparr>b_count := c\<rparr>, n));
     m1 \<leftarrow> h_upd a (\<lambda>h. h\<lparr>hh_prev := None, hh_next := hh_head b1\<rparr>) m;
     m2 \<leftarrow> h_upd_if (hh_head b1) (\<lambda>h. h\<lparr>hh_prev := Some a\<rparr>) m1;
     nb1 \<leftarrow> arr_set nb i (b1\<lparr>hh_head := Some a\<rparr>);
     Some (m2, nb1, n1) })"

partial_function (option) he_chain :: "ut_table \<Rightarrow> addr option \<Rightarrow> ut_mem \<times> ut_bucket list \<times> u32 \<Rightarrow>
    (ut_mem \<times> ut_bucket list \<times> u32) option" where
  "he_chain t thh s = (case thh of None \<Rightarrow> Some s
     | Some a \<Rightarrow> do { h \<leftarrow> fst s a; s1 \<leftarrow> he_move t a s; he_chain t (hh_next h) s1 })"

fun he_loop :: "ut_table \<Rightarrow> nat list \<Rightarrow> ut_mem \<times> ut_bucket list \<times> u32 \<Rightarrow> (ut_mem \<times> ut_bucket list \<times> u32) option" where
  "he_loop t [] s = Some s"
| "he_loop t (i # is) s = do {
     b \<leftarrow> arr_get (buckets t) (int i);
     s1 \<leftarrow> he_chain t (hh_head b) s;
     he_loop t is s1 }"

definition HASH_EXPAND_BUCKETS :: "grants \<Rightarrow> uthash \<Rightarrow> (int + uthash) option" where
  "HASH_EXPAND_BUCKETS A u = do {
     t \<leftarrow> u_tbl u;
     if \<not> A (2 * uint (num_buckets t) * 16) then Some (Inl (- 1))
     else if log2_num_buckets t + 1 \<ge> 32 then None
     else do {
       let ideal = drop_bit (unat (log2_num_buckets t + 1)) (num_items t) +
         (if num_items t AND (num_buckets t * 2 - 1) \<noteq> 0 then 1 else 0);
       let t1 = t\<lparr>ideal_chain_maxlen := ideal, nonideal_items := 0\<rparr>;
       (m, nb, n) \<leftarrow> he_loop t1 [0..<unat (num_buckets t)] (u_mem u, replicate (2 * unat (num_buckets t)) empty_bucket, 0);
       let ineff = (if n > drop_bit 1 (num_items t) then ineff_expands t + 1 else 0);
       let t2 = t1\<lparr>nonideal_items := n, num_buckets := num_buckets t * 2, log2_num_buckets := log2_num_buckets t + 1,
         buckets := nb, ineff_expands := ineff, noexpand := (if ineff > 1 then 1 else noexpand t)\<rparr>;
       Some (Inr (u\<lparr>u_tbl := Some t2, u_mem := m\<rparr>)) } }"

subsection \<open>Adding\<close>

definition HASH_MAKE_TABLE :: "grants \<Rightarrow> addr \<Rightarrow> uthash \<Rightarrow> (int + uthash) option" where
  "HASH_MAKE_TABLE A head u =
     (if \<not> A 64 then Some (Inl (- 1))
      else if \<not> A (uint HASH_INITIAL_NUM_BUCKETS * 16) then Some (Inl (- 1))
      else Some (Inr (u\<lparr>u_tbl := Some \<lparr>buckets = replicate (unat HASH_INITIAL_NUM_BUCKETS) empty_bucket,
        num_buckets = HASH_INITIAL_NUM_BUCKETS, log2_num_buckets = HASH_INITIAL_NUM_BUCKETS_LOG2, num_items = 0,
        t_tail = head, ideal_chain_maxlen = 0, nonideal_items = 0, ineff_expands = 0, noexpand = 0\<rparr>\<rparr>)))"

definition HASH_APPEND_LIST :: "addr \<Rightarrow> uthash \<Rightarrow> uthash option" where
  "HASH_APPEND_LIST add u = do {
     t \<leftarrow> u_tbl u;
     m1 \<leftarrow> h_upd add (\<lambda>h. h\<lparr>h_next := None, h_prev := Some (t_tail t)\<rparr>) (u_mem u);
     m2 \<leftarrow> h_upd (t_tail t) (\<lambda>h. h\<lparr>h_next := Some add\<rparr>) m1;
     Some (u\<lparr>u_tbl := Some (t\<lparr>t_tail := add\<rparr>), u_mem := m2\<rparr>) }"

definition HASH_ADD_TO_BKT :: "grants \<Rightarrow> u32 \<Rightarrow> addr \<Rightarrow> uthash \<Rightarrow> (int + uthash) option" where
  "HASH_ADD_TO_BKT A bkt add u = do {
     t \<leftarrow> u_tbl u;
     b \<leftarrow> arr_get (buckets t) (uint bkt);
     let c = b_count b + 1;
     m1 \<leftarrow> h_upd add (\<lambda>h. h\<lparr>hh_next := hh_head b, hh_prev := None\<rparr>) (u_mem u);
     m2 \<leftarrow> h_upd_if (hh_head b) (\<lambda>h. h\<lparr>hh_prev := Some add\<rparr>) m1;
     bs \<leftarrow> arr_set (buckets t) (uint bkt) (b\<lparr>b_count := c, hh_head := Some add\<rparr>);
     let u1 = u\<lparr>u_tbl := Some (t\<lparr>buckets := bs\<rparr>), u_mem := m2\<rparr>;
     if c \<ge> (expand_mult b + 1) * HASH_BKT_CAPACITY_THRESH \<and> noexpand t = 0 then HASH_EXPAND_BUCKETS A u1
     else Some (Inr u1) }"

text \<open>What both ways of adding do first and last.\<close>

definition ha_set_key :: "byte list \<Rightarrow> u32 \<Rightarrow> addr \<Rightarrow> uthash \<Rightarrow> uthash option" where
  "ha_set_key keyptr hashval add u = do {
     m \<leftarrow> h_upd add (\<lambda>h. h\<lparr>h_hashv := hashval, h_key := keyptr, h_keylen := of_nat (length keyptr)\<rparr>) (u_mem u);
     Some (u\<lparr>u_mem := m\<rparr>) }"

definition ha_first :: "grants \<Rightarrow> addr \<Rightarrow> uthash \<Rightarrow> (int + uthash) option" where
  "ha_first A add u = do {
     m \<leftarrow> h_upd add (\<lambda>h. h\<lparr>h_next := None, h_prev := None\<rparr>) (u_mem u);
     HASH_MAKE_TABLE A add (u\<lparr>u_head := Some add, u_mem := m\<rparr>) }"

definition ha_to_bucket :: "grants \<Rightarrow> u32 \<Rightarrow> addr \<Rightarrow> uthash \<Rightarrow> (int + uthash) option" where
  "ha_to_bucket A hashval add u = do {
     t \<leftarrow> u_tbl u;
     HASH_ADD_TO_BKT A (HASH_TO_BKT hashval (num_buckets t)) add (u\<lparr>u_tbl := Some (t\<lparr>num_items := num_items t + 1\<rparr>)\<rparr>) }"

definition HASH_ADD_KEYPTR_BYHASHVALUE :: "grants \<Rightarrow> byte list \<Rightarrow> u32 \<Rightarrow> addr \<Rightarrow> uthash \<Rightarrow> (int + uthash) option" where
  "HASH_ADD_KEYPTR_BYHASHVALUE A keyptr hashval add u = do {
     u1 \<leftarrow> ha_set_key keyptr hashval add u;
     and_then (if u_head u = None then ha_first A add u1 else map_option Inr (HASH_APPEND_LIST add u1))
       (ha_to_bucket A hashval add) }"

text \<open>In order: the loop finds the first element the comparison puts behind the new one.\<close>

type_synonym u_cmp = "addr \<Rightarrow> addr \<Rightarrow> int option"

partial_function (option) HASH_AKBI_INNER_LOOP :: "u_cmp \<Rightarrow> addr \<Rightarrow> addr \<Rightarrow> ut_mem \<Rightarrow> addr option option" where
  "HASH_AKBI_INNER_LOOP cmp iter add m = do {
     c \<leftarrow> cmp iter add;
     if c > 0 then Some (Some iter)
     else do {
       h \<leftarrow> m iter;
       case h_next h of None \<Rightarrow> Some None | Some q \<Rightarrow> HASH_AKBI_INNER_LOOP cmp q add m } }"

definition ha_before :: "addr \<Rightarrow> addr \<Rightarrow> uthash \<Rightarrow> uthash option" where
  "ha_before iter add u = do {
     m1 \<leftarrow> h_upd add (\<lambda>h. h\<lparr>h_next := Some iter\<rparr>) (u_mem u);
     i \<leftarrow> m1 iter;
     m2 \<leftarrow> h_upd add (\<lambda>h. h\<lparr>h_prev := h_prev i\<rparr>) m1;
     (head, m3) \<leftarrow> (case h_prev i of
         Some p \<Rightarrow> do { m \<leftarrow> h_upd p (\<lambda>h. h\<lparr>h_next := Some add\<rparr>) m2; Some (u_head u, m) }
       | None \<Rightarrow> Some (Some add, m2));
     m4 \<leftarrow> h_upd iter (\<lambda>h. h\<lparr>h_prev := Some add\<rparr>) m3;
     Some (u\<lparr>u_head := head, u_mem := m4\<rparr>) }"

definition HASH_ADD_KEYPTR_BYHASHVALUE_INORDER ::
    "grants \<Rightarrow> byte list \<Rightarrow> u32 \<Rightarrow> addr \<Rightarrow> u_cmp \<Rightarrow> uthash \<Rightarrow> (int + uthash) option" where
  "HASH_ADD_KEYPTR_BYHASHVALUE_INORDER A keyptr hashval add cmp u = do {
     u1 \<leftarrow> ha_set_key keyptr hashval add u;
     and_then (case u_head u of
         None \<Rightarrow> ha_first A add u1
       | Some first \<Rightarrow> do {
           iter \<leftarrow> HASH_AKBI_INNER_LOOP cmp first add (u_mem u1);
           u2 \<leftarrow> (case iter of Some i \<Rightarrow> ha_before i add u1 | None \<Rightarrow> HASH_APPEND_LIST add u1);
           Some (Inr u2) })
       (ha_to_bucket A hashval add) }"

subsection \<open>Deleting and replacing\<close>

definition HASH_DEL_IN_BKT :: "u32 \<Rightarrow> addr \<Rightarrow> uthash \<Rightarrow> uthash option" where
  "HASH_DEL_IN_BKT bkt del u = do {
     t \<leftarrow> u_tbl u;
     b \<leftarrow> arr_get (buckets t) (uint bkt);
     d \<leftarrow> u_mem u del;
     let b1 = b\<lparr>b_count := b_count b - 1, hh_head := (if hh_head b = Some del then hh_next d else hh_head b)\<rparr>;
     bs \<leftarrow> arr_set (buckets t) (uint bkt) b1;
     m1 \<leftarrow> h_upd_if (hh_prev d) (\<lambda>h. h\<lparr>hh_next := hh_next d\<rparr>) (u_mem u);
     d1 \<leftarrow> m1 del;
     m2 \<leftarrow> h_upd_if (hh_next d1) (\<lambda>h. h\<lparr>hh_prev := hh_prev d1\<rparr>) m1;
     Some (u\<lparr>u_tbl := Some (t\<lparr>buckets := bs\<rparr>), u_mem := m2\<rparr>) }"

definition HASH_DELETE :: "addr \<Rightarrow> uthash \<Rightarrow> uthash option" where
  "HASH_DELETE del u = do {
     d \<leftarrow> u_mem u del;
     t \<leftarrow> u_tbl u;
     if h_prev d = None \<and> h_next d = None then Some (u\<lparr>u_head := None, u_tbl := None\<rparr>)
     else do {
       t1 \<leftarrow> (if del = t_tail t then do { p \<leftarrow> h_prev d; Some (t\<lparr>t_tail := p\<rparr>) } else Some t);
       (head, m1) \<leftarrow> (case h_prev d of
           Some p \<Rightarrow> do { m \<leftarrow> h_upd p (\<lambda>h. h\<lparr>h_next := h_next d\<rparr>) (u_mem u); Some (u_head u, m) }
         | None \<Rightarrow> Some (h_next d, u_mem u));
       d1 \<leftarrow> m1 del;
       m2 \<leftarrow> h_upd_if (h_next d1) (\<lambda>h. h\<lparr>h_prev := h_prev d1\<rparr>) m1;
       d2 \<leftarrow> m2 del;
       u1 \<leftarrow> HASH_DEL_IN_BKT (HASH_TO_BKT (h_hashv d2) (num_buckets t1)) del
               (u\<lparr>u_head := head, u_tbl := Some t1, u_mem := m2\<rparr>);
       t2 \<leftarrow> u_tbl u1;
       Some (u1\<lparr>u_tbl := Some (t2\<lparr>num_items := num_items t2 - 1\<rparr>)\<rparr>) } }"

definition HASH_REPLACE_BYHASHVALUE ::
    "grants \<Rightarrow> byte list \<Rightarrow> u32 \<Rightarrow> addr \<Rightarrow> uthash \<Rightarrow> (int + addr option \<times> uthash) option" where
  "HASH_REPLACE_BYHASHVALUE A keyptr hashval add u = do {
     replaced \<leftarrow> HASH_FIND_BYHASHVALUE keyptr hashval u;
     u1 \<leftarrow> (case replaced of Some r \<Rightarrow> HASH_DELETE r u | None \<Rightarrow> Some u);
     and_then (HASH_ADD_KEYPTR_BYHASHVALUE A keyptr hashval add u1) (\<lambda>u2. Some (Inr (replaced, u2))) }"

definition HASH_REPLACE_BYHASHVALUE_INORDER ::
    "grants \<Rightarrow> byte list \<Rightarrow> u32 \<Rightarrow> addr \<Rightarrow> u_cmp \<Rightarrow> uthash \<Rightarrow> (int + addr option \<times> uthash) option" where
  "HASH_REPLACE_BYHASHVALUE_INORDER A keyptr hashval add cmp u = do {
     replaced \<leftarrow> HASH_FIND_BYHASHVALUE keyptr hashval u;
     u1 \<leftarrow> (case replaced of Some r \<Rightarrow> HASH_DELETE r u | None \<Rightarrow> Some u);
     and_then (HASH_ADD_KEYPTR_BYHASHVALUE_INORDER A keyptr hashval add cmp u1) (\<lambda>u2. Some (Inr (replaced, u2))) }"

subsection \<open>Counting, clearing, walking\<close>

definition HASH_COUNT :: "uthash \<Rightarrow> u32 option" where
  "HASH_COUNT u = (if u_head u \<noteq> None then do { t \<leftarrow> u_tbl u; Some (num_items t) } else Some 0)"

definition HASH_CLEAR :: "uthash \<Rightarrow> uthash option" where
  "HASH_CLEAR u = (if u_head u \<noteq> None then do { _ \<leftarrow> u_tbl u; Some (u\<lparr>u_head := None, u_tbl := None\<rparr>) } else Some u)"

text \<open>A handle has 56 bytes, a bucket 16, the table 64.\<close>

definition HASH_OVERHEAD :: "uthash \<Rightarrow> int option" where
  "HASH_OVERHEAD u = (if u_head u \<noteq> None then do {
       t \<leftarrow> u_tbl u;
       Some (to_size_t (to_size_t (uint (num_items t) * 56) + to_size_t (uint (num_buckets t) * 16) + 64)) }
     else Some 0)"

text \<open>
  The for loop of HASH-ITER, over any state that contains a table; its body says whether it
  breaks off.  The next element is remembered before the body runs.
\<close>

partial_function (option) hash_iter ::
    "('s \<Rightarrow> uthash) \<Rightarrow> (addr \<Rightarrow> 's \<Rightarrow> (bool \<times> 's) option) \<Rightarrow> addr option \<Rightarrow> addr option \<Rightarrow> 's \<Rightarrow> 's option" where
  "hash_iter tb body el tmp s = (case el of None \<Rightarrow> Some s
     | Some a \<Rightarrow> do {
         (brk, s1) \<leftarrow> body a s;
         if brk then Some s1
         else do {
           tmp' \<leftarrow> (case tmp of None \<Rightarrow> Some None | Some b \<Rightarrow> do { h \<leftarrow> u_mem (tb s1) b; Some (h_next h) });
           hash_iter tb body tmp tmp' s1 } })"

definition HASH_ITER :: "('s \<Rightarrow> uthash) \<Rightarrow> (addr \<Rightarrow> 's \<Rightarrow> (bool \<times> 's) option) \<Rightarrow> 's \<Rightarrow> 's option" where
  "HASH_ITER tb body s = (case u_head (tb s) of
       None \<Rightarrow> Some s
     | Some a \<Rightarrow> do { h \<leftarrow> u_mem (tb s) a; hash_iter tb body (Some a) (h_next h) s })"

subsection \<open>Sorting\<close>

definition hs_next :: "addr option \<Rightarrow> ut_mem \<Rightarrow> addr option option" where
  "hs_next p m = do { a \<leftarrow> p; h \<leftarrow> m a; Some (h_next h) }"

partial_function (option) hs_step :: "int \<Rightarrow> int \<Rightarrow> addr option \<Rightarrow> int \<Rightarrow> ut_mem \<Rightarrow> (addr option \<times> int) option" where
  "hs_step i insize q psize m =
     (if i < insize then do {
        q' \<leftarrow> hs_next q m;
        if q' = None then Some (None, to_unsigned (psize + 1))
        else hs_step (to_unsigned (i + 1)) insize q' (to_unsigned (psize + 1)) m }
      else Some (q, psize))"

definition hs_emit :: "addr option \<Rightarrow> addr option \<Rightarrow> addr option \<Rightarrow> ut_mem \<Rightarrow> (addr option \<times> ut_mem) option" where
  "hs_emit e list tail m = do {
     (list', m1) \<leftarrow> (case tail of
         Some t \<Rightarrow> do { m' \<leftarrow> h_upd t (\<lambda>h. h\<lparr>h_next := e\<rparr>) m; Some (list, m') }
       | None \<Rightarrow> Some (e, m));
     m2 \<leftarrow> h_upd_if e (\<lambda>h. h\<lparr>h_prev := tail\<rparr>) m1;
     Some (list', m2) }"

text \<open>p = p->next unless it is NULL\<close>

definition hs_next_if :: "addr option \<Rightarrow> ut_mem \<Rightarrow> addr option option" where
  "hs_next_if p m = (if p \<noteq> None then hs_next p m else Some None)"

partial_function (option) hs_merge ::
    "u_cmp \<Rightarrow> addr option \<Rightarrow> addr option \<Rightarrow> int \<Rightarrow> int \<Rightarrow> addr option \<Rightarrow> addr option \<Rightarrow> ut_mem \<Rightarrow>
     (addr option \<times> addr option \<times> addr option \<times> ut_mem) option" where
  "hs_merge cmp p q psize qsize list tail m =
     (if psize \<noteq> 0 \<or> (qsize \<noteq> 0 \<and> q \<noteq> None) then do {
        from_p \<leftarrow> (if psize = 0 then Some False
                    else if qsize = 0 \<or> q = None then Some True
                    else do { a \<leftarrow> p; b \<leftarrow> q; c \<leftarrow> cmp a b; Some (c \<le> 0) });
        if from_p then do {
          p' \<leftarrow> hs_next_if p m;
          (list', m') \<leftarrow> hs_emit p list tail m;
          hs_merge cmp p' q (to_unsigned (psize - 1)) qsize list' p m' }
        else do {
          q' \<leftarrow> hs_next q m;
          (list', m') \<leftarrow> hs_emit q list tail m;
          hs_merge cmp p q' psize (to_unsigned (qsize - 1)) list' q m' } }
      else Some (q, list, tail, m))"

partial_function (option) hs_pass ::
    "u_cmp \<Rightarrow> int \<Rightarrow> addr option \<Rightarrow> addr option \<Rightarrow> addr option \<Rightarrow> int \<Rightarrow> ut_mem \<Rightarrow>
     (addr option \<times> addr option \<times> int \<times> ut_mem) option" where
  "hs_pass cmp insize p list tail nmerges m =
     (if p \<noteq> None then do {
        (q, psize) \<leftarrow> hs_step 0 insize p 0 m;
        (p', list', tail', m') \<leftarrow> hs_merge cmp p q psize insize list tail m;
        hs_pass cmp insize p' list' tail' (to_unsigned (nmerges + 1)) m' }
      else Some (list, tail, nmerges, m))"

partial_function (option) hs_loop ::
    "u_cmp \<Rightarrow> int \<Rightarrow> addr option \<Rightarrow> ut_mem \<Rightarrow> (addr option \<times> addr option \<times> ut_mem) option" where
  "hs_loop cmp insize list m = do {
     (list', tail, nmerges, m1) \<leftarrow> hs_pass cmp insize list None None 0 m;
     m2 \<leftarrow> h_upd_if tail (\<lambda>h. h\<lparr>h_next := None\<rparr>) m1;
     if nmerges \<le> 1 then Some (list', tail, m2) else hs_loop cmp (to_unsigned (insize * 2)) list' m2 }"

definition HASH_SRT :: "u_cmp \<Rightarrow> uthash \<Rightarrow> uthash option" where
  "HASH_SRT cmp u =
     (if u_head u \<noteq> None then do {
        (list, tail', m) \<leftarrow> hs_loop cmp 1 (u_head u) (u_mem u);
        t \<leftarrow> u_tbl u;
        tl \<leftarrow> tail';
        Some (u\<lparr>u_head := list, u_tbl := Some (t\<lparr>t_tail := tl\<rparr>), u_mem := m\<rparr>) }
      else Some u)"

subsection \<open>Selecting into another table\<close>

text \<open>
  The two tables use different handles of the same elements, so each has a memory of its own.
  The last selected element is remembered for its next pointer; the tail of the new table is
  only set when the table is made.
\<close>

definition hsel_item :: "grants \<Rightarrow> (addr \<Rightarrow> bool) \<Rightarrow> uthash \<Rightarrow> addr \<Rightarrow> uthash \<times> addr option \<Rightarrow> (int + uthash \<times> addr option) option" where
  "hsel_item A cond src elt = (\<lambda>(dst, last_elt). do {
     s \<leftarrow> u_mem src elt;
     if cond elt then do {
       m1 \<leftarrow> h_upd elt (\<lambda>h. h\<lparr>h_key := h_key s, h_keylen := h_keylen s, h_hashv := h_hashv s, h_prev := last_elt, h_next := None\<rparr>)
               (u_mem dst);
       m2 \<leftarrow> h_upd_if last_elt (\<lambda>h. h\<lparr>h_next := Some elt\<rparr>) m1;
       and_then (if u_head dst = None then HASH_MAKE_TABLE A elt (dst\<lparr>u_head := Some elt, u_mem := m2\<rparr>)
                 else Some (Inr (dst\<lparr>u_mem := m2\<rparr>)))
         (\<lambda>d. do {
            t \<leftarrow> u_tbl d;
            and_then (HASH_ADD_TO_BKT A (HASH_TO_BKT (h_hashv s) (num_buckets t)) elt d) (\<lambda>d. do {
              t \<leftarrow> u_tbl d;
              Some (Inr (d\<lparr>u_tbl := Some (t\<lparr>num_items := num_items t + 1\<rparr>)\<rparr>, Some elt)) }) }) }
     else Some (Inr (dst, last_elt)) })"

partial_function (option) hsel_chain ::
    "grants \<Rightarrow> (addr \<Rightarrow> bool) \<Rightarrow> uthash \<Rightarrow> addr option \<Rightarrow> uthash \<times> addr option \<Rightarrow> (int + uthash \<times> addr option) option" where
  "hsel_chain A cond src thh s = (case thh of None \<Rightarrow> Some (Inr s)
     | Some a \<Rightarrow> (case hsel_item A cond src a s of
         None \<Rightarrow> None
       | Some (Inl c) \<Rightarrow> Some (Inl c)
       | Some (Inr s1) \<Rightarrow> do { h \<leftarrow> u_mem src a; hsel_chain A cond src (hh_next h) s1 }))"

fun hsel_loop :: "grants \<Rightarrow> (addr \<Rightarrow> bool) \<Rightarrow> uthash \<Rightarrow> ut_bucket list \<Rightarrow> uthash \<times> addr option \<Rightarrow> (int + uthash \<times> addr option) option" where
  "hsel_loop A cond src [] s = Some (Inr s)"
| "hsel_loop A cond src (b # bs) s = and_then (hsel_chain A cond src (hh_head b) s) (hsel_loop A cond src bs)"

definition HASH_SELECT :: "grants \<Rightarrow> (addr \<Rightarrow> bool) \<Rightarrow> uthash \<Rightarrow> uthash \<Rightarrow> (int + uthash) option" where
  "HASH_SELECT A cond src dst =
     (if u_head src \<noteq> None then do {
        t \<leftarrow> u_tbl src;
        and_then (hsel_loop A cond src (buckets t) (dst, None)) (\<lambda>s. Some (Inr (fst s))) }
      else Some (Inr dst))"

subsection \<open>The integrity check\<close>

text \<open>
  HASH-FSCK is compiled in with HASH-DEBUG, at the end of every operation; it exits when something
  is wrong, which is False here.
\<close>

partial_function (option) fsck_chain :: "ut_mem \<Rightarrow> addr option \<Rightarrow> addr option \<Rightarrow> u32 \<Rightarrow> u32 option option" where
  "fsck_chain m thh prv cnt = (case thh of None \<Rightarrow> Some (Some cnt)
     | Some a \<Rightarrow> do {
         h \<leftarrow> m a;
         if prv \<noteq> hh_prev h then Some None else fsck_chain m (hh_next h) (Some a) (cnt + 1) })"

fun fsck_buckets :: "ut_mem \<Rightarrow> ut_bucket list \<Rightarrow> u32 \<Rightarrow> u32 option option" where
  "fsck_buckets m [] cnt = Some (Some cnt)"
| "fsck_buckets m (b # bs) cnt = do {
     r \<leftarrow> fsck_chain m (hh_head b) None 0;
     case r of None \<Rightarrow> Some None
     | Some n \<Rightarrow> if b_count b \<noteq> n then Some None else fsck_buckets m bs (cnt + n) }"

partial_function (option) fsck_app :: "ut_mem \<Rightarrow> addr option \<Rightarrow> addr option \<Rightarrow> u32 \<Rightarrow> u32 option option" where
  "fsck_app m thh prv cnt = (case thh of None \<Rightarrow> Some (Some cnt)
     | Some a \<Rightarrow> do {
         h \<leftarrow> m a;
         if prv \<noteq> h_prev h then Some None else fsck_app m (h_next h) (Some a) (cnt + 1) })"

definition HASH_FSCK :: "uthash \<Rightarrow> bool option" where
  "HASH_FSCK u =
     (if u_head u \<noteq> None then do {
        t \<leftarrow> u_tbl u;
        r \<leftarrow> fsck_buckets (u_mem u) (take (unat (num_buckets t)) (buckets t)) 0;
        case r of None \<Rightarrow> Some False
        | Some n \<Rightarrow>
            if n \<noteq> num_items t then Some False
            else do {
              r2 \<leftarrow> fsck_app (u_mem u) (u_head u) None 0;
              case r2 of None \<Rightarrow> Some False | Some k \<Rightarrow> Some (k = num_items t) } }
      else Some True)"

declare HASH_FIND_IN_BKT.simps [code] he_chain.simps [code] HASH_AKBI_INNER_LOOP.simps [code] hs_step.simps [code]
  hs_merge.simps [code] hs_pass.simps [code] hs_loop.simps [code] hsel_chain.simps [code] fsck_chain.simps [code]
  fsck_app.simps [code]

end
