(* ===== verification/UtHashBkt.thy ===== *)
theory UtHashBkt
  imports UtHash
begin

text \<open>
  The links of the hash table of UtHash.  A handle has two pairs of links, one for the application
  order and one for its bucket; both interpret the interface hh_links.  Then the buckets: what it
  means that they hold their elements by hash value, how an element enters one, and that growing
  moves every element into the new ones and changes nothing else.
\<close>

subsection \<open>Fields and links\<close>

definition fld :: "(ut_handle \<Rightarrow> 'b) \<Rightarrow> ut_mem \<Rightarrow> addr \<Rightarrow> 'b option" where
  "fld f m a = map_option f (m a)"

lemma fld_upd [simp]: "fld f (m(a \<mapsto> h)) = (fld f m)(a \<mapsto> f h)"
  by (auto simp: fld_def fun_eq_iff)

lemma fld_same: "m a = Some h \<Longrightarrow> f h' = f h \<Longrightarrow> (fld f m)(a \<mapsto> f h') = fld f m"
  by (auto simp: fld_def fun_eq_iff)

lemma fld_comp: "fld g m' = fld g m \<Longrightarrow> fld (\<lambda>h. f (g h)) m' = fld (\<lambda>h. f (g h)) m"
proof
  fix a
  assume "fld g m' = fld g m"
  then have "map_option g (m' a) = map_option g (m a)" by (metis fld_def)
  then show "fld (\<lambda>h. f (g h)) m' a = fld (\<lambda>h. f (g h)) m a" by (cases "m' a"; cases "m a") (auto simp: fld_def)
qed

text \<open>The parts of a handle that the operations on the application order, on the buckets and on both keep.\<close>

definition key_part :: "ut_handle \<Rightarrow> byte list \<times> u32 \<times> u32" where
  "key_part h = (h_key h, h_keylen h, h_hashv h)"

definition bkt_part :: "ut_handle \<Rightarrow> addr option \<times> addr option \<times> byte list \<times> u32 \<times> u32" where
  "bkt_part h = (hh_next h, hh_prev h, key_part h)"

definition app_part :: "ut_handle \<Rightarrow> addr option \<times> addr option \<times> byte list \<times> u32 \<times> u32" where
  "app_part h = (h_next h, h_prev h, key_part h)"

lemma bkt_same:
  assumes "fld bkt_part m' = fld bkt_part m"
  shows "fld hh_next m' = fld hh_next m" "fld hh_prev m' = fld hh_prev m" "fld key_part m' = fld key_part m"
  using fld_comp [OF assms, of fst] fld_comp [OF assms, of "\<lambda>p. fst (snd p)"] fld_comp [OF assms, of "\<lambda>p. snd (snd p)"]
  by (simp_all add: bkt_part_def)

lemma app_same:
  assumes "fld app_part m' = fld app_part m"
  shows "fld h_next m' = fld h_next m" "fld h_prev m' = fld h_prev m" "fld key_part m' = fld key_part m"
  using fld_comp [OF assms, of fst] fld_comp [OF assms, of "\<lambda>p. fst (snd p)"] fld_comp [OF assms, of "\<lambda>p. snd (snd p)"]
  by (simp_all add: app_part_def)

lemma key_same: "fld key_part m' = fld key_part m \<Longrightarrow> fld h_hashv m' = fld h_hashv m"
  using fld_comp [of key_part m' m "\<lambda>p. snd (snd p)"] by (simp add: key_part_def)

text \<open>The interface of a pair of links in a handle: getters, setters and the part that they keep.\<close>

locale hh_links =
  fixes nf pf :: "ut_handle \<Rightarrow> addr option"
    and un up :: "addr option \<Rightarrow> ut_handle \<Rightarrow> ut_handle"
    and rest :: "ut_handle \<Rightarrow> 'r"
  assumes get_set: "nf (un q h) = q" "pf (up q h) = q" "nf (up q h) = nf h" "pf (un q h) = pf h"
    and rest_set: "rest (un q h) = rest h" "rest (up q h) = rest h"
begin

lemma set_next:
  assumes "m a = Some h"
  shows "\<exists>m'. h_upd a (un q) m = Some m' \<and> fld nf m' = (fld nf m)(a \<mapsto> q) \<and> fld pf m' = fld pf m \<and>
    fld rest m' = fld rest m \<and> (\<forall>x. x \<noteq> a \<longrightarrow> m' x = m x)"
  using assms by (intro exI [of _ "m(a \<mapsto> un q h)"]) (auto simp: h_upd_def get_set rest_set fld_def fun_eq_iff)

lemma set_prev:
  assumes "m a = Some h"
  shows "\<exists>m'. h_upd a (up q) m = Some m' \<and> fld pf m' = (fld pf m)(a \<mapsto> q) \<and> fld nf m' = fld nf m \<and>
    fld rest m' = fld rest m \<and> (\<forall>x. x \<noteq> a \<longrightarrow> m' x = m x)"
  using assms by (intro exI [of _ "m(a \<mapsto> up q h)"]) (auto simp: h_upd_def get_set rest_set fld_def fun_eq_iff)

lemma set_next_of_last:
  assumes "xs \<noteq> [] \<longrightarrow> m (last xs) \<noteq> None"
  shows "\<exists>m'. h_upd_if (prev_of None xs) (un q) m = Some m' \<and> fld nf m' = set_last xs q (fld nf m) \<and>
    fld pf m' = fld pf m \<and> fld rest m' = fld rest m \<and> (\<forall>x. x \<notin> set xs \<longrightarrow> m' x = m x)"
proof (cases "xs = []")
  case False
  with assms obtain h where "m (last xs) = Some h" by auto
  from set_next [where m = m and q = q, OF this] False show ?thesis
    by (metis (no_types, lifting) h_upd_if_def last_in_set option.simps(5) prev_of_def set_last_def)
qed (simp add: h_upd_if_def prev_of_def set_last_def)

lemma set_prev_of_first:
  assumes "ys \<noteq> [] \<longrightarrow> m (hd ys) \<noteq> None"
  shows "\<exists>m'. h_upd_if (next_of ys None) (up q) m = Some m' \<and> fld pf m' = set_first ys q (fld pf m) \<and>
    fld nf m' = fld nf m \<and> fld rest m' = fld rest m \<and> (\<forall>x. x \<notin> set ys \<longrightarrow> m' x = m x)"
proof (cases "ys = []")
  case False
  with assms obtain h where "m (hd ys) = Some h" by auto
  from set_prev [where m = m and q = q, OF this] False show ?thesis
    by (metis (no_types, lifting) h_upd_if_def hd_in_set option.simps(5) next_of_def set_first_def)
qed (simp add: h_upd_if_def next_of_def set_first_def)

lemma unlink:
  assumes d: "dseg (fld nf m) (fld pf m) None p (xs @ x # ys) None t" and dist: "distinct (xs @ x # ys)"
  shows "\<exists>m1 m2. h_upd_if (prev_of None xs) (un (next_of ys None)) m = Some m1 \<and>
    h_upd_if (next_of ys None) (up (prev_of None xs)) m1 = Some m2 \<and> m1 x = m x \<and> m2 x = m x \<and> (\<forall>a. a \<notin> set (xs @ ys) \<longrightarrow> m2 a = m a) \<and>
    dseg (fld nf m2) (fld pf m2) None (if xs = [] then next_of ys None else p) (xs @ ys) None (prev_of None (xs @ ys)) \<and>
    fld rest m2 = fld rest m"
proof -
  have mapped: "m a \<noteq> None" if "a \<in> set (xs @ x # ys)" for a
    using dseg_mapped [OF d that] by (auto simp: fld_def)
  have "xs \<noteq> [] \<longrightarrow> m (last xs) \<noteq> None" using mapped by simp
  from set_next_of_last [where m = m and xs = xs and q = "next_of ys None", OF this] obtain m1 where
    m1: "h_upd_if (prev_of None xs) (un (next_of ys None)) m = Some m1"
      "fld nf m1 = set_last xs (next_of ys None) (fld nf m)" "fld pf m1 = fld pf m" "fld rest m1 = fld rest m"
      "\<And>a. a \<notin> set xs \<Longrightarrow> m1 a = m a" by blast
  have "ys \<noteq> [] \<longrightarrow> m1 (hd ys) \<noteq> None"
  proof
    assume ys: "ys \<noteq> []"
    then have "hd ys \<notin> set xs" using dist by (cases ys) auto
    then show "m1 (hd ys) \<noteq> None" using m1(5) mapped ys by simp
  qed
  from set_prev_of_first [where m = m1 and ys = ys and q = "prev_of None xs", OF this] obtain m2 where
    m2: "h_upd_if (next_of ys None) (up (prev_of None xs)) m1 = Some m2"
      "fld pf m2 = set_first ys (prev_of None xs) (fld pf m1)" "fld nf m2 = fld nf m1" "fld rest m2 = fld rest m1"
      "\<And>a. a \<notin> set ys \<Longrightarrow> m2 a = m1 a" by blast
  have "m1 x = m x" "m2 x = m1 x" "\<And>a. a \<notin> set (xs @ ys) \<Longrightarrow> m2 a = m a" using m1(5) m2(5) dist by auto
  moreover have "(if ys = [] then prev_of None xs else t) = prev_of None (xs @ ys)"
    using dseg_last [OF d] by (auto simp: prev_of_def)
  ultimately show ?thesis using m1 m2 dseg_remove [OF d dist] by auto
qed

lemma mapped: "dseg (fld nf m) (fld pf m) b p xs e t \<Longrightarrow> a \<in> set xs \<Longrightarrow> \<exists>h. m a = Some h"
  using dseg_mapped [of "fld nf m" "fld pf m" b p xs e t a] by (auto simp: fld_def)

end

interpretation ha: hh_links h_next h_prev "\<lambda>q h. h\<lparr>h_next := q\<rparr>" "\<lambda>q h. h\<lparr>h_prev := q\<rparr>" bkt_part
  by unfold_locales (auto simp: bkt_part_def key_part_def)

interpretation hb: hh_links hh_next hh_prev "\<lambda>q h. h\<lparr>hh_next := q\<rparr>" "\<lambda>q h. h\<lparr>hh_prev := q\<rparr>" app_part
  by unfold_locales (auto simp: app_part_def key_part_def)

subsection \<open>Buckets\<close>

lemma bkt_unat:
  assumes "n = 2 ^ l" "l < 32"
  shows "unat (HASH_TO_BKT h n) = unat h mod 2 ^ l" "unat (n::u32) = 2 ^ l"
proof -
  have "HASH_TO_BKT h n = take_bit l h"
    using assms by (simp add: HASH_TO_BKT_def take_bit_eq_mask mask_eq_exp_minus_1)
  then show "unat (HASH_TO_BKT h n) = unat h mod 2 ^ l"
    by (simp only: unsigned_take_bit_eq) (simp only: take_bit_eq_mod)
  have "unat (of_nat (2 ^ l) :: u32) = 2 ^ l"
    using assms(2) power_strict_increasing [of l 32 "2::nat"] by (simp only: unat_of_nat) simp
  then show "unat n = 2 ^ l" using assms(1) by simp
qed

text \<open>
  Bucket i of n holds the chain ys, and everything in it hashes to i.
\<close>

definition bucket_ok :: "ut_mem \<Rightarrow> u32 \<Rightarrow> nat \<Rightarrow> ut_bucket \<Rightarrow> addr list \<Rightarrow> bool" where
  "bucket_ok m n i b ys \<longleftrightarrow> dseg (fld hh_next m) (fld hh_prev m) None (hh_head b) ys None (prev_of None ys) \<and>
     b_count b = of_nat (length ys) \<and>
     (\<forall>a \<in> set ys. \<exists>v. fld h_hashv m a = Some v \<and> unat (HASH_TO_BKT v n) = i)"

lemma bucket_ok_same: "fld bkt_part m' = fld bkt_part m \<Longrightarrow> bucket_ok m' n i b ys \<longleftrightarrow> bucket_ok m n i b ys"
  using bkt_same [of m' m] key_same [of m' m] by (simp add: bucket_ok_def)

lemma bucket_ok_cong:
  assumes "\<And>a. a \<in> set ys \<Longrightarrow> m' a = m a"
  shows "bucket_ok m' n i b ys \<longleftrightarrow> bucket_ok m n i b ys"
proof -
  have "dseg (fld hh_next m') (fld hh_prev m') None (hh_head b) ys None (prev_of None ys) \<longleftrightarrow>
      dseg (fld hh_next m) (fld hh_prev m) None (hh_head b) ys None (prev_of None ys)"
    by (rule dseg_cong) (simp add: fld_def assms)
  then show ?thesis by (simp add: bucket_ok_def fld_def assms)
qed

definition buckets_ok :: "ut_mem \<Rightarrow> u32 \<Rightarrow> ut_bucket list \<Rightarrow> addr list list \<Rightarrow> bool" where
  "buckets_ok m n bs Bs \<longleftrightarrow> length bs = unat n \<and> length Bs = unat n \<and>
     (\<forall>i < unat n. bucket_ok m n i (bs ! i) (Bs ! i))"

lemma buckets_ok_same: "fld bkt_part m' = fld bkt_part m \<Longrightarrow> buckets_ok m' n bs Bs \<longleftrightarrow> buckets_ok m n bs Bs"
  using bucket_ok_same [of m' m] by (simp add: buckets_ok_def)

text \<open>An element is in the bucket of its hash value only.\<close>

lemma in_bucket:
  assumes "buckets_ok m n bs Bs" "i < unat n" "a \<in> set (Bs ! i)"
  shows "\<exists>v. fld h_hashv m a = Some v \<and> unat (HASH_TO_BKT v n) = i"
proof -
  have "bucket_ok m n i (bs ! i) (Bs ! i)" using assms(1,2) by (simp add: buckets_ok_def)
  then have "\<forall>a \<in> set (Bs ! i). \<exists>v. fld h_hashv m a = Some v \<and> unat (HASH_TO_BKT v n) = i" by (simp add: bucket_ok_def)
  then show ?thesis using assms(3) by (rule bspec)
qed

lemma other_bucket:
  "buckets_ok m n bs Bs \<Longrightarrow> i < unat n \<Longrightarrow> j < unat n \<Longrightarrow> i \<noteq> j \<Longrightarrow> a \<in> set (Bs ! i) \<Longrightarrow> a \<notin> set (Bs ! j)"
proof
  assume b: "buckets_ok m n bs Bs" and i: "i < unat n" and j: "j < unat n" "i \<noteq> j" and a: "a \<in> set (Bs ! i)" "a \<in> set (Bs ! j)"
  from in_bucket [OF b i a(1)] obtain v where "fld h_hashv m a = Some v" "unat (HASH_TO_BKT v n) = i" by blast
  moreover from in_bucket [OF b j(1) a(2)] obtain v' where "fld h_hashv m a = Some v'" "unat (HASH_TO_BKT v' n) = j" by blast
  ultimately show False using j(2) by simp
qed

lemma in_concat: "a \<in> set (concat Bs) \<longleftrightarrow> (\<exists>i < length Bs. a \<in> set (Bs ! i))"
  unfolding set_concat by (metis UN_iff in_set_conv_nth)

lemma update_bucket_set: "i < length Bs \<Longrightarrow> set (concat (Bs[i := a # Bs ! i])) = insert a (set (concat Bs))"
proof -
  assume i: "i < length Bs"
  have "set (concat (Bs[i := a # Bs ! i])) = (\<Union>j < length Bs. set (Bs[i := a # Bs ! i] ! j))"
    by (auto simp: in_concat simp del: set_concat)
  also have "\<dots> = insert a (\<Union>j < length Bs. set (Bs ! j))"
    using i by (auto simp: nth_list_update split: if_splits)
  also have "(\<Union>j < length Bs. set (Bs ! j)) = set (concat Bs)"
    by (auto simp: in_concat simp del: set_concat)
  finally show ?thesis .
qed

lemma push_front:
  assumes d: "dseg (fld hh_next m) (fld hh_prev m) None hd' ys None t" and a: "a \<notin> set ys" "m a = Some h"
  shows "\<exists>m1 m2. h_upd a (\<lambda>h. h\<lparr>hh_prev := None, hh_next := hd'\<rparr>) m = Some m1 \<and>
    h_upd_if hd' (\<lambda>h. h\<lparr>hh_prev := Some a\<rparr>) m1 = Some m2 \<and>
    dseg (fld hh_next m2) (fld hh_prev m2) None (Some a) (a # ys) None (prev_of None (a # ys)) \<and>
    fld app_part m2 = fld app_part m \<and> (\<forall>x. x \<noteq> a \<longrightarrow> x \<notin> set ys \<longrightarrow> m2 x = m x)"
proof -
  let ?m1 = "m(a \<mapsto> h\<lparr>hh_prev := None, hh_next := hd'\<rparr>)"
  have hd': "hd' = next_of ys None" using d by (cases ys) (auto simp: next_of_def)
  have m1: "h_upd a (\<lambda>h. h\<lparr>hh_prev := None, hh_next := hd'\<rparr>) m = Some ?m1" using a(2) by (simp add: h_upd_def)
  have "ys \<noteq> [] \<longrightarrow> ?m1 (hd ys) \<noteq> None"
  proof
    assume "ys \<noteq> []"
    then obtain h' where "m (hd ys) = Some h'" using hb.mapped [OF d, of "hd ys"] by auto
    then show "?m1 (hd ys) \<noteq> None" by simp
  qed
  from hb.set_prev_of_first [where m = ?m1 and ys = ys and q = "Some a", OF this] obtain m2 where
    m2: "h_upd_if hd' (\<lambda>h. h\<lparr>hh_prev := Some a\<rparr>) ?m1 = Some m2"
      "fld hh_prev m2 = set_first ys (Some a) (fld hh_prev ?m1)" "fld hh_next m2 = fld hh_next ?m1"
      "fld app_part m2 = fld app_part ?m1" "\<And>x. x \<notin> set ys \<Longrightarrow> m2 x = ?m1 x"
    unfolding hd' by blast
  have d0: "dseg (fld hh_next m) (fld hh_prev m) None hd' ([] @ ys) None t" using d by simp
  have "dseg ((fld hh_next m)(a \<mapsto> next_of ys None)) ((set_first ys (Some a) (fld hh_prev m))(a \<mapsto> None)) None (Some a) (a # ys) None
      (if ys = [] then Some a else t)"
    using dseg_insert [OF d0, of a] dseg_distinct [OF d] a(1) by (simp add: set_last_def prev_of_def)
  moreover have "(if ys = [] then Some a else t) = prev_of None (a # ys)"
    using dseg_last [OF d] by (simp add: prev_of_def)
  moreover have "fld hh_next m2 = (fld hh_next m)(a \<mapsto> next_of ys None)" using m2(3) hd' by simp
  moreover have "fld hh_prev m2 = (set_first ys (Some a) (fld hh_prev m))(a \<mapsto> None)"
    using m2(2) a(1) by (cases ys) (auto simp: set_first_def fun_upd_twist)
  moreover have "fld app_part m2 = fld app_part m"
    unfolding m2(4) fld_upd by (rule fld_same [where m = m and a = a and h = h, OF a(2)]) (simp add: app_part_def key_part_def)
  ultimately show ?thesis using m1 m2(1,5) by auto
qed

lemma push_bucket:
  assumes ok: "buckets_ok m n bs Bs" and n: "n = 2 ^ l" "l < 32" and h: "m a = Some h" and new: "a \<notin> set (concat Bs)"
    and i: "i = unat (HASH_TO_BKT (h_hashv h) n)"
    and b': "hh_head b' = Some a" "b_count b' = b_count (bs ! i) + 1"
  shows "\<exists>m1 m2. h_upd a (\<lambda>h. h\<lparr>hh_prev := None, hh_next := hh_head (bs ! i)\<rparr>) m = Some m1 \<and>
    h_upd_if (hh_head (bs ! i)) (\<lambda>h. h\<lparr>hh_prev := Some a\<rparr>) m1 = Some m2 \<and>
    buckets_ok m2 n (bs[i := b']) (Bs[i := a # Bs ! i]) \<and> fld app_part m2 = fld app_part m \<and>
    (\<forall>x. x \<noteq> a \<longrightarrow> x \<notin> set (concat Bs) \<longrightarrow> m2 x = m x)"
proof -
  have il: "i < unat n" using bkt_unat [OF n] by (simp add: i)
  then have len: "i < length bs" "i < length Bs" using ok by (simp_all add: buckets_ok_def)
  have bo: "bucket_ok m n j (bs ! j) (Bs ! j)" if "j < unat n" for j using ok that by (simp add: buckets_ok_def)
  have sub: "set (Bs ! j) \<subseteq> set (concat Bs)" if "j < length Bs" for j
    using nth_mem [OF that] by auto
  have ai: "a \<notin> set (Bs ! j)" if "j < length Bs" for j using new sub that by blast
  have "dseg (fld hh_next m) (fld hh_prev m) None (hh_head (bs ! i)) (Bs ! i) None (prev_of None (Bs ! i))"
    using bo [OF il] by (simp add: bucket_ok_def)
  from push_front [OF this ai [OF len(2)] h] obtain m1 m2 where
    u: "h_upd a (\<lambda>h. h\<lparr>hh_prev := None, hh_next := hh_head (bs ! i)\<rparr>) m = Some m1"
      "h_upd_if (hh_head (bs ! i)) (\<lambda>h. h\<lparr>hh_prev := Some a\<rparr>) m1 = Some m2"
    and d2: "dseg (fld hh_next m2) (fld hh_prev m2) None (Some a) (a # Bs ! i) None (prev_of None (a # Bs ! i))"
    and app: "fld app_part m2 = fld app_part m" and fr: "\<And>x. x \<noteq> a \<Longrightarrow> x \<notin> set (Bs ! i) \<Longrightarrow> m2 x = m x"
    by blast
  have hv: "fld h_hashv m2 = fld h_hashv m" by (rule key_same [OF app_same(3) [OF app]])
  have "bucket_ok m2 n i b' (a # Bs ! i)"
    using d2 bo [OF il] b' i h hv by (auto simp: bucket_ok_def fld_def)
  moreover have "bucket_ok m2 n j (bs ! j) (Bs ! j)" if j: "j < unat n" "j \<noteq> i" for j
  proof -
    have "m2 x = m x" if "x \<in> set (Bs ! j)" for x
    proof (rule fr)
      show "x \<noteq> a" using ai [of j] that j len ok by (auto simp: buckets_ok_def)
      show "x \<notin> set (Bs ! i)" by (rule other_bucket [OF ok j(1) il j(2) that])
    qed
    with bo [OF j(1)] bucket_ok_cong [of "Bs ! j" m2 m] show ?thesis by simp
  qed
  ultimately have "buckets_ok m2 n (bs[i := b']) (Bs[i := a # Bs ! i])"
    using ok len by (simp add: buckets_ok_def nth_list_update)
  moreover have "m2 x = m x" if "x \<noteq> a" "x \<notin> set (concat Bs)" for x
    using fr [OF that(1)] that(2) sub [OF len(2)] by blast
  ultimately show ?thesis using u app by blast
qed

subsection \<open>Growing\<close>

text \<open>What moving the elements of S into new buckets changes.\<close>

definition moved :: "u32 \<Rightarrow> addr set \<Rightarrow> addr list list \<Rightarrow> ut_mem \<Rightarrow> ut_mem \<times> ut_bucket list \<times> u32 \<Rightarrow> bool" where
  "moved n S Bs m r \<longleftrightarrow> (\<exists>m' nb' k' Bs'. r = (m', nb', k') \<and> buckets_ok m' n nb' Bs' \<and>
     set (concat Bs') = S \<union> set (concat Bs) \<and> fld app_part m' = fld app_part m \<and>
     (\<forall>x. x \<notin> S \<longrightarrow> x \<notin> set (concat Bs) \<longrightarrow> m' x = m x))"

lemma movedI: "buckets_ok m' n nb' Bs' \<Longrightarrow> set (concat Bs') = S \<union> set (concat Bs) \<Longrightarrow> fld app_part m' = fld app_part m \<Longrightarrow>
    (\<And>x. x \<notin> S \<Longrightarrow> x \<notin> set (concat Bs) \<Longrightarrow> m' x = m x) \<Longrightarrow> moved n S Bs m (m', nb', k')"
  unfolding moved_def by blast

lemma he_move_ok:
  assumes ok: "buckets_ok m n nb Bs" and n: "n = num_buckets t * 2" "n = 2 ^ l" "l < 32"
    and h: "m a = Some h" and new: "a \<notin> set (concat Bs)" and id: "ideal_chain_maxlen t \<noteq> 0"
  shows "\<exists>r. he_move t a (m, nb, k) = Some r \<and> moved n {a} Bs m r"
proof -
  define i where "i = unat (HASH_TO_BKT (h_hashv h) n)"
  define c where "c = b_count (nb ! i) + 1"
  define b1 where "b1 = (if c > ideal_chain_maxlen t then (nb ! i)\<lparr>b_count := c, expand_mult := c div ideal_chain_maxlen t\<rparr>
      else (nb ! i)\<lparr>b_count := c\<rparr>)"
  define k1 where "k1 = (if c > ideal_chain_maxlen t then k + 1 else k)"
  have il: "i < unat n" using bkt_unat [OF n(2,3)] by (simp add: i_def)
  then have len: "i < length nb" "i < length Bs" using ok by (simp_all add: buckets_ok_def)
  have b1: "hh_head b1 = hh_head (nb ! i)" "b_count b1 = b_count (nb ! i) + 1" by (simp_all add: b1_def c_def)
  from push_bucket [OF ok n(2,3) h new i_def, of "b1\<lparr>hh_head := Some a\<rparr>"] b1(2) obtain m1 m2 where
    u: "h_upd a (\<lambda>h. h\<lparr>hh_prev := None, hh_next := hh_head b1\<rparr>) m = Some m1"
      "h_upd_if (hh_head b1) (\<lambda>h. h\<lparr>hh_prev := Some a\<rparr>) m1 = Some m2"
    and r: "buckets_ok m2 n (nb[i := b1\<lparr>hh_head := Some a\<rparr>]) (Bs[i := a # Bs ! i])" "fld app_part m2 = fld app_part m"
      "\<And>x. x \<noteq> a \<Longrightarrow> x \<notin> set (concat Bs) \<Longrightarrow> m2 x = m x"
    unfolding b1(1) by auto
  have ui: "0 \<le> uint (HASH_TO_BKT (h_hashv h) n)" "uint (HASH_TO_BKT (h_hashv h) n) < int (length nb)"
    "nat (uint (HASH_TO_BKT (h_hashv h) n)) = i"
    using len(1) by (simp_all add: i_def) (metis i_def len(1) uint_nat of_nat_less_iff)
  have "he_move t a (m, nb, k) = Some (m2, nb[i := b1\<lparr>hh_head := Some a\<rparr>], k1)"
    unfolding he_move_def using h u [unfolded b1(1)] ui n(1) id
    by (cases "c > ideal_chain_maxlen t")
      (simp_all add: arr_get_in arr_set_in c_def [symmetric] Let_def b1_def k1_def)
  moreover have "moved n {a} Bs m (m2, nb[i := b1\<lparr>hh_head := Some a\<rparr>], k1)"
    unfolding moved_def using r update_bucket_set [OF len(2), of a] by auto
  ultimately show ?thesis by blast
qed

lemma chain_same: "(\<And>x. x \<in> set ys \<Longrightarrow> m1 x = m x) \<Longrightarrow> chain (fld f m1) p ys \<longleftrightarrow> chain (fld f m) p ys"
  by (rule chain_cong) (simp add: fld_def)

lemma chain_ConsD: "chain (fld f m) p (x # xs) \<Longrightarrow> \<exists>h. p = Some x \<and> m x = Some h \<and> chain (fld f m) (f h) xs"
  by (cases "m x") (auto simp: fld_def [of f m x])

lemma he_chain_ok:
  assumes "buckets_ok m n nb Bs" "n = num_buckets t * 2" "n = 2 ^ l" "l < 32" "ideal_chain_maxlen t \<noteq> 0"
    and "chain (fld hh_next m) thh ys" "set ys \<inter> set (concat Bs) = {}"
  shows "\<exists>r. he_chain t thh (m, nb, k) = Some r \<and> moved n (set ys) Bs m r"
  using assms
proof (induction ys arbitrary: thh m nb k Bs)
  case Nil
  then show ?case by (auto simp: he_chain.simps moved_def)
next
  case (Cons a ys)
  then obtain h where h: "thh = Some a" "m a = Some h" "chain (fld hh_next m) (hh_next h) ys"
    using chain_ConsD [of hh_next m thh a ys] by blast
  have dist: "a \<notin> set ys" using chain_distinct [OF Cons.prems(6)] by simp
  have new: "a \<notin> set (concat Bs)" using Cons.prems(7) by (auto simp del: set_concat)
  from he_move_ok [OF Cons.prems(1-4) h(2) new Cons.prems(5), of k] obtain m1 nb1 k1 Bs1 where
    r1: "he_move t a (m, nb, k) = Some (m1, nb1, k1)" "buckets_ok m1 n nb1 Bs1"
      "set (concat Bs1) = insert a (set (concat Bs))" "fld app_part m1 = fld app_part m"
      "\<And>x. x \<noteq> a \<Longrightarrow> x \<notin> set (concat Bs) \<Longrightarrow> m1 x = m x"
    unfolding moved_def by blast
  have same: "m1 x = m x" if "x \<in> set ys" for x
    by (rule r1(5)) (use that dist Cons.prems(7) in \<open>auto simp del: set_concat\<close>)
  have "chain (fld hh_next m1) (hh_next h) ys"
    using h(3) chain_same [OF same] by simp
  moreover have "set ys \<inter> set (concat Bs1) = {}" using Cons.prems(7) dist unfolding r1(3) by auto
  ultimately obtain m2 nb2 k2 Bs2 where
    r2: "he_chain t (hh_next h) (m1, nb1, k1) = Some (m2, nb2, k2)" "buckets_ok m2 n nb2 Bs2"
      "set (concat Bs2) = set ys \<union> set (concat Bs1)" "fld app_part m2 = fld app_part m1"
      "\<And>x. x \<notin> set ys \<Longrightarrow> x \<notin> set (concat Bs1) \<Longrightarrow> m2 x = m1 x"
    using Cons.IH [OF r1(2) Cons.prems(2-5), of "hh_next h" k1] unfolding moved_def by blast
  have "he_chain t thh (m, nb, k) = Some (m2, nb2, k2)"
    using h r1(1) r2(1) by (subst he_chain.simps) simp
  moreover have "moved n (set (a # ys)) Bs m (m2, nb2, k2)"
    by (rule movedI [OF r2(2)]) (use r1(3-5) r2(3-5) in \<open>auto simp del: set_concat\<close>)
  ultimately show ?case by blast
qed

lemma he_loop_ok:
  assumes "buckets_ok m n nb Bs" "n = num_buckets t * 2" "n = 2 ^ l" "l < 32" "ideal_chain_maxlen t \<noteq> 0"
    and "distinct is" "\<And>i. i \<in> set is \<Longrightarrow> i < length (buckets t) \<and> chain (fld hh_next m) (hh_head (buckets t ! i)) (Cs i)"
    and "\<And>i. i \<in> set is \<Longrightarrow> set (Cs i) \<inter> set (concat Bs) = {}"
    and "\<And>i j. i \<in> set is \<Longrightarrow> j \<in> set is \<Longrightarrow> i \<noteq> j \<Longrightarrow> set (Cs i) \<inter> set (Cs j) = {}"
  shows "\<exists>r. he_loop t is (m, nb, k) = Some r \<and> moved n (\<Union>i \<in> set is. set (Cs i)) Bs m r"
  using assms
proof (induction "is" arbitrary: m nb k Bs)
  case Nil
  then show ?case by (auto simp: moved_def)
next
  case (Cons i "is")
  have i: "i < length (buckets t)" "chain (fld hh_next m) (hh_head (buckets t ! i)) (Cs i)"
    using Cons.prems(7) [of i] by simp_all
  have new: "set (Cs i) \<inter> set (concat Bs) = {}" by (rule Cons.prems(8)) simp
  from he_chain_ok [OF Cons.prems(1-5) i(2) new, of k] obtain m1 nb1 k1 Bs1 where
    r1: "he_chain t (hh_head (buckets t ! i)) (m, nb, k) = Some (m1, nb1, k1)" "buckets_ok m1 n nb1 Bs1"
      "set (concat Bs1) = set (Cs i) \<union> set (concat Bs)" "fld app_part m1 = fld app_part m"
      "\<And>x. x \<notin> set (Cs i) \<Longrightarrow> x \<notin> set (concat Bs) \<Longrightarrow> m1 x = m x"
    unfolding moved_def by blast
  have dis: "set (Cs j) \<inter> set (Cs i) = {}" if "j \<in> set is" for j
    by (rule Cons.prems(9)) (use that Cons.prems(6) in auto)
  have old: "set (Cs j) \<inter> set (concat Bs) = {}" if "j \<in> set is" for j
    by (rule Cons.prems(8)) (use that in simp)
  have "set (Cs j) \<inter> set (concat Bs1) = {}" if "j \<in> set is" for j
    using dis [OF that] old [OF that] unfolding r1(3) by blast
  moreover have "j < length (buckets t) \<and> chain (fld hh_next m1) (hh_head (buckets t ! j)) (Cs j)" if j: "j \<in> set is" for j
  proof -
    have "m1 x = m x" if "x \<in> set (Cs j)" for x
      by (rule r1(5)) (use that dis [OF j] old [OF j] in blast)+
    from Cons.prems(7) [of j] j chain_same [OF this] show ?thesis by simp
  qed
  moreover have "set (Cs p) \<inter> set (Cs q) = {}" if "p \<in> set is" "q \<in> set is" "p \<noteq> q" for p q
    by (rule Cons.prems(9)) (use that in auto)
  moreover have "distinct is" using Cons.prems(6) by simp
  ultimately obtain m2 nb2 k2 Bs2 where
    r2: "he_loop t is (m1, nb1, k1) = Some (m2, nb2, k2)" "buckets_ok m2 n nb2 Bs2"
      "set (concat Bs2) = (\<Union>i \<in> set is. set (Cs i)) \<union> set (concat Bs1)" "fld app_part m2 = fld app_part m1"
      "\<And>x. x \<notin> (\<Union>i \<in> set is. set (Cs i)) \<Longrightarrow> x \<notin> set (concat Bs1) \<Longrightarrow> m2 x = m1 x"
    using Cons.IH [OF r1(2) Cons.prems(2-5), of k1] unfolding moved_def by blast
  have "he_loop t (i # is) (m, nb, k) = Some (m2, nb2, k2)"
    using i(1) r1(1) r2(1) by (simp add: arr_get_in)
  moreover have "moved n (\<Union>i \<in> set (i # is). set (Cs i)) Bs m (m2, nb2, k2)"
    by (rule movedI [OF r2(2)]) (use r1(3-5) r2(3-5) in \<open>auto simp del: set_concat\<close>)
  ultimately show ?case by blast
qed

end
