(* ===== verification/UtHashOk.thy ===== *)
theory UtHashOk
  imports UtHashBkt
begin

text \<open>
  The invariant of the hash table of UtHash and what its operations do with it: the application
  order is one doubly linked list, every bucket is another, and the buckets hold the elements of
  that list by their hash values.
\<close>

subsection \<open>The invariant\<close>

text \<open>The application order, and what must hold of a table.\<close>

definition app_ok :: "ut_mem \<Rightarrow> addr option \<Rightarrow> addr \<Rightarrow> addr list \<Rightarrow> bool" where
  "app_ok m hd' tl' xs \<longleftrightarrow> xs \<noteq> [] \<and> dseg (fld h_next m) (fld h_prev m) None hd' xs None (Some tl')"

definition table_ok :: "ut_mem \<Rightarrow> ut_table \<Rightarrow> addr set \<Rightarrow> bool" where
  "table_ok m t S \<longleftrightarrow> 5 \<le> unat (log2_num_buckets t) \<and> unat (log2_num_buckets t) < 32 \<and>
     num_buckets t = 2 ^ unat (log2_num_buckets t) \<and>
     (\<exists>Bs. buckets_ok m (num_buckets t) (buckets t) Bs \<and> set (concat Bs) = S)"

definition uth_ok :: "uthash \<Rightarrow> addr list \<Rightarrow> bool" where
  "uth_ok u xs \<longleftrightarrow> (if xs = [] then u_head u = None
     else \<exists>t. u_tbl u = Some t \<and> app_ok (u_mem u) (u_head u) (t_tail t) xs \<and>
       table_ok (u_mem u) t (set xs) \<and> num_items t = of_nat (length xs))"

text \<open>The invariant without the tail; this much is enough to find, to walk and to count.\<close>

definition listed :: "uthash \<Rightarrow> addr list \<Rightarrow> bool" where
  "listed u xs \<longleftrightarrow> (if xs = [] then u_head u = None
     else \<exists>t. u_tbl u = Some t \<and> dseg (fld h_next (u_mem u)) (fld h_prev (u_mem u)) None (u_head u) xs None (Some (last xs)) \<and>
       table_ok (u_mem u) t (set xs) \<and> num_items t = of_nat (length xs))"

lemma uth_listed: "uth_ok u xs \<Longrightarrow> listed u xs"
  unfolding uth_ok_def listed_def app_ok_def using dseg_last by fastforce

lemma listed_D:
  assumes "listed u xs" "xs \<noteq> []"
  obtains t where "u_tbl u = Some t" "u_head u = Some (hd xs)"
    "dseg (fld h_next (u_mem u)) (fld h_prev (u_mem u)) None (u_head u) xs None (Some (last xs))"
    "table_ok (u_mem u) t (set xs)" "num_items t = of_nat (length xs)"
  using assms dseg_hd unfolding listed_def by (metis (no_types, lifting))

lemma listed_distinct: "listed u xs \<Longrightarrow> distinct xs"
  by (cases "xs = []") (auto elim!: listed_D dest: dseg_distinct)

lemma table_ok_same: "fld bkt_part m' = fld bkt_part m \<Longrightarrow> table_ok m' t S \<longleftrightarrow> table_ok m t S"
  using buckets_ok_same [of m' m] by (simp add: table_ok_def)

lemma app_ok_same: "fld app_part m' = fld app_part m \<Longrightarrow> app_ok m' h tl' xs \<longleftrightarrow> app_ok m h tl' xs"
  using app_same [of m' m] by (simp add: app_ok_def)

text \<open>The fields that table_ok does not read.\<close>

lemma table_ok_cong:
  "buckets t' = buckets t \<Longrightarrow> num_buckets t' = num_buckets t \<Longrightarrow> log2_num_buckets t' = log2_num_buckets t \<Longrightarrow>
    table_ok m t' S \<longleftrightarrow> table_ok m t S"
  by (simp add: table_ok_def)

lemma table_ok_D:
  assumes "table_ok m t S"
  obtains l Bs where "5 \<le> l" "l < 32" "l = unat (log2_num_buckets t)" "num_buckets t = 2 ^ l" "unat (num_buckets t) = 2 ^ l"
    "buckets_ok m (num_buckets t) (buckets t) Bs" "set (concat Bs) = S"
  using assms bkt_unat(2) unfolding table_ok_def by blast

subsection \<open>Growing\<close>

lemma ideal_nonzero:
  assumes "n = 2 ^ k" "k < 32" "k = unat l" "5 < k" "(v::u32) \<noteq> 0"
  shows "drop_bit (unat l) v + (if v AND (n - 1) \<noteq> 0 then 1 else 0) \<noteq> 0"
proof (cases "v AND (n - 1) = 0")
  case True
  then have "take_bit k v = 0" using assms(1) by (simp add: take_bit_eq_mask mask_eq_exp_minus_1)
  then have "drop_bit k v \<noteq> 0" using bits_ident [of k v] assms(5) by auto
  with True assms(3) show ?thesis by simp
next
  case False
  have "unat (drop_bit k v) = unat v div 2 ^ k" by (simp only: unat_drop_bit_eq) (simp add: drop_bit_eq_div)
  also have "\<dots> \<le> unat v div 2 ^ 1"
    by (intro div_le_mono2 power_increasing) (use assms(4) in simp_all)
  also have "\<dots> < 2 ^ 31" using unsigned_less [of v, where ?'a = nat] by simp
  finally have "unat (drop_bit k v + 1) \<noteq> 0" by (simp add: unat_word_ariths)
  then have "drop_bit k v + 1 \<noteq> 0" by auto
  with False assms(3) show ?thesis by auto
qed
lemma no_bucket:
  assumes "n = 2 ^ l" "l < 32"
  shows "buckets_ok m n (replicate (unat n) empty_bucket) (replicate (unat n) [])"
  by (simp add: buckets_ok_def bucket_ok_def empty_bucket_def prev_of_def)

text \<open>
  Growing succeeds or exits for want of memory.  A request of 64 GB, which doubling 2 ^ 31
  buckets needs, must fail: the bucket count wraps there.
\<close>

lemma HASH_EXPAND_BUCKETS_ok:
  assumes tb: "u_tbl u = Some t" and ok: "table_ok (u_mem u) t S" and ne: "num_items t \<noteq> 0" and A: "\<not> A (2 ^ 36)"
  shows "HASH_EXPAND_BUCKETS A u = Some (Inl (- 1)) \<or>
    (\<exists>t' m'. HASH_EXPAND_BUCKETS A u = Some (Inr (u\<lparr>u_tbl := Some t', u_mem := m'\<rparr>)) \<and> table_ok m' t' S \<and>
       num_items t' = num_items t \<and> t_tail t' = t_tail t \<and> fld app_part m' = fld app_part (u_mem u) \<and>
       num_buckets t' = num_buckets t * 2)"
proof (cases "A (2 * uint (num_buckets t) * 16)")
  case False
  then show ?thesis by (simp add: HASH_EXPAND_BUCKETS_def tb)
next
  case True
  from ok obtain l Bs where l: "5 \<le> l" "l < 32" "l = unat (log2_num_buckets t)" "num_buckets t = 2 ^ l" "unat (num_buckets t) = 2 ^ l"
    and bk: "buckets_ok (u_mem u) (num_buckets t) (buckets t) Bs" "set (concat Bs) = S"
    by (elim table_ok_D)
  have "uint (num_buckets t) = 2 ^ l" using l(5) by (metis of_nat_numeral of_nat_power uint_nat)
  then have "l \<noteq> 31" using True A by auto
  then have l31: "Suc l < 32" using l(2) by simp
  have lg: "unat (log2_num_buckets t + 1) = Suc l"
    using l(2,3) by (simp add: unat_word_ariths)
  have nb: "num_buckets t * 2 = 2 ^ Suc l" using l(4) by simp
  then have un: "unat (num_buckets t * 2) = 2 * unat (num_buckets t)" using bkt_unat(2) [OF nb l31] l(5) by simp
  define ideal where "ideal = drop_bit (unat (log2_num_buckets t + 1)) (num_items t) +
    (if num_items t AND (num_buckets t * 2 - 1) \<noteq> 0 then 1 else 0)"
  have id: "ideal \<noteq> 0"
    unfolding ideal_def by (rule ideal_nonzero [OF nb l31 lg [symmetric]]) (use l(1) ne in simp_all)
  define t1 where "t1 = t\<lparr>ideal_chain_maxlen := ideal, nonideal_items := 0\<rparr>"
  have chains: "i < length (buckets t1) \<and> chain (fld hh_next (u_mem u)) (hh_head (buckets t1 ! i)) (Bs ! i)"
    if "i \<in> set [0..<unat (num_buckets t)]" for i
    using that bk(1) dseg_chain by (fastforce simp: buckets_ok_def bucket_ok_def t1_def)
  have dis: "set (Bs ! i) \<inter> set (Bs ! j) = {}"
    if "i \<in> set [0..<unat (num_buckets t)]" "j \<in> set [0..<unat (num_buckets t)]" "i \<noteq> j" for i j
    using other_bucket [OF bk(1), of i j] that by auto
  have em: "set (concat (replicate k [])) = {}" for k by simp
  obtain m' nb' k' Bs' where r:
    "he_loop t1 [0..<unat (num_buckets t)] (u_mem u, replicate (2 * unat (num_buckets t)) empty_bucket, 0) = Some (m', nb', k')"
    "buckets_ok m' (num_buckets t * 2) nb' Bs'" "set (concat Bs') = (\<Union>i \<in> set [0..<unat (num_buckets t)]. set (Bs ! i))"
    "fld app_part m' = fld app_part (u_mem u)"
  proof -
    have t1: "num_buckets t * 2 = num_buckets t1 * 2" "ideal_chain_maxlen t1 \<noteq> 0" using id by (simp_all add: t1_def)
    from he_loop_ok [where n = "num_buckets t * 2" and Cs = "\<lambda>i. Bs ! i" and k = 0,
        OF no_bucket [OF nb l31] t1(1) nb l31 t1(2) distinct_upt chains _ dis]
    have "\<exists>r. he_loop t1 [0..<unat (num_buckets t)] (u_mem u, replicate (unat (num_buckets t * 2)) empty_bucket, 0) = Some r \<and>
        moved (num_buckets t * 2) (\<Union>i \<in> set [0..<unat (num_buckets t)]. set (Bs ! i)) (replicate (unat (num_buckets t * 2)) []) (u_mem u) r"
      by simp
    then show ?thesis using that unfolding un moved_def em by (auto simp del: set_concat)
  qed
  have S: "(\<Union>i \<in> set [0..<unat (num_buckets t)]. set (Bs ! i)) = S"
    using bk in_concat [of _ Bs] unfolding buckets_ok_def by (force simp del: set_concat)
  define t' where "t' = t1\<lparr>nonideal_items := k', num_buckets := num_buckets t * 2, log2_num_buckets := log2_num_buckets t + 1,
    buckets := nb', ineff_expands := (if k' > drop_bit 1 (num_items t) then ineff_expands t + 1 else 0),
    noexpand := (if (if k' > drop_bit 1 (num_items t) then ineff_expands t + 1 else 0) > 1 then 1 else noexpand t)\<rparr>"
  have "\<not> log2_num_buckets t + 1 \<ge> 32" using lg l31 by (simp add: word_le_nat_alt)
  then have "HASH_EXPAND_BUCKETS A u = Some (Inr (u\<lparr>u_tbl := Some t', u_mem := m'\<rparr>))"
    using True r(1) [unfolded t1_def] unfolding HASH_EXPAND_BUCKETS_def tb
    by (simp add: Let_def ideal_def [symmetric] t'_def t1_def)
  moreover have "table_ok m' t' S"
    unfolding table_ok_def using r(2,3) l31 l(1) lg nb S by (auto simp: t'_def simp del: set_concat)
  moreover have "num_items t' = num_items t" "t_tail t' = t_tail t" "num_buckets t' = num_buckets t * 2"
    by (simp_all add: t'_def t1_def)
  ultimately show ?thesis using r(4) by blast
qed

subsection \<open>Adding\<close>

lemma HASH_ADD_TO_BKT_ok:
  assumes tb: "u_tbl u = Some t" and ok: "table_ok (u_mem u) t S" and A: "\<not> A (2 ^ 36)"
    and ne: "num_items t \<noteq> 0 \<or> set (buckets t) = {empty_bucket}"
    and a: "a \<notin> S" "u_mem u a = Some h"
  shows "HASH_ADD_TO_BKT A (HASH_TO_BKT (h_hashv h) (num_buckets t)) a u = Some (Inl (- 1)) \<or>
    (\<exists>t' m'. HASH_ADD_TO_BKT A (HASH_TO_BKT (h_hashv h) (num_buckets t)) a u = Some (Inr (u\<lparr>u_tbl := Some t', u_mem := m'\<rparr>)) \<and>
       table_ok m' t' (insert a S) \<and> num_items t' = num_items t \<and> t_tail t' = t_tail t \<and>
       fld app_part m' = fld app_part (u_mem u))"
proof -
  from ok obtain l Bs where l: "5 \<le> l" "l < 32" "l = unat (log2_num_buckets t)" "num_buckets t = 2 ^ l" "unat (num_buckets t) = 2 ^ l"
    and bk: "buckets_ok (u_mem u) (num_buckets t) (buckets t) Bs" "set (concat Bs) = S"
    by (elim table_ok_D)
  define i where "i = unat (HASH_TO_BKT (h_hashv h) (num_buckets t))"
  define b where "b = buckets t ! i"
  have "i < unat (num_buckets t)" using bkt_unat [OF l(4,2)] l(5) by (simp add: i_def)
  then have len: "i < length (buckets t)" "i < length Bs" using bk(1) by (simp_all add: buckets_ok_def)
  have new: "a \<notin> set (concat Bs)" using a(1) bk(2) by simp
  from push_bucket [OF bk(1) l(4,2) a(2) new i_def, of "b\<lparr>b_count := b_count b + 1, hh_head := Some a\<rparr>"] obtain m1 m2 where
    u: "h_upd a (\<lambda>h. h\<lparr>hh_prev := None, hh_next := hh_head b\<rparr>) (u_mem u) = Some m1"
      "h_upd_if (hh_head b) (\<lambda>h. h\<lparr>hh_prev := Some a\<rparr>) m1 = Some m2"
    and r: "buckets_ok m2 (num_buckets t) ((buckets t)[i := b\<lparr>b_count := b_count b + 1, hh_head := Some a\<rparr>]) (Bs[i := a # Bs ! i])"
      "fld app_part m2 = fld app_part (u_mem u)"
    unfolding b_def by auto
  have ui: "0 \<le> uint (HASH_TO_BKT (h_hashv h) (num_buckets t))"
    "uint (HASH_TO_BKT (h_hashv h) (num_buckets t)) < int (length (buckets t))"
    "nat (uint (HASH_TO_BKT (h_hashv h) (num_buckets t))) = i"
    using len(1) by (simp_all add: i_def) (metis i_def len(1) uint_nat of_nat_less_iff)
  define t1 where "t1 = t\<lparr>buckets := (buckets t)[i := b\<lparr>b_count := b_count b + 1, hh_head := Some a\<rparr>]\<rparr>"
  define u1 where "u1 = u\<lparr>u_tbl := Some t1, u_mem := m2\<rparr>"
  have swap: "(\<lambda>h::ut_handle. h\<lparr>hh_next := hh_head b, hh_prev := None\<rparr>) = (\<lambda>h. h\<lparr>hh_prev := None, hh_next := hh_head b\<rparr>)"
    by (rule ext) simp
  have step: "HASH_ADD_TO_BKT A (HASH_TO_BKT (h_hashv h) (num_buckets t)) a u =
      (if b_count b + 1 \<ge> (expand_mult b + 1) * HASH_BKT_CAPACITY_THRESH \<and> noexpand t = 0 then HASH_EXPAND_BUCKETS A u1
       else Some (Inr u1))"
    unfolding HASH_ADD_TO_BKT_def using tb ui u [folded swap]
    by (simp add: arr_get_in arr_set_in Let_def u1_def t1_def b_def [symmetric])
  have t1: "table_ok (u_mem u1) t1 (insert a S)"
    unfolding table_ok_def using l r(1) update_bucket_set [OF len(2), of a] bk(2)
    by (auto simp: t1_def u1_def simp del: set_concat)
  show ?thesis
  proof (cases "b_count b + 1 \<ge> (expand_mult b + 1) * HASH_BKT_CAPACITY_THRESH \<and> noexpand t = 0")
    case False
    then have "HASH_ADD_TO_BKT A (HASH_TO_BKT (h_hashv h) (num_buckets t)) a u = Some (Inr (u\<lparr>u_tbl := Some t1, u_mem := m2\<rparr>))"
      using step by (simp only: if_False u1_def)
    moreover have "table_ok m2 t1 (insert a S)" "num_items t1 = num_items t" "t_tail t1 = t_tail t"
      using t1 by (simp_all add: u1_def t1_def)
    ultimately show ?thesis using r(2) by blast
  next
    case True
    then have e: "HASH_ADD_TO_BKT A (HASH_TO_BKT (h_hashv h) (num_buckets t)) a u = HASH_EXPAND_BUCKETS A u1"
      using step by (simp only: if_True simp_thms)
    have p: "num_items t1 = num_items t" "t_tail t1 = t_tail t" "fld app_part (u_mem u1) = fld app_part (u_mem u)"
      "\<And>t' m'. u1\<lparr>u_tbl := Some t', u_mem := m'\<rparr> = u\<lparr>u_tbl := Some t', u_mem := m'\<rparr>"
      using r(2) by (simp_all add: u1_def t1_def)
    have "b \<noteq> empty_bucket" using True by (auto simp: empty_bucket_def HASH_BKT_CAPACITY_THRESH_def word_le_nat_alt)
    moreover have "b \<in> set (buckets t)" using len(1) by (simp add: b_def)
    ultimately have tb1: "u_tbl u1 = Some t1" "num_items t1 \<noteq> 0" using ne by (auto simp: u1_def t1_def)
    from HASH_EXPAND_BUCKETS_ok [of u1 t1 "insert a S" A, OF tb1(1) t1 tb1(2) A] show ?thesis
      unfolding e p by blast
  qed
qed

text \<open>Chains of at most k elements, k below 9, do not make the table grow when one is added.\<close>

definition few :: "nat \<Rightarrow> ut_bucket list \<Rightarrow> bool" where
  "few k bs \<longleftrightarrow> (\<forall>b \<in> set bs. expand_mult b = 0 \<and> unat (b_count b) \<le> k)"

lemma HASH_ADD_TO_BKT_few:
  assumes t: "u_tbl u = Some t" "few k (buckets t)" "k < 9" and r: "HASH_ADD_TO_BKT A bkt a u = Some r"
  shows "\<exists>u' t'. r = Inr u' \<and> u_tbl u' = Some t' \<and> few (Suc k) (buckets t')"
proof -
  from r t(1) obtain b m1 m2 bs where
    b: "arr_get (buckets t) (uint bkt) = Some b" and
    bs: "arr_set (buckets t) (uint bkt) (b\<lparr>b_count := b_count b + 1, hh_head := Some a\<rparr>) = Some bs" and
    e: "(if b_count b + 1 \<ge> (expand_mult b + 1) * HASH_BKT_CAPACITY_THRESH \<and> noexpand t = 0
      then HASH_EXPAND_BUCKETS A (u\<lparr>u_tbl := Some (t\<lparr>buckets := bs\<rparr>), u_mem := m2\<rparr>)
      else Some (Inr (u\<lparr>u_tbl := Some (t\<lparr>buckets := bs\<rparr>), u_mem := m2\<rparr>))) = Some r"
    unfolding HASH_ADD_TO_BKT_def Let_def bind_Some_iff by auto
  from arr_get_SomeD [OF b] have i: "nat (uint bkt) < length (buckets t)" "b = buckets t ! nat (uint bkt)" by linarith+
  then have "b \<in> set (buckets t)" using nth_mem by blast
  then have b0: "expand_mult b = 0" "unat (b_count b) \<le> k" using t(2) by (simp_all add: few_def)
  have c: "unat (b_count b + 1) = Suc (unat (b_count b))" using b0(2) t(3) by (simp add: unat_word_ariths)
  have "\<not> b_count b + 1 \<ge> (expand_mult b + 1) * HASH_BKT_CAPACITY_THRESH"
    using b0 c t(3) by (simp add: word_le_nat_alt HASH_BKT_CAPACITY_THRESH_def)
  then have "r = Inr (u\<lparr>u_tbl := Some (t\<lparr>buckets := bs\<rparr>), u_mem := m2\<rparr>)" using e by simp
  moreover have "few (Suc k) bs"
    unfolding few_def
  proof
    fix x
    assume "x \<in> set bs"
    moreover have "bs = (buckets t)[nat (uint bkt) := b\<lparr>b_count := b_count b + 1, hh_head := Some a\<rparr>]"
      using bs by (simp add: arr_set_def split: if_splits)
    ultimately have "x \<in> set (buckets t) \<or> x = b\<lparr>b_count := b_count b + 1, hh_head := Some a\<rparr>"
      using set_update_subset_insert by fastforce
    then show "expand_mult x = 0 \<and> unat (b_count x) \<le> Suc k" using t(2) b0 c by (auto simp: few_def)
  qed
  ultimately show ?thesis by auto
qed

lemma ha_to_bucket_ok:
  assumes tb: "u_tbl u = Some t" and app: "app_ok (u_mem u) (u_head u) (t_tail t) xs" and ok: "table_ok (u_mem u) t S"
    and xs: "set xs = insert a S" "a \<notin> S" "num_items t + 1 = of_nat (length xs)" "length xs < 2 ^ 32"
    and hv: "fld h_hashv (u_mem u) a = Some hv" and A: "\<not> A (2 ^ 36)"
  shows "ha_to_bucket A hv a u = Some (Inl (- 1)) \<or>
    (\<exists>u'. ha_to_bucket A hv a u = Some (Inr u') \<and> uth_ok u' xs \<and> fld key_part (u_mem u') = fld key_part (u_mem u))"
proof -
  define t1 where "t1 = t\<lparr>num_items := num_items t + 1\<rparr>"
  define u1 where "u1 = u\<lparr>u_tbl := Some t1\<rparr>"
  obtain h where h: "u_mem u1 a = Some h" "h_hashv h = hv" using hv by (auto simp: fld_def u1_def)
  have ne: "xs \<noteq> []" using app by (simp add: app_ok_def)
  have "unat (of_nat (length xs) :: u32) = length xs" using xs(4) by (simp only: unat_of_nat) simp
  then have "of_nat (length xs) \<noteq> (0 :: u32)" using ne by auto
  then have t1: "u_tbl u1 = Some t1" "table_ok (u_mem u1) t1 S" "num_items t1 \<noteq> 0 \<or> set (buckets t1) = {empty_bucket}"
    using ok xs(3) table_ok_cong [of t1 t] by (simp_all add: u1_def t1_def)
  have e: "ha_to_bucket A hv a u = HASH_ADD_TO_BKT A (HASH_TO_BKT (h_hashv h) (num_buckets t1)) a u1"
    using h(2) by (simp add: ha_to_bucket_def tb u1_def t1_def)
  from HASH_ADD_TO_BKT_ok [of u1 t1 S A a h, OF t1(1,2) A t1(3) xs(2) h(1)] show ?thesis
  proof (elim disjE exE conjE)
    fix t' m'
    assume r: "HASH_ADD_TO_BKT A (HASH_TO_BKT (h_hashv h) (num_buckets t1)) a u1 = Some (Inr (u1\<lparr>u_tbl := Some t', u_mem := m'\<rparr>))"
      "table_ok m' t' (insert a S)" "num_items t' = num_items t1" "t_tail t' = t_tail t1" "fld app_part m' = fld app_part (u_mem u1)"
    have p: "u_mem u1 = u_mem u" "u_head u1 = u_head u" "t_tail t1 = t_tail t" "num_items t1 = of_nat (length xs)"
      using xs(3) by (simp_all add: u1_def t1_def)
    have "app_ok m' (u_head u) (t_tail t') xs" using app app_ok_same [OF r(5)] r(4) p by simp
    then have "uth_ok (u1\<lparr>u_tbl := Some t', u_mem := m'\<rparr>) xs"
      using ne r(2,3) p xs(1) by (simp add: uth_ok_def)
    moreover have "fld key_part m' = fld key_part (u_mem u)" using app_same(3) [OF r(5)] p by simp
    ultimately show ?thesis unfolding e r(1) by auto
  qed (simp add: e)
qed

text \<open>Linking an element into the application order, at its end and in front of another.\<close>

lemma HASH_APPEND_LIST_ok:
  assumes tb: "u_tbl u = Some t" and app: "app_ok (u_mem u) (u_head u) (t_tail t) xs" and a: "a \<notin> set xs" "u_mem u a = Some h"
  shows "\<exists>m'. HASH_APPEND_LIST a u = Some (u\<lparr>u_tbl := Some (t\<lparr>t_tail := a\<rparr>), u_mem := m'\<rparr>) \<and>
    app_ok m' (u_head u) a (xs @ [a]) \<and> fld bkt_part m' = fld bkt_part (u_mem u)"
proof -
  let ?m = "u_mem u"
  from app have d: "dseg (fld h_next ?m) (fld h_prev ?m) None (u_head u) (xs @ []) None (Some (t_tail t))" and ne: "xs \<noteq> []"
    by (simp_all add: app_ok_def)
  have tl': "t_tail t = last xs" using dseg_last [OF d] ne by simp
  have dis: "distinct (xs @ [])" using dseg_distinct [OF d] .
  obtain h2 where h2: "?m (last xs) = Some h2" using ha.mapped [OF d, of "last xs"] ne by auto
  have al: "last xs \<noteq> a" using a(1) ne by auto
  define m1 where "m1 = ?m(a \<mapsto> h\<lparr>h_next := None, h_prev := Some (t_tail t)\<rparr>)"
  define m2 where "m2 = m1(last xs \<mapsto> h2\<lparr>h_next := Some a\<rparr>)"
  have "h_upd a (\<lambda>h. h\<lparr>h_next := None, h_prev := Some (t_tail t)\<rparr>) ?m = Some m1"
    "h_upd (t_tail t) (\<lambda>h. h\<lparr>h_next := Some a\<rparr>) m1 = Some m2"
    using a(2) h2 al tl' by (simp_all add: h_upd_def m1_def m2_def)
  then have "HASH_APPEND_LIST a u = Some (u\<lparr>u_tbl := Some (t\<lparr>t_tail := a\<rparr>), u_mem := m2\<rparr>)"
    by (simp add: HASH_APPEND_LIST_def tb)
  moreover have "dseg ((set_last xs (Some a) (fld h_next ?m))(a \<mapsto> None)) ((fld h_prev ?m)(a \<mapsto> prev_of None xs)) None
      (u_head u) (xs @ [a]) None (Some a)"
    using dseg_insert [OF d dis a(1)] ne by (simp add: set_first_def next_of_def)
  moreover have "fld h_next m2 = (set_last xs (Some a) (fld h_next ?m))(a \<mapsto> None)"
    using al ne by (simp add: m1_def m2_def set_last_def fun_upd_twist)
  moreover have "fld h_prev m2 = (fld h_prev ?m)(a \<mapsto> prev_of None xs)"
    using h2 al ne tl' by (auto simp: m1_def m2_def prev_of_def fld_def fun_eq_iff)
  moreover have "fld bkt_part m2 = fld bkt_part ?m"
    using a(2) h2 by (auto simp: m1_def m2_def fld_def fun_eq_iff bkt_part_def key_part_def)
  ultimately show ?thesis by (auto simp: app_ok_def)
qed

lemma ha_before_ok:
  assumes d: "dseg (fld h_next (u_mem u)) (fld h_prev (u_mem u)) None (u_head u) (ps @ i # qs) None (Some tl')"
    and a: "a \<notin> set (ps @ i # qs)" "u_mem u a = Some h"
  shows "\<exists>hd' m'. ha_before i a u = Some (u\<lparr>u_head := hd', u_mem := m'\<rparr>) \<and>
    app_ok m' hd' tl' (ps @ a # i # qs) \<and> fld bkt_part m' = fld bkt_part (u_mem u)"
proof -
  let ?m = "u_mem u"
  have dis: "distinct (ps @ i # qs)" using dseg_distinct [OF d] .
  have ai: "a \<noteq> i" "a \<notin> set ps" "i \<notin> set ps" using a(1) dis by auto
  from ha.set_next [where m = ?m and q = "Some i", OF a(2)] obtain m1 where
    m1: "h_upd a (\<lambda>h. h\<lparr>h_next := Some i\<rparr>) ?m = Some m1" "fld h_next m1 = (fld h_next ?m)(a \<mapsto> Some i)"
      "fld h_prev m1 = fld h_prev ?m" "fld bkt_part m1 = fld bkt_part ?m" "\<And>x. x \<noteq> a \<Longrightarrow> m1 x = ?m x" by blast
  obtain hi where hi: "?m i = Some hi" "h_prev hi = prev_of None ps"
    using dseg_at(1) [OF d] by (auto simp: fld_def)
  obtain h1 where "m1 a = Some h1" using m1(1) a(2) by (auto simp: h_upd_def)
  from ha.set_prev [where m = m1 and q = "prev_of None ps", OF this] obtain m2 where
    m2: "h_upd a (\<lambda>h. h\<lparr>h_prev := prev_of None ps\<rparr>) m1 = Some m2" "fld h_prev m2 = (fld h_prev m1)(a \<mapsto> prev_of None ps)"
      "fld h_next m2 = fld h_next m1" "fld bkt_part m2 = fld bkt_part m1" "\<And>x. x \<noteq> a \<Longrightarrow> m2 x = m1 x" by blast
  have "ps \<noteq> [] \<longrightarrow> m2 (last ps) \<noteq> None"
  proof
    assume ps: "ps \<noteq> []"
    then obtain hp where "?m (last ps) = Some hp" using ha.mapped [OF d, of "last ps"] by auto
    moreover have "last ps \<noteq> a" using ai(2) last_in_set [OF ps] by auto
    ultimately show "m2 (last ps) \<noteq> None" using m1(5) m2(5) by simp
  qed
  from ha.set_next_of_last [where m = m2 and xs = ps and q = "Some a", OF this] obtain m3 where
    m3: "h_upd_if (prev_of None ps) (\<lambda>h. h\<lparr>h_next := Some a\<rparr>) m2 = Some m3" "fld h_next m3 = set_last ps (Some a) (fld h_next m2)"
      "fld h_prev m3 = fld h_prev m2" "fld bkt_part m3 = fld bkt_part m2" "\<And>x. x \<notin> set ps \<Longrightarrow> m3 x = m2 x" by blast
  have "m3 i = Some hi" using m3(5) m2(5) m1(5) ai hi(1) by metis
  from ha.set_prev [where m = m3 and q = "Some a", OF this] obtain m4 where
    m4: "h_upd i (\<lambda>h. h\<lparr>h_prev := Some a\<rparr>) m3 = Some m4" "fld h_prev m4 = (fld h_prev m3)(i \<mapsto> Some a)"
      "fld h_next m4 = fld h_next m3" "fld bkt_part m4 = fld bkt_part m3" by blast
  have "(case prev_of None ps of Some p \<Rightarrow> do { m \<leftarrow> h_upd p (\<lambda>h. h\<lparr>h_next := Some a\<rparr>) m2; Some (u_head u, m) }
      | None \<Rightarrow> Some (Some a, m2)) = Some (if ps = [] then Some a else u_head u, m3)"
    using m3(1) by (auto simp: prev_of_def h_upd_if_def)
  moreover have "m1 i = Some hi" using m1(5) ai(1) hi(1) by metis
  ultimately have "ha_before i a u = Some (u\<lparr>u_head := (if ps = [] then Some a else u_head u), u_mem := m4\<rparr>)"
    using m1(1) m2(1) m4(1) hi(2) by (simp add: ha_before_def)
  moreover have "app_ok m4 (if ps = [] then Some a else u_head u) tl' (ps @ a # i # qs)"
  proof -
    have "fld h_next m4 = (set_last ps (Some a) (fld h_next ?m))(a \<mapsto> Some i)"
      using m4(3) m3(2) m2(3) m1(2) ai(2) by (cases "ps = []") (auto simp: set_last_def intro: fun_upd_twist)
    moreover have "fld h_prev m4 = ((fld h_prev ?m)(i \<mapsto> Some a))(a \<mapsto> prev_of None ps)"
      using m4(2) m3(3) m2(2) m1(3) ai(1) by (simp add: fun_upd_twist)
    ultimately show ?thesis
      using dseg_insert [OF d dis, of a] a(1) by (auto simp: app_ok_def set_first_def next_of_def)
  qed
  moreover have "fld bkt_part m4 = fld bkt_part ?m" using m1(4) m2(4) m3(4) m4(4) by simp
  ultimately show ?thesis by blast
qed

text \<open>The keys that the handles hold, and the order in which an element enters a sorted table.\<close>

definition keys_of :: "uthash \<Rightarrow> addr \<Rightarrow> (byte list \<times> u32 \<times> u32) option" where
  "keys_of u = fld key_part (u_mem u)"

definition put_in_order :: "(addr \<Rightarrow> int) \<Rightarrow> addr \<Rightarrow> addr list \<Rightarrow> addr list" where
  "put_in_order c a xs = takeWhile (\<lambda>x. c x \<le> 0) xs @ a # dropWhile (\<lambda>x. c x \<le> 0) xs"

lemma set_put_in_order [simp]: "set (put_in_order c a xs) = insert a (set xs)"
proof -
  have "set (takeWhile (\<lambda>x. c x \<le> 0) xs @ dropWhile (\<lambda>x. c x \<le> 0) xs) = set xs" by simp
  then show ?thesis unfolding put_in_order_def by (simp only: set_append) auto
qed

lemma length_put_in_order [simp]: "length (put_in_order c a xs) = Suc (length xs)"
proof -
  have "length (takeWhile (\<lambda>x. c x \<le> 0) xs @ dropWhile (\<lambda>x. c x \<le> 0) xs) = length xs" by simp
  then show ?thesis unfolding put_in_order_def by (simp only: length_append) simp
qed

lemma HASH_AKBI_INNER_LOOP_ok:
  assumes "chain (fld h_next m) (Some x) (x # xs)" and "\<And>y. y \<in> set (x # xs) \<Longrightarrow> cmp y a = Some (c y)"
  shows "HASH_AKBI_INNER_LOOP cmp x a m = Some (next_of (dropWhile (\<lambda>y. c y \<le> 0) (x # xs)) None)"
  using assms
proof (induction xs arbitrary: x)
  case Nil
  then show ?case
    by (subst HASH_AKBI_INNER_LOOP.simps) (auto simp: next_of_def fld_def)
next
  case (Cons y ys)
  from chain_ConsD [OF Cons.prems(1)] obtain h where h: "m x = Some h" "chain (fld h_next m) (h_next h) (y # ys)" by blast
  then have "h_next h = Some y" by simp
  with h Cons.IH [of y] Cons.prems(2) show ?case
    by (subst HASH_AKBI_INNER_LOOP.simps) (auto simp: next_of_def)
qed

lemma ha_set_key_ok:
  assumes "u_mem u a = Some h"
  shows "\<exists>m1 h1. ha_set_key k hv a u = Some (u\<lparr>u_mem := m1\<rparr>) \<and> m1 a = Some h1 \<and>
    (\<forall>x. x \<noteq> a \<longrightarrow> m1 x = u_mem u x) \<and> fld key_part m1 = (keys_of u)(a \<mapsto> (k, of_nat (length k), hv))"
  using assms by (auto simp: ha_set_key_def h_upd_def keys_of_def key_part_def)

text \<open>The handles of a table are the only ones its invariant depends on.\<close>

lemma table_ok_frame:
  assumes "\<And>x. x \<in> S \<Longrightarrow> m' x = m x"
  shows "table_ok m' t S \<longleftrightarrow> table_ok m t S"
proof -
  have "buckets_ok m' n bs Bs \<longleftrightarrow> buckets_ok m n bs Bs" if "set (concat Bs) = S" for n bs Bs
  proof -
    have "bucket_ok m' n i (bs ! i) (Bs ! i) \<longleftrightarrow> bucket_ok m n i (bs ! i) (Bs ! i)" if "i < length Bs" for i
      by (rule bucket_ok_cong, rule assms) (use \<open>set (concat Bs) = S\<close> nth_mem [OF that] in auto)
    then show ?thesis unfolding buckets_ok_def by metis
  qed
  then show ?thesis unfolding table_ok_def by metis
qed

lemma app_ok_frame:
  assumes "\<And>x. x \<in> set xs \<Longrightarrow> m' x = m x"
  shows "app_ok m' hd' tl' xs \<longleftrightarrow> app_ok m hd' tl' xs"
proof -
  have "dseg (fld h_next m') (fld h_prev m') None hd' xs None (Some tl') \<longleftrightarrow>
      dseg (fld h_next m) (fld h_prev m) None hd' xs None (Some tl')"
    by (rule dseg_cong) (simp add: fld_def assms)
  then show ?thesis by (simp add: app_ok_def)
qed

lemma ha_first_ok:
  assumes "u_mem u a = Some h" "u_head u = None"
  shows "ha_first A a u = Some (Inl (- 1)) \<or>
    (\<exists>t m'. ha_first A a u = Some (Inr (u\<lparr>u_head := Some a, u_mem := m', u_tbl := Some t\<rparr>)) \<and>
       app_ok m' (Some a) (t_tail t) [a] \<and> table_ok m' t {} \<and> num_items t = 0 \<and> fld key_part m' = keys_of u)"
proof (cases "A 64 \<and> A 512")
  case False
  then show ?thesis using assms
    by (auto simp: ha_first_def h_upd_def HASH_MAKE_TABLE_def HASH_INITIAL_NUM_BUCKETS_def)
next
  case True
  define m' where "m' = (u_mem u)(a \<mapsto> h\<lparr>h_next := None, h_prev := None\<rparr>)"
  define t where "t = \<lparr>buckets = replicate (unat HASH_INITIAL_NUM_BUCKETS) empty_bucket,
    num_buckets = HASH_INITIAL_NUM_BUCKETS, log2_num_buckets = HASH_INITIAL_NUM_BUCKETS_LOG2, num_items = 0,
    t_tail = a, ideal_chain_maxlen = 0, nonideal_items = 0, ineff_expands = 0, noexpand = 0\<rparr>"
  have "ha_first A a u = Some (Inr (u\<lparr>u_head := Some a, u_mem := m', u_tbl := Some t\<rparr>))"
    using True assms by (simp add: ha_first_def h_upd_def HASH_MAKE_TABLE_def HASH_INITIAL_NUM_BUCKETS_def m'_def t_def)
  moreover have "app_ok m' (Some a) (t_tail t) [a]" by (simp add: app_ok_def m'_def t_def)
  moreover have "table_ok m' t {}"
  proof -
    have b: "num_buckets t = 2 ^ 5" "(5::nat) < 32" by (simp_all add: t_def HASH_INITIAL_NUM_BUCKETS_def)
    have "buckets_ok m' (num_buckets t) (buckets t) (replicate (unat (num_buckets t)) [])"
      using no_bucket [OF b, of m'] by (simp add: t_def)
    moreover have "unat (log2_num_buckets t) = 5" by (simp add: t_def HASH_INITIAL_NUM_BUCKETS_LOG2_def)
    moreover have "set (concat (replicate (unat (num_buckets t)) [])) = {}" by simp
    ultimately show ?thesis unfolding table_ok_def using b(1) by auto
  qed
  moreover have "fld key_part m' = keys_of u"
    using assms(1) by (auto simp: keys_of_def m'_def fld_def key_part_def fun_eq_iff)
  moreover have "num_items t = 0" by (simp add: t_def)
  ultimately show ?thesis by blast
qed

text \<open>
  What follows the choice of the place: the element is linked (u1 to u2), then counted and put
  into its bucket.
\<close>

lemma add_linked:
  assumes u: "uth_ok u xs" "xs \<noteq> []" and t: "u_tbl u = Some t" and a: "a \<notin> set xs"
    and uu: "u_tbl uu = Some tt" "app_ok (u_mem uu) (u_head uu) (t_tail tt) ys" "set ys = insert a (set xs)"
      "length ys = Suc (length xs)" "buckets tt = buckets t" "num_buckets tt = num_buckets t"
      "log2_num_buckets tt = log2_num_buckets t" "num_items tt = num_items t"
    and m: "\<And>x. x \<noteq> a \<Longrightarrow> mm x = u_mem u x" "fld bkt_part (u_mem uu) = fld bkt_part mm"
    and hv: "fld key_part mm = (keys_of u)(a \<mapsto> (k, n, hv))"
    and len: "Suc (length xs) < 2 ^ 32" and A: "\<not> A (2 ^ 36)"
  shows "ha_to_bucket A hv a uu = Some (Inl (- 1)) \<or>
    (\<exists>u'. ha_to_bucket A hv a uu = Some (Inr u') \<and> uth_ok u' ys \<and> keys_of u' = (keys_of u)(a \<mapsto> (k, n, hv)))"
proof -
  have k: "fld key_part (u_mem uu) = (keys_of u)(a \<mapsto> (k, n, hv))" using bkt_same(3) [OF m(2)] hv by simp
  have "table_ok (u_mem u) t (set xs)" "num_items t = of_nat (length xs)" using u t by (simp_all add: uth_ok_def)
  moreover from this have "table_ok mm t (set xs)"
    using table_ok_frame [of "set xs" mm "u_mem u" t] m(1) a by metis
  ultimately have tt: "table_ok (u_mem uu) tt (set xs)" "num_items tt + 1 = of_nat (length ys)"
    using table_ok_same [OF m(2)] table_ok_cong [of tt t] uu(4-8) by simp_all
  have ly: "length ys < 2 ^ 32" using len uu(4) by simp
  have "fld h_hashv (u_mem uu) a = Some hv"
  proof -
    have "fld key_part (u_mem uu) a = Some (k, n, hv)" using k by simp
    then show ?thesis by (auto simp: fld_def key_part_def)
  qed
  from ha_to_bucket_ok [of uu tt ys "set xs" a hv A, OF uu(1,2) tt(1) uu(3) a tt(2) ly this A] show ?thesis
    unfolding keys_of_def [of u'] using k by (auto simp: keys_of_def)
qed

lemma add_first:
  assumes u: "u_head u = None" "u_mem u a = Some h" and A: "\<not> A (2 ^ 36)"
  shows "\<exists>u1. ha_set_key k hv a u = Some u1 \<and> (and_then (ha_first A a u1) (ha_to_bucket A hv a) = Some (Inl (- 1)) \<or>
    (\<exists>u'. and_then (ha_first A a u1) (ha_to_bucket A hv a) = Some (Inr u') \<and> uth_ok u' [a] \<and>
       keys_of u' = (keys_of u)(a \<mapsto> (k, of_nat (length k), hv))))"
proof -
  from ha_set_key_ok [of u a h k hv, OF u(2)] obtain m1 h1 where
    m1: "ha_set_key k hv a u = Some (u\<lparr>u_mem := m1\<rparr>)" "m1 a = Some h1"
      "fld key_part m1 = (keys_of u)(a \<mapsto> (k, of_nat (length k), hv))" by blast
  define u1 where "u1 = u\<lparr>u_mem := m1\<rparr>"
  have u1: "u_mem u1 a = Some h1" "u_head u1 = None" "keys_of u1 = (keys_of u)(a \<mapsto> (k, of_nat (length k), hv))"
    using m1(2,3) u(1) by (simp_all add: u1_def keys_of_def)
  from ha_first_ok [OF u1(1,2), of A] have "and_then (ha_first A a u1) (ha_to_bucket A hv a) = Some (Inl (- 1)) \<or>
    (\<exists>u'. and_then (ha_first A a u1) (ha_to_bucket A hv a) = Some (Inr u') \<and> uth_ok u' [a] \<and>
       keys_of u' = (keys_of u)(a \<mapsto> (k, of_nat (length k), hv)))"
  proof (elim disjE exE conjE)
    fix t m'
    define u2 where "u2 = u1\<lparr>u_head := Some a, u_mem := m', u_tbl := Some t\<rparr>"
    assume r: "ha_first A a u1 = Some (Inr (u1\<lparr>u_head := Some a, u_mem := m', u_tbl := Some t\<rparr>))"
      "app_ok m' (Some a) (t_tail t) [a]" "table_ok m' t {}" "num_items t = 0" "fld key_part m' = keys_of u1"
    have "fld key_part m' a = Some (k, of_nat (length k), hv)" using r(5) u1(3) by simp
    then have hv: "fld h_hashv (u_mem u2) a = Some hv" by (auto simp: fld_def key_part_def u2_def)
    have "ha_to_bucket A hv a u2 = Some (Inl (- 1)) \<or>
        (\<exists>u'. ha_to_bucket A hv a u2 = Some (Inr u') \<and> uth_ok u' [a] \<and> fld key_part (u_mem u') = fld key_part (u_mem u2))"
      by (rule ha_to_bucket_ok [of u2 t "[a]" "{}" a hv A, OF _ _ _ _ _ _ _ hv A]) (use r in \<open>simp_all add: u2_def\<close>)
    moreover have "fld key_part (u_mem u2) = (keys_of u)(a \<mapsto> (k, of_nat (length k), hv))"
      using r(5) u1(3) by (simp add: u2_def)
    ultimately show ?thesis using r(1) by (auto simp: keys_of_def u2_def)
  qed simp
  with m1(1) u1_def show ?thesis by blast
qed

lemma HASH_ADD_ok:
  assumes u: "uth_ok u xs" and a: "a \<notin> set xs" "u_mem u a = Some h" and len: "Suc (length xs) < 2 ^ 32" and A: "\<not> A (2 ^ 36)"
  shows "HASH_ADD_KEYPTR_BYHASHVALUE A k hv a u = Some (Inl (- 1)) \<or>
    (\<exists>u'. HASH_ADD_KEYPTR_BYHASHVALUE A k hv a u = Some (Inr u') \<and> uth_ok u' (xs @ [a]) \<and>
       keys_of u' = (keys_of u)(a \<mapsto> (k, of_nat (length k), hv)))"
proof (cases "xs = []")
  case True
  then have hd': "u_head u = None" using u by (simp add: uth_ok_def)
  from add_first [of u a h A k hv, OF hd' a(2) A] True hd' show ?thesis
    by (auto simp: HASH_ADD_KEYPTR_BYHASHVALUE_def)
next
  case False
  with u obtain t where t: "u_tbl u = Some t" "app_ok (u_mem u) (u_head u) (t_tail t) xs" by (auto simp: uth_ok_def)
  then have hd': "u_head u \<noteq> None" by (cases xs) (auto simp: app_ok_def)
  from ha_set_key_ok [of u a h k hv, OF a(2)] obtain m1 h1 where
    m1: "ha_set_key k hv a u = Some (u\<lparr>u_mem := m1\<rparr>)" "m1 a = Some h1" "\<And>x. x \<noteq> a \<Longrightarrow> m1 x = u_mem u x"
      "fld key_part m1 = (keys_of u)(a \<mapsto> (k, of_nat (length k), hv))" by blast
  have "app_ok m1 (u_head u) (t_tail t) xs"
    using t(2) app_ok_frame [of xs m1 "u_mem u"] m1(3) a(1) by metis
  with HASH_APPEND_LIST_ok [of "u\<lparr>u_mem := m1\<rparr>" t xs a h1] t(1) m1(2) a(1) obtain m2 where
    m2: "HASH_APPEND_LIST a (u\<lparr>u_mem := m1\<rparr>) = Some (u\<lparr>u_tbl := Some (t\<lparr>t_tail := a\<rparr>), u_mem := m2\<rparr>)"
      "app_ok m2 (u_head u) a (xs @ [a])" "fld bkt_part m2 = fld bkt_part m1" by auto
  define u2 where "u2 = u\<lparr>u_tbl := Some (t\<lparr>t_tail := a\<rparr>), u_mem := m2\<rparr>"
  have "HASH_ADD_KEYPTR_BYHASHVALUE A k hv a u = ha_to_bucket A hv a u2"
    using hd' m1(1) m2(1) by (auto simp: HASH_ADD_KEYPTR_BYHASHVALUE_def u2_def)
  moreover have "ha_to_bucket A hv a u2 = Some (Inl (- 1)) \<or> (\<exists>u'. ha_to_bucket A hv a u2 = Some (Inr u') \<and>
      uth_ok u' (xs @ [a]) \<and> keys_of u' = (keys_of u)(a \<mapsto> (k, of_nat (length k), hv)))"
    by (rule add_linked [where mm = m1 and A = A and u = u and a = a and uu = u2 and tt = "t\<lparr>t_tail := a\<rparr>", OF u False t(1) a(1) _ _ _ _ _ _ _ _ m1(3) _ m1(4) len A])
      (use m2(2,3) in \<open>simp_all add: u2_def\<close>)
  ultimately show ?thesis by simp
qed

lemma HASH_ADD_INORDER_ok:
  assumes u: "uth_ok u xs" and a: "a \<notin> set xs" "u_mem u a = Some h" and len: "Suc (length xs) < 2 ^ 32" and A: "\<not> A (2 ^ 36)"
    and cmp: "\<And>x. x \<in> set xs \<Longrightarrow> cmp x a = Some (c x)"
  shows "HASH_ADD_KEYPTR_BYHASHVALUE_INORDER A k hv a cmp u = Some (Inl (- 1)) \<or>
    (\<exists>u'. HASH_ADD_KEYPTR_BYHASHVALUE_INORDER A k hv a cmp u = Some (Inr u') \<and> uth_ok u' (put_in_order c a xs) \<and>
       keys_of u' = (keys_of u)(a \<mapsto> (k, of_nat (length k), hv)))"
proof (cases "xs = []")
  case True
  then have hd': "u_head u = None" using u by (simp add: uth_ok_def)
  from add_first [of u a h A k hv, OF hd' a(2) A] True hd' show ?thesis
    by (auto simp: HASH_ADD_KEYPTR_BYHASHVALUE_INORDER_def put_in_order_def)
next
  case False
  with u obtain t where t: "u_tbl u = Some t" "app_ok (u_mem u) (u_head u) (t_tail t) xs" by (auto simp: uth_ok_def)
  obtain x xs' where xs: "xs = x # xs'" using False by (cases xs) auto
  with t(2) have hd': "u_head u = Some x" by (auto simp: app_ok_def)
  from ha_set_key_ok [of u a h k hv, OF a(2)] obtain m1 h1 where
    m1: "ha_set_key k hv a u = Some (u\<lparr>u_mem := m1\<rparr>)" "m1 a = Some h1" "\<And>x. x \<noteq> a \<Longrightarrow> m1 x = u_mem u x"
      "fld key_part m1 = (keys_of u)(a \<mapsto> (k, of_nat (length k), hv))" by blast
  define u1 where "u1 = u\<lparr>u_mem := m1\<rparr>"
  have app: "app_ok m1 (u_head u) (t_tail t) xs"
    using t(2) app_ok_frame [of xs m1 "u_mem u"] m1(3) a(1) by metis
  then have d1: "dseg (fld h_next m1) (fld h_prev m1) None (u_head u) xs None (Some (t_tail t))" by (simp add: app_ok_def)
  have loop: "HASH_AKBI_INNER_LOOP cmp x a m1 = Some (next_of (dropWhile (\<lambda>x. c x \<le> 0) xs) None)"
    unfolding xs by (rule HASH_AKBI_INNER_LOOP_ok) (use dseg_chain [OF d1] hd' xs cmp in auto)
  obtain u2 t2 where u2: "(case next_of (dropWhile (\<lambda>x. c x \<le> 0) xs) None of Some i \<Rightarrow> ha_before i a u1 | None \<Rightarrow> HASH_APPEND_LIST a u1) = Some u2"
    "u_tbl u2 = Some t2" "app_ok (u_mem u2) (u_head u2) (t_tail t2) (put_in_order c a xs)" "buckets t2 = buckets t"
    "num_buckets t2 = num_buckets t" "log2_num_buckets t2 = log2_num_buckets t" "num_items t2 = num_items t"
    "fld bkt_part (u_mem u2) = fld bkt_part m1"
  proof (cases "dropWhile (\<lambda>x. c x \<le> 0) xs")
    case Nil
    then have tw: "put_in_order c a xs = xs @ [a]"
      using takeWhile_dropWhile_id [of "\<lambda>x. c x \<le> 0" xs] by (simp add: put_in_order_def)
    from HASH_APPEND_LIST_ok [of u1 t xs a h1] t(1) m1(2) a(1) app obtain m2 where
      "HASH_APPEND_LIST a u1 = Some (u1\<lparr>u_tbl := Some (t\<lparr>t_tail := a\<rparr>), u_mem := m2\<rparr>)"
      "app_ok m2 (u_head u) a (xs @ [a])" "fld bkt_part m2 = fld bkt_part m1" by (auto simp: u1_def)
    with Nil tw show ?thesis
      by (intro that [of "u1\<lparr>u_tbl := Some (t\<lparr>t_tail := a\<rparr>), u_mem := m2\<rparr>" "t\<lparr>t_tail := a\<rparr>"])
        (simp_all add: next_of_def u1_def)
  next
    case (Cons i qs)
    define ps where "ps = takeWhile (\<lambda>x. c x \<le> 0) xs"
    have xs2: "xs = ps @ i # qs" using takeWhile_dropWhile_id [of "\<lambda>x. c x \<le> 0" xs] Cons by (simp add: ps_def)
    have d: "dseg (fld h_next (u_mem u1)) (fld h_prev (u_mem u1)) None (u_head u1) (ps @ i # qs) None (Some (t_tail t))"
      using d1 xs2 by (simp add: u1_def)
    have "u_mem u1 a = Some h1" "a \<notin> set (ps @ i # qs)" using m1(2) a(1) xs2 by (simp_all add: u1_def)
    from ha_before_ok [OF d this(2,1)] obtain hd2 m2 where
      b: "ha_before i a u1 = Some (u1\<lparr>u_head := hd2, u_mem := m2\<rparr>)" "app_ok m2 hd2 (t_tail t) (ps @ a # i # qs)"
        "fld bkt_part m2 = fld bkt_part (u_mem u1)" by blast
    have "put_in_order c a xs = ps @ a # i # qs" using Cons by (simp add: put_in_order_def ps_def)
    with b Cons t(1) show ?thesis
      by (intro that [of "u1\<lparr>u_head := hd2, u_mem := m2\<rparr>" t]) (simp_all add: next_of_def u1_def)
  qed
  have "HASH_ADD_KEYPTR_BYHASHVALUE_INORDER A k hv a cmp u = ha_to_bucket A hv a u2"
    using hd' m1(1) [folded u1_def] loop u2(1) by (simp add: HASH_ADD_KEYPTR_BYHASHVALUE_INORDER_def) (simp add: u1_def)
  moreover have "ha_to_bucket A hv a u2 = Some (Inl (- 1)) \<or> (\<exists>u'. ha_to_bucket A hv a u2 = Some (Inr u') \<and>
      uth_ok u' (put_in_order c a xs) \<and> keys_of u' = (keys_of u)(a \<mapsto> (k, of_nat (length k), hv)))"
    by (rule add_linked [where mm = m1 and A = A and u = u and a = a, OF u False t(1) a(1) u2(2,3) _ _ u2(4-7) m1(3) u2(8) m1(4) len A]) simp_all
  ultimately show ?thesis by simp
qed

end
