(* ===== verification/UtHashMap.thy ===== *)
theory UtHashMap
  imports UtHashOk
begin

text \<open>
  The hash table of UtHash as a finite map: finding, deleting and replacing on tables that
  satisfy the invariant of UtHashOk, the integrity check that such tables pass, and sorting.
\<close>

subsection \<open>Finding\<close>

text \<open>The element at an address has this key and hash value.\<close>

definition keyed :: "ut_mem \<Rightarrow> byte list \<Rightarrow> u32 \<Rightarrow> addr \<Rightarrow> bool" where
  "keyed m k v a \<longleftrightarrow> fld key_part m a = Some (k, of_nat (length k), v)"

lemma HASH_FIND_IN_BKT_ok:
  "chain (fld hh_next m) p ys \<Longrightarrow> HASH_FIND_IN_BKT m p k v = Some (List.find (keyed m k v) ys)"
proof (induction ys arbitrary: p)
  case Nil
  then show ?case by (simp add: HASH_FIND_IN_BKT.simps)
next
  case (Cons a ys)
  from chain_ConsD [OF Cons.prems] obtain h where h: "p = Some a" "m a = Some h" "chain (fld hh_next m) (hh_next h) ys" by blast
  have "keyed m k v a \<longleftrightarrow> h_hashv h = v \<and> h_keylen h = of_nat (length k) \<and> h_key h = k"
    using h(2) by (auto simp: keyed_def fld_def key_part_def)
  with Cons.IH [OF h(3)] h(1,2) show ?case by (subst HASH_FIND_IN_BKT.simps) simp
qed

lemma HASH_FIND_ok:
  assumes u: "listed u xs"
  shows "\<exists>r. HASH_FIND_BYHASHVALUE k v u = Some r \<and>
    (case r of Some a \<Rightarrow> a \<in> set xs \<and> keyed (u_mem u) k v a | None \<Rightarrow> \<forall>a \<in> set xs. \<not> keyed (u_mem u) k v a)"
proof (cases "xs = []")
  case True
  with u show ?thesis by (auto simp: listed_def HASH_FIND_BYHASHVALUE_def)
next
  case False
  with u obtain t where t: "u_tbl u = Some t" "u_head u = Some (hd xs)" "table_ok (u_mem u) t (set xs)"
    by (elim listed_D)
  then have hd': "u_head u \<noteq> None" by simp
  from t(3) obtain l Bs where l: "l < 32" "num_buckets t = 2 ^ l" "unat (num_buckets t) = 2 ^ l"
    and bk: "buckets_ok (u_mem u) (num_buckets t) (buckets t) Bs" "set (concat Bs) = set xs"
    by (elim table_ok_D)
  define i where "i = unat (HASH_TO_BKT v (num_buckets t))"
  have il: "i < unat (num_buckets t)" using bkt_unat [OF l(2,1)] l(3) by (simp add: i_def)
  then have len: "i < length (buckets t)" "i < length Bs" using bk(1) by (simp_all add: buckets_ok_def)
  have "dseg (fld hh_next (u_mem u)) (fld hh_prev (u_mem u)) None (hh_head (buckets t ! i)) (Bs ! i) None (prev_of None (Bs ! i))"
    using bk(1) il by (simp add: buckets_ok_def bucket_ok_def)
  then have "HASH_FIND_IN_BKT (u_mem u) (hh_head (buckets t ! i)) k v = Some (List.find (keyed (u_mem u) k v) (Bs ! i))"
    by (intro HASH_FIND_IN_BKT_ok dseg_chain)
  moreover have "uint (HASH_TO_BKT v (num_buckets t)) = int i" by (simp add: i_def)
  ultimately have r: "HASH_FIND_BYHASHVALUE k v u = Some (List.find (keyed (u_mem u) k v) (Bs ! i))"
    using hd' t(1) len(1) by (auto simp: HASH_FIND_BYHASHVALUE_def arr_get_in)
  have there: "a \<in> set (Bs ! i)" if a: "a \<in> set xs" "keyed (u_mem u) k v a" for a
  proof -
    from a(1) bk(2) in_concat [of a Bs] obtain j where j: "j < length Bs" "a \<in> set (Bs ! j)" by auto
    then have "j < unat (num_buckets t)" using bk(1) by (simp add: buckets_ok_def)
    from in_bucket [OF bk(1) this j(2)] obtain w where w: "fld h_hashv (u_mem u) a = Some w" "unat (HASH_TO_BKT w (num_buckets t)) = j"
      by blast
    have "w = v" using w(1) a(2) by (auto simp: keyed_def fld_def key_part_def)
    with w(2) j(2) show ?thesis by (simp add: i_def)
  qed
  have sub: "set (Bs ! i) \<subseteq> set xs" using nth_mem [OF len(2)] bk(2) by auto
  show ?thesis
  proof (cases "List.find (keyed (u_mem u) k v) (Bs ! i)")
    case None
    then have "\<forall>a \<in> set xs. \<not> keyed (u_mem u) k v a" using there by (auto simp: find_None_iff)
    with r None show ?thesis by simp
  next
    case (Some a)
    then have "a \<in> set (Bs ! i)" "keyed (u_mem u) k v a" by (auto simp: find_Some_iff)
    with r Some sub show ?thesis by auto
  qed
qed
subsection \<open>Deleting\<close>

lemma concat_update_set:
  "i < length Bs \<Longrightarrow> set (concat (Bs[i := ys])) = set ys \<union> (\<Union>k \<in> {k. k < length Bs \<and> k \<noteq> i}. set (Bs ! k))"
proof -
  assume i: "i < length Bs"
  have "set (concat (Bs[i := ys])) = (\<Union>k < length Bs. set (Bs[i := ys] ! k))"
    by (auto simp: in_concat simp del: set_concat)
  also have "\<dots> = set ys \<union> (\<Union>k \<in> {k. k < length Bs \<and> k \<noteq> i}. set (Bs ! k))"
    using i by (auto simp: nth_list_update split: if_splits)
  finally show ?thesis .
qed

lemma HASH_DEL_IN_BKT_ok:
  assumes t: "u_tbl u = Some t" and ok: "table_ok (u_mem u) t S" and d: "d \<in> S" "u_mem u d = Some h"
  shows "\<exists>t' m'. HASH_DEL_IN_BKT (HASH_TO_BKT (h_hashv h) (num_buckets t)) d u = Some (u\<lparr>u_tbl := Some t', u_mem := m'\<rparr>) \<and>
    table_ok m' t' (S - {d}) \<and> num_items t' = num_items t \<and> t_tail t' = t_tail t \<and> fld app_part m' = fld app_part (u_mem u)"
proof -
  from ok obtain l Bs where l: "5 \<le> l" "l < 32" "l = unat (log2_num_buckets t)" "num_buckets t = 2 ^ l" "unat (num_buckets t) = 2 ^ l"
    and bk: "buckets_ok (u_mem u) (num_buckets t) (buckets t) Bs" "set (concat Bs) = S"
    by (elim table_ok_D)
  define i where "i = unat (HASH_TO_BKT (h_hashv h) (num_buckets t))"
  define b where "b = buckets t ! i"
  have il: "i < unat (num_buckets t)" using bkt_unat [OF l(4,2)] l(5) by (simp add: i_def)
  then have len: "i < length (buckets t)" "i < length Bs" using bk(1) by (simp_all add: buckets_ok_def)
  from d(1) bk(2) in_concat [of d Bs] obtain j where j: "j < length Bs" "d \<in> set (Bs ! j)" by auto
  then have jn: "j < unat (num_buckets t)" using bk(1) by (simp add: buckets_ok_def)
  from in_bucket [OF bk(1) jn j(2)] d(2) have "j = i" by (auto simp: fld_def i_def)
  with j(2) obtain ps qs where B: "Bs ! i = ps @ d # qs" by (metis split_list)
  have bo: "bucket_ok (u_mem u) (num_buckets t) k (buckets t ! k) (Bs ! k)" if "k < unat (num_buckets t)" for k
    using bk(1) that by (simp add: buckets_ok_def)
  then have ds: "dseg (fld hh_next (u_mem u)) (fld hh_prev (u_mem u)) None (hh_head b) (ps @ d # qs) None (prev_of None (ps @ d # qs))"
    and cnt: "b_count b = of_nat (length (ps @ d # qs))"
    using il B by (simp_all add: bucket_ok_def b_def del: length_append) metis+
  have dis: "distinct (ps @ d # qs)" using dseg_distinct [OF ds] .
  have hd': "hh_prev h = prev_of None ps" "hh_next h = next_of qs None"
    using dseg_at(1,2) [OF ds] d(2) by (auto simp: fld_def)
  from hb.unlink [OF ds dis] obtain m1 m2 where
    m: "h_upd_if (hh_prev h) (\<lambda>x. x\<lparr>hh_next := hh_next h\<rparr>) (u_mem u) = Some m1"
      "h_upd_if (hh_next h) (\<lambda>x. x\<lparr>hh_prev := hh_prev h\<rparr>) m1 = Some m2" "m1 d = Some h"
    and r: "dseg (fld hh_next m2) (fld hh_prev m2) None (if ps = [] then next_of qs None else hh_head b) (ps @ qs) None (prev_of None (ps @ qs))"
      "fld app_part m2 = fld app_part (u_mem u)" "\<And>a. a \<notin> set (ps @ qs) \<Longrightarrow> m2 a = u_mem u a"
    unfolding hd' using d(2) by auto
  have e: "hh_head b = Some d \<longleftrightarrow> ps = []"
    using dseg_hd [OF ds] dis by (cases ps) auto
  define b1 where "b1 = b\<lparr>b_count := b_count b - 1, hh_head := (if hh_head b = Some d then hh_next h else hh_head b)\<rparr>"
  define t1 where "t1 = t\<lparr>buckets := (buckets t)[i := b1]\<rparr>"
  have ui: "0 \<le> uint (HASH_TO_BKT (h_hashv h) (num_buckets t))"
    "uint (HASH_TO_BKT (h_hashv h) (num_buckets t)) < int (length (buckets t))"
    "nat (uint (HASH_TO_BKT (h_hashv h) (num_buckets t))) = i"
    using len(1) by (simp_all add: i_def) (metis i_def len(1) uint_nat of_nat_less_iff)
  have "HASH_DEL_IN_BKT (HASH_TO_BKT (h_hashv h) (num_buckets t)) d u = Some (u\<lparr>u_tbl := Some t1, u_mem := m2\<rparr>)"
    unfolding HASH_DEL_IN_BKT_def using t d(2) m ui
    by (simp add: arr_get_in arr_set_in Let_def t1_def b1_def b_def)
  moreover have "table_ok m2 t1 (S - {d})"
  proof -
    have hv: "fld h_hashv m2 = fld h_hashv (u_mem u)" by (rule key_same [OF app_same(3) [OF r(2)]])
    have "bucket_ok m2 (num_buckets t) i b1 (ps @ qs)"
      using r(1) e cnt hd' bo [OF il] B hv by (auto simp: bucket_ok_def b1_def)
    moreover have "bucket_ok m2 (num_buckets t) k (buckets t ! k) (Bs ! k)" if k: "k < unat (num_buckets t)" "k \<noteq> i" for k
    proof -
      have "m2 a = u_mem u a" if "a \<in> set (Bs ! k)" for a
        by (rule r(3)) (use other_bucket [OF bk(1) k(1) il k(2) that] B in auto)
      with bo [OF k(1)] bucket_ok_cong [of "Bs ! k" m2 "u_mem u"] show ?thesis by simp
    qed
    ultimately have "buckets_ok m2 (num_buckets t) ((buckets t)[i := b1]) (Bs[i := ps @ qs])"
      using bk(1) len by (simp add: buckets_ok_def nth_list_update)
    moreover have "set (concat (Bs[i := ps @ qs])) = S - {d}"
    proof -
      define R where "R = (\<Union>k \<in> {k. k < length Bs \<and> k \<noteq> i}. set (Bs ! k))"
      have "S = set (ps @ d # qs) \<union> R"
        unfolding bk(2) [symmetric] B [symmetric] R_def
        using concat_update_set [OF len(2), of "Bs ! i"] by (simp only: list_update_id)
      moreover have "set (concat (Bs[i := ps @ qs])) = set (ps @ qs) \<union> R"
        using concat_update_set [OF len(2)] by (simp add: R_def)
      moreover have "d \<notin> R"
      proof
        assume "d \<in> R"
        then obtain k where k: "k < length Bs" "k \<noteq> i" "d \<in> set (Bs ! k)" by (auto simp: R_def)
        then have "k < unat (num_buckets t)" using bk(1) by (simp add: buckets_ok_def)
        from other_bucket [OF bk(1) this il k(2,3)] B show False by simp
      qed
      ultimately show ?thesis using dis by auto
    qed
    ultimately show ?thesis unfolding table_ok_def using l by (auto simp: t1_def simp del: set_concat)
  qed
  moreover have "num_items t1 = num_items t" "t_tail t1 = t_tail t" by (simp_all add: t1_def)
  ultimately show ?thesis using r(2) by blast
qed

lemma HASH_DELETE_ok:
  assumes u: "uth_ok u (ps @ d # qs)"
  shows "\<exists>u'. HASH_DELETE d u = Some u' \<and> uth_ok u' (ps @ qs) \<and> keys_of u' = keys_of u"
proof -
  from u obtain t where t: "u_tbl u = Some t" "app_ok (u_mem u) (u_head u) (t_tail t) (ps @ d # qs)"
    "table_ok (u_mem u) t (set (ps @ d # qs))" "num_items t = of_nat (length (ps @ d # qs))"
    unfolding uth_ok_def by (auto simp del: set_append length_append)
  then have ds: "dseg (fld h_next (u_mem u)) (fld h_prev (u_mem u)) None (u_head u) (ps @ d # qs) None (Some (t_tail t))"
    by (simp add: app_ok_def)
  have dis: "distinct (ps @ d # qs)" using dseg_distinct [OF ds] .
  obtain h where h: "u_mem u d = Some h" "h_prev h = prev_of None ps" "h_next h = next_of qs None"
    using dseg_at(1,2) [OF ds] by (auto simp: fld_def)
  show ?thesis
  proof (cases "ps = [] \<and> qs = []")
    case True
    then have "HASH_DELETE d u = Some (u\<lparr>u_head := None, u_tbl := None\<rparr>)"
      using t(1) h by (simp add: HASH_DELETE_def prev_of_def next_of_def)
    with True show ?thesis by (simp add: uth_ok_def keys_of_def)
  next
    case False
    from ha.unlink [OF ds dis] obtain m1 m2 where
      m: "h_upd_if (h_prev h) (\<lambda>x. x\<lparr>h_next := h_next h\<rparr>) (u_mem u) = Some m1"
        "h_upd_if (h_next h) (\<lambda>x. x\<lparr>h_prev := h_prev h\<rparr>) m1 = Some m2" "m1 d = Some h" "m2 d = Some h"
      and r: "dseg (fld h_next m2) (fld h_prev m2) None (if ps = [] then next_of qs None else u_head u) (ps @ qs) None (prev_of None (ps @ qs))"
        "fld bkt_part m2 = fld bkt_part (u_mem u)"
      unfolding h(2,3) using h(1) by auto
    define t1 where "t1 = (if qs = [] then t\<lparr>t_tail := last ps\<rparr> else t)"
    define hd' where "hd' = (if ps = [] then next_of qs None else u_head u)"
    define u1 where "u1 = u\<lparr>u_head := hd', u_tbl := Some t1, u_mem := m2\<rparr>"
    have tail': "t_tail t = last (d # qs)" using dseg_last [OF ds] by simp
    have "d = t_tail t \<longleftrightarrow> qs = []" using tail' dis last_in_set [of qs] by auto
    then have t1: "(if d = t_tail t then do { p \<leftarrow> h_prev h; Some (t\<lparr>t_tail := p\<rparr>) } else Some t) = Some t1"
      using h(2) False by (simp add: t1_def prev_of_def)
    have hd1: "(case h_prev h of Some p \<Rightarrow> do { m \<leftarrow> h_upd p (\<lambda>x. x\<lparr>h_next := h_next h\<rparr>) (u_mem u); Some (u_head u, m) }
        | None \<Rightarrow> Some (h_next h, u_mem u)) = Some (hd', m1)"
      using m(1) h(2,3) by (auto simp: hd'_def prev_of_def h_upd_if_def)
    have "table_ok m2 t1 (set (ps @ d # qs))"
      using t(3) table_ok_same [OF r(2)] table_ok_cong [of t1 t] by (simp add: t1_def)
    then have tb: "u_tbl u1 = Some t1" "table_ok (u_mem u1) t1 (set (ps @ d # qs))" "d \<in> set (ps @ d # qs)" "u_mem u1 d = Some h"
      using m(4) by (simp_all add: u1_def)
    from HASH_DEL_IN_BKT_ok [OF tb] obtain t2 m3 where
      b: "HASH_DEL_IN_BKT (HASH_TO_BKT (h_hashv h) (num_buckets t1)) d u1 = Some (u1\<lparr>u_tbl := Some t2, u_mem := m3\<rparr>)"
        "table_ok m3 t2 (set (ps @ d # qs) - {d})" "num_items t2 = num_items t1" "t_tail t2 = t_tail t1"
        "fld app_part m3 = fld app_part m2"
      unfolding u1_def by auto
    define u' where "u' = u1\<lparr>u_tbl := Some (t2\<lparr>num_items := num_items t2 - 1\<rparr>), u_mem := m3\<rparr>"
    have nn: "(h_prev h = None \<and> h_next h = None) = False" using h(2,3) False by (auto simp: prev_of_def next_of_def)
    have "HASH_DELETE d u = Some u'"
      unfolding HASH_DELETE_def using h(1) t(1) t1 hd1 m b(1) by (simp add: nn u1_def u'_def)
    moreover have "uth_ok u' (ps @ qs)"
    proof -
      have s: "set (ps @ d # qs) - {d} = set (ps @ qs)" using dis by auto
      have "prev_of None (ps @ qs) = Some (t_tail t2)"
        using False tail' b(4) by (auto simp: prev_of_def t1_def)
      then have "app_ok m2 hd' (t_tail t2) (ps @ qs)" using r(1) False by (simp add: app_ok_def hd'_def)
      then have "app_ok m3 hd' (t_tail t2) (ps @ qs)" using app_ok_same [OF b(5)] by simp
      moreover have "table_ok m3 (t2\<lparr>num_items := num_items t2 - 1\<rparr>) (set (ps @ qs))"
        using b(2) s table_ok_cong [of "t2\<lparr>num_items := num_items t2 - 1\<rparr>" t2] by simp
      moreover have "num_items t2 - 1 = of_nat (length (ps @ qs))" using b(3) t(4) by (simp add: t1_def)
      ultimately show ?thesis using False by (auto simp: uth_ok_def u'_def u1_def)
    qed
    moreover have "keys_of u' = keys_of u"
      using app_same(3) [OF b(5)] bkt_same(3) [OF r(2)] by (simp add: keys_of_def u'_def)
    ultimately show ?thesis by blast
  qed
qed

subsection \<open>A finite map\<close>

text \<open>
  The hash function is a parameter F.  A table that is only used through the macros that compute
  it represents a map from keys to elements.
\<close>

definition uth_map :: "(byte list \<Rightarrow> u32) \<Rightarrow> uthash \<Rightarrow> addr list \<Rightarrow> (byte list \<rightharpoonup> addr) \<Rightarrow> bool" where
  "uth_map F u xs f \<longleftrightarrow> uth_ok u xs \<and> ran f = set xs \<and> (\<forall>k a. f k = Some a \<longrightarrow> keyed (u_mem u) k (F k) a)"

lemma uth_map_empty: "u_head u = None \<Longrightarrow> uth_map F u [] Map.empty"
  by (simp add: uth_map_def uth_ok_def)

lemma keyed_key: "keyed m k v a \<Longrightarrow> keyed m k' v' a \<Longrightarrow> k = k' \<and> v = v'"
  by (simp add: keyed_def)

text \<open>An element has one key.\<close>

lemma uth_map_inj: "uth_map F u xs f \<Longrightarrow> f k = Some a \<Longrightarrow> f k' = Some a \<Longrightarrow> k = k'"
  unfolding uth_map_def using keyed_key by blast

lemma HASH_FIND_map:
  assumes m: "uth_map F u xs f"
  shows "HASH_FIND_BYHASHVALUE k (F k) u = Some (f k)"
proof -
  from m have u: "listed u xs" and ran: "ran f = set xs" and key: "\<And>k a. f k = Some a \<Longrightarrow> keyed (u_mem u) k (F k) a"
    using uth_listed by (auto simp: uth_map_def)
  from HASH_FIND_ok [OF u, of k "F k"] obtain r where
    r: "HASH_FIND_BYHASHVALUE k (F k) u = Some r"
      "case r of Some a \<Rightarrow> a \<in> set xs \<and> keyed (u_mem u) k (F k) a | None \<Rightarrow> \<forall>a \<in> set xs. \<not> keyed (u_mem u) k (F k) a"
    by blast
  have "r = f k"
  proof (cases r)
    case None
    have "f k = None"
    proof (rule ccontr)
      assume "f k \<noteq> None"
      then obtain a where a: "f k = Some a" by auto
      then have "a \<in> set xs" using ran ranI by fast
      with r(2) None key [OF a] show False by simp
    qed
    with None show ?thesis by simp
  next
    case (Some a)
    with r(2) have a: "a \<in> ran f" "keyed (u_mem u) k (F k) a" using ran by simp_all
    then obtain k' where k': "f k' = Some a" by (auto simp: ran_def)
    with keyed_key [OF key [OF k'] a(2)] Some show ?thesis by simp
  qed
  with r(1) show ?thesis by simp
qed

lemma keyed_keys_of: "keyed (u_mem u) k v a \<longleftrightarrow> keys_of u a = Some (k, of_nat (length k), v)"
  by (simp add: keyed_def keys_of_def)

lemma uth_map_add:
  assumes m: "uth_map F u xs f" and k: "f k = None" and a: "a \<notin> set xs"
    and u': "uth_ok u' xs'" "set xs' = insert a (set xs)" "keys_of u' = (keys_of u)(a \<mapsto> (k, of_nat (length k), F k))"
  shows "uth_map F u' xs' (f(k \<mapsto> a))"
proof -
  from m have ran: "ran f = set xs" and key: "\<And>k a. f k = Some a \<Longrightarrow> keyed (u_mem u) k (F k) a"
    by (simp_all add: uth_map_def)
  have "keyed (u_mem u') k' (F k') b" if "(f(k \<mapsto> a)) k' = Some b" for k' b
  proof (cases "k' = k")
    case True
    with that show ?thesis by (simp add: keyed_keys_of u'(3))
  next
    case False
    with that have f: "f k' = Some b" by simp
    then have "b \<noteq> a" using ranI [of f k' b, OF f] ran a by auto
    with key [OF f] show ?thesis by (simp add: keyed_keys_of u'(3))
  qed
  moreover have "ran (f(k \<mapsto> a)) = set xs'" using ran k u'(2) by (simp add: ran_map_upd)
  ultimately show ?thesis using u'(1) by (simp add: uth_map_def)
qed

lemma HASH_ADD_map:
  assumes m: "uth_map F u xs f" and k: "f k = None" and a: "a \<notin> set xs" "u_mem u a = Some h"
    and len: "Suc (length xs) < 2 ^ 32" and A: "\<not> A (2 ^ 36)"
  shows "HASH_ADD_KEYPTR_BYHASHVALUE A k (F k) a u = Some (Inl (- 1)) \<or>
    (\<exists>u'. HASH_ADD_KEYPTR_BYHASHVALUE A k (F k) a u = Some (Inr u') \<and> uth_map F u' (xs @ [a]) (f(k \<mapsto> a)))"
proof -
  have u: "uth_ok u xs" using m by (simp add: uth_map_def)
  from HASH_ADD_ok [of u xs a h A k "F k", OF u a len A] uth_map_add [OF m k a(1)] show ?thesis by auto
qed

lemma HASH_DELETE_map:
  assumes m: "uth_map F u xs f" and k: "f k = Some d"
  shows "\<exists>u'. HASH_DELETE d u = Some u' \<and> uth_map F u' (remove1 d xs) (f(k := None)) \<and> keys_of u' = keys_of u"
proof -
  from m have u: "uth_ok u xs" and ran: "ran f = set xs" and key: "\<And>k a. f k = Some a \<Longrightarrow> keyed (u_mem u) k (F k) a"
    by (simp_all add: uth_map_def)
  have "d \<in> set xs" using ranI [of f k d, OF k] ran by simp
  then obtain ps qs where xs: "xs = ps @ d # qs" "d \<notin> set ps" by (meson split_list_first)
  from HASH_DELETE_ok [of u ps d qs] u xs obtain u' where
    u': "HASH_DELETE d u = Some u'" "uth_ok u' (ps @ qs)" "keys_of u' = keys_of u" by auto
  have rm: "remove1 d xs = ps @ qs" using xs by (simp add: remove1_append)
  have dis: "distinct xs" using u xs(1) dseg_distinct by (fastforce simp: uth_ok_def app_ok_def)
  have "ran (f(k := None)) = set (ps @ qs)"
  proof -
    have "ran (f(k := None)) = ran f - {d}"
    proof (intro equalityI subsetI)
      fix x
      assume "x \<in> ran (f(k := None))"
      then obtain k' where k': "k' \<noteq> k" "f k' = Some x" by (auto simp: ran_def split: if_splits)
      then have "x \<noteq> d" using uth_map_inj [OF m k'(2), of k] k by auto
      with k'(2) show "x \<in> ran f - {d}" by (auto simp: ran_def)
    next
      fix x
      assume x: "x \<in> ran f - {d}"
      then obtain k' where k': "f k' = Some x" by (auto simp: ran_def)
      then have "(f(k := None)) k' = Some x" using x k by auto
      then show "x \<in> ran (f(k := None))" by (rule ranI)
    qed
    then show ?thesis using ran xs dis by auto
  qed
  moreover have "keyed (u_mem u') k' (F k') b" if "(f(k := None)) k' = Some b" for k' b
    using key [of k' b] that u'(3) by (simp add: keyed_keys_of split: if_splits)
  ultimately have "uth_map F u' (remove1 d xs) (f(k := None))" using u'(2) rm by (simp add: uth_map_def)
  with u'(1,3) show ?thesis by blast
qed

text \<open>Replacing keeps a map a map whatever key the new element has.\<close>

lemma keyed_old: "uth_map F u xs f \<Longrightarrow> a \<in> set xs \<Longrightarrow> \<exists>k. f k = Some a"
  unfolding uth_map_def ran_def by blast

lemma HASH_REPLACE_map:
  assumes m: "uth_map F u xs f" and a: "a \<notin> set xs" "u_mem u a = Some h"
    and len: "Suc (length xs) < 2 ^ 32" and A: "\<not> A (2 ^ 36)"
  shows "HASH_REPLACE_BYHASHVALUE A k (F k) a u = Some (Inl (- 1)) \<or>
    (\<exists>u'. HASH_REPLACE_BYHASHVALUE A k (F k) a u = Some (Inr (f k, u')) \<and>
       uth_map F u' ((case f k of Some d \<Rightarrow> remove1 d xs | None \<Rightarrow> xs) @ [a]) (f(k \<mapsto> a)))"
proof -
  have find: "HASH_FIND_BYHASHVALUE k (F k) u = Some (f k)" by (rule HASH_FIND_map [OF m])
  show ?thesis
  proof (cases "f k")
    case None
    from HASH_ADD_map [of F u xs f k a h A, OF m None a len A] find None show ?thesis
      by (auto simp: HASH_REPLACE_BYHASHVALUE_def)
  next
    case (Some d)
    from HASH_DELETE_map [of F u xs f k d, OF m Some] obtain u1 where
      u1: "HASH_DELETE d u = Some u1" "uth_map F u1 (remove1 d xs) (f(k := None))" "keys_of u1 = keys_of u" by blast
    have a1: "a \<notin> set (remove1 d xs)" using a(1) by (meson notin_set_remove1)
    have "keys_of u1 a \<noteq> None" using a(2) u1(3) by (simp add: keys_of_def fld_def)
    then obtain h1 where h1: "u_mem u1 a = Some h1" by (auto simp: keys_of_def fld_def)
    have l1: "Suc (length (remove1 d xs)) < 2 ^ 32" using len by (auto simp: length_remove1)
    have k1: "(f(k := None)) k = None" by simp
    from HASH_ADD_map [of F u1 "remove1 d xs" "f(k := None)" k a h1 A, OF u1(2) k1 a1 h1 l1 A] find Some u1(1) show ?thesis
      by (auto simp: HASH_REPLACE_BYHASHVALUE_def)
  qed
qed

subsection \<open>Counting and the integrity check\<close>

lemma HASH_COUNT_ok: "listed u xs \<Longrightarrow> HASH_COUNT u = Some (of_nat (length xs))"
  using dseg_None by (cases "xs = []") (fastforce simp: listed_def HASH_COUNT_def)+

lemma HASH_CLEAR_ok: "uth_ok u xs \<Longrightarrow> \<exists>u'. HASH_CLEAR u = Some u' \<and> uth_ok u' [] \<and> keys_of u' = keys_of u"
  by (cases xs) (auto simp: uth_ok_def HASH_CLEAR_def app_ok_def keys_of_def)

lemma fsck_chain_ok:
  assumes "dseg (fld hh_next m) (fld hh_prev m) b p ys None t"
  shows "fsck_chain m p b n = Some (Some (n + of_nat (length ys)))"
  using assms
proof (induction ys arbitrary: b p n)
  case Nil
  then show ?case by (simp add: fsck_chain.simps)
next
  case (Cons a ys)
  then obtain h where h: "p = Some a" "m a = Some h" "hh_prev h = b"
    "dseg (fld hh_next m) (fld hh_prev m) (Some a) (hh_next h) ys None t"
    by (auto simp: fld_def [of _ m a])
  from Cons.IH [OF h(4)] h(1-3) show ?case by (subst fsck_chain.simps) (simp add: ac_simps)
qed

lemma fsck_app_ok:
  assumes "dseg (fld h_next m) (fld h_prev m) b p ys None t"
  shows "fsck_app m p b n = Some (Some (n + of_nat (length ys)))"
  using assms
proof (induction ys arbitrary: b p n)
  case Nil
  then show ?case by (simp add: fsck_app.simps)
next
  case (Cons a ys)
  then obtain h where h: "p = Some a" "m a = Some h" "h_prev h = b"
    "dseg (fld h_next m) (fld h_prev m) (Some a) (h_next h) ys None t"
    by (auto simp: fld_def [of _ m a])
  from Cons.IH [OF h(4)] h(1-3) show ?case by (subst fsck_app.simps) (simp add: ac_simps)
qed

lemma fsck_buckets_ok:
  assumes "length bs = length Bs" "\<And>i. i < length bs \<Longrightarrow> \<exists>j. bucket_ok m n j (bs ! i) (Bs ! i)"
  shows "fsck_buckets m bs k = Some (Some (k + of_nat (length (concat Bs))))"
  using assms
proof (induction bs Bs arbitrary: k rule: list_induct2)
  case (Cons b bs B Bs)
  from Cons.prems [of 0] obtain j where "bucket_ok m n j b B" by auto
  then have "fsck_chain m (hh_head b) None 0 = Some (Some (of_nat (length B)))" "b_count b = of_nat (length B)"
    using fsck_chain_ok [of m None "hh_head b" B "prev_of None B" 0] by (simp_all add: bucket_ok_def)
  moreover have "\<exists>j. bucket_ok m n j (bs ! i) (Bs ! i)" if "i < length bs" for i
    using Cons.prems [of "Suc i"] that by simp
  ultimately show ?case using Cons.IH [of "k + of_nat (length B)"] by (simp add: ac_simps)
qed simp

text \<open>The chains have no element twice, so together they are as long as the table.\<close>

lemma concat_distinct:
  assumes "buckets_ok m n bs Bs"
  shows "distinct (concat Bs)"
proof -
  have "distinct (concat (take k Bs))" if "k \<le> length Bs" for k
    using that
  proof (induction k)
    case (Suc k)
    then have k: "k < length Bs" by simp
    have kn: "k < unat n" using k assms by (simp add: buckets_ok_def)
    have "bucket_ok m n k (bs ! k) (Bs ! k)" using assms kn by (simp add: buckets_ok_def)
    then have dk: "distinct (Bs ! k)" unfolding bucket_ok_def using dseg_distinct by blast
    have dj: "a \<notin> set (Bs ! j)" if "j < k" "a \<in> set (Bs ! k)" for a j
      using other_bucket [OF assms kn _ _ that(2), of j] that(1) kn by simp
    have "set (concat (take k Bs)) \<inter> set (Bs ! k) = {}"
    proof (intro equals0I)
      fix a
      assume a: "a \<in> set (concat (take k Bs)) \<inter> set (Bs ! k)"
      then obtain j where "j < length (take k Bs)" "a \<in> set (take k Bs ! j)" using in_concat [of a "take k Bs"] by blast
      with dj [of j a] a k show False by simp
    qed
    then show ?case using Suc k dk by (simp add: take_Suc_conv_app_nth)
  qed simp
  from this [of "length Bs"] show ?thesis by simp
qed

lemma fsck_buckets_table:
  assumes "table_ok m t S"
  shows "fsck_buckets m (take (unat (num_buckets t)) (buckets t)) 0 = Some (Some (of_nat (card S)))"
proof -
  from assms obtain l Bs where bk: "buckets_ok m (num_buckets t) (buckets t) Bs" "set (concat Bs) = S"
    by (elim table_ok_D)
  have "length (concat Bs) = card S" using distinct_card [OF concat_distinct [OF bk(1)]] bk(2) by simp
  moreover have "fsck_buckets m (buckets t) 0 = Some (Some (0 + of_nat (length (concat Bs))))"
    by (rule fsck_buckets_ok) (use bk(1) in \<open>auto simp: buckets_ok_def\<close>)
  moreover have "take (unat (num_buckets t)) (buckets t) = buckets t" using bk(1) by (simp add: buckets_ok_def)
  ultimately show ?thesis by simp
qed

lemma HASH_FSCK_ok:
  assumes u: "listed u xs"
  shows "HASH_FSCK u = Some True"
proof (cases "xs = []")
  case True
  with u show ?thesis by (simp add: listed_def HASH_FSCK_def)
next
  case False
  with u obtain t where t: "u_tbl u = Some t" "u_head u = Some (hd xs)"
    "dseg (fld h_next (u_mem u)) (fld h_prev (u_mem u)) None (u_head u) xs None (Some (last xs))"
    "table_ok (u_mem u) t (set xs)" "num_items t = of_nat (length xs)" by (elim listed_D)
  show ?thesis
    using t(1,2,5) fsck_buckets_table [OF t(4)] distinct_card [OF dseg_distinct [OF t(3)]] fsck_app_ok [OF t(3), of 0]
    by (simp add: HASH_FSCK_def)
qed

text \<open>Walking over a table without changing it visits its elements in their order.\<close>

lemma hash_iter_walk:
  assumes "chain (fld h_next (u_mem u)) el xs" "\<And>a s. tb s = u \<Longrightarrow> a \<in> set xs \<Longrightarrow> body a s = Some (False, g a s) \<and> tb (g a s) = u"
    "tb s = u" "case el of None \<Rightarrow> True | Some a \<Rightarrow> fld h_next (u_mem u) a = Some tmp"
  shows "hash_iter tb body el tmp s = Some (fold g xs s)"
  using assms
proof (induction xs arbitrary: el tmp s)
  case Nil
  then show ?case by (simp add: hash_iter.simps)
next
  case (Cons a xs)
  from chain_ConsD [OF Cons.prems(1)] obtain h where h: "el = Some a" "u_mem u a = Some h" "chain (fld h_next (u_mem u)) (h_next h) xs"
    by blast
  have tmp: "tmp = h_next h" using Cons.prems(4) h by (simp add: fld_def)
  have b: "body a s = Some (False, g a s)" "tb (g a s) = u" using Cons.prems(2) [of s a] Cons.prems(3) by simp_all
  obtain tmp' where t: "(case tmp of None \<Rightarrow> Some None | Some b \<Rightarrow> do { h \<leftarrow> u_mem u b; Some (h_next h) }) = Some tmp'"
    "case tmp of None \<Rightarrow> True | Some a \<Rightarrow> fld h_next (u_mem u) a = Some tmp'"
  proof (cases tmp)
    case (Some b)
    with h(3) tmp obtain h' where "u_mem u b = Some h'" by (cases xs) (auto simp: fld_def)
    with Some show ?thesis by (intro that [of "h_next h'"]) (simp_all add: fld_def)
  qed (use that in simp)
  have "hash_iter tb body tmp tmp' (g a s) = Some (fold g xs (g a s))"
    by (rule Cons.IH [OF _ _ b(2) t(2)]) (use h(3) tmp Cons.prems(2) in auto)
  with h(1) b(1) t(1) [folded b(2)] show ?case by (subst hash_iter.simps) simp
qed

lemma HASH_ITER_walk:
  assumes u: "listed (tb s) xs"
    and body: "\<And>a s'. tb s' = tb s \<Longrightarrow> a \<in> set xs \<Longrightarrow> body a s' = Some (False, g a s') \<and> tb (g a s') = tb s"
  shows "HASH_ITER tb body s = Some (fold g xs s)"
proof (cases "xs = []")
  case True
  with u show ?thesis by (simp add: listed_def HASH_ITER_def)
next
  case False
  with u obtain t where t: "u_head (tb s) = Some (hd xs)"
    "dseg (fld h_next (u_mem (tb s))) (fld h_prev (u_mem (tb s))) None (u_head (tb s)) xs None (Some (last xs))" by (elim listed_D)
  have c: "chain (fld h_next (u_mem (tb s))) (Some (hd xs)) xs" using dseg_chain [OF t(2)] t(1) by simp
  obtain h where h: "u_mem (tb s) (hd xs) = Some h" using ha.mapped [OF t(2), of "hd xs"] False by auto
  have "hash_iter tb body (Some (hd xs)) (h_next h) s = Some (fold g xs s)"
    by (rule hash_iter_walk [where u = "tb s" and tb = tb and body = body and g = g, OF c body]) (use h in \<open>simp_all add: fld_def\<close>)
  with t(1) h show ?thesis by (simp add: HASH_ITER_def)
qed

text \<open>The list that a walk which collects the elements yields.\<close>

definition hash_items :: "uthash \<Rightarrow> addr list option" where
  "hash_items u = map_option snd (HASH_ITER fst (\<lambda>a (u, xs). Some (False, (u, xs @ [a]))) (u, []))"

lemma hash_items_ok:
  assumes "listed u xs"
  shows "hash_items u = Some xs"
proof -
  have f: "fold (\<lambda>a (u, ys). (u, ys @ [a])) xs (u, ys) = (u, ys @ xs)" for ys
    by (induction xs arbitrary: ys) auto
  have "HASH_ITER fst (\<lambda>a (u, xs). Some (False, (u, xs @ [a]))) (u, []) = Some (fold (\<lambda>a (u, ys). (u, ys @ [a])) xs (u, []))"
    by (rule HASH_ITER_walk) (use assms in \<open>auto split: prod.splits\<close>)
  with f show ?thesis by (simp add: hash_items_def)
qed

subsection \<open>Sorting\<close>

text \<open>Sorting interprets the shared merge sort on the application order; the buckets stay as they are.\<close>

definition hs_only :: "addr set \<Rightarrow> ut_mem \<Rightarrow> ut_mem \<Rightarrow> bool" where
  "hs_only S m m' \<longleftrightarrow> fld bkt_part m' = fld bkt_part m \<and> (\<forall>a. a \<notin> S \<longrightarrow> m' a = m a)"

definition hs_built :: "ut_mem \<Rightarrow> addr option \<Rightarrow> addr option \<Rightarrow> addr list \<Rightarrow> bool" where
  "hs_built m l t out \<longleftrightarrow> t = prev_of None out \<and> (out = [] \<longrightarrow> l = None) \<and>
     (out \<noteq> [] \<longrightarrow> (\<exists>r. dseg (fld h_next m) (fld h_prev m) None l out r t))"

definition hs_closed :: "ut_mem \<Rightarrow> addr option \<Rightarrow> addr list \<Rightarrow> bool" where
  "hs_closed m l out \<longleftrightarrow> dseg (fld h_next m) (fld h_prev m) None l out None (prev_of None out)"

lemma hs_emit_law:
  assumes m: "hs_built m l t out" and e: "fld h_next m e \<noteq> None" "distinct (out @ [e])"
  shows "\<exists>l' m'. hs_emit (Some e) l t m = Some (l', m') \<and> hs_built m' l' (Some e) (out @ [e]) \<and> hs_only (insert e (set out)) m m'"
proof -
  obtain h where h: "m e = Some h" using e(1) by (auto simp: fld_def)
  show ?thesis
  proof (cases "out = []")
    case True
    define m' where "m' = m(e \<mapsto> h\<lparr>h_prev := None\<rparr>)"
    have "hs_emit (Some e) l t m = Some (Some e, m')"
      using True m h by (simp add: hs_emit_def hs_built_def prev_of_def h_upd_if_def h_upd_def m'_def)
    moreover have "hs_built m' (Some e) (Some e) (out @ [e])"
      using True by (simp add: hs_built_def prev_of_def m'_def)
    moreover have "hs_only (insert e (set out)) m m'"
      using h by (auto simp: hs_only_def m'_def fld_def fun_eq_iff bkt_part_def key_part_def)
    ultimately show ?thesis by blast
  next
    case False
    with m obtain r where d: "dseg (fld h_next m) (fld h_prev m) None l out r (Some (last out))" and t: "t = Some (last out)"
      by (auto simp: hs_built_def prev_of_def)
    have el: "last out \<noteq> e" "e \<notin> set out" using e(2) False by auto
    have dis: "distinct out" using e(2) by simp
    obtain h1 where "m (last out) = Some h1" using ha.mapped [OF d, of "last out"] False by auto
    from ha.set_next [where m = m and a = "last out" and q = "Some e", OF this] obtain m1 where
      m1: "h_upd (last out) (\<lambda>h. h\<lparr>h_next := Some e\<rparr>) m = Some m1" "fld h_next m1 = (fld h_next m)(last out \<mapsto> Some e)"
        "fld h_prev m1 = fld h_prev m" "fld bkt_part m1 = fld bkt_part m" "\<And>x. x \<noteq> last out \<Longrightarrow> m1 x = m x" by blast
    have "m1 e = Some h" using m1(5) [of e] el(1) h by auto
    from ha.set_prev [where m = m1 and a = e and q = t, OF this] obtain m2 where
      m2: "h_upd e (\<lambda>h. h\<lparr>h_prev := t\<rparr>) m1 = Some m2" "fld h_prev m2 = (fld h_prev m1)(e \<mapsto> t)"
        "fld h_next m2 = fld h_next m1" "fld bkt_part m2 = fld bkt_part m1" "\<And>x. x \<noteq> e \<Longrightarrow> m2 x = m1 x" by blast
    have "hs_emit (Some e) l t m = Some (l, m2)" using t m1(1) m2(1) by (simp add: hs_emit_def h_upd_if_def)
    moreover have "hs_built m2 l (Some e) (out @ [e])"
    proof -
      have "dseg (fld h_next m2) (fld h_prev m2) None l out (Some e) (Some (last out))"
        using dseg_reend [OF d dis False, of "Some e"] el(2) m2(2,3) m1(2,3) by simp
      moreover obtain r' where "fld h_next m2 e = Some r'"
        using e(1) el(1) m2(3) m1(2) by auto
      ultimately have "dseg (fld h_next m2) (fld h_prev m2) None l (out @ [e]) r' (Some e)"
        using m2(2) t unfolding dseg_append by auto
      then show ?thesis by (auto simp: hs_built_def prev_of_def)
    qed
    moreover have "hs_only (insert e (set out)) m m2"
      using m1(4,5) m2(4,5) last_in_set [OF False] unfolding hs_only_def by (metis insertCI)
    ultimately show ?thesis by blast
  qed
qed

lemma hs_close_law:
  assumes m: "hs_built m l t out" and ne: "out \<noteq> []" "distinct out"
  shows "\<exists>m'. h_upd_if t (\<lambda>h. h\<lparr>h_next := None\<rparr>) m = Some m' \<and> hs_closed m' l out \<and> hs_only (set out) m m'"
proof -
  from m ne obtain r where d: "dseg (fld h_next m) (fld h_prev m) None l out r (Some (last out))" and t: "t = Some (last out)"
    by (auto simp: hs_built_def prev_of_def)
  obtain h where "m (last out) = Some h" using ha.mapped [OF d, of "last out"] ne by auto
  from ha.set_next [where m = m and a = "last out" and q = None, OF this] obtain m1 where
    m1: "h_upd (last out) (\<lambda>h. h\<lparr>h_next := None\<rparr>) m = Some m1" "fld h_next m1 = (fld h_next m)(last out \<mapsto> None)"
      "fld h_prev m1 = fld h_prev m" "fld bkt_part m1 = fld bkt_part m" "\<And>x. x \<noteq> last out \<Longrightarrow> m1 x = m x" by blast
  have "hs_closed m1 l out"
    using dseg_reend [OF d ne(2,1), of None] m1(2,3) ne(1) by (simp add: hs_closed_def prev_of_def)
  moreover have "hs_only (set out) m m1" using m1(4,5) last_in_set [OF ne(1)] unfolding hs_only_def by metis
  ultimately show ?thesis using m1(1) t by (auto simp: h_upd_if_def)
qed

lemma u32_small: "0 \<le> x \<Longrightarrow> x < 4294967296 \<Longrightarrow> to_unsigned x = x"
  by (simp add: to_unsigned_def)

text \<open>The recursion of the loops.\<close>

lemma hs_step_rec:
  "n \<le> i \<Longrightarrow> hs_step i n q ps m = Some (q, ps)"
  "i < n \<Longrightarrow> 0 \<le> ps \<Longrightarrow> ps < 2 ^ 31 \<Longrightarrow> fld h_next m a = Some None \<Longrightarrow> hs_step i n (Some a) ps m = Some (None, ps + 1)"
  "i < n \<Longrightarrow> 0 \<le> i \<Longrightarrow> i < 2 ^ 31 \<Longrightarrow> 0 \<le> ps \<Longrightarrow> ps < 2 ^ 31 \<Longrightarrow> fld h_next m a = Some (Some b) \<Longrightarrow>
    hs_step i n (Some a) ps m = hs_step (i + 1) n (Some b) (ps + 1) m"
  by (subst hs_step.simps; auto simp: hs_next_def fld_def u32_small)+

lemma hs_merge_rec:
  "ps = 0 \<Longrightarrow> qs = 0 \<or> q = None \<Longrightarrow> hs_merge cmp p q ps qs l t m = Some (q, l, t, m)"
  "fld h_next m e = Some p' \<Longrightarrow> hs_emit (Some e) l t m = Some (l', m') \<Longrightarrow> 0 < ps \<Longrightarrow> ps \<le> 2 ^ 31 \<Longrightarrow>
    qs = 0 \<or> q = None \<or> (\<exists>b c. q = Some b \<and> cmp e b = Some c \<and> c \<le> 0) \<Longrightarrow>
    hs_merge cmp (Some e) q ps qs l t m = hs_merge cmp p' q (ps - 1) qs l' (Some e) m'"
  "fld h_next m e = Some q' \<Longrightarrow> hs_emit (Some e) l t m = Some (l', m') \<Longrightarrow> 0 < qs \<Longrightarrow> qs \<le> 2 ^ 31 \<Longrightarrow> 0 \<le> ps \<Longrightarrow>
    ps = 0 \<or> (\<exists>a c. p = Some a \<and> cmp a e = Some c \<and> \<not> c \<le> 0) \<Longrightarrow>
    hs_merge cmp p (Some e) ps qs l t m = hs_merge cmp p q' ps (qs - 1) l' (Some e) m'"
  by (subst hs_merge.simps; auto simp: hs_next_def hs_next_if_def fld_def u32_small)+

lemma hs_pass_rec:
  "hs_pass cmp n None l t k m = Some (l, t, k, m)"
  "hs_step 0 n (Some a) 0 m = Some (q, ps) \<Longrightarrow> hs_merge cmp (Some a) q ps n l t m = Some (p', l', t', m') \<Longrightarrow>
    0 \<le> k \<Longrightarrow> k < 2 ^ 31 \<Longrightarrow> hs_pass cmp n (Some a) l t k m = hs_pass cmp n p' l' t' (k + 1) m'"
  by (subst hs_pass.simps; simp add: u32_small)+

interpretation hs: merge_sort "\<lambda>_. fld h_next" "\<lambda>_. cmp" hs_only hs_built hs_closed "\<lambda>e. hs_emit (Some e)"
  "\<lambda>_ t. h_upd_if t (\<lambda>h. h\<lparr>h_next := None\<rparr>)" "\<lambda>_. hs_step" "\<lambda>_. hs_merge cmp" "\<lambda>_. hs_pass cmp" "hs_loop cmp"
  "\<lambda>l t m. (l, t, m)" "2 ^ 31"
  for cmp :: u_cmp
proof (unfold_locales, goal_cases)
  case 2 then show ?case unfolding hs_only_def by (metis subsetD)
next
  case 6 then show ?case by (rule hs_emit_law)
next
  case 7 then show ?case by (rule hs_close_law)
next
  case 9 then show ?case by (auto simp: hs_closed_def intro: dseg_chain)
next
  case 18 then show ?case by (subst hs_loop.simps) (auto simp: u32_small)
qed (simp_all add: hs_only_def hs_built_def fld_def prev_of_def hs_step_rec [unfolded fld_def] hs_merge_rec [unfolded fld_def] hs_pass_rec)

lemma HASH_SRT_ok:
  assumes u: "uth_ok u xs" and cmp: "hs.ordered cmp (u_mem u) le (set xs)" and len: "length xs \<le> 2 ^ 31"
  shows "\<exists>u'. HASH_SRT cmp u = Some u' \<and> uth_ok u' (bsort le 1 xs) \<and> keys_of u' = keys_of u"
proof (cases "xs = []")
  case True
  with u show ?thesis by (simp add: uth_ok_def HASH_SRT_def bsort_Nil)
next
  case False
  with u obtain t where t: "u_tbl u = Some t" "app_ok (u_mem u) (u_head u) (t_tail t) xs" "table_ok (u_mem u) t (set xs)"
    "num_items t = of_nat (length xs)" by (auto simp: uth_ok_def)
  then have hd': "u_head u \<noteq> None" using False by (cases xs) (auto simp: app_ok_def)
  have d: "dseg (fld h_next (u_mem u)) (fld h_prev (u_mem u)) None (u_head u) xs None (Some (t_tail t))"
    using t(2) by (simp add: app_ok_def)
  then have "hs_closed (u_mem u) (u_head u) xs" using dseg_last [OF d] by (simp add: hs_closed_def prev_of_def)
  from hs.sort_list [OF this False dseg_distinct [OF d] cmp] len obtain l m where
    s: "hs_loop cmp 1 (u_head u) (u_mem u) = Some (l, Some (last (bsort le 1 xs)), m)"
      "hs_closed m l (bsort le 1 xs)" "hs_only (set xs) (u_mem u) m" by auto
  define u' where "u' = u\<lparr>u_head := l, u_tbl := Some (t\<lparr>t_tail := last (bsort le 1 xs)\<rparr>), u_mem := m\<rparr>"
  have ne: "bsort le 1 xs \<noteq> []" using False by (metis length_0_conv length_bsort)
  have bp: "fld bkt_part m = fld bkt_part (u_mem u)" using s(3) by (simp add: hs_only_def)
  have "HASH_SRT cmp u = Some u'" using hd' s(1) t(1) by (auto simp: HASH_SRT_def u'_def)
  moreover have "app_ok m l (last (bsort le 1 xs)) (bsort le 1 xs)" using s(2) ne by (simp add: app_ok_def hs_closed_def prev_of_def)
  moreover have "table_ok m (t\<lparr>t_tail := last (bsort le 1 xs)\<rparr>) (set xs)"
    using t(3) table_ok_same [OF bp] table_ok_cong [of "t\<lparr>t_tail := last (bsort le 1 xs)\<rparr>" t] by simp
  ultimately show ?thesis using ne t(4) bkt_same(3) [OF bp] by (auto simp: uth_ok_def u'_def keys_of_def)
qed

end
