(* ===== verification/UtHashFcn.thy ===== *)
theory UtHashFcn
  imports UtHash
begin

unbundle bit_operations_syntax

text \<open>
  The hash functions of inc/uthash/uthash.h on the bytes of a key, and the macros that compute
  the hash value before they work on the table; HASH-FCN is its default, Jenkins' function.
  Keys are shorter than 4 GB.  The step that mixes three words can be undone, so it loses nothing.
\<close>

subsection \<open>The hash functions\<close>

definition u8 :: "byte \<Rightarrow> u32" where
  "u8 b = ucast b"

definition HASH_BER :: "byte list \<Rightarrow> u32" where
  "HASH_BER key = fold (\<lambda>b h. (push_bit 5 h + h) + u8 b) key 0"

definition HASH_SAX :: "byte list \<Rightarrow> u32" where
  "HASH_SAX key = fold (\<lambda>b h. h XOR (push_bit 5 h + drop_bit 2 h + u8 b)) key 0"

definition HASH_FNV :: "byte list \<Rightarrow> u32" where
  "HASH_FNV key = fold (\<lambda>b h. (h XOR u8 b) * 16777619) key 2166136261"

definition oat_step :: "byte \<Rightarrow> u32 \<Rightarrow> u32" where
  "oat_step b h = (let h = h + u8 b; h = h + push_bit 10 h in h XOR drop_bit 6 h)"

definition HASH_OAT :: "byte list \<Rightarrow> u32" where
  "HASH_OAT key = (let h = fold oat_step key 0; h = h + push_bit 3 h; h = h XOR drop_bit 11 h in h + push_bit 15 h)"

type_synonym jen = "u32 \<times> u32 \<times> u32"

definition jen_line :: "(u32 \<Rightarrow> u32) \<Rightarrow> u32 \<Rightarrow> u32 \<Rightarrow> u32 \<Rightarrow> u32" where
  "jen_line sh a b c = (a - b - c) XOR sh c"

definition HASH_JEN_MIX :: "jen \<Rightarrow> jen" where
  "HASH_JEN_MIX = (\<lambda>(a, b, c).
     let a = jen_line (drop_bit 13) a b c; b = jen_line (push_bit 8) b c a; c = jen_line (drop_bit 13) c a b;
         a = jen_line (drop_bit 12) a b c; b = jen_line (push_bit 16) b c a; c = jen_line (drop_bit 5) c a b;
         a = jen_line (drop_bit 3) a b c; b = jen_line (push_bit 10) b c a; c = jen_line (drop_bit 15) c a b
     in (a, b, c))"

definition word4 :: "byte \<Rightarrow> byte \<Rightarrow> byte \<Rightarrow> byte \<Rightarrow> u32" where
  "word4 b0 b1 b2 b3 = u8 b0 + push_bit 8 (u8 b1) + push_bit 16 (u8 b2) + push_bit 24 (u8 b3)"

text \<open>The loop over blocks of 12 bytes returns the bytes that are left.\<close>

fun jen_blocks :: "byte list \<Rightarrow> jen \<Rightarrow> byte list \<times> jen" where
  "jen_blocks (b0 # b1 # b2 # b3 # b4 # b5 # b6 # b7 # b8 # b9 # b10 # b11 # key) (i, j, h) =
     jen_blocks key (HASH_JEN_MIX (i + word4 b0 b1 b2 b3, j + word4 b4 b5 b6 b7, h + word4 b8 b9 b10 b11))"
| "jen_blocks key s = (key, s)"

text \<open>A byte of the rest, shifted, or nothing when the rest is shorter: the cases fall through.\<close>

definition tail_byte :: "byte list \<Rightarrow> nat \<Rightarrow> nat \<Rightarrow> u32" where
  "tail_byte rest k n = (if k < length rest then push_bit n (u8 (rest ! k)) else 0)"

definition HASH_JEN :: "byte list \<Rightarrow> u32" where
  "HASH_JEN key = (
     let (rest, (i, j, h)) = jen_blocks key (0x9e3779b9, 0x9e3779b9, 0xfeedbeef);
         h = h + of_nat (length key);
         h = h + tail_byte rest 10 24; h = h + tail_byte rest 9 16; h = h + tail_byte rest 8 8;
         j = j + tail_byte rest 7 24; j = j + tail_byte rest 6 16; j = j + tail_byte rest 5 8; j = j + tail_byte rest 4 0;
         i = i + tail_byte rest 3 24; i = i + tail_byte rest 2 16; i = i + tail_byte rest 1 8; i = i + tail_byte rest 0 0
     in snd (snd (HASH_JEN_MIX (i, j, h))))"

definition get16bits :: "byte \<Rightarrow> byte \<Rightarrow> u32" where
  "get16bits d0 d1 = push_bit 8 (u8 d1) + u8 d0"

fun sfh_loop :: "byte list \<Rightarrow> u32 \<Rightarrow> byte list \<times> u32" where
  "sfh_loop (b0 # b1 # b2 # b3 # key) h =
     (let h = h + get16bits b0 b1; tmp = push_bit 11 (get16bits b2 b3) XOR h; h = push_bit 16 h XOR tmp
      in sfh_loop key (h + drop_bit 11 h))"
| "sfh_loop key h = (key, h)"

fun sfh_rest :: "byte list \<Rightarrow> u32 \<Rightarrow> u32" where
  "sfh_rest [b0, b1, b2] h = (let h = h + get16bits b0 b1; h = h XOR push_bit 16 h; h = h XOR push_bit 18 (u8 b2)
     in h + drop_bit 11 h)"
| "sfh_rest [b0, b1] h = (let h = h + get16bits b0 b1; h = h XOR push_bit 11 h in h + drop_bit 17 h)"
| "sfh_rest [b0] h = (let h = h + u8 b0; h = h XOR push_bit 10 h in h + drop_bit 1 h)"
| "sfh_rest _ h = h"

definition HASH_SFH :: "byte list \<Rightarrow> u32" where
  "HASH_SFH key = (let (rest, h) = sfh_loop key 0xcafebabe; h = sfh_rest rest h;
     h = h XOR push_bit 3 h; h = h + drop_bit 5 h; h = h XOR push_bit 4 h; h = h + drop_bit 17 h;
     h = h XOR push_bit 25 h in h + drop_bit 6 h)"

text \<open>MurmurHash reads blocks of four bytes, low byte first.\<close>

definition MUR_ROTL32 :: "u32 \<Rightarrow> nat \<Rightarrow> u32" where
  "MUR_ROTL32 x r = push_bit r x OR drop_bit (32 - r) x"

definition MUR_FMIX :: "u32 \<Rightarrow> u32" where
  "MUR_FMIX h = (let h = h XOR drop_bit 16 h; h = h * 0x85ebca6b; h = h XOR drop_bit 13 h; h = h * 0xc2b2ae35
     in h XOR drop_bit 16 h)"

definition mur_k :: "u32 \<Rightarrow> u32" where
  "mur_k k = MUR_ROTL32 (k * 0xcc9e2d51) 15 * 0x1b873593"

fun mur_loop :: "byte list \<Rightarrow> u32 \<Rightarrow> byte list \<times> u32" where
  "mur_loop (b0 # b1 # b2 # b3 # key) h =
     mur_loop key (MUR_ROTL32 (h XOR mur_k (word4 b0 b1 b2 b3)) 13 * 5 + 0xe6546b64)"
| "mur_loop key h = (key, h)"

definition mur_rest :: "byte list \<Rightarrow> u32" where
  "mur_rest rest = tail_byte rest 2 16 XOR tail_byte rest 1 8 XOR tail_byte rest 0 0"

definition HASH_MUR :: "byte list \<Rightarrow> u32" where
  "HASH_MUR key = (let (rest, h) = mur_loop key 0xf88D5353;
     h = (if rest = [] then h else h XOR mur_k (mur_rest rest))
     in MUR_FMIX (h XOR of_nat (length key)))"

subsection \<open>The macros that hash the key first\<close>

definition HASH_VALUE :: "byte list \<Rightarrow> u32" where
  "HASH_VALUE keyptr = HASH_JEN keyptr"

definition HASH_FIND :: "byte list \<Rightarrow> uthash \<Rightarrow> addr option option" where
  "HASH_FIND keyptr u = HASH_FIND_BYHASHVALUE keyptr (HASH_VALUE keyptr) u"

definition HASH_ADD :: "grants \<Rightarrow> byte list \<Rightarrow> addr \<Rightarrow> uthash \<Rightarrow> (int + uthash) option" where
  "HASH_ADD A keyptr add u = HASH_ADD_KEYPTR_BYHASHVALUE A keyptr (HASH_VALUE keyptr) add u"

definition HASH_ADD_INORDER :: "grants \<Rightarrow> byte list \<Rightarrow> addr \<Rightarrow> u_cmp \<Rightarrow> uthash \<Rightarrow> (int + uthash) option" where
  "HASH_ADD_INORDER A keyptr add cmp u = HASH_ADD_KEYPTR_BYHASHVALUE_INORDER A keyptr (HASH_VALUE keyptr) add cmp u"

definition HASH_REPLACE :: "grants \<Rightarrow> byte list \<Rightarrow> addr \<Rightarrow> uthash \<Rightarrow> (int + addr option \<times> uthash) option" where
  "HASH_REPLACE A keyptr add u = HASH_REPLACE_BYHASHVALUE A keyptr (HASH_VALUE keyptr) add u"

definition HASH_REPLACE_INORDER ::
    "grants \<Rightarrow> byte list \<Rightarrow> addr \<Rightarrow> u_cmp \<Rightarrow> uthash \<Rightarrow> (int + addr option \<times> uthash) option" where
  "HASH_REPLACE_INORDER A keyptr add cmp u = HASH_REPLACE_BYHASHVALUE_INORDER A keyptr (HASH_VALUE keyptr) add cmp u"

text \<open>The key of an int is its four bytes.\<close>

definition HASH_FIND_INT :: "u32 \<Rightarrow> uthash \<Rightarrow> addr option option" where
  "HASH_FIND_INT findint u = HASH_FIND (le_bytes findint) u"

definition HASH_ADD_INT :: "grants \<Rightarrow> u32 \<Rightarrow> addr \<Rightarrow> uthash \<Rightarrow> (int + uthash) option" where
  "HASH_ADD_INT A intfield add u = HASH_ADD A (le_bytes intfield) add u"

definition HASH_REPLACE_INT :: "grants \<Rightarrow> u32 \<Rightarrow> addr \<Rightarrow> uthash \<Rightarrow> (int + addr option \<times> uthash) option" where
  "HASH_REPLACE_INT A intfield add u = HASH_REPLACE A (le_bytes intfield) add u"

subsection \<open>The Bloom filter\<close>

text \<open>
  With HASH-BLOOM set to a number of bits at most 32, a table has a bit vector of 2 ^ nbits bits that
  HASH-FIND asks first.
\<close>

definition HASH_BLOOM_BYTELEN :: "nat \<Rightarrow> nat" where
  "HASH_BLOOM_BYTELEN nbits = 2 ^ nbits div 8 + (if 2 ^ nbits mod 8 \<noteq> (0 :: nat) then 1 else 0)"

definition HASH_BLOOM_MAKE :: "grants \<Rightarrow> nat \<Rightarrow> (int + byte list) option" where
  "HASH_BLOOM_MAKE A nbits = Some (if \<not> A (int (HASH_BLOOM_BYTELEN nbits)) then Inl (- 1)
     else Inr (replicate (HASH_BLOOM_BYTELEN nbits) 0))"

definition HASH_BLOOM_BITSET :: "byte list \<Rightarrow> u32 \<Rightarrow> byte list option" where
  "HASH_BLOOM_BITSET bv idx = do {
     b \<leftarrow> arr_get bv (uint (idx div 8));
     arr_set bv (uint (idx div 8)) (b OR push_bit (unat (idx mod 8)) 1) }"

definition HASH_BLOOM_BITTEST :: "byte list \<Rightarrow> u32 \<Rightarrow> bool option" where
  "HASH_BLOOM_BITTEST bv idx = do {
     b \<leftarrow> arr_get bv (uint (idx div 8));
     Some (b AND push_bit (unat (idx mod 8)) 1 \<noteq> 0) }"

definition HASH_BLOOM_ADD :: "nat \<Rightarrow> u32 \<Rightarrow> byte list \<Rightarrow> byte list option" where
  "HASH_BLOOM_ADD nbits hashv bv = HASH_BLOOM_BITSET bv (hashv AND (push_bit nbits 1 - 1))"

definition HASH_BLOOM_TEST :: "nat \<Rightarrow> u32 \<Rightarrow> byte list \<Rightarrow> bool option" where
  "HASH_BLOOM_TEST nbits hashv bv = HASH_BLOOM_BITTEST bv (hashv AND (push_bit nbits 1 - 1))"

subsection \<open>What the functions keep\<close>

text \<open>The mixing step of Jenkins' function, undone line by line.\<close>

definition jen_line_back :: "(u32 \<Rightarrow> u32) \<Rightarrow> u32 \<Rightarrow> u32 \<Rightarrow> u32 \<Rightarrow> u32" where
  "jen_line_back sh a b c = (a XOR sh c) + c + b"

lemma jen_line_back [simp]: "jen_line_back sh (jen_line sh a b c) b c = a"
  by (simp add: jen_line_def jen_line_back_def xor.assoc)

definition jen_unmix :: "jen \<Rightarrow> jen" where
  "jen_unmix = (\<lambda>(a, b, c).
     let c = jen_line_back (drop_bit 15) c a b; b = jen_line_back (push_bit 10) b c a; a = jen_line_back (drop_bit 3) a b c;
         c = jen_line_back (drop_bit 5) c a b; b = jen_line_back (push_bit 16) b c a; a = jen_line_back (drop_bit 12) a b c;
         c = jen_line_back (drop_bit 13) c a b; b = jen_line_back (push_bit 8) b c a; a = jen_line_back (drop_bit 13) a b c
     in (a, b, c))"

lemma jen_unmix_mix: "jen_unmix (HASH_JEN_MIX s) = s"
  by (cases s) (simp add: jen_unmix_def HASH_JEN_MIX_def Let_def)

lemma HASH_JEN_MIX_inj: "HASH_JEN_MIX s = HASH_JEN_MIX s' \<Longrightarrow> s = s'"
  by (metis jen_unmix_mix)

text \<open>Bernstein's function is the value of the key as digits to the base 33.\<close>

lemma HASH_BER_Nil: "HASH_BER [] = 0"
  by (simp add: HASH_BER_def)

lemma HASH_BER_snoc: "HASH_BER (key @ [b]) = 33 * HASH_BER key + u8 b"
  by (simp add: HASH_BER_def push_bit_eq_mult)

lemma HASH_BER_base33: "HASH_BER key = (\<Sum>i < length key. 33 ^ (length key - Suc i) * u8 (key ! i))"
proof (induction key rule: rev_induct)
  case (snoc b key)
  have "(\<Sum>i < length key. 33 ^ (length (key @ [b]) - Suc i) * u8 ((key @ [b]) ! i)) =
      (\<Sum>i < length key. 33 * (33 ^ (length key - Suc i) * u8 (key ! i)))"
  proof (rule sum.cong)
    fix i
    assume "i \<in> {..<length key}"
    then have i: "i < length key" by simp
    then have "length (key @ [b]) - Suc i = Suc (length key - Suc i)" by simp
    with i show "33 ^ (length (key @ [b]) - Suc i) * u8 ((key @ [b]) ! i) = 33 * (33 ^ (length key - Suc i) * u8 (key ! i))"
      by (simp only: power_Suc nth_append_left mult.assoc)
  qed simp
  with snoc show ?case by (simp add: HASH_BER_snoc sum_distrib_left)
qed (simp add: HASH_BER_Nil)

text \<open>The filter never misses: what was added is reported, and nothing added before is lost.\<close>

lemma byte_bit_nonzero: "n < 8 \<Longrightarrow> push_bit n (1 :: byte) \<noteq> 0"
  by (simp add: push_bit_eq_0_iff) 

lemma HASH_BLOOM_BITSET_test:
  assumes "HASH_BLOOM_BITSET bv i = Some bv'"
  shows "HASH_BLOOM_BITTEST bv' i = Some True" "HASH_BLOOM_BITTEST bv j = Some True \<Longrightarrow> HASH_BLOOM_BITTEST bv' j = Some True"
proof -
  define k where "k = nat (uint (i div 8))"
  define x where "x = push_bit (unat (i mod 8)) (1 :: byte)"
  from assms obtain b where b: "arr_get bv (uint (i div 8)) = Some b" "arr_set bv (uint (i div 8)) (b OR x) = Some bv'"
    by (auto simp: HASH_BLOOM_BITSET_def x_def bind_Some_iff)
  from arr_get_SomeD [OF b(1)] have u: "0 \<le> uint (i div 8)" "uint (i div 8) < int (length bv)" "b = bv ! k"
    unfolding k_def by blast+
  then have k: "k < length bv" "0 \<le> uint (i div 8)" "uint (i div 8) < int (length bv)" unfolding k_def by linarith+
  have bv': "bv' = bv[k := bv ! k OR x]" using b(2) u unfolding k_def arr_set_def by simp
  have "unat (i mod 8) < 8" by (simp add: unat_mod)
  then have x0: "x \<noteq> 0" unfolding x_def by (rule byte_bit_nonzero)
  have "(bv ! k OR x) AND x = x" by (simp add: bit_eq_iff bit_simps)
  then show "HASH_BLOOM_BITTEST bv' i = Some True"
  proof -
    have "arr_get bv' (uint (i div 8)) = Some (bv ! k OR x)" using k unfolding bv' by (simp add: arr_get_def k_def)
    then show ?thesis unfolding HASH_BLOOM_BITTEST_def x_def [symmetric] using x0 \<open>(bv ! k OR x) AND x = x\<close> by simp
  qed
  assume j: "HASH_BLOOM_BITTEST bv j = Some True"
  define y where "y = push_bit (unat (j mod 8)) (1 :: byte)"
  define l where "l = nat (uint (j div 8))"
  from j obtain b2 where b2: "arr_get bv (uint (j div 8)) = Some b2" "b2 AND y \<noteq> 0"
    by (auto simp: HASH_BLOOM_BITTEST_def y_def bind_Some_iff)
  from arr_get_SomeD [OF b2(1)] have u2: "0 \<le> uint (j div 8)" "uint (j div 8) < int (length bv)" "b2 = bv ! l"
    unfolding l_def by blast+
  then have l: "l < length bv" "bv ! l AND y \<noteq> 0" using b2(2) unfolding l_def by (linarith, simp)
  have "(bv ! l OR x) AND y \<noteq> 0"
  proof
    assume "(bv ! l OR x) AND y = 0"
    then have "bv ! l AND y OR x AND y = 0" by (simp add: bit.conj_disj_distrib2)
    then show False using l(2) by (simp add: or_eq_0_iff)
  qed
  then show "HASH_BLOOM_BITTEST bv' j = Some True"
  proof -
    have "arr_get bv' (uint (j div 8)) = Some (if l = k then bv ! l OR x else bv ! l)"
      using u2 l(1) k(1) unfolding bv' by (simp add: arr_get_def l_def nth_list_update)
    with \<open>(bv ! l OR x) AND y \<noteq> 0\<close> l(2) show ?thesis unfolding HASH_BLOOM_BITTEST_def y_def [symmetric] by auto
  qed
qed

lemma HASH_BLOOM_ADD_test:
  "HASH_BLOOM_ADD nbits h bv = Some bv' \<Longrightarrow> HASH_BLOOM_TEST nbits h bv' = Some True"
  "HASH_BLOOM_ADD nbits h bv = Some bv' \<Longrightarrow> HASH_BLOOM_TEST nbits h' bv = Some True \<Longrightarrow> HASH_BLOOM_TEST nbits h' bv' = Some True"
  unfolding HASH_BLOOM_ADD_def HASH_BLOOM_TEST_def by (rule HASH_BLOOM_BITSET_test, assumption)+

end
