(* ===== verification/UtHashSel.thy ===== *)
theory UtHashSel
  imports UtHashMap UtHashFcn
begin

text \<open>
  Selecting into a second table (HASH-SELECT of inc/uthash/uthash.h) and the promises of the
  macros that a program uses, with Jenkins' hash.  A selection leaves a table whose tail is its
  first element, not its last.
\<close>

subsection \<open>The state of a selection\<close>

text \<open>
  The table made so far holds ys; everything is as it should be but the tail.
\<close>

definition sel_ok :: "uthash \<Rightarrow> addr list \<Rightarrow> bool" where
  "sel_ok d ys \<longleftrightarrow> (if ys = [] then u_head d = None
     else \<exists>t. u_tbl d = Some t \<and> u_head d = Some (hd ys) \<and> t_tail t = hd ys \<and>
       dseg (fld h_next (u_mem d)) (fld h_prev (u_mem d)) None (Some (hd ys)) ys None (Some (last ys)) \<and>
       table_ok (u_mem d) t (set ys) \<and> num_items t = of_nat (length ys))"

lemma sel_one_ok: "sel_ok d ys \<Longrightarrow> length ys \<le> 1 \<Longrightarrow> uth_ok d ys"
  by (cases ys) (auto simp: sel_ok_def uth_ok_def app_ok_def)

lemma sel_listed: "sel_ok d ys \<Longrightarrow> listed d ys"
  by (simp add: sel_ok_def listed_def split: if_splits) metis

text \<open>Making a table in place.\<close>

lemma HASH_MAKE_TABLE_ok:
  "HASH_MAKE_TABLE A a u = Some (Inl (- 1)) \<or> (\<exists>t. HASH_MAKE_TABLE A a u = Some (Inr (u\<lparr>u_tbl := Some t\<rparr>)) \<and>
     table_ok m t {} \<and> num_items t = 0 \<and> t_tail t = a \<and> set (buckets t) = {empty_bucket})"
proof (cases "A 64 \<and> A 512")
  case False
  then show ?thesis by (auto simp: HASH_MAKE_TABLE_def HASH_INITIAL_NUM_BUCKETS_def)
next
  case True
  define t where "t = \<lparr>buckets = replicate (unat HASH_INITIAL_NUM_BUCKETS) empty_bucket,
    num_buckets = HASH_INITIAL_NUM_BUCKETS, log2_num_buckets = HASH_INITIAL_NUM_BUCKETS_LOG2, num_items = 0,
    t_tail = a, ideal_chain_maxlen = 0, nonideal_items = 0, ineff_expands = 0, noexpand = 0\<rparr>"
  have "HASH_MAKE_TABLE A a u = Some (Inr (u\<lparr>u_tbl := Some t\<rparr>))"
    using True by (simp add: HASH_MAKE_TABLE_def HASH_INITIAL_NUM_BUCKETS_def t_def)
  moreover have "table_ok m t {}"
  proof -
    have b: "num_buckets t = 2 ^ 5" "(5::nat) < 32" by (simp_all add: t_def HASH_INITIAL_NUM_BUCKETS_def)
    have "buckets_ok m (num_buckets t) (buckets t) (replicate (unat (num_buckets t)) [])"
      using no_bucket [OF b, of m] by (simp add: t_def)
    moreover have "unat (log2_num_buckets t) = 5" by (simp add: t_def HASH_INITIAL_NUM_BUCKETS_LOG2_def)
    moreover have "set (concat (replicate (unat (num_buckets t)) [])) = {}" by simp
    ultimately show ?thesis unfolding table_ok_def using b(1) by auto
  qed
  moreover have "set (buckets t) = {empty_bucket}" by (simp add: t_def HASH_INITIAL_NUM_BUCKETS_def)
  ultimately show ?thesis by (auto simp: t_def)
qed

text \<open>One element of the source.\<close>

definition copied :: "uthash \<Rightarrow> uthash \<Rightarrow> uthash \<Rightarrow> addr set \<Rightarrow> bool" where
  "copied src d d' S \<longleftrightarrow> (\<forall>a. keys_of d' a = (if a \<in> S then keys_of src a else keys_of d a))"

text \<open>The links of an element that is selected: it becomes the last of those selected before (ys).\<close>

lemma hsel_link:
  assumes d: "sel_ok d ys" and a: "a \<notin> set ys" "u_mem d a = Some h" "u_mem src a = Some s"
    and m1: "m1 = (u_mem d)(a \<mapsto> h\<lparr>h_key := h_key s, h_keylen := h_keylen s, h_hashv := h_hashv s, h_prev := prev_of None ys, h_next := None\<rparr>)"
  obtains m2 where "h_upd_if (prev_of None ys) (\<lambda>h. h\<lparr>h_next := Some a\<rparr>) m1 = Some m2"
    "dseg (fld h_next m2) (fld h_prev m2) None (Some (hd (ys @ [a]))) (ys @ [a]) None (Some a)"
    "fld key_part m2 = (fld key_part (u_mem d))(a := keys_of src a)" "fld bkt_part m2 = fld bkt_part m1"
proof -
  let ?m = "u_mem d"
  have k1: "fld key_part m1 = (fld key_part ?m)(a := keys_of src a)"
    using a(3) by (simp add: m1 keys_of_def key_part_def fld_def [of _ "u_mem src"])
  have mapped: "ys \<noteq> [] \<longrightarrow> m1 (last ys) \<noteq> None"
  proof
    assume ys: "ys \<noteq> []"
    with d have ds: "dseg (fld h_next ?m) (fld h_prev ?m) None (Some (hd ys)) ys None (Some (last ys))" by (auto simp: sel_ok_def)
    obtain h' where "?m (last ys) = Some h'" using ha.mapped [OF ds, of "last ys"] ys by auto
    then show "m1 (last ys) \<noteq> None" by (simp add: m1)
  qed
  from ha.set_next_of_last [where m = m1 and xs = ys and q = "Some a", OF mapped] obtain m2 where
    m2: "h_upd_if (prev_of None ys) (\<lambda>h. h\<lparr>h_next := Some a\<rparr>) m1 = Some m2" "fld h_next m2 = set_last ys (Some a) (fld h_next m1)"
      "fld h_prev m2 = fld h_prev m1" "fld bkt_part m2 = fld bkt_part m1" "\<And>x. x \<notin> set ys \<Longrightarrow> m2 x = m1 x" by blast
  have al: "ys \<noteq> [] \<Longrightarrow> last ys \<noteq> a" using a(1) by auto
  have seg: "dseg (fld h_next m2) (fld h_prev m2) None (Some (hd (ys @ [a]))) (ys @ [a]) None (Some a)"
  proof (cases "ys = []")
    case True
    then show ?thesis using m2(2,3) by (simp add: m1 set_last_def prev_of_def)
  next
    case False
    with d have ds: "dseg (fld h_next ?m) (fld h_prev ?m) None (Some (hd ys)) (ys @ []) None (Some (last ys))" by (auto simp: sel_ok_def)
    have "dseg ((set_last ys (Some a) (fld h_next ?m))(a \<mapsto> None)) ((fld h_prev ?m)(a \<mapsto> prev_of None ys)) None
        (Some (hd ys)) (ys @ [a]) None (Some a)"
      using dseg_insert [OF ds, of a] dseg_distinct [OF ds] a(1) False by (simp add: set_first_def next_of_def)
    moreover have "fld h_next m2 = (set_last ys (Some a) (fld h_next ?m))(a \<mapsto> None)"
      using m2(2) al False by (simp add: m1 set_last_def fun_upd_twist)
    moreover have "fld h_prev m2 = (fld h_prev ?m)(a \<mapsto> prev_of None ys)" using m2(3) by (simp add: m1)
    ultimately show ?thesis using False by simp
  qed
  have k2: "fld key_part m2 = (fld key_part ?m)(a := keys_of src a)" using bkt_same(3) [OF m2(4)] k1 by simp
  show ?thesis by (rule that [OF m2(1) seg k2 m2(4)])
qed

lemma hsel_item_ok:
  assumes d: "sel_ok d ys" and a: "a \<notin> set ys" "u_mem d a = Some h" "u_mem src a = Some s"
    and len: "Suc (length ys) < 2 ^ 32" and A: "\<not> A (2 ^ 36)" and c: "cond a"
  shows "hsel_item A cond src a (d, prev_of None ys) = Some (Inl (- 1)) \<or>
    (\<exists>d'. hsel_item A cond src a (d, prev_of None ys) = Some (Inr (d', Some a)) \<and> sel_ok d' (ys @ [a]) \<and> copied src d d' {a})"
proof -
  let ?m = "u_mem d"
  define m1 where "m1 = ?m(a \<mapsto> h\<lparr>h_key := h_key s, h_keylen := h_keylen s, h_hashv := h_hashv s, h_prev := prev_of None ys, h_next := None\<rparr>)"
  have m1: "h_upd a (\<lambda>h. h\<lparr>h_key := h_key s, h_keylen := h_keylen s, h_hashv := h_hashv s, h_prev := prev_of None ys, h_next := None\<rparr>) ?m = Some m1"
    using a(2) by (simp add: h_upd_def m1_def)
  from hsel_link [of d ys a h src s m1, OF d a m1_def] obtain m2 where
    m2: "h_upd_if (prev_of None ys) (\<lambda>h. h\<lparr>h_next := Some a\<rparr>) m1 = Some m2" "fld bkt_part m2 = fld bkt_part m1"
    and seg: "dseg (fld h_next m2) (fld h_prev m2) None (Some (hd (ys @ [a]))) (ys @ [a]) None (Some a)"
    and k2: "fld key_part m2 = (fld key_part ?m)(a := keys_of src a)" by metis
  have "fld key_part m2 a = Some (key_part s)" using k2 a(3) by (simp add: keys_of_def fld_def)
  then obtain h2 where h2: "m2 a = Some h2" "h_hashv h2 = h_hashv s" by (auto simp: fld_def key_part_def)
  define start where "start = (if u_head d = None then HASH_MAKE_TABLE A a (d\<lparr>u_head := Some a, u_mem := m2\<rparr>)
    else Some (Inr (d\<lparr>u_mem := m2\<rparr>)))"
  have e: "hsel_item A cond src a (d, prev_of None ys) = and_then start
       (\<lambda>d. do {
          t \<leftarrow> u_tbl d;
          and_then (HASH_ADD_TO_BKT A (HASH_TO_BKT (h_hashv s) (num_buckets t)) a d) (\<lambda>d. do {
            t \<leftarrow> u_tbl d;
            Some (Inr (d\<lparr>u_tbl := Some (t\<lparr>num_items := num_items t + 1\<rparr>)\<rparr>, Some a)) }) })"
    using a(3) c m1 m2(1) by (simp add: hsel_item_def start_def)
  have "start = Some (Inl (- 1)) \<or> (\<exists>d1 t1. start = Some (Inr d1) \<and> u_tbl d1 = Some t1 \<and> u_mem d1 = m2 \<and> u_head d1 = Some (hd (ys @ [a])) \<and>
      t_tail t1 = hd (ys @ [a]) \<and> table_ok m2 t1 (set ys) \<and> num_items t1 = of_nat (length ys) \<and>
      (num_items t1 = 0 \<longrightarrow> set (buckets t1) = {empty_bucket}))"
  proof (cases "ys = []")
    case True
    then have "u_head d = None" using d by (simp add: sel_ok_def)
    with HASH_MAKE_TABLE_ok [of A a "d\<lparr>u_head := Some a, u_mem := m2\<rparr>" m2] True show ?thesis by (auto simp: start_def)
  next
    case False
    with d obtain t where t: "u_tbl d = Some t" "u_head d = Some (hd ys)" "t_tail t = hd ys" "table_ok ?m t (set ys)"
      "num_items t = of_nat (length ys)" by (auto simp: sel_ok_def)
    have "m1 x = ?m x" if "x \<in> set ys" for x using that a(1) by (auto simp: m1_def)
    from t(4) table_ok_frame [OF this] have "table_ok m1 t (set ys)" by simp
    then have "table_ok m2 t (set ys)" using table_ok_same [OF m2(2)] by simp
    moreover have "unat (of_nat (length ys) :: u32) = length ys" using len by (simp only: unat_of_nat) simp
    then have "of_nat (length ys) \<noteq> (0 :: u32)" using False by auto
    ultimately show ?thesis using t False by (simp add: start_def)
  qed
  then show ?thesis
  proof (elim disjE exE conjE)
    fix d1 t1
    assume st: "start = Some (Inr d1)" "u_tbl d1 = Some t1" "u_mem d1 = m2" "u_head d1 = Some (hd (ys @ [a]))"
      "t_tail t1 = hd (ys @ [a])" "table_ok m2 t1 (set ys)" "num_items t1 = of_nat (length ys)"
      "num_items t1 = 0 \<longrightarrow> set (buckets t1) = {empty_bucket}"
    then have fresh: "num_items t1 \<noteq> 0 \<or> set (buckets t1) = {empty_bucket}" by blast
    have tb: "table_ok (u_mem d1) t1 (set ys)" "u_mem d1 a = Some h2" using st(3,6) h2(1) by simp_all
    from HASH_ADD_TO_BKT_ok [of d1 t1 "set ys" A a h2, OF st(2) tb(1) A fresh a(1) tb(2)] show ?thesis
    proof (elim disjE exE conjE)
      assume "HASH_ADD_TO_BKT A (HASH_TO_BKT (h_hashv h2) (num_buckets t1)) a d1 = Some (Inl (- 1))"
      then show ?thesis using st(1,2) h2(2) by (simp add: e)
    next
      fix t2 m3
      assume r: "HASH_ADD_TO_BKT A (HASH_TO_BKT (h_hashv h2) (num_buckets t1)) a d1 = Some (Inr (d1\<lparr>u_tbl := Some t2, u_mem := m3\<rparr>))"
        "table_ok m3 t2 (insert a (set ys))" "num_items t2 = num_items t1" "t_tail t2 = t_tail t1" "fld app_part m3 = fld app_part (u_mem d1)"
      define d' where "d' = d1\<lparr>u_tbl := Some (t2\<lparr>num_items := num_items t2 + 1\<rparr>), u_mem := m3\<rparr>"
      have "hsel_item A cond src a (d, prev_of None ys) = Some (Inr (d', Some a))"
        using st(1,2) h2(2) r(1) by (simp add: e d'_def)
      moreover have "sel_ok d' (ys @ [a])"
        using r(2-4) st(3-5,7) seg app_same(1,2) [OF r(5)] table_ok_cong [of "t2\<lparr>num_items := num_items t2 + 1\<rparr>" t2 m3]
        by (simp add: sel_ok_def d'_def add.commute)
      moreover have "copied src d d' {a}"
        using app_same(3) [OF r(5)] st(3) k2 by (simp add: copied_def keys_of_def d'_def)
      ultimately show ?thesis by blast
    qed
  qed (simp add: e)
qed
lemma copied_trans:
  "copied src d1 d2 S \<Longrightarrow> copied src d2 d3 T \<Longrightarrow> copied src d1 d3 (S \<union> T)"
  by (auto simp: copied_def)

lemma copied_none: "copied src d d {}"
  by (simp add: copied_def)

text \<open>What a part of the selection, the elements zs in the order of their buckets, yields.\<close>

definition sel_result :: "(addr \<Rightarrow> bool) \<Rightarrow> uthash \<Rightarrow> uthash \<Rightarrow> addr list \<Rightarrow> addr list \<Rightarrow> (int + uthash \<times> addr option) option \<Rightarrow> bool" where
  "sel_result cond src d ys zs r \<longleftrightarrow> r = Some (Inl (- 1)) \<or>
     (\<exists>d'. r = Some (Inr (d', prev_of None (ys @ filter cond zs))) \<and> sel_ok d' (ys @ filter cond zs) \<and>
        copied src d d' (set (filter cond zs)))"

lemma sel_result_append:
  assumes "sel_result cond src d ys zs r" "length (ys @ zs @ zs') < 2 ^ 32"
    and "\<And>d'. sel_ok d' (ys @ filter cond zs) \<Longrightarrow> copied src d d' (set (filter cond zs)) \<Longrightarrow>
      sel_result cond src d' (ys @ filter cond zs) zs' (f (d', prev_of None (ys @ filter cond zs)))"
  shows "sel_result cond src d ys (zs @ zs') (and_then r f)"
  using assms(1) unfolding sel_result_def [of cond src d ys zs]
proof (elim disjE exE conjE)
  fix d'
  assume d': "r = Some (Inr (d', prev_of None (ys @ filter cond zs)))" "sel_ok d' (ys @ filter cond zs)"
    "copied src d d' (set (filter cond zs))"
  from assms(3) [OF d'(2,3)] copied_trans [OF d'(3)] show ?thesis
    unfolding sel_result_def d'(1) by auto
qed (simp add: sel_result_def)

lemma hsel_item_result:
  assumes d: "sel_ok d ys" and a: "a \<notin> set ys" "keys_of d a \<noteq> None" "keys_of src a \<noteq> None"
    and len: "Suc (length ys) < 2 ^ 32" and A: "\<not> A (2 ^ 36)"
  shows "sel_result cond src d ys [a] (hsel_item A cond src a (d, prev_of None ys))"
proof -
  from a(2,3) obtain h s where h: "u_mem d a = Some h" "u_mem src a = Some s" by (auto simp: keys_of_def fld_def)
  show ?thesis
  proof (cases "cond a")
    case True
    from hsel_item_ok [of d ys a h src s A cond, OF d a(1) h len A True] True show ?thesis
      by (auto simp: sel_result_def prev_of_def)
  next
    case False
    with h d show ?thesis by (simp add: sel_result_def hsel_item_def copied_none)
  qed
qed

lemma hsel_chain_ok:
  assumes "sel_ok d ys" "chain (fld hh_next (u_mem src)) p zs" "set ys \<inter> set zs = {}" "distinct zs"
    and "\<And>a. a \<in> set zs \<Longrightarrow> keys_of d a \<noteq> None" "length (ys @ zs) < 2 ^ 32" "\<not> A (2 ^ 36)"
  shows "sel_result cond src d ys zs (hsel_chain A cond src p (d, prev_of None ys))"
  using assms
proof (induction zs arbitrary: d ys p)
  case Nil
  then show ?case by (simp add: hsel_chain.simps sel_result_def copied_none)
next
  case (Cons a zs)
  from chain_ConsD [OF Cons.prems(2)] obtain s where s: "p = Some a" "u_mem src a = Some s" "chain (fld hh_next (u_mem src)) (hh_next s) zs"
    by blast
  have it: "sel_result cond src d ys [a] (hsel_item A cond src a (d, prev_of None ys))"
    by (rule hsel_item_result) (use Cons.prems s(2) in \<open>auto simp: keys_of_def fld_def [of _ "u_mem src"]\<close>)
  have "hsel_chain A cond src p (d, prev_of None ys) =
      and_then (hsel_item A cond src a (d, prev_of None ys)) (\<lambda>s1. hsel_chain A cond src (hh_next s) s1)"
    using s(1,2) by (subst hsel_chain.simps) (simp add: and_then_def split: option.splits sum.splits)
  moreover have "sel_result cond src d ys ([a] @ zs)
      (and_then (hsel_item A cond src a (d, prev_of None ys)) (\<lambda>s1. hsel_chain A cond src (hh_next s) s1))"
  proof (rule sel_result_append [OF it])
    fix d'
    assume d': "sel_ok d' (ys @ filter cond [a])" "copied src d d' (set (filter cond [a]))"
    show "sel_result cond src d' (ys @ filter cond [a]) zs (hsel_chain A cond src (hh_next s) (d', prev_of None (ys @ filter cond [a])))"
    proof (rule Cons.IH [OF d'(1) s(3) _ _ _ _ Cons.prems(7)])
      show "keys_of d' b \<noteq> None" if "b \<in> set zs" for b
        using that d'(2) Cons.prems(4,5) by (auto simp: copied_def split: if_splits)
    qed (use Cons.prems in \<open>auto split: if_splits\<close>)
  qed (use Cons.prems(6) in simp)
  ultimately show ?case by simp
qed

lemma hsel_loop_ok:
  assumes "sel_ok d ys" "length bs = length Bs"
    and "\<And>i. i < length bs \<Longrightarrow> chain (fld hh_next (u_mem src)) (hh_head (bs ! i)) (Bs ! i)"
    and "set ys \<inter> set (concat Bs) = {}" "distinct (concat Bs)"
    and "\<And>a. a \<in> set (concat Bs) \<Longrightarrow> keys_of d a \<noteq> None" "length (ys @ concat Bs) < 2 ^ 32" "\<not> A (2 ^ 36)"
  shows "sel_result cond src d ys (concat Bs) (hsel_loop A cond src bs (d, prev_of None ys))"
  using assms(2,1,3-8)
proof (induction bs Bs arbitrary: d ys rule: list_induct2)
  case Nil
  then show ?case by (simp add: sel_result_def copied_none)
next
  case (Cons b bs B Bs)
  have ch: "chain (fld hh_next (u_mem src)) (hh_head b) B" using Cons.prems(2) [of 0] by simp
  have it: "sel_result cond src d ys B (hsel_chain A cond src (hh_head b) (d, prev_of None ys))"
    by (rule hsel_chain_ok [OF Cons.prems(1) ch]) (use Cons.prems in auto)
  have "sel_result cond src d ys (B @ concat Bs)
      (and_then (hsel_chain A cond src (hh_head b) (d, prev_of None ys)) (hsel_loop A cond src bs))"
  proof (rule sel_result_append [OF it])
    fix d'
    assume d': "sel_ok d' (ys @ filter cond B)" "copied src d d' (set (filter cond B))"
    show "sel_result cond src d' (ys @ filter cond B) (concat Bs) (hsel_loop A cond src bs (d', prev_of None (ys @ filter cond B)))"
    proof (rule Cons.IH [OF d'(1) _ _ _ _ _ Cons.prems(7)])
      show "chain (fld hh_next (u_mem src)) (hh_head (bs ! i)) (Bs ! i)" if "i < length bs" for i
        using Cons.prems(2) [of "Suc i"] that by simp
      show "keys_of d' a \<noteq> None" if "a \<in> set (concat Bs)" for a
        using that d'(2) Cons.prems(4,5) by (auto simp: copied_def split: if_splits)
      show "length ((ys @ filter cond B) @ concat Bs) < 2 ^ 32"
        using Cons.prems(6) length_filter_le [of cond B] unfolding concat.simps length_append by linarith
      show "set (ys @ filter cond B) \<inter> set (concat Bs) = {}" "distinct (concat Bs)"
        using Cons.prems(3,4) by auto
    qed
  qed (use Cons.prems(6) in simp)
  then show ?case by simp
qed

text \<open>
  Selecting from a table into an empty one: the elements that satisfy the condition, in the order
  of the source's buckets, each with the key it has in the source.
\<close>

lemma HASH_SELECT_ok:
  assumes src: "uth_ok src xs" and d: "u_head d = None" and m: "\<And>a. a \<in> set xs \<Longrightarrow> keys_of d a \<noteq> None"
    and len: "length xs < 2 ^ 32" and A: "\<not> A (2 ^ 36)"
  shows "HASH_SELECT A cond src d = Some (Inl (- 1)) \<or>
    (\<exists>d' ys. HASH_SELECT A cond src d = Some (Inr d') \<and> distinct ys \<and> set ys = set (filter cond xs) \<and> sel_ok d' ys \<and>
       copied src d d' (set ys))"
proof (cases "xs = []")
  case True
  with src d show ?thesis by (auto simp: uth_ok_def HASH_SELECT_def sel_ok_def copied_none)
next
  case False
  with src obtain t where t: "u_tbl src = Some t" "app_ok (u_mem src) (u_head src) (t_tail t) xs" "table_ok (u_mem src) t (set xs)"
    by (auto simp: uth_ok_def)
  then have hd': "u_head src \<noteq> None" using False by (cases xs) (auto simp: app_ok_def)
  from t(3) obtain l Bs where bk: "buckets_ok (u_mem src) (num_buckets t) (buckets t) Bs" "set (concat Bs) = set xs"
    by (elim table_ok_D)
  have dis: "distinct (concat Bs)" by (rule concat_distinct [OF bk(1)])
  have "length (concat Bs) = card (set xs)" using distinct_card [OF dis] bk(2) by simp
  then have ln: "length ([] @ concat Bs) < 2 ^ 32" using len card_length [of xs] by simp
  have "sel_ok d []" using d by (simp add: sel_ok_def)
  then have "sel_result cond src d [] (concat Bs) (hsel_loop A cond src (buckets t) (d, prev_of None []))"
  proof (rule hsel_loop_ok [where A = A and Bs = Bs and ys = "[]", OF _ _ _ _ dis _ ln A])
    show "length (buckets t) = length Bs" using bk(1) by (simp add: buckets_ok_def)
    show "chain (fld hh_next (u_mem src)) (hh_head (buckets t ! i)) (Bs ! i)" if "i < length (buckets t)" for i
      using bk(1) that dseg_chain by (fastforce simp: buckets_ok_def bucket_ok_def)
    show "keys_of d a \<noteq> None" if "a \<in> set (concat Bs)" for a
      using that unfolding bk(2) by (rule m)
  qed simp
  moreover have "HASH_SELECT A cond src d = and_then (hsel_loop A cond src (buckets t) (d, prev_of None [])) (\<lambda>s. Some (Inr (fst s)))"
    using hd' t(1) by (auto simp: HASH_SELECT_def prev_of_def)
  moreover have "distinct (filter cond (concat Bs))" "set (filter cond (concat Bs)) = set (filter cond xs)"
    using dis bk(2) by (simp_all del: set_concat)
  ultimately show ?thesis unfolding sel_result_def by (metis (no_types, lifting) and_then_simps(2,3) append_Nil fst_conv)
qed

text \<open>
  The next element is appended behind the first one, because that is the tail; the elements after
  it fall out of the application order, and the integrity check of the table sees it.
\<close>

lemma add_after_select:
  assumes d: "sel_ok d (y # ys)" "ys \<noteq> []" and a: "a \<notin> set (y # ys)" "u_mem d a = Some h"
    and len: "Suc (length (y # ys)) < 2 ^ 32" and A: "\<not> A (2 ^ 36)"
  shows "HASH_ADD_KEYPTR_BYHASHVALUE A k hv a d = Some (Inl (- 1)) \<or>
    (\<exists>u'. HASH_ADD_KEYPTR_BYHASHVALUE A k hv a d = Some (Inr u') \<and>
       chain (fld h_next (u_mem u')) (u_head u') [y, a] \<and> HASH_FSCK u' = Some False)"
proof -
  from d obtain t where t: "u_tbl d = Some t" "u_head d = Some y" "t_tail t = y" "table_ok (u_mem d) t (set (y # ys))"
    "num_items t = of_nat (length (y # ys))"
    and ds: "dseg (fld h_next (u_mem d)) (fld h_prev (u_mem d)) None (Some y) (y # ys) None (Some (last (y # ys)))"
    by (auto simp: sel_ok_def)
  have dis: "distinct (y # ys)" using dseg_distinct [OF ds] .
  obtain hy where hy: "u_mem d y = Some hy" "h_prev hy = None" using ds by (auto simp: fld_def [of _ "u_mem d" y])
  from ha_set_key_ok [of d a h k hv, OF a(2)] obtain m1 h1 where
    m1: "ha_set_key k hv a d = Some (d\<lparr>u_mem := m1\<rparr>)" "m1 a = Some h1" "\<And>x. x \<noteq> a \<Longrightarrow> m1 x = u_mem d x"
      "fld key_part m1 = (keys_of d)(a \<mapsto> (k, of_nat (length k), hv))" by blast
  have ya: "y \<noteq> a" using a(1) by auto
  define m2 where "m2 = m1(a \<mapsto> h1\<lparr>h_next := None, h_prev := Some y\<rparr>, y \<mapsto> hy\<lparr>h_next := Some a\<rparr>)"
  define u2 where "u2 = d\<lparr>u_mem := m2, u_tbl := Some (t\<lparr>t_tail := a, num_items := num_items t + 1\<rparr>)\<rparr>"
  have "HASH_APPEND_LIST a (d\<lparr>u_mem := m1\<rparr>) = Some (d\<lparr>u_tbl := Some (t\<lparr>t_tail := a\<rparr>), u_mem := m2\<rparr>)"
    using t(1,3) m1(2,3) hy(1) ya by (simp add: HASH_APPEND_LIST_def h_upd_def m2_def)
  then have e: "HASH_ADD_KEYPTR_BYHASHVALUE A k hv a d = HASH_ADD_TO_BKT A (HASH_TO_BKT hv (num_buckets t)) a u2"
    using t(2) m1(1) by (simp add: HASH_ADD_KEYPTR_BYHASHVALUE_def ha_to_bucket_def u2_def)
  have bp: "fld bkt_part m2 = fld bkt_part m1"
    using m1(2,3) hy(1) ya by (auto simp: m2_def fld_def fun_eq_iff bkt_part_def key_part_def)
  have fr: "m1 x = u_mem d x" if "x \<in> set (y # ys)" for x using that a(1) m1(3) by metis
  have "table_ok m1 t (set (y # ys))" by (rule iffD2 [OF table_ok_frame t(4)]) (rule fr)
  then have tb: "u_tbl u2 = Some (t\<lparr>t_tail := a, num_items := num_items t + 1\<rparr>)"
    "table_ok (u_mem u2) (t\<lparr>t_tail := a, num_items := num_items t + 1\<rparr>) (set (y # ys))"
    using table_ok_same [OF bp] table_ok_cong [of "t\<lparr>t_tail := a, num_items := num_items t + 1\<rparr>" t] by (simp_all add: u2_def)
  have big: "of_nat (Suc (length (y # ys))) \<noteq> (2 :: u32)" "of_nat (Suc (length (y # ys))) \<noteq> (0 :: u32)"
  proof -
    have "unat (of_nat (Suc (length (y # ys))) :: u32) = Suc (length (y # ys))" using len by (simp only: unat_of_nat) simp
    moreover have "Suc (length (y # ys)) > 2" using d(2) by (cases ys) auto
    ultimately have "unat (of_nat (Suc (length (y # ys))) :: u32) \<noteq> unat (2 :: u32)"
      "unat (of_nat (Suc (length (y # ys))) :: u32) \<noteq> unat (0 :: u32)" by simp_all
    then show "of_nat (Suc (length (y # ys))) \<noteq> (2 :: u32)" "of_nat (Suc (length (y # ys))) \<noteq> (0 :: u32)"
      by metis+
  qed
  have ni: "num_items t + 1 = of_nat (Suc (length (y # ys)))" using t(5) by (simp add: add.commute)
  have ne: "num_items (t\<lparr>t_tail := a, num_items := num_items t + 1\<rparr>) \<noteq> 0 \<or>
      set (buckets (t\<lparr>t_tail := a, num_items := num_items t + 1\<rparr>)) = {empty_bucket}"
    using big(2) ni by (simp del: of_nat_Suc)
  define h2 where "h2 = h1\<lparr>h_next := None, h_prev := Some y\<rparr>"
  have h2: "u_mem u2 a = Some h2" using ya by (simp add: u2_def m2_def h2_def)
  have "fld key_part m1 a = Some (k, of_nat (length k), hv)" using m1(4) by simp
  then have hv: "h_hashv h2 = hv" using m1(2) by (simp add: fld_def key_part_def h2_def)
  from HASH_ADD_TO_BKT_ok [of u2 "t\<lparr>t_tail := a, num_items := num_items t + 1\<rparr>" "set (y # ys)" A a h2, OF tb A ne a(1) h2] show ?thesis
  proof (elim disjE exE conjE)
    fix t' m'
    assume r: "HASH_ADD_TO_BKT A (HASH_TO_BKT (h_hashv h2) (num_buckets (t\<lparr>t_tail := a, num_items := num_items t + 1\<rparr>))) a u2 =
        Some (Inr (u2\<lparr>u_tbl := Some t', u_mem := m'\<rparr>))" "table_ok m' t' (insert a (set (y # ys)))"
      "num_items t' = num_items (t\<lparr>t_tail := a, num_items := num_items t + 1\<rparr>)" "fld app_part m' = fld app_part (u_mem u2)"
    define u' where "u' = u2\<lparr>u_tbl := Some t', u_mem := m'\<rparr>"
    have seg: "dseg (fld h_next m') (fld h_prev m') None (Some y) [y, a] None (Some a)"
      using app_same(1,2) [OF r(4)] ya hy(2) by (simp add: u2_def m2_def)
    have "card (insert a (set (y # ys))) = Suc (length (y # ys))"
      using a(1) distinct_card [OF dis] by (simp del: set_simps)
    then have "fsck_buckets m' (take (unat (num_buckets t')) (buckets t')) 0 = Some (Some (num_items t'))"
      using fsck_buckets_table [OF r(2)] r(3) ni by simp
    moreover have "fsck_app m' (Some y) None 0 = Some (Some 2)" using fsck_app_ok [OF seg, of 0] by simp
    moreover have "num_items t' \<noteq> 2" using r(3) ni big(1) by simp
    ultimately have "HASH_FSCK u' = Some False" using t(2) by (auto simp: HASH_FSCK_def u'_def u2_def)
    moreover have "chain (fld h_next (u_mem u')) (u_head u') [y, a]" using dseg_chain [OF seg] t(2) by (simp add: u'_def u2_def)
    ultimately show ?thesis using r(1) hv by (auto simp: e u'_def)
  qed (simp add: e hv)
qed

subsection \<open>A table in a program's memory\<close>

text \<open>
  Blocks that a program allocates and frees beside the elements of a table do not touch it; a walk
  starts at the first element and follows the chain.
\<close>

lemma le_bytes_inj: "le_bytes v = le_bytes w \<longleftrightarrow> v = w"
  by (metis le_word_bytes)

lemma uth_map_frame:
  assumes "uth_map F u xs f" "\<And>a. a \<in> set xs \<Longrightarrow> m a = u_mem u a"
  shows "uth_map F (u\<lparr>u_mem := m\<rparr>) xs f"
proof -
  have "uth_ok (u\<lparr>u_mem := m\<rparr>) xs"
    using assms(1) app_ok_frame [of xs m "u_mem u"] table_ok_frame [of "set xs" m "u_mem u"] assms(2)
    by (simp add: uth_map_def uth_ok_def split: if_splits)
  moreover have "keyed m k v a = keyed (u_mem u) k v a" if "a \<in> set xs" for k v a
    using assms(2) [OF that] by (simp add: keyed_def fld_def)
  ultimately show ?thesis using assms(1) ranI by (fastforce simp: uth_map_def)
qed

definition first_of :: "addr list \<Rightarrow> addr option" where
  "first_of xs = (case xs of [] \<Rightarrow> None | a # _ \<Rightarrow> Some a)"

lemma first_of_simps [simp]: "first_of [] = None" "first_of (a # xs) = Some a"
  by (simp_all add: first_of_def)

lemma chain_first: "chain nxt p xs \<Longrightarrow> p = first_of xs"
  by (cases xs) (auto split: option.splits)

lemma uth_map_chain:
  assumes m: "uth_map F u xs f"
  shows "u_head u = first_of xs" "chain (fld h_next (u_mem u)) (first_of xs) xs"
proof -
  have l: "listed u xs" using m by (intro uth_listed) (simp add: uth_map_def)
  show h: "u_head u = first_of xs"
  proof (cases xs)
    case Nil
    then show ?thesis using l by (simp add: listed_def)
  next
    case (Cons a ys)
    then show ?thesis using l by (elim listed_D) simp_all
  qed
  show "chain (fld h_next (u_mem u)) (first_of xs) xs"
  proof (cases "xs = []")
    case False
    then obtain t where "dseg (fld h_next (u_mem u)) (fld h_prev (u_mem u)) None (u_head u) xs None (Some (last xs))"
      using l by (elim listed_D)
    from dseg_chain [OF this] h show ?thesis by simp
  qed simp
qed

subsection \<open>Programs that use a table\<close>

text \<open>
  The tables that a program can build, with the map each one stands for, as long as it adds an
  element only under a new key, hands in handles that exist and are not in the table, and compares
  with a function that is defined on its elements.
\<close>

inductive hash_reach :: "grants \<Rightarrow> uthash \<Rightarrow> (byte list \<rightharpoonup> addr) \<Rightarrow> bool" for A where
  empty: "u_head u = None \<Longrightarrow> hash_reach A u Map.empty"
| add: "hash_reach A u f \<Longrightarrow> f k = None \<Longrightarrow> a \<notin> ran f \<Longrightarrow> u_mem u a \<noteq> None \<Longrightarrow> Suc (card (dom f)) < 2 ^ 32 \<Longrightarrow>
    HASH_ADD A k a u = Some (Inr u') \<Longrightarrow> hash_reach A u' (f(k \<mapsto> a))"
| add_inorder: "hash_reach A u f \<Longrightarrow> f k = None \<Longrightarrow> a \<notin> ran f \<Longrightarrow> u_mem u a \<noteq> None \<Longrightarrow> Suc (card (dom f)) < 2 ^ 32 \<Longrightarrow>
    (\<forall>x \<in> ran f. cmp x a \<noteq> None) \<Longrightarrow> HASH_ADD_INORDER A k a cmp u = Some (Inr u') \<Longrightarrow> hash_reach A u' (f(k \<mapsto> a))"
| replace: "hash_reach A u f \<Longrightarrow> a \<notin> ran f \<Longrightarrow> u_mem u a \<noteq> None \<Longrightarrow> Suc (card (dom f)) < 2 ^ 32 \<Longrightarrow>
    HASH_REPLACE A k a u = Some (Inr (r, u')) \<Longrightarrow> hash_reach A u' (f(k \<mapsto> a))"
| delete: "hash_reach A u f \<Longrightarrow> f k = Some d \<Longrightarrow> HASH_DELETE d u = Some u' \<Longrightarrow> hash_reach A u' (f(k := None))"
| sort: "hash_reach A u f \<Longrightarrow> card (dom f) \<le> 2 ^ 31 \<Longrightarrow> (\<forall>x \<in> ran f. \<forall>y \<in> ran f. cmp x y \<noteq> None) \<Longrightarrow>
    HASH_SRT cmp u = Some u' \<Longrightarrow> hash_reach A u' f"
| clear: "hash_reach A u f \<Longrightarrow> HASH_CLEAR u = Some u' \<Longrightarrow> hash_reach A u' Map.empty"

lemma uth_map_card:
  assumes m: "uth_map F u xs f"
  shows "card (dom f) = length xs" "distinct xs"
proof -
  have u: "uth_ok u xs" and ran: "ran f = set xs" using m by (simp_all add: uth_map_def)
  show d: "distinct xs"
  proof (cases "xs = []")
    case False
    with u show ?thesis unfolding uth_ok_def app_ok_def using dseg_distinct by (metis (no_types, lifting))
  qed simp
  have "inj_on f (dom f)" using uth_map_inj [OF m] unfolding inj_on_def by (metis domD)
  then have "card (dom f) = card (f ` dom f)" by (simp add: card_image)
  also have "f ` dom f = Some ` ran f" by (auto simp: ran_def dom_def image_def)
  also have "card \<dots> = card (ran f)" by (simp add: card_image)
  finally show "card (dom f) = length xs" using ran distinct_card [OF d] by simp
qed

lemma uth_map_same_keys:
  "uth_map F u xs f \<Longrightarrow> uth_ok u' xs' \<Longrightarrow> set xs' = set xs \<Longrightarrow> keys_of u' = keys_of u \<Longrightarrow> uth_map F u' xs' f"
  by (simp add: uth_map_def keyed_keys_of)

lemma HASH_SRT_map:
  assumes m: "uth_map F u xs f" and len: "length xs \<le> 2 ^ 31" and cmp: "\<forall>x \<in> ran f. \<forall>y \<in> ran f. cmp x y \<noteq> None"
  shows "\<exists>u'. HASH_SRT cmp u = Some u' \<and> uth_map F u' (bsort (\<lambda>x y. the (cmp x y) \<le> 0) 1 xs) f"
proof -
  have u: "uth_ok u xs" and ran: "ran f = set xs" using m by (simp_all add: uth_map_def)
  have "hs.ordered cmp (u_mem u) (\<lambda>x y. the (cmp x y) \<le> 0) (set xs)"
    using cmp ran unfolding hs.ordered_def by fastforce
  from HASH_SRT_ok [of u xs cmp, OF u this len] uth_map_same_keys [OF m] show ?thesis by fastforce
qed

lemma HASH_ADD_INORDER_map:
  assumes m: "uth_map F u xs f" and k: "f k = None" and a: "a \<notin> set xs" "u_mem u a = Some h"
    and len: "Suc (length xs) < 2 ^ 32" and A: "\<not> A (2 ^ 36)" and cmp: "\<forall>x \<in> ran f. cmp x a \<noteq> None"
  shows "HASH_ADD_KEYPTR_BYHASHVALUE_INORDER A k (F k) a cmp u = Some (Inl (- 1)) \<or>
    (\<exists>u'. HASH_ADD_KEYPTR_BYHASHVALUE_INORDER A k (F k) a cmp u = Some (Inr u') \<and>
       uth_map F u' (put_in_order (\<lambda>x. the (cmp x a)) a xs) (f(k \<mapsto> a)))"
proof -
  have u: "uth_ok u xs" and ran: "ran f = set xs" using m by (simp_all add: uth_map_def)
  have c: "cmp x a = Some (the (cmp x a))" if "x \<in> set xs" for x using cmp ran that by auto
  from HASH_ADD_INORDER_ok [of u xs a h A cmp "\<lambda>x. the (cmp x a)" k "F k", OF u a len A c] uth_map_add [OF m k a(1)]
  show ?thesis by auto
qed

lemma hash_reach_map:
  assumes "hash_reach A u f" and A: "\<not> A (2 ^ 36)"
  shows "\<exists>xs. uth_map HASH_VALUE u xs f"
  using assms(1)
proof (induction rule: hash_reach.induct)
  case (empty u)
  then show ?case using uth_map_empty by blast
next
  case (add u f k a u')
  then obtain xs h where m: "uth_map HASH_VALUE u xs f" "u_mem u a = Some h" by auto
  then have a: "a \<notin> set xs" "Suc (length xs) < 2 ^ 32" using add.hyps uth_map_card [OF m(1)] by (auto simp: uth_map_def)
  from HASH_ADD_map [of HASH_VALUE u xs f k a h A, OF m(1) add.hyps(2) a(1) m(2) a(2) A] add.hyps(6) show ?case
    unfolding HASH_ADD_def by (metis Inr_inject Inl_Inr_False option.inject)
next
  case (add_inorder u f k a cmp u')
  then obtain xs h where m: "uth_map HASH_VALUE u xs f" "u_mem u a = Some h" by auto
  then have a: "a \<notin> set xs" "Suc (length xs) < 2 ^ 32" using add_inorder.hyps uth_map_card [OF m(1)] by (auto simp: uth_map_def)
  from HASH_ADD_INORDER_map [of HASH_VALUE u xs f k a h A cmp, OF m(1) add_inorder.hyps(2) a(1) m(2) a(2) A add_inorder.hyps(6)]
    add_inorder.hyps(7) show ?case
    unfolding HASH_ADD_INORDER_def by (metis Inr_inject Inl_Inr_False option.inject)
next
  case (replace u f a k r u')
  then obtain xs h where m: "uth_map HASH_VALUE u xs f" "u_mem u a = Some h" by auto
  then have a: "a \<notin> set xs" "Suc (length xs) < 2 ^ 32" using replace.hyps uth_map_card [OF m(1)] by (auto simp: uth_map_def)
  from HASH_REPLACE_map [of HASH_VALUE u xs f a h A k, OF m(1) a(1) m(2) a(2) A] replace.hyps(5) show ?case
    unfolding HASH_REPLACE_def by (metis Inr_inject Inl_Inr_False option.inject prod.inject)
next
  case (delete u f k d u')
  then show ?case using HASH_DELETE_map [of HASH_VALUE u _ f k d] by (metis option.inject)
next
  case (sort u f cmp u')
  then obtain xs where m: "uth_map HASH_VALUE u xs f" by blast
  with HASH_SRT_map [of HASH_VALUE u xs f cmp] sort.hyps uth_map_card [OF m] show ?case by auto
next
  case (clear u f u')
  then obtain xs where "uth_map HASH_VALUE u xs f" by blast
  then have "uth_ok u xs" by (simp add: uth_map_def)
  from HASH_CLEAR_ok [OF this] clear.hyps(2) have "uth_ok u' []" by auto
  then show ?case by (auto simp: uth_map_def)
qed

text \<open>The length of a table's list and what it lists, for the operations below.\<close>

lemma hash_reach_add:
  assumes r: "hash_reach A u f" and A: "\<not> A (2 ^ 36)" and k: "f k = None" and a: "a \<notin> ran f" "u_mem u a \<noteq> None"
    and n: "Suc (card (dom f)) < 2 ^ 32"
  shows "HASH_ADD A k a u = Some (Inl (- 1)) \<or> (\<exists>u'. HASH_ADD A k a u = Some (Inr u') \<and> hash_reach A u' (f(k \<mapsto> a)))"
proof -
  from hash_reach_map [OF r A] obtain xs where m: "uth_map HASH_VALUE u xs f" by blast
  obtain h where h: "u_mem u a = Some h" using a(2) by auto
  have b: "a \<notin> set xs" "Suc (length xs) < 2 ^ 32" using a(1) n uth_map_card [OF m] m by (auto simp: uth_map_def)
  from HASH_ADD_map [of HASH_VALUE u xs f k a h A, OF m k b(1) h b(2) A] hash_reach.add [OF r k a n] show ?thesis
    unfolding HASH_ADD_def by blast
qed


lemma hash_reach_delete:
  assumes r: "hash_reach A u f" and A: "\<not> A (2 ^ 36)" and k: "f k = Some d"
  shows "\<exists>u'. HASH_DELETE d u = Some u' \<and> hash_reach A u' (f(k := None))"
proof -
  from hash_reach_map [OF r A] obtain xs where "uth_map HASH_VALUE u xs f" by blast
  from HASH_DELETE_map [OF this k] hash_reach.delete [OF r k] show ?thesis by blast
qed

lemma hash_reach_find: "hash_reach A u f \<Longrightarrow> \<not> A (2 ^ 36) \<Longrightarrow> HASH_FIND k u = Some (f k)"
  using hash_reach_map HASH_FIND_map unfolding HASH_FIND_def by blast

text \<open>
  C22: In every state that a program can bring a table into, whatever it adds, adds in order,
  replaces, deletes, sorts and clears, with any growing in between, the table passes its own
  integrity check, counts its elements, and finds for each key exactly the element that was put
  in for it.
\<close>

theorem hash_table_invariant:
  assumes "hash_reach A u f" "\<not> A (2 ^ 36)"
  shows "HASH_FSCK u = Some True \<and> HASH_COUNT u = Some (of_nat (card (dom f))) \<and> (\<forall>k. HASH_FIND k u = Some (f k))"
proof -
  from hash_reach_map [OF assms] obtain xs where m: "uth_map HASH_VALUE u xs f" by blast
  then have u: "listed u xs" using uth_listed by (simp add: uth_map_def)
  from HASH_FSCK_ok [OF u] HASH_COUNT_ok [OF u] uth_map_card [OF m] hash_reach_find [OF assms] show ?thesis by simp
qed

definition new_handle :: ut_handle where
  "new_handle = \<lparr>h_prev = None, h_next = None, hh_prev = None, hh_next = None, h_key = [], h_keylen = 0, h_hashv = 0\<rparr>"

definition small_table :: uthash where
  "small_table = \<lparr>u_head = None, u_tbl = None, u_mem = (\<lambda>a. if a < 10 then Some new_handle else None)\<rparr>"

definition small_grants :: grants where
  "small_grants n = (n < 100000)"

text \<open>A table with few elements in each bucket takes another one.\<close>

definition few_items :: "nat \<Rightarrow> uthash \<Rightarrow> bool" where
  "few_items n u \<longleftrightarrow> (u_head u \<noteq> None \<longrightarrow> (\<exists>t. u_tbl u = Some t \<and> few n (buckets t)))"

lemma ha_to_bucket_few:
  assumes "u_tbl u = Some t" "few n (buckets t)" "n < 9" "ha_to_bucket A hv a u = Some r"
  shows "\<exists>u'. r = Inr u' \<and> few_items (Suc n) u'"
proof -
  have "HASH_ADD_TO_BKT A (HASH_TO_BKT hv (num_buckets t)) a (u\<lparr>u_tbl := Some (t\<lparr>num_items := num_items t + 1\<rparr>)\<rparr>) = Some r"
    using assms(1,4) by (simp add: ha_to_bucket_def)
  from HASH_ADD_TO_BKT_few [OF _ _ assms(3) this] assms(2) show ?thesis by (auto simp: few_items_def)
qed

lemma HASH_ADD_few:
  assumes u: "few_items n u" "n < 9" and A: "A 64" "A 512" and r: "HASH_ADD A k a u = Some r"
  shows "\<exists>u'. r = Inr u' \<and> few_items (Suc n) u'"
proof -
  from r obtain u1 where u1: "ha_set_key k (HASH_VALUE k) a u = Some u1"
    "and_then (if u_head u = None then ha_first A a u1 else map_option Inr (HASH_APPEND_LIST a u1)) (ha_to_bucket A (HASH_VALUE k) a) = Some r"
    by (auto simp: HASH_ADD_def HASH_ADD_KEYPTR_BYHASHVALUE_def bind_Some_iff)
  have same: "u_tbl u1 = u_tbl u" using u1(1) by (auto simp: ha_set_key_def bind_Some_iff)
  obtain u2 t2 where "u_tbl u2 = Some t2" "few n (buckets t2)" "ha_to_bucket A (HASH_VALUE k) a u2 = Some r"
  proof (cases "u_head u = None")
    case True
    with u1(2) obtain m where m: "h_upd a (\<lambda>h. h\<lparr>h_next := None, h_prev := None\<rparr>) (u_mem u1) = Some m"
      by (cases "h_upd a (\<lambda>h. h\<lparr>h_next := None, h_prev := None\<rparr>) (u_mem u1)") (auto simp: ha_first_def)
    define t where "t = \<lparr>buckets = replicate (unat HASH_INITIAL_NUM_BUCKETS) empty_bucket,
      num_buckets = HASH_INITIAL_NUM_BUCKETS, log2_num_buckets = HASH_INITIAL_NUM_BUCKETS_LOG2, num_items = 0,
      t_tail = a, ideal_chain_maxlen = 0, nonideal_items = 0, ineff_expands = 0, noexpand = 0\<rparr>"
    have "ha_first A a u1 = Some (Inr (u1\<lparr>u_head := Some a, u_mem := m, u_tbl := Some t\<rparr>))"
      using A m by (simp add: ha_first_def HASH_MAKE_TABLE_def HASH_INITIAL_NUM_BUCKETS_def t_def)
    moreover have "few n (buckets t)" by (simp add: few_def t_def empty_bucket_def)
    ultimately show ?thesis using u1(2) True that [of "u1\<lparr>u_head := Some a, u_mem := m, u_tbl := Some t\<rparr>" t] by simp
  next
    case False
    with u(1) obtain t where "u_tbl u = Some t" "few n (buckets t)" by (auto simp: few_items_def)
    moreover from this u1(2) same False obtain m where "ha_to_bucket A (HASH_VALUE k) a (u1\<lparr>u_tbl := Some (t\<lparr>t_tail := a\<rparr>), u_mem := m\<rparr>) = Some r"
      by (cases "HASH_APPEND_LIST a u1") (auto simp: HASH_APPEND_LIST_def bind_Some_iff)
    ultimately show ?thesis using that [of "u1\<lparr>u_tbl := Some (t\<lparr>t_tail := a\<rparr>), u_mem := m\<rparr>" "t\<lparr>t_tail := a\<rparr>"] by simp
  qed
  from ha_to_bucket_few [OF this(1,2) u(2) this(3)] show ?thesis .
qed

text \<open>Two elements in a small table.\<close>

lemma small_add:
  assumes r: "hash_reach small_grants u f" and k: "f k = None" "a \<notin> ran f" and m: "keys_of u a \<noteq> None"
    and n: "few_items n u" "n < 9" "Suc (card (dom f)) < 2 ^ 32"
  shows "\<exists>u'. HASH_ADD small_grants k a u = Some (Inr u') \<and> hash_reach small_grants u' (f(k \<mapsto> a)) \<and>
    few_items (Suc n) u' \<and> (\<forall>b. b \<noteq> a \<longrightarrow> keys_of u' b = keys_of u b)"
proof -
  have A: "\<not> small_grants (2 ^ 36)" "small_grants 64" "small_grants 512" by (simp_all add: small_grants_def)
  from hash_reach_map [OF r A(1)] obtain xs where x: "uth_map HASH_VALUE u xs f" by blast
  obtain h where h: "u_mem u a = Some h" using m by (auto simp: keys_of_def fld_def)
  have p: "uth_ok u xs" "a \<notin> set xs" "Suc (length xs) < 2 ^ 32" using x k(2) n(3) uth_map_card [OF x] by (auto simp: uth_map_def)
  have "\<exists>r. HASH_ADD small_grants k a u = Some r \<and>
      (\<forall>u'. r = Inr u' \<longrightarrow> keys_of u' = (keys_of u)(a \<mapsto> (k, of_nat (length k), HASH_VALUE k)))"
    using HASH_ADD_ok [of u xs a h small_grants k "HASH_VALUE k", OF p(1,2) h p(3) A(1)] unfolding HASH_ADD_def by auto
  then obtain u' where u': "HASH_ADD small_grants k a u = Some (Inr u')" "few_items (Suc n) u'"
    "keys_of u' = (keys_of u)(a \<mapsto> (k, of_nat (length k), HASH_VALUE k))"
    using HASH_ADD_few [OF n(1,2) A(2,3)] by blast
  moreover have "hash_reach small_grants u' (f(k \<mapsto> a))"
    by (rule hash_reach.add [OF r k _ n(3) u'(1)]) (use h in simp)
  ultimately show ?thesis by auto
qed

lemma small_start:
  "hash_reach small_grants small_table Map.empty" "few_items 0 small_table" "a < 10 \<Longrightarrow> keys_of small_table a \<noteq> None"
  by (auto intro: hash_reach.empty simp: small_table_def few_items_def keys_of_def fld_def)

lemma small_reach:
  "\<exists>u. hash_reach small_grants u [[1] \<mapsto> 1] \<and> HASH_ADD small_grants [1] 1 small_table = Some (Inr u) \<and> u_mem u 2 \<noteq> None"
proof -
  from small_add [where k = "[1]" and a = 1, OF small_start(1) _ _ _ small_start(2)] small_start(3) [of 1] obtain u where
    u: "HASH_ADD small_grants [1] 1 small_table = Some (Inr u)" "hash_reach small_grants u [[1] \<mapsto> 1]"
      "\<forall>b. b \<noteq> 1 \<longrightarrow> keys_of u b = keys_of small_table b" by auto
  then have "keys_of u 2 \<noteq> None" using small_start(3) [of 2] by simp
  then have "u_mem u 2 \<noteq> None" by (auto simp: keys_of_def fld_def)
  with u show ?thesis by blast
qed

lemma small_reach_two: "\<exists>u. hash_reach small_grants u [[1] \<mapsto> 1, [2] \<mapsto> 2]"
proof -
  from small_add [where k = "[1]" and a = 1, OF small_start(1) _ _ _ small_start(2)] small_start(3) [of 1] obtain u where
    u: "hash_reach small_grants u [[1] \<mapsto> 1]" "few_items 1 u" "\<forall>b. b \<noteq> 1 \<longrightarrow> keys_of u b = keys_of small_table b" by auto
  then have "keys_of u 2 \<noteq> None" using small_start(3) [of 2] by simp
  from small_add [where k = "[2]" and a = 2, OF u(1) _ _ this u(2)] show ?thesis by auto
qed

lemma hash_table_invariant_witness:
  "\<exists>u. HASH_FSCK u = Some True \<and> HASH_COUNT u = Some 1 \<and> HASH_FIND [1] u = Some (Some 1) \<and> HASH_FIND [2] u = Some None"
proof -
  from small_reach obtain u where u: "hash_reach small_grants u [[1] \<mapsto> 1]" by blast
  have A: "\<not> small_grants (2 ^ 36)" by (simp add: small_grants_def)
  from hash_table_invariant [OF u A] show ?thesis by (intro exI [of _ u]) simp
qed

text \<open>
  C23: Adding under a new key and deleting again: in between, the key finds the element and every
  other key what it found before; afterwards every key does.
\<close>

theorem hash_add_delete_find:
  assumes r: "hash_reach A u f" and A: "\<not> A (2 ^ 36)" and "HASH_FIND k u = Some None" "a \<notin> ran f" "u_mem u a \<noteq> None"
    and "Suc (card (dom f)) < 2 ^ 32" "HASH_ADD A k a u = Some (Inr u')"
  shows "HASH_FIND k u' = Some (Some a) \<and> (\<forall>k'. k' \<noteq> k \<longrightarrow> HASH_FIND k' u' = HASH_FIND k' u) \<and>
    (\<exists>u''. HASH_DELETE a u' = Some u'' \<and> (\<forall>k'. HASH_FIND k' u'' = HASH_FIND k' u))"
proof -
  have k: "f k = None" using assms(3) hash_reach_find [of A u f k, OF r A] by simp
  have r': "hash_reach A u' (f(k \<mapsto> a))" by (rule hash_reach.add [OF r k assms(4-7)])
  from hash_reach_delete [of A u' "f(k \<mapsto> a)" k a, OF r' A] obtain u'' where
    d: "HASH_DELETE a u' = Some u''" "hash_reach A u'' ((f(k \<mapsto> a))(k := None))" by auto
  moreover have "(f(k \<mapsto> a))(k := None) = f" using k by auto
  ultimately have "\<forall>k'. HASH_FIND k' u'' = HASH_FIND k' u"
    using hash_reach_find [of A u f, OF r A] hash_reach_find [of A u'' f, OF _ A] by simp
  with d(1) show ?thesis
    using hash_reach_find [of A u f, OF r A] hash_reach_find [of A u' "f(k \<mapsto> a)", OF r' A] by simp
qed

lemma hash_add_delete_find_witness:
  "\<exists>u u''. HASH_ADD small_grants [1] 1 small_table = Some (Inr u) \<and> HASH_FIND [1] u = Some (Some 1) \<and>
     HASH_DELETE 1 u = Some u'' \<and> HASH_FIND [1] u'' = HASH_FIND [1] small_table"
proof -
  from small_reach obtain u where u: "HASH_ADD small_grants [1] 1 small_table = Some (Inr u)" by blast
  have e: "hash_reach small_grants small_table Map.empty" by (rule hash_reach.empty) (simp add: small_table_def)
  have A: "\<not> small_grants (2 ^ 36)" by (simp add: small_grants_def)
  have n: "HASH_FIND [1] small_table = Some None" using hash_reach_find [of small_grants small_table Map.empty, OF e A] by simp
  have "1 \<notin> ran (Map.empty :: byte list \<rightharpoonup> addr)" "u_mem small_table 1 \<noteq> None" "Suc (card (dom (Map.empty :: byte list \<rightharpoonup> addr))) < 2 ^ 32"
    by (simp_all add: small_table_def)
  from hash_add_delete_find [where A = small_grants and u = small_table and f = Map.empty and a = 1 and k = "[1]", OF e A n this u] u
  show ?thesis by auto
qed



text \<open>
  C25: Sorting rearranges what a walk over the table visits into ascending order, elements that
  compare equal in their old order, and changes nothing that a key finds.
\<close>

theorem hash_sort_walk:
  assumes r: "hash_reach A u f" and A: "\<not> A (2 ^ 36)" and n: "card (dom f) \<le> 2 ^ 31"
    and cmp: "\<forall>x \<in> ran f. \<forall>y \<in> ran f. cmp x y = Some (c x y)" and po: "preorder_on_set (\<lambda>x y. c x y \<le> 0) (ran f)"
  shows "\<exists>xs u' ys. hash_items u = Some xs \<and> HASH_SRT cmp u = Some u' \<and> hash_items u' = Some ys \<and>
    mset ys = mset xs \<and> sorted_wrt (\<lambda>x y. c x y \<le> 0) ys \<and>
    (\<forall>a \<in> ran f. filter (\<lambda>x. c x a \<le> 0 \<and> c a x \<le> 0) ys = filter (\<lambda>x. c x a \<le> 0 \<and> c a x \<le> 0) xs) \<and>
    (\<forall>k. HASH_FIND k u' = HASH_FIND k u)"
proof -
  let ?le = "\<lambda>x y. c x y \<le> 0"
  from hash_reach_map [OF r A] obtain xs where m: "uth_map HASH_VALUE u xs f" by blast
  then have u: "uth_ok u xs" and ran: "ran f = set xs" by (simp_all add: uth_map_def)
  have "hs.ordered cmp (u_mem u) ?le (set xs)" using cmp ran unfolding hs.ordered_def by fastforce
  moreover have "length xs \<le> 2 ^ 31" using n uth_map_card [OF m] by simp
  ultimately obtain u' where s: "HASH_SRT cmp u = Some u'" "uth_ok u' (bsort ?le 1 xs)" "keys_of u' = keys_of u"
    using HASH_SRT_ok [of u xs cmp ?le, OF u] by blast
  have m': "uth_map HASH_VALUE u' (bsort ?le 1 xs) f" by (rule uth_map_same_keys [OF m s(2) _ s(3)]) simp
  have po': "preorder_on_set ?le (set xs)" using po ran by simp
  have "filter (\<lambda>x. c x a \<le> 0 \<and> c a x \<le> 0) (bsort ?le 1 xs) = filter (\<lambda>x. c x a \<le> 0 \<and> c a x \<le> 0) xs" if "a \<in> ran f" for a
  proof (rule filter_bsort [OF po' runs_one])
    fix x y
    assume p: "c x a \<le> 0 \<and> c a x \<le> 0" "c y a \<le> 0 \<and> c a y \<le> 0" "x \<in> set xs" "y \<in> set xs"
    then show "c x y \<le> 0" using preorder_trans [OF po', of x a y] that ran by auto
  qed simp_all
  moreover have "sorted_wrt ?le (bsort ?le 1 xs)" by (rule sorted_bsort [OF po' runs_one]) simp
  moreover have "HASH_FIND k u' = HASH_FIND k u" for k
    unfolding HASH_FIND_def HASH_FIND_map [OF m] HASH_FIND_map [OF m'] ..
  moreover have "hash_items u = Some xs" "hash_items u' = Some (bsort ?le 1 xs)"
    using hash_items_ok [OF uth_listed [OF u]] hash_items_ok [OF uth_listed [OF s(2)]] .
  ultimately show ?thesis using s(1) by (intro exI [of _ xs] exI [of _ u'] exI [of _ "bsort ?le 1 xs"]) simp
qed

lemma hash_sort_walk_witness:
  "\<exists>u xs u'. hash_reach small_grants u [[1] \<mapsto> 1] \<and> hash_items u = Some xs \<and> mset xs = {#1#} \<and>
     HASH_SRT (\<lambda>x y. Some (int x - int y)) u = Some u' \<and> HASH_FIND [1] u' = Some (Some 1)"
proof -
  from small_reach obtain u where u: "hash_reach small_grants u [[1] \<mapsto> 1]" by blast
  have A: "\<not> small_grants (2 ^ 36)" by (simp add: small_grants_def)
  have c: "card (dom [[1 :: byte] \<mapsto> 1 :: addr]) \<le> 2 ^ 31"
    "\<forall>x \<in> ran [[1 :: byte] \<mapsto> 1 :: addr]. \<forall>y \<in> ran [[1 :: byte] \<mapsto> 1]. Some (int x - int y) = Some (int x - int y)"
    "preorder_on_set (\<lambda>x y. int x - int y \<le> 0) (ran [[1 :: byte] \<mapsto> 1 :: addr])"
    by (simp_all add: preorder_on_set_def)
  from hash_sort_walk [of small_grants u "[[1] \<mapsto> 1]" "\<lambda>x y. Some (int x - int y)" "\<lambda>x y. int x - int y", OF u A c] obtain xs u' where
    s: "hash_items u = Some xs" "HASH_SRT (\<lambda>x y. Some (int x - int y)) u = Some u'" "\<forall>k. HASH_FIND k u' = HASH_FIND k u"
    by blast
  from hash_reach_map [OF u A] obtain ys where m: "uth_map HASH_VALUE u ys [[1] \<mapsto> 1]" by blast
  then have "hash_items u = Some ys" using hash_items_ok [OF uth_listed] by (simp add: uth_map_def)
  moreover have "mset ys = {#1#}"
  proof -
    have "set ys = {1}" "distinct ys" using m uth_map_card(2) [OF m] by (simp_all add: uth_map_def)
    then have "ys = [1]" by (cases ys; cases "tl ys") auto
    then show ?thesis by simp
  qed
  ultimately show ?thesis
    using u s hash_reach_find [of small_grants u "[[1] \<mapsto> 1]" "[1]", OF u A] by auto
qed

text \<open>
  Selecting two elements or more into an empty table leaves a table that finds them and passes
  the integrity check; but its tail is its first element, so the next element added cuts the rest
  out of the order: a walk visits two elements only, and the integrity check fails.
\<close>

theorem hash_select_tail:
  assumes r: "hash_reach A src f" and A: "\<not> A (2 ^ 36)" and d: "u_head d = None" "\<forall>a \<in> ran f. u_mem d a \<noteq> None"
    and two: "f k1 = Some x1" "f k2 = Some x2" "x1 \<noteq> x2" "cond x1" "cond x2"
    and a: "a \<notin> ran f" "u_mem d a \<noteq> None" and n: "Suc (card (dom f)) < 2 ^ 32"
  shows "HASH_SELECT A cond src d = Some (Inl (- 1)) \<or>
    (\<exists>d'. HASH_SELECT A cond src d = Some (Inr d') \<and> HASH_FSCK d' = Some True \<and>
       (\<forall>k b. f k = Some b \<longrightarrow> cond b \<longrightarrow> HASH_FIND k d' = Some (Some b)) \<and>
       (HASH_ADD A k a d' = Some (Inl (- 1)) \<or>
        (\<exists>y d''. HASH_ADD A k a d' = Some (Inr d'') \<and> chain (fld h_next (u_mem d'')) (u_head d'') [y, a] \<and>
           HASH_FSCK d'' = Some False)))"
proof -
  from hash_reach_map [OF r A] obtain xs where m: "uth_map HASH_VALUE src xs f" by blast
  then have u: "uth_ok src xs" and ran: "ran f = set xs" and key: "\<And>k a. f k = Some a \<Longrightarrow> keyed (u_mem src) k (HASH_VALUE k) a"
    by (simp_all add: uth_map_def)
  have len: "length xs < 2 ^ 32" using n uth_map_card [OF m] by simp
  have mapped: "keys_of d b \<noteq> None" if "b \<in> set xs" for b using d(2) ran that by (auto simp: keys_of_def fld_def)
  have "HASH_SELECT A cond src d = Some (Inl (- 1)) \<or>
    (\<exists>d' ys. HASH_SELECT A cond src d = Some (Inr d') \<and> distinct ys \<and> set ys = set (filter cond xs) \<and> sel_ok d' ys \<and>
       copied src d d' (set ys))"
    by (intro HASH_SELECT_ok u d(1) len A mapped)
  then show ?thesis
  proof (elim disjE exE conjE)
    fix d' ys
    assume s: "HASH_SELECT A cond src d = Some (Inr d')" "distinct ys" "set ys = set (filter cond xs)" "sel_ok d' ys"
      "copied src d d' (set ys)"
    have "x1 \<in> set ys" "x2 \<in> set ys" using s(3) two ran ranI [of f k1 x1] ranI [of f k2 x2] by auto
    then obtain y zs where ys: "ys = y # zs" "zs \<noteq> []" using two(3) by (cases ys; cases "tl ys") auto
    have find: "HASH_FIND k' d' = Some (Some b)" if k': "f k' = Some b" "cond b" for k' b
    proof -
      have b: "b \<in> set ys" using ranI [of f k' b, OF k'(1)] ran s(3) k'(2) by simp
      then have kb: "keyed (u_mem d') k' (HASH_VALUE k') b" using key [OF k'(1)] s(5) by (simp add: keyed_keys_of copied_def)
      from HASH_FIND_ok [of d' ys k' "HASH_VALUE k'", OF sel_listed [OF s(4)]] obtain r' where
        r': "HASH_FIND k' d' = Some r'"
        "case r' of Some a \<Rightarrow> a \<in> set ys \<and> keyed (u_mem d') k' (HASH_VALUE k') a | None \<Rightarrow> \<forall>a \<in> set ys. \<not> keyed (u_mem d') k' (HASH_VALUE k') a"
        unfolding HASH_FIND_def by blast
      with b kb obtain b' where b': "r' = Some b'" "b' \<in> set ys" "keyed (u_mem d') k' (HASH_VALUE k') b'" by (cases r') auto
      then have "b' \<in> ran f" using s(3) ran by simp
      then obtain k2 where k2: "f k2 = Some b'" by (auto simp: ran_def)
      have "keyed (u_mem src) k' (HASH_VALUE k') b'" using b'(2,3) s(5) by (simp add: keyed_keys_of copied_def)
      then have "k2 = k'" using key [OF k2] keyed_key by blast
      with k2 k'(1) r'(1) b'(1) show ?thesis by simp
    qed
    have "a \<notin> set ys" using a(1) ran s(3) by simp
    moreover have "keys_of d' a \<noteq> None" using a(2) s(5) calculation by (auto simp: copied_def keys_of_def fld_def)
    then obtain h where h: "u_mem d' a = Some h" by (auto simp: keys_of_def fld_def)
    moreover have "Suc (length ys) < 2 ^ 32"
    proof -
      have "length ys \<le> length xs" using s(2,3) by (metis card_length card_mono distinct_card filter_is_subset finite_set order_trans)
      then show ?thesis using n uth_map_card [OF m] by simp
    qed
    ultimately have "HASH_ADD A k a d' = Some (Inl (- 1)) \<or>
        (\<exists>y d''. HASH_ADD A k a d' = Some (Inr d'') \<and> chain (fld h_next (u_mem d'')) (u_head d'') [y, a] \<and> HASH_FSCK d'' = Some False)"
      using add_after_select [of d' y zs a h A k "HASH_VALUE k"] s(4) ys A unfolding HASH_ADD_def by blast
    then show ?thesis using s(1) HASH_FSCK_ok [OF sel_listed [OF s(4)]] find by blast
  qed simp
qed

lemma hash_select_tail_witness:
  "\<exists>src d'. HASH_SELECT small_grants (\<lambda>_. True) src small_table = Some (Inl (- 1)) \<or>
     HASH_SELECT small_grants (\<lambda>_. True) src small_table = Some (Inr d') \<and> HASH_FIND [1] d' = Some (Some 1)"
proof -
  from small_reach_two obtain src where src: "hash_reach small_grants src [[1] \<mapsto> 1, [2] \<mapsto> 2]" by blast
  have A: "\<not> small_grants (2 ^ 36)" by (simp add: small_grants_def)
  have h: "u_head small_table = None" "\<forall>a \<in> ran [[1 :: byte] \<mapsto> 1, [2] \<mapsto> 2]. u_mem small_table a \<noteq> None"
    "[[1 :: byte] \<mapsto> 1, [2] \<mapsto> 2] [1] = Some 1" "[[1 :: byte] \<mapsto> 1, [2] \<mapsto> 2] [2] = Some 2" "(1::addr) \<noteq> 2"
    "3 \<notin> ran [[1 :: byte] \<mapsto> 1, [2] \<mapsto> 2 :: addr]" "u_mem small_table 3 \<noteq> None"
    "Suc (card (dom [[1 :: byte] \<mapsto> 1, [2] \<mapsto> 2 :: addr])) < 2 ^ 32"
    by (simp_all add: small_table_def)
  from hash_select_tail [where cond = "\<lambda>_. True" and k = "[3]", OF src A h(1-5) TrueI TrueI h(6-8)] h(3) show ?thesis by blast
qed

end
