(* ===== verification/UserTable.thy ===== *)
theory UserTable
  imports UtHashSel CString
begin

text \<open>
  The program uthash-sample.c: a table of users by number, built on the hash table, and a menu
  read from the standard input line by line.
\<close>

subsection \<open>The users\<close>

record user =
  usr_id :: int
  usr_name :: "byte list"

text \<open>
  The program's state: the head users and the handles (us-hash), the rest of the user structs,
  the allocator's next address, the number of the next user, what the line buffer holds (nothing
  to begin with), the lines still to come and what was printed.  The two allocations the program
  makes itself are not checked; A says which are granted.
\<close>

record user_state =
  us_hash :: uthash
  us_data :: "addr \<Rightarrow> user option"
  us_brk :: addr
  us_id :: int
  us_in :: "byte list option"
  us_lines :: "byte list list"
  us_out :: "string list"

definition key_int :: "int \<Rightarrow> u32" where
  "key_int i = word_of_int i"

definition c_strcmp :: "byte list \<Rightarrow> byte list \<Rightarrow> int" where
  "c_strcmp s t = (if s = t then 0 else if (s, t) \<in> lexord {(a, b). a < b} then - 1 else 1)"

definition chars :: "byte list \<Rightarrow> string" where
  "chars s = map (\<lambda>b. char_of (unat b)) s"

definition say :: "string \<Rightarrow> user_state \<Rightarrow> user_state" where
  "say s st = st\<lparr>us_out := us_out st @ [s]\<rparr>"

text \<open>A new user struct: its handle is indeterminate, so is its name until it is copied.\<close>

definition new_user :: "grants \<Rightarrow> int \<Rightarrow> user_state \<Rightarrow> (addr \<times> user_state) option" where
  "new_user A i st = (if \<not> A 72 then None else let a = us_brk st in
     Some (a, st\<lparr>us_brk := Suc a, us_hash := (us_hash st)\<lparr>u_mem := (u_mem (us_hash st))(a \<mapsto> new_handle)\<rparr>,
                 us_data := (us_data st)(a \<mapsto> \<lparr>usr_id = i, usr_name = []\<rparr>)\<rparr>))"

definition free_user :: "addr \<Rightarrow> user_state \<Rightarrow> user_state option" where
  "free_user a st = (if us_data st a = None then None else
     Some (st\<lparr>us_hash := (us_hash st)\<lparr>u_mem := (u_mem (us_hash st))(a := None)\<rparr>, us_data := (us_data st)(a := None)\<rparr>))"

definition find_user :: "int \<Rightarrow> user_state \<Rightarrow> addr option option" where
  "find_user user_id st = HASH_FIND_INT (key_int user_id) (us_hash st)"

definition add_user :: "grants \<Rightarrow> int \<Rightarrow> byte list option \<Rightarrow> user_state \<Rightarrow> (int + user_state) option" where
  "add_user A user_id name st = do {
     s \<leftarrow> find_user user_id st;
     and_then (case s of
         Some a \<Rightarrow> Some (Inr (a, st))
       | None \<Rightarrow> do {
           (a, st1) \<leftarrow> new_user A user_id st;
           and_then (HASH_ADD_INT A (key_int user_id) a (us_hash st1)) (\<lambda>u. Some (Inr (a, st1\<lparr>us_hash := u\<rparr>))) })
       (\<lambda>(a, st). do {
          nm \<leftarrow> name;
          n \<leftarrow> c_strcpy 10 (nm @ [0]);
          d \<leftarrow> us_data st a;
          Some (Inr (st\<lparr>us_data := (us_data st)(a \<mapsto> d\<lparr>usr_name := n\<rparr>)\<rparr>)) }) }"

definition delete_user :: "addr \<Rightarrow> user_state \<Rightarrow> user_state option" where
  "delete_user a st = do { u \<leftarrow> HASH_DELETE a (us_hash st); free_user a (st\<lparr>us_hash := u\<rparr>) }"

definition delete_all :: "user_state \<Rightarrow> user_state option" where
  "delete_all st = HASH_ITER us_hash (\<lambda>a st. do { st1 \<leftarrow> delete_user a st; Some (False, st1) }) st"

partial_function (option) print_from :: "addr option \<Rightarrow> user_state \<Rightarrow> user_state option" where
  "print_from s st = (case s of None \<Rightarrow> Some st
     | Some a \<Rightarrow> do {
         d \<leftarrow> us_data st a;
         h \<leftarrow> u_mem (us_hash st) a;
         print_from (h_next h) (say (''user id '' @ dec_int (usr_id d) @ '': name '' @ chars (usr_name d) @ ''\<newline>'') st) })"

definition print_users :: "user_state \<Rightarrow> user_state option" where
  "print_users st = print_from (u_head (us_hash st)) st"

definition name_sort :: "(addr \<Rightarrow> user option) \<Rightarrow> u_cmp" where
  "name_sort m a b = do { d \<leftarrow> m a; e \<leftarrow> m b; Some (c_strcmp (usr_name d) (usr_name e)) }"

text \<open>The difference of two numbers may not fit an int.\<close>

definition id_sort :: "(addr \<Rightarrow> user option) \<Rightarrow> u_cmp" where
  "id_sort m a b = do { d \<leftarrow> m a; e \<leftarrow> m b; c_int (usr_id d - usr_id e) }"

definition sort_by_name :: "user_state \<Rightarrow> user_state option" where
  "sort_by_name st = do { u \<leftarrow> HASH_SRT (name_sort (us_data st)) (us_hash st); Some (st\<lparr>us_hash := u\<rparr>) }"

definition sort_by_id :: "user_state \<Rightarrow> user_state option" where
  "sort_by_id st = do { u \<leftarrow> HASH_SRT (id_sort (us_data st)) (us_hash st); Some (st\<lparr>us_hash := u\<rparr>) }"

subsection \<open>The menu\<close>

text \<open>
  gets into the buffer of 128 characters: a longer line overruns it.  At the end of the input it
  returns NULL and leaves the buffer as it was.
\<close>

definition c_gets :: "user_state \<Rightarrow> (byte list option \<times> user_state) option" where
  "c_gets st = (case us_lines st of
       [] \<Rightarrow> Some (None, st)
     | l # ls \<Rightarrow> if length l < 128
         then (let s = takeWhile (\<lambda>c. c \<noteq> 0) l in Some (Some s, st\<lparr>us_in := Some s, us_lines := ls\<rparr>))
         else None)"

definition atoi_bytes :: "byte list option \<Rightarrow> int option" where
  "atoi_bytes s = do { s \<leftarrow> s; atoi (chars s) }"

definition menu_text :: string where
  "menu_text = '' 1. add user\<newline> 2. add/rename user by id\<newline> 3. find user\<newline> 4. delete user\<newline> 5. delete all users\<newline> 6. sort items by name\<newline> 7. sort items by id\<newline> 8. print users\<newline> 9. count users\<newline>10. quit\<newline>''"

text \<open>The switch on the choice; the result says whether the loop goes on (running).\<close>

definition menu_choice :: "grants \<Rightarrow> int \<Rightarrow> user_state \<Rightarrow> (int + bool \<times> user_state) option" where
  "menu_choice A c st =
     (if c = 1 then do {
        (name, st1) \<leftarrow> c_gets (say ''name?\<newline>'' st);
        i \<leftarrow> c_int (us_id st1 + 1);
        and_then (add_user A (us_id st1) name (st1\<lparr>us_id := i\<rparr>)) (\<lambda>st. Some (Inr (True, st))) }
      else if c = 2 then do {
        (_, st1) \<leftarrow> c_gets (say ''id?\<newline>'' st);
        i \<leftarrow> atoi_bytes (us_in st1);
        (name, st2) \<leftarrow> c_gets (say ''name?\<newline>'' (st1\<lparr>us_id := i\<rparr>));
        and_then (add_user A i name st2) (\<lambda>st. Some (Inr (True, st))) }
      else if c = 3 then do {
        (l, st1) \<leftarrow> c_gets (say ''id?\<newline>'' st);
        i \<leftarrow> atoi_bytes l;
        s \<leftarrow> find_user i st1;
        n \<leftarrow> (case s of None \<Rightarrow> Some ''unknown'' | Some a \<Rightarrow> do { d \<leftarrow> us_data st1 a; Some (chars (usr_name d)) });
        Some (Inr (True, say (''user: '' @ n @ ''\<newline>'') st1)) }
      else if c = 4 then do {
        (l, st1) \<leftarrow> c_gets (say ''id?\<newline>'' st);
        i \<leftarrow> atoi_bytes l;
        s \<leftarrow> find_user i st1;
        st2 \<leftarrow> (case s of None \<Rightarrow> Some (say ''id unknown\<newline>'' st1) | Some a \<Rightarrow> delete_user a st1);
        Some (Inr (True, st2)) }
      else if c = 5 then do { st1 \<leftarrow> delete_all st; Some (Inr (True, st1)) }
      else if c = 6 then do { st1 \<leftarrow> sort_by_name st; Some (Inr (True, st1)) }
      else if c = 7 then do { st1 \<leftarrow> sort_by_id st; Some (Inr (True, st1)) }
      else if c = 8 then do { st1 \<leftarrow> print_users st; Some (Inr (True, st1)) }
      else if c = 9 then do {
        n \<leftarrow> HASH_COUNT (us_hash st);
        Some (Inr (True, say (''there are '' @ dec_nat (unat n) @ '' users\<newline>'') st)) }
      else if c = 10 then Some (Inr (False, st))
      else Some (Inr (True, st)))"

partial_function (option) menu_loop :: "grants \<Rightarrow> user_state \<Rightarrow> (int + user_state) option" where
  "menu_loop A st = do {
     (_, st1) \<leftarrow> c_gets (say menu_text st);
     c \<leftarrow> atoi_bytes (us_in st1);
     r \<leftarrow> menu_choice A c st1;
     (case r of
        Inl x \<Rightarrow> Some (Inl x)
      | Inr (running, st2) \<Rightarrow> if running then menu_loop A st2 else Some (Inr st2)) }"

definition users_main :: "grants \<Rightarrow> byte list list \<Rightarrow> (int + user_state) option" where
  "users_main A lines =
     (if \<not> A 128 then None
      else and_then (menu_loop A \<lparr>us_hash = \<lparr>u_head = None, u_tbl = None, u_mem = Map.empty\<rparr>, us_data = Map.empty,
              us_brk = 0, us_id = 1, us_in = None, us_lines = lines, us_out = []\<rparr>)
            (\<lambda>st. do { st1 \<leftarrow> delete_all st; Some (Inr st1) }))"

end
