(* ===== verification/UserTableOk.thy ===== *)
theory UserTableOk
  imports UserTable "HOL-Library.List_Lexorder"
begin

text \<open>
  The program of UserTable refines a list of users (book): the invariant that ties the hash table,
  the user structs and the list together (user-ok), what every function of the program does to
  it, the refinement of the menu loop, and what goes wrong where the book promises nothing: long
  names, the end of the input, numbers far apart.
\<close>


subsection \<open>The table and the structs together\<close>

abbreviation user_at :: "user_state \<Rightarrow> addr \<Rightarrow> user" where
  "user_at st a \<equiv> the (us_data st a)"

text \<open>The users in the order of the table are at the addresses xs, each under its number.\<close>

definition user_ok :: "user_state \<Rightarrow> addr list \<Rightarrow> bool" where
  "user_ok st xs \<longleftrightarrow> (\<exists>f. uth_map HASH_VALUE (us_hash st) xs f \<and>
     (\<forall>a\<in>set xs. f (le_bytes (key_int (usr_id (user_at st a)))) = Some a)) \<and> dom (us_data st) = set xs \<and>
     (\<forall>a\<in>set xs. a < us_brk st \<and> is_int (usr_id (user_at st a))) \<and> length xs \<le> 2 ^ 31"



lemma user_ok_cong:
  "us_hash st' = us_hash st \<Longrightarrow> us_data st' = us_data st \<Longrightarrow> us_brk st' = us_brk st \<Longrightarrow> user_ok st' xs = user_ok st xs"
  by (simp add: user_ok_def)

lemma user_ok_upd [simp]:
  "user_ok (st\<lparr>us_out := x\<rparr>) xs = user_ok st xs" "user_ok (st\<lparr>us_id := i\<rparr>) xs = user_ok st xs"
  "user_ok (st\<lparr>us_in := l\<rparr>) xs = user_ok st xs" "user_ok (st\<lparr>us_lines := ls\<rparr>) xs = user_ok st xs"
  by (rule user_ok_cong; simp)+





subsection \<open>Adding and deleting\<close>




subsection \<open>Walks\<close>









subsection \<open>Sorting\<close>




subsection \<open>The book\<close>









subsection \<open>The program refines the book\<close>





text \<open>A step that may exit, in a program to which A grants memory.\<close>

definition us_wp :: "(int + 's) option \<Rightarrow> ('s \<Rightarrow> bool) \<Rightarrow> bool" where
  "us_wp r P \<longleftrightarrow> r = Some (Inl (- 1)) \<or> (\<exists>s. r = Some (Inr s) \<and> P s)"

lemma us_wp_simps [simp]: "us_wp (Some (Inr s)) P = P s"
  by (simp add: us_wp_def)




















subsection \<open>The input\<close>

text \<open>The lines the program may still look at: the one in its buffer and the ones to come.\<close>

definition texts :: "user_state \<Rightarrow> byte list set" where
  "texts st = set_option (us_in st) \<union> takeWhile (\<lambda>c. c \<noteq> 0) ` set (us_lines st)"

lemma texts_say [simp]: "texts (say s st) = texts st" "texts (st\<lparr>us_id := i\<rparr>) = texts st"
    "texts (st\<lparr>us_hash := u\<rparr>) = texts st" "texts (st\<lparr>us_data := d\<rparr>) = texts st" "texts (st\<lparr>us_brk := k\<rparr>) = texts st"
  by (simp_all add: texts_def say_def)

lemma c_gets_texts: "c_gets st = Some (l, st1) \<Longrightarrow> texts st1 \<subseteq> texts st"
  by (auto simp: c_gets_def texts_def Let_def split: list.splits if_splits)

lemma delete_user_texts: "delete_user a st = Some st1 \<Longrightarrow> texts st1 = texts st"
  by (auto simp: delete_user_def free_user_def bind_Some_iff split: if_splits)

lemma and_then_Inr: "and_then m f = Some (Inr y) \<longleftrightarrow> (\<exists>x. m = Some (Inr x) \<and> f x = Some (Inr y))"
  by (auto simp: and_then_def split: option.splits sum.splits)

lemma add_user_texts: "add_user A i n st = Some (Inr st1) \<Longrightarrow> texts st1 = texts st"
  by (auto simp: add_user_def new_user_def and_then_Inr Let_def bind_Some_iff split: option.splits if_splits)

lemma hash_iter_texts:
  assumes "hash_iter tb body el tmp st = Some st'" and "\<And>a s r s1. body a s = Some (r, s1) \<Longrightarrow> texts s1 = texts s"
  shows "texts st' = texts st"
  using assms(1)
proof (rule hash_iter.raw_induct [where P = "\<lambda>tb' body' el tmp s s'. tb' = tb \<longrightarrow> body' = body \<longrightarrow> texts s' = texts s",
      rotated, rule_format])
qed (use assms(2) in \<open>fastforce simp: bind_Some_iff split: option.splits if_splits\<close>)+

lemma delete_all_texts:
  assumes "delete_all st = Some st1"
  shows "texts st1 = texts st"
proof (cases "u_head (us_hash st)")
  case None
  then show ?thesis using assms by (simp add: delete_all_def HASH_ITER_def)
next
  case (Some a)
  then obtain p where "hash_iter us_hash (\<lambda>a st. do { st1 \<leftarrow> delete_user a st; Some (False, st1) }) (Some a) p st = Some st1"
    using assms by (auto simp: delete_all_def HASH_ITER_def bind_Some_iff)
  then show ?thesis by (rule hash_iter_texts) (auto simp: bind_Some_iff dest: delete_user_texts)
qed

lemma print_from_texts:
  assumes "print_from p st = Some st1"
  shows "texts st1 = texts st"
proof (rule print_from.raw_induct [where P = "\<lambda>p st st1. texts st1 = texts st", OF _ assms])
  fix walk :: "addr option \<Rightarrow> user_state \<Rightarrow> user_state option" and s st st1
  assume IH: "\<And>s st st1. walk s st = Some st1 \<Longrightarrow> texts st1 = texts st"
    and run: "(case s of None \<Rightarrow> Some st
     | Some a \<Rightarrow> do {
         d \<leftarrow> us_data st a;
         h \<leftarrow> u_mem (us_hash st) a;
         walk (h_next h) (say (''user id '' @ dec_int (usr_id d) @ '': name '' @ chars (usr_name d) @ ''\<newline>'') st) }) = Some st1"
  show "texts st1 = texts st"
    using run IH by (fastforce simp: bind_Some_iff split: option.splits)
qed

lemma menu_choice_texts:
  assumes "menu_choice A c st = Some (Inr (r, st1))"
  shows "texts st1 \<subseteq> texts st"
  using assms
  by (auto simp: menu_choice_def bind_Some_iff and_then_Inr sort_by_name_def sort_by_id_def print_users_def
      dest!: c_gets_texts add_user_texts delete_user_texts delete_all_texts print_from_texts split: if_splits option.splits)
    blast+

lemma menu_loop_quits:
  assumes "menu_loop A st = Some (Inr st1)"
  shows "\<exists>s\<in>texts st. atoi (chars s) = Some 10"
proof -
  have "\<forall>st1. r = Inr st1 \<longrightarrow> (\<exists>s\<in>texts st. atoi (chars s) = Some 10)" if "menu_loop A st = Some r" for r
  proof (rule menu_loop.raw_induct [where P = "\<lambda>A st r. \<forall>st1. r = Inr st1 \<longrightarrow> (\<exists>s\<in>texts st. atoi (chars s) = Some 10)", OF _ that],
      intro allI impI)
    fix loop :: "grants \<Rightarrow> user_state \<Rightarrow> (int + user_state) option" and A st r st1
    assume IH: "\<And>A st r. loop A st = Some r \<Longrightarrow> \<forall>st1. r = Inr st1 \<longrightarrow> (\<exists>s\<in>texts st. atoi (chars s) = Some 10)"
      and run: "do { (_, st1) \<leftarrow> c_gets (say menu_text st); c \<leftarrow> atoi_bytes (us_in st1); r \<leftarrow> menu_choice A c st1;
        (case r of Inl x \<Rightarrow> Some (Inl x) | Inr (running, st2) \<Rightarrow> if running then loop A st2 else Some (Inr st2)) } = Some r"
      and r: "r = Inr st1"
    obtain l st2 c r0 where s0: "c_gets (say menu_text st) = Some (l, st2)" "atoi_bytes (us_in st2) = Some c"
      "menu_choice A c st2 = Some r0"
      "(case r0 of Inl x \<Rightarrow> Some (Inl x) | Inr (running, st2) \<Rightarrow> if running then loop A st2 else Some (Inr st2)) = Some (Inr st1)"
      using run r by (auto simp: bind_Some_iff)
    then obtain p where "r0 = Inr p" by (cases r0) simp_all
    then obtain q st3 where s: "c_gets (say menu_text st) = Some (l, st2)" "atoi_bytes (us_in st2) = Some c"
      "menu_choice A c st2 = Some (Inr (q, st3))" "(if q then loop A st3 else Some (Inr st3)) = Some (Inr st1)"
      using s0 by (cases p) simp
    have sub: "texts st3 \<subseteq> texts st" "texts st2 \<subseteq> texts st"
      using c_gets_texts [OF s(1)] menu_choice_texts [OF s(3)] by auto
    show "\<exists>s\<in>texts st. atoi (chars s) = Some 10"
    proof (cases q)
      case True
      then have "\<exists>s\<in>texts st3. atoi (chars s) = Some 10" using IH s(4) by fastforce
      then show ?thesis using sub(1) by blast
    next
      case False
      then have "c = 10" using s(3) by (auto simp: menu_choice_def bind_Some_iff and_then_Inr split: if_splits)
      moreover obtain s where "us_in st2 = Some s" "atoi (chars s) = Some c"
        using s(2) by (auto simp: atoi_bytes_def bind_Some_iff)
      moreover have "s \<in> texts st2" using \<open>us_in st2 = Some s\<close> by (simp add: texts_def)
      ultimately show ?thesis using sub(2) by blast
    qed
  qed
  then show ?thesis using assms by blast
qed

section \<open>Properties\<close>



lemma chars_bytes_of [simp]: "chars (bytes_of s) = s"
  by (simp add: chars_def bytes_of_def comp_def unat_of_char)

lemma line_text: "takeWhile (\<lambda>c. c \<noteq> 0) (bytes_of s) = bytes_of (takeWhile (\<lambda>c. c \<noteq> CHR 0x00) s)"
  by (simp add: bytes_of_def takeWhile_map comp_def of_char_byte_0)




text \<open>
  The program only comes to its end when some line of its input says to quit: without one,
  whatever the input is, it runs for ever at the end of its input, repeating the last choice that
  is still in its buffer, or is undefined, or exits for lack of memory.
\<close>

theorem users_main_needs_quit:
  assumes "\<forall>l\<in>set lines. atoi (chars (takeWhile (\<lambda>c. c \<noteq> 0) l)) \<noteq> Some 10"
  shows "users_main A lines \<noteq> Some (Inr st)"
proof
  assume "users_main A lines = Some (Inr st)"
  then obtain st1 where "menu_loop A \<lparr>us_hash = \<lparr>u_head = None, u_tbl = None, u_mem = Map.empty\<rparr>, us_data = Map.empty,
      us_brk = 0, us_id = 1, us_in = None, us_lines = lines, us_out = []\<rparr> = Some (Inr st1)"
    by (auto simp: users_main_def and_then_Inr split: if_splits)
  from menu_loop_quits [OF this] assms show False by (auto simp: texts_def)
qed

theorem users_main_needs_quit_witness:
  "\<forall>st. users_main (\<lambda>k. True) (map bytes_of [''1'', ''bob'', ''8'']) \<noteq> Some (Inr st)"
  by (intro allI, rule users_main_needs_quit)
    (simp add: line_text atoi_def atoi_val_def is_space_def is_digit_def c_int_def is_int_def INT_MAX_def INT_MIN_def)

text \<open>A name of ten characters or more does not fit its field: adding or renaming a user with it is never defined.\<close>

theorem add_user_long_name:
  assumes "0 \<notin> set nm" "10 \<le> length nm"
  shows "add_user A i (Some nm) st \<noteq> Some (Inr st1)"
  using assms c_str_terminated [of nm "[]"] by (auto simp: add_user_def and_then_Inr bind_Some_iff c_strcpy_def)

text \<open>Numbers more than an int apart are not compared: sorting by number is undefined then.\<close>

theorem id_sort_overflow:
  "us a = Some \<lparr>usr_id = 2000000000, usr_name = n\<rparr> \<Longrightarrow> us b = Some \<lparr>usr_id = - 2000000000, usr_name = m\<rparr> \<Longrightarrow> id_sort us a b = None"
  by (simp add: id_sort_def c_int_def is_int_def INT_MAX_def INT_MIN_def)

end
