(* ===== verification/UtArray.thy ===== *)
theory UtArray
  imports Prelude
begin

text \<open>
  The dynamic arrays of inc/uthash/utarray.h.  The slots of an array hold elements of any type; a
  slot whose contents are indeterminate is None, and reading one is undefined, as is any access
  outside the slots.  The three functions of an array's UT-icd work on an element and on a world
  of their own (the heap, for strings).  realloc grants or refuses a number of bytes, as the
  parameter A says; a run may exit.  Indices and counts are 32-bit words.
\<close>

subsection \<open>Data\<close>

record ('e, 'w) ut_icd =
  icd_sz :: int
  icd_zero :: 'e
  icd_init :: "('w \<Rightarrow> ('e \<times> 'w) option) option"
  icd_copy :: "('e \<Rightarrow> 'w \<Rightarrow> ('e \<times> 'w) option) option"
  icd_dtor :: "('e \<Rightarrow> 'w \<Rightarrow> 'w option) option"

record ('e, 'w) utarray =
  ua_i :: u32
  ua_n :: u32
  ua_icd :: "('e, 'w) ut_icd"
  ua_d :: "'e option list"

type_synonym ('e, 'w) ua_state = "('e, 'w) utarray \<times> 'w"

text \<open>Reading and writing slot j.\<close>

definition ua_get :: "('e, 'w) utarray \<Rightarrow> u32 \<Rightarrow> 'e option" where
  "ua_get a j = do { s \<leftarrow> arr_get (ua_d a) (uint j); s }"

definition ua_put :: "('e, 'w) utarray \<Rightarrow> u32 \<Rightarrow> 'e option \<Rightarrow> ('e, 'w) utarray option" where
  "ua_put a j e = do { d \<leftarrow> arr_set (ua_d a) (uint j) e; Some (a\<lparr>ua_d := d\<rparr>) }"

text \<open>
  What init, copy and dtor do with one element: without init it is zero bytes, without copy the
  bytes themselves, without dtor nothing happens.
\<close>

definition ut_init :: "('e, 'w) ut_icd \<Rightarrow> 'w \<Rightarrow> ('e \<times> 'w) option" where
  "ut_init icd w = (case icd_init icd of Some f \<Rightarrow> f w | None \<Rightarrow> Some (icd_zero icd, w))"

definition ut_copy :: "('e, 'w) ut_icd \<Rightarrow> 'e \<Rightarrow> 'w \<Rightarrow> ('e \<times> 'w) option" where
  "ut_copy icd p w = (case icd_copy icd of Some f \<Rightarrow> f p w | None \<Rightarrow> Some (p, w))"

definition ut_dtor :: "('e, 'w) ut_icd \<Rightarrow> 'e \<Rightarrow> 'w \<Rightarrow> 'w option" where
  "ut_dtor icd e w = (case icd_dtor icd of Some f \<Rightarrow> f e w | None \<Rightarrow> Some w)"

definition ua_write :: "u32 \<Rightarrow> ('w \<Rightarrow> ('e \<times> 'w) option) \<Rightarrow> ('e, 'w) ua_state \<Rightarrow> ('e, 'w) ua_state option" where
  "ua_write j g = (\<lambda>(a, w). do { (e, w1) \<leftarrow> g w; a1 \<leftarrow> ua_put a j (Some e); Some (a1, w1) })"

definition ua_init_at :: "u32 \<Rightarrow> ('e, 'w) ua_state \<Rightarrow> ('e, 'w) ua_state option" where
  "ua_init_at j s = ua_write j (ut_init (ua_icd (fst s))) s"

definition ua_copy_at :: "u32 \<Rightarrow> 'e \<Rightarrow> ('e, 'w) ua_state \<Rightarrow> ('e, 'w) ua_state option" where
  "ua_copy_at j p s = ua_write j (ut_copy (ua_icd (fst s)) p) s"

definition ua_dtor_at :: "u32 \<Rightarrow> ('e, 'w) ua_state \<Rightarrow> ('e, 'w) ua_state option" where
  "ua_dtor_at j = (\<lambda>(a, w). case icd_dtor (ua_icd a) of None \<Rightarrow> Some (a, w)
     | Some f \<Rightarrow> do { e \<leftarrow> ua_get a j; w1 \<leftarrow> f e w; Some (a, w1) })"

text \<open>A loop over the slots from j to below k.\<close>

partial_function (option) ua_for :: "(u32 \<Rightarrow> 's \<Rightarrow> 's option) \<Rightarrow> u32 \<Rightarrow> u32 \<Rightarrow> 's \<Rightarrow> 's option" where
  "ua_for body j k s = (if j < k then do { s1 \<leftarrow> body j s; ua_for body (j + 1) k s1 } else Some s)"

subsection \<open>Room\<close>

text \<open>Doubling until there are enough slots: the count wraps to 0 and starts again at 8.\<close>

partial_function (option) ua_double :: "u32 \<Rightarrow> u32 \<Rightarrow> u32 option" where
  "ua_double want n = (if want > n then ua_double want (if n \<noteq> 0 then 2 * n else 8) else Some n)"

definition utarray_reserve :: "(int \<Rightarrow> bool) \<Rightarrow> u32 \<Rightarrow> ('e, 'w) ua_state \<Rightarrow> (int + ('e, 'w) ua_state) option" where
  "utarray_reserve A by' = (\<lambda>(a, w).
     if ua_i a + by' > ua_n a then do {
       n \<leftarrow> ua_double (ua_i a + by') (ua_n a);
       if \<not> A (uint n * icd_sz (ua_icd a)) then Some (Inl (- 1))
       else Some (Inr (a\<lparr>ua_n := n, ua_d := take (unat n) (ua_d a) @ replicate (unat n - length (ua_d a)) None\<rparr>, w)) }
     else Some (Inr (a, w)))"

subsection \<open>Making and ending an array\<close>

definition utarray_init :: "('e, 'w) ut_icd \<Rightarrow> ('e, 'w) utarray" where
  "utarray_init icd = \<lparr>ua_i = 0, ua_n = 0, ua_icd = icd, ua_d = []\<rparr>"

definition utarray_new :: "(int \<Rightarrow> bool) \<Rightarrow> ('e, 'w) ut_icd \<Rightarrow> (int + ('e, 'w) utarray) option" where
  "utarray_new A icd = Some (if \<not> A 48 then Inl (- 1) else Inr (utarray_init icd))"

text \<open>Ending frees the slots but leaves the index of the next one and the pointer as they are.\<close>

definition utarray_done :: "('e, 'w) ua_state \<Rightarrow> ('e, 'w) ua_state option" where
  "utarray_done = (\<lambda>(a, w). do {
     (a1, w1) \<leftarrow> (if ua_n a \<noteq> 0 then do {
         (a1, w1) \<leftarrow> (if icd_dtor (ua_icd a) \<noteq> None then ua_for ua_dtor_at 0 (ua_i a) (a, w) else Some (a, w));
         Some (a1\<lparr>ua_d := []\<rparr>, w1) }
       else Some (a, w));
     Some (a1\<lparr>ua_n := 0\<rparr>, w1) })"

definition utarray_clear :: "('e, 'w) ua_state \<Rightarrow> ('e, 'w) ua_state option" where
  "utarray_clear = (\<lambda>(a, w).
     if ua_i a > 0 then do {
       (a1, w1) \<leftarrow> (if icd_dtor (ua_icd a) \<noteq> None then ua_for ua_dtor_at 0 (ua_i a) (a, w) else Some (a, w));
       Some (a1\<lparr>ua_i := 0\<rparr>, w1) }
     else Some (a, w))"

definition utarray_renew :: "(int \<Rightarrow> bool) \<Rightarrow> ('e, 'w) ut_icd \<Rightarrow> ('e, 'w) utarray option \<Rightarrow> 'w \<Rightarrow> (int + ('e, 'w) ua_state) option" where
  "utarray_renew A icd a w = (case a of
       Some a \<Rightarrow> map_option Inr (utarray_clear (a, w))
     | None \<Rightarrow> and_then (utarray_new A icd) (\<lambda>a. Some (Inr (a, w))))"

subsection \<open>Elements at the end\<close>

definition utarray_push_back :: "(int \<Rightarrow> bool) \<Rightarrow> 'e \<Rightarrow> ('e, 'w) ua_state \<Rightarrow> (int + ('e, 'w) ua_state) option" where
  "utarray_push_back A p s = and_then (utarray_reserve A 1 s) (\<lambda>(a, w). do {
     (a1, w1) \<leftarrow> ua_copy_at (ua_i a) p (a, w);
     Some (Inr (a1\<lparr>ua_i := ua_i a + 1\<rparr>, w1)) })"

definition utarray_pop_back :: "('e, 'w) ua_state \<Rightarrow> ('e, 'w) ua_state option" where
  "utarray_pop_back = (\<lambda>(a, w). let a1 = a\<lparr>ua_i := ua_i a - 1\<rparr> in ua_dtor_at (ua_i a1) (a1, w))"

definition utarray_extend_back :: "(int \<Rightarrow> bool) \<Rightarrow> ('e, 'w) ua_state \<Rightarrow> (int + ('e, 'w) ua_state) option" where
  "utarray_extend_back A s = and_then (utarray_reserve A 1 s) (\<lambda>(a, w). do {
     (a1, w1) \<leftarrow> ua_init_at (ua_i a) (a, w);
     Some (Inr (a1\<lparr>ua_i := ua_i a1 + 1\<rparr>, w1)) })"

definition utarray_resize :: "(int \<Rightarrow> bool) \<Rightarrow> u32 \<Rightarrow> ('e, 'w) ua_state \<Rightarrow> (int + ('e, 'w) ua_state) option" where
  "utarray_resize A num = (\<lambda>(a, w). and_then
     (if ua_i a > num then
        map_option Inr (if icd_dtor (ua_icd a) \<noteq> None then ua_for ua_dtor_at num (ua_i a) (a, w) else Some (a, w))
      else if ua_i a < num then
        and_then (utarray_reserve A (num - ua_i a) (a, w)) (\<lambda>s. map_option Inr (ua_for ua_init_at (ua_i a) num s))
      else Some (Inr (a, w)))
     (\<lambda>(a1, w1). Some (Inr (a1\<lparr>ua_i := num\<rparr>, w1))))"

subsection \<open>Elements inside\<close>

text \<open>
  memmove of k slots from slot src to slot dst; the addresses are computed in 64 bits, so the two
  do not wrap.
\<close>

definition ua_memmove :: "int \<Rightarrow> int \<Rightarrow> int \<Rightarrow> ('e, 'w) utarray \<Rightarrow> ('e, 'w) utarray option" where
  "ua_memmove dst src k a =
     (if 0 \<le> k \<and> 0 \<le> src \<and> 0 \<le> dst \<and> src + k \<le> int (length (ua_d a)) \<and> dst + k \<le> int (length (ua_d a))
      then Some (a\<lparr>ua_d := take (nat dst) (ua_d a) @ take (nat k) (drop (nat src) (ua_d a)) @ drop (nat (dst + k)) (ua_d a)\<rparr>)
      else None)"

definition utarray_insert :: "(int \<Rightarrow> bool) \<Rightarrow> 'e \<Rightarrow> u32 \<Rightarrow> ('e, 'w) ua_state \<Rightarrow> (int + ('e, 'w) ua_state) option" where
  "utarray_insert A p j s = and_then (if j > ua_i (fst s) then utarray_resize A j s else Some (Inr s)) (\<lambda>s.
     and_then (utarray_reserve A 1 s) (\<lambda>(a, w). do {
       a1 \<leftarrow> (if j < ua_i a then ua_memmove (uint (j + 1)) (uint j) (uint (ua_i a - j)) a else Some a);
       (a2, w2) \<leftarrow> ua_copy_at j p (a1, w);
       Some (Inr (a2\<lparr>ua_i := ua_i a + 1\<rparr>, w2)) }))"

text \<open>Inserting the elements of another array v; both arrays use the same functions.\<close>

definition utarray_inserta :: "(int \<Rightarrow> bool) \<Rightarrow> ('e, 'w) utarray \<Rightarrow> u32 \<Rightarrow> ('e, 'w) ua_state \<Rightarrow> (int + ('e, 'w) ua_state) option" where
  "utarray_inserta A v j s =
     (if ua_i v = 0 then Some (Inr s)
      else and_then (if j > ua_i (fst s) then utarray_resize A j s else Some (Inr s)) (\<lambda>s.
        and_then (utarray_reserve A (ua_i v) s) (\<lambda>(a, w). do {
          a1 \<leftarrow> (if j < ua_i a then ua_memmove (uint (j + ua_i v)) (uint j) (uint (ua_i a - j)) a else Some a);
          (a2, w2) \<leftarrow> ua_for (\<lambda>k s. do { e \<leftarrow> ua_get v k; ua_copy_at (j + k) e s }) 0 (ua_i v) (a1, w);
          Some (Inr (a2\<lparr>ua_i := ua_i a + ua_i v\<rparr>, w2)) })))"

definition utarray_concat :: "(int \<Rightarrow> bool) \<Rightarrow> ('e, 'w) utarray \<Rightarrow> ('e, 'w) ua_state \<Rightarrow> (int + ('e, 'w) ua_state) option" where
  "utarray_concat A v s = utarray_inserta A v (ua_i (fst s)) s"

text \<open>An element outside the array has the address NULL, on which the destructor is undefined.\<close>

definition utarray_erase :: "u32 \<Rightarrow> u32 \<Rightarrow> ('e, 'w) ua_state \<Rightarrow> ('e, 'w) ua_state option" where
  "utarray_erase pos len = (\<lambda>(a, w). do {
     (a1, w1) \<leftarrow> (if icd_dtor (ua_icd a) \<noteq> None
       then ua_for (\<lambda>k s. if pos + k < ua_i a then ua_dtor_at (pos + k) s else None) 0 len (a, w) else Some (a, w));
     a2 \<leftarrow> (if ua_i a1 > pos + len then ua_memmove (uint pos) (uint (pos + len)) (uint (ua_i a1 - (pos + len))) a1 else Some a1);
     Some (a2\<lparr>ua_i := ua_i a2 - len\<rparr>, w1) })"

subsection \<open>Sorting\<close>

text \<open>
  qsort, with the caller's comparison, is the parameter Q: the library does not say where equal
  elements go.
\<close>

definition utarray_sort :: "('e list \<Rightarrow> 'e list) \<Rightarrow> ('e, 'w) utarray \<Rightarrow> ('e, 'w) utarray option" where
  "utarray_sort Q a = (let k = unat (ua_i a) in
     if k \<le> length (ua_d a) \<and> None \<notin> set (take k (ua_d a))
     then Some (a\<lparr>ua_d := map Some (Q (map the (take k (ua_d a)))) @ drop k (ua_d a)\<rparr>) else None)"

subsection \<open>Reading\<close>

text \<open>A pointer to an element is its index here, and NULL is None.\<close>

definition utarray_len :: "('e, 'w) utarray \<Rightarrow> u32" where
  "utarray_len a = ua_i a"

definition utarray_eltptr :: "('e, 'w) utarray \<Rightarrow> u32 \<Rightarrow> int option" where
  "utarray_eltptr a j = (if j < ua_i a then Some (uint j) else None)"

definition utarray_front :: "('e, 'w) utarray \<Rightarrow> int option" where
  "utarray_front a = (if ua_i a \<noteq> 0 then Some 0 else None)"

definition utarray_back :: "('e, 'w) utarray \<Rightarrow> int option" where
  "utarray_back a = (if ua_i a \<noteq> 0 then Some (uint (ua_i a - 1)) else None)"

definition utarray_next :: "('e, 'w) utarray \<Rightarrow> int option \<Rightarrow> int option" where
  "utarray_next a e = (case e of None \<Rightarrow> utarray_front a
     | Some k \<Rightarrow> if uint (ua_i a) > k + 1 then Some (k + 1) else None)"

definition utarray_prev :: "('e, 'w) utarray \<Rightarrow> int option \<Rightarrow> int option" where
  "utarray_prev a e = (case e of None \<Rightarrow> utarray_back a
     | Some k \<Rightarrow> if k > 0 then Some (k - 1) else None)"

end
