(* ===== verification/UtArrayOk.thy ===== *)
theory UtArrayOk
  imports UtArray
begin

text \<open>
  The dynamic arrays of UtArray refine lists: the loops over slots (ua-for), the doubling of
  the slots and where it never ends, the invariant ua-rep that ties an array to the list of its
  elements, and for every operation a simulation by its counterpart on lists.
\<close>

text \<open>A list of elements made one after the other, and a list of elements ended.\<close>

primrec produce :: "('w \<Rightarrow> ('e \<times> 'w) option) list \<Rightarrow> 'w \<Rightarrow> ('e list \<times> 'w) option" where
  "produce [] w = Some ([], w)"
| "produce (g # gs) w = do { (e, w1) \<leftarrow> g w; (es, w2) \<leftarrow> produce gs w1; Some (e # es, w2) }"

primrec end_all :: "('e, 'w) ut_icd \<Rightarrow> 'e list \<Rightarrow> 'w \<Rightarrow> 'w option" where
  "end_all icd [] w = Some w"
| "end_all icd (e # es) w = do { w1 \<leftarrow> ut_dtor icd e w; end_all icd es w1 }"

lemma produce_length: "produce gs w = Some (es, w1) \<Longrightarrow> length es = length gs"
  by (induction gs arbitrary: w es) (auto simp: bind_Some_iff)

lemma end_all_none: "icd_dtor icd = None \<Longrightarrow> end_all icd es w = Some w"
  by (induction es) (simp_all add: ut_dtor_def)

subsection \<open>Words and slots\<close>

lemma unat_plus: "unat j + unat k < 2 ^ 32 \<Longrightarrow> unat (j + k) = unat j + unat k" for j k :: u32
  by (simp add: unat_word_ariths)

lemma unat_minus: "k \<le> j \<Longrightarrow> unat (j - k) = unat j - unat k" for j k :: u32
  by (simp add: unat_sub)

lemma u32_bound: "unat (j :: u32) < 2 ^ 32"
  using unsigned_less [of j] by simp

lemma unat_plus1: "j < k \<Longrightarrow> unat (j + 1) = Suc (unat j)" for j k :: u32
  using u32_bound [of k] by (simp add: unat_word_ariths word_less_nat_alt)

lemma uint_less_int: "uint j < int n \<longleftrightarrow> unat j < n" for j :: u32
  by (metis of_nat_less_iff of_nat_unat)

lemma ua_put_in: "unat j < length (ua_d a) \<Longrightarrow> ua_put a j e = Some (a\<lparr>ua_d := (ua_d a)[unat j := e]\<rparr>)"
  by (simp add: ua_put_def arr_set_def uint_less_int)

lemma ua_get_in: "unat j < length (ua_d a) \<Longrightarrow> ua_get a j = ua_d a ! unat j"
  by (simp add: ua_get_def arr_get_def uint_less_int)

lemma ua_dtor_at_in:
  "unat j < length (ua_d a) \<Longrightarrow> ua_d a ! unat j = Some e \<Longrightarrow>
   ua_dtor_at j (a, w) = map_option (Pair a) (ut_dtor (ua_icd a) e w)"
  by (auto simp: ua_dtor_at_def ua_get_in ut_dtor_def split: option.splits Option.bind_splits)

lemma ua_for_done [simp]: "\<not> j < k \<Longrightarrow> ua_for body j k s = Some s"
  by (subst ua_for.simps) simp

lemma ua_for_step: "j < k \<Longrightarrow> ua_for body j k s = Option.bind (body j s) (ua_for body (j + 1) k)"
  by (subst ua_for.simps) simp

subsection \<open>The loops\<close>

lemma ua_for_write:
  assumes "unat j + length gs = unat k" "unat p + length gs \<le> length (ua_d a)" "length (ua_d a) < 2 ^ 32"
    and "ua_icd a = icd"
    and "\<And>i a w. i < length gs \<Longrightarrow> ua_icd a = icd \<Longrightarrow>
      body (j + of_nat i) (a, w) = ua_write (p + of_nat i) (gs ! i) (a, w)"
  shows "ua_for body j k (a, w) = do { (es, w1) \<leftarrow> produce gs w;
    Some (a\<lparr>ua_d := take (unat p) (ua_d a) @ map Some es @ drop (unat p + length gs) (ua_d a)\<rparr>, w1) }"
  using assms
proof (induction gs arbitrary: j p a w)
  case Nil
  then have "\<not> j < k" by (simp add: word_less_nat_alt)
  then show ?case by simp
next
  case (Cons g gs)
  have jk: "j < k" using Cons.prems(1) by (simp add: word_less_nat_alt)
  have p1: "unat (p + 1) = Suc (unat p)"
    using unat_plus [of p 1] Cons.prems(2,3) by simp
  have b0: "body j (a, w) = ua_write p g (a, w)" using Cons.prems(5) [of 0 a w] Cons.prems(4) by simp
  have rest: "body (j + 1 + of_nat i) (b, v) = ua_write (p + 1 + of_nat i) (gs ! i) (b, v)"
    if "i < length gs" "ua_icd b = icd" for i b v
    using Cons.prems(5) [of "Suc i" b v] that by (simp add: algebra_simps)
  have wr: "ua_write p g (a, w) = do { (e, w1) \<leftarrow> g w; Some (a\<lparr>ua_d := (ua_d a)[unat p := Some e]\<rparr>, w1) }"
    using Cons.prems(2) by (simp add: ua_write_def ua_put_in split: Option.bind_splits)
  have IH: "ua_for body (j + 1) k (a\<lparr>ua_d := (ua_d a)[unat p := Some e]\<rparr>, v) = do { (es, w1) \<leftarrow> produce gs v;
      Some (a\<lparr>ua_d := take (unat p) (ua_d a) @ Some e # map Some es @ drop (unat p + Suc (length gs)) (ua_d a)\<rparr>, w1) }" for e v
    using Cons.IH [of "j + 1" "p + 1" "a\<lparr>ua_d := (ua_d a)[unat p := Some e]\<rparr>" v] Cons.prems(1-4) rest jk p1
    by (simp add: unat_plus1 take_Suc_conv_app_nth take_update_cancel)
  show ?case
    by (simp add: ua_for_step [OF jk] b0 wr IH split: Option.bind_splits prod.splits)
qed

lemma ua_for_dtor:
  assumes "unat j + length ys = unat k"
    and "\<And>i w. i < length ys \<Longrightarrow> body (j + of_nat i) (a, w) = map_option (Pair a) (ut_dtor icd (ys ! i) w)"
  shows "ua_for body j k (a, w) = map_option (Pair a) (end_all icd ys w)"
  using assms
proof (induction ys arbitrary: j w)
  case Nil
  then have "\<not> j < k" by (simp add: word_less_nat_alt)
  then show ?case by simp
next
  case (Cons y ys)
  have jk: "j < k" using Cons.prems(1) by (simp add: word_less_nat_alt)
  have b0: "body j (a, v) = map_option (Pair a) (ut_dtor icd y v)" for v using Cons.prems(2) [of 0 v] by simp
  have IH: "ua_for body (j + 1) k (a, v) = map_option (Pair a) (end_all icd ys v)" for v
  proof (rule Cons.IH)
    show "unat (j + 1) + length ys = unat k" using Cons.prems(1) jk by (simp add: unat_plus1)
    show "body (j + 1 + of_nat i) (a, u) = map_option (Pair a) (ut_dtor icd (ys ! i) u)" if "i < length ys" for i u
      using Cons.prems(2) [of "Suc i" u] that by (simp add: algebra_simps)
  qed
  show ?case
    by (cases "ut_dtor icd y w") (simp_all add: ua_for_step [OF jk] b0 IH)
qed

subsection \<open>The invariant\<close>

text \<open>The number of slots is 0 or a power of two from 8 to the largest of 32 bits.\<close>

definition ua_size :: "u32 \<Rightarrow> bool" where
  "ua_size n \<longleftrightarrow> n = 0 \<or> (\<exists>k\<in>{3..31::nat}. n = 2 ^ k)"

text \<open>An array holds the elements xs: they fill its first slots, and there are as many slots as it says.\<close>

definition ua_rep :: "('e, 'w) ut_icd \<Rightarrow> 'e list \<Rightarrow> ('e, 'w) utarray \<Rightarrow> bool" where
  "ua_rep icd xs a \<longleftrightarrow> ua_icd a = icd \<and> unat (ua_i a) = length xs \<and> ua_size (ua_n a) \<and>
     length (ua_d a) = unat (ua_n a) \<and> length xs \<le> unat (ua_n a) \<and> take (length xs) (ua_d a) = map Some xs"

definition ua_elems :: "('e, 'w) utarray \<Rightarrow> 'e list" where
  "ua_elems a = map the (take (unat (ua_i a)) (ua_d a))"

text \<open>
  What a step that may exit achieves: it returns, or exits with -1 because realloc refused, or
  its result satisfies P.
\<close>

definition ua_wp :: "(int \<Rightarrow> bool) \<Rightarrow> (int + 's) option \<Rightarrow> ('s \<Rightarrow> bool) \<Rightarrow> bool" where
  "ua_wp A r P = (case r of None \<Rightarrow> False | Some (Inl c) \<Rightarrow> c = - 1 \<and> (\<exists>k. \<not> A k) | Some (Inr s) \<Rightarrow> P s)"

lemma ua_wp_simps [simp]:
  "\<not> ua_wp A None P" "ua_wp A (Some (Inr s)) P = P s" "ua_wp A (Some (Inl c)) P = (c = - 1 \<and> (\<exists>k. \<not> A k))"
  by (simp_all add: ua_wp_def)

lemma ua_wp_then:
  assumes "ua_wp A r Q" "\<And>s. Q s \<Longrightarrow> ua_wp A (f s) P"
  shows "ua_wp A (and_then r f) P"
proof (cases r)
  case (Some c)
  then show ?thesis using assms by (cases c) simp_all
qed (use assms(1) in simp)

lemma ua_rep_elems: "ua_rep icd xs a \<Longrightarrow> ua_elems a = xs"
  by (simp add: ua_rep_def ua_elems_def comp_def)

lemma ua_rep_init: "ua_rep icd [] (utarray_init icd)"
  by (simp add: ua_rep_def utarray_init_def ua_size_def)

lemma ua_rep_nth: "ua_rep icd xs a \<Longrightarrow> k < length xs \<Longrightarrow> ua_d a ! k = Some (xs ! k)"
  unfolding ua_rep_def by (metis length_map nth_map nth_take)

lemma ua_rep_len: "ua_rep icd xs a \<Longrightarrow> length (ua_d a) < 2 ^ 32"
  using u32_bound by (simp add: ua_rep_def)

subsection \<open>Room\<close>

lemma unat_pow: "k < 32 \<Longrightarrow> unat ((2 :: u32) ^ k) = 2 ^ k"
  using power_strict_increasing [of k 32 "2 :: nat"] of_nat_inverse [of "2 ^ k" "2 ^ k :: u32"] by simp

lemma ua_size_pow: "3 \<le> k \<Longrightarrow> k \<le> 31 \<Longrightarrow> ua_size (2 ^ k)"
  by (auto simp: ua_size_def)

lemma ua_sizeE:
  assumes "ua_size n"
  obtains "n = 0" | k where "3 \<le> k" "k \<le> 31" "n = 2 ^ k"
  using assms by (auto simp: ua_size_def)

lemma ua_double_pow:
  assumes "k \<le> 31" "3 \<le> k" "want \<le> 2 ^ 31"
  shows "\<exists>m. ua_double want (2 ^ k) = Some m \<and> want \<le> m \<and> 2 ^ k \<le> m \<and> ua_size m"
  using assms(1,2)
proof (induction k rule: inc_induct)
  case base
  then show ?case using assms(3) ua_size_pow [of 31] by (subst ua_double.simps) (simp add: leD)
next
  case (step k)
  have nz: "(2 :: u32) ^ k \<noteq> 0" using step.hyps by simp
  have le: "(2 :: u32) ^ k \<le> 2 ^ Suc k"
    using step.hyps by (simp add: word_le_nat_alt unat_word_ariths unat_pow del: power_Suc)
  show ?case
  proof (cases "want > 2 ^ k")
    case True
    then show ?thesis using step.IH step.prems nz le
      by (subst ua_double.simps) (auto intro: order.trans)
  next
    case False
    then show ?thesis using step.hyps step.prems
      by (subst ua_double.simps) (simp add: ua_size_pow)
  qed
qed

lemma ua_double_grows:
  assumes "ua_size n" "want \<le> 2 ^ 31"
  shows "\<exists>m. ua_double want n = Some m \<and> want \<le> m \<and> n \<le> m \<and> ua_size m"
proof (cases "n = 0")
  case True
  show ?thesis
  proof (cases "want > 0")
    case w: True
    then show ?thesis using True ua_double_pow [of 3 want] assms(2) by (subst ua_double.simps) auto
  next
    case False
    then show ?thesis using True by (subst ua_double.simps) (simp add: ua_size_def not_less)
  qed
next
  case False
  then show ?thesis using assms ua_double_pow by (metis ua_sizeE)
qed

text \<open>More than 2 to the 31 slots: the count goes 2 to the 31, 0, 8 and round again.\<close>

lemma ua_size_double: "ua_size n \<Longrightarrow> ua_size (if n \<noteq> 0 then 2 * n else 8)"
proof (erule ua_sizeE)
  fix k :: nat
  assume k: "3 \<le> k" "k \<le> 31" "n = 2 ^ k"
  show ?thesis
  proof (cases "k = 31")
    case True
    then show ?thesis using k(3) by (simp add: ua_size_def)
  next
    case False
    then have "n \<noteq> 0" "2 * n = 2 ^ Suc k" using k by simp_all
    then show ?thesis using k False ua_size_pow [of "Suc k"] by simp
  qed
qed (use ua_size_pow [of 3] in simp)

lemma ua_size_le: "ua_size n \<Longrightarrow> n \<le> 2 ^ 31"
  by (erule ua_sizeE) (simp_all add: word_le_nat_alt unat_pow power_increasing [of _ 31 "2 :: nat", simplified])

lemma ua_double_stuck:
  assumes "ua_size n" "2 ^ 31 < want"
  shows "ua_double want n = None"
proof -
  have "ua_size n \<longrightarrow> \<not> 2 ^ 31 < want" if "ua_double want n = Some m" for m
    using that
  proof (rule ua_double.raw_induct [rotated])
    fix f :: "u32 \<Rightarrow> u32 \<Rightarrow> u32 option" and want n m
    assume IH: "\<And>want n m. f want n = Some m \<Longrightarrow> ua_size n \<longrightarrow> \<not> 2 ^ 31 < want"
      and run: "(if n < want then f want (if n \<noteq> 0 then 2 * n else 8) else Some n) = Some m"
    show "ua_size n \<longrightarrow> \<not> 2 ^ 31 < want"
    proof (cases "n < want")
      case True
      then show ?thesis using IH [of want] run ua_size_double [of n] by auto
    next
      case False
      then show ?thesis using ua_size_le [of n] by (meson leD leI order.trans)
    qed
  qed
  then show ?thesis using assms by fastforce
qed

lemma utarray_reserve_ok:
  assumes "ua_rep icd xs a" "length xs + unat by' \<le> 2 ^ 31"
  shows "ua_wp A (utarray_reserve A by' (a, w))
    (\<lambda>(b, v). v = w \<and> ua_rep icd xs b \<and> length xs + unat by' \<le> length (ua_d b) \<and> ua_i b = ua_i a)"
proof -
  have s: "unat (ua_i a + by') = length xs + unat by'"
    using assms unat_plus [of "ua_i a" by'] by (simp add: ua_rep_def)
  show ?thesis
  proof (cases "ua_i a + by' > ua_n a")
    case True
    have "ua_i a + by' \<le> 2 ^ 31" using s assms(2) by (simp add: word_le_nat_alt)
    then obtain m where m: "ua_double (ua_i a + by') (ua_n a) = Some m" "ua_i a + by' \<le> m" "ua_n a \<le> m" "ua_size m"
      using ua_double_grows [of "ua_n a" "ua_i a + by'"] assms(1) by (auto simp: ua_rep_def)
    have "length xs + unat by' \<le> unat m" "unat (ua_n a) \<le> unat m" using m s by (simp_all add: word_le_nat_alt)
    then show ?thesis using assms(1) True m(1,4) by (auto simp: utarray_reserve_def ua_rep_def)
  next
    case False
    then show ?thesis using assms(1) s by (simp add: utarray_reserve_def ua_rep_def word_less_nat_alt)
  qed
qed

subsection \<open>Arrays as lists\<close>

text \<open>
  What the operations promise, on the list of the elements: None where they promise nothing (an
  element that is not there, more than 2 to the 31 elements).
\<close>

type_synonym ('e, 'w) ua_list = "'e list \<times> 'w"

definition sp_add :: "('w \<Rightarrow> ('e \<times> 'w) option) list \<Rightarrow> nat \<Rightarrow> ('e, 'w) ua_list \<Rightarrow> ('e, 'w) ua_list option" where
  "sp_add gs j = (\<lambda>(xs, w). if length xs + length gs \<le> 2 ^ 31
     then do { (es, w1) \<leftarrow> produce gs w; Some (take j xs @ es @ drop j xs, w1) } else None)"

definition sp_push :: "('e, 'w) ut_icd \<Rightarrow> 'e \<Rightarrow> ('e, 'w) ua_list \<Rightarrow> ('e, 'w) ua_list option" where
  "sp_push icd p s = sp_add [ut_copy icd p] (length (fst s)) s"

definition sp_extend :: "('e, 'w) ut_icd \<Rightarrow> ('e, 'w) ua_list \<Rightarrow> ('e, 'w) ua_list option" where
  "sp_extend icd s = sp_add [ut_init icd] (length (fst s)) s"

definition sp_pop :: "('e, 'w) ut_icd \<Rightarrow> ('e, 'w) ua_list \<Rightarrow> ('e, 'w) ua_list option" where
  "sp_pop icd = (\<lambda>(xs, w). if xs = [] then None
     else do { w1 \<leftarrow> ut_dtor icd (last xs) w; Some (butlast xs, w1) })"

definition sp_resize :: "('e, 'w) ut_icd \<Rightarrow> nat \<Rightarrow> ('e, 'w) ua_list \<Rightarrow> ('e, 'w) ua_list option" where
  "sp_resize icd k = (\<lambda>(xs, w).
     if k < length xs then do { w1 \<leftarrow> end_all icd (drop k xs) w; Some (take k xs, w1) }
     else sp_add (replicate (k - length xs) (ut_init icd)) (length xs) (xs, w))"

definition sp_insert :: "('e, 'w) ut_icd \<Rightarrow> 'e list \<Rightarrow> nat \<Rightarrow> ('e, 'w) ua_list \<Rightarrow> ('e, 'w) ua_list option" where
  "sp_insert icd ps j s = (if ps = [] then Some s else do {
     s1 \<leftarrow> (if j > length (fst s) then sp_resize icd j s else Some s);
     sp_add (map (ut_copy icd) ps) j s1 })"

definition sp_erase :: "('e, 'w) ut_icd \<Rightarrow> nat \<Rightarrow> nat \<Rightarrow> ('e, 'w) ua_list \<Rightarrow> ('e, 'w) ua_list option" where
  "sp_erase icd pos len = (\<lambda>(xs, w). if pos + len > length xs then None else do {
     w1 \<leftarrow> end_all icd (take len (drop pos xs)) w;
     Some (take pos xs @ drop (pos + len) xs, w1) })"

definition sp_clear :: "('e, 'w) ut_icd \<Rightarrow> ('e, 'w) ua_list \<Rightarrow> ('e, 'w) ua_list option" where
  "sp_clear icd = (\<lambda>(xs, w). do { w1 \<leftarrow> end_all icd xs w; Some ([], w1) })"

text \<open>An operation refines its counterpart: whenever the list changes as promised, so does the array.\<close>

definition ua_sim :: "(int \<Rightarrow> bool) \<Rightarrow> ('e, 'w) ut_icd \<Rightarrow> (int + ('e, 'w) ua_state) option \<Rightarrow> ('e, 'w) ua_list option \<Rightarrow> bool" where
  "ua_sim A icd r t \<longleftrightarrow> (\<forall>ys v. t = Some (ys, v) \<longrightarrow> ua_wp A r (\<lambda>(b, u). u = v \<and> ua_rep icd ys b))"

lemma ua_sim_then:
  assumes "ua_sim A icd r t" "\<And>xs a w. t = Some (xs, w) \<Longrightarrow> ua_rep icd xs a \<Longrightarrow> ua_sim A icd (f (a, w)) (g (xs, w))"
  shows "ua_sim A icd (and_then r f) (Option.bind t g)"
proof (cases t)
  case (Some s)
  obtain ys v where t: "t = Some (ys, v)" using Some by (cases s) simp
  show ?thesis
    unfolding ua_sim_def
  proof (intro allI impI)
    fix zs u
    assume z: "Option.bind t g = Some (zs, u)"
    show "ua_wp A (and_then r f) (\<lambda>(b, x). x = u \<and> ua_rep icd zs b)"
    proof (rule ua_wp_then)
      show "ua_wp A r (\<lambda>(b, x). x = v \<and> ua_rep icd ys b)" using assms(1) t by (simp add: ua_sim_def)
      show "ua_wp A (f s) (\<lambda>(b, x). x = u \<and> ua_rep icd zs b)" if "(\<lambda>(b, x). x = v \<and> ua_rep icd ys b) s" for s
        using assms(2) [of ys v "fst s"] that z t by (auto simp: ua_sim_def split_beta)
    qed
  qed
qed (simp add: ua_sim_def)

lemma ua_sim_Some: "ua_rep icd xs a \<Longrightarrow> ua_sim A icd (Some (Inr (a, w))) (Some (xs, w))"
  by (simp add: ua_sim_def)

lemma ua_rep_add:
  assumes "ua_rep icd xs a" "length xs + length es \<le> length (ua_d a)" "j \<le> length xs"
    and "take (length xs + length es) d = map Some (take j xs @ es @ drop j xs)" "length d = length (ua_d a)"
    and "unat i = length xs + length es"
  shows "ua_rep icd (take j xs @ es @ drop j xs) (a\<lparr>ua_d := d, ua_i := i\<rparr>)"
  using assms by (simp add: ua_rep_def add.commute)

lemma ua_rep_take:
  assumes "ua_rep icd xs a" "unat i = k" "k \<le> length xs"
  shows "ua_rep icd (take k xs) (a\<lparr>ua_i := i\<rparr>)"
proof -
  have "take k (take (length xs) (ua_d a)) = take k (map Some xs)" using assms(1) by (simp add: ua_rep_def)
  then show ?thesis using assms by (simp add: ua_rep_def min_def take_map)
qed

text \<open>Slots moved up to make a gap at j, and the gap filled.\<close>

lemma gap_filled:
  assumes "take (length xs) d = map Some xs" "length xs + length es \<le> length d" "j \<le> length xs"
    and "d1 = take (j + length es) d @ take (length xs - j) (drop j d) @ drop (length xs + length es) d"
  shows "take (length xs + length es) (take j d1 @ map Some es @ drop (j + length es) d1) =
      map Some (take j xs @ es @ drop j xs)"
    and "length (take j d1 @ map Some es @ drop (j + length es) d1) = length d"
proof -
  have d: "take j d = map Some (take j xs)"
    using arg_cong [OF assms(1), of "take j"] assms(3) by (simp add: take_map min_def)
  have dr: "take (length xs - j) (drop j d) = map Some (drop j xs)"
    using arg_cong [OF assms(1), of "drop j"] by (simp add: drop_map drop_take)
  have t: "take j d1 = map Some (take j xs)"
    using assms(2-4) d by (simp add: min_def)
  have r: "drop (j + length es) d1 = map Some (drop j xs) @ drop (length xs + length es) d"
    using assms(2-4) dr by (simp add: min_def)
  show "take (length xs + length es) (take j d1 @ map Some es @ drop (j + length es) d1) =
      map Some (take j xs @ es @ drop j xs)"
    using assms(3) unfolding t r by simp
  show "length (take j d1 @ map Some es @ drop (j + length es) d1) = length d"
    using assms(2,3) unfolding t r by simp
qed

lemma ua_memmove_nat:
  "src + k \<le> length (ua_d a) \<Longrightarrow> dst + k \<le> length (ua_d a) \<Longrightarrow> ua_memmove (int dst) (int src) (int k) a =
   Some (a\<lparr>ua_d := take dst (ua_d a) @ take k (drop src (ua_d a)) @ drop (dst + k) (ua_d a)\<rparr>)"
  by (simp add: ua_memmove_def nat_add_distrib flip: of_nat_add)

lemma ua_gap:
  assumes "ua_rep icd xs a" "length xs + unat m \<le> length (ua_d a)" "unat j \<le> length xs" "length xs + unat m \<le> 2 ^ 31"
  shows "(if j < ua_i a then ua_memmove (uint (j + m)) (uint j) (uint (ua_i a - j)) a else Some a) =
    Some (a\<lparr>ua_d := take (unat j + unat m) (ua_d a) @ take (length xs - unat j) (drop (unat j) (ua_d a)) @
      drop (length xs + unat m) (ua_d a)\<rparr>)"
proof -
  have i: "unat (ua_i a) = length xs" using assms(1) by (simp add: ua_rep_def)
  show ?thesis
  proof (cases "j < ua_i a")
    case True
    have jm: "unat (j + m) = unat j + unat m" using assms(3,4) by (intro unat_plus) simp
    have ij: "unat (ua_i a - j) = length xs - unat j" using True i by (simp add: unat_minus)
    have eqs: "uint (j + m) = int (unat j + unat m)" "uint (ua_i a - j) = int (length xs - unat j)"
      "uint j = int (unat j)"
      using jm ij by (metis of_nat_unat)+
    have sum: "unat j + unat m + (length xs - unat j) = length xs + unat m" using assms(3) by simp
    have "ua_memmove (uint (j + m)) (uint j) (uint (ua_i a - j)) a =
      Some (a\<lparr>ua_d := take (unat j + unat m) (ua_d a) @ take (length xs - unat j) (drop (unat j) (ua_d a)) @
        drop (length xs + unat m) (ua_d a)\<rparr>)"
      unfolding eqs using assms(2) sum by (subst ua_memmove_nat) (simp_all add: add.commute)
    then show ?thesis using True by simp
  next
    case False
    then have "unat j = length xs" using i assms(3) by (simp add: word_less_nat_alt)
    then show ?thesis using False by simp
  qed
qed

subsection \<open>Every operation refines its counterpart\<close>

lemma ua_copy_at_in:
  assumes "unat j < length (ua_d a)"
  shows "ua_copy_at j p (a, w) = do { (es, w1) \<leftarrow> produce [ut_copy (ua_icd a) p] w;
    Some (a\<lparr>ua_d := take (unat j) (ua_d a) @ map Some es @ drop (unat j + length es) (ua_d a)\<rparr>, w1) }"
  using assms by (simp add: ua_copy_at_def ua_write_def ua_put_in upd_conv_take_nth_drop split: Option.bind_splits)

lemma ua_init_at_in:
  assumes "unat j < length (ua_d a)"
  shows "ua_init_at j (a, w) = do { (es, w1) \<leftarrow> produce [ut_init (ua_icd a)] w;
    Some (a\<lparr>ua_d := take (unat j) (ua_d a) @ map Some es @ drop (unat j + length es) (ua_d a)\<rparr>, w1) }"
  using assms by (simp add: ua_init_at_def ua_write_def ua_put_in upd_conv_take_nth_drop split: Option.bind_splits)

text \<open>Making room for m elements, moving the ones from j on, and making the new ones.\<close>

lemma ua_add_sim:
  assumes rep: "ua_rep icd xs a" and j: "unat j \<le> length xs" and m: "unat m = length gs"
    and fill: "\<And>b v. ua_icd b = icd \<Longrightarrow> unat j + length gs \<le> length (ua_d b) \<Longrightarrow> length (ua_d b) < 2 ^ 32 \<Longrightarrow>
      f (b, v) = do { (es, w1) \<leftarrow> produce gs v;
        Some (b\<lparr>ua_d := take (unat j) (ua_d b) @ map Some es @ drop (unat j + length gs) (ua_d b)\<rparr>, w1) }"
  shows "ua_sim A icd (and_then (utarray_reserve A m (a, w)) (\<lambda>(a, w). do {
      a1 \<leftarrow> (if j < ua_i a then ua_memmove (uint (j + m)) (uint j) (uint (ua_i a - j)) a else Some a);
      (a2, w2) \<leftarrow> f (a1, w);
      Some (Inr (a2\<lparr>ua_i := ua_i a + m\<rparr>, w2)) })) (sp_add gs (unat j) (xs, w))"
  unfolding ua_sim_def
proof (intro allI impI)
  fix ys v
  assume "sp_add gs (unat j) (xs, w) = Some (ys, v)"
  then obtain es where lim: "length xs + unat m \<le> 2 ^ 31" and es: "produce gs w = Some (es, v)"
    and ys: "ys = take (unat j) xs @ es @ drop (unat j) xs"
    using m by (auto simp: sp_add_def bind_Some_iff split: if_splits)
  have le: "length es = unat m" using produce_length [OF es] m by simp
  show "ua_wp A (and_then (utarray_reserve A m (a, w)) (\<lambda>(a, w). do {
      a1 \<leftarrow> (if j < ua_i a then ua_memmove (uint (j + m)) (uint j) (uint (ua_i a - j)) a else Some a);
      (a2, w2) \<leftarrow> f (a1, w);
      Some (Inr (a2\<lparr>ua_i := ua_i a + m\<rparr>, w2)) })) (\<lambda>(b, u). u = v \<and> ua_rep icd ys b)"
  proof (rule ua_wp_then [OF utarray_reserve_ok [OF rep lim]], clarify)
    fix b
    assume b: "ua_rep icd xs b" "length xs + unat m \<le> length (ua_d b)"
    define d1 where "d1 = take (unat j + unat m) (ua_d b) @ take (length xs - unat j) (drop (unat j) (ua_d b)) @
      drop (length xs + unat m) (ua_d b)"
    have gap: "(if j < ua_i b then ua_memmove (uint (j + m)) (uint j) (uint (ua_i b - j)) b else Some b) =
        Some (b\<lparr>ua_d := d1\<rparr>)"
      using ua_gap [OF b j lim] by (simp add: d1_def)
    have t: "take (length xs) (ua_d b) = map Some xs" using b(1) by (simp add: ua_rep_def)
    note filled = gap_filled [OF t, of es "unat j" d1]
    have ld: "length d1 = length (ua_d b)" using b(2) j by (simp add: d1_def)
    have "f (b\<lparr>ua_d := d1\<rparr>, w) =
        Some (b\<lparr>ua_d := take (unat j) d1 @ map Some es @ drop (unat j + length gs) d1\<rparr>, v)"
      using fill [of "b\<lparr>ua_d := d1\<rparr>" w] b(2) j m ld es ua_rep_len [OF b(1)] b(1) by (simp add: ua_rep_def)
    moreover have "unat (ua_i b + m) = length xs + length es"
      using b(1) lim le by (subst unat_plus) (simp_all add: ua_rep_def)
    then have "ua_rep icd ys (b\<lparr>ua_d := take (unat j) d1 @ map Some es @ drop (unat j + length gs) d1, ua_i := ua_i b + m\<rparr>)"
      unfolding ys using filled b j le m by (intro ua_rep_add [OF b(1)]) (simp_all add: d1_def)
    ultimately show "ua_wp A (do {
        a1 \<leftarrow> (if j < ua_i b then ua_memmove (uint (j + m)) (uint j) (uint (ua_i b - j)) b else Some b);
        (a2, w2) \<leftarrow> f (a1, w);
        Some (Inr (a2\<lparr>ua_i := ua_i b + m\<rparr>, w2)) }) (\<lambda>(b, u). u = v \<and> ua_rep icd ys b)"
      unfolding gap by simp
  qed
qed

lemma and_then_cong: "(\<And>s. r = Some (Inr s) \<Longrightarrow> f s = g s) \<Longrightarrow> and_then r f = and_then r g"
  by (auto simp: and_then_def split: option.splits sum.splits)

lemma utarray_reserve_keeps:
  "utarray_reserve A m (a, w) = Some (Inr (b, v)) \<Longrightarrow> ua_i b = ua_i a \<and> ua_icd b = ua_icd a"
  by (auto simp: utarray_reserve_def bind_Some_iff split: if_splits)

lemma utarray_push_back_sim:
  assumes rep: "ua_rep icd xs a"
  shows "ua_sim A icd (utarray_push_back A p (a, w)) (sp_push icd p (xs, w))"
proof -
  have i: "unat (ua_i a) = length xs" using rep by (simp add: ua_rep_def)
  have "utarray_push_back A p (a, w) = and_then (utarray_reserve A 1 (a, w)) (\<lambda>(b, w). do {
      a1 \<leftarrow> (if ua_i a < ua_i b then ua_memmove (uint (ua_i a + 1)) (uint (ua_i a)) (uint (ua_i b - ua_i a)) b else Some b);
      (a2, w2) \<leftarrow> ua_copy_at (ua_i a) p (a1, w);
      Some (Inr (a2\<lparr>ua_i := ua_i b + 1\<rparr>, w2)) })"
    unfolding utarray_push_back_def by (rule and_then_cong) (auto dest!: utarray_reserve_keeps)
  then show ?thesis
    using ua_add_sim [OF rep, of "ua_i a" 1 "[ut_copy icd p]" "ua_copy_at (ua_i a) p" A w] i
    by (simp add: sp_push_def ua_copy_at_in split: Option.bind_splits)
qed

lemma utarray_extend_back_sim:
  assumes rep: "ua_rep icd xs a"
  shows "ua_sim A icd (utarray_extend_back A (a, w)) (sp_extend icd (xs, w))"
proof -
  have i: "unat (ua_i a) = length xs" using rep by (simp add: ua_rep_def)
  have "utarray_extend_back A (a, w) = and_then (utarray_reserve A 1 (a, w)) (\<lambda>(b, w). do {
      a1 \<leftarrow> (if ua_i a < ua_i b then ua_memmove (uint (ua_i a + 1)) (uint (ua_i a)) (uint (ua_i b - ua_i a)) b else Some b);
      (a2, w2) \<leftarrow> ua_init_at (ua_i a) (a1, w);
      Some (Inr (a2\<lparr>ua_i := ua_i b + 1\<rparr>, w2)) })"
    unfolding utarray_extend_back_def
    by (rule and_then_cong)
      (auto dest!: utarray_reserve_keeps simp: ua_init_at_def ua_write_def ua_put_def split: Option.bind_splits)
  then show ?thesis
    using ua_add_sim [OF rep, of "ua_i a" 1 "[ut_init icd]" "ua_init_at (ua_i a)" A w] i
    by (simp add: sp_extend_def ua_init_at_in split: Option.bind_splits)
qed

lemma utarray_pop_back_sim:
  assumes rep: "ua_rep icd xs a"
  shows "ua_sim A icd (map_option Inr (utarray_pop_back (a, w))) (sp_pop icd (xs, w))"
proof (cases xs rule: rev_cases)
  case (snoc ys x)
  have i: "unat (ua_i a - 1) = length ys"
    using rep snoc unat_minus [of 1 "ua_i a"] by (simp add: ua_rep_def word_le_nat_alt)
  have x: "ua_d a ! length ys = Some x" using ua_rep_nth [OF rep, of "length ys"] snoc by simp
  have l: "length ys < length (ua_d a)" using rep snoc by (simp add: ua_rep_def)
  have "ua_rep icd ys (a\<lparr>ua_i := ua_i a - 1\<rparr>)"
    using ua_rep_take [OF rep i] snoc by simp
  then show ?thesis
    using snoc i x l rep
    by (auto simp: ua_sim_def sp_pop_def utarray_pop_back_def ua_dtor_at_in bind_Some_iff ua_rep_def)
qed (simp add: ua_sim_def sp_pop_def)


lemma ua_dtor_at_rep:
  assumes "ua_rep icd xs a" "unat j < length xs"
  shows "ua_dtor_at j (a, w) = map_option (Pair a) (ut_dtor icd (xs ! unat j) w)"
proof -
  have "unat j < length (ua_d a)" using assms by (simp add: ua_rep_def)
  then show ?thesis using ua_dtor_at_in [of j a "xs ! unat j" w] ua_rep_nth [OF assms] assms(1) by (simp add: ua_rep_def)
qed

lemma ua_end_from:
  assumes rep: "ua_rep icd xs a" and k: "k \<le> ua_i a"
  shows "(if icd_dtor (ua_icd a) \<noteq> None then ua_for ua_dtor_at k (ua_i a) (a, w) else Some (a, w)) =
    map_option (Pair a) (end_all icd (drop (unat k) xs) w)"
proof (cases "icd_dtor icd = None")
  case True
  then show ?thesis using rep by (simp add: ua_rep_def end_all_none)
next
  case False
  have i: "unat (ua_i a) = length xs" "unat k \<le> length xs"
    using rep k by (simp_all add: ua_rep_def word_le_nat_alt)
  have "ua_for ua_dtor_at k (ua_i a) (a, w) = map_option (Pair a) (end_all icd (drop (unat k) xs) w)"
  proof (rule ua_for_dtor)
    show "unat k + length (drop (unat k) xs) = unat (ua_i a)" using i by simp
    fix n v
    assume n: "n < length (drop (unat k) xs)"
    then have "unat (k + of_nat n) = unat k + n"
      using i u32_bound [of "ua_i a"] by (subst unat_plus) (simp_all add: unat_of_nat)
    then show "ua_dtor_at (k + of_nat n) (a, v) = map_option (Pair a) (ut_dtor icd (drop (unat k) xs ! n) v)"
      using n ua_dtor_at_rep [OF rep, of "k + of_nat n" v] by simp
  qed
  then show ?thesis using False rep by (simp add: ua_rep_def)
qed

lemma utarray_clear_sim:
  assumes rep: "ua_rep icd xs a"
  shows "ua_sim A icd (map_option Inr (utarray_clear (a, w))) (sp_clear icd (xs, w))"
proof (cases "ua_i a = 0")
  case True
  then show ?thesis using rep
    by (simp add: ua_sim_def sp_clear_def utarray_clear_def) (simp add: ua_rep_def)
next
  case False
  then have "ua_i a > 0" by (simp add: word_neq_0_conv)
  then show ?thesis
    using ua_end_from [OF rep, of 0 w] ua_rep_take [OF rep, of 0 0]
    by (auto simp: ua_sim_def sp_clear_def utarray_clear_def bind_Some_iff)
qed

lemma utarray_resize_sim:
  assumes rep: "ua_rep icd xs a"
  shows "ua_sim A icd (utarray_resize A num (a, w)) (sp_resize icd (unat num) (xs, w))"
proof -
  have i: "unat (ua_i a) = length xs" using rep by (simp add: ua_rep_def)
  consider "num < ua_i a" | "ua_i a < num" | "num = ua_i a" by fastforce
  then show ?thesis
  proof cases
    case 1
    have "num \<le> ua_i a" using 1 by simp
    then show ?thesis
      using 1 i ua_end_from [OF rep, of num w] ua_rep_take [OF rep, of num "unat num"]
      by (auto simp: ua_sim_def sp_resize_def utarray_resize_def bind_Some_iff word_less_nat_alt)
  next
    case 3
    then show ?thesis
      using i rep by (simp add: ua_sim_def sp_resize_def utarray_resize_def sp_add_def)
  next
    case 2
    let ?m = "num - ua_i a"
    let ?gs = "replicate (unat num - length xs) (ut_init icd)"
    have m: "unat ?m = length ?gs" using 2 i by (simp add: unat_minus)
    have le: "length xs \<le> unat num" using 2 i by (simp add: word_less_nat_alt)
    have fill: "ua_for ua_init_at (ua_i a) num (b, v) = do { (es, w1) \<leftarrow> produce ?gs v;
        Some (b\<lparr>ua_d := take (unat (ua_i a)) (ua_d b) @ map Some es @ drop (unat (ua_i a) + length ?gs) (ua_d b)\<rparr>, w1) }"
      if "ua_icd b = icd" "unat (ua_i a) + length ?gs \<le> length (ua_d b)" "length (ua_d b) < 2 ^ 32" for b v
      using that i le by (intro ua_for_write [where icd = icd]) (simp_all add: ua_init_at_def)
    have "utarray_resize A num (a, w) = and_then (utarray_reserve A ?m (a, w)) (\<lambda>(b, w). do {
        a1 \<leftarrow> (if ua_i a < ua_i b then ua_memmove (uint (ua_i a + ?m)) (uint (ua_i a)) (uint (ua_i b - ua_i a)) b else Some b);
        (a2, w2) \<leftarrow> ua_for ua_init_at (ua_i a) num (a1, w);
        Some (Inr (a2\<lparr>ua_i := ua_i b + ?m\<rparr>, w2)) })"
    proof -
      have "utarray_resize A num (a, w) = and_then (utarray_reserve A ?m (a, w))
          (\<lambda>s. and_then (map_option Inr (ua_for ua_init_at (ua_i a) num s)) (\<lambda>(a1, w1). Some (Inr (a1\<lparr>ua_i := num\<rparr>, w1))))"
        using 2 by (auto simp: utarray_resize_def and_then_def split: option.splits sum.splits)
      also have "\<dots> = and_then (utarray_reserve A ?m (a, w)) (\<lambda>(b, w). do {
        a1 \<leftarrow> (if ua_i a < ua_i b then ua_memmove (uint (ua_i a + ?m)) (uint (ua_i a)) (uint (ua_i b - ua_i a)) b else Some b);
        (a2, w2) \<leftarrow> ua_for ua_init_at (ua_i a) num (a1, w);
        Some (Inr (a2\<lparr>ua_i := ua_i b + ?m\<rparr>, w2)) })"
        by (rule and_then_cong) (auto dest!: utarray_reserve_keeps simp: and_then_def split: option.splits Option.bind_splits)
      finally show ?thesis .
    qed
    then show ?thesis
      using ua_add_sim [OF rep, of "ua_i a" ?m ?gs "ua_for ua_init_at (ua_i a) num" A w] i m le fill
      by (simp add: sp_resize_def)
  qed
qed

lemma ua_resize_up:
  assumes rep: "ua_rep icd xs a"
  shows "ua_sim A icd (if j > ua_i a then utarray_resize A j (a, w) else Some (Inr (a, w)))
    (if unat j > length xs then sp_resize icd (unat j) (xs, w) else Some (xs, w))"
  using rep utarray_resize_sim [OF rep, of A j w] ua_sim_Some [OF rep, of A w]
  by (simp add: ua_rep_def word_less_nat_alt)

lemma sp_resize_length: "sp_resize icd k s = Some (ys, v) \<Longrightarrow> length ys = k"
  by (cases s) (auto simp: sp_resize_def sp_add_def bind_Some_iff dest!: produce_length split: if_splits)

lemma utarray_insert_sim:
  assumes rep: "ua_rep icd xs a"
  shows "ua_sim A icd (utarray_insert A p j (a, w)) (sp_insert icd [p] (unat j) (xs, w))"
  unfolding utarray_insert_def sp_insert_def
proof (simp only: fst_conv list.distinct(2) if_False, rule ua_sim_then [OF ua_resize_up [OF rep]])
  fix ys b v
  assume t: "(if unat j > length xs then sp_resize icd (unat j) (xs, w) else Some (xs, w)) = Some (ys, v)"
    and b: "ua_rep icd ys b"
  have j: "unat j \<le> length ys" using t by (auto dest: sp_resize_length split: if_splits)
  show "ua_sim A icd (and_then (utarray_reserve A 1 (b, v)) (\<lambda>(a, w). do {
       a1 \<leftarrow> (if j < ua_i a then ua_memmove (uint (j + 1)) (uint j) (uint (ua_i a - j)) a else Some a);
       (a2, w2) \<leftarrow> ua_copy_at j p (a1, w);
       Some (Inr (a2\<lparr>ua_i := ua_i a + 1\<rparr>, w2)) })) (sp_add (map (ut_copy icd) [p]) (unat j) (ys, v))"
    using ua_add_sim [OF b j, of 1 "[ut_copy icd p]" "ua_copy_at j p" A v]
    by (simp add: ua_copy_at_in split: Option.bind_splits)
qed

lemma utarray_inserta_sim:
  assumes rep: "ua_rep icd xs a" and v: "ua_rep icd' ps v"
  shows "ua_sim A icd (utarray_inserta A v j (a, w)) (sp_insert icd ps (unat j) (xs, w))"
proof (cases "ps = []")
  case True
  then have "ua_i v = 0" using v by (simp add: ua_rep_def unat_eq_0)
  then show ?thesis using True ua_sim_Some [OF rep] by (simp add: utarray_inserta_def sp_insert_def)
next
  case False
  have lv: "unat (ua_i v) = length ps" using v by (simp add: ua_rep_def)
  then have nz: "ua_i v \<noteq> 0" using False by auto
  let ?f = "ua_for (\<lambda>k s. do { e \<leftarrow> ua_get v k; ua_copy_at (j + k) e s }) 0 (ua_i v)"
  have body: "(do { e \<leftarrow> ua_get v (0 + of_nat i); ua_copy_at (j + (0 + of_nat i)) e (b, u) }) =
      ua_write (j + of_nat i) (map (ut_copy icd) ps ! i) (b, u)"
    if i: "i < length ps" and b: "ua_icd b = icd" for i b u
  proof -
    have "unat (of_nat i :: u32) = i" using i lv u32_bound [of "ua_i v"] by (simp add: unat_of_nat)
    moreover have "i < length (ua_d v)" using i v by (simp add: ua_rep_def)
    ultimately have "ua_get v (of_nat i) = Some (ps ! i)"
      using ua_rep_nth [OF v i] by (simp add: ua_get_in)
    then show ?thesis using i b by (simp add: ua_copy_at_def)
  qed
  have fill: "?f (b, u) = do { (es, w1) \<leftarrow> produce (map (ut_copy icd) ps) u;
      Some (b\<lparr>ua_d := take (unat j) (ua_d b) @ map Some es @ drop (unat j + length (map (ut_copy icd) ps)) (ua_d b)\<rparr>, w1) }"
    if "ua_icd b = icd" "unat j + length (map (ut_copy icd) ps) \<le> length (ua_d b)" "length (ua_d b) < 2 ^ 32" for b u
    using that lv body by (intro ua_for_write [where icd = icd]) simp_all
  show ?thesis
    unfolding utarray_inserta_def sp_insert_def
  proof (simp only: fst_conv False nz if_False, rule ua_sim_then [OF ua_resize_up [OF rep]])
    fix ys b u
    assume t: "(if unat j > length xs then sp_resize icd (unat j) (xs, w) else Some (xs, w)) = Some (ys, u)"
      and b: "ua_rep icd ys b"
    have j: "unat j \<le> length ys" using t by (auto dest: sp_resize_length split: if_splits)
    show "ua_sim A icd (and_then (utarray_reserve A (ua_i v) (b, u)) (\<lambda>(a, w). do {
        a1 \<leftarrow> (if j < ua_i a then ua_memmove (uint (j + ua_i v)) (uint j) (uint (ua_i a - j)) a else Some a);
        (a2, w2) \<leftarrow> ?f (a1, w);
        Some (Inr (a2\<lparr>ua_i := ua_i a + ua_i v\<rparr>, w2)) })) (sp_add (map (ut_copy icd) ps) (unat j) (ys, u))"
      using lv by (intro ua_add_sim [OF b j] fill) simp_all
  qed
qed

lemma utarray_concat_sim:
  assumes "ua_rep icd xs a" "ua_rep icd' ps v"
  shows "ua_sim A icd (utarray_concat A v (a, w)) (sp_insert icd ps (length xs) (xs, w))"
  using utarray_inserta_sim [OF assms, of A "ua_i a" w] assms(1) by (simp add: utarray_concat_def ua_rep_def)

lemma utarray_erase_sim:
  assumes rep: "ua_rep icd xs a"
  shows "ua_sim A icd (map_option Inr (utarray_erase pos len (a, w))) (sp_erase icd (unat pos) (unat len) (xs, w))"
  unfolding ua_sim_def
proof (intro allI impI)
  fix ys v
  assume "sp_erase icd (unat pos) (unat len) (xs, w) = Some (ys, v)"
  then have le: "unat pos + unat len \<le> length xs"
    and e: "end_all icd (take (unat len) (drop (unat pos) xs)) w = Some v"
    and ys: "ys = take (unat pos) xs @ drop (unat pos + unat len) xs"
    by (auto simp: sp_erase_def bind_Some_iff split: if_splits)
  have i: "unat (ua_i a) = length xs" using rep by (simp add: ua_rep_def)
  have pl: "unat (pos + len) = unat pos + unat len"
    using le i u32_bound [of "ua_i a"] by (intro unat_plus) simp
  have ended: "(if icd_dtor (ua_icd a) \<noteq> None
      then ua_for (\<lambda>k s. if pos + k < ua_i a then ua_dtor_at (pos + k) s else None) 0 len (a, w) else Some (a, w)) = Some (a, v)"
  proof (cases "icd_dtor icd = None")
    case True
    then show ?thesis using rep e by (simp add: ua_rep_def end_all_none)
  next
    case False
    have "ua_for (\<lambda>k s. if pos + k < ua_i a then ua_dtor_at (pos + k) s else None) 0 len (a, w) =
        map_option (Pair a) (end_all icd (take (unat len) (drop (unat pos) xs)) w)"
    proof (rule ua_for_dtor)
      show "unat 0 + length (take (unat len) (drop (unat pos) xs)) = unat len" using le by simp
      fix n u
      assume n: "n < length (take (unat len) (drop (unat pos) xs))"
      then have "unat (pos + (0 + of_nat n)) = unat pos + n"
        using le i u32_bound [of "ua_i a"] by (subst unat_plus) (simp_all add: unat_of_nat)
      then show "(if pos + (0 + of_nat n) < ua_i a then ua_dtor_at (pos + (0 + of_nat n)) (a, u) else None) =
          map_option (Pair a) (ut_dtor icd (take (unat len) (drop (unat pos) xs) ! n) u)"
        using n le i ua_dtor_at_rep [OF rep, of "pos + of_nat n" u] by (simp add: word_less_nat_alt)
    qed
    then show ?thesis using False rep e by (simp add: ua_rep_def)
  qed
  let ?d = "ua_d a"
  have t: "take (length xs) ?d = map Some xs" and ld: "length xs \<le> length ?d" using rep by (simp_all add: ua_rep_def)
  have moved: "\<exists>d. (if ua_i a > pos + len then ua_memmove (uint pos) (uint (pos + len)) (uint (ua_i a - (pos + len))) a else Some a) =
      Some (a\<lparr>ua_d := d\<rparr>) \<and> length d = length ?d \<and> take (length xs - unat len) d = map Some ys"
  proof (cases "ua_i a > pos + len")
    case True
    let ?k = "length xs - (unat pos + unat len)"
    have k: "unat (ua_i a - (pos + len)) = ?k" using True i pl by (subst unat_minus) simp_all
    have eqs: "uint pos = int (unat pos)" "uint (pos + len) = int (unat pos + unat len)" "uint (ua_i a - (pos + len)) = int ?k"
      using pl k by (metis of_nat_unat)+
    let ?d' = "take (unat pos) ?d @ take ?k (drop (unat pos + unat len) ?d) @ drop (unat pos + ?k) ?d"
    have "take (unat pos) ?d = map Some (take (unat pos) xs)"
      using arg_cong [OF t, of "take (unat pos)"] le by (simp add: take_map min_def)
    moreover have "take ?k (drop (unat pos + unat len) ?d) = map Some (drop (unat pos + unat len) xs)"
      using arg_cong [OF t, of "drop (unat pos + unat len)"] by (simp add: drop_map drop_take)
    ultimately have "take (length xs - unat len) ?d' = map Some ys" using ys le ld by simp
    moreover have "ua_memmove (uint pos) (uint (pos + len)) (uint (ua_i a - (pos + len))) a = Some (a\<lparr>ua_d := ?d'\<rparr>)"
      unfolding eqs using le ld by (subst ua_memmove_nat) simp_all
    ultimately show ?thesis using True le ld by auto
  next
    case False
    then have n: "length xs = unat pos + unat len" using i pl le by (simp add: word_less_nat_alt)
    have "take (unat pos) ?d = map Some (take (unat pos) xs)"
      using arg_cong [OF t, of "take (unat pos)"] le by (simp add: take_map min_def)
    then show ?thesis using False n ys by (auto intro!: exI [of _ ?d])
  qed
  then obtain d where d: "(if ua_i a > pos + len then ua_memmove (uint pos) (uint (pos + len)) (uint (ua_i a - (pos + len))) a else Some a) =
      Some (a\<lparr>ua_d := d\<rparr>)" "length d = length ?d" "take (length xs - unat len) d = map Some ys" by blast
  have "unat (ua_i a - len) = length xs - unat len" using i le by (subst unat_minus) (simp_all add: word_le_nat_alt)
  moreover have "length ys = length xs - unat len" using ys le by simp
  ultimately have "ua_rep icd ys (a\<lparr>ua_d := d, ua_i := ua_i a - len\<rparr>)"
    using rep d(2,3) by (auto simp: ua_rep_def)
  then show "ua_wp A (map_option Inr (utarray_erase pos len (a, w))) (\<lambda>(b, u). u = v \<and> ua_rep icd ys b)"
    unfolding utarray_erase_def by (simp only: prod.case ended bind.bind_lunit d(1)) simp
qed

lemma utarray_sort_sim:
  assumes rep: "ua_rep icd xs a" and len: "length (Q xs) = length xs"
  shows "map_option (\<lambda>b. Inr (b, w)) (utarray_sort Q a) = Some (Inr (a\<lparr>ua_d := map Some (Q xs) @ drop (length xs) (ua_d a)\<rparr>, w))"
    and "ua_rep icd (Q xs) (a\<lparr>ua_d := map Some (Q xs) @ drop (length xs) (ua_d a)\<rparr>)"
proof -
  have t: "unat (ua_i a) = length xs" "length xs \<le> length (ua_d a)" "take (length xs) (ua_d a) = map Some xs"
    using rep by (simp_all add: ua_rep_def)
  show "map_option (\<lambda>b. Inr (b, w)) (utarray_sort Q a) = Some (Inr (a\<lparr>ua_d := map Some (Q xs) @ drop (length xs) (ua_d a)\<rparr>, w))"
    using t by (auto simp: utarray_sort_def comp_def)
  show "ua_rep icd (Q xs) (a\<lparr>ua_d := map Some (Q xs) @ drop (length xs) (ua_d a)\<rparr>)"
    using rep len by (simp add: ua_rep_def)
qed

subsection \<open>Runs of operations\<close>

datatype ('e, 'w) ua_op = Push_back 'e | Pop_back | Extend_back | Resize u32 | Insert 'e u32
  | Inserta "('e, 'w) utarray" u32 | Concat "('e, 'w) utarray" | Erase u32 u32 | Sort | Clear

definition ua_step :: "(int \<Rightarrow> bool) \<Rightarrow> ('e list \<Rightarrow> 'e list) \<Rightarrow> ('e, 'w) ua_op \<Rightarrow> ('e, 'w) ua_state \<Rightarrow> (int + ('e, 'w) ua_state) option" where
  "ua_step A Q x s = (case x of
       Push_back p \<Rightarrow> utarray_push_back A p s
     | Pop_back \<Rightarrow> map_option Inr (utarray_pop_back s)
     | Extend_back \<Rightarrow> utarray_extend_back A s
     | Resize k \<Rightarrow> utarray_resize A k s
     | Insert p j \<Rightarrow> utarray_insert A p j s
     | Inserta v j \<Rightarrow> utarray_inserta A v j s
     | Concat v \<Rightarrow> utarray_concat A v s
     | Erase pos len \<Rightarrow> map_option Inr (utarray_erase pos len s)
     | Sort \<Rightarrow> map_option (\<lambda>a. Inr (a, snd s)) (utarray_sort Q (fst s))
     | Clear \<Rightarrow> map_option Inr (utarray_clear s))"

primrec ua_run :: "(int \<Rightarrow> bool) \<Rightarrow> ('e list \<Rightarrow> 'e list) \<Rightarrow> ('e, 'w) ua_op list \<Rightarrow> ('e, 'w) ua_state \<Rightarrow> (int + ('e, 'w) ua_state) option" where
  "ua_run A Q [] s = Some (Inr s)"
| "ua_run A Q (x # ops) s = and_then (ua_step A Q x s) (ua_run A Q ops)"

definition sp_step :: "('e, 'w) ut_icd \<Rightarrow> ('e list \<Rightarrow> 'e list) \<Rightarrow> ('e, 'w) ua_op \<Rightarrow> ('e, 'w) ua_list \<Rightarrow> ('e, 'w) ua_list option" where
  "sp_step icd Q x s = (case x of
       Push_back p \<Rightarrow> sp_push icd p s
     | Pop_back \<Rightarrow> sp_pop icd s
     | Extend_back \<Rightarrow> sp_extend icd s
     | Resize k \<Rightarrow> sp_resize icd (unat k) s
     | Insert p j \<Rightarrow> sp_insert icd [p] (unat j) s
     | Inserta v j \<Rightarrow> sp_insert icd (ua_elems v) (unat j) s
     | Concat v \<Rightarrow> sp_insert icd (ua_elems v) (length (fst s)) s
     | Erase pos len \<Rightarrow> sp_erase icd (unat pos) (unat len) s
     | Sort \<Rightarrow> Some (Q (fst s), snd s)
     | Clear \<Rightarrow> sp_clear icd s)"

primrec sp_run :: "('e, 'w) ut_icd \<Rightarrow> ('e list \<Rightarrow> 'e list) \<Rightarrow> ('e, 'w) ua_op list \<Rightarrow> ('e, 'w) ua_list \<Rightarrow> ('e, 'w) ua_list option" where
  "sp_run icd Q [] s = Some s"
| "sp_run icd Q (x # ops) s = Option.bind (sp_step icd Q x s) (sp_run icd Q ops)"

text \<open>The arrays an operation inserts from are sound themselves.\<close>

definition ua_arg_ok :: "('e, 'w) ua_op \<Rightarrow> bool" where
  "ua_arg_ok x = (case x of Inserta v j \<Rightarrow> ua_rep (ua_icd v) (ua_elems v) v
     | Concat v \<Rightarrow> ua_rep (ua_icd v) (ua_elems v) v | _ \<Rightarrow> True)"

lemma ua_step_sim:
  assumes "ua_rep icd xs a" "ua_arg_ok x" "\<And>ys. length (Q ys) = length ys"
  shows "ua_sim A icd (ua_step A Q x (a, w)) (sp_step icd Q x (xs, w))"
  using assms utarray_sort_sim [where Q = Q, OF assms(1)]
  by (cases x) (simp_all add: ua_step_def sp_step_def ua_arg_ok_def utarray_push_back_sim utarray_pop_back_sim
      utarray_extend_back_sim utarray_resize_sim utarray_insert_sim utarray_inserta_sim utarray_concat_sim
      utarray_erase_sim utarray_clear_sim ua_sim_Some)

lemma ua_run_sim:
  assumes "ua_rep icd xs a" "\<forall>x\<in>set ops. ua_arg_ok x" "\<And>ys. length (Q ys) = length ys"
  shows "ua_sim A icd (ua_run A Q ops (a, w)) (sp_run icd Q ops (xs, w))"
  using assms(1,2)
proof (induction ops arbitrary: xs a w)
  case Nil
  then show ?case by (simp add: ua_sim_Some)
next
  case (Cons x ops)
  then show ?case
    using ua_sim_then [OF ua_step_sim [OF Cons.prems(1) _ assms(3)]] by simp
qed

subsection \<open>Walking\<close>

text \<open>The elements a walk with next or prev meets, from the one after e on.\<close>

partial_function (option) ua_walk :: "(int option \<Rightarrow> int option) \<Rightarrow> int option \<Rightarrow> int list option" where
  "ua_walk nx e = (case nx e of None \<Rightarrow> Some [] | Some k \<Rightarrow> do { ks \<leftarrow> ua_walk nx (Some k); Some (k # ks) })"

lemma utarray_next_simps [simp]:
  "utarray_next a None = (if ua_i a \<noteq> 0 then Some 0 else None)"
  "utarray_next a (Some k) = (if uint (ua_i a) > k + 1 then Some (k + 1) else None)"
  by (simp_all add: utarray_next_def utarray_front_def)

lemma utarray_prev_simps [simp]:
  "utarray_prev a None = (if ua_i a \<noteq> 0 then Some (uint (ua_i a - 1)) else None)"
  "utarray_prev a (Some k) = (if k > 0 then Some (k - 1) else None)"
  by (simp_all add: utarray_prev_def utarray_back_def)

lemma ua_walk_next:
  assumes "uint (ua_i a) = int n" "k \<le> n"
  shows "ua_walk (utarray_next a) (if k = 0 then None else Some (int k - 1)) = Some [int k..int n - 1]"
  using assms(2)
proof (induction k rule: inc_induct)
  case base
  then show ?case using assms(1) by (subst ua_walk.simps) (auto simp: uint_0_iff)
next
  case (step k)
  have "utarray_next a (if k = 0 then None else Some (int k - 1)) = Some (int k)"
    using assms(1) step.hyps by auto
  moreover have "[int k..int n - 1] = int k # [int (Suc k)..int n - 1]"
    using step.hyps by (simp add: upto_rec1 add.commute)
  ultimately show ?case using step.IH by (subst ua_walk.simps) simp
qed

lemma ua_walk_prev_from:
  "ua_walk (utarray_prev a) (Some (int k)) = Some (rev [0..int k - 1])"
proof (induction k)
  case 0
  show ?case by (subst ua_walk.simps) simp
next
  case (Suc k)
  have "[0..int k] = [0..int k - 1] @ [int k]" by (simp add: upto_rec2)
  then show ?case using Suc by (subst ua_walk.simps) simp
qed

lemma ua_walk_prev:
  assumes "uint (ua_i a) = int n"
  shows "ua_walk (utarray_prev a) None = Some (rev [0..int n - 1])"
proof (cases n)
  case 0
  then show ?thesis using assms by (subst ua_walk.simps) (simp add: uint_0_iff)
next
  case (Suc m)
  have "unat (ua_i a) = n" using assms by (metis nat_int unat_eq_nat_uint)
  then have "unat (ua_i a - 1) = m" using Suc unat_minus [of 1 "ua_i a"] by (simp add: word_le_nat_alt)
  then have "uint (ua_i a - 1) = int m" by (metis of_nat_unat)
  moreover have "ua_i a \<noteq> 0" using assms Suc by auto
  moreover have "[0..int m] = [0..int m - 1] @ [int m]" by (simp add: upto_rec2)
  ultimately show ?thesis using Suc
    by (subst ua_walk.simps) (simp add: ua_walk_prev_from)
qed

lemma ua_reads:
  assumes "ua_rep icd ys a"
  shows "utarray_len a = of_nat (length ys)" "k < length ys \<Longrightarrow> ua_get a (of_nat k) = Some (ys ! k)"
    and "ua_walk (utarray_next a) None = Some [0..int (length ys) - 1]"
    and "ua_walk (utarray_prev a) None = Some (rev [0..int (length ys) - 1])"
proof -
  have i: "unat (ua_i a) = length ys" using assms by (simp add: ua_rep_def)
  then have u: "uint (ua_i a) = int (length ys)" by (metis of_nat_unat)
  show "utarray_len a = of_nat (length ys)" by (simp add: utarray_len_def flip: i)
  show "ua_get a (of_nat k) = Some (ys ! k)" if k: "k < length ys"
  proof -
    have "unat (of_nat k :: u32) = k" using k i u32_bound [of "ua_i a"] by (simp add: unat_of_nat)
    moreover have "k < length (ua_d a)" using k assms by (simp add: ua_rep_def)
    ultimately show ?thesis using ua_rep_nth [OF assms k] by (simp add: ua_get_in)
  qed
  show "ua_walk (utarray_next a) None = Some [0..int (length ys) - 1]" using ua_walk_next [OF u, of 0] by simp
  show "ua_walk (utarray_prev a) None = Some (rev [0..int (length ys) - 1])" by (rule ua_walk_prev [OF u])
qed

section \<open>Properties\<close>

text \<open>
  C26: An array refines a list: after any run of operations that inserts, removes, resizes, sorts
  or clears as a list allows, with at most 2 to the 31 elements at any time, the program has
  exited because memory ran out, or the array holds exactly the elements of the list, the
  element functions have done to the world what they would do for the list, every index reads its
  element, and a walk with next meets them in order and one with prev in reverse.  No access is
  outside the slots or to an indeterminate one, and no operation hangs.
\<close>

theorem utarray_refines_list:
  assumes "\<And>ys. length (Q ys) = length ys" "\<forall>x\<in>set ops. ua_arg_ok x"
    and "sp_run icd Q ops ([], w) = Some (ys, v)"
  shows "case and_then (utarray_new A icd) (\<lambda>a. ua_run A Q ops (a, w)) of
      None \<Rightarrow> False
    | Some (Inl c) \<Rightarrow> c = - 1 \<and> (\<exists>k. \<not> A k)
    | Some (Inr (a, u)) \<Rightarrow> u = v \<and> utarray_len a = of_nat (length ys) \<and>
        (\<forall>k < length ys. ua_get a (of_nat k) = Some (ys ! k)) \<and>
        ua_walk (utarray_next a) None = Some [0..int (length ys) - 1] \<and>
        ua_walk (utarray_prev a) None = Some (rev [0..int (length ys) - 1])"
proof -
  have "ua_wp A (ua_run A Q ops (utarray_init icd, w)) (\<lambda>(b, u). u = v \<and> ua_rep icd ys b)"
    using ua_run_sim [OF ua_rep_init assms(2,1)] assms(3) by (simp add: ua_sim_def)
  then have "ua_wp A (and_then (utarray_new A icd) (\<lambda>a. ua_run A Q ops (a, w))) (\<lambda>(b, u). u = v \<and> ua_rep icd ys b)"
    by (auto simp: utarray_new_def)
  then show ?thesis
    unfolding ua_wp_def using ua_reads by (fastforce split: option.splits sum.splits)
qed

definition int_icd :: "(int, unit) ut_icd" where
  "int_icd = \<lparr>icd_sz = 4, icd_zero = 0, icd_init = None, icd_copy = None, icd_dtor = None\<rparr>"

theorem utarray_refines_list_witness:
  "case and_then (utarray_new (\<lambda>k. True) int_icd)
      (\<lambda>a. ua_run (\<lambda>k. True) rev [Push_back 5, Insert 7 2, Erase 0 1, Sort, Extend_back, Pop_back] (a, ())) of
    None \<Rightarrow> False | Some (Inl c) \<Rightarrow> c = - 1 \<and> (\<exists>k :: int. \<not> True)
    | Some (Inr (a, u)) \<Rightarrow> u = () \<and> utarray_len a = of_nat (length [7, 0 :: int]) \<and>
        (\<forall>k < length [7, 0 :: int]. ua_get a (of_nat k) = Some ([7, 0] ! k)) \<and>
        ua_walk (utarray_next a) None = Some [0..int (length [7, 0 :: int]) - 1] \<and>
        ua_walk (utarray_prev a) None = Some (rev [0..int (length [7, 0 :: int]) - 1])"
  by (rule utarray_refines_list)
    (simp_all add: ua_arg_ok_def sp_step_def sp_push_def sp_add_def sp_insert_def sp_resize_def sp_erase_def sp_extend_def
      sp_pop_def ut_copy_def ut_init_def ut_dtor_def int_icd_def)

lemma reserve_small:
  assumes "ua_rep icd xs a" "ua_i a + by' \<le> 2 ^ 31"
  shows "utarray_reserve A by' (a, w) = Some (Inl (- 1)) \<or>
    (\<exists>b. utarray_reserve A by' (a, w) = Some (Inr (b, w)) \<and> ua_i a + by' \<le> ua_n b)"
proof (cases "ua_i a + by' > ua_n a")
  case True
  then obtain m where "ua_double (ua_i a + by') (ua_n a) = Some m" "ua_i a + by' \<le> m"
    using ua_double_grows [of "ua_n a" "ua_i a + by'"] assms by (auto simp: ua_rep_def)
  then show ?thesis using True by (simp add: utarray_reserve_def)
next
  case False
  then show ?thesis by (simp add: utarray_reserve_def)
qed

text \<open>
  C27: Reserving room comes to an end, with the array or with the exit for lack of memory, exactly
  when the count of the elements and the new ones, taken modulo 2 to the 32 as the code does, is at most 2 to the 31:
  for a larger one the doubled count of slots wraps to 0 and the loop never ends, whatever the allocator
  would say.  Where an array comes back it has room for them all exactly when the count did not wrap.
\<close>

theorem utarray_reserve_returns:
  assumes "ua_rep icd xs a"
  shows "(utarray_reserve A by' (a, w) \<noteq> None) = ((length xs + unat by') mod 2 ^ 32 \<le> 2 ^ 31) \<and>
    (\<forall>b v. utarray_reserve A by' (a, w) = Some (Inr (b, v)) \<longrightarrow>
       (length xs + unat by' \<le> unat (ua_n b)) = (length xs + unat by' < 2 ^ 32))"
proof (cases "ua_i a + by' \<le> 2 ^ 31")
  case True
  have s: "unat (ua_i a + by') = (length xs + unat by') mod 2 ^ 32"
    using assms by (simp add: unat_word_ariths ua_rep_def)
  have le: "(length xs + unat by') mod 2 ^ 32 \<le> 2 ^ 31" using True s by (simp add: word_le_nat_alt)
  have "(length xs + unat by' \<le> unat (ua_n b)) = (length xs + unat by' < 2 ^ 32)" if "ua_i a + by' \<le> ua_n b" for b :: "('a, 'b) utarray"
  proof
    assume "length xs + unat by' \<le> unat (ua_n b)"
    then show "length xs + unat by' < 2 ^ 32" using u32_bound [of "ua_n b"] by simp
  next
    assume "length xs + unat by' < 2 ^ 32"
    then show "length xs + unat by' \<le> unat (ua_n b)" using that s by (simp add: word_le_nat_alt)
  qed
  then show ?thesis using reserve_small [OF assms True, of A w] le by auto
next
  case False
  have s: "unat (ua_i a + by') = (length xs + unat by') mod 2 ^ 32"
    using assms by (simp add: unat_word_ariths ua_rep_def)
  have n: "ua_size (ua_n a)" using assms by (simp add: ua_rep_def)
  have big: "2 ^ 31 < ua_i a + by'" using False by simp
  then have "ua_n a < ua_i a + by'" using ua_size_le [OF n] by (rule le_less_trans [rotated])
  then have none: "utarray_reserve A by' (a, w) = None" using ua_double_stuck [OF n big] by (simp add: utarray_reserve_def)
  have "\<not> (length xs + unat by') mod 2 ^ 32 \<le> 2 ^ 31" using False s by (simp add: word_le_nat_alt)
  then show ?thesis unfolding none by blast
qed

theorem utarray_reserve_returns_witness:
  "utarray_reserve (\<lambda>k. True) (2 ^ 31 + 1) (utarray_init int_icd, ()) = None \<and>
   utarray_reserve (\<lambda>k. True) (2 ^ 31) (utarray_init int_icd, ()) \<noteq> None"
  using utarray_reserve_returns [OF ua_rep_init [of int_icd], where A = "\<lambda>k. True" and by' = "2 ^ 31 + 1" and w = "()"]
    utarray_reserve_returns [OF ua_rep_init [of int_icd], where A = "\<lambda>k. True" and by' = "2 ^ 31" and w = "()"]
  by simp

end
