(* ===== verification/UtArrayStr.thy ===== *)
theory UtArrayStr
  imports UtArrayOk CHeap "HOL-Library.Multiset"
begin

text \<open>
  The ready-made element functions of inc/uthash/utarray.h for strings, ints and pointers, and
  what an array of strings owns: its elements are pointers into the C heap, each copied by strdup
  when it enters and freed when it leaves.  A string is a block with a NUL in it, and a pointer is
  the address of a block.
\<close>

subsection \<open>The element functions\<close>

text \<open>strdup reads to the NUL; when memory runs out it returns NULL.\<close>

definition c_strdup :: "addr \<Rightarrow> heap \<Rightarrow> (addr option \<times> heap) option" where
  "c_strdup p h = do {
     bs \<leftarrow> blocks h p;
     if 0 \<notin> set bs then None
     else let s = takeWhile (\<lambda>c. c \<noteq> 0) bs @ [0] in
       (case malloc (length s) h of
         (None, h1) \<Rightarrow> Some (None, h1)
       | (Some q, h1) \<Rightarrow> do { h2 \<leftarrow> store_bytes q 0 s h1; Some (Some q, h2) }) }"

definition utarray_str_cpy :: "addr option \<Rightarrow> heap \<Rightarrow> (addr option \<times> heap) option" where
  "utarray_str_cpy src h = (case src of None \<Rightarrow> Some (None, h) | Some p \<Rightarrow> c_strdup p h)"

definition utarray_str_dtor :: "addr option \<Rightarrow> heap \<Rightarrow> heap option" where
  "utarray_str_dtor elt h = (case elt of None \<Rightarrow> Some h | Some p \<Rightarrow> c_free p h)"

definition ut_str_icd :: "(addr option, heap) ut_icd" where
  "ut_str_icd = \<lparr>icd_sz = 8, icd_zero = None, icd_init = None, icd_copy = Some utarray_str_cpy,
     icd_dtor = Some utarray_str_dtor\<rparr>"

definition ut_int_icd :: "(int, 'w) ut_icd" where
  "ut_int_icd = \<lparr>icd_sz = 4, icd_zero = 0, icd_init = None, icd_copy = None, icd_dtor = None\<rparr>"

definition ut_ptr_icd :: "('p option, 'w) ut_icd" where
  "ut_ptr_icd = \<lparr>icd_sz = 8, icd_zero = None, icd_init = None, icd_copy = None, icd_dtor = None\<rparr>"

subsection \<open>Elements that own something\<close>

text \<open>Functions that make elements.\<close>

definition makes :: "('e list \<Rightarrow> 'w \<Rightarrow> bool) \<Rightarrow> ('w \<Rightarrow> ('e \<times> 'w) option) \<Rightarrow> bool" where
  "makes own g \<longleftrightarrow> (\<forall>ps w. own ps w \<longrightarrow> (\<exists>e w1. g w = Some (e, w1) \<and> own (ps @ [e]) w1))"

text \<open>The elements an operation copies may be copied.\<close>

definition ua_op_args :: "('e \<Rightarrow> bool) \<Rightarrow> ('e, 'w) ua_op \<Rightarrow> bool" where
  "ua_op_args arg x = (case x of Push_back p \<Rightarrow> arg p | Insert p j \<Rightarrow> arg p
     | Inserta v j \<Rightarrow> (\<forall>p\<in>set (ua_elems v). arg p) | Concat v \<Rightarrow> (\<forall>p\<in>set (ua_elems v). arg p) | _ \<Rightarrow> True)"

text \<open>
  The contract of element functions that manage what the elements own: own ps w says that in the
  world w the elements ps own what they should, arg p that p may be copied.  Making an element
  adds to what is owned, ending one takes away, and the order does not matter.
\<close>

lemma mset_take_drop: "mset (take j xs) + mset (drop j xs) = mset xs"
  by (metis append_take_drop_id mset_append)

lemma mset_three: "mset (take j xs) + (mset (take k (drop j xs)) + mset (drop (j + k) xs)) = mset xs"
  using mset_take_drop [of j xs] mset_take_drop [of k "drop j xs"] by (simp add: add.commute)

locale owned_elems =
  fixes icd :: "('e, 'w) ut_icd" and own :: "'e list \<Rightarrow> 'w \<Rightarrow> bool" and arg :: "'e \<Rightarrow> bool"
  assumes own_perm: "mset ps = mset qs \<Longrightarrow> own ps w = own qs w"
    and init_own: "own ps w \<Longrightarrow> \<exists>e w1. ut_init icd w = Some (e, w1) \<and> own (ps @ [e]) w1"
    and copy_own: "own ps w \<Longrightarrow> arg p \<Longrightarrow> \<exists>e w1. ut_copy icd p w = Some (e, w1) \<and> own (ps @ [e]) w1"
    and dtor_own: "own (e # ps) w \<Longrightarrow> \<exists>w1. ut_dtor icd e w = Some w1 \<and> own ps w1"
begin

lemma produce_own:
  "own ps w \<Longrightarrow> \<forall>g\<in>set gs. makes own g \<Longrightarrow> \<exists>es w1. produce gs w = Some (es, w1) \<and> own (ps @ es) w1"
proof (induction gs arbitrary: ps w)
  case (Cons g gs)
  obtain e w1 where g: "g w = Some (e, w1)" "own (ps @ [e]) w1"
    using Cons.prems unfolding makes_def by (metis list.set_intros(1))
  obtain es w2 where "produce gs w1 = Some (es, w2)" "own ((ps @ [e]) @ es) w2"
    using Cons.IH [OF g(2)] Cons.prems(2) by (metis list.set_intros(2))
  then show ?case using g(1) by simp
qed simp

lemma end_all_own: "own (es @ ps) w \<Longrightarrow> \<exists>w1. end_all icd es w = Some w1 \<and> own ps w1"
proof (induction es arbitrary: w)
  case (Cons e es)
  obtain w1 where "ut_dtor icd e w = Some w1" "own (es @ ps) w1"
    using dtor_own [of e "es @ ps" w] Cons.prems by auto
  then show ?case using Cons.IH [of w1] by simp
qed simp

lemma end_all_split:
  assumes "own xs w" "mset xs = mset (es @ ps)"
  shows "\<exists>w1. end_all icd es w = Some w1 \<and> own ps w1"
  using end_all_own [of es ps w] own_perm [OF assms(2), of w] assms(1) by simp

lemma makes_all: "arg p \<Longrightarrow> makes own (ut_copy icd p)" "makes own (ut_init icd)"
  using copy_own init_own by (simp_all add: makes_def)

lemma sp_add_own:
  assumes "own xs w" "\<forall>g\<in>set gs. makes own g" "sp_add gs j (xs, w) = Some (ys, v)"
  shows "own ys v"
proof -
  obtain es where es: "produce gs w = Some (es, v)" "ys = take j xs @ es @ drop j xs"
    using assms(3) by (auto simp: sp_add_def bind_Some_iff split: if_splits)
  have "mset ys = mset (xs @ es)"
    unfolding es(2) by (simp add: mset_take_drop [of j xs, symmetric])
  moreover have "own (xs @ es) v" using produce_own [OF assms(1,2)] es(1) by auto
  ultimately show ?thesis using own_perm [of ys "xs @ es" v] by simp
qed

lemma sp_resize_own:
  assumes "own xs w" "sp_resize icd k (xs, w) = Some (ys, v)"
  shows "own ys v"
proof (cases "k < length xs")
  case True
  have "mset xs = mset (drop k xs @ take k xs)" using mset_take_drop [of k xs] by (simp add: add.commute)
  from end_all_split [OF assms(1) this] assms(2) True show ?thesis by (auto simp: sp_resize_def)
next
  case False
  then show ?thesis using assms makes_all(2)
    by (intro sp_add_own [of xs w "replicate (k - length xs) (ut_init icd)" "length xs" ys v]) (simp_all add: sp_resize_def)
qed

lemma sp_insert_own:
  assumes "own xs w" "\<forall>p\<in>set qs. arg p" "sp_insert icd qs j (xs, w) = Some (ys, v)"
  shows "own ys v"
proof (cases "qs = []")
  case False
  then obtain zs u where z: "(if j > length xs then sp_resize icd j (xs, w) else Some (xs, w)) = Some (zs, u)"
    "sp_add (map (ut_copy icd) qs) j (zs, u) = Some (ys, v)"
    using assms(3) by (auto simp: sp_insert_def bind_Some_iff simp del: prod_eq_iff split del: if_split)
  have "own zs u" using z(1) assms(1) sp_resize_own [of xs w j zs u] by (simp split: if_splits)
  then show ?thesis using z(2) assms(2) makes_all(1)
    by (intro sp_add_own [of zs u "map (ut_copy icd) qs" j ys v]) simp_all
qed (use assms in \<open>simp add: sp_insert_def\<close>)

lemma sp_erase_own:
  assumes "own xs w" "sp_erase icd pos len (xs, w) = Some (ys, v)"
  shows "own ys v"
proof -
  have "mset xs = mset (take len (drop pos xs) @ take pos xs @ drop (pos + len) xs)"
    using mset_three [of pos xs len] by (simp add: ac_simps)
  from end_all_split [OF assms(1) this] assms(2) show ?thesis by (auto simp: sp_erase_def split: if_splits)
qed

lemma sp_step_own:
  assumes "own xs w" "ua_op_args arg x" "\<And>ys. mset (Q ys) = mset ys" "sp_step icd Q x (xs, w) = Some (ys, v)"
  shows "own ys v"
proof (cases x)
  case (Push_back p)
  then show ?thesis using assms makes_all by (intro sp_add_own [of xs w "[ut_copy icd p]" "length xs" ys v]) (simp_all add: sp_step_def sp_push_def ua_op_args_def)
next
  case Pop_back
  then have ne: "xs \<noteq> []" and d: "do { w1 \<leftarrow> ut_dtor icd (last xs) w; Some (butlast xs, w1) } = Some (ys, v)"
    using assms(4) by (auto simp: sp_step_def sp_pop_def split: if_splits)
  have "mset xs = mset (last xs # butlast xs)" using ne by (cases xs rule: rev_cases) simp_all
  then have "own (last xs # butlast xs) w" using own_perm [of xs "last xs # butlast xs" w] assms(1) by simp
  then show ?thesis using dtor_own [of "last xs" "butlast xs" w] d by auto
next
  case Extend_back
  then show ?thesis using assms makes_all by (intro sp_add_own [of xs w "[ut_init icd]" "length xs" ys v]) (simp_all add: sp_step_def sp_extend_def)
next
  case (Resize k)
  then show ?thesis using assms sp_resize_own [of xs w "unat k" ys v] by (simp add: sp_step_def)
next
  case (Insert p j)
  then show ?thesis using assms sp_insert_own [of xs w "[p]" "unat j" ys v] by (simp add: sp_step_def ua_op_args_def)
next
  case (Inserta u j)
  then show ?thesis using assms sp_insert_own [of xs w "ua_elems u" "unat j" ys v] by (simp add: sp_step_def ua_op_args_def)
next
  case (Concat u)
  then show ?thesis using assms sp_insert_own [of xs w "ua_elems u" "length xs" ys v] by (simp add: sp_step_def ua_op_args_def)
next
  case (Erase pos len)
  then show ?thesis using assms sp_erase_own [of xs w "unat pos" "unat len" ys v] by (simp add: sp_step_def)
next
  case Sort
  then have "ys = Q xs" "v = w" using assms(4) by (simp_all add: sp_step_def)
  then show ?thesis using assms(1) own_perm [of "Q xs" xs w] assms(3) by simp
next
  case Clear
  then show ?thesis using assms end_all_own [of xs "[]" w] by (auto simp: sp_step_def sp_clear_def)
qed

lemma sp_run_own:
  assumes "own xs w" "\<forall>x\<in>set ops. ua_op_args arg x" "\<And>ys. mset (Q ys) = mset ys" "sp_run icd Q ops (xs, w) = Some (ys, v)"
  shows "own ys v"
  using assms(1,2,4)
proof (induction ops arbitrary: xs w)
  case (Cons x ops)
  then obtain zs u where z: "sp_step icd Q x (xs, w) = Some (zs, u)" "sp_run icd Q ops (zs, u) = Some (ys, v)"
    by (auto simp: bind_Some_iff)
  have "own zs u" using sp_step_own [OF Cons.prems(1) _ assms(3) z(1)] Cons.prems(2) by simp
  then show ?case using Cons.IH [of zs u] z(2) Cons.prems(2) by simp
qed simp

text \<open>Ending an array gives back what its elements own.\<close>

lemma utarray_done_own:
  assumes "ua_rep icd ps a" "own ps w"
  shows "\<exists>b v. utarray_done (a, w) = Some (b, v) \<and> own [] v"
proof -
  obtain v where v: "end_all icd ps w = Some v" "own [] v" using end_all_own [of ps "[]"] assms(2) by auto
  show ?thesis
  proof (cases "ua_n a = 0")
    case True
    then have "ps = []" using assms(1) by (simp add: ua_rep_def)
    then show ?thesis using True v by (simp add: utarray_done_def)
  next
    case False
    then show ?thesis using ua_end_from [OF assms(1), of 0 w] v by (auto simp: utarray_done_def)
  qed
qed

end

subsection \<open>What an array of strings owns\<close>

definition somes :: "'a option list \<Rightarrow> 'a list" where
  "somes ps = map the (filter (\<lambda>p. p \<noteq> None) ps)"

lemma somes_simps [simp]:
  "somes [] = []" "somes (None # ps) = somes ps" "somes (Some p # ps) = p # somes ps"
  "somes (ps @ qs) = somes ps @ somes qs"
  by (simp_all add: somes_def)

text \<open>
  The blocks of the heap are those of B, unchanged, and beside them exactly the ones the
  pointers ps point to, no two to the same.
\<close>

definition str_own :: "(addr \<Rightarrow> byte list option) \<Rightarrow> addr option list \<Rightarrow> heap \<Rightarrow> bool" where
  "str_own B ps h \<longleftrightarrow> heap_ok h \<and> distinct (somes ps) \<and> dom (blocks h) = dom B \<union> set (somes ps) \<and>
     dom B \<inter> set (somes ps) = {} \<and> (\<forall>p\<in>dom B. blocks h p = B p)"

definition str_arg :: "(addr \<Rightarrow> byte list option) \<Rightarrow> addr option \<Rightarrow> bool" where
  "str_arg B p \<longleftrightarrow> (case p of None \<Rightarrow> True | Some q \<Rightarrow> (case B q of None \<Rightarrow> False | Some bs \<Rightarrow> 0 \<in> set bs))"

lemma str_own_perm:
  assumes "mset ps = mset qs"
  shows "str_own B ps h = str_own B qs h"
proof -
  have m: "mset (somes ps) = mset (somes qs)" by (simp add: somes_def assms)
  then show ?thesis using mset_eq_setD [OF m] mset_eq_imp_distinct_iff [OF m] by (simp add: str_own_def)
qed

lemma str_cpy_own:
  assumes own: "str_own B ps h" and arg: "str_arg B p"
  shows "\<exists>e h1. utarray_str_cpy p h = Some (e, h1) \<and> str_own B (ps @ [e]) h1"
proof (cases p)
  case None
  then show ?thesis using own by (simp add: utarray_str_cpy_def str_own_def)
next
  case (Some q)
  obtain bs where bs: "B q = Some bs" "0 \<in> set bs" using arg Some by (auto simp: str_arg_def split: option.splits)
  then have h: "blocks h q = Some bs" using own by (auto simp: str_own_def dom_def)
  let ?s = "takeWhile (\<lambda>c. c \<noteq> 0) bs @ [0]"
  show ?thesis
  proof (cases "length ?s \<le> room h")
    case True
    have "brk h \<notin> dom (blocks h)" using own unfolding str_own_def heap_ok_def by (metis domIff less_irrefl)
    moreover have "dom (blocks h) = dom B \<union> set (somes ps)" using own by (simp add: str_own_def)
    ultimately have fresh: "brk h \<notin> dom B" "brk h \<notin> set (somes ps)" by blast+
    let ?h1 = "h\<lparr>blocks := (blocks h)(brk h \<mapsto> ?s), brk := Suc (brk h), room := room h - length ?s\<rparr>"
    have "utarray_str_cpy p h = Some (Some (brk h), ?h1)"
      using True Some h bs(2) by (simp add: utarray_str_cpy_def c_strdup_def malloc_def store_bytes_def)
    moreover have "str_own B (ps @ [Some (brk h)]) ?h1"
      using own fresh unfolding str_own_def heap_ok_def by (auto simp: less_Suc_eq)
    ultimately show ?thesis by blast
  next
    case False
    then show ?thesis using own Some h bs(2)
      by (simp add: utarray_str_cpy_def c_strdup_def malloc_def str_own_def)
  qed
qed

lemma str_dtor_own:
  assumes own: "str_own B (e # ps) h"
  shows "\<exists>h1. utarray_str_dtor e h = Some h1 \<and> str_own B ps h1"
proof (cases e)
  case None
  then show ?thesis using own by (simp add: utarray_str_dtor_def str_own_def)
next
  case (Some p)
  have "p \<in> dom (blocks h)" using own Some by (simp add: str_own_def)
  then obtain bs where bs: "blocks h p = Some bs" by auto
  have "str_own B ps (h\<lparr>blocks := (blocks h)(p := None), room := room h + length bs\<rparr>)"
    using own Some unfolding str_own_def heap_ok_def by auto
  then show ?thesis using bs Some by (simp add: utarray_str_dtor_def c_free_def)
qed

interpretation strs: owned_elems ut_str_icd "str_own B" "str_arg B" for B
proof unfold_locales
  fix ps qs :: "addr option list" and h
  assume "mset ps = mset qs"
  then show "str_own B ps h = str_own B qs h" by (rule str_own_perm)
next
  fix ps h
  assume "str_own B ps h"
  then show "\<exists>e h1. ut_init ut_str_icd h = Some (e, h1) \<and> str_own B (ps @ [e]) h1"
    by (simp add: ut_init_def ut_str_icd_def str_own_def)
next
  fix ps h p
  assume "str_own B ps h" "str_arg B p"
  then show "\<exists>e h1. ut_copy ut_str_icd p h = Some (e, h1) \<and> str_own B (ps @ [e]) h1"
    using str_cpy_own by (simp add: ut_copy_def ut_str_icd_def)
next
  fix e ps h
  assume "str_own B (e # ps) h"
  then show "\<exists>h1. ut_dtor ut_str_icd e h = Some h1 \<and> str_own B ps h1"
    using str_dtor_own by (simp add: ut_dtor_def ut_str_icd_def)
qed

section \<open>Properties\<close>

text \<open>
  C35: An array of strings owns its strings: after any run of operations a list allows, that is
  given strings of the caller, the pointers in the array that are not NULL are distinct, the heap
  holds the blocks it held before, unchanged, and besides exactly the ones they point to; ending
  the array frees each of those once and leaves the heap's blocks as they were before the array.
\<close>

theorem utarray_strings_owned:
  assumes "heap_ok h" "\<And>ys. mset (Q ys) = mset ys"
    and "\<forall>x\<in>set ops. ua_arg_ok x \<and> ua_op_args (str_arg (blocks h)) x"
    and "sp_run ut_str_icd Q ops ([], h) = Some (ps, h1)"
  shows "case and_then (utarray_new A ut_str_icd) (\<lambda>a. ua_run A Q ops (a, h)) of
      None \<Rightarrow> False
    | Some (Inl c) \<Rightarrow> c = - 1 \<and> (\<exists>k. \<not> A k)
    | Some (Inr (a, h2)) \<Rightarrow> distinct (somes (ua_elems a)) \<and>
        dom (blocks h2) = dom (blocks h) \<union> set (somes (ua_elems a)) \<and>
        dom (blocks h) \<inter> set (somes (ua_elems a)) = {} \<and>
        (\<forall>p\<in>dom (blocks h). blocks h2 p = blocks h p) \<and>
        map_option (blocks \<circ> snd) (utarray_done (a, h2)) = Some (blocks h)"
proof -
  have len: "length (Q ys) = length ys" for ys using mset_eq_length [OF assms(2)] .
  have args: "\<forall>x\<in>set ops. ua_arg_ok x" using assms(3) by simp
  have own: "str_own (blocks h) ps h1"
    using assms strs.sp_run_own [of "blocks h" "[]" h ops Q ps h1] by (simp add: str_own_def)
  have "ua_wp A (ua_run A Q ops (utarray_init ut_str_icd, h)) (\<lambda>(b, u). u = h1 \<and> ua_rep ut_str_icd ps b)"
    using ua_run_sim [OF ua_rep_init args len, of A ut_str_icd h] assms(4) by (simp add: ua_sim_def)
  then have wp: "ua_wp A (and_then (utarray_new A ut_str_icd) (\<lambda>a. ua_run A Q ops (a, h)))
      (\<lambda>(b, u). u = h1 \<and> ua_rep ut_str_icd ps b)"
    by (auto simp: utarray_new_def)
  have freed: "map_option (blocks \<circ> snd) (utarray_done (a, h1)) = Some (blocks h)" if rep: "ua_rep ut_str_icd ps a" for a
  proof -
    obtain b h3 where d: "utarray_done (a, h1) = Some (b, h3)" "str_own (blocks h) [] h3"
      using strs.utarray_done_own [OF rep own] by blast
    have "blocks h3 p = blocks h p" for p
      using d(2) by (cases "p \<in> dom (blocks h)") (auto simp: str_own_def)
    then show ?thesis using d(1) by auto
  qed
  show ?thesis
    using wp own freed unfolding ua_wp_def
    by (auto simp: str_own_def ua_rep_elems split: option.splits sum.splits prod.splits)
qed

definition one_string :: heap where
  "one_string = \<lparr>blocks = [0 \<mapsto> [97, 98, 0]], brk = 1, room = 100\<rparr>"

theorem utarray_strings_owned_witness:
  "case and_then (utarray_new (\<lambda>k. True) ut_str_icd)
      (\<lambda>a. ua_run (\<lambda>k. True) rev [Push_back (Some 0), Insert (Some 0) 2, Sort, Erase 0 1, Push_back None] (a, one_string)) of
      None \<Rightarrow> False
    | Some (Inl c) \<Rightarrow> c = - 1 \<and> (\<exists>k :: int. \<not> True)
    | Some (Inr (a, h2)) \<Rightarrow> distinct (somes (ua_elems a)) \<and>
        dom (blocks h2) = dom (blocks one_string) \<union> set (somes (ua_elems a)) \<and>
        dom (blocks one_string) \<inter> set (somes (ua_elems a)) = {} \<and>
        (\<forall>p\<in>dom (blocks one_string). blocks h2 p = blocks one_string p) \<and>
        map_option (blocks \<circ> snd) (utarray_done (a, h2)) = Some (blocks one_string)"
  by (rule utarray_strings_owned)
    (simp_all add: one_string_def heap_ok_def ua_arg_ok_def ua_op_args_def str_arg_def sp_step_def sp_push_def sp_add_def
      sp_insert_def sp_resize_def sp_erase_def ut_copy_def ut_init_def ut_dtor_def ut_str_icd_def utarray_str_cpy_def
      utarray_str_dtor_def c_strdup_def malloc_def store_bytes_def c_free_def Let_def)

end
