(* ===== verification/UtRing.thy ===== *)
theory UtRing
  imports UtArrayStr
begin

text \<open>
  The ring buffers of inc/uthash/utringbuffer.h: they hold the last n elements pushed.  They
  use the element functions of UtArray; a pointer to an element is the index of its slot, NULL is
  None, and the slots themselves are None when malloc refused them or none were asked for.  They
  refine bounded queues (ur-rep), own what their elements own, and find their elements in order
  as long as an index does not wrap.
\<close>

subsection \<open>The model\<close>

record ('e, 'w) utring =
  ur_i :: u32
  ur_n :: u32
  ur_f :: bool
  ur_icd :: "('e, 'w) ut_icd"
  ur_d :: "'e option list option"

type_synonym ('e, 'w) ur_state = "('e, 'w) utring \<times> 'w"

definition ur_get :: "('e, 'w) utring \<Rightarrow> int \<Rightarrow> 'e option" where
  "ur_get a j = do { d \<leftarrow> ur_d a; s \<leftarrow> arr_get d j; s }"

definition ur_put :: "('e, 'w) utring \<Rightarrow> int \<Rightarrow> 'e option \<Rightarrow> ('e, 'w) utring option" where
  "ur_put a j e = do { d \<leftarrow> ur_d a; d1 \<leftarrow> arr_set d j e; Some (a\<lparr>ur_d := Some d1\<rparr>) }"

definition utringbuffer_init :: "(int \<Rightarrow> bool) \<Rightarrow> u32 \<Rightarrow> ('e, 'w) ut_icd \<Rightarrow> ('e, 'w) utring" where
  "utringbuffer_init A n icd = \<lparr>ur_i = 0, ur_n = n, ur_f = False, ur_icd = icd,
     ur_d = (if n \<noteq> 0 \<and> A (uint n * icd_sz icd) then Some (replicate (unat n) None) else None)\<rparr>"

text \<open>The result of the first malloc is not checked: without memory the initialisation writes to NULL.\<close>

definition utringbuffer_new :: "(int \<Rightarrow> bool) \<Rightarrow> u32 \<Rightarrow> ('e, 'w) ut_icd \<Rightarrow> ('e, 'w) utring option" where
  "utringbuffer_new A n icd = (if A 56 then Some (utringbuffer_init A n icd) else None)"

definition utringbuffer_len :: "('e, 'w) utring \<Rightarrow> u32" where
  "utringbuffer_len a = (if ur_f a then ur_n a else ur_i a)"

definition utringbuffer_empty :: "('e, 'w) utring \<Rightarrow> bool" where
  "utringbuffer_empty a \<longleftrightarrow> ur_i a = 0 \<and> \<not> ur_f a"

definition utringbuffer_full :: "('e, 'w) utring \<Rightarrow> bool" where
  "utringbuffer_full a \<longleftrightarrow> ur_f a"

text \<open>
  The slot of the j-th oldest element, and back.  The sum wraps at the width W of the index: 32
  bits for an unsigned index, 64 for one that comes from a pointer difference.
\<close>

definition ur_real_idx :: "nat \<Rightarrow> ('e, 'w) utring \<Rightarrow> int \<Rightarrow> int" where
  "ur_real_idx W a j = (if ur_f a then (j + uint (ur_i a)) mod 2 ^ W mod uint (ur_n a) else j)"

definition utringbuffer_eltptr :: "nat \<Rightarrow> ('e, 'w) utring \<Rightarrow> int \<Rightarrow> int option" where
  "utringbuffer_eltptr W a j = (if 0 \<le> j \<and> j < uint (utringbuffer_len a) then Some (ur_real_idx W a j) else None)"

definition utringbuffer_eltidx :: "('e, 'w) utring \<Rightarrow> int \<Rightarrow> int" where
  "utringbuffer_eltidx a e = (if ur_f a then (e + uint (ur_n a) - uint (ur_i a)) mod 2 ^ 64 mod uint (ur_n a) else e)"

definition utringbuffer_front :: "('e, 'w) utring \<Rightarrow> int option" where
  "utringbuffer_front a = utringbuffer_eltptr 32 a 0"

definition utringbuffer_back :: "('e, 'w) utring \<Rightarrow> int option" where
  "utringbuffer_back a = (if utringbuffer_empty a then None
     else utringbuffer_eltptr 32 a (uint (utringbuffer_len a - 1)))"

definition utringbuffer_next :: "('e, 'w) utring \<Rightarrow> int option \<Rightarrow> int option" where
  "utringbuffer_next a e = (case e of None \<Rightarrow> utringbuffer_front a
     | Some k \<Rightarrow> utringbuffer_eltptr 64 a ((utringbuffer_eltidx a k + 1) mod 2 ^ 64))"

definition utringbuffer_prev :: "('e, 'w) utring \<Rightarrow> int option \<Rightarrow> int option" where
  "utringbuffer_prev a e = (case e of None \<Rightarrow> utringbuffer_back a
     | Some k \<Rightarrow> utringbuffer_eltptr 64 a ((utringbuffer_eltidx a k - 1) mod 2 ^ 64))"

text \<open>The destructor on the element a pointer points to; on NULL it is undefined.\<close>

definition ur_dtor_at :: "int option \<Rightarrow> ('e, 'w) ur_state \<Rightarrow> ('e, 'w) ur_state option" where
  "ur_dtor_at e = (\<lambda>(a, w). case icd_dtor (ur_icd a) of None \<Rightarrow> Some (a, w)
     | Some f \<Rightarrow> do { k \<leftarrow> e; x \<leftarrow> ur_get a k; w1 \<leftarrow> f x w; Some (a, w1) })"

definition utringbuffer_clear :: "('e, 'w) ur_state \<Rightarrow> ('e, 'w) ur_state option" where
  "utringbuffer_clear = (\<lambda>(a, w). do {
     (a1, w1) \<leftarrow> (if icd_dtor (ur_icd a) \<noteq> None
       then ua_for (\<lambda>j s. ur_dtor_at (utringbuffer_eltptr 32 (fst s) (uint j)) s) 0 (if ur_f a then ur_n a else ur_i a) (a, w)
       else Some (a, w));
     Some (a1\<lparr>ur_i := 0, ur_f := False\<rparr>, w1) })"

definition utringbuffer_done :: "('e, 'w) ur_state \<Rightarrow> ('e, 'w) ur_state option" where
  "utringbuffer_done s = do { (a, w) \<leftarrow> utringbuffer_clear s; Some (a\<lparr>ur_d := None, ur_n := 0\<rparr>, w) }"

definition utringbuffer_push_back :: "'e \<Rightarrow> ('e, 'w) ur_state \<Rightarrow> ('e, 'w) ur_state option" where
  "utringbuffer_push_back p = (\<lambda>(a, w). do {
     (a, w) \<leftarrow> (if icd_dtor (ur_icd a) \<noteq> None \<and> ur_f a then ur_dtor_at (Some (uint (ur_i a))) (a, w) else Some (a, w));
     (e, w) \<leftarrow> ut_copy (ur_icd a) p w;
     a \<leftarrow> ur_put a (uint (ur_i a)) (Some e);
     let a = a\<lparr>ur_i := ur_i a + 1\<rparr>;
     Some (if ur_i a = ur_n a then a\<lparr>ur_i := 0, ur_f := True\<rparr> else a, w) })"

subsection \<open>Bounded queues\<close>

text \<open>What a ring buffer of n slots promises: a queue, oldest first, that drops its oldest element when it is full.\<close>

definition rq_push :: "('e, 'w) ut_icd \<Rightarrow> nat \<Rightarrow> 'e \<Rightarrow> 'e list \<times> 'w \<Rightarrow> ('e list \<times> 'w) option" where
  "rq_push icd n p = (\<lambda>(xs, w). do {
     (xs, w) \<leftarrow> (if length xs = n then do { w1 \<leftarrow> ut_dtor icd (hd xs) w; Some (tl xs, w1) } else Some (xs, w));
     (e, w) \<leftarrow> ut_copy icd p w;
     Some (xs @ [e], w) })"

definition rq_clear :: "('e, 'w) ut_icd \<Rightarrow> 'e list \<times> 'w \<Rightarrow> ('e list \<times> 'w) option" where
  "rq_clear icd = (\<lambda>(xs, w). do { w1 \<leftarrow> end_all icd xs w; Some ([], w1) })"

definition ur_rep :: "('e, 'w) ut_icd \<Rightarrow> u32 \<Rightarrow> 'e list \<Rightarrow> ('e, 'w) utring \<Rightarrow> bool" where
  "ur_rep icd n xs a \<longleftrightarrow> ur_icd a = icd \<and> ur_n a = n \<and> n \<noteq> 0 \<and> (\<exists>d. ur_d a = Some d \<and> length d = unat n \<and>
     (if ur_f a then length xs = unat n \<and> ur_i a < n \<and> drop (unat (ur_i a)) d @ take (unat (ur_i a)) d = map Some xs
      else unat (ur_i a) = length xs \<and> length xs < unat n \<and> take (length xs) d = map Some xs))"

lemma ur_rep_init:
  "n \<noteq> 0 \<Longrightarrow> A (uint n * icd_sz icd) \<Longrightarrow> ur_rep icd n [] (utringbuffer_init A n icd)"
  by (simp add: ur_rep_def utringbuffer_init_def unat_gt_0)

lemma ur_rep_len: "ur_rep icd n xs a \<Longrightarrow> unat (utringbuffer_len a) = length xs"
  by (auto simp: ur_rep_def utringbuffer_len_def)

lemma ur_rep_le: "ur_rep icd n xs a \<Longrightarrow> length xs \<le> unat n"
  by (auto simp: ur_rep_def split: if_splits)

text \<open>Writing the slot at index i and moving the index on.\<close>

lemma ur_write_open:
  assumes rep: "ur_rep icd n xs a" and f: "\<not> ur_f a"
  shows "\<exists>b. ur_put a (uint (ur_i a)) (Some e) = Some b \<and>
    (let b = b\<lparr>ur_i := ur_i b + 1\<rparr> in ur_rep icd n (xs @ [e]) (if ur_i b = ur_n b then b\<lparr>ur_i := 0, ur_f := True\<rparr> else b))"
proof -
  obtain d where d: "ur_d a = Some d" "length d = unat n" "unat (ur_i a) = length xs" "length xs < unat n"
    "take (length xs) d = map Some xs"
    using rep f by (auto simp: ur_rep_def)
  have i1: "unat (ur_i a + 1) = Suc (length xs)"
    using d(3,4) by (subst unat_plus1 [of _ n]) (simp_all add: word_less_nat_alt)
  have put: "ur_put a (uint (ur_i a)) (Some e) = Some (a\<lparr>ur_d := Some (d[length xs := Some e])\<rparr>)"
    using d by (simp add: ur_put_def arr_set_def uint_less_int)
  have t: "take (Suc (length xs)) (d[length xs := Some e]) = map Some (xs @ [e])"
    using d by (simp add: take_Suc_conv_app_nth)
  have n: "ur_icd a = icd" "ur_n a = n" "n \<noteq> 0" using rep by (simp_all add: ur_rep_def)
  have full: "Suc (length xs) = unat n" if "ur_i a + 1 = n" using that i1 by simp
  have open': "Suc (length xs) < unat n" if "ur_i a + 1 \<noteq> n"
    using that i1 d(4) by (metis Suc_lessI unsigned_word_eqI)
  show ?thesis
    using put n full open' d(2) t i1 f by (auto simp: ur_rep_def Let_def word_gt_0)
qed

lemma ur_oldest:
  assumes rep: "ur_rep icd n xs a" and f: "ur_f a"
  shows "ur_get a (uint (ur_i a)) = Some (hd xs)" "length xs = unat n" "xs \<noteq> []"
proof -
  obtain d where d: "ur_d a = Some d" "length d = unat n" "length xs = unat n" "unat (ur_i a) < unat n"
    "drop (unat (ur_i a)) d @ take (unat (ur_i a)) d = map Some xs"
    using rep f by (auto simp: ur_rep_def word_less_nat_alt)
  show "length xs = unat n" "xs \<noteq> []" using d(3,4) by auto
  have "hd (map Some xs) = d ! unat (ur_i a)" unfolding d(5) [symmetric] using d(2,4) by (simp add: hd_drop_conv_nth)
  then have "d ! unat (ur_i a) = Some (hd xs)" using \<open>xs \<noteq> []\<close> by (simp add: hd_map)
  then show "ur_get a (uint (ur_i a)) = Some (hd xs)" using d by (simp add: ur_get_def arr_get_def uint_less_int)
qed

lemma ur_write_full:
  assumes rep: "ur_rep icd n xs a" and f: "ur_f a"
  shows "\<exists>b. ur_put a (uint (ur_i a)) (Some e) = Some b \<and>
    (let b = b\<lparr>ur_i := ur_i b + 1\<rparr> in ur_rep icd n (tl xs @ [e]) (if ur_i b = ur_n b then b\<lparr>ur_i := 0, ur_f := True\<rparr> else b))"
proof -
  obtain d where d: "ur_d a = Some d" "length d = unat n" "length xs = unat n" "unat (ur_i a) < unat n"
    "drop (unat (ur_i a)) d @ take (unat (ur_i a)) d = map Some xs"
    using rep f by (auto simp: ur_rep_def word_less_nat_alt)
  let ?i = "unat (ur_i a)"
  have i1: "unat (ur_i a + 1) = Suc ?i" using d(4) by (subst unat_plus1 [of _ n]) (simp_all add: word_less_nat_alt)
  have put: "ur_put a (uint (ur_i a)) (Some e) = Some (a\<lparr>ur_d := Some (d[?i := Some e])\<rparr>)"
    using d by (simp add: ur_put_def arr_set_def uint_less_int)
  have tl: "drop (Suc ?i) d @ take ?i d = map Some (tl xs)"
    using arg_cong [OF d(5), of tl] d(2,4) by (simp add: map_tl drop_Suc tl_drop)
  have t: "drop (Suc ?i) (d[?i := Some e]) @ take (Suc ?i) (d[?i := Some e]) = map Some (tl xs @ [e])"
    using d(2,4) by (simp add: take_Suc_conv_app_nth tl [symmetric])
  have all: "d[?i := Some e] = map Some (tl xs @ [e])" if "Suc ?i = unat n"
    using t that d(2) by simp
  have n: "ur_icd a = icd" "ur_n a = n" "n \<noteq> 0" using rep by (simp_all add: ur_rep_def)
  have wrap: "Suc ?i = unat n" if "ur_i a + 1 = n" using that i1 by simp
  have on: "ur_i a + 1 < n" if "ur_i a + 1 \<noteq> n"
    using that i1 d(4) by (metis Suc_lessI unsigned_word_eqI word_less_nat_alt)
  show ?thesis
    using put n f d(2-4) t i1 all wrap on by (auto simp: ur_rep_def Let_def word_gt_0)
qed

lemma utringbuffer_push_back_rep:
  assumes rep: "ur_rep icd n xs a" and q: "rq_push icd (unat n) p (xs, w) = Some (ys, v)"
  shows "\<exists>b. utringbuffer_push_back p (a, w) = Some (b, v) \<and> ur_rep icd n ys b"
proof (cases "ur_f a")
  case False
  then have "length xs < unat n" using rep by (auto simp: ur_rep_def)
  then obtain e where e: "ut_copy icd p w = Some (e, v)" "ys = xs @ [e]"
    using q by (auto simp: rq_push_def bind_Some_iff)
  moreover have "ur_icd a = icd" using rep by (simp add: ur_rep_def)
  ultimately show ?thesis
    using ur_write_open [OF rep False, of e] False
    by (auto simp: utringbuffer_push_back_def Let_def)
next
  case True
  note old = ur_oldest [OF rep True]
  obtain e w1 where e: "ut_dtor icd (hd xs) w = Some w1" "ut_copy icd p w1 = Some (e, v)" "ys = tl xs @ [e]"
    using q old(2) by (auto simp: rq_push_def bind_Some_iff)
  have icd: "ur_icd a = icd" using rep by (simp add: ur_rep_def)
  have "(if icd_dtor (ur_icd a) \<noteq> None \<and> ur_f a then ur_dtor_at (Some (uint (ur_i a))) (a, w) else Some (a, w)) = Some (a, w1)"
    using e(1) icd old(1) True by (auto simp: ur_dtor_at_def ut_dtor_def split: option.splits)
  then show ?thesis
    using ur_write_full [OF rep True, of e] e icd by (auto simp: utringbuffer_push_back_def Let_def)
qed

text \<open>Finding an element: the slot of the j-th oldest one, as long as the sum does not wrap.\<close>

lemma ur_real_nth:
  assumes rep: "ur_rep icd n xs a" and j: "j < length xs" and W: "unat n + unat n \<le> 2 ^ W"
  shows "utringbuffer_eltptr W a (int j) = Some (ur_real_idx W a (int j))"
    and "ur_get a (ur_real_idx W a (int j)) = Some (xs ! j)"
    and "ur_real_idx W a (int j) = (if ur_f a then (int j + uint (ur_i a)) mod uint n else int j)"
proof -
  have "uint (utringbuffer_len a) = int (length xs)" using ur_rep_len [OF rep] by (metis of_nat_unat)
  then show "utringbuffer_eltptr W a (int j) = Some (ur_real_idx W a (int j))"
    using j by (simp add: utringbuffer_eltptr_def)
  obtain d where d: "ur_d a = Some d" "length d = unat n" using rep by (auto simp: ur_rep_def)
  have un: "uint n = int (unat n)" by simp
  show idx: "ur_real_idx W a (int j) = (if ur_f a then (int j + uint (ur_i a)) mod uint n else int j)"
  proof (cases "ur_f a")
    case True
    have "unat (ur_i a) < unat n" "j < unat n" using rep j True ur_rep_le [OF rep] by (auto simp: ur_rep_def word_less_nat_alt)
    then have "int (j + unat (ur_i a)) < 2 ^ W"
      using W by (metis (no_types, lifting) add_less_mono of_nat_less_iff of_nat_numeral of_nat_power order.strict_trans2)
    then have "(int j + uint (ur_i a)) mod 2 ^ W = int j + uint (ur_i a)" by simp
    then show ?thesis using True rep by (simp add: ur_real_idx_def ur_rep_def)
  qed (simp add: ur_real_idx_def)
  show "ur_get a (ur_real_idx W a (int j)) = Some (xs ! j)"
  proof (cases "ur_f a")
    case False
    then have t: "take (length xs) d = map Some xs" "length xs < unat n" using rep d by (auto simp: ur_rep_def)
    have "d ! j = Some (xs ! j)" using j t(1) by (metis length_map nth_map nth_take)
    then show ?thesis using False idx d j t(2) by (simp add: ur_get_def arr_get_def)
  next
    case True
    let ?i = "unat (ur_i a)"
    have t: "length xs = unat n" "?i < unat n" "drop ?i d @ take ?i d = map Some xs"
      using rep d True by (auto simp: ur_rep_def word_less_nat_alt)
    have "(drop ?i d @ take ?i d) ! j = Some (xs ! j)" unfolding t(3) using j by simp
    moreover have "(drop ?i d @ take ?i d) ! j = d ! ((j + ?i) mod unat n)"
      using rotate_drop_take [of ?i d] nth_rotate [of j d ?i] d(2) j t(1,2) by (simp add: add.commute)
    moreover have "ur_real_idx W a (int j) = int ((j + ?i) mod unat n)"
      using idx True by (simp add: zmod_int)
    moreover have "(j + ?i) mod unat n < unat n" using t(2) by simp
    ultimately show ?thesis using d by (simp add: ur_get_def arr_get_def)
  qed
qed

subsection \<open>Clearing\<close>

lemma utringbuffer_clear_rep:
  assumes rep: "ur_rep icd n xs a" and n: "unat n \<le> 2 ^ 31" and e: "end_all icd xs w = Some v"
  shows "\<exists>b. utringbuffer_clear (a, w) = Some (b, v) \<and> ur_rep icd n [] b"
proof -
  have icd: "ur_icd a = icd" using rep by (simp add: ur_rep_def)
  have len: "unat (if ur_f a then ur_n a else ur_i a) = length xs"
    using ur_rep_len [OF rep] by (simp add: utringbuffer_len_def)
  have "(if icd_dtor (ur_icd a) \<noteq> None
      then ua_for (\<lambda>j s. ur_dtor_at (utringbuffer_eltptr 32 (fst s) (uint j)) s) 0 (if ur_f a then ur_n a else ur_i a) (a, w)
      else Some (a, w)) = Some (a, v)"
  proof (cases "icd_dtor icd = None")
    case True
    then show ?thesis using icd e by (simp add: end_all_none)
  next
    case False
    have "ua_for (\<lambda>j s. ur_dtor_at (utringbuffer_eltptr 32 (fst s) (uint j)) s) 0 (if ur_f a then ur_n a else ur_i a) (a, w) =
        map_option (Pair a) (end_all icd xs w)"
    proof (rule ua_for_dtor)
      show "unat (0 :: u32) + length xs = unat (if ur_f a then ur_n a else ur_i a)" using len by simp
      fix j u
      assume j: "j < length xs"
      then have "j < 2 ^ 32" using ur_rep_le [OF rep] n by simp
      then have "uint (0 + of_nat j :: u32) = int j" by (simp add: uint_word_of_int take_bit_eq_mod unsigned_of_nat)
      then show "ur_dtor_at (utringbuffer_eltptr 32 (fst (a, u)) (uint (0 + of_nat j :: u32))) (a, u) =
          map_option (Pair a) (ut_dtor icd (xs ! j) u)"
        using ur_real_nth(1,2) [OF rep j, of 32] n icd False
        by (auto simp: ur_dtor_at_def ut_dtor_def split: option.splits Option.bind_splits)
    qed
    then show ?thesis using False icd e by simp
  qed
  moreover have "ur_rep icd n [] (a\<lparr>ur_i := 0, ur_f := False\<rparr>)"
    using rep by (auto simp: ur_rep_def unat_gt_0)
  ultimately show ?thesis by (auto simp: utringbuffer_clear_def)
qed

subsection \<open>Walking\<close>

primrec walks :: "(int option \<Rightarrow> int option) \<Rightarrow> int option \<Rightarrow> int list \<Rightarrow> bool" where
  "walks nx e [] \<longleftrightarrow> nx e = None"
| "walks nx e (k # ks) \<longleftrightarrow> nx e = Some k \<and> walks nx (Some k) ks"

lemma ua_walk_walks: "walks nx e ks \<Longrightarrow> ua_walk nx e = Some ks"
  by (induction ks arbitrary: e) (subst ua_walk.simps; simp)+

lemma ur_eltidx_real:
  assumes rep: "ur_rep icd n xs a" and j: "j < length xs"
  shows "utringbuffer_eltidx a (ur_real_idx 64 a (int j)) = int j"
proof (cases "ur_f a")
  case True
  have i: "uint (ur_i a) < uint n" "ur_n a = n" using rep True by (auto simp: ur_rep_def word_less_def)
  have un: "unat n < 2 ^ 32" by (rule u32_bound)
  have jn: "int j < uint n" using j ur_rep_le [OF rep] by (metis less_le_trans of_nat_less_iff of_nat_unat)
  have b: "0 \<le> (int j + uint (ur_i a)) mod uint n" "(int j + uint (ur_i a)) mod uint n < uint n" using jn by simp_all
  have n32: "uint n < 4294967296" using uint_lt2p [of n] by simp
  have "((int j + uint (ur_i a)) mod uint n + uint n - uint (ur_i a)) mod 2 ^ 64 =
      (int j + uint (ur_i a)) mod uint n + uint n - uint (ur_i a)"
  proof (rule mod_pos_pos_trivial)
    show "0 \<le> (int j + uint (ur_i a)) mod uint n + uint n - uint (ur_i a)"
      using b i(1) by linarith
    have "(int j + uint (ur_i a)) mod uint n + uint n - uint (ur_i a) < 8589934592"
      using b i(1) n32 uint_ge_0 [of "ur_i a"] by linarith
    then show "(int j + uint (ur_i a)) mod uint n + uint n - uint (ur_i a) < 2 ^ 64"
      by (rule less_trans) simp
  qed
  moreover have "((int j + uint (ur_i a)) mod uint n + uint n - uint (ur_i a)) mod uint n = int j"
  proof -
    have "((int j + uint (ur_i a)) mod uint n + uint n - uint (ur_i a)) mod uint n =
        (((int j + uint (ur_i a)) mod uint n - uint (ur_i a)) + uint n) mod uint n" by (simp add: algebra_simps)
    also have "\<dots> = ((int j + uint (ur_i a)) mod uint n - uint (ur_i a)) mod uint n" by (rule mod_add_self2)
    also have "\<dots> = (int j + uint (ur_i a) - uint (ur_i a)) mod uint n" by (rule mod_diff_left_eq)
    also have "\<dots> = int j" using jn by simp
    finally show ?thesis .
  qed
  ultimately show ?thesis
    using True i(2) ur_real_nth(3) [OF rep j, of 64] un by (simp add: utringbuffer_eltidx_def)
next
  case False
  then show ?thesis by (simp add: ur_real_idx_def utringbuffer_eltidx_def)
qed

lemma ur_eltptr_cases:
  assumes rep: "ur_rep icd n xs a"
  shows "utringbuffer_eltptr W a k = (if 0 \<le> k \<and> k < int (length xs) then Some (ur_real_idx W a k) else None)"
proof -
  have "uint (utringbuffer_len a) = int (length xs)" using ur_rep_len [OF rep] by (metis of_nat_unat)
  then show ?thesis by (simp add: utringbuffer_eltptr_def)
qed

lemma ur_next:
  assumes rep: "ur_rep icd n xs a" and n: "unat n \<le> 2 ^ 31" and j: "j \<le> length xs"
  shows "utringbuffer_next a (if j = 0 then None else Some (ur_real_idx 64 a (int j - 1))) =
    (if j < length xs then Some (ur_real_idx 64 a (int j)) else None)"
proof (cases j)
  case 0
  show ?thesis
  proof (cases "xs = []")
    case True
    then show ?thesis using 0 ur_eltptr_cases [OF rep] by (simp add: utringbuffer_next_def utringbuffer_front_def)
  next
    case False
    then have "ur_real_idx 32 a 0 = ur_real_idx 64 a 0"
      using ur_real_nth(3) [OF rep, of 0 32] ur_real_nth(3) [OF rep, of 0 64] n by simp
    then show ?thesis using 0 False ur_eltptr_cases [OF rep] by (simp add: utringbuffer_next_def utringbuffer_front_def)
  qed
next
  case (Suc k)
  have "utringbuffer_eltidx a (ur_real_idx 64 a (int k)) = int k" using ur_eltidx_real [OF rep] Suc j by simp
  moreover have "int k + 1 < 2 ^ 64" using Suc j ur_rep_le [OF rep] n by simp
  ultimately show ?thesis
    using Suc j ur_eltptr_cases [OF rep] by (simp add: utringbuffer_next_def add.commute)
qed

lemma ur_rep_flags:
  assumes rep: "ur_rep icd n xs a"
  shows "utringbuffer_empty a \<longleftrightarrow> xs = []" "utringbuffer_full a \<longleftrightarrow> length xs = unat n"
  using rep unat_gt_0 [of n] by (auto simp: ur_rep_def utringbuffer_empty_def utringbuffer_full_def unat_eq_0 split: if_splits)

lemma ur_prev:
  assumes rep: "ur_rep icd n xs a" and n: "unat n \<le> 2 ^ 31" and j: "j \<le> length xs"
  shows "utringbuffer_prev a (if j = length xs then None else Some (ur_real_idx 64 a (int j))) =
    (if 0 < j then Some (ur_real_idx 64 a (int j - 1)) else None)"
proof (cases "j = length xs")
  case True
  show ?thesis
  proof (cases "xs = []")
    case e: True
    then show ?thesis using True ur_rep_flags(1) [OF rep] by (simp add: utringbuffer_prev_def utringbuffer_back_def)
  next
    case False
    then obtain k where k: "length xs = Suc k" by (cases xs) auto
    have "unat (utringbuffer_len a - 1) = k"
      using ur_rep_len [OF rep] k unat_minus [of 1 "utringbuffer_len a"] by (simp add: word_le_nat_alt)
    then have "uint (utringbuffer_len a - 1) = int k" by (metis of_nat_unat)
    moreover have "ur_real_idx 32 a (int k) = ur_real_idx 64 a (int k)"
      using ur_real_nth(3) [OF rep, of k 32] ur_real_nth(3) [OF rep, of k 64] n k by simp
    ultimately show ?thesis
      using True False k ur_rep_flags(1) [OF rep] ur_eltptr_cases [OF rep]
      by (simp add: utringbuffer_prev_def utringbuffer_back_def)
  qed
next
  case False
  then have jl: "j < length xs" using j by simp
  have len: "length xs < 2 ^ 32" using ur_rep_le [OF rep] n by simp
  have idx: "utringbuffer_eltidx a (ur_real_idx 64 a (int j)) = int j" by (rule ur_eltidx_real [OF rep jl])
  show ?thesis
  proof (cases j)
    case 0
    have "(- 1 :: int) mod 2 ^ 64 = 18446744073709551615" by simp
    then show ?thesis using 0 False idx len ur_eltptr_cases [OF rep] by (simp add: utringbuffer_prev_def)
  next
    case (Suc k)
    then have "int k mod 2 ^ 64 = int k" using jl len by simp
    then show ?thesis using Suc False jl idx ur_eltptr_cases [OF rep] by (simp add: utringbuffer_prev_def)
  qed
qed

lemma ur_walk_next:
  assumes rep: "ur_rep icd n xs a" and n: "unat n \<le> 2 ^ 31"
  shows "ua_walk (utringbuffer_next a) None = Some (map (\<lambda>j. ur_real_idx 64 a (int j)) [0..<length xs])"
proof (rule ua_walk_walks)
  have "walks (utringbuffer_next a) (if j = 0 then None else Some (ur_real_idx 64 a (int j - 1)))
      (map (\<lambda>j. ur_real_idx 64 a (int j)) [j..<length xs])" if "j \<le> length xs" for j
    using that
  proof (induction j rule: inc_induct)
    case base
    then show ?case using ur_next [OF assms, of "length xs"] by simp
  next
    case (step j)
    then show ?case using ur_next [OF assms, of j] by (simp add: upt_rec)
  qed
  from this [of 0] show "walks (utringbuffer_next a) None (map (\<lambda>j. ur_real_idx 64 a (int j)) [0..<length xs])" by simp
qed

lemma ur_walk_prev:
  assumes rep: "ur_rep icd n xs a" and n: "unat n \<le> 2 ^ 31"
  shows "ua_walk (utringbuffer_prev a) None = Some (map (\<lambda>j. ur_real_idx 64 a (int j)) (rev [0..<length xs]))"
proof (rule ua_walk_walks)
  have "walks (utringbuffer_prev a) (if j = length xs then None else Some (ur_real_idx 64 a (int j)))
      (map (\<lambda>j. ur_real_idx 64 a (int j)) (rev [0..<j]))" if "j \<le> length xs" for j
    using that
  proof (induction j)
    case 0
    then show ?case using ur_prev [OF assms, of 0] by simp
  next
    case (Suc j)
    then show ?case using ur_prev [OF assms, of "Suc j"] by simp
  qed
  from this [of "length xs"] show "walks (utringbuffer_prev a) None (map (\<lambda>j. ur_real_idx 64 a (int j)) (rev [0..<length xs]))" by simp
qed

subsection \<open>Runs\<close>

datatype 'e ur_op = Ring_push 'e | Ring_clear

definition ur_step :: "'e ur_op \<Rightarrow> ('e, 'w) ur_state \<Rightarrow> ('e, 'w) ur_state option" where
  "ur_step x s = (case x of Ring_push p \<Rightarrow> utringbuffer_push_back p s | Ring_clear \<Rightarrow> utringbuffer_clear s)"

primrec ur_run :: "'e ur_op list \<Rightarrow> ('e, 'w) ur_state \<Rightarrow> ('e, 'w) ur_state option" where
  "ur_run [] s = Some s"
| "ur_run (x # ops) s = do { s1 \<leftarrow> ur_step x s; ur_run ops s1 }"

definition rq_step :: "('e, 'w) ut_icd \<Rightarrow> nat \<Rightarrow> 'e ur_op \<Rightarrow> 'e list \<times> 'w \<Rightarrow> ('e list \<times> 'w) option" where
  "rq_step icd n x s = (case x of Ring_push p \<Rightarrow> rq_push icd n p s | Ring_clear \<Rightarrow> rq_clear icd s)"

primrec rq_run :: "('e, 'w) ut_icd \<Rightarrow> nat \<Rightarrow> 'e ur_op list \<Rightarrow> 'e list \<times> 'w \<Rightarrow> ('e list \<times> 'w) option" where
  "rq_run icd n [] s = Some s"
| "rq_run icd n (x # ops) s = do { s1 \<leftarrow> rq_step icd n x s; rq_run icd n ops s1 }"

lemma ur_run_rep:
  assumes "ur_rep icd n xs a" "unat n \<le> 2 ^ 31" "rq_run icd (unat n) ops (xs, w) = Some (ys, v)"
  shows "\<exists>b. ur_run ops (a, w) = Some (b, v) \<and> ur_rep icd n ys b"
  using assms(1,3)
proof (induction ops arbitrary: xs a w)
  case (Cons x ops)
  obtain zs u where z: "rq_step icd (unat n) x (xs, w) = Some (zs, u)" "rq_run icd (unat n) ops (zs, u) = Some (ys, v)"
    using Cons.prems(2) by (auto simp: bind_Some_iff)
  have "\<exists>b. ur_step x (a, w) = Some (b, u) \<and> ur_rep icd n zs b"
  proof (cases x)
    case (Ring_push p)
    then show ?thesis using utringbuffer_push_back_rep [OF Cons.prems(1)] z(1) by (simp add: ur_step_def rq_step_def)
  next
    case Ring_clear
    then show ?thesis using utringbuffer_clear_rep [OF Cons.prems(1) assms(2)] z(1)
      by (auto simp: ur_step_def rq_step_def rq_clear_def bind_Some_iff)
  qed
  then show ?case using Cons.IH z(2) by auto
qed simp

text \<open>Elements that are only copied: the queue after pushes is the last n of them.\<close>

lemma rq_run_plain:
  assumes "icd_copy icd = None" "icd_dtor icd = None" "length xs \<le> n" "0 < n"
  shows "rq_run icd n (map Ring_push ps) (xs, w) = Some (drop (length xs + length ps - n) (xs @ ps), w)"
  using assms(3)
proof (induction ps arbitrary: xs)
  case (Cons p ps)
  show ?case
  proof (cases "length xs = n")
    case True
    then obtain y ys where xs: "xs = y # ys" using assms(4) by (cases xs) auto
    then have n: "n = Suc (length ys)" using True by simp
    show ?thesis using Cons.IH [of "ys @ [p]"] assms(1,2)
      by (simp add: n xs rq_step_def rq_push_def ut_copy_def ut_dtor_def)
  next
    case False
    then show ?thesis using Cons.IH [of "xs @ [p]"] Cons.prems assms(1,2)
      by (simp add: rq_step_def rq_push_def ut_copy_def)
  qed
qed simp

subsection \<open>Ownership\<close>

definition ur_op_args :: "('e \<Rightarrow> bool) \<Rightarrow> 'e ur_op \<Rightarrow> bool" where
  "ur_op_args arg x = (case x of Ring_push p \<Rightarrow> arg p | Ring_clear \<Rightarrow> True)"

context owned_elems
begin

lemma rq_push_total:
  assumes "own xs w" "arg p" "length xs \<le> n" "0 < n"
  shows "\<exists>ys v. rq_push icd n p (xs, w) = Some (ys, v) \<and> own ys v \<and> length ys \<le> n"
proof -
  have "\<exists>zs u. (if length xs = n then do { w1 \<leftarrow> ut_dtor icd (hd xs) w; Some (tl xs, w1) } else Some (xs, w)) = Some (zs, u) \<and>
      own zs u \<and> length zs < n"
  proof (cases "length xs = n")
    case True
    then obtain y ys where "xs = y # ys" using assms(4) by (cases xs) auto
    then show ?thesis using dtor_own [of y ys w] assms(1) True by auto
  next
    case False
    then show ?thesis using assms(1,3) by auto
  qed
  then obtain zs u where z: "(if length xs = n then do { w1 \<leftarrow> ut_dtor icd (hd xs) w; Some (tl xs, w1) } else Some (xs, w)) = Some (zs, u)"
    "own zs u" "length zs < n" by blast
  obtain e v where "ut_copy icd p u = Some (e, v)" "own (zs @ [e]) v" using copy_own [OF z(2) assms(2)] by blast
  then show ?thesis using z(3) unfolding rq_push_def prod.case z(1) by simp
qed

lemma rq_run_total:
  assumes "own xs w" "\<forall>x\<in>set ops. ur_op_args arg x" "length xs \<le> n" "0 < n"
  shows "\<exists>ys v. rq_run icd n ops (xs, w) = Some (ys, v) \<and> own ys v"
  using assms(1-3)
proof (induction ops arbitrary: xs w)
  case (Cons x ops)
  have "\<exists>ys v. rq_step icd n x (xs, w) = Some (ys, v) \<and> own ys v \<and> length ys \<le> n"
  proof (cases x)
    case (Ring_push p)
    then show ?thesis
      using rq_push_total [OF Cons.prems(1) _ Cons.prems(3) assms(4), of p] Cons.prems(2) by (simp add: rq_step_def ur_op_args_def)
  next
    case Ring_clear
    then show ?thesis using end_all_own [of xs "[]" w] Cons.prems(1) by (auto simp: rq_step_def rq_clear_def)
  qed
  then obtain ys v where "rq_step icd n x (xs, w) = Some (ys, v)" "own ys v" "length ys \<le> n" by blast
  then show ?case using Cons.IH [of ys v] Cons.prems(2) by simp
qed auto

lemma utringbuffer_done_own:
  assumes "ur_rep icd n xs a" "unat n \<le> 2 ^ 31" "own xs w"
  shows "\<exists>b v. utringbuffer_done (a, w) = Some (b, v) \<and> own [] v"
proof -
  obtain v where v: "end_all icd xs w = Some v" "own [] v" using end_all_own [of xs "[]" w] assms(3) by auto
  obtain b where "utringbuffer_clear (a, w) = Some (b, v)" using utringbuffer_clear_rep [OF assms(1,2) v(1)] by blast
  then show ?thesis using v(2) by (simp add: utringbuffer_done_def)
qed

end

section \<open>Properties\<close>

text \<open>
  C28: A ring buffer of n slots, 0 < n and at most 2 to the 31, refines a queue that drops its
  oldest element when it is full: after any pushes and clears the queue is defined on, it has the
  queue's length, says that it is full or empty exactly when the queue is, finds the j-th oldest
  element at index j, and a walk with next meets the elements from the oldest to the newest and
  one with prev in reverse; the element functions have done to the world what they would do for
  the queue, so an element that is overwritten was ended first and none twice.
\<close>

theorem utringbuffer_refines_queue:
  assumes "n \<noteq> 0" "unat n \<le> 2 ^ 31" "A 56" "A (uint n * icd_sz icd)"
    and "rq_run icd (unat n) ops ([], w) = Some (xs, v)"
  shows "case do { a \<leftarrow> utringbuffer_new A n icd; ur_run ops (a, w) } of
      None \<Rightarrow> False
    | Some (a, u) \<Rightarrow> u = v \<and> utringbuffer_len a = of_nat (length xs) \<and>
        utringbuffer_full a = (length xs = unat n) \<and> utringbuffer_empty a = (xs = []) \<and>
        (\<forall>j < length xs. Option.bind (utringbuffer_eltptr 32 a (int j)) (ur_get a) = Some (xs ! j)) \<and>
        map_option (map (ur_get a)) (ua_walk (utringbuffer_next a) None) = Some (map Some xs) \<and>
        map_option (map (ur_get a)) (ua_walk (utringbuffer_prev a) None) = Some (map Some (rev xs))"
proof -
  obtain a where run: "ur_run ops (utringbuffer_init A n icd, w) = Some (a, v)" and rep: "ur_rep icd n xs a"
    using ur_run_rep [OF ur_rep_init [where A = A, OF assms(1,4)] assms(2,5)] by auto
  have new: "utringbuffer_new A n icd = Some (utringbuffer_init A n icd)" using assms(3) by (simp add: utringbuffer_new_def)
  have len: "utringbuffer_len a = of_nat (length xs)" by (simp flip: ur_rep_len [OF rep])
  have elt: "Option.bind (utringbuffer_eltptr 32 a (int j)) (ur_get a) = Some (xs ! j)" if "j < length xs" for j
    using ur_real_nth(1,2) [OF rep that, of 32] assms(2) by simp
  have at: "ur_get a (ur_real_idx 64 a (int j)) = Some (xs ! j)" if "j < length xs" for j
    using ur_real_nth(2) [OF rep that, of 64] assms(2) by simp
  have seq: "map (\<lambda>j. ur_get a (ur_real_idx 64 a (int j))) [0..<length xs] = map Some xs"
    using at by (intro nth_equalityI) simp_all
  have next': "map_option (map (ur_get a)) (ua_walk (utringbuffer_next a) None) = Some (map Some xs)"
    using ur_walk_next [OF rep assms(2)] seq by (simp add: comp_def)
  have prev': "map_option (map (ur_get a)) (ua_walk (utringbuffer_prev a) None) = Some (map Some (rev xs))"
    using ur_walk_prev [OF rep assms(2)] seq by (simp add: comp_def rev_map [symmetric])
  show ?thesis
    using new run len elt next' prev' ur_rep_flags [OF rep] by simp
qed

theorem utringbuffer_refines_queue_witness:
  "case do { a \<leftarrow> utringbuffer_new (\<lambda>k. True) 3 (ut_int_icd :: (int, unit) ut_icd);
      ur_run (map Ring_push [1, 2, 3, 4, 5]) (a, ()) } of
      None \<Rightarrow> False
    | Some (a, u) \<Rightarrow> u = () \<and> utringbuffer_len a = of_nat (length [3, 4, 5 :: int]) \<and>
        utringbuffer_full a = (length [3, 4, 5 :: int] = unat (3 :: u32)) \<and> utringbuffer_empty a = ([3, 4, 5 :: int] = []) \<and>
        (\<forall>j < length [3, 4, 5 :: int]. Option.bind (utringbuffer_eltptr 32 a (int j)) (ur_get a) = Some ([3, 4, 5] ! j)) \<and>
        map_option (map (ur_get a)) (ua_walk (utringbuffer_next a) None) = Some (map Some [3, 4, 5]) \<and>
        map_option (map (ur_get a)) (ua_walk (utringbuffer_prev a) None) = Some (map Some (rev [3, 4, 5]))"
  by (rule utringbuffer_refines_queue)
    (simp_all add: rq_step_def rq_push_def ut_copy_def ut_dtor_def ut_int_icd_def)

text \<open>
  A ring buffer of strings never fails and never leaks: pushing strings of the caller and
  clearing, in any order, is always defined, the copies it holds are distinct blocks and the only
  new ones in the heap, and ending the buffer leaves the heap's blocks as they were before it.
\<close>

theorem utringbuffer_strings_owned:
  assumes "n \<noteq> 0" "unat n \<le> 2 ^ 31" "A 56" "A (uint n * 8)" "heap_ok h"
    and "\<forall>x\<in>set ops. ur_op_args (str_arg (blocks h)) x"
  shows "case do { a \<leftarrow> utringbuffer_new A n ut_str_icd; ur_run ops (a, h) } of
      None \<Rightarrow> False
    | Some (a, h1) \<Rightarrow> (\<forall>p\<in>dom (blocks h). blocks h1 p = blocks h p) \<and>
        (\<exists>ps. map_option (map (ur_get a)) (ua_walk (utringbuffer_next a) None) = Some (map Some ps) \<and>
          distinct (somes ps) \<and> set (somes ps) = dom (blocks h1) - dom (blocks h)) \<and>
        map_option (blocks \<circ> snd) (utringbuffer_done (a, h1)) = Some (blocks h)"
proof -
  have sz: "A (uint n * icd_sz ut_str_icd)" using assms(4) by (simp add: ut_str_icd_def)
  have "str_own (blocks h) [] h" using assms(5) by (simp add: str_own_def)
  then obtain ps h1 where q: "rq_run ut_str_icd (unat n) ops ([], h) = Some (ps, h1)" and own: "str_own (blocks h) ps h1"
    using strs.rq_run_total [of "blocks h" "[]" h ops "unat n"] assms(1,6) by (auto simp: unat_gt_0)
  obtain a where run: "ur_run ops (utringbuffer_init A n ut_str_icd, h) = Some (a, h1)" and rep: "ur_rep ut_str_icd n ps a"
    using ur_run_rep [OF ur_rep_init [where A = A, OF assms(1) sz] assms(2) q] by auto
  have "map_option (map (ur_get a)) (ua_walk (utringbuffer_next a) None) = Some (map Some ps)"
    using ur_walk_next [OF rep assms(2)] ur_real_nth(2) [OF rep, of _ 64] assms(2)
    by (auto intro!: nth_equalityI)
  moreover obtain b h2 where d: "utringbuffer_done (a, h1) = Some (b, h2)" "str_own (blocks h) [] h2"
    using strs.utringbuffer_done_own [OF rep assms(2) own] by blast
  have "blocks h2 p = blocks h p" for p
    using d(2) by (cases "p \<in> dom (blocks h)") (auto simp: str_own_def)
  then have "map_option (blocks \<circ> snd) (utringbuffer_done (a, h1)) = Some (blocks h)" using d(1) by auto
  moreover have "distinct (somes ps)" "set (somes ps) = dom (blocks h1) - dom (blocks h)"
    "\<forall>p\<in>dom (blocks h). blocks h1 p = blocks h p"
    using own unfolding str_own_def by blast+
  moreover have "utringbuffer_new A n ut_str_icd = Some (utringbuffer_init A n ut_str_icd)"
    using assms(3) by (simp add: utringbuffer_new_def)
  ultimately show ?thesis using run by auto
qed

theorem utringbuffer_strings_owned_witness:
  "case do { a \<leftarrow> utringbuffer_new (\<lambda>k. True) 2 ut_str_icd;
      ur_run [Ring_push (Some 0), Ring_push (Some 0), Ring_push None, Ring_clear, Ring_push (Some 0)] (a, one_string) } of
      None \<Rightarrow> False
    | Some (a, h1) \<Rightarrow> (\<forall>p\<in>dom (blocks one_string). blocks h1 p = blocks one_string p) \<and>
        (\<exists>ps. map_option (map (ur_get a)) (ua_walk (utringbuffer_next a) None) = Some (map Some ps) \<and>
          distinct (somes ps) \<and> set (somes ps) = dom (blocks h1) - dom (blocks one_string)) \<and>
        map_option (blocks \<circ> snd) (utringbuffer_done (a, h1)) = Some (blocks one_string)"
  by (rule utringbuffer_strings_owned)
    (simp_all add: one_string_def heap_ok_def ur_op_args_def str_arg_def)

text \<open>
  An unsigned index wraps when there are more than 2 to the 31 slots: in a full buffer with
  2 to the 31 + 1 slots whose oldest element is in the last one, the index of the newest element
  finds the second oldest instead, so clearing the buffer ends that one twice.
\<close>

theorem utringbuffer_index_wraps:
  assumes "ur_f a" "ur_n a = 2 ^ 31 + 1" "ur_i a = 2 ^ 31"
  shows "utringbuffer_eltptr 32 a (2 ^ 31) = utringbuffer_eltptr 32 a 1"
    and "utringbuffer_eltptr 64 a (2 ^ 31) \<noteq> utringbuffer_eltptr 64 a 1"
  using assms by (simp_all add: utringbuffer_eltptr_def utringbuffer_len_def ur_real_idx_def)

end
