(* ===== verification/EchoServer.thy ===== *)
theory EchoServer
  imports CString "HOL-Library.Multiset"
begin

text \<open>
  The echo server sample-echo-server.c over TCP: what its callbacks do to the memory they manage
  and which calls of libuv they make.  libuv itself is a parameter: the results of its calls, the
  memory malloc grants (A) and what is in fresh memory are arguments, and of the library only
  its documented promises are modelled, as the callbacks it owes (reading, writes, shuts and
  closing) and the order in which it may pay them (echo-enabled).  Printed messages are left out.
\<close>

subsection \<open>Memory and what libuv owes\<close>

text \<open>
  The blocks the program allocates: a stream handle, a read buffer, a write request with its
  buffer and length, a shutdown request, which libuv points at its stream.
\<close>

datatype uv_block = Tcp_handle | Read_buffer "byte list" | Write_req addr int | Shutdown_req addr

datatype uv_size = Sizeof_tcp | Sizeof_buffer nat | Sizeof_write_req | Sizeof_shutdown

record uv_state =
  mem :: "addr \<Rightarrow> uv_block option"
  uv_brk :: addr
  reading :: "addr list"
  writes :: "(addr \<times> addr) list"
  shuts :: "(addr \<times> addr) list"
  closing :: "(addr \<times> bool) list"
  sent :: "(addr \<times> byte list) list"

definition uv_malloc :: "(uv_size \<Rightarrow> bool) \<Rightarrow> uv_size \<Rightarrow> uv_block \<Rightarrow> uv_state \<Rightarrow> addr option \<times> uv_state" where
  "uv_malloc A n b s = (if A n then (Some (uv_brk s), s\<lparr>mem := (mem s)(uv_brk s \<mapsto> b), uv_brk := Suc (uv_brk s)\<rparr>) else (None, s))"

text \<open>Freeing NULL does nothing, freeing what is not allocated is undefined.\<close>

definition uv_free :: "addr option \<Rightarrow> uv_state \<Rightarrow> uv_state option" where
  "uv_free p s = (case p of None \<Rightarrow> Some s
     | Some a \<Rightarrow> if mem s a = None then None else Some (s\<lparr>mem := (mem s)(a := None)\<rparr>))"

text \<open>
  The calls.  uv-close may be made once for a handle and stops reading from it; its callback may be
  NULL.  A write or shutdown that returns 0 will be called back.
\<close>

definition uv_close :: "addr \<Rightarrow> bool \<Rightarrow> uv_state \<Rightarrow> uv_state option" where
  "uv_close h cb s = (if mem s h \<noteq> Some Tcp_handle \<or> h \<in> fst ` set (closing s) then None
     else Some (s\<lparr>reading := removeAll h (reading s), closing := closing s @ [(h, cb)]\<rparr>))"

definition uv_write :: "int \<Rightarrow> addr \<Rightarrow> addr \<Rightarrow> byte list \<Rightarrow> uv_state \<Rightarrow> uv_state" where
  "uv_write r w h data s = (if r = 0 then s\<lparr>writes := writes s @ [(w, h)], sent := sent s @ [(h, data)]\<rparr> else s)"

definition uv_shutdown :: "int \<Rightarrow> addr \<Rightarrow> addr \<Rightarrow> uv_state \<Rightarrow> uv_state" where
  "uv_shutdown r q h s = (if r = 0 then s\<lparr>mem := (mem s)(q \<mapsto> Shutdown_req h), shuts := shuts s @ [(q, h)]\<rparr> else s)"

subsection \<open>The callbacks\<close>

text \<open>What a fresh buffer holds is arbitrary (junk).\<close>

definition alloc_buffer :: "(uv_size \<Rightarrow> bool) \<Rightarrow> byte list \<Rightarrow> uv_state \<Rightarrow> addr option \<times> uv_state" where
  "alloc_buffer A junk s = uv_malloc A (Sizeof_buffer (length junk)) (Read_buffer junk) s"

definition on_close :: "addr \<Rightarrow> uv_state \<Rightarrow> uv_state option" where
  "on_close peer s = uv_free (Some peer) s"

definition after_shutdown :: "addr \<Rightarrow> int \<Rightarrow> uv_state \<Rightarrow> uv_state option" where
  "after_shutdown req status s = (case mem s req of
       Some (Shutdown_req h) \<Rightarrow> do { s1 \<leftarrow> uv_close h True s; uv_free (Some req) s1 }
     | _ \<Rightarrow> None)"

definition after_write :: "addr \<Rightarrow> int \<Rightarrow> uv_state \<Rightarrow> uv_state option" where
  "after_write req status s = (case mem s req of
       Some (Write_req b n) \<Rightarrow> do { s1 \<leftarrow> uv_free (Some b) s; uv_free (Some req) s1 }
     | _ \<Rightarrow> None)"

text \<open>
  r is the result of the write or shutdown that it makes.  A failed assertion ends the program,
  which is None as well.
\<close>

definition echo_read :: "(uv_size \<Rightarrow> bool) \<Rightarrow> int \<Rightarrow> addr \<Rightarrow> int \<Rightarrow> addr option \<Rightarrow> uv_state \<Rightarrow> uv_state option" where
  "echo_read A r handle nread base s =
     (if nread < 0 then do {
        s1 \<leftarrow> uv_free base s;
        (case uv_malloc A Sizeof_shutdown (Shutdown_req handle) s1 of
           (None, s2) \<Rightarrow> None
         | (Some sreq, s2) \<Rightarrow> Some (uv_shutdown r sreq handle s2)) }
      else if nread = 0 then uv_free base s
      else do {
        b \<leftarrow> base;
        buf \<leftarrow> (case mem s b of Some (Read_buffer buf) \<Rightarrow> Some buf | _ \<Rightarrow> None);
        quit \<leftarrow> c_strneq 4 buf ''quit'';
        if quit then uv_close handle True s
        else (case uv_malloc A Sizeof_write_req (Write_req b nread) s of
           (None, s1) \<Rightarrow> None
         | (Some wr, s1) \<Rightarrow> Some (uv_write r wr handle (take (nat nread) buf) s1)) })"

text \<open>r is what uv-accept says; a handle that is not accepted is closed without a callback.\<close>

definition on_new_connection :: "(uv_size \<Rightarrow> bool) \<Rightarrow> int \<Rightarrow> int \<Rightarrow> uv_state \<Rightarrow> uv_state option" where
  "on_new_connection A r status s =
     (if status < 0 then Some s
      else case uv_malloc A Sizeof_tcp Tcp_handle s of
          (None, s1) \<Rightarrow> None
        | (Some client, s1) \<Rightarrow> if r = 0 then Some (s1\<lparr>reading := reading s1 @ [client]\<rparr>) else uv_close client False s1)"

text \<open>main: the result of uv-listen decides; otherwise what uv-run returns.\<close>

definition echo_main :: "int \<Rightarrow> int \<Rightarrow> int" where
  "echo_main listened result = (if listened \<noteq> 0 then 1 else result)"

subsection \<open>The loop\<close>

text \<open>
  The events of a run: a connection, data from a peer, the end of the data or an error, no buffer
  to read into, and the completion of a write, of a shutdown and of a close.
\<close>

datatype echo_event = Connected int int | Received addr "byte list" "byte list" int | Ended addr "byte list" int int
  | No_buffer addr nat int | Written addr addr int | Shut addr addr int | Closed addr bool

text \<open>
  When libuv may call back: data only on a handle that is read from, and no more of it after the
  end; the others once for each request, a close after all requests of the handle.
\<close>

fun echo_enabled :: "(uv_size \<Rightarrow> bool) \<Rightarrow> echo_event \<Rightarrow> uv_state \<Rightarrow> bool" where
  "echo_enabled A (Connected r status) s = True"
| "echo_enabled A (Received h junk data r) s = (h \<in> set (reading s) \<and> length data \<le> length junk \<and> 4 \<le> length junk \<and> A (Sizeof_buffer (length junk)))"
| "echo_enabled A (Ended h junk n r) s = (h \<in> set (reading s) \<and> n < 0 \<and> A (Sizeof_buffer (length junk)))"
| "echo_enabled A (No_buffer h n r) s = (h \<in> set (reading s) \<and> \<not> A (Sizeof_buffer n))"
| "echo_enabled A (Written w h status) s = ((w, h) \<in> set (writes s))"
| "echo_enabled A (Shut q h status) s = ((q, h) \<in> set (shuts s))"
| "echo_enabled A (Closed h cb) s = ((h, cb) \<in> set (closing s) \<and> h \<notin> snd ` set (writes s) \<and> h \<notin> snd ` set (shuts s))"

text \<open>What happens: libuv pays what it owes, the callback runs.\<close>

fun echo_handle :: "(uv_size \<Rightarrow> bool) \<Rightarrow> echo_event \<Rightarrow> uv_state \<Rightarrow> uv_state option" where
  "echo_handle A (Connected r status) s = on_new_connection A r status s"
| "echo_handle A (Received h junk data r) s = (case alloc_buffer A (data @ drop (length data) junk) s of
     (base, s1) \<Rightarrow> echo_read A r h (int (length data)) base s1)"
| "echo_handle A (Ended h junk n r) s = (case alloc_buffer A junk s of
     (base, s1) \<Rightarrow> echo_read A r h n base (s1\<lparr>reading := removeAll h (reading s1)\<rparr>))"
| "echo_handle A (No_buffer h n r) s = echo_read A r h (- 105) None s"
| "echo_handle A (Written w h status) s = after_write w status (s\<lparr>writes := removeAll (w, h) (writes s)\<rparr>)"
| "echo_handle A (Shut q h status) s = after_shutdown q status (s\<lparr>shuts := removeAll (q, h) (shuts s)\<rparr>)"
| "echo_handle A (Closed h cb) s = (let s1 = s\<lparr>closing := removeAll (h, cb) (closing s)\<rparr> in
     if cb then on_close h s1 else Some s1)"

definition echo_start :: uv_state where
  "echo_start = \<lparr>mem = Map.empty, uv_brk = 0, reading = [], writes = [], shuts = [], closing = [], sent = []\<rparr>"

inductive echo_run :: "(uv_size \<Rightarrow> bool) \<Rightarrow> echo_event list \<Rightarrow> uv_state \<Rightarrow> bool" for A where
  start: "echo_run A [] echo_start"
| event: "echo_run A es s \<Longrightarrow> echo_enabled A e s \<Longrightarrow> echo_handle A e s = Some s' \<Longrightarrow> echo_run A (es @ [e]) s'"

end
