(* ===== verification/EchoServerOk.thy ===== *)
theory EchoServerOk
  imports EchoServer
begin

text \<open>
  The balance of the echo server's memory: an invariant that ties every block in use to a callback
  that libuv still owes (echo-ok), one lemma per event that the callback is defined and keeps it
  (keeps-connected to keeps-closed), and the property over whole runs.
\<close>

section \<open>The invariant\<close>

definition handles :: "uv_state \<Rightarrow> addr list" where
  "handles s = reading s @ map snd (shuts s) @ map fst (closing s)"

text \<open>Every callback that libuv owes has its blocks, and no two have the same.\<close>

definition handles_ok :: "uv_state \<Rightarrow> bool" where
  "handles_ok s \<longleftrightarrow> distinct (handles s) \<and> (\<forall>h\<in>set (handles s). mem s h = Some Tcp_handle)"

definition requests_ok :: "uv_state \<Rightarrow> bool" where
  "requests_ok s \<longleftrightarrow> distinct (map fst (writes s)) \<and> distinct (map fst (shuts s)) \<and>
     (\<forall>q h. (q, h) \<in> set (shuts s) \<longrightarrow> mem s q = Some (Shutdown_req h)) \<and>
     (\<forall>w\<in>fst ` set (writes s). \<exists>b n c. mem s w = Some (Write_req b n) \<and> mem s b = Some (Read_buffer c)) \<and>
     (\<forall>v\<in>fst ` set (writes s). \<forall>w\<in>fst ` set (writes s). \<forall>b n m. mem s v = Some (Write_req b n) \<longrightarrow> mem s w = Some (Write_req b m) \<longrightarrow> v = w) \<and>
     (\<forall>a. uv_brk s \<le> a \<longrightarrow> mem s a = None) \<and> finite (dom (mem s))"

definition echo_ok :: "uv_state \<Rightarrow> bool" where
  "echo_ok s \<longleftrightarrow> handles_ok s \<and> requests_ok s"

definition owed :: "uv_state \<Rightarrow> nat" where
  "owed s = length (handles s) + 2 * length (writes s) + length (shuts s)"

definition says_quit :: "byte list \<Rightarrow> byte list \<Rightarrow> bool" where
  "says_quit data junk \<longleftrightarrow> data \<noteq> [] \<and> c_strneq 4 (data @ drop (length data) junk) ''quit'' = Some True"

text \<open>The blocks an event leaves behind for ever, and what it sends back.\<close>

fun leaked :: "echo_event \<Rightarrow> nat" where
  "leaked (Received h junk data r) = (if data = [] then 0 else if says_quit data junk then 1 else if r = 0 then 0 else 2)"
| "leaked (Ended h junk n r) = (if r = 0 then 0 else 2)"
| "leaked (Closed h cb) = (if cb then 0 else 1)"
| "leaked _ = 0"

fun echoed :: "echo_event \<Rightarrow> (addr \<times> byte list) list" where
  "echoed (Received h junk data r) = (if data = [] \<or> says_quit data junk \<or> r \<noteq> 0 then [] else [(h, data)])"
| "echoed _ = []"

lemma quit_defined: "4 \<le> length bs \<Longrightarrow> \<exists>q. c_strneq 4 bs ''quit'' = Some q"
proof -
  assume "4 \<le> length bs"
  then obtain a b c d xs where "bs = a # b # c # d # xs" by (auto simp: numeral_eq_Suc Suc_le_length_iff)
  then show ?thesis by (auto simp: numeral_eq_Suc)
qed

lemma requests_okD:
  assumes "requests_ok s"
  shows "distinct (map fst (writes s))" "distinct (map fst (shuts s))"
    "\<And>q h. (q, h) \<in> set (shuts s) \<Longrightarrow> mem s q = Some (Shutdown_req h)"
    "\<And>w h. (w, h) \<in> set (writes s) \<Longrightarrow> \<exists>b n c. mem s w = Some (Write_req b n) \<and> mem s b = Some (Read_buffer c)"
    "\<And>v w b n m. v \<in> fst ` set (writes s) \<Longrightarrow> w \<in> fst ` set (writes s) \<Longrightarrow> mem s v = Some (Write_req b n) \<Longrightarrow>
      mem s w = Some (Write_req b m) \<Longrightarrow> v = w"
    "\<And>a. uv_brk s \<le> a \<Longrightarrow> mem s a = None" "finite (dom (mem s))"
  using assms unfolding requests_ok_def by force+

lemma requests_lt: "requests_ok s \<Longrightarrow> mem s a = Some x \<Longrightarrow> a < uv_brk s"
  using requests_okD(6) [of s a] by (cases "uv_brk s \<le> a") simp_all

lemma requests_same:
  "writes s' = writes s \<Longrightarrow> shuts s' = shuts s \<Longrightarrow> mem s' = mem s \<Longrightarrow> uv_brk s' = uv_brk s \<Longrightarrow> requests_ok s' = requests_ok s"
  by (simp add: requests_ok_def)

lemma handles_perm:
  assumes "mset (handles s') = mset (handles s)" "mem s' = mem s"
  shows "handles_ok s' = handles_ok s" "length (handles s') = length (handles s)"
  using mset_eq_setD [OF assms(1)] mset_eq_imp_distinct_iff [OF assms(1)] mset_eq_length [OF assms(1)] assms(2)
  by (simp_all add: handles_ok_def)

lemma handles_drop:
  assumes "add_mset h (mset (handles s')) = mset (handles s)" "mem s' = mem s"
  shows "handles_ok s \<Longrightarrow> handles_ok s'" "Suc (length (handles s')) = length (handles s)"
proof -
  have m: "mset (h # handles s') = mset (handles s)" using assms(1) by simp
  show "handles_ok s \<Longrightarrow> handles_ok s'" "Suc (length (handles s')) = length (handles s)"
    using mset_eq_setD [OF m] mset_eq_imp_distinct_iff [OF m] mset_eq_length [OF m] assms(2)
    by (auto simp: handles_ok_def)
qed

lemma handles_distinct:
  assumes "handles_ok s"
  shows "distinct (reading s)" "distinct (map snd (shuts s))" "distinct (map fst (closing s))"
    "h \<in> set (reading s) \<Longrightarrow> h \<notin> fst ` set (closing s)" "h \<in> snd ` set (shuts s) \<Longrightarrow> h \<notin> fst ` set (closing s)"
    "h \<in> snd ` set (shuts s) \<Longrightarrow> h \<notin> set (reading s)"
  using assms by (auto simp: handles_ok_def handles_def)

lemma handles_tcp: "handles_ok s \<Longrightarrow> h \<in> set (reading s) \<or> h \<in> snd ` set (shuts s) \<or> h \<in> fst ` set (closing s) \<Longrightarrow> mem s h = Some Tcp_handle"
  by (auto simp: handles_ok_def handles_def)

lemma mset_removeAll: "distinct xs \<Longrightarrow> x \<in> set xs \<Longrightarrow> add_mset x (mset (removeAll x xs)) = mset xs"
  by (metis distinct_remove1_removeAll mset_remove1 insert_DiffM in_multiset_in_set)

text \<open>What libuv pays is one of what it owes.\<close>

lemma take_out:
  assumes "distinct (map f xs)" "x \<in> set xs"
  obtains ys zs where "xs = ys @ x # zs" "removeAll x xs = ys @ zs"
proof -
  obtain ys zs where xs: "xs = ys @ x # zs" using assms(2) by (auto simp: in_set_conv_decomp)
  moreover have "x \<notin> set ys" "x \<notin> set zs" using assms(1) xs by auto
  ultimately show ?thesis using that by simp
qed

text \<open>New blocks disturb nothing.\<close>

lemma uv_malloc_ok:
  assumes "A n" "uv_malloc A n b s = (p, s1)"
  shows "p = Some (uv_brk s)" "s1 = s\<lparr>mem := (mem s)(uv_brk s \<mapsto> b), uv_brk := Suc (uv_brk s)\<rparr>"
  using assms by (simp_all add: uv_malloc_def)

lemma blocks_new: "requests_ok s \<Longrightarrow> card (dom ((mem s)(uv_brk s \<mapsto> b))) = Suc (card (dom (mem s)))"
  using requests_okD(6) [of s "uv_brk s"] requests_okD(7) [of s] by (simp add: domIff card_insert_if)

lemma blocks_gone: "finite (dom m) \<Longrightarrow> m a = Some x \<Longrightarrow> Suc (card (dom (m(a := None)))) = card (dom m)"
  by (metis card.remove domI dom_fun_upd fun_upd_def)

lemma requests_mono:
  assumes ok: "requests_ok s" and m: "\<And>a x. mem s a = Some x \<Longrightarrow> m a = Some x"
    and k: "\<And>a. k \<le> a \<Longrightarrow> m a = None" "finite (dom m)"
  shows "requests_ok (s\<lparr>mem := m, uv_brk := k\<rparr>)"
proof -
  let ?s = "s\<lparr>mem := m, uv_brk := k\<rparr>"
  note D = requests_okD [OF ok]
  have wr: "\<exists>b n c. mem s w = Some (Write_req b n) \<and> m w = Some (Write_req b n) \<and> m b = Some (Read_buffer c)"
    if w: "w \<in> fst ` set (writes s)" for w
  proof -
    obtain h where "(w, h) \<in> set (writes s)" using w by auto
    from D(4) [OF this] show ?thesis using m by blast
  qed
  have uniq: "v = w" if v: "v \<in> fst ` set (writes s)" and w: "w \<in> fst ` set (writes s)"
    and vw: "m v = Some (Write_req b n)" "m w = Some (Write_req b n')" for v w b n n'
  proof -
    have "mem s v = Some (Write_req b n)" "mem s w = Some (Write_req b n')"
      using wr [OF v] wr [OF w] vw by auto
    then show ?thesis using D(5) [OF v w] by blast
  qed
  show ?thesis
    unfolding requests_ok_def
  proof (intro conjI)
    show "\<forall>w\<in>fst ` set (writes ?s). \<exists>b n c. mem ?s w = Some (Write_req b n) \<and> mem ?s b = Some (Read_buffer c)"
      using wr by fastforce
    show "\<forall>v\<in>fst ` set (writes ?s). \<forall>w\<in>fst ` set (writes ?s). \<forall>b n m. mem ?s v = Some (Write_req b n) \<longrightarrow> mem ?s w = Some (Write_req b m) \<longrightarrow> v = w"
      using uniq by simp
  qed (use D k m in simp_all)
qed

text \<open>A new block, tied to nothing yet.\<close>

lemma echo_alloc:
  assumes "echo_ok s"
  shows "echo_ok (s\<lparr>mem := (mem s)(uv_brk s \<mapsto> b), uv_brk := Suc (uv_brk s)\<rparr>)"
proof -
  have r: "requests_ok s" and h: "handles_ok s" using assms by (simp_all add: echo_ok_def)
  have new: "mem s a = Some x \<Longrightarrow> ((mem s)(uv_brk s \<mapsto> b)) a = Some x" for a x using requests_lt [OF r] by fastforce
  have "requests_ok (s\<lparr>mem := (mem s)(uv_brk s \<mapsto> b), uv_brk := Suc (uv_brk s)\<rparr>)"
  proof (rule requests_mono [OF r new])
    show "((mem s)(uv_brk s \<mapsto> b)) a = None" if "Suc (uv_brk s) \<le> a" for a
      using requests_okD(6) [OF r, of a] that by simp
    show "finite (dom ((mem s)(uv_brk s \<mapsto> b)))" using requests_okD(7) [OF r] by simp
  qed
  moreover have "handles_ok (s\<lparr>mem := (mem s)(uv_brk s \<mapsto> b), uv_brk := Suc (uv_brk s)\<rparr>)"
    using h new unfolding handles_ok_def by (simp add: handles_def)
  ultimately show ?thesis by (simp add: echo_ok_def)
qed

lemma echo_write:
  assumes ok: "echo_ok s" and w: "mem s w = Some (Write_req b n)" "mem s b = Some (Read_buffer c)" "w \<notin> fst ` set (writes s)"
    and new: "\<And>v m. v \<in> fst ` set (writes s) \<Longrightarrow> mem s v \<noteq> Some (Write_req b m)"
  shows "echo_ok (s\<lparr>writes := writes s @ [(w, h)], sent := x\<rparr>)"
proof -
  have r: "requests_ok s" and hs: "handles_ok s" using ok by (simp_all add: echo_ok_def)
  note D = requests_okD [OF r]
  have "requests_ok (s\<lparr>writes := writes s @ [(w, h)], sent := x\<rparr>)"
    unfolding requests_ok_def
  proof (intro conjI)
    show "\<forall>u\<in>fst ` set (writes (s\<lparr>writes := writes s @ [(w, h)], sent := x\<rparr>)). \<forall>v\<in>fst ` set (writes (s\<lparr>writes := writes s @ [(w, h)], sent := x\<rparr>)). \<forall>b n m.
        mem (s\<lparr>writes := writes s @ [(w, h)], sent := x\<rparr>) u = Some (Write_req b n) \<longrightarrow>
        mem (s\<lparr>writes := writes s @ [(w, h)], sent := x\<rparr>) v = Some (Write_req b m) \<longrightarrow> u = v"
      using D(5) w(1) new by fastforce
  qed (use D(1-4,6,7) w in force)+
  then show ?thesis using hs by (simp add: echo_ok_def handles_ok_def handles_def)
qed

subsection \<open>Every event\<close>

text \<open>What an event has to keep: the callback is defined, and no block is lost but those counted.\<close>

definition echo_keeps :: "(uv_size \<Rightarrow> bool) \<Rightarrow> echo_event \<Rightarrow> uv_state \<Rightarrow> bool" where
  "echo_keeps A e s \<longleftrightarrow> (\<exists>s'. echo_handle A e s = Some s' \<and> echo_ok s' \<and>
     card (dom (mem s')) + owed s = card (dom (mem s)) + owed s' + leaked e \<and> sent s' = sent s @ echoed e)"

lemma echo_keepsI:
  "echo_handle A e s = Some s' \<Longrightarrow> echo_ok s' \<Longrightarrow> card (dom (mem s')) + owed s = card (dom (mem s)) + owed s' + leaked e \<Longrightarrow>
    sent s' = sent s @ echoed e \<Longrightarrow> echo_keeps A e s"
  unfolding echo_keeps_def by blast

lemma keeps_connected:
  assumes ok: "echo_ok s" and A: "\<forall>x. A x"
  shows "echo_keeps A (Connected r status) s"
proof (cases "status < 0")
  case True
  then show ?thesis using ok by (intro echo_keepsI [of _ _ _ s]) (simp_all add: on_new_connection_def)
next
  case False
  let ?a = "uv_brk s" and ?s1 = "s\<lparr>mem := (mem s)(uv_brk s \<mapsto> Tcp_handle), uv_brk := Suc (uv_brk s)\<rparr>"
  have ok1: "echo_ok ?s1" by (rule echo_alloc [OF ok])
  have rq: "requests_ok s" "handles_ok s" using ok by (simp_all add: echo_ok_def)
  have new: "?a \<notin> set (handles s)" using handles_tcp [OF rq(2), of ?a] requests_okD(6) [OF rq(1), of ?a] by (auto simp: handles_def)
  have c: "card (dom (mem ?s1)) = Suc (card (dom (mem s)))" using blocks_new [OF rq(1), of Tcp_handle] by simp
  have run: "handles_ok ?s1" "requests_ok ?s1" using ok1 by (simp_all add: echo_ok_def)
  show ?thesis
  proof (cases "r = 0")
    case True
    let ?s2 = "?s1\<lparr>reading := reading s @ [?a]\<rparr>"
    have "handles_ok ?s2" using run(1) new by (auto simp: handles_ok_def handles_def)
    then have "echo_ok ?s2" using run(2) by (simp add: echo_ok_def requests_ok_def)
    moreover have "owed ?s2 = Suc (owed s)" by (simp add: owed_def handles_def)
    ultimately show ?thesis using True False A c
      by (intro echo_keepsI [of _ _ _ ?s2]) (simp_all add: on_new_connection_def uv_malloc_def)
  next
    case r: False
    let ?s2 = "?s1\<lparr>reading := removeAll ?a (reading s), closing := closing s @ [(?a, False)]\<rparr>"
    have rm: "removeAll ?a (reading s) = reading s" using new by (simp add: handles_def)
    have cl: "?a \<notin> fst ` set (closing s)" using new by (auto simp: handles_def)
    have "handles_ok ?s2" using run(1) new rm by (auto simp: handles_ok_def handles_def)
    then have "echo_ok ?s2" using run(2) by (simp add: echo_ok_def requests_ok_def)
    moreover have "owed ?s2 = Suc (owed s)" using rm by (simp add: owed_def handles_def)
    ultimately show ?thesis using r False A c cl
      by (intro echo_keepsI [of _ _ _ ?s2]) (simp_all add: on_new_connection_def uv_malloc_def uv_close_def)
  qed
qed

text \<open>
  What is left when the blocks in X are freed: every request that is still owed, if X holds
  nothing of it.
\<close>

lemma requests_less:
  assumes ok: "requests_ok s" and sub: "set (writes s') \<subseteq> set (writes s)" "set (shuts s') \<subseteq> set (shuts s)"
    and d: "distinct (map fst (writes s'))" "distinct (map fst (shuts s'))"
    and m: "mem s' = (mem s) |` (- X)" and brk: "uv_brk s' = uv_brk s"
    and w: "\<And>v h b n. (v, h) \<in> set (writes s') \<Longrightarrow> mem s v = Some (Write_req b n) \<Longrightarrow> v \<notin> X \<and> b \<notin> X"
    and q: "\<And>p h. (p, h) \<in> set (shuts s') \<Longrightarrow> p \<notin> X"
  shows "requests_ok s'"
proof -
  note D = requests_okD [OF ok]
  have wr: "\<exists>b n c. mem s v = Some (Write_req b n) \<and> mem s' v = Some (Write_req b n) \<and> mem s' b = Some (Read_buffer c)"
    if v: "v \<in> fst ` set (writes s')" for v
  proof -
    obtain h where h: "(v, h) \<in> set (writes s')" using v by auto
    then have "(v, h) \<in> set (writes s)" using sub by blast
    from D(4) [OF this] obtain b n c where b: "mem s v = Some (Write_req b n)" "mem s b = Some (Read_buffer c)" by blast
    from w [OF h b(1)] b show ?thesis unfolding m by auto
  qed
  have uniq: "u = v" if u: "u \<in> fst ` set (writes s')" and v: "v \<in> fst ` set (writes s')"
    and uv: "mem s' u = Some (Write_req b n)" "mem s' v = Some (Write_req b n')" for u v b n n'
  proof -
    have "u \<in> fst ` set (writes s)" "v \<in> fst ` set (writes s)" using u v sub(1) by auto
    moreover have "mem s u = Some (Write_req b n)" "mem s v = Some (Write_req b n')"
      using wr [OF u] wr [OF v] uv by auto
    ultimately show ?thesis using D(5) by blast
  qed
  have sh: "mem s' p = Some (Shutdown_req h)" if p: "(p, h) \<in> set (shuts s')" for p h
  proof -
    have "(p, h) \<in> set (shuts s)" using sub(2) p by blast
    from D(3) [OF this] q [OF p] show ?thesis unfolding m by simp
  qed
  have hi: "mem s' a = None" if "uv_brk s' \<le> a" for a using D(6) [of a] that brk m by (simp add: restrict_map_def)
  have fin: "finite (dom (mem s'))" using D(7) m by simp
  show ?thesis
    unfolding requests_ok_def
  proof (intro conjI)
    show "\<forall>w\<in>fst ` set (writes s'). \<exists>b n c. mem s' w = Some (Write_req b n) \<and> mem s' b = Some (Read_buffer c)"
      using wr by (meson)
    show "\<forall>u\<in>fst ` set (writes s'). \<forall>v\<in>fst ` set (writes s'). \<forall>b n m. mem s' u = Some (Write_req b n) \<longrightarrow> mem s' v = Some (Write_req b m) \<longrightarrow> u = v"
      by (intro ballI allI impI) (rule uniq)
  qed (simp_all add: d sh hi fin)
qed

lemma requests_of_handles:
  assumes "requests_ok s" "mem s h = Some Tcp_handle"
  shows "h \<notin> fst ` set (writes s)" "h \<notin> fst ` set (shuts s)"
    "(v, x) \<in> set (writes s) \<Longrightarrow> mem s v = Some (Write_req b n) \<Longrightarrow> b \<noteq> h"
proof -
  note D = requests_okD [OF assms(1)]
  show "h \<notin> fst ` set (writes s)"
  proof
    assume "h \<in> fst ` set (writes s)"
    then obtain x where "(h, x) \<in> set (writes s)" by auto
    from D(4) [OF this] show False using assms(2) by simp
  qed
  show "h \<notin> fst ` set (shuts s)"
  proof
    assume "h \<in> fst ` set (shuts s)"
    then obtain x where "(h, x) \<in> set (shuts s)" by auto
    from D(3) [OF this] show False using assms(2) by simp
  qed
  show "b \<noteq> h" if "(v, x) \<in> set (writes s)" "mem s v = Some (Write_req b n)"
    using D(4) [OF that(1)] that(2) assms(2) by auto
qed

lemma keeps_written:
  assumes ok: "echo_ok s" and en: "echo_enabled A (Written w h status) s"
  shows "echo_keeps A (Written w h status) s"
proof -
  have rq: "requests_ok s" "handles_ok s" using ok by (simp_all add: echo_ok_def)
  note D = requests_okD [OF rq(1)]
  have in_w: "(w, h) \<in> set (writes s)" using en by simp
  obtain ws1 ws2 where ws: "writes s = ws1 @ (w, h) # ws2" "removeAll (w, h) (writes s) = ws1 @ ws2"
    using take_out [OF D(1) in_w] by blast
  obtain b n c where b: "mem s w = Some (Write_req b n)" "mem s b = Some (Read_buffer c)" using D(4) [OF in_w] by blast
  have bw: "b \<noteq> w" using b by auto
  let ?m = "(mem s)(b := None, w := None)"
  let ?s = "s\<lparr>writes := ws1 @ ws2, mem := ?m\<rparr>"
  have "requests_ok ?s"
  proof (rule requests_less [OF rq(1), where X = "{b, w}"])
    show "v \<notin> {b, w} \<and> b' \<notin> {b, w}" if v: "(v, x) \<in> set (writes ?s)" "mem s v = Some (Write_req b' n')" for v x b' n'
    proof -
      have vw: "v \<noteq> w" using D(1) v(1) ws(1) by force
      have vs: "(v, x) \<in> set (writes s)" using v(1) ws(1) by auto
      have "b' \<noteq> b"
      proof
        assume "b' = b"
        moreover have "v \<in> fst ` set (writes s)" "w \<in> fst ` set (writes s)" using vs in_w by force+
        ultimately show False using D(5) [of v w b n' n] v(2) b(1) vw by simp
      qed
      moreover obtain c' where "mem s b' = Some (Read_buffer c')" using D(4) [OF vs] v(2) by auto
      ultimately show ?thesis using b v(2) vw by auto
    qed
    show "p \<notin> {b, w}" if "(p, x) \<in> set (shuts ?s)" for p x
      using D(3) [of p x] that b by auto
    show "mem ?s = (mem s) |` (- {b, w})" by (auto simp: restrict_map_def)
  qed (use D(1,2) ws(1) in auto)
  moreover have "handles_ok ?s"
  proof -
    have "mem ?s a = Some Tcp_handle" if "a \<in> set (handles s)" for a
      using rq(2) that b by (auto simp: handles_ok_def)
    then show ?thesis using rq(2) by (simp add: handles_ok_def handles_def)
  qed
  ultimately have "echo_ok ?s" by (simp add: echo_ok_def)
  moreover have "Suc (Suc (card (dom ?m))) = card (dom (mem s))"
    using blocks_gone [OF D(7) b(2)] blocks_gone [of "(mem s)(b := None)" w "Write_req b n"] D(7) b(1) bw by simp
  moreover have "echo_handle A (Written w h status) s = Some ?s"
    using b bw ws(2) by (simp add: after_write_def uv_free_def)
  moreover have "owed s = owed ?s + 2" using ws(1) by (simp add: owed_def handles_def)
  ultimately show ?thesis by (intro echo_keepsI [of _ _ _ ?s]) simp_all
qed

text \<open>A fresh buffer that is freed again leaves the memory as it was.\<close>

lemma echo_bump:
  assumes "echo_ok s"
  shows "echo_ok (s\<lparr>uv_brk := Suc (uv_brk s)\<rparr>)" "mem s (uv_brk s) = None" "(mem s)(uv_brk s := None) = mem s"
proof -
  have r: "requests_ok s" "handles_ok s" using assms by (simp_all add: echo_ok_def)
  have "requests_ok (s\<lparr>mem := mem s, uv_brk := Suc (uv_brk s)\<rparr>)"
    using requests_okD(6,7) [OF r(1)] by (intro requests_mono [OF r(1)]) simp_all
  then show "echo_ok (s\<lparr>uv_brk := Suc (uv_brk s)\<rparr>)" using r(2) by (simp add: echo_ok_def handles_ok_def handles_def)
  show "mem s (uv_brk s) = None" using requests_okD(6) [OF r(1)] by simp
  then show "(mem s)(uv_brk s := None) = mem s" by (simp add: fun_upd_idem)
qed

lemma echo_close:
  assumes ok: "echo_ok s" and h: "h \<in> set (reading s)"
  obtains s' where "uv_close h True s = Some s'" "echo_ok s'" "mem s' = mem s" "owed s' = owed s" "sent s' = sent s"
proof -
  let ?s = "s\<lparr>reading := removeAll h (reading s), closing := closing s @ [(h, True)]\<rparr>"
  have r: "requests_ok s" "handles_ok s" using ok by (simp_all add: echo_ok_def)
  have "add_mset h (mset (removeAll h (reading s))) = mset (reading s)"
    by (rule mset_removeAll [OF handles_distinct(1) [OF r(2)] h])
  then have m: "mset (handles ?s) = mset (handles s)" by (simp add: handles_def)
  have "uv_close h True s = Some ?s"
    using handles_tcp [OF r(2), of h] handles_distinct(4) [OF r(2) h] h by (simp add: uv_close_def)
  moreover have "echo_ok ?s" using handles_perm(1) [OF m] r by (simp add: echo_ok_def requests_ok_def)
  moreover have "owed ?s = owed s" using handles_perm(2) [OF m] by (simp add: owed_def)
  ultimately show ?thesis using that by simp
qed

lemma keeps_echoed:
  assumes ok: "echo_ok s" and en: "echo_enabled A (Received h junk data r) s" and A: "\<forall>x. A x"
    and 3: "data \<noteq> []" "c_strneq 4 (data @ drop (length data) junk) ''quit'' = Some False"
  shows "echo_keeps A (Received h junk data r) s"
proof -
  let ?buf = "data @ drop (length data) junk" and ?b = "uv_brk s"
  let ?s1 = "s\<lparr>mem := (mem s)(?b \<mapsto> Read_buffer ?buf), uv_brk := Suc ?b\<rparr>"
  have rq: "requests_ok s" "handles_ok s" using ok by (simp_all add: echo_ok_def)
  have al: "alloc_buffer A ?buf s = (Some ?b, ?s1)" using A by (simp add: alloc_buffer_def uv_malloc_def)
  have ok1: "echo_ok ?s1" by (rule echo_alloc [OF ok])
  have c1: "card (dom (mem ?s1)) = Suc (card (dom (mem s)))" using blocks_new [OF rq(1)] by simp
  let ?w = "Suc ?b"
  let ?s2 = "?s1\<lparr>mem := (mem ?s1)(?w \<mapsto> Write_req ?b (int (length data))), uv_brk := Suc ?w\<rparr>"
  let ?s3 = "uv_write r ?w h data ?s2"
  have ok2: "echo_ok ?s2" using echo_alloc [OF ok1, of "Write_req ?b (int (length data))"] by simp
  have rq1: "requests_ok ?s1" using ok1 by (simp add: echo_ok_def)
  have c2: "card (dom (mem ?s2)) = Suc (Suc (card (dom (mem s))))"
    using blocks_new [OF rq1, of "Write_req ?b (int (length data))"] c1 by simp
  have run: "echo_handle A (Received h junk data r) s = Some ?s3" using 3 al A by (simp add: echo_read_def uv_malloc_def)
  have none: "mem s ?b = None" "mem s ?w = None" using requests_okD(6) [OF rq(1)] by simp_all
  have old: "v \<noteq> ?w \<and> mem s v \<noteq> Some (Write_req ?b m)" if v: "v \<in> fst ` set (writes s)" for v m
  proof -
    obtain x where "(v, x) \<in> set (writes s)" using v by auto
    from requests_okD(4) [OF rq(1) this] none show ?thesis by auto
  qed
  show ?thesis
  proof (cases "r = 0")
    case True
    have "echo_ok (?s2\<lparr>writes := writes ?s2 @ [(?w, h)], sent := sent s @ [(h, data)]\<rparr>)"
    proof (rule echo_write [OF ok2])
      show "?w \<notin> fst ` set (writes ?s2)" using old by fastforce
      show "mem ?s2 v \<noteq> Some (Write_req ?b m)" if "v \<in> fst ` set (writes ?s2)" for v m
      proof -
        have "v \<in> fst ` set (writes s)" using that by simp
        from old [OF this, of m] show ?thesis by simp
      qed
    qed simp_all
    then show ?thesis using True 3 c2 run
      by (intro echo_keepsI [of _ _ _ ?s3]) (simp_all add: uv_write_def owed_def handles_def says_quit_def)
  next
    case False
    then show ?thesis using False 3 c2 run ok2
      by (intro echo_keepsI [of _ _ _ ?s3]) (simp_all add: uv_write_def owed_def handles_def says_quit_def)
  qed
qed

lemma keeps_received:
  assumes ok: "echo_ok s" and en: "echo_enabled A (Received h junk data r) s" and A: "\<forall>x. A x"
  shows "echo_keeps A (Received h junk data r) s"
proof -
  let ?buf = "data @ drop (length data) junk" and ?b = "uv_brk s"
  let ?s1 = "s\<lparr>mem := (mem s)(?b \<mapsto> Read_buffer ?buf), uv_brk := Suc ?b\<rparr>"
  have rq: "requests_ok s" "handles_ok s" using ok by (simp_all add: echo_ok_def)
  have al: "alloc_buffer A ?buf s = (Some ?b, ?s1)" using A by (simp add: alloc_buffer_def uv_malloc_def)
  have ok1: "echo_ok ?s1" by (rule echo_alloc [OF ok])
  have c1: "card (dom (mem ?s1)) = Suc (card (dom (mem s)))" using blocks_new [OF rq(1)] by simp
  have o1: "owed ?s1 = owed s" by (simp add: owed_def handles_def)
  obtain q where q: "c_strneq 4 ?buf ''quit'' = Some q" using quit_defined [of ?buf] en by auto
  consider "data = []" | "data \<noteq> []" q | "data \<noteq> []" "\<not> q" by blast
  then show ?thesis
  proof cases
    case 1
    then show ?thesis using al A echo_bump [OF ok]
      by (intro echo_keepsI [of _ _ _ "s\<lparr>uv_brk := Suc ?b\<rparr>"]) (simp_all add: echo_read_def uv_free_def owed_def handles_def)
  next
    case 2
    have "h \<in> set (reading ?s1)" using en by simp
    then obtain s' where "uv_close h True ?s1 = Some s'" "echo_ok s'" "mem s' = mem ?s1" "owed s' = owed ?s1" "sent s' = sent ?s1"
      by (rule echo_close [OF ok1])
    then show ?thesis using 2 al q c1 o1
      by (intro echo_keepsI [of _ _ _ s']) (simp_all add: echo_read_def says_quit_def)
  next
    case 3
    then show ?thesis using keeps_echoed [OF ok en A] q by simp
  qed
qed

lemma keeps_ended:
  assumes ok: "echo_ok s" and en: "echo_enabled A (Ended h junk n r) s" and A: "\<forall>x. A x"
  shows "echo_keeps A (Ended h junk n r) s"
proof -
  let ?b = "uv_brk s" and ?q = "Suc (uv_brk s)"
  let ?s0 = "s\<lparr>uv_brk := ?q\<rparr>"
  let ?s1 = "?s0\<lparr>mem := (mem s)(?q \<mapsto> Shutdown_req h), uv_brk := Suc ?q\<rparr>"
  let ?s2 = "uv_shutdown r ?q h (?s1\<lparr>reading := removeAll h (reading s)\<rparr>)"
  note bump = echo_bump [OF ok]
  have hr: "h \<in> set (reading s)" "n < 0" using en by simp_all
  have ok1: "echo_ok ?s1" using echo_alloc [OF bump(1), of "Shutdown_req h"] by simp
  have rq0: "requests_ok ?s0" and rq: "requests_ok ?s1" "handles_ok ?s1" "handles_ok s"
    using ok1 bump(1) ok by (simp_all add: echo_ok_def)
  have c1: "card (dom (mem ?s1)) = Suc (card (dom (mem s)))" using blocks_new [OF rq0, of "Shutdown_req h"] by simp
  have run: "echo_handle A (Ended h junk n r) s = Some ?s2"
    using hr(2) A bump(3) by (simp add: alloc_buffer_def echo_read_def uv_malloc_def uv_free_def uv_shutdown_def)
  have rem: "add_mset h (mset (removeAll h (reading s))) = mset (reading s)"
    by (rule mset_removeAll [OF handles_distinct(1) [OF rq(3)] hr(1)])
  have none: "mem s ?q = None" using requests_okD(6) [OF rq0, of ?q] by simp
  have new: "?q \<notin> fst ` set (shuts s)"
  proof
    assume "?q \<in> fst ` set (shuts s)"
    then obtain x where "(?q, x) \<in> set (shuts s)" by auto
    from requests_okD(3) [OF rq0, of ?q x] this none show False by simp
  qed
  show ?thesis
  proof (cases "r = 0")
    case True
    then have s2: "?s2 = ?s1\<lparr>reading := removeAll h (reading s), shuts := shuts s @ [(?q, h)]\<rparr>" by (simp add: uv_shutdown_def)
    have m: "mset (handles ?s2) = mset (handles ?s1)" using rem unfolding s2 by (simp add: handles_def)
    have "requests_ok ?s2"
      using requests_okD(1-3) [OF rq(1)] rq(1) new unfolding s2 requests_ok_def by (auto)
    then have "echo_ok ?s2" using handles_perm(1) [OF m] rq(2) unfolding s2 by (simp add: echo_ok_def)
    moreover have "owed ?s2 = Suc (owed s)"
      using handles_perm(2) [OF m] unfolding s2 by (simp add: owed_def handles_def)
    ultimately show ?thesis using True c1 run s2 by (intro echo_keepsI [of _ _ _ ?s2]) simp_all
  next
    case False
    then have s2: "?s2 = ?s1\<lparr>reading := removeAll h (reading s)\<rparr>" by (simp add: uv_shutdown_def)
    have m: "add_mset h (mset (handles ?s2)) = mset (handles ?s1)" using rem unfolding s2 by (simp add: handles_def)
    have "echo_ok ?s2" using handles_drop(1) [OF m] rq(1,2) unfolding s2 by (simp add: echo_ok_def requests_ok_def)
    moreover have "Suc (owed ?s2) = owed s"
      using handles_drop(2) [OF m] unfolding s2 by (simp add: owed_def handles_def)
    ultimately show ?thesis using False c1 run s2 by (intro echo_keepsI [of _ _ _ ?s2]) simp_all
  qed
qed

lemma keeps_shut:
  assumes ok: "echo_ok s" and en: "echo_enabled A (Shut q h status) s"
  shows "echo_keeps A (Shut q h status) s"
proof -
  have rq: "requests_ok s" "handles_ok s" using ok by (simp_all add: echo_ok_def)
  note D = requests_okD [OF rq(1)]
  have inq: "(q, h) \<in> set (shuts s)" using en by simp
  then obtain xs ys where ws: "shuts s = xs @ (q, h) # ys" "removeAll (q, h) (shuts s) = xs @ ys"
    using take_out [OF D(2)] by blast
  have mq: "mem s q = Some (Shutdown_req h)" using D(3) [OF inq] .
  have hs: "h \<in> snd ` set (shuts s)" using inq by force
  have rd: "removeAll h (reading s) = reading s" using handles_distinct(6) [OF rq(2) hs] by simp
  let ?s = "s\<lparr>shuts := xs @ ys, mem := (mem s)(q := None), closing := closing s @ [(h, True)]\<rparr>"
  have "requests_ok ?s"
  proof (rule requests_less [OF rq(1), where X = "{q}"])
    show "v \<notin> {q} \<and> b \<notin> {q}" if "(v, x) \<in> set (writes ?s)" "mem s v = Some (Write_req b n)" for v x b n
      using D(4) [of v x] that mq by auto
    show "p \<notin> {q}" if "(p, x) \<in> set (shuts ?s)" for p x using D(2) that ws(1) by force
    show "mem ?s = (mem s) |` (- {q})" by (auto simp: restrict_map_def)
  qed (use D(1,2) ws(1) in auto)
  moreover have m: "mset (handles ?s) = mset (handles s)" using ws(1) by (simp add: handles_def)
  have "handles_ok ?s"
  proof -
    have "mem ?s a = Some Tcp_handle" if "a \<in> set (handles s)" for a
      using rq(2) that mq by (auto simp: handles_ok_def)
    then show ?thesis using rq(2) mset_eq_setD [OF m] mset_eq_imp_distinct_iff [OF m] by (simp add: handles_ok_def)
  qed
  ultimately have "echo_ok ?s" by (simp add: echo_ok_def)
  moreover have "Suc (card (dom (mem ?s))) = card (dom (mem s))" using blocks_gone [OF D(7) mq] by simp
  moreover have "echo_handle A (Shut q h status) s = Some ?s"
    using mq ws(2) rd handles_tcp [OF rq(2)] hs handles_distinct(5) [OF rq(2) hs]
    by (simp add: after_shutdown_def uv_close_def uv_free_def)
  moreover have "owed s = Suc (owed ?s)" using mset_eq_length [OF m] ws(1) by (simp add: owed_def)
  ultimately show ?thesis by (intro echo_keepsI [of _ _ _ ?s]) simp_all
qed

lemma keeps_closed:
  assumes ok: "echo_ok s" and en: "echo_enabled A (Closed h cb) s"
  shows "echo_keeps A (Closed h cb) s"
proof -
  have rq: "requests_ok s" "handles_ok s" using ok by (simp_all add: echo_ok_def)
  note D = requests_okD [OF rq(1)]
  have inc: "(h, cb) \<in> set (closing s)" using en by simp
  then obtain xs ys where ws: "closing s = xs @ (h, cb) # ys" "removeAll (h, cb) (closing s) = xs @ ys"
    using take_out [OF handles_distinct(3) [OF rq(2)]] by blast
  have mh: "mem s h = Some Tcp_handle" using handles_tcp [OF rq(2), of h] inc by force
  let ?X = "if cb then {h} else {}"
  let ?s = "s\<lparr>closing := xs @ ys, mem := (mem s) |` (- ?X)\<rparr>"
  note R = requests_of_handles [OF rq(1) mh]
  have "requests_ok ?s"
  proof (rule requests_less [OF rq(1), where X = ?X])
    show "v \<notin> ?X \<and> b \<notin> ?X" if "(v, x) \<in> set (writes ?s)" "mem s v = Some (Write_req b n)" for v x b n
      using R(1) R(3) [of v x b n] imageI [of "(v, x)" "set (writes s)" fst] that by (auto split: if_splits)
    show "p \<notin> ?X" if "(p, x) \<in> set (shuts ?s)" for p x using R(2) imageI [of "(p, x)" "set (shuts s)" fst] that by (auto split: if_splits)
  qed (use D(1,2) in simp_all)
  moreover have m: "add_mset h (mset (handles ?s)) = mset (handles s)" using ws(1) by (simp add: handles_def)
  have "handles_ok ?s"
  proof -
    have m': "mset (h # handles ?s) = mset (handles s)" using m by simp
    have d: "distinct (h # handles ?s)" using mset_eq_imp_distinct_iff [OF m'] rq(2) by (simp only: handles_ok_def)
    have "mem ?s a = Some Tcp_handle" if a: "a \<in> set (handles ?s)" for a
    proof -
      have "a \<noteq> h" using a d by auto
      moreover have "mem s a = Some Tcp_handle" using rq(2) a mset_eq_setD [OF m'] by (auto simp: handles_ok_def)
      ultimately show ?thesis by simp
    qed
    then show ?thesis using d by (simp add: handles_ok_def)
  qed
  ultimately have "echo_ok ?s" by (simp add: echo_ok_def)
  moreover have "card (dom (mem s)) = card (dom (mem ?s)) + (if cb then 1 else 0)"
  proof -
    have "mem s |` (- {h}) = (mem s)(h := None)" "mem s |` (- {}) = mem s" by (auto simp: restrict_map_def)
    then show ?thesis using blocks_gone [OF D(7) mh] by (simp add: Diff_eq)
  qed
  moreover have "echo_handle A (Closed h cb) s = Some ?s"
  proof -
    have "(mem s)(h := None) = mem s |` (- {h})" "mem s |` (- {}) = mem s" by (auto simp: restrict_map_def)
    then show ?thesis using mh ws(2) by (simp add: on_close_def uv_free_def Let_def)
  qed
  moreover have "owed s = Suc (owed ?s)"
  proof -
    have "Suc (length (handles ?s)) = length (handles s)" using mset_eq_length [of "h # handles ?s" "handles s"] m by simp
    then show ?thesis by (simp add: owed_def)
  qed
  ultimately show ?thesis by (intro echo_keepsI [of _ _ _ ?s]) simp_all
qed

text \<open>Every callback that libuv makes is defined and keeps the balance of the memory.\<close>

lemma echo_event_keeps:
  assumes "echo_ok s" "echo_enabled A e s" "\<forall>x. A x"
  shows "echo_keeps A e s"
proof (cases e)
  case (Connected r status)
  then show ?thesis using keeps_connected [OF assms(1,3)] by simp
next
  case (Received h junk data r)
  then show ?thesis using keeps_received [of s A h junk data r] assms by blast
next
  case (Ended h junk n r)
  then show ?thesis using keeps_ended [of s A h junk n r] assms by blast
next
  case (No_buffer h n r)
  then show ?thesis using assms(2,3) by simp
next
  case (Written w h status)
  then show ?thesis using keeps_written [of s A w h status] assms by blast
next
  case (Shut q h status)
  then show ?thesis using keeps_shut [of s A q h status] assms by blast
next
  case (Closed h cb)
  then show ?thesis using keeps_closed [of s A h cb] assms by blast
qed

lemma echo_start_ok: "echo_ok echo_start"
  by (simp add: echo_ok_def handles_ok_def requests_ok_def handles_def echo_start_def)

lemma echo_run_ok:
  assumes "echo_run A es s" "\<forall>x. A x"
  shows "echo_ok s \<and> card (dom (mem s)) = owed s + sum_list (map leaked es) \<and> sent s = concat (map echoed es)"
  using assms
proof (induction rule: echo_run.induct)
  case start
  have "card (dom (mem echo_start)) = owed echo_start" "sent echo_start = []"
    by (simp_all add: echo_start_def owed_def handles_def)
  then show ?case using echo_start_ok by simp
next
  case (event es s e s')
  have "echo_keeps A e s" using echo_event_keeps event by blast
  then show ?case using event unfolding echo_keeps_def by fastforce
qed

text \<open>
  C30: the memory of the echo server while malloc succeeds.  In every run, whatever the peers send,
  in whichever order libuv calls back and whatever its calls return: every callback that libuv may
  make next is defined (no block is freed twice or used after it is freed, no handle is closed
  twice, no assertion fails), what has been handed to uv-write are exactly the data received, in
  their order, from peers that did not say quit, and the blocks in use are one for each open handle,
  two for each write under way and one for each shutdown, plus those leaked for ever: the buffer
  of every message that begins with quit, buffer and request of every write that fails, handle
  and request of every shutdown that fails, and the handle of every connection not accepted.
\<close>

theorem echo_server_memory:
  assumes "echo_run A es s" "\<forall>x. A x"
  shows "(\<forall>e. echo_enabled A e s \<longrightarrow> echo_handle A e s \<noteq> None) \<and>
    card (dom (mem s)) = length (handles s) + 2 * length (writes s) + length (shuts s) + sum_list (map leaked es) \<and>
    sent s = concat (map echoed es)"
  using echo_run_ok [OF assms] echo_event_keeps [of s A] assms(2) by (auto simp: echo_keeps_def owed_def)

text \<open>A run with a peer that is echoed, one that quits in two pieces, and a connection refused.\<close>

definition echo_events :: "echo_event list" where
  "echo_events = [Connected 0 0, Connected 0 0, Connected (- 22) 0, Received 0 [0, 0, 0, 0, 0] [104, 105] 0,
     Received 1 [0, 117, 105, 116, 10] [113] 0, Written 4 0 0, Closed 2 False, Ended 0 [0] (- 4095) 0, Shut 7 0 0,
     Closed 1 True, Closed 0 True]"

lemma echo_run_all:
  "echo_run A es0 s0 \<Longrightarrow>
    fold (\<lambda>e p. case p of None \<Rightarrow> None | Some s \<Rightarrow> if echo_enabled A e s then echo_handle A e s else None) es (Some s0) = Some s \<Longrightarrow>
    echo_run A (es0 @ es) s"
proof (induction es arbitrary: es0 s0)
  case Nil
  then show ?case by simp
next
  case (Cons e es)
  have none: "fold (\<lambda>e p. case p of None \<Rightarrow> None | Some s \<Rightarrow> if echo_enabled A e s then echo_handle A e s else None) es None = None"
    by (induction es) simp_all
  have en: "echo_enabled A e s0" using Cons.prems(2) none by (cases "echo_enabled A e s0") simp_all
  then have "echo_handle A e s0 \<noteq> None" using Cons.prems(2) none by (cases "echo_handle A e s0") simp_all
  then obtain s1 where s1: "echo_handle A e s0 = Some s1" by blast
  have "fold (\<lambda>e p. case p of None \<Rightarrow> None | Some s \<Rightarrow> if echo_enabled A e s then echo_handle A e s else None) es (Some s1) = Some s"
    using Cons.prems(2) en s1 by simp
  then show ?case using Cons.IH [of "es0 @ [e]" s1] echo_run.event [OF Cons.prems(1) en s1] by simp
qed

lemma echo_server_memory_witness:
  "\<exists>s. echo_run (\<lambda>x. True) echo_events s \<and> card (dom (mem s)) = 2 \<and> reading s = [] \<and> sent s = [(0, [104, 105])]"
proof -
  let ?step = "\<lambda>e p. case p of None \<Rightarrow> None | Some s \<Rightarrow> if echo_enabled (\<lambda>x. True) e s then echo_handle (\<lambda>x. True) e s else None"
  have q: "c_strneq 4 [104, 105, 0, 0, 0] ''quit'' = Some False" "c_strneq 4 [113, 117, 105, 116, 10] ''quit'' = Some True"
    by code_simp+
  obtain s where s: "fold ?step echo_events (Some echo_start) = Some s"
    "reading s = [] \<and> writes s = [] \<and> shuts s = [] \<and> closing s = []"
    by (simp add: echo_events_def echo_start_def on_new_connection_def uv_malloc_def uv_close_def alloc_buffer_def echo_read_def
        uv_write_def uv_shutdown_def after_write_def after_shutdown_def on_close_def uv_free_def q)
  have run: "echo_run (\<lambda>x. True) echo_events s" using echo_run_all [OF echo_run.start s(1)] by simp
  have "sum_list (map leaked echo_events) = 2" "concat (map echoed echo_events) = [(0, [104, 105])]"
    by (simp_all add: echo_events_def says_quit_def q)
  then show ?thesis using echo_server_memory [OF run] run s(2) by (auto simp: handles_def)
qed

end
