(* ===== verification/HashTest.thy ===== *)
theory HashTest
  imports UtHashSel CString
begin

text \<open>
  The program uthash-test.c: it fills a hash table with a million records under random keys,
  adds a thousand more under keys of its own, looks those up, replaces one, deletes a thousand
  and then the rest, and prints what it counts and how long it took.
\<close>

subsection \<open>Records\<close>

text \<open>The key has 16 bytes: two ints, six bytes acmac and two of padding; r-mac are the last eight.\<close>

record ht_record =
  r_ip :: u32
  r_port :: u32
  r_mac :: "byte list"
  r_text :: string

definition key_bytes :: "ht_record \<Rightarrow> byte list" where
  "key_bytes r = le_bytes (r_ip r) @ le_bytes (r_port r) @ r_mac r"

text \<open>
  The state: the head records with the handles (ht-hash), the rest of the records, the next
  address, the calls of rand and gettimeofday so far, the variable tv-rec and what was printed.
\<close>

record ht_state =
  ht_hash :: uthash
  ht_recs :: "addr \<Rightarrow> ht_record option"
  ht_brk :: addr
  ht_rands :: nat
  ht_times :: nat
  tv_rec :: "int \<times> int"
  ht_out :: "string list"

definition UT_BENCH_TOTAL_RECORDS :: nat where "UT_BENCH_TOTAL_RECORDS = 1000000"
definition MORE_REC_NUM :: nat where "MORE_REC_NUM = 1000"

definition mac_of :: "byte \<Rightarrow> byte list" where
  "mac_of b = b # replicate 7 0"

definition ht_say :: "string \<Rightarrow> ht_state \<Rightarrow> ht_state" where
  "ht_say s st = st\<lparr>ht_out := ht_out st @ [s]\<rparr>"

text \<open>%x\<close>

definition hex_digit :: "nat \<Rightarrow> char" where
  "hex_digit n = char_of (if n < 10 then 48 + n else 87 + n)"

fun hex_nat :: "nat \<Rightarrow> string" where
  "hex_nat n = (if n < 16 then [hex_digit n] else hex_nat (n div 16) @ [hex_digit (n mod 16)])"

declare hex_nat.simps [simp del]

subsection \<open>The clock\<close>

text \<open>clk gives what each call of gettimeofday stores: seconds and microseconds.\<close>

definition gettimeofday :: "(nat \<Rightarrow> int \<times> int) \<Rightarrow> ht_state \<Rightarrow> (int \<times> int) \<times> ht_state" where
  "gettimeofday clk st = (clk (ht_times st), st\<lparr>ht_times := Suc (ht_times st)\<rparr>)"

definition start_measure :: "(nat \<Rightarrow> int \<times> int) \<Rightarrow> ht_state \<Rightarrow> ht_state" where
  "start_measure clk st = (case gettimeofday clk st of (tv, st) \<Rightarrow> st\<lparr>tv_rec := tv\<rparr>)"

definition elapsed :: "int \<times> int \<Rightarrow> int \<times> int \<Rightarrow> int" where
  "elapsed t0 t1 = wrap_int ((fst t1 - fst t0) * 1000000 + (snd t1 - snd t0))"

definition stop_measure :: "(nat \<Rightarrow> int \<times> int) \<Rightarrow> ht_state \<Rightarrow> int \<times> ht_state" where
  "stop_measure clk st = (case gettimeofday clk st of (tv, st) \<Rightarrow> (elapsed (tv_rec st) tv, st))"

subsection \<open>The steps of main\<close>

text \<open>malloc of a record, which then is given the contents r; A says which sizes are granted.\<close>

definition new_record :: "grants \<Rightarrow> ht_record \<Rightarrow> ht_state \<Rightarrow> (addr \<times> ht_state) option" where
  "new_record A r st = (if \<not> A 392 then None else let a = ht_brk st in
     Some (a, st\<lparr>ht_brk := Suc a, ht_hash := (ht_hash st)\<lparr>u_mem := (u_mem (ht_hash st))(a \<mapsto> new_handle)\<rparr>,
                 ht_recs := (ht_recs st)(a \<mapsto> r)\<rparr>))"

definition free_record :: "addr \<Rightarrow> ht_state \<Rightarrow> ht_state option" where
  "free_record a st = (if ht_recs st a = None then None else
     Some (st\<lparr>ht_hash := (ht_hash st)\<lparr>u_mem := (u_mem (ht_hash st))(a := None)\<rparr>, ht_recs := (ht_recs st)(a := None)\<rparr>))"

definition rand_record :: "(nat \<Rightarrow> int) \<Rightarrow> nat \<Rightarrow> nat \<Rightarrow> ht_record" where
  "rand_record rnd k x = \<lparr>r_ip = word_of_int (rnd k), r_port = word_of_int (rnd (Suc k)) AND 0xffff, r_mac = mac_of 0xa1,
     r_text = ''t'' @ dec_nat x @ '' '' @ dec_nat x @ '' ''\<rparr>"

definition more_record :: "nat \<Rightarrow> ht_record" where
  "more_record x = \<lparr>r_ip = 0xcaa0a001 + of_nat x, r_port = 2345 + of_nat x, r_mac = mac_of 0xa2,
     r_text = ''Find me:'' @ dec_nat x @ '' !! ''\<rparr>"

definition add_record :: "grants \<Rightarrow> addr \<Rightarrow> ht_state \<Rightarrow> (int + ht_state) option" where
  "add_record A a st = do {
     r \<leftarrow> ht_recs st a;
     and_then (HASH_ADD A (key_bytes r) a (ht_hash st)) (\<lambda>u. Some (Inr (st\<lparr>ht_hash := u\<rparr>))) }"

text \<open>The loop bodies, each run for the numbers from x on, n times.\<close>

definition bench_add :: "grants \<Rightarrow> (nat \<Rightarrow> int) \<Rightarrow> nat \<Rightarrow> ht_state \<Rightarrow> (int + ht_state) option" where
  "bench_add A rnd x st = do {
     (a, st1) \<leftarrow> new_record A (rand_record rnd (ht_rands st) x) (st\<lparr>ht_rands := ht_rands st + 2\<rparr>);
     r \<leftarrow> ht_recs st1 a;
     p \<leftarrow> HASH_FIND (key_bytes r) (ht_hash st1);
     if p = None then add_record A a st1 else Some (Inr st1) }"

fun bench_loop :: "grants \<Rightarrow> (nat \<Rightarrow> int) \<Rightarrow> nat \<Rightarrow> nat \<Rightarrow> ht_state \<Rightarrow> (int + ht_state) option" where
  "bench_loop A rnd 0 x st = Some (Inr st)"
| "bench_loop A rnd (Suc n) x st = and_then (bench_add A rnd x st) (bench_loop A rnd n (Suc x))"

fun more_loop :: "grants \<Rightarrow> nat \<Rightarrow> nat \<Rightarrow> ht_state \<Rightarrow> (int + ht_state) option" where
  "more_loop A 0 x st = Some (Inr st)"
| "more_loop A (Suc n) x st = do {
     (a, st1) \<leftarrow> new_record A (more_record x) st;
     and_then (add_record A a st1) (more_loop A n (Suc x)) }"

text \<open>found and p are the variables of main.\<close>

fun find_loop :: "nat \<Rightarrow> nat \<Rightarrow> nat \<times> addr option \<Rightarrow> uthash \<Rightarrow> (nat \<times> addr option) option" where
  "find_loop 0 x (found, p) u = Some (found, p)"
| "find_loop (Suc n) x (found, p) u = do {
     p \<leftarrow> HASH_FIND (key_bytes (more_record x)) u;
     find_loop n (Suc x) (if p = None then found else Suc found, p) u }"

definition print_found :: "addr \<Rightarrow> ht_state \<Rightarrow> ht_state option" where
  "print_found p st = do {
     r \<leftarrow> ht_recs st p;
     Some (ht_say (''found '' @ hex_nat (unat (r_ip r)) @ '' '' @ dec_int (sint (r_port r)) @ '' --> '' @ r_text r @ '' \<newline>'') st) }"

text \<open>
  The replacement: only the first byte of acmac is set, the rest and the padding are what malloc
  left there (junk).
\<close>

definition new_value :: "byte list \<Rightarrow> ht_record" where
  "new_value junk = \<lparr>r_ip = 0xcaa0a001, r_port = 2345, r_mac = 0xa2 # junk, r_text = ''NEW VALUE''\<rparr>"

definition replace_record :: "grants \<Rightarrow> byte list \<Rightarrow> ht_state \<Rightarrow> (int + ht_state) option" where
  "replace_record A junk st = do {
     (a, st1) \<leftarrow> new_record A (new_value junk) st;
     r \<leftarrow> ht_recs st1 a;
     and_then (HASH_REPLACE A (key_bytes r) a (ht_hash st1)) (\<lambda>(p, u). case p of
         None \<Rightarrow> Some (Inr (st1\<lparr>ht_hash := u\<rparr>))
       | Some p \<Rightarrow> do {
           d \<leftarrow> ht_recs st1 p;
           st2 \<leftarrow> free_record p (ht_say (''replaced:'' @ r_text d) (st1\<lparr>ht_hash := u\<rparr>));
           Some (Inr st2) }) }"

definition delete_record :: "addr \<Rightarrow> ht_state \<Rightarrow> ht_state option" where
  "delete_record p st = do { u \<leftarrow> HASH_DELETE p (ht_hash st); free_record p (st\<lparr>ht_hash := u\<rparr>) }"

text \<open>The body that deletes every other record until it has deleted a thousand; i and x are its counters.\<close>

definition thin_body :: "addr \<Rightarrow> (nat \<times> nat) \<times> ht_state \<Rightarrow> (bool \<times> (nat \<times> nat) \<times> ht_state) option" where
  "thin_body p = (\<lambda>((i, x), st). do {
     (x1, st1) \<leftarrow> (if Suc i mod 2 = 1 then do { st1 \<leftarrow> delete_record p st; Some (Suc x, st1) } else Some (x, st));
     Some (MORE_REC_NUM \<le> x1, (Suc i, x1), st1) })"

definition drop_body :: "addr \<Rightarrow> nat \<times> ht_state \<Rightarrow> (bool \<times> nat \<times> ht_state) option" where
  "drop_body p = (\<lambda>(x, st). do { st1 \<leftarrow> delete_record p st; Some (False, Suc x, st1) })"

subsection \<open>main\<close>

definition ht_start :: ht_state where
  "ht_start = \<lparr>ht_hash = \<lparr>u_head = None, u_tbl = None, u_mem = Map.empty\<rparr>, ht_recs = Map.empty, ht_brk = 0,
     ht_rands = 0, ht_times = 0, tv_rec = (0, 0), ht_out = []\<rparr>"

definition took :: "(nat \<Rightarrow> int \<times> int) \<Rightarrow> (int \<Rightarrow> string) \<Rightarrow> ht_state \<Rightarrow> ht_state" where
  "took clk msg st = (case stop_measure clk st of (us, st) \<Rightarrow> ht_say (msg us) st)"

definition ht_adding :: "grants \<Rightarrow> (nat \<Rightarrow> int) \<Rightarrow> (nat \<Rightarrow> int \<times> int) \<Rightarrow> (int + ht_state) option" where
  "ht_adding A rnd clk =
     and_then (bench_loop A rnd UT_BENCH_TOTAL_RECORDS 0 (start_measure clk ht_start)) (\<lambda>st.
       let st = took clk (\<lambda>us. ''done adding '' @ dec_nat UT_BENCH_TOTAL_RECORDS @ '' records in '' @ dec_int us @ '' us \<newline>'') st in
     and_then (more_loop A MORE_REC_NUM 0 (start_measure clk st)) (\<lambda>st.
       let st = took clk (\<lambda>us. ''done adding '' @ dec_nat MORE_REC_NUM @ '' more records in '' @ dec_int us @ '' us\<newline>'') st in do {
       n \<leftarrow> HASH_COUNT (ht_hash st);
       Some (Inr (ht_say (''HASH_COUNT:'' @ dec_int (sint n) @ ''\<newline>'') st)) }))"

definition ht_finding :: "grants \<Rightarrow> byte list \<Rightarrow> (nat \<Rightarrow> int \<times> int) \<Rightarrow> ht_state \<Rightarrow> (int + ht_state) option" where
  "ht_finding A junk clk st = do {
     p \<leftarrow> HASH_FIND (key_bytes \<lparr>r_ip = 0x12321231, r_port = 1231, r_mac = mac_of 0xa1, r_text = []\<rparr>) (ht_hash st);
     st \<leftarrow> (case p of None \<Rightarrow> Some st | Some p \<Rightarrow> print_found p st);
     let st = start_measure clk st;
     (found, p) \<leftarrow> find_loop MORE_REC_NUM 0 (0, p) (ht_hash st);
     let st = took clk (\<lambda>us. ''found items:'' @ dec_nat found @ '' in '' @ dec_int us @ '' us\<newline>'') st;
     (case p of
        None \<Rightarrow> Some (Inr (ht_say ''not found\<newline>'' st))
      | Some p \<Rightarrow> do { st \<leftarrow> print_found p st; replace_record A junk st }) }"

definition ht_deleting :: "(nat \<Rightarrow> int \<times> int) \<Rightarrow> ht_state \<Rightarrow> ht_state option" where
  "ht_deleting clk st = (case gettimeofday clk st of (tv, st) \<Rightarrow>
     let st = start_measure clk (ht_say (''end time:'' @ dec_int (wrap_int (fst tv)) @ '', us:'' @ dec_int (wrap_int (snd tv)) @ ''\<newline>'') st) in do {
     ((i, x), st) \<leftarrow> HASH_ITER (\<lambda>s. ht_hash (snd s)) thin_body ((0, 0), st);
     let st = took clk (\<lambda>us. ''delete '' @ dec_nat x @ '' items in '' @ dec_int us @ '' us\<newline>'') st;
     (x, st) \<leftarrow> HASH_ITER (\<lambda>s. ht_hash (snd s)) drop_body (0, start_measure clk st);
     Some (took clk (\<lambda>us. ''deleted x='' @ dec_nat x @ '' in '' @ dec_int us @ '' us\<newline>'') st) })"

definition hash_test_main :: "grants \<Rightarrow> (nat \<Rightarrow> int) \<Rightarrow> byte list \<Rightarrow> (nat \<Rightarrow> int \<times> int) \<Rightarrow> (int + ht_state) option" where
  "hash_test_main A rnd junk clk =
     and_then (ht_adding A rnd clk) (\<lambda>st.
     and_then (ht_finding A junk clk st) (\<lambda>st. map_option Inr (ht_deleting clk st)))"

end
