(* ===== verification/HashTestOk.thy ===== *)
theory HashTestOk
  imports HashTest
begin

text \<open>
  What the program of HashTest prints: the invariant that ties its table to its records (ht-rep),
  what each loop does to it, and the report of the whole run.
\<close>

subsection \<open>The table and the records together\<close>

abbreviation rec_at :: "ht_state \<Rightarrow> addr \<Rightarrow> ht_record" where
  "rec_at st a \<equiv> the (ht_recs st a)"

text \<open>The elements xs of the table, in its order, are records under their own keys; f is the map they make.\<close>

definition ht_rep :: "ht_state \<Rightarrow> addr list \<Rightarrow> (byte list \<rightharpoonup> addr) \<Rightarrow> bool" where
  "ht_rep st xs f \<longleftrightarrow> uth_map HASH_VALUE (ht_hash st) xs f \<and>
     (\<forall>k a. f k = Some a \<longleftrightarrow> a \<in> set xs \<and> key_bytes (rec_at st a) = k) \<and>
     set xs \<subseteq> dom (ht_recs st) \<and> (\<forall>a\<in>dom (ht_recs st). a < ht_brk st)"

lemma ht_repD:
  assumes "ht_rep st xs f"
  shows "uth_map HASH_VALUE (ht_hash st) xs f" "f k = Some a \<longleftrightarrow> a \<in> set xs \<and> key_bytes (rec_at st a) = k"
    "set xs \<subseteq> dom (ht_recs st)" "a \<in> dom (ht_recs st) \<Longrightarrow> a < ht_brk st" "finite (dom (ht_recs st))"
    "distinct xs" "card (dom f) = length xs" "HASH_FIND k (ht_hash st) = Some (f k)"
proof -
  show "uth_map HASH_VALUE (ht_hash st) xs f" "f k = Some a \<longleftrightarrow> a \<in> set xs \<and> key_bytes (rec_at st a) = k"
    "set xs \<subseteq> dom (ht_recs st)" "a \<in> dom (ht_recs st) \<Longrightarrow> a < ht_brk st"
    using assms by (simp_all add: ht_rep_def)
  have "dom (ht_recs st) \<subseteq> {..<ht_brk st}" using assms by (auto simp: ht_rep_def)
  then show "finite (dom (ht_recs st))" by (rule finite_subset) simp
  have m: "uth_map HASH_VALUE (ht_hash st) xs f" using assms by (simp add: ht_rep_def)
  show "distinct xs" "card (dom f) = length xs" using uth_map_card [OF m] by simp_all
  show "HASH_FIND k (ht_hash st) = Some (f k)" using HASH_FIND_map [OF m] by (simp add: HASH_FIND_def)
qed

lemma ht_rep_cong:
  "ht_hash st' = ht_hash st \<Longrightarrow> ht_recs st' = ht_recs st \<Longrightarrow> ht_brk st' = ht_brk st \<Longrightarrow> ht_rep st' xs f = ht_rep st xs f"
  by (simp add: ht_rep_def)

lemma ht_rep_upd [simp]:
  "ht_rep (st\<lparr>ht_out := x\<rparr>) xs f = ht_rep st xs f" "ht_rep (st\<lparr>ht_rands := n\<rparr>) xs f = ht_rep st xs f"
  "ht_rep (st\<lparr>ht_times := n\<rparr>) xs f = ht_rep st xs f" "ht_rep (st\<lparr>tv_rec := t\<rparr>) xs f = ht_rep st xs f"
  by (rule ht_rep_cong; simp)+

lemma ht_rep_next:
  assumes "ht_rep st (ps @ a # qs) f"
  obtains h where "u_mem (ht_hash st) a = Some h" "h_next h = first_of qs"
proof -
  have "chain (fld h_next (u_mem (ht_hash st))) (first_of (ps @ a # qs)) (ps @ a # qs)"
    using uth_map_chain(2) [OF ht_repD(1) [OF assms]] .
  then obtain q where "chain (fld h_next (u_mem (ht_hash st))) q (a # qs)" by (auto simp: chain_append)
  from chain_ConsD [OF this] show ?thesis using that chain_first by (auto simp: fld_def)
qed

text \<open>A new record, then a new element of the table.\<close>

lemma new_record_rep:
  assumes rep: "ht_rep st xs f" and A: "A 392"
  obtains st' where "new_record A r st = Some (ht_brk st, st')" "ht_rep st' xs f" "ht_recs st' = (ht_recs st)(ht_brk st \<mapsto> r)"
    "ht_recs st (ht_brk st) = None" "ht_brk st \<notin> set xs" "u_mem (ht_hash st') (ht_brk st) = Some new_handle" "ht_rands st' = ht_rands st"
    "ht_times st' = ht_times st" "tv_rec st' = tv_rec st" "ht_out st' = ht_out st"
proof -
  let ?a = "ht_brk st"
  let ?st = "st\<lparr>ht_brk := Suc ?a, ht_hash := (ht_hash st)\<lparr>u_mem := (u_mem (ht_hash st))(?a \<mapsto> new_handle)\<rparr>,
                 ht_recs := (ht_recs st)(?a \<mapsto> r)\<rparr>"
  note D = ht_repD [OF rep]
  have none: "ht_recs st ?a = None"
  proof (rule ccontr)
    assume "ht_recs st ?a \<noteq> None"
    then show False using D(4) [of ?a] by auto
  qed
  then have new: "?a \<notin> set xs" using D(3) by auto
  have m: "uth_map HASH_VALUE (ht_hash ?st) xs f"
    using uth_map_frame [OF D(1), of "(u_mem (ht_hash st))(?a \<mapsto> new_handle)"] new by fastforce
  have same: "key_bytes (rec_at ?st a) = key_bytes (rec_at st a)" if "a \<in> set xs" for a using that new by auto
  have "f k = Some a \<longleftrightarrow> a \<in> set xs \<and> key_bytes (rec_at ?st a) = k" for k a
    using D(2) [of k a] same [of a] by metis
  moreover have "set xs \<subseteq> dom (ht_recs ?st)" "\<forall>a\<in>dom (ht_recs ?st). a < ht_brk ?st" using D(3,4) by (auto simp: less_SucI)
  ultimately have "ht_rep ?st xs f" using m unfolding ht_rep_def by blast
  then show ?thesis using that [of ?st] none new A by (simp add: new_record_def Let_def)
qed

lemma add_record_rep:
  assumes rep: "ht_rep st xs f" and a: "ht_recs st a = Some r" "a \<notin> set xs" "u_mem (ht_hash st) a = Some h"
    and k: "f (key_bytes r) = None" and len: "Suc (length xs) < 2 ^ 32" and A: "\<not> A (2 ^ 36)"
  shows "add_record A a st = Some (Inl (- 1)) \<or> (\<exists>u. add_record A a st = Some (Inr (st\<lparr>ht_hash := u\<rparr>)) \<and>
    ht_rep (st\<lparr>ht_hash := u\<rparr>) (xs @ [a]) (f(key_bytes r \<mapsto> a)))"
proof -
  note D = ht_repD [OF rep]
  from HASH_ADD_map [of HASH_VALUE "ht_hash st" xs f "key_bytes r" a h A, OF D(1) k a(2,3) len A]
  show ?thesis
  proof (elim disjE exE conjE)
    fix u
    assume u: "HASH_ADD_KEYPTR_BYHASHVALUE A (key_bytes r) (HASH_VALUE (key_bytes r)) a (ht_hash st) = Some (Inr u)"
      "uth_map HASH_VALUE u (xs @ [a]) (f(key_bytes r \<mapsto> a))"
    have "(f(key_bytes r \<mapsto> a)) k' = Some b \<longleftrightarrow> b \<in> set (xs @ [a]) \<and> key_bytes (rec_at st b) = k'" for k' b
      using D(2) [of k' b] D(2) [of "key_bytes r" b] k a(1,2) by (cases "b = a") auto
    moreover have "set (xs @ [a]) \<subseteq> dom (ht_recs st)" using D(3) a(1) by auto
    ultimately have "ht_rep (st\<lparr>ht_hash := u\<rparr>) (xs @ [a]) (f(key_bytes r \<mapsto> a))"
      using u(2) D(4) by (simp add: ht_rep_def)
    moreover have "add_record A a st = Some (Inr (st\<lparr>ht_hash := u\<rparr>))" using u(1) a(1) by (simp add: add_record_def HASH_ADD_def)
    ultimately show ?thesis by blast
  qed (use a(1) in \<open>simp add: add_record_def HASH_ADD_def\<close>)
qed

lemma delete_record_rep:
  assumes rep: "ht_rep st (ps @ a # qs) f"
  obtains st' f' where "delete_record a st = Some st'" "ht_rep st' (ps @ qs) f'"
    "Suc (card (dom (ht_recs st'))) = card (dom (ht_recs st))" "ht_times st' = ht_times st" "tv_rec st' = tv_rec st" "ht_out st' = ht_out st"
proof -
  note D = ht_repD [OF rep]
  let ?k = "key_bytes (rec_at st a)"
  have fa: "f ?k = Some a" using D(2) by simp
  have a: "a \<notin> set ps" "a \<notin> set qs" using D(6) by simp_all
  obtain u where u: "HASH_DELETE a (ht_hash st) = Some u" "uth_map HASH_VALUE u (ps @ qs) (f(?k := None))"
    using HASH_DELETE_map [OF D(1) fa] a(1) by (auto simp: remove1_append)
  let ?st = "st\<lparr>ht_hash := u\<lparr>u_mem := (u_mem u)(a := None)\<rparr>, ht_recs := (ht_recs st)(a := None)\<rparr>"
  have m: "uth_map HASH_VALUE (ht_hash ?st) (ps @ qs) (f(?k := None))"
    using uth_map_frame [OF u(2), of "(u_mem u)(a := None)"] a by fastforce
  have "(f(?k := None)) k = Some b \<longleftrightarrow> b \<in> set (ps @ qs) \<and> key_bytes (rec_at ?st b) = k" for k b
    using D(2) [of k b] fa a by (cases "b = a") auto
  moreover have "set (ps @ qs) \<subseteq> dom (ht_recs ?st)" using D(3) a by auto
  ultimately have "ht_rep ?st (ps @ qs) (f(?k := None))" using m D(4) by (simp add: ht_rep_def)
  moreover have "Suc (card (dom (ht_recs ?st))) = card (dom (ht_recs st))"
  proof -
    have "dom (ht_recs ?st) = dom (ht_recs st) - {a}" "a \<in> dom (ht_recs st)" using D(3) by auto
    then show ?thesis using card_Suc_Diff1 [OF D(5)] by simp
  qed
  moreover have "delete_record a st = Some ?st" using u(1) D(3) by (auto simp: delete_record_def free_record_def)
  ultimately show ?thesis using that [of ?st "f(?k := None)"] by (simp del: fun_upd_apply)
qed

subsection \<open>The loops\<close>

definition ht_io :: "ht_state \<Rightarrow> nat \<times> (int \<times> int) \<times> string list" where
  "ht_io st = (ht_times st, tv_rec st, ht_out st)"

definition rand_key :: "(nat \<Rightarrow> int) \<Rightarrow> nat \<Rightarrow> byte list" where
  "rand_key rnd k = key_bytes (rand_record rnd k 0)"

lemma rand_key: "key_bytes (rand_record rnd k x) = rand_key rnd k"
  by (simp add: rand_key_def rand_record_def key_bytes_def)

lemma bench_add_rep:
  assumes rep: "ht_rep st xs f" and A: "A 392" "\<not> A (2 ^ 36)" and len: "Suc (length xs) < 2 ^ 32"
  shows "bench_add A rnd x st = Some (Inl (- 1)) \<or> (\<exists>st' xs' f'. bench_add A rnd x st = Some (Inr st') \<and> ht_rep st' xs' f' \<and>
    dom f' = insert (rand_key rnd (ht_rands st)) (dom f) \<and> length xs' \<le> Suc (length xs) \<and>
    card (dom (ht_recs st')) = Suc (card (dom (ht_recs st))) \<and> ht_rands st' = ht_rands st + 2 \<and> ht_io st' = ht_io st)"
proof -
  let ?r = "rand_record rnd (ht_rands st) x" and ?a = "ht_brk st"
  let ?k = "rand_key rnd (ht_rands st)"
  have rep0: "ht_rep (st\<lparr>ht_rands := ht_rands st + 2\<rparr>) xs f" using rep by simp
  obtain st1 where s: "new_record A ?r (st\<lparr>ht_rands := ht_rands st + 2\<rparr>) = Some (?a, st1)" "ht_rep st1 xs f"
    "ht_recs st1 = (ht_recs st)(?a \<mapsto> ?r)" "ht_recs st ?a = None" "?a \<notin> set xs" "u_mem (ht_hash st1) ?a = Some new_handle"
    "ht_rands st1 = ht_rands st + 2" "ht_io st1 = ht_io st"
    by (rule new_record_rep [where st = "st\<lparr>ht_rands := ht_rands st + 2\<rparr>" and f = f and r = ?r and A = A, OF rep0 A(1)]) (simp add: ht_io_def)
  have card: "card (dom (ht_recs st1)) = Suc (card (dom (ht_recs st)))"
    using s(3,4) ht_repD(5) [OF rep] by (simp add: domIff card_insert_if)
  have find: "HASH_FIND ?k (ht_hash st1) = Some (f ?k)" by (rule ht_repD(8) [OF s(2)])
  have r: "ht_recs st1 ?a = Some ?r" by (simp add: s(3))
  show ?thesis
  proof (cases "f ?k")
    case (Some b)
    then have "bench_add A rnd x st = Some (Inr st1)" using s(1) r find by (simp add: bench_add_def rand_key)
    moreover have "dom f = insert ?k (dom f)" using Some by auto
    ultimately show ?thesis using s(2,7,8) card by (intro disjI2 exI [of _ st1] exI [of _ xs] exI [of _ f]) simp
  next
    case None
    then have run: "bench_add A rnd x st = add_record A ?a st1" using s(1) r find by (simp add: bench_add_def rand_key)
    have k: "f (key_bytes ?r) = None" using None by (simp add: rand_key)
    show ?thesis
      using add_record_rep [of st1 xs f ?a ?r new_handle A, OF s(2) r s(5,6) k len A(2)]
    proof (elim disjE exE conjE)
      fix u
      assume u: "add_record A ?a st1 = Some (Inr (st1\<lparr>ht_hash := u\<rparr>))"
        "ht_rep (st1\<lparr>ht_hash := u\<rparr>) (xs @ [?a]) (f(key_bytes ?r \<mapsto> ?a))"
      then show ?thesis using run s(7,8) card
        by (intro disjI2 exI [of _ "st1\<lparr>ht_hash := u\<rparr>"] exI [of _ "xs @ [?a]"] exI [of _ "f(?k \<mapsto> ?a)"])
          (simp add: rand_key ht_io_def)
    qed (use run in simp)
  qed
qed

lemma bench_loop_rep:
  assumes "ht_rep st xs f" and A: "A 392" "\<not> A (2 ^ 36)" and "length xs + n < 2 ^ 32"
  shows "bench_loop A rnd n x st = Some (Inl (- 1)) \<or> (\<exists>st' xs' f'. bench_loop A rnd n x st = Some (Inr st') \<and> ht_rep st' xs' f' \<and>
    dom f' = dom f \<union> (\<lambda>i. rand_key rnd (ht_rands st + 2 * i)) ` {..<n} \<and> length xs' \<le> length xs + n \<and>
    card (dom (ht_recs st')) = card (dom (ht_recs st)) + n \<and> ht_io st' = ht_io st)"
  using assms(1,4)
proof (induction n arbitrary: x st xs f)
  case 0
  then show ?case by auto
next
  case (Suc n)
  have len: "Suc (length xs) < 2 ^ 32" using Suc.prems(2) by simp
  from bench_add_rep [of st xs f A rnd x, OF Suc.prems(1) A len] show ?case
  proof (elim disjE exE conjE)
    fix st1 xs1 f1
    assume s: "bench_add A rnd x st = Some (Inr st1)" "ht_rep st1 xs1 f1" "dom f1 = insert (rand_key rnd (ht_rands st)) (dom f)"
      "length xs1 \<le> Suc (length xs)" "card (dom (ht_recs st1)) = Suc (card (dom (ht_recs st)))" "ht_rands st1 = ht_rands st + 2"
      "ht_io st1 = ht_io st"
    have keys: "insert (rand_key rnd (ht_rands st)) ((\<lambda>i. rand_key rnd (ht_rands st + 2 + 2 * i)) ` {..<n}) =
        (\<lambda>i. rand_key rnd (ht_rands st + 2 * i)) ` {..<Suc n}"
      by (simp add: lessThan_Suc_eq_insert_0 image_image)
    have "length xs1 + n < 2 ^ 32" using Suc.prems(2) s(4) by simp
    from Suc.IH [OF s(2) this, of "Suc x"] show ?thesis
    proof (elim disjE exE conjE)
      fix st2 xs2 f2
      assume t: "bench_loop A rnd n (Suc x) st1 = Some (Inr st2)" "ht_rep st2 xs2 f2"
        "dom f2 = dom f1 \<union> (\<lambda>i. rand_key rnd (ht_rands st1 + 2 * i)) ` {..<n}" "length xs2 \<le> length xs1 + n"
        "card (dom (ht_recs st2)) = card (dom (ht_recs st1)) + n" "ht_io st2 = ht_io st1"
      have "dom f2 = dom f \<union> (\<lambda>i. rand_key rnd (ht_rands st + 2 * i)) ` {..<Suc n}"
        unfolding keys [symmetric] t(3) s(3) s(6) by blast
      then show ?thesis using s t by (intro disjI2 exI [of _ st2] exI [of _ xs2] exI [of _ f2]) simp
    qed (use s(1) in simp_all)
  qed simp
qed

definition more_key :: "nat \<Rightarrow> byte list" where
  "more_key x = key_bytes (more_record x)"

lemma more_add_rep:
  assumes rep: "ht_rep st xs f" and A: "A 392" "\<not> A (2 ^ 36)" and len: "Suc (length xs) < 2 ^ 32" and k: "f (more_key x) = None"
  obtains st1 where "new_record A (more_record x) st = Some (ht_brk st, st1)" "add_record A (ht_brk st) st1 = Some (Inl (- 1))"
  | st1 st2 a where "new_record A (more_record x) st = Some (a, st1)" "add_record A a st1 = Some (Inr st2)"
    "ht_rep st2 (xs @ [a]) (f(more_key x \<mapsto> a))" "ht_recs st2 a = Some (more_record x)" "ht_recs st \<subseteq>\<^sub>m ht_recs st2"
    "card (dom (ht_recs st2)) = Suc (card (dom (ht_recs st)))" "ht_io st2 = ht_io st"
proof -
  let ?r = "more_record x" and ?a = "ht_brk st"
  obtain st1 where s: "new_record A ?r st = Some (?a, st1)" "ht_rep st1 xs f"
    "ht_recs st1 = (ht_recs st)(?a \<mapsto> ?r)" "ht_recs st ?a = None" "?a \<notin> set xs" "u_mem (ht_hash st1) ?a = Some new_handle"
    "ht_io st1 = ht_io st"
    by (rule new_record_rep [where f = f and r = ?r and A = A, OF rep A(1)]) (simp add: ht_io_def)
  have card: "card (dom (ht_recs st1)) = Suc (card (dom (ht_recs st)))"
    using s(3,4) ht_repD(5) [OF rep] by (simp add: domIff card_insert_if)
  have r: "ht_recs st1 ?a = Some ?r" by (simp add: s(3))
  have recs: "ht_recs st \<subseteq>\<^sub>m ht_recs st1" using s(3,4) by (fastforce simp: map_le_def)
  from add_record_rep [of st1 xs f ?a ?r new_handle A, OF s(2) r s(5,6) k [unfolded more_key_def] len A(2)] show ?thesis
  proof (elim disjE exE conjE)
    fix u
    assume u: "add_record A ?a st1 = Some (Inr (st1\<lparr>ht_hash := u\<rparr>))"
      "ht_rep (st1\<lparr>ht_hash := u\<rparr>) (xs @ [?a]) (f(key_bytes ?r \<mapsto> ?a))"
    show ?thesis
      by (rule that(2) [OF s(1) u(1)]) (use u(2) r recs card s(7) in \<open>simp_all add: more_key_def ht_io_def\<close>)
  qed (use that(1) s(1) in blast)
qed

lemma more_loop_rep:
  assumes "ht_rep st xs f" and A: "A 392" "\<not> A (2 ^ 36)" and "length xs + n < 2 ^ 32"
    and "inj_on more_key {x..<x + n}" "\<forall>i\<in>{x..<x + n}. f (more_key i) = None"
  shows "more_loop A n x st = Some (Inl (- 1)) \<or> (\<exists>st' xs' f'. more_loop A n x st = Some (Inr st') \<and> ht_rep st' xs' f' \<and>
    f \<subseteq>\<^sub>m f' \<and> dom f' = dom f \<union> more_key ` {x..<x + n} \<and> ht_recs st \<subseteq>\<^sub>m ht_recs st' \<and>
    (\<forall>i\<in>{x..<x + n}. \<exists>a. f' (more_key i) = Some a \<and> ht_recs st' a = Some (more_record i)) \<and>
    card (dom (ht_recs st')) = card (dom (ht_recs st)) + n \<and> ht_io st' = ht_io st)"
  using assms(1,4-)
proof (induction n arbitrary: x st xs f)
  case 0
  then show ?case by (auto intro!: exI [of _ xs] exI [of _ f])
next
  case (Suc n)
  have len: "Suc (length xs) < 2 ^ 32" "f (more_key x) = None" using Suc.prems(2,4) by simp_all
  have set: "{x..<x + Suc n} = insert x {Suc x..<Suc x + n}" by auto
  have inj: "inj_on more_key {Suc x..<Suc x + n}" "more_key x \<notin> more_key ` {Suc x..<Suc x + n}"
    using Suc.prems(3) unfolding set by simp_all
  show ?case
  proof (cases rule: more_add_rep [where x = x, OF Suc.prems(1) A len, case_names exits added])
    case (added st1 st2 a)
    have new: "\<forall>i\<in>{Suc x..<Suc x + n}. (f(more_key x \<mapsto> a)) (more_key i) = None"
      using Suc.prems(4) inj(2) unfolding set by (auto simp: image_iff)
    have len2: "length (xs @ [a]) + n < 2 ^ 32" using Suc.prems(2) by simp
    from Suc.IH [OF added(3) len2 inj(1) new] show ?thesis
    proof (elim disjE exE conjE)
      fix st3 xs3 f3
      assume t: "more_loop A n (Suc x) st2 = Some (Inr st3)" "ht_rep st3 xs3 f3" "f(more_key x \<mapsto> a) \<subseteq>\<^sub>m f3"
        "dom f3 = dom (f(more_key x \<mapsto> a)) \<union> more_key ` {Suc x..<Suc x + n}" "ht_recs st2 \<subseteq>\<^sub>m ht_recs st3"
        "\<forall>i\<in>{Suc x..<Suc x + n}. \<exists>a. f3 (more_key i) = Some a \<and> ht_recs st3 a = Some (more_record i)"
        "card (dom (ht_recs st3)) = card (dom (ht_recs st2)) + n" "ht_io st3 = ht_io st2"
      have "f3 (more_key x) = Some a" "ht_recs st3 a = Some (more_record x)"
        using t(3,5) added(4) unfolding map_le_def by (metis domI fun_upd_same)+
      then have "\<forall>i\<in>{x..<x + Suc n}. \<exists>a. f3 (more_key i) = Some a \<and> ht_recs st3 a = Some (more_record i)"
        using t(6) unfolding set by blast
      moreover have "f \<subseteq>\<^sub>m f(more_key x \<mapsto> a)" using len(2) by (auto simp: map_le_def)
      then have "f \<subseteq>\<^sub>m f3" using t(3) map_le_trans by blast
      moreover have "dom f3 = dom f \<union> more_key ` {x..<x + Suc n}" using t(4) unfolding set by auto
      moreover have "more_loop A (Suc n) x st = Some (Inr st3)" using added(1,2) t(1) by simp
      moreover have "ht_recs st \<subseteq>\<^sub>m ht_recs st3" using map_le_trans added(5) t(5) by blast
      ultimately show ?thesis using t(2,7,8) added(6,7)
        by (intro disjI2 exI [of _ st3] exI [of _ xs3] exI [of _ f3]) simp
    qed (use added(1,2) in simp_all)
  qed simp
qed

subsection \<open>Keys\<close>

lemma key_bytes_eq: "key_bytes r = key_bytes s \<longleftrightarrow> r_ip r = r_ip s \<and> r_port r = r_port s \<and> r_mac r = r_mac s"
  by (simp add: key_bytes_def le_bytes_inj)

lemma more_key_inj: "inj_on more_key {0..<0 + MORE_REC_NUM}"
proof (rule inj_onI)
  fix i j
  assume i: "i \<in> {0..<0 + MORE_REC_NUM}" "j \<in> {0..<0 + MORE_REC_NUM}" and eq: "more_key i = more_key j"
  then have "(of_nat i :: u32) = of_nat j" by (simp add: more_key_def key_bytes_eq more_record_def)
  then have "unat (of_nat i :: u32) = unat (of_nat j :: u32)" by simp
  then show "i = j" using i by (simp add: MORE_REC_NUM_def unat_of_nat take_bit_nat_eq_self)
qed

lemma rand_more: "rand_key rnd k \<noteq> more_key i"
  by (simp add: rand_key_def more_key_def key_bytes_eq rand_record_def more_record_def mac_of_def)

definition value_key :: "byte list \<Rightarrow> byte list" where
  "value_key junk = key_bytes (new_value junk)"

lemma value_key_eq: "value_key (replicate 7 0) = more_key 0"
  by (simp add: value_key_def more_key_def key_bytes_eq new_value_def more_record_def mac_of_def)

lemma value_key_new:
  assumes "junk \<noteq> replicate 7 0"
  shows "value_key junk \<noteq> more_key i" "value_key junk \<noteq> rand_key rnd k"
  using assms
  by (simp_all add: value_key_def more_key_def rand_key_def key_bytes_eq new_value_def more_record_def rand_record_def mac_of_def)

subsection \<open>Finding and replacing\<close>

lemma find_loop_all:
  assumes "\<And>k. HASH_FIND k u = Some (f k)" "\<forall>i\<in>{x..<x + n}. f (more_key i) \<noteq> None"
  shows "find_loop n x (found, p) u = Some (found + n, if n = 0 then p else f (more_key (x + n - 1)))"
  using assms(2)
proof (induction n arbitrary: x found p)
  case (Suc n)
  then have "f (more_key x) \<noteq> None" "\<forall>i\<in>{Suc x..<Suc x + n}. f (more_key i) \<noteq> None" by simp_all
  with Suc.IH [of "Suc x"] show ?case by (auto simp: assms(1) more_key_def [symmetric])
qed simp

text \<open>
  The replacement takes the place of the record under its key, which is freed; when there is
  none it is one record more.
\<close>

lemma replaced_rep:
  assumes rep: "ht_rep st xs f" and p: "f k = Some p" and a: "a \<notin> set xs" "ht_recs st a = Some r" "key_bytes r = k"
    and u: "uth_map HASH_VALUE u (remove1 p xs @ [a]) (f(k \<mapsto> a))"
  shows "ht_rep (st\<lparr>ht_hash := u\<lparr>u_mem := (u_mem u)(p := None)\<rparr>, ht_recs := (ht_recs st)(p := None)\<rparr>) (remove1 p xs @ [a]) (f(k \<mapsto> a))"
proof -
  let ?xs = "remove1 p xs @ [a]" and ?f = "f(k \<mapsto> a)"
  let ?st = "st\<lparr>ht_hash := u\<lparr>u_mem := (u_mem u)(p := None)\<rparr>, ht_recs := (ht_recs st)(p := None)\<rparr>"
  note D = ht_repD [OF rep]
  have pa: "p \<in> set xs" "p \<noteq> a" "key_bytes (rec_at st p) = k" using D(2) [of k p] p a(1) by auto
  have m: "uth_map HASH_VALUE (ht_hash ?st) ?xs ?f"
    using uth_map_frame [OF u, of "(u_mem u)(p := None)"] pa(2) D(6) by fastforce
  have "?f k' = Some b \<longleftrightarrow> b \<in> set ?xs \<and> key_bytes (rec_at ?st b) = k'" for k' b
  proof -
    consider "b = p" | "b = a" "b \<noteq> p" | "b \<noteq> p" "b \<noteq> a" by blast
    then show ?thesis
    proof cases
      case 1
      then show ?thesis using D(2) [of k' p] D(6) pa by auto
    next
      case 2
      then show ?thesis using D(2) [of k' b] a by auto
    next
      case 3
      then show ?thesis using D(2) [of k' b] D(2) [of k b] D(6) p by auto
    qed
  qed
  moreover have "set ?xs \<subseteq> dom (ht_recs ?st)" using D(3,6) pa(2) a(2) by auto
  ultimately show ?thesis using m D(4) unfolding ht_rep_def by simp
qed

lemma replace_some:
  assumes rep: "ht_rep st xs f" and A: "A 392" "\<not> A (2 ^ 36)" and len: "Suc (length xs) < 2 ^ 32"
    and p: "f (value_key junk) = Some p" "ht_recs st p = Some d"
  shows "replace_record A junk st = Some (Inl (- 1)) \<or> (\<exists>st' xs' f'. replace_record A junk st = Some (Inr st') \<and>
    ht_rep st' xs' f' \<and> length xs' = length xs \<and> card (dom (ht_recs st')) = card (dom (ht_recs st)) \<and>
    ht_io st' = (ht_times st, tv_rec st, ht_out st @ [''replaced:'' @ r_text d]))"
proof -
  let ?r = "new_value junk" and ?a = "ht_brk st"
  obtain st1 where s: "new_record A ?r st = Some (?a, st1)" "ht_rep st1 xs f"
    "ht_recs st1 = (ht_recs st)(?a \<mapsto> ?r)" "ht_recs st ?a = None" "?a \<notin> set xs" "u_mem (ht_hash st1) ?a = Some new_handle"
    "ht_io st1 = ht_io st"
    by (rule new_record_rep [where f = f and r = ?r and A = A, OF rep A(1)]) (simp add: ht_io_def)
  note D = ht_repD [OF s(2)]
  have pa: "p \<in> set xs" "p \<noteq> ?a" "ht_recs st1 p = Some d" using D(2) [of "value_key junk" p] p s(3-5) by auto
  have k: "key_bytes ?r = value_key junk" "key_bytes d = value_key junk" using D(2) [of "value_key junk" p] p(1) pa(3) by (simp_all add: value_key_def)
  from HASH_REPLACE_map [of HASH_VALUE "ht_hash st1" xs f ?a new_handle A "value_key junk", OF D(1) s(5,6) len A(2)] show ?thesis
  proof (elim disjE exE conjE)
    fix u
    assume u: "HASH_REPLACE_BYHASHVALUE A (value_key junk) (HASH_VALUE (value_key junk)) ?a (ht_hash st1) = Some (Inr (f (value_key junk), u))"
      "uth_map HASH_VALUE u ((case f (value_key junk) of Some d \<Rightarrow> remove1 d xs | None \<Rightarrow> xs) @ [?a]) (f(value_key junk \<mapsto> ?a))"
    let ?xs = "remove1 p xs @ [?a]" and ?f = "f(value_key junk \<mapsto> ?a)"
    let ?st = "st1\<lparr>ht_out := ht_out st1 @ [''replaced:'' @ r_text d], ht_hash := u\<lparr>u_mem := (u_mem u)(p := None)\<rparr>, ht_recs := (ht_recs st1)(p := None)\<rparr>"
    have m: "uth_map HASH_VALUE u ?xs ?f" using u(2) p(1) by simp
    have r: "ht_recs st1 ?a = Some ?r" by (simp add: s(3))
    from replaced_rep [of st1 xs f "value_key junk" p ?a ?r u, OF s(2) p(1) s(5) r k(1) m] have "ht_rep ?st ?xs ?f"
      by (simp add: ht_rep_def)
    moreover have "replace_record A junk st = Some (Inr ?st)"
      using s(1,3) u(1) p(1) pa k(1)
      by (simp add: replace_record_def HASH_REPLACE_def free_record_def ht_say_def)
    moreover have "length ?xs = length xs" using pa(1) by (simp add: length_remove1) (metis length_pos_if_in_set Suc_pred)
    moreover have "card (dom (ht_recs ?st)) = card (dom (ht_recs st))"
      using s(3,4) pa ht_repD(5) [OF rep] by (auto simp: domIff card_Diff_singleton_if card_insert_if)
    ultimately show ?thesis using s(7) by (intro disjI2 exI [of _ ?st] exI [of _ ?xs] exI [of _ ?f]) (simp add: ht_io_def)
  qed (use s(1,3) k(1) in \<open>simp add: replace_record_def HASH_REPLACE_def\<close>)
qed

lemma replace_none:
  assumes rep: "ht_rep st xs f" and A: "A 392" "\<not> A (2 ^ 36)" and len: "Suc (length xs) < 2 ^ 32"
    and p: "f (value_key junk) = None"
  shows "replace_record A junk st = Some (Inl (- 1)) \<or> (\<exists>st' xs' f'. replace_record A junk st = Some (Inr st') \<and>
    ht_rep st' xs' f' \<and> length xs' = Suc (length xs) \<and> card (dom (ht_recs st')) = Suc (card (dom (ht_recs st))) \<and>
    ht_io st' = ht_io st)"
proof -
  let ?r = "new_value junk" and ?a = "ht_brk st"
  obtain st1 where s: "new_record A ?r st = Some (?a, st1)" "ht_rep st1 xs f"
    "ht_recs st1 = (ht_recs st)(?a \<mapsto> ?r)" "ht_recs st ?a = None" "?a \<notin> set xs" "u_mem (ht_hash st1) ?a = Some new_handle"
    "ht_io st1 = ht_io st"
    by (rule new_record_rep [where f = f and r = ?r and A = A, OF rep A(1)]) (simp add: ht_io_def)
  have card: "card (dom (ht_recs st1)) = Suc (card (dom (ht_recs st)))"
    using s(3,4) ht_repD(5) [OF rep] by (simp add: domIff card_insert_if)
  have r: "ht_recs st1 ?a = Some ?r" by (simp add: s(3))
  have k: "f (key_bytes ?r) = None" using p by (simp add: value_key_def)
  have "HASH_FIND_BYHASHVALUE (key_bytes ?r) (HASH_VALUE (key_bytes ?r)) (ht_hash st1) = Some None"
    using ht_repD(8) [OF s(2), of "key_bytes ?r"] k by (simp add: HASH_FIND_def)
  then have "replace_record A junk st = add_record A ?a st1"
    using s(1) r by (auto simp: replace_record_def add_record_def HASH_REPLACE_def HASH_REPLACE_BYHASHVALUE_def HASH_ADD_def
        and_then_def split: option.splits sum.splits)
  moreover from add_record_rep [of st1 xs f ?a ?r new_handle A, OF s(2) r s(5,6) k len A(2)]
  have "add_record A ?a st1 = Some (Inl (- 1)) \<or> (\<exists>u. add_record A ?a st1 = Some (Inr (st1\<lparr>ht_hash := u\<rparr>)) \<and>
    ht_rep (st1\<lparr>ht_hash := u\<rparr>) (xs @ [?a]) (f(key_bytes ?r \<mapsto> ?a)))" .
  ultimately show ?thesis using card s(7) by (fastforce simp: ht_io_def)
qed

subsection \<open>Deleting\<close>

abbreviation ht_tab :: "'b \<times> ht_state \<Rightarrow> uthash" where
  "ht_tab s \<equiv> ht_hash (snd s)"

abbreviation next_of :: "uthash \<Rightarrow> addr option \<Rightarrow> addr option option" where
  "next_of u tmp \<equiv> (case tmp of None \<Rightarrow> Some None | Some b \<Rightarrow> Option.bind (u_mem u b) (\<lambda>h :: ut_handle. Some (h_next h)))"

lemma ht_rep_walk:
  assumes "ht_rep st (ps @ qs) f"
  shows "next_of (ht_hash st) (first_of qs) = Some (first_of (tl qs))"
proof (cases qs)
  case (Cons b rs)
  obtain h where "u_mem (ht_hash st) b = Some h" "h_next h = first_of rs"
    by (rule ht_rep_next [of st ps b rs f]) (use assms Cons in simp_all)
  then show ?thesis using Cons by simp
qed simp

lemma hash_iter_next:
  assumes "ht_rep (snd s1) (ps @ qs) f" "body a s = Some (False, s1)"
  shows "hash_iter ht_tab body (Some a) (first_of qs) s = hash_iter ht_tab body (first_of qs) (first_of (tl qs)) s1"
  by (subst hash_iter.simps) (simp add: assms(2) ht_rep_walk [OF assms(1)])

text \<open>How many of n records are deleted that are visited when i have been visited before.\<close>

definition every_other :: "nat \<Rightarrow> nat \<Rightarrow> nat" where
  "every_other i n = (if even i then Suc n div 2 else n div 2)"

lemma every_other_Suc: "every_other i (Suc n) = (if even i then Suc (every_other (Suc i) n) else every_other (Suc i) n)"
  by (simp add: every_other_def)

lemma thin_loop:
  assumes "ht_rep st (ps @ qs) f" "x < MORE_REC_NUM"
  shows "\<exists>i' st' xs' f'. hash_iter ht_tab thin_body (first_of qs) (first_of (tl qs)) ((i, x), st) =
      Some ((i', min MORE_REC_NUM (x + every_other i (length qs))), st') \<and> ht_rep st' xs' f' \<and>
    length xs' + min MORE_REC_NUM (x + every_other i (length qs)) = length (ps @ qs) + x \<and>
    card (dom (ht_recs st')) + min MORE_REC_NUM (x + every_other i (length qs)) = card (dom (ht_recs st)) + x \<and> ht_io st' = ht_io st"
  using assms
proof (induction qs arbitrary: ps st f i x)
  case Nil
  then have "hash_iter ht_tab thin_body (first_of []) (first_of (tl [])) ((i, x), st) = Some ((i, x), st)"
    by (subst hash_iter.simps) simp
  then show ?case using Nil by (intro exI [of _ i] exI [of _ st] exI [of _ ps] exI [of _ f]) (simp add: every_other_def min_absorb2)
next
  case (Cons a qs)
  show ?case
  proof (cases "even i")
    case False
    then have step: "thin_body a ((i, x), st) = Some (False, (Suc i, x), st)" using Cons.prems(2) by (simp add: thin_body_def odd_iff_mod_2_eq_one)
    have rep: "ht_rep st ((ps @ [a]) @ qs) f" using Cons.prems(1) by simp
    have "hash_iter ht_tab thin_body (first_of (a # qs)) (first_of qs) ((i, x), st) =
        hash_iter ht_tab thin_body (first_of qs) (first_of (tl qs)) ((Suc i, x), st)"
      using hash_iter_next [of "((Suc i, x), st)" "ps @ [a]" qs f thin_body a] rep step by simp
    moreover have "every_other i (length (a # qs)) = every_other (Suc i) (length qs)" using False by (simp add: every_other_Suc)
    ultimately show ?thesis using Cons.IH [OF rep Cons.prems(2), of "Suc i"] by simp
  next
    case True
    obtain st1 f1 where d: "delete_record a st = Some st1" "ht_rep st1 (ps @ qs) f1"
      "Suc (card (dom (ht_recs st1))) = card (dom (ht_recs st))" "ht_io st1 = ht_io st"
      by (rule delete_record_rep [OF Cons.prems(1)]) (simp add: ht_io_def)
    have step: "thin_body a ((i, x), st) = Some (MORE_REC_NUM \<le> Suc x, (Suc i, Suc x), st1)"
    proof -
      have "Suc i mod 2 = 1" using True by presburger
      then show ?thesis using d(1) by (simp add: thin_body_def)
    qed
    show ?thesis
    proof (cases "MORE_REC_NUM \<le> Suc x")
      case True
      then have "hash_iter ht_tab thin_body (first_of (a # qs)) (first_of qs) ((i, x), st) = Some ((Suc i, Suc x), st1)"
        by (subst hash_iter.simps) (simp add: step)
      moreover have "min MORE_REC_NUM (x + every_other i (length (a # qs))) = Suc x"
        using True Cons.prems(2) \<open>even i\<close> by (simp add: every_other_Suc)
      ultimately show ?thesis using d(2-4)
        by (intro exI [of _ "Suc i"] exI [of _ st1] exI [of _ "ps @ qs"] exI [of _ f1]) simp
    next
      case False
      have "hash_iter ht_tab thin_body (first_of (a # qs)) (first_of qs) ((i, x), st) =
          hash_iter ht_tab thin_body (first_of qs) (first_of (tl qs)) ((Suc i, Suc x), st1)"
        using hash_iter_next [of "((Suc i, Suc x), st1)" ps qs _ thin_body a] d(2) step False by simp
      moreover have "x + every_other i (length (a # qs)) = Suc x + every_other (Suc i) (length qs)"
        using \<open>even i\<close> by (simp add: every_other_Suc)
      moreover have "Suc x < MORE_REC_NUM" using False by simp
      ultimately show ?thesis using Cons.IH [OF d(2), of "Suc x" "Suc i"] d(3,4) by fastforce
    qed
  qed
qed

lemma drop_loop:
  assumes "ht_rep st qs f"
  shows "\<exists>st' f'. hash_iter ht_tab drop_body (first_of qs) (first_of (tl qs)) (x, st) = Some (x + length qs, st') \<and> ht_rep st' [] f' \<and>
    card (dom (ht_recs st')) + length qs = card (dom (ht_recs st)) \<and> ht_io st' = ht_io st"
  using assms
proof (induction qs arbitrary: st f x)
  case Nil
  then show ?case by (subst hash_iter.simps) auto
next
  case (Cons a qs)
  have rep: "ht_rep st ([] @ a # qs) f" using Cons.prems by simp
  obtain st1 f1 where d: "delete_record a st = Some st1" "ht_rep st1 ([] @ qs) f1"
    "Suc (card (dom (ht_recs st1))) = card (dom (ht_recs st))" "ht_io st1 = ht_io st"
    by (rule delete_record_rep [OF rep]) (simp add: ht_io_def)
  have "hash_iter ht_tab drop_body (first_of (a # qs)) (first_of qs) (x, st) =
      hash_iter ht_tab drop_body (first_of qs) (first_of (tl qs)) (Suc x, st1)"
    using hash_iter_next [of "(Suc x, st1)" "[]" qs _ drop_body a] d(1,2) by (simp add: drop_body_def)
  then show ?case using Cons.IH [of st1 _ "Suc x"] d(2-4) by fastforce
qed

lemma ht_iter:
  assumes "ht_rep (snd s) xs f"
  shows "HASH_ITER ht_tab body s = hash_iter ht_tab body (first_of xs) (first_of (tl xs)) s"
proof (cases xs)
  case Nil
  then show ?thesis using uth_map_chain(1) [OF ht_repD(1) [OF assms]] by (subst hash_iter.simps) (simp add: HASH_ITER_def)
next
  case (Cons a ys)
  obtain h where "u_mem (ht_tab s) a = Some h" "h_next h = first_of ys" by (rule ht_rep_next [of "snd s" "[]" a ys f]) (use assms Cons in simp_all)
  then show ?thesis using uth_map_chain(1) [OF ht_repD(1) [OF assms]] Cons by (simp add: HASH_ITER_def)
qed

subsection \<open>The report\<close>

definition rand_keys :: "(nat \<Rightarrow> int) \<Rightarrow> byte list set" where
  "rand_keys rnd = (\<lambda>i. rand_key rnd (2 * i)) ` {..<UT_BENCH_TOTAL_RECORDS}"

definition us_between :: "(nat \<Rightarrow> int \<times> int) \<Rightarrow> nat \<Rightarrow> string" where
  "us_between clk k = dec_int (elapsed (clk k) (clk (Suc k)))"

definition added_report :: "(nat \<Rightarrow> int \<times> int) \<Rightarrow> nat \<Rightarrow> string list" where
  "added_report clk n = [''done adding 1000000 records in '' @ us_between clk 0 @ '' us \<newline>'',
     ''done adding 1000 more records in '' @ us_between clk 2 @ '' us\<newline>'', ''HASH_COUNT:'' @ dec_nat n @ ''\<newline>'']"

definition found_report :: "(nat \<Rightarrow> int \<times> int) \<Rightarrow> bool \<Rightarrow> string list" where
  "found_report clk replaced = [''found items:1000 in '' @ us_between clk 4 @ '' us\<newline>'', ''found caa0a3e8 3344 --> Find me:999 !!  \<newline>''] @
     (if replaced then [''replaced:Find me:0 !! ''] else [])"

definition deleted_report :: "(nat \<Rightarrow> int \<times> int) \<Rightarrow> nat \<Rightarrow> string list" where
  "deleted_report clk n = (let d = min 1000 (Suc n div 2) in
     [''end time:'' @ dec_int (wrap_int (fst (clk 6))) @ '', us:'' @ dec_int (wrap_int (snd (clk 6))) @ ''\<newline>'',
      ''delete '' @ dec_nat d @ '' items in '' @ us_between clk 7 @ '' us\<newline>'',
      ''deleted x='' @ dec_nat (n - d) @ '' in '' @ us_between clk 9 @ '' us\<newline>''])"

lemma took_eq: "took clk msg st = st\<lparr>ht_times := Suc (ht_times st), ht_out := ht_out st @ [msg (elapsed (tv_rec st) (clk (ht_times st)))]\<rparr>"
  by (simp add: took_def stop_measure_def gettimeofday_def ht_say_def)

lemma start_eq: "start_measure clk st = st\<lparr>ht_times := Suc (ht_times st), tv_rec := clk (ht_times st)\<rparr>"
  by (simp add: start_measure_def gettimeofday_def)

lemma digit_consts:
  "digit 0 = CHR ''0''" "digit (Suc 0) = CHR ''1''" "digit 3 = CHR ''3''" "digit 4 = CHR ''4''" "digit 9 = CHR ''9''"
  by code_simp+

lemma dec_nat_consts: "dec_nat 1000000 = ''1000000''" "dec_nat 1000 = ''1000''" "dec_nat 999 = ''999''" "dec_nat 0 = ''0''"
  by (simp_all add: dec_nat.simps digit_consts)

lemma ht_start_rep: "ht_rep ht_start [] Map.empty"
  by (simp add: ht_rep_def ht_start_def uth_map_empty)

lemma HASH_COUNT_shown:
  assumes rep: "ht_rep st xs f" and len: "length xs < 2 ^ 31"
  shows "\<exists>n. HASH_COUNT (ht_hash st) = Some n \<and> dec_int (sint n) = dec_nat (length xs)"
proof (intro exI conjI)
  show "HASH_COUNT (ht_hash st) = Some (of_nat (length xs))"
    using HASH_COUNT_ok uth_listed ht_repD(1) [OF rep] by (simp add: uth_map_def)
  have "signed_take_bit 31 (int (length xs)) = int (length xs)" using len by (intro signed_take_bit_int_eq_self) simp_all
  then have "sint (of_nat (length xs) :: u32) = int (length xs)" by (simp add: signed_of_nat)
  then show "dec_int (sint (of_nat (length xs) :: u32)) = dec_nat (length xs)" by (simp add: dec_int_def)
qed

lemma all_keys_card: "card (rand_keys rnd \<union> more_key ` {0..<0 + MORE_REC_NUM}) = card (rand_keys rnd) + 1000"
proof -
  have "rand_keys rnd \<inter> more_key ` {0..<0 + MORE_REC_NUM} = {}" using rand_more by (auto simp: rand_keys_def)
  then have "card (rand_keys rnd \<union> more_key ` {0..<0 + MORE_REC_NUM}) = card (rand_keys rnd) + card (more_key ` {0..<0 + MORE_REC_NUM})"
    by (intro card_Un_disjoint) (simp_all add: rand_keys_def)
  then show ?thesis using card_image [OF more_key_inj] by (simp add: MORE_REC_NUM_def)
qed

lemma rand_keys_card: "card (rand_keys rnd) \<le> 1000000"
  using card_image_le [of "{..<UT_BENCH_TOTAL_RECORDS}" "\<lambda>i. rand_key rnd (2 * i)"]
  by (simp add: rand_keys_def UT_BENCH_TOTAL_RECORDS_def)

lemma ht_adding_run:
  assumes A: "A 392" "\<not> A (2 ^ 36)"
  shows "ht_adding A rnd clk = Some (Inl (- 1)) \<or> (\<exists>st xs f. ht_adding A rnd clk = Some (Inr st) \<and> ht_rep st xs f \<and>
    dom f = rand_keys rnd \<union> more_key ` {0..<0 + MORE_REC_NUM} \<and>
    (\<forall>i\<in>{0..<0 + MORE_REC_NUM}. \<exists>a. f (more_key i) = Some a \<and> ht_recs st a = Some (more_record i)) \<and>
    card (dom (ht_recs st)) = 1001000 \<and> ht_times st = 4 \<and> ht_out st = added_report clk (card (rand_keys rnd) + 1000))"
proof -
  let ?st0 = "start_measure clk ht_start"
  have rep0: "ht_rep ?st0 [] Map.empty" using ht_start_rep by (simp add: start_eq)
  have len0: "length ([] :: addr list) + UT_BENCH_TOTAL_RECORDS < 2 ^ 32" by (simp add: UT_BENCH_TOTAL_RECORDS_def)
  from bench_loop_rep [of ?st0 "[]" Map.empty A UT_BENCH_TOTAL_RECORDS rnd 0, OF rep0 A len0] show ?thesis
  proof (elim disjE exE conjE)
    fix st1 xs1 f1
    assume s: "bench_loop A rnd UT_BENCH_TOTAL_RECORDS 0 ?st0 = Some (Inr st1)" "ht_rep st1 xs1 f1"
      "dom f1 = dom Map.empty \<union> (\<lambda>i. rand_key rnd (ht_rands ?st0 + 2 * i)) ` {..<UT_BENCH_TOTAL_RECORDS}"
      "length xs1 \<le> length ([] :: addr list) + UT_BENCH_TOTAL_RECORDS"
      "card (dom (ht_recs st1)) = card (dom (ht_recs ?st0)) + UT_BENCH_TOTAL_RECORDS" "ht_io st1 = ht_io ?st0"
    have keys: "dom f1 = rand_keys rnd" using s(3) by (simp add: rand_keys_def start_eq ht_start_def)
    let ?st2 = "start_measure clk (took clk (\<lambda>us. ''done adding '' @ dec_nat UT_BENCH_TOTAL_RECORDS @ '' records in '' @ dec_int us @ '' us \<newline>'') st1)"
    have rep2: "ht_rep ?st2 xs1 f1" using s(2) by (simp add: start_eq took_eq)
    have len2: "length xs1 + MORE_REC_NUM < 2 ^ 32" using s(4) by (simp add: UT_BENCH_TOTAL_RECORDS_def MORE_REC_NUM_def)
    have new: "\<forall>i\<in>{0..<0 + MORE_REC_NUM}. f1 (more_key i) = None"
      using rand_more keys by (metis domIff imageE rand_keys_def)
    from more_loop_rep [of ?st2 xs1 f1 A MORE_REC_NUM 0, OF rep2 A len2 more_key_inj new] show ?thesis
    proof (elim disjE exE conjE)
      fix st3 xs3 f3
      assume t: "more_loop A MORE_REC_NUM 0 ?st2 = Some (Inr st3)" "ht_rep st3 xs3 f3"
        "dom f3 = dom f1 \<union> more_key ` {0..<0 + MORE_REC_NUM}"
        "\<forall>i\<in>{0..<0 + MORE_REC_NUM}. \<exists>a. f3 (more_key i) = Some a \<and> ht_recs st3 a = Some (more_record i)"
        "card (dom (ht_recs st3)) = card (dom (ht_recs ?st2)) + MORE_REC_NUM" "ht_io st3 = ht_io ?st2"
      let ?st4 = "took clk (\<lambda>us. ''done adding '' @ dec_nat MORE_REC_NUM @ '' more records in '' @ dec_int us @ '' us\<newline>'') st3"
      have rep4: "ht_rep ?st4 xs3 f3" using t(2) by (simp add: took_eq)
      have len: "length xs3 = card (rand_keys rnd) + 1000"
        using ht_repD(7) [OF t(2)] all_keys_card [of rnd] t(3) keys by simp
      then have "length xs3 < 2 ^ 31" using rand_keys_card [of rnd] by simp
      from HASH_COUNT_shown [OF rep4 this] obtain n where n: "HASH_COUNT (ht_hash ?st4) = Some n" "dec_int (sint n) = dec_nat (length xs3)" by blast
      let ?st5 = "ht_say (''HASH_COUNT:'' @ dec_int (sint n) @ ''\<newline>'') ?st4"
      have "ht_adding A rnd clk = Some (Inr ?st5)" using s(1) t(1) n by (simp add: ht_adding_def Let_def)
      moreover have "ht_rep ?st5 xs3 f3" using rep4 by (simp add: ht_say_def)
      moreover have "card (dom (ht_recs ?st5)) = 1001000"
        using t(5) s(5) by (simp add: took_eq start_eq ht_say_def ht_start_def UT_BENCH_TOTAL_RECORDS_def MORE_REC_NUM_def)
      moreover have "ht_times ?st5 = 4" "ht_out ?st5 = added_report clk (card (rand_keys rnd) + 1000)"
        using t(6) s(6) n(2) len
        by (simp_all add: ht_io_def took_eq start_eq ht_say_def ht_start_def added_report_def us_between_def dec_nat_consts
            numeral_2_eq_2 numeral_3_eq_3 UT_BENCH_TOTAL_RECORDS_def MORE_REC_NUM_def)
      moreover have "ht_recs ?st5 = ht_recs st3" by (simp add: took_eq ht_say_def)
      ultimately show ?thesis using t(3,4) keys by (intro disjI2 exI [of _ ?st5] exI [of _ xs3] exI [of _ f3]) simp
    qed (use s(1) in \<open>simp add: ht_adding_def Let_def\<close>)
  qed (simp add: ht_adding_def)
qed

lemma print_last: "ht_recs st a = Some (more_record 999) \<Longrightarrow> print_found a st = Some (ht_say ''found caa0a3e8 3344 --> Find me:999 !!  \<newline>'' st)"
proof -
  have "hex_nat 3399525352 = ''caa0a3e8''"
    by (simp add: hex_nat.simps hex_digit_def) code_simp
  then show "ht_recs st a = Some (more_record 999) \<Longrightarrow> ?thesis"
    by (simp add: print_found_def more_record_def dec_int_def dec_nat.simps digit_consts)
qed

text \<open>The record that may be there by chance.\<close>

definition odd_key :: "byte list" where
  "odd_key = key_bytes \<lparr>r_ip = 0x12321231, r_port = 1231, r_mac = mac_of 0xa1, r_text = []\<rparr>"

lemma print_odd:
  assumes rep: "ht_rep st xs f" and a: "f odd_key = Some a"
  shows "\<exists>t. print_found a st = Some (ht_say (''found 12321231 1231 --> '' @ t @ '' \<newline>'') st)"
proof -
  note D = ht_repD [OF rep]
  have "a \<in> set xs" "key_bytes (rec_at st a) = odd_key" using D(2) a by simp_all
  then obtain r where r: "ht_recs st a = Some r" "r_ip r = 0x12321231" "r_port r = 1231"
    using D(3) by (auto simp: odd_key_def key_bytes_eq)
  have "hex_nat 305271345 = ''12321231''" "dec_int (sint (1231 :: u32)) = ''1231''"
    by (simp add: hex_nat.simps hex_digit_def, code_simp) (simp add: dec_int_def dec_nat.simps digit_def, code_simp)
  then have "print_found a st = Some (ht_say (''found 12321231 1231 --> '' @ r_text r @ '' \<newline>'') st)"
    using r by (simp add: print_found_def)
  then show ?thesis by blast
qed

lemma ht_finding_run:
  assumes rep: "ht_rep st xs f" and A: "A 392" "\<not> A (2 ^ 36)" and keys: "dom f = rand_keys rnd \<union> more_key ` {0..<0 + MORE_REC_NUM}"
    and all: "\<forall>i\<in>{0..<0 + MORE_REC_NUM}. \<exists>a. f (more_key i) = Some a \<and> ht_recs st a = Some (more_record i)"
    and t: "ht_times st = 4" and len: "Suc (length xs) < 2 ^ 32"
  shows "ht_finding A junk clk st = Some (Inl (- 1)) \<or> (\<exists>st' xs' f' early. ht_finding A junk clk st = Some (Inr st') \<and>
    ht_rep st' xs' f' \<and> length xs' = length xs + (if junk = replicate 7 0 then 0 else 1) \<and>
    card (dom (ht_recs st')) = card (dom (ht_recs st)) + (if junk = replicate 7 0 then 0 else 1) \<and> ht_times st' = 6 \<and>
    (early = [] \<longleftrightarrow> f odd_key = None) \<and> ht_out st' = ht_out st @ early @ found_report clk (junk = replicate 7 0))"
proof -
  note D = ht_repD [OF rep]
  obtain early where e: "(case f odd_key of None \<Rightarrow> Some st | Some p \<Rightarrow> print_found p st) = Some (st\<lparr>ht_out := ht_out st @ early\<rparr>)"
    "early = [] \<longleftrightarrow> f odd_key = None"
  proof (cases "f odd_key")
    case (Some a)
    then show ?thesis using print_odd [OF rep Some] that by (auto simp: ht_say_def)
  qed (use that [of "[]"] in simp)
  let ?st1 = "start_measure clk (st\<lparr>ht_out := ht_out st @ early\<rparr>)"
  have "\<forall>i\<in>{0..<0 + MORE_REC_NUM}. f (more_key i) \<noteq> None" using all by fastforce
  then have loop: "find_loop MORE_REC_NUM 0 (0, p) (ht_hash st) = Some (1000, f (more_key 999))" for p
    using find_loop_all [of "ht_hash st" f 0 MORE_REC_NUM 0 p] D(8) by (simp add: MORE_REC_NUM_def)
  have "999 \<in> {0..<0 + MORE_REC_NUM}" "0 \<in> {0..<0 + MORE_REC_NUM}" by (simp_all add: MORE_REC_NUM_def)
  then obtain a b where a: "f (more_key 999) = Some a" "ht_recs st a = Some (more_record 999)"
    and b: "f (more_key 0) = Some b" "ht_recs st b = Some (more_record 0)" using all by blast
  let ?st2 = "took clk (\<lambda>us. ''found items:'' @ dec_nat 1000 @ '' in '' @ dec_int us @ '' us\<newline>'') ?st1"
  let ?st3 = "ht_say ''found caa0a3e8 3344 --> Find me:999 !!  \<newline>'' ?st2"
  have recs: "ht_recs ?st2 = ht_recs st" "ht_recs ?st3 = ht_recs st" by (simp_all add: took_eq start_eq ht_say_def)
  have "print_found a ?st2 = Some ?st3" using a(2) recs by (intro print_last) simp
  then have run: "ht_finding A junk clk st = replace_record A junk ?st3"
    using D(8) [of odd_key] e(1) loop a(1) by (simp add: ht_finding_def odd_key_def Let_def start_eq)
  have rep3: "ht_rep ?st3 xs f" using rep by (simp add: took_eq start_eq ht_say_def)
  have io: "ht_times ?st3 = 6" "ht_out ?st3 @ (if junk = replicate 7 0 then [''replaced:Find me:0 !! ''] else []) =
      ht_out st @ early @ found_report clk (junk = replicate 7 0)"
    using t by (simp_all add: took_eq start_eq ht_say_def found_report_def us_between_def dec_nat_consts)
  show ?thesis
  proof (cases "junk = replicate 7 0")
    case True
    have p: "f (value_key junk) = Some b" "ht_recs ?st3 b = Some (more_record 0)" using True value_key_eq b recs by simp_all
    from replace_some [of ?st3 xs f A junk b, OF rep3 A len p] show ?thesis
      unfolding run using True recs io e(2) by (fastforce simp: ht_io_def more_record_def dec_nat_consts)
  next
    case False
    have "value_key junk \<notin> dom f" unfolding keys using value_key_new [OF False] by (auto simp: rand_keys_def)
    then have p: "f (value_key junk) = None" by auto
    from replace_none [of ?st3 xs f A junk, OF rep3 A len p] show ?thesis
      unfolding run using False recs io e(2) by (fastforce simp: ht_io_def)
  qed
qed

lemma ht_deleting_run:
  assumes rep: "ht_rep st xs f" and t: "ht_times st = 6"
  shows "\<exists>st' f'. ht_deleting clk st = Some st' \<and> ht_rep st' [] f' \<and> card (dom (ht_recs st')) + length xs = card (dom (ht_recs st)) \<and>
    ht_out st' = ht_out st @ deleted_report clk (length xs)"
proof -
  let ?endmsg = "''end time:'' @ dec_int (wrap_int (fst (clk 6))) @ '', us:'' @ dec_int (wrap_int (snd (clk 6))) @ ''\<newline>''"
  let ?st1 = "start_measure clk (ht_say ?endmsg (st\<lparr>ht_times := 7\<rparr>))"
  have rep1: "ht_rep ?st1 ([] @ xs) f" using rep by (simp add: start_eq ht_say_def)
  let ?d = "min MORE_REC_NUM (0 + every_other 0 (length xs))"
  obtain i st2 xs2 f2 where s: "hash_iter ht_tab thin_body (first_of xs) (first_of (tl xs)) ((0, 0), ?st1) = Some ((i, ?d), st2)"
    "ht_rep st2 xs2 f2" "length xs2 + ?d = length ([] @ xs) + 0" "card (dom (ht_recs st2)) + ?d = card (dom (ht_recs ?st1)) + 0"
    "ht_io st2 = ht_io ?st1"
    using thin_loop [OF rep1, of 0 0] by (auto simp: MORE_REC_NUM_def)
  have iter1: "HASH_ITER ht_tab thin_body ((0, 0), ?st1) = Some ((i, ?d), st2)"
    using ht_iter [of "((0 :: nat, 0 :: nat), ?st1)" xs f thin_body] rep1 s(1) by simp
  let ?st3 = "start_measure clk (took clk (\<lambda>us. ''delete '' @ dec_nat ?d @ '' items in '' @ dec_int us @ '' us\<newline>'') st2)"
  have rep3: "ht_rep ?st3 xs2 f2" using s(2) by (simp add: start_eq took_eq)
  obtain st4 f4 where u: "hash_iter ht_tab drop_body (first_of xs2) (first_of (tl xs2)) (0, ?st3) = Some (0 + length xs2, st4)"
    "ht_rep st4 [] f4" "card (dom (ht_recs st4)) + length xs2 = card (dom (ht_recs ?st3))" "ht_io st4 = ht_io ?st3"
    using drop_loop [OF rep3, of 0] by blast
  have iter2: "HASH_ITER ht_tab drop_body (0, ?st3) = Some (length xs2, st4)"
    using ht_iter [of "(0 :: nat, ?st3)" xs2 f2 drop_body] rep3 u(1) by simp
  let ?st5 = "took clk (\<lambda>us. ''deleted x='' @ dec_nat (length xs2) @ '' in '' @ dec_int us @ '' us\<newline>'') st4"
  have "ht_deleting clk st = Some ?st5"
    using t iter1 iter2 by (simp add: ht_deleting_def gettimeofday_def Let_def)
  moreover have "ht_rep ?st5 [] f4" using u(2) by (simp add: took_eq)
  moreover have "card (dom (ht_recs ?st5)) + length xs = card (dom (ht_recs st))"
    using s(3,4) u(3) by (simp add: took_eq start_eq ht_say_def)
  moreover have "ht_out ?st5 = ht_out st @ deleted_report clk (length xs)"
  proof -
    have d: "?d = min 1000 (Suc (length xs) div 2)" by (simp add: MORE_REC_NUM_def every_other_def)
    have x: "length xs2 = length xs - min 1000 (Suc (length xs) div 2)" using s(3) unfolding d by simp
    show ?thesis using s(5) u(4) unfolding d x
      by (simp add: ht_io_def took_eq start_eq ht_say_def deleted_report_def us_between_def Let_def)
  qed
  ultimately show ?thesis by blast
qed

subsection \<open>Running out of memory\<close>

text \<open>
  The sizes an addition to a table may ask for: a new table with its buckets, and twice the buckets
  there are.
\<close>

definition may_ask :: "uthash \<Rightarrow> int set" where
  "may_ask u = {64, 512, 1024} \<union> (case u_tbl u of None \<Rightarrow> {} | Some t \<Rightarrow> {2 * uint (num_buckets t) * 16})"

lemma and_then_InlE:
  assumes "and_then m f = Some (Inl c)"
  obtains "m = Some (Inl c)" | x where "m = Some (Inr x)" "f x = Some (Inl c)"
  using assms that by (auto simp: and_then_def split: option.splits sum.splits)

lemma ha_to_bucket_exit:
  assumes "ha_to_bucket A hv a u = Some (Inl c)"
  obtains t where "u_tbl u = Some t" "\<not> A (2 * uint (num_buckets t) * 16)"
proof -
  obtain t where t: "u_tbl u = Some t" using assms by (cases "u_tbl u") (simp_all add: ha_to_bucket_def)
  have "\<not> A (2 * uint (num_buckets t) * 16)"
    using assms t by (auto simp: ha_to_bucket_def HASH_ADD_TO_BKT_def HASH_EXPAND_BUCKETS_def bind_eq_Some_conv Let_def split: if_splits)
  with t show ?thesis by (rule that)
qed

lemma add_exit:
  assumes "HASH_ADD_KEYPTR_BYHASHVALUE A k hv a u = Some (Inl c)"
  shows "\<exists>n\<in>may_ask u. \<not> A n"
proof -
  obtain u1 where u1: "ha_set_key k hv a u = Some u1" "u_tbl u1 = u_tbl u"
    "and_then (if u_head u = None then ha_first A a u1 else map_option Inr (HASH_APPEND_LIST a u1)) (ha_to_bucket A hv a) = Some (Inl c)"
    using assms by (auto simp: HASH_ADD_KEYPTR_BYHASHVALUE_def ha_set_key_def bind_eq_Some_conv)
  from u1(3) show ?thesis
  proof (cases rule: and_then_InlE)
    case 1
    then show ?thesis
      by (auto simp: ha_first_def HASH_MAKE_TABLE_def HASH_INITIAL_NUM_BUCKETS_def may_ask_def bind_eq_Some_conv split: if_splits)
  next
    case (2 u2)
    obtain t where t: "u_tbl u2 = Some t" "\<not> A (2 * uint (num_buckets t) * 16)" by (rule ha_to_bucket_exit [OF 2(2)])
    have "num_buckets t = 32 \<or> (\<exists>t'. u_tbl u = Some t' \<and> num_buckets t' = num_buckets t)"
      using 2(1) t(1) u1(2) by (auto simp: ha_first_def HASH_MAKE_TABLE_def HASH_INITIAL_NUM_BUCKETS_def HASH_APPEND_LIST_def bind_eq_Some_conv split: if_splits)
    then have "2 * uint (num_buckets t) * 16 \<in> may_ask u" by (auto simp: may_ask_def)
    then show ?thesis using t(2) by blast
  qed
qed

lemma bind_SomeE:
  assumes "Option.bind m f = Some y"
  obtains x where "m = Some x" "f x = Some y"
  using assms that by (auto simp: bind_eq_Some_conv)

lemma HASH_DEL_IN_BKT_buckets: "HASH_DEL_IN_BKT bkt a u = Some u' \<Longrightarrow> may_ask u' = may_ask u"
  by (auto simp: HASH_DEL_IN_BKT_def may_ask_def bind_eq_Some_conv Let_def)

lemma HASH_DELETE_buckets:
  assumes "HASH_DELETE a u = Some u'"
  shows "may_ask u' \<subseteq> may_ask u"
proof -
  obtain d t where t: "u_mem u a = Some d" "u_tbl u = Some t" using assms by (auto simp: HASH_DELETE_def bind_eq_Some_conv)
  show ?thesis
  proof (cases "h_prev d = None \<and> h_next d = None")
    case True
    then show ?thesis using assms t by (auto simp: HASH_DELETE_def may_ask_def)
  next
    case False
    note run = assms [unfolded HASH_DELETE_def t bind.bind_lunit if_not_P [OF False]]
    obtain t1 bkt w u1 t2 where t1: "(if a = t_tail t then do { p \<leftarrow> h_prev d; Some (t\<lparr>t_tail := p\<rparr>) } else Some t) = Some t1"
      and u1: "HASH_DEL_IN_BKT bkt a w = Some u1" "u_tbl w = Some t1" "u_tbl u1 = Some t2"
        "u' = u1\<lparr>u_tbl := Some (t2\<lparr>num_items := num_items t2 - 1\<rparr>)\<rparr>"
      using run by (elim bind_SomeE) (simp only: split_def, elim bind_SomeE, force)
    have "num_buckets t1 = num_buckets t" using t1 by (auto simp: bind_eq_Some_conv split: if_splits)
    then show ?thesis using HASH_DEL_IN_BKT_buckets [OF u1(1)] u1(2-4) t(2) by (simp add: may_ask_def)
  qed
qed

lemma replace_exit:
  assumes "HASH_REPLACE A k a u = Some (Inl c)"
  shows "\<exists>n\<in>may_ask u. \<not> A n"
proof -
  obtain r u1 where "(case r of Some r \<Rightarrow> HASH_DELETE r u | None \<Rightarrow> Some u) = Some u1"
    "HASH_ADD_KEYPTR_BYHASHVALUE A k (HASH_VALUE k) a u1 = Some (Inl c)"
    using assms by (auto simp: HASH_REPLACE_def HASH_REPLACE_BYHASHVALUE_def bind_eq_Some_conv elim!: and_then_InlE)
  moreover from this have "may_ask u1 \<subseteq> may_ask u" using HASH_DELETE_buckets by (cases r) auto
  ultimately show ?thesis using add_exit by blast
qed

lemma new_record_ask: "new_record A r st = Some (a, st') \<Longrightarrow> may_ask (ht_hash st') = may_ask (ht_hash st)"
  by (auto simp: new_record_def may_ask_def Let_def split: if_splits)

lemma add_record_exit: "add_record A a st = Some (Inl c) \<Longrightarrow> \<exists>n\<in>may_ask (ht_hash st). \<not> A n"
  by (auto simp: add_record_def HASH_ADD_def bind_eq_Some_conv elim!: and_then_InlE dest: add_exit)

text \<open>A loop that exits does so in a round before which the table may ask for something the allocator refuses.\<close>

lemma bench_loop_exit:
  "bench_loop A rnd n x st = Some (Inl c) \<Longrightarrow>
    \<exists>m st'. m < n \<and> bench_loop A rnd m x st = Some (Inr st') \<and> (\<exists>k\<in>may_ask (ht_hash st'). \<not> A k)"
proof (induction n arbitrary: x st)
  case (Suc n)
  from Suc.prems have "and_then (bench_add A rnd x st) (bench_loop A rnd n (Suc x)) = Some (Inl c)" by simp
  then show ?case
  proof (cases rule: and_then_InlE)
    case 1
    then obtain a st1 where "new_record A (rand_record rnd (ht_rands st) x) (st\<lparr>ht_rands := ht_rands st + 2\<rparr>) = Some (a, st1)"
      "add_record A a st1 = Some (Inl c)"
      by (auto simp: bench_add_def bind_eq_Some_conv split: if_splits)
    then have "\<exists>k\<in>may_ask (ht_hash st). \<not> A k" using new_record_ask add_record_exit by fastforce
    then show ?thesis by (intro exI [of _ 0] exI [of _ st]) simp
  next
    case (2 st1)
    from Suc.IH [OF 2(2)] obtain m st' where
      "m < n" "bench_loop A rnd m (Suc x) st1 = Some (Inr st')" "\<exists>k\<in>may_ask (ht_hash st'). \<not> A k" by blast
    then show ?thesis using 2(1) by (intro exI [of _ "Suc m"] exI [of _ st']) simp
  qed
qed simp

lemma more_loop_exit:
  "more_loop A n x st = Some (Inl c) \<Longrightarrow>
    \<exists>m st'. m < n \<and> more_loop A m x st = Some (Inr st') \<and> (\<exists>k\<in>may_ask (ht_hash st'). \<not> A k)"
proof (induction n arbitrary: x st)
  case (Suc n)
  from Suc.prems obtain a st0 where new: "new_record A (more_record x) st = Some (a, st0)"
    and "and_then (add_record A a st0) (more_loop A n (Suc x)) = Some (Inl c)" by (auto simp: bind_eq_Some_conv)
  from this(2) show ?case
  proof (cases rule: and_then_InlE)
    case 1
    then have "\<exists>k\<in>may_ask (ht_hash st). \<not> A k" using new_record_ask [OF new] add_record_exit by blast
    then show ?thesis by (intro exI [of _ 0] exI [of _ st]) simp
  next
    case (2 st1)
    from Suc.IH [OF 2(2)] obtain m st' where
      "m < n" "more_loop A m (Suc x) st1 = Some (Inr st')" "\<exists>k\<in>may_ask (ht_hash st'). \<not> A k" by blast
    then show ?thesis using 2(1) new by (intro exI [of _ "Suc m"] exI [of _ st']) simp
  qed
qed simp

text \<open>The states in which the program adds a record to its table.\<close>

definition ht_added :: "(nat \<Rightarrow> int \<times> int) \<Rightarrow> ht_state \<Rightarrow> ht_state" where
  "ht_added clk st = start_measure clk
     (took clk (\<lambda>us. ''done adding '' @ dec_nat UT_BENCH_TOTAL_RECORDS @ '' records in '' @ dec_int us @ '' us \<newline>'') st)"

definition ht_adds :: "grants \<Rightarrow> (nat \<Rightarrow> int) \<Rightarrow> (nat \<Rightarrow> int \<times> int) \<Rightarrow> ht_state \<Rightarrow> bool" where
  "ht_adds A rnd clk st \<longleftrightarrow>
     (\<exists>m < UT_BENCH_TOTAL_RECORDS. bench_loop A rnd m 0 (start_measure clk ht_start) = Some (Inr st)) \<or>
     (\<exists>m < MORE_REC_NUM. \<exists>st0. bench_loop A rnd UT_BENCH_TOTAL_RECORDS 0 (start_measure clk ht_start) = Some (Inr st0) \<and>
        more_loop A m 0 (ht_added clk st0) = Some (Inr st)) \<or>
     ht_adding A rnd clk = Some (Inr st)"

lemma ht_adding_exit:
  assumes "ht_adding A rnd clk = Some (Inl c)"
  shows "\<exists>st. ht_adds A rnd clk st \<and> (\<exists>n\<in>may_ask (ht_hash st). \<not> A n)"
  using assms unfolding ht_adding_def Let_def ht_added_def [symmetric]
proof (cases rule: and_then_InlE)
  case 1
  from bench_loop_exit [OF this] show ?thesis unfolding ht_adds_def by blast
next
  case (2 st0)
  from 2(2) show ?thesis
  proof (cases rule: and_then_InlE)
    case 1
    from more_loop_exit [OF this] show ?thesis using 2(1) unfolding ht_adds_def by blast
  qed (simp add: bind_eq_Some_conv)
qed

lemma took_hash [simp]: "ht_hash (took clk msg st) = ht_hash st"
  by (simp add: took_eq)

lemma start_hash [simp]: "ht_hash (start_measure clk st) = ht_hash st"
  by (simp add: start_eq)

lemma print_found_hash: "print_found p st = Some st' \<Longrightarrow> ht_hash st' = ht_hash st"
  by (auto simp: print_found_def ht_say_def bind_eq_Some_conv)

lemma replace_record_exit:
  assumes "replace_record A junk st = Some (Inl c)"
  shows "\<exists>n\<in>may_ask (ht_hash st). \<not> A n"
proof -
  obtain a st1 r where new: "new_record A (new_value junk) st = Some (a, st1)"
    and "and_then (HASH_REPLACE A (key_bytes r) a (ht_hash st1)) (\<lambda>(p, u). case p of
         None \<Rightarrow> Some (Inr (st1\<lparr>ht_hash := u\<rparr>))
       | Some p \<Rightarrow> do {
           d \<leftarrow> ht_recs st1 p;
           st2 \<leftarrow> free_record p (ht_say (''replaced:'' @ r_text d) (st1\<lparr>ht_hash := u\<rparr>));
           Some (Inr st2) }) = Some (Inl c)"
    using assms by (auto simp: replace_record_def bind_eq_Some_conv)
  from this(2) show ?thesis
  proof (cases rule: and_then_InlE)
    case 1
    from replace_exit [OF this] show ?thesis by (simp add: new_record_ask [OF new])
  qed (auto simp: bind_eq_Some_conv split: option.splits)
qed

lemma ht_finding_exit:
  assumes "ht_finding A junk clk st = Some (Inl c)"
  shows "\<exists>n\<in>may_ask (ht_hash st). \<not> A n"
proof -
  obtain st1 where "replace_record A junk st1 = Some (Inl c)" "ht_hash st1 = ht_hash st"
    using assms by (auto simp: ht_finding_def bind_eq_Some_conv Let_def split: option.splits prod.splits dest!: print_found_hash)
  then show ?thesis using replace_record_exit by fastforce
qed

lemma hash_test_exit:
  assumes "hash_test_main A rnd junk clk = Some (Inl c)"
  shows "\<exists>st. ht_adds A rnd clk st \<and> (\<exists>n\<in>may_ask (ht_hash st). \<not> A n)"
  using assms unfolding hash_test_main_def
proof (cases rule: and_then_InlE)
  case 1
  then show ?thesis by (rule ht_adding_exit)
next
  case (2 st)
  from 2(2) show ?thesis
  proof (cases rule: and_then_InlE)
    case 1
    then show ?thesis using ht_finding_exit 2(1) unfolding ht_adds_def by blast
  qed simp
qed

subsection \<open>The whole program\<close>

lemma hash_test_run:
  assumes "A 392" "\<not> A (2 ^ 36)"
  shows "hash_test_main A rnd junk clk = Some (Inl (- 1)) \<or>
    (\<exists>st early. hash_test_main A rnd junk clk = Some (Inr st) \<and> (early = [] \<longleftrightarrow> odd_key \<notin> rand_keys rnd) \<and>
       ht_out st = added_report clk (card (rand_keys rnd) + 1000) @ early @ found_report clk (junk = replicate 7 0) @
         deleted_report clk (card (rand_keys rnd) + 1000 + (if junk = replicate 7 0 then 0 else 1)) \<and>
       u_head (ht_hash st) = None \<and> card (dom (ht_recs st)) = 1000000 - card (rand_keys rnd))"
  using ht_adding_run [of A rnd clk, OF assms]
proof (elim disjE exE conjE)
  fix st xs f
  assume s: "ht_adding A rnd clk = Some (Inr st)" "ht_rep st xs f" "dom f = rand_keys rnd \<union> more_key ` {0..<0 + MORE_REC_NUM}"
    "\<forall>i\<in>{0..<0 + MORE_REC_NUM}. \<exists>a. f (more_key i) = Some a \<and> ht_recs st a = Some (more_record i)"
    "card (dom (ht_recs st)) = 1001000" "ht_times st = 4" "ht_out st = added_report clk (card (rand_keys rnd) + 1000)"
  have len: "length xs = card (rand_keys rnd) + 1000" using ht_repD(7) [OF s(2)] all_keys_card [of rnd] s(3) by simp
  then have small: "Suc (length xs) < 2 ^ 32" using rand_keys_card [of rnd] by simp
  have odd: "f odd_key = None \<longleftrightarrow> odd_key \<notin> rand_keys rnd"
  proof -
    have "odd_key \<noteq> more_key i" for i by (simp add: odd_key_def more_key_def key_bytes_eq more_record_def mac_of_def)
    then have "odd_key \<in> dom f \<longleftrightarrow> odd_key \<in> rand_keys rnd" unfolding s(3) by auto
    then show ?thesis using domIff [of odd_key f] by blast
  qed
  from ht_finding_run [of st xs f A rnd junk clk, OF s(2) assms s(3,4,6) small] show ?thesis
  proof (elim disjE exE conjE)
    fix st1 xs1 f1 early
    assume t: "ht_finding A junk clk st = Some (Inr st1)" "ht_rep st1 xs1 f1"
      "length xs1 = length xs + (if junk = replicate 7 0 then 0 else 1)"
      "card (dom (ht_recs st1)) = card (dom (ht_recs st)) + (if junk = replicate 7 0 then 0 else 1)" "ht_times st1 = 6"
      "early = [] \<longleftrightarrow> f odd_key = None" "ht_out st1 = ht_out st @ early @ found_report clk (junk = replicate 7 0)"
    obtain st2 f2 where u: "ht_deleting clk st1 = Some st2" "ht_rep st2 [] f2"
      "card (dom (ht_recs st2)) + length xs1 = card (dom (ht_recs st1))" "ht_out st2 = ht_out st1 @ deleted_report clk (length xs1)"
      using ht_deleting_run [OF t(2,5), of clk] by blast
    have "hash_test_main A rnd junk clk = Some (Inr st2)" using s(1) t(1) u(1) by (simp add: hash_test_main_def)
    moreover have "u_head (ht_hash st2) = None" using uth_map_chain(1) [OF ht_repD(1) [OF u(2)]] by simp
    moreover have "card (dom (ht_recs st2)) = 1000000 - card (rand_keys rnd)" using u(3) t(3,4) s(5) len by (simp split: if_splits)
    ultimately show ?thesis using t(6,7) odd s(7) u(4) t(3) len by (intro disjI2 exI [of _ st2] exI [of _ early]) simp
  qed (use s(1) in \<open>simp add: hash_test_main_def\<close>)
qed (simp add: hash_test_main_def)

text \<open>
  C31: what the program prints.  With memory for its records it either exits with -1, and then it was adding to
  a table one of whose possible requests (for a new table and its buckets, or for twice the buckets it has)
  the allocator refuses; or it counts the different random keys (n) and the thousand of its own,
  finds those thousand, replaces the first of them exactly when the bytes of the new key that it
  does not set happen to be zero (and otherwise adds one more record), deletes every other record
  up to a thousand and then all that are left; the table ends empty, and the records whose random
  key came up before are never freed.  Between the count and the search it prints a record
  exactly if one of the random keys is the key it asks for.
\<close>

theorem hash_test_report:
  assumes "A 392" "\<not> A (2 ^ 36)"
  shows "hash_test_main A rnd junk clk = Some (Inl (- 1)) \<and>
      (\<exists>st. ht_adds A rnd clk st \<and> (\<exists>n\<in>may_ask (ht_hash st). \<not> A n)) \<or>
    (\<exists>st early. hash_test_main A rnd junk clk = Some (Inr st) \<and> (early = [] \<longleftrightarrow> odd_key \<notin> rand_keys rnd) \<and>
       ht_out st = added_report clk (card (rand_keys rnd) + 1000) @ early @ found_report clk (junk = replicate 7 0) @
         deleted_report clk (card (rand_keys rnd) + 1000 + (if junk = replicate 7 0 then 0 else 1)) \<and>
       u_head (ht_hash st) = None \<and> card (dom (ht_recs st)) = 1000000 - card (rand_keys rnd))"
  using hash_test_run [OF assms, of rnd junk clk] hash_test_exit [of A rnd junk clk] by blast

text \<open>
  An allocator that grants records only: the program exits at its first record.  One that refuses 2 ^ 36 bytes and
  more, with one random key: the report, unless the table has 2 ^ 31 buckets when a record is added.
\<close>

lemma hash_test_no_table: "hash_test_main (\<lambda>n. n = 392) rnd junk clk = Some (Inl (- 1))"
proof -
  have one: "bench_add (\<lambda>n. n = 392) rnd 0 (start_measure clk ht_start) = Some (Inl (- 1))"
    by (simp add: bench_add_def new_record_def ht_start_def start_eq add_record_def HASH_FIND_def HASH_FIND_BYHASHVALUE_def
      HASH_ADD_def HASH_ADD_KEYPTR_BYHASHVALUE_def ha_set_key_def ha_first_def HASH_MAKE_TABLE_def h_upd_def Let_def)
  obtain k where k: "UT_BENCH_TOTAL_RECORDS = Suc k" using not0_implies_Suc [of UT_BENCH_TOTAL_RECORDS] by (auto simp: UT_BENCH_TOTAL_RECORDS_def)
  show ?thesis by (simp add: hash_test_main_def ht_adding_def k one)
qed

lemma hash_test_report_witness:
  "(hash_test_main (\<lambda>n. n = 392) (\<lambda>_. 0) [] (\<lambda>_. (0, 0)) = Some (Inl (- 1)) \<and>
     (\<exists>st. ht_adds (\<lambda>n. n = 392) (\<lambda>_. 0) (\<lambda>_. (0, 0)) st \<and> (\<exists>n\<in>may_ask (ht_hash st). n \<noteq> 392))) \<and>
   (hash_test_main (\<lambda>n. n < 2 ^ 36) (\<lambda>_. 0) (1 # replicate 6 0) (\<lambda>_. (0, 0)) = Some (Inl (- 1)) \<and>
     (\<exists>st t. ht_adds (\<lambda>n. n < 2 ^ 36) (\<lambda>_. 0) (\<lambda>_. (0, 0)) st \<and> u_tbl (ht_hash st) = Some t \<and> 2 ^ 31 \<le> num_buckets t) \<or>
   (\<exists>st. hash_test_main (\<lambda>n. n < 2 ^ 36) (\<lambda>_. 0) (1 # replicate 6 0) (\<lambda>_. (0, 0)) = Some (Inr st) \<and>
     ht_out st ! 2 = ''HASH_COUNT:1001\<newline>'' \<and> card (dom (ht_recs st)) = 999999))"
proof
  show "hash_test_main (\<lambda>n. n = 392) (\<lambda>_. 0) [] (\<lambda>_. (0, 0)) = Some (Inl (- 1)) \<and>
     (\<exists>st. ht_adds (\<lambda>n. n = 392) (\<lambda>_. 0) (\<lambda>_. (0, 0)) st \<and> (\<exists>n\<in>may_ask (ht_hash st). n \<noteq> 392))"
    using hash_test_report [of "\<lambda>n. n = 392" "\<lambda>_. 0" "[]" "\<lambda>_. (0, 0)"] hash_test_no_table [of "\<lambda>_. 0" "[]" "\<lambda>_. (0, 0)"] by auto
next
  let ?r = "\<lambda>_ :: nat. 0 :: int"
  have "rand_key ?r (2 * i) = rand_key ?r 0" for i by (simp add: rand_key_def rand_record_def key_bytes_def)
  then have "rand_keys ?r = {rand_key ?r 0}" by (simp add: rand_keys_def UT_BENCH_TOTAL_RECORDS_def image_constant_conv lessThan_empty_iff)
  then have n: "card (rand_keys ?r) = 1" by simp
  have "\<exists>t. u_tbl u = Some t \<and> 2 ^ 31 \<le> num_buckets t" if "k \<in> may_ask u" "\<not> k < 2 ^ 36" for k u
    using that by (auto simp: may_ask_def word_le_def split: option.splits)
  then show "hash_test_main (\<lambda>n. n < 2 ^ 36) (\<lambda>_. 0) (1 # replicate 6 0) (\<lambda>_. (0, 0)) = Some (Inl (- 1)) \<and>
     (\<exists>st t. ht_adds (\<lambda>n. n < 2 ^ 36) (\<lambda>_. 0) (\<lambda>_. (0, 0)) st \<and> u_tbl (ht_hash st) = Some t \<and> 2 ^ 31 \<le> num_buckets t) \<or>
   (\<exists>st. hash_test_main (\<lambda>n. n < 2 ^ 36) (\<lambda>_. 0) (1 # replicate 6 0) (\<lambda>_. (0, 0)) = Some (Inr st) \<and>
     ht_out st ! 2 = ''HASH_COUNT:1001\<newline>'' \<and> card (dom (ht_recs st)) = 999999)"
    using hash_test_report [of "\<lambda>n. n < 2 ^ 36" ?r "1 # replicate 6 0" "\<lambda>_. (0, 0)"]
    by (fastforce simp: n added_report_def dec_nat.simps digit_consts)
qed

end
