(* ===== verification/Demos.thy ===== *)
theory Demos
  imports EchoServer
begin

text \<open>
  Three small programs: the tasks of uv-workqueue.c, the terminal client test-tty.c of the echo
  server, and the CMake tutorial.  libuv is modelled as in EchoServer.
\<close>

section \<open>uv-workqueue.c\<close>

definition FIB_UNTIL :: int where "FIB_UNTIL = 4"

partial_function (option) fib_rec :: "int \<Rightarrow> int option" where
  "fib_rec n = (if n = 0 then Some 0 else if n = 1 then Some 1
     else do { a \<leftarrow> fib_rec (n - 1); b \<leftarrow> fib_rec (n - 2); c_int (a + b) })"

text \<open>A task: the progress value it sends (n * 8) and the line it prints.\<close>

definition fib :: "int \<Rightarrow> (int \<times> string) option" where
  "fib n = do {
     d \<leftarrow> c_int (n * 8);
     r \<leftarrow> fib_rec n;
     Some (d, dec_int n @ ''th fibonacci is '' @ dec_int r @ ''\<newline>'') }"

definition after_fib :: "int \<Rightarrow> string" where
  "after_fib n = ''Done calculating '' @ dec_int n @ ''th fibonacci\<newline>''"

definition print_progress :: "int \<Rightarrow> string" where
  "print_progress d = ''got data:'' @ dec_int d @ ''\<newline>''"

text \<open>The tasks that main queues, in order.\<close>

definition fib_tasks :: "int list" where
  "fib_tasks = [0..FIB_UNTIL - 1]"

fun fib_pair :: "nat \<Rightarrow> int \<times> int" where
  "fib_pair 0 = (0, 1)"
| "fib_pair (Suc n) = (case fib_pair n of (a, b) \<Rightarrow> (b, a + b))"

lemma fib_pair_step: "fst (fib_pair (Suc n)) = snd (fib_pair n)" "snd (fib_pair (Suc n)) = fst (fib_pair n) + snd (fib_pair n)"
  by (simp_all split: prod.splits)

lemma fib_pair_nonneg: "0 \<le> fst (fib_pair n) \<and> 0 \<le> snd (fib_pair n)"
  by (induction n) (simp_all add: fib_pair_step del: fib_pair.simps(2))

lemma fib_pair_mono: "m \<le> n \<Longrightarrow> snd (fib_pair m) \<le> snd (fib_pair n)"
  by (induction n) (use fib_pair_nonneg in \<open>auto simp: le_Suc_eq fib_pair_step simp del: fib_pair.simps(2) intro: order_trans add_increasing\<close>)

lemma fib_pair_45: "snd (fib_pair 45) = 1836311903" "snd (fib_pair 46) = 2971215073"
  by (simp_all add: numeral_eq_Suc)

lemma fib_int:
  assumes "n \<le> 46"
  shows "fib_rec (int n) = Some (fst (fib_pair n))"
  using assms
proof (induction n rule: less_induct)
  case (less n)
  consider "n = 0" | "n = 1" | k where "n = Suc (Suc k)" by (metis One_nat_def old.nat.exhaust)
  then show ?case
  proof cases
    case 3
    have "fib_rec (int n - 1) = Some (fst (fib_pair (Suc k)))" "fib_rec (int n - 2) = Some (fst (fib_pair k))"
      using less.IH [of "Suc k"] less.IH [of k] less.prems 3 by (simp_all del: fib_pair.simps)
    moreover have "snd (fib_pair (Suc k)) \<le> 1836311903" using fib_pair_mono [of "Suc k" 45] less.prems 3 fib_pair_45 by simp
    ultimately show ?thesis using 3
      by (subst fib_rec.simps) (simp add: fib_pair_step c_int_def is_int_def INT_MAX_def INT_MIN_def add.commute fib_pair_nonneg order_trans [of "- 2147483648" 0] del: fib_pair.simps(2))
  qed (subst fib_rec.simps, simp)+
qed

lemma fib_nonneg:
  assumes "fib_rec n = Some y"
  shows "0 \<le> n"
proof (rule fib_rec.raw_induct [where P = "\<lambda>n y. 0 \<le> n", OF _ assms])
  fix f and n y :: int
  assume IH: "\<And>n y. f n = Some y \<Longrightarrow> 0 \<le> n"
    and run: "(if n = 0 then Some 0 else if n = 1 then Some 1 else do { a \<leftarrow> f (n - 1); b \<leftarrow> f (n - 2); c_int (a + b) }) = Some y"
  show "0 \<le> n"
  proof (cases "n = 0 \<or> n = 1")
    case False
    then obtain a where "f (n - 1) = Some a" using run by (auto simp: bind_Some_iff)
    from IH [OF this] show ?thesis by simp
  qed auto
qed

text \<open>Above 46 a sum overflows int, and a recursion from a negative number never ends.\<close>

lemma fib_defined: "(\<exists>y. fib_rec n = Some y) \<longleftrightarrow> 0 \<le> n \<and> n \<le> 46"
proof
  assume n: "0 \<le> n \<and> n \<le> 46"
  then have "fib_rec (int (nat n)) = Some (fst (fib_pair (nat n)))" by (intro fib_int) auto
  then show "\<exists>y. fib_rec n = Some y" using n by simp
next
  assume y: "\<exists>y. fib_rec n = Some y"
  then have pos: "0 \<le> n" using fib_nonneg by blast
  have big: "fib_rec (int (47 + k)) = None" for k
  proof (induction k)
    case 0
    have "fib_rec 46 = Some (fst (fib_pair 46))" "fib_rec 45 = Some (fst (fib_pair 45))"
      using fib_int [of 46] fib_int [of 45] by (simp_all del: fib_pair.simps)
    moreover have "fst (fib_pair 46) + fst (fib_pair 45) = 2971215073"
      using fib_pair_step [of 45] fib_pair_45 by simp
    ultimately show ?case
      by (subst fib_rec.simps) (simp add: c_int_def is_int_def INT_MAX_def)
  next
    case (Suc k)
    then show ?case by (subst fib_rec.simps) simp
  qed
  have "n < 47"
  proof (rule ccontr)
    assume "\<not> n < 47"
    then have "fib_rec n = None" using big [of "nat (n - 47)"] by simp
    then show False using y by simp
  qed
  then show "0 \<le> n \<and> n \<le> 46" using pos by simp
qed

lemma fib_tasks_run: "\<forall>n\<in>set fib_tasks. fib n \<noteq> None"
proof
  fix n
  assume "n \<in> set fib_tasks"
  then have n: "0 \<le> n" "n \<le> 3" by (auto simp: fib_tasks_def FIB_UNTIL_def)
  then obtain y where "fib_rec n = Some y" using fib_defined [of n] by auto
  then show "fib n \<noteq> None" using n by (simp add: fib_def c_int_def is_int_def INT_MAX_def INT_MIN_def)
qed

section \<open>test-tty.c\<close>

text \<open>
  What is typed is sent to the echo server, what comes back is printed.  A negative nread becomes
  a length beyond the buffer; r is what uv-write says.
\<close>

definition tty_alloc_cb :: "(uv_size \<Rightarrow> bool) \<Rightarrow> byte list \<Rightarrow> uv_state \<Rightarrow> addr option \<times> uv_state" where
  "tty_alloc_cb A junk s = uv_malloc A (Sizeof_buffer (length junk)) (Read_buffer junk) s"

definition tty_recv_cb :: "(uv_size \<Rightarrow> bool) \<Rightarrow> int \<Rightarrow> addr \<Rightarrow> int \<Rightarrow> addr option \<Rightarrow> uv_state \<Rightarrow> uv_state option" where
  "tty_recv_cb A r client nread base s = do {
     b \<leftarrow> base;
     buf \<leftarrow> (case mem s b of Some (Read_buffer buf) \<Rightarrow> Some buf | _ \<Rightarrow> None);
     if nread < 0 then None
     else (case uv_malloc A Sizeof_write_req (Write_req b nread) s of
        (None, s1) \<Rightarrow> None
      | (Some wr, s1) \<Rightarrow> Some (uv_write r wr client (take (nat nread) buf) s1)) }"

definition tty_write_cb :: "addr \<Rightarrow> int \<Rightarrow> uv_state \<Rightarrow> uv_state option" where
  "tty_write_cb req status s = uv_free (Some req) s"

text \<open>
  The bytes are copied to an array of 128, which must also hold a terminator; what is printed is
  the buffer itself, up to its first zero.
\<close>

definition tcp_read_cb :: "addr \<Rightarrow> int \<Rightarrow> addr option \<Rightarrow> uv_state \<Rightarrow> ((byte list \<times> int) option \<times> uv_state) option" where
  "tcp_read_cb handle nread base s =
     (if 0 \<le> nread then do {
        b \<leftarrow> base;
        buf \<leftarrow> (case mem s b of Some (Read_buffer buf) \<Rightarrow> Some buf | _ \<Rightarrow> None);
        if 128 \<le> nread then None
        else do {
          t \<leftarrow> c_str buf;
          s1 \<leftarrow> uv_free base s;
          Some (Some (t, nread), s1) } }
      else do { s1 \<leftarrow> uv_close handle True s; Some (None, s1) })"

text \<open>Reading starts whatever the status of the connection is; on a handle that is not connected that fails.\<close>

definition connect_cb :: "addr \<Rightarrow> int \<Rightarrow> uv_state \<Rightarrow> uv_state" where
  "connect_cb client status s = (if status = 0 then s\<lparr>reading := reading s @ [client]\<rparr> else s)"

lemma tcp_read_long: "128 \<le> nread \<Longrightarrow> tcp_read_cb h nread base s = None"
  by (cases base) (auto simp: tcp_read_cb_def split: option.splits uv_block.splits)

text \<open>The buffer of a line that was sent is never freed: its request is the last that points to it.\<close>

lemma tty_line_leaks:
  assumes "mem s b = Some (Read_buffer buf)" "tty_recv_cb A 0 h n (Some b) s = Some s1" "mem s (uv_brk s) = None"
  shows "\<exists>s2. tty_write_cb (uv_brk s) 0 s1 = Some s2 \<and> mem s2 = mem s"
  using assms
  by (auto simp: tty_recv_cb_def uv_malloc_def uv_write_def tty_write_cb_def uv_free_def fun_upd_idem split: if_splits)

section \<open>The CMake tutorial\<close>

definition my_sqrt :: "int \<Rightarrow> int option" where
  "my_sqrt x = c_int (x * x)"

text \<open>What main prints in the build with the library; the version comes from the build.\<close>

definition tutorial_main :: "int \<Rightarrow> int \<Rightarrow> string list option" where
  "tutorial_main major minor = do {
     r \<leftarrow> my_sqrt 9;
     Some [''Release version: '' @ dec_int major @ ''.'' @ dec_int minor @ '' \<newline>'', ''If this work\<newline>'',
       ''Printf is available\<newline>'', ''MY SQRT:9 = '' @ dec_int r] }"

lemma my_sqrt_squares: "my_sqrt 9 = Some 81" "x \<noteq> 0 \<Longrightarrow> x \<noteq> 1 \<Longrightarrow> my_sqrt x = Some y \<Longrightarrow> y * y \<noteq> x"
proof -
  show "my_sqrt 9 = Some 81" by (simp add: my_sqrt_def c_int_def is_int_def INT_MAX_def INT_MIN_def)
  assume x: "x \<noteq> 0" "x \<noteq> 1" and y: "my_sqrt x = Some y"
  then have "y = x * x" by (simp add: my_sqrt_def c_int_def split: if_splits)
  moreover have "x * x * (x * x) \<noteq> x"
  proof
    assume "x * x * (x * x) = x"
    then have "x * (x * x * x - 1) = 0" by (simp add: algebra_simps)
    then have "x * (x * x) = 1" using x(1) by (simp add: algebra_simps)
    then have "x = 1 \<or> x = - 1" using zmult_eq_1_iff by blast
    then show False using x(2) \<open>x * (x * x) = 1\<close> by auto
  qed
  ultimately show "y * y \<noteq> x" by simp
qed

end
