(* ===== verification/TokenTable.thy ===== *)
theory TokenTable
  imports Prelude
begin

text \<open>
  The table lextable of inc/lextable.h, which the library uses to recognise the names of headers and
  methods, the strings it was generated from (inc/lextable-strings.h), and the enumeration
  lws-token-indexes of inc/libwebsockets.h that the programs see.  The header says that they have to be
  kept in sync; here the table is walked as its own comments describe, and recognises exactly
  these strings.
\<close>

section \<open>The data\<close>

text \<open>The bytes of the table, in runs of its lines that end with a state.\<close>

definition lextable_1 :: "int list" where
  "lextable_1 = [
    0x67, 0x40, 0x00, 0x70, 0x42, 0x00, 0x6F, 0x51, 0x00, 0x68, 0x5D, 0x00, 0x63, 0x66, 0x00, 0x75, 0x87, 0x00,
     0x73, 0x9D, 0x00, 0x0D, 0xD6, 0x00, 0x61, 0x2E, 0x01, 0x69, 0x6D, 0x01, 0x64, 0x16, 0x02,
     0x72, 0x1F, 0x02, 0x3A, 0x50, 0x02, 0x65, 0xDC, 0x02, 0x66, 0xF8, 0x02, 0x6C, 0x1A, 0x03,
     0x6D, 0x3D, 0x03, 0x74, 0xAC, 0x03, 0x76, 0xC7, 0x03, 0x77, 0xD4, 0x03, 0x78, 0xFB, 0x03, 0x08, 0xE5,
     0xF4, 0xA0, 0x00, 0x00, 0x6F, 0x0D, 0x00, 0x72, 0x92, 0x01, 0x61, 0xD4, 0x03, 0x75, 0xD6, 0x03, 0x08,
     0xF3, 0xF4, 0xA0, 0x00, 0x01, 0x70, 0x07, 0x00, 0x72, 0x4E, 0x00, 0x08, 0xF4, 0xE9, 0xEF, 0xEE, 0xF3,
     0xA0, 0x00, 0x02, 0x6F, 0x07, 0x00, 0x74, 0xBC, 0x00, 0x08, 0xF3, 0xF4, 0xBA, 0x00, 0x03,
     0x6F, 0x07, 0x00, 0x61, 0x72, 0x01, 0x08, 0x6E, 0x07, 0x00, 0x6F, 0x87, 0x01, 0x08, 0x6E, 0x07, 0x00,
     0x74, 0x86, 0x01, 0x08, 0xE5, 0xE3, 0xF4, 0x69, 0x07, 0x00, 0x20, 0xCC, 0x03, 0x08, 0xEF, 0xEE, 0xBA,
     0x00, 0x04, 0x70, 0x0A, 0x00, 0x73, 0x59, 0x03, 0x72, 0x91, 0x03, 0x08, 0xE7, 0xF2, 0xE1, 0xE4, 0xE5,
     0xBA, 0x00, 0x05, 0xE9, 0xE7, 0xE9, 0xEE, 0xBA, 0x00, 0x06, 0x65, 0x07, 0x00, 0x74, 0x13, 0x03, 0x08,
     0x63, 0x0A, 0x00, 0x72, 0xFC, 0x02, 0x74, 0xFF, 0x02, 0x08, 0xAD, 0xF7, 0xE5, 0xE2, 0xF3, 0xEF, 0xE3,
     0xEB, 0xE5, 0xF4, 0xAD, 0x64, 0x19, 0x00, 0x65, 0x20, 0x00, 0x6B, 0x29, 0x00, 0x70, 0x38, 0x00,
     0x61, 0x3F, 0x00, 0x6E, 0x44, 0x00, 0x76, 0x86, 0x01, 0x6F, 0x8C, 0x01, 0x08, 0xF2, 0xE1, 0xE6, 0xF4,
     0xBA, 0x00, 0x07, 0x8A, 0x00, 0x08, 0xF8, 0xF4, 0xE5, 0xEE, 0xF3, 0xE9, 0xEF, 0xEE, 0xF3, 0xBA,
     0x00, 0x09, 0xE5, 0xF9, 0x31, 0x0A, 0x00, 0x32, 0x0A, 0x00, 0x3A, 0x5F, 0x01, 0x08, 0xBA, 0x00, 0x0A]"

definition lextable_2 :: "int list" where
  "lextable_2 = [
    0xBA, 0x00, 0x0B, 0xF2, 0xEF, 0xF4, 0xEF, 0xE3, 0xEF, 0xEC, 0xBA, 0x00, 0x0C, 0xE3, 0xE3, 0xE5, 0xF0, 0xF4,
     0xBA, 0x00, 0x0D, 0xEF, 0xEE, 0xE3, 0xE5, 0xBA, 0x00, 0x0E, 0xF4, 0xF0, 0x2F, 0x07, 0x00,
     0x32, 0x10, 0x00, 0x08, 0xB1, 0xAE, 0x31, 0x07, 0x00, 0x30, 0x15, 0x03, 0x08, 0xA0, 0x00, 0x0F, 0xAD,
     0xF3, 0xE5, 0xF4, 0xF4, 0xE9, 0xEE, 0xE7, 0xF3, 0xBA, 0x00, 0x10, 0x63, 0x0D, 0x00, 0x75, 0xAC, 0x00,
     0x67, 0x7D, 0x01, 0x6C, 0x7E, 0x01, 0x08, 0xE3, 0xE5, 0x70, 0x07, 0x00, 0x73, 0x0E, 0x00, 0x08, 0xF4,
     0x3A, 0x07, 0x00, 0x2D, 0x59, 0x00, 0x08, 0x00, 0x11, 0xF3, 0xAD, 0xE3, 0xEF, 0xEE, 0xF4, 0xF2, 0xEF,
     0xEC, 0xAD, 0x72, 0x07, 0x00, 0x61, 0x48, 0x01, 0x08, 0xE5, 0xF1, 0xF5, 0xE5, 0xF3, 0xF4, 0xAD, 0xE8,
     0xE5, 0xE1, 0xE4, 0xE5, 0xF2, 0xF3, 0xBA, 0x00, 0x12, 0xE6, 0xAD, 0x6D, 0x0D, 0x00, 0x6E, 0x20, 0x00,
     0x72, 0x9E, 0x01, 0x75, 0xA2, 0x01, 0x08, 0x6F, 0x07, 0x00, 0x61, 0x8E, 0x01, 0x08, 0xE4, 0xE9, 0xE6,
     0xE9, 0xE5, 0xE4, 0xAD, 0xF3, 0xE9, 0xEE, 0xE3, 0xE5, 0xBA, 0x00, 0x13, 0xEF, 0xEE, 0xE5, 0xAD, 0xED,
     0xE1, 0xF4, 0xE3, 0xE8, 0xBA, 0x00, 0x14, 0x65, 0x0D, 0x00, 0x6C, 0x14, 0x00, 0x63, 0xEB, 0x00,
     0x72, 0xF1, 0x00, 0x08, 0xEE, 0xE3, 0xEF, 0xE4, 0xE9, 0xEE, 0xE7, 0xBA, 0x00, 0x15, 0xE1, 0xEE, 0xE7,
     0xF5, 0xE1, 0xE7, 0xE5, 0xBA, 0x00, 0x16]"

definition lextable_3 :: "int list" where
  "lextable_3 = [
    0x61, 0x07, 0x00, 0x6F, 0x9E, 0x01, 0x08, 0xE7, 0xED, 0xE1, 0xBA, 0x00, 0x17, 0xE3, 0xE8, 0xE5, 0xAD, 0xE3,
     0xEF, 0xEE, 0xF4, 0xF2, 0xEF, 0xEC, 0xBA, 0x00, 0x18, 0xF4, 0xE8, 0xEF, 0xF2, 0xE9, 0xFA, 0xE1, 0xF4,
     0xE9, 0xEF, 0xEE, 0xBA, 0x00, 0x19, 0xEB, 0xE9, 0xE5, 0xBA, 0x00, 0x1A, 0xE5, 0xEE, 0xF4, 0xAD,
     0x6C, 0x10, 0x00, 0x74, 0x1E, 0x00, 0x64, 0xC0, 0x00, 0x65, 0xCA, 0x00, 0x72, 0xE3, 0x00, 0x08,
     0x65, 0x0A, 0x00, 0x61, 0xCA, 0x00, 0x6F, 0xD0, 0x00, 0x08, 0xEE, 0xE7, 0xF4, 0xE8, 0xBA, 0x00, 0x1B,
     0xF9, 0xF0, 0xE5, 0xBA, 0x00, 0x1C, 0x61, 0x07, 0x00, 0x65, 0xF0, 0x01, 0x08, 0xF4, 0xE5, 0xBA,
     0x00, 0x1D, 0x61, 0x07, 0x00, 0x65, 0x0A, 0x00, 0x08, 0xEE, 0xE7, 0xE5, 0xBA, 0x00, 0x1E,
     0x66, 0x07, 0x00, 0x74, 0x5A, 0x01, 0x08, 0x65, 0x07, 0x00, 0x72, 0x4D, 0x01, 0x08, 0xF2, 0xE5, 0xF2,
     0xBA, 0x00, 0x1F, 0x00, 0x20, 0xE5, 0xF2, 0xF3, 0xE9, 0xEF, 0xEE, 0xBA, 0x00, 0x21, 0xF2, 0xE9, 0xE7,
     0xE9, 0xEE, 0xBA, 0x00, 0x22, 0x61, 0x0D, 0x00, 0x6D, 0x14, 0x00, 0x70, 0x18, 0x00, 0x73, 0x1A, 0x00,
     0x08, 0xF5, 0xF4, 0xE8, 0xEF, 0xF2, 0xE9, 0xF4, 0xF9, 0x00, 0x23, 0xE5, 0xF4, 0xE8, 0xEF, 0xE4,
     0x00, 0x24, 0xE1, 0xF4, 0xE8, 0x00, 0x25, 0x63, 0x07, 0x00, 0x74, 0x0A, 0x00, 0x08, 0xE8, 0xE5, 0xED,
     0xE5, 0x00, 0x26, 0xE1, 0xF4, 0xF5, 0xF3, 0x00, 0x27]"

definition lextable_4 :: "int list" where
  "lextable_4 = [
    0xE8, 0xE1, 0xF2, 0xF3, 0xE5, 0xF4, 0xBA, 0x00, 0x28, 0xE1, 0xEE, 0xE7, 0xE5, 0xF3, 0xBA, 0x00, 0x29, 0xEC,
     0xEC, 0xEF, 0xF7, 0xAD, 0xEF, 0xF2, 0xE9, 0xE7, 0xE9, 0xEE, 0xBA, 0x00, 0x2A, 0xE5, 0xBA, 0x00, 0x2B,
     0xEC, 0xEF, 0xF7, 0xBA, 0x00, 0x2C, 0xE9, 0xF3, 0xF0, 0xEF, 0xF3, 0xE9, 0xF4, 0xE9, 0xEF, 0xEE, 0xBA,
     0x00, 0x2D, 0xEE, 0xE3, 0xEF, 0xE4, 0xE9, 0xEE, 0xE7, 0xBA, 0x00, 0x2E, 0xEE, 0xE7, 0xF5, 0xE1, 0xE7,
     0xE5, 0xBA, 0x00, 0x2F, 0xE3, 0xE1, 0xF4, 0xE9, 0xEF, 0xEE, 0xBA, 0x00, 0x30, 0xE1, 0xEE, 0xE7, 0xE5,
     0xBA, 0x00, 0x31, 0x74, 0x07, 0x00, 0x78, 0x09, 0x00, 0x08, 0xE1, 0xE7, 0xBA, 0x00, 0x32, 0xF0,
     0x65, 0x07, 0x00, 0x69, 0x09, 0x00, 0x08, 0xE3, 0xF4, 0xBA, 0x00, 0x33, 0xF2, 0xE5, 0xF3, 0xBA,
     0x00, 0x34, 0xF2, 0xEF, 0xED, 0xBA, 0x00, 0x35, 0xF4, 0xE3, 0xE8, 0xBA, 0x00, 0x36, 0xE1, 0xEE, 0xE7,
     0xE5, 0xBA, 0x00, 0x37, 0xEE, 0xED, 0xEF, 0xE4, 0xE9, 0xE6, 0xE9, 0xE5, 0xE4, 0xAD, 0xF3, 0xE9, 0xEE,
     0xE3, 0xE5, 0xBA, 0x00, 0x38, 0x61, 0x0A, 0x00, 0x69, 0x15, 0x00, 0x6F, 0x17, 0x00, 0x08, 0xF3, 0xF4,
     0xAD, 0xED, 0xEF, 0xE4, 0xE9, 0xE6, 0xE9, 0xE5, 0xE4, 0xBA, 0x00, 0x39]"

definition lextable_5 :: "int list" where
  "lextable_5 = [
    0xEE, 0xEB, 0xBA, 0x00, 0x3A, 0xE3, 0xE1, 0xF4, 0xE9, 0xEF, 0xEE, 0xBA, 0x00, 0x3B, 0xE1, 0xF8, 0xAD, 0xE6,
     0xEF, 0xF2, 0xF7, 0xE1, 0xF2, 0xE4, 0xF3, 0xBA, 0x00, 0x3C, 0xF8, 0xF9, 0x2D, 0x07, 0x00,
     0x20, 0xB5, 0x00, 0x08, 0xE1, 0xF5, 0xF4, 0xE8, 0x65, 0x07, 0x00, 0x6F, 0x0E, 0x00, 0x08, 0xEE, 0xF4,
     0xE9, 0xE3, 0xE1, 0xF4, 0xE5, 0xBA, 0x00, 0x3D, 0xF2, 0xE9, 0xFA, 0xE1, 0xF4, 0xE9, 0xEF, 0xEE, 0xBA,
     0x00, 0x3E, 0xE5, 0xF3, 0xE8, 0xBA, 0x00, 0x3F, 0xF2, 0xF9, 0xAD, 0xE1, 0xE6, 0xF4, 0xE5, 0xF2, 0xBA,
     0x00, 0x40, 0xF6, 0xE5, 0xF2, 0xBA, 0x00, 0x41, 0xAD, 0xE3, 0xEF, 0xEF, 0xEB, 0xE9, 0xE5, 0xBA,
     0x00, 0x42, 0xF2, 0xE9, 0xE3, 0xF4, 0xAD, 0xF4, 0xF2, 0xE1, 0xEE, 0xF3, 0xF0, 0xEF, 0xF2, 0xF4, 0xAD,
     0xF3, 0xE5, 0xE3, 0xF5, 0xF2, 0xE9, 0xF4, 0xF9, 0xBA, 0x00, 0x43, 0xF2, 0xE1, 0xEE, 0xF3, 0xE6, 0xE5,
     0xF2, 0xAD, 0xE5, 0xEE, 0xE3, 0xEF, 0xE4, 0xE9, 0xEE, 0xE7, 0xBA, 0x00, 0x44, 0xE5, 0xF2, 0xAD, 0xE1,
     0xE7, 0xE5, 0xEE, 0xF4, 0xBA, 0x00, 0x45, 0x61, 0x07, 0x00, 0x69, 0x09, 0x00, 0x08]"

definition lextable_6 :: "int list" where
  "lextable_6 = [
    0xF2, 0xF9, 0xBA, 0x00, 0x46, 0xE1, 0xBA, 0x00, 0x47, 0xF7, 0xF7, 0xAD, 0xE1, 0xF5, 0xF4, 0xE8, 0xE5, 0xEE,
     0xF4, 0xE9, 0xE3, 0xE1, 0xF4, 0xE5, 0xBA, 0x00, 0x48, 0xF4, 0xE3, 0xE8, 0x00, 0x49, 0xF4, 0x00, 0x4A,
     0xEC, 0xE5, 0xF4, 0xE5, 0x00, 0x4B, 0xE9, 0xAD, 0xE1, 0xF2, 0xE7, 0xF3, 0x00, 0x4C, 0x00, 0x4D, 0xAD,
     0x72, 0x07, 0x00, 0x66, 0x10, 0x00, 0x08, 0xE5, 0xE1, 0xEC, 0xAD, 0xE9, 0xF0, 0xBA, 0x00, 0x4E, 0xA0,
     0x00, 0x4F, 0xEF, 0xF2, 0xF7, 0xE1, 0xF2, 0xE4, 0xE5, 0xE4, 0xAD, 0xE6, 0xEF, 0xF2, 0x00, 0x50, 0x00, 0x51]"

definition lextable :: "int list" where
  "lextable = lextable_1 @ lextable_2 @ lextable_3 @ lextable_4 @ lextable_5 @ lextable_6"

text \<open>The strings, the last of which is not matchable, and the tokens that have numbers.\<close>

definition lextable_strings :: "string list" where
  "lextable_strings = [
    ''get '', ''post '', ''options '', ''host:'', ''connection:'', ''upgrade:'', ''origin:'',
     ''sec-websocket-draft:'', [CHR 0x0D, CHR 0x0A], ''sec-websocket-extensions:'', ''sec-websocket-key1:'',
     ''sec-websocket-key2:'', ''sec-websocket-protocol:'', ''sec-websocket-accept:'', ''sec-websocket-nonce:'',
     ''http/1.1 '', ''http2-settings:'', ''accept:'', ''access-control-request-headers:'',
     ''if-modified-since:'', ''if-none-match:'', ''accept-encoding:'', ''accept-language:'', ''pragma:'',
     ''cache-control:'', ''authorization:'', ''cookie:'', ''content-length:'', ''content-type:'', ''date:'',
     ''range:'', ''referer:'', ''sec-websocket-key:'', ''sec-websocket-version:'', ''sec-websocket-origin:'',
     '':authority'', '':method'', '':path'', '':scheme'', '':status'', ''accept-charset:'', ''accept-ranges:'',
     ''access-control-allow-origin:'', ''age:'', ''allow:'', ''content-disposition:'', ''content-encoding:'',
     ''content-language:'', ''content-location:'', ''content-range:'', ''etag:'', ''expect:'', ''expires:'',
     ''from:'', ''if-match:'', ''if-range:'', ''if-unmodified-since:'', ''last-modified:'', ''link:'',
     ''location:'', ''max-forwards:'', ''proxy-authenticate:'', ''proxy-authorization:'', ''refresh:'',
     ''retry-after:'', ''server:'', ''set-cookie:'', ''strict-transport-security:'', ''transfer-encoding:'',
     ''user-agent:'', ''vary:'', ''via:'', ''www-authenticate:'', ''patch'', ''put'', ''delete'', ''uri-args'',
     ''proxy '', ''x-real-ip:'', ''http/1.0 '', ''x-forwarded-for'', ''connect '', '''']"

definition lws_token_indexes :: "(string \<times> int) list" where
  "lws_token_indexes = [
    (''WSI_TOKEN_GET_URI'', 0), (''WSI_TOKEN_POST_URI'', 1), (''WSI_TOKEN_OPTIONS_URI'', 2),
     (''WSI_TOKEN_HOST'', 3), (''WSI_TOKEN_CONNECTION'', 4), (''WSI_TOKEN_UPGRADE'', 5),
     (''WSI_TOKEN_ORIGIN'', 6), (''WSI_TOKEN_DRAFT'', 7), (''WSI_TOKEN_CHALLENGE'', 8),
     (''WSI_TOKEN_EXTENSIONS'', 9), (''WSI_TOKEN_KEY1'', 10), (''WSI_TOKEN_KEY2'', 11),
     (''WSI_TOKEN_PROTOCOL'', 12), (''WSI_TOKEN_ACCEPT'', 13), (''WSI_TOKEN_NONCE'', 14),
     (''WSI_TOKEN_HTTP'', 15), (''WSI_TOKEN_HTTP2_SETTINGS'', 16), (''WSI_TOKEN_HTTP_ACCEPT'', 17),
     (''WSI_TOKEN_HTTP_AC_REQUEST_HEADERS'', 18), (''WSI_TOKEN_HTTP_IF_MODIFIED_SINCE'', 19),
     (''WSI_TOKEN_HTTP_IF_NONE_MATCH'', 20), (''WSI_TOKEN_HTTP_ACCEPT_ENCODING'', 21),
     (''WSI_TOKEN_HTTP_ACCEPT_LANGUAGE'', 22), (''WSI_TOKEN_HTTP_PRAGMA'', 23),
     (''WSI_TOKEN_HTTP_CACHE_CONTROL'', 24), (''WSI_TOKEN_HTTP_AUTHORIZATION'', 25),
     (''WSI_TOKEN_HTTP_COOKIE'', 26), (''WSI_TOKEN_HTTP_CONTENT_LENGTH'', 27),
     (''WSI_TOKEN_HTTP_CONTENT_TYPE'', 28), (''WSI_TOKEN_HTTP_DATE'', 29), (''WSI_TOKEN_HTTP_RANGE'', 30),
     (''WSI_TOKEN_HTTP_REFERER'', 31), (''WSI_TOKEN_KEY'', 32), (''WSI_TOKEN_VERSION'', 33),
     (''WSI_TOKEN_SWORIGIN'', 34), (''WSI_TOKEN_HTTP_COLON_AUTHORITY'', 35),
     (''WSI_TOKEN_HTTP_COLON_METHOD'', 36), (''WSI_TOKEN_HTTP_COLON_PATH'', 37),
     (''WSI_TOKEN_HTTP_COLON_SCHEME'', 38), (''WSI_TOKEN_HTTP_COLON_STATUS'', 39),
     (''WSI_TOKEN_HTTP_ACCEPT_CHARSET'', 40), (''WSI_TOKEN_HTTP_ACCEPT_RANGES'', 41),
     (''WSI_TOKEN_HTTP_ACCESS_CONTROL_ALLOW_ORIGIN'', 42), (''WSI_TOKEN_HTTP_AGE'', 43),
     (''WSI_TOKEN_HTTP_ALLOW'', 44), (''WSI_TOKEN_HTTP_CONTENT_DISPOSITION'', 45),
     (''WSI_TOKEN_HTTP_CONTENT_ENCODING'', 46), (''WSI_TOKEN_HTTP_CONTENT_LANGUAGE'', 47),
     (''WSI_TOKEN_HTTP_CONTENT_LOCATION'', 48), (''WSI_TOKEN_HTTP_CONTENT_RANGE'', 49),
     (''WSI_TOKEN_HTTP_ETAG'', 50), (''WSI_TOKEN_HTTP_EXPECT'', 51), (''WSI_TOKEN_HTTP_EXPIRES'', 52),
     (''WSI_TOKEN_HTTP_FROM'', 53), (''WSI_TOKEN_HTTP_IF_MATCH'', 54), (''WSI_TOKEN_HTTP_IF_RANGE'', 55),
     (''WSI_TOKEN_HTTP_IF_UNMODIFIED_SINCE'', 56), (''WSI_TOKEN_HTTP_LAST_MODIFIED'', 57),
     (''WSI_TOKEN_HTTP_LINK'', 58), (''WSI_TOKEN_HTTP_LOCATION'', 59), (''WSI_TOKEN_HTTP_MAX_FORWARDS'', 60),
     (''WSI_TOKEN_HTTP_PROXY_AUTHENTICATE'', 61), (''WSI_TOKEN_HTTP_PROXY_AUTHORIZATION'', 62),
     (''WSI_TOKEN_HTTP_REFRESH'', 63), (''WSI_TOKEN_HTTP_RETRY_AFTER'', 64), (''WSI_TOKEN_HTTP_SERVER'', 65),
     (''WSI_TOKEN_HTTP_SET_COOKIE'', 66), (''WSI_TOKEN_HTTP_STRICT_TRANSPORT_SECURITY'', 67),
     (''WSI_TOKEN_HTTP_TRANSFER_ENCODING'', 68), (''WSI_TOKEN_HTTP_USER_AGENT'', 69),
     (''WSI_TOKEN_HTTP_VARY'', 70), (''WSI_TOKEN_HTTP_VIA'', 71), (''WSI_TOKEN_HTTP_WWW_AUTHENTICATE'', 72),
     (''WSI_TOKEN_PATCH_URI'', 73), (''WSI_TOKEN_PUT_URI'', 74), (''WSI_TOKEN_DELETE_URI'', 75),
     (''WSI_TOKEN_HTTP_URI_ARGS'', 76), (''WSI_TOKEN_PROXY'', 77), (''WSI_TOKEN_HTTP_X_REAL_IP'', 78),
     (''WSI_TOKEN_HTTP1_0'', 79), (''WSI_TOKEN_X_FORWARDED_FOR'', 80), (''WSI_TOKEN_CONNECT'', 81)]"

text \<open>
  The enumeration goes on without numbers: seven places where the library keeps texts of its own, the count, and
  five states of its parser.
\<close>

definition lws_token_indexes_rest :: "(string \<times> int) list" where
  "lws_token_indexes_rest = zip
    [''_WSI_TOKEN_CLIENT_SENT_PROTOCOLS'', ''_WSI_TOKEN_CLIENT_PEER_ADDRESS'', ''_WSI_TOKEN_CLIENT_URI'',
     ''_WSI_TOKEN_CLIENT_HOST'', ''_WSI_TOKEN_CLIENT_ORIGIN'', ''_WSI_TOKEN_CLIENT_METHOD'', ''_WSI_TOKEN_CLIENT_IFACE'',
     ''WSI_TOKEN_COUNT'', ''WSI_TOKEN_NAME_PART'', ''WSI_TOKEN_SKIPPING'', ''WSI_TOKEN_SKIPPING_SAW_CR'',
     ''WSI_PARSING_COMPLETE'', ''WSI_INIT_TOKEN_MUXURL'']
    (map (\<lambda>i. snd (last lws_token_indexes) + 1 + int i) [0..<13])"

section \<open>Walking over the table\<close>

text \<open>
  What the comments say of a state's entries.  A byte with its top bit set is a character that
  leads to the next position; three bytes are a character and the distance to the state it leads to,
  low byte first, and the next entry follows them; 8 is failure; a smaller byte and the one
  after it are the number of the token recognised.  Positions are distances into the table: c is
  looked for in the entries from some position on, and the result is how far the new state is from it.
\<close>

fun lex_from :: "int \<Rightarrow> int list \<Rightarrow> int option" where
  "lex_from c [] = None"
| "lex_from c (b # t) =
     (if 128 \<le> b then (if b - 128 = c then Some 1 else None)
      else if b \<le> 8 then None
      else if b = c then (case t of lo # hi # _ \<Rightarrow> Some (lo + 256 * hi) | _ \<Rightarrow> None)
      else (case t of _ # _ # t' \<Rightarrow> map_option (\<lambda>d. d + 3) (lex_from c t') | _ \<Rightarrow> None))"

definition lex_step :: "int \<Rightarrow> int \<Rightarrow> int option" where
  "lex_step pos c = map_option (\<lambda>d. pos + d) (lex_from c (drop (nat pos) lextable))"

definition lex_token :: "int \<Rightarrow> int option" where
  "lex_token pos = (case drop (nat pos) lextable of b # k # _ \<Rightarrow> if b < 8 then Some (b * 256 + k) else None | _ \<Rightarrow> None)"

fun lex_walk :: "int \<Rightarrow> int list \<Rightarrow> int option" where
  "lex_walk pos [] = lex_token pos"
| "lex_walk pos (c # cs) = do { pos' \<leftarrow> lex_step pos c; lex_walk pos' cs }"

definition chars_of :: "string \<Rightarrow> int list" where
  "chars_of s = map of_char s"

definition token_of :: "string \<Rightarrow> int option" where
  "token_of s = lex_walk 0 (chars_of s)"

section \<open>All the words of the table\<close>

text \<open>
  One pass over the table collects its words.  States are reached before they are read: pending holds,
  for positions further on, the word that leads there (backwards); cur is the word of the state
  that is being read and the characters its entries have taken so far; out is what was recognised.
\<close>

fun take_out :: "int \<Rightarrow> (int \<times> 'a list) list \<Rightarrow> ('a list \<times> (int \<times> 'a list) list) option" where
  "take_out p [] = None"
| "take_out p ((q, u) # P) = (if p = q then Some (u, P) else map_option (\<lambda>(v, P'). (v, (q, u) # P')) (take_out p P))"

type_synonym lex_pending = "(int \<times> int list) list"
type_synonym lex_found = "(int list \<times> int) list"

fun lex_read :: "int \<Rightarrow> int list \<times> int list \<Rightarrow> lex_pending \<Rightarrow> lex_found \<Rightarrow> int list \<Rightarrow> (int \<times> lex_pending \<times> lex_found \<times> int list) option" where
  "lex_read pos (u, seen) P out [] = None"
| "lex_read pos (u, seen) P out (b # t) =
     (if 128 \<le> b then (if List.member seen (b - 128) then None else lex_read (pos + 1) ((b - 128) # u, []) P out t)
      else if b = 8 then Some (pos + 1, P, out, t)
      else if b < 8 then (case t of [] \<Rightarrow> None | k # t' \<Rightarrow> if seen = [] then Some (pos + 2, P, (u, b * 256 + k) # out, t') else None)
      else (case t of lo # hi # t' \<Rightarrow>
          if List.member seen b then None else lex_read (pos + 3) (u, b # seen) ((pos + (lo + 256 * hi), b # u) # P) out t'
        | _ \<Rightarrow> None))"

text \<open>A run of states; n bounds their number.\<close>

fun lex_run :: "nat \<Rightarrow> int \<times> lex_pending \<times> lex_found \<Rightarrow> int list \<Rightarrow> (int \<times> lex_pending \<times> lex_found) option" where
  "lex_run n (pos, P, out) [] = Some (pos, P, out)"
| "lex_run 0 (pos, P, out) (b # t) = None"
| "lex_run (Suc n) (pos, P, out) (b # t) = (case take_out pos P of None \<Rightarrow> None
     | Some (u, P') \<Rightarrow> (case lex_read pos (u, []) P' out (b # t) of None \<Rightarrow> None
        | Some (pos', P'', out', t') \<Rightarrow> lex_run n (pos', P'', out') t'))"

definition lex_runs :: "(int \<times> lex_pending \<times> lex_found) option" where
  "lex_runs = foldl (\<lambda>s t. case s of None \<Rightarrow> None | Some s \<Rightarrow> lex_run 60 s t) (Some (0, [(0, [])], []))
     [lextable_1, lextable_2, lextable_3, lextable_4, lextable_5, lextable_6]"


text \<open>The tokens in the order in which the table has them.\<close>

definition token_order :: "nat list" where
  "token_order = [0, 1, 2, 3, 4, 5, 6, 7, 8, 9, 10, 11, 12, 13, 14, 15, 16, 17, 18, 19, 20, 21, 22, 23, 24, 25, 26, 27, 28, 29, 30, 31, 32, 33, 34, 35, 36, 37, 38, 39, 40, 41, 42, 43, 44, 45, 46, 47, 48, 49, 50, 51, 52, 53, 54, 55, 56, 57, 58, 59, 60, 61, 62, 63, 64, 65, 66, 67, 68, 69, 70, 71, 72, 73, 74, 75, 76, 77, 78, 79, 80, 81]"

definition token_words :: "nat list \<Rightarrow> lex_found" where
  "token_words ks = map (\<lambda>k. (rev (chars_of (lextable_strings ! k)), int k)) ks"

lemma lex_runs: "lex_runs = Some (1115, [], token_words (rev token_order))"
  by code_simp

lemma token_order: "sort token_order = [0..<82]"
  by code_simp

end
