(* ===== verification/TokenTableOk.thy ===== *)
theory TokenTableOk
  imports TokenTable
begin

text \<open>
  What the table of header names recognises.  The words that the table still has to yield are those of
  the pending positions and of the rest of the state that is being read; every entry the pass of
  TokenTable reads leaves them, with the words found already, the same set.  The pass was evaluated
  on the table, so its result is the set of all words.
\<close>

section \<open>The pass finds what the walk finds\<close>

text \<open>The words that pending positions promise, and those of the rest of a state.\<close>

definition promised :: "lex_pending \<Rightarrow> (int list \<times> int) set" where
  "promised P = {(rev u @ w, k) | q u w k. (q, u) \<in> set P \<and> lex_walk q w = Some k}"

definition found :: "lex_found \<Rightarrow> (int list \<times> int) set" where
  "found out = {(rev u, k) | u k. (u, k) \<in> set out}"

definition rest_of_state :: "int \<Rightarrow> int list \<Rightarrow> int list \<Rightarrow> (int list \<times> int) set" where
  "rest_of_state pos u seen = {(rev u, k) | k. seen = [] \<and> lex_token pos = Some k} \<union>
     {(rev u @ c # w, k) | c w d k. c \<notin> set seen \<and> lex_from c (drop (nat pos) lextable) = Some d \<and> lex_walk (pos + d) w = Some k}"

lemma promised_simps [simp]:
  "promised [] = {}" "promised ((q, u) # P) = {(rev u @ w, k) | w k. lex_walk q w = Some k} \<union> promised P"
  by (auto simp: promised_def)

lemma found_simps [simp]: "found [] = {}" "found ((u, k) # out) = insert (rev u, k) (found out)"
  by (auto simp: found_def)

lemma walk_state: "{(rev u @ w, k) | w k. lex_walk pos w = Some k} = rest_of_state pos u []"
proof (intro set_eqI iffI)
  fix x
  assume "x \<in> {(rev u @ w, k) | w k. lex_walk pos w = Some k}"
  then obtain w k where x: "x = (rev u @ w, k)" "lex_walk pos w = Some k" by blast
  show "x \<in> rest_of_state pos u []"
  proof (cases w)
    case (Cons c cs)
    then obtain d where "lex_from c (drop (nat pos) lextable) = Some d" "lex_walk (pos + d) cs = Some k"
      using x(2) by (auto simp: lex_step_def bind_Some_iff)
    then show ?thesis using x(1) Cons by (auto simp: rest_of_state_def)
  qed (use x in \<open>simp add: rest_of_state_def\<close>)
next
  fix x
  assume "x \<in> rest_of_state pos u []"
  then consider k where "x = (rev u @ [], k)" "lex_token pos = Some k"
    | c w d k where "x = (rev u @ c # w, k)" "lex_from c (drop (nat pos) lextable) = Some d" "lex_walk (pos + d) w = Some k"
    unfolding rest_of_state_def by auto
  then show "x \<in> {(rev u @ w, k) | w k. lex_walk pos w = Some k}"
  proof cases
    case 1
    have "lex_walk pos [] = Some k" using 1(2) by simp
    then show ?thesis using 1(1) by blast
  next
    case 2
    have "lex_walk pos (c # w) = Some k" using 2(2,3) by (simp add: lex_step_def)
    then show ?thesis using 2(1) by blast
  qed
qed

lemma take_out_promised: "take_out p P = Some (u, P') \<Longrightarrow> promised P = rest_of_state p u [] \<union> promised P'"
proof (induction P arbitrary: P')
  case (Cons x P)
  obtain q v where x: "x = (q, v)" by (cases x)
  show ?case
  proof (cases "p = q")
    case True
    then show ?thesis using Cons.prems by (simp add: x walk_state [symmetric])
  next
    case False
    then obtain P2 where "take_out p P = Some (u, P2)" "P' = (q, v) # P2" using Cons.prems by (auto simp: x)
    then show ?thesis using Cons.IH [of P2] by (auto simp: x)
  qed
qed simp

text \<open>One entry: what it contributes, and that the rest of the state is that of the next entry.\<close>

lemma drop_next: "0 \<le> pos \<Longrightarrow> drop (nat pos) xs = ys @ zs \<Longrightarrow> drop (nat (pos + int (length ys))) xs = zs"
  by (metis add.commute append_eq_conv_conj drop_drop nat_add_distrib nat_int of_nat_0_le_iff)

lemma entry_char:
  assumes "drop (nat pos) lextable = b # t" "128 \<le> b" "b - 128 \<notin> set seen"
  shows "rest_of_state pos u seen = rest_of_state (pos + 1) ((b - 128) # u) []"
proof -
  have "lex_token pos = None" using assms by (cases t) (simp_all add: lex_token_def)
  moreover have "lex_from c (drop (nat pos) lextable) = Some d \<longleftrightarrow> c = b - 128 \<and> d = 1" for c d using assms by auto
  ultimately have "rest_of_state pos u seen = {(rev u @ (b - 128) # w, k) | w k. lex_walk (pos + 1) w = Some k}"
    using assms(3) by (auto simp: rest_of_state_def)
  also have "\<dots> = {(rev ((b - 128) # u) @ w, k) | w k. lex_walk (pos + 1) w = Some k}" by simp
  finally show ?thesis by (simp only: walk_state)
qed

lemma entry_fail: "drop (nat pos) lextable = 8 # t \<Longrightarrow> rest_of_state pos u seen = {}"
  by (cases t) (simp_all add: rest_of_state_def lex_token_def)

lemma entry_token:
  assumes "drop (nat pos) lextable = b # k # t" "b < 8"
  shows "rest_of_state pos u [] = {(rev u, b * 256 + k)}"
  using assms by (simp add: rest_of_state_def lex_token_def)

lemma entry_goto:
  assumes e: "drop (nat pos) lextable = b # lo # hi # t" "8 < b" "b < 128" and new: "b \<notin> set seen" and pos: "0 \<le> pos"
  shows "rest_of_state pos u seen = {(rev (b # u) @ w, k) | w k. lex_walk (pos + (lo + 256 * hi)) w = Some k} \<union>
    rest_of_state (pos + 3) u (b # seen)"
proof -
  have tok: "lex_token pos = None" using e by (simp add: lex_token_def)
  have d: "drop (nat (pos + 3)) lextable = t" using drop_next [of pos lextable "[b, lo, hi]" t] e(1) pos by simp
  have "lex_from c (drop (nat pos) lextable) = (if c = b then Some (lo + 256 * hi) else map_option (\<lambda>d. d + 3) (lex_from c t))" for c
    using e by simp
  then have look: "lex_from c (drop (nat pos) lextable) = Some d \<longleftrightarrow>
      c = b \<and> d = lo + 256 * hi \<or> c \<noteq> b \<and> (\<exists>d'. lex_from c (drop (nat (pos + 3)) lextable) = Some d' \<and> d = d' + 3)" for c d
    unfolding \<open>drop (nat (pos + 3)) lextable = t\<close> by auto
  show ?thesis
  proof (intro set_eqI iffI)
    fix x
    assume "x \<in> rest_of_state pos u seen"
    then obtain c w d k where x: "x = (rev u @ c # w, k)" "c \<notin> set seen" "lex_walk (pos + d) w = Some k"
      "c = b \<and> d = lo + 256 * hi \<or> c \<noteq> b \<and> (\<exists>d'. lex_from c (drop (nat (pos + 3)) lextable) = Some d' \<and> d = d' + 3)"
      unfolding rest_of_state_def look using tok by auto
    from x(4) show "x \<in> {(rev (b # u) @ w, k) | w k. lex_walk (pos + (lo + 256 * hi)) w = Some k} \<union> rest_of_state (pos + 3) u (b # seen)"
    proof (elim disjE conjE exE)
      assume "c = b" "d = lo + 256 * hi"
      then show ?thesis using x(1,3) by simp
    next
      fix d'
      assume "c \<noteq> b" "lex_from c (drop (nat (pos + 3)) lextable) = Some d'" "d = d' + 3"
      moreover have "lex_walk (pos + 3 + d') w = Some k" using x(3) \<open>d = d' + 3\<close> by (simp add: algebra_simps)
      ultimately have "x \<in> rest_of_state (pos + 3) u (b # seen)" using x(1,2) unfolding rest_of_state_def by fastforce
      then show ?thesis by simp
    qed
  next
    fix x
    assume "x \<in> {(rev (b # u) @ w, k) | w k. lex_walk (pos + (lo + 256 * hi)) w = Some k} \<union> rest_of_state (pos + 3) u (b # seen)"
    then consider w k where "x = (rev u @ b # w, k)" "lex_walk (pos + (lo + 256 * hi)) w = Some k"
      | c w d k where "x = (rev u @ c # w, k)" "c \<noteq> b" "c \<notin> set seen" "lex_from c (drop (nat (pos + 3)) lextable) = Some d" "lex_walk (pos + 3 + d) w = Some k"
      unfolding rest_of_state_def by auto
    then show "x \<in> rest_of_state pos u seen"
    proof cases
      case 1
      then show ?thesis unfolding rest_of_state_def look using new by auto
    next
      case 2
      have "lex_walk (pos + (d + 3)) w = Some k" using 2(5) by (simp add: algebra_simps)
      then show ?thesis unfolding rest_of_state_def look using 2(1-4) by blast
    qed
  qed
qed


text \<open>A state that is read, and a run of states, leave nothing out and add nothing.\<close>

lemma lex_read_words:
  assumes "lex_read pos (u, seen) P out t = Some (pos', P', out', t')" "0 \<le> pos" "drop (nat pos) lextable = t @ more"
  shows "0 \<le> pos' \<and> drop (nat pos') lextable = t' @ more \<and>
    rest_of_state pos u seen \<union> promised P \<union> found out = promised P' \<union> found out'"
  using assms
proof (induction t arbitrary: pos u seen P out rule: length_induct)
  case (1 t)
  note IH = 1(1) and run = 1(2) and pos = 1(3) and d = 1(4)
  obtain b t1 where t: "t = b # t1" using run by (cases t) auto
  consider "128 \<le> b" | "b = 8" | "b < 8" | "8 < b" "b < 128" by linarith
  then show ?case
  proof cases
    case char: 1
    then have n: "b - 128 \<notin> set seen" and r: "lex_read (pos + 1) ((b - 128) # u, []) P out t1 = Some (pos', P', out', t')"
      using run by (auto simp: t split: if_splits)
    have "drop (nat (pos + 1)) lextable = t1 @ more" using drop_next [of pos lextable "[b]"] d pos by (simp add: t)
    moreover have "rest_of_state pos u seen = rest_of_state (pos + 1) ((b - 128) # u) []"
      by (rule entry_char [OF _ char n]) (use d in \<open>simp add: t\<close>)
    ultimately show ?thesis using IH [rule_format, of t1 "pos + 1" "(b - 128) # u" "[]"] r pos by (simp add: t)
  next
    case 2
    then have "pos' = pos + 1 \<and> P' = P \<and> out' = out \<and> t' = t1" using run by (simp add: t)
    moreover have "rest_of_state pos u seen = {}" by (rule entry_fail) (use d 2 in \<open>simp add: t\<close>)
    ultimately show ?thesis using drop_next [of pos lextable "[b]"] d pos by (simp add: t)
  next
    case 3
    then obtain k t2 where t1: "t1 = k # t2" and s: "seen = []" and r: "pos' = pos + 2 \<and> P' = P \<and> out' = (u, b * 256 + k) # out \<and> t' = t2"
      using run by (auto simp: t split: list.splits if_splits)
    have "rest_of_state pos u [] = {(rev u, b * 256 + k)}" by (rule entry_token) (use d 3 in \<open>simp_all add: t t1\<close>)
    then show ?thesis using drop_next [of pos lextable "[b, k]"] d pos r by (auto simp: t t1 s)
  next
    case 4
    then obtain lo hi t2 where t1: "t1 = lo # hi # t2" and n: "b \<notin> set seen"
      and r: "lex_read (pos + 3) (u, b # seen) ((pos + (lo + 256 * hi), b # u) # P) out t2 = Some (pos', P', out', t')"
      using run by (auto simp: t split: list.splits if_splits)
    have "drop (nat (pos + 3)) lextable = t2 @ more" using drop_next [of pos lextable "[b, lo, hi]"] d pos by (simp add: t t1)
    moreover have "rest_of_state pos u seen = {(rev (b # u) @ w, k) | w k. lex_walk (pos + (lo + 256 * hi)) w = Some k} \<union>
        rest_of_state (pos + 3) u (b # seen)"
      by (rule entry_goto [where t = "t2 @ more"]) (use d n 4 pos in \<open>simp_all add: t t1\<close>)
    ultimately show ?thesis
      using IH [rule_format, of t2 "pos + 3" u "b # seen" "(pos + (lo + 256 * hi), b # u) # P" out] r pos
      by (auto simp: t t1)
  qed
qed

lemma lex_run_words:
  "lex_run n (pos, P, out) t = Some (pos', P', out') \<Longrightarrow> 0 \<le> pos \<Longrightarrow> drop (nat pos) lextable = t @ more \<Longrightarrow>
   0 \<le> pos' \<and> drop (nat pos') lextable = more \<and> promised P \<union> found out = promised P' \<union> found out'"
proof (induction n arbitrary: pos P out t)
  case 0
  then show ?case by (cases t) auto
next
  case (Suc n)
  show ?case
  proof (cases t)
    case Nil
    then show ?thesis using Suc.prems by auto
  next
    case (Cons b t1)
    then obtain u P1 where o: "take_out pos P = Some (u, P1)" using Suc.prems(1) by (auto split: option.splits)
    then obtain pos2 P2 out2 t2 where r: "lex_read pos (u, []) P1 out t = Some (pos2, P2, out2, t2)"
      and n: "lex_run n (pos2, P2, out2) t2 = Some (pos', P', out')"
      using Suc.prems(1) Cons by (auto split: option.splits)
    note w = lex_read_words [OF r Suc.prems(2,3)]
    show ?thesis using Suc.IH [OF n] w take_out_promised [OF o] by auto
  qed
qed

lemma lex_runs_words:
  assumes "foldl (\<lambda>s t. case s of None \<Rightarrow> None | Some s \<Rightarrow> lex_run n s t) (Some (pos, P, out)) ts = Some (pos', P', out')"
    "0 \<le> pos" "drop (nat pos) lextable = concat ts"
  shows "promised P \<union> found out = promised P' \<union> found out'"
  using assms
proof (induction ts arbitrary: pos P out)
  case (Cons t ts)
  have none: "foldl (\<lambda>s t. case s of None \<Rightarrow> None | Some s \<Rightarrow> lex_run n s t) None us = None" for us
    by (induction us) auto
  obtain pos2 P2 out2 where r: "lex_run n (pos, P, out) t = Some (pos2, P2, out2)"
    using Cons.prems(1) by (cases "lex_run n (pos, P, out) t") (auto simp: none)
  then show ?case using Cons lex_run_words [OF r Cons.prems(2), of "concat ts"] by auto
qed simp

section \<open>What the table recognises\<close>

lemma walk_is_promised: "lex_walk 0 w = Some k \<longleftrightarrow> (w, k) \<in> promised [(0, [])]"
  by (simp add: promised_def)

lemma table_words: "lex_walk 0 w = Some k \<longleftrightarrow> (w, k) \<in> found (token_words (rev token_order))"
proof -
  have "promised [(0, [])] \<union> found [] = promised [] \<union> found (token_words (rev token_order))"
    by (rule lex_runs_words [OF lex_runs [unfolded lex_runs_def]]) (simp_all add: lextable_def)
  then have "promised [(0, [])] = found (token_words (rev token_order))" by (simp only: promised_simps(1) found_simps(1) Un_empty_right Un_empty_left)
  then show ?thesis by (simp only: walk_is_promised)
qed

lemma found_token_words: "found (token_words ks) = {(chars_of (lextable_strings ! k), int k) | k. k \<in> set ks}"
  by (auto simp: found_def token_words_def image_iff)

lemma set_token_order: "set token_order = {0..<82}"
  using arg_cong [OF token_order, of set] by simp

lemma chars_of_eq [simp]: "chars_of s = chars_of t \<longleftrightarrow> s = t"
  by (simp add: chars_of_def inj_map_eq_map inj_def)

text \<open>The enumeration numbers the tokens in the same order.\<close>

lemma lws_token_indexes_numbers: "map snd lws_token_indexes = map int [0..<82]"
  by code_simp

lemma token_numbered: "(\<exists>name. (name, k) \<in> set lws_token_indexes) \<longleftrightarrow> 0 \<le> k \<and> k < 82"
proof -
  have "(\<exists>name. (name, k) \<in> set lws_token_indexes) \<longleftrightarrow> k \<in> set (map snd lws_token_indexes)" by force
  also have "\<dots> \<longleftrightarrow> 0 \<le> k \<and> k < 82"
    unfolding lws_token_indexes_numbers by (auto simp: image_iff intro: bexI [of _ "nat k"])
  finally show ?thesis .
qed

text \<open>
  C33: The table of header names, the list it was made from and the numbers the programs use are in step: walking
  lextable, byte by byte as its comments describe, ends in a token for exactly the strings of
  lextable-strings.h, the token is the position of the string in that list, and it is a number of
  lws-token-indexes - no other word ends in a token, and no name or number is lost.
\<close>
theorem lextable_in_sync:
  "token_of s = Some k \<longleftrightarrow> (\<exists>name. (name, k) \<in> set lws_token_indexes) \<and> lextable_strings ! nat k = s"
proof -
  have "token_of s = Some k \<longleftrightarrow> (\<exists>i. i < 82 \<and> k = int i \<and> lextable_strings ! i = s)"
    by (auto simp: token_of_def table_words found_token_words set_token_order)
  also have "\<dots> \<longleftrightarrow> (0 \<le> k \<and> k < 82) \<and> lextable_strings ! nat k = s"
  proof (intro iffI)
    assume "(0 \<le> k \<and> k < 82) \<and> lextable_strings ! nat k = s"
    then show "\<exists>i. i < 82 \<and> k = int i \<and> lextable_strings ! i = s" by (intro exI [of _ "nat k"]) auto
  qed auto
  finally show ?thesis by (simp only: token_numbered)
qed

text \<open>The rest of the enumeration goes on after the tokens of the table, and the count is one of its numbers.\<close>

lemma last_token_index: "snd (last lws_token_indexes) = 81"
  by (simp add: lws_token_indexes_def)

lemma lws_token_indexes_go_on:
  "map snd (lws_token_indexes @ lws_token_indexes_rest) = map int [0..<95]"
  "map_of lws_token_indexes_rest ''WSI_TOKEN_COUNT'' = Some 89"
  subgoal unfolding map_append lws_token_indexes_numbers lws_token_indexes_rest_def last_token_index by (simp add: upt_rec)
  subgoal unfolding lws_token_indexes_rest_def last_token_index by (simp add: upt_rec)
  done

end
