(* ===== verification/HufTable.thy ===== *)
theory HufTable
  imports TokenTable
begin

text \<open>
  The tables of inc/huftable.h, with which the library reads the Huffman codes of compressed headers: huf-lextable is
  its lextable, huf-lextable-terms its lextable-terms.  Reading a code is written as
  the comments of the table describe the walk over it, and one pass over the table collects all its codes.
\<close>

section \<open>The data\<close>

definition huf_lextable_1 :: "int list" where
  "huf_lextable_1 = [
    0x42, 0x01, 0x5C, 0x01, 0x66, 0x01, 0x74, 0x01, 0x8C, 0x01, 0x46, 0x01, 0x75, 0x01, 0x40, 0x01, 0x45, 0x01,
     0x40, 0x01, 0x01, 0x03, 0x01, 0x5B, 0x00, 0x24, 0x72, 0x01, 0x72, 0x01, 0x53, 0x01, 0x7B, 0x01, 0x6B,
     0x01, 0x84, 0x01, 0x01, 0x06, 0xB3, 0x01, 0xC3, 0x01, 0x01, 0x8C, 0x01, 0x8A, 0x01, 0x87, 0x8E, 0x01,
     0x0F, 0x01, 0xA4, 0x01, 0xB7, 0x01, 0xC8, 0x01, 0x01, 0x0F, 0x01, 0x07, 0x01, 0x03, 0xFE, 0x01, 0x02,
     0x03, 0x01, 0x02, 0x04, 0x05, 0x06, 0x07, 0x01, 0x0E, 0x01, 0x0C, 0x08, 0x0B, 0xA7, 0x01, 0x01, 0x7B,
     0xEF, 0x01, 0x09, 0x8E, 0x0A, 0x01, 0x11, 0x01, 0x64, 0x01, 0xF9, 0x01, 0x01, 0x0A, 0x0A, 0x0D, 0x0C,
     0x0E, 0x01, 0x02, 0x0F, 0x10, 0x11, 0x12, 0x01, 0x05, 0x01, 0x02, 0x13, 0x14, 0x15, 0x17, 0x16, 0x00,
     0x01, 0x02, 0x18, 0x19, 0x1A, 0x1B, 0x01, 0x02]"

definition huf_lextable_2 :: "int list" where
  "huf_lextable_2 = [
    0x1C, 0x1D, 0x1E, 0x1F, 0x13, 0x01, 0x01, 0x0F, 0x4B, 0x01, 0x01, 0x0C, 0x20, 0x25, 0x01, 0x08, 0x21, 0x22,
     0x7C, 0x01, 0x23, 0x3E, 0x01, 0x05, 0x26, 0x2A, 0x3F, 0x01, 0x27, 0x2B, 0x28, 0x29, 0x2C, 0x3B, 0x2D,
     0x2E, 0x01, 0x08, 0x01, 0x06, 0x2F, 0x33, 0x01, 0x2D, 0x01, 0x02, 0x30, 0x31, 0x32, 0x61, 0x34, 0x35,
     0x01, 0x02, 0x36, 0x37, 0x38, 0x39, 0x06, 0x01, 0x2C, 0x01, 0x2F, 0x01, 0x01, 0x07, 0x3A, 0x42, 0x3C,
     0x60, 0x01, 0x21, 0x01, 0x1D, 0x3D, 0x41, 0x40, 0x5B, 0x43, 0x44, 0x01, 0x08, 0x01, 0x04, 0x01, 0x02,
     0x45, 0x46, 0x47, 0x48, 0x01, 0x02, 0x49, 0x4A, 0x4B, 0x4C, 0x01, 0x04, 0x01, 0x02, 0x4D, 0x4E, 0x4F,
     0x50, 0x01, 0x02, 0x51, 0x52, 0x53, 0x54, 0x01, 0x11, 0x01, 0x02, 0x55, 0x56, 0x57, 0x59, 0x58, 0x5A,
     0x01, 0x1F, 0x01, 0x17, 0x5C, 0xC3, 0x5D, 0x7E]"

definition huf_lextable_3 :: "int list" where
  "huf_lextable_3 = [
    0x5E, 0x7D, 0x5F, 0x62, 0x01, 0x05, 0x63, 0x65, 0x01, 0x02, 0x64, 0x66, 0x67, 0x68, 0x69, 0x6F, 0x01, 0x05,
     0x6A, 0x6B, 0x01, 0x02, 0x6C, 0x6D, 0x6E, 0x70, 0x71, 0x76, 0x72, 0x75, 0x73, 0x74, 0x01, 0x02, 0x77,
     0x78, 0x79, 0x7A, 0x7F, 0xDC, 0xD0, 0x01, 0x80, 0x82, 0x2E, 0x01, 0x01, 0x1B, 0x01, 0x06, 0xE6, 0x01,
     0x81, 0x84, 0x01, 0x14, 0x01, 0x30, 0x83, 0xA2, 0x01, 0x02, 0x85, 0x86, 0x88, 0x92, 0x89, 0x8A, 0x01,
     0x02, 0x8B, 0x8C, 0x8D, 0x8F, 0x01, 0x06, 0x90, 0x91, 0x01, 0x12, 0x01, 0x05, 0x01, 0x03, 0x93, 0x95,
     0x94, 0x9F, 0x96, 0x97, 0x01, 0x08, 0x98, 0x9B, 0x42, 0x01, 0x01, 0x0C, 0x99, 0xA1, 0x01, 0x05, 0x01,
     0x03, 0x9A, 0x9C, 0x9D, 0x9E, 0xA0, 0xA3, 0x01, 0x07, 0xA4, 0xA9, 0x01, 0x09, 0x01, 0x03, 0xA5, 0xA6,
     0xA7, 0xAC, 0xA8, 0xAE, 0xAA, 0xAD, 0x01, 0x1B]"

definition huf_lextable_4 :: "int list" where
  "huf_lextable_4 = [
    0x01, 0x2A, 0xAB, 0xCE, 0x01, 0x09, 0xAF, 0xB4, 0x01, 0x27, 0x01, 0x05, 0xB0, 0xB1, 0x01, 0x07, 0x01, 0x05,
     0xB2, 0xB5, 0xB3, 0xD1, 0xB6, 0xB7, 0xB8, 0xC2, 0xB9, 0xBA, 0x01, 0x04, 0xBB, 0xBD, 0x01, 0x07, 0xBC,
     0xBF, 0xBE, 0xC4, 0x01, 0x0D, 0x01, 0x0A, 0x01, 0x08, 0xC0, 0xC1, 0xC5, 0xE7, 0x01, 0x1B, 0xC6, 0xE4,
     0x1B, 0x01, 0x01, 0x19, 0xC7, 0xCF, 0xC8, 0xC9, 0x01, 0x06, 0xCA, 0xCD, 0x0D, 0x01, 0x17, 0x01, 0xFF,
     0x01, 0xCB, 0xCC, 0xD2, 0xD5, 0x01, 0x14, 0x01, 0x09, 0x01, 0x02, 0xD3, 0xD4, 0xD6, 0xDD, 0xD7, 0xE1,
     0x01, 0x07, 0xD8, 0xD9, 0x01, 0x09, 0xDA, 0xDB, 0x01, 0x08, 0xDE, 0xDF, 0xE0, 0xE2, 0xE3, 0xE5, 0xE8,
     0xE9, 0xEA, 0xEB, 0xEC, 0xED, 0xEE, 0xF0, 0xF1, 0xF4, 0xF2, 0xF3, 0x01, 0x04, 0x01, 0x02, 0xF5, 0xF6,
     0xF7, 0xF8, 0x01, 0x02, 0xFA, 0xFB, 0xFC, 0xFD]"

definition huf_lextable :: "int list" where
  "huf_lextable = huf_lextable_1 @ huf_lextable_2 @ huf_lextable_3 @ huf_lextable_4"

definition huf_lextable_terms :: "int list" where
  "huf_lextable_terms = [
    0x00, 0x00, 0x00, 0x03, 0x01, 0x00, 0x03, 0x00, 0x34, 0x0F, 0x43, 0x03, 0xF1, 0x3C, 0xFC, 0x3C, 0x0F, 0x30,
     0x37, 0xF7, 0x0F, 0xC3, 0xCF, 0x03, 0x3C, 0xFC, 0xC0, 0xF3, 0xF0, 0x3C, 0xFC, 0xF0, 0xCF, 0xFC, 0xCC,
     0xFF, 0xFC, 0x0D, 0x34, 0xCC, 0xCF, 0x33, 0xF0, 0x33, 0x0C, 0x3F, 0xC3, 0x3F, 0xCC, 0x30, 0xFC, 0xCF,
     0x3C, 0xF0, 0x0C, 0xCF, 0xD0, 0x03, 0x3F, 0x33, 0xFF, 0xFF, 0xC3, 0xF3]"

section \<open>Reading a code\<close>

text \<open>
  As the comments of the table have it: a state is a pair of bytes at an even position, one for each bit
  that may come next.  The bit of lextable-terms that stands for the byte says whether it is a
  symbol that has been recognised or a distance, in pairs, to the next state.  Symbols are bytes,
  except that the one with the value 0x100 is stored as 0; the state before it is given by name so
  that it can be told from the symbol 0.
\<close>

definition HUFTABLE_0x100_PREV :: int where
  "HUFTABLE_0x100_PREV = 118"

definition huf_symbol :: "int \<Rightarrow> int \<Rightarrow> int" where
  "huf_symbol pos b = (if pos = HUFTABLE_0x100_PREV \<and> b = 0 then 0x100 else b)"

definition huf_terminal :: "int \<Rightarrow> bool" where
  "huf_terminal q = odd (huf_lextable_terms ! nat (q div 8) div 2 ^ nat (q mod 8))"

datatype huf_result = To int | Symbol int

definition huf_next :: "int \<Rightarrow> bool \<Rightarrow> huf_result" where
  "huf_next pos c = (let q = pos + of_bool c; b = huf_lextable ! nat q in
     if huf_terminal q then Symbol (huf_symbol pos b) else To (pos + 2 * b))"

fun huf_read :: "int \<Rightarrow> bool list \<Rightarrow> (int \<times> bool list) option" where
  "huf_read pos [] = None"
| "huf_read pos (c # cs) = (case huf_next pos c of Symbol k \<Rightarrow> Some (k, cs) | To pos' \<Rightarrow> huf_read pos' cs)"

section \<open>All the codes of the table\<close>

text \<open>One pass over the pairs of bytes, in the way of the table of header names.\<close>

type_synonym huf_pending = "(int \<times> bool list) list"
type_synonym huf_found = "(bool list \<times> int) list"

definition huf_put :: "int \<Rightarrow> bool \<Rightarrow> int \<Rightarrow> bool \<Rightarrow> bool list \<Rightarrow> huf_pending \<times> huf_found \<Rightarrow> huf_pending \<times> huf_found" where
  "huf_put pos c b f u = (\<lambda>(P, out). if f then (P, (c # u, huf_symbol pos b) # out) else ((pos + 2 * b, c # u) # P, out))"

fun huf_pass :: "int \<Rightarrow> huf_pending \<times> huf_found \<Rightarrow> int list \<Rightarrow> bool list \<Rightarrow> (int \<times> huf_pending \<times> huf_found) option" where
  "huf_pass pos (P, out) (b0 # b1 # t) (f0 # f1 # fs) = (case take_out pos P of None \<Rightarrow> None
     | Some (u, P') \<Rightarrow> huf_pass (pos + 2) (huf_put pos True b1 f1 u (huf_put pos False b0 f0 u (P', out))) t fs)"
| "huf_pass pos (P, out) [] [] = Some (pos, P, out)"
| "huf_pass pos (P, out) t fs = None"

definition huf_flags :: "int list \<Rightarrow> bool list" where
  "huf_flags ts = concat (map (\<lambda>b. [odd b, odd (b div 2), odd (b div 4), odd (b div 8), odd (b div 16),
     odd (b div 32), odd (b div 64), odd (b div 128)]) ts)"

definition huf_passes :: "(int \<times> huf_pending \<times> huf_found) option" where
  "huf_passes = huf_pass 0 ([(0, [])], []) huf_lextable (huf_flags huf_lextable_terms)"

definition huf_found :: huf_found where
  "huf_found = (case huf_passes of Some (pos, P, out) \<Rightarrow> out | None \<Rightarrow> [])"

definition huf_code :: "int \<Rightarrow> bool list" where
  "huf_code k = (case find (\<lambda>(u, j). j = k) huf_found of Some (u, j) \<Rightarrow> rev u | None \<Rightarrow> [])"

lemma huf_passes: "(case huf_passes of None \<Rightarrow> False | Some (pos, P, out) \<Rightarrow> pos = 512 \<and> P = [] \<and>
    sort (map snd (rev out)) = [0..256] \<and> list_all (\<lambda>(u, k). length u \<le> 30) out)"
  by code_simp

end
