(* ===== verification/HufTableOk.thy ===== *)
theory HufTableOk
  imports HufTable
begin

text \<open>
  The codes of inc/huftable.h: the pass of HufTable finds exactly the codes that reading recognises, there is
  one for each of the 257 symbols, and no sequence of bits is left without a meaning.
\<close>

section \<open>The pass finds what reading finds\<close>

definition huf_words :: "int \<Rightarrow> bool list \<Rightarrow> (bool list \<times> int) set" where
  "huf_words pos u = {(rev u @ w, k) | w k. huf_read pos w = Some (k, [])}"

definition huf_promised :: "huf_pending \<Rightarrow> (bool list \<times> int) set" where
  "huf_promised P = (\<Union>(q, u) \<in> set P. huf_words q u)"

definition huf_done :: "huf_found \<Rightarrow> (bool list \<times> int) set" where
  "huf_done out = (\<lambda>(u, k). (rev u, k)) ` set out"

definition huf_branch :: "int \<Rightarrow> bool \<Rightarrow> bool list \<Rightarrow> (bool list \<times> int) set" where
  "huf_branch pos c u = (case huf_next pos c of Symbol k \<Rightarrow> {(rev (c # u), k)} | To q \<Rightarrow> huf_words q (c # u))"

lemma huf_promised_simps [simp]:
  "huf_promised [] = {}" "huf_promised ((q, u) # P) = huf_words q u \<union> huf_promised P"
  by (auto simp: huf_promised_def)

lemma huf_done_simps [simp]: "huf_done [] = {}" "huf_done ((u, k) # out) = insert (rev u, k) (huf_done out)"
  by (auto simp: huf_done_def)

text \<open>The codes that go on from a state are those of its two branches.\<close>

lemma huf_words_branch: "(w, k) \<in> huf_words pos u \<longleftrightarrow> (w, k) \<in> huf_branch pos False u \<union> huf_branch pos True u"
proof -
  have "(w, k) \<in> huf_branch pos c u \<longleftrightarrow> (\<exists>v. w = rev u @ c # v \<and> huf_read pos (c # v) = Some (k, []))" for c
    by (cases "huf_next pos c") (auto simp: huf_branch_def huf_words_def)
  moreover have "(w, k) \<in> huf_words pos u \<longleftrightarrow> (\<exists>c v. w = rev u @ c # v \<and> huf_read pos (c # v) = Some (k, []))"
    unfolding huf_words_def by (auto simp del: huf_read.simps(2)) (metis huf_read.simps(1) neq_Nil_conv option.distinct(1))+
  ultimately show ?thesis by (simp only: ex_bool_eq Un_iff disj_commute)
qed

lemma huf_words_split: "huf_words pos u = huf_branch pos False u \<union> huf_branch pos True u"
  by (intro set_eqI) (metis huf_words_branch surj_pair)

lemma take_out_huf: "take_out p P = Some (u, P') \<Longrightarrow> huf_promised P = huf_words p u \<union> huf_promised P'"
proof (induction P arbitrary: P')
  case (Cons x P)
  then show ?case by (cases x) (auto split: if_splits)
qed simp

lemma huf_put_words:
  assumes "huf_put pos c b f u (P, out) = (P', out')" "f = huf_terminal (pos + of_bool c)" "b = huf_lextable ! nat (pos + of_bool c)"
  shows "huf_promised P' \<union> huf_done out' = huf_branch pos c u \<union> huf_promised P \<union> huf_done out"
  using assms by (auto simp: huf_put_def huf_branch_def huf_next_def Let_def split: if_splits)

text \<open>The flags are the bits that the states are looked up by.\<close>

lemma huf_flags_nth: "q < 8 * length ts \<Longrightarrow> huf_flags ts ! q = odd (ts ! (q div 8) div 2 ^ (q mod 8))"
proof (induction ts arbitrary: q)
  case (Cons t ts)
  show ?case
  proof (cases "q < 8")
    case True
    then have "q \<in> set [0, 1, 2, 3, 4, 5, 6, 7]" by auto
    then show ?thesis by (auto simp: huf_flags_def)
  next
    case False
    then obtain r where q: "q = 8 + r" using le_Suc_ex not_less by blast
    have "huf_flags (t # ts) ! q = huf_flags ts ! r" by (simp add: huf_flags_def q numeral_eq_Suc)
    also have "\<dots> = odd (ts ! (r div 8) div 2 ^ (r mod 8))" by (rule Cons.IH) (use Cons.prems q in simp)
    also have "\<dots> = odd ((t # ts) ! (q div 8) div 2 ^ (q mod 8))"
    proof -
      have "(8 + r) div 8 = Suc (r div 8)" "(8 + r) mod 8 = r mod 8" by simp_all
      then show ?thesis by (simp only: q nth_Cons_Suc)
    qed
    finally show ?thesis .
  qed
qed simp

lemma huf_flags_length: "length (huf_flags ts) = 8 * length ts"
  by (induction ts) (simp_all add: huf_flags_def)

lemma huf_terms_length: "length huf_lextable_terms = 64"
  by (simp add: huf_lextable_terms_def)

lemma huf_flags_terminal:
  assumes "0 \<le> q" "q < 512"
  shows "huf_flags huf_lextable_terms ! nat q = huf_terminal q"
proof -
  have "nat (q div 8) = nat q div 8" "nat (q mod 8) = nat q mod 8" using assms by (simp_all add: nat_div_distrib nat_mod_distrib)
  then show ?thesis using assms huf_flags_nth [of "nat q" huf_lextable_terms] by (simp add: huf_terminal_def huf_terms_length)
qed

lemma drop_two:
  assumes "drop (nat pos) xs = a # b # t" "0 \<le> pos"
  shows "xs ! nat pos = a \<and> xs ! nat (pos + 1) = b \<and> drop (nat (pos + 2)) xs = t \<and> pos + 1 < int (length xs)"
proof -
  have "xs ! nat pos = drop (nat pos) xs ! 0" "xs ! nat (pos + 1) = drop (nat pos) xs ! 1"
    using arg_cong [OF assms(1), of length] assms(2) by (simp_all add: nat_add_distrib)
  moreover have "drop (nat (pos + 2)) xs = drop 2 (drop (nat pos) xs)" using assms(2) by (simp add: nat_add_distrib add.commute)
  moreover have "pos + 1 < int (length xs)" using arg_cong [OF assms(1), of length] assms(2) by simp
  ultimately show ?thesis using assms(1) by simp
qed

text \<open>So the pass keeps the set of codes.\<close>

lemma huf_pass_words:
  "huf_pass pos (P, out) t fs = Some (pos', P', out') \<Longrightarrow> 0 \<le> pos \<Longrightarrow> drop (nat pos) huf_lextable = t \<Longrightarrow>
    drop (nat pos) (huf_flags huf_lextable_terms) = fs \<Longrightarrow>
    huf_promised P \<union> huf_done out = huf_promised P' \<union> huf_done out'"
proof (induction "(P, out)" t fs arbitrary: P out rule: huf_pass.induct)
  case (1 pos P out b0 b1 t f0 f1 fs)
  obtain u P1 where o: "take_out pos P = Some (u, P1)" using "1.prems"(1) by (auto split: option.splits)
  obtain P2 out2 where p0: "huf_put pos False b0 f0 u (P1, out) = (P2, out2)" by fastforce
  obtain P3 out3 where p1: "huf_put pos True b1 f1 u (P2, out2) = (P3, out3)" by fastforce
  note b = drop_two [OF "1.prems"(3,2)] and f = drop_two [OF "1.prems"(4,2)]
  have lt: "pos + 1 < 512" using f by (simp add: huf_flags_length huf_terms_length)
  have f0: "f0 = huf_terminal pos" and f1: "f1 = huf_terminal (pos + 1)"
    using f lt "1.prems"(2) huf_flags_terminal [of pos] huf_flags_terminal [of "pos + 1"] by auto
  have "huf_promised P3 \<union> huf_done out3 = huf_promised P' \<union> huf_done out'"
    using "1.hyps" [OF o refl] "1.prems" o p0 p1 b f by auto
  moreover have "huf_promised P3 \<union> huf_done out3 = huf_branch pos True u \<union> (huf_promised P2 \<union> huf_done out2)"
    using huf_put_words [OF p1] b f1 by auto
  moreover have "huf_promised P2 \<union> huf_done out2 = huf_branch pos False u \<union> huf_promised P1 \<union> huf_done out"
    using huf_put_words [OF p0] b f0 by auto
  ultimately show ?case using take_out_huf [OF o] huf_words_split [of pos u] by auto
qed auto

section \<open>The code\<close>

lemma huf_found_result: "huf_passes = Some (512, [], huf_found)"
  and huf_found_order: "sort (map snd (rev huf_found)) = [0..256]"
  and huf_found_short: "(u, k) \<in> set huf_found \<Longrightarrow> length u \<le> 30"
proof -
  obtain pos P out where r: "huf_passes = Some (pos, P, out)" "pos = 512" "P = []" "sort (map snd (rev out)) = [0..256]"
    "list_all (\<lambda>(u, k). length u \<le> 30) out"
    using huf_passes by (auto split: option.splits)
  moreover have "huf_found = out" unfolding huf_found_def r(1) by simp
  ultimately show "huf_passes = Some (512, [], huf_found)" "sort (map snd (rev huf_found)) = [0..256]"
    "(u, k) \<in> set huf_found \<Longrightarrow> length u \<le> 30"
    by (auto simp: list_all_iff)
qed

lemma huf_read_found: "huf_read 0 w = Some (k, []) \<longleftrightarrow> (rev w, k) \<in> set huf_found"
proof -
  have "huf_promised [(0, [])] \<union> huf_done [] = huf_promised [] \<union> huf_done huf_found"
    by (rule huf_pass_words [OF huf_found_result [unfolded huf_passes_def]]) simp_all
  then have "huf_words 0 [] = huf_done huf_found" by simp
  then have "huf_read 0 w = Some (k, []) \<longleftrightarrow> (w, k) \<in> huf_done huf_found" by (auto simp: huf_words_def)
  then show ?thesis by (force simp: huf_done_def)
qed

text \<open>Every symbol has one code in the table.\<close>

lemma huf_found_symbols: "set (map snd huf_found) = {0..256}"
  using arg_cong [OF huf_found_order, of set] by simp

lemma huf_found_distinct: "distinct (map snd huf_found)"
proof -
  have "distinct (sort (map snd (rev huf_found)))" unfolding huf_found_order by simp
  then show ?thesis by (simp add: rev_map [symmetric])
qed

lemma huf_found_code: "(u, k) \<in> set huf_found \<longleftrightarrow> 0 \<le> k \<and> k \<le> 256 \<and> huf_code k = rev u"
proof -
  have code: "huf_code k = rev v" if "(v, k) \<in> set huf_found" for v
  proof -
    note v = that
    obtain p where f: "find (\<lambda>(u, j). j = k) huf_found = Some p"
      using v by (cases "find (\<lambda>(u, j). j = k) huf_found") (auto simp: find_None_iff)
    then have "p \<in> set huf_found" "snd p = k" by (auto simp: find_Some_iff) (metis nth_mem)
    moreover have "inj_on snd (set huf_found)" using huf_found_distinct by (simp add: distinct_map)
    ultimately have "p = (v, k)" using v inj_onD [of snd "set huf_found" p "(v, k)"] by simp
    then show ?thesis using f by (simp add: huf_code_def)
  qed
  show ?thesis
  proof
    assume "(u, k) \<in> set huf_found"
    moreover from this have "k \<in> set (map snd huf_found)" by force
    ultimately show "0 \<le> k \<and> k \<le> 256 \<and> huf_code k = rev u" using code unfolding huf_found_symbols by auto
  next
    assume k: "0 \<le> k \<and> k \<le> 256 \<and> huf_code k = rev u"
    then have "k \<in> set (map snd huf_found)" unfolding huf_found_symbols by simp
    then obtain v where "(v, k) \<in> set huf_found" by auto
    then show "(u, k) \<in> set huf_found" using code [of v] k by simp
  qed
qed

lemma huf_read_code: "huf_read 0 w = Some (k, []) \<longleftrightarrow> 0 \<le> k \<and> k \<le> 256 \<and> w = huf_code k"
  by (auto simp: huf_read_found huf_found_code)

lemma huf_read_append: "huf_read pos w = Some (k, rest) \<Longrightarrow> huf_read pos (w @ cs) = Some (k, rest @ cs)"
  by (induction w arbitrary: pos) (auto split: huf_result.splits)

lemma huf_read_prefix: "huf_read pos cs = Some (k, rest) \<Longrightarrow> \<exists>w. cs = w @ rest \<and> huf_read pos w = Some (k, [])"
proof (induction cs arbitrary: pos)
  case (Cons c cs)
  show ?case
  proof (cases "huf_next pos c")
    case (To q)
    then obtain w where "cs = w @ rest" "huf_read q w = Some (k, [])" using Cons by auto
    then show ?thesis using To by (intro exI [of _ "c # w"]) simp
  next
    case (Symbol j)
    then show ?thesis using Cons.prems by (intro exI [of _ "[c]"]) simp
  qed
qed simp

lemma huf_read_any: "huf_read 0 cs = Some (k, rest) \<longleftrightarrow> 0 \<le> k \<and> k \<le> 256 \<and> cs = huf_code k @ rest"
proof
  assume "huf_read 0 cs = Some (k, rest)"
  then show "0 \<le> k \<and> k \<le> 256 \<and> cs = huf_code k @ rest" using huf_read_prefix huf_read_code by blast
next
  assume "0 \<le> k \<and> k \<le> 256 \<and> cs = huf_code k @ rest"
  moreover from this have "huf_read 0 (huf_code k) = Some (k, [])" by (simp add: huf_read_code)
  ultimately show "huf_read 0 cs = Some (k, rest)" using huf_read_append by fastforce
qed

lemma huf_code_nonempty: "0 \<le> k \<Longrightarrow> k \<le> 256 \<Longrightarrow> huf_code k \<noteq> []"
  using huf_read_code [of "[]" k] by auto

lemma huf_code_short: "0 \<le> k \<Longrightarrow> k \<le> 256 \<Longrightarrow> length (huf_code k) \<le> 30"
  using huf_found_code [of "rev (huf_code k)" k] huf_found_short by fastforce

section \<open>Reading comes to an end\<close>

text \<open>Every distance leads forward to another state of the table, so a state never reads for ever.\<close>

fun huf_jumps :: "int \<Rightarrow> int list \<Rightarrow> bool list \<Rightarrow> bool" where
  "huf_jumps pos (b0 # b1 # t) (f0 # f1 # fs) \<longleftrightarrow> (f0 \<or> 1 \<le> b0 \<and> pos + 2 * b0 \<le> 510) \<and>
     (f1 \<or> 1 \<le> b1 \<and> pos + 2 * b1 \<le> 510) \<and> huf_jumps (pos + 2) t fs"
| "huf_jumps pos [] [] \<longleftrightarrow> True"
| "huf_jumps pos t fs \<longleftrightarrow> False"

definition huf_forward :: "int \<Rightarrow> bool \<Rightarrow> bool" where
  "huf_forward pos c \<longleftrightarrow> (case huf_next pos c of Symbol k \<Rightarrow> True | To q \<Rightarrow> pos + 2 \<le> q \<and> q \<le> 510 \<and> even (q - pos))"

lemma huf_table_jumps: "huf_jumps 0 huf_lextable (huf_flags huf_lextable_terms)"
  by code_simp

lemma huf_jumps_forward:
  "huf_jumps pos t fs \<Longrightarrow> 0 \<le> pos \<Longrightarrow> drop (nat pos) huf_lextable = t \<Longrightarrow>
    drop (nat pos) (huf_flags huf_lextable_terms) = fs \<Longrightarrow> pos \<le> q \<Longrightarrow> q \<le> 510 \<Longrightarrow> even (q - pos) \<Longrightarrow> huf_forward q c"
proof (induction pos t fs rule: huf_jumps.induct)
  case (1 pos b0 b1 t f0 f1 fs)
  note b = drop_two [OF "1.prems"(3,2)] and f = drop_two [OF "1.prems"(4,2)]
  have lt: "pos + 1 < 512" using f by (simp add: huf_flags_length huf_terms_length)
  have f01: "f0 = huf_terminal pos" "f1 = huf_terminal (pos + 1)"
    using f lt "1.prems"(2) huf_flags_terminal [of pos] huf_flags_terminal [of "pos + 1"] by auto
  show ?case
  proof (cases "q = pos")
    case True
    then show ?thesis using "1.prems"(1) b f01 by (cases c) (auto simp: huf_forward_def huf_next_def Let_def)
  next
    case False
    moreover from this have "q \<noteq> pos + 1" using "1.prems"(7) by auto
    ultimately show ?thesis using "1.IH" "1.prems" b f by auto
  qed
next
  case (2 pos)
  then have "512 \<le> pos" by (simp add: huf_flags_length huf_terms_length)
  then show ?case using 2 by simp
qed auto

lemma huf_read_total:
  "0 \<le> pos \<Longrightarrow> pos \<le> 510 \<Longrightarrow> even pos \<Longrightarrow> 512 - pos \<le> 2 * int (length cs) \<Longrightarrow> huf_read pos cs \<noteq> None"
proof (induction cs arbitrary: pos)
  case (Cons c cs)
  have "huf_forward pos c" by (rule huf_jumps_forward [OF huf_table_jumps]) (use Cons.prems in simp_all)
  then show ?case using Cons by (cases "huf_next pos c") (auto simp: huf_forward_def)
qed simp

section \<open>The properties\<close>

text \<open>
  C34: The table of huftable.h holds a complete prefix code of the symbols 0 to 256: reading over the table stops
  with a symbol exactly when the bits begin with the code of this symbol, each symbol has one code, of
  at most 30 bits, and 30 bits are always enough to recognise some symbol, so that no sequence of bits
  is left without a meaning.
\<close>
theorem huffman_complete_code:
  "(huf_read 0 cs = Some (k, rest) \<longleftrightarrow> 0 \<le> k \<and> k \<le> 256 \<and> cs = huf_code k @ rest) \<and>
   (0 \<le> k \<and> k \<le> 256 \<longrightarrow> 0 < length (huf_code k) \<and> length (huf_code k) \<le> 30) \<and>
   (30 \<le> length cs \<longrightarrow> (\<exists>j rest'. huf_read 0 cs = Some (j, rest')))"
proof (intro conjI impI)
  assume long: "30 \<le> length cs"
  have "huf_read 0 (cs @ replicate 256 False) \<noteq> None" by (rule huf_read_total) simp_all
  then obtain j r where j: "huf_read 0 (cs @ replicate 256 False) = Some (j, r)" by auto
  then have "length (huf_code j) \<le> length cs" and e: "0 \<le> j" "j \<le> 256" "cs @ replicate 256 False = huf_code j @ r"
    using huf_code_short [of j] long by (auto simp: huf_read_any)
  then have "cs = huf_code j @ drop (length (huf_code j)) cs"
    by (metis append_eq_append_conv2 append_eq_conv_conj append_take_drop_id le_iff_add length_append take_append take_all)
  then show "\<exists>j rest'. huf_read 0 cs = Some (j, rest')" using e(1,2) huf_read_any by blast
qed (use huf_code_nonempty huf_code_short in \<open>auto simp: huf_read_any\<close>)

lemma huf_read_five_zeros: "huf_read 0 [False, False, False, False, False] = Some (48, [])"
  by code_simp

lemma huffman_complete_code_witness:
  "huf_code 48 = [False, False, False, False, False] \<and> 0 < length (huf_code 48) \<and>
   (\<exists>j rest. huf_read 0 (replicate 30 True) = Some (j, rest))"
  using huffman_complete_code [of "[False, False, False, False, False]" 48 "[]"] huffman_complete_code [of "replicate 30 True" 48 "[]"]
    huf_read_five_zeros by simp

end
