(* ===== verification/UtListVar.thy ===== *)
theory UtListVar
  imports UtDList
begin

text \<open>
  The rest of inc/uthash/utlist.h: the definitions that replace some macros when the compiler has no decltype
  (the one of DL-INSERT-INORDER is in UtDList), the walks that are safe for taking away the node they stand on,
  and the searches for a value.  The seven replacements here give the same head and memory as the ordinary
  macros; a safe walk can empty a list while it goes over it.
\<close>

section \<open>The macros for compilers without decltype\<close>

text \<open>
  A macro cannot declare a pointer of the list's type there, so these walk with what they have: with the
  head itself, whose value they keep in tmp and put back at the end (UTLIST-RS), or with the next
  pointer of the node to be added.
\<close>

definition UTLIST_RS :: "addr option \<Rightarrow> addr option \<Rightarrow> addr option" where
  "UTLIST_RS tmp head = tmp"

partial_function (option) ll_head_tail :: "addr option \<Rightarrow> 'a ll_mem \<Rightarrow> addr option option" where
  "ll_head_tail head mem = do {
     q \<leftarrow> get_next head mem;
     if q \<noteq> None then ll_head_tail q mem else Some head }"

definition LL_CONCAT_nd :: "addr option \<Rightarrow> addr option \<Rightarrow> 'a ll_mem \<Rightarrow> (addr option \<times> 'a ll_mem) option" where
  "LL_CONCAT_nd head1 head2 mem =
     (if head1 \<noteq> None then do {
        let tmp = head1;
        h \<leftarrow> ll_head_tail head1 mem;
        mem1 \<leftarrow> set_next h head2 mem;
        Some (UTLIST_RS tmp h, mem1) }
      else Some (head2, mem))"

partial_function (option) ll_add_tail :: "addr option \<Rightarrow> 'a ll_mem \<Rightarrow> 'a ll_mem option" where
  "ll_add_tail add mem = do {
     t \<leftarrow> get_next add mem;
     q \<leftarrow> get_next t mem;
     if q \<noteq> None then do { mem1 \<leftarrow> set_next add q mem; ll_add_tail add mem1 } else Some mem }"

definition LL_APPEND_nd :: "addr option \<Rightarrow> addr \<Rightarrow> 'a ll_mem \<Rightarrow> (addr option \<times> 'a ll_mem) option" where
  "LL_APPEND_nd head add mem =
     (if head \<noteq> None then do {
        mem1 \<leftarrow> set_next (Some add) head mem;
        mem2 \<leftarrow> ll_add_tail (Some add) mem1;
        t \<leftarrow> get_next (Some add) mem2;
        mem3 \<leftarrow> set_next t (Some add) mem2;
        mem4 \<leftarrow> set_next (Some add) None mem3;
        Some (head, mem4) }
      else do { mem1 \<leftarrow> set_next (Some add) None mem; Some (Some add, mem1) })"

partial_function (option) ll_head_bound ::
  "addr option \<Rightarrow> 'a \<Rightarrow> 'a ll_cmp \<Rightarrow> 'a ll_mem \<Rightarrow> addr option option" where
  "ll_head_bound head like cmp mem = do {
     q \<leftarrow> get_next head mem;
     if q \<noteq> None then do {
       c \<leftarrow> cmp_at cmp q like mem;
       if c < 0 then ll_head_bound q like cmp mem else Some head }
     else Some head }"

definition LL_INSERT_INORDER_nd :: "addr option \<Rightarrow> addr \<Rightarrow> 'a ll_cmp \<Rightarrow> 'a ll_mem \<Rightarrow> (addr option \<times> 'a ll_mem) option" where
  "LL_INSERT_INORDER_nd head add cmp mem = do {
     first \<leftarrow> (if head = None then Some True
               else do { n \<leftarrow> mem add; c \<leftarrow> cmp_at cmp head (ll_val n) mem; Some (c \<ge> 0) });
     if first then do { mem1 \<leftarrow> set_next (Some add) head mem; Some (Some add, mem1) }
     else do {
       n \<leftarrow> mem add;
       let tmp = head;
       h \<leftarrow> ll_head_bound head (ll_val n) cmp mem;
       q \<leftarrow> get_next h mem;
       mem1 \<leftarrow> set_next (Some add) q mem;
       mem2 \<leftarrow> set_next h (Some add) mem1;
       Some (UTLIST_RS tmp h, mem2) } }"

partial_function (option) ll_head_before :: "addr option \<Rightarrow> addr option \<Rightarrow> 'a ll_mem \<Rightarrow> addr option option" where
  "ll_head_before head del mem = do {
     q \<leftarrow> get_next head mem;
     if q \<noteq> None \<and> q \<noteq> del then ll_head_before q del mem else Some head }"

definition LL_DELETE_nd :: "addr option \<Rightarrow> addr option \<Rightarrow> 'a ll_mem \<Rightarrow> (addr option \<times> 'a ll_mem) option" where
  "LL_DELETE_nd head del mem =
     (if head = del then do { q \<leftarrow> get_next head mem; Some (q, mem) }
      else do {
        let tmp = head;
        h \<leftarrow> ll_head_before head del mem;
        q \<leftarrow> get_next h mem;
        mem1 \<leftarrow> (if q \<noteq> None then do { r \<leftarrow> get_next del mem; set_next h r mem } else Some mem);
        Some (UTLIST_RS tmp h, mem1) })"

partial_function (option) ll_add_before :: "addr option \<Rightarrow> addr option \<Rightarrow> 'a ll_mem \<Rightarrow> 'a ll_mem option" where
  "ll_add_before add el mem = do {
     t \<leftarrow> get_next add mem;
     q \<leftarrow> get_next t mem;
     if q \<noteq> None \<and> q \<noteq> el then do { mem1 \<leftarrow> set_next add q mem; ll_add_before add el mem1 } else Some mem }"

text \<open>The steps that REPLACE-ELEM and PREPEND-ELEM share: find the node before el and make it point to add.\<close>

definition ll_add_link :: "addr option \<Rightarrow> addr option \<Rightarrow> addr option \<Rightarrow> 'a ll_mem \<Rightarrow> 'a ll_mem option" where
  "ll_add_link head el add mem = do {
     mem1 \<leftarrow> set_next add head mem;
     mem2 \<leftarrow> ll_add_before add el mem1;
     t \<leftarrow> get_next add mem2;
     q \<leftarrow> get_next t mem2;
     if q \<noteq> None then set_next t add mem2 else Some mem2 }"

definition LL_REPLACE_ELEM_nd :: "addr option \<Rightarrow> addr option \<Rightarrow> addr option \<Rightarrow> 'a ll_mem \<Rightarrow> (addr option \<times> 'a ll_mem) option" where
  "LL_REPLACE_ELEM_nd head el add mem =
     (if head = None \<or> el = None \<or> add = None then None
      else do {
        (head', mem1) \<leftarrow> (if head = el then Some (add, mem)
                          else do { m \<leftarrow> ll_add_link head el add mem; Some (head, m) });
        r \<leftarrow> get_next el mem1;
        mem2 \<leftarrow> set_next add r mem1;
        Some (head', mem2) })"

definition LL_PREPEND_ELEM_nd :: "addr option \<Rightarrow> addr option \<Rightarrow> addr \<Rightarrow> 'a ll_mem \<Rightarrow> (addr option \<times> 'a ll_mem) option" where
  "LL_PREPEND_ELEM_nd head el add mem =
     (if el \<noteq> None then
        (if head = None then None
         else do {
           (head', mem1) \<leftarrow> (if head = el then Some (Some add, mem)
                             else do { m \<leftarrow> ll_add_link head el (Some add) mem; Some (head, m) });
           mem2 \<leftarrow> set_next (Some add) el mem1;
           Some (head', mem2) })
      else LL_APPEND_nd head add mem)"

definition CDL_INSERT_INORDER_nd :: "addr option \<Rightarrow> addr \<Rightarrow> 'a ll_cmp \<Rightarrow> 'a dl_mem \<Rightarrow> (addr option \<times> 'a dl_mem) option" where
  "CDL_INSERT_INORDER_nd head add cmp mem =
     (if head = None then do {
        mem1 \<leftarrow> set_pv (Some add) (Some add) mem;
        mem2 \<leftarrow> set_nx (Some add) (Some add) mem1;
        Some (Some add, mem2) }
      else do {
        n \<leftarrow> mem add;
        c \<leftarrow> dl_cmp cmp head (dl_val n) mem;
        if c \<ge> 0 then do {
          p \<leftarrow> get_pv head mem;
          mem1 \<leftarrow> set_pv (Some add) p mem;
          mem2 \<leftarrow> set_nx (Some add) head mem1;
          q \<leftarrow> get_pv (Some add) mem2;
          mem3 \<leftarrow> set_nx q (Some add) mem2;
          mem4 \<leftarrow> set_pv head (Some add) mem3;
          Some (Some add, mem4) }
        else do {
          h \<leftarrow> dl_walk_nd head head (dl_val n) cmp mem;
          mem1 \<leftarrow> set_pv (Some add) h mem;
          q \<leftarrow> get_nx h mem1;
          mem2 \<leftarrow> set_nx (Some add) q mem1;
          r \<leftarrow> get_nx (Some add) mem2;
          mem3 \<leftarrow> set_pv r (Some add) mem2;
          mem4 \<leftarrow> set_nx h (Some add) mem3;
          Some (head, mem4) } })"

section \<open>They do what the ordinary macros do\<close>

text \<open>The next pointer of the node to be added takes the place of the walking variable.\<close>

lemma put_next_twice [simp]: "put_next a q (put_next a r mem) = put_next a q mem"
  by (cases "mem a") (simp_all add: put_next_def)

lemma put_next_swap: "a \<noteq> b \<Longrightarrow> put_next a q (put_next b r mem) = put_next b r (put_next a q mem)"
  by (simp add: put_next_def fun_upd_twist)

lemma ll_links_put_same [simp]: "mem a \<noteq> None \<Longrightarrow> ll_links (put_next a q mem) a = Some q"
  by (simp add: ll_links_put)

lemma ll_links_put_other [simp]: "b \<noteq> a \<Longrightarrow> ll_links (put_next a q mem) b = ll_links mem b"
  by (simp add: ll_links_def)

lemma ll_walks_frame:
  assumes "chain (ll_links mem) p xs" "a \<notin> set xs" "xs \<noteq> []"
  shows "ll_tail p (put_next a q mem) = ll_tail p mem" "ll_before p el (put_next a q mem) = ll_before p el mem"
proof -
  have "ll_tail p (put_next a q mem) = ll_tail p mem \<and> ll_before p el (put_next a q mem) = ll_before p el mem"
    using assms
  proof (induction xs arbitrary: p)
    case (Cons x xs)
    then obtain r where r: "p = Some x" "ll_links mem x = Some r" "chain (ll_links mem) r xs" by auto
    have "x \<noteq> a" using Cons.prems by auto
    then show ?case
      using Cons r by (cases xs) (simp_all add: ll_tail.simps [of "Some x"] ll_before.simps [of "Some x"])
  qed simp
  then show "ll_tail p (put_next a q mem) = ll_tail p mem" "ll_before p el (put_next a q mem) = ll_before p el mem" by simp_all
qed

lemma ll_add_walks:
  assumes "chain (ll_links mem) p xs" "a \<notin> set xs" "xs \<noteq> []" "mem a \<noteq> None"
  obtains y z where "ll_tail p mem = Some (Some y)" "ll_add_tail (Some a) (put_next a p mem) = Some (put_next a (Some y) mem)"
    "y \<in> set xs" "ll_before p el mem = Some (Some z)" "z \<in> set xs"
    "ll_add_before (Some a) el (put_next a p mem) = Some (put_next a (Some z) mem)"
proof -
  have "(\<exists>y\<in>set xs. ll_tail p mem = Some (Some y) \<and> ll_add_tail (Some a) (put_next a p mem) = Some (put_next a (Some y) mem)) \<and>
    (\<exists>z\<in>set xs. ll_before p el mem = Some (Some z) \<and> ll_add_before (Some a) el (put_next a p mem) = Some (put_next a (Some z) mem))"
    using assms
  proof (induction xs arbitrary: p)
    case (Cons x xs)
    then obtain r where r: "p = Some x" "ll_links mem x = Some r" "chain (ll_links mem) r xs" by auto
    have x: "x \<noteq> a" using Cons.prems by auto
    show ?case
    proof (cases xs)
      case Nil
      then have "r = None" using r(3) by simp
      then show ?thesis using r x Cons.prems(4)
        by (simp add: ll_tail.simps [of "Some x"] ll_before.simps [of "Some x"] ll_add_tail.simps [of _ "put_next a (Some x) mem"] ll_add_before.simps [of _ _ "put_next a (Some x) mem"])
    next
      case (Cons y ys)
      then have "r \<noteq> None" using r(3) by auto
      then show ?thesis using r x Cons.prems Cons.IH [OF r(3)] Cons
        by (auto simp: ll_tail.simps [of "Some x"] ll_before.simps [of "Some x"] ll_add_tail.simps [of _ "put_next a (Some x) mem"] ll_add_before.simps [of _ _ "put_next a (Some x) mem"])
    qed
  qed simp
  then show thesis using that by blast
qed

text \<open>Walking with the head and putting it back is walking with another variable.\<close>

lemma ll_head_tail_eq: "ll_head_tail p mem = ll_tail p mem"
proof -
  have "ll_tail p mem = Some r" if "ll_head_tail p mem = Some r" for r
    by (rule ll_head_tail.raw_induct [where P = "\<lambda>p mem r. ll_tail p mem = Some r", OF _ that])
      (subst ll_tail.simps, auto simp: bind_eq_Some_conv split: if_splits)
  moreover have "ll_head_tail p mem = Some r" if "ll_tail p mem = Some r" for r
    by (rule ll_tail.raw_induct [where P = "\<lambda>p mem r. ll_head_tail p mem = Some r", OF _ that])
      (subst ll_head_tail.simps, auto simp: bind_eq_Some_conv split: if_splits)
  ultimately show ?thesis by (metis not_Some_eq)
qed

lemma ll_head_before_eq: "ll_head_before p el mem = ll_before p el mem"
proof -
  have "ll_before p el mem = Some r" if "ll_head_before p el mem = Some r" for r
    by (rule ll_head_before.raw_induct [where P = "\<lambda>p el mem r. ll_before p el mem = Some r", OF _ that])
      (subst ll_before.simps, auto simp: bind_eq_Some_conv split: if_splits)
  moreover have "ll_head_before p el mem = Some r" if "ll_before p el mem = Some r" for r
    by (rule ll_before.raw_induct [where P = "\<lambda>p el mem r. ll_head_before p el mem = Some r", OF _ that])
      (subst ll_head_before.simps, auto simp: bind_eq_Some_conv split: if_splits)
  ultimately show ?thesis by (metis not_Some_eq)
qed

lemma LL_CONCAT_variant: "LL_CONCAT_nd h1 h2 mem = LL_CONCAT h1 h2 mem"
  by (simp add: LL_CONCAT_nd_def LL_CONCAT_def UTLIST_RS_def ll_head_tail_eq)

lemma LL_DELETE_variant: "LL_DELETE_nd head del mem = LL_DELETE head del mem"
  by (simp add: LL_DELETE_nd_def LL_DELETE_def UTLIST_RS_def ll_head_before_eq if_distrib if_distribR cong: bind_option_cong if_cong)

lemma is_ll_ne: "is_ll mem head xs \<Longrightarrow> head \<noteq> None \<Longrightarrow> xs \<noteq> []"
  by (auto simp: is_ll_def)

lemma LL_APPEND_variant:
  assumes "is_ll mem head xs" "mem a \<noteq> None" "a \<notin> set xs"
  shows "LL_APPEND_nd head a mem = LL_APPEND head a mem"
proof (cases head)
  case (Some x)
  note l = assms(1) [unfolded is_ll_def] and ne = is_ll_ne [OF assms(1)]
  obtain y z where w: "ll_tail head mem = Some (Some y)"
    "ll_add_tail (Some a) (put_next a head mem) = Some (put_next a (Some y) mem)" "y \<in> set xs"
    using ll_add_walks [OF l assms(3) _ assms(2), of None] ne Some by auto
  have y: "y \<noteq> a" "mem y \<noteq> None" using w(3) assms(3) is_ll_mapped [OF assms(1)] by auto
  show ?thesis
    using Some w y assms(2) ll_walks_frame(1) [OF l assms(3), of None] ne
    by (simp add: LL_APPEND_nd_def LL_APPEND_def put_next_swap [of y a])
qed (simp add: LL_APPEND_nd_def LL_APPEND_def)

text \<open>What the macros for a given node e do, once the node before it is known.\<close>

lemma ll_add_link_is:
  assumes l: "is_ll mem head xs" and xs: "xs \<noteq> []" and a: "mem a \<noteq> None" "a \<notin> set xs"
  obtains z where "ll_before head el mem = Some (Some z)" "z \<noteq> a" "mem z \<noteq> None"
    "\<And>q. ll_before head el (put_next a q mem) = Some (Some z)"
    "ll_add_link head el (Some a) mem = (case ll_links mem z of Some None \<Rightarrow> Some (put_next a (Some z) mem)
       | _ \<Rightarrow> Some (put_next z (Some a) (put_next a (Some z) mem)))"
proof -
  note c = l [unfolded is_ll_def]
  obtain z where w: "ll_before head el mem = Some (Some z)" "z \<in> set xs"
    "ll_add_before (Some a) el (put_next a head mem) = Some (put_next a (Some z) mem)"
    using ll_add_walks [OF c a(2) xs a(1), of el] by auto
  have z: "z \<noteq> a" "mem z \<noteq> None" using w(2) a(2) is_ll_mapped [OF l] by auto
  show ?thesis
  proof (rule that [OF w(1) z])
    show "ll_before head el (put_next a q mem) = Some (Some z)" for q
      using ll_walks_frame(2) [OF c a(2) xs] w(1) by simp
    show "ll_add_link head el (Some a) mem = (case ll_links mem z of Some None \<Rightarrow> Some (put_next a (Some z) mem)
       | _ \<Rightarrow> Some (put_next z (Some a) (put_next a (Some z) mem)))"
      using w(3) z a(1) by (auto simp: ll_add_link_def split: option.split)
  qed
qed

lemma ll_before_not:
  assumes "ll_before p el mem = Some r" "p \<noteq> el"
  shows "r \<noteq> el"
proof -
  have "p \<noteq> el \<longrightarrow> r \<noteq> el"
    by (rule ll_before.raw_induct [where P = "\<lambda>p el mem r. p \<noteq> el \<longrightarrow> r \<noteq> el", OF _ assms(1)])
      (auto simp: bind_eq_Some_conv split: if_splits)
  then show ?thesis using assms(2) by simp
qed

lemma LL_REPLACE_ELEM_variant:
  assumes "is_ll mem head xs" "mem a \<noteq> None" "a \<notin> set xs" "a \<noteq> e" "mem e \<noteq> None"
  shows "LL_REPLACE_ELEM_nd head (Some e) (Some a) mem = LL_REPLACE_ELEM head (Some e) (Some a) mem"
proof (cases "head = None \<or> head = Some e")
  case False
  then have xs: "xs \<noteq> []" using is_ll_ne [OF assms(1)] by simp
  obtain r where r: "ll_links mem e = Some r" using assms(5) by fastforce
  obtain z where z: "z \<noteq> a" "mem z \<noteq> None" "\<And>q. ll_before head (Some e) (put_next a q mem) = Some (Some z)"
    "ll_add_link head (Some e) (Some a) mem = (case ll_links mem z of Some None \<Rightarrow> Some (put_next a (Some z) mem)
       | _ \<Rightarrow> Some (put_next z (Some a) (put_next a (Some z) mem)))"
    using ll_add_link_is [OF assms(1) xs assms(2,3), of "Some e"] by metis
  obtain s where s: "ll_links mem z = Some s" using z(2) by fastforce
  have "z \<noteq> e" using ll_before_not [OF z(3) [of None]] False by simp
  then show ?thesis using False z s r assms(2,4)
    by (cases s) (auto simp: LL_REPLACE_ELEM_nd_def LL_REPLACE_ELEM_def put_next_swap [of z a])
qed (use assms in \<open>auto simp: LL_REPLACE_ELEM_nd_def LL_REPLACE_ELEM_def bind_eq_Some_conv\<close>)

lemma LL_PREPEND_ELEM_variant:
  assumes "is_ll mem head xs" "mem a \<noteq> None" "a \<notin> set xs"
  shows "LL_PREPEND_ELEM_nd head el a mem = LL_PREPEND_ELEM head el a mem"
proof (cases "el = None \<or> head = None \<or> head = el")
  case False
  then have xs: "xs \<noteq> []" using is_ll_ne [OF assms(1)] by simp
  obtain z where z: "z \<noteq> a" "mem z \<noteq> None" "\<And>q. ll_before head el (put_next a q mem) = Some (Some z)"
    "ll_add_link head el (Some a) mem = (case ll_links mem z of Some None \<Rightarrow> Some (put_next a (Some z) mem)
       | _ \<Rightarrow> Some (put_next z (Some a) (put_next a (Some z) mem)))"
    using ll_add_link_is [OF assms(1) xs assms(2,3), of el] by metis
  obtain s where s: "ll_links mem z = Some s" using z(2) by fastforce
  show ?thesis
    using False z s assms(2)
    by (cases s) (auto simp: LL_PREPEND_ELEM_nd_def LL_PREPEND_ELEM_def put_next_swap [of z a])
qed (auto simp: LL_PREPEND_ELEM_nd_def LL_PREPEND_ELEM_def LL_APPEND_variant [OF assms])

lemma ll_head_bound_only:
  assumes "ll_head_bound p like cmp mem = Some r"
  shows "ll_bound p like cmp mem = Some r"
proof (rule ll_head_bound.raw_induct [where P = "\<lambda>p like cmp mem r. ll_bound p like cmp mem = Some r", OF _ assms])
  fix f p like cmp mem r
  assume IH: "\<And>p like cmp mem r. f p like cmp mem = Some r \<Longrightarrow> ll_bound p like cmp mem = Some r"
    and body: "get_next p mem \<bind> (\<lambda>q. if q \<noteq> None then cmp_at cmp q like mem \<bind> (\<lambda>c. if c < 0 then f q like cmp mem else Some p)
      else Some p) = Some r"
  from body obtain q where q: "get_next p mem = Some q" by (auto simp: bind_eq_Some_conv)
  show "ll_bound p like cmp mem = Some r"
  proof (cases q)
    case (Some b)
    then obtain c where "cmp_at cmp q like mem = Some c" using body q by (auto simp: bind_eq_Some_conv)
    then show ?thesis using body q Some IH by (subst ll_bound.simps) (auto simp: not_le not_less split: if_splits)
  qed (use body q in \<open>subst ll_bound.simps, simp\<close>)
qed

lemma ll_head_bound_all:
  assumes "ll_bound p like cmp mem = Some r"
  shows "ll_head_bound p like cmp mem = Some r \<and> r \<noteq> None"
proof (rule ll_bound.raw_induct [where P = "\<lambda>p like cmp mem r. ll_head_bound p like cmp mem = Some r \<and> r \<noteq> None", OF _ assms])
  fix f p like cmp mem r
  assume IH: "\<And>p like cmp mem r. f p like cmp mem = Some r \<Longrightarrow> ll_head_bound p like cmp mem = Some r \<and> r \<noteq> None"
    and body: "get_next p mem \<bind> (\<lambda>q. if q = None then Some p else cmp_at cmp q like mem \<bind> (\<lambda>c. if 0 \<le> c then Some p else f q like cmp mem))
      = Some r"
  from body obtain q where q: "get_next p mem = Some q" by (auto simp: bind_eq_Some_conv)
  then have p: "p \<noteq> None" by (cases p) simp_all
  show "ll_head_bound p like cmp mem = Some r \<and> r \<noteq> None"
  proof (cases q)
    case (Some b)
    then obtain c where "cmp_at cmp q like mem = Some c" using body q by (auto simp: bind_eq_Some_conv)
    then show ?thesis using body q p Some IH by (subst ll_head_bound.simps) (auto simp: not_le not_less split: if_splits)
  qed (use body q p in \<open>subst ll_head_bound.simps, simp\<close>)
qed

lemma ll_head_bound_eq: "ll_head_bound p like cmp mem = ll_bound p like cmp mem"
  using ll_head_bound_only ll_head_bound_all by (metis not_Some_eq)

lemma LL_INSERT_INORDER_variant: "LL_INSERT_INORDER_nd head a cmp mem = LL_INSERT_INORDER head a cmp mem"
proof (cases head)
  case None
  then show ?thesis by (simp add: LL_INSERT_INORDER_nd_def UTLIST_RS_def LL_INSERT_INORDER_def)
next
  case (Some x)
  then show ?thesis
    by (cases "mem a") (auto simp: LL_INSERT_INORDER_nd_def UTLIST_RS_def LL_INSERT_INORDER_def LL_LOWER_BOUND_def LL_APPEND_ELEM_def
        LL_PREPEND_def ll_head_bound_eq dest: ll_head_bound_all split: option.split bind_split)
qed

text \<open>The circular list: the two orders of the updates commute.\<close>

lemma dl_updates_swap: "dl_prev_update f (dl_next_update g n) = dl_next_update g (dl_prev_update f n)"
  by (cases n) simp

lemma put_pv_nx: "put_pv a q (put_nx b r mem) = put_nx b r (put_pv a q mem)"
  by (cases "a = b"; cases "mem a") (simp_all add: put_nx_def put_pv_def fun_upd_twist dl_updates_swap)

lemma put_nx_swap: "a \<noteq> b \<Longrightarrow> put_nx a q (put_nx b r mem) = put_nx b r (put_nx a q mem)"
  and put_pv_swap: "a \<noteq> b \<Longrightarrow> put_pv a q (put_pv b r mem) = put_pv b r (put_pv a q mem)"
  by (simp_all add: put_nx_def put_pv_def fun_upd_twist)

lemma dl_links_put_same [simp]:
  "mem a \<noteq> None \<Longrightarrow> dl_nx (put_nx a q mem) a = Some q" "mem a \<noteq> None \<Longrightarrow> dl_pv (put_pv a q mem) a = Some q"
  by (simp_all add: dl_nx_put dl_pv_put)

lemma dl_links_put_other [simp]:
  "b \<noteq> a \<Longrightarrow> dl_nx (put_nx a q mem) b = dl_nx mem b" "b \<noteq> a \<Longrightarrow> dl_pv (put_pv a q mem) b = dl_pv mem b"
  by (simp_all add: dl_nx_def dl_pv_def)

lemma dl_walk_nd_list:
  assumes "seg (dl_nx mem) p (x # xs) tmp" "dl_cmp_is cmp e c mem (set xs)" "tmp \<notin> Some ` set xs"
  shows "dl_walk_nd tmp p e cmp mem = Some (Some (last (x # takeWhile (\<lambda>a. c a < 0) xs)))"
  using assms
proof (induction xs arbitrary: p x)
  case Nil
  then show ?case by (subst dl_walk_nd.simps) auto
next
  case (Cons y ys)
  from Cons.prems(1,3) have p: "p = Some x" "dl_nx mem x = Some (Some y)" "Some y \<noteq> tmp"
    "seg (dl_nx mem) (Some y) (y # ys) tmp" by auto
  have "dl_cmp_is cmp e c mem (set ys)" "tmp \<notin> Some ` set ys" using Cons.prems(2,3) by (auto simp: dl_cmp_is_def)
  note IH = Cons.IH [OF p(4) this]
  have "dl_cmp cmp (Some y) e mem = Some (c y)" by (rule dl_cmp_at [OF Cons.prems(2)]) simp
  with IH p show ?case by (subst dl_walk_nd.simps) (auto simp: not_le not_less)
qed

text \<open>The neighbours of a node of the ring are nodes of the ring.\<close>

lemma is_cdl_neighbours:
  assumes "is_cdl mem head xs" "x \<in> set xs"
  obtains n p where "dl_nx mem x = Some (Some n)" "n \<in> set xs" "dl_pv mem x = Some (Some p)" "p \<in> set xs"
proof -
  from assms(2) obtain us vs where xs: "xs = us @ x # vs" by (meson split_list)
  have r: "ring (dl_nx mem) (dl_pv mem) (us @ x # vs)" using assms(1) by (simp add: xs is_cdl_ne)
  then have r1: "ring (dl_nx mem) (dl_pv mem) ((vs @ us) @ [x])" by (simp add: ring_turn [of _ _ us x vs])
  have r2: "ring (dl_nx mem) (dl_pv mem) (x # vs @ us)" using r ring_rotate [of _ _ us "x # vs"] by simp
  have "hd ((vs @ us) @ [x]) \<in> set ((vs @ us) @ [x])" "last (x # vs @ us) \<in> set (x # vs @ us)"
    by (rule hd_in_set, simp) (rule last_in_set, simp)
  then have "hd ((vs @ us) @ [x]) \<in> set xs" "last (x # vs @ us) \<in> set xs" unfolding xs by auto
  moreover have "dl_nx mem x = Some (Some (hd ((vs @ us) @ [x])))" using ring_last(1) [OF r1] by simp
  moreover have "dl_pv mem x = Some (Some (last (x # vs @ us)))" using ring_head(1) [OF r2] by simp
  ultimately show thesis using that by blast
qed

lemma CDL_INSERT_INORDER_variant:
  assumes l: "is_cdl mem head xs" and a: "dl_data mem a = Some v" "a \<notin> set xs" and c: "dl_cmp_is cmp v c mem (set xs)"
  shows "CDL_INSERT_INORDER_nd head a cmp mem = CDL_INSERT_INORDER head a cmp mem"
proof (cases head)
  case None
  then show ?thesis
    by (cases "mem a") (simp_all add: CDL_INSERT_INORDER_nd_def CDL_INSERT_INORDER_def set_Some put_pv_nx)
next
  case (Some x)
  from a(1) obtain n where n: "mem a = Some n" "dl_val n = v" by (auto simp: dl_data_def)
  from l Some obtain zs where xs: "xs = x # zs" by (cases xs) (auto simp: is_cdl_ne)
  have r: "ring (dl_nx mem) (dl_pv mem) (x # zs)" using l by (simp add: xs is_cdl_ne)
  have cx: "dl_cmp cmp (Some x) v mem = Some (c x)" by (rule dl_cmp_at [OF c]) (simp add: xs)
  have ne: "b \<noteq> a \<and> mem b \<noteq> None" if "b \<in> set xs" for b using that a(2) is_cdl_mapped [OF l] by auto
  show ?thesis
  proof (cases "c x < 0")
    case False
    obtain p where p: "dl_pv mem x = Some (Some p)" "p \<in> set xs" using is_cdl_neighbours [OF l, of x] xs by auto
    show ?thesis using False cx n p(1) ne [of x] ne [OF p(2)] Some xs
      by (simp add: CDL_INSERT_INORDER_nd_def CDL_INSERT_INORDER_def CDL_LOWER_BOUND_def CDL_APPEND_ELEM_def CDL_PREPEND_def
          set_Some put_pv_nx)
  next
    case True
    have s: "seg (dl_nx mem) (Some x) (x # zs) (Some x)" using r unfolding ring_def by (metis dseg_seg list.sel(1))
    have d: "Some x \<notin> Some ` set zs" using ring_distinct [OF r] by auto
    have cz: "dl_cmp_is cmp v c mem (set zs)" using c by (simp add: xs dl_cmp_is_def)
    let ?h = "last (x # takeWhile (\<lambda>a. c a < 0) zs)"
    have "?h \<in> set (x # takeWhile (\<lambda>a. c a < 0) zs)" by (rule last_in_set) simp
    then have h: "?h \<in> set xs" unfolding xs by (auto dest: set_takeWhileD)
    obtain q where q: "dl_nx mem ?h = Some (Some q)" "q \<in> set xs" using is_cdl_neighbours [OF l h] by blast
    note w = dl_walk_nd_list [OF s cz d] cdl_bound_list [OF s cz d]
    have "CDL_LOWER_BOUND (Some x) v cmp mem = Some (Some ?h)" using True cx w(2) by (simp add: CDL_LOWER_BOUND_def del: last.simps)
    then show ?thesis using True cx n w(1) q(1) ne [OF h] ne [OF q(2)] Some
      by (simp add: CDL_INSERT_INORDER_nd_def CDL_INSERT_INORDER_def CDL_APPEND_ELEM_def set_Some put_pv_nx put_nx_swap put_pv_swap
          del: last.simps)
  qed
qed

section \<open>Walks that may take the node away, and searches for a value\<close>

text \<open>
  The bodies work on the head and the memory.  The safe walks have read the next pointer before the body
  runs, and the circular one knows beforehand which node is the last; the plain walk reads it after.
\<close>

type_synonym 'm walk_state = "addr option \<times> 'm"
type_synonym 'm walk_body = "addr \<Rightarrow> 'm walk_state \<Rightarrow> 'm walk_state option"

partial_function (option) LL_FOREACH_DO :: "'a ll_mem walk_body \<Rightarrow> addr option \<Rightarrow> 'a ll_mem walk_state \<Rightarrow> 'a ll_mem walk_state option" where
  "LL_FOREACH_DO body el s = (case el of None \<Rightarrow> Some s
     | Some a \<Rightarrow> do { s1 \<leftarrow> body a s; q \<leftarrow> get_next el (snd s1); LL_FOREACH_DO body q s1 })"

partial_function (option) LL_FOREACH_SAFE :: "'a ll_mem walk_body \<Rightarrow> addr option \<Rightarrow> 'a ll_mem walk_state \<Rightarrow> 'a ll_mem walk_state option" where
  "LL_FOREACH_SAFE body el s = (case el of None \<Rightarrow> Some s
     | Some a \<Rightarrow> do { tmp \<leftarrow> get_next el (snd s); s1 \<leftarrow> body a s; LL_FOREACH_SAFE body tmp s1 })"

partial_function (option) DL_FOREACH_SAFE :: "'a dl_mem walk_body \<Rightarrow> addr option \<Rightarrow> 'a dl_mem walk_state \<Rightarrow> 'a dl_mem walk_state option" where
  "DL_FOREACH_SAFE body el s = (case el of None \<Rightarrow> Some s
     | Some a \<Rightarrow> do { tmp \<leftarrow> get_nx el (snd s); s1 \<leftarrow> body a s; DL_FOREACH_SAFE body tmp s1 })"

partial_function (option) cdl_foreach_safe ::
    "'a dl_mem walk_body \<Rightarrow> addr option \<Rightarrow> addr option \<Rightarrow> 'a dl_mem walk_state \<Rightarrow> 'a dl_mem walk_state option" where
  "cdl_foreach_safe body tmp1 el s = (case el of None \<Rightarrow> Some s
     | Some a \<Rightarrow> do {
         tmp2 \<leftarrow> get_nx el (snd s);
         s1 \<leftarrow> body a s;
         cdl_foreach_safe body tmp1 (if el = tmp1 then None else tmp2) s1 })"

definition CDL_FOREACH_SAFE :: "'a dl_mem walk_body \<Rightarrow> addr option \<Rightarrow> 'a dl_mem walk_state \<Rightarrow> 'a dl_mem walk_state option" where
  "CDL_FOREACH_SAFE body head s = do {
     tmp1 \<leftarrow> (if head \<noteq> None then get_pv head (snd s) else Some None);
     cdl_foreach_safe body tmp1 head s }"

text \<open>A search for the first structure with a given value in some field.\<close>

partial_function (option) LL_SEARCH_SCALAR :: "addr option \<Rightarrow> ('a \<Rightarrow> 'b) \<Rightarrow> 'b \<Rightarrow> 'a ll_mem \<Rightarrow> addr option option" where
  "LL_SEARCH_SCALAR out field val mem = (case out of None \<Rightarrow> Some None
     | Some a \<Rightarrow> do {
         n \<leftarrow> mem a;
         if field (ll_val n) = val then Some out else do { q \<leftarrow> get_next out mem; LL_SEARCH_SCALAR q field val mem } })"

partial_function (option) DL_SEARCH_SCALAR :: "addr option \<Rightarrow> ('a \<Rightarrow> 'b) \<Rightarrow> 'b \<Rightarrow> 'a dl_mem \<Rightarrow> addr option option" where
  "DL_SEARCH_SCALAR out field val mem = (case out of None \<Rightarrow> Some None
     | Some a \<Rightarrow> do {
         n \<leftarrow> mem a;
         if field (dl_val n) = val then Some out else do { q \<leftarrow> get_nx out mem; DL_SEARCH_SCALAR q field val mem } })"

partial_function (option) cdl_search_scalar :: "addr option \<Rightarrow> addr option \<Rightarrow> ('a \<Rightarrow> 'b) \<Rightarrow> 'b \<Rightarrow> 'a dl_mem \<Rightarrow> addr option option" where
  "cdl_search_scalar head out field val mem = (case out of None \<Rightarrow> Some None
     | Some a \<Rightarrow> do {
         n \<leftarrow> mem a;
         if field (dl_val n) = val then Some out
         else do { q \<leftarrow> get_nx out mem; cdl_search_scalar head (if q = head then None else q) field val mem } })"

definition CDL_SEARCH_SCALAR :: "addr option \<Rightarrow> ('a \<Rightarrow> 'b) \<Rightarrow> 'b \<Rightarrow> 'a dl_mem \<Rightarrow> addr option option" where
  "CDL_SEARCH_SCALAR head field val mem = cdl_search_scalar head head field val mem"

lemma LL_SEARCH_SCALAR_list:
  "chain (ll_links mem) p xs \<Longrightarrow> LL_SEARCH_SCALAR p field val mem = Some (find (\<lambda>a. map_option field (ll_data mem a) = Some val) xs)"
proof (induction xs arbitrary: p)
  case (Cons x xs)
  then show ?case by (auto simp: LL_SEARCH_SCALAR.simps [of "Some x"] ll_data_def ll_links_def)
qed (simp add: LL_SEARCH_SCALAR.simps)

lemma DL_SEARCH_SCALAR_list:
  "chain (dl_nx mem) p xs \<Longrightarrow> DL_SEARCH_SCALAR p field val mem = Some (find (\<lambda>a. map_option field (dl_data mem a) = Some val) xs)"
proof (induction xs arbitrary: p)
  case (Cons x xs)
  then show ?case by (auto simp: DL_SEARCH_SCALAR.simps [of "Some x"] dl_data_def dl_nx_def)
qed (simp add: DL_SEARCH_SCALAR.simps)

lemma CDL_SEARCH_SCALAR_list:
  assumes "is_cdl mem head xs"
  shows "CDL_SEARCH_SCALAR head field val mem = Some (find (\<lambda>a. map_option field (dl_data mem a) = Some val) xs)"
proof -
  have "cdl_search_scalar head p field val mem = Some (find (\<lambda>a. map_option field (dl_data mem a) = Some val) xs)"
    if "chain (cs_links head mem) p xs" for p
    using that
  proof (induction xs arbitrary: p)
    case (Cons x xs)
    then obtain r where r: "p = Some x" "cs_links head mem x = Some r" "chain (cs_links head mem) r xs" by auto
    moreover from r(2) obtain n where "mem x = Some n" "r = (if dl_next n = head then None else dl_next n)"
      by (auto simp: cs_links_def2 dl_nx_def bind_eq_Some_conv)
    ultimately have n: "p = Some x" "mem x = Some n" "chain (cs_links head mem) (if dl_next n = head then None else dl_next n) xs" by simp_all
    then show ?case using Cons.IH [OF n(3)]
      by (auto simp: cdl_search_scalar.simps [of head "Some x"] dl_data_def dl_nx_def)
  qed (simp add: cdl_search_scalar.simps)
  then show ?thesis using is_cdl_chain [OF assms] by (simp add: CDL_SEARCH_SCALAR_def)
qed

subsection \<open>Emptying a list\<close>

text \<open>The body takes the node off the list and frees it.\<close>

definition free_node :: "addr \<Rightarrow> (addr \<Rightarrow> 'n option) \<Rightarrow> addr \<Rightarrow> 'n option" where
  "free_node a m = m(a := None)"

lemma free_node_other [simp]: "b \<noteq> a \<Longrightarrow> free_node a m b = m b"
  by (simp add: free_node_def)

definition drop_node :: "(addr option \<Rightarrow> addr \<Rightarrow> (addr \<Rightarrow> 'n option) \<Rightarrow> (addr option \<times> (addr \<Rightarrow> 'n option)) option) \<Rightarrow>
    (addr \<Rightarrow> 'n option) walk_body" where
  "drop_node del a s = do { (h, m) \<leftarrow> del (fst s) a (snd s); Some (h, free_node a m) }"

lemma drop_node_at: "drop_node del a (h, m) = map_option (\<lambda>(h', m'). (h', free_node a m')) (del h a m)"
  by (cases "del h a m") (auto simp: drop_node_def)

lemma restrict_all [simp]: "m |` UNIV = m"
  by (simp add: restrict_map_def)

lemma restrict_drop: "free_node x m1 |` (- set xs) = m |` (- set (x # xs))" if "\<And>b. b \<notin> set (x # xs) \<Longrightarrow> m1 b = m b"
  using that by (auto simp: restrict_map_def fun_eq_iff free_node_def)

lemma LL_FOREACH_SAFE_drop:
  "is_ll m h xs \<Longrightarrow> LL_FOREACH_SAFE (drop_node (\<lambda>h a. LL_DELETE h (Some a))) h (h, m) = Some (None, m |` (- set xs))"
proof (induction xs arbitrary: h m)
  case (Cons x xs)
  then obtain r where r: "h = Some x" "ll_links m x = Some r" "chain (ll_links m) r xs" by (auto simp: is_ll_def)
  have x: "x \<notin> set xs" using is_ll_distinct [OF Cons.prems] by simp
  have "chain (ll_links (free_node x m)) r xs"
    by (subst chain_cong [of xs _ "ll_links m"]) (use r(3) x in \<open>auto simp: ll_links_def free_node_def\<close>)
  then have "LL_FOREACH_SAFE (drop_node (\<lambda>h a. LL_DELETE h (Some a))) r (r, free_node x m) = Some (None, free_node x m |` (- set xs))"
    by (intro Cons.IH) (simp add: is_ll_def)
  moreover have "LL_DELETE h (Some x) m = Some (r, m)" using r by (simp add: LL_DELETE_def)
  ultimately show ?case using r restrict_drop [of x xs m m]
    by (simp add: LL_FOREACH_SAFE.simps [of _ "Some x"] drop_node_at)
qed (simp add: is_ll_def LL_FOREACH_SAFE.simps)

lemma is_dl_unmap: "x \<notin> set xs \<Longrightarrow> is_dl (free_node x m) h xs \<longleftrightarrow> is_dl m h xs"
  and is_cdl_unmap: "x \<notin> set xs \<Longrightarrow> is_cdl (free_node x m) h xs \<longleftrightarrow> is_cdl m h xs"
proof -
  assume x: "x \<notin> set xs"
  have "dseg (dl_nx (free_node x m)) (dl_pv (free_node x m)) b p xs e t \<longleftrightarrow> dseg (dl_nx m) (dl_pv m) b p xs e t" for b p e t
    by (rule dseg_cong) (use x in \<open>auto simp: dl_nx_def dl_pv_def free_node_def\<close>)
  then show "is_dl (free_node x m) h xs \<longleftrightarrow> is_dl m h xs" "is_cdl (free_node x m) h xs \<longleftrightarrow> is_cdl m h xs"
    by (simp_all add: is_dl_def is_cdl_def ring_def)
qed

lemma DL_FOREACH_SAFE_drop:
  "is_dl m h xs \<Longrightarrow> DL_FOREACH_SAFE (drop_node DL_DELETE) h (h, m) = Some (None, m |` (- set xs))"
proof (induction xs arbitrary: h m)
  case (Cons x xs)
  obtain r where r: "h = Some x" "dl_nx m x = Some r" "chain (dl_nx m) r xs" using is_dl_chain [OF Cons.prems] by auto
  obtain h1 m1 where d: "DL_DELETE h x m = Some (h1, m1)" "is_dl m1 h1 xs" "dl_upd (set (x # xs)) m m1"
    using DL_DELETE_list [of m h "[]" x xs] Cons.prems by auto
  have x: "x \<notin> set xs" using is_dl_distinct [OF Cons.prems] by simp
  have "h1 = r" using d(2) r(3) is_dl_head [OF d(2)] by (cases xs) auto
  moreover have "DL_FOREACH_SAFE (drop_node DL_DELETE) h1 (h1, free_node x m1) = Some (None, free_node x m1 |` (- set xs))"
    by (rule Cons.IH [OF is_dl_unmap [OF x, THEN iffD2, OF d(2)]])
  moreover have "free_node x m1 |` (- set xs) = m |` (- set (x # xs))"
    by (rule restrict_drop) (use d(3) in \<open>simp add: dl_upd_def\<close>)
  ultimately show ?case using r d(1)
    by (simp add: DL_FOREACH_SAFE.simps [of _ "Some x"] drop_node_at)
qed (simp add: DL_FOREACH_SAFE.simps)

lemma cdl_foreach_safe_drop:
  "is_cdl m h xs \<Longrightarrow> xs \<noteq> [] \<Longrightarrow> cdl_foreach_safe (drop_node CDL_DELETE) (Some (last xs)) h (h, m) = Some (None, m |` (- set xs))"
proof (induction xs arbitrary: h m)
  case (Cons x xs)
  have h: "h = Some x" using Cons.prems(1) by (simp add: is_cdl_ne)
  obtain h1 m1 where d: "CDL_DELETE h x m = Some (h1, m1)" "is_cdl m1 h1 xs" "dl_upd (set (x # xs)) m m1"
    using CDL_DELETE_list [of m h "[]" x xs] Cons.prems by auto
  have dist: "distinct (x # xs)" by (rule is_cdl_distinct [OF Cons.prems(1)])
  obtain q where q: "dl_nx m x = Some (Some q)" using is_cdl_neighbours [OF Cons.prems(1), of x] by auto
  have m1: "free_node x m1 |` (- set xs) = m |` (- set (x # xs))"
    by (rule restrict_drop) (use d(3) in \<open>simp add: dl_upd_def\<close>)
  show ?case
  proof (cases xs)
    case Nil
    then have "h1 = None" "free_node x m1 = m |` (- {x})"
      using d(2,3) by (auto simp: dl_upd_def restrict_map_def fun_eq_iff free_node_def)
    then show ?thesis using h q d(1) Nil
      by (simp add: drop_node_at cdl_foreach_safe.simps [of _ _ "Some x"] cdl_foreach_safe.simps [of _ _ None])
  next
    case (Cons y ys)
    have "h1 = Some y" using d(2) Cons by (simp add: is_cdl_ne)
    moreover have "q = y" using Cons.prems(1) Cons q by (simp add: is_cdl_ne ring_def)
    moreover have "x \<noteq> last xs" using dist Cons last_in_set [of xs] by auto
    moreover have "cdl_foreach_safe (drop_node CDL_DELETE) (Some (last xs)) h1 (h1, free_node x m1) = Some (None, free_node x m1 |` (- set xs))"
      using Cons.IH [of "free_node x m1" h1] d(2) dist Cons by (simp add: is_cdl_unmap)
    ultimately show ?thesis using h q d(1) m1 Cons
      by (simp add: drop_node_at cdl_foreach_safe.simps [of _ _ "Some x"])
  qed
qed simp

lemma CDL_FOREACH_SAFE_drop:
  assumes "is_cdl m h xs"
  shows "CDL_FOREACH_SAFE (drop_node CDL_DELETE) h (h, m) = Some (None, m |` (- set xs))"
proof (cases xs)
  case Nil
  then show ?thesis using assms by (simp add: CDL_FOREACH_SAFE_def cdl_foreach_safe.simps)
next
  case (Cons x zs)
  have "ring (dl_nx m) (dl_pv m) xs" "h = Some (hd xs)" using assms Cons by (simp_all add: is_cdl_ne)
  then show ?thesis using cdl_foreach_safe_drop [OF assms] Cons ring_head(1) [of "dl_nx m" "dl_pv m" xs]
    by (simp add: CDL_FOREACH_SAFE_def)
qed

lemma LL_FOREACH_DO_drop:
  assumes "is_ll m h xs" "xs \<noteq> []"
  shows "LL_FOREACH_DO (drop_node (\<lambda>h a. LL_DELETE h (Some a))) h (h, m) = None"
proof (cases xs)
  case (Cons x ys)
  then obtain r where r: "h = Some x" "ll_links m x = Some r" using assms by (auto simp: is_ll_def)
  then show ?thesis by (simp add: LL_FOREACH_DO.simps drop_node_def LL_DELETE_def get_next_def ll_links_def free_node_def)
qed (use assms in simp)

section \<open>The properties\<close>

text \<open>
  C36: Seven of the macros that are written again for compilers without decltype do what the ordinary ones do:
  LL-CONCAT, LL-DELETE and LL-INSERT-INORDER always; LL-APPEND, LL-REPLACE-ELEM, LL-PREPEND-ELEM and
  CDL-INSERT-INORDER on a list the node to be added is not on.  They give the same head and the same memory, node
  for node, though they walk with the head or with the next pointer of the new node.  The eighth,
  DL-INSERT-INORDER, does not agree (it is in UtDList), and nothing is said here of the sorts, which
  keep the head in the same way.
\<close>

theorem decltype_variants_agree:
  assumes "is_ll m head xs" "m a \<noteq> None" "a \<notin> set xs" "m e \<noteq> None" "e \<noteq> a"
    "is_cdl m3 h3 ys" "dl_data m3 b = Some v" "b \<notin> set ys" "dl_cmp_is cmp v c m3 (set ys)"
  shows "LL_CONCAT_nd h1 h2 mem = LL_CONCAT h1 h2 mem \<and> LL_DELETE_nd h1 del mem = LL_DELETE h1 del mem \<and>
    LL_INSERT_INORDER_nd h1 add cmp mem = LL_INSERT_INORDER h1 add cmp mem \<and>
    LL_APPEND_nd head a m = LL_APPEND head a m \<and>
    LL_REPLACE_ELEM_nd head (Some e) (Some a) m = LL_REPLACE_ELEM head (Some e) (Some a) m \<and>
    LL_PREPEND_ELEM_nd head el a m = LL_PREPEND_ELEM head el a m \<and>
    CDL_INSERT_INORDER_nd h3 b cmp m3 = CDL_INSERT_INORDER h3 b cmp m3"
  using LL_CONCAT_variant LL_DELETE_variant LL_INSERT_INORDER_variant LL_APPEND_variant [OF assms(1-3)]
    LL_REPLACE_ELEM_variant [OF assms(1-3) _ assms(4)] LL_PREPEND_ELEM_variant [OF assms(1-3)]
    CDL_INSERT_INORDER_variant [OF assms(6-9)] assms(5) by blast

theorem decltype_variants_agree_witness:
  "(\<exists>h m. LL_APPEND_nd (Some 0) 7 three_nodes = Some (h, m) \<and> is_ll m h [0, 1, 2, 7]) \<and>
   (\<exists>h m. LL_PREPEND_ELEM_nd (Some 0) (Some 1) 7 three_nodes = Some (h, m) \<and> is_ll m h [0, 7, 1, 2])"
proof -
  have m: "three_nodes 7 \<noteq> None" "three_nodes 1 \<noteq> None" by (simp_all add: three_nodes_def)
  note t = decltype_variants_agree [OF three_nodes_list m(1) _ m(2) _, of "three_ring(7 \<mapsto> \<lparr>dl_prev = None, dl_next = None, dl_val = 0\<rparr>)"
    None "[]" 7 0 "\<lambda>x y. Some (x - y)" "\<lambda>_. 0" _ _ _ _ _ "Some 1"]
  have "LL_APPEND_nd (Some 0) 7 three_nodes = LL_APPEND (Some 0) 7 three_nodes \<and>
    LL_PREPEND_ELEM_nd (Some 0) (Some 1) 7 three_nodes = LL_PREPEND_ELEM (Some 0) (Some 1) 7 three_nodes"
    using t by (simp add: dl_data_def dl_cmp_is_def)
  then show ?thesis
    using LL_APPEND_list [OF three_nodes_list m(1)] LL_PREPEND_ELEM_list [of three_nodes "Some 0" "[0]" 1 "[2]" 7] three_nodes_list m
    by fastforce
qed

text \<open>
  C37: A safe walk may take away the node it stands on: emptying a list by deleting and freeing each node in
  turn visits them all, for each kind of list, and ends with no head, every node of the list freed
  and nothing else touched.  The plain walk reads a next pointer from freed memory at once.
\<close>

theorem foreach_safe_empties:
  assumes "is_ll m1 h1 (x # xs)" "is_dl m2 h2 ys" "is_cdl m3 h3 zs"
  shows "LL_FOREACH_SAFE (drop_node (\<lambda>h a. LL_DELETE h (Some a))) h1 (h1, m1) = Some (None, m1 |` (- set (x # xs))) \<and>
    DL_FOREACH_SAFE (drop_node DL_DELETE) h2 (h2, m2) = Some (None, m2 |` (- set ys)) \<and>
    CDL_FOREACH_SAFE (drop_node CDL_DELETE) h3 (h3, m3) = Some (None, m3 |` (- set zs)) \<and>
    LL_FOREACH_DO (drop_node (\<lambda>h a. LL_DELETE h (Some a))) h1 (h1, m1) = None"
  using LL_FOREACH_SAFE_drop [OF assms(1)] DL_FOREACH_SAFE_drop [OF assms(2)] CDL_FOREACH_SAFE_drop [OF assms(3)]
    LL_FOREACH_DO_drop [OF assms(1)] by blast

theorem foreach_safe_empties_witness:
  "CDL_FOREACH_SAFE (drop_node CDL_DELETE) (Some 0) (Some 0, three_ring) = Some (None, three_ring |` (- {0, 1, 2})) \<and>
   LL_FOREACH_SAFE (drop_node (\<lambda>h a. LL_DELETE h (Some a))) (Some 0) (Some 0, three_nodes) = Some (None, three_nodes |` (- {0, 1, 2}))"
proof -
  have d: "is_dl three_dl (Some 0) [0, 1, 2]" by (simp add: is_dl_ne dl_nx_def dl_pv_def three_dl_def)
  have c: "is_cdl three_ring (Some 0) [0, 1, 2]"
    by (simp add: is_cdl_ne ring_def dl_nx_def dl_pv_def three_ring_def three_dl_def)
  show ?thesis using foreach_safe_empties [OF three_nodes_list d c] by simp
qed

text \<open>
  The searches for a value find the first node whose field has it, in every kind of list.
\<close>

theorem search_scalar_finds:
  assumes "is_ll m1 h1 xs" "is_dl m2 h2 ys" "is_cdl m3 h3 zs"
  shows "LL_SEARCH_SCALAR h1 field val m1 = Some (find (\<lambda>a. map_option field (ll_data m1 a) = Some val) xs) \<and>
    DL_SEARCH_SCALAR h2 field val m2 = Some (find (\<lambda>a. map_option field (dl_data m2 a) = Some val) ys) \<and>
    CDL_SEARCH_SCALAR h3 field val m3 = Some (find (\<lambda>a. map_option field (dl_data m3 a) = Some val) zs)"
  by (intro conjI LL_SEARCH_SCALAR_list [OF assms(1) [unfolded is_ll_def]] DL_SEARCH_SCALAR_list [OF is_dl_chain [OF assms(2)]]
    CDL_SEARCH_SCALAR_list [OF assms(3)])

end
