(* ===== verification/SignalTest.thy ===== *)
theory SignalTest
  imports Prelude "HOL-Library.Word"
begin

text \<open>
  The program uv_signal.c, libuv's own test of signal watchers: timers raise signals, watchers count them.  The
  contexts and callbacks are those of the program.  Of libuv the model has what the program relies on
  and its documentation says: raise hands the signal to every started watcher of it (with none it does what
  the system does by default, which for SIGUSR1 and SIGUSR2 is to kill the program), a watcher's
  callback runs once for each signal it caught and gets the number it was started with, a stopped or
  closed handle is not called again, and uv-run returns when no handle is active; it returns non-zero
  only with active handles.  The order in which the loop finds things to do is a list of events.  What
  the calls return that set up and start the handles is an argument uv: uv n is the result of
  the n-th of them, and the program asserts that it is zero.
\<close>

section \<open>The contexts and the callbacks\<close>

datatype signo = SIGCHLD | SIGUSR1 | SIGUSR2

datatype stop_or_close = CLOSE | STOP

definition NSIGNALS :: "32 word" where
  "NSIGNALS = 10"

record timer_ctx =
  tc_ncalls :: "32 word"
  tc_active :: bool
  tc_signum :: signo

text \<open>
  The handle of a watcher: whether it is started, for which signal, and how many signals it has caught but not yet
  reported.  The signal of the context is another field, which the callback compares with the one it is given.
\<close>

record signal_ctx =
  sc_stop_or_close :: stop_or_close
  sc_ncalls :: "32 word"
  sc_active :: bool
  sc_caught :: nat
  sc_watching :: "signo option"
  sc_signum :: signo

text \<open>None is the end of the program by a failed assertion.  Stopping and closing differ in what may be done with the handle later on.\<close>

definition signal_cb :: "signo \<Rightarrow> signal_ctx \<Rightarrow> signal_ctx option" where
  "signal_cb signum ctx =
     (if signum \<noteq> sc_signum ctx then None
      else let ctx1 = ctx\<lparr>sc_ncalls := sc_ncalls ctx + 1\<rparr> in
        if sc_ncalls ctx1 = NSIGNALS
        then (case sc_stop_or_close ctx1 of
            STOP \<Rightarrow> Some (ctx1\<lparr>sc_active := False, sc_caught := 0\<rparr>)
          | CLOSE \<Rightarrow> Some (ctx1\<lparr>sc_active := False, sc_caught := 0\<rparr>))
        else Some ctx1)"

text \<open>The timer callback and the signal it raises.\<close>

definition timer_cb :: "timer_ctx \<Rightarrow> signo \<times> timer_ctx" where
  "timer_cb ctx =
     (let ctx1 = ctx\<lparr>tc_ncalls := tc_ncalls ctx + 1\<rparr> in
      (tc_signum ctx, if tc_ncalls ctx1 = NSIGNALS then ctx1\<lparr>tc_active := False\<rparr> else ctx1))"

text \<open>Starting a watcher, which is done only when the call returns zero.\<close>

definition uv_signal_start :: "int \<Rightarrow> signo \<Rightarrow> signal_ctx \<Rightarrow> signal_ctx" where
  "uv_signal_start r signum ctx = (if r = 0 then ctx\<lparr>sc_active := True, sc_watching := Some signum\<rparr> else ctx)"

definition uv_timer_start :: "int \<Rightarrow> timer_ctx \<Rightarrow> timer_ctx" where
  "uv_timer_start r ctx = (if r = 0 then ctx\<lparr>tc_active := True\<rparr> else ctx)"

text \<open>The two calls here are those numbered n and n + 1; None is again a failed assertion.\<close>

definition start_watcher :: "(nat \<Rightarrow> int) \<Rightarrow> nat \<Rightarrow> signo \<Rightarrow> signal_ctx option" where
  "start_watcher uv n signum =
     (let ctx = \<lparr>sc_stop_or_close = CLOSE, sc_ncalls = 0, sc_active = False, sc_caught = 0, sc_watching = None, sc_signum = signum\<rparr> in
      if 0 \<noteq> uv n then None
      else let ctx1 = uv_signal_start (uv (n + 1)) signum ctx in
        if 0 \<noteq> uv (n + 1) then None else Some ctx1)"

definition start_timer :: "(nat \<Rightarrow> int) \<Rightarrow> nat \<Rightarrow> signo \<Rightarrow> timer_ctx option" where
  "start_timer uv n signum =
     (let ctx = \<lparr>tc_ncalls = 0, tc_active = False, tc_signum = signum\<rparr> in
      if 0 \<noteq> uv n then None
      else let ctx1 = uv_timer_start (uv (n + 1)) ctx in
        if 0 \<noteq> uv (n + 1) then None else Some ctx1)"

section \<open>The loop\<close>

record uv_loop =
  timers :: "timer_ctx list"
  watchers :: "signal_ctx list"

text \<open>
  A signal that is raised reaches the started watchers.  With merging a watcher keeps at most one signal that it has
  not reported, as plain signals may be merged while they are pending.
\<close>

definition catch_signal :: "bool \<Rightarrow> signo \<Rightarrow> signal_ctx \<Rightarrow> signal_ctx" where
  "catch_signal merging g ctx =
     (if sc_active ctx \<and> sc_watching ctx = Some g \<and> \<not> (merging \<and> 0 < sc_caught ctx)
      then ctx\<lparr>sc_caught := Suc (sc_caught ctx)\<rparr> else ctx)"

datatype uv_event = Timer_due nat | Signal_ready nat

definition uv_enabled :: "uv_event \<Rightarrow> uv_loop \<Rightarrow> bool" where
  "uv_enabled e s = (case e of
       Timer_due i \<Rightarrow> i < length (timers s) \<and> tc_active (timers s ! i)
     | Signal_ready j \<Rightarrow> j < length (watchers s) \<and> sc_active (watchers s ! j) \<and> sc_watching (watchers s ! j) \<noteq> None \<and>
         0 < sc_caught (watchers s ! j))"

text \<open>What the system does to a signal that no watcher is started for: it ignores SIGCHLD, and the others kill the program.\<close>

definition raise_kills :: "signo \<Rightarrow> uv_loop \<Rightarrow> bool" where
  "raise_kills g s \<longleftrightarrow> g \<noteq> SIGCHLD \<and> \<not> list_ex (\<lambda>w. sc_active w \<and> sc_watching w = Some g) (watchers s)"

definition uv_dispatch :: "bool \<Rightarrow> uv_event \<Rightarrow> uv_loop \<Rightarrow> uv_loop option" where
  "uv_dispatch merging e s = (case e of
       Timer_due i \<Rightarrow> (let (g, t) = timer_cb (timers s ! i) in
         if raise_kills g s then None else
         Some (s\<lparr>timers := (timers s)[i := t], watchers := map (catch_signal merging g) (watchers s)\<rparr>))
     | Signal_ready j \<Rightarrow> (let w = watchers s ! j in
         map_option (\<lambda>w'. s\<lparr>watchers := (watchers s)[j := w']\<rparr>)
           (signal_cb (the (sc_watching w)) (w\<lparr>sc_caught := sc_caught w - 1\<rparr>))))"

definition uv_alive :: "uv_loop \<Rightarrow> bool" where
  "uv_alive s \<longleftrightarrow> list_ex tc_active (timers s) \<or> list_ex sc_active (watchers s)"

datatype 'a outcome = Returned 'a "uv_event list" | Waiting | Aborted

text \<open>Its result: nothing in the program calls uv-stop, so it returns with nothing active.\<close>

definition uv_run_result :: "uv_loop \<Rightarrow> int" where
  "uv_run_result s = (if uv_alive s then 1 else 0)"

text \<open>uv-run takes the events one after another, passing over what it cannot do, and waits when there are no more.\<close>

fun uv_run :: "bool \<Rightarrow> uv_loop \<Rightarrow> uv_event list \<Rightarrow> uv_loop outcome" where
  "uv_run merging s [] = (if uv_alive s then Waiting else Returned s [])"
| "uv_run merging s (e # es) =
     (if \<not> uv_alive s then Returned s (e # es)
      else if \<not> uv_enabled e s then uv_run merging s es
      else (case uv_dispatch merging e s of None \<Rightarrow> Aborted | Some s' \<Rightarrow> uv_run merging s' es))"

definition run_then :: "'a outcome \<Rightarrow> ('a \<Rightarrow> uv_event list \<Rightarrow> 'b outcome) \<Rightarrow> 'b outcome" where
  "run_then r f = (case r of Returned x es \<Rightarrow> f x es | Waiting \<Rightarrow> Waiting | Aborted \<Rightarrow> Aborted)"

section \<open>The tests\<close>

definition all_called :: "uv_loop \<Rightarrow> bool" where
  "all_called s \<longleftrightarrow> list_all (\<lambda>t. tc_ncalls t = NSIGNALS) (timers s) \<and> list_all (\<lambda>w. sc_ncalls w = NSIGNALS) (watchers s)"

definition run_and_check :: "bool \<Rightarrow> uv_loop \<Rightarrow> uv_event list \<Rightarrow> uv_loop outcome" where
  "run_and_check merging s es = run_then (uv_run merging s es)
     (\<lambda>s' es'. if 0 \<noteq> uv_run_result s' then Aborted else if all_called s' then Returned s' es' else Aborted)"

text \<open>A start that may fail an assertion, and what follows it.\<close>

definition asserted :: "'a option \<Rightarrow> ('a \<Rightarrow> 'b outcome) \<Rightarrow> 'b outcome" where
  "asserted x f = (case x of None \<Rightarrow> Aborted | Some y \<Rightarrow> f y)"

definition we_get_signal_start :: "(nat \<Rightarrow> int) \<Rightarrow> uv_loop option" where
  "we_get_signal_start uv = do {
     tc \<leftarrow> start_timer uv 0 SIGCHLD;
     sc \<leftarrow> start_watcher uv 2 SIGCHLD;
     Some \<lparr>timers = [tc], watchers = [sc\<lparr>sc_stop_or_close := STOP\<rparr>]\<rparr> }"

text \<open>The call that starts the watcher again, number 6, is the one whose result is not looked at.\<close>

definition run_test_we_get_signal :: "(nat \<Rightarrow> int) \<Rightarrow> bool \<Rightarrow> uv_event list \<Rightarrow> int outcome" where
  "run_test_we_get_signal uv merging es =
     asserted (we_get_signal_start uv) (\<lambda>s0.
     run_then (run_and_check merging s0 es) (\<lambda>s1 es1.
       asserted (start_timer uv 4 SIGCHLD) (\<lambda>tc1.
       run_then (run_and_check merging (s1\<lparr>timers := [tc1]\<rparr>) es1) (\<lambda>s2 es2.
         let ws = map (\<lambda>w. uv_signal_start (uv 6) SIGCHLD (w\<lparr>sc_ncalls := 0, sc_stop_or_close := CLOSE\<rparr>)) (watchers s2) in
         asserted (start_timer uv 7 SIGCHLD) (\<lambda>tc2.
         run_then (run_and_check merging \<lparr>timers = [tc2], watchers = ws\<rparr> es2) (\<lambda>s3 es3. Returned 0 es3))))))"

definition we_get_signals_start :: "(nat \<Rightarrow> int) \<Rightarrow> uv_loop option" where
  "we_get_signals_start uv = do {
     w0 \<leftarrow> start_watcher uv 0 SIGUSR1;
     w1 \<leftarrow> start_watcher uv 2 SIGUSR1;
     w2 \<leftarrow> start_watcher uv 4 SIGUSR2;
     w3 \<leftarrow> start_watcher uv 6 SIGUSR2;
     t0 \<leftarrow> start_timer uv 8 SIGUSR1;
     t1 \<leftarrow> start_timer uv 10 SIGUSR2;
     Some \<lparr>timers = [t0, t1], watchers = [w0, w1, w2, w3]\<rparr> }"

definition run_test_we_get_signals :: "(nat \<Rightarrow> int) \<Rightarrow> bool \<Rightarrow> uv_event list \<Rightarrow> int outcome" where
  "run_test_we_get_signals uv merging es =
     asserted (we_get_signals_start uv) (\<lambda>s. run_then (run_and_check merging s es) (\<lambda>s' es'. Returned 0 es'))"

text \<open>The program runs the second test only.\<close>

definition signal_main :: "(nat \<Rightarrow> int) \<Rightarrow> bool \<Rightarrow> uv_event list \<Rightarrow> int outcome" where
  "signal_main uv merging es = run_then (run_test_we_get_signals uv merging es) (\<lambda>_ es'. Returned 0 es')"

section \<open>What every step keeps\<close>

text \<open>A handle is active, and watches its context's signal, until it has been called NSIGNALS times, whatever the signals do.\<close>

definition timer_ok :: "timer_ctx \<Rightarrow> bool" where
  "timer_ok t \<longleftrightarrow> (if tc_active t then tc_ncalls t < NSIGNALS else tc_ncalls t = NSIGNALS)"

definition watcher_ok :: "signal_ctx \<Rightarrow> bool" where
  "watcher_ok w \<longleftrightarrow> (if sc_active w then sc_ncalls w < NSIGNALS \<and> sc_watching w = Some (sc_signum w)
     else sc_ncalls w = NSIGNALS \<and> sc_caught w = 0)"

text \<open>A signal that would kill the program has a watcher, which no timer of it falls behind; so the watcher is started when the timer is.\<close>

definition heard :: "uv_loop \<Rightarrow> bool" where
  "heard s \<longleftrightarrow> distinct (map tc_signum (timers s)) \<and>
     (\<forall>t\<in>set (timers s). tc_signum t \<noteq> SIGCHLD \<longrightarrow> tc_signum t \<in> set (map sc_signum (watchers s)) \<and>
       (\<forall>w\<in>set (watchers s). sc_signum w = tc_signum t \<longrightarrow> unat (sc_ncalls w) + sc_caught w \<le> unat (tc_ncalls t)))"

definition counts_ok :: "uv_loop \<Rightarrow> bool" where
  "counts_ok s \<longleftrightarrow> (\<forall>t\<in>set (timers s). timer_ok t) \<and> (\<forall>w\<in>set (watchers s). watcher_ok w) \<and> heard s"

text \<open>
  Without merging nothing is lost: each started watcher has reported or caught every signal that the one timer of
  its signal raised.
\<close>

definition nothing_lost :: "uv_loop \<Rightarrow> bool" where
  "nothing_lost s \<longleftrightarrow> distinct (map tc_signum (timers s)) \<and>
     (\<forall>w\<in>set (watchers s). sc_active w \<longrightarrow> sc_signum w \<in> tc_signum ` set (timers s) \<and>
       (\<forall>t\<in>set (timers s). tc_signum t = sc_signum w \<longrightarrow> unat (tc_ncalls t) = unat (sc_ncalls w) + sc_caught w))"

definition calls_left :: "uv_loop \<Rightarrow> nat" where
  "calls_left s = sum_list (map (\<lambda>t. 10 - unat (tc_ncalls t)) (timers s)) + sum_list (map (\<lambda>w. 10 - unat (sc_ncalls w)) (watchers s))"

lemma next_call:
  assumes "n < NSIGNALS"
  shows "n + 1 = NSIGNALS \<or> n + 1 < NSIGNALS" "unat (n + 1) = Suc (unat n)" "unat n < 10"
proof -
  show l: "unat n < 10" using assms by (simp add: NSIGNALS_def word_less_nat_alt)
  then show s: "unat (n + 1) = Suc (unat n)" by (simp add: unat_word_ariths)
  show "n + 1 = NSIGNALS \<or> n + 1 < NSIGNALS"
    using l s by (auto simp: NSIGNALS_def word_less_nat_alt word_unat_eq_iff)
qed

lemma unat_NSIGNALS [simp]: "unat NSIGNALS = 10"
  by (simp add: NSIGNALS_def)

lemma timer_cb_ok:
  assumes "timer_ok t" "tc_active t" "timer_cb t = (g, t')"
  shows "timer_ok t'" "g = tc_signum t" "tc_signum t' = tc_signum t" "unat (tc_ncalls t') = Suc (unat (tc_ncalls t))" "unat (tc_ncalls t) < 10"
  using assms next_call [of "tc_ncalls t"] by (auto simp: timer_cb_def timer_ok_def Let_def split: if_splits)

lemma signal_cb_ok:
  assumes "watcher_ok w" "sc_active w"
  obtains w' where "signal_cb (sc_signum w) (w\<lparr>sc_caught := n\<rparr>) = Some w'" "watcher_ok w'" "sc_signum w' = sc_signum w"
    "unat (sc_ncalls w') = Suc (unat (sc_ncalls w))" "sc_active w' \<longrightarrow> sc_caught w' = n" "unat (sc_ncalls w) < 10"
  using assms next_call [of "sc_ncalls w"]
  by (cases "sc_stop_or_close w"; cases "sc_ncalls w + 1 = NSIGNALS") (auto simp: signal_cb_def watcher_ok_def Let_def)

lemma catch_signal_keeps [simp]:
  "sc_ncalls (catch_signal m g w) = sc_ncalls w" "sc_watching (catch_signal m g w) = sc_watching w" "sc_active (catch_signal m g w) = sc_active w" "sc_signum (catch_signal m g w) = sc_signum w"
  "watcher_ok (catch_signal m g w) = watcher_ok w"
  by (simp_all add: catch_signal_def watcher_ok_def)

lemma sum_list_less: "i < length xs \<Longrightarrow> f y < (f (xs ! i) :: nat) \<Longrightarrow> sum_list (map f (xs[i := y])) < sum_list (map f xs)"
proof (induction xs arbitrary: i)
  case (Cons x xs)
  then show ?case by (cases i) auto
qed simp

lemma set_update: "i < length xs \<Longrightarrow> z \<in> set (xs[i := y]) \<Longrightarrow> z = y \<or> (\<exists>k<length xs. k \<noteq> i \<and> z = xs ! k)"
  by (metis in_set_conv_nth length_list_update nth_list_update)

lemma not_killed:
  assumes c: "counts_ok s" and t: "t \<in> set (timers s)" "tc_active t"
  shows "\<not> raise_kills (tc_signum t) s"
proof
  assume k: "raise_kills (tc_signum t) s"
  then obtain w where w: "w \<in> set (watchers s)" "sc_signum w = tc_signum t" "unat (sc_ncalls w) + sc_caught w \<le> unat (tc_ncalls t)"
    using c t(1) by (fastforce simp: counts_ok_def heard_def raise_kills_def)
  moreover have "unat (tc_ncalls t) < 10" using c t next_call(3) by (auto simp: counts_ok_def timer_ok_def)
  ultimately have "sc_active w" "sc_watching w = Some (tc_signum t)"
    using c by (auto simp: counts_ok_def watcher_ok_def split: if_splits)
  then show False using k w(1) by (auto simp: raise_kills_def list_ex_iff)
qed

lemma heard_timer:
  assumes h: "heard s" and i: "i < length (timers s)" and t: "tc_signum t' = tc_signum (timers s ! i)"
    "unat (tc_ncalls t') = Suc (unat (tc_ncalls (timers s ! i)))"
    and w: "\<forall>w\<in>set (watchers s). sc_active w \<longrightarrow> sc_watching w = Some (sc_signum w)"
  shows "heard (s\<lparr>timers := (timers s)[i := t'], watchers := map (catch_signal merging (tc_signum t')) (watchers s)\<rparr>)"
proof -
  have names: "map tc_signum ((timers s)[i := t']) = map tc_signum (timers s)"
    using i t(1) by (simp add: map_update list_update_same_conv)
  have ti: "timers s ! i \<in> set (timers s)" using i by simp
  have "unat (sc_ncalls v) + sc_caught (catch_signal merging (tc_signum t') v) \<le> unat (tc_ncalls u)"
    if u: "u \<in> set ((timers s)[i := t'])" "tc_signum u \<noteq> SIGCHLD" and v: "v \<in> set (watchers s)" "sc_signum v = tc_signum u" for u v
    using set_update [OF i u(1)]
  proof
    assume "u = t'"
    then have "unat (sc_ncalls v) + sc_caught v \<le> unat (tc_ncalls (timers s ! i))" using h ti u(2) v t(1) by (simp add: heard_def)
    then show ?thesis using \<open>u = t'\<close> t(2) by (simp add: catch_signal_def)
  next
    assume "\<exists>k<length (timers s). k \<noteq> i \<and> u = timers s ! k"
    then obtain k where k: "k < length (timers s)" "k \<noteq> i" "u = timers s ! k" by blast
    then have "tc_signum u \<noteq> tc_signum t'"
      using h i t(1) nth_eq_iff_index_eq [of "map tc_signum (timers s)" k i] by (simp add: heard_def)
    then show ?thesis using h u(2) v k w by (auto simp: heard_def catch_signal_def)
  qed
  moreover have "tc_signum u \<in> set (map sc_signum (watchers s))" if "u \<in> set ((timers s)[i := t'])" "tc_signum u \<noteq> SIGCHLD" for u
    using h set_update [OF i that(1)] ti t(1) that(2) by (fastforce simp: heard_def)
  ultimately show ?thesis using h names unfolding heard_def by simp
qed

lemma timer_step:
  assumes c: "counts_ok s" and e: "uv_enabled (Timer_due i) s"
  obtains s' where "uv_dispatch merging (Timer_due i) s = Some s'" "counts_ok s'" "calls_left s' < calls_left s"
    "map sc_signum (watchers s') = map sc_signum (watchers s)" "nothing_lost s \<and> \<not> merging \<longrightarrow> nothing_lost s'"
proof -
  let ?t = "timers s ! i"
  have i: "i < length (timers s)" "tc_active ?t" and ok: "timer_ok ?t" using e c by (auto simp: uv_enabled_def counts_ok_def)
  obtain g t' where cb: "timer_cb ?t = (g, t')" by fastforce
  note t = timer_cb_ok [OF ok i(2) cb]
  let ?s = "s\<lparr>timers := (timers s)[i := t'], watchers := map (catch_signal merging g) (watchers s)\<rparr>"
  show ?thesis
  proof (rule that [of ?s])
    show "uv_dispatch merging (Timer_due i) s = Some ?s"
      using not_killed [OF c nth_mem [OF i(1)] i(2)] t(2) by (simp add: uv_dispatch_def cb)
    have "heard ?s" using heard_timer [OF _ i(1) t(3,4), of merging] c t(2,3) by (simp add: counts_ok_def watcher_ok_def)
    then show "counts_ok ?s" using c t(1) set_update_subset_insert [of "timers s" i t'] by (auto simp: counts_ok_def)
    have "sum_list (map (\<lambda>t. 10 - unat (tc_ncalls t)) ((timers s)[i := t'])) < sum_list (map (\<lambda>t. 10 - unat (tc_ncalls t)) (timers s))"
      by (rule sum_list_less [OF i(1)]) (use t in simp)
    then show "calls_left ?s < calls_left s" by (simp add: calls_left_def o_def)
    show "map sc_signum (watchers ?s) = map sc_signum (watchers s)" by simp
    show "nothing_lost s \<and> \<not> merging \<longrightarrow> nothing_lost ?s"
    proof (intro impI, elim conjE)
      assume n: "nothing_lost s" "\<not> merging"
      have names: "map tc_signum ((timers s)[i := t']) = map tc_signum (timers s)"
        using i(1) t(3) by (simp add: map_update list_update_same_conv)
      then have sets: "tc_signum ` set ((timers s)[i := t']) = tc_signum ` set (timers s)" by (metis set_map)
      have "unat (tc_ncalls u) = unat (sc_ncalls w) + sc_caught (catch_signal merging g w)"
        if w: "w \<in> set (watchers s)" "sc_active w" and u: "u \<in> set ((timers s)[i := t'])" "tc_signum u = sc_signum w" for w u
        using set_update [OF i(1) u(1)]
      proof
        assume "u = t'"
        then have "unat (tc_ncalls ?t) = unat (sc_ncalls w) + sc_caught w \<and> sc_signum w = g"
          using n(1) w u(2) t(2,3) i(1) by (auto simp: nothing_lost_def)
        moreover have "sc_watching w = Some (sc_signum w)" using c w by (simp add: counts_ok_def watcher_ok_def)
        ultimately show ?thesis using \<open>u = t'\<close> t(4) w(2) n(2) by (simp add: catch_signal_def)
      next
        assume "\<exists>k<length (timers s). k \<noteq> i \<and> u = timers s ! k"
        then obtain k where k: "k < length (timers s)" "k \<noteq> i" "u = timers s ! k" by blast
        then have "tc_signum u \<noteq> g"
          using n(1) i(1) t(2) nth_eq_iff_index_eq [of "map tc_signum (timers s)" k i] by (simp add: nothing_lost_def)
        moreover have "sc_watching w = Some (sc_signum w)" using c w by (simp add: counts_ok_def watcher_ok_def)
        ultimately show ?thesis using n(1) w u(2) k by (simp add: nothing_lost_def catch_signal_def)
      qed
      then show "nothing_lost ?s" using n(1) names sets by (auto simp: nothing_lost_def)
    qed
  qed
qed

lemma signal_step:
  assumes c: "counts_ok s" and e: "uv_enabled (Signal_ready j) s"
  obtains s' where "uv_dispatch merging (Signal_ready j) s = Some s'" "counts_ok s'" "calls_left s' < calls_left s"
    "map sc_signum (watchers s') = map sc_signum (watchers s)" "nothing_lost s \<longrightarrow> nothing_lost s'"
proof -
  let ?w = "watchers s ! j"
  have j: "j < length (watchers s)" "sc_active ?w" "0 < sc_caught ?w" and ok: "watcher_ok ?w"
    using e c by (auto simp: uv_enabled_def counts_ok_def)
  obtain w' where w: "signal_cb (sc_signum ?w) (?w\<lparr>sc_caught := sc_caught ?w - 1\<rparr>) = Some w'" "watcher_ok w'"
    "sc_signum w' = sc_signum ?w" "unat (sc_ncalls w') = Suc (unat (sc_ncalls ?w))" "sc_active w' \<longrightarrow> sc_caught w' = sc_caught ?w - 1"
    "unat (sc_ncalls ?w) < 10"
    by (rule signal_cb_ok [OF ok j(2), where n = "sc_caught (watchers s ! j) - 1"])
  let ?s = "s\<lparr>watchers := (watchers s)[j := w']\<rparr>"
  show ?thesis
  proof (rule that [of ?s])
    show "uv_dispatch merging (Signal_ready j) s = Some ?s"
      using w(1) ok j(2) by (simp add: uv_dispatch_def watcher_ok_def Let_def)
    have h: "heard s" using c by (simp add: counts_ok_def)
    have names: "map sc_signum ((watchers s)[j := w']) = map sc_signum (watchers s)"
      using j(1) w(3) by (simp add: map_update list_update_same_conv)
    have "unat (sc_ncalls w') + sc_caught w' = unat (sc_ncalls ?w) + sc_caught ?w \<or> sc_caught w' = 0 \<and> unat (sc_ncalls w') = Suc (unat (sc_ncalls ?w))"
      using w(2,4,5) j(3) by (auto simp: watcher_ok_def split: if_splits)
    then have "unat (sc_ncalls v) + sc_caught v \<le> unat (tc_ncalls t)"
      if "t \<in> set (timers s)" "tc_signum t \<noteq> SIGCHLD" "v \<in> set ((watchers s)[j := w'])" "sc_signum v = tc_signum t" for t v
      using set_update [OF j(1) that(3)] that h j w(3) nth_mem [OF j(1)] by (fastforce simp: heard_def)
    then have "heard ?s" using h names unfolding heard_def by simp
    then show "counts_ok ?s" using c w(2) set_update_subset_insert [of "watchers s" j w'] by (auto simp: counts_ok_def)
    have "sum_list (map (\<lambda>w. 10 - unat (sc_ncalls w)) ((watchers s)[j := w'])) < sum_list (map (\<lambda>w. 10 - unat (sc_ncalls w)) (watchers s))"
      by (rule sum_list_less [OF j(1)]) (use w(4,6) in simp)
    then show "calls_left ?s < calls_left s" by (simp add: calls_left_def)
    show "map sc_signum (watchers ?s) = map sc_signum (watchers s)" using names by simp
    show "nothing_lost s \<longrightarrow> nothing_lost ?s"
    proof
      assume n: "nothing_lost s"
      then have "\<forall>v\<in>set (watchers s). sc_active v \<longrightarrow> sc_signum v \<in> tc_signum ` set (timers s) \<and>
          (\<forall>t\<in>set (timers s). tc_signum t = sc_signum v \<longrightarrow> unat (tc_ncalls t) = unat (sc_ncalls v) + sc_caught v)"
        by (simp add: nothing_lost_def)
      moreover have "?w \<in> set (watchers s)" using j(1) by simp
      ultimately have "sc_active w' \<longrightarrow> sc_signum w' \<in> tc_signum ` set (timers s) \<and>
          (\<forall>t\<in>set (timers s). tc_signum t = sc_signum w' \<longrightarrow> unat (tc_ncalls t) = unat (sc_ncalls w') + sc_caught w')"
        using w(3-5) j(2,3) by fastforce
      then show "nothing_lost ?s" using n set_update_subset_insert [of "watchers s" j w'] by (auto simp: nothing_lost_def)
    qed
  qed
qed

lemma any_step:
  assumes "counts_ok s" "uv_enabled e s"
  obtains s' where "uv_dispatch merging e s = Some s'" "counts_ok s'" "calls_left s' < calls_left s"
    "map sc_signum (watchers s') = map sc_signum (watchers s)" "nothing_lost s \<and> \<not> merging \<longrightarrow> nothing_lost s'"
proof (cases e)
  case (Timer_due i)
  then show thesis using timer_step [OF assms(1), of i merging] assms(2) that by blast
next
  case (Signal_ready j)
  then show thesis using signal_step [OF assms(1), of j merging] assms(2) that by blast
qed

text \<open>As long as some handle is active, a timer is due or a signal was caught.\<close>

lemma never_stuck:
  assumes c: "counts_ok s" and n: "nothing_lost s" and a: "uv_alive s"
  shows "\<exists>e. uv_enabled e s"
proof (cases "list_ex tc_active (timers s)")
  case True
  then obtain i where "i < length (timers s)" "tc_active (timers s ! i)" by (auto simp: list_ex_length)
  then show ?thesis by (intro exI [of _ "Timer_due i"]) (simp add: uv_enabled_def)
next
  case False
  then obtain j where j: "j < length (watchers s)" "sc_active (watchers s ! j)" using a by (auto simp: uv_alive_def list_ex_length)
  let ?w = "watchers s ! j"
  have w: "?w \<in> set (watchers s)" using j(1) by simp
  then obtain t where t: "t \<in> set (timers s)" "unat (tc_ncalls t) = unat (sc_ncalls ?w) + sc_caught ?w"
    using n j(2) by (fastforce simp: nothing_lost_def)
  have "tc_ncalls t = NSIGNALS" using False c t(1) by (auto simp: list_ex_iff counts_ok_def timer_ok_def)
  moreover have "unat (sc_ncalls ?w) < 10" using c w j(2) next_call(3) by (auto simp: counts_ok_def watcher_ok_def)
  ultimately have "0 < sc_caught ?w" using t(2) by simp
  moreover have "sc_watching ?w \<noteq> None" using c w j(2) by (simp add: counts_ok_def watcher_ok_def)
  ultimately show ?thesis using j by (intro exI [of _ "Signal_ready j"]) (simp add: uv_enabled_def)
qed


section \<open>Runs\<close>

text \<open>
  A part of the program is safe when no assertion in it fails, and it ends when, whatever has happened so far, some
  further events bring it to its end, leaving what comes after them alone.
\<close>

definition safe :: "(uv_event list \<Rightarrow> 'a outcome) \<Rightarrow> ('a \<Rightarrow> bool) \<Rightarrow> bool" where
  "safe f P \<longleftrightarrow> (\<forall>es. case f es of Returned x rest \<Rightarrow> P x | Waiting \<Rightarrow> True | Aborted \<Rightarrow> False)"

definition ends :: "(uv_event list \<Rightarrow> 'a outcome) \<Rightarrow> ('a \<Rightarrow> bool) \<Rightarrow> bool" where
  "ends f P \<longleftrightarrow> (\<forall>es. \<exists>es' x rest. P x \<and> (\<forall>more. f (es @ es' @ more) = Returned x (rest @ more)))"

lemma safe_then: "safe f P \<Longrightarrow> (\<And>x. P x \<Longrightarrow> safe (g x) Q) \<Longrightarrow> safe (\<lambda>es. run_then (f es) g) Q"
  unfolding safe_def run_then_def by (fastforce split: outcome.splits)

lemma ends_then:
  assumes f: "ends f P" and g: "\<And>x. P x \<Longrightarrow> ends (g x) Q"
  shows "ends (\<lambda>es. run_then (f es) g) Q"
  unfolding ends_def
proof
  fix es
  obtain e1 x r1 where 1: "P x" "\<forall>more. f (es @ e1 @ more) = Returned x (r1 @ more)" using f unfolding ends_def by blast
  obtain e2 y r2 where 2: "Q y" "\<forall>more. g x (r1 @ e2 @ more) = Returned y (r2 @ more)" using g [OF 1(1)] unfolding ends_def by blast
  have "run_then (f (es @ (e1 @ e2) @ more)) g = Returned y (r2 @ more)" for more
    using 1(2) [rule_format, of "e2 @ more"] 2(2) by (simp add: run_then_def)
  then show "\<exists>es' z rest. Q z \<and> (\<forall>more. run_then (f (es @ es' @ more)) g = Returned z (rest @ more))" using 2(1) by blast
qed

lemma run_then_Returned: "run_then r f = Returned x rest \<longleftrightarrow> (\<exists>y es. r = Returned y es \<and> f y es = Returned x rest)"
  by (simp add: run_then_def split: outcome.split)

lemma asserted_Returned: "asserted q f = Returned x rest \<longleftrightarrow> (\<exists>y. q = Some y \<and> f y = Returned x rest)"
  by (simp add: asserted_def split: option.split)

lemma safe_result: "safe f P \<Longrightarrow> f es \<noteq> Aborted" "safe f P \<Longrightarrow> f es = Returned x rest \<Longrightarrow> P x"
  unfolding safe_def by (auto split: outcome.splits)

lemma safe_return: "P x \<Longrightarrow> safe (Returned x) P"
  by (simp add: safe_def)

lemma ends_return: "P x \<Longrightarrow> ends (Returned x) P"
  unfolding ends_def by (metis append.assoc)

lemma return_zero: "safe (\<lambda>es. Returned 0 es) (\<lambda>r. r = 0)" "ends (\<lambda>es. Returned 0 es) (\<lambda>r. r = 0)"
  using safe_return [of "\<lambda>r. r = 0" 0] ends_return [of "\<lambda>r. r = 0" 0] by simp_all

text \<open>What holds when uv-run returns: no handle is active, so all were called NSIGNALS times.\<close>

definition run_done :: "signo list \<Rightarrow> uv_loop \<Rightarrow> bool" where
  "run_done gs s \<longleftrightarrow> counts_ok s \<and> \<not> uv_alive s \<and> map sc_signum (watchers s) = gs"

lemma run_done_called: "run_done gs s \<Longrightarrow> all_called s" "run_done gs s \<Longrightarrow> uv_run_result s = 0"
  by (auto simp: run_done_def counts_ok_def all_called_def uv_alive_def timer_ok_def watcher_ok_def list_all_iff list_ex_iff uv_run_result_def)

lemma uv_run_over: "\<not> uv_alive s \<Longrightarrow> uv_run merging s es = Returned s es"
  by (cases es) simp_all

lemma uv_run_safe: "counts_ok s \<Longrightarrow> map sc_signum (watchers s) = gs \<Longrightarrow> safe (uv_run merging s) (run_done gs)"
  unfolding safe_def
proof
  fix es
  show "counts_ok s \<Longrightarrow> map sc_signum (watchers s) = gs \<Longrightarrow>
      case uv_run merging s es of Returned x rest \<Rightarrow> run_done gs x | Waiting \<Rightarrow> True | Aborted \<Rightarrow> False"
  proof (induction es arbitrary: s)
    case (Cons e es)
    show ?case
    proof (cases "uv_alive s \<and> uv_enabled e s")
      case True
      then obtain s' where "uv_dispatch merging e s = Some s'" "counts_ok s'" "map sc_signum (watchers s') = gs"
        using any_step [OF Cons.prems(1), of e merging] Cons.prems(2) by metis
      then show ?thesis using True Cons.IH [of s'] by simp
    qed (use Cons in \<open>auto simp: run_done_def\<close>)
  qed (simp add: run_done_def)
qed

lemma uv_run_ends: "counts_ok s \<Longrightarrow> nothing_lost s \<Longrightarrow> map sc_signum (watchers s) = gs \<Longrightarrow> ends (uv_run False s) (run_done gs)"
  unfolding ends_def
proof
  fix es
  show "counts_ok s \<Longrightarrow> nothing_lost s \<Longrightarrow> map sc_signum (watchers s) = gs \<Longrightarrow>
      \<exists>es' x rest. run_done gs x \<and> (\<forall>more. uv_run False s (es @ es' @ more) = Returned x (rest @ more))"
  proof (induction "calls_left s + length es" arbitrary: s es rule: less_induct)
    case less
    have step: "\<exists>es' x rest. run_done gs x \<and> (\<forall>more. uv_run False s (e # fs @ es' @ more) = Returned x (rest @ more))"
      if e: "uv_enabled e s" "uv_alive s" and l: "length fs \<le> length es" for e fs
    proof -
      obtain s' where s': "uv_dispatch False e s = Some s'" "counts_ok s'" "calls_left s' < calls_left s"
        "map sc_signum (watchers s') = gs" "nothing_lost s'"
        using any_step [OF less.prems(1) e(1), of False] less.prems by metis
      then have "\<exists>es' x rest. run_done gs x \<and> (\<forall>more. uv_run False s' (fs @ es' @ more) = Returned x (rest @ more))"
        using less.hyps [of s' fs] l by simp
      then show ?thesis using e s'(1) by simp
    qed
    show ?case
    proof (cases "uv_alive s")
      case False
      then have "uv_run False s (es @ [] @ more) = Returned s (es @ more)" for more by (simp add: uv_run_over)
      then show ?thesis using less.prems False unfolding run_done_def by blast
    next
      case True
      show ?thesis
      proof (cases es)
        case Nil
        obtain e where "uv_enabled e s" using never_stuck [OF less.prems(1,2) True] by blast
        then obtain es' x rest where "run_done gs x" "\<forall>more. uv_run False s (e # [] @ es' @ more) = Returned x (rest @ more)"
          using step [of e "[]"] True by auto
        then show ?thesis using Nil by (intro exI [of _ "e # es'"]) auto
      next
        case (Cons e fs)
        show ?thesis
        proof (cases "uv_enabled e s")
          case True
          then show ?thesis using step [of e fs] \<open>uv_alive s\<close> Cons by simp
        next
          case False
          then show ?thesis using less.hyps [of s fs] less.prems \<open>uv_alive s\<close> Cons by simp
        qed
      qed
    qed
  qed
qed

text \<open>So the checks after a run succeed.\<close>

lemma run_and_check_safe: "counts_ok s \<Longrightarrow> map sc_signum (watchers s) = gs \<Longrightarrow> safe (run_and_check merging s) (run_done gs)"
  unfolding run_and_check_def
  by (rule safe_then [OF uv_run_safe]) (auto simp: run_done_called intro: safe_return)

lemma run_and_check_ends:
  "counts_ok s \<Longrightarrow> nothing_lost s \<Longrightarrow> map sc_signum (watchers s) = gs \<Longrightarrow> ends (run_and_check False s) (run_done gs)"
  unfolding run_and_check_def
  by (rule ends_then [OF uv_run_ends]) (auto simp: run_done_called intro: ends_return)

text \<open>The handles as a start that succeeds leaves them.\<close>

definition watcher_started :: "signo \<Rightarrow> signal_ctx" where
  "watcher_started g = \<lparr>sc_stop_or_close = CLOSE, sc_ncalls = 0, sc_active = True, sc_caught = 0, sc_watching = Some g, sc_signum = g\<rparr>"

definition timer_started :: "signo \<Rightarrow> timer_ctx" where
  "timer_started g = \<lparr>tc_ncalls = 0, tc_active = True, tc_signum = g\<rparr>"

lemma start_is:
  "start_watcher uv n g = (if uv n = 0 \<and> uv (n + 1) = 0 then Some (watcher_started g) else None)"
  "start_timer uv n g = (if uv n = 0 \<and> uv (n + 1) = 0 then Some (timer_started g) else None)"
  by (simp_all add: start_watcher_def start_timer_def uv_signal_start_def uv_timer_start_def watcher_started_def timer_started_def Let_def)

definition one_loop :: uv_loop where
  "one_loop = \<lparr>timers = [timer_started SIGCHLD], watchers = [(watcher_started SIGCHLD)\<lparr>sc_stop_or_close := STOP\<rparr>]\<rparr>"

definition four_loop :: uv_loop where
  "four_loop = \<lparr>timers = map timer_started [SIGUSR1, SIGUSR2], watchers = map watcher_started [SIGUSR1, SIGUSR1, SIGUSR2, SIGUSR2]\<rparr>"

lemma all_below: "(\<forall>n<numeral k. P n) \<longleftrightarrow> (\<forall>n<pred_numeral k. P n) \<and> P (pred_numeral k)"
  by (simp add: numeral_eq_Suc less_Suc_eq) blast

lemma all_below_one: "(\<forall>n<Suc 0. P n) \<longleftrightarrow> P 0"
  by simp

lemma starts_are:
  "we_get_signal_start uv = (if \<forall>n<4. uv n = 0 then Some one_loop else None)"
  "we_get_signals_start uv = (if \<forall>n<12. uv n = 0 then Some four_loop else None)"
  by (auto simp: we_get_signal_start_def we_get_signals_start_def start_is all_below one_loop_def four_loop_def)

lemma start_ok [simp]: "timer_ok (timer_started g)" "watcher_ok (watcher_started g)" "tc_signum (timer_started g) = g"
  by (simp_all add: timer_ok_def watcher_ok_def timer_started_def watcher_started_def NSIGNALS_def)

lemma starts_ok:
  "counts_ok one_loop" "nothing_lost one_loop" "map sc_signum (watchers one_loop) = [SIGCHLD]"
  "counts_ok four_loop" "nothing_lost four_loop"
  by (simp_all add: counts_ok_def nothing_lost_def one_loop_def four_loop_def)
    (simp_all add: watcher_started_def timer_started_def timer_ok_def watcher_ok_def heard_def NSIGNALS_def)

lemma second_start:
  assumes "run_done [SIGCHLD] s"
  shows "counts_ok (s\<lparr>timers := [timer_started SIGCHLD]\<rparr>)" "nothing_lost (s\<lparr>timers := [timer_started SIGCHLD]\<rparr>)"
    "map sc_signum (watchers (s\<lparr>timers := [timer_started SIGCHLD]\<rparr>)) = [SIGCHLD]"
  using assms by (auto simp: run_done_def counts_ok_def nothing_lost_def heard_def uv_alive_def list_ex_iff)

definition again :: "int \<Rightarrow> uv_loop \<Rightarrow> uv_loop" where
  "again r s = \<lparr>timers = [timer_started SIGCHLD],
     watchers = map (\<lambda>w. uv_signal_start r SIGCHLD (w\<lparr>sc_ncalls := 0, sc_stop_or_close := CLOSE\<rparr>)) (watchers s)\<rparr>"

lemma third_start:
  assumes "run_done [SIGCHLD] s"
  shows "counts_ok (again 0 s)" "nothing_lost (again 0 s)" "map sc_signum (watchers (again 0 s)) = [SIGCHLD]"
proof -
  obtain w where w: "watchers s = [w]" "sc_signum w = SIGCHLD" using assms(1) by (auto simp: run_done_def map_eq_Cons_conv)
  then have "sc_caught w = 0" using assms(1) by (auto simp: run_done_def counts_ok_def watcher_ok_def uv_alive_def)
  then show "counts_ok (again 0 s)" "nothing_lost (again 0 s)" "map sc_signum (watchers (again 0 s)) = [SIGCHLD]"
    using w by (simp_all add: again_def uv_signal_start_def counts_ok_def nothing_lost_def)
      (simp_all add: watcher_ok_def heard_def NSIGNALS_def timer_started_def)
qed

text \<open>The tests, when their starts succeed.\<close>

lemma we_get_signal_is:
  assumes "\<forall>n<4. uv n = 0" "\<forall>n\<in>{4, 5, 7, 8}. uv n = 0"
  shows "run_test_we_get_signal uv merging = (\<lambda>es. run_then (run_and_check merging one_loop es) (\<lambda>s1 es1.
       run_then (run_and_check merging (s1\<lparr>timers := [timer_started SIGCHLD]\<rparr>) es1) (\<lambda>s2 es2.
         run_then (run_and_check merging (again (uv 6) s2) es2) (\<lambda>s3 es3. Returned 0 es3))))"
  using assms by (simp add: run_test_we_get_signal_def asserted_def starts_are start_is again_def fun_eq_iff Let_def)

lemma we_get_signal_safe: "\<forall>n<9. uv n = 0 \<Longrightarrow> safe (run_test_we_get_signal uv merging) (\<lambda>r. r = 0)"
  by (subst we_get_signal_is, simp, simp, simp,
      rule safe_then [OF run_and_check_safe [OF starts_ok(1,3)]],
      rule safe_then [OF run_and_check_safe [OF second_start(1,3)]], assumption, assumption,
      rule safe_then [OF run_and_check_safe [OF third_start(1,3)]], assumption, assumption, rule return_zero(1))

lemma we_get_signal_ends: "\<forall>n<9. uv n = 0 \<Longrightarrow> ends (run_test_we_get_signal uv False) (\<lambda>r. r = 0)"
  by (subst we_get_signal_is, simp, simp, simp,
      rule ends_then [OF run_and_check_ends [OF starts_ok(1-3)]],
      rule ends_then [OF run_and_check_ends [OF second_start]], assumption, assumption, assumption,
      rule ends_then [OF run_and_check_ends [OF third_start]], assumption, assumption, assumption, rule return_zero(2))

lemma signal_main_is:
  "\<forall>n<12. uv n = 0 \<Longrightarrow> signal_main uv merging = (\<lambda>es. run_then (run_then (run_and_check merging four_loop es)
     (\<lambda>s es'. Returned (0::int) es')) (\<lambda>_ es'. Returned 0 es'))"
  "\<not> (\<forall>n<12. uv n = 0) \<Longrightarrow> signal_main uv merging es = Aborted"
  unfolding signal_main_def run_test_we_get_signals_def starts_are
  by (rule ext, subst if_P, assumption, simp add: asserted_def)
    (subst if_not_P, assumption, simp add: asserted_def run_then_def)

lemma signal_main_safe: "\<forall>n<12. uv n = 0 \<Longrightarrow> safe (signal_main uv merging) (\<lambda>r. r = 0)"
  by (subst signal_main_is, assumption)
    (rule safe_then [OF safe_then [OF run_and_check_safe [OF starts_ok(4) refl]]], (rule return_zero(1))+)

lemma signal_main_ends: "\<forall>n<12. uv n = 0 \<Longrightarrow> ends (signal_main uv False) (\<lambda>r. r = 0)"
  by (subst signal_main_is, assumption)
    (rule ends_then [OF ends_then [OF run_and_check_ends [OF starts_ok(4,5) refl]]], (rule return_zero(2))+)

text \<open>A watcher that was not started is never called, so that the check after the run finds it.\<close>

definition all_idle :: "uv_loop \<Rightarrow> bool" where
  "all_idle s \<longleftrightarrow> watchers s \<noteq> [] \<and> (\<forall>w\<in>set (watchers s). \<not> sc_active w \<and> sc_ncalls w = 0)"

lemma idle_run: "all_idle s \<Longrightarrow> run_and_check merging s es \<noteq> Returned x rest"
proof -
  have "all_idle s \<Longrightarrow> uv_run merging s es = Returned x rest \<Longrightarrow> all_idle x"
  proof (induction es arbitrary: s)
    case (Cons e es)
    show ?case
    proof (cases e)
      case (Timer_due i)
      then have "all_idle s'" if "uv_dispatch merging e s = Some s'" for s'
        using that Cons.prems(1) by (auto simp: uv_dispatch_def all_idle_def split: prod.splits if_splits)
      then show ?thesis using Cons by (auto split: if_splits option.splits)
    next
      case (Signal_ready j)
      then have "\<not> uv_enabled e s" using Cons.prems(1) by (auto simp: uv_enabled_def all_idle_def)
      then show ?thesis using Cons by (auto split: if_splits)
    qed
  qed (simp split: if_splits)
  moreover have "\<not> all_called x" if "all_idle x"
    using that by (cases "watchers x") (auto simp: all_idle_def all_called_def NSIGNALS_def)
  moreover assume "all_idle s"
  ultimately show ?thesis by (auto simp: run_and_check_def run_then_def split: outcome.splits if_splits)
qed

lemma again_idle: "run_done [SIGCHLD] s \<Longrightarrow> r \<noteq> 0 \<Longrightarrow> all_idle (again r s)"
  by (auto simp: all_idle_def again_def uv_signal_start_def run_done_def uv_alive_def list_ex_iff)

lemma we_get_signal_returns:
  assumes "run_test_we_get_signal uv merging es = Returned r rest"
  shows "r = 0 \<and> (\<forall>n<9. uv n = 0)"
proof -
  obtain s0 s1 es1 tc1 s2 es2 tc2 s3 es3 where s: "we_get_signal_start uv = Some s0" "run_and_check merging s0 es = Returned s1 es1"
    "start_timer uv 4 SIGCHLD = Some tc1" "run_and_check merging (s1\<lparr>timers := [tc1]\<rparr>) es1 = Returned s2 es2"
    "start_timer uv 7 SIGCHLD = Some tc2" "run_and_check merging (again (uv 6) s2\<lparr>timers := [tc2]\<rparr>) es2 = Returned s3 es3" "r = 0"
    using assms unfolding run_test_we_get_signal_def Let_def asserted_Returned run_then_Returned again_def by fastforce
  have u: "\<forall>n<4. uv n = 0" "uv 4 = 0" "uv 5 = 0" "uv 7 = 0" "uv 8 = 0" "s0 = one_loop" "tc1 = timer_started SIGCHLD"
    using s(1,3,5) by (simp_all add: starts_are start_is split: if_splits)
  have "run_done [SIGCHLD] s1"
    using safe_result(2) [OF run_and_check_safe [OF starts_ok(1,3), of merging]] s(2) u(6) by simp
  then have "run_done [SIGCHLD] s2"
    using safe_result(2) [OF run_and_check_safe [OF second_start(1,3), of s1 merging]] s(4) u(7) by simp
  then have "all_idle (again (uv 6) s2\<lparr>timers := [tc2]\<rparr>)" if "uv 6 \<noteq> 0" using again_idle [of s2 "uv 6"] that by (simp add: all_idle_def)
  then have "uv 6 = 0" using idle_run s(6) by blast
  then show ?thesis using u s(7) by (simp add: all_below)
qed

section \<open>The properties\<close>

text \<open>
  C38: The program aborts exactly when one of the calls that set up or start its handles fails: with these done no
  other assertion fails and no signal kills it, in whatever order the loop finds timers due and signals ready, even when pending signals
  are merged.  The same holds of the first test, which returns only when all nine of its calls succeeded, the one
  it does not look at among them.  And when no signal is merged each test can always still come to its end:
  whatever has happened, some further events make it return 0, with every timer and watcher called NSIGNALS times.
\<close>

theorem signal_tests_pass:
  "(signal_main uv merging es = Aborted \<longleftrightarrow> (\<exists>n<12. uv n \<noteq> 0)) \<and>
   ((\<forall>n<9. uv n = 0) \<longrightarrow> run_test_we_get_signal uv merging es \<noteq> Aborted) \<and>
   (run_test_we_get_signal uv merging es = Returned r rest \<longrightarrow> r = 0 \<and> (\<forall>n<9. uv n = 0)) \<and>
   ((\<forall>n<12. uv n = 0) \<longrightarrow> (\<exists>es' rest'. signal_main uv False (es @ es') = Returned 0 rest')) \<and>
   ((\<forall>n<9. uv n = 0) \<longrightarrow> (\<exists>es' rest'. run_test_we_get_signal uv False (es @ es') = Returned 0 rest'))"
proof (intro conjI impI)
  show "signal_main uv merging es = Aborted \<longleftrightarrow> (\<exists>n<12. uv n \<noteq> 0)"
  proof (cases "\<forall>n<12. uv n = 0")
    case True
    then show ?thesis using safe_result(1) [OF signal_main_safe [OF True, of merging], of es] by simp
  qed (auto simp: signal_main_is)
  show "run_test_we_get_signal uv merging es \<noteq> Aborted" if "\<forall>n<9. uv n = 0"
    by (rule safe_result(1) [OF we_get_signal_safe [OF that]])
  show "r = 0" "\<forall>n<9. uv n = 0" if "run_test_we_get_signal uv merging es = Returned r rest"
    using we_get_signal_returns [OF that] by simp_all
  show "\<exists>es' rest'. signal_main uv False (es @ es') = Returned 0 rest'" if "\<forall>n<12. uv n = 0"
    using signal_main_ends [OF that] unfolding ends_def by (metis append_Nil2)
  show "\<exists>es' rest'. run_test_we_get_signal uv False (es @ es') = Returned 0 rest'" if "\<forall>n<9. uv n = 0"
    using we_get_signal_ends [OF that] unfolding ends_def by (metis append_Nil2)
qed

text \<open>Calls that all succeed, and one that fails.\<close>

lemma signal_tests_pass_witness:
  "signal_main (\<lambda>_. 0) True [Timer_due 0, Signal_ready 0] \<noteq> Aborted \<and>
   signal_main (\<lambda>n. if n = 3 then -22 else 0) False [] = Aborted \<and>
   (\<exists>es rest. run_test_we_get_signal (\<lambda>_. 0) False es = Returned 0 rest) \<and>
   (\<exists>es rest. signal_main (\<lambda>_. 0) False (Timer_due 1 # es) = Returned 0 rest)"
proof (intro conjI)
  show "signal_main (\<lambda>_. 0) True [Timer_due 0, Signal_ready 0] \<noteq> Aborted" by (simp add: signal_tests_pass)
  show "signal_main (\<lambda>n. if n = 3 then -22 else 0) False [] = Aborted" by (subst signal_tests_pass [THEN conjunct1]) (auto intro: exI [of _ 3])
  show "\<exists>es rest. run_test_we_get_signal (\<lambda>_. 0) False es = Returned 0 rest" using signal_tests_pass [of "\<lambda>_. 0" False "[]"] by blast
  show "\<exists>es rest. signal_main (\<lambda>_. 0) False (Timer_due 1 # es) = Returned 0 rest"
    using signal_tests_pass [of "\<lambda>_. 0" False "[Timer_due 1]"] by simp
qed

text \<open>
  With merging the program may wait for ever: when the timers run before their watchers, each watcher is called once
  and nothing will call it again.
\<close>

lemma uv_run_stuck: "uv_alive s \<Longrightarrow> (\<And>e. \<not> uv_enabled e s) \<Longrightarrow> uv_run merging s es = Waiting"
  by (induction es) simp_all

definition timers_first :: "uv_event list" where
  "timers_first = map Timer_due [0, 0, 0, 0, 0, 0, 0, 0, 0, 0, 1, 1, 1, 1, 1, 1, 1, 1, 1, 1] @ map Signal_ready [0, 1, 2, 3]"

definition left_waiting :: uv_loop where
  "left_waiting = \<lparr>timers = map (\<lambda>g. (timer_started g)\<lparr>tc_ncalls := NSIGNALS, tc_active := False\<rparr>) [SIGUSR1, SIGUSR2],
     watchers = map (\<lambda>g. (watcher_started g)\<lparr>sc_ncalls := 1\<rparr>) [SIGUSR1, SIGUSR1, SIGUSR2, SIGUSR2]\<rparr>"

lemma update_four: "[a, b, c, d][2 := x] = [a, b, x, d]" "[a, b, c, d][3 := x] = [a, b, c, x]"
  by (simp_all add: numeral_2_eq_2 numeral_3_eq_3)

lemma timers_first_run: "uv_run True four_loop (timers_first @ es) = uv_run True left_waiting es"
  by (simp add: timers_first_def left_waiting_def four_loop_def update_four uv_alive_def uv_enabled_def uv_dispatch_def
      raise_kills_def timer_cb_def signal_cb_def catch_signal_def timer_started_def watcher_started_def NSIGNALS_def Let_def)

theorem merged_signals_hang: "\<exists>es. \<forall>more. signal_main (\<lambda>_. 0) True (es @ more) = Waiting"
proof
  have "uv_alive left_waiting" by (simp add: left_waiting_def uv_alive_def watcher_started_def)
  moreover have "\<not> uv_enabled e left_waiting" for e
    by (cases e) (auto simp: left_waiting_def uv_enabled_def watcher_started_def nth_Cons' split: if_splits)
  ultimately have "uv_run True left_waiting more = Waiting" for more by (rule uv_run_stuck)
  then show "\<forall>more. signal_main (\<lambda>_. 0) True (timers_first @ more) = Waiting"
    by (simp add: signal_main_is run_and_check_def run_then_def timers_first_run)
qed

end
