(* ===== verification/UtHashMur.thy ===== *)
theory UtHashMur
  imports UtHashFcn "HOL-Library.Signed_Division"
begin

unbundle bit_operations_syntax

text \<open>
  MurmurHash of inc/uthash/uthash.h on processors that are not Intel's: there a block that does not start at a
  multiple of four is put together from the two aligned words it lies in, on machines of
  either byte order.  UtHashFcn has the function as Intel processors compute it, on the bytes of the key;
  here it reads memory, whose addresses are numbers.
\<close>

section \<open>Reading words\<close>

type_synonym bytes_at = "nat \<Rightarrow> byte"

definition load32 :: "bool \<Rightarrow> bytes_at \<Rightarrow> nat \<Rightarrow> u32" where
  "load32 big mem a = (if big then word4 (mem (a + 3)) (mem (a + 2)) (mem (a + 1)) (mem a)
     else word4 (mem a) (mem (a + 1)) (mem (a + 2)) (mem (a + 3)))"

definition WP :: "nat \<Rightarrow> nat" where
  "WP p = p - p mod 4"

definition MUR_THREE_ONE :: "bool \<Rightarrow> bytes_at \<Rightarrow> nat \<Rightarrow> u32" where
  "MUR_THREE_ONE big mem p =
     (if big then push_bit 8 (load32 big mem (WP p) AND 0x00ffffff) OR drop_bit 24 (load32 big mem (WP p + 4) AND 0xff000000)
      else drop_bit 8 (load32 big mem (WP p) AND 0xffffff00) OR push_bit 24 (load32 big mem (WP p + 4) AND 0x000000ff))"

definition MUR_TWO_TWO :: "bool \<Rightarrow> bytes_at \<Rightarrow> nat \<Rightarrow> u32" where
  "MUR_TWO_TWO big mem p =
     (if big then push_bit 16 (load32 big mem (WP p) AND 0x0000ffff) OR drop_bit 16 (load32 big mem (WP p + 4) AND 0xffff0000)
      else drop_bit 16 (load32 big mem (WP p) AND 0xffff0000) OR push_bit 16 (load32 big mem (WP p + 4) AND 0x0000ffff))"

definition MUR_ONE_THREE :: "bool \<Rightarrow> bytes_at \<Rightarrow> nat \<Rightarrow> u32" where
  "MUR_ONE_THREE big mem p =
     (if big then push_bit 24 (load32 big mem (WP p) AND 0x000000ff) OR drop_bit 8 (load32 big mem (WP p + 4) AND 0xffffff00)
      else drop_bit 24 (load32 big mem (WP p) AND 0xff000000) OR push_bit 8 (load32 big mem (WP p + 4) AND 0x00ffffff))"

text \<open>
  The i-th block after p, or before it when i is negative.  Only an aligned p is indexed: the other three cases read
  the block at p itself.
\<close>

definition MUR_GETBLOCK :: "bool \<Rightarrow> bytes_at \<Rightarrow> nat \<Rightarrow> int \<Rightarrow> u32" where
  "MUR_GETBLOCK big mem p i =
     (if p mod 4 = 0 then load32 big mem (nat (int p + 4 * i))
      else if p mod 4 = 1 then MUR_THREE_ONE big mem p
      else if p mod 4 = 2 then MUR_TWO_TWO big mem p
      else MUR_ONE_THREE big mem p)"

definition mur_block :: "u32 \<Rightarrow> u32 \<Rightarrow> u32" where
  "mur_block h k = MUR_ROTL32 (h XOR mur_k k) 13 * 5 + 0xe6546b64"

text \<open>n blocks before the end, the first of them first.\<close>

definition mur_blocks :: "bool \<Rightarrow> bytes_at \<Rightarrow> nat \<Rightarrow> nat \<Rightarrow> u32 \<Rightarrow> u32" where
  "mur_blocks big mem blocks n h = foldl (\<lambda>h i. mur_block h (MUR_GETBLOCK big mem blocks i)) h (map (\<lambda>i. int i - int n) [0..<n])"

text \<open>
  The number of blocks is an int: a length of 2 ^ 31 or more is cast to a negative one, and with a negative number
  of blocks the loop counts up from a positive index until it overflows, which is None.  The
  bytes behind the blocks are counted with the length itself.
\<close>

definition HASH_MUR_other :: "bool \<Rightarrow> bytes_at \<Rightarrow> nat \<Rightarrow> nat \<Rightarrow> u32 option" where
  "HASH_MUR_other big mem key keylen = (let nblocks = wrap_int (int keylen) sdiv 4 in
     if nblocks < 0 then None
     else let blocks = key + nat nblocks * 4;
       h = mur_blocks big mem blocks (nat nblocks) 0xf88D5353;
       tail = map mem [blocks..<blocks + keylen mod 4];
       h = (if tail = [] then h else h XOR mur_k (mur_rest tail))
       in Some (MUR_FMIX (h XOR of_nat keylen)))"

section \<open>A word at any address\<close>

lemma bit_byte_high [simp]: "8 \<le> n \<Longrightarrow> \<not> bit (b :: byte) n"
  using bit_imp_le_length [of b n] by auto

lemma word4_or: "word4 b0 b1 b2 b3 = u8 b0 OR push_bit 8 (u8 b1) OR push_bit 16 (u8 b2) OR push_bit 24 (u8 b3)"
proof -
  have "u8 b0 + push_bit 8 (u8 b1) = u8 b0 OR push_bit 8 (u8 b1)"
    by (rule disjunctive_add) (auto simp: u8_def bit_simps)
  moreover have "(u8 b0 OR push_bit 8 (u8 b1)) + push_bit 16 (u8 b2) = u8 b0 OR push_bit 8 (u8 b1) OR push_bit 16 (u8 b2)"
    by (subst disjunctive_add) (auto simp: u8_def bit_simps or.assoc)
  moreover have "(u8 b0 OR push_bit 8 (u8 b1) OR push_bit 16 (u8 b2)) + push_bit 24 (u8 b3) =
      u8 b0 OR push_bit 8 (u8 b1) OR push_bit 16 (u8 b2) OR push_bit 24 (u8 b3)"
    by (subst disjunctive_add) (auto simp: u8_def bit_simps or.assoc)
  ultimately show ?thesis by (simp add: word4_def)
qed

lemma bit_byte: "bit (b :: byte) k \<longleftrightarrow> k < 8 \<and> bit b k"
  using bit_byte_high [of k b] by (cases "k < 8") auto

text \<open>The bits of a word, byte by byte.\<close>

lemma bit_word4:
  "n < 8 \<Longrightarrow> bit (word4 b0 b1 b2 b3) n \<longleftrightarrow> bit b0 n"
  "8 \<le> n \<Longrightarrow> n < 16 \<Longrightarrow> bit (word4 b0 b1 b2 b3) n \<longleftrightarrow> bit b1 (n - 8)"
  "16 \<le> n \<Longrightarrow> n < 24 \<Longrightarrow> bit (word4 b0 b1 b2 b3) n \<longleftrightarrow> bit b2 (n - 16)"
  "24 \<le> n \<Longrightarrow> n < 32 \<Longrightarrow> bit (word4 b0 b1 b2 b3) n \<longleftrightarrow> bit b3 (n - 24)"
  "32 \<le> n \<Longrightarrow> \<not> bit (word4 b0 b1 b2 b3) n"
  unfolding word4_or by (auto simp: u8_def bit_simps)

lemma mur_masks:
  "(0x000000ff :: u32) = mask 8" "(0x0000ffff :: u32) = mask 16" "(0x00ffffff :: u32) = mask 24"
  "(0xffffff00 :: u32) = push_bit 8 (mask 24)" "(0xffff0000 :: u32) = push_bit 16 (mask 16)" "(0xff000000 :: u32) = push_bit 24 (mask 8)"
  by (simp_all add: mask_eq_exp_minus_1 push_bit_eq_mult)

text \<open>A word that lies across two others.\<close>

lemma in_some_byte: "n < LENGTH(32) \<Longrightarrow> (n < 8 \<Longrightarrow> P) \<Longrightarrow> (8 \<le> n \<Longrightarrow> n < 16 \<Longrightarrow> P) \<Longrightarrow> (16 \<le> n \<Longrightarrow> n < 24 \<Longrightarrow> P) \<Longrightarrow>
    (24 \<le> n \<Longrightarrow> n < 32 \<Longrightarrow> P) \<Longrightarrow> P" for n :: nat
  by fastforce

lemma unaligned_little:
  "drop_bit 8 (word4 b0 b1 b2 b3 AND 0xffffff00) OR push_bit 24 (word4 b4 b5 b6 b7 AND 0x000000ff) = word4 b1 b2 b3 b4"
  "drop_bit 16 (word4 b0 b1 b2 b3 AND 0xffff0000) OR push_bit 16 (word4 b4 b5 b6 b7 AND 0x0000ffff) = word4 b2 b3 b4 b5"
  "drop_bit 24 (word4 b0 b1 b2 b3 AND 0xff000000) OR push_bit 8 (word4 b4 b5 b6 b7 AND 0x00ffffff) = word4 b3 b4 b5 b6"
  unfolding mur_masks
  by (rule bit_word_eqI, erule in_some_byte, (auto simp: bit_simps bit_word4; fail)+)+

lemma unaligned_big:
  "push_bit 8 (word4 b3 b2 b1 b0 AND 0x00ffffff) OR drop_bit 24 (word4 b7 b6 b5 b4 AND 0xff000000) = word4 b4 b3 b2 b1"
  "push_bit 16 (word4 b3 b2 b1 b0 AND 0x0000ffff) OR drop_bit 16 (word4 b7 b6 b5 b4 AND 0xffff0000) = word4 b5 b4 b3 b2"
  "push_bit 24 (word4 b3 b2 b1 b0 AND 0x000000ff) OR drop_bit 8 (word4 b7 b6 b5 b4 AND 0xffffff00) = word4 b6 b5 b4 b3"
  unfolding mur_masks
  by (rule bit_word_eqI, erule in_some_byte, (auto simp: bit_simps bit_word4; fail)+)+

lemma load32_parts:
  "load32 big mem (a + 4) = (if big then word4 (mem (a + 7)) (mem (a + 6)) (mem (a + 5)) (mem (a + 4))
     else word4 (mem (a + 4)) (mem (a + 5)) (mem (a + 6)) (mem (a + 7)))"
  "load32 big mem (a + 1) = (if big then word4 (mem (a + 4)) (mem (a + 3)) (mem (a + 2)) (mem (a + 1))
     else word4 (mem (a + 1)) (mem (a + 2)) (mem (a + 3)) (mem (a + 4)))"
  "load32 big mem (a + 2) = (if big then word4 (mem (a + 5)) (mem (a + 4)) (mem (a + 3)) (mem (a + 2))
     else word4 (mem (a + 2)) (mem (a + 3)) (mem (a + 4)) (mem (a + 5)))"
  "load32 big mem (a + 3) = (if big then word4 (mem (a + 6)) (mem (a + 5)) (mem (a + 4)) (mem (a + 3))
     else word4 (mem (a + 3)) (mem (a + 4)) (mem (a + 5)) (mem (a + 6)))"
  by (simp_all add: load32_def numeral_eq_Suc)

lemma put_together:
  assumes "WP p = a"
  shows "p = a + 1 \<Longrightarrow> MUR_THREE_ONE big mem p = load32 big mem p"
    "p = a + 2 \<Longrightarrow> MUR_TWO_TWO big mem p = load32 big mem p"
    "p = a + 3 \<Longrightarrow> MUR_ONE_THREE big mem p = load32 big mem p"
  unfolding MUR_THREE_ONE_def MUR_TWO_TWO_def MUR_ONE_THREE_def assms load32_parts
  by (cases big; simp only: load32_parts load32_def [of _ _ a] if_True if_False unaligned_little unaligned_big)+

lemma MUR_GETBLOCK_at: "MUR_GETBLOCK big mem p 0 = load32 big mem p"
proof -
  have "p = WP p + p mod 4" by (simp add: WP_def)
  moreover have "p mod 4 = 0 \<or> p mod 4 = 1 \<or> p mod 4 = 2 \<or> p mod 4 = 3" by linarith
  ultimately show ?thesis using put_together [OF refl, of p] unfolding MUR_GETBLOCK_def by auto
qed


section \<open>The hash function\<close>

text \<open>The bytes as an Intel processor would have to find them: a big-endian one reads each whole block backwards.\<close>

fun swap_blocks :: "byte list \<Rightarrow> byte list" where
  "swap_blocks (b0 # b1 # b2 # b3 # key) = b3 # b2 # b1 # b0 # swap_blocks key"
| "swap_blocks key = key"

definition block_bytes :: "bool \<Rightarrow> byte list \<Rightarrow> byte list" where
  "block_bytes big key = (if big then swap_blocks key else key)"

lemma length_block_bytes [simp]: "length (block_bytes big key) = length key"
  by (cases big; induction key rule: swap_blocks.induct) (simp_all add: block_bytes_def)

text \<open>The loop over the bytes, as a loop over the words they make.\<close>

lemma upt_four: "[a..<a + 4 + m] = a # (a + 1) # (a + 2) # (a + 3) # [a + 4..<a + 4 + m]"
  by (simp add: upt_conv_Cons eval_nat_numeral del: upt_Suc)

lemma mur_loop_words:
  "r < 4 \<Longrightarrow> mur_loop (block_bytes big (map mem [a..<a + (4 * n + r)])) h =
     (map mem [a + 4 * n..<a + 4 * n + r], foldl (\<lambda>h i. mur_block h (load32 big mem (a + 4 * i))) h [0..<n])"
proof (induction n arbitrary: a h)
  case 0
  then consider "r = 0" | "r = 1" | "r = 2" | "r = 3" by linarith
  then show ?case
    by cases (simp_all add: block_bytes_def upt_rec [of a] upt_rec [of "Suc a"] upt_rec [of "Suc (Suc a)"] numeral_eq_Suc)
next
  case (Suc n)
  have l: "[a..<a + (4 * Suc n + r)] = a # (a + 1) # (a + 2) # (a + 3) # [(a + 4)..<(a + 4) + (4 * n + r)]"
    using upt_four [of a "4 * n + r"] by (simp add: algebra_simps)
  have u: "[0..<Suc n] = 0 # map Suc [0..<n]" by (simp add: map_Suc_upt upt_conv_Cons)
  have "mur_loop (block_bytes big (map mem [a..<a + (4 * Suc n + r)])) h =
      mur_loop (block_bytes big (map mem [(a + 4)..<(a + 4) + (4 * n + r)])) (mur_block h (load32 big mem a))"
    unfolding l by (simp add: mur_block_def load32_def block_bytes_def)
  then show ?case using Suc.IH [of "a + 4" "mur_block h (load32 big mem a)"] Suc.prems
    unfolding u by (simp add: foldl_map add.assoc add.left_commute)
qed

lemma mur_nblocks:
  "n < 2 ^ 31 \<Longrightarrow> wrap_int (int n) sdiv 4 = int (n div 4)"
  "2 ^ 31 \<le> n \<Longrightarrow> n < 2 ^ 32 - 3 \<Longrightarrow> wrap_int (int n) sdiv 4 < 0"
proof -
  show "wrap_int (int n) sdiv 4 = int (n div 4)" if "n < 2 ^ 31"
  proof -
    have "wrap_int (int n) = int n" using that by (simp add: wrap_int_def)
    then show ?thesis by (cases "n = 0") (simp_all add: signed_divide_int_def zdiv_int)
  qed
  show "wrap_int (int n) sdiv 4 < 0" if "2 ^ 31 \<le> n" "n < 2 ^ 32 - 3"
  proof -
    have "(int n + 2 ^ 31) mod 2 ^ 32 = (int n + 2 ^ 31 - 2 ^ 32) mod (2 ^ 32)" by (simp only: minus_mod_self2)
    also have "\<dots> = int n - 2 ^ 31" using that by (subst mod_pos_pos_trivial) simp_all
    finally have w: "wrap_int (int n) = int n - 2 ^ 32" by (simp add: wrap_int_def)
    then have "sgn (wrap_int (int n)) = -1" "1 \<le> \<bar>wrap_int (int n)\<bar> div 4" using that by (simp_all add: sgn_if)
    then show ?thesis by (simp add: signed_divide_int_def)
  qed
qed

lemma mur_length: "keylen < 2 ^ 31 \<Longrightarrow> HASH_MUR_other big mem key keylen = (let blocks = key + keylen div 4 * 4;
       h = mur_blocks big mem blocks (keylen div 4) 0xf88D5353;
       tail = map mem [blocks..<key + keylen]
       in Some (MUR_FMIX ((if tail = [] then h else h XOR mur_k (mur_rest tail)) XOR of_nat keylen)))"
proof -
  assume "keylen < 2 ^ 31"
  moreover have "key + keylen div 4 * 4 + keylen mod 4 = key + keylen" by simp
  moreover have "\<not> int (keylen div 4) < 0" by simp
  ultimately show ?thesis by (simp only: HASH_MUR_other_def mur_nblocks(1) nat_int Let_def if_False)
qed

lemma mur_aligned:
  assumes "key mod 4 = 0" "keylen < 2 ^ 31"
  shows "HASH_MUR_other big mem key keylen = Some (HASH_MUR (block_bytes big (map mem [key..<key + keylen])))"
proof -
  let ?n = "keylen div 4" and ?r = "keylen mod 4"
  have k: "keylen = 4 * ?n + ?r" by simp
  have "(key + ?n * 4) mod 4 = 0" using assms by simp
  then have "MUR_GETBLOCK big mem (key + ?n * 4) (int i - int ?n) = load32 big mem (key + 4 * i)" for i
    by (simp add: MUR_GETBLOCK_def nat_add_distrib nat_mult_distrib algebra_simps)
  then have b: "mur_blocks big mem (key + ?n * 4) ?n h = foldl (\<lambda>h i. mur_block h (load32 big mem (key + 4 * i))) h [0..<?n]" for h
    by (simp add: mur_blocks_def foldl_map)
  have "mur_loop (block_bytes big (map mem [key..<key + keylen])) h =
      (map mem [key + ?n * 4..<key + keylen], mur_blocks big mem (key + ?n * 4) ?n h)" for h
    using mur_loop_words [of ?r big mem key ?n h] unfolding b k [symmetric] by (simp add: mult.commute add.assoc)
  then show ?thesis by (simp add: mur_length [OF assms(2)] HASH_MUR_def Let_def)
qed

lemma MUR_GETBLOCK_ignores: "p mod 4 \<noteq> 0 \<Longrightarrow> MUR_GETBLOCK big mem p i = load32 big mem p"
  using MUR_GETBLOCK_at [of big mem p] by (simp add: MUR_GETBLOCK_def)

lemma mur_unaligned:
  assumes "key mod 4 \<noteq> 0" "keylen < 2 ^ 31" "\<And>a. key + 4 * (keylen div 4) \<le> a \<Longrightarrow> mem a = mem' a"
  shows "HASH_MUR_other big mem key keylen = HASH_MUR_other big mem' key keylen"
proof -
  let ?p = "key + keylen div 4 * 4"
  have "?p mod 4 \<noteq> 0" using assms(1) by simp
  moreover have "load32 big mem ?p = load32 big mem' ?p" using assms(3) by (simp add: load32_def mult.commute)
  ultimately have "mur_blocks big mem ?p n h = mur_blocks big mem' ?p n h" for n h
    by (simp add: mur_blocks_def MUR_GETBLOCK_ignores)
  moreover have "map mem [?p..<key + keylen] = map mem' [?p..<key + keylen]"
    by (rule map_cong [OF refl]) (use assms(3) in \<open>simp add: mult.commute\<close>)
  ultimately show ?thesis unfolding mur_length [OF assms(2)] Let_def by presburger
qed

text \<open>
  C40: Off Intel processors the four bytes at any address are put together from aligned words as the processor
  would read them, whichever its byte order.  A key of less than 2 ^ 31 bytes that starts at a multiple of
  four has the hash value that Intel processors compute, of the same bytes on a little-endian processor and of
  the bytes with every whole block reversed on a big-endian one.  But the index of a block counts only
  when it is aligned: the hash value of any other key does not depend on its blocks at all, only on the
  memory from the last of them on.  A key of 2 ^ 31 bytes up to 2 ^ 32 - 4 makes
  the number of blocks negative, which is undefined.
\<close>

theorem mur_alignment:
  "MUR_GETBLOCK big mem p 0 = load32 big mem p \<and>
   (key mod 4 = 0 \<and> keylen < 2 ^ 31 \<longrightarrow>
     HASH_MUR_other big mem key keylen = Some (HASH_MUR (block_bytes big (map mem [key..<key + keylen])))) \<and>
   (key mod 4 \<noteq> 0 \<and> keylen < 2 ^ 31 \<longrightarrow> (\<forall>a \<ge> key + 4 * (keylen div 4). mem a = mem' a) \<longrightarrow>
     HASH_MUR_other big mem key keylen = HASH_MUR_other big mem' key keylen) \<and>
   (2 ^ 31 \<le> keylen \<and> keylen < 2 ^ 32 - 3 \<longrightarrow> HASH_MUR_other big mem key keylen = None)"
proof (intro conjI impI)
  show "MUR_GETBLOCK big mem p 0 = load32 big mem p" by (rule MUR_GETBLOCK_at)
  show "HASH_MUR_other big mem key keylen = Some (HASH_MUR (block_bytes big (map mem [key..<key + keylen])))"
    if "key mod 4 = 0 \<and> keylen < 2 ^ 31" using that by (intro mur_aligned) simp_all
  show "HASH_MUR_other big mem key keylen = HASH_MUR_other big mem' key keylen"
    if "key mod 4 \<noteq> 0 \<and> keylen < 2 ^ 31" "\<forall>a \<ge> key + 4 * (keylen div 4). mem a = mem' a"
    by (rule mur_unaligned) (use that in auto)
  show "HASH_MUR_other big mem key keylen = None" if "2 ^ 31 \<le> keylen \<and> keylen < 2 ^ 32 - 3"
    using mur_nblocks(2) [of keylen] that by (simp add: HASH_MUR_other_def)
qed

text \<open>
  Six aligned bytes on both kinds of processors, two keys of eight bytes at an odd address with the same byte behind
  them, and a key that is too long.
\<close>

lemma mur_alignment_witness:
  "HASH_MUR_other False (\<lambda>a. of_nat a) 4 6 = Some (HASH_MUR [4, 5, 6, 7, 8, 9]) \<and>
   HASH_MUR_other True (\<lambda>a. of_nat a) 4 6 = Some (HASH_MUR [7, 6, 5, 4, 8, 9]) \<and>
   HASH_MUR_other True (\<lambda>a. if a < 9 then of_nat a else 0) 1 8 = HASH_MUR_other True (\<lambda>a. 0) 1 8 \<and>
   HASH_MUR_other False (\<lambda>a. 0) 0 (2 ^ 31) = None"
proof (intro conjI)
  note [simp] = upt_rec block_bytes_def
  show "HASH_MUR_other False (\<lambda>a. of_nat a) 4 6 = Some (HASH_MUR [4, 5, 6, 7, 8, 9])"
    using mur_alignment [of False "\<lambda>a. of_nat a" 0 4 6, THEN conjunct2, THEN conjunct1] by simp
  show "HASH_MUR_other True (\<lambda>a. of_nat a) 4 6 = Some (HASH_MUR [7, 6, 5, 4, 8, 9])"
    using mur_alignment [of True "\<lambda>a. of_nat a" 0 4 6, THEN conjunct2, THEN conjunct1] by simp
  show "HASH_MUR_other True (\<lambda>a. if a < 9 then of_nat a else 0) 1 8 = HASH_MUR_other True (\<lambda>a. 0) 1 8"
    by (rule mur_alignment [THEN conjunct2, THEN conjunct2, THEN conjunct1, THEN mp, THEN mp]) simp_all
  show "HASH_MUR_other False (\<lambda>a. 0) 0 (2 ^ 31) = None"
    by (rule mur_alignment [THEN conjunct2, THEN conjunct2, THEN conjunct2, THEN mp]) simp
qed

end
