(* ===== verification/LwsPrivate.thy ===== *)
theory LwsPrivate
  imports Prelude "HOL-Library.Word"
begin

unbundle bit_operations_syntax

text \<open>
  The code that inc/private-libwebsockets.h and inc/libwebsockets.h themselves hold: the lock of a service thread,
  which may be taken again by the thread that holds it, the table of connections by descriptor, and
  the test of option bits.
\<close>

section \<open>The lock of a service thread\<close>

text \<open>
  The mutex has an owner or none.  inside counts, for each thread, the calls of lws-pt-lock it has not yet undone; the code
  does not keep it.  None is a thread that waits for ever for a mutex it owns itself, or the unlocking
  of a mutex that another thread owns, which is undefined.
\<close>

record pt_lock =
  lock_depth :: byte
  mutex_owner :: "nat option"
  inside :: "nat \<Rightarrow> nat"

definition pt_mutex_init :: pt_lock where
  "pt_mutex_init = \<lparr>lock_depth = 0, mutex_owner = None, inside = (\<lambda>_. 0)\<rparr>"

definition lws_pt_lock :: "nat \<Rightarrow> pt_lock \<Rightarrow> pt_lock option" where
  "lws_pt_lock t s =
     (let d = lock_depth s; s1 = s\<lparr>lock_depth := d + 1, inside := (inside s)(t := Suc (inside s t))\<rparr> in
      if d = 0 then (if mutex_owner s = None then Some (s1\<lparr>mutex_owner := Some t\<rparr>) else None)
      else Some s1)"

definition lws_pt_unlock :: "nat \<Rightarrow> pt_lock \<Rightarrow> pt_lock option" where
  "lws_pt_unlock t s =
     (let d = lock_depth s - 1; s1 = s\<lparr>lock_depth := d, inside := (inside s)(t := inside s t - 1)\<rparr> in
      if d = 0 then (if mutex_owner s = Some t then Some (s1\<lparr>mutex_owner := None\<rparr>) else None)
      else Some s1)"

datatype lock_op = Pt_lock nat | Pt_unlock nat

fun pt_exec :: "lock_op list \<Rightarrow> pt_lock \<Rightarrow> pt_lock option" where
  "pt_exec [] s = Some s"
| "pt_exec (op # ops) s = do { s1 \<leftarrow> (case op of Pt_lock t \<Rightarrow> lws_pt_lock t s | Pt_unlock t \<Rightarrow> lws_pt_unlock t s); pt_exec ops s1 }"

text \<open>What one thread does: it never unlocks more than it locked, and stays within the counter's eight bits.\<close>

fun nested :: "nat \<Rightarrow> nat \<Rightarrow> lock_op list \<Rightarrow> bool" where
  "nested t n [] \<longleftrightarrow> True"
| "nested t n (Pt_lock u # ops) \<longleftrightarrow> u = t \<and> n < 255 \<and> nested t (Suc n) ops"
| "nested t n (Pt_unlock u # ops) \<longleftrightarrow> u = t \<and> 0 < n \<and> nested t (n - 1) ops"

definition pt_ok :: "nat \<Rightarrow> pt_lock \<Rightarrow> bool" where
  "pt_ok t s \<longleftrightarrow> unat (lock_depth s) = inside s t \<and> mutex_owner s = (if inside s t = 0 then None else Some t)"

lemma byte_up: "unat (d :: byte) < 255 \<Longrightarrow> unat (d + 1) = Suc (unat d)"
  by (simp add: unat_word_ariths)

lemma byte_down: "0 < unat (d :: byte) \<Longrightarrow> unat (d - 1) = unat d - 1"
  by (metis One_nat_def Suc_leI unat_1 unat_sub word_le_nat_alt)

lemma pt_exec_ok:
  "nested t (inside s t) ops \<Longrightarrow> pt_ok t s \<Longrightarrow> \<exists>s'. pt_exec ops s = Some s' \<and> pt_ok t s'"
proof (induction ops arbitrary: s)
  case (Cons op ops)
  show ?case
  proof (cases op)
    case (Pt_lock u)
    then have u: "u = t" "inside s t < 255" "nested t (Suc (inside s t)) ops" using Cons.prems(1) by auto
    have d: "unat (lock_depth s) < 255" "lock_depth s = 0 \<longleftrightarrow> inside s t = 0"
      using u Cons.prems(2) by (auto simp: pt_ok_def unat_eq_0)
    obtain s1 where s1: "lws_pt_lock t s = Some s1" "inside s1 t = Suc (inside s t)" "pt_ok t s1"
      using Cons.prems(2) d byte_up [OF d(1)] by (cases "lock_depth s = 0") (auto simp: lws_pt_lock_def pt_ok_def Let_def)
    then show ?thesis using Cons.IH [of s1] u Pt_lock by auto
  next
    case (Pt_unlock u)
    then have u: "u = t" "0 < inside s t" "nested t (inside s t - 1) ops" using Cons.prems(1) by auto
    have d: "0 < unat (lock_depth s)" using u Cons.prems(2) by (simp add: pt_ok_def)
    have z: "lock_depth s - 1 = 0 \<longleftrightarrow> inside s t = 1"
      using byte_down [OF d] u(2) Cons.prems(2) by (metis One_nat_def Suc_pred' diff_self_eq_0 pt_ok_def unat_eq_0)
    obtain s1 where s1: "lws_pt_unlock t s = Some s1" "inside s1 t = inside s t - 1" "pt_ok t s1"
      using Cons.prems(2) z byte_down [OF d] u(2) by (cases "inside s t = 1") (auto simp: lws_pt_unlock_def pt_ok_def Let_def)
    then show ?thesis using Cons.IH [of s1] u Pt_unlock by auto
  qed
qed simp

text \<open>
  For a single thread the lock nests as it should: no call is undefined or waits for ever, and the mutex is held as long as
  some call has not been undone.  Two threads can both be inside: the second finds the counter positive
  and never asks for the mutex.
\<close>

theorem pt_lock_nests:
  assumes "nested t 0 ops"
  shows "\<exists>s. pt_exec ops pt_mutex_init = Some s \<and> (mutex_owner s = Some t \<longleftrightarrow> 0 < inside s t)"
  using pt_exec_ok [of t pt_mutex_init ops] assms by (auto simp: pt_mutex_init_def pt_ok_def)

theorem pt_lock_not_exclusive:
  "\<exists>s. pt_exec [Pt_lock 0, Pt_lock 1] pt_mutex_init = Some s \<and> 0 < inside s 0 \<and> 0 < inside s 1"
  by (simp add: pt_mutex_init_def lws_pt_lock_def Let_def)

section \<open>Connections by descriptor\<close>

text \<open>None is a failed assertion or an access outside the table.\<close>

definition wsi_from_fd :: "'w option list \<Rightarrow> int \<Rightarrow> 'w option option" where
  "wsi_from_fd lookup fd = (if 0 \<le> fd \<and> nat fd < length lookup then Some (lookup ! nat fd) else None)"

definition insert_wsi :: "'w option list \<Rightarrow> int \<Rightarrow> 'w \<Rightarrow> 'w option list option" where
  "insert_wsi lookup fd w = do {
     old \<leftarrow> wsi_from_fd lookup fd;
     if old = None then Some (lookup[nat fd := Some w]) else None }"

definition delete_from_fd :: "'w option list \<Rightarrow> int \<Rightarrow> 'w option list option" where
  "delete_from_fd lookup fd = do { old \<leftarrow> wsi_from_fd lookup fd; Some (lookup[nat fd := None]) }"

text \<open>The table is a map from descriptors: what was put in is found until it is taken out, and others are not touched.\<close>

theorem wsi_lookup_map:
  assumes "insert_wsi lookup fd w = Some lookup'"
  shows "wsi_from_fd lookup' fd = Some (Some w) \<and> delete_from_fd lookup' fd = Some lookup \<and>
    (fd' \<noteq> fd \<longrightarrow> wsi_from_fd lookup' fd' = wsi_from_fd lookup fd') \<and> insert_wsi lookup' fd w' = None"
proof -
  have fd: "0 \<le> fd" "nat fd < length lookup" "lookup ! nat fd = None" and l': "lookup' = lookup[nat fd := Some w]"
    using assms by (auto simp: insert_wsi_def wsi_from_fd_def split: if_splits)
  then have "lookup[nat fd := None] = lookup" using list_update_id [of lookup "nat fd"] by simp
  then show ?thesis using fd by (auto simp: l' insert_wsi_def delete_from_fd_def wsi_from_fd_def nth_list_update)
qed

section \<open>Option bits\<close>

definition lws_check_opt :: "64 word \<Rightarrow> 64 word \<Rightarrow> bool" where
  "lws_check_opt c f \<longleftrightarrow> (c AND f) = f"

text \<open>All bits of f are set in c.\<close>

lemma lws_check_opt_bits: "lws_check_opt c f \<longleftrightarrow> (\<forall>n. bit f n \<longrightarrow> bit c n)"
proof
  assume c: "lws_check_opt c f"
  have "bit (c AND f) n = bit f n" for n using c by (simp add: lws_check_opt_def)
  then show "\<forall>n. bit f n \<longrightarrow> bit c n" unfolding bit_and_iff by blast
next
  assume "\<forall>n. bit f n \<longrightarrow> bit c n"
  then show "lws_check_opt c f" unfolding lws_check_opt_def by (auto simp: bit_eq_iff bit_and_iff)
qed

end
