(* ===== verification/WorkQueue.thy ===== *)
theory WorkQueue
  imports Demos
begin

text \<open>
  uv-workqueue.c as libuv runs it: the tasks of Demos run in threads of a pool and share one async handle, whose data
  each writes before it wakes the loop; the loop shows the data when it is woken, wakes that come
  before it gets to that being one, and calls after-fib for each finished task.
\<close>

section \<open>The threads and the loop\<close>

text \<open>A task is queued, has written its progress value, has woken the loop, has printed its result, or has been reported.\<close>

datatype wq_pc = Queued | Written | Woken | Printed | Reported

datatype wq_line = Line_fib nat | Line_done nat | Line_got int

record wq_state =
  wq_pcs :: "wq_pc list"
  async_data :: "int option"
  async_pending :: bool
  wq_out :: "wq_line list"

definition wq_start :: wq_state where
  "wq_start = \<lparr>wq_pcs = map (\<lambda>_. Queued) fib_tasks, async_data = None, async_pending = False, wq_out = []\<rparr>"

text \<open>The lines as they are printed.\<close>

definition wq_text :: "wq_line \<Rightarrow> string option" where
  "wq_text l = (case l of Line_fib i \<Rightarrow> map_option snd (fib (fib_tasks ! i)) | Line_done i \<Rightarrow> Some (after_fib (fib_tasks ! i))
     | Line_got d \<Rightarrow> Some (print_progress d))"

inductive wq_step :: "wq_state \<Rightarrow> wq_state \<Rightarrow> bool" where
  fib_write: "i < length (wq_pcs s) \<Longrightarrow> wq_pcs s ! i = Queued \<Longrightarrow> fib (fib_tasks ! i) = Some (d, line) \<Longrightarrow>
    wq_step s (s\<lparr>wq_pcs := (wq_pcs s)[i := Written], async_data := Some d\<rparr>)"
| fib_send: "i < length (wq_pcs s) \<Longrightarrow> wq_pcs s ! i = Written \<Longrightarrow>
    wq_step s (s\<lparr>wq_pcs := (wq_pcs s)[i := Woken], async_pending := True\<rparr>)"
| fib_print: "i < length (wq_pcs s) \<Longrightarrow> wq_pcs s ! i = Woken \<Longrightarrow>
    wq_step s (s\<lparr>wq_pcs := (wq_pcs s)[i := Printed], wq_out := wq_out s @ [Line_fib i]\<rparr>)"
| fib_after: "i < length (wq_pcs s) \<Longrightarrow> wq_pcs s ! i = Printed \<Longrightarrow>
    wq_step s (s\<lparr>wq_pcs := (wq_pcs s)[i := Reported], wq_out := wq_out s @ [Line_done i]\<rparr>)"
| progress: "async_pending s \<Longrightarrow> async_data s = Some d \<Longrightarrow>
    wq_step s (s\<lparr>async_pending := False, wq_out := wq_out s @ [Line_got d]\<rparr>)"

inductive wq_reach :: "wq_state \<Rightarrow> bool" where
  start: "wq_reach wq_start"
| step: "wq_reach s \<Longrightarrow> wq_step s s' \<Longrightarrow> wq_reach s'"

section \<open>The invariant\<close>

definition lines_of :: "nat \<Rightarrow> wq_line list \<Rightarrow> wq_line list" where
  "lines_of i out = filter (\<lambda>l. l = Line_fib i \<or> l = Line_done i) out"

definition gots :: "wq_line list \<Rightarrow> int list" where
  "gots out = List.map_filter (\<lambda>l. case l of Line_got d \<Rightarrow> Some d | _ \<Rightarrow> None) out"

definition lines_due :: "nat \<Rightarrow> wq_pc \<Rightarrow> wq_line list" where
  "lines_due i p = (case p of Printed \<Rightarrow> [Line_fib i] | Reported \<Rightarrow> [Line_fib i, Line_done i] | _ \<Rightarrow> [])"

definition woke :: "wq_pc \<Rightarrow> bool" where
  "woke p \<longleftrightarrow> p \<in> {Woken, Printed, Reported}"

definition fib_values :: "int set" where
  "fib_values = (\<lambda>n. n * 8) ` set fib_tasks"

definition wq_inv :: "wq_state \<Rightarrow> bool" where
  "wq_inv s \<longleftrightarrow> length (wq_pcs s) = length fib_tasks \<and>
     (\<forall>i < length (wq_pcs s). lines_of i (wq_out s) = lines_due i (wq_pcs s ! i)) \<and>
     (\<forall>d. async_data s = Some d \<longrightarrow> d \<in> fib_values) \<and> set (gots (wq_out s)) \<subseteq> fib_values \<and>
     (async_data s = None \<longrightarrow> (\<forall>p\<in>set (wq_pcs s). p = Queued) \<and> \<not> async_pending s) \<and>
     length (gots (wq_out s)) + of_bool (async_pending s) \<le> length (filter woke (wq_pcs s)) \<and>
     ((\<exists>p\<in>set (wq_pcs s). woke p) \<longrightarrow> async_pending s \<or> gots (wq_out s) \<noteq> []) \<and>
     (\<not> async_pending s \<and> gots (wq_out s) \<noteq> [] \<and> Written \<notin> set (wq_pcs s) \<longrightarrow> async_data s = Some (last (gots (wq_out s))))"

lemma lines_of_append [simp]:
  "lines_of i (out @ [Line_fib j]) = lines_of i out @ (if i = j then [Line_fib j] else [])"
  "lines_of i (out @ [Line_done j]) = lines_of i out @ (if i = j then [Line_done j] else [])"
  "lines_of i (out @ [Line_got d]) = lines_of i out"
  by (simp_all add: lines_of_def)

lemma gots_append [simp]:
  "gots (out @ [Line_fib j]) = gots out" "gots (out @ [Line_done j]) = gots out" "gots (out @ [Line_got d]) = gots out @ [d]"
  by (simp_all add: gots_def List.map_filter_def)

lemma task_value: "i < length fib_tasks \<Longrightarrow> fib (fib_tasks ! i) = Some (d, line) \<Longrightarrow> d \<in> fib_values"
  by (auto simp: fib_def fib_values_def c_int_def bind_eq_Some_conv split: if_splits)

lemma filter_update:
  "i < length ps \<Longrightarrow> length (filter P (ps[i := p])) + of_bool (P (ps ! i)) = length (filter P ps) + of_bool (P p)"
proof (induction ps arbitrary: i)
  case (Cons q ps)
  then show ?case by (cases i) auto
qed simp

lemma in_update: "i < length ps \<Longrightarrow> q \<in> set (ps[i := p]) \<longleftrightarrow> q = p \<or> (\<exists>j < length ps. j \<noteq> i \<and> q = ps ! j)"
  by (auto simp: in_set_conv_nth nth_list_update)

lemma wq_start_inv: "wq_inv wq_start"
  by (simp add: wq_inv_def wq_start_def lines_of_def gots_def lines_due_def woke_def nth_append)

text \<open>A step of task i; the lines of the others stay as they are.\<close>

lemma task_lines:
  assumes "\<forall>j < length ps. lines_of j out = lines_due j (ps ! j)" "i < length ps" "lines_of i out' = lines_due i p"
    "\<And>j. j \<noteq> i \<Longrightarrow> lines_of j out' = lines_of j out"
  shows "\<forall>j < length (ps[i := p]). lines_of j out' = lines_due j (ps[i := p] ! j)"
  using assms by (auto simp: nth_list_update)

lemma pc_in: "i < length ps \<Longrightarrow> ps ! i = p \<Longrightarrow> p \<in> set ps"
  by auto

lemma written_kept: "i < length ps \<Longrightarrow> ps ! i \<noteq> Written \<Longrightarrow> p \<noteq> Written \<Longrightarrow> Written \<in> set (ps[i := p]) \<longleftrightarrow> Written \<in> set ps"
  unfolding in_update by (metis in_set_conv_nth)

lemma wq_step_inv:
  assumes "wq_step s s'" "wq_inv s"
  shows "wq_inv s'"
  using assms
proof (cases rule: wq_step.cases)
  case (fib_write i d line)
  note inv = assms(2) [unfolded wq_inv_def]
  have "d \<in> fib_values" using task_value [OF _ fib_write(4)] fib_write(2) inv by simp
  moreover have "length (filter woke ((wq_pcs s)[i := Written])) = length (filter woke (wq_pcs s))"
    using filter_update [OF fib_write(2), of woke Written] fib_write(3) by (simp add: woke_def)
  moreover from this have "(\<exists>p\<in>set ((wq_pcs s)[i := Written]). woke p) \<longrightarrow> (\<exists>p\<in>set (wq_pcs s). woke p)"
    by (metis filter_empty_conv length_0_conv)
  moreover have "Written \<in> set ((wq_pcs s)[i := Written])" using fib_write(2) by (simp add: set_update_memI)
  moreover have "\<forall>j < length ((wq_pcs s)[i := Written]). lines_of j (wq_out s) = lines_due j ((wq_pcs s)[i := Written] ! j)"
    by (rule task_lines) (use inv fib_write in \<open>auto simp: lines_due_def\<close>)
  ultimately show ?thesis unfolding fib_write(1) wq_inv_def using inv by simp
next
  case (fib_send i)
  note inv = assms(2) [unfolded wq_inv_def]
  have "length (filter woke ((wq_pcs s)[i := Woken])) = Suc (length (filter woke (wq_pcs s)))"
    using filter_update [OF fib_send(2), of woke Woken] fib_send(3) by (simp add: woke_def)
  moreover have "async_data s \<noteq> None" using inv pc_in [OF fib_send(2,3)] by auto
  moreover have "\<forall>j < length ((wq_pcs s)[i := Woken]). lines_of j (wq_out s) = lines_due j ((wq_pcs s)[i := Woken] ! j)"
    by (rule task_lines) (use inv fib_send in \<open>auto simp: lines_due_def\<close>)
  ultimately show ?thesis unfolding fib_send(1) wq_inv_def using inv by (auto split: if_splits)
next
  case (fib_print i)
  note inv = assms(2) [unfolded wq_inv_def]
  have "length (filter woke ((wq_pcs s)[i := Printed])) = length (filter woke (wq_pcs s))"
    using filter_update [OF fib_print(2), of woke Printed] fib_print(3) by (simp add: woke_def)
  moreover have "\<exists>p\<in>set (wq_pcs s). woke p" using pc_in [OF fib_print(2,3)] by (auto simp: woke_def)
  moreover obtain d where "async_data s = Some d" using inv pc_in [OF fib_print(2,3)] by (cases "async_data s") auto
  moreover have "Written \<in> set ((wq_pcs s)[i := Printed]) \<longleftrightarrow> Written \<in> set (wq_pcs s)"
    by (rule written_kept [OF fib_print(2)]) (simp_all add: fib_print(3))
  moreover have "\<forall>j < length ((wq_pcs s)[i := Printed]). lines_of j (wq_out s @ [Line_fib i]) = lines_due j ((wq_pcs s)[i := Printed] ! j)"
    by (rule task_lines) (use inv fib_print in \<open>auto simp: lines_due_def\<close>)
  ultimately show ?thesis unfolding fib_print(1) wq_inv_def using inv by simp
next
  case (fib_after i)
  note inv = assms(2) [unfolded wq_inv_def]
  have "length (filter woke ((wq_pcs s)[i := Reported])) = length (filter woke (wq_pcs s))"
    using filter_update [OF fib_after(2), of woke Reported] fib_after(3) by (simp add: woke_def)
  moreover have "\<exists>p\<in>set (wq_pcs s). woke p" using pc_in [OF fib_after(2,3)] by (auto simp: woke_def)
  moreover obtain d where "async_data s = Some d" using inv pc_in [OF fib_after(2,3)] by (cases "async_data s") auto
  moreover have "Written \<in> set ((wq_pcs s)[i := Reported]) \<longleftrightarrow> Written \<in> set (wq_pcs s)"
    by (rule written_kept [OF fib_after(2)]) (simp_all add: fib_after(3))
  moreover have "\<forall>j < length ((wq_pcs s)[i := Reported]). lines_of j (wq_out s @ [Line_done i]) = lines_due j ((wq_pcs s)[i := Reported] ! j)"
    by (rule task_lines) (use inv fib_after in \<open>auto simp: lines_due_def\<close>)
  ultimately show ?thesis unfolding fib_after(1) wq_inv_def using inv by simp
next
  case (progress d)
  then show ?thesis unfolding progress(1) wq_inv_def using assms(2) [unfolded wq_inv_def] by simp
qed

lemma wq_reach_inv: "wq_reach s \<Longrightarrow> wq_inv s"
  by (induction rule: wq_reach.induct) (simp_all add: wq_start_inv wq_step_inv)


section \<open>Progress and the end\<close>

text \<open>What is left to do: every step takes something off.\<close>

definition pc_work :: "wq_pc \<Rightarrow> nat" where
  "pc_work p = (case p of Queued \<Rightarrow> 8 | Written \<Rightarrow> 6 | Woken \<Rightarrow> 4 | Printed \<Rightarrow> 2 | Reported \<Rightarrow> 0)"

definition wq_work :: "wq_state \<Rightarrow> nat" where
  "wq_work s = sum_list (map pc_work (wq_pcs s)) + of_bool (async_pending s)"

lemma work_update: "i < length ps \<Longrightarrow> sum_list (map pc_work (ps[i := p])) + pc_work (ps ! i) = sum_list (map pc_work ps) + pc_work p"
proof (induction ps arbitrary: i)
  case (Cons q ps)
  then show ?case by (cases i) auto
qed simp

lemma wq_step_work: "wq_step s s' \<Longrightarrow> wq_work s' < wq_work s"
proof (induction rule: wq_step.induct)
  case (fib_write i s d line)
  then show ?case using work_update [of i "wq_pcs s" Written] by (simp add: wq_work_def pc_work_def)
next
  case (fib_send i s)
  then show ?case using work_update [of i "wq_pcs s" Woken] by (simp add: wq_work_def pc_work_def)
next
  case (fib_print i s)
  then show ?case using work_update [of i "wq_pcs s" Printed] by (simp add: wq_work_def pc_work_def)
next
  case (fib_after i s)
  then show ?case using work_update [of i "wq_pcs s" Reported] by (simp add: wq_work_def pc_work_def)
qed (simp add: wq_work_def)

lemma wq_not_stuck:
  assumes inv: "wq_inv s" and stuck: "\<And>s'. \<not> wq_step s s'"
  shows "\<forall>i < length (wq_pcs s). wq_pcs s ! i = Reported" "\<not> async_pending s"
proof -
  show "\<forall>i < length (wq_pcs s). wq_pcs s ! i = Reported"
  proof (intro allI impI)
    fix i
    assume i: "i < length (wq_pcs s)"
    then have t: "fib_tasks ! i \<in> set fib_tasks" using inv by (simp add: wq_inv_def)
    obtain d line where "fib (fib_tasks ! i) = Some (d, line)" using fib_tasks_run t by fastforce
    then show "wq_pcs s ! i = Reported"
      using i stuck fib_write [OF i] fib_send [OF i] fib_print [OF i] fib_after [OF i] by (cases "wq_pcs s ! i") blast+
  qed
  show "\<not> async_pending s"
  proof
    assume p: "async_pending s"
    then obtain d where "async_data s = Some d" using inv by (cases "async_data s") (auto simp: wq_inv_def)
    then show False using stuck progress [OF p] by blast
  qed
qed

text \<open>
  C32: However libuv schedules the tasks, every run of the work queue demo comes to rest where each task has
  printed its Fibonacci number and been reported, in this order and once, and where one to four
  progress values have been shown, each that of some task and the last of them the one written last:
  values may be merged, but the last is never lost.
\<close>

theorem workqueue_output:
  assumes "wq_reach s"
  shows "(\<forall>s'. wq_step s s' \<longrightarrow> wq_work s' < wq_work s) \<and>
    ((\<exists>s'. wq_step s s') \<or>
     (\<forall>i < length fib_tasks. lines_of i (wq_out s) = [Line_fib i, Line_done i]) \<and>
     gots (wq_out s) \<noteq> [] \<and> length (gots (wq_out s)) \<le> length fib_tasks \<and> set (gots (wq_out s)) \<subseteq> fib_values \<and>
     async_data s = Some (last (gots (wq_out s))))"
proof (intro conjI disjCI)
  show "\<forall>s'. wq_step s s' \<longrightarrow> wq_work s' < wq_work s" using wq_step_work by blast
next
  have inv: "wq_inv s" by (rule wq_reach_inv [OF assms])
  have len: "length (wq_pcs s) = length fib_tasks" using inv by (simp add: wq_inv_def)
  assume "\<not> ((\<forall>i < length fib_tasks. lines_of i (wq_out s) = [Line_fib i, Line_done i]) \<and>
     gots (wq_out s) \<noteq> [] \<and> length (gots (wq_out s)) \<le> length fib_tasks \<and> set (gots (wq_out s)) \<subseteq> fib_values \<and>
     async_data s = Some (last (gots (wq_out s))))"
  moreover have "(\<forall>i < length fib_tasks. lines_of i (wq_out s) = [Line_fib i, Line_done i]) \<and>
     gots (wq_out s) \<noteq> [] \<and> length (gots (wq_out s)) \<le> length fib_tasks \<and> set (gots (wq_out s)) \<subseteq> fib_values \<and>
     async_data s = Some (last (gots (wq_out s)))" if stuck: "\<And>s'. \<not> wq_step s s'"
  proof -
    note r = wq_not_stuck [OF inv stuck]
    have pcs: "set (wq_pcs s) \<subseteq> {Reported}" using r(1) by (auto simp: in_set_conv_nth)
    have "0 < length (wq_pcs s)" using len by (simp add: fib_tasks_def FIB_UNTIL_def)
    then have "Reported \<in> set (wq_pcs s)" using r(1) nth_mem by metis
    then have "gots (wq_out s) \<noteq> []" using inv r(2) by (auto simp: wq_inv_def woke_def)
    moreover have "length (filter woke (wq_pcs s)) \<le> length fib_tasks" using len length_filter_le by metis
    moreover have "Written \<notin> set (wq_pcs s)" using pcs by auto
    ultimately show ?thesis using inv r len by (simp add: wq_inv_def lines_due_def)
  qed
  ultimately show "\<exists>s'. wq_step s s'" by blast
qed

lemma workqueue_output_witness: "\<exists>s'. wq_step wq_start s'"
proof -
  have "lines_of 0 (wq_out wq_start) \<noteq> [Line_fib 0, Line_done 0]" "0 < length fib_tasks"
    by (simp_all add: wq_start_def lines_of_def fib_tasks_def FIB_UNTIL_def)
  then show ?thesis using workqueue_output [OF wq_reach.start] by blast
qed

text \<open>Two tasks that run together show one value twice and the other never.\<close>

lemma progress_shown_twice: "\<exists>s. wq_reach s \<and> gots (wq_out s) = [8, 8]"
proof -
  let ?s = "\<lambda>a b d p out. \<lparr>wq_pcs = [a, b, Queued, Queued], async_data = d, async_pending = p, wq_out = out\<rparr>"
  obtain l0 l1 where f: "fib (fib_tasks ! 0) = Some (0, l0)" "fib (fib_tasks ! 1) = Some (8, l1)"
    using fib_rec.simps [of 0] fib_rec.simps [of 1]
    by (auto simp: fib_def fib_tasks_def FIB_UNTIL_def upto.simps c_int_def is_int_def INT_MAX_def INT_MIN_def)
  have "wq_reach (?s Queued Queued None False [])"
    using wq_reach.start by (simp add: wq_start_def fib_tasks_def FIB_UNTIL_def upto.simps)
  then have "wq_reach (?s Written Queued (Some 0) False [])" using wq_reach.step [OF _ fib_write [of 0, OF _ _ f(1)]] by fastforce
  then have "wq_reach (?s Written Written (Some 8) False [])" using wq_reach.step [OF _ fib_write [of 1, OF _ _ f(2)]] by fastforce
  then have "wq_reach (?s Woken Written (Some 8) True [])" using wq_reach.step [OF _ fib_send [of 0]] by fastforce
  then have "wq_reach (?s Woken Written (Some 8) False [Line_got 8])" using wq_reach.step [OF _ progress [of _ 8]] by fastforce
  then have "wq_reach (?s Woken Woken (Some 8) True [Line_got 8])" using wq_reach.step [OF _ fib_send [of 1]] by fastforce
  then have "wq_reach (?s Woken Woken (Some 8) False [Line_got 8, Line_got 8])" using wq_reach.step [OF _ progress [of _ 8]] by fastforce
  then show ?thesis by (intro exI conjI) (auto simp: gots_def List.map_filter_def)
qed

end
