(* ===== verification/Options.thy ===== *)
theory Options
  imports Client ServerMain Pthreads
begin

text \<open>
  The options of the servers and clients: each program has a table of long options and a string of
  short ones for getopt-long, and a switch over the characters both lead to (client-option,
  server-option, pt-option).  The clients are compiled without the CRL option unless the SSL library has it.
\<close>

section \<open>The tables\<close>

record long_option =
  lo_name :: string
  required_argument :: bool
  lo_val :: char

definition long_option :: "string \<times> bool \<times> char \<Rightarrow> long_option" where
  "long_option r = \<lparr>lo_name = fst r, required_argument = fst (snd r), lo_val = snd (snd r)\<rparr>"

definition client_long_options :: "bool \<Rightarrow> long_option list" where
  "client_long_options crl = map long_option ([(''help'', False, CHR ''h''), (''debug'', True, CHR ''d''), (''port'', True, CHR ''p''),
     (''ssl'', False, CHR ''s''), (''strict-ssl'', False, CHR ''S''), (''version'', True, CHR ''v''),
     (''undeflated'', False, CHR ''u''), (''multi-test'', False, CHR ''m''), (''nomirror'', False, CHR ''n''),
     (''longlived'', False, CHR ''l''), (''post'', False, CHR ''o''), (''pingpong-secs'', True, CHR ''P''),
     (''ssl-cert'', True, CHR ''C''), (''ssl-key'', True, CHR ''K''), (''ssl-ca'', True, CHR ''A'')] @
     (if crl then [(''ssl-crl'', True, CHR ''R'')] else []))"

definition client_short_options :: string where
  "client_short_options = ''Snuv:hsp:d:lC:K:A:P:mo''"

definition fc_long_options :: "bool \<Rightarrow> long_option list" where
  "fc_long_options crl = map long_option ([(''help'', False, CHR ''h''), (''debug'', True, CHR ''d''), (''port'', True, CHR ''p''),
     (''ssl'', False, CHR ''s''), (''strict-ssl'', False, CHR ''S''), (''version'', True, CHR ''v''),
     (''undeflated'', False, CHR ''u''), (''multi-test'', False, CHR ''m''), (''nomirror'', False, CHR ''n''),
     (''longlived'', False, CHR ''l''), (''post'', False, CHR ''o''), (''pingpong-secs'', True, CHR ''P''),
     (''ssl-cert'', True, CHR ''C''), (''ssl-key'', True, CHR ''K''), (''ssl-ca'', True, CHR ''A'')] @
     (if crl then [(''ssl-crl'', True, CHR ''R'')] else []))"

definition fc_short_options :: string where
  "fc_short_options = ''Snuv:hsp:d:lC:K:A:P:mo''"

definition server_long_options :: "long_option list" where
  "server_long_options = map long_option [(''help'', False, CHR ''h''), (''debug'', True, CHR ''d''), (''port'', True, CHR ''p''),
     (''ssl'', False, CHR ''s''), (''allow-non-ssl'', False, CHR ''a''), (''interface'', True, CHR ''i''),
     (''closetest'', False, CHR ''c''), (''ssl-cert'', True, CHR ''C''), (''ssl-key'', True, CHR ''K''),
     (''ssl-ca'', True, CHR ''A''), (''ssl-verify-client'', False, CHR ''v''), (''ssl-crl'', True, CHR ''R''),
     (''libev'', False, CHR ''e''), (''daemonize'', False, CHR ''D''), (''resource_path'', True, CHR ''r''),
     (''pingpong-secs'', True, CHR ''P'')]"

definition server_short_options :: string where
  "server_short_options = ''eci:hsap:d:Dr:C:K:A:R:vu:g:P:k''"

definition pt_long_options :: "long_option list" where
  "pt_long_options = map long_option [(''help'', False, CHR ''h''), (''debug'', True, CHR ''d''), (''port'', True, CHR ''p''),
     (''ssl'', False, CHR ''s''), (''allow-non-ssl'', False, CHR ''a''), (''interface'', True, CHR ''i''),
     (''closetest'', False, CHR ''c''), (''libev'', False, CHR ''e''), (''threads'', True, CHR ''j''),
     (''daemonize'', False, CHR ''D''), (''resource_path'', True, CHR ''r'')]"

definition pt_short_options :: string where
  "pt_short_options = ''eci:hsap:d:Dr:j:''"

section \<open>What they mean\<close>

text \<open>A string of short options: a colon after a character says that it takes an argument.\<close>

fun short_options :: "string \<Rightarrow> (char \<times> bool) list" where
  "short_options [] = []"
| "short_options [c] = [(c, False)]"
| "short_options (c # d # s) = (if d = CHR '':'' then (c, True) # short_options s else (c, False) # short_options (d # s))"

definition long_chars :: "long_option list \<Rightarrow> (char \<times> bool) list" where
  "long_chars os = map (\<lambda>r. (lo_val r, required_argument r)) os"

lemmas option_tables = long_chars_def long_option_def client_long_options_def client_short_options_def fc_long_options_def
  fc_short_options_def server_long_options_def server_short_options_def pt_long_options_def pt_short_options_def

text \<open>The tables and the strings offer the same options with the same arguments, but for those named.\<close>

lemma client_tables_agree:
  "set (long_chars (client_long_options False)) = set (short_options client_short_options)"
  "set (long_chars (client_long_options True)) = insert (CHR ''R'', True) (set (short_options client_short_options))"
  "fc_long_options crl = client_long_options crl \<and> fc_short_options = client_short_options"
  by code_simp+

lemma server_tables_agree:
  "set (short_options server_short_options) =
     {(CHR ''u'', True), (CHR ''g'', True), (CHR ''k'', False)} \<union> set (long_chars server_long_options)"
  by code_simp

lemma pt_tables_agree: "set (short_options pt_short_options) = set (long_chars pt_long_options)"
  by code_simp

section \<open>The switches\<close>

text \<open>
  The switch of a program fits its options: no option is given twice; one without an argument does not look at optarg,
  which is a NULL pointer then; and the switch ignores none, since each of them stops the program
  or changes the variables s somehow.
\<close>

definition switch_fits :: "(char \<times> string \<Rightarrow> 's \<Rightarrow> 's option option) \<Rightarrow> 's \<Rightarrow> (char \<times> bool) list \<Rightarrow> bool" where
  "switch_fits handle s0 given \<longleftrightarrow> distinct (map fst given) \<and>
     (\<forall>(c, arg) \<in> set given. (\<not> arg \<longrightarrow> (\<forall>x y s. handle (c, x) s = handle (c, y) s)) \<and>
       (\<exists>r. handle (c, ''8'') s0 = Some r \<and> r \<noteq> Some s0))"

lemma atoi_8 [simp]: "atoi ''8'' = Some 8"
  by code_simp

definition no_client :: client where
  "no_client = \<lparr>deny_deflate = False, longlived = False, mirror_lifetime = 0, test_post = False, wsi_dumb = None,
     wsi_mirror = None, wsi_multi = [], force_exit = False, opts = 0, rl_multi = [], flag_no_mirror_traffic = False,
     crl_path = Some [], info_visible = False, printed = [], err_log = []\<rparr>"

lemma client_given: "long_chars (client_long_options True) =
    [(CHR ''h'', False), (CHR ''d'', True), (CHR ''p'', True), (CHR ''s'', False), (CHR ''S'', False), (CHR ''v'', True),
     (CHR ''u'', False), (CHR ''m'', False), (CHR ''n'', False), (CHR ''l'', False), (CHR ''o'', False), (CHR ''P'', True),
     (CHR ''C'', True), (CHR ''K'', True), (CHR ''A'', True), (CHR ''R'', True)]"
  by (simp add: option_tables)

lemma server_given: "short_options server_short_options =
    [(CHR ''e'', False), (CHR ''c'', False), (CHR ''i'', True), (CHR ''h'', False), (CHR ''s'', False), (CHR ''a'', False),
     (CHR ''p'', True), (CHR ''d'', True), (CHR ''D'', False), (CHR ''r'', True), (CHR ''C'', True), (CHR ''K'', True),
     (CHR ''A'', True), (CHR ''R'', True), (CHR ''v'', False), (CHR ''u'', True), (CHR ''g'', True), (CHR ''P'', True), (CHR ''k'', False)]"
  by (simp add: option_tables)

lemma pt_given: "short_options pt_short_options =
    [(CHR ''e'', False), (CHR ''c'', False), (CHR ''i'', True), (CHR ''h'', False), (CHR ''s'', False), (CHR ''a'', False),
     (CHR ''p'', True), (CHR ''d'', True), (CHR ''D'', False), (CHR ''r'', True), (CHR ''j'', True)]"
  by (simp add: option_tables)

lemma client_switch: "switch_fits client_option (initial_args, no_client) (long_chars (client_long_options True))"
  unfolding switch_fits_def client_given
  by (simp add: client_option_def initial_args_def no_client_def strncpy_z_def case_prod_beta
      LCCSCF_USE_SSL_def LCCSCF_ALLOW_SELFSIGNED_def LCCSCF_SKIP_SERVER_CERT_HOSTNAME_CHECK_def)

lemma server_switch: "switch_fits server_option server_defaults (short_options server_short_options)"
  unfolding switch_fits_def server_given
  by (simp add: server_option_def server_defaults_def LWS_SERVER_OPTION_LIBEV_def
      LWS_SERVER_OPTION_ALLOW_NON_SSL_ON_SSL_PORT_def)

lemma pt_switch: "switch_fits pt_option pt_defaults (short_options pt_short_options)"
  unfolding switch_fits_def pt_given
  by (simp add: pt_option_def pt_defaults_def LWS_SERVER_OPTION_LIBEV_def to_size_t_def MAX_THREADS_def
      LWS_SERVER_OPTION_ALLOW_NON_SSL_ON_SSL_PORT_def)

end
