(* ===== verification/Handshake.thy ===== *)
theory Handshake
  imports Prelude
begin

text \<open>
  dump-handshake-info of test-server-http.c: every header of a request as a line.  What the library
  answers is given: the name of a token (None is NULL), the length of its header, and what the header copied
  into buf reads.
\<close>

definition handshake_line :: "string \<Rightarrow> string \<Rightarrow> string" where
  "handshake_line c buf = ''    '' @ c @ '' = '' @ take 255 buf @ ''\<newline>''"

text \<open>The length is compared as an unsigned number: a negative one is too large.\<close>

definition header_fits :: "int \<Rightarrow> bool" where
  "header_fits len \<longleftrightarrow> 0 < len \<and> len \<le> 255"

partial_function (option) dump_handshake_loop ::
  "(int \<Rightarrow> string option) \<Rightarrow> (int \<Rightarrow> int) \<Rightarrow> (int \<Rightarrow> string) \<Rightarrow> int \<Rightarrow> string list \<Rightarrow> string list option" where
  "dump_handshake_loop token len hdr n out = do {
     n1 \<leftarrow> c_int (n + 1);
     case token n of
       None \<Rightarrow> Some out
     | Some c \<Rightarrow> dump_handshake_loop token len hdr n1 (if header_fits (len n) then out @ [handshake_line c (hdr n)] else out) }"

definition dump_handshake_info :: "(int \<Rightarrow> string option) \<Rightarrow> (int \<Rightarrow> int) \<Rightarrow> (int \<Rightarrow> string) \<Rightarrow> string list option" where
  "dump_handshake_info token len hdr = dump_handshake_loop token len hdr 0 []"

text \<open>
  The dump ends at the first number that is no token, even when there are tokens behind it: a line for each
  header before it that is there and fits the buffer, in the order of the tokens.
\<close>

lemma dump_handshake_loop_lines:
  assumes "token (int k) = None" "\<And>i. i < k \<Longrightarrow> token (int i) = Some (name i)" "int k < INT_MAX"
  shows "n \<le> k \<Longrightarrow> dump_handshake_loop token len hdr (int n) out =
     Some (out @ map (\<lambda>i. handshake_line (name i) (hdr (int i))) (filter (\<lambda>i. header_fits (len (int i))) [n..<k]))"
proof (induction "k - n" arbitrary: n out)
  case 0
  then show ?case using assms by (subst dump_handshake_loop.simps) (simp add: c_int_def is_int_def INT_MIN_def)
next
  case (Suc d)
  then have n: "n < k" by simp
  then have c: "c_int (int n + 1) = Some (int (Suc n))" using assms(3) by (simp add: c_int_def is_int_def INT_MIN_def)
  have u: "[n..<k] = n # [Suc n..<k]" using n by (rule upt_conv_Cons)
  show ?case
    using Suc.hyps(1) [of "Suc n"] Suc.hyps(2) n
    by (subst dump_handshake_loop.simps) (simp add: c assms(2) u del: of_nat_Suc)
qed

theorem dump_handshake_info_lines:
  assumes "token (int k) = None" "\<And>i. i < k \<Longrightarrow> token (int i) = Some (name i)" "int k < INT_MAX"
  shows "dump_handshake_info token len hdr =
     Some (map (\<lambda>i. handshake_line (name i) (hdr (int i))) (filter (\<lambda>i. header_fits (len (int i))) [0..<k]))"
  using dump_handshake_loop_lines [where n = 0 and out = "[]" and token = token and k = k and name = name] assms
  by (simp add: dump_handshake_info_def)

text \<open>Without such a number below the largest int the counter overflows.\<close>

lemma dump_handshake_loop_overflow:
  assumes "\<And>i. token i \<noteq> None"
  shows "int n \<le> INT_MAX \<Longrightarrow> dump_handshake_loop token len hdr (int n) out = None"
proof (induction "nat INT_MAX - n" arbitrary: n out)
  case 0
  then have "int n = INT_MAX" by (simp add: INT_MAX_def)
  then show ?case by (subst dump_handshake_loop.simps) (simp add: c_int_def is_int_def)
next
  case (Suc d)
  then have c: "c_int (int n + 1) = Some (int (Suc n))" by (simp add: c_int_def is_int_def INT_MIN_def)
  obtain c' where "token (int n) = Some c'" using assms by blast
  then show ?case using Suc.hyps(1) [of "Suc n"] Suc.hyps(2) Suc.prems
    by (subst dump_handshake_loop.simps) (simp add: c del: of_nat_Suc)
qed

end
