(* ===== verification/UtArrayFind.thy ===== *)
theory UtArrayFind
  imports UtArrayOk "HOL-Library.Multiset"
begin

text \<open>
  Searching the arrays of inc/uthash/utarray.h: utarray-find leaves the search to bsearch, which promises something only
  for an array that is in the order of the comparison, as utarray-sort leaves it; and utarray-eltidx, which turns
  the pointer found into an index.
\<close>

section \<open>The model\<close>

text \<open>
  bsearch over the elements, c being the comparison of the key with one of them: halving the part of the array
  that is left.
\<close>

function bsearch_loop :: "('e \<Rightarrow> int) \<Rightarrow> 'e list \<Rightarrow> nat \<Rightarrow> nat \<Rightarrow> nat option" where
  "bsearch_loop c xs l u =
     (if l < u then let idx = (l + u) div 2; r = c (xs ! idx) in
        if r < 0 then bsearch_loop c xs l idx
        else if 0 < r then bsearch_loop c xs (idx + 1) u
        else Some idx
      else None)"
  by pat_completeness auto
termination by (relation "measure (\<lambda>(c, xs, l, u). u - l)") auto

declare bsearch_loop.simps [simp del]

definition bsearch :: "('e \<Rightarrow> int) \<Rightarrow> 'e list \<Rightarrow> nat option" where
  "bsearch c xs = bsearch_loop c xs 0 (length xs)"

text \<open>None is an indeterminate element; the result is the index of the element found, and none is NULL.\<close>

definition utarray_find ::
  "(('e \<Rightarrow> int) \<Rightarrow> 'e list \<Rightarrow> nat option) \<Rightarrow> 'e \<Rightarrow> ('e \<Rightarrow> 'e \<Rightarrow> int) \<Rightarrow> ('e, 'w) utarray \<Rightarrow> nat option option" where
  "utarray_find bs v cmp a = (let k = unat (ua_i a) in
     if k \<le> length (ua_d a) \<and> None \<notin> set (take k (ua_d a)) then Some (bs (cmp v) (ua_elems a)) else None)"

text \<open>On addresses: d is the first slot's, e the element's.\<close>

definition utarray_eltidx :: "int \<Rightarrow> int \<Rightarrow> int \<Rightarrow> int" where
  "utarray_eltidx sz d e = (if d \<le> e then (e - d) div sz else - 1)"

lemma utarray_eltidx_slot: "0 < sz \<Longrightarrow> 0 \<le> k \<Longrightarrow> utarray_eltidx sz d (d + k * sz) = k"
  by (simp add: utarray_eltidx_def)

section \<open>What bsearch promises\<close>

text \<open>The elements before the key come first, then those equal to it, then those after it.\<close>

definition in_order :: "('e \<Rightarrow> int) \<Rightarrow> 'e list \<Rightarrow> bool" where
  "in_order c xs \<longleftrightarrow> sorted_wrt (\<lambda>x y. sgn (c y) \<le> sgn (c x)) xs"

definition found_at :: "('e \<Rightarrow> int) \<Rightarrow> 'e list \<Rightarrow> nat option \<Rightarrow> bool" where
  "found_at c xs r \<longleftrightarrow> (case r of None \<Rightarrow> \<forall>x\<in>set xs. c x \<noteq> 0 | Some k \<Rightarrow> k < length xs \<and> c (xs ! k) = 0)"

locale searching =
  fixes bs :: "('e \<Rightarrow> int) \<Rightarrow> 'e list \<Rightarrow> nat option"
  assumes finds: "in_order c xs \<Longrightarrow> found_at c xs (bs c xs)"
begin

text \<open>Searching an array that was sorted with the same comparison.\<close>

lemma find_sorted:
  assumes rep: "ua_rep icd xs a"
    and cmp: "\<And>x y. (cmp x y \<le> 0) = (0 \<le> cmp y x)" "\<And>x y z. cmp x y \<le> 0 \<Longrightarrow> cmp y z \<le> 0 \<Longrightarrow> cmp x z \<le> 0"
    and sorted: "sorted_wrt (\<lambda>x y. cmp x y \<le> 0) xs"
  obtains r where "utarray_find bs v cmp a = Some r" "found_at (cmp v) xs r"
proof -
  have t: "unat (ua_i a) = length xs" "length xs \<le> length (ua_d a)" "take (length xs) (ua_d a) = map Some xs"
    using rep by (simp_all add: ua_rep_def)
  have e: "ua_elems a = xs" using t by (simp add: ua_elems_def comp_def)
  have less: "sgn (cmp v y) \<le> sgn (cmp v x)" if "cmp x y \<le> 0" for x y
    using that cmp(1) [of v x] cmp(1) [of v y] cmp(1) [of x v] cmp(1) [of y v] cmp(2) [of y v x] cmp(2) [of v x y] cmp(2) [of x y v]
    by (auto simp: sgn_if)
  have "in_order (cmp v) xs" unfolding in_order_def by (rule sorted_wrt_mono_rel [OF _ sorted]) (rule less)
  from finds [OF this] have f: "found_at (cmp v) xs (bs (cmp v) xs)" .
  show thesis by (rule that [of "bs (cmp v) xs"]) (use t e f in \<open>auto simp: utarray_find_def Let_def\<close>)
qed

lemma sort_find:
  assumes rep: "ua_rep icd xs a"
    and cmp: "\<And>x y. (cmp x y \<le> 0) = (0 \<le> cmp y x)" "\<And>x y z. cmp x y \<le> 0 \<Longrightarrow> cmp y z \<le> 0 \<Longrightarrow> cmp x z \<le> 0"
    and Q: "mset (Q xs) = mset xs" "sorted_wrt (\<lambda>x y. cmp x y \<le> 0) (Q xs)"
  shows "\<exists>b r. utarray_sort Q a = Some b \<and> utarray_find bs v cmp b = Some r \<and>
    (case r of None \<Rightarrow> \<forall>x\<in>set xs. cmp v x \<noteq> 0
     | Some k \<Rightarrow> k < length xs \<and> ua_get b (of_nat k) = Some (Q xs ! k) \<and> Q xs ! k \<in> set xs \<and> cmp v (Q xs ! k) = 0)"
proof -
  let ?b = "a\<lparr>ua_d := map Some (Q xs) @ drop (length xs) (ua_d a)\<rparr>"
  have q: "length (Q xs) = length xs" "set (Q xs) = set xs" using Q(1) by (metis mset_eq_length, metis mset_eq_setD)
  have s: "utarray_sort Q a = Some ?b" "ua_rep icd (Q xs) ?b"
    using utarray_sort_sim [where Q = Q, OF rep q(1)] by auto
  obtain r where r: "utarray_find bs v cmp ?b = Some r" "found_at (cmp v) (Q xs) r"
    by (rule find_sorted [where v = v, OF s(2) cmp Q(2)])
  have "case r of None \<Rightarrow> \<forall>x\<in>set xs. cmp v x \<noteq> 0
     | Some k \<Rightarrow> k < length xs \<and> ua_get ?b (of_nat k) = Some (Q xs ! k) \<and> Q xs ! k \<in> set xs \<and> cmp v (Q xs ! k) = 0"
    using r(2) q ua_reads(2) [OF s(2)] nth_mem [of _ "Q xs"] by (auto simp: found_at_def split: option.splits)
  with s(1) r(1) show ?thesis by blast
qed

end

section \<open>bsearch keeps it\<close>

lemma bsearch_loop_found:
  assumes "in_order c xs"
  shows "u \<le> length xs \<Longrightarrow> (\<And>i. i < length xs \<Longrightarrow> i < l \<Longrightarrow> c (xs ! i) \<noteq> 0) \<Longrightarrow>
    (\<And>i. i < length xs \<Longrightarrow> u \<le> i \<Longrightarrow> c (xs ! i) \<noteq> 0) \<Longrightarrow> found_at c xs (bsearch_loop c xs l u)"
proof (induction "u - l" arbitrary: l u rule: less_induct)
  case less
  let ?idx = "(l + u) div 2"
  have o: "sgn (c (xs ! j)) \<le> sgn (c (xs ! i))" if "i \<le> j" "j < length xs" for i j
    using assms that sorted_wrt_nth_less [of _ xs i j] by (cases "i = j") (auto simp: in_order_def)
  show ?case
  proof (cases "l < u")
    case False
    then have "c (xs ! i) \<noteq> 0" if "i < length xs" for i using less.prems(2,3) [OF that] by linarith
    then show ?thesis using False by (subst bsearch_loop.simps) (auto simp: found_at_def in_set_conv_nth)
  next
    case True
    then have idx: "l \<le> ?idx" "?idx < u" "?idx < length xs" using less.prems(1) by auto
    consider "c (xs ! ?idx) < 0" | "c (xs ! ?idx) > 0" | "c (xs ! ?idx) = 0" by linarith
    then show ?thesis
    proof cases
      case 1
      then have "c (xs ! i) \<noteq> 0" if "i < length xs" "?idx \<le> i" for i using o [OF that(2,1)] by (auto simp: sgn_if)
      then have "found_at c xs (bsearch_loop c xs l ?idx)"
        using less.hyps [of ?idx l] idx True less.prems(1,2) by auto
      with 1 True show ?thesis by (subst bsearch_loop.simps) (simp add: Let_def)
    next
      case 2
      then have "c (xs ! i) \<noteq> 0" if "i < ?idx + 1" for i using o [of i ?idx] idx that by (auto simp: sgn_if)
      then have "found_at c xs (bsearch_loop c xs (?idx + 1) u)"
        using less.hyps [of u "?idx + 1"] idx True less.prems(1,3) by auto
      with 2 True show ?thesis by (subst bsearch_loop.simps) (simp add: Let_def)
    next
      case 3
      with True idx show ?thesis by (subst bsearch_loop.simps) (simp add: Let_def found_at_def)
    qed
  qed
qed

interpretation bs: searching bsearch
  by unfold_locales (auto simp: bsearch_def intro!: bsearch_loop_found)

text \<open>
  Sorting and then searching with the same comparison finds an element equal to the value when the array has one, and
  NULL only when it has none.
\<close>

theorem utarray_sort_find:
  assumes "ua_rep icd xs a"
    and "\<And>x y. (cmp x y \<le> 0) = (0 \<le> cmp y x)" "\<And>x y z. cmp x y \<le> 0 \<Longrightarrow> cmp y z \<le> 0 \<Longrightarrow> cmp x z \<le> 0"
    and "mset (Q xs) = mset xs" "sorted_wrt (\<lambda>x y. cmp x y \<le> 0) (Q xs)"
  shows "\<exists>b r. utarray_sort Q a = Some b \<and> utarray_find bsearch v cmp b = Some r \<and>
    (case r of None \<Rightarrow> \<forall>x\<in>set xs. cmp v x \<noteq> 0
     | Some k \<Rightarrow> k < length xs \<and> ua_get b (of_nat k) = Some (Q xs ! k) \<and> Q xs ! k \<in> set xs \<and> cmp v (Q xs ! k) = 0)"
  by (rule bs.sort_find [where cmp = cmp and Q = Q]) (rule assms; assumption?)+

text \<open>In an array that is not sorted an element may be missed.\<close>

lemma utarray_find_misses: "bsearch (\<lambda>x. 1 - x) [3, 2, 1 :: int] = None"
  by code_simp

end
