(* ===== verification/Spec2Isabelle.thy ===== *)
theory Spec2Isabelle
  imports Mirror Status PollTable DumbIncrement FileProto Http UtListTest FileClient Pthreads UtString UtDList UserTableOk UtRing EchoServerOk HashTestOk Demos
    TokenTableOk HufTableOk UtListVar SignalTest UtHashMur LwsPrivate WorkQueue Options Handshake UtArrayFind
begin

text \<open>
  A verification development for the C programs of samples/testserver: the libwebsockets test
  servers and clients with their protocols, the uthash containers they come with
  (inc/uthash), the programs that try those containers, and the libuv samples.

  Conventions.  A computation of C that may be undefined (a NULL or dangling pointer, an access
  outside a block, a signed overflow, a failed assertion) or that may not return is an option:
  None promises nothing.  Loops that are not structural are partial functions into options, so no
  fuel is chosen anywhere: that a loop returns is the theorem that it is not None.  A program that
  may exit yields a sum, Inl with the exit status.  Machine integers are words of their width
  or integers with the conversions written out (wrap-int, c-int).  What the library and the
  operating system return is a parameter: an oracle for the calls made so far (orc), the sizes
  the allocator grants (A), what fresh memory holds (junk), random numbers, clocks and input.

  Shared theories.  Prelude: C integers, bytes of words, runs that may exit.  CHeap: the heap
  of checked blocks, with the interface block-store.  CString: C strings and decimal numbers.
  LwsApi: the reasons, calls and constants of the libwebsockets API.  CList and DList: linked lists
  in memory.  MergeSort: the merge sort that the sort macros share, with the interface merge-sort
  that each of them interprets.

  The server.  Mirror (plugins/protocol-lws-mirror.c): the ring of messages of a vhost, its
  refinement to one queue per session, fan-out, teardown, and the overrun that loses messages.
  Status (plugins/protocol-lws-status.c): the list of sessions and its description in fragments.
  DumbIncrement (test-server-dumb-increment.c) and FileProto (test-server-file.c): the
  handlers of these protocols; for the file protocol also the composed system of server, client
  and network.  There a parameter pre is the number of bytes before its payload that lws-write may use: the handlers
  keep none free, so the transfer works for pre = 0 and is undefined from its first message for any other.  Http (test-server-http.c): requests, paths, sending files, the upload form with what open and write return as
  an argument;
  Handshake is its dump of a request's headers, and its poll table is PollTable, which refines a map (interface
  fd-table).  ServerMain (test-server.c):
  options, certificate paths and service loops.  Pthreads (test-server-pthreads.c): the same with
  threads, as a step relation whose lock excludes two owners.

  The clients.  Options: the option tables of servers and clients against the switches that
  handle them.  Client (test-client.c): the callbacks, rate limit and main loop.  FileClient
  (test-file-client.c): what differs in the file client.  A protocol name that one of them
  asks for and the server does not offer is the lemma below.

  The containers.  UtList and UtDList (utlist.h): every macro does to the list of nodes what its
  counterpart does to a list; singly linked, doubly linked and circular lists provide the
  interface node-list and agree with each other.  UtListVar: the macros as compilers without decltype get
  them, all but one of which agree with the others, the walks that are safe for deletion, and the searches for a value.  UtString and Kmp (utstring.h): growing strings and the two
  searches, against a specification by positions.  UtHash (uthash.h) models every macro;
  UtHashFcn the hash functions and the macros that use them, UtHashMur the one of them that
  other processors compute differently; UtHashBkt, UtHashOk and UtHashMap
  carry the invariant (one list in the application's order, one list per bucket, both
  interpretations of hh-links) through adding, expanding, deleting, sorting and the integrity check;
  UtHashSel adds selection and states what a program may rely on: a table is a finite map.  UtArray, UtArrayOk
  (utarray.h) refine lists, UtArrayStr adds arrays of strings and who owns them (interface
  owned-elems), UtArrayFind searching them (interface searching), UtRing (utringbuffer.h) refines bounded queues and uses the same interface.

  The small programs.  UtListTest (utlist-test.c).  UserTable, UserTableOk (uthash-sample.c):
  the menu refines a list of users.  HashTest, HashTestOk (uthash-test.c): the report of the
  benchmark.  EchoServer, EchoServerOk (sample-echo-server.c): every block in use belongs to a
  callback that libuv still owes, or is counted as leaked.  SignalTest (uv-signal.c): the tests of signal
  watchers, which abort exactly when a call that sets up or starts a handle fails.  Demos: the functions of uv-workqueue.c, test-tty.c and the CMake tutorial
  (cmake/tutorial); WorkQueue: uv-workqueue.c as its threads run.

  The library's headers.  TokenTable, TokenTableOk (lextable.h, lextable-strings.h and the token numbers of
  libwebsockets.h): the table of header names, in step with its strings.  HufTable, HufTableOk
  (huftable.h): the Huffman table, a complete prefix code.  LwsPrivate
  (private-libwebsockets.h): the lock of a service thread and the lookup of connections.

  Interaction.  Handlers get the library's results from the oracle and leave a trace of their
  calls; step relations (mirror-step, status-step, file-step, pt-step, wq-step, echo-run, hash-reach) put
  them into any order the library allows, and the invariants are proved by rule induction.  The
  programs on containers rest on the refinement lemmas of those: no proof about a program opens
  a macro.

  Bounds.  Hash tables hold fewer than 2 ^ 32 elements, sorts at most 2 ^ 31, arrays at most 2 ^ 31
  slots, because the counters of the code have 32 bits; beyond them the doubling loop of
  utarray-reserve never returns, unless the 32-bit sum it starts from wraps, when it returns at once without
  the room.  The allocator refuses 2 ^ 36 bytes where a bucket array
  must not outgrow its counter.

  Not modelled.  inc/libwebsockets.h and inc/private-libwebsockets.h declare a library whose
  code is not in the repository; what the programs use of it is in LwsApi, what the headers
  themselves hold in LwsPrivate.  The functions that walk the two tables belong to the library as well: the
  walks are those the comments of the tables describe.  getifaddrs.h, lejp.h, romfs.h and
  extension-permessage-deflate.h are prototypes the programs do not use.  Logging, terminal windows,
  most main functions that only set libuv up, and the build variants for other platforms are left out, as
  are the notes, scripts and build files of the repository.
\<close>

section \<open>Properties across components\<close>

text \<open>
  The names under which the programs ask for each other: the test client's two websocket
  protocols are served by both servers, but neither connection that the file client makes is:
  the server calls its file protocol by another name.
\<close>

theorem protocols_offered:
  "map protocol_name (take 2 client_protocols) = [''dumb-increment-protocol'', ''lws-mirror-protocol''] \<and>
   set (map protocol_name (take 2 client_protocols)) \<subseteq> set (map protocol_name server_protocols) \<and>
   set (map protocol_name (take 2 client_protocols)) \<subseteq> set (map protocol_name pt_protocols) \<and>
   protocol_name (fc_protocols ! 0) \<notin> set (map protocol_name server_protocols) \<and>
   protocol_name (fc_protocols ! 3) \<notin> set (map protocol_name server_protocols) \<and>
   protocol_name (server_protocols ! PROTOCOL_FILE_SERVER_SEND) = ''esk-file-protocol''"
  by (simp add: client_protocols_def server_protocols_def pt_protocols_def fc_protocols_def
      PROTOCOL_FILE_SERVER_SEND_def numeral_2_eq_2 numeral_3_eq_3)

end
